(* ===== verification/Prelude.thy ===== *)
theory Prelude
  imports Complex_Main "HOL-Library.AList" "HOL-Library.List_Lexorder" "HOL-Library.Char_ord"
begin

text \<open>
  Shared vocabulary of the development: Python exceptions as values, dictionaries with their
  insertion order, the counting facts about quorums, and the lemma collections that the
  component theories feed and use.

  Conventions. A Python dict that the code iterates over is a \<open>dict\<close>, an association list in
  insertion order with distinct keys (\<open>d[k] = v\<close> is \<open>dict_set k v d\<close>: it keeps the place of an
  existing key and appends a new one, as Python does). A dict that is only indexed is a partial
  map. A Python set is a HOL set, or a distinct list where the code iterates over it. Unbounded
  integers are \<open>int\<close>, or \<open>nat\<close> where they are lengths, indices or counters that start at zero
  and only grow. \<open>time.time()\<close> is an argument of the operation that reads the clock, of the
  ordered field \<open>rat\<close>: floats are read as exact rationals, rounding is not modelled.
\<close>

named_theorems dict_simps \<open>what the dictionary operations do to lookups and to the key order\<close>
named_theorems crdt_simps \<open>what the replicated types' operations do to their abstract views\<close>

section \<open>Exceptions\<close>

datatype py_error = ValueError | KeyError | IndexError | TypeError | AssertionError
  | OtherException string

type_synonym 'a result = "py_error + 'a"

text \<open>
  A method that mutates its object and may raise leaves the object as it was at the point of
  the exception, so its model returns the object and the result side by side.
\<close>

type_synonym ('s, 'a) outcome = "'s \<times> (py_error + 'a)"

type_synonym node_id = string
type_synonym time = rat

text \<open>Python's \<open>int\<close> of a float cuts the fraction off.\<close>

definition py_int :: "rat \<Rightarrow> int" where
  "py_int x = (if x < 0 then - \<lfloor>- x\<rfloor> else \<lfloor>x\<rfloor>)"

section \<open>Dictionaries\<close>

type_synonym ('k, 'v) dict = "('k \<times> 'v) list"

abbreviation dict_set :: "'k \<Rightarrow> 'v \<Rightarrow> ('k, 'v) dict \<Rightarrow> ('k, 'v) dict" where
  "dict_set \<equiv> AList.update"

abbreviation dict_del :: "'k \<Rightarrow> ('k, 'v) dict \<Rightarrow> ('k, 'v) dict" where
  "dict_del \<equiv> AList.delete"

abbreviation dict_wf :: "('k, 'v) dict \<Rightarrow> bool" where
  "dict_wf d \<equiv> distinct (map fst d)"

definition dict_get :: "('k, 'v) dict \<Rightarrow> 'k \<Rightarrow> 'v \<Rightarrow> 'v" where
  "dict_get d k dflt = (case map_of d k of None \<Rightarrow> dflt | Some v \<Rightarrow> v)"

lemma dict_get_Nil [simp]: "dict_get [] k v = v"
  by (simp add: dict_get_def)

lemma dict_get_set [simp]: "dict_get (dict_set k v d) k' w = (if k' = k then v else dict_get d k' w)"
  by (simp add: dict_get_def update_conv')

lemma dict_get_Some: "map_of d k = Some v \<Longrightarrow> dict_get d k w = v"
  by (simp add: dict_get_def)

lemma dict_get_None: "map_of d k = None \<Longrightarrow> dict_get d k w = w"
  by (simp add: dict_get_def)

lemma dict_wf_set [simp]: "dict_wf d \<Longrightarrow> dict_wf (dict_set k v d)"
  by (rule distinct_update)

lemma dict_wf_del [simp]: "dict_wf d \<Longrightarrow> dict_wf (dict_del k d)"
  by (rule distinct_delete)

declare update_conv' [dict_simps]
declare delete_conv' [dict_simps]

lemma dict_keys_set: "fst ` set (dict_set k v d) = insert k (fst ` set d)"
  using dom_map_of_conv_image_fst [of "dict_set k v d"] dom_map_of_conv_image_fst [of d]
  by (simp add: update_conv')

lemma dict_items_iff: "dict_wf d \<Longrightarrow> (k, v) \<in> set d \<longleftrightarrow> map_of d k = Some v"
  by simp

text \<open>The sum of the values of a dict is the sum over its keys.\<close>

lemma sum_list_dict:
  fixes d :: "('k, 'v :: comm_monoid_add) dict"
  assumes "dict_wf d"
  shows "sum_list (map snd d) = (\<Sum>k\<in>fst ` set d. dict_get d k 0)"
  using assms
proof (induction d)
  case Nil
  then show ?case by simp
next
  case (Cons p d)
  obtain k v where p: "p = (k, v)" by (cases p)
  with Cons.prems have k: "k \<notin> fst ` set d" and wf: "dict_wf d" by auto
  have "(\<Sum>k'\<in>fst ` set d. dict_get ((k, v) # d) k' 0) = (\<Sum>k'\<in>fst ` set d. dict_get d k' 0)"
    using k by (intro sum.cong refl) (auto simp: dict_get_def)
  with Cons.IH [OF wf] k p show ?case by (simp add: dict_get_def)
qed

lemma sum_dict_superset:
  fixes d :: "('k, 'v :: comm_monoid_add) dict"
  assumes "dict_wf d" and "finite K" and "fst ` set d \<subseteq> K"
  shows "sum_list (map snd d) = (\<Sum>k\<in>K. dict_get d k 0)"
proof -
  have "(\<Sum>k\<in>fst ` set d. dict_get d k 0) = (\<Sum>k\<in>K. dict_get d k 0)"
    using assms(2,3)
    by (intro sum.mono_neutral_left)
      (auto simp: dict_get_def dom_map_of_conv_image_fst [symmetric] split: option.splits)
  with sum_list_dict [OF assms(1)] show ?thesis by simp
qed

section \<open>Counting quorums\<close>

lemma card_overlap:
  assumes "finite U" and "A \<subseteq> U" and "B \<subseteq> U"
  shows "card A + card B \<le> card U + card (A \<inter> B)"
proof -
  have "finite A" and "finite B" using assms finite_subset by auto
  then have "card A + card B = card (A \<union> B) + card (A \<inter> B)" by (rule card_Un_Int)
  moreover have "card (A \<union> B) \<le> card U" using assms by (intro card_mono) auto
  ultimately show ?thesis by simp
qed

lemma quorums_meet:
  assumes "finite U" and "A \<subseteq> U" and "B \<subseteq> U" and "card U < card A + card B"
  shows "\<exists>x. x \<in> A \<and> x \<in> B"
proof -
  have "0 < card (A \<inter> B)" using card_overlap [OF assms(1-3)] assms(4) by linarith
  then have "A \<inter> B \<noteq> {}" by (metis card.empty less_irrefl)
  then show ?thesis by blast
qed

lemma majorities_meet:
  assumes "finite U" and "A \<subseteq> U" and "B \<subseteq> U"
    and "card U div 2 < card A" and "card U div 2 < card B"
  shows "\<exists>x. x \<in> A \<and> x \<in> B"
proof (rule quorums_meet [OF assms(1-3)])
  show "card U < card A + card B" using assms(4,5) by linarith
qed

text \<open>Two sets that overlap in more than the faulty members share a member that is not faulty.\<close>

lemma quorums_meet_correct:
  assumes "finite U" and "A \<subseteq> U" and "B \<subseteq> U"
    and "card U + card F < card A + card B" and "finite F"
  shows "\<exists>x. x \<in> A \<and> x \<in> B \<and> x \<notin> F"
proof (rule ccontr)
  assume "\<not> ?thesis"
  then have "A \<inter> B \<subseteq> F" by blast
  then have "card (A \<inter> B) \<le> card F" using assms(5) by (rule card_mono [rotated])
  with card_overlap [OF assms(1-3)] assms(4) show False by linarith
qed

end
