(* ===== verification/Decimal.thy ===== *)
theory Decimal
  imports Prelude
begin

text \<open>
  Decimal numerals: what Python's \<open>str\<close> writes for an integer and what \<open>int\<close> reads back, shared by the
  components that build names or snapshots from numbers.
\<close>

fun show_nat :: "nat \<Rightarrow> string" where
  "show_nat n = (if n < 10 then [char_of (48 + n)] else show_nat (n div 10) @ [char_of (48 + n mod 10)])"

declare show_nat.simps [simp del]

definition show_int :: "int \<Rightarrow> string" where
  "show_int i = (if i < 0 then CHR ''-'' # show_nat (nat (- i)) else show_nat (nat i))"

definition read_digits :: "string \<Rightarrow> nat result" where
  "read_digits s =
     (if s \<noteq> [] \<and> list_all (\<lambda>c. 48 \<le> (of_char c :: nat) \<and> (of_char c :: nat) \<le> 57) s
      then Inr (foldl (\<lambda>n c. 10 * n + (of_char c - 48)) 0 s) else Inl ValueError)"

definition read_int :: "string \<Rightarrow> int result" where
  "read_int s =
     (if s \<noteq> [] \<and> hd s = CHR ''-''
      then (case read_digits (tl s) of Inl e \<Rightarrow> Inl e | Inr n \<Rightarrow> Inr (- int n))
      else (case read_digits s of Inl e \<Rightarrow> Inl e | Inr n \<Rightarrow> Inr (int n)))"

lemma of_char_digit [simp]: "n < 10 \<Longrightarrow> (of_char (char_of (48 + n) :: char) :: nat) = 48 + n"
  by simp

lemma show_nat_not_Nil [simp]: "show_nat n \<noteq> []"
  by (subst show_nat.simps) simp

lemma show_nat_digits:
  "list_all (\<lambda>c. 48 \<le> (of_char c :: nat) \<and> (of_char c :: nat) \<le> 57) (show_nat n)"
proof (induction n rule: show_nat.induct)
  case (1 n)
  show ?case
  proof (cases "n < 10")
    case True
    then show ?thesis by (subst show_nat.simps) simp
  next
    case False
    with 1 show ?thesis by (subst show_nat.simps) (simp add: less_Suc_eq_le [symmetric])
  qed
qed

lemma read_show_nat: "foldl (\<lambda>n c. 10 * n + (of_char c - 48)) 0 (show_nat n) = n"
proof (induction n rule: show_nat.induct)
  case (1 n)
  show ?case
  proof (cases "n < 10")
    case True
    then show ?thesis by (subst show_nat.simps) simp
  next
    case False
    with 1 show ?thesis by (subst show_nat.simps) simp
  qed
qed

lemma read_digits_show [simp]: "read_digits (show_nat n) = Inr n"
  using show_nat_digits read_show_nat by (simp add: read_digits_def)

lemma hd_show_nat: "hd (show_nat n) \<noteq> CHR ''-''"
proof -
  have "48 \<le> (of_char (hd (show_nat n)) :: nat)"
    using show_nat_digits [of n] by (cases "show_nat n") auto
  then show ?thesis by auto
qed

lemma read_show_int: "read_int (show_int i) = Inr i"
  by (simp add: read_int_def show_int_def hd_show_nat)

lemma show_nat_inj: "show_nat m = show_nat n \<longleftrightarrow> m = n"
  using read_show_nat by metis

end
