(* ===== verification/Json.thy ===== *)
theory Json
  imports Prelude
begin

text \<open>
  JSON documents, as the trees that \<open>json.dumps\<close> prints and \<open>json.loads\<close> reads back. The two
  standard-library functions are inverse on the documents the repository writes (objects with
  string keys, arrays, strings, numbers, booleans, null), so a \<open>to_json\<close> method is modelled by the
  tree it prints and a \<open>from_json\<close> method by what it builds from that tree.
\<close>

datatype json = JNull | JBool bool | JInt int | JNum rat | JStr string
  | JList "json list" | JObj "(string \<times> json) list"

text \<open>\<open>data[name]\<close>: \<open>KeyError\<close> where the object has no such field, \<open>TypeError\<close> on other trees.\<close>

fun json_field :: "json \<Rightarrow> string \<Rightarrow> json result" where
  "json_field (JObj fields) name =
     (case map_of fields name of None \<Rightarrow> Inl KeyError | Some v \<Rightarrow> Inr v)"
| "json_field _ name = Inl TypeError"

text \<open>
  Fields the classes keep as strings or numbers. Python stores whatever the document holds; the
  model answers \<open>TypeError\<close> for a document whose field has another type.
\<close>

fun json_str :: "json \<Rightarrow> string result" where
  "json_str (JStr s) = Inr s"
| "json_str _ = Inl TypeError"

fun json_num :: "json \<Rightarrow> rat result" where
  "json_num (JNum x) = Inr x"
| "json_num (JInt x) = Inr (of_int x)"
| "json_num _ = Inl TypeError"

fun json_int :: "json \<Rightarrow> int result" where
  "json_int (JInt x) = Inr x"
| "json_int _ = Inl TypeError"

definition bind_result :: "'a result \<Rightarrow> ('a \<Rightarrow> 'b result) \<Rightarrow> 'b result" where
  "bind_result r f = (case r of Inl e \<Rightarrow> Inl e | Inr x \<Rightarrow> f x)"

lemma bind_result_simps [simp]:
  "bind_result (Inl e) f = Inl e" "bind_result (Inr x) f = f x"
  by (simp_all add: bind_result_def)

text \<open>Decoding every element of a list, optional fields, booleans.\<close>

fun all_results :: "('a \<Rightarrow> 'b result) \<Rightarrow> 'a list \<Rightarrow> 'b list result" where
  "all_results f [] = Inr []"
| "all_results f (x # xs) = bind_result (f x) (\<lambda>y. bind_result (all_results f xs) (\<lambda>ys. Inr (y # ys)))"

fun json_list :: "(json \<Rightarrow> 'a result) \<Rightarrow> json \<Rightarrow> 'a list result" where
  "json_list f (JList xs) = all_results f xs"
| "json_list f _ = Inl TypeError"

fun json_opt :: "(json \<Rightarrow> 'a result) \<Rightarrow> json \<Rightarrow> 'a option result" where
  "json_opt f JNull = Inr None"
| "json_opt f j = bind_result (f j) (\<lambda>x. Inr (Some x))"

fun json_bool :: "json \<Rightarrow> bool result" where
  "json_bool (JBool b) = Inr b"
| "json_bool _ = Inl TypeError"

lemma all_results_map: "(\<And>x. f (g x) = Inr (h x)) \<Longrightarrow> all_results f (map g xs) = Inr (map h xs)"
  by (induction xs) simp_all

section \<open>Python values\<close>

text \<open>
  What a program may hand to \<open>json.dumps\<close>, and the elements of its sets. \<open>PObject\<close> is a value that
  cannot be printed (bytes, a set, an instance of a class), for which \<open>json.dumps\<close> raises
  \<open>TypeError\<close>; tuples are printed as lists. The keys of a dict are strings here (\<open>json.dumps\<close> would
  turn a number used as a key into a string), and values that Python holds for equal, as \<open>1\<close> and
  \<open>True\<close>, are kept apart.
\<close>

datatype pyval = PNone | PBool bool | PInt int | PFloat rat | PStr string | PTuple "pyval list"
  | PList "pyval list" | PDict "(string \<times> pyval) list" | PObject string

text \<open>\<open>json.dumps\<close>.\<close>

fun val_to_json :: "pyval \<Rightarrow> json result"
  and vals_to_json :: "pyval list \<Rightarrow> json list result"
  and members_to_json :: "(string \<times> pyval) list \<Rightarrow> (string \<times> json) list result" where
  "val_to_json PNone = Inr JNull"
| "val_to_json (PBool b) = Inr (JBool b)"
| "val_to_json (PInt i) = Inr (JInt i)"
| "val_to_json (PFloat x) = Inr (JNum x)"
| "val_to_json (PStr s) = Inr (JStr s)"
| "val_to_json (PTuple vs) = bind_result (vals_to_json vs) (\<lambda>js. Inr (JList js))"
| "val_to_json (PList vs) = bind_result (vals_to_json vs) (\<lambda>js. Inr (JList js))"
| "val_to_json (PDict ms) = bind_result (members_to_json ms) (\<lambda>js. Inr (JObj js))"
| "val_to_json (PObject name) = Inl TypeError"
| "vals_to_json [] = Inr []"
| "vals_to_json (v # vs) = bind_result (val_to_json v) (\<lambda>j. bind_result (vals_to_json vs) (\<lambda>js. Inr (j # js)))"
| "members_to_json [] = Inr []"
| "members_to_json ((k, v) # ms) =
     bind_result (val_to_json v) (\<lambda>j. bind_result (members_to_json ms) (\<lambda>js. Inr ((k, j) # js)))"

text \<open>\<open>json.loads\<close>.\<close>

fun val_from_json :: "json \<Rightarrow> pyval"
  and vals_from_json :: "json list \<Rightarrow> pyval list"
  and members_from_json :: "(string \<times> json) list \<Rightarrow> (string \<times> pyval) list" where
  "val_from_json JNull = PNone"
| "val_from_json (JBool b) = PBool b"
| "val_from_json (JInt i) = PInt i"
| "val_from_json (JNum x) = PFloat x"
| "val_from_json (JStr s) = PStr s"
| "val_from_json (JList js) = PList (vals_from_json js)"
| "val_from_json (JObj js) = PDict (members_from_json js)"
| "vals_from_json [] = []"
| "vals_from_json (j # js) = val_from_json j # vals_from_json js"
| "members_from_json [] = []"
| "members_from_json ((k, j) # js) = (k, val_from_json j) # members_from_json js"

text \<open>A value that can be printed, and the value with its tuples turned into lists.\<close>

fun printable :: "pyval \<Rightarrow> bool" where
  "printable (PTuple vs) = list_all printable vs"
| "printable (PList vs) = list_all printable vs"
| "printable (PDict ms) = list_all (\<lambda>m. printable (snd m)) ms"
| "printable (PObject name) = False"
| "printable _ = True"

fun tuples_as_lists :: "pyval \<Rightarrow> pyval" where
  "tuples_as_lists (PTuple vs) = PList (map tuples_as_lists vs)"
| "tuples_as_lists (PList vs) = PList (map tuples_as_lists vs)"
| "tuples_as_lists (PDict ms) = PDict (map (\<lambda>m. (fst m, tuples_as_lists (snd m))) ms)"
| "tuples_as_lists v = v"

text \<open>A value without tuples is one that JSON can carry unchanged.\<close>

fun tuple_free :: "pyval \<Rightarrow> bool" where
  "tuple_free (PTuple vs) = False"
| "tuple_free (PList vs) = list_all tuple_free vs"
| "tuple_free (PDict ms) = list_all (\<lambda>m. tuple_free (snd m)) ms"
| "tuple_free v = True"

lemma val_roundtrip:
  "bind_result (val_to_json v) (\<lambda>j. Inr (val_from_json j)) =
     (if printable v then Inr (tuples_as_lists v) else Inl TypeError)"
  "bind_result (vals_to_json vs) (\<lambda>js. Inr (vals_from_json js)) =
     (if list_all printable vs then Inr (map tuples_as_lists vs) else Inl TypeError)"
  "bind_result (members_to_json ms) (\<lambda>js. Inr (members_from_json js)) =
     (if list_all (\<lambda>m. printable (snd m)) ms then Inr (map (\<lambda>m. (fst m, tuples_as_lists (snd m))) ms) else Inl TypeError)"
  by (induction v and vs and ms rule: val_to_json_vals_to_json_members_to_json.induct)
    (auto simp: bind_result_def split: sum.splits if_splits)

lemma val_to_json_error:
  "val_to_json v = Inl e \<Longrightarrow> e = TypeError"
  "vals_to_json vs = Inl e \<Longrightarrow> e = TypeError"
  "members_to_json ms = Inl e \<Longrightarrow> e = TypeError"
  by (induction v and vs and ms rule: val_to_json_vals_to_json_members_to_json.induct)
    (auto simp: bind_result_def split: sum.splits)

lemma tuples_as_lists_eq: "tuples_as_lists v = v \<longleftrightarrow> tuple_free v"
proof (induction v rule: tuple_free.induct)
  case (2 vs)
  then show ?case by (induction vs) auto
next
  case (3 ms)
  then show ?case by (induction ms) (auto simp: prod_eq_iff)
qed auto

end
