(* ===== verification/Crdt_Base.thy ===== *)
theory Crdt_Base
  imports Prelude
begin

text \<open>
  The contract every replicated data type of \<open>crdt/src\<close> promises (the docstring of
  \<open>CRDT.merge\<close> and the "Convergence Properties" of the README), as a locale, and the two loops
  that the counters and the causal context share: the element-wise maximum of two dicts and
  their four-way comparison.
\<close>

section \<open>The contract of a state-based replicated type\<close>

text \<open>
  \<open>merge s t\<close> is the state of a replica after \<open>s.merge(t)\<close>; \<open>view\<close> forgets what is private to
  the replica (its identifier, the order of its dicts); \<open>ok\<close> is the type's invariant. On views
  a merge is a join: associative, commutative and idempotent.
\<close>

locale join_crdt =
  fixes merge :: "'s \<Rightarrow> 's \<Rightarrow> 's"
    and view :: "'s \<Rightarrow> 'v"
    and join :: "'v \<Rightarrow> 'v \<Rightarrow> 'v"
    and ok :: "'s \<Rightarrow> bool"
  assumes ok_merge: "ok s \<Longrightarrow> ok t \<Longrightarrow> ok (merge s t)"
    and view_merge: "ok s \<Longrightarrow> ok t \<Longrightarrow> view (merge s t) = join (view s) (view t)"
    and join_assoc: "ok s \<Longrightarrow> ok t \<Longrightarrow> ok u \<Longrightarrow>
      join (join (view s) (view t)) (view u) = join (view s) (join (view t) (view u))"
    and join_commute: "ok s \<Longrightarrow> ok t \<Longrightarrow> join (view s) (view t) = join (view t) (view s)"
    and join_idem: "ok s \<Longrightarrow> join (view s) (view s) = view s"
begin

definition below :: "'s \<Rightarrow> 's \<Rightarrow> bool" where
  "below s t \<longleftrightarrow> join (view s) (view t) = view t"

lemma below_refl: "ok s \<Longrightarrow> below s s"
  by (simp add: below_def join_idem)

lemma below_antisym: "ok s \<Longrightarrow> ok t \<Longrightarrow> below s t \<Longrightarrow> below t s \<Longrightarrow> view s = view t"
  unfolding below_def by (metis join_commute)

lemma below_trans:
  assumes "ok s" "ok t" "ok u" "below s t" "below t u"
  shows "below s u"
  using assms unfolding below_def by (metis join_assoc)

lemma below_merge1: "ok s \<Longrightarrow> ok t \<Longrightarrow> below s (merge s t)"
  unfolding below_def by (metis join_assoc join_idem view_merge)

lemma below_merge2: "ok s \<Longrightarrow> ok t \<Longrightarrow> below t (merge s t)"
  unfolding below_def by (metis join_assoc join_commute join_idem view_merge)

lemma merge_least:
  assumes "ok s" "ok t" "ok u" "below s u" "below t u"
  shows "below (merge s t) u"
  using assms unfolding below_def by (metis join_assoc view_merge)

lemma merge_commutes: "ok s \<Longrightarrow> ok t \<Longrightarrow> view (merge s t) = view (merge t s)"
  by (simp add: view_merge join_commute)

lemma merge_idempotent: "ok s \<Longrightarrow> ok t \<Longrightarrow> view (merge (merge s t) t) = view (merge s t)"
  by (metis below_def below_merge2 join_commute ok_merge view_merge)

text \<open>A replica that receives a sequence of states, in any order, with any repetitions.\<close>

abbreviation merge_all :: "'s \<Rightarrow> 's list \<Rightarrow> 's" where
  "merge_all \<equiv> foldl merge"

lemma merge_all_ok: "ok s \<Longrightarrow> \<forall>x\<in>set xs. ok x \<Longrightarrow> ok (merge_all s xs)"
  by (induction xs arbitrary: s) (auto intro: ok_merge)

lemma merge_all_upper:
  "ok s \<Longrightarrow> \<forall>x\<in>set xs. ok x \<Longrightarrow> y \<in> insert s (set xs) \<Longrightarrow> below y (merge_all s xs)"
proof (induction xs arbitrary: s y)
  case Nil
  then show ?case by (simp add: below_refl)
next
  case (Cons x xs)
  then have ok: "ok s" "ok x" "\<forall>x\<in>set xs. ok x" by auto
  have step: "below z (merge_all (merge s x) xs)" if "z \<in> insert (merge s x) (set xs)" for z
    using Cons.IH [of "merge s x" z] ok ok_merge that by auto
  have end_ok: "ok (merge_all (merge s x) xs)"
    using ok by (intro merge_all_ok ok_merge)
  have "below s (merge_all (merge s x) xs)" "below x (merge_all (merge s x) xs)"
    using below_trans [OF ok(1) _ end_ok below_merge1 [OF ok(1,2)]]
      below_trans [OF ok(2) _ end_ok below_merge2 [OF ok(1,2)]] step ok ok_merge by auto
  then show ?case using Cons.prems(3) step by auto
qed

lemma merge_all_least:
  "ok s \<Longrightarrow> \<forall>x\<in>set xs. ok x \<Longrightarrow> ok u \<Longrightarrow> \<forall>y\<in>insert s (set xs). below y u \<Longrightarrow>
    below (merge_all s xs) u"
  by (induction xs arbitrary: s) (auto intro!: ok_merge merge_least)

text \<open>
  Strong eventual consistency: two replicas that have received the same states, each in its own
  order and with its own repetitions, have the same view.
\<close>

lemma converge:
  assumes "ok s" and "\<forall>x\<in>set xs. ok x" and "ok t" and "\<forall>y\<in>set ys. ok y"
    and "view ` insert s (set xs) = view ` insert t (set ys)"
  shows "view (merge_all s xs) = view (merge_all t ys)"
proof -
  have oks: "ok (merge_all s xs)" "ok (merge_all t ys)" using assms merge_all_ok by auto
  have transfer: "below y (merge_all u us)"
    if "ok u" "\<forall>x\<in>set us. ok x" "view y \<in> view ` insert u (set us)" for y u us
    using merge_all_upper [OF that(1,2)] that(3) unfolding below_def by auto
  have "below (merge_all s xs) (merge_all t ys)"
    using assms oks by (intro merge_all_least) (auto intro!: transfer)
  moreover have "below (merge_all t ys) (merge_all s xs)"
    using assms oks by (intro merge_all_least) (auto intro!: transfer)
  ultimately show ?thesis using oks by (intro below_antisym)
qed

end

section \<open>The element-wise maximum\<close>

text \<open>
  \<^verbatim>\<open>
  for node, count in other.items():
      d[node] = max(d.get(node, 0), count)
  \<close>
\<close>

definition max_merge :: "('k, int) dict \<Rightarrow> ('k, int) dict \<Rightarrow> ('k, int) dict" where
  "max_merge d other =
     foldl (\<lambda>d (node, count). dict_set node (max (dict_get d node 0) count) d) d other"

text \<open>The abstract value of such a dict: a missing key counts as 0.\<close>

definition vec :: "('k, int) dict \<Rightarrow> 'k \<Rightarrow> int" where
  "vec d k = dict_get d k 0"

definition nonneg :: "('k, int) dict \<Rightarrow> bool" where
  "nonneg d \<longleftrightarrow> list_all (\<lambda>(k, c). 0 \<le> c) d"

lemma vec_Nil [crdt_simps]: "vec [] k = 0"
  by (simp add: vec_def)

lemma vec_set [crdt_simps]: "vec (dict_set k c d) = (vec d)(k := c)"
  by (auto simp: vec_def)

lemma nonneg_vec: "nonneg d \<Longrightarrow> 0 \<le> vec d k"
  by (auto simp: nonneg_def vec_def dict_get_def list_all_iff dest: map_of_SomeD split: option.splits)

lemma nonneg_set: "nonneg d \<Longrightarrow> 0 \<le> c \<Longrightarrow> nonneg (dict_set k c d)"
  unfolding nonneg_def by (induction d) auto

lemma vec_outside: "k \<notin> fst ` set d \<Longrightarrow> vec d k = 0"
  by (simp add: vec_def dict_get_None map_of_eq_None_iff)

lemma max_merge_Cons:
  "max_merge d ((k, c) # other) = max_merge (dict_set k (max (vec d k) c) d) other"
  by (simp add: max_merge_def vec_def)

lemma max_merge_Nil [simp]: "max_merge d [] = d"
  by (simp add: max_merge_def)

lemma max_merge_wf: "dict_wf d \<Longrightarrow> dict_wf (max_merge d other)"
  by (induction other arbitrary: d) (auto simp: max_merge_Cons simp flip: max_merge_def)

lemma max_merge_nonneg: "nonneg d \<Longrightarrow> nonneg (max_merge d other)"
proof (induction other arbitrary: d)
  case (Cons p other)
  then show ?case
    by (cases p) (simp add: max_merge_Cons nonneg_vec nonneg_set le_max_iff_disj)
qed simp

lemma max_merge_keys: "fst ` set (max_merge d other) = fst ` set d \<union> fst ` set other"
proof (induction other arbitrary: d)
  case (Cons p other)
  then show ?case by (cases p) (auto simp: max_merge_Cons dict_keys_set)
qed simp

lemma vec_Cons: "vec ((k, c) # d) = (vec d)(k := c)"
  by (auto simp: vec_def dict_get_def)

lemma vec_max_merge:
  "dict_wf other \<Longrightarrow> nonneg d \<Longrightarrow> nonneg other \<Longrightarrow> vec (max_merge d other) k = max (vec d k) (vec other k)"
proof (induction other arbitrary: d)
  case Nil
  then show ?case by (simp add: vec_Nil nonneg_vec max_absorb1)
next
  case (Cons p other)
  obtain j c where p: "p = (j, c)" by (cases p)
  with Cons.prems have pre: "dict_wf other" "nonneg other" "0 \<le> c" "j \<notin> fst ` set other"
    by (auto simp: nonneg_def)
  have d': "nonneg (dict_set j (max (vec d j) c) d)"
    using Cons.prems(2) pre(3) by (auto intro!: nonneg_set)
  show ?case
    using Cons.IH [OF pre(1) d' pre(2)] nonneg_vec [OF Cons.prems(2), of k] pre
    by (auto simp: p max_merge_Cons vec_set vec_Cons vec_outside)
qed

section \<open>The four-way comparison\<close>

datatype vorder = Less | Greater | Equal | Concurrent

text \<open>
  The loop of \<open>compare\<close> over the union of the keys, with its two flags. The order in which a
  Python set is iterated is not specified; \<open>nodes\<close> is any enumeration of the union.
\<close>

definition compare_on :: "'k list \<Rightarrow> ('k, int) dict \<Rightarrow> ('k, int) dict \<Rightarrow> vorder" where
  "compare_on nodes d other =
     (let (less, greater) =
        foldl (\<lambda>(less, greater) node.
          let c1 = dict_get d node 0; c2 = dict_get other node 0
          in if c1 < c2 then (True, greater) else if c1 > c2 then (less, True) else (less, greater))
        (False, False) nodes
      in if less \<and> greater then Concurrent else if less then Less
         else if greater then Greater else Equal)"

definition all_keys :: "('k, 'a) dict \<Rightarrow> ('k, 'a) dict \<Rightarrow> 'k list" where
  "all_keys d other = remdups (map fst d @ map fst other)"

lemma compare_flags:
  "foldl (\<lambda>(less, greater) node.
      let c1 = dict_get d node 0; c2 = dict_get other node 0
      in if c1 < c2 then (True, greater) else if c1 > c2 then (less, True) else (less, greater))
    (l, g) nodes =
   (l \<or> (\<exists>k\<in>set nodes. vec d k < vec other k), g \<or> (\<exists>k\<in>set nodes. vec other k < vec d k))"
  by (induction nodes arbitrary: l g) (auto simp: Let_def vec_def)

lemma compare_on_iff:
  assumes "set nodes = fst ` set d \<union> fst ` set other"
  shows "compare_on nodes d other =
    (if (\<forall>k. vec d k = vec other k) then Equal
     else if (\<forall>k. vec d k \<le> vec other k) then Less
     else if (\<forall>k. vec other k \<le> vec d k) then Greater else Concurrent)"
proof -
  have outside: "vec d k = vec other k" if "k \<notin> set nodes" for k
    using that assms by (simp add: vec_outside)
  have lt: "(\<exists>k\<in>set nodes. vec d k < vec other k) \<longleftrightarrow> (\<exists>k. vec d k < vec other k)"
    and gt: "(\<exists>k\<in>set nodes. vec other k < vec d k) \<longleftrightarrow> (\<exists>k. vec other k < vec d k)"
    using outside by (metis less_irrefl)+
  show ?thesis
    unfolding compare_on_def compare_flags lt gt
    by (auto simp: not_less not_le antisym intro: order_antisym dest: leD)
qed

lemma set_all_keys [simp]: "set (all_keys d other) = fst ` set d \<union> fst ` set other"
  by (simp add: all_keys_def)

end
