(* ===== verification/Crdt_Counters.thy ===== *)
theory Crdt_Counters
  imports Crdt_Base
begin

text \<open>
  The counters and the causal context: \<open>crdt/src/g_counter.py\<close>, \<open>pn_counter.py\<close> and
  \<open>causal_context.py\<close>. A record per class, one definition per method. Both counters and the
  context are shown to meet the contract of \<^theory_text>\<open>Crdt_Base\<close>, and a system of G-Counter
  replicas that exchange states neither loses nor repeats an increment.
\<close>

section \<open>GCounter\<close>

record gcounter =
  gc_node_id :: node_id
  gc_counts :: "(node_id, int) dict"

definition gcounter_init :: "node_id \<Rightarrow> gcounter" where
  "gcounter_init node_id = \<lparr>gc_node_id = node_id, gc_counts = [(node_id, 0)]\<rparr>"

definition gcounter_increment :: "gcounter \<Rightarrow> int \<Rightarrow> gcounter result" where
  "gcounter_increment c value' =
     (if value' < 0 then Inl ValueError
      else Inr (c\<lparr>gc_counts :=
        dict_set (gc_node_id c) (dict_get (gc_counts c) (gc_node_id c) 0 + value') (gc_counts c)\<rparr>))"

definition gcounter_value :: "gcounter \<Rightarrow> int" where
  "gcounter_value c = sum_list (map snd (gc_counts c))"

definition gcounter_merge :: "gcounter \<Rightarrow> gcounter \<Rightarrow> gcounter" where
  "gcounter_merge c other = c\<lparr>gc_counts := max_merge (gc_counts c) (gc_counts other)\<rparr>"

definition gcounter_get_state :: "gcounter \<Rightarrow> (node_id, int) dict" where
  "gcounter_get_state c = gc_counts c"

definition gcounter_set_state :: "gcounter \<Rightarrow> (node_id, int) dict \<Rightarrow> gcounter" where
  "gcounter_set_state c state = c\<lparr>gc_counts := state\<rparr>"

definition gcounter_compare :: "gcounter \<Rightarrow> gcounter \<Rightarrow> vorder" where
  "gcounter_compare c other =
     compare_on (all_keys (gc_counts c) (gc_counts other)) (gc_counts c) (gc_counts other)"

definition gcounter_ok :: "gcounter \<Rightarrow> bool" where
  "gcounter_ok c \<longleftrightarrow> dict_wf (gc_counts c) \<and> nonneg (gc_counts c)"

definition gcounter_view :: "gcounter \<Rightarrow> node_id \<Rightarrow> int" where
  "gcounter_view c = vec (gc_counts c)"

definition max_join :: "('k \<Rightarrow> int) \<Rightarrow> ('k \<Rightarrow> int) \<Rightarrow> 'k \<Rightarrow> int" where
  "max_join u v = (\<lambda>k. max (u k) (v k))"

lemma gcounter_ok_init [simp]: "gcounter_ok (gcounter_init i)"
  by (simp add: gcounter_ok_def gcounter_init_def nonneg_def)

lemma gcounter_init_node [simp]: "gc_node_id (gcounter_init i) = i"
  by (simp add: gcounter_init_def)

lemma gcounter_init_view: "gcounter_view (gcounter_init i) k = 0"
  by (simp add: gcounter_view_def gcounter_init_def vec_def dict_get_def)

lemma gcounter_ok_merge [simp]:
  "gcounter_ok s \<Longrightarrow> gcounter_ok t \<Longrightarrow> gcounter_ok (gcounter_merge s t)"
  by (simp add: gcounter_ok_def gcounter_merge_def max_merge_wf max_merge_nonneg)

lemma gcounter_view_merge:
  "gcounter_ok s \<Longrightarrow> gcounter_ok t \<Longrightarrow>
    gcounter_view (gcounter_merge s t) = max_join (gcounter_view s) (gcounter_view t)"
  by (auto simp: gcounter_ok_def gcounter_view_def gcounter_merge_def max_join_def vec_max_merge)

lemma gcounter_node_merge [simp]: "gc_node_id (gcounter_merge s t) = gc_node_id s"
  by (simp add: gcounter_merge_def)

interpretation gcounter: join_crdt gcounter_merge gcounter_view max_join gcounter_ok
  by unfold_locales (auto simp: gcounter_view_merge max_join_def max.assoc max.commute)

lemma gcounter_increment_cases:
  "gcounter_increment c v = Inr c' \<Longrightarrow>
    0 \<le> v \<and> gc_node_id c' = gc_node_id c \<and>
    gcounter_view c' = (gcounter_view c)(gc_node_id c := gcounter_view c (gc_node_id c) + v)"
  by (auto simp: gcounter_increment_def gcounter_view_def vec_set vec_def split: if_splits)

lemma gcounter_ok_increment:
  "gcounter_ok c \<Longrightarrow> gcounter_increment c v = Inr c' \<Longrightarrow> gcounter_ok c'"
  by (auto simp: gcounter_increment_def gcounter_ok_def nonneg_vec [unfolded vec_def]
      intro!: nonneg_set split: if_splits)

lemma gcounter_view_nonneg: "gcounter_ok c \<Longrightarrow> 0 \<le> gcounter_view c k"
  by (simp add: gcounter_ok_def gcounter_view_def nonneg_vec)

lemma gcounter_value_sum:
  assumes "gcounter_ok c" and "finite K" and "\<forall>k. k \<notin> K \<longrightarrow> gcounter_view c k = 0"
  shows "gcounter_value c = (\<Sum>k\<in>K. gcounter_view c k)"
proof -
  let ?U = "K \<union> fst ` set (gc_counts c)"
  have "gcounter_value c = (\<Sum>k\<in>?U. vec (gc_counts c) k)"
    unfolding gcounter_value_def vec_def
    using assms by (intro sum_dict_superset) (auto simp: gcounter_ok_def)
  also have "\<dots> = (\<Sum>k\<in>K. vec (gc_counts c) k)"
    using assms by (intro sum.mono_neutral_right) (auto simp: gcounter_view_def)
  finally show ?thesis by (simp add: gcounter_view_def)
qed

section \<open>A system of G-Counter replicas\<close>

text \<open>
  The replicas \<open>i\<close> of a set \<open>N\<close>, each with its own \<open>node_id\<close>; a state that has been sent stays
  deliverable for ever, so it may arrive late, repeatedly, in any order, or never. \<open>incs\<close> is the
  history: the sum of the increments requested of each replica.
\<close>

record gc_system =
  gs_replicas :: "node_id \<Rightarrow> gcounter"
  gs_sent :: "gcounter set"
  gs_incs :: "node_id \<Rightarrow> int"

inductive gc_reachable :: "node_id set \<Rightarrow> gc_system \<Rightarrow> bool" for N :: "node_id set" where
  gc_start: "gc_reachable N \<lparr>gs_replicas = gcounter_init, gs_sent = {}, gs_incs = (\<lambda>_. 0)\<rparr>"
| gc_inc: "gc_reachable N s \<Longrightarrow> i \<in> N \<Longrightarrow> gcounter_increment (gs_replicas s i) v = Inr c \<Longrightarrow>
    gc_reachable N (s\<lparr>gs_replicas := (gs_replicas s)(i := c),
                      gs_incs := (gs_incs s)(i := gs_incs s i + v)\<rparr>)"
| gc_send: "gc_reachable N s \<Longrightarrow> i \<in> N \<Longrightarrow>
    gc_reachable N (s\<lparr>gs_sent := insert (gs_replicas s i) (gs_sent s)\<rparr>)"
| gc_recv: "gc_reachable N s \<Longrightarrow> i \<in> N \<Longrightarrow> m \<in> gs_sent s \<Longrightarrow>
    gc_reachable N (s\<lparr>gs_replicas := (gs_replicas s)(i := gcounter_merge (gs_replicas s i) m)\<rparr>)"

definition gc_knows :: "node_id set \<Rightarrow> (node_id \<Rightarrow> int) \<Rightarrow> gcounter \<Rightarrow> bool" where
  "gc_knows N incs c \<longleftrightarrow> gcounter_ok c \<and> (\<forall>k. gcounter_view c k \<le> incs k)"

definition gc_inv :: "node_id set \<Rightarrow> gc_system \<Rightarrow> bool" where
  "gc_inv N s \<longleftrightarrow>
     (\<forall>i. gc_knows N (gs_incs s) (gs_replicas s i) \<and> gc_node_id (gs_replicas s i) = i \<and>
          gcounter_view (gs_replicas s i) i = gs_incs s i) \<and>
     (\<forall>m\<in>gs_sent s. gc_knows N (gs_incs s) m) \<and>
     (\<forall>i. i \<notin> N \<longrightarrow> gs_incs s i = 0)"

lemma gc_knows_merge:
  "gc_knows N incs c \<Longrightarrow> gc_knows N incs m \<Longrightarrow> gc_knows N incs (gcounter_merge c m)"
  by (auto simp: gc_knows_def gcounter_view_merge max_join_def)

lemma gc_knows_mono: "gc_knows N incs c \<Longrightarrow> 0 \<le> v \<Longrightarrow> gc_knows N (incs(i := incs i + v)) c"
  by (fastforce simp: gc_knows_def intro: order_trans)

lemma gc_reachable_inv: "gc_reachable N s \<Longrightarrow> gc_inv N s"
proof (induction rule: gc_reachable.induct)
  case gc_start
  show ?case by (simp add: gc_inv_def gc_knows_def gcounter_init_view)
next
  case (gc_inc s i v c)
  let ?incs = "(gs_incs s)(i := gs_incs s i + v)"
  have old: "gc_knows N (gs_incs s) (gs_replicas s i)" "gc_node_id (gs_replicas s i) = i"
    "gcounter_view (gs_replicas s i) i = gs_incs s i"
    using gc_inc.IH by (auto simp: gc_inv_def)
  have c: "0 \<le> v" "gc_node_id c = i"
    "gcounter_view c = (gcounter_view (gs_replicas s i))(i := gs_incs s i + v)"
    using gcounter_increment_cases [OF gc_inc.hyps(3)] old by auto
  have "gcounter_ok c"
    using old(1) gc_inc.hyps(3) by (auto simp: gc_knows_def intro: gcounter_ok_increment)
  then have "gc_knows N ?incs c" using old(1) c by (auto simp: gc_knows_def)
  moreover have "gc_knows N ?incs x" if "gc_knows N (gs_incs s) x" for x
    using that c(1) by (rule gc_knows_mono)
  ultimately show ?case using gc_inc.IH gc_inc.hyps(2) c by (simp add: gc_inv_def)
next
  case (gc_send s i)
  then show ?case by (auto simp: gc_inv_def)
next
  case (gc_recv s i m)
  then have "gc_knows N (gs_incs s) (gcounter_merge (gs_replicas s i) m)"
    by (auto simp: gc_inv_def intro: gc_knows_merge)
  moreover have "gcounter_view (gcounter_merge (gs_replicas s i) m) i = gs_incs s i"
    using gc_recv by (auto simp: gc_inv_def gc_knows_def gcounter_view_merge max_join_def)
  ultimately show ?case using gc_recv by (auto simp: gc_inv_def)
qed

lemma gc_value_bound:
  assumes "gc_knows N incs c" and "finite N" and "\<forall>i. i \<notin> N \<longrightarrow> incs i = 0"
  shows "gcounter_value c \<le> (\<Sum>i\<in>N. incs i)"
proof -
  have "gcounter_view c k = 0" if "k \<notin> N" for k
    using assms(1,3) that gcounter_view_nonneg [of c k] by (metis antisym gc_knows_def)
  then have "gcounter_value c = (\<Sum>k\<in>N. gcounter_view c k)"
    using assms by (intro gcounter_value_sum) (auto simp: gc_knows_def)
  also have "\<dots> \<le> (\<Sum>i\<in>N. incs i)"
    using assms(1) by (intro sum_mono) (simp add: gc_knows_def)
  finally show ?thesis .
qed

text \<open>The states of all replicas, merged into any of them, account for every increment.\<close>

lemma gc_collect_view:
  assumes "gc_inv N s" and "set xs \<subseteq> gs_replicas s ` N" and "i \<in> N"
    and "gcounter_view c k \<le> gs_incs s k" and "gcounter_ok c"
  shows "gcounter_view (gcounter.merge_all c xs) k \<le> gs_incs s k \<and>
    (gs_replicas s k \<in> set xs \<longrightarrow> gcounter_view (gcounter.merge_all c xs) k = gs_incs s k)"
  using assms(2,4,5)
proof (induction xs rule: rev_induct)
  case Nil
  then show ?case by simp
next
  case (snoc x xs)
  let ?m = "gcounter.merge_all c xs"
  have x: "gcounter_ok x" "gcounter_view x k \<le> gs_incs s k"
    using snoc.prems(1) assms(1) by (auto simp: gc_inv_def gc_knows_def)
  have "gcounter_ok ?m"
    using snoc.prems assms(1) by (intro gcounter.merge_all_ok) (auto simp: gc_inv_def gc_knows_def)
  then have "gcounter_view (gcounter.merge_all c (xs @ [x])) k =
      max (gcounter_view ?m k) (gcounter_view x k)"
    using x(1) by (simp add: gcounter_view_merge max_join_def)
  moreover have "x = gs_replicas s k \<longrightarrow> gcounter_view x k = gs_incs s k"
    using assms(1) by (auto simp: gc_inv_def)
  ultimately show ?case using snoc x by auto
qed

text \<open>
  C1. In every reachable state of a system of G-Counter replicas, whatever was delivered late,
  repeatedly or out of order, no replica reports more than the increments that were made, and a
  replica that merges the states of all replicas, in any order and with any repetitions, reports
  exactly their sum: no increment is lost and none is counted twice.
\<close>

theorem gcounter_exact:
  assumes "gc_reachable N s" and "finite N" and "i \<in> N" and "set xs = gs_replicas s ` N"
  shows "gcounter_value (gs_replicas s i) \<le> (\<Sum>j\<in>N. gs_incs s j) \<and>
    gcounter_value (foldl gcounter_merge (gs_replicas s i) xs) = (\<Sum>j\<in>N. gs_incs s j)"
proof
  have inv: "gc_inv N s" using assms(1) by (rule gc_reachable_inv)
  then have i: "gc_knows N (gs_incs s) (gs_replicas s i)" and out: "\<forall>i. i \<notin> N \<longrightarrow> gs_incs s i = 0"
    by (auto simp: gc_inv_def)
  show "gcounter_value (gs_replicas s i) \<le> (\<Sum>j\<in>N. gs_incs s j)"
    by (rule gc_value_bound [OF i assms(2) out])
  let ?c = "foldl gcounter_merge (gs_replicas s i) xs"
  have ok: "gcounter_ok ?c"
    using inv assms(4) i by (intro gcounter.merge_all_ok) (auto simp: gc_inv_def gc_knows_def)
  have view: "gcounter_view ?c k \<le> gs_incs s k" "k \<in> N \<longrightarrow> gcounter_view ?c k = gs_incs s k" for k
    using gc_collect_view [OF inv _ assms(3), of xs "gs_replicas s i" k] assms(4) i
    by (auto simp: gc_knows_def)
  have "gcounter_view ?c k = 0" if "k \<notin> N" for k
    using view(1) [of k] gcounter_view_nonneg [OF ok, of k] out that by simp
  then have "gcounter_value ?c = (\<Sum>k\<in>N. gcounter_view ?c k)"
    using ok assms(2) by (intro gcounter_value_sum) auto
  then show "gcounter_value ?c = (\<Sum>j\<in>N. gs_incs s j)" using view(2) by simp
qed

theorem gcounter_exact_witness:
  "\<exists>s. gc_reachable {''a'', ''b''} s \<and>
    gcounter_value (foldl gcounter_merge (gs_replicas s ''a'') [gs_replicas s ''b'', gs_replicas s ''a'']) = 7"
proof -
  let ?N = "{''a'', ''b''}"
  let ?s0 = "\<lparr>gs_replicas = gcounter_init, gs_sent = {}, gs_incs = (\<lambda>_. 0)\<rparr>"
  define a where "a = \<lparr>gc_node_id = ''a'', gc_counts = [(''a'', 5)]\<rparr>"
  define b where "b = \<lparr>gc_node_id = ''b'', gc_counts = [(''b'', 2)]\<rparr>"
  define s1 where "s1 = ?s0\<lparr>gs_replicas := (gs_replicas ?s0)(''a'' := a), gs_incs := (gs_incs ?s0)(''a'' := gs_incs ?s0 ''a'' + 5)\<rparr>"
  define s2 where "s2 = s1\<lparr>gs_replicas := (gs_replicas s1)(''b'' := b), gs_incs := (gs_incs s1)(''b'' := gs_incs s1 ''b'' + 2)\<rparr>"
  have "gc_reachable ?N s1" unfolding s1_def
    by (rule gc_reachable.gc_inc [OF gc_start])
      (auto simp: gcounter_increment_def gcounter_init_def a_def dict_get_def)
  then have s2: "gc_reachable ?N s2" unfolding s2_def
    by (rule gc_reachable.gc_inc)
      (auto simp: gcounter_increment_def gcounter_init_def s1_def b_def dict_get_def)
  have "gcounter_value (foldl gcounter_merge (gs_replicas s2 ''a'') [gs_replicas s2 ''b'', gs_replicas s2 ''a'']) =
      (\<Sum>j\<in>?N. gs_incs s2 j)"
    using gcounter_exact [OF s2, of "''a''" "[gs_replicas s2 ''b'', gs_replicas s2 ''a'']"] by auto
  then show ?thesis using s2 by (intro exI [of _ s2]) (simp add: s2_def s1_def)
qed

section \<open>PNCounter\<close>

record pncounter =
  pn_node_id :: node_id
  pn_positive :: gcounter
  pn_negative :: gcounter

definition pncounter_init :: "node_id \<Rightarrow> pncounter" where
  "pncounter_init node_id =
     \<lparr>pn_node_id = node_id, pn_positive = gcounter_init node_id, pn_negative = gcounter_init node_id\<rparr>"

definition pncounter_increment :: "pncounter \<Rightarrow> int \<Rightarrow> pncounter result" where
  "pncounter_increment c value' =
     (if value' < 0 then Inl ValueError
      else map_sum id (\<lambda>g. c\<lparr>pn_positive := g\<rparr>) (gcounter_increment (pn_positive c) value'))"

definition pncounter_decrement :: "pncounter \<Rightarrow> int \<Rightarrow> pncounter result" where
  "pncounter_decrement c value' =
     (if value' < 0 then Inl ValueError
      else map_sum id (\<lambda>g. c\<lparr>pn_negative := g\<rparr>) (gcounter_increment (pn_negative c) value'))"

definition pncounter_value :: "pncounter \<Rightarrow> int" where
  "pncounter_value c = gcounter_value (pn_positive c) - gcounter_value (pn_negative c)"

definition pncounter_merge :: "pncounter \<Rightarrow> pncounter \<Rightarrow> pncounter" where
  "pncounter_merge c other =
     c\<lparr>pn_positive := gcounter_merge (pn_positive c) (pn_positive other),
       pn_negative := gcounter_merge (pn_negative c) (pn_negative other)\<rparr>"

definition pncounter_get_state :: "pncounter \<Rightarrow> (node_id, int) dict \<times> (node_id, int) dict" where
  "pncounter_get_state c = (gcounter_get_state (pn_positive c), gcounter_get_state (pn_negative c))"

definition pncounter_set_state ::
  "pncounter \<Rightarrow> (node_id, int) dict \<times> (node_id, int) dict \<Rightarrow> pncounter" where
  "pncounter_set_state c state =
     c\<lparr>pn_positive := gcounter_set_state (pn_positive c) (fst state),
       pn_negative := gcounter_set_state (pn_negative c) (snd state)\<rparr>"

definition pncounter_ok :: "pncounter \<Rightarrow> bool" where
  "pncounter_ok c \<longleftrightarrow> gcounter_ok (pn_positive c) \<and> gcounter_ok (pn_negative c)"

definition pncounter_view :: "pncounter \<Rightarrow> (node_id \<Rightarrow> int) \<times> (node_id \<Rightarrow> int)" where
  "pncounter_view c = (gcounter_view (pn_positive c), gcounter_view (pn_negative c))"

definition pair_join :: "('a \<Rightarrow> 'a \<Rightarrow> 'a) \<Rightarrow> ('b \<Rightarrow> 'b \<Rightarrow> 'b) \<Rightarrow> 'a \<times> 'b \<Rightarrow> 'a \<times> 'b \<Rightarrow> 'a \<times> 'b" where
  "pair_join f g u v = (f (fst u) (fst v), g (snd u) (snd v))"

interpretation pncounter:
  join_crdt pncounter_merge pncounter_view "pair_join max_join max_join" pncounter_ok
  by unfold_locales
    (auto simp: pncounter_ok_def pncounter_view_def pncounter_merge_def pair_join_def
      gcounter_view_merge gcounter.join_assoc gcounter.join_commute gcounter.join_idem)

lemma gcounter_increment_value:
  assumes "gcounter_ok c" and "gcounter_increment c v = Inr c'"
  shows "gcounter_value c' = gcounter_value c + v"
proof -
  let ?K = "insert (gc_node_id c) (fst ` set (gc_counts c))"
  have c': "gcounter_view c' = (gcounter_view c)(gc_node_id c := gcounter_view c (gc_node_id c) + v)"
    using gcounter_increment_cases [OF assms(2)] by simp
  have "gcounter_value c' = (\<Sum>k\<in>?K. gcounter_view c' k)"
    using assms c' gcounter_ok_increment
    by (intro gcounter_value_sum) (auto simp: gcounter_view_def vec_outside)
  also have "\<dots> = (\<Sum>k\<in>?K. gcounter_view c k) + v"
    by (simp add: c' sum.remove [where x = "gc_node_id c"])
  also have "(\<Sum>k\<in>?K. gcounter_view c k) = gcounter_value c"
    using assms(1)
    by (intro gcounter_value_sum [symmetric]) (auto simp: gcounter_view_def vec_outside)
  finally show ?thesis .
qed

lemma pncounter_increment_value:
  "pncounter_ok c \<Longrightarrow> pncounter_increment c v = Inr c' \<Longrightarrow>
    pncounter_ok c' \<and> pncounter_value c' = pncounter_value c + v"
  by (cases "gcounter_increment (pn_positive c) v")
    (auto simp: pncounter_increment_def pncounter_ok_def pncounter_value_def
      gcounter_increment_value intro: gcounter_ok_increment split: if_splits)

lemma pncounter_decrement_value:
  "pncounter_ok c \<Longrightarrow> pncounter_decrement c v = Inr c' \<Longrightarrow>
    pncounter_ok c' \<and> pncounter_value c' = pncounter_value c - v"
  by (cases "gcounter_increment (pn_negative c) v")
    (auto simp: pncounter_decrement_def pncounter_ok_def pncounter_value_def
      gcounter_increment_value intro: gcounter_ok_increment split: if_splits)

section \<open>CausalContext\<close>

record causal_context =
  cc_node_id :: node_id
  cc_clock :: "(node_id, int) dict"

definition causal_init :: "node_id \<Rightarrow> causal_context" where
  "causal_init node_id = \<lparr>cc_node_id = node_id, cc_clock = [(node_id, 0)]\<rparr>"

definition causal_increment :: "causal_context \<Rightarrow> causal_context" where
  "causal_increment c =
     c\<lparr>cc_clock := dict_set (cc_node_id c) (dict_get (cc_clock c) (cc_node_id c) 0 + 1) (cc_clock c)\<rparr>"

definition causal_update :: "causal_context \<Rightarrow> (node_id, int) dict \<Rightarrow> causal_context" where
  "causal_update c other_clock = c\<lparr>cc_clock := max_merge (cc_clock c) other_clock\<rparr>"

definition causal_merge :: "causal_context \<Rightarrow> causal_context \<Rightarrow> causal_context" where
  "causal_merge c other = causal_update c (cc_clock other)"

definition causal_compare :: "causal_context \<Rightarrow> causal_context \<Rightarrow> vorder" where
  "causal_compare c other =
     compare_on (all_keys (cc_clock c) (cc_clock other)) (cc_clock c) (cc_clock other)"

definition causal_ok :: "causal_context \<Rightarrow> bool" where
  "causal_ok c \<longleftrightarrow> dict_wf (cc_clock c) \<and> nonneg (cc_clock c)"

definition causal_view :: "causal_context \<Rightarrow> node_id \<Rightarrow> int" where
  "causal_view c = vec (cc_clock c)"

interpretation causal: join_crdt causal_merge causal_view max_join causal_ok
proof unfold_locales
  fix s t assume ok: "causal_ok s" "causal_ok t"
  then show "causal_ok (causal_merge s t)"
    by (simp add: causal_ok_def causal_merge_def causal_update_def max_merge_wf max_merge_nonneg)
  show "causal_view (causal_merge s t) = max_join (causal_view s) (causal_view t)"
    using ok
    by (auto simp: causal_ok_def causal_view_def causal_merge_def causal_update_def max_join_def
        vec_max_merge)
qed (auto simp: max_join_def max.assoc max.commute)

text \<open>
  The comparison is the order of the merge: a context is below another exactly when merging it
  in adds nothing.
\<close>

lemma causal_below_iff: "causal.below s t \<longleftrightarrow> (\<forall>k. causal_view s k \<le> causal_view t k)"
  by (auto simp: causal.below_def max_join_def fun_eq_iff max_def)

lemma causal_compare_iff:
  assumes "causal_ok s" and "causal_ok t"
  shows "causal_compare s t =
    (if causal.below s t \<and> causal.below t s then Equal else if causal.below s t then Less
     else if causal.below t s then Greater else Concurrent)"
  using antisym
  by (auto simp: causal_compare_def compare_on_iff causal_below_iff causal_view_def intro: antisym)

end
