(* ===== verification/Crdt_Sets.thy ===== *)
theory Crdt_Sets
  imports Crdt_Base
begin

text \<open>
  The replicated sets: \<open>crdt/src/g_set.py\<close>, \<open>two_phase_set.py\<close> and \<open>or_set.py\<close>. The OR-Set is
  also studied as a system of replicas: its value is determined by which additions a removal has
  observed, so an addition concurrent with a removal wins.
\<close>

section \<open>GSet\<close>

record 'a gset =
  gs_elements :: "'a set"

definition gset_init :: "'a gset" where
  "gset_init = \<lparr>gs_elements = {}\<rparr>"

definition gset_add :: "'a gset \<Rightarrow> 'a \<Rightarrow> 'a gset" where
  "gset_add s element = s\<lparr>gs_elements := insert element (gs_elements s)\<rparr>"

definition gset_value :: "'a gset \<Rightarrow> 'a set" where
  "gset_value s = gs_elements s"

definition gset_merge :: "'a gset \<Rightarrow> 'a gset \<Rightarrow> 'a gset" where
  "gset_merge s other = s\<lparr>gs_elements := gs_elements s \<union> gs_elements other\<rparr>"

lemma gset_value_ops [simp]:
  "gset_value gset_init = {}"
  "gset_value (gset_add s e) = insert e (gset_value s)"
  "gset_value (gset_merge s t) = gset_value s \<union> gset_value t"
  by (simp_all add: gset_value_def gset_init_def gset_add_def gset_merge_def)

interpretation gset: join_crdt gset_merge gset_value "(\<union>)" "\<lambda>_. True"
  by unfold_locales auto

section \<open>TwoPhaseSet\<close>

record 'a two_phase_set =
  tp_added :: "'a gset"
  tp_removed :: "'a gset"

definition two_phase_init :: "'a two_phase_set" where
  "two_phase_init = \<lparr>tp_added = gset_init, tp_removed = gset_init\<rparr>"

definition two_phase_add :: "'a two_phase_set \<Rightarrow> 'a \<Rightarrow> 'a two_phase_set" where
  "two_phase_add s element =
     (if element \<in> gset_value (tp_removed s) then s
      else s\<lparr>tp_added := gset_add (tp_added s) element\<rparr>)"

definition two_phase_remove :: "'a two_phase_set \<Rightarrow> 'a \<Rightarrow> 'a two_phase_set" where
  "two_phase_remove s element =
     (let s' = (if element \<in> gset_value (tp_added s)
                then s\<lparr>tp_removed := gset_add (tp_removed s) element\<rparr> else s)
      in s'\<lparr>tp_removed := gset_add (tp_removed s') element\<rparr>)"

definition two_phase_value :: "'a two_phase_set \<Rightarrow> 'a set" where
  "two_phase_value s = gset_value (tp_added s) - gset_value (tp_removed s)"

definition two_phase_merge :: "'a two_phase_set \<Rightarrow> 'a two_phase_set \<Rightarrow> 'a two_phase_set" where
  "two_phase_merge s other =
     s\<lparr>tp_added := gset_merge (tp_added s) (tp_added other),
       tp_removed := gset_merge (tp_removed s) (tp_removed other)\<rparr>"

definition two_phase_view :: "'a two_phase_set \<Rightarrow> 'a set \<times> 'a set" where
  "two_phase_view s = (gset_value (tp_added s), gset_value (tp_removed s))"

definition union_pair :: "'a set \<times> 'a set \<Rightarrow> 'a set \<times> 'a set \<Rightarrow> 'a set \<times> 'a set" where
  "union_pair u v = (fst u \<union> fst v, snd u \<union> snd v)"

interpretation two_phase: join_crdt two_phase_merge two_phase_view union_pair "\<lambda>_. True"
  by unfold_locales (auto simp: two_phase_merge_def two_phase_view_def union_pair_def)

text \<open>An operation of a replica, or the receipt of another replica's state.\<close>

datatype 'a set_event = Add_Element 'a | Remove_Element 'a | Merge_State "'a two_phase_set"

fun two_phase_step :: "'a two_phase_set \<Rightarrow> 'a set_event \<Rightarrow> 'a two_phase_set" where
  "two_phase_step s (Add_Element e) = two_phase_add s e"
| "two_phase_step s (Remove_Element e) = two_phase_remove s e"
| "two_phase_step s (Merge_State t) = two_phase_merge s t"

lemma two_phase_removed_stays:
  "e \<in> gset_value (tp_removed s) \<Longrightarrow> e \<in> gset_value (tp_removed (foldl two_phase_step s evs))"
proof (induction evs arbitrary: s)
  case (Cons ev evs)
  have "e \<in> gset_value (tp_removed (two_phase_step s ev))"
    using Cons.prems
    by (cases ev) (auto simp: two_phase_add_def two_phase_remove_def two_phase_merge_def Let_def)
  then show ?case using Cons.IH by simp
qed simp

section \<open>ORSet\<close>

text \<open>The tag of an addition, \<open>str(uuid.uuid4())\<close>, is an argument of the operation.\<close>

record 'a orset =
  or_node_id :: node_id
  or_add_set :: "('a \<times> string) set"
  or_remove_set :: "('a \<times> string) set"

definition orset_init :: "node_id \<Rightarrow> 'a orset" where
  "orset_init node_id = \<lparr>or_node_id = node_id, or_add_set = {}, or_remove_set = {}\<rparr>"

definition orset_add :: "'a orset \<Rightarrow> 'a \<Rightarrow> string \<Rightarrow> 'a orset" where
  "orset_add s element tag = s\<lparr>or_add_set := insert (element, tag) (or_add_set s)\<rparr>"

definition orset_observed :: "'a orset \<Rightarrow> 'a \<Rightarrow> ('a \<times> string) set" where
  "orset_observed s element = {p \<in> or_add_set s. fst p = element \<and> p \<notin> or_remove_set s}"

definition orset_remove :: "'a orset \<Rightarrow> 'a \<Rightarrow> 'a orset" where
  "orset_remove s element =
     s\<lparr>or_remove_set := or_remove_set s \<union> orset_observed s element\<rparr>"

definition orset_value :: "'a orset \<Rightarrow> 'a set" where
  "orset_value s = fst ` (or_add_set s - or_remove_set s)"

definition orset_merge :: "'a orset \<Rightarrow> 'a orset \<Rightarrow> 'a orset" where
  "orset_merge s other =
     s\<lparr>or_add_set := or_add_set s \<union> or_add_set other,
       or_remove_set := or_remove_set s \<union> or_remove_set other\<rparr>"

definition orset_view :: "'a orset \<Rightarrow> ('a \<times> string) set \<times> ('a \<times> string) set" where
  "orset_view s = (or_add_set s, or_remove_set s)"

interpretation orset: join_crdt orset_merge orset_view union_pair "\<lambda>_. True"
  by unfold_locales (auto simp: orset_merge_def orset_view_def union_pair_def)

section \<open>A system of OR-Set replicas\<close>

text \<open>
  \<open>os_added\<close> and \<open>os_observed\<close> are the history: the additions made so far, and those that some
  removal had in its replica when it ran. A tag is used once (\<open>uuid4\<close>).
\<close>

record 'a or_system =
  os_replicas :: "node_id \<Rightarrow> 'a orset"
  os_sent :: "'a orset set"
  os_added :: "('a \<times> string) set"
  os_observed :: "('a \<times> string) set"

inductive or_reachable :: "'a or_system \<Rightarrow> bool" where
  or_start: "or_reachable \<lparr>os_replicas = orset_init, os_sent = {}, os_added = {}, os_observed = {}\<rparr>"
| or_add: "or_reachable s \<Longrightarrow> tag \<notin> snd ` os_added s \<Longrightarrow>
    or_reachable (s\<lparr>os_replicas := (os_replicas s)(i := orset_add (os_replicas s i) e tag),
                    os_added := insert (e, tag) (os_added s)\<rparr>)"
| or_remove: "or_reachable s \<Longrightarrow>
    or_reachable (s\<lparr>os_replicas := (os_replicas s)(i := orset_remove (os_replicas s i) e),
                    os_observed := os_observed s \<union> {p \<in> or_add_set (os_replicas s i). fst p = e}\<rparr>)"
| or_send: "or_reachable s \<Longrightarrow>
    or_reachable (s\<lparr>os_sent := insert (os_replicas s i) (os_sent s)\<rparr>)"
| or_recv: "or_reachable s \<Longrightarrow> m \<in> os_sent s \<Longrightarrow>
    or_reachable (s\<lparr>os_replicas := (os_replicas s)(i := orset_merge (os_replicas s i) m)\<rparr>)"

definition or_knows :: "'a or_system \<Rightarrow> 'a orset \<Rightarrow> bool" where
  "or_knows s r \<longleftrightarrow> or_add_set r \<subseteq> os_added s \<and> or_remove_set r \<subseteq> os_observed s \<inter> or_add_set r"

definition or_inv :: "'a or_system \<Rightarrow> bool" where
  "or_inv s \<longleftrightarrow>
     (\<forall>i. or_knows s (os_replicas s i)) \<and> (\<forall>m\<in>os_sent s. or_knows s m) \<and>
     os_added s \<subseteq> (\<Union>i. or_add_set (os_replicas s i)) \<and>
     os_observed s \<subseteq> (\<Union>i. or_remove_set (os_replicas s i))"

text \<open>What a step that replaces the state of one replica has to keep.\<close>

lemma or_inv_update:
  assumes inv: "or_inv s"
    and s': "os_replicas s' = (os_replicas s)(i := r)" "os_sent s' = os_sent s"
    and grow: "os_added s \<subseteq> os_added s'" "os_observed s \<subseteq> os_observed s'"
      "or_add_set (os_replicas s i) \<subseteq> or_add_set r" "or_remove_set (os_replicas s i) \<subseteq> or_remove_set r"
    and new: "os_added s' \<subseteq> os_added s \<union> or_add_set r" "os_observed s' \<subseteq> os_observed s \<union> or_remove_set r"
    and r: "or_knows s' r"
  shows "or_inv s'"
proof -
  have mono: "or_knows s x \<Longrightarrow> or_knows s' x" for x
    using grow(1,2) by (auto simp: or_knows_def)
  have up: "(\<Union>j. or_add_set (os_replicas s j)) \<subseteq> (\<Union>j. or_add_set (os_replicas s' j))"
    "(\<Union>j. or_remove_set (os_replicas s j)) \<subseteq> (\<Union>j. or_remove_set (os_replicas s' j))"
    using grow(3,4) by (intro UN_mono; auto simp: s'(1))+
  have here: "or_add_set r \<subseteq> (\<Union>j. or_add_set (os_replicas s' j))"
    "or_remove_set r \<subseteq> (\<Union>j. or_remove_set (os_replicas s' j))"
    using s'(1) by (metis UNIV_I UN_upper fun_upd_same)+
  have "\<forall>j. or_knows s' (os_replicas s' j)" and "\<forall>m\<in>os_sent s'. or_knows s' m"
    using inv r mono by (auto simp: or_inv_def s')
  moreover have "os_added s' \<subseteq> (\<Union>j. or_add_set (os_replicas s' j))"
    using inv up(1) here(1) new(1) unfolding or_inv_def by blast
  moreover have "os_observed s' \<subseteq> (\<Union>j. or_remove_set (os_replicas s' j))"
    using inv up(2) here(2) new(2) unfolding or_inv_def by blast
  ultimately show ?thesis by (simp add: or_inv_def)
qed

lemma or_reachable_inv: "or_reachable s \<Longrightarrow> or_inv s"
proof (induction rule: or_reachable.induct)
  case or_start
  show ?case by (simp add: or_inv_def or_knows_def orset_init_def)
next
  case (or_add s tag e i)
  then have "or_knows s (os_replicas s i)" by (simp add: or_inv_def)
  then show ?case
    by (intro or_inv_update [OF or_add.IH, where i = i and r = "orset_add (os_replicas s i) e tag"])
      (auto simp: or_knows_def orset_add_def)
next
  case (or_remove s i e)
  then have "or_knows s (os_replicas s i)" by (simp add: or_inv_def)
  then show ?case
    by (intro or_inv_update [OF or_remove.IH, where i = i and r = "orset_remove (os_replicas s i) e"])
      (auto simp: or_knows_def orset_remove_def orset_observed_def)
next
  case (or_send s i)
  then show ?case by (auto simp: or_inv_def or_knows_def)
next
  case (or_recv s m i)
  then have "or_knows s (os_replicas s i)" "or_knows s m" by (auto simp: or_inv_def)
  then show ?case
    by (intro or_inv_update [OF or_recv.IH, where i = i and r = "orset_merge (os_replicas s i) m"])
      (auto simp: or_knows_def orset_merge_def)
qed

lemma orset_merge_all_view:
  "orset_view (foldl orset_merge r xs) =
    (or_add_set r \<union> (\<Union>x\<in>set xs. or_add_set x), or_remove_set r \<union> (\<Union>x\<in>set xs. or_remove_set x))"
  by (induction xs arbitrary: r) (auto simp: orset_view_def orset_merge_def)

text \<open>
  C2. Observed-remove with add-wins: in every reachable system of OR-Set replicas, once a replica
  has merged the states of all of them, in any order and with any repetitions, an element is in
  its value exactly when some addition of it was not present at any replica that executed a
  removal of the element. In particular an addition concurrent with every removal wins.
\<close>

theorem orset_add_wins:
  assumes "or_reachable s" and "set xs = os_replicas s ` N" and "\<forall>j. j \<notin> N \<longrightarrow> os_replicas s j = orset_init j"
  shows "e \<in> orset_value (foldl orset_merge (os_replicas s i) xs) \<longleftrightarrow>
    (\<exists>tag. (e, tag) \<in> os_added s \<and> (e, tag) \<notin> os_observed s)"
proof -
  have inv: "or_inv s" using assms(1) by (rule or_reachable_inv)
  let ?r = "foldl orset_merge (os_replicas s i) xs"
  have split: "(\<Union>j. f (os_replicas s j)) = f (os_replicas s i) \<union> (\<Union>x\<in>set xs. f x)"
    if "\<And>j. f (orset_init j) = {}" for f :: "'a orset \<Rightarrow> ('a \<times> string) set"
  proof -
    have "f (os_replicas s j) \<subseteq> (\<Union>x\<in>set xs. f x)" for j
    proof (cases "j \<in> N")
      case True
      then show ?thesis unfolding assms(2) by blast
    next
      case False
      then show ?thesis using assms(3) that by simp
    qed
    moreover have "(\<Union>x\<in>set xs. f x) \<subseteq> (\<Union>j. f (os_replicas s j))" unfolding assms(2) by blast
    ultimately show ?thesis by blast
  qed
  have "or_add_set ?r = (\<Union>j. or_add_set (os_replicas s j))"
    using orset_merge_all_view [of "os_replicas s i" xs] split [of or_add_set]
    by (simp add: orset_view_def orset_init_def)
  also have "\<dots> = os_added s"
    using inv by (intro equalityI UN_least) (simp_all add: or_inv_def or_knows_def)
  finally have add: "or_add_set ?r = os_added s" .
  have "or_remove_set ?r = (\<Union>j. or_remove_set (os_replicas s j))"
    using orset_merge_all_view [of "os_replicas s i" xs] split [of or_remove_set]
    by (simp add: orset_view_def orset_init_def)
  also have "\<dots> = os_observed s"
    using inv by (intro equalityI UN_least) (simp_all add: or_inv_def or_knows_def)
  finally have remove: "or_remove_set ?r = os_observed s" .
  show ?thesis by (force simp: orset_value_def add remove)
qed

theorem orset_add_wins_witness:
  "\<exists>s. or_reachable s \<and>
    (1 :: int) \<in> orset_value (foldl orset_merge (os_replicas s ''a'') [os_replicas s ''a'', os_replicas s ''b''])"
proof -
  let ?s0 = "\<lparr>os_replicas = orset_init, os_sent = {}, os_added = {}, os_observed = {}\<rparr> :: int or_system"
  define s1 where "s1 = ?s0\<lparr>os_replicas := (os_replicas ?s0)(''a'' := orset_add (os_replicas ?s0 ''a'') 1 ''t1''),
    os_added := insert (1, ''t1'') (os_added ?s0)\<rparr>"
  define s2 where "s2 = s1\<lparr>os_replicas := (os_replicas s1)(''b'' := orset_remove (os_replicas s1 ''b'') 1),
    os_observed := os_observed s1 \<union> {p \<in> or_add_set (os_replicas s1 ''b''). fst p = 1}\<rparr>"
  have "or_reachable s1" unfolding s1_def by (rule or_reachable.or_add [OF or_start]) simp
  then have s2: "or_reachable s2" unfolding s2_def by (rule or_reachable.or_remove)
  have "1 \<in> orset_value (foldl orset_merge (os_replicas s2 ''a'') [os_replicas s2 ''a'', os_replicas s2 ''b''])"
  proof (subst orset_add_wins [OF s2, of _ "{''a'', ''b''}"])
    show "\<exists>tag. (1, tag) \<in> os_added s2 \<and> (1, tag) \<notin> os_observed s2"
      by (auto simp: s2_def s1_def orset_init_def)
  qed (auto simp: s2_def s1_def)
  with s2 show ?thesis by blast
qed

text \<open>
  A removed element of a 2P-Set never comes back: after a removal, whatever sequence of
  additions, removals and merges follows, the element is not in the value.
\<close>

theorem two_phase_no_readd:
  "e \<notin> two_phase_value (foldl two_phase_step (two_phase_remove s e) evs)"
proof -
  have "e \<in> gset_value (tp_removed (two_phase_remove s e))"
    by (simp add: two_phase_remove_def Let_def)
  then show ?thesis using two_phase_removed_stays by (fastforce simp: two_phase_value_def)
qed

end
