(* ===== verification/Crdt_Lww.thy ===== *)
theory Crdt_Lww
  imports Crdt_Base Json
begin

text \<open>
  Last-write-wins: \<open>crdt/src/lww_register.py\<close> and \<open>lww_map.py\<close>. A register's state is ordered by
  its timestamp and, on equal timestamps, by its writer; a system of registers converges because
  one replica never writes twice with one timestamp. In the map this argument breaks, since a
  register that was copied in a merge keeps the identifier of the replica it came from.
\<close>

section \<open>LWWRegister\<close>

text \<open>A value is any Python value; what \<open>to_json\<close> and \<open>from_json\<close> make of it is \<open>val_roundtrip\<close>.\<close>

record lww_register =
  lw_node_id :: node_id
  lw_value :: pyval
  lw_timestamp :: rat
  lw_writer_node :: node_id

definition lww_init :: "node_id \<Rightarrow> pyval \<Rightarrow> rat \<Rightarrow> lww_register" where
  "lww_init node_id initial_value initial_ts =
     \<lparr>lw_node_id = node_id, lw_value = initial_value, lw_timestamp = initial_ts,
      lw_writer_node = node_id\<rparr>"

definition lww_should_update :: "lww_register \<Rightarrow> rat \<Rightarrow> node_id \<Rightarrow> bool" where
  "lww_should_update r other_ts other_node =
     (if other_ts > lw_timestamp r then True
      else if other_ts < lw_timestamp r then False
      else other_node > lw_writer_node r)"

text \<open>The timestamp is the caller's or, by default, the clock's: an argument in both cases.\<close>

definition lww_write :: "lww_register \<Rightarrow> pyval \<Rightarrow> rat \<Rightarrow> lww_register" where
  "lww_write r v timestamp =
     (if lww_should_update r timestamp (lw_node_id r)
      then r\<lparr>lw_value := v, lw_timestamp := timestamp, lw_writer_node := lw_node_id r\<rparr> else r)"

definition lww_merge :: "lww_register \<Rightarrow> lww_register \<Rightarrow> lww_register" where
  "lww_merge r other =
     (if lww_should_update r (lw_timestamp other) (lw_writer_node other)
      then r\<lparr>lw_value := lw_value other, lw_timestamp := lw_timestamp other,
             lw_writer_node := lw_writer_node other\<rparr> else r)"

definition lww_to_json :: "lww_register \<Rightarrow> json result" where
  "lww_to_json r = bind_result (val_to_json (lw_value r)) (\<lambda>v.
     Inr (JObj [(''node_id'', JStr (lw_node_id r)), (''value'', v),
       (''timestamp'', JNum (lw_timestamp r)), (''writer_node'', JStr (lw_writer_node r))]))"

definition lww_from_json :: "json \<Rightarrow> lww_register result" where
  "lww_from_json data =
     bind_result (bind_result (json_field data ''node_id'') json_str) (\<lambda>node_id.
     bind_result (json_field data ''value'') (\<lambda>v.
     bind_result (bind_result (json_field data ''timestamp'') json_num) (\<lambda>ts.
     bind_result (bind_result (json_field data ''writer_node'') json_str) (\<lambda>writer.
       Inr ((lww_init node_id PNone 0)\<lparr>lw_value := val_from_json v, lw_timestamp := ts, lw_writer_node := writer\<rparr>)))))"

text \<open>A register comes back with the tuples in its value turned into lists, or cannot be printed.\<close>

definition lists_for_tuples :: "lww_register \<Rightarrow> lww_register" where
  "lists_for_tuples r = r\<lparr>lw_value := tuples_as_lists (lw_value r)\<rparr>"

lemma lww_roundtrip:
  "bind_result (lww_to_json r) lww_from_json =
     (if printable (lw_value r) then Inr (lists_for_tuples r) else Inl TypeError)"
  using val_roundtrip(1) [of "lw_value r"]
  by (cases "val_to_json (lw_value r)")
    (simp_all add: lww_to_json_def lww_from_json_def lww_init_def lists_for_tuples_def split: if_splits)

lemma lists_for_tuples_eq: "lists_for_tuples r = r \<longleftrightarrow> tuple_free (lw_value r)"
  by (cases r) (simp add: lists_for_tuples_def tuples_as_lists_eq)

subsection \<open>The order on register states\<close>

definition lww_key :: "lww_register \<Rightarrow> rat \<times> node_id" where
  "lww_key r = (lw_timestamp r, lw_writer_node r)"

definition lww_view :: "lww_register \<Rightarrow> (rat \<times> node_id) \<times> pyval" where
  "lww_view r = (lww_key r, lw_value r)"

definition key_less :: "rat \<times> node_id \<Rightarrow> rat \<times> node_id \<Rightarrow> bool" where
  "key_less a b \<longleftrightarrow> fst a < fst b \<or> fst a = fst b \<and> snd a < snd b"

definition lww_join ::
  "(rat \<times> node_id) \<times> pyval \<Rightarrow> (rat \<times> node_id) \<times> pyval \<Rightarrow> (rat \<times> node_id) \<times> pyval" where
  "lww_join u v = (if key_less (fst u) (fst v) then v else u)"

text \<open>A register is consistent with a history that says what each writer wrote at each time.\<close>

definition lww_ok :: "(rat \<times> node_id \<rightharpoonup> pyval) \<Rightarrow> lww_register \<Rightarrow> bool" where
  "lww_ok H r \<longleftrightarrow> H (lww_key r) = Some (lw_value r)"

lemma key_less_irrefl [simp]: "\<not> key_less a a"
  by (simp add: key_less_def)

lemma key_less_trans: "key_less a b \<Longrightarrow> key_less b c \<Longrightarrow> key_less a c"
  by (auto simp: key_less_def)

lemma key_less_linear: "key_less a b \<or> a = b \<or> key_less b a"
  by (auto simp: key_less_def prod_eq_iff)

lemma key_less_asym: "key_less a b \<Longrightarrow> \<not> key_less b a"
  using key_less_trans key_less_irrefl by blast

lemma key_not_less_trans: "\<not> key_less a b \<Longrightarrow> \<not> key_less b c \<Longrightarrow> \<not> key_less a c"
  by (metis key_less_linear key_less_trans)

lemma lww_should_update_iff:
  "lww_should_update r ts w \<longleftrightarrow> key_less (lww_key r) (ts, w)"
  by (auto simp: lww_should_update_def key_less_def lww_key_def)

lemma lww_merge_view: "lww_view (lww_merge r t) = lww_join (lww_view r) (lww_view t)"
  by (simp add: lww_merge_def lww_should_update_iff lww_view_def lww_join_def lww_key_def)

lemma lww_merge_ok: "lww_ok H r \<Longrightarrow> lww_ok H t \<Longrightarrow> lww_ok H (lww_merge r t)"
  by (simp add: lww_merge_def lww_ok_def lww_key_def)

lemma lww_join_assoc: "lww_join (lww_join u v) w = lww_join u (lww_join v w)"
proof (cases "key_less (fst v) (fst w)")
  case True
  then show ?thesis
    using key_less_trans [of "fst u" "fst v" "fst w"] by (simp add: lww_join_def)
next
  case False
  then show ?thesis
    using key_not_less_trans [of "fst u" "fst v" "fst w"] by (simp add: lww_join_def)
qed

lemma lww_join_idem: "lww_join u u = u"
  by (simp add: lww_join_def)

lemma lww_join_commute:
  assumes "lww_ok H r" and "lww_ok H t"
  shows "lww_join (lww_view r) (lww_view t) = lww_join (lww_view t) (lww_view r)"
proof -
  consider "key_less (lww_key r) (lww_key t)" | "lww_key r = lww_key t" | "key_less (lww_key t) (lww_key r)"
    using key_less_linear by blast
  then show ?thesis
  proof cases
    case 2
    then show ?thesis using assms by (simp add: lww_ok_def lww_view_def lww_join_def)
  qed (simp_all add: lww_view_def lww_join_def key_less_asym)
qed

interpretation lww: join_crdt lww_merge lww_view lww_join "lww_ok H"
  for H :: "rat \<times> node_id \<rightharpoonup> pyval"
proof unfold_locales
  show "lww_ok H s \<Longrightarrow> lww_ok H t \<Longrightarrow> lww_join (lww_view s) (lww_view t) = lww_join (lww_view t) (lww_view s)"
    for s t by (rule lww_join_commute)
qed (simp_all add: lww_merge_ok lww_merge_view lww_join_assoc lww_join_idem)

section \<open>A system of registers\<close>

text \<open>
  \<open>ls_history\<close> is a history variable: the value of the first \<open>write\<close> that was called with a timestamp
  at a node, whether the register took it or not; at time 0 it is the initial \<open>None\<close>.
\<close>

record lww_system =
  ls_replicas :: "node_id \<Rightarrow> lww_register"
  ls_sent :: "lww_register set"
  ls_history :: "rat \<times> node_id \<rightharpoonup> pyval"

definition first_written :: "(rat \<times> node_id \<rightharpoonup> pyval) \<Rightarrow> rat \<times> node_id \<Rightarrow> pyval \<Rightarrow> (rat \<times> node_id \<rightharpoonup> pyval)" where
  "first_written H key v = (case H key of None \<Rightarrow> H(key \<mapsto> v) | Some w \<Rightarrow> H)"

inductive lww_reachable :: "lww_system \<Rightarrow> bool" where
  lww_start: "lww_reachable \<lparr>ls_replicas = (\<lambda>i. lww_init i PNone 0), ls_sent = {},
    ls_history = (\<lambda>(ts, i). if ts = 0 then Some PNone else None)\<rparr>"
| lww_writes: "lww_reachable s \<Longrightarrow>
    lww_reachable (s\<lparr>ls_replicas := (ls_replicas s)(i := lww_write (ls_replicas s i) v ts),
      ls_history := first_written (ls_history s) (ts, i) v\<rparr>)"
| lww_send: "lww_reachable s \<Longrightarrow>
    lww_reachable (s\<lparr>ls_sent := insert (ls_replicas s i) (ls_sent s)\<rparr>)"
| lww_recv: "lww_reachable s \<Longrightarrow> m \<in> ls_sent s \<Longrightarrow>
    lww_reachable (s\<lparr>ls_replicas := (ls_replicas s)(i := lww_merge (ls_replicas s i) m)\<rparr>)"

definition lww_inv :: "lww_system \<Rightarrow> bool" where
  "lww_inv s \<longleftrightarrow>
     (\<forall>i. lww_ok (ls_history s) (ls_replicas s i) \<and> lw_node_id (ls_replicas s i) = i \<and>
          (\<forall>ts. (ts, i) \<in> dom (ls_history s) \<longrightarrow> \<not> key_less (lww_key (ls_replicas s i)) (ts, i))) \<and>
     (\<forall>m\<in>ls_sent s. lww_ok (ls_history s) m)"

lemma lww_merge_key: "lww_key (lww_merge r m) = (if key_less (lww_key r) (lww_key m) then lww_key m else lww_key r)"
  using lww_merge_view [of r m] by (auto simp: lww_view_def lww_join_def split: if_splits)

lemma lww_merge_node [simp]: "lw_node_id (lww_merge r m) = lw_node_id r"
  by (simp add: lww_merge_def)

lemma first_written_dom: "dom (first_written H key v) = insert key (dom H)"
  by (auto simp: first_written_def split: option.splits)

lemma first_written_ok: "lww_ok H r \<Longrightarrow> lww_ok (first_written H key v) r"
  by (auto simp: lww_ok_def first_written_def split: option.splits)

lemma lww_write_cases:
  assumes "lw_node_id r = i"
  obtains "key_less (lww_key r) (ts, i)" "lww_key (lww_write r v ts) = (ts, i)" "lw_value (lww_write r v ts) = v"
      "lw_node_id (lww_write r v ts) = i"
  | "\<not> key_less (lww_key r) (ts, i)" "lww_write r v ts = r"
  using assms by (cases "lww_should_update r ts i") (auto simp: lww_write_def lww_should_update_iff lww_key_def)

lemma lww_reachable_inv: "lww_reachable s \<Longrightarrow> lww_inv s"
proof (induction rule: lww_reachable.induct)
  case lww_start
  show ?case by (auto simp: lww_inv_def lww_ok_def lww_init_def lww_key_def key_less_def split: if_splits)
next
  case (lww_writes s ts i v)
  define r r' where "r = ls_replicas s i" and "r' = lww_write r v ts"
  define H where "H = first_written (ls_history s) (ts, i) v"
  have r: "lw_node_id r = i" "lww_ok (ls_history s) r" "\<And>ts'. (ts', i) \<in> dom (ls_history s) \<Longrightarrow> \<not> key_less (lww_key r) (ts', i)"
    using lww_writes by (auto simp: lww_inv_def r_def)
  have keep: "lww_ok (ls_history s) x \<Longrightarrow> lww_ok H x" for x by (simp add: H_def first_written_ok)
  have "lww_ok H r' \<and> lw_node_id r' = i \<and> (\<forall>ts'. (ts', i) \<in> dom H \<longrightarrow> \<not> key_less (lww_key r') (ts', i))"
    using r(1)
  proof (cases rule: lww_write_cases [of r i ts v])
    case 1
    then have "ls_history s (ts, i) = None" using r(3) by blast
    moreover have "\<not> key_less (ts, i) (ts', i)" if "(ts', i) \<in> dom (ls_history s)" for ts'
      using key_less_trans [OF 1(1)] r(3) [OF that] by blast
    ultimately show ?thesis
      using 1 by (auto simp: r'_def H_def first_written_dom) (simp add: lww_ok_def first_written_def)
  next
    case 2
    then show ?thesis using r keep by (auto simp: r'_def H_def first_written_dom)
  qed
  moreover have "(ts', k) \<in> dom H \<longleftrightarrow> (ts', k) \<in> dom (ls_history s)" if "k \<noteq> i" for ts' k
    using that by (simp add: H_def first_written_dom)
  ultimately show ?case
    using lww_writes.IH keep unfolding lww_inv_def r'_def r_def H_def by auto
next
  case (lww_send s i)
  then show ?case by (auto simp: lww_inv_def)
next
  case (lww_recv s m i)
  then show ?case
    by (auto simp: lww_inv_def lww_merge_ok lww_merge_key) (metis domI key_less_trans)
qed

lemma lww_merge_all_key:
  "\<not> key_less (lww_key (foldl lww_merge r xs)) (lww_key r) \<and>
   (\<forall>x\<in>set xs. \<not> key_less (lww_key (foldl lww_merge r xs)) (lww_key x))"
proof (induction xs rule: rev_induct)
  case (snoc x xs)
  then show ?case by (auto simp: lww_merge_key dest: key_less_trans key_less_asym)
qed simp

lemma lww_merge_all_ok: "lww_ok H r \<Longrightarrow> \<forall>x\<in>set xs. lww_ok H x \<Longrightarrow> lww_ok H (foldl lww_merge r xs)"
  by (induction xs arbitrary: r) (auto simp: lww_merge_ok)

section \<open>LWWMap\<close>

record lww_map =
  lm_node_id :: node_id
  lm_registers :: "(string, lww_register) dict"

definition lww_map_init :: "node_id \<Rightarrow> lww_map" where
  "lww_map_init node_id = \<lparr>lm_node_id = node_id, lm_registers = []\<rparr>"

definition lww_map_put :: "lww_map \<Rightarrow> string \<Rightarrow> pyval \<Rightarrow> rat \<Rightarrow> lww_map" where
  "lww_map_put m key v timestamp =
     (case map_of (lm_registers m) key of
        None \<Rightarrow> m\<lparr>lm_registers := dict_set key (lww_init (lm_node_id m) v timestamp) (lm_registers m)\<rparr>
      | Some r \<Rightarrow> m\<lparr>lm_registers := dict_set key (lww_write r v timestamp) (lm_registers m)\<rparr>)"

definition lww_map_get :: "lww_map \<Rightarrow> string \<Rightarrow> pyval" where
  "lww_map_get m key =
     (case map_of (lm_registers m) key of None \<Rightarrow> PNone | Some r \<Rightarrow> lw_value r)"

definition lww_map_remove :: "lww_map \<Rightarrow> string \<Rightarrow> rat \<Rightarrow> lww_map" where
  "lww_map_remove m key timestamp = lww_map_put m key PNone timestamp"

definition lww_map_value :: "lww_map \<Rightarrow> (string, pyval) dict" where
  "lww_map_value m =
     foldl (\<lambda>result (key, r). if lw_value r \<noteq> PNone then dict_set key (lw_value r) result else result)
       [] (lm_registers m)"

text \<open>
  A register that is not there yet is copied by \<open>from_json (to_json r)\<close>, the identifier of the
  replica it came from included. Where its value cannot be printed this raises, and the registers
  merged before it stay merged: an outcome is paired with the map it leaves.
\<close>

definition lww_map_merge_one :: "lww_map \<Rightarrow> string \<times> lww_register \<Rightarrow> lww_map result" where
  "lww_map_merge_one m = (\<lambda>(key, other_reg).
     case map_of (lm_registers m) key of
       None \<Rightarrow> bind_result (bind_result (lww_to_json other_reg) lww_from_json) (\<lambda>new_reg.
         Inr (m\<lparr>lm_registers := dict_set key new_reg (lm_registers m)\<rparr>))
     | Some r \<Rightarrow> Inr (m\<lparr>lm_registers := dict_set key (lww_merge r other_reg) (lm_registers m)\<rparr>))"

fun lww_map_merge_items :: "lww_map \<Rightarrow> (string, lww_register) dict \<Rightarrow> lww_map \<times> unit result" where
  "lww_map_merge_items m [] = (m, Inr ())"
| "lww_map_merge_items m (item # items) =
     (case lww_map_merge_one m item of Inl e \<Rightarrow> (m, Inl e) | Inr m' \<Rightarrow> lww_map_merge_items m' items)"

definition lww_map_merge :: "lww_map \<Rightarrow> lww_map \<Rightarrow> lww_map \<times> unit result" where
  "lww_map_merge m other = lww_map_merge_items m (lm_registers other)"

lemma lww_map_merge_one_eq:
  "lww_map_merge_one m (key, r) =
     (case map_of (lm_registers m) key of
        None \<Rightarrow> if printable (lw_value r)
          then Inr (m\<lparr>lm_registers := dict_set key (lists_for_tuples r) (lm_registers m)\<rparr>) else Inl TypeError
      | Some r' \<Rightarrow> Inr (m\<lparr>lm_registers := dict_set key (lww_merge r' r) (lm_registers m)\<rparr>))"
  by (simp add: lww_map_merge_one_def lww_roundtrip split: option.splits)

text \<open>A merge of maps is the merge of their registers, key by key, where all of them can be printed.\<close>

definition register_merged :: "lww_register option \<Rightarrow> lww_register \<Rightarrow> lww_register" where
  "register_merged mine r = (case mine of None \<Rightarrow> lists_for_tuples r | Some r' \<Rightarrow> lww_merge r' r)"

lemma lww_map_merge_items_spec:
  "dict_wf items \<Longrightarrow> \<forall>(key, r)\<in>set items. printable (lw_value r) \<Longrightarrow>
   \<exists>m'. lww_map_merge_items m items = (m', Inr ()) \<and> lm_node_id m' = lm_node_id m \<and>
    (\<forall>key. map_of (lm_registers m') key =
      (case map_of items key of None \<Rightarrow> map_of (lm_registers m) key
       | Some r \<Rightarrow> Some (register_merged (map_of (lm_registers m) key) r)))"
proof (induction items arbitrary: m)
  case Nil
  then show ?case by simp
next
  case (Cons item items)
  obtain k r where item: "item = (k, r)" by (cases item)
  let ?m = "m\<lparr>lm_registers := dict_set k (register_merged (map_of (lm_registers m) k) r) (lm_registers m)\<rparr>"
  from Cons.prems item have wf: "dict_wf items" and k: "map_of items k = None" and r: "printable (lw_value r)"
    and items: "\<forall>(key, r)\<in>set items. printable (lw_value r)"
    by (auto simp: map_of_eq_None_iff)
  have one: "lww_map_merge_one m item = Inr ?m"
    using r by (simp add: item lww_map_merge_one_eq register_merged_def split: option.splits)
  from Cons.IH [OF wf items, of ?m] obtain m' where
    m': "lww_map_merge_items ?m items = (m', Inr ())" "lm_node_id m' = lm_node_id ?m"
      "\<forall>key. map_of (lm_registers m') key =
        (case map_of items key of None \<Rightarrow> map_of (lm_registers ?m) key
         | Some r \<Rightarrow> Some (register_merged (map_of (lm_registers ?m) key) r))"
    by blast
  show ?case
    by (rule exI [of _ m']) (use m' k one in \<open>auto simp: item update_conv' split: option.splits\<close>)
qed

text \<open>
  C4. A system of last-write-wins registers, created empty, converges to the latest write: in every
  reachable state, two replicas that have merged the same set of states, each in its own order and
  with its own repetitions, hold the same value with the same (timestamp, writer) pair; that value is
  the one which that writer was first asked to write at that timestamp; no merged state has a later
  pair, and no write called at a node whose current state was merged is later.
\<close>

theorem lww_system_converges:
  assumes "lww_reachable s"
    and "insert (ls_replicas s i) (set xs) = insert (ls_replicas s j) (set ys)"
    and "set xs \<subseteq> range (ls_replicas s) \<union> ls_sent s"
    and "r = foldl lww_merge (ls_replicas s i) xs"
  shows "lww_key (foldl lww_merge (ls_replicas s j) ys) = lww_key r \<and>
    lw_value (foldl lww_merge (ls_replicas s j) ys) = lw_value r \<and>
    ls_history s (lww_key r) = Some (lw_value r) \<and>
    (\<forall>x\<in>insert (ls_replicas s i) (set xs). \<not> key_less (lww_key r) (lww_key x)) \<and>
    (\<forall>ts k. ls_history s (ts, k) \<noteq> None \<longrightarrow> ls_replicas s k \<in> insert (ls_replicas s i) (set xs) \<longrightarrow>
      \<not> key_less (lww_key r) (ts, k))"
proof -
  have inv: "lww_inv s" using assms(1) by (rule lww_reachable_inv)
  then have ok: "lww_ok (ls_history s) (ls_replicas s k)" "m \<in> ls_sent s \<Longrightarrow> lww_ok (ls_history s) m" for k m
    by (auto simp: lww_inv_def)
  have xs: "\<forall>x\<in>set xs. lww_ok (ls_history s) x" using assms(3) ok by auto
  moreover have "set ys \<subseteq> insert (ls_replicas s i) (set xs)" using assms(2) by blast
  then have "\<forall>y\<in>set ys. lww_ok (ls_history s) y" using xs ok(1) by auto
  ultimately have view: "lww_view r = lww_view (foldl lww_merge (ls_replicas s j) ys)"
    unfolding assms(4) using ok(1) assms(2) by (intro lww.converge [of "ls_history s"]) auto
  have written: "lww_ok (ls_history s) r"
    unfolding assms(4) using lww_merge_all_ok [OF ok(1)] xs by blast
  have top: "\<not> key_less (lww_key r) (lww_key x)" if "x \<in> insert (ls_replicas s i) (set xs)" for x
    using that lww_merge_all_key [of "ls_replicas s i" xs] unfolding assms(4) by auto
  have "\<not> key_less (lww_key r) (ts, k)"
    if "ls_history s (ts, k) \<noteq> None" "ls_replicas s k \<in> insert (ls_replicas s i) (set xs)" for ts k
  proof -
    have "(ts, k) \<in> dom (ls_history s)" using that(1) by blast
    then have "\<not> key_less (lww_key (ls_replicas s k)) (ts, k)" using inv unfolding lww_inv_def by blast
    then show ?thesis using key_not_less_trans [OF top [OF that(2)]] by blast
  qed
  with view written top show ?thesis by (auto simp: lww_view_def lww_ok_def)
qed

theorem lww_system_converges_witness:
  "\<exists>s. lww_reachable s \<and>
    lw_value (foldl lww_merge (ls_replicas s ''a'') [ls_replicas s ''b'']) =
    lw_value (foldl lww_merge (ls_replicas s ''b'') [ls_replicas s ''a''])"
proof -
  define s0 where "s0 = \<lparr>ls_replicas = (\<lambda>i. lww_init i PNone 0), ls_sent = {},
    ls_history = (\<lambda>(ts, i). if ts = 0 then Some PNone else None)\<rparr>"
  define s1 where "s1 = s0\<lparr>ls_replicas := (ls_replicas s0)(''a'' := lww_write (ls_replicas s0 ''a'') (PInt 1) 3),
      ls_history := first_written (ls_history s0) (3, ''a'') (PInt 1)\<rparr>"
  have "lww_reachable s1" unfolding s1_def s0_def by (rule lww_writes [OF lww_start])
  from lww_system_converges [OF this, of "''a''" "[ls_replicas s1 ''b'']" "''b''" "[ls_replicas s1 ''a'']"]
  have "lw_value (foldl lww_merge (ls_replicas s1 ''a'') [ls_replicas s1 ''b'']) =
    lw_value (foldl lww_merge (ls_replicas s1 ''b'') [ls_replicas s1 ''a''])"
    by (simp add: insert_commute)
  with \<open>lww_reachable s1\<close> show ?thesis by blast
qed

definition lww_map_a :: lww_map where
  "lww_map_a = lww_map_put (lww_map_put (lww_map_init ''a'') ''k'' (PInt 0) 1) ''k'' (PInt 1) 2"

definition lww_map_b :: lww_map where
  "lww_map_b = lww_map_put
     (fst (lww_map_merge (lww_map_init ''b'') (lww_map_put (lww_map_init ''a'') ''k'' (PInt 0) 1))) ''k'' (PInt 2) 2"

text \<open>
  Two replicas of an LWW-Map can diverge for good. Replica a puts a key, b merges it; then
  both write the key with the same timestamp. The copy at b carries a's identifier, so both
  writes have the same timestamp and the same writer, no merge prefers either, and each replica
  keeps its own value however often they merge.
\<close>

theorem lww_map_diverges:
  "lm_node_id lww_map_b = ''b'' \<and>
     lww_map_merge lww_map_a lww_map_b = (lww_map_a, Inr ()) \<and> lww_map_merge lww_map_b lww_map_a = (lww_map_b, Inr ()) \<and>
     lww_map_get lww_map_a ''k'' = PInt 1 \<and> lww_map_get lww_map_b ''k'' = PInt 2"
  by code_simp

end
