(* ===== verification/Crdt_Json.thy ===== *)
theory Crdt_Json
  imports Crdt_Counters Crdt_Sets Crdt_Lww
begin

text \<open>
  The \<open>to_json\<close>/\<open>from_json\<close> methods of \<open>crdt/src\<close>, through which replicas exchange states. A set is
  printed as a list in the order in which Python iterates over it, an argument \<open>order\<close>. The elements
  of sets are hashable Python values; a tuple is printed as a list, which is read back as a list and
  cannot be put into a set, while the value of a register may be a list. The readers check no types:
  what they would store of a document that no \<open>to_json\<close> prints is outside the types of the model, and
  is a \<open>TypeError\<close> here.
\<close>

section \<open>Elements\<close>

text \<open>A value read from JSON as an element of a set: lists and dicts are not hashable.\<close>

fun is_scalar :: "pyval \<Rightarrow> bool" where
  "is_scalar (PTuple vs) = False"
| "is_scalar (PList vs) = False"
| "is_scalar (PDict ms) = False"
| "is_scalar (PObject name) = False"
| "is_scalar _ = True"

definition elem_from_json :: "json \<Rightarrow> pyval result" where
  "elem_from_json j =
     (case j of JList js \<Rightarrow> Inl TypeError | JObj js \<Rightarrow> Inl TypeError | _ \<Rightarrow> Inr (val_from_json j))"

lemma elem_roundtrip:
  "bind_result (val_to_json v) elem_from_json = (if is_scalar v then Inr v else Inl TypeError)"
  by (cases v) (auto simp: elem_from_json_def bind_result_def dest: val_to_json_error split: sum.splits)

text \<open>\<open>json.dumps\<close> of a list, element by element.\<close>

definition list_to_json :: "('a \<Rightarrow> json result) \<Rightarrow> 'a list \<Rightarrow> json result" where
  "list_to_json f xs = bind_result (all_results f xs) (\<lambda>js. Inr (JList js))"

section \<open>Counters and the causal context\<close>

definition counts_to_json :: "(node_id, int) dict \<Rightarrow> json" where
  "counts_to_json counts = JObj (map (\<lambda>(k, n). (k, JInt n)) counts)"

fun counts_from_json :: "json \<Rightarrow> (node_id, int) dict result" where
  "counts_from_json (JObj members) = all_results (\<lambda>(k, j). bind_result (json_int j) (\<lambda>n. Inr (k, n))) members"
| "counts_from_json _ = Inl TypeError"

lemma counts_roundtrip [simp]: "counts_from_json (counts_to_json counts) = Inr counts"
proof -
  have "all_results (\<lambda>(k, j). bind_result (json_int j) (\<lambda>n. Inr (k, n))) (map (\<lambda>(k, n). (k, JInt n)) counts) = Inr (map (\<lambda>p. p) counts)"
    by (rule all_results_map) (auto simp: case_prod_unfold)
  then show ?thesis by (simp add: counts_to_json_def)
qed

definition json_str_field :: "json \<Rightarrow> string \<Rightarrow> string result" where
  "json_str_field data name = bind_result (json_field data name) json_str"

definition gcounter_to_json :: "gcounter \<Rightarrow> json" where
  "gcounter_to_json c = JObj [(''node_id'', JStr (gc_node_id c)), (''counts'', counts_to_json (gc_counts c))]"

definition gcounter_from_json :: "json \<Rightarrow> gcounter result" where
  "gcounter_from_json data =
     bind_result (json_str_field data ''node_id'') (\<lambda>node_id.
     bind_result (bind_result (json_field data ''counts'') counts_from_json) (\<lambda>counts.
     Inr ((gcounter_init node_id)\<lparr>gc_counts := counts\<rparr>)))"

definition pncounter_to_json :: "pncounter \<Rightarrow> json" where
  "pncounter_to_json c =
     JObj [(''node_id'', JStr (pn_node_id c)), (''positive'', counts_to_json (gcounter_get_state (pn_positive c))),
           (''negative'', counts_to_json (gcounter_get_state (pn_negative c)))]"

definition pncounter_from_json :: "json \<Rightarrow> pncounter result" where
  "pncounter_from_json data =
     bind_result (json_str_field data ''node_id'') (\<lambda>node_id.
     bind_result (bind_result (json_field data ''positive'') counts_from_json) (\<lambda>positive.
     bind_result (bind_result (json_field data ''negative'') counts_from_json) (\<lambda>negative.
     let c = pncounter_init node_id
     in Inr (c\<lparr>pn_positive := gcounter_set_state (pn_positive c) positive, pn_negative := gcounter_set_state (pn_negative c) negative\<rparr>))))"

definition causal_to_json :: "causal_context \<Rightarrow> json" where
  "causal_to_json c = JObj [(''node_id'', JStr (cc_node_id c)), (''clock'', counts_to_json (cc_clock c))]"

definition causal_from_json :: "json \<Rightarrow> causal_context result" where
  "causal_from_json data =
     bind_result (json_str_field data ''node_id'') (\<lambda>node_id.
     bind_result (bind_result (json_field data ''clock'') counts_from_json) (\<lambda>clock.
     Inr ((causal_init node_id)\<lparr>cc_clock := clock\<rparr>)))"

section \<open>Sets\<close>

definition gset_to_json :: "(pyval set \<Rightarrow> pyval list) \<Rightarrow> pyval gset \<Rightarrow> json result" where
  "gset_to_json order s = list_to_json val_to_json (order (gs_elements s))"

definition gset_from_json :: "json \<Rightarrow> pyval gset result" where
  "gset_from_json data = bind_result (json_list elem_from_json data) (\<lambda>vs. Inr (gset_init\<lparr>gs_elements := set vs\<rparr>))"

definition two_phase_to_json :: "(pyval set \<Rightarrow> pyval list) \<Rightarrow> pyval two_phase_set \<Rightarrow> json result" where
  "two_phase_to_json order s =
     bind_result (gset_to_json order (tp_added s)) (\<lambda>added.
     bind_result (gset_to_json order (tp_removed s)) (\<lambda>removed.
     Inr (JObj [(''added'', added), (''removed'', removed)])))"

definition two_phase_from_json :: "json \<Rightarrow> pyval two_phase_set result" where
  "two_phase_from_json data =
     bind_result (bind_result (json_field data ''added'') gset_from_json) (\<lambda>added.
     bind_result (bind_result (json_field data ''removed'') gset_from_json) (\<lambda>removed.
     Inr (two_phase_init\<lparr>tp_added := added, tp_removed := removed\<rparr>)))"

definition pair_to_json :: "pyval \<times> string \<Rightarrow> json result" where
  "pair_to_json p = bind_result (val_to_json (fst p)) (\<lambda>e. Inr (JList [e, JStr (snd p)]))"

fun pair_from_json :: "json \<Rightarrow> (pyval \<times> string) result" where
  "pair_from_json (JList [e, t]) = bind_result (elem_from_json e) (\<lambda>v. bind_result (json_str t) (\<lambda>tag. Inr (v, tag)))"
| "pair_from_json _ = Inl TypeError"

definition orset_to_json :: "((pyval \<times> string) set \<Rightarrow> (pyval \<times> string) list) \<Rightarrow> pyval orset \<Rightarrow> json result" where
  "orset_to_json order s =
     bind_result (list_to_json pair_to_json (order (or_add_set s))) (\<lambda>adds.
     bind_result (list_to_json pair_to_json (order (or_remove_set s))) (\<lambda>removes.
     Inr (JObj [(''node_id'', JStr (or_node_id s)), (''add_set'', adds), (''remove_set'', removes)])))"

definition orset_from_json :: "json \<Rightarrow> pyval orset result" where
  "orset_from_json data =
     bind_result (json_str_field data ''node_id'') (\<lambda>node_id.
     bind_result (bind_result (json_field data ''add_set'') (json_list pair_from_json)) (\<lambda>adds.
     bind_result (bind_result (json_field data ''remove_set'') (json_list pair_from_json)) (\<lambda>removes.
     Inr ((orset_init node_id)\<lparr>or_add_set := set adds, or_remove_set := set removes\<rparr>))))"

section \<open>The map of registers\<close>

definition registers_to_json :: "(string, lww_register) dict \<Rightarrow> json result" where
  "registers_to_json registers =
     bind_result (all_results (\<lambda>(k, r). bind_result (lww_to_json r) (\<lambda>j. Inr (k, j))) registers) (\<lambda>ms. Inr (JObj ms))"

definition lww_map_to_json :: "lww_map \<Rightarrow> json result" where
  "lww_map_to_json m =
     bind_result (registers_to_json (lm_registers m)) (\<lambda>registers.
     Inr (JObj [(''node_id'', JStr (lm_node_id m)), (''registers'', registers)]))"

fun registers_from_json :: "json \<Rightarrow> (string, lww_register) dict result" where
  "registers_from_json (JObj members) = all_results (\<lambda>(k, j). bind_result (lww_from_json j) (\<lambda>r. Inr (k, r))) members"
| "registers_from_json _ = Inl TypeError"

definition lww_map_from_json :: "json \<Rightarrow> lww_map result" where
  "lww_map_from_json data =
     bind_result (json_str_field data ''node_id'') (\<lambda>node_id.
     bind_result (bind_result (json_field data ''registers'') registers_from_json) (\<lambda>registers.
     Inr ((lww_map_init node_id)\<lparr>lm_registers := registers\<rparr>)))"

section \<open>What the documents carry\<close>

text \<open>
  The contract of \<open>CRDT.to_json\<close> and \<open>CRDT.from_json\<close>: a state that can be sent is printed and read
  back as \<open>returned\<close> says, and any other raises \<open>TypeError\<close> on one side or the other.
\<close>

locale json_codec =
  fixes to_json :: "'s \<Rightarrow> json result"
    and from_json :: "json \<Rightarrow> 's result"
    and sendable :: "'s \<Rightarrow> bool"
    and returned :: "'s \<Rightarrow> 's"
  assumes roundtrip: "bind_result (to_json s) from_json = (if sendable s then Inr (returned s) else Inl TypeError)"
    and error: "to_json s = Inl e \<Longrightarrow> e = TypeError"
begin

lemma printed_cases:
  obtains "to_json s = Inl TypeError" "\<not> sendable s"
  | j where "to_json s = Inr j" "from_json j = (if sendable s then Inr (returned s) else Inl TypeError)"
  using roundtrip [of s] error [of s] by (cases "to_json s") (auto split: if_splits)

lemma all_error: "all_results to_json xs = Inl e \<Longrightarrow> e = TypeError"
  by (induction xs) (auto simp: bind_result_def dest: error split: sum.splits)

text \<open>Sending a list of states, one by one.\<close>

lemma roundtrips:
  "bind_result (all_results to_json xs) (all_results from_json) =
     (if list_all sendable xs then Inr (map returned xs) else Inl TypeError)"
proof (induction xs)
  case (Cons x xs)
  show ?case
    by (cases rule: printed_cases [of x])
      (use Cons.IH in \<open>auto simp: bind_result_def dest: all_error split: sum.splits if_splits\<close>)
qed simp

lemma list_roundtrip:
  "bind_result (list_to_json to_json xs) (json_list from_json) =
     (if list_all sendable xs then Inr (map returned xs) else Inl TypeError)"
  using roundtrips [of xs] by (cases "all_results to_json xs") (simp_all add: list_to_json_def)

lemma list_error: "list_to_json to_json xs = Inl e \<Longrightarrow> e = TypeError"
  by (auto simp: list_to_json_def bind_result_def dest: all_error split: sum.splits)

text \<open>Two states that come back as they were are told apart by their documents.\<close>

lemma to_json_inj:
  "sendable s \<Longrightarrow> sendable t \<Longrightarrow> returned s = s \<Longrightarrow> returned t = t \<Longrightarrow> to_json s = to_json t \<longleftrightarrow> s = t"
  by (metis roundtrip sum.inject(2))

end

text \<open>The counter of a PN-counter belongs to its node: so it is built, and no operation changes it.\<close>

definition own_counters :: "pncounter \<Rightarrow> bool" where
  "own_counters c \<longleftrightarrow> gc_node_id (pn_positive c) = pn_node_id c \<and> gc_node_id (pn_negative c) = pn_node_id c"

lemma own_counters_kept:
  "own_counters (pncounter_init i)"
  "own_counters c \<Longrightarrow> pncounter_increment c v = Inr c' \<Longrightarrow> own_counters c'"
  "own_counters c \<Longrightarrow> pncounter_decrement c v = Inr c' \<Longrightarrow> own_counters c'"
  "own_counters c \<Longrightarrow> own_counters (pncounter_merge c d)"
  by (auto simp: own_counters_def pncounter_init_def gcounter_init_def pncounter_increment_def pncounter_decrement_def
      gcounter_increment_def pncounter_merge_def gcounter_merge_def bind_result_def split: if_splits sum.splits)

interpretation gcounter_json: json_codec "\<lambda>c. Inr (gcounter_to_json c)" gcounter_from_json "\<lambda>_. True" "\<lambda>c. c"
  by unfold_locales (simp_all add: gcounter_to_json_def gcounter_from_json_def json_str_field_def gcounter_init_def)

interpretation pncounter_json: json_codec "\<lambda>c. Inr (pncounter_to_json c)" pncounter_from_json "\<lambda>_. True"
    "\<lambda>c. c\<lparr>pn_positive := (pn_positive c)\<lparr>gc_node_id := pn_node_id c\<rparr>, pn_negative := (pn_negative c)\<lparr>gc_node_id := pn_node_id c\<rparr>\<rparr>"
  by unfold_locales
    (simp_all add: pncounter_to_json_def pncounter_from_json_def json_str_field_def pncounter_init_def
      gcounter_get_state_def gcounter_set_state_def gcounter_init_def)

interpretation causal_json: json_codec "\<lambda>c. Inr (causal_to_json c)" causal_from_json "\<lambda>_. True" "\<lambda>c. c"
  by unfold_locales (simp_all add: causal_to_json_def causal_from_json_def json_str_field_def causal_init_def)

interpretation register_json: json_codec lww_to_json lww_from_json "\<lambda>r. printable (lw_value r)" lists_for_tuples
  by (unfold_locales, rule lww_roundtrip) (auto simp: lww_to_json_def bind_result_def dest: val_to_json_error split: sum.splits)

interpretation elem_json: json_codec val_to_json elem_from_json is_scalar "\<lambda>v. v"
  by unfold_locales (auto simp: elem_roundtrip dest: val_to_json_error)

interpretation pair_json: json_codec pair_to_json pair_from_json "\<lambda>p. is_scalar (fst p)" "\<lambda>p. p"
proof unfold_locales
  fix p e
  show "bind_result (pair_to_json p) pair_from_json = (if is_scalar (fst p) then Inr p else Inl TypeError)"
    by (cases rule: elem_json.printed_cases [of "fst p"]) (simp_all add: pair_to_json_def)
  show "pair_to_json p = Inl e \<Longrightarrow> e = TypeError"
    by (auto simp: pair_to_json_def bind_result_def dest: val_to_json_error split: sum.splits)
qed

text \<open>The sets and the map, from the lists of their elements.\<close>

definition enumerates :: "('a set \<Rightarrow> 'a list) \<Rightarrow> 'a set \<Rightarrow> bool" where
  "enumerates order S \<longleftrightarrow> set (order S) = S"

lemma gset_json:
  assumes "enumerates order (gs_elements s)"
  shows "bind_result (gset_to_json order s) gset_from_json =
    (if \<forall>v\<in>gs_elements s. is_scalar v then Inr s else Inl TypeError)"
proof -
  have "list_all is_scalar (order (gs_elements s)) \<longleftrightarrow> (\<forall>v\<in>gs_elements s. is_scalar v)"
    using assms by (simp add: list_all_iff enumerates_def)
  then show ?thesis
    using assms elem_json.list_roundtrip [of "order (gs_elements s)"]
    by (cases "gset_to_json order s") (auto simp: gset_from_json_def gset_to_json_def gset_init_def enumerates_def split: if_splits)
qed

lemma two_phase_json:
  assumes "enumerates order (gs_elements (tp_added s))" and "enumerates order (gs_elements (tp_removed s))"
  shows "bind_result (two_phase_to_json order s) two_phase_from_json =
    (if \<forall>v\<in>gs_elements (tp_added s) \<union> gs_elements (tp_removed s). is_scalar v then Inr s else Inl TypeError)"
proof -
  have error: "gset_to_json order g = Inl e \<Longrightarrow> e = TypeError" for g e
    unfolding gset_to_json_def by (rule elem_json.list_error)
  show ?thesis
    using gset_json [OF assms(1)] gset_json [OF assms(2)]
    by (cases "gset_to_json order (tp_added s)"; cases "gset_to_json order (tp_removed s)")
      (auto simp: two_phase_from_json_def two_phase_to_json_def two_phase_init_def dest: error split: if_splits)
qed

lemma orset_json:
  assumes "enumerates order (or_add_set s)" and "enumerates order (or_remove_set s)"
  shows "bind_result (orset_to_json order s) orset_from_json =
    (if \<forall>p\<in>or_add_set s \<union> or_remove_set s. is_scalar (fst p) then Inr s else Inl TypeError)"
proof -
  have scalar: "list_all (\<lambda>p. is_scalar (fst p)) (order P) \<longleftrightarrow> (\<forall>p\<in>P. is_scalar (fst p))" if "enumerates order P" for P
    using that by (simp add: list_all_iff enumerates_def)
  show ?thesis
    using assms pair_json.list_roundtrip [of "order (or_add_set s)"] pair_json.list_roundtrip [of "order (or_remove_set s)"]
      scalar [OF assms(1)] scalar [OF assms(2)]
    by (cases "list_to_json pair_to_json (order (or_add_set s))"; cases "list_to_json pair_to_json (order (or_remove_set s))")
      (auto simp: orset_from_json_def orset_to_json_def json_str_field_def orset_init_def enumerates_def
        dest: pair_json.list_error split: if_splits)
qed

lemma registers_json:
  "bind_result (registers_to_json registers) registers_from_json =
     (if list_all (\<lambda>(k, r). printable (lw_value r)) registers
      then Inr (map (\<lambda>(k, r). (k, lists_for_tuples r)) registers) else Inl TypeError)"
  "registers_to_json registers = Inl e \<Longrightarrow> e = TypeError"
proof -
  let ?t = "\<lambda>(k, r). bind_result (lww_to_json r) (\<lambda>j. Inr (k, j))"
  have error: "all_results ?t rs = Inl e' \<Longrightarrow> e' = TypeError" for rs e'
    by (induction rs) (auto simp: bind_result_def dest: register_json.error split: sum.splits)
  then show "registers_to_json registers = Inl e \<Longrightarrow> e = TypeError"
    by (auto simp: registers_to_json_def bind_result_def split: sum.splits)
  have "bind_result (all_results ?t rs) (all_results (\<lambda>(k, j). bind_result (lww_from_json j) (\<lambda>r. Inr (k, r)))) =
     (if list_all (\<lambda>(k, r). printable (lw_value r)) rs
      then Inr (map (\<lambda>(k, r). (k, lists_for_tuples r)) rs) else Inl TypeError)" for rs
  proof (induction rs)
    case (Cons x rs)
    show ?case
      by (cases rule: register_json.printed_cases [of "snd x"])
        (use Cons.IH in \<open>auto simp: bind_result_def case_prod_unfold dest: error [unfolded case_prod_unfold] split: sum.splits if_splits\<close>)
  qed simp
  from this [of registers] show "bind_result (registers_to_json registers) registers_from_json =
     (if list_all (\<lambda>(k, r). printable (lw_value r)) registers
      then Inr (map (\<lambda>(k, r). (k, lists_for_tuples r)) registers) else Inl TypeError)"
    by (cases "all_results ?t registers") (simp_all add: registers_to_json_def)
qed

definition map_printable :: "lww_map \<Rightarrow> bool" where
  "map_printable m \<longleftrightarrow> list_all (\<lambda>(k, r). printable (lw_value r)) (lm_registers m)"

definition map_lists_for_tuples :: "lww_map \<Rightarrow> lww_map" where
  "map_lists_for_tuples m = m\<lparr>lm_registers := map (\<lambda>(k, r). (k, lists_for_tuples r)) (lm_registers m)\<rparr>"

interpretation map_json: json_codec lww_map_to_json lww_map_from_json map_printable map_lists_for_tuples
proof unfold_locales
  fix m e
  show "bind_result (lww_map_to_json m) lww_map_from_json =
      (if map_printable m then Inr (map_lists_for_tuples m) else Inl TypeError)"
    using registers_json(1) [of "lm_registers m"] registers_json(2) [of "lm_registers m"]
    by (cases "registers_to_json (lm_registers m)")
      (auto simp: lww_map_to_json_def lww_map_from_json_def json_str_field_def lww_map_init_def map_printable_def
        map_lists_for_tuples_def split: if_splits)
  show "lww_map_to_json m = Inl e \<Longrightarrow> e = TypeError"
    by (auto simp: lww_map_to_json_def bind_result_def dest: registers_json(2) split: sum.splits)
qed

text \<open>
  C3. What a state that travels as a JSON document is when it arrives. Counters and causal contexts
  come back as they were, with their node (a PN-counter as long as its two counters carry its own
  identifier, which every operation keeps). A register and a map come back as they were but for the
  tuples in their values, which have become lists, or raise \<open>TypeError\<close> when a value cannot be
  printed: they are unchanged exactly if no value holds a tuple. The three sets, in whatever order
  they are listed, come back as they were exactly if their elements are all None, booleans, numbers or
  strings, and sending them raises \<open>TypeError\<close> otherwise.
\<close>

theorem crdt_json_transport:
  assumes "enumerates order (gs_elements g)"
    and "enumerates order (gs_elements (tp_added t))" and "enumerates order (gs_elements (tp_removed t))"
    and "enumerates pairs (or_add_set r)" and "enumerates pairs (or_remove_set r)" and "own_counters p"
  shows "gcounter_from_json (gcounter_to_json c) = Inr c \<and> pncounter_from_json (pncounter_to_json p) = Inr p \<and>
    causal_from_json (causal_to_json x) = Inr x \<and>
    bind_result (lww_to_json u) lww_from_json =
      (if printable (lw_value u) then Inr (u\<lparr>lw_value := tuples_as_lists (lw_value u)\<rparr>) else Inl TypeError) \<and>
    bind_result (lww_map_to_json m) lww_map_from_json =
      (if list_all (\<lambda>(k, r). printable (lw_value r)) (lm_registers m)
       then Inr (m\<lparr>lm_registers := map (\<lambda>(k, r). (k, r\<lparr>lw_value := tuples_as_lists (lw_value r)\<rparr>)) (lm_registers m)\<rparr>)
       else Inl TypeError) \<and>
    (tuples_as_lists v = v \<longleftrightarrow> tuple_free v) \<and>
    bind_result (gset_to_json order g) gset_from_json = (if \<forall>v\<in>gs_elements g. is_scalar v then Inr g else Inl TypeError) \<and>
    bind_result (two_phase_to_json order t) two_phase_from_json =
      (if \<forall>v\<in>gs_elements (tp_added t) \<union> gs_elements (tp_removed t). is_scalar v then Inr t else Inl TypeError) \<and>
    bind_result (orset_to_json pairs r) orset_from_json =
      (if \<forall>p\<in>or_add_set r \<union> or_remove_set r. is_scalar (fst p) then Inr r else Inl TypeError)"
proof -
  have "pncounter_from_json (pncounter_to_json p) = Inr p"
    using pncounter_json.roundtrip [of p] assms(6) by (simp add: own_counters_def)
  then show ?thesis
    using gcounter_json.roundtrip [of c] causal_json.roundtrip [of x] register_json.roundtrip [of u] map_json.roundtrip [of m]
    by (simp add: gset_json two_phase_json orset_json assms lists_for_tuples_def map_printable_def map_lists_for_tuples_def
        tuples_as_lists_eq)
qed

theorem crdt_json_transport_witness:
  "bind_result (orset_to_json (\<lambda>P. if P = {} then [] else [(PTuple [PInt 1, PInt 2], ''t'')])
      (orset_add (orset_init ''n'') (PTuple [PInt 1, PInt 2]) ''t'')) orset_from_json = Inl TypeError \<and>
   bind_result (gset_to_json (\<lambda>P. if P = {} then [] else [PStr ''x'']) (gset_add gset_init (PStr ''x''))) gset_from_json =
     Inr (gset_add gset_init (PStr ''x''))"
  using crdt_json_transport [of "\<lambda>P. if P = {} then [] else [PStr ''x'']" "gset_add gset_init (PStr ''x'')" two_phase_init
      "\<lambda>P. if P = {} then [] else [(PTuple [PInt 1, PInt 2], ''t'')]" "orset_add (orset_init ''n'') (PTuple [PInt 1, PInt 2]) ''t''"
      "pncounter_init ''n''"]
  by (simp add: enumerates_def gset_add_def gset_init_def two_phase_init_def orset_add_def orset_init_def own_counters_kept(1))

text \<open>A tuple written to a register is a list at the replica it is sent to.\<close>

lemma register_tuple_becomes_list:
  "bind_result (lww_to_json (lww_init ''n'' (PTuple [PInt 1, PInt 2]) 1)) lww_from_json =
     Inr (lww_init ''n'' (PList [PInt 1, PInt 2]) 1)"
  by code_simp

end
