(* ===== verification/Raft_Log.thy ===== *)
theory Raft_Log
  imports Prelude
begin

text \<open>
  The replicated log of \<open>raft-from-scratch/src\<close>: \<open>storage.py\<close> (the three files of a node) and
  \<open>log.py\<close> (\<open>RaftLog\<close>: 1-based absolute indices over a list that a compaction cuts at its front).
  Terms and indices start at 0 and only grow: \<open>nat\<close>. The abstract log is the full history of
  entries from index 1 on, of which the object keeps the part after the last snapshot.
\<close>

section \<open>FileStorage\<close>

record 'c log_entry =
  le_term :: nat
  le_index :: nat
  le_command :: 'c

text \<open>
  A file is absent, or holds what the last \<open>pickle.dump\<close> wrote, or does not unpickle
  (\<open>EOFError\<close>, \<open>UnpicklingError\<close>: a write that was cut off). Pickled bytes are modelled by the
  value they were made from.
\<close>

datatype 'a stored = Missing | Unreadable | Stored 'a

record ('c, 'b) file_storage =
  fs_state_file :: "(nat \<times> node_id option) stored"
  fs_log_file :: "'c log_entry list stored"
  fs_snapshot_file :: "('b \<times> nat \<times> nat) stored"

definition fs_init :: "('c, 'b) file_storage" where
  "fs_init = \<lparr>fs_state_file = Missing, fs_log_file = Missing, fs_snapshot_file = Missing\<rparr>"

definition fs_save_state :: "('c, 'b) file_storage \<Rightarrow> nat \<Rightarrow> node_id option \<Rightarrow> ('c, 'b) file_storage" where
  "fs_save_state fs current_term voted_for = fs\<lparr>fs_state_file := Stored (current_term, voted_for)\<rparr>"

definition fs_load_state :: "('c, 'b) file_storage \<Rightarrow> nat \<times> node_id option" where
  "fs_load_state fs =
     (case fs_state_file fs of Missing \<Rightarrow> (0, None) | Unreadable \<Rightarrow> (0, None) | Stored d \<Rightarrow> d)"

definition fs_save_log :: "('c, 'b) file_storage \<Rightarrow> 'c log_entry list \<Rightarrow> ('c, 'b) file_storage" where
  "fs_save_log fs l = fs\<lparr>fs_log_file := Stored l\<rparr>"

definition fs_load_log :: "('c, 'b) file_storage \<Rightarrow> 'c log_entry list" where
  "fs_load_log fs = (case fs_log_file fs of Missing \<Rightarrow> [] | Unreadable \<Rightarrow> [] | Stored l \<Rightarrow> l)"

definition fs_save_snapshot :: "('c, 'b) file_storage \<Rightarrow> 'b \<Rightarrow> nat \<Rightarrow> nat \<Rightarrow> ('c, 'b) file_storage" where
  "fs_save_snapshot fs snapshot last_included_index last_included_term =
     fs\<lparr>fs_snapshot_file := Stored (snapshot, last_included_index, last_included_term)\<rparr>"

definition fs_load_snapshot :: "('c, 'b) file_storage \<Rightarrow> 'b option \<times> nat \<times> nat" where
  "fs_load_snapshot fs =
     (case fs_snapshot_file fs of Missing \<Rightarrow> (None, 0, 0) | Unreadable \<Rightarrow> (None, 0, 0)
      | Stored (snapshot, i, t) \<Rightarrow> (Some snapshot, i, t))"

section \<open>RaftLog\<close>

text \<open>The node's storage and its log's storage are one object: it is a field of the log.\<close>

record ('c, 'b) raft_log =
  rl_storage :: "('c, 'b) file_storage"
  rl_entries :: "'c log_entry list"
  rl_last_included_index :: nat
  rl_last_included_term :: nat

definition rl_load :: "('c, 'b) file_storage \<Rightarrow> ('c, 'b) raft_log" where
  "rl_load fs =
     (let (_, i, t) = fs_load_snapshot fs
      in \<lparr>rl_storage = fs, rl_entries = fs_load_log fs, rl_last_included_index = i,
          rl_last_included_term = t\<rparr>)"

definition rl_persist :: "('c, 'b) raft_log \<Rightarrow> ('c, 'b) raft_log" where
  "rl_persist l = l\<lparr>rl_storage := fs_save_log (rl_storage l) (rl_entries l)\<rparr>"

definition rl_len :: "('c, 'b) raft_log \<Rightarrow> nat" where
  "rl_len l = rl_last_included_index l + length (rl_entries l)"

definition rl_getitem :: "('c, 'b) raft_log \<Rightarrow> nat \<Rightarrow> 'c log_entry result" where
  "rl_getitem l index =
     (if index \<le> rl_last_included_index l then Inl IndexError
      else let internal_index = index - rl_last_included_index l - 1
        in if internal_index \<ge> length (rl_entries l) then Inl IndexError
           else Inr (rl_entries l ! internal_index))"

definition rl_get_term :: "('c, 'b) raft_log \<Rightarrow> nat \<Rightarrow> nat result" where
  "rl_get_term l index =
     (if index = 0 then Inr 0
      else if index = rl_last_included_index l then Inr (rl_last_included_term l)
      else if index < rl_last_included_index l then Inr (rl_last_included_term l)
      else case rl_getitem l index of Inl e \<Rightarrow> Inl e | Inr entry \<Rightarrow> Inr (le_term entry))"

definition rl_append :: "('c, 'b) raft_log \<Rightarrow> 'c log_entry \<Rightarrow> ('c, 'b) raft_log" where
  "rl_append l entry = rl_persist (l\<lparr>rl_entries := rl_entries l @ [entry]\<rparr>)"

definition rl_get_entries :: "('c, 'b) raft_log \<Rightarrow> nat \<Rightarrow> 'c log_entry list" where
  "rl_get_entries l start_index =
     (let start = (if start_index \<le> rl_last_included_index l then rl_last_included_index l + 1
                   else start_index);
          internal_start = start - rl_last_included_index l - 1
      in drop internal_start (rl_entries l))"

definition rl_truncate :: "('c, 'b) raft_log \<Rightarrow> nat \<Rightarrow> ('c, 'b) raft_log" where
  "rl_truncate l index =
     (if index \<le> rl_last_included_index l then l
      else let internal_index = index - rl_last_included_index l - 1
        in if internal_index < length (rl_entries l)
           then rl_persist (l\<lparr>rl_entries := take internal_index (rl_entries l)\<rparr>) else l)"

definition rl_match_log :: "('c, 'b) raft_log \<Rightarrow> nat \<Rightarrow> nat \<Rightarrow> bool result" where
  "rl_match_log l prev_log_index prev_log_term =
     (if prev_log_index = 0 then Inr True
      else if prev_log_index > rl_len l then Inr False
      else case rl_get_term l prev_log_index of Inl e \<Rightarrow> Inl e | Inr t \<Rightarrow> Inr (t = prev_log_term))"

definition rl_compact :: "('c, 'b) raft_log \<Rightarrow> nat \<Rightarrow> nat \<Rightarrow> 'b \<Rightarrow> ('c, 'b) raft_log" where
  "rl_compact l last_index last_term snapshot_bytes =
     (if last_index \<le> rl_last_included_index l then l
      else let internal_index = last_index - rl_last_included_index l - 1;
               entries' = (if internal_index + 1 < length (rl_entries l)
                           then drop (internal_index + 1) (rl_entries l) else []);
               l' = l\<lparr>rl_entries := entries', rl_last_included_index := last_index,
                      rl_last_included_term := last_term,
                      rl_storage := fs_save_snapshot (rl_storage l) snapshot_bytes last_index last_term\<rparr>
        in rl_persist l')"

section \<open>The log as a suffix of a history\<close>

text \<open>
  \<open>log_of h l\<close>: the object holds the entries of the history \<open>h\<close> that follow its snapshot, and
  knows the term of the last one it dropped. \<open>log_stored l\<close>: a crash now loses nothing.
\<close>

definition log_of :: "'c log_entry list \<Rightarrow> ('c, 'b) raft_log \<Rightarrow> bool" where
  "log_of h l \<longleftrightarrow> rl_last_included_index l \<le> length h \<and>
     rl_entries l = drop (rl_last_included_index l) h \<and>
     (0 < rl_last_included_index l \<longrightarrow>
        rl_last_included_term l = le_term (h ! (rl_last_included_index l - 1)))"

definition log_stored :: "('c, 'b) raft_log \<Rightarrow> bool" where
  "log_stored l \<longleftrightarrow> fs_load_log (rl_storage l) = rl_entries l \<and>
     snd (fs_load_snapshot (rl_storage l)) = (rl_last_included_index l, rl_last_included_term l)"

named_theorems raft_log_simps \<open>the log's operations on the history it stands for\<close>

lemma fs_load_save [simp]:
  "fs_load_state (fs_save_state fs t v) = (t, v)"
  "fs_load_log (fs_save_log fs l) = l"
  "fs_load_snapshot (fs_save_snapshot fs b i t') = (Some b, i, t')"
  "fs_load_state (fs_save_log fs l) = fs_load_state fs"
  "fs_load_state (fs_save_snapshot fs b i t') = fs_load_state fs"
  "fs_load_log (fs_save_state fs t v) = fs_load_log fs"
  "fs_load_log (fs_save_snapshot fs b i t') = fs_load_log fs"
  "fs_load_snapshot (fs_save_log fs l) = fs_load_snapshot fs"
  "fs_load_snapshot (fs_save_state fs t v) = fs_load_snapshot fs"
  by (simp_all add: fs_load_state_def fs_save_state_def fs_load_log_def fs_save_log_def
      fs_load_snapshot_def fs_save_snapshot_def)

lemma rl_len_history [raft_log_simps]: "log_of h l \<Longrightarrow> rl_len l = length h"
  by (auto simp: log_of_def rl_len_def)

lemma rl_getitem_history [raft_log_simps]:
  assumes "log_of h l"
  shows "rl_getitem l i =
    (if rl_last_included_index l < i \<and> i \<le> length h then Inr (h ! (i - 1)) else Inl IndexError)"
  using assms by (auto simp: log_of_def rl_getitem_def Let_def nth_drop)

lemma rl_get_term_history [raft_log_simps]:
  assumes "log_of h l" and "rl_last_included_index l \<le> i" and "i \<le> length h"
  shows "rl_get_term l i = Inr (if i = 0 then 0 else le_term (h ! (i - 1)))"
  using assms by (auto simp: rl_get_term_def rl_getitem_history) (auto simp: log_of_def)

lemma rl_get_entries_history [raft_log_simps]:
  assumes "log_of h l" and "rl_last_included_index l < i"
  shows "rl_get_entries l i = drop (i - 1) h"
  using assms by (auto simp: log_of_def rl_get_entries_def Let_def)

lemma rl_append_history [raft_log_simps]: "log_of h l \<Longrightarrow> log_of (h @ [e]) (rl_append l e)"
  by (auto simp: log_of_def rl_append_def rl_persist_def nth_append)

lemma rl_truncate_history [raft_log_simps]:
  assumes "log_of h l" and "rl_last_included_index l < i"
  shows "log_of (take (i - 1) h) (rl_truncate l i)"
  using assms by (auto simp: log_of_def rl_truncate_def rl_persist_def Let_def drop_take)

lemma rl_compact_history [raft_log_simps]:
  assumes "log_of h l" and "i \<le> length h" and "0 < i \<Longrightarrow> t = le_term (h ! (i - 1))"
  shows "log_of h (rl_compact l i t b)"
  using assms by (auto simp: log_of_def rl_compact_def rl_persist_def Let_def)

lemma rl_match_log_history [raft_log_simps]:
  assumes "log_of h l" and "rl_last_included_index l \<le> i"
  shows "rl_match_log l i t = Inr (i = 0 \<or> i \<le> length h \<and> le_term (h ! (i - 1)) = t)"
  using assms by (auto simp: rl_match_log_def rl_len_history rl_get_term_history)

lemma rl_last_included_simps [simp]:
  "rl_last_included_index (rl_append l e) = rl_last_included_index l"
  "rl_last_included_index (rl_truncate l i) = rl_last_included_index l"
  "rl_last_included_index (rl_compact l i t b) = max i (rl_last_included_index l)"
  by (auto simp: rl_append_def rl_truncate_def rl_compact_def rl_persist_def Let_def)

lemma rl_stored_simps [simp]:
  "log_stored l \<Longrightarrow> log_stored (rl_append l e)"
  "log_stored l \<Longrightarrow> log_stored (rl_truncate l i)"
  "log_stored l \<Longrightarrow> log_stored (rl_compact l i t b)"
  "log_stored (rl_load fs)"
  by (auto simp: log_stored_def rl_append_def rl_truncate_def rl_compact_def rl_persist_def rl_load_def
      Let_def split: prod.splits)

lemma rl_state_simps [simp]:
  "fs_load_state (rl_storage (rl_append l e)) = fs_load_state (rl_storage l)"
  "fs_load_state (rl_storage (rl_truncate l i)) = fs_load_state (rl_storage l)"
  "fs_load_state (rl_storage (rl_compact l i t b)) = fs_load_state (rl_storage l)"
  "rl_storage (rl_load fs) = fs"
  by (auto simp: rl_append_def rl_truncate_def rl_compact_def rl_persist_def rl_load_def Let_def
      split: prod.splits)

text \<open>Loading the files of a stored log gives the log back.\<close>

lemma rl_load_stored: "log_stored l \<Longrightarrow> rl_load (rl_storage l) = l"
  by (auto simp: log_stored_def rl_load_def Let_def split: prod.splits)

end
