(* ===== verification/Raft_Machine.thy ===== *)
theory Raft_Machine
  imports Json Decimal
begin

text \<open>
  The state machines that Raft replicates, \<open>raft-from-scratch/src/state_machine.py\<close>: the interface
  as a record of functions with its contract as a locale, and its two implementations.
\<close>

section \<open>The interface\<close>

text \<open>\<open>apply\<close> may raise; \<open>restore\<close> may fail to decode. The record is a \<open>StateMachine\<close> subclass.\<close>

record ('s, 'c, 'r, 'b) machine =
  sm_apply :: "'s \<Rightarrow> 'c \<Rightarrow> ('s, 'r) outcome"
  sm_snapshot :: "'s \<Rightarrow> 'b"
  sm_restore :: "'b \<Rightarrow> 's result"

text \<open>
  The contract in the docstrings: a snapshot \<open>can be restored later\<close>. That \<open>apply\<close> is
  deterministic is in its type.
\<close>

locale state_machine =
  fixes apply_op :: "'s \<Rightarrow> 'c \<Rightarrow> ('s, 'r) outcome"
    and snapshot :: "'s \<Rightarrow> 'b"
    and restore :: "'b \<Rightarrow> 's result"
  assumes restore_snapshot: "restore (snapshot s) = Inr s"
begin

text \<open>Applying a sequence of commands, whatever each of them returns or raises.\<close>

definition run :: "'s \<Rightarrow> 'c list \<Rightarrow> 's" where
  "run s cs = foldl (\<lambda>s c. fst (apply_op s c)) s cs"

lemma run_append: "run s (cs @ ds) = run (run s cs) ds"
  by (simp add: run_def)

lemma run_simps [simp]: "run s [] = s" "run s (c # cs) = run (fst (apply_op s c)) cs"
  by (simp_all add: run_def)

lemma resume: "restore (snapshot (run s cs)) = Inr s' \<Longrightarrow> run s' ds = run s (cs @ ds)"
  by (simp add: restore_snapshot run_append)

end

type_synonym command = "(string, json) dict"

section \<open>KeyValueStateMachine\<close>

type_synonym kv_store = "(string, json) dict"

text \<open>\<open>command[name]\<close>. Keys of the store are strings.\<close>

definition command_item :: "command \<Rightarrow> string \<Rightarrow> json result" where
  "command_item command name = json_field (JObj command) name"

definition kv_init :: kv_store where
  "kv_init = []"

definition kv_apply :: "kv_store \<Rightarrow> command \<Rightarrow> (kv_store, json) outcome" where
  "kv_apply store command =
     (let op = dict_get command ''op'' JNull
      in if op = JStr ''set'' then
           (case bind_result (command_item command ''key'') json_str of Inl e \<Rightarrow> (store, Inl e)
            | Inr key \<Rightarrow> (case command_item command ''value'' of Inl e \<Rightarrow> (store, Inl e)
              | Inr v \<Rightarrow> (dict_set key v store,
                  Inr (JObj [(''status'', JStr ''ok''), (''key'', JStr key)]))))
         else if op = JStr ''get'' then
           (case bind_result (command_item command ''key'') json_str of Inl e \<Rightarrow> (store, Inl e)
            | Inr key \<Rightarrow> (store,
                Inr (JObj [(''status'', JStr ''ok''), (''value'', dict_get store key JNull)])))
         else if op = JStr ''delete'' then
           (case bind_result (command_item command ''key'') json_str of Inl e \<Rightarrow> (store, Inl e)
            | Inr key \<Rightarrow>
                if key \<in> fst ` set store
                then (dict_del key store,
                  Inr (JObj [(''status'', JStr ''ok''), (''deleted'', JBool True)]))
                else (store, Inr (JObj [(''status'', JStr ''ok''), (''deleted'', JBool False)])))
         else (store, Inr (JObj [(''status'', JStr ''error''), (''message'', JStr ''Unknown operation'')])))"

text \<open>\<open>pickle.dumps\<close> and \<open>pickle.loads\<close> are inverse on dicts of plain values: the bytes are the value.\<close>

definition kv_snapshot :: "kv_store \<Rightarrow> kv_store" where
  "kv_snapshot store = store"

definition kv_restore :: "kv_store \<Rightarrow> kv_store result" where
  "kv_restore snapshot = Inr snapshot"

definition kv_machine :: "(kv_store, command, json, kv_store) machine" where
  "kv_machine = \<lparr>sm_apply = kv_apply, sm_snapshot = kv_snapshot, sm_restore = kv_restore\<rparr>"

interpretation kv: state_machine kv_apply kv_snapshot kv_restore
  by unfold_locales (simp add: kv_snapshot_def kv_restore_def)

lemma kv_set:
  assumes "map_of c ''op'' = Some (JStr ''set'')" "map_of c ''key'' = Some (JStr k)" "map_of c ''value'' = Some v"
  shows "fst (kv_apply s c) = dict_set k v s"
  using assms by (simp add: kv_apply_def Let_def dict_get_def command_item_def)

lemma kv_get:
  assumes "map_of c ''op'' = Some (JStr ''get'')" "map_of c ''key'' = Some (JStr k)"
  shows "kv_apply s c = (s, Inr (JObj [(''status'', JStr ''ok''), (''value'', dict_get s k JNull)]))"
  using assms by (simp add: kv_apply_def Let_def dict_get_def command_item_def)

lemma kv_delete:
  assumes "map_of c ''op'' = Some (JStr ''delete'')" "map_of c ''key'' = Some (JStr k)"
  shows "map_of (fst (kv_apply s c)) = (map_of s)(k := None)"
  using assms
  by (auto simp: kv_apply_def Let_def dict_get_def command_item_def delete_conv' restrict_map_def
      map_of_eq_None_iff)

lemma kv_apply_wf: "dict_wf s \<Longrightarrow> dict_wf (fst (kv_apply s c))"
  by (auto simp: kv_apply_def Let_def split: sum.splits)

section \<open>CounterStateMachine\<close>

text \<open>\<open>self.value += delta\<close> for integer deltas (a bool counts as 0 or 1); others raise.\<close>

definition counter_apply :: "int \<Rightarrow> command \<Rightarrow> (int, json) outcome" where
  "counter_apply v command =
     (let op = dict_get command ''op'' JNull
      in if op = JStr ''increment'' then
           (case dict_get command ''delta'' (JInt 1) of
              JInt delta \<Rightarrow> (v + delta,
                Inr (JObj [(''status'', JStr ''ok''), (''value'', JInt (v + delta))]))
            | JBool b \<Rightarrow> (v + of_bool b,
                Inr (JObj [(''status'', JStr ''ok''), (''value'', JInt (v + of_bool b))]))
            | _ \<Rightarrow> (v, Inl TypeError))
         else if op = JStr ''get'' then
           (v, Inr (JObj [(''status'', JStr ''ok''), (''value'', JInt v)]))
         else (v, Inr (JObj [(''status'', JStr ''error''), (''message'', JStr ''Unknown operation'')])))"

definition counter_snapshot :: "int \<Rightarrow> string" where
  "counter_snapshot v = show_int v"

definition counter_restore :: "string \<Rightarrow> int result" where
  "counter_restore snapshot = read_int snapshot"

definition counter_machine :: "(int, command, json, string) machine" where
  "counter_machine =
     \<lparr>sm_apply = counter_apply, sm_snapshot = counter_snapshot, sm_restore = counter_restore\<rparr>"

interpretation counter: state_machine counter_apply counter_snapshot counter_restore
  by unfold_locales (simp add: counter_snapshot_def counter_restore_def read_show_int)

end
