(* ===== verification/Raft_Node.thy ===== *)
theory Raft_Node
  imports Raft_Log Raft_Machine
begin

text \<open>
  One node of \<open>raft-from-scratch/src/raft_node.py\<close>: the object's fields as a record, each handler
  (a body under the node's lock) as a function on it. Starting a thread is an entry of the
  \<open>spawn\<close> list a handler returns; the timers only decide when a handler runs, so a handler may
  run at any time at which its own guard lets it.
\<close>

section \<open>The node\<close>

datatype node_state = Follower | Candidate | Leader

text \<open>
  \<open>rn_votes t\<close> is the set \<open>votes_received\<close> that the election of term \<open>t\<close> shares with its worker
  threads. A Future is a number, \<open>rn_resolved\<close> the results set on the Futures. The Python set of
  peers is a list without duplicates.
\<close>

record ('s, 'c, 'r, 'b) raft_node =
  rn_node_id :: node_id
  rn_peers :: "node_id list"
  rn_snapshot_interval :: nat
  rn_log :: "('c, 'b) raft_log"
  rn_machine :: 's
  rn_current_term :: nat
  rn_voted_for :: "node_id option"
  rn_commit_index :: nat
  rn_last_applied :: nat
  rn_state :: node_state
  rn_next_index :: "(node_id, nat) dict"
  rn_match_index :: "(node_id, nat) dict"
  rn_pending_commits :: "nat \<rightharpoonup> nat"
  rn_futures :: nat
  rn_resolved :: "nat \<rightharpoonup> 'r"
  rn_running :: bool
  rn_votes :: "nat \<Rightarrow> node_id set"

datatype spawn = Request_Vote_Worker node_id nat nat nat | Append_Entries_Worker node_id

definition raft_all_nodes :: "('s, 'c, 'r, 'b) raft_node \<Rightarrow> node_id list" where
  "raft_all_nodes n = remdups (rn_node_id n # rn_peers n)"

text \<open>The constructor: a new node on its storage, or a restart on what an earlier one left there.\<close>

definition raft_init ::
  "('s, 'c, 'r, 'b) machine \<Rightarrow> 's \<Rightarrow> nat \<Rightarrow> node_id \<Rightarrow> node_id list \<Rightarrow> ('c, 'b) file_storage
    \<Rightarrow> ('s, 'c, 'r, 'b) raft_node result" where
  "raft_init M machine0 interval node_id peers storage =
     (let log = rl_load storage;
          (current_term, voted_for) = fs_load_state storage;
          (snapshot_bytes, _, _) = fs_load_snapshot storage
      in case (case snapshot_bytes of None \<Rightarrow> Inr machine0 | Some b \<Rightarrow> sm_restore M b) of
           Inl e \<Rightarrow> Inl e
         | Inr machine \<Rightarrow> Inr
             \<lparr>rn_node_id = node_id, rn_peers = remdups peers, rn_snapshot_interval = interval,
              rn_log = log, rn_machine = machine, rn_current_term = current_term,
              rn_voted_for = voted_for, rn_commit_index = rl_last_included_index log,
              rn_last_applied = rl_last_included_index log, rn_state = Follower,
              rn_next_index = [], rn_match_index = [], rn_pending_commits = (\<lambda>_. None),
              rn_futures = 0, rn_resolved = (\<lambda>_. None), rn_running = False, rn_votes = (\<lambda>_. {})\<rparr>)"

definition raft_start :: "('s, 'c, 'r, 'b) raft_node \<Rightarrow> ('s, 'c, 'r, 'b) raft_node" where
  "raft_start n = (if rn_running n then n else n\<lparr>rn_running := True\<rparr>)"

definition raft_stop :: "('s, 'c, 'r, 'b) raft_node \<Rightarrow> ('s, 'c, 'r, 'b) raft_node" where
  "raft_stop n = n\<lparr>rn_running := False\<rparr>"

definition raft_save_state :: "('s, 'c, 'r, 'b) raft_node \<Rightarrow> ('s, 'c, 'r, 'b) raft_node" where
  "raft_save_state n =
     n\<lparr>rn_log := (rn_log n)\<lparr>rl_storage :=
        fs_save_state (rl_storage (rn_log n)) (rn_current_term n) (rn_voted_for n)\<rparr>\<rparr>"

definition raft_update_term :: "('s, 'c, 'r, 'b) raft_node \<Rightarrow> nat \<Rightarrow> ('s, 'c, 'r, 'b) raft_node" where
  "raft_update_term n new_term =
     (raft_save_state (n\<lparr>rn_current_term := new_term, rn_voted_for := None\<rparr>))\<lparr>rn_state := Follower\<rparr>"

section \<open>Applying committed entries\<close>

definition raft_check_snapshot ::
  "('s, 'c, 'r, 'b) machine \<Rightarrow> ('s, 'c, 'r, 'b) raft_node \<Rightarrow> (('s, 'c, 'r, 'b) raft_node, unit) outcome" where
  "raft_check_snapshot M n =
     (if rn_last_applied n \<ge> rl_last_included_index (rn_log n) + rn_snapshot_interval n
      then let snapshot = sm_snapshot M (rn_machine n); last_idx = rn_last_applied n
        in case rl_get_term (rn_log n) last_idx of Inl e \<Rightarrow> (n, Inl e)
           | Inr last_term \<Rightarrow> (n\<lparr>rn_log := rl_compact (rn_log n) last_idx last_term snapshot\<rparr>, Inr ())
      else (n, Inr ()))"

text \<open>\<open>set_result\<close> and \<open>del\<close> on the Future that waits for the entry just applied, if any.\<close>

definition raft_resolve :: "('s, 'c, 'r, 'b) raft_node \<Rightarrow> 'r \<Rightarrow> ('s, 'c, 'r, 'b) raft_node" where
  "raft_resolve n res =
     (case rn_pending_commits n (rn_last_applied n) of None \<Rightarrow> n
      | Some f \<Rightarrow> n\<lparr>rn_resolved := (rn_resolved n)(f \<mapsto> res),
                    rn_pending_commits := (rn_pending_commits n)(rn_last_applied n := None)\<rparr>)"

text \<open>One round of the loop \<open>while self.last_applied < self.commit_index\<close>.\<close>

definition raft_apply_one ::
  "('s, 'c, 'r, 'b) machine \<Rightarrow> ('s, 'c, 'r, 'b) raft_node \<Rightarrow> (('s, 'c, 'r, 'b) raft_node, unit) outcome" where
  "raft_apply_one M n0 =
     (let n = n0\<lparr>rn_last_applied := rn_last_applied n0 + 1\<rparr>
      in case rl_getitem (rn_log n) (rn_last_applied n) of Inl e \<Rightarrow> (n, Inl e)
         | Inr entry \<Rightarrow>
             (case sm_apply M (rn_machine n) (le_command entry) of
                (machine, Inl e) \<Rightarrow> (n\<lparr>rn_machine := machine\<rparr>, Inl e)
              | (machine, Inr res) \<Rightarrow>
                  raft_check_snapshot M (raft_resolve (n\<lparr>rn_machine := machine\<rparr>) res)))"

lemma raft_check_snapshot_frame [simp]:
  "rn_commit_index (fst (raft_check_snapshot M n)) = rn_commit_index n"
  "rn_last_applied (fst (raft_check_snapshot M n)) = rn_last_applied n"
  "rn_machine (fst (raft_check_snapshot M n)) = rn_machine n"
  by (auto simp: raft_check_snapshot_def Let_def split: sum.splits)

lemma raft_resolve_frame [simp]:
  "rn_commit_index (raft_resolve n r) = rn_commit_index n"
  "rn_last_applied (raft_resolve n r) = rn_last_applied n"
  "rn_machine (raft_resolve n r) = rn_machine n"
  "rn_log (raft_resolve n r) = rn_log n"
  "rn_snapshot_interval (raft_resolve n r) = rn_snapshot_interval n"
  by (auto simp: raft_resolve_def split: option.splits)

lemma raft_apply_one_frame [simp]:
  "rn_commit_index (fst (raft_apply_one M n)) = rn_commit_index n"
  "rn_last_applied (fst (raft_apply_one M n)) = rn_last_applied n + 1"
  by (auto simp: raft_apply_one_def Let_def split: sum.splits prod.splits)

lemma raft_apply_one_decreases:
  assumes "(n', r) = raft_apply_one M n" and "rn_last_applied n < rn_commit_index n"
  shows "rn_commit_index n' - rn_last_applied n' < rn_commit_index n - rn_last_applied n"
proof -
  have "n' = fst (raft_apply_one M n)" using assms(1) by (metis fst_conv)
  then show ?thesis using assms(2) by simp
qed

function raft_apply_committed_entries ::
  "('s, 'c, 'r, 'b) machine \<Rightarrow> ('s, 'c, 'r, 'b) raft_node \<Rightarrow> (('s, 'c, 'r, 'b) raft_node, unit) outcome" where
  "raft_apply_committed_entries M n =
     (if rn_last_applied n < rn_commit_index n
      then case raft_apply_one M n of
             (n', Inl e) \<Rightarrow> (n', Inl e)
           | (n', Inr _) \<Rightarrow> raft_apply_committed_entries M n'
      else (n, Inr ()))"
  by pat_completeness auto
termination
  by (relation "measure (\<lambda>(M, n). rn_commit_index n - rn_last_applied n)")
    (simp_all add: raft_apply_one_decreases)

declare raft_apply_committed_entries.simps [simp del]

lemma raft_apply_commit_frame [simp]:
  "rn_commit_index (fst (raft_apply_committed_entries M n)) = rn_commit_index n"
proof (induction M n rule: raft_apply_committed_entries.induct)
  case (1 M n)
  obtain n' r where one: "raft_apply_one M n = (n', r)" by fastforce
  then have "rn_commit_index n' = rn_commit_index n" using raft_apply_one_frame(1) [of M n] by simp
  then show ?case
    using 1 [OF _ one [symmetric]] one
    by (subst raft_apply_committed_entries.simps) (auto split: sum.splits)
qed

section \<open>Elections\<close>

text \<open>
  The request goes out through one worker per peer. \<open>get_term\<close> of the last index cannot raise:
  the index is 0, the snapshot's, or inside the entries.
\<close>

definition raft_start_election ::
  "('s, 'c, 'r, 'b) raft_node \<Rightarrow> ('s, 'c, 'r, 'b) raft_node \<times> spawn list result" where
  "raft_start_election n0 =
     (let n1 = n0\<lparr>rn_current_term := rn_current_term n0 + 1, rn_state := Candidate,
                  rn_voted_for := Some (rn_node_id n0)\<rparr>;
          n2 = raft_save_state n1;
          n3 = n2\<lparr>rn_votes := (rn_votes n2)(rn_current_term n2 := {rn_node_id n2})\<rparr>;
          last_log_index = rl_len (rn_log n3)
      in case rl_get_term (rn_log n3) last_log_index of Inl e \<Rightarrow> (n3, Inl e)
         | Inr last_log_term \<Rightarrow>
             (n3, Inr (map (\<lambda>peer. Request_Vote_Worker peer (rn_current_term n3) last_log_index last_log_term)
                         (rn_peers n3))))"

definition raft_election_timeout ::
  "('s, 'c, 'r, 'b) raft_node \<Rightarrow> ('s, 'c, 'r, 'b) raft_node \<times> spawn list result" where
  "raft_election_timeout n =
     (if \<not> rn_running n \<or> rn_state n = Leader then (n, Inr []) else raft_start_election n)"

definition raft_send_heartbeats :: "('s, 'c, 'r, 'b) raft_node \<Rightarrow> spawn list" where
  "raft_send_heartbeats n =
     (if rn_state n \<noteq> Leader \<or> \<not> rn_running n then [] else map Append_Entries_Worker (rn_peers n))"

definition raft_become_leader ::
  "('s, 'c, 'r, 'b) raft_node \<Rightarrow> ('s, 'c, 'r, 'b) raft_node \<times> spawn list" where
  "raft_become_leader n0 =
     (let last_log_index = rl_len (rn_log n0);
          n = foldl (\<lambda>n peer. n\<lparr>rn_next_index := dict_set peer (last_log_index + 1) (rn_next_index n),
                                rn_match_index := dict_set peer 0 (rn_match_index n)\<rparr>)
                (n0\<lparr>rn_state := Leader\<rparr>) (rn_peers n0)
      in (n, raft_send_heartbeats n))"

text \<open>
  The second half of \<open>_request_vote_worker\<close>, for the worker of the election of \<open>worker_term\<close>: what
  it does with the reply.
\<close>

definition raft_vote_reply ::
  "('s, 'c, 'r, 'b) raft_node \<Rightarrow> node_id \<Rightarrow> nat \<Rightarrow> nat \<Rightarrow> bool \<Rightarrow> ('s, 'c, 'r, 'b) raft_node \<times> spawn list" where
  "raft_vote_reply n peer worker_term reply_term vote_granted =
     (if \<not> rn_running n \<or> rn_state n \<noteq> Candidate then (n, [])
      else if reply_term > rn_current_term n then (raft_update_term n reply_term, [])
      else if vote_granted then
        let n' = n\<lparr>rn_votes := (rn_votes n)(worker_term := insert peer (rn_votes n worker_term))\<rparr>
        in if card (rn_votes n' worker_term) > length (raft_all_nodes n') div 2
           then raft_become_leader n' else (n', [])
      else (n, []))"

definition raft_handle_request_vote ::
  "('s, 'c, 'r, 'b) raft_node \<Rightarrow> nat \<Rightarrow> node_id \<Rightarrow> nat \<Rightarrow> nat \<Rightarrow>
    (('s, 'c, 'r, 'b) raft_node, nat \<times> bool) outcome" where
  "raft_handle_request_vote n0 request_term candidate_id last_log_index last_log_term =
     (if request_term < rn_current_term n0 then (n0, Inr (rn_current_term n0, False))
      else
        let n = (if request_term > rn_current_term n0 then raft_update_term n0 request_term else n0);
            can_vote = (rn_voted_for n = None \<or> rn_voted_for n = Some candidate_id);
            our_last_index = rl_len (rn_log n)
        in case rl_get_term (rn_log n) our_last_index of Inl e \<Rightarrow> (n, Inl e)
           | Inr our_last_term \<Rightarrow>
               let log_is_fresh = (last_log_term > our_last_term \<or>
                     last_log_term = our_last_term \<and> last_log_index \<ge> our_last_index)
               in if can_vote \<and> log_is_fresh
                  then (raft_save_state (n\<lparr>rn_voted_for := Some candidate_id\<rparr>), Inr (rn_current_term n, True))
                  else (n, Inr (rn_current_term n, False)))"

section \<open>Replication\<close>

record 'c append_request =
  ar_term :: nat
  ar_leader_id :: node_id
  ar_prev_log_index :: nat
  ar_prev_log_term :: nat
  ar_entries :: "'c log_entry list"
  ar_leader_commit :: nat

text \<open>The first half of \<open>_append_entries_worker\<close>: no request, an exception, or a request.\<close>

definition raft_append_request ::
  "('s, 'c, 'r, 'b) raft_node \<Rightarrow> node_id \<Rightarrow> 'c append_request option result" where
  "raft_append_request n peer =
     (if rn_state n \<noteq> Leader then Inr None
      else let next_idx = dict_get (rn_next_index n) peer 1; prev_log_index = next_idx - 1
        in if prev_log_index < rl_last_included_index (rn_log n) then Inr None
           else case rl_get_term (rn_log n) prev_log_index of Inl e \<Rightarrow> Inl e
             | Inr prev_log_term \<Rightarrow> Inr (Some
                 \<lparr>ar_term = rn_current_term n, ar_leader_id = rn_node_id n,
                  ar_prev_log_index = prev_log_index, ar_prev_log_term = prev_log_term,
                  ar_entries = rl_get_entries (rn_log n) next_idx,
                  ar_leader_commit = rn_commit_index n\<rparr>))"

definition raft_update_commit_index ::
  "('s, 'c, 'r, 'b) machine \<Rightarrow> ('s, 'c, 'r, 'b) raft_node \<Rightarrow> (('s, 'c, 'r, 'b) raft_node, unit) outcome" where
  "raft_update_commit_index M n =
     (let matches = rev (sort (map snd (rn_match_index n) @ [rl_len (rn_log n)]));
          majority_index = length (raft_all_nodes n) div 2
      in if majority_index \<ge> length matches then (n, Inl IndexError)
         else let N = matches ! majority_index
           in if N > rn_commit_index n
              then case rl_get_term (rn_log n) N of Inl e \<Rightarrow> (n, Inl e)
                | Inr t \<Rightarrow>
                    if t = rn_current_term n
                    then raft_apply_committed_entries M (n\<lparr>rn_commit_index := N\<rparr>) else (n, Inr ())
              else (n, Inr ()))"

text \<open>The second half of \<open>_append_entries_worker\<close>; its exceptions are caught and ignored there.\<close>

definition raft_append_reply ::
  "('s, 'c, 'r, 'b) machine \<Rightarrow> ('s, 'c, 'r, 'b) raft_node \<Rightarrow> node_id \<Rightarrow> 'c append_request \<Rightarrow> nat \<Rightarrow> bool
    \<Rightarrow> ('s, 'c, 'r, 'b) raft_node" where
  "raft_append_reply M n peer req reply_term success =
     (if \<not> rn_running n then n
      else if reply_term > rn_current_term n then raft_update_term n reply_term
      else if rn_state n \<noteq> Leader then n
      else if success then
        (let num_entries = length (ar_entries req)
         in if num_entries > 0 then
              let m = ar_prev_log_index req + num_entries;
                  n' = n\<lparr>rn_match_index := dict_set peer m (rn_match_index n),
                         rn_next_index := dict_set peer (m + 1) (rn_next_index n)\<rparr>
              in fst (raft_update_commit_index M n')
            else n)
      else case map_of (rn_next_index n) peer of None \<Rightarrow> n
        | Some i \<Rightarrow> n\<lparr>rn_next_index := dict_set peer (max 1 (i - 1)) (rn_next_index n)\<rparr>)"

definition raft_submit_command ::
  "('s, 'c, 'r, 'b) raft_node \<Rightarrow> 'c \<Rightarrow> ('s, 'c, 'r, 'b) raft_node \<times> nat result \<times> spawn list" where
  "raft_submit_command n command =
     (if rn_state n \<noteq> Leader then (n, Inl (OtherException ''Not Leader''), [])
      else let index = rl_len (rn_log n) + 1;
               entry = \<lparr>le_term = rn_current_term n, le_index = index, le_command = command\<rparr>;
               f = rn_futures n;
               n' = n\<lparr>rn_log := rl_append (rn_log n) entry, rn_futures := f + 1,
                      rn_pending_commits := (rn_pending_commits n)(index \<mapsto> f)\<rparr>
        in (n', Inr f, raft_send_heartbeats n'))"

text \<open>The loop of \<open>handle_append_entries\<close>; \<open>idx\<close> is \<open>prev_log_index + 1 + i\<close>.\<close>

fun raft_append_loop ::
  "('c, 'b) raft_log \<Rightarrow> nat \<Rightarrow> 'c log_entry list \<Rightarrow> (('c, 'b) raft_log, unit) outcome" where
  "raft_append_loop l idx [] = (l, Inr ())"
| "raft_append_loop l idx (entry # entries) =
     (if idx \<le> rl_len l then
        (case rl_get_term l idx of Inl e \<Rightarrow> (l, Inl e)
         | Inr t \<Rightarrow> raft_append_loop
             (if t \<noteq> le_term entry then rl_append (rl_truncate l idx) entry else l) (idx + 1) entries)
      else raft_append_loop (rl_append l entry) (idx + 1) entries)"

definition raft_handle_append_entries ::
  "('s, 'c, 'r, 'b) machine \<Rightarrow> ('s, 'c, 'r, 'b) raft_node \<Rightarrow> 'c append_request \<Rightarrow>
    (('s, 'c, 'r, 'b) raft_node, nat \<times> bool) outcome" where
  "raft_handle_append_entries M n0 req =
     (if ar_term req < rn_current_term n0 then (n0, Inr (rn_current_term n0, False))
      else
        let n = (if ar_term req > rn_current_term n0 then raft_update_term n0 (ar_term req) else n0)
        in case rl_match_log (rn_log n) (ar_prev_log_index req) (ar_prev_log_term req) of
             Inl e \<Rightarrow> (n, Inl e)
           | Inr False \<Rightarrow> (n, Inr (rn_current_term n, False))
           | Inr True \<Rightarrow>
               (case raft_append_loop (rn_log n) (ar_prev_log_index req + 1) (ar_entries req) of
                  (l, Inl e) \<Rightarrow> (n\<lparr>rn_log := l\<rparr>, Inl e)
                | (l, Inr _) \<Rightarrow>
                    let n1 = n\<lparr>rn_log := l\<rparr>
                    in if ar_leader_commit req > rn_commit_index n1
                       then case raft_apply_committed_entries M
                              (n1\<lparr>rn_commit_index := min (ar_leader_commit req) (rl_len l)\<rparr>) of
                              (n2, Inl e) \<Rightarrow> (n2, Inl e)
                            | (n2, Inr _) \<Rightarrow> (n2, Inr (rn_current_term n2, True))
                       else (n1, Inr (rn_current_term n1, True))))"

end
