(* ===== verification/Raft_Election.thy ===== *)
theory Raft_Election
  imports Raft_Node
begin

text \<open>
  A cluster of Raft nodes over a network that delays, reorders, duplicates and loses calls and
  replies, with restarts from storage: at most one leader per term as long as no vote arrives
  after its candidate has moved on to a later election, and a run with two leaders in one term
  when one does.
\<close>

section \<open>The cluster\<close>

text \<open>
  Every pending call and every reply on its way is an element of a set and stays there: it may
  be delivered never, late, or twice. \<open>cl_cast\<close> is a ghost: the vote each node has stored in each
  term, collected from the nodes as they change.
\<close>

record ('s, 'c, 'r, 'b) raft_cluster =
  cl_nodes :: "node_id \<Rightarrow> ('s, 'c, 'r, 'b) raft_node"
  cl_vote_calls :: "(node_id \<times> node_id \<times> nat \<times> nat \<times> nat) set"
  cl_vote_replies :: "(node_id \<times> node_id \<times> nat \<times> nat \<times> bool) set"
  cl_append_calls :: "(node_id \<times> node_id \<times> 'c append_request) set"
  cl_append_replies :: "(node_id \<times> node_id \<times> 'c append_request \<times> nat \<times> bool) set"
  cl_cast :: "node_id \<Rightarrow> nat \<Rightarrow> node_id option"

definition raft_record_vote ::
  "(node_id \<Rightarrow> nat \<Rightarrow> node_id option) \<Rightarrow> node_id \<Rightarrow> ('s, 'c, 'r, 'b) raft_node \<Rightarrow> node_id \<Rightarrow> nat \<Rightarrow> node_id option" where
  "raft_record_vote cast i n =
     (case rn_voted_for n of None \<Rightarrow> cast
      | Some c \<Rightarrow> cast(i := (cast i)(rn_current_term n := Some c)))"

definition raft_put ::
  "('s, 'c, 'r, 'b) raft_cluster \<Rightarrow> node_id \<Rightarrow> ('s, 'c, 'r, 'b) raft_node \<Rightarrow> ('s, 'c, 'r, 'b) raft_cluster" where
  "raft_put s i n = s\<lparr>cl_nodes := (cl_nodes s)(i := n), cl_cast := raft_record_vote (cl_cast s) i n\<rparr>"

definition raft_calls :: "node_id \<Rightarrow> spawn list result \<Rightarrow> (node_id \<times> node_id \<times> nat \<times> nat \<times> nat) set" where
  "raft_calls i ws = (case ws of Inl e \<Rightarrow> {}
     | Inr ws \<Rightarrow> set (concat (map (\<lambda>w. case w of Request_Vote_Worker p t a b \<Rightarrow> [(i, p, t, a, b)]
         | Append_Entries_Worker p \<Rightarrow> []) ws)))"

definition raft_peers_of :: "node_id list \<Rightarrow> node_id \<Rightarrow> node_id list" where
  "raft_peers_of ns i = filter (\<lambda>p. p \<noteq> i) ns"

text \<open>
  \<open>timely\<close>: a granted vote reaches its candidate during the election it was granted for. \<open>prompt\<close>: an
  acknowledgement reaches its leader in the term of its request.
\<close>

inductive raft_reachable ::
  "('s, 'c, 'r, 'b) machine \<Rightarrow> 's \<Rightarrow> nat \<Rightarrow> node_id list \<Rightarrow> bool \<Rightarrow> bool \<Rightarrow> ('s, 'c, 'r, 'b) raft_cluster \<Rightarrow> bool"
  for M machine0 k ns timely prompt where
  rc_start: "\<forall>i\<in>set ns. raft_init M machine0 k i (raft_peers_of ns i) fs_init = Inr (nodes i) \<Longrightarrow>
    raft_reachable M machine0 k ns timely prompt \<lparr>cl_nodes = nodes, cl_vote_calls = {}, cl_vote_replies = {},
      cl_append_calls = {}, cl_append_replies = {}, cl_cast = (\<lambda>_ _. None)\<rparr>"
| rc_run: "raft_reachable M machine0 k ns timely prompt s \<Longrightarrow> i \<in> set ns \<Longrightarrow>
    raft_reachable M machine0 k ns timely prompt (raft_put s i (raft_start (cl_nodes s i)))"
| rc_stop: "raft_reachable M machine0 k ns timely prompt s \<Longrightarrow> i \<in> set ns \<Longrightarrow>
    raft_reachable M machine0 k ns timely prompt (raft_put s i (raft_stop (cl_nodes s i)))"
| rc_timeout: "raft_reachable M machine0 k ns timely prompt s \<Longrightarrow> i \<in> set ns \<Longrightarrow>
    raft_election_timeout (cl_nodes s i) = (n, ws) \<Longrightarrow>
    raft_reachable M machine0 k ns timely prompt
      ((raft_put s i n)\<lparr>cl_vote_calls := cl_vote_calls s \<union> raft_calls i ws\<rparr>)"
| rc_vote: "raft_reachable M machine0 k ns timely prompt s \<Longrightarrow> p \<in> set ns \<Longrightarrow>
    (i, p, t, a, b) \<in> cl_vote_calls s \<Longrightarrow>
    raft_handle_request_vote (cl_nodes s p) t i a b = (n, Inr (rt, granted)) \<Longrightarrow>
    raft_reachable M machine0 k ns timely prompt
      ((raft_put s p n)\<lparr>cl_vote_replies := insert (i, p, t, rt, granted) (cl_vote_replies s)\<rparr>)"
| rc_vote_raises: "raft_reachable M machine0 k ns timely prompt s \<Longrightarrow> p \<in> set ns \<Longrightarrow>
    (i, p, t, a, b) \<in> cl_vote_calls s \<Longrightarrow>
    raft_handle_request_vote (cl_nodes s p) t i a b = (n, Inl e) \<Longrightarrow>
    raft_reachable M machine0 k ns timely prompt (raft_put s p n)"
| rc_vote_lost: "raft_reachable M machine0 k ns timely prompt s \<Longrightarrow> (i, p, t, a, b) \<in> cl_vote_calls s \<Longrightarrow>
    raft_reachable M machine0 k ns timely prompt
      (s\<lparr>cl_vote_replies := insert (i, p, t, 0, False) (cl_vote_replies s)\<rparr>)"
| rc_vote_reply: "raft_reachable M machine0 k ns timely prompt s \<Longrightarrow> i \<in> set ns \<Longrightarrow>
    (i, p, t, rt, granted) \<in> cl_vote_replies s \<Longrightarrow>
    (timely \<Longrightarrow> granted \<Longrightarrow> t = rn_current_term (cl_nodes s i)) \<Longrightarrow>
    raft_vote_reply (cl_nodes s i) p t rt granted = (n, ws) \<Longrightarrow>
    raft_reachable M machine0 k ns timely prompt (raft_put s i n)"
| rc_append_call: "raft_reachable M machine0 k ns timely prompt s \<Longrightarrow> i \<in> set ns \<Longrightarrow>
    p \<in> set (rn_peers (cl_nodes s i)) \<Longrightarrow> raft_append_request (cl_nodes s i) p = Inr (Some req) \<Longrightarrow>
    raft_reachable M machine0 k ns timely prompt
      (s\<lparr>cl_append_calls := insert (i, p, req) (cl_append_calls s)\<rparr>)"
| rc_append: "raft_reachable M machine0 k ns timely prompt s \<Longrightarrow> p \<in> set ns \<Longrightarrow>
    (i, p, req) \<in> cl_append_calls s \<Longrightarrow>
    raft_handle_append_entries M (cl_nodes s p) req = (n, r) \<Longrightarrow>
    raft_reachable M machine0 k ns timely prompt
      ((raft_put s p n)\<lparr>cl_append_replies := cl_append_replies s \<union>
         (case r of Inl e \<Rightarrow> {} | Inr (rt, ok) \<Rightarrow> {(i, p, req, rt, ok)})\<rparr>)"
| rc_append_lost: "raft_reachable M machine0 k ns timely prompt s \<Longrightarrow> (i, p, req) \<in> cl_append_calls s \<Longrightarrow>
    raft_reachable M machine0 k ns timely prompt
      (s\<lparr>cl_append_replies := insert (i, p, req, 0, False) (cl_append_replies s)\<rparr>)"
| rc_append_reply: "raft_reachable M machine0 k ns timely prompt s \<Longrightarrow> i \<in> set ns \<Longrightarrow>
    (i, p, req, rt, ok) \<in> cl_append_replies s \<Longrightarrow>
    (prompt \<Longrightarrow> ok \<Longrightarrow> ar_term req = rn_current_term (cl_nodes s i)) \<Longrightarrow>
    raft_reachable M machine0 k ns timely prompt (raft_put s i (raft_append_reply M (cl_nodes s i) p req rt ok))"
| rc_submit: "raft_reachable M machine0 k ns timely prompt s \<Longrightarrow> i \<in> set ns \<Longrightarrow>
    raft_submit_command (cl_nodes s i) c = (n, r) \<Longrightarrow>
    raft_reachable M machine0 k ns timely prompt (raft_put s i n)"
| rc_restart: "raft_reachable M machine0 k ns timely prompt s \<Longrightarrow> i \<in> set ns \<Longrightarrow>
    raft_init M machine0 k i (raft_peers_of ns i) (rl_storage (rn_log (cl_nodes s i))) = Inr n \<Longrightarrow>
    raft_reachable M machine0 k ns timely prompt (raft_put s i n)"

section \<open>What each handler does to term, vote and role\<close>

text \<open>\<open>same_role\<close>: nothing. \<open>quiet\<close>: it may move to a later term or vote, but wins no election.\<close>

definition same_role :: "('s, 'c, 'r, 'b) raft_node \<Rightarrow> ('s, 'c, 'r, 'b) raft_node \<Rightarrow> bool" where
  "same_role n n' \<longleftrightarrow> rn_node_id n' = rn_node_id n \<and> rn_peers n' = rn_peers n \<and>
     rn_current_term n' = rn_current_term n \<and> rn_voted_for n' = rn_voted_for n \<and>
     rn_state n' = rn_state n \<and> rn_votes n' = rn_votes n \<and>
     fs_load_state (rl_storage (rn_log n')) = fs_load_state (rl_storage (rn_log n))"

definition vote_saved :: "('s, 'c, 'r, 'b) raft_node \<Rightarrow> bool" where
  "vote_saved n \<longleftrightarrow> fs_load_state (rl_storage (rn_log n)) = (rn_current_term n, rn_voted_for n)"

definition vote_grows :: "('s, 'c, 'r, 'b) raft_node \<Rightarrow> ('s, 'c, 'r, 'b) raft_node \<Rightarrow> bool" where
  "vote_grows n n' \<longleftrightarrow> rn_node_id n' = rn_node_id n \<and> set (rn_peers n') = set (rn_peers n) \<and>
     (vote_saved n \<longrightarrow> vote_saved n') \<and>
     (rn_current_term n < rn_current_term n' \<or>
      rn_current_term n' = rn_current_term n \<and> (rn_voted_for n = None \<or> rn_voted_for n' = rn_voted_for n))"

definition quiet :: "('s, 'c, 'r, 'b) raft_node \<Rightarrow> ('s, 'c, 'r, 'b) raft_node \<Rightarrow> bool" where
  "quiet n n' \<longleftrightarrow> vote_grows n n' \<and> (\<forall>t. rn_votes n' t \<subseteq> rn_votes n t) \<and>
     (rn_state n' = Leader \<longrightarrow> rn_state n = Leader \<and> rn_current_term n' = rn_current_term n)"

lemma same_role_refl [simp]: "same_role n n"
  by (simp add: same_role_def)

lemma same_role_trans: "same_role n n' \<Longrightarrow> same_role n' n'' \<Longrightarrow> same_role n n''"
  by (simp add: same_role_def)

lemma vote_grows_trans: "vote_grows n n' \<Longrightarrow> vote_grows n' n'' \<Longrightarrow> vote_grows n n''"
  unfolding vote_grows_def by (elim conjE disjE) simp_all

lemma same_role_quiet: "same_role n n' \<Longrightarrow> quiet n n'"
  by (simp add: same_role_def quiet_def vote_grows_def vote_saved_def)

lemma quiet_refl [simp]: "quiet n n"
  by (simp add: same_role_quiet)

lemma quiet_same_role: "quiet n n' \<Longrightarrow> same_role n' n'' \<Longrightarrow> quiet n n''"
  by (simp add: same_role_def quiet_def vote_grows_def vote_saved_def)

lemma same_role_fields [simp]:
  "same_role n (n\<lparr>rn_machine := a\<rparr>)" "same_role n (n\<lparr>rn_commit_index := i\<rparr>)"
  "same_role n (n\<lparr>rn_last_applied := i\<rparr>)" "same_role n (n\<lparr>rn_next_index := d\<rparr>)"
  "same_role n (n\<lparr>rn_match_index := d, rn_next_index := d'\<rparr>)"
  "fs_load_state (rl_storage l) = fs_load_state (rl_storage (rn_log n)) \<Longrightarrow> same_role n (n\<lparr>rn_log := l\<rparr>)"
  by (simp_all add: same_role_def)

lemma check_snapshot_role: "same_role n (fst (raft_check_snapshot M n))"
  by (auto simp: raft_check_snapshot_def Let_def same_role_def split: sum.splits)

lemma resolve_role: "same_role n (raft_resolve n r)"
  by (auto simp: raft_resolve_def same_role_def split: option.splits)

lemma apply_one_role: "same_role n (fst (raft_apply_one M n))"
proof -
  have "same_role n (fst (raft_check_snapshot M (raft_resolve (n\<lparr>rn_last_applied := i, rn_machine := m\<rparr>) r)))"
    for i m r
    by (rule same_role_trans [OF same_role_trans [OF _ resolve_role] check_snapshot_role])
      (simp add: same_role_def)
  then show ?thesis
    by (auto simp: raft_apply_one_def Let_def split: sum.splits prod.splits)
      (simp_all add: same_role_def)
qed

lemma apply_role: "same_role n (fst (raft_apply_committed_entries M n))"
proof (induction M n rule: raft_apply_committed_entries.induct)
  case (1 M n)
  show ?case
  proof (cases "rn_last_applied n < rn_commit_index n")
    case True
    obtain n' r where one: "raft_apply_one M n = (n', r)" by fastforce
    then have "same_role n n'" using apply_one_role [of n M] by simp
    then show ?thesis
      using 1 [OF True one [symmetric]] True one same_role_trans
      by (subst raft_apply_committed_entries.simps) (auto split: sum.splits)
  next
    case False
    then show ?thesis by (subst raft_apply_committed_entries.simps) simp
  qed
qed

lemma update_commit_role: "same_role n (fst (raft_update_commit_index M n))"
  using same_role_trans [OF same_role_fields(2) apply_role]
  by (auto simp: raft_update_commit_index_def Let_def split: sum.splits)

lemma append_loop_state:
  "fs_load_state (rl_storage (fst (raft_append_loop l idx es))) = fs_load_state (rl_storage l)"
  by (induction l idx es rule: raft_append_loop.induct) (auto split: sum.splits)

lemma update_term_quiet: "rn_current_term n < t \<Longrightarrow> quiet n (raft_update_term n t)"
  by (auto simp: raft_update_term_def raft_save_state_def quiet_def vote_grows_def vote_saved_def)

lemma handle_append_quiet: "quiet n (fst (raft_handle_append_entries M n req))"
proof (cases "ar_term req < rn_current_term n")
  case True
  then show ?thesis by (simp add: raft_handle_append_entries_def)
next
  case False
  define n0 where "n0 = (if ar_term req > rn_current_term n then raft_update_term n (ar_term req) else n)"
  have n0: "quiet n n0" by (simp add: n0_def update_term_quiet)
  have log: "same_role n0 (n0\<lparr>rn_log := l\<rparr>)"
    if "raft_append_loop (rn_log n0) i es = (l, r)" for i es l r
    using append_loop_state [of "rn_log n0" i es] that by simp
  have "same_role n0 (fst (raft_handle_append_entries M n req))"
    using False
    unfolding raft_handle_append_entries_def Let_def n0_def [symmetric] if_not_P [OF False]
    by (auto split: sum.splits prod.splits bool.splits dest!: log intro: same_role_trans)
      (metis apply_role fst_conv same_role_fields(2) same_role_trans)+
  with n0 show ?thesis by (rule quiet_same_role)
qed

lemma append_reply_quiet: "quiet n (raft_append_reply M n p req rt ok)"
proof -
  have "same_role n (fst (raft_update_commit_index M (n\<lparr>rn_match_index := a, rn_next_index := b\<rparr>)))" for a b
    by (rule same_role_trans [OF same_role_fields(5) update_commit_role])
  then show ?thesis
    by (auto simp: raft_append_reply_def Let_def update_term_quiet intro: same_role_quiet split: option.splits)
qed

lemma submit_quiet: "quiet n (fst (raft_submit_command n c))"
  by (rule same_role_quiet) (simp add: raft_submit_command_def Let_def same_role_def)

lemma start_stop_quiet: "quiet n (raft_start n)" "quiet n (raft_stop n)"
  by (auto simp: raft_start_def raft_stop_def same_role_def intro!: same_role_quiet)

lemma request_vote_grows:
  assumes "raft_handle_request_vote n t i a b = (n', r)"
  shows "quiet n n' \<and> (r = Inr (rt, True) \<longrightarrow> rn_current_term n' = t \<and> rn_voted_for n' = Some i)"
proof (cases "t < rn_current_term n")
  case True
  then show ?thesis using assms by (auto simp: raft_handle_request_vote_def)
next
  case False
  define n0 where "n0 = (if t > rn_current_term n then raft_update_term n t else n)"
  have n0: "quiet n n0" by (simp add: n0_def update_term_quiet)
  have cur: "rn_current_term n0 = t"
    using False by (simp add: n0_def raft_update_term_def raft_save_state_def)
  have leader: "rn_state n0 = Leader \<Longrightarrow> rn_state n = Leader"
    by (simp add: n0_def raft_update_term_def split: if_splits)
  have "n' = n0 \<or> (rn_voted_for n0 = None \<or> rn_voted_for n0 = Some i) \<and>
      n' = raft_save_state (n0\<lparr>rn_voted_for := Some i\<rparr>)"
    and voted: "r = Inr (rt, True) \<longrightarrow> rn_voted_for n' = Some i"
    using assms False unfolding raft_handle_request_vote_def Let_def n0_def [symmetric] if_not_P [OF False]
    by (auto simp: raft_save_state_def split: sum.splits if_splits)
  moreover have "quiet n (raft_save_state (n0\<lparr>rn_voted_for := Some i\<rparr>))"
    if "rn_voted_for n0 = None \<or> rn_voted_for n0 = Some i"
  proof -
    have "vote_grows n0 (raft_save_state (n0\<lparr>rn_voted_for := Some i\<rparr>))"
      using that by (auto simp: vote_grows_def vote_saved_def raft_save_state_def)
    then have "vote_grows n (raft_save_state (n0\<lparr>rn_voted_for := Some i\<rparr>))"
      using n0 vote_grows_trans unfolding quiet_def by blast
    then show ?thesis using n0 by (simp add: quiet_def raft_save_state_def)
  qed
  ultimately have "quiet n n' \<and> rn_current_term n' = t"
    using n0 cur by (elim disjE conjE) (simp_all add: raft_save_state_def)
  then show ?thesis using voted by simp
qed

lemma election_timeout_cases:
  assumes "raft_election_timeout n = (n', r)"
  shows "n' = n \<or> vote_grows n n' \<and> rn_current_term n' = rn_current_term n + 1 \<and>
    rn_voted_for n' = Some (rn_node_id n) \<and> rn_state n' = Candidate \<and>
    rn_votes n' = (rn_votes n)(rn_current_term n' := {rn_node_id n})"
proof -
  have "rn_current_term (fst (raft_start_election n)) = rn_current_term n + 1"
    "rn_voted_for (fst (raft_start_election n)) = Some (rn_node_id n)"
    "rn_state (fst (raft_start_election n)) = Candidate"
    "rn_node_id (fst (raft_start_election n)) = rn_node_id n"
    "rn_peers (fst (raft_start_election n)) = rn_peers n"
    "rn_votes (fst (raft_start_election n)) = (rn_votes n)(rn_current_term n + 1 := {rn_node_id n})"
    "fs_load_state (rl_storage (rn_log (fst (raft_start_election n)))) =
       (rn_current_term n + 1, Some (rn_node_id n))"
    by (simp_all add: raft_start_election_def raft_save_state_def Let_def split: sum.split)
  then show ?thesis
    using assms by (auto simp: raft_election_timeout_def vote_grows_def vote_saved_def split: if_splits)
qed

lemma become_leader_fields:
  "rn_state (fst (raft_become_leader n)) = Leader"
  "same_role (n\<lparr>rn_state := Leader\<rparr>) (fst (raft_become_leader n))"
proof -
  have "same_role m (foldl (\<lambda>n peer. n\<lparr>rn_next_index := dict_set peer i (rn_next_index n),
      rn_match_index := dict_set peer 0 (rn_match_index n)\<rparr>) m ps)" for m :: "('a, 'b, 'c, 'd) raft_node" and i ps
    by (induction ps arbitrary: m) (auto simp: same_role_def)
  then show "same_role (n\<lparr>rn_state := Leader\<rparr>) (fst (raft_become_leader n))"
    by (simp add: raft_become_leader_def Let_def)
  then show "rn_state (fst (raft_become_leader n)) = Leader" by (simp add: same_role_def)
qed

lemma vote_reply_cases:
  assumes "raft_vote_reply n p t rt granted = (n', ws)"
  shows "quiet n n' \<or> granted \<and> vote_grows n n' \<and> rn_current_term n' = rn_current_term n \<and>
    rn_voted_for n' = rn_voted_for n \<and> rn_votes n' = (rn_votes n)(t := insert p (rn_votes n t)) \<and>
    (rn_state n' = Leader \<longrightarrow> card (rn_votes n' t) > length (raft_all_nodes n) div 2)"
proof (cases "\<not> rn_running n \<or> rn_state n \<noteq> Candidate \<or> rt > rn_current_term n \<or> \<not> granted")
  case True
  then show ?thesis
    using assms update_term_quiet by (auto simp: raft_vote_reply_def split: if_splits)
next
  case False
  define m where "m = n\<lparr>rn_votes := (rn_votes n)(t := insert p (rn_votes n t))\<rparr>"
  have all: "raft_all_nodes m = raft_all_nodes n" by (simp add: m_def raft_all_nodes_def)
  have "(n', ws) = (if card (rn_votes m t) > length (raft_all_nodes m) div 2 then raft_become_leader m else (m, []))"
    using assms False by (auto simp: raft_vote_reply_def m_def Let_def split: if_splits)
  then have "n' = m \<or> n' = fst (raft_become_leader m) \<and> card (rn_votes m t) > length (raft_all_nodes m) div 2"
    by (auto split: if_splits) (metis fst_conv)
  then show ?thesis
    using False become_leader_fields [of m] all
    by (auto simp: m_def same_role_def vote_grows_def vote_saved_def)
qed

lemma restart_grows:
  assumes "raft_init M machine0 k i peers (rl_storage (rn_log n)) = Inr n'" and "vote_saved n"
    and "rn_node_id n = i" and "set (rn_peers n) = set peers"
  shows "quiet n n'"
proof -
  have "rn_node_id n' = i \<and> rn_peers n' = remdups peers \<and> rn_state n' = Follower \<and> rn_votes n' = (\<lambda>_. {}) \<and>
    rl_storage (rn_log n') = rl_storage (rn_log n) \<and>
    (rn_current_term n', rn_voted_for n') = fs_load_state (rl_storage (rn_log n))"
    using assms(1) unfolding raft_init_def Let_def
    by (cases "fs_load_snapshot (rl_storage (rn_log n))")
      (auto simp: case_prod_unfold split: sum.splits)
  then show ?thesis using assms(2-4) by (simp add: vote_saved_def quiet_def vote_grows_def)
qed

section \<open>The invariant\<close>

definition cast_le :: "(node_id \<Rightarrow> nat \<Rightarrow> node_id option) \<Rightarrow> (node_id \<Rightarrow> nat \<Rightarrow> node_id option) \<Rightarrow> bool" where
  "cast_le c c' \<longleftrightarrow> (\<forall>x t y. c x t = Some y \<longrightarrow> c' x t = Some y)"

definition voters :: "node_id list \<Rightarrow> (node_id \<Rightarrow> nat \<Rightarrow> node_id option) \<Rightarrow> nat \<Rightarrow> node_id \<Rightarrow> node_id set" where
  "voters ns cast t i = {x \<in> set ns. cast x t = Some i}"

definition own_vote_ok :: "(node_id \<Rightarrow> nat \<Rightarrow> node_id option) \<Rightarrow> node_id \<Rightarrow> ('s, 'c, 'r, 'b) raft_node \<Rightarrow> bool" where
  "own_vote_ok cast i n \<longleftrightarrow>
     cast i (rn_current_term n) = rn_voted_for n \<and> (\<forall>t. rn_current_term n < t \<longrightarrow> cast i t = None)"

definition election_ok ::
  "bool \<Rightarrow> node_id list \<Rightarrow> (node_id \<Rightarrow> nat \<Rightarrow> node_id option) \<Rightarrow> node_id \<Rightarrow> ('s, 'c, 'r, 'b) raft_node \<Rightarrow> bool" where
  "election_ok timely ns cast i n \<longleftrightarrow> (\<forall>t. rn_votes n t \<subseteq> voters ns cast t i) \<and>
     (timely \<longrightarrow> rn_state n = Leader \<longrightarrow> card (set ns) div 2 < card (voters ns cast (rn_current_term n) i))"

definition raft_node_inv ::
  "bool \<Rightarrow> node_id list \<Rightarrow> (node_id \<Rightarrow> nat \<Rightarrow> node_id option) \<Rightarrow> node_id \<Rightarrow> ('s, 'c, 'r, 'b) raft_node \<Rightarrow> bool" where
  "raft_node_inv timely ns cast i n \<longleftrightarrow> rn_node_id n = i \<and> set (rn_peers n) = set ns - {i} \<and>
     vote_saved n \<and> own_vote_ok cast i n \<and> election_ok timely ns cast i n"

definition raft_inv :: "bool \<Rightarrow> node_id list \<Rightarrow> ('s, 'c, 'r, 'b) raft_cluster \<Rightarrow> bool" where
  "raft_inv timely ns s \<longleftrightarrow> (\<forall>i\<in>set ns. raft_node_inv timely ns (cl_cast s) i (cl_nodes s i)) \<and>
     (\<forall>i p t rt. (i, p, t, rt, True) \<in> cl_vote_replies s \<longrightarrow> p \<in> voters ns (cl_cast s) t i)"

lemma voters_mono: "cast_le c c' \<Longrightarrow> voters ns c t i \<subseteq> voters ns c' t i"
  by (auto simp: voters_def cast_le_def)

lemma finite_voters [simp]: "finite (voters ns c t i)"
  by (simp add: voters_def)

lemma election_ok_mono:
  assumes "election_ok timely ns c i n" and "cast_le c c'"
  shows "election_ok timely ns c' i n"
proof -
  have sub: "voters ns c t i \<subseteq> voters ns c' t i" for t using assms(2) by (rule voters_mono)
  then have "card (voters ns c t i) \<le> card (voters ns c' t i)" for t by (simp add: card_mono)
  then show ?thesis
    using assms(1) sub unfolding election_ok_def by (meson order_less_le_trans subset_trans)
qed

lemma record_vote_grows:
  assumes "own_vote_ok cast i n" and "vote_grows n n'"
  shows "cast_le cast (raft_record_vote cast i n')" and "own_vote_ok (raft_record_vote cast i n') i n'"
  using assms
  by (auto simp: cast_le_def own_vote_ok_def vote_grows_def raft_record_vote_def split: option.splits)

lemma record_vote_others: "j \<noteq> i \<Longrightarrow> raft_record_vote cast i n' j = cast j"
  by (simp add: raft_record_vote_def split: option.split)

lemma put_inv:
  assumes inv: "raft_inv timely ns s" and i: "i \<in> set ns" and grows: "vote_grows (cl_nodes s i) n'"
    and new: "election_ok timely ns (raft_record_vote (cl_cast s) i n') i n'"
  shows "raft_inv timely ns (raft_put s i n')"
proof -
  let ?c = "raft_record_vote (cl_cast s) i n'"
  have old: "raft_node_inv timely ns (cl_cast s) j (cl_nodes s j)" if "j \<in> set ns" for j
    using inv that by (simp add: raft_inv_def)
  have own: "own_vote_ok (cl_cast s) i (cl_nodes s i)" using old [OF i] by (simp add: raft_node_inv_def)
  note le = record_vote_grows(1) [OF own grows]
  have "raft_node_inv timely ns ?c j (((cl_nodes s)(i := n')) j)" if j: "j \<in> set ns" for j
  proof (cases "j = i")
    case True
    then show ?thesis
      using old [OF i] grows new record_vote_grows(2) [OF own grows]
      by (simp add: raft_node_inv_def vote_grows_def)
  next
    case False
    then show ?thesis
      using old [OF j] by (auto simp: raft_node_inv_def own_vote_ok_def record_vote_others
          intro: election_ok_mono [OF _ le])
  qed
  moreover have "p \<in> voters ns ?c t j" if "(j, p, t, rt, True) \<in> cl_vote_replies s" for j p t rt
    using inv that voters_mono [OF le, of ns t j] unfolding raft_inv_def by blast
  ultimately show ?thesis by (simp add: raft_inv_def raft_put_def)
qed

lemma quiet_election_ok:
  assumes "election_ok timely ns c i n" and "quiet n n'" and "cast_le c c'"
  shows "election_ok timely ns c' i n'"
proof -
  have "election_ok timely ns c i n'"
    using assms(1,2) unfolding election_ok_def quiet_def by (metis subset_trans)
  then show ?thesis using assms(3) by (rule election_ok_mono)
qed

lemma put_quiet_inv:
  assumes "raft_inv timely ns s" and "i \<in> set ns" and "quiet (cl_nodes s i) n'"
  shows "raft_inv timely ns (raft_put s i n')"
proof -
  have old: "own_vote_ok (cl_cast s) i (cl_nodes s i)" "election_ok timely ns (cl_cast s) i (cl_nodes s i)"
    using assms(1,2) by (simp_all add: raft_inv_def raft_node_inv_def)
  have grows: "vote_grows (cl_nodes s i) n'" using assms(3) by (simp add: quiet_def)
  show ?thesis
    by (rule put_inv [OF assms(1,2) grows quiet_election_ok [OF old(2) assms(3) record_vote_grows(1) [OF old(1) grows]]])
qed

lemma inv_fields [simp]:
  "raft_inv timely ns (s\<lparr>cl_vote_calls := a\<rparr>) = raft_inv timely ns s"
  "raft_inv timely ns (s\<lparr>cl_append_calls := b\<rparr>) = raft_inv timely ns s"
  "raft_inv timely ns (s\<lparr>cl_append_replies := d\<rparr>) = raft_inv timely ns s"
  by (simp_all add: raft_inv_def)

lemma inv_insert_reply:
  "raft_inv timely ns s \<Longrightarrow> (g \<Longrightarrow> p \<in> voters ns (cl_cast s) t i) \<Longrightarrow>
    raft_inv timely ns (s\<lparr>cl_vote_replies := insert (i, p, t, rt, g) (cl_vote_replies s)\<rparr>)"
  by (auto simp: raft_inv_def)

lemma put_timeout_inv:
  assumes inv: "raft_inv timely ns s" and i: "i \<in> set ns" and out: "raft_election_timeout (cl_nodes s i) = (n', ws)"
  shows "raft_inv timely ns (raft_put s i n')"
proof (cases "n' = cl_nodes s i")
  case True
  then show ?thesis using put_quiet_inv [OF inv i] by simp
next
  case False
  let ?n = "cl_nodes s i"
  have old: "raft_node_inv timely ns (cl_cast s) i ?n" using inv i by (simp add: raft_inv_def)
  have new: "vote_grows ?n n'" "rn_current_term n' = rn_current_term ?n + 1"
      "rn_voted_for n' = Some i" "rn_state n' = Candidate"
      "rn_votes n' = (rn_votes ?n)(rn_current_term n' := {i})"
    using election_timeout_cases [OF out] False old by (auto simp: raft_node_inv_def)
  have le: "cast_le (cl_cast s) (raft_record_vote (cl_cast s) i n')"
    using old new(1) by (intro record_vote_grows) (auto simp: raft_node_inv_def)
  have "election_ok timely ns (raft_record_vote (cl_cast s) i n') i ?n"
    using old by (intro election_ok_mono [OF _ le]) (simp add: raft_node_inv_def)
  then have "election_ok timely ns (raft_record_vote (cl_cast s) i n') i n'"
    using new(3-5) i by (auto simp: election_ok_def voters_def raft_record_vote_def)
  then show ?thesis by (rule put_inv [OF inv i new(1)])
qed

lemma put_vote_reply_inv:
  assumes inv: "raft_inv timely ns s" and i: "i \<in> set ns"
    and reply: "(i, p, t, rt, granted) \<in> cl_vote_replies s"
    and timely: "timely \<Longrightarrow> granted \<Longrightarrow> t = rn_current_term (cl_nodes s i)"
    and out: "raft_vote_reply (cl_nodes s i) p t rt granted = (n', ws)"
  shows "raft_inv timely ns (raft_put s i n')"
proof (cases "quiet (cl_nodes s i) n'")
  case True
  then show ?thesis by (rule put_quiet_inv [OF inv i])
next
  case False
  let ?n = "cl_nodes s i" and ?c = "raft_record_vote (cl_cast s) i n'"
  have old: "raft_node_inv timely ns (cl_cast s) i ?n" using inv i by (simp add: raft_inv_def)
  have new: "granted" "vote_grows ?n n'" "rn_current_term n' = rn_current_term ?n"
      "rn_votes n' = (rn_votes ?n)(t := insert p (rn_votes ?n t))"
      "rn_state n' = Leader \<longrightarrow> card (rn_votes n' t) > length (raft_all_nodes ?n) div 2"
    using vote_reply_cases [OF out] False by auto
  have le: "cast_le (cl_cast s) ?c"
    using old new(2) by (intro record_vote_grows) (auto simp: raft_node_inv_def)
  have "(i, p, t, rt, True) \<in> cl_vote_replies s" using reply new(1) by simp
  then have "p \<in> voters ns (cl_cast s) t i" using inv unfolding raft_inv_def by blast
  moreover have "\<forall>t. rn_votes ?n t \<subseteq> voters ns (cl_cast s) t i"
    using old by (simp add: raft_node_inv_def election_ok_def)
  ultimately have votes: "rn_votes n' t' \<subseteq> voters ns ?c t' i" for t'
    using voters_mono [OF le] new(4) by (cases "t' = t") (auto, blast+)
  have id: "rn_node_id ?n = i" "set (rn_peers ?n) = set ns - {i}" using old by (simp_all add: raft_node_inv_def)
  have "length (raft_all_nodes ?n) = card (set (rn_node_id ?n # rn_peers ?n))"
    unfolding raft_all_nodes_def by (rule length_remdups_card_conv)
  also have "set (rn_node_id ?n # rn_peers ?n) = set ns" using id i by auto
  finally have size: "length (raft_all_nodes ?n) = card (set ns)" .
  have "card (set ns) div 2 < card (voters ns ?c (rn_current_term n') i)"
    if timely "rn_state n' = Leader"
  proof -
    have "t = rn_current_term n'" using that(1) timely new(1,3) by simp
    moreover have "card (set ns) div 2 < card (rn_votes n' t)" using new(5) that(2) size by simp
    moreover have "card (rn_votes n' t) \<le> card (voters ns ?c t i)"
      by (rule card_mono [OF finite_voters votes])
    ultimately show ?thesis by simp
  qed
  then have "election_ok timely ns ?c i n'" using votes by (simp add: election_ok_def)
  then show ?thesis by (rule put_inv [OF inv i new(2)])
qed

lemma raft_init_fresh:
  assumes "raft_init M machine0 k i peers fs_init = Inr n"
  shows "rn_node_id n = i" "rn_peers n = remdups peers" "rn_current_term n = 0" "rn_voted_for n = None"
    "rn_state n = Follower" "rn_votes n = (\<lambda>_. {})" "rl_storage (rn_log n) = fs_init"
    "rn_commit_index n = 0" "rn_last_applied n = 0" "rn_machine n = machine0"
    "rl_entries (rn_log n) = []" "rl_last_included_index (rn_log n) = 0" "rn_running n = False"
  using assms
  by (auto simp: raft_init_def fs_init_def fs_load_state_def fs_load_snapshot_def fs_load_log_def rl_load_def Let_def)

lemma raft_reachable_inv: "raft_reachable M machine0 k ns timely prompt s \<Longrightarrow> raft_inv timely ns s"
proof (induction rule: raft_reachable.induct)
  case (rc_start nodes)
  have "raft_node_inv timely ns (\<lambda>_ _. None) i (nodes i)" if "i \<in> set ns" for i
  proof -
    have "raft_init M machine0 k i (raft_peers_of ns i) fs_init = Inr (nodes i)"
      using rc_start that by blast
    note fresh = raft_init_fresh [OF this]
    show ?thesis
      using fresh by (auto simp: raft_node_inv_def vote_saved_def own_vote_ok_def election_ok_def fs_init_def
          fs_load_state_def raft_peers_of_def)
  qed
  then show ?case by (simp add: raft_inv_def)
next
  case (rc_vote s p i t a b n rt granted)
  have quiet: "quiet (cl_nodes s p) n"
    using request_vote_grows [OF rc_vote.hyps(4)] by blast
  have inv: "raft_inv timely ns (raft_put s p n)"
    by (rule put_quiet_inv [OF rc_vote.IH rc_vote.hyps(2) quiet])
  have "p \<in> voters ns (cl_cast (raft_put s p n)) t i" if granted
    using request_vote_grows [OF rc_vote.hyps(4), of rt] that rc_vote.hyps(2)
    by (simp add: voters_def raft_put_def raft_record_vote_def)
  then show ?case using inv_insert_reply [OF inv] by (simp add: raft_put_def)
next
  case (rc_restart s i n)
  have "raft_node_inv timely ns (cl_cast s) i (cl_nodes s i)"
    using rc_restart by (simp add: raft_inv_def)
  then have "quiet (cl_nodes s i) n"
    using restart_grows [OF rc_restart.hyps(3)]
    by (auto simp: raft_node_inv_def raft_peers_of_def)
  then show ?case by (rule put_quiet_inv [OF rc_restart.IH rc_restart.hyps(2)])
next
  case (rc_append s p i req n r)
  then have "quiet (cl_nodes s p) n" using handle_append_quiet [of "cl_nodes s p" M req] by simp
  then show ?case using put_quiet_inv [OF rc_append.IH rc_append.hyps(2)] by simp
next
  case (rc_submit s i c n r)
  then have "quiet (cl_nodes s i) n" using submit_quiet [of "cl_nodes s i" c] by simp
  then show ?case by (rule put_quiet_inv [OF rc_submit.IH rc_submit.hyps(2)])
next
  case (rc_vote_raises s p i t a b n e)
  have "quiet (cl_nodes s p) n" using request_vote_grows [OF rc_vote_raises.hyps(4)] by blast
  then show ?case by (rule put_quiet_inv [OF rc_vote_raises.IH rc_vote_raises.hyps(2)])
next
  case (rc_timeout s i n ws)
  then show ?case using put_timeout_inv by simp
next
  case (rc_vote_reply s i p t rt granted n ws)
  then show ?case by (intro put_vote_reply_inv)
qed (auto intro!: put_quiet_inv inv_insert_reply append_reply_quiet start_stop_quiet)

lemma raft_one_leader:
  assumes inv: "raft_inv True ns s" and "i \<in> set ns" and "j \<in> set ns"
    and "rn_state (cl_nodes s i) = Leader" and "rn_state (cl_nodes s j) = Leader"
    and "rn_current_term (cl_nodes s i) = rn_current_term (cl_nodes s j)"
  shows "i = j"
proof -
  have lead: "card (set ns) div 2 < card (voters ns (cl_cast s) (rn_current_term (cl_nodes s m)) m)"
    if "m \<in> set ns" "rn_state (cl_nodes s m) = Leader" for m
    using inv that by (simp add: raft_inv_def raft_node_inv_def election_ok_def)
  have sub: "voters ns (cl_cast s) t m \<subseteq> set ns" for t m by (auto simp: voters_def)
  obtain x where "x \<in> voters ns (cl_cast s) (rn_current_term (cl_nodes s i)) i"
    "x \<in> voters ns (cl_cast s) (rn_current_term (cl_nodes s j)) j"
    using majorities_meet [OF _ sub sub lead [OF assms(2,4)] lead [OF assms(3,5)]] by auto
  then show ?thesis by (simp add: voters_def assms(6))
qed

text \<open>
  C6. Election safety: as long as a granted vote reaches its candidate during the election it was
  granted for, no two nodes are leader in one term. Calls and replies may otherwise be delayed,
  reordered, duplicated and lost, and nodes may restart from their storage at any time.
\<close>

theorem raft_election_safety:
  assumes "raft_reachable M machine0 k ns True prompt s" and "i \<in> set ns" and "j \<in> set ns"
    and "rn_state (cl_nodes s i) = Leader" and "rn_state (cl_nodes s j) = Leader"
    and "rn_current_term (cl_nodes s i) = rn_current_term (cl_nodes s j)"
  shows "i = j"
  using assms(2-6) by (rule raft_one_leader [OF raft_reachable_inv [OF assms(1)]])

section \<open>Running the cluster\<close>

text \<open>The steps as functions, to run a scenario.\<close>

definition raft_boot ::
  "('s, 'c, 'r, 'b) machine \<Rightarrow> 's \<Rightarrow> nat \<Rightarrow> node_id list \<Rightarrow> ('s, 'c, 'r, 'b) raft_cluster" where
  "raft_boot M machine0 k ns =
     \<lparr>cl_nodes = (\<lambda>i. projr (raft_init M machine0 k i (raft_peers_of ns i) fs_init)),
      cl_vote_calls = {}, cl_vote_replies = {}, cl_append_calls = {}, cl_append_replies = {},
      cl_cast = (\<lambda>_ _. None)\<rparr>"

datatype raft_event = Ev_Start node_id | Ev_Timeout node_id | Ev_Vote "node_id \<times> node_id \<times> nat \<times> nat \<times> nat"
  | Ev_Vote_Reply "node_id \<times> node_id \<times> nat \<times> nat \<times> bool"

fun raft_event_step ::
  "bool \<Rightarrow> node_id list \<Rightarrow> ('s, 'c, 'r, 'b) raft_cluster \<Rightarrow> raft_event \<Rightarrow> ('s, 'c, 'r, 'b) raft_cluster" where
  "raft_event_step timely ns s (Ev_Start i) =
     (if i \<in> set ns then raft_put s i (raft_start (cl_nodes s i)) else s)"
| "raft_event_step timely ns s (Ev_Timeout i) =
     (if i \<in> set ns then
        (case raft_election_timeout (cl_nodes s i) of (n, ws) \<Rightarrow>
          (raft_put s i n)\<lparr>cl_vote_calls := cl_vote_calls s \<union> raft_calls i ws\<rparr>) else s)"
| "raft_event_step timely ns s (Ev_Vote (i, p, t, a, b)) =
     (if p \<in> set ns \<and> (i, p, t, a, b) \<in> cl_vote_calls s then
        (case raft_handle_request_vote (cl_nodes s p) t i a b of
           (n, Inl e) \<Rightarrow> raft_put s p n
         | (n, Inr (rt, granted)) \<Rightarrow>
             (raft_put s p n)\<lparr>cl_vote_replies := insert (i, p, t, rt, granted) (cl_vote_replies s)\<rparr>) else s)"
| "raft_event_step timely ns s (Ev_Vote_Reply (i, p, t, rt, granted)) =
     (if i \<in> set ns \<and> (i, p, t, rt, granted) \<in> cl_vote_replies s \<and>
         (timely \<and> granted \<longrightarrow> t = rn_current_term (cl_nodes s i))
      then (case raft_vote_reply (cl_nodes s i) p t rt granted of (n, ws) \<Rightarrow> raft_put s i n) else s)"

lemma raft_event_reachable:
  "raft_reachable M machine0 k ns timely prompt s \<Longrightarrow> raft_reachable M machine0 k ns timely prompt (raft_event_step timely ns s e)"
proof (induction timely ns s e rule: raft_event_step.induct)
  case (1 timely ns s i)
  then show ?case by (auto intro: rc_run)
next
  case (2 timely ns s i)
  then show ?case by (auto split: prod.splits intro: rc_timeout)
next
  case (3 timely ns s i p t a b)
  then show ?case by (auto split: prod.splits sum.splits intro: rc_vote rc_vote_raises)
next
  case (4 timely ns s i p t rt granted)
  then show ?case by (auto split: prod.splits intro!: rc_vote_reply)
qed

lemma raft_boot_reachable:
  "raft_reachable M machine0 k ns timely prompt (raft_boot M machine0 k ns)"
  unfolding raft_boot_def
  by (rule rc_start) (simp add: raft_init_def fs_init_def fs_load_state_def fs_load_snapshot_def Let_def)

lemma raft_run_reachable:
  "raft_reachable M machine0 k ns timely prompt
     (foldl (raft_event_step timely ns) (raft_boot M machine0 k ns) es)"
  by (induction es rule: rev_induct) (simp_all add: raft_boot_reachable raft_event_reachable)

abbreviation "abc \<equiv> [''A'', ''B'', ''C'']"

text \<open>An election that A wins with the vote of B.\<close>

definition raft_elect_A :: "raft_event list" where
  "raft_elect_A = [Ev_Start ''A'', Ev_Timeout ''A'', Ev_Vote (''A'', ''B'', 1, 0, 0),
     Ev_Vote_Reply (''A'', ''B'', 1, 1, True)]"

theorem raft_election_safety_witness:
  "\<exists>s. raft_reachable kv_machine kv_init 10 abc True True s \<and> rn_state (cl_nodes s ''A'') = Leader \<and>
     (\<forall>j. j \<noteq> ''A'' \<longrightarrow> j \<in> set abc \<longrightarrow> rn_current_term (cl_nodes s j) = 1 \<longrightarrow> rn_state (cl_nodes s j) \<noteq> Leader)"
proof -
  define s where "s = foldl (raft_event_step True abc) (raft_boot kv_machine kv_init 10 abc) raft_elect_A"
  have s: "raft_reachable kv_machine kv_init 10 abc True True s" unfolding s_def by (rule raft_run_reachable)
  have A: "rn_state (cl_nodes s ''A'') = Leader" "rn_current_term (cl_nodes s ''A'') = 1"
    unfolding s_def by code_simp+
  have "rn_state (cl_nodes s j) \<noteq> Leader" if "j \<noteq> ''A''" "j \<in> set abc" "rn_current_term (cl_nodes s j) = 1" for j
    using raft_election_safety [OF s, of "''A''" j] A that by auto
  with s A show ?thesis by blast
qed

definition raft_stale_vote :: "raft_event list" where
  "raft_stale_vote = [Ev_Start ''A'', Ev_Start ''B'', Ev_Timeout ''A'', Ev_Vote (''A'', ''B'', 1, 0, 0),
     Ev_Timeout ''A'', Ev_Timeout ''B'', Ev_Vote (''B'', ''C'', 2, 0, 0),
     Ev_Vote_Reply (''B'', ''C'', 2, 2, True), Ev_Vote_Reply (''A'', ''B'', 1, 1, True)]"

text \<open>
  Without that assumption there can be two leaders in one term: the worker thread of an old
  election that gets its vote late counts it for the election the candidate is in now. A's first
  election (term 1) has B's vote on its way; A and then B start elections for term 2, C elects B,
  and the late vote makes A leader of term 2 as well.
\<close>

theorem raft_stale_vote_two_leaders:
  "\<exists>s. raft_reachable kv_machine kv_init 10 abc False True s \<and>
     rn_state (cl_nodes s ''A'') = Leader \<and> rn_current_term (cl_nodes s ''A'') = 2 \<and>
     rn_state (cl_nodes s ''B'') = Leader \<and> rn_current_term (cl_nodes s ''B'') = 2"
proof -
  define s where "s = foldl (raft_event_step False abc) (raft_boot kv_machine kv_init 10 abc) raft_stale_vote"
  have "raft_reachable kv_machine kv_init 10 abc False True s" unfolding s_def by (rule raft_run_reachable)
  moreover have "rn_state (cl_nodes s ''A'') = Leader" "rn_current_term (cl_nodes s ''A'') = 2"
    "rn_state (cl_nodes s ''B'') = Leader" "rn_current_term (cl_nodes s ''B'') = 2"
    unfolding s_def by code_simp+
  ultimately show ?thesis by blast
qed

end
