(* ===== verification/Raft_Replication.thy ===== *)
theory Raft_Replication
  imports Raft_Node "HOL-Library.Multiset"
begin

text \<open>
  What a Raft node does with its log: the apply loop replays a history on the state machine,
  compaction and restarts are invisible to it, \<open>handle_append_entries\<close> reconciles the log with the
  leader's, the leader commits what a majority has. And the cases the code gets wrong: a repeated
  call that reaches below a snapshot, a Future that outlives its entry, a peer that falls behind
  a snapshot.
\<close>

section \<open>Nodes that stand for a history\<close>

text \<open>The service: a state machine record that keeps the contract of its class.\<close>

locale raft_service = state_machine "sm_apply M" "sm_snapshot M" "sm_restore M"
  for M :: "('s, 'c, 'r, 'b) machine" +
  fixes machine0 :: 's
begin

text \<open>The state of the machine after the first \<open>i\<close> entries of a history.\<close>

definition after :: "'c log_entry list \<Rightarrow> nat \<Rightarrow> 's" where
  "after h i = run machine0 (map le_command (take i h))"

definition stands_for :: "'c log_entry list \<Rightarrow> ('s, 'c, 'r, 'b) raft_node \<Rightarrow> bool" where
  "stands_for h n \<longleftrightarrow> log_of h (rn_log n) \<and> log_stored (rn_log n) \<and>
     rl_last_included_index (rn_log n) \<le> rn_last_applied n \<and> rn_last_applied n \<le> length h \<and>
     rn_machine n = after h (rn_last_applied n) \<and>
     fst (fs_load_snapshot (rl_storage (rn_log n))) =
       (if rl_last_included_index (rn_log n) = 0 then None
        else Some (sm_snapshot M (after h (rl_last_included_index (rn_log n)))))"

lemma after_Suc: "i < length h \<Longrightarrow> after h (Suc i) = fst (sm_apply M (after h i) (le_command (h ! i)))"
  by (simp add: after_def take_Suc_conv_app_nth run_append)

lemma stands_for_fields [simp]:
  "stands_for h (n\<lparr>rn_commit_index := c\<rparr>) = stands_for h n"
  by (simp add: stands_for_def)

lemma stands_for_resolve: "stands_for h (raft_resolve n r) = stands_for h n"
  by (simp add: stands_for_def)

lemma compact_snapshot:
  "fst (fs_load_snapshot (rl_storage (rl_compact l i t b))) =
     (if i \<le> rl_last_included_index l then fst (fs_load_snapshot (rl_storage l)) else Some b)"
  by (simp add: rl_compact_def rl_persist_def Let_def)

lemma check_snapshot_stands:
  assumes "stands_for h n"
  shows "\<exists>n'. raft_check_snapshot M n = (n', Inr ()) \<and> stands_for h n'"
proof -
  let ?i = "rn_last_applied n"
  have log: "log_of h (rn_log n)" "rl_last_included_index (rn_log n) \<le> ?i" "?i \<le> length h"
    using assms by (simp_all add: stands_for_def)
  obtain t where t: "rl_get_term (rn_log n) ?i = Inr t" "0 < ?i \<Longrightarrow> t = le_term (h ! (?i - 1))"
    using rl_get_term_history [OF log] by auto
  have "stands_for h (n\<lparr>rn_log := rl_compact (rn_log n) ?i t (sm_snapshot M (rn_machine n))\<rparr>)"
    using assms rl_compact_history [OF log(1,3) t(2)] log
    by (auto simp: stands_for_def compact_snapshot max_def)
  then show ?thesis using t assms by (auto simp: raft_check_snapshot_def Let_def)
qed

lemma apply_one_stands:
  assumes "stands_for h n" and "rn_last_applied n < length h" and "raft_apply_one M n = (n', r)"
  shows "stands_for h n' \<and> (\<forall>e. r = Inl e \<longrightarrow> (\<exists>s c s'. sm_apply M s c = (s', Inl e)))"
proof -
  let ?i = "rn_last_applied n"
  let ?n = "n\<lparr>rn_last_applied := ?i + 1\<rparr>"
  have log: "log_of h (rn_log n)" "rl_last_included_index (rn_log n) \<le> ?i"
    using assms(1) by (simp_all add: stands_for_def)
  have get: "rl_getitem (rn_log ?n) (rn_last_applied ?n) = Inr (h ! ?i)"
    using log assms(2) by (simp add: rl_getitem_history)
  obtain m res where m: "sm_apply M (rn_machine n) (le_command (h ! ?i)) = (m, res)" by fastforce
  have m_after: "m = after h (?i + 1)"
    using assms(1,2) m by (simp add: stands_for_def after_Suc)
  have ok: "stands_for h (?n\<lparr>rn_machine := m\<rparr>)"
    using assms(1,2) m_after by (simp add: stands_for_def)
  show ?thesis
  proof (cases res)
    case (Inl e)
    then show ?thesis using assms(3) get m ok by (auto simp: raft_apply_one_def)
  next
    case (Inr x)
    have "stands_for h (raft_resolve (?n\<lparr>rn_machine := m\<rparr>) x)" using ok by (simp add: stands_for_resolve)
    from check_snapshot_stands [OF this] show ?thesis
      using assms(3) get m Inr by (auto simp: raft_apply_one_def)
  qed
qed

lemma apply_stands:
  "stands_for h n \<Longrightarrow> rn_commit_index n \<le> length h \<Longrightarrow> raft_apply_committed_entries M n = (n', r) \<Longrightarrow>
    stands_for h n' \<and> rn_commit_index n' = rn_commit_index n \<and>
    (r = Inr () \<longrightarrow> rn_last_applied n' = max (rn_last_applied n) (rn_commit_index n)) \<and>
    (\<forall>e. r = Inl e \<longrightarrow> (\<exists>s c s'. sm_apply M s c = (s', Inl e)))"
proof (induction "rn_commit_index n - rn_last_applied n" arbitrary: n)
  case 0
  then show ?case by (subst (asm) raft_apply_committed_entries.simps) (auto simp: max_def)
next
  case (Suc k)
  then have less: "rn_last_applied n < rn_commit_index n" by simp
  obtain n1 r1 where one: "raft_apply_one M n = (n1, r1)" by fastforce
  have frame: "rn_commit_index n1 = rn_commit_index n" "rn_last_applied n1 = rn_last_applied n + 1"
    using raft_apply_one_frame [of M n] one by simp_all
  have n1: "stands_for h n1" "\<forall>e. r1 = Inl e \<longrightarrow> (\<exists>s c s'. sm_apply M s c = (s', Inl e))"
    using apply_one_stands [OF Suc.prems(1) _ one] less Suc.prems(2) by auto
  show ?case
  proof (cases r1)
    case (Inl e)
    then show ?thesis
      using Suc.prems(3) less one n1 frame by (subst (asm) raft_apply_committed_entries.simps) auto
  next
    case (Inr u)
    then have "raft_apply_committed_entries M n1 = (n', r)"
      using Suc.prems(3) less one by (subst (asm) raft_apply_committed_entries.simps) simp
    then show ?thesis
      using Suc.hyps(1) [OF _ n1(1)] Suc.hyps(2) Suc.prems(2) frame less by (auto simp: max_def)
  qed
qed

lemma append_stands:
  assumes "stands_for h n"
  shows "stands_for (h @ [e]) (n\<lparr>rn_log := rl_append (rn_log n) e\<rparr>)"
proof -
  have "after (h @ [e]) i = after h i" if "i \<le> length h" for i using that by (simp add: after_def)
  moreover have "fs_load_snapshot (rl_storage (rl_append l e)) = fs_load_snapshot (rl_storage l)"
    for l :: "('c, 'b) raft_log"
    by (simp add: rl_append_def rl_persist_def)
  ultimately show ?thesis using assms by (auto simp: stands_for_def rl_append_history)
qed

text \<open>A restart on the files of a node that stands for a history.\<close>

lemma restart_stands:
  assumes "stands_for h n"
  shows "\<exists>n'. raft_init M machine0 k i ps (rl_storage (rn_log n)) = Inr n' \<and> stands_for h n' \<and>
    rn_log n' = rn_log n \<and> rn_last_applied n' = rl_last_included_index (rn_log n) \<and>
    (rn_current_term n', rn_voted_for n') = fs_load_state (rl_storage (rn_log n)) \<and> rn_state n' = Follower"
proof -
  let ?l = "rn_log n"
  have stored: "log_stored ?l" and log: "log_of h ?l" using assms by (simp_all add: stands_for_def)
  note load = rl_load_stored [OF stored]
  obtain b idx t where snap: "fs_load_snapshot (rl_storage ?l) = (b, idx, t)" by (cases "fs_load_snapshot (rl_storage ?l)")
  have b: "b = (if rl_last_included_index ?l = 0 then None
      else Some (sm_snapshot M (after h (rl_last_included_index ?l))))"
    using assms snap by (simp add: stands_for_def)
  have "(case b of None \<Rightarrow> Inr machine0 | Some b \<Rightarrow> sm_restore M b) = Inr (after h (rl_last_included_index ?l))"
    using b by (simp add: restore_snapshot) (simp add: after_def)
  moreover obtain ct vf where st: "fs_load_state (rl_storage ?l) = (ct, vf)" by fastforce
  ultimately have init: "raft_init M machine0 k i ps (rl_storage ?l) = Inr
      \<lparr>rn_node_id = i, rn_peers = remdups ps, rn_snapshot_interval = k, rn_log = ?l,
       rn_machine = after h (rl_last_included_index ?l), rn_current_term = ct, rn_voted_for = vf,
       rn_commit_index = rl_last_included_index ?l, rn_last_applied = rl_last_included_index ?l,
       rn_state = Follower, rn_next_index = [], rn_match_index = [], rn_pending_commits = (\<lambda>_. None),
       rn_futures = 0, rn_resolved = (\<lambda>_. None), rn_running = False, rn_votes = (\<lambda>_. {})\<rparr>"
    (is "_ = Inr ?n")
    using snap load by (simp add: raft_init_def Let_def)
  have "stands_for h ?n" using assms by (auto simp: stands_for_def)
  with init st show ?thesis by (intro exI [of _ ?n]) simp
qed

end

interpretation kv_service: raft_service kv_machine kv_init
  by (simp add: raft_service_def kv_machine_def kv.state_machine_axioms)

interpretation counter_service: raft_service counter_machine "0 :: int"
  by (simp add: raft_service_def counter_machine_def counter.state_machine_axioms)

text \<open>
  C9. The apply loop is a replay: on a node whose log, snapshot and key-value store stand for a
  history of entries, applying up to a commit index within the history ends, with or without an
  exception of the state machine (and of nothing else), with the store that results from applying
  the first \<open>last_applied\<close> commands to the empty store, whatever log compactions happened before
  and on the way; without an exception it has applied exactly the committed entries.
\<close>

theorem raft_apply_replays:
  assumes "kv_service.stands_for h n" and "rn_commit_index n \<le> length h"
    and "raft_apply_committed_entries kv_machine n = (n', r)"
  shows "rn_machine n' = kv.run kv_init (map le_command (take (rn_last_applied n') h)) \<and>
    kv_service.stands_for h n' \<and>
    (r = Inr () \<longrightarrow> rn_last_applied n' = max (rn_last_applied n) (rn_commit_index n)) \<and>
    (\<forall>e. r = Inl e \<longrightarrow> (\<exists>s c s'. kv_apply s c = (s', Inl e)))"
  using kv_service.apply_stands [OF assms]
  by (simp add: kv_service.stands_for_def kv_service.after_def) (simp add: kv_machine_def)

text \<open>A node with two entries in its log, for the examples.\<close>

definition put_command :: "string \<Rightarrow> int \<Rightarrow> command" where
  "put_command k v = [(''op'', JStr ''set''), (''key'', JStr k), (''value'', JInt v)]"

definition entry :: "nat \<Rightarrow> nat \<Rightarrow> command \<Rightarrow> command log_entry" where
  "entry t i c = \<lparr>le_term = t, le_index = i, le_command = c\<rparr>"

definition two_entries :: "command log_entry list" where
  "two_entries = [entry 1 1 (put_command ''x'' 1), entry 1 2 (put_command ''x'' 2)]"

definition fresh_node :: "nat \<Rightarrow> (kv_store, command, json, kv_store) raft_node" where
  "fresh_node k = projr (raft_init kv_machine kv_init k ''A'' [''B'', ''C''] fs_init)"

definition example_node :: "(kv_store, command, json, kv_store) raft_node" where
  "example_node = (fresh_node 10)\<lparr>rn_log := foldl rl_append (rn_log (fresh_node 10)) two_entries,
     rn_commit_index := 2\<rparr>"

lemma fresh_node_stands: "kv_service.stands_for [] (fresh_node k)"
  by (simp add: kv_service.stands_for_def kv_service.after_def fresh_node_def raft_init_def fs_init_def
      fs_load_state_def fs_load_snapshot_def fs_load_log_def rl_load_def log_of_def log_stored_def Let_def)

lemma example_node_stands: "kv_service.stands_for two_entries example_node"
  using kv_service.append_stands [OF kv_service.append_stands [OF fresh_node_stands [of 10]],
      of "two_entries ! 0" "two_entries ! 1"]
  by (simp add: example_node_def two_entries_def)

theorem raft_apply_replays_witness:
  "\<exists>n'. raft_apply_committed_entries kv_machine example_node = (n', Inr ()) \<and>
     rn_machine n' = kv.run kv_init (map le_command two_entries) \<and> map_of (rn_machine n') ''x'' = Some (JInt 2)"
proof -
  obtain n' r where n': "raft_apply_committed_entries kv_machine example_node = (n', r)" by fastforce
  have commit: "rn_commit_index example_node \<le> length two_entries"
    by (simp add: example_node_def two_entries_def)
  have "snd (raft_apply_committed_entries kv_machine example_node) = Inr ()" by code_simp
  then have "r = Inr ()" using n' by simp
  then show ?thesis using raft_apply_replays [OF example_node_stands commit n'] n'
    by (simp add: example_node_def two_entries_def entry_def put_command_def kv_set kv_init_def
        fresh_node_def raft_init_def)
qed

section \<open>Reconciling the log with the leader's\<close>

text \<open>
  The rule of the Raft paper on histories: an entry that conflicts with a new one (same index,
  different terms) is deleted with all that follow it, and the new entries that are not in the
  log are appended. \<open>k\<close> is the position of the first conflict, if there is one.
\<close>

definition conflict_at :: "'c log_entry list \<Rightarrow> nat \<Rightarrow> 'c log_entry list \<Rightarrow> nat \<Rightarrow> bool" where
  "conflict_at h prev es k \<longleftrightarrow> k < length es \<and> prev + k < length h \<and>
     le_term (h ! (prev + k)) \<noteq> le_term (es ! k)"

definition first_conflict :: "'c log_entry list \<Rightarrow> nat \<Rightarrow> 'c log_entry list \<Rightarrow> nat option" where
  "first_conflict h prev es = List.find (conflict_at h prev es) [0 ..< length es]"

definition reconcile :: "'c log_entry list \<Rightarrow> nat \<Rightarrow> 'c log_entry list \<Rightarrow> 'c log_entry list" where
  "reconcile h prev es =
     (case first_conflict h prev es of
        Some k \<Rightarrow> take (prev + k) h @ drop k es
      | None \<Rightarrow> h @ drop (length h - prev) es)"

lemma first_conflict_Cons:
  "prev \<le> length h \<Longrightarrow> first_conflict h prev (e # es) =
    (if prev < length h \<and> le_term (h ! prev) \<noteq> le_term e then Some 0
     else map_option Suc (first_conflict h (Suc prev) es))"
proof -
  have find_map: "List.find P (map f xs) = map_option f (List.find (P \<circ> f) xs)" for P f and xs :: "nat list"
    by (induction xs) auto
  have conflict: "conflict_at h prev (e # es) \<circ> Suc = conflict_at h (Suc prev) es"
    by (auto simp: conflict_at_def fun_eq_iff)
  have "first_conflict h prev (e # es) = List.find (conflict_at h prev (e # es)) (0 # map Suc [0 ..< length es])"
    by (simp add: first_conflict_def upt_conv_Cons map_Suc_upt del: upt_Suc)
  then show ?thesis
    by (simp add: find_map conflict first_conflict_def del: map_Suc_upt upt_Suc) (simp add: conflict_at_def)
qed

lemma first_conflict_end: "length h \<le> prev \<Longrightarrow> first_conflict h prev es = None"
  by (auto simp: first_conflict_def find_None_iff conflict_at_def)

lemma append_loop_end:
  assumes "log_of h l" and "rl_last_included_index l \<le> length h"
  shows "\<exists>l'. raft_append_loop l (length h + 1) es = (l', Inr ()) \<and> log_of (h @ es) l' \<and>
    rl_last_included_index l' = rl_last_included_index l"
  using assms
proof (induction es arbitrary: h l)
  case (Cons e es)
  from Cons.IH [OF rl_append_history [OF Cons.prems(1)], of e] Cons.prems show ?case
    by (auto simp: rl_len_history)
qed auto

text \<open>The loop of the code implements the rule.\<close>

lemma append_loop_reconciles:
  assumes "log_of h l" and "rl_last_included_index l \<le> prev" and "prev \<le> length h"
  shows "\<exists>l'. raft_append_loop l (prev + 1) es = (l', Inr ()) \<and> log_of (reconcile h prev es) l' \<and>
    rl_last_included_index l' = rl_last_included_index l"
  using assms
proof (induction es arbitrary: prev)
  case Nil
  then show ?case by (auto simp: reconcile_def first_conflict_def)
next
  case (Cons e es)
  consider "prev = length h" | "prev < length h" using Cons.prems(3) by linarith
  then show ?case
  proof cases
    case 1
    then show ?thesis
      using append_loop_end [OF Cons.prems(1), of "e # es"] Cons.prems(2)
      by (simp add: reconcile_def first_conflict_end)
  next
    case 2
    have len: "prev + 1 \<le> rl_len l" using 2 Cons.prems(1) by (simp add: rl_len_history)
    have got: "rl_get_term l (prev + 1) = Inr (le_term (h ! prev))"
      using rl_get_term_history [OF Cons.prems(1), of "prev + 1"] Cons.prems(2) 2 by simp
    show ?thesis
    proof (cases "le_term (h ! prev) = le_term e")
      case True
      then show ?thesis
        using Cons.IH [OF Cons.prems(1), of "prev + 1"] Cons.prems(2) 2 len got
        by (auto simp: reconcile_def first_conflict_Cons drop_Cons' split: option.splits)
    next
      case False
      let ?l = "rl_append (rl_truncate l (prev + 1)) e"
      have "log_of (take prev h @ [e]) ?l"
        using rl_truncate_history [OF Cons.prems(1), of "prev + 1"] Cons.prems(2) by (simp add: rl_append_history)
      from append_loop_end [OF this, of es] show ?thesis
        using False 2 len got Cons.prems(2)
        by (simp add: reconcile_def first_conflict_Cons)
    qed
  qed
qed

text \<open>What the rule gives, when equal terms at an index mean equal entries (log matching).\<close>

lemma reconcile_matches:
  assumes "prev \<le> length h"
    and "\<forall>k < length es. prev + k < length h \<longrightarrow> le_term (h ! (prev + k)) = le_term (es ! k) \<longrightarrow> h ! (prev + k) = es ! k"
  shows "take (prev + length es) (reconcile h prev es) = take prev h @ es"
    and "first_conflict h prev es = None \<Longrightarrow> take (length h) (reconcile h prev es) = h"
proof -
  have agree: "h ! (prev + k) = es ! k"
    if "k < length es" "prev + k < length h" "\<not> conflict_at h prev es k" for k
    using assms(2) that by (auto simp: conflict_at_def)
  show "take (prev + length es) (reconcile h prev es) = take prev h @ es"
  proof (cases "first_conflict h prev es")
    case None
    then have "h ! (prev + k) = es ! k" if "k < length es" "prev + k < length h" for k
      using agree that by (simp add: first_conflict_def find_None_iff)
    note same = this
    have "h ! i = es ! (i - prev)" if "prev \<le> i" "i < length h" "i < prev + length es" for i
      using same [of "i - prev"] that by auto
    with None assms(1) show ?thesis
      by (intro nth_equalityI) (auto simp: reconcile_def nth_append)
  next
    case (Some m)
    then have m: "conflict_at h prev es m" "\<forall>k<m. \<not> conflict_at h prev es k"
      by (auto simp: first_conflict_def find_Some_iff)
    then have "h ! (prev + k) = es ! k" if "k < m" for k
      using agree [of k] that by (auto simp: conflict_at_def)
    note same = this
    have "h ! i = es ! (i - prev)" if "prev \<le> i" "i < prev + m" for i
      using same [of "i - prev"] that by auto
    with Some m(1) show ?thesis
      by (intro nth_equalityI) (auto simp: reconcile_def nth_append conflict_at_def)
  qed
  show "take (length h) (reconcile h prev es) = h" if "first_conflict h prev es = None"
    using that by (simp add: reconcile_def)
qed

subsection \<open>The handler\<close>

text \<open>Applying entries does not change the history the log stands for.\<close>

definition log_applied :: "'c log_entry list \<Rightarrow> ('s, 'c, 'r, 'b) raft_node \<Rightarrow> bool" where
  "log_applied h n \<longleftrightarrow> log_of h (rn_log n) \<and> rl_last_included_index (rn_log n) \<le> rn_last_applied n"

lemma check_snapshot_log:
  assumes "log_applied h n" and "rn_last_applied n \<le> length h"
  shows "log_applied h (fst (raft_check_snapshot M n))"
proof -
  have log: "log_of h (rn_log n)" "rl_last_included_index (rn_log n) \<le> rn_last_applied n"
    using assms(1) by (simp_all add: log_applied_def)
  note t = rl_get_term_history [OF log assms(2)]
  then show ?thesis
    using log rl_compact_history [OF log(1) assms(2)]
    by (auto simp: raft_check_snapshot_def Let_def log_applied_def)
qed

lemma apply_one_log:
  assumes "log_applied h n" and "rn_last_applied n < length h"
  shows "log_applied h (fst (raft_apply_one M n))"
proof -
  have ok: "log_applied h (n\<lparr>rn_last_applied := rn_last_applied n + 1\<rparr>)"
    "log_applied h (n\<lparr>rn_last_applied := rn_last_applied n + 1, rn_machine := m\<rparr>)" for m
    using assms(1) by (auto simp: log_applied_def)
  have "log_applied h (fst (raft_check_snapshot M (raft_resolve
      (n\<lparr>rn_last_applied := rn_last_applied n + 1, rn_machine := m\<rparr>) x)))" for m x
    using ok(2) assms(2) by (intro check_snapshot_log) (simp_all add: log_applied_def)
  with ok show ?thesis by (auto simp: raft_apply_one_def Let_def split: sum.splits prod.splits)
qed

lemma apply_log:
  "log_applied h n \<Longrightarrow> rn_commit_index n \<le> length h \<Longrightarrow>
    log_applied h (fst (raft_apply_committed_entries M n))"
proof (induction M n rule: raft_apply_committed_entries.induct)
  case (1 M n)
  show ?case
  proof (cases "rn_last_applied n < rn_commit_index n")
    case True
    obtain n' r where one: "raft_apply_one M n = (n', r)" by fastforce
    have n': "log_applied h n'" "rn_commit_index n' \<le> length h"
      using apply_one_log [OF 1(2), of M] raft_apply_one_frame(1) [of M n] True 1(3) one by simp_all
    show ?thesis
      using 1(1) [OF True one [symmetric] _ n'] n' True one
      by (subst raft_apply_committed_entries.simps) (auto split: sum.splits)
  next
    case False
    then show ?thesis using 1 by (subst raft_apply_committed_entries.simps) simp
  qed
qed

lemma update_term_log:
  "log_applied h n \<Longrightarrow> log_applied h (raft_update_term n t)"
  "rn_current_term (raft_update_term n t) = t"
  "rl_last_included_index (rn_log (raft_update_term n t)) = rl_last_included_index (rn_log n)"
  by (simp_all add: raft_update_term_def raft_save_state_def log_applied_def log_of_def)

definition req_matches :: "'c log_entry list \<Rightarrow> 'c append_request \<Rightarrow> bool" where
  "req_matches h req \<longleftrightarrow> ar_prev_log_index req = 0 \<or> ar_prev_log_index req \<le> length h \<and>
     le_term (h ! (ar_prev_log_index req - 1)) = ar_prev_log_term req"

lemma append_entries_log:
  assumes "log_applied h n" and "rn_current_term n \<le> ar_term req"
    and "rl_last_included_index (rn_log n) \<le> ar_prev_log_index req"
    and "raft_handle_append_entries M n req = (n', r)"
  shows "log_applied (if req_matches h req then reconcile h (ar_prev_log_index req) (ar_entries req) else h) n' \<and>
    (\<forall>x. r = Inr x \<longrightarrow> snd x = req_matches h req)"
proof -
  let ?prev = "ar_prev_log_index req"
  define n0 where "n0 = (if ar_term req > rn_current_term n then raft_update_term n (ar_term req) else n)"
  have n0: "log_applied h n0" "rl_last_included_index (rn_log n0) \<le> ?prev"
    using assms(1,3) by (simp_all add: n0_def update_term_log)
  then have log: "log_of h (rn_log n0)" by (simp add: log_applied_def)
  have m: "rl_match_log (rn_log n0) ?prev (ar_prev_log_term req) = Inr (req_matches h req)"
    using rl_match_log_history [OF log n0(2)] by (simp add: req_matches_def)
  have late: "\<not> ar_term req < rn_current_term n" using assms(2) by simp
  note handler = assms(4) [unfolded raft_handle_append_entries_def Let_def, folded n0_def, unfolded m if_not_P [OF late]]
  show "log_applied (if req_matches h req then reconcile h ?prev (ar_entries req) else h) n' \<and>
    (\<forall>x. r = Inr x \<longrightarrow> snd x = req_matches h req)"
  proof (cases "req_matches h req")
    case False
    then show ?thesis using handler n0 by auto
  next
    case True
    let ?h = "reconcile h ?prev (ar_entries req)"
    have "?prev \<le> length h" using True by (auto simp: req_matches_def)
    from append_loop_reconciles [OF log n0(2) this] obtain l where
      l: "raft_append_loop (rn_log n0) (?prev + 1) (ar_entries req) = (l, Inr ())" "log_of ?h l"
        "rl_last_included_index l = rl_last_included_index (rn_log n0)" by blast
    let ?n1 = "n0\<lparr>rn_log := l\<rparr>"
    have n1: "log_applied ?h ?n1" using l n0 by (simp add: log_applied_def)
    have "log_applied ?h (?n1\<lparr>rn_commit_index := min c (rl_len l)\<rparr>)" for c
      using n1 by (simp add: log_applied_def)
    from apply_log [OF this, of _ M] have
      "log_applied ?h (fst (raft_apply_committed_entries M (?n1\<lparr>rn_commit_index := min c (rl_len l)\<rparr>)))" for c
      using l(2) by (simp add: rl_len_history)
    with handler True l n1 show ?thesis
      by (auto split: if_splits prod.splits sum.splits) (metis fst_conv)+
  qed
qed

text \<open>
  \<open>handle_append_entries\<close> brings the follower's log in line with the leader's. For a call of a
  current term whose \<open>prev_log_index\<close> does not lie below the follower's snapshot: when the entry
  at that index has the leader's term, the log afterwards is the paper's reconciliation of the
  two, no exception but the state machine's is raised, and a returned reply is positive; when it
  has not, the history is unchanged and the reply is negative. Where equal terms at one index
  mean equal entries, the reconciled log holds exactly the leader's entries up to the last one
  sent, and an earlier entry is only ever lost to a conflict.
\<close>

theorem raft_append_entries_reconciles:
  assumes "log_applied h n" and "rn_current_term n \<le> ar_term req"
    and "rl_last_included_index (rn_log n) \<le> ar_prev_log_index req"
    and "raft_handle_append_entries M n req = (n', r)"
  shows "log_applied (if req_matches h req then reconcile h (ar_prev_log_index req) (ar_entries req) else h) n' \<and>
    (\<forall>x. r = Inr x \<longrightarrow> snd x = req_matches h req) \<and>
    (req_matches h req \<longrightarrow>
      (\<forall>k < length (ar_entries req). ar_prev_log_index req + k < length h \<longrightarrow>
        le_term (h ! (ar_prev_log_index req + k)) = le_term (ar_entries req ! k) \<longrightarrow>
        h ! (ar_prev_log_index req + k) = ar_entries req ! k) \<longrightarrow>
      take (ar_prev_log_index req + length (ar_entries req)) (reconcile h (ar_prev_log_index req) (ar_entries req)) =
        take (ar_prev_log_index req) h @ ar_entries req \<and>
      (first_conflict h (ar_prev_log_index req) (ar_entries req) = None \<longrightarrow>
        take (length h) (reconcile h (ar_prev_log_index req) (ar_entries req)) = h))"
  using append_entries_log [OF assms] reconcile_matches [of "ar_prev_log_index req" h "ar_entries req"]
  by (auto simp: req_matches_def)

theorem raft_append_entries_reconciles_witness:
  "\<exists>n' r. raft_handle_append_entries kv_machine example_node
      \<lparr>ar_term = 2, ar_leader_id = ''B'', ar_prev_log_index = 1, ar_prev_log_term = 1,
       ar_entries = [entry 2 2 (put_command ''y'' 7)], ar_leader_commit = 1\<rparr> = (n', r) \<and>
    log_applied [two_entries ! 0, entry 2 2 (put_command ''y'' 7)] n'"
proof -
  let ?req = "\<lparr>ar_term = 2, ar_leader_id = ''B'', ar_prev_log_index = 1, ar_prev_log_term = 1,
       ar_entries = [entry 2 2 (put_command ''y'' 7)], ar_leader_commit = 1\<rparr>"
  have n: "log_applied two_entries example_node"
    using example_node_stands by (simp add: log_applied_def kv_service.stands_for_def)
  have "rn_current_term example_node \<le> ar_term ?req" "rl_last_included_index (rn_log example_node) \<le> ar_prev_log_index ?req"
    by code_simp+
  moreover obtain n' r where run: "raft_handle_append_entries kv_machine example_node ?req = (n', r)" by fastforce
  ultimately have "log_applied (if req_matches two_entries ?req
      then reconcile two_entries (ar_prev_log_index ?req) (ar_entries ?req) else two_entries) n'"
    using raft_append_entries_reconciles [OF n] by blast
  moreover have "req_matches two_entries ?req" by (simp add: req_matches_def two_entries_def entry_def)
  moreover have "reconcile two_entries 1 (ar_entries ?req) = [two_entries ! 0, entry 2 2 (put_command ''y'' 7)]"
    by (simp add: reconcile_def first_conflict_def conflict_at_def two_entries_def entry_def)
  ultimately show ?thesis using run by auto
qed

section \<open>Committing\<close>

lemma nth_sorted_desc:
  fixes xs :: "nat list"
  assumes "i < length xs"
  shows "m \<le> rev (sort xs) ! i \<longleftrightarrow> i < length (filter (\<lambda>x. m \<le> x) xs)"
proof -
  let ?ys = "rev (sort xs)"
  have desc: "?ys ! b \<le> ?ys ! a" if "a \<le> b" "b < length xs" for a b
    using that by (simp add: rev_nth sorted_nth_mono)
  have count: "length (filter P xs) = card {j. j < length xs \<and> P (?ys ! j)}" for P :: "nat \<Rightarrow> bool"
  proof -
    have "mset (filter P xs) = mset (filter P ?ys)" by simp
    then have "length (filter P xs) = length (filter P ?ys)" by (metis size_mset)
    then show ?thesis by (simp add: length_filter_conv_card)
  qed
  show ?thesis
  proof
    assume m: "m \<le> ?ys ! i"
    have "{0..i} \<subseteq> {j. j < length xs \<and> m \<le> ?ys ! j}"
      using assms m desc [of _ i] by (auto intro: order_trans)
    then have "card {0..i} \<le> card {j. j < length xs \<and> m \<le> ?ys ! j}" by (intro card_mono) auto
    then show "i < length (filter (\<lambda>x. m \<le> x) xs)" by (simp add: count)
  next
    assume less: "i < length (filter (\<lambda>x. m \<le> x) xs)"
    show "m \<le> ?ys ! i"
    proof (rule ccontr)
      assume "\<not> m \<le> ?ys ! i"
      then have "{j. j < length xs \<and> m \<le> ?ys ! j} \<subseteq> {0..<i}"
        using desc [of i] by (auto simp: not_le) (metis leD not_le order_trans le_less_linear)
      then have "card {j. j < length xs \<and> m \<le> ?ys ! j} \<le> i" using card_mono [of "{0..<i}"] by simp
      with less show False by (simp add: count)
    qed
  qed
qed

text \<open>How many nodes hold the entry at an index, as far as the leader knows; it counts itself.\<close>

definition replicas_known :: "('s, 'c, 'r, 'b) raft_node \<Rightarrow> nat \<Rightarrow> nat" where
  "replicas_known n i = length (filter (\<lambda>m. i \<le> m) (map snd (rn_match_index n) @ [rl_len (rn_log n)]))"

text \<open>The index that the code picks from the sorted list is the largest that a majority is known to hold.\<close>

lemma update_commit_eq:
  assumes "length (raft_all_nodes n) div 2 < length (rn_match_index n) + 1"
  shows "\<exists>N. (\<forall>m. m \<le> N \<longleftrightarrow> length (raft_all_nodes n) div 2 < replicas_known n m) \<and>
    rn_commit_index (fst (raft_update_commit_index M n)) =
      (if rn_commit_index n < N \<and> rl_get_term (rn_log n) N = Inr (rn_current_term n) then N else rn_commit_index n)"
proof -
  let ?xs = "map snd (rn_match_index n) @ [rl_len (rn_log n)]" and ?maj = "length (raft_all_nodes n) div 2"
  let ?N = "rev (sort ?xs) ! ?maj"
  have len: "?maj < length ?xs" using assms by simp
  have "m \<le> ?N \<longleftrightarrow> ?maj < replicas_known n m" for m
    using nth_sorted_desc [OF len] by (simp add: replicas_known_def)
  moreover have "length (rev (sort ?xs)) = length ?xs" by simp
  with len have bound: "\<not> length (rev (sort ?xs)) \<le> ?maj" by simp
  have "rn_commit_index (fst (raft_update_commit_index M n)) =
      (if rn_commit_index n < ?N \<and> rl_get_term (rn_log n) ?N = Inr (rn_current_term n) then ?N else rn_commit_index n)"
    unfolding raft_update_commit_index_def Let_def if_not_P [OF bound] by (auto split: sum.splits)
  ultimately show ?thesis by blast
qed

text \<open>
  The leader commits by majority and only entries of its own term: when the commit index
  moves, it moves up to the largest index that a majority of the cluster is known to hold, and
  the entry there has the leader's current term; and when that index is new and its entry of the
  current term, the commit index does move.
\<close>

theorem raft_commit_rule:
  assumes "length (rn_match_index n) + 1 = length (raft_all_nodes n)"
    and "raft_update_commit_index M n = (n', r)"
  shows "(rn_commit_index n' \<noteq> rn_commit_index n \<longrightarrow> rn_commit_index n < rn_commit_index n') \<and>
    (rn_commit_index n < m \<longrightarrow>
      rn_commit_index n' = m \<longleftrightarrow>
        length (raft_all_nodes n) div 2 < replicas_known n m \<and>
        \<not> length (raft_all_nodes n) div 2 < replicas_known n (m + 1) \<and>
        rl_get_term (rn_log n) m = Inr (rn_current_term n))"
proof -
  have len: "length (raft_all_nodes n) div 2 < length (rn_match_index n) + 1" using assms(1) by simp
  have n': "n' = fst (raft_update_commit_index M n)" using assms(2) by simp
  obtain N where N: "\<forall>m. m \<le> N \<longleftrightarrow> length (raft_all_nodes n) div 2 < replicas_known n m"
    and commit: "rn_commit_index n' =
      (if rn_commit_index n < N \<and> rl_get_term (rn_log n) N = Inr (rn_current_term n) then N else rn_commit_index n)"
    using update_commit_eq [OF len, of M] unfolding n' by blast
  have eq: "N = m \<longleftrightarrow> length (raft_all_nodes n) div 2 < replicas_known n m \<and>
      \<not> length (raft_all_nodes n) div 2 < replicas_known n (m + 1)" for m
    using N [rule_format, of m] N [rule_format, of "m + 1"] by linarith
  show ?thesis
  proof (intro conjI impI)
    show "rn_commit_index n' \<noteq> rn_commit_index n \<Longrightarrow> rn_commit_index n < rn_commit_index n'"
      unfolding commit by (simp split: if_splits)
    assume "rn_commit_index n < m"
    then have "rn_commit_index n' = m \<longleftrightarrow> N = m \<and> rl_get_term (rn_log n) m = Inr (rn_current_term n)"
      unfolding commit by auto
    then show "rn_commit_index n' = m \<longleftrightarrow> length (raft_all_nodes n) div 2 < replicas_known n m \<and>
        \<not> length (raft_all_nodes n) div 2 < replicas_known n (m + 1) \<and> rl_get_term (rn_log n) m = Inr (rn_current_term n)"
      using eq by simp
  qed
qed

theorem raft_commit_rule_witness:
  "rn_commit_index (fst (raft_update_commit_index kv_machine
     (example_node\<lparr>rn_commit_index := 0, rn_current_term := 1, rn_match_index := [(''B'', 1), (''C'', 0)]\<rparr>))) = 1"
proof -
  let ?n = "example_node\<lparr>rn_commit_index := 0, rn_current_term := 1, rn_match_index := [(''B'', 1), (''C'', 0)]\<rparr>"
  have pre: "length (rn_match_index ?n) + 1 = length (raft_all_nodes ?n)" by code_simp
  obtain n' r where n': "raft_update_commit_index kv_machine ?n = (n', r)" by fastforce
  have "rn_commit_index ?n < 1" "length (raft_all_nodes ?n) div 2 < replicas_known ?n 1"
    "\<not> length (raft_all_nodes ?n) div 2 < replicas_known ?n (1 + 1)"
    "rl_get_term (rn_log ?n) 1 = Inr (rn_current_term ?n)" by code_simp+
  then show ?thesis using raft_commit_rule [OF pre n', of 1] n' by simp
qed

section \<open>What goes wrong\<close>

definition dup_request :: "command append_request" where
  "dup_request = \<lparr>ar_term = 2, ar_leader_id = ''B'', ar_prev_log_index = 0, ar_prev_log_term = 0,
     ar_entries = [entry 1 1 (put_command ''x'' 1), entry 2 2 (put_command ''x'' 2)], ar_leader_commit = 2\<rparr>"

text \<open>
  A call that is delivered twice can corrupt a compacted log. The follower takes the two
  entries, applies them and compacts its log at index 2. When the same call comes again, the term
  of index 1 is reported as the snapshot's, the truncation inside the snapshot does nothing, and
  the entry of index 1 is appended once more, at index 3; the reply is positive.
\<close>

theorem raft_duplicate_corrupts:
  "\<exists>n1 n2. raft_handle_append_entries kv_machine (fresh_node 2) dup_request = (n1, Inr (2, True)) \<and>
     raft_handle_append_entries kv_machine n1 dup_request = (n2, Inr (2, True)) \<and>
     rl_len (rn_log n1) = 2 \<and> rl_len (rn_log n2) = 3 \<and>
     rl_getitem (rn_log n2) 3 = Inr (entry 1 1 (put_command ''x'' 1))"
proof -
  define n1 where "n1 = fst (raft_handle_append_entries kv_machine (fresh_node 2) dup_request)"
  define n2 where "n2 = fst (raft_handle_append_entries kv_machine n1 dup_request)"
  have "snd (raft_handle_append_entries kv_machine (fresh_node 2) dup_request) = Inr (2, True)"
    "rl_len (rn_log n1) = 2"
    unfolding n1_def by code_simp+
  moreover have "snd (raft_handle_append_entries kv_machine n1 dup_request) = Inr (2, True)"
    "rl_len (rn_log n2) = 3" "rl_getitem (rn_log n2) 3 = Inr (entry 1 1 (put_command ''x'' 1))"
    unfolding n1_def n2_def by code_simp+
  ultimately show ?thesis unfolding n1_def n2_def by (metis prod.collapse)
qed

text \<open>Node A as the leader of term 1 that has taken a command, which waits on Future 0.\<close>

definition leader_with_future :: "(kv_store, command, json, kv_store) raft_node" where
  "leader_with_future =
     fst (raft_submit_command
       (fst (raft_vote_reply (fst (raft_election_timeout (raft_start (fresh_node 10)))) ''B'' 1 1 True))
       (put_command ''x'' 1))"

definition other_request :: "command append_request" where
  "other_request = \<lparr>ar_term = 2, ar_leader_id = ''B'', ar_prev_log_index = 0, ar_prev_log_term = 0,
     ar_entries = [entry 2 1 (put_command ''y'' 5)], ar_leader_commit = 1\<rparr>"

text \<open>
  A Future can report the result of somebody else's command. A leader that loses its office
  keeps its pending Futures by log index; when the next leader overwrites the entry, applying the
  new entry resolves the Future of the lost one: its client is told that its command is done.
\<close>

theorem raft_future_of_lost_command:
  "rn_state leader_with_future = Leader \<and> rn_pending_commits leader_with_future 1 = Some 0 \<and>
   rl_getitem (rn_log leader_with_future) 1 = Inr (entry 1 1 (put_command ''x'' 1)) \<and>
   (\<exists>n. raft_handle_append_entries kv_machine leader_with_future other_request = (n, Inr (2, True)) \<and>
     rl_getitem (rn_log n) 1 = Inr (entry 2 1 (put_command ''y'' 5)) \<and>
     rn_resolved n 0 = Some (JObj [(''status'', JStr ''ok''), (''key'', JStr ''y'')]) \<and>
     rn_machine n = [(''y'', JInt 5)])"
proof -
  define n where "n = fst (raft_handle_append_entries kv_machine leader_with_future other_request)"
  have "rn_state leader_with_future = Leader" "rn_pending_commits leader_with_future 1 = Some 0"
    "rl_getitem (rn_log leader_with_future) 1 = Inr (entry 1 1 (put_command ''x'' 1))"
    by code_simp+
  moreover have "snd (raft_handle_append_entries kv_machine leader_with_future other_request) = Inr (2, True)"
    "rl_getitem (rn_log n) 1 = Inr (entry 2 1 (put_command ''y'' 5))"
    "rn_resolved n 0 = Some (JObj [(''status'', JStr ''ok''), (''key'', JStr ''y'')])"
    "rn_machine n = [(''y'', JInt 5)]"
    unfolding n_def by code_simp+
  ultimately show ?thesis unfolding n_def by (metis prod.collapse)
qed

lemma lost_reply:
  assumes "rn_running n" "rn_state n = Leader"
  shows "raft_append_reply M n peer req 0 False =
    (case map_of (rn_next_index n) peer of None \<Rightarrow> n
     | Some i \<Rightarrow> n\<lparr>rn_next_index := dict_set peer (max 1 (i - 1)) (rn_next_index n)\<rparr>)"
  using assms by (simp add: raft_append_reply_def)

text \<open>
  A peer that cannot be reached for a while is lost for good once the leader has compacted
  its log: each failed call lowers its \<open>next_index\<close> as if the logs did not match, and from as many
  failures on as the index is high the worker finds the index below the snapshot and sends
  nothing to the peer any more, heartbeats included.
\<close>

theorem raft_lost_replies_starve:
  assumes "rn_running n" and "rn_state n = Leader" and "map_of (rn_next_index n) peer = Some i"
    and "0 < rl_last_included_index (rn_log n)" and "i \<le> rl_last_included_index (rn_log n) + length reqs"
  shows "raft_append_request (foldl (\<lambda>n req. raft_append_reply M n peer req 0 False) n reqs) peer = Inr None"
proof -
  have "rn_running n' \<and> rn_state n' = Leader \<and> rn_log n' = rn_log n \<and>
      (\<exists>j. map_of (rn_next_index n') peer = Some j \<and> j \<le> max 1 (i - length reqs))"
    if "n' = foldl (\<lambda>n req. raft_append_reply M n peer req 0 False) n reqs" for n'
    using that assms(1-3)
  proof (induction reqs arbitrary: n' rule: rev_induct)
    case Nil
    then show ?case by simp
  next
    case (snoc req reqs)
    let ?m = "foldl (\<lambda>n req. raft_append_reply M n peer req 0 False) n reqs"
    have m: "rn_running ?m" "rn_state ?m = Leader" "rn_log ?m = rn_log n"
      and "\<exists>j. map_of (rn_next_index ?m) peer = Some j \<and> j \<le> max 1 (i - length reqs)"
      using snoc.IH [OF refl snoc.prems(2-4)] by auto
    then obtain j where "map_of (rn_next_index ?m) peer = Some j" "j \<le> max 1 (i - length reqs)" by blast
    with m show ?case using snoc.prems(1) by (auto simp: lost_reply update_conv')
  qed
  from this [OF refl] obtain j where
    "rn_state (foldl (\<lambda>n req. raft_append_reply M n peer req 0 False) n reqs) = Leader"
    "rn_log (foldl (\<lambda>n req. raft_append_reply M n peer req 0 False) n reqs) = rn_log n"
    "map_of (rn_next_index (foldl (\<lambda>n req. raft_append_reply M n peer req 0 False) n reqs)) peer = Some j"
    "j \<le> max 1 (i - length reqs)" by blast
  then show ?thesis
    using assms(4,5) by (auto simp: raft_append_request_def Let_def dict_get_def)
qed

theorem raft_lost_replies_starve_witness:
  "raft_append_request (raft_append_reply kv_machine (leader_with_future
      \<lparr>rn_log := rl_compact (rn_log leader_with_future) 1 1 [(''x'', JInt 1)], rn_next_index := [(''B'', 2)]\<rparr>)
    ''B'' dup_request 0 False) ''B'' = Inr None"
proof -
  let ?n = "leader_with_future\<lparr>rn_log := rl_compact (rn_log leader_with_future) 1 1 [(''x'', JInt 1)],
    rn_next_index := [(''B'', 2)]\<rparr>"
  have "rn_running ?n" "rn_state ?n = Leader" "map_of (rn_next_index ?n) ''B'' = Some 2"
    "0 < rl_last_included_index (rn_log ?n)" "2 \<le> rl_last_included_index (rn_log ?n) + length [dup_request]"
    by code_simp+
  from raft_lost_replies_starve [OF this, of kv_machine] show ?thesis by simp
qed

end
