(* ===== verification/Raft_Rpc.thy ===== *)
theory Raft_Rpc
  imports Raft_Election
begin

text \<open>
  \<open>raft-from-scratch/src/rpc.py\<close>: the in-memory RPC between Raft nodes, a registry that all nodes
  share and a set of disconnected nodes, and the cluster that runs over it. A call executes the
  target's handler and its answer is processed later, when the worker gets the lock of the caller.
  The theorem: the cluster over this RPC is one of the behaviours of the asynchronous network of
  \<open>Raft_Election\<close>, so what holds there holds here.
\<close>

section \<open>The registry\<close>

text \<open>
  The set of disconnected nodes of a provider is its own, or one that it shares with others:
  \<open>rr_set_of\<close> is the address of the set that the provider of a node uses.
\<close>

record rpc_registry =
  rr_registered :: "node_id set"
  rr_set_of :: "node_id \<Rightarrow> nat"
  rr_disconnected :: "nat \<Rightarrow> node_id set"

text \<open>The constructor of a node registers it, \<open>stop\<close> removes it; \<open>start\<close> does not register it again.\<close>

definition rpc_start :: "rpc_registry \<Rightarrow> node_id \<Rightarrow> rpc_registry" where
  "rpc_start R i = R\<lparr>rr_registered := insert i (rr_registered R)\<rparr>"

definition rpc_stop :: "rpc_registry \<Rightarrow> node_id \<Rightarrow> rpc_registry" where
  "rpc_stop R i = (if i \<in> rr_registered R then R\<lparr>rr_registered := rr_registered R - {i}\<rparr> else R)"

definition rpc_disconnect :: "rpc_registry \<Rightarrow> node_id \<Rightarrow> node_id \<Rightarrow> rpc_registry" where
  "rpc_disconnect R own node_id =
     (let a = rr_set_of R own in R\<lparr>rr_disconnected := (rr_disconnected R)(a := insert node_id (rr_disconnected R a))\<rparr>)"

definition rpc_reconnect :: "rpc_registry \<Rightarrow> node_id \<Rightarrow> node_id \<Rightarrow> rpc_registry" where
  "rpc_reconnect R own node_id =
     (let a = rr_set_of R own
      in if node_id \<in> rr_disconnected R a
         then R\<lparr>rr_disconnected := (rr_disconnected R)(a := rr_disconnected R a - {node_id})\<rparr> else R)"

definition rpc_delivers :: "rpc_registry \<Rightarrow> node_id \<Rightarrow> node_id \<Rightarrow> bool" where
  "rpc_delivers R own target \<longleftrightarrow>
     (if own \<in> rr_disconnected R (rr_set_of R own) \<or> target \<in> rr_disconnected R (rr_set_of R own) then False
      else target \<in> rr_registered R)"

text \<open>A call: the target as its handler leaves it, if it was reached, and the answer or exception.\<close>

definition send_request_vote ::
  "rpc_registry \<Rightarrow> (node_id \<Rightarrow> ('s, 'c, 'r, 'b) raft_node) \<Rightarrow> node_id \<Rightarrow> node_id \<Rightarrow> nat \<Rightarrow> nat \<Rightarrow> nat
    \<Rightarrow> ('s, 'c, 'r, 'b) raft_node option \<times> (nat \<times> bool) result" where
  "send_request_vote R nodes own target term' last_log_index last_log_term =
     (if \<not> rpc_delivers R own target then (None, Inr (0, False))
      else case raft_handle_request_vote (nodes target) term' own last_log_index last_log_term of
             (n, res) \<Rightarrow> (Some n, res))"

definition send_append_entries ::
  "('s, 'c, 'r, 'b) machine \<Rightarrow> rpc_registry \<Rightarrow> (node_id \<Rightarrow> ('s, 'c, 'r, 'b) raft_node) \<Rightarrow> node_id \<Rightarrow> node_id
    \<Rightarrow> 'c append_request \<Rightarrow> ('s, 'c, 'r, 'b) raft_node option \<times> (nat \<times> bool) result" where
  "send_append_entries M R nodes own target req =
     (if \<not> rpc_delivers R own target then (None, Inr (0, False))
      else case raft_handle_append_entries M (nodes target) req of (n, res) \<Rightarrow> (Some n, res))"

section \<open>The cluster over the registry\<close>

definition put_called :: "('s, 'c, 'r, 'b) raft_cluster \<Rightarrow> node_id \<Rightarrow> ('s, 'c, 'r, 'b) raft_node option \<Rightarrow> ('s, 'c, 'r, 'b) raft_cluster" where
  "put_called s target called = (case called of None \<Rightarrow> s | Some n \<Rightarrow> raft_put s target n)"

definition vote_answer :: "node_id \<times> node_id \<times> nat \<Rightarrow> (nat \<times> bool) result \<Rightarrow> (node_id \<times> node_id \<times> nat \<times> nat \<times> bool) set" where
  "vote_answer c res = (case c of (i, p, t) \<Rightarrow> case res of Inl e \<Rightarrow> {} | Inr (rt, granted) \<Rightarrow> {(i, p, t, rt, granted)})"

text \<open>
  The cluster and its registry. The workers of an election or of a round of heartbeats make their
  calls in any order and each answer waits in the set of answers for the lock of its caller.
\<close>

inductive rpc_reachable ::
  "('s, 'c, 'r, 'b) machine \<Rightarrow> 's \<Rightarrow> nat \<Rightarrow> node_id list \<Rightarrow> bool \<Rightarrow> bool \<Rightarrow> ('s, 'c, 'r, 'b) raft_cluster \<Rightarrow> rpc_registry \<Rightarrow> bool"
  for M machine0 k ns timely prompt where
  rpc_boot: "\<forall>i\<in>set ns. raft_init M machine0 k i (raft_peers_of ns i) fs_init = Inr (nodes i) \<Longrightarrow>
    rpc_reachable M machine0 k ns timely prompt \<lparr>cl_nodes = nodes, cl_vote_calls = {}, cl_vote_replies = {},
      cl_append_calls = {}, cl_append_replies = {}, cl_cast = (\<lambda>_ _. None)\<rparr>
      \<lparr>rr_registered = set ns, rr_set_of = sets, rr_disconnected = (\<lambda>_. {})\<rparr>"
| rpc_run: "rpc_reachable M machine0 k ns timely prompt s R \<Longrightarrow> i \<in> set ns \<Longrightarrow>
    rpc_reachable M machine0 k ns timely prompt (raft_put s i (raft_start (cl_nodes s i))) R"
| rpc_halt: "rpc_reachable M machine0 k ns timely prompt s R \<Longrightarrow> i \<in> set ns \<Longrightarrow>
    rpc_reachable M machine0 k ns timely prompt (raft_put s i (raft_stop (cl_nodes s i))) (rpc_stop R i)"
| rpc_cut: "rpc_reachable M machine0 k ns timely prompt s R \<Longrightarrow> rpc_reachable M machine0 k ns timely prompt s (rpc_disconnect R i j)"
| rpc_mend: "rpc_reachable M machine0 k ns timely prompt s R \<Longrightarrow> rpc_reachable M machine0 k ns timely prompt s (rpc_reconnect R i j)"
| rpc_timeout: "rpc_reachable M machine0 k ns timely prompt s R \<Longrightarrow> i \<in> set ns \<Longrightarrow>
    raft_election_timeout (cl_nodes s i) = (n, ws) \<Longrightarrow>
    rpc_reachable M machine0 k ns timely prompt
      ((raft_put s i n)\<lparr>cl_vote_calls := cl_vote_calls s \<union> raft_calls i ws\<rparr>) R"
| rpc_vote: "rpc_reachable M machine0 k ns timely prompt s R \<Longrightarrow> p \<in> set ns \<Longrightarrow> (i, p, t, a, b) \<in> cl_vote_calls s \<Longrightarrow>
    send_request_vote R (cl_nodes s) i p t a b = (called, res) \<Longrightarrow>
    rpc_reachable M machine0 k ns timely prompt
      ((put_called s p called)\<lparr>cl_vote_replies := cl_vote_replies s \<union> vote_answer (i, p, t) res\<rparr>) R"
| rpc_vote_answer: "rpc_reachable M machine0 k ns timely prompt s R \<Longrightarrow> i \<in> set ns \<Longrightarrow>
    (i, p, t, rt, granted) \<in> cl_vote_replies s \<Longrightarrow>
    (timely \<Longrightarrow> granted \<Longrightarrow> t = rn_current_term (cl_nodes s i)) \<Longrightarrow>
    raft_vote_reply (cl_nodes s i) p t rt granted = (n, ws) \<Longrightarrow>
    rpc_reachable M machine0 k ns timely prompt (raft_put s i n) R"
| rpc_append_call: "rpc_reachable M machine0 k ns timely prompt s R \<Longrightarrow> i \<in> set ns \<Longrightarrow>
    p \<in> set (rn_peers (cl_nodes s i)) \<Longrightarrow> raft_append_request (cl_nodes s i) p = Inr (Some req) \<Longrightarrow>
    rpc_reachable M machine0 k ns timely prompt (s\<lparr>cl_append_calls := insert (i, p, req) (cl_append_calls s)\<rparr>) R"
| rpc_append: "rpc_reachable M machine0 k ns timely prompt s R \<Longrightarrow> p \<in> set ns \<Longrightarrow> (i, p, req) \<in> cl_append_calls s \<Longrightarrow>
    send_append_entries M R (cl_nodes s) i p req = (called, res) \<Longrightarrow>
    rpc_reachable M machine0 k ns timely prompt
      ((put_called s p called)\<lparr>cl_append_replies := cl_append_replies s \<union>
         (case res of Inl e \<Rightarrow> {} | Inr (rt, ok) \<Rightarrow> {(i, p, req, rt, ok)})\<rparr>) R"
| rpc_append_answer: "rpc_reachable M machine0 k ns timely prompt s R \<Longrightarrow> i \<in> set ns \<Longrightarrow>
    (i, p, req, rt, ok) \<in> cl_append_replies s \<Longrightarrow>
    (prompt \<Longrightarrow> ok \<Longrightarrow> ar_term req = rn_current_term (cl_nodes s i)) \<Longrightarrow>
    rpc_reachable M machine0 k ns timely prompt (raft_put s i (raft_append_reply M (cl_nodes s i) p req rt ok)) R"
| rpc_submit: "rpc_reachable M machine0 k ns timely prompt s R \<Longrightarrow> i \<in> set ns \<Longrightarrow>
    raft_submit_command (cl_nodes s i) c = (n, r) \<Longrightarrow>
    rpc_reachable M machine0 k ns timely prompt (raft_put s i n) R"
| rpc_restart: "rpc_reachable M machine0 k ns timely prompt s R \<Longrightarrow> i \<in> set ns \<Longrightarrow>
    raft_init M machine0 k i (raft_peers_of ns i) (rl_storage (rn_log (cl_nodes s i))) = Inr n \<Longrightarrow>
    rpc_reachable M machine0 k ns timely prompt (raft_put s i n) (rpc_start R i)"

text \<open>Every call over the registry is a step of the asynchronous network.\<close>

lemma vote_call_refines:
  assumes s: "raft_reachable M machine0 k ns timely prompt s" and p: "p \<in> set ns" and c: "(i, p, t, a, b) \<in> cl_vote_calls s"
    and call: "send_request_vote R (cl_nodes s) i p t a b = (called, res)"
  shows "raft_reachable M machine0 k ns timely prompt
    ((put_called s p called)\<lparr>cl_vote_replies := cl_vote_replies s \<union> vote_answer (i, p, t) res\<rparr>)"
proof (cases "rpc_delivers R i p")
  case False
  then show ?thesis using call rc_vote_lost [OF s c] by (auto simp: send_request_vote_def put_called_def vote_answer_def)
next
  case True
  obtain n r where h: "raft_handle_request_vote (cl_nodes s p) t i a b = (n, r)" by fastforce
  with True call have called: "called = Some n" "res = r" by (auto simp: send_request_vote_def)
  show ?thesis
  proof (cases r)
    case (Inl e)
    have "(raft_put s p n)\<lparr>cl_vote_replies := cl_vote_replies s\<rparr> = raft_put s p n" by (simp add: raft_put_def)
    with rc_vote_raises [OF s p c h [unfolded Inl]] show ?thesis
      by (simp add: called Inl put_called_def vote_answer_def)
  next
    case (Inr q)
    then show ?thesis using rc_vote [OF s p c, of n "fst q" "snd q"] h
      by (simp add: called put_called_def vote_answer_def case_prod_unfold)
  qed
qed

lemma append_call_refines:
  assumes s: "raft_reachable M machine0 k ns timely prompt s" and p: "p \<in> set ns" and c: "(i, p, req) \<in> cl_append_calls s"
    and call: "send_append_entries M R (cl_nodes s) i p req = (called, res)"
  shows "raft_reachable M machine0 k ns timely prompt
    ((put_called s p called)\<lparr>cl_append_replies := cl_append_replies s \<union>
       (case res of Inl e \<Rightarrow> {} | Inr (rt, ok) \<Rightarrow> {(i, p, req, rt, ok)})\<rparr>)"
proof (cases "rpc_delivers R i p")
  case False
  then show ?thesis using call rc_append_lost [OF s c] by (auto simp: send_append_entries_def put_called_def)
next
  case True
  obtain n r where h: "raft_handle_append_entries M (cl_nodes s p) req = (n, r)" by fastforce
  with True call have "called = Some n" "res = r" by (auto simp: send_append_entries_def)
  with rc_append [OF s p c h] show ?thesis by (simp add: put_called_def)
qed

text \<open>
  C5. The in-memory RPC implements the asynchronous network: every state of a cluster that runs over
  the registry, with nodes that stop, restart, are cut off and come back, is a state that the
  cluster reaches over a network that delays, reorders, duplicates and loses messages. So with
  timely votes it has at most one leader in a term.
\<close>

theorem rpc_refines_network:
  assumes "rpc_reachable M machine0 k ns timely prompt s R"
  shows "raft_reachable M machine0 k ns timely prompt s \<and>
    (timely \<longrightarrow> (\<forall>i j. i \<in> set ns \<and> j \<in> set ns \<and> rn_state (cl_nodes s i) = Leader \<and> rn_state (cl_nodes s j) = Leader \<and>
       rn_current_term (cl_nodes s i) = rn_current_term (cl_nodes s j) \<longrightarrow> i = j))"
proof -
  have reach: "raft_reachable M machine0 k ns timely prompt s"
    using assms
  proof induction
    case (rpc_boot nodes sets)
    then show ?case by (rule rc_start)
  qed (auto intro: rc_run rc_stop rc_timeout rc_vote_reply rc_append_call rc_append_reply rc_submit rc_restart
      vote_call_refines append_call_refines)
  have "raft_inv True ns s" if timely
    using raft_reachable_inv [OF reach] that by simp
  then show ?thesis using reach by (auto intro: raft_one_leader)
qed

text \<open>A run of three nodes in which A, with C cut off, is elected with the vote of B.\<close>

theorem rpc_refines_network_witness:
  "\<exists>s R. rpc_reachable kv_machine kv_init 10 abc True True s R \<and> rn_state (cl_nodes s ''A'') = Leader \<and>
     raft_reachable kv_machine kv_init 10 abc True True s"
proof -
  let ?reach = "rpc_reachable kv_machine kv_init 10 abc True True"
  define s0 where "s0 = raft_boot kv_machine kv_init 10 abc"
  define R where "R = rpc_disconnect \<lparr>rr_registered = set abc, rr_set_of = (\<lambda>_. 0), rr_disconnected = (\<lambda>_. {})\<rparr> ''A'' ''C''"
  define s1 where "s1 = raft_put s0 ''A'' (raft_start (cl_nodes s0 ''A''))"
  define n2 where "n2 = fst (raft_election_timeout (cl_nodes s1 ''A''))"
  define s2 where "s2 = (raft_put s1 ''A'' n2)\<lparr>cl_vote_calls := cl_vote_calls s1 \<union> raft_calls ''A'' (snd (raft_election_timeout (cl_nodes s1 ''A'')))\<rparr>"
  define c3 where "c3 = send_request_vote R (cl_nodes s2) ''A'' ''B'' 1 0 0"
  define s3 where "s3 = (put_called s2 ''B'' (fst c3))\<lparr>cl_vote_replies := cl_vote_replies s2 \<union> vote_answer (''A'', ''B'', 1) (snd c3)\<rparr>"
  define s4 where "s4 = raft_put s3 ''A'' (fst (raft_vote_reply (cl_nodes s3 ''A'') ''B'' 1 1 True))"
  note defs = s0_def R_def s1_def n2_def s2_def c3_def s3_def s4_def
  have "?reach s0 \<lparr>rr_registered = set abc, rr_set_of = (\<lambda>_. 0), rr_disconnected = (\<lambda>_. {})\<rparr>"
    unfolding s0_def raft_boot_def
    by (rule rpc_boot) (simp add: raft_init_def fs_init_def fs_load_state_def fs_load_snapshot_def Let_def)
  then have "?reach s0 R" unfolding R_def by (rule rpc_cut)
  then have "?reach s1 R" unfolding s1_def by (rule rpc_run) simp
  then have reach2: "?reach s2 R" unfolding s2_def n2_def by (rule rpc_timeout) simp_all
  have call: "(''A'', ''B'', 1, 0, 0) \<in> cl_vote_calls s2" unfolding defs by code_simp
  have sent: "send_request_vote R (cl_nodes s2) ''A'' ''B'' 1 0 0 = (fst c3, snd c3)" by (simp add: c3_def)
  have reach3: "?reach s3 R" unfolding s3_def by (rule rpc_vote [OF reach2 _ call sent]) simp
  have answer: "(''A'', ''B'', 1, 1, True) \<in> cl_vote_replies s3" and "rn_current_term (cl_nodes s3 ''A'') = 1"
    unfolding defs by code_simp+
  then have reach: "?reach s4 R" unfolding s4_def
    by (intro rpc_vote_answer [OF reach3 _ answer, where ws = "snd (raft_vote_reply (cl_nodes s3 ''A'') ''B'' 1 1 True)"]) simp_all
  moreover have "rn_state (cl_nodes s4 ''A'') = Leader" unfolding defs by code_simp
  ultimately show ?thesis using rpc_refines_network [OF reach] by blast
qed

text \<open>A node that was stopped and started again runs its timers, but nobody reaches it.\<close>

theorem rpc_restarted_node_unreachable:
  "snd (send_request_vote (rpc_stop R p) (nodes(p := raft_start (raft_stop (nodes p)))) i p t a b) = Inr (0, False) \<and>
   rn_running (raft_start (raft_stop (nodes p)))"
  by (auto simp: send_request_vote_def rpc_delivers_def rpc_stop_def raft_start_def raft_stop_def)

end
