(* ===== verification/Raft_Abstract.thy ===== *)
theory Raft_Abstract
  imports Raft_Replication
begin

text \<open>
  Raft as a protocol: the abstract specification that the cluster of \<open>raft_node.py\<close> is shown to
  refine in \<open>Raft_Safety\<close>. The state keeps, besides what the nodes know, a history of the run: the
  log of each term's leader, who led a term and by whose votes, the log with which a node stood for
  election, and what has been acknowledged. Over it the safety of Raft is proved: the logs of two
  nodes agree up to any entry of the same term and index, a committed entry is in the log of every
  later leader, and committed prefixes agree.
\<close>

section \<open>The protocol\<close>

record 'c araft =
  ab_term :: "node_id \<Rightarrow> nat"
  ab_role :: "node_id \<Rightarrow> node_state"
  ab_log :: "node_id \<Rightarrow> 'c log_entry list"
  ab_commit :: "node_id \<Rightarrow> nat"
  ab_match :: "node_id \<Rightarrow> node_id \<Rightarrow> nat"
  ab_cast :: "node_id \<Rightarrow> nat \<Rightarrow> node_id option"
  ab_calls :: "(node_id \<times> nat \<times> nat \<times> nat) set"
  ab_reqs :: "'c append_request set"
  ab_acks :: "(node_id \<times> nat \<times> nat) set"
  ab_hist :: "nat \<Rightarrow> 'c log_entry list"
  ab_ldr :: "nat \<Rightarrow> node_id option"
  ab_quo :: "nat \<Rightarrow> node_id set"
  ab_cand :: "node_id \<Rightarrow> nat \<Rightarrow> 'c log_entry list"

definition last_term :: "'c log_entry list \<Rightarrow> nat" where
  "last_term L = (if L = [] then 0 else le_term (last L))"

definition majority :: "node_id list \<Rightarrow> node_id set \<Rightarrow> bool" where
  "majority ns S \<longleftrightarrow> S \<subseteq> set ns \<and> card (set ns) div 2 < card S"

definition ab_init :: "'c araft" where
  "ab_init = \<lparr>ab_term = (\<lambda>_. 0), ab_role = (\<lambda>_. Follower), ab_log = (\<lambda>_. []), ab_commit = (\<lambda>_. 0), ab_match = (\<lambda>_ _. 0),
     ab_cast = (\<lambda>_ _. None), ab_calls = {}, ab_reqs = {}, ab_acks = {}, ab_hist = (\<lambda>_. []), ab_ldr = (\<lambda>_. None),
     ab_quo = (\<lambda>_. {}), ab_cand = (\<lambda>_ _. [])\<rparr>"

text \<open>Learning of a later term; a restart, which forgets what is committed; standing for election.\<close>

definition ab_see :: "node_id \<Rightarrow> nat \<Rightarrow> 'c araft \<Rightarrow> 'c araft" where
  "ab_see i t s = s\<lparr>ab_term := (ab_term s)(i := t), ab_role := (ab_role s)(i := Follower)\<rparr>"

definition ab_reset :: "node_id \<Rightarrow> 'c araft \<Rightarrow> 'c araft" where
  "ab_reset i s = s\<lparr>ab_role := (ab_role s)(i := Follower), ab_commit := (ab_commit s)(i := 0)\<rparr>"

definition ab_stand :: "node_id \<Rightarrow> 'c araft \<Rightarrow> 'c araft" where
  "ab_stand i s =
     (let u = ab_term s i + 1
      in s\<lparr>ab_term := (ab_term s)(i := u), ab_role := (ab_role s)(i := Candidate),
           ab_cast := (ab_cast s)(i := (ab_cast s i)(u \<mapsto> i)),
           ab_calls := insert (i, u, length (ab_log s i), last_term (ab_log s i)) (ab_calls s),
           ab_cand := (ab_cand s)(i := (ab_cand s i)(u := ab_log s i))\<rparr>)"

text \<open>A vote: for the first candidate of a term whose log is not behind.\<close>

definition may_vote :: "node_id \<Rightarrow> node_id \<Rightarrow> nat \<Rightarrow> nat \<Rightarrow> nat \<Rightarrow> 'c araft \<Rightarrow> bool" where
  "may_vote p c u a b s \<longleftrightarrow> (c, u, a, b) \<in> ab_calls s \<and> ab_term s p \<le> u \<and> ab_cast s p u \<in> {None, Some c} \<and>
     (last_term (ab_log s p) < b \<or> b = last_term (ab_log s p) \<and> length (ab_log s p) \<le> a)"

definition ab_vote :: "node_id \<Rightarrow> node_id \<Rightarrow> nat \<Rightarrow> 'c araft \<Rightarrow> 'c araft" where
  "ab_vote p c u s = s\<lparr>ab_term := (ab_term s)(p := u),
     ab_role := (ab_role s)(p := if ab_term s p < u then Follower else ab_role s p),
     ab_cast := (ab_cast s)(p := (ab_cast s p)(u \<mapsto> c))\<rparr>"

definition ab_voters :: "node_id list \<Rightarrow> nat \<Rightarrow> node_id \<Rightarrow> 'c araft \<Rightarrow> node_id set" where
  "ab_voters ns u c s = {p \<in> set ns. ab_cast s p u = Some c}"

definition ab_win :: "node_id list \<Rightarrow> node_id \<Rightarrow> 'c araft \<Rightarrow> 'c araft" where
  "ab_win ns i s =
     (let u = ab_term s i
      in s\<lparr>ab_role := (ab_role s)(i := Leader), ab_match := (ab_match s)(i := (\<lambda>_. 0)),
           ab_hist := (ab_hist s)(u := ab_log s i), ab_ldr := (ab_ldr s)(u \<mapsto> i), ab_quo := (ab_quo s)(u := ab_voters ns u i s)\<rparr>)"

text \<open>Replication: a new entry, a request, the rule of the receiver, an acknowledgement, committing.\<close>

definition ab_submit :: "node_id \<Rightarrow> 'c log_entry \<Rightarrow> 'c araft \<Rightarrow> 'c araft" where
  "ab_submit i e s = s\<lparr>ab_log := (ab_log s)(i := ab_log s i @ [e]),
     ab_hist := (ab_hist s)(ab_term s i := ab_log s i @ [e])\<rparr>"

definition may_send :: "node_id \<Rightarrow> 'c append_request \<Rightarrow> 'c araft \<Rightarrow> bool" where
  "may_send i req s \<longleftrightarrow> ab_role s i = Leader \<and> ar_term req = ab_term s i \<and> ar_prev_log_index req \<le> length (ab_log s i) \<and>
     (0 < ar_prev_log_index req \<longrightarrow> ar_prev_log_term req = le_term (ab_log s i ! (ar_prev_log_index req - 1))) \<and>
     ar_entries req = drop (ar_prev_log_index req) (ab_log s i) \<and> ar_leader_commit req = ab_commit s i"

definition ab_send :: "'c append_request \<Rightarrow> 'c araft \<Rightarrow> 'c araft" where
  "ab_send req s = s\<lparr>ab_reqs := insert req (ab_reqs s)\<rparr>"

definition ab_accept :: "node_id \<Rightarrow> 'c append_request \<Rightarrow> 'c araft \<Rightarrow> 'c araft" where
  "ab_accept p req s =
     (let L = reconcile (ab_log s p) (ar_prev_log_index req) (ar_entries req)
      in s\<lparr>ab_term := (ab_term s)(p := ar_term req),
           ab_role := (ab_role s)(p := if ab_term s p < ar_term req then Follower else ab_role s p),
           ab_log := (ab_log s)(p := L),
           ab_commit := (ab_commit s)(p := if ab_commit s p < ar_leader_commit req then min (ar_leader_commit req) (length L) else ab_commit s p),
           ab_acks := insert (p, ar_term req, ar_prev_log_index req + length (ar_entries req)) (ab_acks s)\<rparr>)"

definition ab_ack :: "node_id \<Rightarrow> node_id \<Rightarrow> nat \<Rightarrow> 'c araft \<Rightarrow> 'c araft" where
  "ab_ack i p m s = s\<lparr>ab_match := (ab_match s)(i := (ab_match s i)(p := m))\<rparr>"

definition ab_decide :: "node_id \<Rightarrow> nat \<Rightarrow> 'c araft \<Rightarrow> 'c araft" where
  "ab_decide i k s = s\<lparr>ab_commit := (ab_commit s)(i := k)\<rparr>"

definition may_decide :: "node_id list \<Rightarrow> node_id \<Rightarrow> nat \<Rightarrow> 'c araft \<Rightarrow> bool" where
  "may_decide ns i k s \<longleftrightarrow> ab_role s i = Leader \<and> 0 < k \<and> k \<le> length (ab_log s i) \<and>
     le_term (ab_log s i ! (k - 1)) = ab_term s i \<and> majority ns {p \<in> set ns. p = i \<or> k \<le> ab_match s i p}"

inductive araft_reachable :: "node_id list \<Rightarrow> 'c araft \<Rightarrow> bool" for ns where
  ar_init: "araft_reachable ns ab_init"
| ar_see: "araft_reachable ns s \<Longrightarrow> i \<in> set ns \<Longrightarrow> ab_term s i < t \<Longrightarrow> araft_reachable ns (ab_see i t s)"
| ar_reset: "araft_reachable ns s \<Longrightarrow> i \<in> set ns \<Longrightarrow> araft_reachable ns (ab_reset i s)"
| ar_stand: "araft_reachable ns s \<Longrightarrow> i \<in> set ns \<Longrightarrow> araft_reachable ns (ab_stand i s)"
| ar_vote: "araft_reachable ns s \<Longrightarrow> p \<in> set ns \<Longrightarrow> may_vote p c u a b s \<Longrightarrow> araft_reachable ns (ab_vote p c u s)"
| ar_win: "araft_reachable ns s \<Longrightarrow> i \<in> set ns \<Longrightarrow> ab_role s i = Candidate \<Longrightarrow>
    majority ns (ab_voters ns (ab_term s i) i s) \<Longrightarrow> araft_reachable ns (ab_win ns i s)"
| ar_submit: "araft_reachable ns s \<Longrightarrow> i \<in> set ns \<Longrightarrow> ab_role s i = Leader \<Longrightarrow> le_term e = ab_term s i \<Longrightarrow>
    araft_reachable ns (ab_submit i e s)"
| ar_send: "araft_reachable ns s \<Longrightarrow> i \<in> set ns \<Longrightarrow> may_send i req s \<Longrightarrow> araft_reachable ns (ab_send req s)"
| ar_accept: "araft_reachable ns s \<Longrightarrow> p \<in> set ns \<Longrightarrow> req \<in> ab_reqs s \<Longrightarrow> ab_term s p \<le> ar_term req \<Longrightarrow>
    req_matches (ab_log s p) req \<Longrightarrow> araft_reachable ns (ab_accept p req s)"
| ar_ack: "araft_reachable ns s \<Longrightarrow> i \<in> set ns \<Longrightarrow> ab_role s i = Leader \<Longrightarrow> (p, ab_term s i, m) \<in> ab_acks s \<Longrightarrow>
    araft_reachable ns (ab_ack i p m s)"
| ar_decide: "araft_reachable ns s \<Longrightarrow> i \<in> set ns \<Longrightarrow> may_decide ns i k s \<Longrightarrow> araft_reachable ns (ab_decide i k s)"

section \<open>The invariant\<close>

text \<open>A log conforms: up to any of its entries it is the log of that entry's leader.\<close>

definition conforms :: "(nat \<Rightarrow> 'c log_entry list) \<Rightarrow> 'c log_entry list \<Rightarrow> bool" where
  "conforms h L \<longleftrightarrow> (\<forall>j < length L. let t = le_term (L ! j) in j < length (h t) \<and> take (Suc j) L = take (Suc j) (h t))"

definition terms_upto :: "nat \<Rightarrow> 'c log_entry list \<Rightarrow> bool" where
  "terms_upto t L \<longleftrightarrow> sorted (map le_term L) \<and> (\<forall>e\<in>set L. le_term e \<le> t)"

abbreviation led :: "'c araft \<Rightarrow> nat \<Rightarrow> bool" where
  "led s t \<equiv> ab_ldr s t \<noteq> None"

text \<open>A log holds the first k entries of the leader of a term; a later leader has lost them.\<close>

definition held :: "'c araft \<Rightarrow> nat \<Rightarrow> nat \<Rightarrow> 'c log_entry list \<Rightarrow> bool" where
  "held s k t L \<longleftrightarrow> k \<le> length L \<and> take k L = take k (ab_hist s t)"

definition lost_by :: "'c araft \<Rightarrow> nat \<Rightarrow> nat \<Rightarrow> nat \<Rightarrow> bool" where
  "lost_by s k t u \<longleftrightarrow> (\<exists>v. t < v \<and> v \<le> u \<and> led s v \<and> \<not> held s k t (ab_hist s v))"

definition acked :: "'c araft \<Rightarrow> node_id \<Rightarrow> nat \<Rightarrow> nat \<Rightarrow> bool" where
  "acked s p t m \<longleftrightarrow> (p, t, m) \<in> ab_acks s \<or> ab_ldr s t = Some p \<and> m \<le> length (ab_hist s t)"

definition chosen :: "node_id list \<Rightarrow> 'c araft \<Rightarrow> nat \<Rightarrow> nat \<Rightarrow> bool" where
  "chosen ns s t k \<longleftrightarrow> led s t \<and> 0 < k \<and> k \<le> length (ab_hist s t) \<and> le_term (ab_hist s t ! (k - 1)) = t \<and>
     majority ns {p \<in> set ns. \<exists>m\<ge>k. acked s p t m}"

definition commit_ok :: "node_id list \<Rightarrow> 'c araft \<Rightarrow> 'c log_entry list \<Rightarrow> nat \<Rightarrow> nat \<Rightarrow> bool" where
  "commit_ok ns s L u c \<longleftrightarrow> c = 0 \<or> (\<exists>t k. t \<le> u \<and> chosen ns s t k \<and> c \<le> k \<and> held s c t L)"

definition inv_votes_terms :: "'c araft \<Rightarrow> bool" where
  "inv_votes_terms s \<longleftrightarrow> (\<forall>p u c. ab_cast s p u = Some c \<longrightarrow> u \<le> ab_term s p \<and> u \<le> ab_term s c) \<and>
     (\<forall>c u a b. (c, u, a, b) \<in> ab_calls s \<longrightarrow> u \<le> ab_term s c \<and> a = length (ab_cand s c u) \<and> b = last_term (ab_cand s c u))"

definition inv_leaders :: "node_id list \<Rightarrow> 'c araft \<Rightarrow> bool" where
  "inv_leaders ns s \<longleftrightarrow>
     (\<forall>i. ab_role s i = Leader \<longrightarrow> ab_ldr s (ab_term s i) = Some i \<and> ab_hist s (ab_term s i) = ab_log s i) \<and>
     (\<forall>t i. ab_ldr s t = Some i \<longrightarrow> i \<in> set ns \<and> t \<le> ab_term s i \<and> (ab_term s i = t \<longrightarrow> ab_role s i \<noteq> Candidate) \<and>
        ab_quo s t \<subseteq> ab_voters ns t i s \<and> majority ns (ab_quo s t)) \<and>
     (\<forall>t. ab_ldr s t = None \<longrightarrow> ab_hist s t = []) \<and>
     (\<forall>i. ab_role s i = Candidate \<longrightarrow> ab_ldr s (ab_term s i) = None \<longrightarrow> ab_log s i = ab_cand s i (ab_term s i))"

definition inv_logs :: "'c araft \<Rightarrow> bool" where
  "inv_logs s \<longleftrightarrow> (\<forall>i. terms_upto (ab_term s i) (ab_log s i) \<and> conforms (ab_hist s) (ab_log s i)) \<and>
     (\<forall>t. terms_upto t (ab_hist s t) \<and> conforms (ab_hist s) (ab_hist s t)) \<and>
     (\<forall>c u. terms_upto (u - 1) (ab_cand s c u) \<and> conforms (ab_hist s) (ab_cand s c u))"

definition req_ok :: "node_id list \<Rightarrow> 'c araft \<Rightarrow> 'c append_request \<Rightarrow> bool" where
  "req_ok ns s req \<longleftrightarrow> led s (ar_term req) \<and>
     (\<exists>m \<le> length (ab_hist s (ar_term req)). ar_prev_log_index req \<le> m \<and>
        ar_entries req = drop (ar_prev_log_index req) (take m (ab_hist s (ar_term req))) \<and>
        (0 < ar_prev_log_index req \<longrightarrow> ar_prev_log_term req = le_term (ab_hist s (ar_term req) ! (ar_prev_log_index req - 1))) \<and>
        commit_ok ns s (take m (ab_hist s (ar_term req))) (ar_term req) (ar_leader_commit req))"

definition ack_ok :: "'c araft \<Rightarrow> node_id \<Rightarrow> nat \<Rightarrow> nat \<Rightarrow> bool" where
  "ack_ok s p t m \<longleftrightarrow> led s t \<and> t \<le> ab_term s p \<and> m \<le> length (ab_hist s t) \<and>
     (\<forall>k\<le>m. held s k t (ab_log s p) \<or> lost_by s k t (ab_term s p))"

text \<open>A vote that counts or may still count: what its voter has acknowledged, the candidate has, or a leader in between has lost.\<close>

definition inv_vote_logs :: "'c araft \<Rightarrow> bool" where
  "inv_vote_logs s \<longleftrightarrow> (\<forall>p c u t m k. ab_cast s p u = Some c \<longrightarrow> (led s u \<longrightarrow> p \<in> ab_quo s u) \<longrightarrow> t < u \<longrightarrow>
     acked s p t m \<longrightarrow> 0 < k \<longrightarrow> k \<le> m \<longrightarrow> le_term (ab_hist s t ! (k - 1)) = t \<longrightarrow>
     held s k t (if led s u then ab_hist s u else ab_cand s c u) \<or> lost_by s k t (u - 1))"

definition inv_commits :: "node_id list \<Rightarrow> 'c araft \<Rightarrow> bool" where
  "inv_commits ns s \<longleftrightarrow> (\<forall>i. commit_ok ns s (ab_log s i) (ab_term s i) (ab_commit s i)) \<and>
     (\<forall>i p. ab_role s i = Leader \<longrightarrow> 0 < ab_match s i p \<longrightarrow> acked s p (ab_term s i) (ab_match s i p))"

definition araft_inv :: "node_id list \<Rightarrow> 'c araft \<Rightarrow> bool" where
  "araft_inv ns s \<longleftrightarrow> inv_votes_terms s \<and> inv_leaders ns s \<and> inv_logs s \<and> (\<forall>req\<in>ab_reqs s. req_ok ns s req) \<and>
     (\<forall>p t m. acked s p t m \<longrightarrow> ack_ok s p t m) \<and> inv_vote_logs s \<and> inv_commits ns s"

section \<open>What only grows\<close>

lemma conformsD: "conforms h L \<Longrightarrow> j < length L \<Longrightarrow> j < length (h (le_term (L ! j))) \<and> take (Suc j) L = take (Suc j) (h (le_term (L ! j)))"
  by (simp add: conforms_def Let_def)

lemma conforms_Nil [simp]: "conforms h []"
  by (simp add: conforms_def)

lemma terms_upto_Nil [simp]: "terms_upto t []"
  by (simp add: terms_upto_def)

lemma terms_upto_mono: "terms_upto t L \<Longrightarrow> t \<le> u \<Longrightarrow> terms_upto u L"
  by (auto simp: terms_upto_def)

lemma terms_upto_take: "terms_upto t L \<Longrightarrow> terms_upto t (take k L)"
  by (auto simp: terms_upto_def take_map [symmetric] intro: sorted_wrt_take dest: in_set_takeD)

lemma conforms_take: "conforms h L \<Longrightarrow> conforms h (take k L)"
  by (auto simp: conforms_def Let_def min_def)

lemma terms_upto_nth: "terms_upto t L \<Longrightarrow> j < length L \<Longrightarrow> le_term (L ! j) \<le> t"
  by (simp add: terms_upto_def)

lemma terms_upto_nth_mono: "terms_upto t L \<Longrightarrow> i \<le> j \<Longrightarrow> j < length L \<Longrightarrow> le_term (L ! i) \<le> le_term (L ! j)"
  using sorted_nth_mono [of "map le_term L" i j] by (simp add: terms_upto_def)

lemma last_term_nth: "L \<noteq> [] \<Longrightarrow> last_term L = le_term (L ! (length L - 1))"
  by (simp add: last_term_def last_conv_nth)

lemma conforms_last:
  assumes "conforms h L" and "L \<noteq> []"
  shows "length L \<le> length (h (last_term L))" and "L = take (length L) (h (last_term L))"
proof -
  have len: "length L - 1 < length L" "Suc (length L - 1) = length L" using assms(2) by (auto simp: Suc_diff_1 length_greater_0_conv simp del: One_nat_def)
  from conformsD [OF assms(1) len(1)] show "length L \<le> length (h (last_term L))" and "L = take (length L) (h (last_term L))"
    unfolding len(2) last_term_nth [OF assms(2)] by (simp_all add: Suc_le_eq [symmetric] del: One_nat_def) (use len(2) in linarith)
qed

text \<open>Two logs that conform agree up to any entry of the same term and index.\<close>

lemma conforms_agree:
  assumes "conforms h L" and "conforms h M" and "j < length L" and "j < length M" and "le_term (L ! j) = le_term (M ! j)"
  shows "take (Suc j) L = take (Suc j) M"
  using conformsD [OF assms(1,3)] conformsD [OF assms(2,4)] assms(5) by simp

text \<open>The history of a state only grows: a leader stays who it was, and its log is only appended to, with entries of its term.\<close>

definition extends :: "'c araft \<Rightarrow> 'c araft \<Rightarrow> bool" where
  "extends s s' \<longleftrightarrow> ab_acks s \<subseteq> ab_acks s' \<and> (\<forall>t. led s t \<longrightarrow> ab_ldr s' t = ab_ldr s t \<and> ab_quo s' t = ab_quo s t \<and>
     (\<exists>es. ab_hist s' t = ab_hist s t @ es \<and> (\<forall>e\<in>set es. le_term e = t)))"

lemma extendsD:
  assumes "extends s s'" and "led s t"
  obtains es where "ab_ldr s' t = ab_ldr s t" "ab_quo s' t = ab_quo s t" "ab_hist s' t = ab_hist s t @ es" "\<forall>e\<in>set es. le_term e = t"
  using assms unfolding extends_def by blast

lemma extends_same: "ab_hist s' = ab_hist s \<Longrightarrow> ab_ldr s' = ab_ldr s \<Longrightarrow> ab_quo s' = ab_quo s \<Longrightarrow> ab_acks s' = ab_acks s \<Longrightarrow> extends s s'"
  by (simp add: extends_def)

lemma held_extends:
  assumes "extends s s'" and "led s t" and "k \<le> length (ab_hist s t)"
  shows "held s' k t L \<longleftrightarrow> held s k t L"
proof -
  obtain es where "ab_hist s' t = ab_hist s t @ es" using extendsD [OF assms(1,2)] by metis
  then show ?thesis using assms(3) by (simp add: held_def)
qed

lemma held_append: "held s k t L \<Longrightarrow> held s k t (L @ es)"
  by (simp add: held_def)

lemma held_mono: "held s k t L \<Longrightarrow> j \<le> k \<Longrightarrow> held s j t L"
  unfolding held_def by (metis min.absorb1 order_trans take_take)

text \<open>A later leader that has lost entries never gets them back: it only adds entries of its own term.\<close>

lemma lost_extends:
  assumes "extends s s'" and "inv_logs s" and "led s t" and "k \<le> length (ab_hist s t)" and "lost_by s k t u" and "u \<le> u'"
  shows "lost_by s' k t u'"
proof -
  obtain v where v: "t < v" "v \<le> u" "led s v" "\<not> held s k t (ab_hist s v)" using assms(5) by (auto simp: lost_by_def)
  obtain es where es: "ab_ldr s' v = ab_ldr s v" "ab_hist s' v = ab_hist s v @ es" "\<forall>e\<in>set es. le_term e = v"
    using extendsD [OF assms(1) v(3)] by metis
  have "\<not> held s k t (ab_hist s' v)"
  proof
    assume h: "held s k t (ab_hist s' v)"
    with v(4) have k: "length (ab_hist s v) < k" unfolding es held_def by (cases "k \<le> length (ab_hist s v)") auto
    let ?j = "length (ab_hist s v)"
    from h have j: "?j < length (ab_hist s' v)" "take k (ab_hist s' v) = take k (ab_hist s t)" using k by (auto simp: held_def)
    then have "ab_hist s' v ! ?j = ab_hist s t ! ?j" using k by (metis nth_take)
    moreover have "ab_hist s' v ! ?j = es ! 0" "0 < length es" using j(1) unfolding es by (auto simp: nth_append)
    ultimately have "ab_hist s t ! ?j \<in> set es" by (metis nth_mem)
    then have "le_term (ab_hist s t ! ?j) = v" using es(3) by blast
    moreover have "le_term (ab_hist s t ! ?j) \<le> t" using assms(2,4) k by (intro terms_upto_nth) (auto simp: inv_logs_def)
    ultimately show False using v(1) by simp
  qed
  then have "\<not> held s' k t (ab_hist s' v)" using held_extends [OF assms(1,3,4)] by blast
  moreover have "led s' v" using es(1) v(3) by simp
  ultimately show ?thesis using v(1,2) assms(6) unfolding lost_by_def by (meson order_trans)
qed

lemma conforms_led:
  assumes "conforms (ab_hist s) L" and "inv_leaders ns s" and "e \<in> set L"
  shows "led s (le_term e)"
proof
  assume "ab_ldr s (le_term e) = None"
  then have "ab_hist s (le_term e) = []" using assms(2) by (simp add: inv_leaders_def)
  moreover obtain j where "j < length L" "L ! j = e" using assms(3) by (metis in_set_conv_nth)
  ultimately show False using conformsD [OF assms(1), of j] by auto
qed

lemma conforms_extends:
  assumes "extends s s'" and "inv_leaders ns s" and "conforms (ab_hist s) L"
  shows "conforms (ab_hist s') L"
  unfolding conforms_def Let_def
proof (intro allI impI)
  fix j assume j: "j < length L"
  have "led s (le_term (L ! j))" using conforms_led [OF assms(3,2), of "L ! j"] j by simp
  from extendsD [OF assms(1) this] obtain es where "ab_hist s' (le_term (L ! j)) = ab_hist s (le_term (L ! j)) @ es" by metis
  then show "j < length (ab_hist s' (le_term (L ! j))) \<and> take (Suc j) L = take (Suc j) (ab_hist s' (le_term (L ! j)))"
    using conformsD [OF assms(3) j] by simp
qed

lemma acked_extends: "extends s s' \<Longrightarrow> acked s p t m \<Longrightarrow> acked s' p t m"
  unfolding acked_def extends_def by fastforce

lemma chosen_extends:
  assumes "extends s s'" and "chosen ns s t k"
  shows "chosen ns s' t k"
proof -
  have t: "led s t" "0 < k" "k \<le> length (ab_hist s t)" "le_term (ab_hist s t ! (k - 1)) = t"
    and maj: "majority ns {p \<in> set ns. \<exists>m\<ge>k. acked s p t m}" using assms(2) by (auto simp: chosen_def)
  obtain es where es: "ab_ldr s' t = ab_ldr s t" "ab_hist s' t = ab_hist s t @ es" using extendsD [OF assms(1) t(1)] by metis
  have "{p \<in> set ns. \<exists>m\<ge>k. acked s p t m} \<subseteq> {p \<in> set ns. \<exists>m\<ge>k. acked s' p t m}"
    using acked_extends [OF assms(1)] by blast
  then have "card {p \<in> set ns. \<exists>m\<ge>k. acked s p t m} \<le> card {p \<in> set ns. \<exists>m\<ge>k. acked s' p t m}" by (intro card_mono) auto
  then have "majority ns {p \<in> set ns. \<exists>m\<ge>k. acked s' p t m}" using maj by (auto simp: majority_def)
  then show ?thesis using t es by (auto simp: chosen_def nth_append)
qed

lemma commit_ok_extends:
  assumes "extends s s'" and "commit_ok ns s L u c" and "u \<le> u'"
  shows "commit_ok ns s' L u' c"
proof (cases "c = 0")
  case False
  then obtain t k where tk: "t \<le> u" "chosen ns s t k" "c \<le> k" "held s c t L" using assms(2) by (auto simp: commit_ok_def)
  then have "held s' c t L" using held_extends [OF assms(1), of t c L] by (auto simp: chosen_def)
  then show ?thesis using tk assms(3) chosen_extends [OF assms(1) tk(2)] unfolding commit_ok_def by (meson order_trans)
qed (simp add: commit_ok_def)

lemma req_ok_extends:
  assumes "extends s s'" and "req_ok ns s req"
  shows "req_ok ns s' req"
proof -
  let ?t = "ar_term req"
  have led: "led s ?t" using assms(2) by (simp add: req_ok_def)
  obtain m where m: "m \<le> length (ab_hist s ?t)" "ar_prev_log_index req \<le> m" "ar_entries req = drop (ar_prev_log_index req) (take m (ab_hist s ?t))"
      "0 < ar_prev_log_index req \<longrightarrow> ar_prev_log_term req = le_term (ab_hist s ?t ! (ar_prev_log_index req - 1))"
      "commit_ok ns s (take m (ab_hist s ?t)) ?t (ar_leader_commit req)"
    using assms(2) unfolding req_ok_def by (elim conjE exE) (rule that)
  obtain es where es: "ab_ldr s' ?t = ab_ldr s ?t" "ab_hist s' ?t = ab_hist s ?t @ es" using extendsD [OF assms(1) led] by metis
  have tk: "take m (ab_hist s' ?t) = take m (ab_hist s ?t)" using m(1) es(2) by simp
  show ?thesis unfolding req_ok_def
  proof (intro conjI exI [of _ m])
    show "led s' ?t" using led es(1) by simp
    show "m \<le> length (ab_hist s' ?t)" using m(1) es(2) by simp
    show "0 < ar_prev_log_index req \<longrightarrow> ar_prev_log_term req = le_term (ab_hist s' ?t ! (ar_prev_log_index req - 1))"
    proof
      assume pos: "0 < ar_prev_log_index req"
      then have "ar_prev_log_index req - 1 < length (ab_hist s ?t)" using m(1,2) by simp
      then show "ar_prev_log_term req = le_term (ab_hist s' ?t ! (ar_prev_log_index req - 1))"
        using m(4) pos unfolding es(2) by (simp add: nth_append)
    qed
    show "commit_ok ns s' (take m (ab_hist s' ?t)) ?t (ar_leader_commit req)"
      unfolding tk by (rule commit_ok_extends [OF assms(1) m(5) order_refl])
    show "ar_prev_log_index req \<le> m" by (rule m(2))
    show "ar_entries req = drop (ar_prev_log_index req) (take m (ab_hist s' ?t))" unfolding tk by (rule m(3))
  qed
qed

section \<open>What the invariant says\<close>

lemma majorities_share:
  assumes "majority ns A" and "majority ns B"
  obtains x where "x \<in> A" "x \<in> B"
  using majorities_meet [OF List.finite_set, of A ns B] assms by (auto simp: majority_def)

text \<open>Every later leader has what was chosen in a term: by induction on the later term.\<close>

lemma leader_complete:
  assumes inv: "araft_inv ns s" and ch: "chosen ns s t k"
  shows "led s u \<Longrightarrow> t < u \<Longrightarrow> held s k t (ab_hist s u)"
proof (induction u rule: less_induct)
  case (less u)
  then obtain c where c: "ab_ldr s u = Some c" by blast
  have q: "ab_quo s u \<subseteq> ab_voters ns u c s" "majority ns (ab_quo s u)"
    using inv c by (auto simp: araft_inv_def inv_leaders_def)
  have k: "0 < k" "le_term (ab_hist s t ! (k - 1)) = t" "majority ns {p \<in> set ns. \<exists>m\<ge>k. acked s p t m}"
    using ch by (simp_all add: chosen_def)
  obtain p where p: "p \<in> ab_quo s u" "\<exists>m\<ge>k. acked s p t m" using majorities_share [OF q(2) k(3)] by blast
  then obtain m where m: "k \<le> m" "acked s p t m" by blast
  have cast: "ab_cast s p u = Some c" using q(1) p(1) by (auto simp: ab_voters_def)
  have "inv_vote_logs s" using inv by (simp add: araft_inv_def)
  then have "held s k t (if led s u then ab_hist s u else ab_cand s c u) \<or> lost_by s k t (u - 1)"
    using cast p(1) less.prems(2) m k(1,2) unfolding inv_vote_logs_def by blast
  then consider "held s k t (ab_hist s u)" | "lost_by s k t (u - 1)" using less.prems(1) by auto
  then show ?case
  proof cases
    case 2
    then obtain v where v: "t < v" "v \<le> u - 1" "led s v" "\<not> held s k t (ab_hist s v)" by (auto simp: lost_by_def)
    have "v < u" using v(1,2) less.prems(2) by linarith
    with less.IH [OF this v(3,1)] v(4) show ?thesis by blast
  qed
qed

lemma chosen_held:
  assumes "araft_inv ns s" and "chosen ns s t k" and "led s u" and "t \<le> u"
  shows "held s k t (ab_hist s u)"
proof (cases "t = u")
  case True
  then show ?thesis using assms(2) by (simp add: chosen_def held_def)
next
  case False
  then show ?thesis using leader_complete [OF assms(1-3)] assms(4) by simp
qed

text \<open>What two nodes hold as committed agrees.\<close>

lemma commits_agree:
  assumes inv: "araft_inv ns s" and "commit_ok ns s L u c" and "commit_ok ns s L' u' c'"
  shows "take (min c c') L = take (min c c') L'"
proof -
  have le: "take (min c c') L = take (min c c') L'"
    if "t \<le> t'" "chosen ns s t k" "c \<le> k" "held s c t L" "chosen ns s t' k'" "held s c' t' L'" for L L' c c' t t' k k'
  proof -
    have "led s t'" using that(5) by (simp add: chosen_def)
    have "held s k t (ab_hist s t')" by (rule chosen_held [OF inv that(2) \<open>led s t'\<close> that(1)])
    then have "held s c t (ab_hist s t')" using that(3) held_mono by blast
    then have "take c L = take c (ab_hist s t')" using that(4) by (simp add: held_def)
    then have "take (min c c') L = take (min c c') (ab_hist s t')" by (metis take_take min.assoc min.idem min.commute)
    also have "\<dots> = take (min c c') L'" using that(6) unfolding held_def by (metis take_take min.assoc min.idem)
    finally show ?thesis .
  qed
  show ?thesis
  proof (cases "c = 0 \<or> c' = 0")
    case False
    then obtain t k t' k' where "chosen ns s t k" "c \<le> k" "held s c t L" "chosen ns s t' k'" "c' \<le> k'" "held s c' t' L'"
      using assms(2,3) by (auto simp: commit_ok_def)
    then show ?thesis using le [of t t' k c L k' c' L'] le [of t' t k' c' L' k c L] by (cases "t \<le> t'") (auto simp: min.commute)
  qed auto
qed

section \<open>Steps that leave the logs\<close>

text \<open>What a step leaves to prove that changes neither logs nor their history.\<close>

lemma quiet_step:
  assumes inv: "araft_inv ns s"
    and same: "ab_hist s' = ab_hist s" "ab_ldr s' = ab_ldr s" "ab_quo s' = ab_quo s" "ab_acks s' = ab_acks s"
      "ab_reqs s' = ab_reqs s" "ab_log s' = ab_log s"
    and mono: "\<forall>i. ab_term s i \<le> ab_term s' i"
    and new: "inv_votes_terms s'" "inv_leaders ns s'" "inv_vote_logs s'" "inv_commits ns s'"
      "\<forall>c u. terms_upto (u - 1) (ab_cand s' c u) \<and> conforms (ab_hist s) (ab_cand s' c u)"
  shows "araft_inv ns s'"
proof -
  note ext = extends_same [OF same(1-4)]
  have acked: "acked s' p t m = acked s p t m" for p t m by (simp add: acked_def same)
  have "inv_logs s'" using inv new(5) mono same(1,6) terms_upto_mono by (fastforce simp: araft_inv_def inv_logs_def)
  moreover have "\<forall>req\<in>ab_reqs s'. req_ok ns s' req" using inv req_ok_extends [OF ext] by (simp add: araft_inv_def same)
  moreover have "ack_ok s' p t m" if "acked s' p t m" for p t m
  proof -
    have logs: "inv_logs s" and ok: "ack_ok s p t m" using inv that by (simp_all add: araft_inv_def acked)
    then have t: "led s t" "t \<le> ab_term s p" "m \<le> length (ab_hist s t)" by (simp_all add: ack_ok_def)
    have "held s' k t (ab_log s' p) \<or> lost_by s' k t (ab_term s' p)" if "k \<le> m" for k
    proof -
      have k: "k \<le> length (ab_hist s t)" using that t(3) by simp
      have "held s k t (ab_log s p) \<or> lost_by s k t (ab_term s p)" using ok that by (simp add: ack_ok_def)
      then show ?thesis
        using held_extends [OF ext t(1) k] lost_extends [OF ext logs t(1) k _ mono [rule_format, of p]] by (auto simp: same(6))
    qed
    then show ?thesis using t mono by (auto simp: ack_ok_def same intro: order_trans)
  qed
  ultimately show ?thesis using new(1-4) by (simp add: araft_inv_def)
qed

text \<open>Votes and commits that are as they were.\<close>

lemma same_votes:
  assumes "araft_inv ns s" and "ab_hist s' = ab_hist s" and "ab_ldr s' = ab_ldr s" and "ab_quo s' = ab_quo s"
    and "ab_acks s' = ab_acks s" and "ab_cast s' = ab_cast s" and "ab_cand s' = ab_cand s"
  shows "inv_vote_logs s'"
proof -
  have "acked s' = acked s" "held s' = held s" "lost_by s' = lost_by s"
    using assms by (simp_all add: fun_eq_iff acked_def held_def lost_by_def)
  then have "inv_vote_logs s' = inv_vote_logs s" by (simp only: inv_vote_logs_def assms)
  then show ?thesis using assms(1) by (simp add: araft_inv_def)
qed

text \<open>Leaders and candidates that are as they were, but for new candidates.\<close>

lemma same_leaders:
  assumes "inv_leaders ns s" and same: "ab_hist s' = ab_hist s" "ab_ldr s' = ab_ldr s" "ab_quo s' = ab_quo s" "ab_log s' = ab_log s"
    and mono: "\<forall>i. ab_term s i \<le> ab_term s' i" and cast: "\<forall>p u c. ab_cast s p u = Some c \<longrightarrow> ab_cast s' p u = Some c"
    and leader: "\<forall>i. ab_role s' i = Leader \<longrightarrow> ab_role s i = Leader \<and> ab_term s' i = ab_term s i"
    and candidate: "\<forall>i. ab_role s' i = Candidate \<longrightarrow>
      ab_role s i = Candidate \<and> ab_term s' i = ab_term s i \<and> ab_cand s' i (ab_term s i) = ab_cand s i (ab_term s i) \<or>
      ab_term s i < ab_term s' i \<and> ab_cand s' i (ab_term s' i) = ab_log s i"
  shows "inv_leaders ns s'"
proof -
  have old: "ab_role s i = Leader \<Longrightarrow> ab_ldr s (ab_term s i) = Some i \<and> ab_hist s (ab_term s i) = ab_log s i"
    "ab_ldr s t = Some i \<Longrightarrow> i \<in> set ns \<and> t \<le> ab_term s i \<and> (ab_term s i = t \<longrightarrow> ab_role s i \<noteq> Candidate) \<and>
        ab_quo s t \<subseteq> ab_voters ns t i s \<and> majority ns (ab_quo s t)"
    "ab_ldr s t = None \<Longrightarrow> ab_hist s t = []"
    "ab_role s i = Candidate \<Longrightarrow> ab_ldr s (ab_term s i) = None \<Longrightarrow> ab_log s i = ab_cand s i (ab_term s i)" for i t
    using assms(1) by (simp_all add: inv_leaders_def)
  have "ab_ldr s' (ab_term s' i) = Some i \<and> ab_hist s' (ab_term s' i) = ab_log s' i" if "ab_role s' i = Leader" for i
    using leader [rule_format, OF that] old(1) by (simp add: same)
  moreover have "i \<in> set ns \<and> t \<le> ab_term s' i \<and> (ab_term s' i = t \<longrightarrow> ab_role s' i \<noteq> Candidate) \<and>
      ab_quo s' t \<subseteq> ab_voters ns t i s' \<and> majority ns (ab_quo s' t)" if "ab_ldr s' t = Some i" for t i
  proof -
    have t: "ab_ldr s t = Some i" using that by (simp add: same)
    have le: "t \<le> ab_term s i" "ab_term s i \<le> ab_term s' i" using old(2) [OF t] mono by simp_all
    have "ab_role s' i \<noteq> Candidate" if "ab_term s' i = t"
      using candidate [rule_format, of i] old(2) [OF t] that le by auto
    moreover have "ab_voters ns t i s \<subseteq> ab_voters ns t i s'" using cast by (auto simp: ab_voters_def)
    ultimately show ?thesis using old(2) [OF t] le by (auto simp: same)
  qed
  moreover have "ab_hist s' t = []" if "ab_ldr s' t = None" for t using old(3) that by (simp add: same)
  moreover have "ab_log s' i = ab_cand s' i (ab_term s' i)" if "ab_role s' i = Candidate" "ab_ldr s' (ab_term s' i) = None" for i
    using candidate [rule_format, OF that(1)] old(4) [of i] that(2) by (auto simp: same)
  ultimately show ?thesis unfolding inv_leaders_def by blast
qed

lemma same_commits:
  assumes inv: "araft_inv ns s" and same: "ab_hist s' = ab_hist s" "ab_ldr s' = ab_ldr s" "ab_quo s' = ab_quo s" "ab_acks s' = ab_acks s"
      "ab_log s' = ab_log s" and mono: "\<forall>i. ab_term s i \<le> ab_term s' i"
    and commit: "\<forall>i. ab_commit s' i \<in> {0, ab_commit s i}"
    and match: "\<forall>i. ab_role s' i = Leader \<longrightarrow> ab_role s i = Leader \<and> ab_term s' i = ab_term s i \<and> ab_match s' i = ab_match s i"
  shows "inv_commits ns s'"
proof -
  note ext = extends_same [OF same(1-4)]
  have acked: "acked s' p t m = acked s p t m" for p t m by (simp add: acked_def same)
  have "commit_ok ns s' (ab_log s' i) (ab_term s' i) (ab_commit s' i)" for i
  proof -
    have "commit_ok ns s (ab_log s i) (ab_term s i) (ab_commit s i)" using inv by (simp add: araft_inv_def inv_commits_def)
    then have "commit_ok ns s' (ab_log s i) (ab_term s' i) (ab_commit s i)" by (rule commit_ok_extends [OF ext _ mono [rule_format]])
    moreover have "commit_ok ns s' L u 0" for L u by (simp add: commit_ok_def)
    ultimately show ?thesis using commit [rule_format, of i] by (auto simp: same(5))
  qed
  then show ?thesis using inv match by (auto simp: araft_inv_def inv_commits_def acked)
qed

lemma cands_ok: "araft_inv ns s \<Longrightarrow> terms_upto (u - 1) (ab_cand s c u) \<and> conforms (ab_hist s) (ab_cand s c u)"
  by (simp add: araft_inv_def inv_logs_def)

lemma see_inv:
  assumes "araft_inv ns s" and "ab_term s i < t"
  shows "araft_inv ns (ab_see i t s)"
proof (rule quiet_step [OF assms(1)])
  have inv: "inv_votes_terms s" "inv_leaders ns s" using assms(1) by (simp_all add: araft_inv_def)
  show "inv_votes_terms (ab_see i t s)" using inv(1) assms(2) unfolding inv_votes_terms_def ab_see_def by (fastforce intro: order_trans)
  show "inv_leaders ns (ab_see i t s)" by (rule same_leaders [OF inv(2)]) (use assms(2) in \<open>auto simp: ab_see_def\<close>)
  show "inv_vote_logs (ab_see i t s)" by (rule same_votes [OF assms(1)]) (simp_all add: ab_see_def)
  show "inv_commits ns (ab_see i t s)" by (rule same_commits [OF assms(1)]) (use assms(2) in \<open>auto simp: ab_see_def\<close>)
qed (use assms cands_ok in \<open>auto simp: ab_see_def\<close>)

lemma reset_inv:
  assumes "araft_inv ns s"
  shows "araft_inv ns (ab_reset i s)"
proof (rule quiet_step [OF assms(1)])
  have inv: "inv_votes_terms s" "inv_leaders ns s" using assms(1) by (simp_all add: araft_inv_def)
  show "inv_votes_terms (ab_reset i s)" using inv(1) by (simp add: inv_votes_terms_def ab_reset_def)
  show "inv_leaders ns (ab_reset i s)" by (rule same_leaders [OF inv(2)]) (auto simp: ab_reset_def)
  show "inv_vote_logs (ab_reset i s)" by (rule same_votes [OF assms(1)]) (simp_all add: ab_reset_def)
  show "inv_commits ns (ab_reset i s)" by (rule same_commits [OF assms(1)]) (auto simp: ab_reset_def)
qed (use assms cands_ok in \<open>auto simp: ab_reset_def\<close>)

text \<open>Standing for election: the candidate votes for itself with the log that it has.\<close>

lemma stand_inv:
  assumes inv: "araft_inv ns s"
  shows "araft_inv ns (ab_stand i s)"
proof -
  let ?s = "ab_stand i s" and ?u = "Suc (ab_term s i)"
  have parts: "inv_votes_terms s" "inv_leaders ns s" "inv_logs s" using inv by (simp_all add: araft_inv_def)
  have same: "ab_hist ?s = ab_hist s" "ab_ldr ?s = ab_ldr s" "ab_quo ?s = ab_quo s" "ab_acks ?s = ab_acks s"
      "ab_reqs ?s = ab_reqs s" "ab_log ?s = ab_log s" "ab_commit ?s = ab_commit s"
      "ab_term ?s = (ab_term s)(i := ?u)" "ab_cast ?s = (ab_cast s)(i := (ab_cast s i)(?u \<mapsto> i))"
      "ab_cand ?s = (ab_cand s)(i := (ab_cand s i)(?u := ab_log s i))"
      "ab_calls ?s = insert (i, ?u, length (ab_log s i), last_term (ab_log s i)) (ab_calls s)"
      "ab_role ?s = (ab_role s)(i := Candidate)" "ab_match ?s = ab_match s"
    by (simp_all add: ab_stand_def Let_def)
  have eqs: "acked ?s = acked s" "held ?s = held s" "lost_by ?s = lost_by s"
    by (simp_all add: fun_eq_iff acked_def held_def lost_by_def same)
  have cast: "u \<le> ab_term s p \<and> u \<le> ab_term s c" if "ab_cast s p u = Some c" for p u c
    using parts(1) that by (simp add: inv_votes_terms_def)
  have call: "u \<le> ab_term s c \<and> a = length (ab_cand s c u) \<and> b = last_term (ab_cand s c u)" if "(c, u, a, b) \<in> ab_calls s" for c u a b
    using parts(1) that by (simp add: inv_votes_terms_def)
  have uncalled: "(i, ?u, a, b) \<notin> ab_calls s" for a b using call [of i ?u] by fastforce
  have unvoted: "ab_cast s i ?u = None" using cast [of i ?u] by (cases "ab_cast s i ?u") auto
  show ?thesis
  proof (rule quiet_step [OF inv same(1-6)])
    show "\<forall>j. ab_term s j \<le> ab_term ?s j" by (simp add: same)
    show "inv_votes_terms ?s"
      using cast call uncalled unfolding inv_votes_terms_def same by (auto simp: le_Suc_eq)
    show "inv_leaders ns ?s"
      by (rule same_leaders [OF parts(2)]) (use unvoted in \<open>auto simp: same\<close>)
    show "\<forall>c u. terms_upto (u - 1) (ab_cand ?s c u) \<and> conforms (ab_hist s) (ab_cand ?s c u)"
      using parts(3) by (auto simp: same inv_logs_def)
    show "inv_commits ns ?s"
      by (rule same_commits [OF inv]) (auto simp: same)
    show "inv_vote_logs ?s"
      unfolding inv_vote_logs_def eqs same(1-3)
    proof (intro allI impI)
      fix p c u t m k
      assume a: "ab_cast ?s p u = Some c" "led s u \<longrightarrow> p \<in> ab_quo s u" "t < u" "acked s p t m" "0 < k" "k \<le> m" "le_term (ab_hist s t ! (k - 1)) = t"
      show "held s k t (if led s u then ab_hist s u else ab_cand ?s c u) \<or> lost_by s k t (u - 1)"
      proof (cases "p = i \<and> u = ?u")
        case True
        have "\<not> led s u"
        proof
          assume "led s u"
          then obtain c' where "ab_ldr s u = Some c'" by blast
          then have "ab_quo s u \<subseteq> ab_voters ns u c' s" using parts(2) by (simp add: inv_leaders_def)
          with a(2) \<open>led s u\<close> have "ab_cast s i u = Some c'" using True by (auto simp: ab_voters_def)
          then show False using unvoted True by simp
        qed
        moreover have "ab_cand ?s c u = ab_log s i" using a(1) True by (auto simp: ab_stand_def Let_def)
        moreover have "ack_ok s i t m" using inv a(4) True by (simp add: araft_inv_def)
        then have "held s k t (ab_log s i) \<or> lost_by s k t (ab_term s i)" using a(6) by (simp add: ack_ok_def)
        ultimately show ?thesis using True by simp
      next
        case False
        then have c: "ab_cast s p u = Some c" using a(1) by (auto simp: same split: if_splits)
        have "\<not> (c = i \<and> u = ?u)" using cast [OF c] by auto
        then have "ab_cand ?s c u = ab_cand s c u" by (auto simp: same)
        moreover have "inv_vote_logs s" using inv by (simp add: araft_inv_def)
        ultimately show ?thesis using c a unfolding inv_vote_logs_def by presburger
      qed
    qed
  qed
qed

text \<open>
  A vote: a candidate whose log is not behind has what the voter has acknowledged, unless a leader in
  between has lost it.
\<close>

lemma vote_keeps:
  assumes inv: "araft_inv ns s" and C: "conforms (ab_hist s) C" "terms_upto (u - 1) C"
    and ahead: "last_term (ab_log s p) < last_term C \<or> last_term C = last_term (ab_log s p) \<and> length (ab_log s p) \<le> length C"
    and upto: "ab_term s p \<le> u" and unled: "ab_ldr s u = None"
    and a: "acked s p t m" "t < u" "0 < k" "k \<le> m" "le_term (ab_hist s t ! (k - 1)) = t"
  shows "held s k t C \<or> lost_by s k t (u - 1)"
proof -
  let ?L = "ab_log s p"
  have logs: "inv_logs s" and leaders: "inv_leaders ns s" and ok: "ack_ok s p t m" using inv a(1) by (simp_all add: araft_inv_def)
  then have t: "led s t" "m \<le> length (ab_hist s t)" and kept: "held s k t ?L \<or> lost_by s k t (ab_term s p)"
    using a(4) by (simp_all add: ack_ok_def)
  have k: "k \<le> length (ab_hist s t)" using t(2) a(4) by simp
  have L: "conforms (ab_hist s) ?L" "terms_upto (ab_term s p) ?L" using logs by (simp_all add: inv_logs_def)
  have H: "terms_upto t (ab_hist s t)" using logs by (simp add: inv_logs_def)
  from kept show ?thesis
  proof
    assume "lost_by s k t (ab_term s p)"
    then obtain v where v: "t < v" "v \<le> ab_term s p" "led s v" "\<not> held s k t (ab_hist s v)" by (auto simp: lost_by_def)
    have "v \<noteq> u" using v(3) unled by auto
    then have "v \<le> u - 1" using v(2) upto by linarith
    then show ?thesis using v by (auto simp: lost_by_def)
  next
    assume hL: "held s k t ?L"
    then have kL: "k \<le> length ?L" "take k ?L = take k (ab_hist s t)" by (simp_all add: held_def)
    then have "?L \<noteq> []" using a(3) by auto
    have "?L ! (k - 1) = ab_hist s t ! (k - 1)" using kL a(3) by (metis One_nat_def Suc_pred lessI nth_take)
    then have "t = le_term (?L ! (k - 1))" using a(5) by simp
    also have "\<dots> \<le> le_term (?L ! (length ?L - 1))" using kL(1) a(3) by (intro terms_upto_nth_mono [OF L(2)]) auto
    finally have tl: "t \<le> last_term ?L" using last_term_nth [OF \<open>?L \<noteq> []\<close>] by simp
    have "C \<noteq> []"
    proof
      assume "C = []"
      then show False using ahead \<open>?L \<noteq> []\<close> by (auto simp: last_term_def)
    qed
    let ?j = "length C - 1"
    have j: "?j < length C" using \<open>C \<noteq> []\<close> by simp
    have lastC: "last_term C = le_term (C ! ?j)" using last_term_nth [OF \<open>C \<noteq> []\<close>] .
    note C_hist = conforms_last [OF C(1) \<open>C \<noteq> []\<close>]
    show ?thesis
    proof (cases "last_term C = last_term ?L")
      case True
      then have len: "length ?L \<le> length C" using ahead by simp
      have "?L = take (length ?L) (ab_hist s (last_term C))"
        using conforms_last(2) [OF L(1) \<open>?L \<noteq> []\<close>] unfolding True .
      then have "take (length ?L) C = ?L" using C_hist(2) len by (metis min.absorb1 take_take)
      then have "take k C = take k ?L" using kL(1) by (metis min.absorb1 take_take)
      then have "held s k t C" using kL len by (simp add: held_def)
      then show ?thesis ..
    next
      case False
      then have gt: "t < last_term C" using ahead tl by linarith
      have led: "led s (last_term C)" using conforms_led [OF C(1) leaders, of "C ! ?j"] j lastC by simp
      have "last_term C \<le> u - 1" using terms_upto_nth [OF C(2) j] lastC by simp
      show ?thesis
      proof (cases "held s k t (ab_hist s (last_term C))")
        case False
        then show ?thesis using gt led \<open>last_term C \<le> u - 1\<close> unfolding lost_by_def by blast
      next
        case True
        have "k \<le> length C"
        proof (rule ccontr)
          assume "\<not> k \<le> length C"
          then have jk: "?j < k" by simp
          have "C ! ?j = ab_hist s (last_term C) ! ?j" using C_hist(2) j by (metis nth_take)
          also have "\<dots> = ab_hist s t ! ?j" using True jk unfolding held_def by (metis nth_take)
          finally have "last_term C = le_term (ab_hist s t ! ?j)" using lastC by simp
          moreover have "le_term (ab_hist s t ! ?j) \<le> t" using terms_upto_nth [OF H] jk k by simp
          ultimately show False using gt by simp
        qed
        then have "take k C = take k (ab_hist s (last_term C))" using C_hist(2) by (metis min.absorb1 take_take)
        then have "held s k t C" using True \<open>k \<le> length C\<close> by (simp add: held_def)
        then show ?thesis ..
      qed
    qed
  qed
qed

lemma vote_inv:
  assumes inv: "araft_inv ns s" and may: "may_vote p c u a b s"
  shows "araft_inv ns (ab_vote p c u s)"
proof -
  let ?s = "ab_vote p c u s"
  have parts: "inv_votes_terms s" "inv_leaders ns s" "inv_logs s" "inv_vote_logs s" using inv by (simp_all add: araft_inv_def)
  have g: "(c, u, a, b) \<in> ab_calls s" "ab_term s p \<le> u" "ab_cast s p u \<in> {None, Some c}"
    "last_term (ab_log s p) < b \<or> b = last_term (ab_log s p) \<and> length (ab_log s p) \<le> a"
    using may by (simp_all add: may_vote_def)
  have call: "u \<le> ab_term s c" "a = length (ab_cand s c u)" "b = last_term (ab_cand s c u)"
    using parts(1) g(1) by (auto simp: inv_votes_terms_def)
  have same: "ab_hist ?s = ab_hist s" "ab_ldr ?s = ab_ldr s" "ab_quo ?s = ab_quo s" "ab_acks ?s = ab_acks s"
      "ab_reqs ?s = ab_reqs s" "ab_log ?s = ab_log s" "ab_commit ?s = ab_commit s" "ab_calls ?s = ab_calls s"
      "ab_term ?s = (ab_term s)(p := u)" "ab_cast ?s = (ab_cast s)(p := (ab_cast s p)(u \<mapsto> c))"
      "ab_cand ?s = ab_cand s" "ab_role ?s = (ab_role s)(p := if ab_term s p < u then Follower else ab_role s p)" "ab_match ?s = ab_match s"
    by (simp_all add: ab_vote_def)
  have eqs: "acked ?s = acked s" "held ?s = held s" "lost_by ?s = lost_by s"
    by (simp_all add: fun_eq_iff acked_def held_def lost_by_def same)
  have mono: "\<forall>j. ab_term s j \<le> ab_term ?s j" using g(2) by (simp add: same)
  show ?thesis
  proof (rule quiet_step [OF inv same(1-6) mono])
    show "inv_votes_terms ?s"
      unfolding inv_votes_terms_def
    proof (intro conjI allI impI)
      fix p' u' c' assume "ab_cast ?s p' u' = Some c'"
      then have "ab_cast s p' u' = Some c' \<or> p' = p \<and> u' = u \<and> c' = c" by (auto simp: same split: if_splits)
      then have "u' \<le> ab_term s p' \<and> u' \<le> ab_term s c' \<or> p' = p \<and> u' = u \<and> c' = c"
        using parts(1) unfolding inv_votes_terms_def by blast
      then show "u' \<le> ab_term ?s p'" "u' \<le> ab_term ?s c'"
        using mono [rule_format, of p'] mono [rule_format, of c'] call(1) by (auto simp: same)
    next
      fix c' u' a' b' assume "(c', u', a', b') \<in> ab_calls ?s"
      then have "u' \<le> ab_term s c' \<and> a' = length (ab_cand s c' u') \<and> b' = last_term (ab_cand s c' u')"
        using parts(1) unfolding inv_votes_terms_def same by blast
      then show "u' \<le> ab_term ?s c'" "a' = length (ab_cand ?s c' u')" "b' = last_term (ab_cand ?s c' u')"
        using mono [rule_format, of c'] by (simp_all add: same(11))
    qed
    show "inv_leaders ns ?s"
      by (rule same_leaders [OF parts(2)]) (use g(2,3) in \<open>auto simp: same split: if_splits\<close>)
    show "inv_commits ns ?s"
      by (rule same_commits [OF inv]) (use g(2) in \<open>auto simp: same split: if_splits\<close>)
    show "\<forall>c u. terms_upto (u - 1) (ab_cand ?s c u) \<and> conforms (ab_hist s) (ab_cand ?s c u)" using parts(3) by (simp add: same inv_logs_def)
    show "inv_vote_logs ?s"
      unfolding inv_vote_logs_def eqs same(1-3) same(11)
    proof (intro allI impI)
      fix p' c' u' t m k
      assume x: "ab_cast ?s p' u' = Some c'" "led s u' \<longrightarrow> p' \<in> ab_quo s u'" "t < u'" "acked s p' t m" "0 < k" "k \<le> m" "le_term (ab_hist s t ! (k - 1)) = t"
      show "held s k t (if led s u' then ab_hist s u' else ab_cand s c' u') \<or> lost_by s k t (u' - 1)"
      proof (cases "ab_cast s p' u' = Some c'")
        case True
        then show ?thesis using parts(4) x unfolding inv_vote_logs_def by presburger
      next
        case False
        then have new: "p' = p" "u' = u" "c' = c" using x(1) by (auto simp: same split: if_splits)
        have unled: "ab_ldr s u = None"
        proof (rule ccontr)
          assume "led s u"
          then obtain d where d: "ab_ldr s u = Some d" by blast
          then have "ab_quo s u \<subseteq> ab_voters ns u d s" using parts(2) by (simp add: inv_leaders_def)
          with x(2) new d have "ab_cast s p u = Some d" by (auto simp: ab_voters_def)
          then show False using False g(3) new by auto
        qed
        have C: "conforms (ab_hist s) (ab_cand s c u)" "terms_upto (u - 1) (ab_cand s c u)" using parts(3) by (simp_all add: inv_logs_def)
        show ?thesis
          using vote_keeps [OF inv C g(4) [unfolded call(2,3)] g(2) unled] x new unled by simp
      qed
    qed
  qed
qed

text \<open>Acknowledgements that the leader takes in, and its decision that an entry is committed.\<close>

lemma ack_inv:
  assumes inv: "araft_inv ns s" and i: "(p, ab_term s i, m) \<in> ab_acks s"
  shows "araft_inv ns (ab_ack i p m s)"
proof -
  let ?s = "ab_ack i p m s"
  have same: "ab_hist ?s = ab_hist s" "ab_ldr ?s = ab_ldr s" "ab_quo ?s = ab_quo s" "ab_acks ?s = ab_acks s"
      "ab_reqs ?s = ab_reqs s" "ab_log ?s = ab_log s" "ab_commit ?s = ab_commit s" "ab_calls ?s = ab_calls s"
      "ab_term ?s = ab_term s" "ab_cast ?s = ab_cast s" "ab_cand ?s = ab_cand s" "ab_role ?s = ab_role s"
      "ab_match ?s = (ab_match s)(i := (ab_match s i)(p := m))"
    by (simp_all add: ab_ack_def)
  have eqs: "acked ?s = acked s" "held ?s = held s" by (simp_all add: fun_eq_iff acked_def held_def same)
  have ch: "chosen ns ?s = chosen ns s" by (simp add: fun_eq_iff chosen_def eqs same)
  have parts: "inv_votes_terms s" "inv_leaders ns s" "inv_commits ns s" using inv by (simp_all add: araft_inv_def)
  show ?thesis
  proof (rule quiet_step [OF inv same(1-6)])
    show "inv_votes_terms ?s" using parts(1) by (simp add: inv_votes_terms_def same)
    show "inv_leaders ns ?s" by (rule same_leaders [OF parts(2)]) (simp_all add: same)
    show "inv_vote_logs ?s" by (rule same_votes [OF inv]) (simp_all add: same)
    have "acked s p (ab_term s i) m" using i by (simp add: acked_def)
    then show "inv_commits ns ?s" using parts(3) by (auto simp: inv_commits_def commit_ok_def ch eqs same)
  qed (use cands_ok [OF inv] in \<open>simp_all add: same\<close>)
qed

lemma decide_inv:
  assumes inv: "araft_inv ns s" and may: "may_decide ns i k s"
  shows "araft_inv ns (ab_decide i k s)"
proof -
  let ?s = "ab_decide i k s"
  have same: "ab_hist ?s = ab_hist s" "ab_ldr ?s = ab_ldr s" "ab_quo ?s = ab_quo s" "ab_acks ?s = ab_acks s"
      "ab_reqs ?s = ab_reqs s" "ab_log ?s = ab_log s" "ab_commit ?s = (ab_commit s)(i := k)" "ab_calls ?s = ab_calls s"
      "ab_term ?s = ab_term s" "ab_cast ?s = ab_cast s" "ab_cand ?s = ab_cand s" "ab_role ?s = ab_role s" "ab_match ?s = ab_match s"
    by (simp_all add: ab_decide_def)
  have eqs: "acked ?s = acked s" "held ?s = held s" by (simp_all add: fun_eq_iff acked_def held_def same)
  have ch: "chosen ns ?s = chosen ns s" by (simp add: fun_eq_iff chosen_def eqs same)
  have parts: "inv_votes_terms s" "inv_leaders ns s" "inv_commits ns s" using inv by (simp_all add: araft_inv_def)
  let ?t = "ab_term s i"
  have g: "ab_role s i = Leader" "0 < k" "k \<le> length (ab_log s i)" "le_term (ab_log s i ! (k - 1)) = ?t"
    "majority ns {p \<in> set ns. p = i \<or> k \<le> ab_match s i p}" using may by (simp_all add: may_decide_def)
  have led: "ab_ldr s ?t = Some i" "ab_hist s ?t = ab_log s i" using parts(2) g(1) by (simp_all add: inv_leaders_def)
  have "\<exists>m\<ge>k. acked s p ?t m" if "p = i \<or> k \<le> ab_match s i p" for p
  proof (cases "p = i")
    case True
    then show ?thesis using led g(3) by (auto simp: acked_def)
  next
    case False
    then have "acked s p ?t (ab_match s i p)" using that parts(3) g(1,2) by (auto simp: inv_commits_def)
    then show ?thesis using that False by blast
  qed
  then have "{p \<in> set ns. p = i \<or> k \<le> ab_match s i p} \<subseteq> {p \<in> set ns. \<exists>m\<ge>k. acked s p ?t m}" by blast
  then have "card {p \<in> set ns. p = i \<or> k \<le> ab_match s i p} \<le> card {p \<in> set ns. \<exists>m\<ge>k. acked s p ?t m}" by (intro card_mono) auto
  then have "majority ns {p \<in> set ns. \<exists>m\<ge>k. acked s p ?t m}" using g(5) by (auto simp: majority_def)
  then have "chosen ns s ?t k" using g led by (simp add: chosen_def)
  moreover have "held s k ?t (ab_log s i)" using g(3) led(2) by (simp add: held_def)
  ultimately have new: "commit_ok ns s (ab_log s i) ?t k" unfolding commit_ok_def by blast
  show ?thesis
  proof (rule quiet_step [OF inv same(1-6)])
    show "inv_votes_terms ?s" using parts(1) by (simp add: inv_votes_terms_def same)
    show "inv_leaders ns ?s" by (rule same_leaders [OF parts(2)]) (simp_all add: same)
    show "inv_vote_logs ?s" by (rule same_votes [OF inv]) (simp_all add: same)
    show "inv_commits ns ?s" using parts(3) new by (auto simp: inv_commits_def commit_ok_def ch eqs same)
  qed (use cands_ok [OF inv] in \<open>simp_all add: same\<close>)
qed

section \<open>Steps that change the logs\<close>

lemma ack_ok_extends:
  assumes ext: "extends s s'" and logs: "inv_logs s" and ok: "ack_ok s p t m" and mono: "ab_term s p \<le> ab_term s' p"
    and keeps: "\<And>k. k \<le> m \<Longrightarrow> held s k t (ab_log s p) \<Longrightarrow> held s k t (ab_log s' p) \<or> lost_by s k t (ab_term s' p)"
  shows "ack_ok s' p t m"
proof -
  have t: "led s t" "t \<le> ab_term s p" "m \<le> length (ab_hist s t)" using ok by (simp_all add: ack_ok_def)
  obtain es where es: "ab_ldr s' t = ab_ldr s t" "ab_hist s' t = ab_hist s t @ es" using extendsD [OF ext t(1)] by metis
  have "held s' k t (ab_log s' p) \<or> lost_by s' k t (ab_term s' p)" if "k \<le> m" for k
  proof -
    have k: "k \<le> length (ab_hist s t)" using that t(3) by simp
    have "held s k t (ab_log s p) \<or> lost_by s k t (ab_term s p)" using ok that by (simp add: ack_ok_def)
    then have "held s k t (ab_log s' p) \<or> lost_by s k t (ab_term s' p)"
      using keeps [OF that] mono unfolding lost_by_def by (meson order_trans)
    then show ?thesis using held_extends [OF ext t(1) k] lost_extends [OF ext logs t(1) k _ order_refl] by blast
  qed
  then show ?thesis using t es mono by (simp add: ack_ok_def)
qed

lemma acked_ok: "araft_inv ns s \<Longrightarrow> acked s p t m \<Longrightarrow> ack_ok s p t m"
  by (simp add: araft_inv_def)

lemma cast_upto: "araft_inv ns s \<Longrightarrow> ab_cast s p u = Some c \<Longrightarrow> u \<le> ab_term s p"
  by (simp add: araft_inv_def inv_votes_terms_def)

text \<open>The obligations of the votes, when the history has grown: those of old acknowledgements are old.\<close>

lemma vote_logs_extends:
  assumes inv: "araft_inv ns s" and ext: "extends s s'" and cast: "ab_cast s' = ab_cast s"
    and acks: "\<And>p t m. acked s' p t m \<Longrightarrow> acked s p t m \<or> ab_term s p \<le> t"
    and log: "\<And>p c u t k. ab_cast s p u = Some c \<Longrightarrow> (led s' u \<longrightarrow> p \<in> ab_quo s' u) \<Longrightarrow> led s t \<Longrightarrow>
      (led s u \<longrightarrow> p \<in> ab_quo s u) \<and> (held s k t (if led s u then ab_hist s u else ab_cand s c u) \<longrightarrow>
        held s k t (if led s' u then ab_hist s' u else ab_cand s' c u))"
  shows "inv_vote_logs s'"
  unfolding inv_vote_logs_def
proof (intro allI impI)
  fix p c u t m k
  assume a: "ab_cast s' p u = Some c" "led s' u \<longrightarrow> p \<in> ab_quo s' u" "t < u" "acked s' p t m" "0 < k" "k \<le> m"
    "le_term (ab_hist s' t ! (k - 1)) = t"
  have c: "ab_cast s p u = Some c" using a(1) cast by simp
  have "u \<le> ab_term s p" by (rule cast_upto [OF inv c])
  then have ack: "acked s p t m" using acks [OF a(4)] a(3) by auto
  then have t: "led s t" "m \<le> length (ab_hist s t)" using acked_ok [OF inv] by (simp_all add: ack_ok_def)
  then have k: "k \<le> length (ab_hist s t)" using a(6) by simp
  obtain es where "ab_hist s' t = ab_hist s t @ es" using extendsD [OF ext t(1)] by metis
  moreover have "k - 1 < length (ab_hist s t)" using a(5) k by linarith
  ultimately have "le_term (ab_hist s t ! (k - 1)) = t" using a(7) by (simp add: nth_append)
  moreover have "inv_vote_logs s" "inv_logs s" using inv by (simp_all add: araft_inv_def)
  moreover note l = log [OF c a(2) t(1), of k]
  ultimately have "held s k t (if led s u then ab_hist s u else ab_cand s c u) \<or> lost_by s k t (u - 1)"
    using c a(3,5,6) ack unfolding inv_vote_logs_def by blast
  then have "held s k t (if led s' u then ab_hist s' u else ab_cand s' c u) \<or> lost_by s k t (u - 1)" using l by blast
  then show "held s' k t (if led s' u then ab_hist s' u else ab_cand s' c u) \<or> lost_by s' k t (u - 1)"
    using held_extends [OF ext t(1) k] lost_extends [OF ext \<open>inv_logs s\<close> t(1) k _ order_refl] by blast
qed

text \<open>Winning an election: nobody has led the term, for a majority is for this candidate.\<close>

lemma win_unled:
  assumes inv: "araft_inv ns s" and role: "ab_role s i = Candidate" and maj: "majority ns (ab_voters ns (ab_term s i) i s)"
  shows "ab_ldr s (ab_term s i) = None"
proof (rule ccontr)
  let ?u = "ab_term s i"
  assume "led s ?u"
  then obtain d where d: "ab_ldr s ?u = Some d" by blast
  have leaders: "inv_leaders ns s" using inv by (simp add: araft_inv_def)
  then have q: "ab_quo s ?u \<subseteq> ab_voters ns ?u d s" "majority ns (ab_quo s ?u)" "ab_term s d = ?u \<longrightarrow> ab_role s d \<noteq> Candidate"
    using d by (auto simp: inv_leaders_def)
  obtain x where "x \<in> ab_quo s ?u" "x \<in> ab_voters ns ?u i s" using majorities_share [OF q(2) maj] by blast
  then have "d = i" using q(1) by (auto simp: ab_voters_def)
  then show False using q(3) role by simp
qed

lemma win_inv:
  assumes inv: "araft_inv ns s" and i: "i \<in> set ns" and role: "ab_role s i = Candidate"
    and maj: "majority ns (ab_voters ns (ab_term s i) i s)"
  shows "araft_inv ns (ab_win ns i s)"
proof -
  let ?s = "ab_win ns i s" and ?u = "ab_term s i"
  have same: "ab_acks ?s = ab_acks s" "ab_reqs ?s = ab_reqs s" "ab_log ?s = ab_log s" "ab_commit ?s = ab_commit s" "ab_calls ?s = ab_calls s"
      "ab_term ?s = ab_term s" "ab_cast ?s = ab_cast s" "ab_cand ?s = ab_cand s" "ab_role ?s = (ab_role s)(i := Leader)"
      "ab_match ?s = (ab_match s)(i := (\<lambda>_. 0))" "ab_hist ?s = (ab_hist s)(?u := ab_log s i)" "ab_ldr ?s = (ab_ldr s)(?u \<mapsto> i)"
      "ab_quo ?s = (ab_quo s)(?u := ab_voters ns ?u i s)"
    by (simp_all add: ab_win_def Let_def)
  have parts: "inv_votes_terms s" "inv_leaders ns s" "inv_logs s" "inv_vote_logs s" "inv_commits ns s" using inv by (simp_all add: araft_inv_def)
  note unled = win_unled [OF inv role maj]
  have cand: "ab_cand s i ?u = ab_log s i" using parts(2) role unled by (simp add: inv_leaders_def)
  have ext: "extends s ?s" using unled by (auto simp: extends_def same)
  have voters: "ab_voters ns t j ?s = ab_voters ns t j s" for t j by (simp add: ab_voters_def same)
  have acked: "acked s p t m \<or> t = ?u \<and> p = i \<and> m \<le> length (ab_log s i)" if "acked ?s p t m" for p t m
    using that by (auto simp: acked_def same split: if_splits)
  have unacked: "\<not> acked s p ?u m" for p m
    using acked_ok [OF inv, of p ?u m] unled by (auto simp: ack_ok_def)
  have "inv_votes_terms ?s" using parts(1) by (simp add: inv_votes_terms_def same)
  moreover have "inv_leaders ns ?s"
  proof -
    have "ab_term s j \<noteq> ?u" if "j \<noteq> i" "ab_role s j = Leader" for j using parts(2) that unled by (auto simp: inv_leaders_def)
    then show ?thesis
      using parts(2) i maj unfolding inv_leaders_def voters by (auto simp: same split: if_splits)
  qed
  moreover have "inv_logs ?s"
    using parts(3) conforms_extends [OF ext parts(2)] unfolding inv_logs_def by (simp add: same(3,6,8)) (simp add: same)
  moreover have "\<forall>req\<in>ab_reqs ?s. req_ok ns ?s req" using inv req_ok_extends [OF ext] by (simp add: araft_inv_def same)
  moreover have "ack_ok ?s p t m" if a: "acked ?s p t m" for p t m
  proof (cases "acked s p t m")
    case True
    then show ?thesis by (intro ack_ok_extends [OF ext parts(3) acked_ok [OF inv]]) (simp_all add: same)
  next
    case False
    then have new: "t = ?u" "p = i" "m \<le> length (ab_log s i)" using acked [OF a] by simp_all
    then show ?thesis by (simp add: ack_ok_def held_def same)
  qed
  moreover have "inv_vote_logs ?s"
  proof (rule vote_logs_extends [OF inv ext])
    show "acked s p t m \<or> ab_term s p \<le> t" if "acked ?s p t m" for p t m using acked [OF that] by auto
    show "(led s u \<longrightarrow> p \<in> ab_quo s u) \<and> (held s k t (if led s u then ab_hist s u else ab_cand s c u) \<longrightarrow>
        held s k t (if led ?s u then ab_hist ?s u else ab_cand ?s c u))"
      if "ab_cast s p u = Some c" "led ?s u \<longrightarrow> p \<in> ab_quo ?s u" for p c u t k
    proof (cases "u = ?u")
      case True
      then have "c = i" using that by (simp add: same ab_voters_def)
      then show ?thesis using True unled cand by (simp add: same)
    next
      case False
      then show ?thesis using that by (simp add: same)
    qed
  qed (simp add: same)
  moreover have "inv_commits ns ?s"
    unfolding inv_commits_def
  proof (intro conjI allI impI)
    fix j
    have "commit_ok ns s (ab_log s j) (ab_term s j) (ab_commit s j)" using parts(5) by (simp add: inv_commits_def)
    then show "commit_ok ns ?s (ab_log ?s j) (ab_term ?s j) (ab_commit ?s j)"
      using commit_ok_extends [OF ext _ order_refl] by (simp add: same)
  next
    fix j p assume "ab_role ?s j = Leader" "0 < ab_match ?s j p"
    then have "ab_role s j = Leader" "0 < ab_match s j p" "j \<noteq> i" by (auto simp: same split: if_splits)
    then have "acked s p (ab_term s j) (ab_match s j p)" using parts(5) by (simp add: inv_commits_def)
    then show "acked ?s p (ab_term ?s j) (ab_match ?s j p)" using acked_extends [OF ext] \<open>j \<noteq> i\<close> by (simp add: same)
  qed
  ultimately show ?thesis by (simp add: araft_inv_def)
qed

text \<open>A new entry of a leader.\<close>

lemma conforms_snoc:
  assumes "conforms h L" and "h (le_term e) = L @ [e]"
  shows "conforms h (L @ [e])"
  unfolding conforms_def Let_def
proof (intro allI impI)
  fix j assume "j < length (L @ [e])"
  then consider "j < length L" | "j = length L" by fastforce
  then show "j < length (h (le_term ((L @ [e]) ! j))) \<and> take (Suc j) (L @ [e]) = take (Suc j) (h (le_term ((L @ [e]) ! j)))"
    using conformsD [OF assms(1), of j] assms(2) by cases (auto simp: nth_append)
qed

lemma terms_upto_snoc: "terms_upto u L \<Longrightarrow> le_term e = u \<Longrightarrow> terms_upto u (L @ [e])"
  by (auto simp: terms_upto_def sorted_append)

lemma commit_ok_append: "commit_ok ns s L u c \<Longrightarrow> commit_ok ns s (L @ es) u c"
  unfolding commit_ok_def using held_append by blast

lemma submit_inv:
  assumes inv: "araft_inv ns s" and role: "ab_role s i = Leader" and e: "le_term e = ab_term s i"
  shows "araft_inv ns (ab_submit i e s)"
proof -
  let ?s = "ab_submit i e s" and ?u = "ab_term s i" and ?L = "ab_log s i @ [e]"
  have same: "ab_acks ?s = ab_acks s" "ab_reqs ?s = ab_reqs s" "ab_commit ?s = ab_commit s" "ab_calls ?s = ab_calls s"
      "ab_term ?s = ab_term s" "ab_cast ?s = ab_cast s" "ab_cand ?s = ab_cand s" "ab_role ?s = ab_role s" "ab_match ?s = ab_match s"
      "ab_ldr ?s = ab_ldr s" "ab_quo ?s = ab_quo s" "ab_log ?s = (ab_log s)(i := ?L)" "ab_hist ?s = (ab_hist s)(?u := ?L)"
    by (simp_all add: ab_submit_def)
  have parts: "inv_votes_terms s" "inv_leaders ns s" "inv_logs s" "inv_vote_logs s" "inv_commits ns s" using inv by (simp_all add: araft_inv_def)
  have lead: "ab_ldr s ?u = Some i" "ab_hist s ?u = ab_log s i" using parts(2) role by (simp_all add: inv_leaders_def)
  have ext: "extends s ?s" using lead e by (auto simp: extends_def same)
  have acked: "acked s p t m \<or> t = ?u \<and> p = i \<and> m \<le> length ?L" if "acked ?s p t m" for p t m
    using that lead by (auto simp: acked_def same split: if_splits)
  have conf: "conforms (ab_hist ?s) M" if "conforms (ab_hist s) M" for M by (rule conforms_extends [OF ext parts(2) that])
  have new: "conforms (ab_hist ?s) ?L" "terms_upto ?u ?L"
  proof -
    show "conforms (ab_hist ?s) ?L" using parts(3) e by (intro conforms_snoc conf) (simp_all add: inv_logs_def same)
    show "terms_upto ?u ?L" using parts(3) e by (intro terms_upto_snoc) (simp_all add: inv_logs_def)
  qed
  have "inv_votes_terms ?s" using parts(1) by (simp add: inv_votes_terms_def same)
  moreover have "inv_leaders ns ?s"
  proof -
    have "ab_term s j \<noteq> ?u" if "j \<noteq> i" "ab_role s j = Leader" for j using parts(2) that lead(1) by (auto simp: inv_leaders_def)
    moreover have "ab_voters ns t j ?s = ab_voters ns t j s" for t j by (simp add: ab_voters_def same)
    ultimately show ?thesis using parts(2) role lead unfolding inv_leaders_def by (auto simp: same)
  qed
  moreover have "inv_logs ?s" using parts(3) conf new unfolding inv_logs_def by (simp add: same(5,7,12)) (simp add: same)
  moreover have "\<forall>req\<in>ab_reqs ?s. req_ok ns ?s req" using inv req_ok_extends [OF ext] by (simp add: araft_inv_def same)
  moreover have "ack_ok ?s p t m" if a: "acked ?s p t m" for p t m
  proof (cases "acked s p t m")
    case True
    then show ?thesis by (intro ack_ok_extends [OF ext parts(3) acked_ok [OF inv]]) (auto simp: same held_append)
  next
    case False
    then have new: "t = ?u" "p = i" "m \<le> length ?L" using acked [OF a] by simp_all
    then show ?thesis using lead by (simp add: ack_ok_def held_def same)
  qed
  moreover have "inv_vote_logs ?s"
  proof (rule vote_logs_extends [OF inv ext])
    show "acked s p t m \<or> ab_term s p \<le> t" if "acked ?s p t m" for p t m using acked [OF that] by auto
    show "(led s u \<longrightarrow> p \<in> ab_quo s u) \<and> (held s k t (if led s u then ab_hist s u else ab_cand s c u) \<longrightarrow>
        held s k t (if led ?s u then ab_hist ?s u else ab_cand ?s c u))"
      if "led ?s u \<longrightarrow> p \<in> ab_quo ?s u" for p c u t k
      using that lead by (auto simp: same held_append)
  qed (simp add: same)
  moreover have "inv_commits ns ?s"
    unfolding inv_commits_def
  proof (intro conjI allI impI)
    fix j
    have "commit_ok ns s (ab_log s j) (ab_term s j) (ab_commit s j)" using parts(5) by (simp add: inv_commits_def)
    then have "commit_ok ns ?s (ab_log s j) (ab_term s j) (ab_commit s j)" by (rule commit_ok_extends [OF ext _ order_refl])
    then show "commit_ok ns ?s (ab_log ?s j) (ab_term ?s j) (ab_commit ?s j)" using commit_ok_append by (auto simp: same)
  next
    fix j p assume "ab_role ?s j = Leader" "0 < ab_match ?s j p"
    then have "acked s p (ab_term s j) (ab_match s j p)" using parts(5) by (simp add: inv_commits_def same)
    then show "acked ?s p (ab_term ?s j) (ab_match ?s j p)" using acked_extends [OF ext] by (simp add: same)
  qed
  ultimately show ?thesis by (simp add: araft_inv_def)
qed

text \<open>A request of a leader.\<close>

lemma send_inv:
  assumes inv: "araft_inv ns s" and may: "may_send i req s"
  shows "araft_inv ns (ab_send req s)"
proof -
  let ?s = "ab_send req s"
  have same: "ab_hist ?s = ab_hist s" "ab_ldr ?s = ab_ldr s" "ab_quo ?s = ab_quo s" "ab_acks ?s = ab_acks s" "ab_log ?s = ab_log s"
      "ab_commit ?s = ab_commit s" "ab_calls ?s = ab_calls s" "ab_term ?s = ab_term s" "ab_cast ?s = ab_cast s" "ab_cand ?s = ab_cand s"
      "ab_role ?s = ab_role s" "ab_match ?s = ab_match s" "ab_reqs ?s = insert req (ab_reqs s)"
    by (simp_all add: ab_send_def)
  have eqs: "acked ?s = acked s" "held ?s = held s" "lost_by ?s = lost_by s"
    by (simp_all add: fun_eq_iff acked_def held_def lost_by_def same)
  have ch: "chosen ns ?s = chosen ns s" by (simp add: fun_eq_iff chosen_def eqs same)
  have co: "commit_ok ns ?s = commit_ok ns s" by (simp add: fun_eq_iff commit_ok_def eqs ch)
  have voters: "ab_voters ns t i ?s = ab_voters ns t i s" for t i by (simp add: ab_voters_def same)
  have parts: "inv_votes_terms s" "inv_leaders ns s" "inv_logs s" "inv_vote_logs s" "inv_commits ns s" using inv by (simp_all add: araft_inv_def)
  have "inv_votes_terms ?s" using parts(1) by (simp add: inv_votes_terms_def same)
  moreover have "inv_leaders ns ?s" using parts(2) by (simp only: inv_leaders_def same voters)
  moreover have "inv_logs ?s" using parts(3) by (simp add: inv_logs_def same)
  moreover have "inv_vote_logs ?s" using parts(4) by (simp only: inv_vote_logs_def same eqs)
  moreover have "inv_commits ns ?s" using parts(5) by (simp add: inv_commits_def same eqs co)
  moreover have "\<forall>p t m. acked ?s p t m \<longrightarrow> ack_ok ?s p t m" using inv by (simp add: araft_inv_def ack_ok_def same eqs)
  moreover have "req_ok ns ?s r" if "r \<in> ab_reqs s" for r
    using inv that req_ok_extends [OF extends_same [OF same(1-4)]] by (simp add: araft_inv_def)
  moreover have "req_ok ns ?s req"
  proof -
    have g: "ab_role s i = Leader" "ar_term req = ab_term s i" "ar_prev_log_index req \<le> length (ab_log s i)"
      "0 < ar_prev_log_index req \<longrightarrow> ar_prev_log_term req = le_term (ab_log s i ! (ar_prev_log_index req - 1))"
      "ar_entries req = drop (ar_prev_log_index req) (ab_log s i)" "ar_leader_commit req = ab_commit s i"
      using may by (simp_all add: may_send_def)
    have lead: "ab_ldr s (ar_term req) = Some i" "ab_hist s (ar_term req) = ab_log s i"
      using parts(2) g(1,2) by (simp_all add: inv_leaders_def)
    have "commit_ok ns s (ab_log s i) (ar_term req) (ar_leader_commit req)" using parts(5) g(2,6) by (simp add: inv_commits_def)
    then show ?thesis
      unfolding req_ok_def same co lead using g(3-5) by (intro conjI exI [of _ "length (ab_log s i)"]) simp_all
  qed
  ultimately show ?thesis by (simp add: araft_inv_def same)
qed

text \<open>
  The receiver's rule on logs that conform: if the log has what the request stands for, it is kept,
  and otherwise it becomes what the request stands for.
\<close>

lemma reconcile_conforms:
  assumes L: "conforms h L" and H: "conforms h H" and prev: "prev \<le> length L" "prev \<le> length H"
    and match: "0 < prev \<Longrightarrow> le_term (L ! (prev - 1)) = le_term (H ! (prev - 1))"
  shows "reconcile L prev (drop prev H) = (if take (length H) L = H then L else H)"
proof -
  have agree: "take (Suc j) L = take (Suc j) H" if "j < length L" "j < length H" "le_term (L ! j) = le_term (H ! j)" for j
    by (rule conforms_agree [OF L H that])
  have start: "take prev L = take prev H"
    using agree [of "prev - 1"] match prev by (cases "prev = 0") auto
  have same: "take (prev + k) L = take (prev + k) H" if "prev + k \<le> length L" "prev + k \<le> length H"
      "\<forall>i<k. \<not> conflict_at L prev (drop prev H) i" for k
  proof (cases k)
    case 0
    then show ?thesis using start by simp
  next
    case (Suc i)
    then have "\<not> conflict_at L prev (drop prev H) i" "prev + i < length L" "prev + i < length H" using that by auto
    then have "le_term (L ! (prev + i)) = le_term (H ! (prev + i))" by (simp add: conflict_at_def less_diff_conv add.commute)
    then show ?thesis using agree [of "prev + i"] \<open>prev + i < length L\<close> \<open>prev + i < length H\<close> Suc by simp
  qed
  show ?thesis
  proof (cases "first_conflict L prev (drop prev H)")
    case (Some k)
    then have k: "conflict_at L prev (drop prev H) k" "\<forall>i<k. \<not> conflict_at L prev (drop prev H) i"
      by (auto simp: first_conflict_def find_Some_iff)
    then have len: "prev + k < length L" "prev + k < length H" "le_term (L ! (prev + k)) \<noteq> le_term (H ! (prev + k))"
      using prev by (auto simp: conflict_at_def)
    have "take (prev + k) L = take (prev + k) H" using same [OF _ _ k(2)] len by simp
    then have "reconcile L prev (drop prev H) = H" using Some by (simp add: reconcile_def add.commute)
    moreover have "take (length H) L \<noteq> H" using len(2,3) by (metis nth_take)
    ultimately show ?thesis by simp
  next
    case None
    then have none: "\<not> conflict_at L prev (drop prev H) i" for i
      by (auto simp: first_conflict_def find_None_iff conflict_at_def)
    have r: "reconcile L prev (drop prev H) = L @ drop (length L) H" using None prev(1) by (simp add: reconcile_def)
    show ?thesis
    proof (cases "length H \<le> length L")
      case True
      then have "take (length H) L = H" using same [of "length H - prev"] none prev by simp
      then show ?thesis using r True by simp
    next
      case False
      then have "L = take (length L) H" using same [of "length L - prev"] none prev by simp
      then have "L @ drop (length L) H = H" by (metis append_take_drop_id)
      moreover have "take (length H) L \<noteq> H" using False by auto
      ultimately show ?thesis using r by simp
    qed
  qed
qed

lemma accept_inv:
  assumes inv: "araft_inv ns s" and p: "p \<in> set ns" and req: "req \<in> ab_reqs s" and upto: "ab_term s p \<le> ar_term req"
    and matches: "req_matches (ab_log s p) req"
  shows "araft_inv ns (ab_accept p req s)"
proof -
  let ?T = "ar_term req" and ?prev = "ar_prev_log_index req" and ?L = "ab_log s p"
  let ?s = "ab_accept p req s"
  have parts: "inv_votes_terms s" "inv_leaders ns s" "inv_logs s" "inv_vote_logs s" "inv_commits ns s" using inv by (simp_all add: araft_inv_def)
  have "req_ok ns s req" using inv req by (simp add: araft_inv_def)
  then have led: "led s ?T" by (simp add: req_ok_def)
  from \<open>req_ok ns s req\<close> obtain m where m: "m \<le> length (ab_hist s ?T)" "?prev \<le> m" "ar_entries req = drop ?prev (take m (ab_hist s ?T))"
      "0 < ?prev \<longrightarrow> ar_prev_log_term req = le_term (ab_hist s ?T ! (?prev - 1))"
      "commit_ok ns s (take m (ab_hist s ?T)) ?T (ar_leader_commit req)"
    unfolding req_ok_def by (elim conjE exE) (rule that)
  define H where "H = take m (ab_hist s ?T)"
  have H: "length H = m" "conforms (ab_hist s) H" "terms_upto ?T H" "take m (ab_hist s ?T) = H"
    using m(1) parts(3) by (simp_all add: H_def inv_logs_def conforms_take terms_upto_take)
  have conf: "conforms (ab_hist s) ?L" "terms_upto (ab_term s p) ?L" using parts(3) by (simp_all add: inv_logs_def)
  define L' where "L' = reconcile ?L ?prev (ar_entries req)"
  have L': "L' = (if take m ?L = H then ?L else H)"
  proof -
    have "?prev \<le> length ?L" using matches by (auto simp: req_matches_def)
    moreover have "le_term (?L ! (?prev - 1)) = le_term (H ! (?prev - 1))" if "0 < ?prev"
    proof -
      have "?prev - 1 < m" using that m(2) by linarith
      then show ?thesis using matches that m(4) by (simp add: req_matches_def H_def)
    qed
    ultimately show ?thesis
      using reconcile_conforms [OF conf(1) H(2), of ?prev] m(2,3) H(1) by (simp add: L'_def H_def)
  qed
  have last_index: "?prev + length (ar_entries req) = m" using m(1-3) by simp
  have same: "ab_hist ?s = ab_hist s" "ab_ldr ?s = ab_ldr s" "ab_quo ?s = ab_quo s" "ab_reqs ?s = ab_reqs s"
      "ab_calls ?s = ab_calls s" "ab_cast ?s = ab_cast s" "ab_cand ?s = ab_cand s" "ab_match ?s = ab_match s"
      "ab_term ?s = (ab_term s)(p := ?T)" "ab_role ?s = (ab_role s)(p := if ab_term s p < ?T then Follower else ab_role s p)"
      "ab_log ?s = (ab_log s)(p := L')" "ab_acks ?s = insert (p, ?T, m) (ab_acks s)"
      "ab_commit ?s = (ab_commit s)(p := if ab_commit s p < ar_leader_commit req then min (ar_leader_commit req) (length L') else ab_commit s p)"
    by (simp_all add: ab_accept_def Let_def L'_def last_index)
  have ext: "extends s ?s" by (auto simp: extends_def same)
  have mono: "ab_term s j \<le> ab_term ?s j" for j using upto by (simp add: same)
  have held: "held ?s k t M \<longleftrightarrow> held s k t M" for k t M by (simp add: held_def same)
  have lost: "lost_by ?s k t u \<longleftrightarrow> lost_by s k t u" for k t u by (simp add: lost_by_def held same)
  have voters: "ab_voters ns t j ?s = ab_voters ns t j s" for t j by (simp add: ab_voters_def same)
  text \<open>What the log had of an earlier leader is kept, if the leader of the request has it.\<close>
  have keeps: "held s k t L'" if "held s k t ?L" "held s k t (ab_hist s ?T)" for k t
  proof (cases "take m ?L = H")
    case True
    then show ?thesis using that(1) L' by simp
  next
    case False
    have "k \<le> m"
    proof (rule ccontr)
      assume "\<not> k \<le> m"
      have "take k ?L = take k (ab_hist s ?T)" using that by (simp add: held_def)
      then have "take m (take k ?L) = take m (take k (ab_hist s ?T))" by simp
      then show False using False \<open>\<not> k \<le> m\<close> by (simp add: H_def min_def)
    qed
    then show ?thesis using that(2) L' False by (auto simp: held_def H_def min_def)
  qed
  have new_ack: "held s k ?T L'" if "k \<le> m" for k
  proof -
    have "take m L' = H" "m \<le> length L'" using L' H(1) by (auto simp: min_def) (metis length_take min.bounded_iff nle_le)
    then show ?thesis using that m(1) by (auto simp: held_def H_def) (metis min.absorb1 take_take)
  qed
  have acked: "acked s q t n \<or> q = p \<and> t = ?T \<and> n = m" if "acked ?s q t n" for q t n
    using that by (auto simp: acked_def same)
  have "inv_votes_terms ?s"
    using parts(1) mono unfolding inv_votes_terms_def same(5-7) by (meson order_trans)
  moreover have "inv_leaders ns ?s"
    unfolding inv_leaders_def voters
  proof (intro conjI allI impI)
    fix j assume j: "ab_role ?s j = Leader"
    have "ab_role s j = Leader \<and> ab_term ?s j = ab_term s j"
      using j upto by (auto simp: same split: if_splits)
    moreover from this have "ab_ldr s (ab_term s j) = Some j \<and> ab_hist s (ab_term s j) = ab_log s j"
      using parts(2) by (simp add: inv_leaders_def)
    moreover have "L' = ?L" if "j = p"
    proof -
      have "ab_hist s ?T = ?L" using calculation that by (simp add: same)
      then show ?thesis using L' by (simp add: H_def)
    qed
    ultimately show "ab_ldr ?s (ab_term ?s j) = Some j" "ab_hist ?s (ab_term ?s j) = ab_log ?s j" by (auto simp: same)
  next
    fix t j assume j: "ab_ldr ?s t = Some j"
    then have old: "j \<in> set ns" "t \<le> ab_term s j" "ab_term s j = t \<longrightarrow> ab_role s j \<noteq> Candidate"
        "ab_quo s t \<subseteq> ab_voters ns t j s" "majority ns (ab_quo s t)"
      using parts(2) by (auto simp: inv_leaders_def same)
    show "j \<in> set ns" "t \<le> ab_term ?s j" "ab_quo ?s t \<subseteq> ab_voters ns t j s" "majority ns (ab_quo ?s t)"
      using old mono [of j] by (simp_all add: same(3))
    show "ab_role ?s j \<noteq> Candidate" if "ab_term ?s j = t"
      using old(2,3) that mono [of j] by (auto simp: same split: if_splits)
  next
    fix t assume "ab_ldr ?s t = None"
    then show "ab_hist ?s t = []" using parts(2) by (simp add: inv_leaders_def same)
  next
    fix j assume j: "ab_role ?s j = Candidate" "ab_ldr ?s (ab_term ?s j) = None"
    then have "j \<noteq> p" using led by (auto simp: same)
    then show "ab_log ?s j = ab_cand ?s j (ab_term ?s j)" using parts(2) j by (simp add: inv_leaders_def same)
  qed
  moreover have "inv_logs ?s"
  proof -
    have "terms_upto ?T L'" "conforms (ab_hist s) L'" using L' H conf upto terms_upto_mono by auto
    then show ?thesis using parts(3) unfolding inv_logs_def by (simp add: same)
  qed
  moreover have "\<forall>r\<in>ab_reqs ?s. req_ok ns ?s r" using inv req_ok_extends [OF ext] by (simp add: araft_inv_def same)
  moreover have "ack_ok ?s q t n" if a: "acked ?s q t n" for q t n
  proof (cases "acked s q t n")
    case True
    note ok = acked_ok [OF inv True]
    show ?thesis
    proof (rule ack_ok_extends [OF ext parts(3) ok mono])
      fix k assume k: "k \<le> n" "held s k t (ab_log s q)"
      show "held s k t (ab_log ?s q) \<or> lost_by s k t (ab_term ?s q)"
      proof (cases "q = p")
        case q: True
        show ?thesis
        proof (cases "held s k t (ab_hist s ?T)")
          case True
          then show ?thesis using keeps k(2) q by (simp add: same)
        next
          case False
          have t: "t \<le> ab_term s p" "n \<le> length (ab_hist s t)" using ok q by (simp_all add: ack_ok_def)
          have "t \<noteq> ?T" using False k(1) t(2) by (auto simp: held_def)
          then have "t < ?T" using t(1) upto by simp
          then show ?thesis using False led q unfolding lost_by_def by (auto simp: same)
        qed
      qed (use k(2) in \<open>simp add: same\<close>)
    qed
  next
    case False
    then have "q = p" "t = ?T" "n = m" using acked [OF a] by simp_all
    then show ?thesis using led m(1) new_ack by (simp add: ack_ok_def held same)
  qed
  moreover have "inv_vote_logs ?s"
  proof (rule vote_logs_extends [OF inv ext])
    show "acked s q t n \<or> ab_term s q \<le> t" if "acked ?s q t n" for q t n using acked [OF that] upto by auto
  qed (simp_all add: same)
  moreover have "inv_commits ns ?s"
    unfolding inv_commits_def
  proof (intro conjI allI impI)
    fix j
    have old: "commit_ok ns s (ab_log s j) (ab_term s j) (ab_commit s j)" using parts(5) by (simp add: inv_commits_def)
    show "commit_ok ns ?s (ab_log ?s j) (ab_term ?s j) (ab_commit ?s j)"
    proof (cases "j = p")
      case False
      then show ?thesis using commit_ok_extends [OF ext old order_refl] by (simp add: same)
    next
      case True
      have "commit_ok ns s L' ?T (ab_commit ?s p)"
      proof (cases "ab_commit s p < ar_leader_commit req")
        case True
        then obtain t k where tk: "t \<le> ?T" "chosen ns s t k" "ar_leader_commit req \<le> k" "held s (ar_leader_commit req) t H"
          using m(5) unfolding H(4) commit_ok_def by auto
        have "ar_leader_commit req \<le> m" using tk(4) H(1) by (simp add: held_def)
        then have "held s (ar_leader_commit req) ?T L'" "ar_leader_commit req \<le> m" using new_ack by simp_all
        moreover have "held s (ar_leader_commit req) ?T H" using \<open>ar_leader_commit req \<le> m\<close> m(1) by (simp add: held_def H_def min_def)
        ultimately have "held s (ar_leader_commit req) t L'" using tk(4) by (simp add: held_def)
        moreover from this have "min (ar_leader_commit req) (length L') = ar_leader_commit req" by (simp add: held_def)
        ultimately show ?thesis using tk True unfolding commit_ok_def same by auto
      next
        case False
        show ?thesis
        proof (cases "ab_commit s p = 0")
          case True
          then show ?thesis using False by (simp add: commit_ok_def same)
        next
          case pos: False
          then obtain t k where tk: "t \<le> ab_term s p" "chosen ns s t k" "ab_commit s p \<le> k" "held s (ab_commit s p) t ?L"
            using old True by (auto simp: commit_ok_def)
          have "held s k t (ab_hist s ?T)" using chosen_held [OF inv tk(2) led] tk(1) upto by simp
          then have "held s (ab_commit s p) t (ab_hist s ?T)" using tk(3) held_mono by blast
          then have "held s (ab_commit s p) t L'" using keeps tk(4) by blast
          moreover have "t \<le> ?T" using tk(1) upto by simp
          ultimately show ?thesis using tk(2,3) False unfolding commit_ok_def same by auto
        qed
      qed
      then show ?thesis using commit_ok_extends [OF ext _ order_refl] True by (simp add: same)
    qed
  next
    fix j q assume j: "ab_role ?s j = Leader" "0 < ab_match ?s j q"
    have "ab_role s j = Leader \<and> ab_term ?s j = ab_term s j" using j(1) upto by (auto simp: same split: if_splits)
    then show "acked ?s q (ab_term ?s j) (ab_match ?s j q)"
      using parts(5) j(2) acked_extends [OF ext] by (auto simp: inv_commits_def same(8))
  qed
  ultimately show ?thesis by (simp add: araft_inv_def)
qed

section \<open>Safety of the protocol\<close>

lemma init_inv: "araft_inv ns ab_init"
  by (simp add: araft_inv_def ab_init_def inv_votes_terms_def inv_leaders_def inv_logs_def acked_def inv_vote_logs_def
      inv_commits_def commit_ok_def)

lemma araft_reachable_inv: "araft_reachable ns s \<Longrightarrow> araft_inv ns s"
  by (induction rule: araft_reachable.induct)
    (auto intro: init_inv see_inv reset_inv stand_inv vote_inv win_inv submit_inv send_inv accept_inv ack_inv decide_inv)

text \<open>What a node has committed stays in its log, whatever request it takes.\<close>

lemma accept_keeps_committed:
  assumes inv: "araft_inv ns s" and req: "req \<in> ab_reqs s" and upto: "ab_term s p \<le> ar_term req"
    and matches: "req_matches (ab_log s p) req"
  shows "ab_commit s p \<le> length (reconcile (ab_log s p) (ar_prev_log_index req) (ar_entries req))"
    and "take (ab_commit s p) (reconcile (ab_log s p) (ar_prev_log_index req) (ar_entries req)) = take (ab_commit s p) (ab_log s p)"
proof -
  let ?T = "ar_term req" and ?prev = "ar_prev_log_index req" and ?L = "ab_log s p" and ?c = "ab_commit s p"
  have "req_ok ns s req" using inv req by (simp add: araft_inv_def)
  then obtain m where m: "led s ?T" "?prev \<le> m" "ar_entries req = drop ?prev (take m (ab_hist s ?T))"
    unfolding req_ok_def by (elim conjE exE) (rule that)
  have "commit_ok ns s ?L (ab_term s p) ?c" using inv by (simp add: araft_inv_def inv_commits_def)
  then have committed: "?c \<le> length ?L \<and> take ?c ?L = take ?c (ab_hist s ?T)"
  proof (cases "?c = 0")
    case False
    with \<open>commit_ok ns s ?L (ab_term s p) ?c\<close> obtain t k where
      t: "t \<le> ab_term s p" "chosen ns s t k" "?c \<le> k" "held s ?c t ?L" by (auto simp: commit_ok_def)
    have "held s k t (ab_hist s ?T)" using t(1) upto by (intro chosen_held [OF inv t(2) m(1)]) simp
    then have "held s ?c t (ab_hist s ?T)" using t(3) held_mono by blast
    then show ?thesis using t(4) by (simp add: held_def)
  qed simp
  have "?c \<le> length (reconcile ?L ?prev (ar_entries req)) \<and> take ?c (reconcile ?L ?prev (ar_entries req)) = take ?c ?L"
  proof (cases "first_conflict ?L ?prev (ar_entries req)")
    case None
    then show ?thesis using committed by (simp add: reconcile_def)
  next
    case (Some j)
    then have j: "j < length (ar_entries req)" "?prev + j < length ?L" "le_term (?L ! (?prev + j)) \<noteq> le_term (ar_entries req ! j)"
      by (auto simp: first_conflict_def find_Some_iff conflict_at_def)
    have "?c \<le> ?prev + j"
    proof (rule ccontr)
      assume "\<not> ?c \<le> ?prev + j"
      then have "?L ! (?prev + j) = ab_hist s ?T ! (?prev + j)" using committed by (metis not_le nth_take)
      moreover have "ar_entries req ! j = ab_hist s ?T ! (?prev + j)" using j(1) m(2) by (simp add: m(3))
      ultimately show False using j(3) by simp
    qed
    then show ?thesis using Some j(2) by (simp add: reconcile_def min_def)
  qed
  then show "?c \<le> length (reconcile ?L ?prev (ar_entries req))" and "take ?c (reconcile ?L ?prev (ar_entries req)) = take ?c ?L"
    by blast+
qed

end
