(* ===== verification/Raft_Refinement.thy ===== *)
theory Raft_Refinement
  imports Raft_Election Raft_Abstract
begin

text \<open>
  The cluster of \<open>Raft_Election\<close> refines the protocol of \<open>Raft_Abstract\<close>, as long as its answers
  arrive in the term they are for and no node has compacted its log: every handler of \<open>raft_node.py\<close>
  is a step of the protocol, or two, or none.
\<close>

section \<open>What the handlers leave of the log\<close>

text \<open>Operations that may only compact the log.\<close>

definition logs_kept :: "('c, 'b) raft_log \<Rightarrow> ('c, 'b) raft_log \<Rightarrow> bool" where
  "logs_kept l l' \<longleftrightarrow> (log_stored l \<longrightarrow> log_stored l') \<and> rl_last_included_index l \<le> rl_last_included_index l' \<and>
     (rl_last_included_index l' = 0 \<longrightarrow> rl_entries l' = rl_entries l)"

lemma logs_kept_refl [simp]: "logs_kept l l"
  by (simp add: logs_kept_def)

lemma logs_kept_trans: "logs_kept l l' \<Longrightarrow> logs_kept l' l'' \<Longrightarrow> logs_kept l l''"
  by (auto simp: logs_kept_def)

lemma compact_kept: "logs_kept l (rl_compact l i t b)"
  by (auto simp: logs_kept_def rl_compact_def rl_persist_def Let_def log_stored_def)

text \<open>Operations of a node that change none of what the protocol looks at, but may compact the log.\<close>

definition node_kept :: "('s, 'c, 'r, 'b) raft_node \<Rightarrow> ('s, 'c, 'r, 'b) raft_node \<Rightarrow> bool" where
  "node_kept n n' \<longleftrightarrow> logs_kept (rn_log n) (rn_log n') \<and> rn_commit_index n' = rn_commit_index n \<and> rn_match_index n' = rn_match_index n"

lemma node_kept_refl [simp]: "node_kept n n"
  by (simp add: node_kept_def)

lemma node_kept_trans: "node_kept n n' \<Longrightarrow> node_kept n' n'' \<Longrightarrow> node_kept n n''"
  using logs_kept_trans by (auto simp: node_kept_def)

lemma check_snapshot_kept: "node_kept n (fst (raft_check_snapshot M n))"
  by (auto simp: raft_check_snapshot_def Let_def node_kept_def compact_kept split: sum.splits)

lemma resolve_kept: "node_kept n (raft_resolve n r)"
  by (auto simp: raft_resolve_def node_kept_def split: option.splits)

lemma apply_one_kept: "node_kept n (fst (raft_apply_one M n))"
proof -
  have "node_kept n (fst (raft_check_snapshot M (raft_resolve (n\<lparr>rn_last_applied := i, rn_machine := m\<rparr>) r)))" for i m r
    by (rule node_kept_trans [OF node_kept_trans [OF _ resolve_kept] check_snapshot_kept]) (simp add: node_kept_def)
  then show ?thesis
    by (auto simp: raft_apply_one_def Let_def split: sum.splits prod.splits) (simp_all add: node_kept_def)
qed

lemma apply_kept: "node_kept n (fst (raft_apply_committed_entries M n))"
proof (induction M n rule: raft_apply_committed_entries.induct)
  case (1 M n)
  show ?case
  proof (cases "rn_last_applied n < rn_commit_index n")
    case True
    obtain n' r where one: "raft_apply_one M n = (n', r)" by fastforce
    then have "node_kept n n'" using apply_one_kept [of n M] by simp
    then show ?thesis
      using 1 [OF True one [symmetric]] True one node_kept_trans
      by (subst raft_apply_committed_entries.simps) (auto split: sum.splits)
  next
    case False
    then show ?thesis by (subst raft_apply_committed_entries.simps) simp
  qed
qed

lemma update_commit_kept:
  "logs_kept (rn_log n) (rn_log (fst (raft_update_commit_index M n))) \<and> rn_match_index (fst (raft_update_commit_index M n)) = rn_match_index n"
proof -
  have "node_kept (n\<lparr>rn_commit_index := c\<rparr>) (fst (raft_apply_committed_entries M (n\<lparr>rn_commit_index := c\<rparr>)))" for c by (rule apply_kept)
  then show ?thesis by (auto simp: raft_update_commit_index_def Let_def node_kept_def split: sum.splits)
qed

text \<open>An uncompacted log and the list of its entries.\<close>

lemma whole_log:
  assumes "rl_last_included_index l = 0"
  shows "log_of (rl_entries l) l" and "rl_len l = length (rl_entries l)"
  using assms by (simp_all add: log_of_def rl_len_def)

lemma whole_log_entries: "rl_last_included_index l = 0 \<Longrightarrow> log_of h l \<Longrightarrow> rl_entries l = h"
  by (simp add: log_of_def)

lemma whole_last_term:
  assumes "rl_last_included_index l = 0"
  shows "rl_get_term l (rl_len l) = Inr (last_term (rl_entries l))"
proof (cases "rl_entries l = []")
  case True
  then show ?thesis using assms by (simp add: rl_len_def rl_get_term_def last_term_def)
next
  case False
  then show ?thesis
    using rl_get_term_history [OF whole_log(1) [OF assms], of "rl_len l"] assms
    by (simp add: rl_len_def last_term_nth)
qed

section \<open>The log only grows, or is compacted\<close>

definition log_grows :: "('s, 'c, 'r, 'b) raft_node \<Rightarrow> ('s, 'c, 'r, 'b) raft_node \<Rightarrow> bool" where
  "log_grows n n' \<longleftrightarrow> (log_stored (rn_log n) \<longrightarrow> log_stored (rn_log n')) \<and>
     rl_last_included_index (rn_log n) \<le> rl_last_included_index (rn_log n')"

lemma log_grows_refl [simp]: "log_grows n n"
  by (simp add: log_grows_def)

lemma log_grows_trans: "log_grows n n' \<Longrightarrow> log_grows n' n'' \<Longrightarrow> log_grows n n''"
  by (auto simp: log_grows_def)

lemma kept_grows: "node_kept n n' \<Longrightarrow> log_grows n n'"
  by (simp add: node_kept_def logs_kept_def log_grows_def)

lemma state_stored [simp]: "log_stored (l\<lparr>rl_storage := fs_save_state (rl_storage l) t v\<rparr>) = log_stored l"
  by (simp add: log_stored_def)

lemma update_term_grows: "log_grows n (raft_update_term n t)"
  by (simp add: raft_update_term_def raft_save_state_def log_grows_def)

lemma append_loop_grows:
  "raft_append_loop l idx es = (l', r) \<Longrightarrow> (log_stored l \<longrightarrow> log_stored l') \<and> rl_last_included_index l' = rl_last_included_index l"
  by (induction l idx es arbitrary: l' rule: raft_append_loop.induct) (auto split: sum.splits if_splits)

lemma handle_append_grows: "log_grows n (fst (raft_handle_append_entries M n req))"
proof (cases "ar_term req < rn_current_term n")
  case True
  then show ?thesis by (simp add: raft_handle_append_entries_def)
next
  case False
  define n0 where "n0 = (if ar_term req > rn_current_term n then raft_update_term n (ar_term req) else n)"
  have n0: "log_grows n n0" by (simp add: n0_def update_term_grows)
  have log: "log_grows n0 (n0\<lparr>rn_log := l\<rparr>)" if "raft_append_loop (rn_log n0) i es = (l, r)" for i es l r
    using append_loop_grows [OF that] by (simp add: log_grows_def)
  have applied: "log_grows n0 (fst (raft_apply_committed_entries M (n0\<lparr>rn_log := l, rn_commit_index := c\<rparr>)))"
    if "raft_append_loop (rn_log n0) i es = (l, r)" for i es l r c
    by (rule log_grows_trans [OF _ kept_grows [OF apply_kept]]) (use log [OF that] in \<open>simp add: log_grows_def\<close>)
  have "log_grows n0 (fst (raft_handle_append_entries M n req))"
    unfolding raft_handle_append_entries_def Let_def n0_def [symmetric] if_not_P [OF False]
    using log applied by (auto split: sum.splits prod.splits bool.splits) (metis fst_conv)+
  with n0 show ?thesis by (rule log_grows_trans)
qed

lemma append_reply_grows: "log_grows n (raft_append_reply M n p req rt ok)"
proof -
  have "log_grows n (fst (raft_update_commit_index M (n\<lparr>rn_match_index := a, rn_next_index := b\<rparr>)))" for a b
    using update_commit_kept [of "n\<lparr>rn_match_index := a, rn_next_index := b\<rparr>" M] by (simp add: log_grows_def logs_kept_def)
  moreover have "log_grows n (n\<lparr>rn_next_index := b\<rparr>)" for b by (simp add: log_grows_def)
  ultimately show ?thesis by (auto simp: raft_append_reply_def Let_def update_term_grows split: option.split)
qed

text \<open>The loop of \<open>_become_leader\<close> resets what is known of the peers.\<close>

lemma become_leader_kept:
  fixes n :: "('s, 'c, 'r, 'b) raft_node"
  shows "rn_log (fst (raft_become_leader n)) = rn_log n" and "rn_commit_index (fst (raft_become_leader n)) = rn_commit_index n"
    and "rn_match_index (fst (raft_become_leader n)) = foldl (\<lambda>d p. dict_set p 0 d) (rn_match_index n) (rn_peers n)"
proof -
  have "rn_log (foldl (\<lambda>n peer. n\<lparr>rn_next_index := dict_set peer i (rn_next_index n),
      rn_match_index := dict_set peer 0 (rn_match_index n)\<rparr>) m ps) = rn_log m \<and>
    rn_commit_index (foldl (\<lambda>n peer. n\<lparr>rn_next_index := dict_set peer i (rn_next_index n),
      rn_match_index := dict_set peer 0 (rn_match_index n)\<rparr>) m ps) = rn_commit_index m \<and>
    rn_match_index (foldl (\<lambda>n peer. n\<lparr>rn_next_index := dict_set peer i (rn_next_index n),
      rn_match_index := dict_set peer 0 (rn_match_index n)\<rparr>) m ps) = foldl (\<lambda>d p. dict_set p 0 d) (rn_match_index m) ps"
    for m :: "('s, 'c, 'r, 'b) raft_node" and i ps
    by (induction ps arbitrary: m) auto
  then show "rn_log (fst (raft_become_leader n)) = rn_log n" "rn_commit_index (fst (raft_become_leader n)) = rn_commit_index n"
    "rn_match_index (fst (raft_become_leader n)) = foldl (\<lambda>d p. dict_set p 0 d) (rn_match_index n) (rn_peers n)"
    by (simp_all add: raft_become_leader_def Let_def)
qed

lemma reset_all:
  assumes "dict_wf d"
  shows "dict_wf (foldl (\<lambda>d p. dict_set p 0 d) d ps)"
    and "fst ` set (foldl (\<lambda>d p. dict_set p 0 d) d ps) = fst ` set d \<union> set ps"
    and "dict_get (foldl (\<lambda>d p. dict_set p (0 :: nat) d) d ps) q 0 = (if q \<in> set ps then 0 else dict_get d q 0)"
  using assms by (induction ps arbitrary: d) (auto simp: dict_keys_set)

lemma vote_reply_grows: "log_grows n (fst (raft_vote_reply n p t rt granted))"
  by (auto simp: raft_vote_reply_def Let_def update_term_grows) (simp_all add: log_grows_def become_leader_kept)

lemma request_vote_log_grows: "log_grows n (fst (raft_handle_request_vote n t i a b))"
  using update_term_grows [of n t]
  by (auto simp: raft_handle_request_vote_def Let_def raft_save_state_def log_grows_def split: sum.splits)

lemma timeout_grows: "log_grows n (fst (raft_election_timeout n))"
  by (auto simp: raft_election_timeout_def raft_start_election_def Let_def raft_save_state_def log_grows_def split: sum.splits)

lemma submit_grows: "log_grows n (fst (raft_submit_command n c))"
  by (auto simp: raft_submit_command_def Let_def log_grows_def)

lemma start_stop_grows: "log_grows n (raft_start n)" "log_grows n (raft_stop n)"
  by (auto simp: raft_start_def raft_stop_def log_grows_def)

lemma raft_init_kept:
  assumes "raft_init M machine0 k i ps fs = Inr n"
  shows "rn_log n = rl_load fs" "rn_match_index n = []" "rn_commit_index n = rl_last_included_index (rl_load fs)"
    "rn_state n = Follower" "(rn_current_term n, rn_voted_for n) = fs_load_state fs"
  using assms by (auto simp: raft_init_def Let_def case_prod_unfold split: sum.splits)

definition logs_stored :: "node_id list \<Rightarrow> ('s, 'c, 'r, 'b) raft_cluster \<Rightarrow> bool" where
  "logs_stored ns s \<longleftrightarrow> (\<forall>i\<in>set ns. log_stored (rn_log (cl_nodes s i)))"

lemma put_stored:
  "logs_stored ns s \<Longrightarrow> i \<in> set ns \<Longrightarrow> log_grows (cl_nodes s i) n' \<Longrightarrow> logs_stored ns (raft_put s i n')"
  by (simp add: logs_stored_def raft_put_def log_grows_def)

lemma stored_fields [simp]:
  "logs_stored ns (s\<lparr>cl_vote_calls := a\<rparr>) = logs_stored ns s"
  "logs_stored ns (s\<lparr>cl_vote_replies := b\<rparr>) = logs_stored ns s"
  "logs_stored ns (s\<lparr>cl_append_calls := c\<rparr>) = logs_stored ns s"
  "logs_stored ns (s\<lparr>cl_append_replies := d\<rparr>) = logs_stored ns s"
  by (simp_all add: logs_stored_def)

lemma raft_reachable_stored: "raft_reachable M machine0 k ns timely prompt s \<Longrightarrow> logs_stored ns s"
proof (induction rule: raft_reachable.induct)
  case (rc_start nodes)
  have "log_stored (rn_log (nodes i))" if "i \<in> set ns" for i
  proof -
    have "raft_init M machine0 k i (raft_peers_of ns i) fs_init = Inr (nodes i)" using rc_start that by blast
    from raft_init_kept(1) [OF this] show ?thesis by simp
  qed
  then show ?case by (simp add: logs_stored_def)
next
  case (rc_timeout s i n ws)
  then show ?case using timeout_grows [of "cl_nodes s i"] by (simp add: put_stored)
next
  case (rc_vote s p i t a b n rt granted)
  then show ?case using request_vote_log_grows [of "cl_nodes s p" t i a b] by (simp add: put_stored)
next
  case (rc_vote_raises s p i t a b n e)
  then show ?case using request_vote_log_grows [of "cl_nodes s p" t i a b] by (simp add: put_stored)
next
  case (rc_vote_reply s i p t rt granted n ws)
  then show ?case using vote_reply_grows [of "cl_nodes s i" p t rt granted] by (simp add: put_stored)
next
  case (rc_append s p i req n r)
  then show ?case using handle_append_grows [of "cl_nodes s p" M req] by (simp add: put_stored)
next
  case (rc_submit s i c n r)
  then show ?case using submit_grows [of "cl_nodes s i" c] by (simp add: put_stored)
next
  case (rc_restart s i n)
  have "rn_log n = rn_log (cl_nodes s i)"
    using raft_init_kept(1) [OF rc_restart.hyps(3)] rl_load_stored [of "rn_log (cl_nodes s i)"] rc_restart.IH rc_restart.hyps(2) by (simp add: logs_stored_def)
  then show ?case using rc_restart by (intro put_stored) (auto simp: log_grows_def)
qed (auto intro!: put_stored append_reply_grows start_stop_grows)

section \<open>The refinement relation\<close>

definition node_abs :: "node_id list \<Rightarrow> 'c araft \<Rightarrow> node_id \<Rightarrow> ('s, 'c, 'r, 'b) raft_node \<Rightarrow> bool" where
  "node_abs ns a i n \<longleftrightarrow> rl_last_included_index (rn_log n) = 0 \<and> log_stored (rn_log n) \<and> ab_log a i = rl_entries (rn_log n) \<and>
     ab_term a i = rn_current_term n \<and> ab_role a i = rn_state n \<and> ab_commit a i = rn_commit_index n \<and>
     dict_wf (rn_match_index n) \<and> fst ` set (rn_match_index n) \<subseteq> set ns - {i} \<and>
     (rn_state n = Leader \<longrightarrow> (\<forall>p. ab_match a i p = dict_get (rn_match_index n) p 0))"

definition abstracts :: "node_id list \<Rightarrow> ('s, 'c, 'r, 'b) raft_cluster \<Rightarrow> 'c araft \<Rightarrow> bool" where
  "abstracts ns s a \<longleftrightarrow> (\<forall>i\<in>set ns. node_abs ns a i (cl_nodes s i)) \<and> (\<forall>i\<in>set ns. ab_cast a i = cl_cast s i) \<and>
     (\<forall>(i, p, u, x, y) \<in> cl_vote_calls s. (i, u, x, y) \<in> ab_calls a) \<and>
     (\<forall>(i, p, req) \<in> cl_append_calls s. p \<in> set ns - {i} \<and> req \<in> ab_reqs a) \<and>
     (\<forall>(i, p, req, rt, ok) \<in> cl_append_replies s. p \<in> set ns - {i} \<and>
        (ok \<longrightarrow> (p, ar_term req, ar_prev_log_index req + length (ar_entries req)) \<in> ab_acks a))"

lemma abstractsD:
  assumes "abstracts ns s a"
  shows "i \<in> set ns \<Longrightarrow> node_abs ns a i (cl_nodes s i)" and "i \<in> set ns \<Longrightarrow> ab_cast a i = cl_cast s i"
    and "(i, p, u, x, y) \<in> cl_vote_calls s \<Longrightarrow> (i, u, x, y) \<in> ab_calls a"
    and "(i, p, req) \<in> cl_append_calls s \<Longrightarrow> p \<in> set ns - {i} \<and> req \<in> ab_reqs a"
    and "(i, p, req, rt, ok) \<in> cl_append_replies s \<Longrightarrow> p \<in> set ns - {i} \<and>
        (ok \<longrightarrow> (p, ar_term req, ar_prev_log_index req + length (ar_entries req)) \<in> ab_acks a)"
  using assms by (fastforce simp: abstracts_def)+

text \<open>A step of one node: what is to be shown is about that node and its vote.\<close>

lemma abstracts_put:
  assumes abs: "abstracts ns s a" and node: "node_abs ns a' i n'"
    and others: "\<And>j. j \<noteq> i \<Longrightarrow> ab_log a' j = ab_log a j \<and> ab_term a' j = ab_term a j \<and> ab_role a' j = ab_role a j \<and>
      ab_commit a' j = ab_commit a j \<and> ab_match a' j = ab_match a j"
    and cast: "\<And>j. j \<in> set ns \<Longrightarrow> ab_cast a' j = raft_record_vote (cl_cast s) i n' j"
    and msgs: "ab_calls a \<subseteq> ab_calls a'" "ab_reqs a \<subseteq> ab_reqs a'" "ab_acks a \<subseteq> ab_acks a'"
  shows "abstracts ns (raft_put s i n') a'"
proof -
  have "node_abs ns a' j (cl_nodes (raft_put s i n') j)" if "j \<in> set ns" for j
    using abstractsD(1) [OF abs that] node others [of j] by (cases "j = i") (simp_all add: raft_put_def node_abs_def)
  then show ?thesis
    unfolding abstracts_def using cast abstractsD(3-5) [OF abs] msgs by (fastforce simp: raft_put_def)
qed

lemma abstracts_vote_calls:
  "abstracts ns s a \<Longrightarrow> \<forall>(i, p, u, x, y) \<in> C. (i, u, x, y) \<in> ab_calls a \<Longrightarrow> abstracts ns (s\<lparr>cl_vote_calls := cl_vote_calls s \<union> C\<rparr>) a"
  by (auto simp: abstracts_def)

lemma abstracts_replies:
  "abstracts ns s a \<Longrightarrow> \<forall>(i, p, req, rt, ok) \<in> C. p \<in> set ns - {i} \<and>
     (ok \<longrightarrow> (p, ar_term req, ar_prev_log_index req + length (ar_entries req)) \<in> ab_acks a) \<Longrightarrow>
   abstracts ns (s\<lparr>cl_append_replies := cl_append_replies s \<union> C\<rparr>) a"
  by (auto simp: abstracts_def)

lemma abstracts_fields [simp]: "abstracts ns (s\<lparr>cl_vote_replies := r\<rparr>) a = abstracts ns s a"
  by (simp add: abstracts_def)

section \<open>The handlers implement the protocol\<close>

lemma record_same:
  assumes "own_vote_ok cast i n" and "rn_current_term n' = rn_current_term n" and "rn_voted_for n' = rn_voted_for n"
  shows "raft_record_vote cast i n' = cast"
proof (cases "rn_voted_for n")
  case None
  then show ?thesis using assms(3) by (simp add: raft_record_vote_def)
next
  case (Some c)
  then have "cast i (rn_current_term n) = Some c" using assms(1) by (simp add: own_vote_ok_def)
  then have "(cast i)(rn_current_term n \<mapsto> c) = cast i" by (rule map_upd_triv)
  then show ?thesis using assms(2,3) Some by (simp add: raft_record_vote_def)
qed

lemma record_none: "rn_voted_for n' = None \<Longrightarrow> raft_record_vote cast i n' = cast"
  by (simp add: raft_record_vote_def)

lemma rl_storage_kept [simp]:
  "rl_len (l\<lparr>rl_storage := fs\<rparr>) = rl_len l" "rl_getitem (l\<lparr>rl_storage := fs\<rparr>) i = rl_getitem l i"
  "rl_get_term (l\<lparr>rl_storage := fs\<rparr>) i = rl_get_term l i"
  by (simp_all add: rl_len_def rl_getitem_def rl_get_term_def Let_def)

text \<open>What is known of a node during a simulation.\<close>

definition simulates :: "node_id list \<Rightarrow> ('s, 'c, 'r, 'b) raft_cluster \<Rightarrow> 'c araft \<Rightarrow> bool" where
  "simulates ns s a \<longleftrightarrow> araft_reachable ns a \<and> abstracts ns s a \<and> raft_inv True ns s"

lemma simulatesD:
  assumes "simulates ns s a" and "i \<in> set ns"
  shows "node_abs ns a i (cl_nodes s i)" and "ab_cast a i = cl_cast s i" and "own_vote_ok (cl_cast s) i (cl_nodes s i)"
    and "rn_node_id (cl_nodes s i) = i" and "set (rn_peers (cl_nodes s i)) = set ns - {i}"
    and "length (raft_all_nodes (cl_nodes s i)) = card (set ns)"
proof -
  have inv: "raft_node_inv True ns (cl_cast s) i (cl_nodes s i)" using assms by (simp add: simulates_def raft_inv_def)
  show "node_abs ns a i (cl_nodes s i)" "ab_cast a i = cl_cast s i" using assms abstractsD(1,2) by (auto simp: simulates_def)
  show "own_vote_ok (cl_cast s) i (cl_nodes s i)" using inv by (simp add: raft_node_inv_def)
  show id: "rn_node_id (cl_nodes s i) = i" "set (rn_peers (cl_nodes s i)) = set ns - {i}" using inv by (simp_all add: raft_node_inv_def)
  have "length (raft_all_nodes (cl_nodes s i)) = card (set (rn_node_id (cl_nodes s i) # rn_peers (cl_nodes s i)))"
    unfolding raft_all_nodes_def by (rule length_remdups_card_conv)
  also have "set (rn_node_id (cl_nodes s i) # rn_peers (cl_nodes s i)) = set ns" using id assms(2) by auto
  finally show "length (raft_all_nodes (cl_nodes s i)) = card (set ns)" .
qed

text \<open>A handler that leaves term, vote and all that the protocol looks at.\<close>

lemma put_same:
  assumes "simulates ns s a" and "i \<in> set ns" and "node_abs ns a i n'"
    and "rn_current_term n' = rn_current_term (cl_nodes s i)" and "rn_voted_for n' = rn_voted_for (cl_nodes s i)"
  shows "abstracts ns (raft_put s i n') a"
proof (rule abstracts_put [where a = a])
  show "abstracts ns s a" using assms(1) by (simp add: simulates_def)
  show "ab_cast a j = raft_record_vote (cl_cast s) i n' j" if "j \<in> set ns" for j
    using simulatesD(2) [OF assms(1) that] record_same [OF simulatesD(3) [OF assms(1,2)] assms(4,5)] by simp
qed (use assms(3) in simp_all)

lemma see_abs:
  "node_abs ns a i n \<Longrightarrow> node_abs ns (ab_see i t a) i (raft_update_term n t)"
  by (simp add: node_abs_def ab_see_def raft_update_term_def raft_save_state_def)

lemma put_see:
  assumes sim: "simulates ns s a" and i: "i \<in> set ns" and t: "rn_current_term (cl_nodes s i) < t"
  shows "araft_reachable ns (ab_see i t a)" and "abstracts ns (raft_put s i (raft_update_term (cl_nodes s i) t)) (ab_see i t a)"
proof -
  have "ab_term a i < t" using simulatesD(1) [OF sim i] t by (simp add: node_abs_def)
  then show "araft_reachable ns (ab_see i t a)" using sim i by (auto simp: simulates_def intro: ar_see)
  show "abstracts ns (raft_put s i (raft_update_term (cl_nodes s i) t)) (ab_see i t a)"
  proof (rule abstracts_put [where a = a])
    show "abstracts ns s a" using sim by (simp add: simulates_def)
    show "node_abs ns (ab_see i t a) i (raft_update_term (cl_nodes s i) t)" by (rule see_abs [OF simulatesD(1) [OF sim i]])
    show "ab_cast (ab_see i t a) j = raft_record_vote (cl_cast s) i (raft_update_term (cl_nodes s i) t) j" if "j \<in> set ns" for j
      using simulatesD(2) [OF sim that] by (subst record_none) (simp_all add: ab_see_def raft_update_term_def raft_save_state_def)
  qed (simp_all add: ab_see_def)
qed

lemma sim_timeout:
  assumes sim: "simulates ns s a" and i: "i \<in> set ns" and out: "raft_election_timeout (cl_nodes s i) = (n', ws)"
  shows "\<exists>a'. araft_reachable ns a' \<and> abstracts ns ((raft_put s i n')\<lparr>cl_vote_calls := cl_vote_calls s \<union> raft_calls i ws\<rparr>) a'"
proof (cases "\<not> rn_running (cl_nodes s i) \<or> rn_state (cl_nodes s i) = Leader")
  case True
  then have n': "n' = cl_nodes s i" "ws = Inr []" using out by (auto simp: raft_election_timeout_def)
  have "abstracts ns (raft_put s i n') a" unfolding n'(1) by (rule put_same [OF sim i simulatesD(1) [OF sim i] refl refl])
  then show ?thesis using sim n'(2) by (auto simp: simulates_def raft_calls_def raft_put_def)
next
  case False
  let ?n = "cl_nodes s i" and ?a = "ab_stand i a"
  note n = simulatesD [OF sim i]
  have log: "rl_last_included_index (rn_log ?n) = 0" using n(1) by (simp add: node_abs_def)
  have "raft_start_election ?n = (n', ws)" using out False by (simp add: raft_election_timeout_def)
  then have start: "n' = (raft_save_state (?n\<lparr>rn_current_term := rn_current_term ?n + 1, rn_state := Candidate, rn_voted_for := Some i\<rparr>))
      \<lparr>rn_votes := (rn_votes ?n)(rn_current_term ?n + 1 := {i})\<rparr>"
    "ws = Inr (map (\<lambda>peer. Request_Vote_Worker peer (rn_current_term ?n + 1) (length (rl_entries (rn_log ?n)))
        (last_term (rl_entries (rn_log ?n)))) (rn_peers ?n))"
    using whole_last_term [OF log] whole_log(2) [OF log] n(4)
    by (auto simp: raft_start_election_def raft_save_state_def Let_def split: sum.splits)
  have "abstracts ns (raft_put s i n') ?a"
  proof (rule abstracts_put [where a = a])
    show "abstracts ns s a" using sim by (simp add: simulates_def)
    show "node_abs ns ?a i n'" using n(1) start(1) by (simp add: node_abs_def ab_stand_def Let_def raft_save_state_def)
    show "ab_cast ?a j = raft_record_vote (cl_cast s) i n' j" if "j \<in> set ns" for j
      using simulatesD(2) [OF sim that] n(1,2) start(1)
      by (simp add: ab_stand_def Let_def raft_record_vote_def raft_save_state_def node_abs_def)
  qed (auto simp: ab_stand_def Let_def)
  moreover have "\<forall>(j, p, u, x, y) \<in> raft_calls i ws. (j, u, x, y) \<in> ab_calls ?a"
    using start(2) n(1) by (auto simp: raft_calls_def ab_stand_def Let_def node_abs_def)
  ultimately have "abstracts ns ((raft_put s i n')\<lparr>cl_vote_calls := cl_vote_calls s \<union> raft_calls i ws\<rparr>) ?a"
    using abstracts_vote_calls [of ns "raft_put s i n'" ?a] by (simp add: raft_put_def)
  moreover have "araft_reachable ns ?a" using sim i by (auto simp: simulates_def intro: ar_stand)
  ultimately show ?thesis by blast
qed

text \<open>A vote: the log comparison of the code is the rule of the protocol.\<close>

lemma update_term_fields [simp]:
  "rl_get_term (rn_log (raft_update_term n t)) i = rl_get_term (rn_log n) i"
  "rl_len (rn_log (raft_update_term n t)) = rl_len (rn_log n)"
  "rn_voted_for (raft_update_term n t) = None" "rn_current_term (raft_update_term n t) = t"
  "rn_state (raft_update_term n t) = Follower"
  by (simp_all add: raft_update_term_def raft_save_state_def)

text \<open>A node that has looked at the term of a message.\<close>

definition seen_term :: "('s, 'c, 'r, 'b) raft_node \<Rightarrow> nat \<Rightarrow> ('s, 'c, 'r, 'b) raft_node" where
  "seen_term n t = (if rn_current_term n < t then raft_update_term n t else n)"

lemma sim_seen:
  assumes sim: "simulates ns s a" and i: "i \<in> set ns"
  shows "\<exists>a'. araft_reachable ns a' \<and> abstracts ns (raft_put s i (seen_term (cl_nodes s i) t)) a' \<and>
    ab_calls a \<subseteq> ab_calls a' \<and> ab_reqs a \<subseteq> ab_reqs a' \<and> ab_acks a \<subseteq> ab_acks a'"
proof (cases "rn_current_term (cl_nodes s i) < t")
  case True
  then show ?thesis using put_see [OF sim i True] by (intro exI [of _ "ab_see i t a"]) (simp add: seen_term_def ab_see_def)
next
  case False
  then show ?thesis using sim put_same [OF sim i simulatesD(1) [OF sim i] refl refl]
    by (intro exI [of _ a]) (simp add: seen_term_def simulates_def)
qed

lemma sim_vote:
  assumes sim: "simulates ns s a" and p: "p \<in> set ns" and call: "(i, p, t, x, y) \<in> cl_vote_calls s"
    and out: "raft_handle_request_vote (cl_nodes s p) t i x y = (n', r)"
  shows "\<exists>a'. araft_reachable ns a' \<and> abstracts ns (raft_put s p n') a'"
proof (cases "n' = seen_term (cl_nodes s p) t")
  case True
  then show ?thesis using sim_seen [OF sim p, of t] by blast
next
  case False
  let ?n = "cl_nodes s p" and ?a = "ab_vote p i t a"
  note n = simulatesD [OF sim p]
  have log: "rl_last_included_index (rn_log ?n) = 0" using n(1) by (simp add: node_abs_def)
  have le: "rn_current_term ?n \<le> t" using out False by (auto simp: raft_handle_request_vote_def seen_term_def split: if_splits)
  then have late: "\<not> t < rn_current_term ?n" by simp
  have same: "rl_get_term (rn_log (seen_term ?n t)) (length (rl_entries (rn_log ?n))) = Inr (last_term (rl_entries (rn_log ?n)))"
    "rl_len (rn_log (seen_term ?n t)) = length (rl_entries (rn_log ?n))"
    using whole_last_term [OF log] whole_log(2) [OF log] by (simp_all add: seen_term_def)
  have n': "n' = raft_save_state ((seen_term ?n t)\<lparr>rn_voted_for := Some i\<rparr>)"
    and can: "rn_voted_for (seen_term ?n t) = None \<or> rn_voted_for (seen_term ?n t) = Some i"
    and fresh: "last_term (rl_entries (rn_log ?n)) < y \<or>
      y = last_term (rl_entries (rn_log ?n)) \<and> length (rl_entries (rn_log ?n)) \<le> x"
    using out False unfolding raft_handle_request_vote_def Let_def if_not_P [OF late] seen_term_def [symmetric] same
    by (auto split: if_splits)
  have term': "rn_current_term (seen_term ?n t) = t" using le by (simp add: seen_term_def)
  have cast: "ab_cast a p t = rn_voted_for (seen_term ?n t)"
    using n(2,3) le by (auto simp: own_vote_ok_def seen_term_def)
  have "may_vote p i t x y a"
    using abstractsD(3) [of ns s a i p t x y] sim call le cast can fresh n(1) by (auto simp: may_vote_def simulates_def node_abs_def)
  then have "araft_reachable ns ?a" using sim p by (auto simp: simulates_def intro: ar_vote)
  moreover have "abstracts ns (raft_put s p n') ?a"
  proof (rule abstracts_put [where a = a])
    show "abstracts ns s a" using sim by (simp add: simulates_def)
    show "node_abs ns ?a p n'"
      using n(1) le by (auto simp: n' seen_term_def node_abs_def ab_vote_def raft_update_term_def raft_save_state_def)
    show "ab_cast ?a j = raft_record_vote (cl_cast s) p n' j" if "j \<in> set ns" for j
      using simulatesD(2) [OF sim that] n(2) term' by (simp add: n' ab_vote_def raft_record_vote_def raft_save_state_def)
  qed (simp_all add: ab_vote_def)
  ultimately show ?thesis by blast
qed

lemma sim_vote_reply:
  assumes sim: "simulates ns s a" and i: "i \<in> set ns" and inv: "raft_inv True ns (raft_put s i n')"
    and out: "raft_vote_reply (cl_nodes s i) p t rt granted = (n', ws)"
  shows "\<exists>a'. araft_reachable ns a' \<and> abstracts ns (raft_put s i n') a'"
proof -
  let ?n = "cl_nodes s i"
  let ?m = "?n\<lparr>rn_votes := (rn_votes ?n)(t := insert p (rn_votes ?n t))\<rparr>"
  note n = simulatesD [OF sim i]
  have "n' = ?n \<or> n' = ?m \<or> n' = raft_update_term ?n rt \<and> rn_current_term ?n < rt \<or>
      n' = fst (raft_become_leader ?m) \<and> rn_state ?n = Candidate"
    using out by (auto simp: raft_vote_reply_def Let_def split: if_splits)
  then show ?thesis
  proof (elim disjE conjE)
    assume "n' = ?n"
    then show ?thesis using sim put_same [OF sim i n(1) refl refl] by (auto simp: simulates_def)
  next
    assume n': "n' = ?m"
    have "abstracts ns (raft_put s i n') a" by (rule put_same [OF sim i]) (use n(1) n' in \<open>simp_all add: node_abs_def\<close>)
    then show ?thesis using sim by (auto simp: simulates_def)
  next
    assume "n' = raft_update_term ?n rt" "rn_current_term ?n < rt"
    then show ?thesis using put_see [OF sim i] by auto
  next
    assume n': "n' = fst (raft_become_leader ?m)" and cand: "rn_state ?n = Candidate"
    let ?a = "ab_win ns i a"
    have role: "rn_state n' = Leader" "rn_current_term n' = rn_current_term ?n" "rn_voted_for n' = rn_voted_for ?n"
      using become_leader_fields [of ?m] by (simp_all add: n' same_role_def)
    note cast = record_same [OF n(3) role(2,3)]
    have "raft_node_inv True ns (cl_cast (raft_put s i n')) i (cl_nodes (raft_put s i n') i)"
      using inv i unfolding raft_inv_def by blast
    then have "election_ok True ns (cl_cast s) i n'" using cast by (simp add: raft_node_inv_def raft_put_def)
    then have "card (set ns) div 2 < card (voters ns (cl_cast s) (rn_current_term ?n) i)"
      using role by (simp add: election_ok_def)
    moreover have "voters ns (cl_cast s) (rn_current_term ?n) i = ab_voters ns (ab_term a i) i a"
      using simulatesD(2) [OF sim] n(1) by (auto simp: voters_def ab_voters_def node_abs_def)
    ultimately have "majority ns (ab_voters ns (ab_term a i) i a)" by (auto simp: majority_def ab_voters_def)
    moreover have "ab_role a i = Candidate" using n(1) cand by (simp add: node_abs_def)
    ultimately have "araft_reachable ns ?a" using sim i by (auto simp: simulates_def intro: ar_win)
    moreover have "abstracts ns (raft_put s i n') ?a"
    proof (rule abstracts_put [where a = a])
      show "abstracts ns s a" using sim by (simp add: simulates_def)
      have wf: "dict_wf (rn_match_index ?n)" "fst ` set (rn_match_index ?n) \<subseteq> set (rn_peers ?n)"
        using n(1,5) by (simp_all add: node_abs_def)
      have "dict_get (rn_match_index ?n) q 0 = 0" if "q \<notin> set (rn_peers ?n)" for q
        using that wf(2) by (intro dict_get_None) (auto simp: map_of_eq_None_iff)
      then have "dict_get (rn_match_index n') q 0 = 0" for q
        using reset_all(3) [OF wf(1), of "rn_peers ?n" q] by (simp add: n' become_leader_kept)
      moreover have "fst ` set (rn_match_index n') \<subseteq> set ns - {i}" "dict_wf (rn_match_index n')"
        using reset_all(1,2) [OF wf(1), of "rn_peers ?n"] wf(2) n(5) by (auto simp: n' become_leader_kept)
      ultimately show "node_abs ns ?a i n'"
        using n(1) role by (simp add: node_abs_def ab_win_def Let_def) (simp add: n' become_leader_kept)
      show "ab_cast ?a j = raft_record_vote (cl_cast s) i n' j" if "j \<in> set ns" for j
        using simulatesD(2) [OF sim that] cast by (simp add: ab_win_def Let_def)
    qed (simp_all add: ab_win_def Let_def)
    ultimately show ?thesis by blast
  qed
qed

lemma sim_append_call:
  assumes sim: "simulates ns s a" and i: "i \<in> set ns" and p: "p \<in> set (rn_peers (cl_nodes s i))"
    and out: "raft_append_request (cl_nodes s i) p = Inr (Some req)"
  shows "\<exists>a'. araft_reachable ns a' \<and> abstracts ns (s\<lparr>cl_append_calls := insert (i, p, req) (cl_append_calls s)\<rparr>) a'"
proof -
  let ?n = "cl_nodes s i" and ?a = "ab_send req a"
  note n = simulatesD [OF sim i]
  have log: "rl_last_included_index (rn_log ?n) = 0" using n(1) by (simp add: node_abs_def)
  define prev where "prev = dict_get (rn_next_index ?n) p 1 - 1"
  obtain t where t: "rl_get_term (rn_log ?n) prev = Inr t" "rn_state ?n = Leader"
    and req: "req = \<lparr>ar_term = rn_current_term ?n, ar_leader_id = rn_node_id ?n, ar_prev_log_index = prev, ar_prev_log_term = t,
      ar_entries = rl_get_entries (rn_log ?n) (dict_get (rn_next_index ?n) p 1), ar_leader_commit = rn_commit_index ?n\<rparr>"
    using out by (auto simp: raft_append_request_def Let_def prev_def split: if_splits sum.splits)
  have prev: "prev \<le> length (rl_entries (rn_log ?n)) \<and> (0 < prev \<longrightarrow> t = le_term (rl_entries (rn_log ?n) ! (prev - 1)))"
    using t(1) log by (auto simp: rl_get_term_def rl_getitem_def Let_def split: if_splits)
  have "ar_entries req = drop prev (rl_entries (rn_log ?n))" using log by (simp add: req rl_get_entries_def Let_def prev_def)
  then have "may_send i req a" using n(1) t(2) prev by (simp add: may_send_def node_abs_def req)
  then have "araft_reachable ns ?a" using sim i by (auto simp: simulates_def intro: ar_send)
  moreover have "abstracts ns (s\<lparr>cl_append_calls := insert (i, p, req) (cl_append_calls s)\<rparr>) ?a"
  proof -
    have "node_abs ns ?a j (cl_nodes s j)" if "j \<in> set ns" for j
      using simulatesD(1) [OF sim that] by (simp add: node_abs_def ab_send_def)
    moreover have "p \<in> set ns - {i}" using p n(5) by simp
    ultimately show ?thesis using sim by (auto simp: simulates_def abstracts_def) (auto simp: ab_send_def)
  qed
  ultimately show ?thesis by blast
qed

lemma seen_abs:
  "node_abs ns a i n \<Longrightarrow> rl_entries (rn_log (seen_term n t)) = ab_log a i \<and> rl_last_included_index (rn_log (seen_term n t)) = 0 \<and>
    log_stored (rn_log (seen_term n t)) \<and> rn_commit_index (seen_term n t) = ab_commit a i \<and>
    rn_match_index (seen_term n t) = rn_match_index n"
  by (simp add: seen_term_def node_abs_def raft_update_term_def raft_save_state_def)

text \<open>The receiver of a request: it refuses, or takes the entries and applies what it may.\<close>

lemma append_shape:
  assumes log: "rl_last_included_index (rn_log n) = 0" "log_stored (rn_log n)" and upto: "rn_current_term n \<le> ar_term req"
    and out: "raft_handle_append_entries M n req = (n', r)" and n0: "n0 = seen_term n (ar_term req)"
  shows "n' = n0 \<and> (\<forall>rt. r \<noteq> Inr (rt, True)) \<or>
    (\<exists>l. req_matches (rl_entries (rn_log n)) req \<and>
      raft_append_loop (rn_log n0) (ar_prev_log_index req + 1) (ar_entries req) = (l, Inr ()) \<and>
      rl_entries l = reconcile (rl_entries (rn_log n)) (ar_prev_log_index req) (ar_entries req) \<and>
      rl_last_included_index l = 0 \<and> log_stored l \<and>
      (if rn_commit_index n < ar_leader_commit req
       then n' = fst (raft_apply_committed_entries M
         (n0\<lparr>rn_log := l, rn_commit_index := min (ar_leader_commit req) (length (rl_entries l))\<rparr>))
       else n' = n0\<lparr>rn_log := l\<rparr>))"
proof -
  let ?L = "rl_entries (rn_log n)" and ?prev = "ar_prev_log_index req"
  have n0': "rl_last_included_index (rn_log n0) = 0" "log_stored (rn_log n0)" "rl_entries (rn_log n0) = ?L"
    "rn_commit_index n0 = rn_commit_index n"
    using log by (simp_all add: n0 seen_term_def raft_update_term_def raft_save_state_def)
  have whole: "log_of ?L (rn_log n0)" using whole_log(1) [OF n0'(1)] n0'(3) by simp
  have m: "rl_match_log (rn_log n0) ?prev (ar_prev_log_term req) = Inr (req_matches ?L req)"
    using rl_match_log_history [OF whole] n0'(1) by (simp add: req_matches_def)
  have late: "\<not> ar_term req < rn_current_term n" using upto by simp
  note handler = out [unfolded raft_handle_append_entries_def Let_def, folded seen_term_def n0, unfolded m if_not_P [OF late]]
  show ?thesis
  proof (cases "req_matches ?L req")
    case False
    then show ?thesis using handler by auto
  next
    case True
    then have "?prev \<le> length ?L" by (auto simp: req_matches_def)
    from append_loop_reconciles [OF whole _ this] n0'(1) obtain l where
      l: "raft_append_loop (rn_log n0) (?prev + 1) (ar_entries req) = (l, Inr ())" "log_of (reconcile ?L ?prev (ar_entries req)) l"
        "rl_last_included_index l = 0" by auto
    have "log_stored l" using append_loop_grows [OF l(1)] n0'(2) by simp
    moreover have "if rn_commit_index n < ar_leader_commit req
       then n' = fst (raft_apply_committed_entries M (n0\<lparr>rn_log := l, rn_commit_index := min (ar_leader_commit req) (length (rl_entries l))\<rparr>))
       else n' = n0\<lparr>rn_log := l\<rparr>"
      using handler True l(1) whole_log(2) [OF l(3)] n0'(4) by (auto split: if_splits prod.splits sum.splits)
    ultimately show ?thesis using True l(1,3) whole_log_entries [OF l(3,2)] by blast
  qed
qed

lemma append_outcome:
  assumes log: "rl_last_included_index (rn_log n) = 0" "log_stored (rn_log n)" and upto: "rn_current_term n \<le> ar_term req"
    and out: "raft_handle_append_entries M n req = (n', r)" and new: "rl_last_included_index (rn_log n') = 0"
  shows "n' = seen_term n (ar_term req) \<and> (\<forall>rt. r \<noteq> Inr (rt, True)) \<or>
    req_matches (rl_entries (rn_log n)) req \<and> same_role (seen_term n (ar_term req)) n' \<and> rn_match_index n' = rn_match_index n \<and>
    rl_entries (rn_log n') = reconcile (rl_entries (rn_log n)) (ar_prev_log_index req) (ar_entries req) \<and> log_stored (rn_log n') \<and>
    rn_commit_index n' = (if rn_commit_index n < ar_leader_commit req
      then min (ar_leader_commit req) (length (rl_entries (rn_log n'))) else rn_commit_index n)"
proof -
  define n0 where "n0 = seen_term n (ar_term req)"
  have n0: "rn_commit_index n0 = rn_commit_index n" "rn_match_index n0 = rn_match_index n"
    by (simp_all add: n0_def seen_term_def raft_update_term_def raft_save_state_def)
  from append_shape [OF log upto out n0_def] show ?thesis
  proof (elim disjE exE conjE)
    assume "n' = n0" "\<forall>rt. r \<noteq> Inr (rt, True)"
    then show ?thesis by (simp add: n0_def)
  next
    fix l
    assume l: "req_matches (rl_entries (rn_log n)) req" "raft_append_loop (rn_log n0) (ar_prev_log_index req + 1) (ar_entries req) = (l, Inr ())"
      "rl_entries l = reconcile (rl_entries (rn_log n)) (ar_prev_log_index req) (ar_entries req)" "log_stored l"
      and n': "if rn_commit_index n < ar_leader_commit req
       then n' = fst (raft_apply_committed_entries M (n0\<lparr>rn_log := l, rn_commit_index := min (ar_leader_commit req) (length (rl_entries l))\<rparr>))
       else n' = n0\<lparr>rn_log := l\<rparr>"
    define c where "c = (if rn_commit_index n < ar_leader_commit req then min (ar_leader_commit req) (length (rl_entries l)) else rn_commit_index n)"
    let ?m = "n0\<lparr>rn_log := l, rn_commit_index := c\<rparr>"
    have kept: "node_kept ?m n' \<and> same_role ?m n'"
    proof (cases "rn_commit_index n < ar_leader_commit req")
      case True
      then show ?thesis using n' apply_kept [of ?m M] apply_role [of ?m M] by (simp add: c_def)
    next
      case False
      then have "n' = ?m" using n' n0(1) by (simp add: c_def)
      then show ?thesis by simp
    qed
    have "same_role n0 ?m"
      using append_loop_state [of "rn_log n0" "ar_prev_log_index req + 1" "ar_entries req"] l(2) by (simp add: same_role_def)
    then have "same_role n0 n'" using kept same_role_trans by blast
    moreover have "rl_entries (rn_log n') = rl_entries l" "log_stored (rn_log n')" "rn_match_index n' = rn_match_index n" "rn_commit_index n' = c"
      using kept new l(4) n0(2) by (auto simp: node_kept_def logs_kept_def)
    ultimately show ?thesis using l(1,3) by (simp add: n0_def c_def)
  qed
qed

lemma record_seen:
  assumes "own_vote_ok cast i n" and "same_role (seen_term n t) n'"
  shows "raft_record_vote cast i n' = cast"
proof (cases "rn_current_term n < t")
  case True
  then show ?thesis using assms(2) by (intro record_none) (simp add: seen_term_def same_role_def)
next
  case False
  then show ?thesis using assms(2) by (intro record_same [OF assms(1)]) (simp_all add: seen_term_def same_role_def)
qed

lemma sim_append:
  assumes sim: "simulates ns s a" and p: "p \<in> set ns" and call: "(i, p, req) \<in> cl_append_calls s"
    and out: "raft_handle_append_entries M (cl_nodes s p) req = (n', r)" and new: "rl_last_included_index (rn_log n') = 0"
  shows "\<exists>a'. araft_reachable ns a' \<and> abstracts ns ((raft_put s p n')\<lparr>cl_append_replies := cl_append_replies s \<union>
    (case r of Inl e \<Rightarrow> {} | Inr (rt, ok) \<Rightarrow> {(i, p, req, rt, ok)})\<rparr>) a'"
proof -
  let ?n = "cl_nodes s p" and ?t = "ar_term req"
  note n = simulatesD [OF sim p]
  have req: "p \<in> set ns - {i}" "req \<in> ab_reqs a" using abstractsD(4) [OF _ call, of ns a] sim by (auto simp: simulates_def)
  have answered: "abstracts ns ((raft_put s p n')\<lparr>cl_append_replies := cl_append_replies s \<union>
      (case r of Inl e \<Rightarrow> {} | Inr (rt, ok) \<Rightarrow> {(i, p, req, rt, ok)})\<rparr>) a'"
    if "abstracts ns (raft_put s p n') a'"
      and "(\<forall>rt. r \<noteq> Inr (rt, True)) \<or> (p, ?t, ar_prev_log_index req + length (ar_entries req)) \<in> ab_acks a'" for a'
    using abstracts_replies [OF that(1), of "case r of Inl e \<Rightarrow> {} | Inr (rt, ok) \<Rightarrow> {(i, p, req, rt, ok)}"] that(2) req(1)
    by (auto simp: raft_put_def split: sum.splits)
  have seen: ?thesis if "n' = seen_term ?n t" "\<forall>rt. r \<noteq> Inr (rt, True)" for t
    using sim_seen [OF sim p, of t] answered that by blast
  show ?thesis
  proof (cases "?t < rn_current_term ?n")
    case True
    then have "n' = seen_term ?n 0 \<and> (\<forall>rt. r \<noteq> Inr (rt, True))" using out by (auto simp: raft_handle_append_entries_def seen_term_def)
    then show ?thesis using seen by blast
  next
    case False
    then have upto: "rn_current_term ?n \<le> ?t" by simp
    have whole: "rl_last_included_index (rn_log ?n) = 0" "log_stored (rn_log ?n)"
      and same: "ab_log a p = rl_entries (rn_log ?n)" "ab_commit a p = rn_commit_index ?n"
      using n(1) by (simp_all add: node_abs_def)
    have cases: "n' = seen_term ?n ?t \<and> (\<forall>rt. r \<noteq> Inr (rt, True)) \<or>
      req_matches (ab_log a p) req \<and> same_role (seen_term ?n ?t) n' \<and> rn_match_index n' = rn_match_index ?n \<and>
      rl_entries (rn_log n') = reconcile (ab_log a p) (ar_prev_log_index req) (ar_entries req) \<and> log_stored (rn_log n') \<and>
      rn_commit_index n' = (if ab_commit a p < ar_leader_commit req
        then min (ar_leader_commit req) (length (rl_entries (rn_log n'))) else ab_commit a p)"
      unfolding same by (rule append_outcome [OF whole upto out new])
    show ?thesis
    proof (cases "n' = seen_term ?n ?t \<and> (\<forall>rt. r \<noteq> Inr (rt, True))")
      case True
      then show ?thesis using seen by blast
    next
      case False
      let ?a = "ab_accept p req a"
      have m: "req_matches (ab_log a p) req" "same_role (seen_term ?n ?t) n'" "rn_match_index n' = rn_match_index ?n"
        "rl_entries (rn_log n') = reconcile (ab_log a p) (ar_prev_log_index req) (ar_entries req)" "log_stored (rn_log n')"
        "rn_commit_index n' = (if ab_commit a p < ar_leader_commit req
          then min (ar_leader_commit req) (length (rl_entries (rn_log n'))) else ab_commit a p)"
        using cases False by blast+
      have "ab_term a p \<le> ?t" using n(1) upto by (simp add: node_abs_def)
      then have "araft_reachable ns ?a" using sim p req(2) m(1) by (auto simp: simulates_def intro: ar_accept)
      moreover have "abstracts ns (raft_put s p n') ?a"
      proof (rule abstracts_put [where a = a])
        show "abstracts ns s a" using sim by (simp add: simulates_def)
        have "ab_term ?a p = rn_current_term n'" "ab_role ?a p = rn_state n'" "rn_state n' = Leader \<longrightarrow> rn_state ?n = Leader"
          using m(2) n(1) upto by (auto simp: ab_accept_def Let_def same_role_def seen_term_def node_abs_def split: if_splits)
        then show "node_abs ns ?a p n'"
          using n(1) m(3-6) new by (simp add: node_abs_def) (simp add: ab_accept_def Let_def)
        show "ab_cast ?a j = raft_record_vote (cl_cast s) p n' j" if "j \<in> set ns" for j
          using simulatesD(2) [OF sim that] record_seen [OF n(3) m(2)] by (simp add: ab_accept_def Let_def)
      qed (auto simp: ab_accept_def Let_def)
      ultimately show ?thesis using answered [of ?a] by (auto simp: ab_accept_def Let_def)
    qed
  qed
qed

lemma sim_submit:
  assumes sim: "simulates ns s a" and i: "i \<in> set ns" and out: "raft_submit_command (cl_nodes s i) c = (n', r)"
  shows "\<exists>a'. araft_reachable ns a' \<and> abstracts ns (raft_put s i n') a'"
proof (cases "rn_state (cl_nodes s i) = Leader")
  case False
  then have "n' = cl_nodes s i" using out by (simp add: raft_submit_command_def)
  then show ?thesis using sim put_same [OF sim i simulatesD(1) [OF sim i] refl refl] by (auto simp: simulates_def)
next
  case True
  let ?n = "cl_nodes s i"
  let ?e = "\<lparr>le_term = rn_current_term ?n, le_index = rl_len (rn_log ?n) + 1, le_command = c\<rparr>"
  let ?a = "ab_submit i ?e a"
  note n = simulatesD [OF sim i]
  have n': "n' = ?n\<lparr>rn_log := rl_append (rn_log ?n) ?e, rn_futures := rn_futures ?n + 1,
      rn_pending_commits := (rn_pending_commits ?n)(rl_len (rn_log ?n) + 1 \<mapsto> rn_futures ?n)\<rparr>"
    using out True by (simp add: raft_submit_command_def Let_def)
  have "araft_reachable ns ?a" using sim i n(1) True by (auto simp: simulates_def node_abs_def intro!: ar_submit)
  moreover have "abstracts ns (raft_put s i n') ?a"
  proof (rule abstracts_put [where a = a])
    show "abstracts ns s a" using sim by (simp add: simulates_def)
    have "rl_entries (rl_append (rn_log ?n) ?e) = rl_entries (rn_log ?n) @ [?e]" by (simp add: rl_append_def rl_persist_def)
    then show "node_abs ns ?a i n'" using n(1) by (simp add: node_abs_def ab_submit_def n')
    have "raft_record_vote (cl_cast s) i n' = cl_cast s" by (rule record_same [OF n(3)]) (simp_all add: n')
    then show "ab_cast ?a j = raft_record_vote (cl_cast s) i n' j" if "j \<in> set ns" for j
      using simulatesD(2) [OF sim that] by (simp add: ab_submit_def)
  qed (simp_all add: ab_submit_def)
  ultimately show ?thesis by blast
qed

lemma sim_restart:
  assumes sim: "simulates ns s a" and i: "i \<in> set ns"
    and out: "raft_init M machine0 k i ps (rl_storage (rn_log (cl_nodes s i))) = Inr n'"
  shows "\<exists>a'. araft_reachable ns a' \<and> abstracts ns (raft_put s i n') a'"
proof -
  let ?n = "cl_nodes s i" and ?a = "ab_reset i a"
  note n = simulatesD [OF sim i]
  have stored: "log_stored (rn_log ?n)" using n(1) by (simp add: node_abs_def)
  note new = raft_init_kept [OF out, unfolded rl_load_stored [OF stored]]
  have "vote_saved ?n" using sim i by (simp add: simulates_def raft_inv_def raft_node_inv_def)
  then have vote: "rn_current_term n' = rn_current_term ?n" "rn_voted_for n' = rn_voted_for ?n"
    using new(5) by (simp_all add: vote_saved_def)
  have "araft_reachable ns ?a" using sim i by (auto simp: simulates_def intro: ar_reset)
  moreover have "abstracts ns (raft_put s i n') ?a"
  proof (rule abstracts_put [where a = a])
    show "abstracts ns s a" using sim by (simp add: simulates_def)
    show "node_abs ns ?a i n'" using n(1) new vote by (simp add: node_abs_def ab_reset_def)
    show "ab_cast ?a j = raft_record_vote (cl_cast s) i n' j" if "j \<in> set ns" for j
      using simulatesD(2) [OF sim that] record_same [OF n(3) vote] by (simp add: ab_reset_def)
  qed (simp_all add: ab_reset_def)
  ultimately show ?thesis by blast
qed

text \<open>The leader's count of replicas.\<close>

lemma replicas_majority:
  assumes wf: "dict_wf (rn_match_index n)" and keys: "fst ` set (rn_match_index n) \<subseteq> set ns - {i}" and i: "i \<in> set ns"
    and maj: "card (set ns) div 2 < replicas_known n k"
  shows "majority ns {p \<in> set ns. p = i \<or> k \<le> dict_get (rn_match_index n) p 0}"
proof -
  let ?d = "rn_match_index n" and ?S = "{p \<in> set ns. p = i \<or> k \<le> dict_get (rn_match_index n) p 0}"
  let ?f = "filter (\<lambda>x. k \<le> snd x) ?d"
  have "distinct (map fst ?f)" using wf by (rule distinct_map_filter)
  then have "card (fst ` set ?f) = length ?f" by (metis distinct_card length_map list.set_map)
  moreover have sub: "insert i (fst ` set ?f) \<subseteq> ?S" "i \<notin> fst ` set ?f"
    using keys i wf by (auto simp: dict_get_def)
  then have "card (insert i (fst ` set ?f)) \<le> card ?S" by (intro card_mono) auto
  moreover have "card (insert i (fst ` set ?f)) = Suc (card (fst ` set ?f))" using sub(2) by simp
  moreover have "replicas_known n k \<le> Suc (length ?f)" by (simp add: replicas_known_def filter_map comp_def)
  ultimately show ?thesis using maj by (auto simp: majority_def)
qed

lemma commit_decides:
  assumes node: "node_abs ns a i n" and i: "i \<in> set ns" and lead: "rn_state n = Leader"
    and nodes: "length (raft_all_nodes n) = card (set ns)" and n': "n' = fst (raft_update_commit_index M n)"
  shows "rn_commit_index n' = rn_commit_index n \<or> may_decide ns i (rn_commit_index n') a"
proof (cases "length (raft_all_nodes n) div 2 < length (rn_match_index n) + 1")
  case False
  then show ?thesis by (simp add: n' raft_update_commit_index_def Let_def)
next
  case True
  obtain N where N: "\<forall>m. m \<le> N \<longleftrightarrow> length (raft_all_nodes n) div 2 < replicas_known n m"
    and commit: "rn_commit_index n' =
      (if rn_commit_index n < N \<and> rl_get_term (rn_log n) N = Inr (rn_current_term n) then N else rn_commit_index n)"
    using update_commit_eq [OF True, of M] unfolding n' by blast
  show ?thesis
  proof (cases "rn_commit_index n < N \<and> rl_get_term (rn_log n) N = Inr (rn_current_term n)")
    case False
    then show ?thesis unfolding commit by auto
  next
    case t: True
    have whole: "rl_last_included_index (rn_log n) = 0" using node by (simp add: node_abs_def)
    then have "N \<le> length (rl_entries (rn_log n)) \<and> le_term (rl_entries (rn_log n) ! (N - 1)) = rn_current_term n"
      using t by (auto simp: rl_get_term_def rl_getitem_def Let_def split: if_splits)
    moreover have "majority ns {p \<in> set ns. p = i \<or> N \<le> dict_get (rn_match_index n) p 0}"
      using node N nodes by (intro replicas_majority i) (auto simp: node_abs_def)
    ultimately have "may_decide ns i N a" using node lead t by (simp add: may_decide_def node_abs_def)
    then show ?thesis using t commit by simp
  qed
qed

lemma sim_append_reply:
  assumes sim: "simulates ns s a" and i: "i \<in> set ns" and reply: "(i, p, req, rt, ok) \<in> cl_append_replies s"
    and prompt: "ok \<Longrightarrow> ar_term req = rn_current_term (cl_nodes s i)"
    and n': "n' = raft_append_reply M (cl_nodes s i) p req rt ok" and new: "rl_last_included_index (rn_log n') = 0"
  shows "\<exists>a'. araft_reachable ns a' \<and> abstracts ns (raft_put s i n') a'"
proof -
  let ?n = "cl_nodes s i" and ?k = "ar_prev_log_index req + length (ar_entries req)"
  let ?m = "?n\<lparr>rn_match_index := dict_set p ?k (rn_match_index ?n), rn_next_index := dict_set p (?k + 1) (rn_next_index ?n)\<rparr>"
  note n = simulatesD [OF sim i]
  have "(\<exists>d. n' = ?n\<lparr>rn_next_index := d\<rparr>) \<or> n' = raft_update_term ?n rt \<and> rn_current_term ?n < rt \<or>
      n' = fst (raft_update_commit_index M ?m) \<and> rn_state ?n = Leader \<and> ok"
  proof -
    have "?n = ?n\<lparr>rn_next_index := rn_next_index ?n\<rparr>" by simp
    then have "\<exists>d. ?n = ?n\<lparr>rn_next_index := d\<rparr>" by blast
    then show ?thesis by (auto simp: n' raft_append_reply_def Let_def split: option.splits)
  qed
  then show ?thesis
  proof (elim disjE conjE exE)
    fix d assume d: "n' = ?n\<lparr>rn_next_index := d\<rparr>"
    have "abstracts ns (raft_put s i n') a" by (rule put_same [OF sim i]) (use n(1) d in \<open>simp_all add: node_abs_def\<close>)
    then show ?thesis using sim by (auto simp: simulates_def)
  next
    assume "n' = raft_update_term ?n rt" "rn_current_term ?n < rt"
    then show ?thesis using put_see [OF sim i] by auto
  next
    assume u: "n' = fst (raft_update_commit_index M ?m)" and lead: "rn_state ?n = Leader" and ok
    let ?a = "ab_ack i p ?k a"
    let ?b = "if rn_commit_index n' = rn_commit_index ?n then ?a else ab_decide i (rn_commit_index n') ?a"
    have ack: "p \<in> set ns - {i}" "(p, ab_term a i, ?k) \<in> ab_acks a"
      using abstractsD(5) [OF _ reply, of ns a] sim \<open>ok\<close> prompt n(1) by (auto simp: simulates_def node_abs_def)
    have m: "node_abs ns ?a i ?m" using n(1) ack(1) by (auto simp: node_abs_def ab_ack_def dict_keys_set)
    have "araft_reachable ns ?a" using sim i n(1) lead ack(2) by (auto simp: simulates_def node_abs_def intro!: ar_ack)
    moreover have "rn_commit_index n' = rn_commit_index ?n \<or> may_decide ns i (rn_commit_index n') ?a"
      using commit_decides [OF m i _ _ u] lead n(6) by (simp add: raft_all_nodes_def)
    ultimately have "araft_reachable ns ?b" using i by (auto intro: ar_decide)
    moreover have "abstracts ns (raft_put s i n') ?b"
    proof (rule abstracts_put [where a = a])
      show "abstracts ns s a" using sim by (simp add: simulates_def)
      have kept: "logs_kept (rn_log ?n) (rn_log n')" "rn_match_index n' = rn_match_index ?m" "same_role ?m n'"
        using update_commit_kept [of ?m M] update_commit_role [of ?m M] by (simp_all add: u)
      then have "node_abs ns ?a i (n'\<lparr>rn_commit_index := rn_commit_index ?n\<rparr>)"
        using m new by (simp add: node_abs_def logs_kept_def same_role_def)
      then show "node_abs ns ?b i n'" by (auto simp: node_abs_def ab_decide_def ab_ack_def)
      have "raft_record_vote (cl_cast s) i n' = cl_cast s"
        by (rule record_same [OF n(3)]) (use kept(3) in \<open>simp_all add: same_role_def\<close>)
      then show "ab_cast ?b j = raft_record_vote (cl_cast s) i n' j" if "j \<in> set ns" for j
        using simulatesD(2) [OF sim that] by (simp add: ab_ack_def ab_decide_def)
    qed (auto simp: ab_ack_def ab_decide_def)
    ultimately show ?thesis by blast
  qed
qed

section \<open>The refinement\<close>

definition uncompacted :: "node_id list \<Rightarrow> ('s, 'c, 'r, 'b) raft_cluster \<Rightarrow> bool" where
  "uncompacted ns s \<longleftrightarrow> (\<forall>i\<in>set ns. rl_last_included_index (rn_log (cl_nodes s i)) = 0)"

lemma uncompacted_put:
  assumes "uncompacted ns (raft_put s i n')" and "i \<in> set ns" and "log_grows (cl_nodes s i) n'"
  shows "uncompacted ns s" and "rl_last_included_index (rn_log n') = 0"
proof -
  have "rl_last_included_index (rn_log (cl_nodes (raft_put s i n') i)) = 0" using assms(1,2) unfolding uncompacted_def by blast
  then show zero: "rl_last_included_index (rn_log n') = 0" by (simp add: raft_put_def)
  have "rl_last_included_index (rn_log (cl_nodes s j)) = 0" if "j \<in> set ns" for j
    using assms that zero by (cases "j = i") (auto simp: uncompacted_def raft_put_def log_grows_def split: if_splits)
  then show "uncompacted ns s" by (simp add: uncompacted_def)
qed

lemma uncompacted_fields [simp]:
  "uncompacted ns (s\<lparr>cl_vote_calls := a\<rparr>) = uncompacted ns s"
  "uncompacted ns (s\<lparr>cl_vote_replies := b\<rparr>) = uncompacted ns s"
  "uncompacted ns (s\<lparr>cl_append_calls := c\<rparr>) = uncompacted ns s"
  "uncompacted ns (s\<lparr>cl_append_replies := d\<rparr>) = uncompacted ns s"
  by (simp_all add: uncompacted_def)

lemma start_abs:
  assumes "\<forall>i\<in>set ns. raft_init M machine0 k i (raft_peers_of ns i) fs_init = Inr (nodes i)"
  shows "abstracts ns \<lparr>cl_nodes = nodes, cl_vote_calls = {}, cl_vote_replies = {}, cl_append_calls = {}, cl_append_replies = {},
    cl_cast = (\<lambda>_ _. None)\<rparr> ab_init"
proof -
  have "node_abs ns ab_init i (nodes i)" if "i \<in> set ns" for i
  proof -
    have init: "raft_init M machine0 k i (raft_peers_of ns i) fs_init = Inr (nodes i)" using assms that by blast
    show ?thesis using raft_init_fresh [OF init] raft_init_kept [OF init] by (simp add: node_abs_def ab_init_def)
  qed
  then show ?thesis by (simp add: abstracts_def) (simp add: ab_init_def)
qed

lemma before_put:
  assumes reach: "raft_reachable M machine0 k ns True True s"
    and IH: "uncompacted ns s \<Longrightarrow> \<exists>a. araft_reachable ns a \<and> abstracts ns s a"
    and i: "i \<in> set ns" and grows: "log_grows (cl_nodes s i) n'" and new: "uncompacted ns (raft_put s i n')"
  obtains a where "simulates ns s a" and "rl_last_included_index (rn_log n') = 0"
proof -
  note old = uncompacted_put [OF new i grows]
  obtain a where "araft_reachable ns a" "abstracts ns s a" using IH [OF old(1)] by blast
  then show ?thesis using that old(2) raft_reachable_inv [OF reach] unfolding simulates_def by blast
qed

text \<open>Every reachable cluster without a compacted log abstracts to a reachable state of the protocol.\<close>

lemma raft_refines:
  "raft_reachable M machine0 k ns True True s \<Longrightarrow> uncompacted ns s \<Longrightarrow> \<exists>a. araft_reachable ns a \<and> abstracts ns s a"
proof (induction rule: raft_reachable.induct)
  case (rc_start nodes)
  show ?case by (rule exI [of _ ab_init], rule conjI [OF ar_init start_abs [OF rc_start.hyps]])
next
  case (rc_run s i)
  obtain a where sim: "simulates ns s a" by (rule before_put [OF rc_run.hyps(1) rc_run.IH rc_run.hyps(2) start_stop_grows(1) rc_run.prems])
  have "abstracts ns (raft_put s i (raft_start (cl_nodes s i))) a"
    by (rule put_same [OF sim rc_run.hyps(2)]) (use simulatesD(1) [OF sim rc_run.hyps(2)] in \<open>simp_all add: node_abs_def raft_start_def\<close>)
  then show ?case using sim unfolding simulates_def by blast
next
  case (rc_stop s i)
  obtain a where sim: "simulates ns s a" by (rule before_put [OF rc_stop.hyps(1) rc_stop.IH rc_stop.hyps(2) start_stop_grows(2) rc_stop.prems])
  have "abstracts ns (raft_put s i (raft_stop (cl_nodes s i))) a"
    by (rule put_same [OF sim rc_stop.hyps(2)]) (use simulatesD(1) [OF sim rc_stop.hyps(2)] in \<open>simp_all add: node_abs_def raft_stop_def\<close>)
  then show ?case using sim unfolding simulates_def by blast
next
  case (rc_timeout s i n ws)
  have grows: "log_grows (cl_nodes s i) n" using timeout_grows [of "cl_nodes s i"] rc_timeout.hyps(3) by simp
  have new: "uncompacted ns (raft_put s i n)" using rc_timeout.prems by simp
  obtain a where "simulates ns s a" by (rule before_put [OF rc_timeout.hyps(1) rc_timeout.IH rc_timeout.hyps(2) grows new])
  then show ?case by (rule sim_timeout [OF _ rc_timeout.hyps(2,3)])
next
  case (rc_vote s p i t x y n rt granted)
  have grows: "log_grows (cl_nodes s p) n" using request_vote_log_grows [of "cl_nodes s p" t i x y] rc_vote.hyps(4) by simp
  have new: "uncompacted ns (raft_put s p n)" using rc_vote.prems by simp
  obtain a where "simulates ns s a" by (rule before_put [OF rc_vote.hyps(1) rc_vote.IH rc_vote.hyps(2) grows new])
  from sim_vote [OF this rc_vote.hyps(2-4)] show ?case by simp
next
  case (rc_vote_raises s p i t x y n e)
  have grows: "log_grows (cl_nodes s p) n"
    using request_vote_log_grows [of "cl_nodes s p" t i x y] rc_vote_raises.hyps(4) by simp
  obtain a where "simulates ns s a"
    by (rule before_put [OF rc_vote_raises.hyps(1) rc_vote_raises.IH rc_vote_raises.hyps(2) grows rc_vote_raises.prems])
  from sim_vote [OF this rc_vote_raises.hyps(2-4)] show ?case .
next
  case (rc_vote_lost s i p t x y)
  then show ?case by simp
next
  case (rc_vote_reply s i p t rt granted n ws)
  have grows: "log_grows (cl_nodes s i) n" using vote_reply_grows [of "cl_nodes s i" p t rt granted] rc_vote_reply.hyps(5) by simp
  obtain a where sim: "simulates ns s a"
    by (rule before_put [OF rc_vote_reply.hyps(1) rc_vote_reply.IH rc_vote_reply.hyps(2) grows rc_vote_reply.prems])
  have "raft_inv True ns (raft_put s i n)"
    by (rule put_vote_reply_inv [OF raft_reachable_inv [OF rc_vote_reply.hyps(1)] rc_vote_reply.hyps(2-5)])
  then show ?case by (rule sim_vote_reply [OF sim rc_vote_reply.hyps(2) _ rc_vote_reply.hyps(5)])
next
  case (rc_append_call s i p req)
  then obtain a where "simulates ns s a"
    using raft_reachable_inv [OF rc_append_call.hyps(1)] unfolding simulates_def by auto
  then show ?case by (rule sim_append_call [OF _ rc_append_call.hyps(2-4)])
next
  case (rc_append s p i req n r)
  have grows: "log_grows (cl_nodes s p) n" using handle_append_grows [of "cl_nodes s p" M req] rc_append.hyps(4) by simp
  have new: "uncompacted ns (raft_put s p n)" using rc_append.prems by simp
  obtain a where "simulates ns s a" and "rl_last_included_index (rn_log n) = 0"
    by (rule before_put [OF rc_append.hyps(1) rc_append.IH rc_append.hyps(2) grows new])
  then show ?case by (rule sim_append [OF _ rc_append.hyps(2-4)])
next
  case (rc_append_lost s i p req)
  then obtain a where a: "araft_reachable ns a" "abstracts ns s a" by auto
  have "p \<in> set ns - {i}" using abstractsD(4) [OF a(2) rc_append_lost.hyps(2)] by blast
  then have "abstracts ns (s\<lparr>cl_append_replies := cl_append_replies s \<union> {(i, p, req, 0, False)}\<rparr>) a"
    by (intro abstracts_replies a(2)) simp
  then show ?case using a(1) by auto
next
  case (rc_append_reply s i p req rt okay)
  obtain a where "simulates ns s a" and "rl_last_included_index (rn_log (raft_append_reply M (cl_nodes s i) p req rt okay)) = 0"
    by (rule before_put [OF rc_append_reply.hyps(1) rc_append_reply.IH rc_append_reply.hyps(2) append_reply_grows rc_append_reply.prems])
  then show ?case
    using sim_append_reply [OF _ rc_append_reply.hyps(2,3) _ refl] rc_append_reply.hyps(4) by blast
next
  case (rc_submit s i c n r)
  have grows: "log_grows (cl_nodes s i) n" using submit_grows [of "cl_nodes s i" c] rc_submit.hyps(3) by simp
  obtain a where "simulates ns s a" by (rule before_put [OF rc_submit.hyps(1) rc_submit.IH rc_submit.hyps(2) grows rc_submit.prems])
  then show ?case by (rule sim_submit [OF _ rc_submit.hyps(2,3)])
next
  case (rc_restart s i n)
  have "log_stored (rn_log (cl_nodes s i))"
    using raft_reachable_stored [OF rc_restart.hyps(1)] rc_restart.hyps(2) by (simp add: logs_stored_def)
  then have "rn_log n = rn_log (cl_nodes s i)" using raft_init_kept(1) [OF rc_restart.hyps(3)] rl_load_stored by metis
  then have grows: "log_grows (cl_nodes s i) n" by (simp add: log_grows_def)
  obtain a where "simulates ns s a"
    by (rule before_put [OF rc_restart.hyps(1) rc_restart.IH rc_restart.hyps(2) grows rc_restart.prems])
  then show ?case by (rule sim_restart [OF _ rc_restart.hyps(2,3)])
qed

end
