(* ===== verification/Raft_Safety.thy ===== *)
theory Raft_Safety
  imports Raft_Refinement
begin

text \<open>
  The safety of the replicated state machine of \<open>raft-from-scratch/src\<close>: the logs of two nodes match,
  their committed prefixes agree, and two nodes that have applied equally many entries have equal
  stores. And the run that loses a committed entry when an old acknowledgement is counted in a later
  term.
\<close>

section \<open>The logs\<close>

lemma uncompacted_abs:
  assumes "raft_reachable M machine0 k ns True True s" and "uncompacted ns s"
  obtains a where "araft_inv ns a" and "\<And>i. i \<in> set ns \<Longrightarrow> node_abs ns a i (cl_nodes s i)" and "simulates ns s a"
proof -
  obtain a where a: "araft_reachable ns a" "abstracts ns s a" using raft_refines [OF assms] by blast
  show ?thesis
    by (rule that [OF araft_reachable_inv [OF a(1)] abstractsD(1) [OF a(2)]])
      (use a raft_reachable_inv [OF assms(1)] in \<open>simp_all add: simulates_def\<close>)
qed

lemma uncompacted_getitem:
  "rl_last_included_index l = 0 \<Longrightarrow> rl_getitem l m = Inr e \<longleftrightarrow> 0 < m \<and> m \<le> length (rl_entries l) \<and> e = rl_entries l ! (m - 1)"
  by (auto simp: rl_getitem_def Let_def split: if_splits)

text \<open>
  C7. Log matching: if the logs of two nodes have an entry of the same term at the same index, they
  are equal up to it. The hypotheses are that answers arrive in the term they are for (votes and
  acknowledgements; everything else may be late, reordered, repeated or lost) and that no log has
  been compacted yet.
\<close>

theorem raft_log_matching:
  assumes "raft_reachable M machine0 k ns True True s" and "uncompacted ns s" and "i \<in> set ns" and "j \<in> set ns"
    and "rl_getitem (rn_log (cl_nodes s i)) m = Inr e" and "rl_getitem (rn_log (cl_nodes s j)) m = Inr e'" and "le_term e = le_term e'"
  shows "take m (rl_entries (rn_log (cl_nodes s i))) = take m (rl_entries (rn_log (cl_nodes s j)))"
proof -
  obtain a where a: "araft_inv ns a" "\<And>i. i \<in> set ns \<Longrightarrow> node_abs ns a i (cl_nodes s i)"
    using uncompacted_abs [OF assms(1,2)] by metis
  have logs: "ab_log a x = rl_entries (rn_log (cl_nodes s x))" "rl_last_included_index (rn_log (cl_nodes s x)) = 0"
    if "x \<in> set ns" for x
    using a(2) [OF that] by (simp_all add: node_abs_def)
  have m: "0 < m" "m - 1 < length (ab_log a i)" "m - 1 < length (ab_log a j)" "le_term (ab_log a i ! (m - 1)) = le_term (ab_log a j ! (m - 1))"
    using assms(3-7) logs by (auto simp: uncompacted_getitem)
  have "conforms (ab_hist a) (ab_log a x)" for x using a(1) by (simp add: araft_inv_def inv_logs_def)
  from conforms_agree [OF this this m(2-4)] show ?thesis using m(1) logs assms(3,4) by simp
qed

section \<open>The stores\<close>

text \<open>Handlers that leave alone what the state machine is made of.\<close>

definition store_kept :: "('s, 'c, 'r, 'b) raft_node \<Rightarrow> ('s, 'c, 'r, 'b) raft_node \<Rightarrow> bool" where
  "store_kept n n' \<longleftrightarrow> rl_entries (rn_log n') = rl_entries (rn_log n) \<and>
     rl_last_included_index (rn_log n') = rl_last_included_index (rn_log n) \<and> (log_stored (rn_log n) \<longrightarrow> log_stored (rn_log n')) \<and>
     fs_load_snapshot (rl_storage (rn_log n')) = fs_load_snapshot (rl_storage (rn_log n)) \<and>
     rn_machine n' = rn_machine n \<and> rn_last_applied n' = rn_last_applied n \<and> rn_commit_index n' = rn_commit_index n"

lemma store_kept_refl [simp]: "store_kept n n"
  by (simp add: store_kept_def)

lemma update_term_store: "store_kept n (raft_update_term n t)"
  by (simp add: store_kept_def raft_update_term_def raft_save_state_def)

lemma seen_store: "store_kept n (seen_term n t)"
  by (simp add: seen_term_def update_term_store)

lemma start_stop_store: "store_kept n (raft_start n)" "store_kept n (raft_stop n)"
  by (simp_all add: store_kept_def raft_start_def raft_stop_def)

lemma timeout_store: "store_kept n (fst (raft_election_timeout n))"
  by (auto simp: raft_election_timeout_def raft_start_election_def Let_def raft_save_state_def store_kept_def split: sum.splits)

lemma request_vote_store: "store_kept n (fst (raft_handle_request_vote n t i a b))"
  using update_term_store [of n t]
  by (auto simp: raft_handle_request_vote_def Let_def raft_save_state_def store_kept_def split: sum.splits)

lemma become_leader_store: "store_kept n (fst (raft_become_leader n))"
proof -
  have "store_kept m (foldl (\<lambda>n peer. n\<lparr>rn_next_index := dict_set peer i (rn_next_index n),
      rn_match_index := dict_set peer 0 (rn_match_index n)\<rparr>) m ps)" for m :: "('a, 'b, 'c, 'd) raft_node" and i ps
    by (induction ps arbitrary: m) (auto simp: store_kept_def)
  then show "store_kept n (fst (raft_become_leader n))" by (simp add: raft_become_leader_def Let_def store_kept_def)
qed

lemma vote_reply_store: "store_kept n (fst (raft_vote_reply n p t rt granted))"
proof -
  have "store_kept n (fst (raft_become_leader (n\<lparr>rn_votes := v\<rparr>)))" for v
    using become_leader_store [of "n\<lparr>rn_votes := v\<rparr>"] by (simp add: store_kept_def)
  then show ?thesis by (auto simp: raft_vote_reply_def Let_def update_term_store) (simp_all add: store_kept_def)
qed

lemma apply_upto_commit:
  "rn_last_applied n \<le> rn_commit_index n \<Longrightarrow> rn_last_applied (fst (raft_apply_committed_entries M n)) \<le> rn_commit_index n"
proof (induction M n rule: raft_apply_committed_entries.induct)
  case (1 M n)
  obtain n' r where one: "raft_apply_one M n = (n', r)" by fastforce
  then have n': "rn_commit_index n' = rn_commit_index n" "rn_last_applied n' = rn_last_applied n + 1"
    using raft_apply_one_frame [of M n] by simp_all
  show ?case
    using 1(1) [OF _ one [symmetric]] 1(2) n' one
    by (subst raft_apply_committed_entries.simps) (auto split: sum.splits)
qed

lemma append_loop_snapshot:
  "raft_append_loop l idx es = (l', r) \<Longrightarrow> fs_load_snapshot (rl_storage l') = fs_load_snapshot (rl_storage l)"
proof (induction l idx es arbitrary: l' rule: raft_append_loop.induct)
  case (2 l idx e es)
  have "fs_load_snapshot (rl_storage (rl_append m e)) = fs_load_snapshot (rl_storage m)"
    "fs_load_snapshot (rl_storage (rl_truncate m i)) = fs_load_snapshot (rl_storage m)" for m :: "('a, 'b) raft_log" and e i
    by (simp_all add: rl_append_def rl_truncate_def rl_persist_def Let_def)
  with 2 show ?case by (auto split: sum.splits if_splits)
qed simp

text \<open>
  The state of the machine of every node is what its own log says: it has applied the first
  \<open>last_applied\<close> entries, all of them committed, and committed entries are never taken back.
\<close>

context raft_service
begin

definition applied :: "('s, 'c, 'r, 'b) raft_node \<Rightarrow> bool" where
  "applied n \<longleftrightarrow> stands_for (rl_entries (rn_log n)) n \<and> rn_last_applied n \<le> rn_commit_index n \<and>
     rn_commit_index n \<le> length (rl_entries (rn_log n))"

lemma applied_kept: "applied n \<Longrightarrow> store_kept n n' \<Longrightarrow> rl_last_included_index (rn_log n) = 0 \<Longrightarrow> applied n'"
  by (simp add: applied_def store_kept_def stands_for_def log_of_def)

lemma applied_commit:
  assumes "applied n" and "rn_commit_index n \<le> c" and "c \<le> length (rl_entries (rn_log n))"
    and "rl_last_included_index (rn_log (fst (raft_apply_committed_entries M (n\<lparr>rn_commit_index := c\<rparr>)))) = 0"
  shows "applied (fst (raft_apply_committed_entries M (n\<lparr>rn_commit_index := c\<rparr>)))"
proof -
  let ?n = "n\<lparr>rn_commit_index := c\<rparr>" and ?h = "rl_entries (rn_log n)"
  obtain n' r where n': "raft_apply_committed_entries M ?n = (n', r)" by fastforce
  have "stands_for ?h ?n" using assms(1) by (simp add: applied_def)
  from apply_stands [OF this _ n'] have stands: "stands_for ?h n'" "rn_commit_index n' = c" using assms(3) by simp_all
  have "rn_last_applied n' \<le> c" using apply_upto_commit [of ?n M] assms(1,2) n' by (simp add: applied_def)
  moreover have "rl_entries (rn_log n') = ?h"
    using stands(1) assms(4) n' by (simp add: stands_for_def whole_log_entries)
  ultimately show ?thesis using stands assms(3) n' by (simp add: applied_def)
qed

text \<open>A longer or rewritten log that keeps what is committed.\<close>

lemma applied_log:
  assumes "applied n" and zero: "rl_last_included_index (rn_log n) = 0" "rl_last_included_index l = 0" and "log_stored l"
    and "fs_load_snapshot (rl_storage l) = fs_load_snapshot (rl_storage (rn_log n))"
    and "rn_commit_index n \<le> length (rl_entries l)"
    and "take (rn_commit_index n) (rl_entries l) = take (rn_commit_index n) (rl_entries (rn_log n))"
  shows "applied (n\<lparr>rn_log := l\<rparr>)"
proof -
  have "take (rn_last_applied n) (rl_entries l) = take (rn_last_applied n) (rl_entries (rn_log n))"
    using assms(1,7) by (metis applied_def min.absorb1 take_take)
  then have "after (rl_entries l) (rn_last_applied n) = after (rl_entries (rn_log n)) (rn_last_applied n)" by (simp add: after_def)
  then show ?thesis using assms whole_log(1) [OF zero(2)] by (simp add: applied_def stands_for_def)
qed

lemma append_applied:
  assumes sim: "simulates ns s a" and p: "p \<in> set ns" and call: "(i, p, req) \<in> cl_append_calls s"
    and out: "raft_handle_append_entries M (cl_nodes s p) req = (n', r)"
    and old: "applied (cl_nodes s p)" and new: "rl_last_included_index (rn_log n') = 0"
  shows "applied n'"
proof (cases "ar_term req < rn_current_term (cl_nodes s p)")
  case True
  then show ?thesis using old out by (auto simp: raft_handle_append_entries_def)
next
  case False
  let ?n = "cl_nodes s p" and ?L = "rl_entries (rn_log (cl_nodes s p))"
  define n0 where "n0 = seen_term ?n (ar_term req)"
  have node: "node_abs ns a p ?n" by (rule simulatesD(1) [OF sim p])
  then have whole: "rl_last_included_index (rn_log ?n) = 0" "log_stored (rn_log ?n)" and upto: "rn_current_term ?n \<le> ar_term req"
    using False by (simp_all add: node_abs_def)
  have kept: "store_kept ?n n0" unfolding n0_def by (rule seen_store)
  have n0: "applied n0" by (rule applied_kept [OF old kept whole(1)])
  have same: "rl_entries (rn_log n0) = ?L" "rl_last_included_index (rn_log n0) = 0" "rn_commit_index n0 = rn_commit_index ?n"
    using kept whole(1) by (simp_all add: store_kept_def)
  from append_shape [OF whole upto out n0_def] show ?thesis
  proof (elim disjE exE conjE)
    assume "n' = n0"
    then show ?thesis using n0 by simp
  next
    fix l
    assume l: "req_matches ?L req" "raft_append_loop (rn_log n0) (ar_prev_log_index req + 1) (ar_entries req) = (l, Inr ())"
      "rl_entries l = reconcile ?L (ar_prev_log_index req) (ar_entries req)" "rl_last_included_index l = 0" "log_stored l"
      and n': "if rn_commit_index ?n < ar_leader_commit req
       then n' = fst (raft_apply_committed_entries M (n0\<lparr>rn_log := l, rn_commit_index := min (ar_leader_commit req) (length (rl_entries l))\<rparr>))
       else n' = n0\<lparr>rn_log := l\<rparr>"
    have "araft_inv ns a" using sim araft_reachable_inv [of ns a] by (simp add: simulates_def)
    moreover have "req \<in> ab_reqs a" using abstractsD(4) [OF _ call, of ns a] sim by (simp add: simulates_def)
    ultimately have keeps: "rn_commit_index ?n \<le> length (rl_entries l)" "take (rn_commit_index ?n) (rl_entries l) = take (rn_commit_index ?n) ?L"
      using accept_keeps_committed [of ns a req p] l(1,3) node upto by (simp_all add: node_abs_def)
    have n1: "applied (n0\<lparr>rn_log := l\<rparr>)"
      by (rule applied_log [OF n0 same(2) l(4,5) append_loop_snapshot [OF l(2)]]) (use keeps same in simp_all)
    show ?thesis
    proof (cases "rn_commit_index ?n < ar_leader_commit req")
      case True
      then have n'': "n' = fst (raft_apply_committed_entries M ((n0\<lparr>rn_log := l\<rparr>)
          \<lparr>rn_commit_index := min (ar_leader_commit req) (length (rl_entries l))\<rparr>))" using n' by simp
      show ?thesis unfolding n''
        by (rule applied_commit [OF n1]) (use True keeps(1) same(3) new n'' in simp_all)
    next
      case False
      then show ?thesis using n' n1 by simp
    qed
  qed
qed

lemma update_commit_applied:
  assumes "applied n" and "rl_last_included_index (rn_log n) = 0"
    and new: "rl_last_included_index (rn_log (fst (raft_update_commit_index M n))) = 0"
  shows "applied (fst (raft_update_commit_index M n))"
proof -
  have "fst (raft_update_commit_index M n) = n \<or>
      (\<exists>c. fst (raft_update_commit_index M n) = fst (raft_apply_committed_entries M (n\<lparr>rn_commit_index := c\<rparr>)) \<and>
        rn_commit_index n < c \<and> (\<exists>t. rl_get_term (rn_log n) c = Inr t))"
    by (auto simp: raft_update_commit_index_def Let_def split: sum.splits)
  then show ?thesis
  proof (elim disjE exE conjE)
    fix c t
    assume c: "fst (raft_update_commit_index M n) = fst (raft_apply_committed_entries M (n\<lparr>rn_commit_index := c\<rparr>))"
      "rn_commit_index n < c" "rl_get_term (rn_log n) c = Inr t"
    have "c \<le> length (rl_entries (rn_log n))" using c(2,3) assms(2) by (auto simp: rl_get_term_def uncompacted_getitem split: sum.splits if_splits)
    then show ?thesis using applied_commit [OF assms(1), of c] c(1,2) new by simp
  qed (use assms(1) in simp)
qed

lemma append_reply_applied:
  assumes "applied n" and "rl_last_included_index (rn_log n) = 0"
    and new: "rl_last_included_index (rn_log (raft_append_reply M n p req rt ok)) = 0"
  shows "applied (raft_append_reply M n p req rt ok)"
proof -
  have "store_kept n (raft_append_reply M n p req rt ok) \<or>
      (\<exists>d e. raft_append_reply M n p req rt ok = fst (raft_update_commit_index M (n\<lparr>rn_match_index := d, rn_next_index := e\<rparr>)))"
  proof -
    have "store_kept n (n\<lparr>rn_next_index := d\<rparr>)" for d by (simp add: store_kept_def)
    then show ?thesis by (auto simp: raft_append_reply_def Let_def update_term_store split: option.splits)
  qed
  then show ?thesis
  proof (elim disjE exE)
    fix d e assume u: "raft_append_reply M n p req rt ok = fst (raft_update_commit_index M (n\<lparr>rn_match_index := d, rn_next_index := e\<rparr>))"
    have "applied (n\<lparr>rn_match_index := d, rn_next_index := e\<rparr>)" using assms(1,2) by (auto intro: applied_kept simp: store_kept_def)
    then show ?thesis using update_commit_applied assms(2) new unfolding u by simp
  qed (use applied_kept [OF assms(1) _ assms(2)] in blast)
qed

lemma submit_applied:
  assumes "applied n" and "rl_last_included_index (rn_log n) = 0"
  shows "applied (fst (raft_submit_command n c))"
proof (cases "rn_state n = Leader")
  case True
  define l where "l = rl_append (rn_log n) \<lparr>le_term = rn_current_term n, le_index = rl_len (rn_log n) + 1, le_command = c\<rparr>"
  have "applied (n\<lparr>rn_log := l\<rparr>)"
    by (rule applied_log [OF assms]) (use assms in \<open>simp_all add: l_def applied_def stands_for_def rl_append_def rl_persist_def log_stored_def\<close>)
  moreover have "store_kept (n\<lparr>rn_log := l\<rparr>) (fst (raft_submit_command n c))"
    using True by (simp add: raft_submit_command_def Let_def l_def store_kept_def)
  ultimately show ?thesis by (rule applied_kept) (simp add: l_def assms(2))
next
  case False
  then show ?thesis using assms(1) by (simp add: raft_submit_command_def)
qed

lemma restart_applied:
  assumes "applied n" and "rl_last_included_index (rn_log n) = 0"
    and "raft_init M machine0 k i ps (rl_storage (rn_log n)) = Inr n'"
  shows "applied n'"
proof -
  have stands: "stands_for (rl_entries (rn_log n)) n" using assms(1) by (simp add: applied_def)
  from restart_stands [OF this, of k i ps] assms(3)
  have "stands_for (rl_entries (rn_log n)) n'" "rn_log n' = rn_log n" "rn_last_applied n' = 0" using assms(2) by auto
  moreover have "rn_commit_index n' = 0"
    using raft_init_kept(1,3) [OF assms(3)] \<open>rn_log n' = rn_log n\<close> assms(2) by simp
  ultimately show ?thesis by (simp add: applied_def)
qed

lemma init_applied:
  assumes "raft_init M machine0 k i ps fs_init = Inr n"
  shows "applied n"
  using raft_init_fresh [OF assms] raft_init_kept(1) [OF assms]
  by (simp add: applied_def stands_for_def log_of_def after_def log_stored_def rl_load_def fs_init_def fs_load_snapshot_def
      fs_load_log_def Let_def)

definition all_applied :: "node_id list \<Rightarrow> ('s, 'c, 'r, 'b) raft_cluster \<Rightarrow> bool" where
  "all_applied ns s \<longleftrightarrow> (\<forall>i\<in>set ns. applied (cl_nodes s i))"

lemma all_applied_put:
  assumes "all_applied ns s" and "applied n'"
  shows "all_applied ns (raft_put s i n')"
  using assms by (simp add: all_applied_def raft_put_def)

lemma all_applied_fields [simp]:
  "all_applied ns (s\<lparr>cl_vote_calls := a\<rparr>) = all_applied ns s"
  "all_applied ns (s\<lparr>cl_vote_replies := b\<rparr>) = all_applied ns s"
  "all_applied ns (s\<lparr>cl_append_calls := c\<rparr>) = all_applied ns s"
  "all_applied ns (s\<lparr>cl_append_replies := d\<rparr>) = all_applied ns s"
  by (simp_all add: all_applied_def)

text \<open>One handler of one node.\<close>

lemma applied_step:
  assumes reach: "raft_reachable M machine0 k ns True True s" and IH: "uncompacted ns s \<Longrightarrow> all_applied ns s"
    and i: "i \<in> set ns" and grows: "log_grows (cl_nodes s i) n'" and new: "uncompacted ns (raft_put s i n')"
    and step: "\<And>a. simulates ns s a \<Longrightarrow> applied (cl_nodes s i) \<Longrightarrow> rl_last_included_index (rn_log (cl_nodes s i)) = 0 \<Longrightarrow>
      rl_last_included_index (rn_log n') = 0 \<Longrightarrow> applied n'"
  shows "all_applied ns (raft_put s i n')"
proof -
  note old = uncompacted_put [OF new i grows]
  obtain a where sim: "simulates ns s a" using uncompacted_abs [OF reach old(1)] by metis
  have all: "all_applied ns s" using IH old(1) by blast
  have "applied (cl_nodes s i)" "rl_last_included_index (rn_log (cl_nodes s i)) = 0"
    using all old(1) i by (simp_all add: all_applied_def uncompacted_def)
  then show ?thesis using step [OF sim _ _ old(2)] all_applied_put [OF all] by blast
qed

lemma reachable_applied:
  "raft_reachable M machine0 k ns True True s \<Longrightarrow> uncompacted ns s \<Longrightarrow> all_applied ns s"
proof (induction rule: raft_reachable.induct)
  case (rc_start nodes)
  have "applied (nodes i)" if "i \<in> set ns" for i
    by (rule init_applied) (use rc_start.hyps that in blast)
  then show ?case by (simp add: all_applied_def)
next
  case (rc_run s i)
  show ?case
    by (rule applied_step [OF rc_run.hyps(1) rc_run.IH rc_run.hyps(2) start_stop_grows(1) rc_run.prems])
      (auto intro: applied_kept start_stop_store)
next
  case (rc_stop s i)
  show ?case
    by (rule applied_step [OF rc_stop.hyps(1) rc_stop.IH rc_stop.hyps(2) start_stop_grows(2) rc_stop.prems])
      (auto intro: applied_kept start_stop_store)
next
  case (rc_timeout s i n ws)
  have n: "n = fst (raft_election_timeout (cl_nodes s i))" and new: "uncompacted ns (raft_put s i n)"
    using rc_timeout.hyps(3) rc_timeout.prems by simp_all
  have "all_applied ns (raft_put s i n)"
    by (rule applied_step [OF rc_timeout.hyps(1) rc_timeout.IH rc_timeout.hyps(2) _ new])
      (auto simp: n timeout_grows intro: applied_kept timeout_store)
  then show ?case by simp
next
  case (rc_vote s p i t x y n rt granted)
  have n: "n = fst (raft_handle_request_vote (cl_nodes s p) t i x y)" and new: "uncompacted ns (raft_put s p n)"
    using rc_vote.hyps(4) rc_vote.prems by simp_all
  have "all_applied ns (raft_put s p n)"
    by (rule applied_step [OF rc_vote.hyps(1) rc_vote.IH rc_vote.hyps(2) _ new])
      (auto simp: n request_vote_log_grows intro: applied_kept request_vote_store)
  then show ?case by simp
next
  case (rc_vote_raises s p i t x y n e)
  have n: "n = fst (raft_handle_request_vote (cl_nodes s p) t i x y)" using rc_vote_raises.hyps(4) by simp
  show ?case
    by (rule applied_step [OF rc_vote_raises.hyps(1) rc_vote_raises.IH rc_vote_raises.hyps(2) _ rc_vote_raises.prems])
      (auto simp: n request_vote_log_grows intro: applied_kept request_vote_store)
next
  case (rc_vote_reply s i p t rt granted n ws)
  have n: "n = fst (raft_vote_reply (cl_nodes s i) p t rt granted)" using rc_vote_reply.hyps(5) by simp
  show ?case
    by (rule applied_step [OF rc_vote_reply.hyps(1) rc_vote_reply.IH rc_vote_reply.hyps(2) _ rc_vote_reply.prems])
      (auto simp: n vote_reply_grows intro: applied_kept vote_reply_store)
next
  case (rc_append s p i req n r)
  have grows: "log_grows (cl_nodes s p) n" and new: "uncompacted ns (raft_put s p n)"
    using handle_append_grows [of "cl_nodes s p" M req] rc_append.hyps(4) rc_append.prems by simp_all
  have "all_applied ns (raft_put s p n)"
    by (rule applied_step [OF rc_append.hyps(1) rc_append.IH rc_append.hyps(2) grows new])
      (assumption, rule append_applied [OF _ rc_append.hyps(2-4)])
  then show ?case by simp
next
  case (rc_append_reply s i p req rt okay)
  show ?case
    by (rule applied_step [OF rc_append_reply.hyps(1) rc_append_reply.IH rc_append_reply.hyps(2) append_reply_grows rc_append_reply.prems])
      (assumption, rule append_reply_applied)
next
  case (rc_submit s i c n r)
  have n: "n = fst (raft_submit_command (cl_nodes s i) c)" using rc_submit.hyps(3) by simp
  show ?case
    by (rule applied_step [OF rc_submit.hyps(1) rc_submit.IH rc_submit.hyps(2) _ rc_submit.prems])
      (simp_all add: n submit_grows submit_applied)
next
  case (rc_restart s i n)
  have "log_stored (rn_log (cl_nodes s i))"
    using raft_reachable_stored [OF rc_restart.hyps(1)] rc_restart.hyps(2) by (simp add: logs_stored_def)
  then have "rn_log n = rn_log (cl_nodes s i)" using raft_init_kept(1) [OF rc_restart.hyps(3)] rl_load_stored by metis
  then have grows: "log_grows (cl_nodes s i) n" by (simp add: log_grows_def)
  show ?case
    by (rule applied_step [OF rc_restart.hyps(1) rc_restart.IH rc_restart.hyps(2) grows rc_restart.prems])
      (assumption, rule restart_applied [OF _ _ rc_restart.hyps(3)])
qed simp_all

end

lemma take_shorter: "take c xs = take c ys \<Longrightarrow> m \<le> c \<Longrightarrow> take m xs = take m ys"
  by (metis min.absorb1 take_take)

text \<open>
  C8. State machine safety, for the replicated key-value store: what two nodes hold as committed
  agrees, every node has applied only committed entries, its store is what the entries applied so
  far make of the empty store, and so two nodes that have applied equally many entries have equal
  stores. The hypotheses are those of log matching.
\<close>

theorem raft_state_machine_safety:
  assumes "raft_reachable kv_machine kv_init k ns True True s" and "uncompacted ns s" and "i \<in> set ns" and "j \<in> set ns"
  shows "take (min (rn_commit_index (cl_nodes s i)) (rn_commit_index (cl_nodes s j))) (rl_entries (rn_log (cl_nodes s i))) =
      take (min (rn_commit_index (cl_nodes s i)) (rn_commit_index (cl_nodes s j))) (rl_entries (rn_log (cl_nodes s j))) \<and>
    rn_last_applied (cl_nodes s i) \<le> rn_commit_index (cl_nodes s i) \<and>
    rn_commit_index (cl_nodes s i) \<le> length (rl_entries (rn_log (cl_nodes s i))) \<and>
    rn_machine (cl_nodes s i) = kv.run kv_init (map le_command (take (rn_last_applied (cl_nodes s i)) (rl_entries (rn_log (cl_nodes s i))))) \<and>
    (rn_last_applied (cl_nodes s i) = rn_last_applied (cl_nodes s j) \<longrightarrow> rn_machine (cl_nodes s i) = rn_machine (cl_nodes s j))"
proof -
  let ?n = "cl_nodes s i" and ?m = "cl_nodes s j"
  let ?c = "min (rn_commit_index ?n) (rn_commit_index ?m)"
  obtain a where a: "araft_inv ns a" "\<And>i. i \<in> set ns \<Longrightarrow> node_abs ns a i (cl_nodes s i)"
    using uncompacted_abs [OF assms(1,2)] by metis
  have commit: "commit_ok ns a (ab_log a x) (ab_term a x) (ab_commit a x)" for x using a(1) by (simp add: araft_inv_def inv_commits_def)
  have same: "ab_log a x = rl_entries (rn_log (cl_nodes s x))" "ab_commit a x = rn_commit_index (cl_nodes s x)" if "x \<in> set ns" for x
    using a(2) [OF that] by (simp_all add: node_abs_def)
  have agree: "take ?c (rl_entries (rn_log ?n)) = take ?c (rl_entries (rn_log ?m))"
    using commits_agree [OF a(1) commit [of i] commit [of j]] unfolding same [OF assms(3)] same [OF assms(4)] .
  have all: "kv_service.applied (cl_nodes s x)" if "x \<in> set ns" for x
    using kv_service.reachable_applied [OF assms(1,2)] that by (simp add: kv_service.all_applied_def)
  have store: "rn_last_applied (cl_nodes s x) \<le> rn_commit_index (cl_nodes s x)" "rn_commit_index (cl_nodes s x) \<le> length (rl_entries (rn_log (cl_nodes s x)))"
    "rn_machine (cl_nodes s x) = kv.run kv_init (map le_command (take (rn_last_applied (cl_nodes s x)) (rl_entries (rn_log (cl_nodes s x)))))"
    if "x \<in> set ns" for x
  proof -
    have "kv_service.stands_for (rl_entries (rn_log (cl_nodes s x))) (cl_nodes s x)" and le: "rn_last_applied (cl_nodes s x) \<le> rn_commit_index (cl_nodes s x)"
      "rn_commit_index (cl_nodes s x) \<le> length (rl_entries (rn_log (cl_nodes s x)))"
      using all [OF that] unfolding kv_service.applied_def by blast+
    then show "rn_machine (cl_nodes s x) = kv.run kv_init (map le_command (take (rn_last_applied (cl_nodes s x)) (rl_entries (rn_log (cl_nodes s x)))))"
      unfolding kv_service.stands_for_def kv_service.after_def by (simp add: kv_machine_def)
    show "rn_last_applied (cl_nodes s x) \<le> rn_commit_index (cl_nodes s x)" "rn_commit_index (cl_nodes s x) \<le> length (rl_entries (rn_log (cl_nodes s x)))"
      by (rule le)+
  qed
  have "rn_machine ?n = rn_machine ?m" if "rn_last_applied ?n = rn_last_applied ?m"
  proof -
    have "take (rn_last_applied ?n) (rl_entries (rn_log ?n)) = take (rn_last_applied ?n) (rl_entries (rn_log ?m))"
      by (rule take_shorter [OF agree]) (use store(1) [OF assms(3)] store(1) [OF assms(4)] that in simp)
    then show ?thesis using store(3) [OF assms(3)] store(3) [OF assms(4)] that by simp
  qed
  then show ?thesis using agree store [OF assms(3)] by blast
qed

section \<open>Running the cluster with its log\<close>

datatype 'c log_event = Le_Vote raft_event | Le_Submit node_id 'c | Le_Send node_id node_id
  | Le_Append node_id node_id "'c append_request" | Le_Reply node_id node_id "'c append_request" nat bool

fun raft_log_step ::
  "('s, 'c, 'r, 'b) machine \<Rightarrow> bool \<Rightarrow> bool \<Rightarrow> node_id list \<Rightarrow> ('s, 'c, 'r, 'b) raft_cluster \<Rightarrow> 'c log_event
    \<Rightarrow> ('s, 'c, 'r, 'b) raft_cluster" where
  "raft_log_step M timely prompt ns s (Le_Vote e) = raft_event_step timely ns s e"
| "raft_log_step M timely prompt ns s (Le_Submit i c) =
     (if i \<in> set ns then raft_put s i (fst (raft_submit_command (cl_nodes s i) c)) else s)"
| "raft_log_step M timely prompt ns s (Le_Send i p) =
     (if i \<in> set ns \<and> p \<in> set (rn_peers (cl_nodes s i)) then
        (case raft_append_request (cl_nodes s i) p of
           Inr (Some req) \<Rightarrow> s\<lparr>cl_append_calls := insert (i, p, req) (cl_append_calls s)\<rparr>
         | _ \<Rightarrow> s) else s)"
| "raft_log_step M timely prompt ns s (Le_Append i p req) =
     (if p \<in> set ns \<and> (i, p, req) \<in> cl_append_calls s then
        (case raft_handle_append_entries M (cl_nodes s p) req of
           (n, r) \<Rightarrow> (raft_put s p n)\<lparr>cl_append_replies := cl_append_replies s \<union>
             (case r of Inl e \<Rightarrow> {} | Inr (rt, ok) \<Rightarrow> {(i, p, req, rt, ok)})\<rparr>) else s)"
| "raft_log_step M timely prompt ns s (Le_Reply i p req rt ok) =
     (if i \<in> set ns \<and> (i, p, req, rt, ok) \<in> cl_append_replies s \<and>
         (prompt \<and> ok \<longrightarrow> ar_term req = rn_current_term (cl_nodes s i))
      then raft_put s i (raft_append_reply M (cl_nodes s i) p req rt ok) else s)"

lemma raft_log_step_reachable:
  "raft_reachable M machine0 k ns timely prompt s \<Longrightarrow>
    raft_reachable M machine0 k ns timely prompt (raft_log_step M timely prompt ns s e)"
proof (induction M timely prompt ns s e rule: raft_log_step.induct)
  case (1 M timely prompt ns s e)
  then show ?case by (simp add: raft_event_reachable)
next
  case (2 M timely prompt ns s i c)
  then show ?case by (auto intro!: rc_submit [where r = "snd (raft_submit_command (cl_nodes s i) c)"])
next
  case (3 M timely prompt ns s i p)
  then show ?case by (auto intro: rc_append_call split: sum.splits option.splits)
next
  case (4 M timely prompt ns s i p req)
  then show ?case by (auto intro: rc_append split: prod.splits)
next
  case (5 M timely prompt ns s i p req rt ok)
  then show ?case by (auto intro!: rc_append_reply)
qed

definition raft_log_run ::
  "('s, 'c, 'r, 'b) machine \<Rightarrow> 's \<Rightarrow> nat \<Rightarrow> bool \<Rightarrow> bool \<Rightarrow> node_id list \<Rightarrow> 'c log_event list \<Rightarrow> ('s, 'c, 'r, 'b) raft_cluster" where
  "raft_log_run M machine0 k timely prompt ns es = foldl (raft_log_step M timely prompt ns) (raft_boot M machine0 k ns) es"

lemma raft_log_run_reachable:
  "raft_reachable M machine0 k ns timely prompt (raft_log_run M machine0 k timely prompt ns es)"
  unfolding raft_log_run_def
  by (induction es rule: rev_induct) (simp_all add: raft_boot_reachable raft_log_step_reachable)

text \<open>An election that \<open>i\<close> wins with the votes of \<open>ps\<close>, and entries that reach \<open>p\<close>.\<close>

definition elect :: "node_id \<Rightarrow> nat \<Rightarrow> nat \<Rightarrow> nat \<Rightarrow> node_id list \<Rightarrow> 'c log_event list" where
  "elect i t a b ps = Le_Vote (Ev_Timeout i) # map (\<lambda>p. Le_Vote (Ev_Vote (i, p, t, a, b))) ps @
     map (\<lambda>p. Le_Vote (Ev_Vote_Reply (i, p, t, t, True))) ps"

definition deliver :: "'c append_request \<Rightarrow> node_id \<Rightarrow> 'c log_event list" where
  "deliver req p = [Le_Send (ar_leader_id req) p, Le_Append (ar_leader_id req) p req]"

definition answer :: "'c append_request \<Rightarrow> node_id \<Rightarrow> 'c log_event" where
  "answer req p = Le_Reply (ar_leader_id req) p req (ar_term req) True"

definition put_request :: "node_id \<Rightarrow> nat \<Rightarrow> nat \<Rightarrow> nat \<Rightarrow> command log_entry list \<Rightarrow> nat \<Rightarrow> command append_request" where
  "put_request i t prev prev_term es c = \<lparr>ar_term = t, ar_leader_id = i, ar_prev_log_index = prev, ar_prev_log_term = prev_term,
     ar_entries = es, ar_leader_commit = c\<rparr>"

text \<open>A replicates an entry to B and commits it, then B learns of it.\<close>

definition one_put :: "command log_event list" where
  "one_put = Le_Vote (Ev_Start ''A'') # elect ''A'' 1 0 0 [''B''] @ [Le_Submit ''A'' (put_command ''x'' 1)] @
     deliver (put_request ''A'' 1 0 0 [entry 1 1 (put_command ''x'' 1)] 0) ''B'' @
     [answer (put_request ''A'' 1 0 0 [entry 1 1 (put_command ''x'' 1)] 0) ''B''] @
     deliver (put_request ''A'' 1 1 1 [] 1) ''B''"

theorem raft_log_matching_witness:
  "\<exists>s. raft_reachable kv_machine kv_init 10 abc True True s \<and> rn_state (cl_nodes s ''A'') = Leader \<and>
     take 1 (rl_entries (rn_log (cl_nodes s ''A''))) = take 1 (rl_entries (rn_log (cl_nodes s ''B'')))"
proof -
  define s where "s = raft_log_run kv_machine kv_init 10 True True abc one_put"
  have s: "raft_reachable kv_machine kv_init 10 abc True True s" unfolding s_def by (rule raft_log_run_reachable)
  have whole: "uncompacted abc s" and lead: "rn_state (cl_nodes s ''A'') = Leader"
    and got: "rl_getitem (rn_log (cl_nodes s ''A'')) 1 = Inr (entry 1 1 (put_command ''x'' 1))"
      "rl_getitem (rn_log (cl_nodes s ''B'')) 1 = Inr (entry 1 1 (put_command ''x'' 1))"
    unfolding s_def by code_simp+
  have "''A'' \<in> set abc" "''B'' \<in> set abc" by simp_all
  from raft_log_matching [OF s whole this got refl] s lead show ?thesis by blast
qed

theorem raft_state_machine_safety_witness:
  "\<exists>s. raft_reachable kv_machine kv_init 10 abc True True s \<and> rn_last_applied (cl_nodes s ''A'') = 1 \<and>
     rn_last_applied (cl_nodes s ''B'') = 1 \<and> rn_machine (cl_nodes s ''A'') = rn_machine (cl_nodes s ''B'')"
proof -
  define s where "s = raft_log_run kv_machine kv_init 10 True True abc one_put"
  have s: "raft_reachable kv_machine kv_init 10 abc True True s" unfolding s_def by (rule raft_log_run_reachable)
  have whole: "uncompacted abc s" and upto: "rn_last_applied (cl_nodes s ''A'') = 1" "rn_last_applied (cl_nodes s ''B'') = 1"
    unfolding s_def by code_simp+
  have "''A'' \<in> set abc" "''B'' \<in> set abc" by simp_all
  from raft_state_machine_safety [OF s whole this] s upto show ?thesis by auto
qed

section \<open>Restarts\<close>

lemma kv_init_succeeds: "\<exists>n'. raft_init kv_machine kv_init k i ps fs = Inr n'"
  by (auto simp: raft_init_def kv_machine_def kv_restore_def Let_def case_prod_unfold split: option.splits)

text \<open>What is applied after a restart, if the node stood for a history.\<close>

lemma restart_replays:
  assumes "kv_service.stands_for h n" and "raft_init kv_machine kv_init k i ps (rl_storage (rn_log n)) = Inr n'"
    and "c \<le> length h" and "raft_apply_committed_entries kv_machine (n'\<lparr>rn_commit_index := c\<rparr>) = (n'', r)"
    and "rn_last_applied n'' = rn_last_applied n"
  shows "rn_machine n'' = rn_machine n"
proof -
  have "kv_service.stands_for h n'" using kv_service.restart_stands [OF assms(1), of k i ps] assms(2) by auto
  then show ?thesis
    using kv_service.apply_stands [OF _ _ assms(4), of h] assms(1,3,5)
    by (simp add: kv_service.stands_for_def [of h n] kv_service.stands_for_def [of h n''])
qed

text \<open>
  C10. A crash loses nothing that matters. Whatever a node of a cluster has gone through, its files
  hold its current term, its vote and its log: a restart on them succeeds and gives a follower with
  the same term, vote and log as the node had, which has applied and committed what the snapshot
  holds. If moreover log, snapshot and store stood for a history, the restarted node has the same
  store as before once it has applied as many entries again. (A crash is between two handlers: one in
  the middle of writing a file is not modelled.)
\<close>

theorem raft_restart_recovers:
  assumes "raft_reachable kv_machine kv_init k ns timely prompt s" and "i \<in> set ns" and "n = cl_nodes s i"
  shows "\<exists>n'. raft_init kv_machine kv_init k i (raft_peers_of ns i) (rl_storage (rn_log n)) = Inr n' \<and>
    rn_current_term n' = rn_current_term n \<and> rn_voted_for n' = rn_voted_for n \<and> rn_log n' = rn_log n \<and>
    rn_state n' = Follower \<and> rn_commit_index n' = rl_last_included_index (rn_log n) \<and>
    rn_last_applied n' = rl_last_included_index (rn_log n) \<and>
    (\<forall>h c n'' r. kv_service.stands_for h n \<longrightarrow> c \<le> length h \<longrightarrow>
       raft_apply_committed_entries kv_machine (n'\<lparr>rn_commit_index := c\<rparr>) = (n'', r) \<longrightarrow>
       rn_last_applied n'' = rn_last_applied n \<longrightarrow> rn_machine n'' = rn_machine n)"
proof -
  obtain n' where n': "raft_init kv_machine kv_init k i (raft_peers_of ns i) (rl_storage (rn_log n)) = Inr n'"
    using kv_init_succeeds by blast
  have stored: "log_stored (rn_log n)" and saved: "vote_saved n"
    using raft_reachable_stored [OF assms(1)] raft_reachable_inv [OF assms(1)] assms(2,3)
    by (simp_all add: logs_stored_def raft_inv_def raft_node_inv_def)
  have log: "rn_log n' = rn_log n" using raft_init_kept(1) [OF n'] rl_load_stored [OF stored] by simp
  have "rn_last_applied n' = rn_commit_index n'" using n' by (auto simp: raft_init_def Let_def case_prod_unfold split: sum.splits)
  with raft_init_kept [OF n'] saved log show ?thesis
    using n' restart_replays [OF _ n'] by (auto simp: vote_saved_def)
qed

theorem raft_restart_recovers_witness:
  "\<exists>s n'. raft_reachable kv_machine kv_init 10 abc True True s \<and>
     raft_init kv_machine kv_init 10 ''B'' [''A'', ''C''] (rl_storage (rn_log (cl_nodes s ''B''))) = Inr n' \<and>
     rn_current_term n' = 1 \<and> rn_voted_for n' = Some ''A'' \<and> rl_entries (rn_log n') = [entry 1 1 (put_command ''x'' 1)]"
proof -
  define s where "s = raft_log_run kv_machine kv_init 10 True True abc one_put"
  have s: "raft_reachable kv_machine kv_init 10 abc True True s" unfolding s_def by (rule raft_log_run_reachable)
  have "rn_current_term (cl_nodes s ''B'') = 1" "rn_voted_for (cl_nodes s ''B'') = Some ''A''"
    "rl_entries (rn_log (cl_nodes s ''B'')) = [entry 1 1 (put_command ''x'' 1)]" "raft_peers_of abc ''B'' = [''A'', ''C'']"
    unfolding s_def by code_simp+
  then show ?thesis using raft_restart_recovers [OF s _ refl, of "''B''"] s by fastforce
qed

section \<open>An old acknowledgement\<close>

text \<open>
  Without \<open>prompt\<close>. A, leader of term 1, has two entries acknowledged by B; the answer is delayed. D, leader of
  term 2, overwrites them at A, C and E. A is elected in term 3 and replicates a new entry of index 2
  to C only; then B's old answer arrives and A counts it for the new entry. D, elected in term 4 by B and
  E, commits another entry of index 2.
\<close>

abbreviation "abcde \<equiv> [''A'', ''B'', ''C'', ''D'', ''E'']"

definition stale_ack :: "command log_event list" where
  "stale_ack =
     (let x = entry 1 1 (put_command ''x'' 1); x' = entry 1 2 (put_command ''x'' 2); y = entry 2 1 (put_command ''y'' 1);
          z = entry 3 2 (put_command ''z'' 1); w = entry 4 2 (put_command ''w'' 1);
          old = put_request ''A'' 1 0 0 [x, x'] 0; ys = put_request ''D'' 2 0 0 [y] 0;
          zs = put_request ''A'' 3 1 2 [z] 0; ws = put_request ''D'' 4 1 2 [w] 0
      in [Le_Vote (Ev_Start ''A''), Le_Vote (Ev_Start ''D'')] @ elect ''A'' 1 0 0 [''B'', ''C''] @
         [Le_Submit ''A'' (le_command x), Le_Submit ''A'' (le_command x')] @ deliver old ''B'' @
         Le_Vote (Ev_Timeout ''D'') # elect ''D'' 2 0 0 [''C'', ''E''] @ [Le_Submit ''D'' (le_command y)] @
         deliver ys ''A'' @ deliver ys ''C'' @ deliver ys ''E'' @
         elect ''A'' 3 1 2 [''C'', ''D''] @ [Le_Submit ''A'' (le_command z)] @ deliver zs ''C'' @ [answer zs ''C'', answer old ''B''] @
         elect ''D'' 4 1 2 [''B'', ''E''] @ [Le_Submit ''D'' (le_command w)] @ deliver ws ''C'' @ deliver ws ''E'' @
         [answer ws ''C'', answer ws ''E''])"

text \<open>
  Counting an acknowledgement without looking at the term it was given in breaks state machine
  safety: there is a run of a cluster of five, with no log compacted and every vote counted in its
  own election, in which two nodes commit different entries at the same index, and their stores,
  after equally many entries, differ.
\<close>

theorem raft_stale_ack_diverges:
  "\<exists>s. raft_reachable kv_machine kv_init 10 abcde True False s \<and> uncompacted abcde s \<and>
     rn_commit_index (cl_nodes s ''A'') = 2 \<and> rn_commit_index (cl_nodes s ''D'') = 2 \<and>
     rn_last_applied (cl_nodes s ''A'') = 2 \<and> rn_last_applied (cl_nodes s ''D'') = 2 \<and>
     rn_machine (cl_nodes s ''A'') = [(''y'', JInt 1), (''z'', JInt 1)] \<and>
     rn_machine (cl_nodes s ''D'') = [(''y'', JInt 1), (''w'', JInt 1)]"
proof -
  define s where "s = raft_log_run kv_machine kv_init 10 True False abcde stale_ack"
  have "raft_reachable kv_machine kv_init 10 abcde True False s" unfolding s_def by (rule raft_log_run_reachable)
  moreover have "uncompacted abcde s" unfolding s_def by code_simp
  moreover have "map (\<lambda>i. (rn_commit_index (cl_nodes s i), rn_last_applied (cl_nodes s i), rn_machine (cl_nodes s i))) [''A'', ''D''] =
      [(2, 2, [(''y'', JInt 1), (''z'', JInt 1)]), (2, 2, [(''y'', JInt 1), (''w'', JInt 1)])]"
    unfolding s_def by code_simp
  ultimately show ?thesis by auto
qed

end
