(* ===== verification/Raft_Client.thy ===== *)
theory Raft_Client
  imports Raft_Safety
begin

text \<open>
  The services that the repository builds on the Raft node: the key-value store of
  \<open>raft-from-scratch/examples/kv_store.py\<close> and the counter of \<open>examples/distributed_counter.py\<close>, with
  \<open>config.py\<close> and \<open>read_state\<close>. Every replica answers from a position in one history of commands; and the
  two ways in which this is less than the linearizable store of the docstring.
\<close>

section \<open>RaftConfig\<close>

record raft_config =
  cf_election_timeout_min :: int
  cf_election_timeout_max :: int
  cf_heartbeat_interval :: int
  cf_snapshot_interval :: int
  cf_max_log_entries_per_request :: int

definition raft_config_init :: "int \<Rightarrow> int \<Rightarrow> int \<Rightarrow> int \<Rightarrow> int \<Rightarrow> raft_config result" where
  "raft_config_init election_timeout_min election_timeout_max heartbeat_interval snapshot_interval max_entries =
     (if \<not> heartbeat_interval < election_timeout_min then Inl AssertionError
      else if \<not> election_timeout_max > election_timeout_min then Inl AssertionError
      else Inr \<lparr>cf_election_timeout_min = election_timeout_min, cf_election_timeout_max = election_timeout_max,
        cf_heartbeat_interval = heartbeat_interval, cf_snapshot_interval = snapshot_interval,
        cf_max_log_entries_per_request = max_entries\<rparr>)"

text \<open>The defaults of the module.\<close>

definition raft_config_default :: "raft_config result" where
  "raft_config_default = raft_config_init 150 300 50 10000 100"

definition raft_example_config :: "raft_config result" where
  "raft_example_config = raft_config_init 200 400 50 10000 100"

lemma raft_configs_valid:
  "\<exists>c. raft_config_default = Inr c \<and> cf_snapshot_interval c = 10000"
  "\<exists>c. raft_example_config = Inr c \<and> cf_snapshot_interval c = 10000"
  by (simp_all add: raft_config_default_def raft_example_config_def raft_config_init_def)

text \<open>The election timeout that \<open>random.uniform\<close> draws; \<open>u\<close> is its draw from the unit interval.\<close>

definition random_election_timeout :: "raft_config \<Rightarrow> rat \<Rightarrow> rat" where
  "random_election_timeout c u =
     (let a = of_int (cf_election_timeout_min c) / 1000; b = of_int (cf_election_timeout_max c) / 1000 in a + (b - a) * u)"

lemma heartbeat_before_timeout:
  assumes "raft_config_init mn mx hb sn me = Inr c" and "0 \<le> u"
  shows "of_int (cf_heartbeat_interval c) / 1000 < random_election_timeout c u"
proof -
  have c: "hb < mn" "mn < mx" "cf_heartbeat_interval c = hb" "cf_election_timeout_min c = mn" "cf_election_timeout_max c = mx"
    using assms(1) by (auto simp: raft_config_init_def split: if_splits)
  have "rat_of_int hb < rat_of_int mn" "rat_of_int mn < rat_of_int mx" using c(1,2) by simp_all
  moreover from this(2) have "0 \<le> (rat_of_int mx / 1000 - rat_of_int mn / 1000) * u" using assms(2) by (intro mult_nonneg_nonneg) simp_all
  ultimately show ?thesis unfolding random_election_timeout_def Let_def c(3-5) by linarith
qed

section \<open>No snapshot before the interval\<close>

text \<open>A log is compacted only when \<open>snapshot_interval\<close> entries have been applied since the last time.\<close>

definition snapshot_late :: "nat \<Rightarrow> ('s, 'c, 'r, 'b) raft_node \<Rightarrow> bool" where
  "snapshot_late k n \<longleftrightarrow> rn_snapshot_interval n = k \<and>
     (rl_last_included_index (rn_log n) = 0 \<or> k \<le> rl_last_included_index (rn_log n))"

definition snapshots_kept :: "('s, 'c, 'r, 'b) raft_node \<Rightarrow> ('s, 'c, 'r, 'b) raft_node \<Rightarrow> bool" where
  "snapshots_kept n n' \<longleftrightarrow> rn_snapshot_interval n' = rn_snapshot_interval n \<and>
     rl_last_included_index (rn_log n') = rl_last_included_index (rn_log n)"

lemma snapshot_late_kept: "snapshot_late k n \<Longrightarrow> snapshots_kept n n' \<Longrightarrow> snapshot_late k n'"
  by (simp add: snapshot_late_def snapshots_kept_def)

lemma snapshots_kept_refl [simp]: "snapshots_kept n n"
  by (simp add: snapshots_kept_def)

lemma check_snapshot_late:
  assumes "snapshot_late k n"
  shows "snapshot_late k (fst (raft_check_snapshot M n))"
  using assms by (auto simp: raft_check_snapshot_def Let_def snapshot_late_def max_def split: sum.splits)

lemma apply_one_late: "snapshot_late k n \<Longrightarrow> snapshot_late k (fst (raft_apply_one M n))"
proof -
  assume late: "snapshot_late k n"
  have "snapshot_late k (raft_resolve (n\<lparr>rn_last_applied := i, rn_machine := m\<rparr>) r)" for i m r
    using late by (simp add: snapshot_late_def)
  from check_snapshot_late [OF this] show ?thesis
    using late by (auto simp: raft_apply_one_def Let_def split: sum.splits prod.splits) (simp_all add: snapshot_late_def)
qed

lemma apply_late: "snapshot_late k n \<Longrightarrow> snapshot_late k (fst (raft_apply_committed_entries M n))"
proof (induction M n rule: raft_apply_committed_entries.induct)
  case (1 M n)
  obtain n' r where one: "raft_apply_one M n = (n', r)" by fastforce
  then have "snapshot_late k n'" using apply_one_late [OF 1(2), of M] by simp
  then show ?case
    using 1(1) [OF _ one [symmetric]] 1(2) one
    by (subst raft_apply_committed_entries.simps) (auto split: sum.splits)
qed

lemma late_fields [simp]:
  "snapshot_late k (n\<lparr>rn_commit_index := c\<rparr>) = snapshot_late k n"
  "snapshot_late k (n\<lparr>rn_next_index := d\<rparr>) = snapshot_late k n"
  "snapshot_late k (n\<lparr>rn_match_index := e, rn_next_index := d\<rparr>) = snapshot_late k n"
  "snapshot_late k (n\<lparr>rn_match_index := e\<rparr>) = snapshot_late k n"
  "snapshot_late k (n\<lparr>rn_votes := v\<rparr>) = snapshot_late k n"
  by (simp_all add: snapshot_late_def)

lemma update_term_late [simp]: "snapshot_late k (raft_update_term n t) = snapshot_late k n"
  by (simp add: raft_update_term_def raft_save_state_def snapshot_late_def)

lemma update_commit_late: "snapshot_late k n \<Longrightarrow> snapshot_late k (fst (raft_update_commit_index M n))"
  using apply_late [of k "n\<lparr>rn_commit_index := c\<rparr>" M for c]
  by (auto simp: raft_update_commit_index_def Let_def split: sum.splits)

lemma append_reply_late: "snapshot_late k n \<Longrightarrow> snapshot_late k (raft_append_reply M n p req rt ok)"
  by (auto simp: raft_append_reply_def Let_def intro!: update_commit_late split: option.splits)

lemma handle_append_late:
  assumes late: "snapshot_late k n"
  shows "snapshot_late k (fst (raft_handle_append_entries M n req))"
proof (cases "ar_term req < rn_current_term n")
  case True
  then show ?thesis using late by (simp add: raft_handle_append_entries_def)
next
  case False
  define n0 where "n0 = (if ar_term req > rn_current_term n then raft_update_term n (ar_term req) else n)"
  have n0: "snapshot_late k n0" using late by (simp add: n0_def)
  have log: "snapshot_late k (n0\<lparr>rn_log := l\<rparr>)" if "raft_append_loop (rn_log n0) i es = (l, r)" for i es l r
    using append_loop_grows [OF that] n0 by (simp add: snapshot_late_def)
  have applied: "snapshot_late k (fst (raft_apply_committed_entries M (n0\<lparr>rn_log := l, rn_commit_index := c\<rparr>)))"
    if "raft_append_loop (rn_log n0) i es = (l, r)" for i es l r c
    by (rule apply_late) (use log [OF that] in \<open>simp add: snapshot_late_def\<close>)
  show ?thesis
    unfolding raft_handle_append_entries_def Let_def n0_def [symmetric] if_not_P [OF False]
    using n0 log applied by (auto split: sum.splits prod.splits bool.splits) (metis fst_conv)+
qed

lemma become_leader_interval: "rn_snapshot_interval (fst (raft_become_leader n)) = rn_snapshot_interval n"
proof -
  have "rn_snapshot_interval (foldl (\<lambda>n peer. n\<lparr>rn_next_index := dict_set peer i (rn_next_index n),
      rn_match_index := dict_set peer 0 (rn_match_index n)\<rparr>) m ps) = rn_snapshot_interval m" for m :: "('a, 'b, 'c, 'd) raft_node" and i ps
    by (induction ps arbitrary: m) auto
  then show "rn_snapshot_interval (fst (raft_become_leader n)) = rn_snapshot_interval n" by (simp add: raft_become_leader_def Let_def)
qed

lemma vote_reply_late: "snapshot_late k n \<Longrightarrow> snapshot_late k (fst (raft_vote_reply n p t rt granted))"
  by (auto simp: raft_vote_reply_def Let_def) (simp add: snapshot_late_def become_leader_kept(1) become_leader_interval)

lemma request_vote_late: "snapshot_late k n \<Longrightarrow> snapshot_late k (fst (raft_handle_request_vote n t i a b))"
  by (auto simp: raft_handle_request_vote_def Let_def raft_save_state_def raft_update_term_def snapshot_late_def split: sum.splits)

lemma timeout_late: "snapshot_late k n \<Longrightarrow> snapshot_late k (fst (raft_election_timeout n))"
  by (auto simp: raft_election_timeout_def raft_start_election_def Let_def raft_save_state_def snapshot_late_def split: sum.splits)

lemma submit_late: "snapshot_late k n \<Longrightarrow> snapshot_late k (fst (raft_submit_command n c))"
  by (auto simp: raft_submit_command_def Let_def snapshot_late_def)

lemma start_stop_late: "snapshot_late k n \<Longrightarrow> snapshot_late k (raft_start n)" "snapshot_late k n \<Longrightarrow> snapshot_late k (raft_stop n)"
  by (auto simp: raft_start_def raft_stop_def snapshot_late_def)

lemma init_interval: "raft_init M machine0 k i ps fs = Inr n \<Longrightarrow> rn_snapshot_interval n = k"
  by (auto simp: raft_init_def Let_def case_prod_unfold split: sum.splits)

definition all_late :: "nat \<Rightarrow> node_id list \<Rightarrow> ('s, 'c, 'r, 'b) raft_cluster \<Rightarrow> bool" where
  "all_late k ns s \<longleftrightarrow> (\<forall>i\<in>set ns. snapshot_late k (cl_nodes s i))"

lemma put_late: "all_late k ns s \<Longrightarrow> i \<in> set ns \<Longrightarrow> (snapshot_late k (cl_nodes s i) \<Longrightarrow> snapshot_late k n') \<Longrightarrow> all_late k ns (raft_put s i n')"
  by (simp add: all_late_def raft_put_def)

lemma all_late_fields [simp]:
  "all_late k ns (s\<lparr>cl_vote_calls := a\<rparr>) = all_late k ns s" "all_late k ns (s\<lparr>cl_vote_replies := b\<rparr>) = all_late k ns s"
  "all_late k ns (s\<lparr>cl_append_calls := c\<rparr>) = all_late k ns s" "all_late k ns (s\<lparr>cl_append_replies := d\<rparr>) = all_late k ns s"
  by (simp_all add: all_late_def)

lemma reachable_late: "raft_reachable M machine0 k ns timely prompt s \<Longrightarrow> all_late k ns s"
proof (induction rule: raft_reachable.induct)
  case (rc_start nodes)
  have "snapshot_late k (nodes i)" if "i \<in> set ns" for i
  proof -
    have init: "raft_init M machine0 k i (raft_peers_of ns i) fs_init = Inr (nodes i)" using rc_start that by blast
    show ?thesis using raft_init_fresh(12) [OF init] init_interval [OF init] by (simp add: snapshot_late_def)
  qed
  then show ?case by (simp add: all_late_def)
next
  case (rc_timeout s i n ws)
  then show ?case using timeout_late [of k "cl_nodes s i"] by (simp add: put_late)
next
  case (rc_vote s p i t a b n rt granted)
  then show ?case using request_vote_late [of k "cl_nodes s p" t i a b] by (simp add: put_late)
next
  case (rc_vote_raises s p i t a b n e)
  then show ?case using request_vote_late [of k "cl_nodes s p" t i a b] by (simp add: put_late)
next
  case (rc_vote_reply s i p t rt granted n ws)
  then show ?case using vote_reply_late [of k "cl_nodes s i" p t rt granted] by (simp add: put_late)
next
  case (rc_append s p i req n r)
  then show ?case using handle_append_late [of k "cl_nodes s p" M req] by (simp add: put_late)
next
  case (rc_submit s i c n r)
  then show ?case using submit_late [of k "cl_nodes s i" c] by (simp add: put_late)
next
  case (rc_restart s i n)
  have "log_stored (rn_log (cl_nodes s i))"
    using raft_reachable_stored [OF rc_restart.hyps(1)] rc_restart.hyps(2) by (simp add: logs_stored_def)
  then have "rn_log n = rn_log (cl_nodes s i)" using raft_init_kept(1) [OF rc_restart.hyps(3)] rl_load_stored by metis
  moreover have "rn_snapshot_interval n = k" by (rule init_interval [OF rc_restart.hyps(3)])
  ultimately show ?case by (intro put_late rc_restart.IH rc_restart.hyps(2)) (simp add: snapshot_late_def)
qed (auto intro!: put_late append_reply_late start_stop_late)

lemma short_logs_uncompacted:
  assumes "raft_reachable M machine0 k ns timely prompt s" and "\<forall>i\<in>set ns. rl_len (rn_log (cl_nodes s i)) < k"
  shows "uncompacted ns s"
  unfolding uncompacted_def
proof
  fix i assume i: "i \<in> set ns"
  have "snapshot_late k (cl_nodes s i)" using reachable_late [OF assms(1)] i by (simp add: all_late_def)
  moreover have "rl_last_included_index (rn_log (cl_nodes s i)) < k" using assms(2) i by (fastforce simp: rl_len_def)
  ultimately show "rl_last_included_index (rn_log (cl_nodes s i)) = 0" by (simp add: snapshot_late_def)
qed

section \<open>The clients\<close>

definition raft_is_leader :: "('s, 'c, 'r, 'b) raft_node \<Rightarrow> bool" where
  "raft_is_leader n \<longleftrightarrow> rn_state n = Leader"

text \<open>\<open>read_state\<close> applies a \<open>get\<close> to the node's own machine, whatever its role.\<close>

definition raft_read_state ::
  "('s, command, 'r, 'b) machine \<Rightarrow> ('s, command, 'r, 'b) raft_node \<Rightarrow> string \<Rightarrow> (('s, command, 'r, 'b) raft_node, 'r) outcome" where
  "raft_read_state M n key =
     (let (m, r) = sm_apply M (rn_machine n) [(''op'', JStr ''get''), (''key'', JStr key)] in (n\<lparr>rn_machine := m\<rparr>, r))"

text \<open>
  \<open>future.result(timeout=5)\<close>: the exception or result set on the Future that \<open>submit_command\<close> returned, or a
  timeout; the node is as it is when the wait is over.
\<close>

definition raft_future_result :: "('s, 'c, 'r, 'b) raft_node \<Rightarrow> nat result \<Rightarrow> 'r result" where
  "raft_future_result n future =
     (case future of Inl e \<Rightarrow> Inl e
      | Inr f \<Rightarrow> (case rn_resolved n f of Some r \<Rightarrow> Inr r | None \<Rightarrow> Inl (OtherException ''TimeoutError'')))"

text \<open>\<open>result.get(name)\<close> on the dictionary that a state machine returns; on another value it raises.\<close>

fun result_get :: "json \<Rightarrow> string \<Rightarrow> json result" where
  "result_get (JObj obj) name = Inr (dict_get obj name JNull)"
| "result_get _ name = Inl (OtherException ''AttributeError'')"

text \<open>The status check that \<open>set\<close> and \<open>increment\<close> return; an exception is caught and gives False.\<close>

definition status_ok :: "json result \<Rightarrow> bool" where
  "status_ok r = (bind_result r (\<lambda>x. result_get x ''status'') = Inr (JStr ''ok''))"

subsection \<open>RaftKVStore\<close>

definition rkv_set_command :: "string \<Rightarrow> json \<Rightarrow> command" where
  "rkv_set_command key value = [(''op'', JStr ''set''), (''key'', JStr key), (''value'', value)]"

definition rkv_delete_command :: "string \<Rightarrow> command" where
  "rkv_delete_command key = [(''op'', JStr ''delete''), (''key'', JStr key)]"

definition rkv_set ::
  "(kv_store, command, json, kv_store) raft_node \<Rightarrow> string \<Rightarrow> json
    \<Rightarrow> (kv_store, command, json, kv_store) raft_node \<times> nat result \<times> spawn list" where
  "rkv_set n key value = raft_submit_command n (rkv_set_command key value)"

definition rkv_set_done :: "(kv_store, command, json, kv_store) raft_node \<Rightarrow> nat result \<Rightarrow> bool" where
  "rkv_set_done n future = status_ok (raft_future_result n future)"

definition rkv_delete ::
  "(kv_store, command, json, kv_store) raft_node \<Rightarrow> string
    \<Rightarrow> (kv_store, command, json, kv_store) raft_node \<times> nat result \<times> spawn list" where
  "rkv_delete n key = raft_submit_command n (rkv_delete_command key)"

definition rkv_delete_done :: "(kv_store, command, json, kv_store) raft_node \<Rightarrow> nat result \<Rightarrow> json" where
  "rkv_delete_done n future =
     (case bind_result (raft_future_result n future) (\<lambda>x. result_get x ''deleted'') of Inl e \<Rightarrow> JBool False | Inr x \<Rightarrow> x)"

definition rkv_get :: "(kv_store, command, json, kv_store) raft_node \<Rightarrow> string \<Rightarrow> json result" where
  "rkv_get n key = bind_result (snd (raft_read_state kv_machine n key)) (\<lambda>x. result_get x ''value'')"

lemma rkv_get_eq: "rkv_get n key = Inr (dict_get (rn_machine n) key JNull)"
  by (simp add: rkv_get_def raft_read_state_def kv_machine_def kv_get dict_get_def split: prod.splits)

lemma rkv_read_changes_nothing: "fst (raft_read_state kv_machine n key) = n"
  by (simp add: raft_read_state_def kv_machine_def kv_get split: prod.splits)

subsection \<open>DistributedCounter\<close>

definition dc_increment_command :: "int \<Rightarrow> command" where
  "dc_increment_command delta = [(''op'', JStr ''increment''), (''delta'', JInt delta)]"

definition dc_increment ::
  "(int, command, json, string) raft_node \<Rightarrow> int \<Rightarrow> (int, command, json, string) raft_node \<times> nat result \<times> spawn list" where
  "dc_increment n delta = raft_submit_command n (dc_increment_command delta)"

definition dc_increment_done :: "(int, command, json, string) raft_node \<Rightarrow> nat result \<Rightarrow> bool" where
  "dc_increment_done n future = status_ok (raft_future_result n future)"

text \<open>\<open>result.get("value", 0)\<close>; the counter's \<open>get\<close> always has the field.\<close>

definition dc_get :: "(int, command, json, string) raft_node \<Rightarrow> json result" where
  "dc_get n = bind_result (snd (raft_read_state counter_machine n [])) (\<lambda>x. result_get x ''value'')"

lemma dc_get_eq: "dc_get n = Inr (JInt (rn_machine n))"
  by (simp add: dc_get_def raft_read_state_def counter_machine_def counter_apply_def dict_get_def split: prod.splits)

lemma counter_run_increments: "counter.run v (map dc_increment_command ds) = v + sum_list ds"
  by (induction ds arbitrary: v) (simp_all add: counter_apply_def dc_increment_command_def dict_get_def)

section \<open>One history\<close>

context raft_service
begin

lemma one_history:
  assumes "raft_reachable M machine0 k ns True True s" and "uncompacted ns s"
  shows "\<exists>h. \<forall>i\<in>set ns. rn_last_applied (cl_nodes s i) \<le> length h \<and> rn_machine (cl_nodes s i) = after h (rn_last_applied (cl_nodes s i))"
proof (cases "ns = []")
  case False
  obtain a where a: "araft_inv ns a" "\<And>i. i \<in> set ns \<Longrightarrow> node_abs ns a i (cl_nodes s i)"
    using uncompacted_abs [OF assms] by metis
  have node: "ab_log a i = rl_entries (rn_log (cl_nodes s i))" "ab_commit a i = rn_commit_index (cl_nodes s i)" if "i \<in> set ns" for i
    using a(2) [OF that] by (simp_all add: node_abs_def)
  have store: "rn_last_applied (cl_nodes s i) \<le> ab_commit a i" "ab_commit a i \<le> length (ab_log a i)"
    "rn_machine (cl_nodes s i) = after (ab_log a i) (rn_last_applied (cl_nodes s i))" if "i \<in> set ns" for i
    using reachable_applied [OF assms] that node [OF that] by (auto simp: all_applied_def applied_def stands_for_def)
  let ?C = "ab_commit a ` set ns"
  have "Max ?C \<in> ?C" using False by (intro Max_in) simp_all
  then obtain j where "j \<in> set ns" "ab_commit a j = Max ?C" by (metis imageE)
  then have j: "j \<in> set ns" "ab_commit a i \<le> ab_commit a j" if "i \<in> set ns" for i
    using that by simp_all
  have "take (ab_commit a i) (ab_log a i) = take (ab_commit a i) (ab_log a j)" if "i \<in> set ns" for i
    using commits_agree [OF a(1), of "ab_log a i" "ab_term a i" "ab_commit a i" "ab_log a j" "ab_term a j" "ab_commit a j"]
      a(1) j(2) [OF that] by (simp add: araft_inv_def inv_commits_def min_def)
  then have "take (rn_last_applied (cl_nodes s i)) (ab_log a i) = take (rn_last_applied (cl_nodes s i)) (ab_log a j)" if "i \<in> set ns" for i
    using take_shorter store(1) that by blast
  then have "rn_machine (cl_nodes s i) = after (ab_log a j) (rn_last_applied (cl_nodes s i))" if "i \<in> set ns" for i
    using store(3) that by (simp add: after_def)
  moreover have "rn_last_applied (cl_nodes s i) \<le> length (ab_log a j)" if "i \<in> set ns" for i
    using store(1) [OF that] store(2) [OF j(1) [OF that]] j(2) [OF that] by linarith
  ultimately show ?thesis by blast
qed simp

end

text \<open>
  The replicas of the key-value store answer from one history: as long as votes and
  acknowledgements arrive in their own term and no log is longer than the snapshot interval,
  there is one sequence of commands such that \<open>get\<close>, on whatever node and for whatever key, returns
  what the commands up to that node's \<open>last_applied\<close> have left there; a leader and a
  follower differ only in how far they are.
\<close>

theorem raft_kv_reads_one_history:
  assumes "raft_reachable kv_machine kv_init k ns True True s" and "\<forall>i\<in>set ns. rl_len (rn_log (cl_nodes s i)) < k"
  shows "\<exists>cs. \<forall>i\<in>set ns. rn_last_applied (cl_nodes s i) \<le> length cs \<and>
    (\<forall>key. rkv_get (cl_nodes s i) key =
       Inr (dict_get (kv.run kv_init (take (rn_last_applied (cl_nodes s i)) cs)) key JNull))"
proof -
  obtain h where h: "\<And>i. i \<in> set ns \<Longrightarrow> rn_last_applied (cl_nodes s i) \<le> length h"
    "\<And>i. i \<in> set ns \<Longrightarrow> rn_machine (cl_nodes s i) = kv_service.after h (rn_last_applied (cl_nodes s i))"
    using kv_service.one_history [OF assms(1) short_logs_uncompacted [OF assms]] by blast
  have "kv_service.after h m = kv.run kv_init (take m (map le_command h))" for m
    unfolding kv_service.after_def by (simp add: kv_machine_def take_map)
  with h show ?thesis by (intro exI [of _ "map le_command h"]) (simp add: rkv_get_eq)
qed

theorem raft_kv_reads_one_history_witness:
  "\<exists>s cs. raft_reachable kv_machine kv_init 10 abc True True s \<and> rkv_get (cl_nodes s ''A'') ''x'' = Inr (JInt 1) \<and>
     dict_get (kv.run kv_init (take 1 cs)) ''x'' JNull = JInt 1"
proof -
  define s where "s = raft_log_run kv_machine kv_init 10 True True abc one_put"
  have s: "raft_reachable kv_machine kv_init 10 abc True True s" unfolding s_def by (rule raft_log_run_reachable)
  have "list_all (\<lambda>i. rl_len (rn_log (cl_nodes s i)) < 10) abc" unfolding s_def by code_simp
  then have len: "\<forall>i\<in>set abc. rl_len (rn_log (cl_nodes s i)) < 10" by simp
  have A: "rn_last_applied (cl_nodes s ''A'') = 1" "rkv_get (cl_nodes s ''A'') ''x'' = Inr (JInt 1)" unfolding s_def by code_simp+
  obtain cs where "\<forall>i\<in>set abc. rn_last_applied (cl_nodes s i) \<le> length cs \<and>
    (\<forall>key. rkv_get (cl_nodes s i) key = Inr (dict_get (kv.run kv_init (take (rn_last_applied (cl_nodes s i)) cs)) key JNull))"
    using raft_kv_reads_one_history [OF s len] by blast
  moreover have "''A'' \<in> set abc" by simp
  ultimately have "rkv_get (cl_nodes s ''A'') ''x'' = Inr (dict_get (kv.run kv_init (take 1 cs)) ''x'' JNull)" using A(1) by metis
  then show ?thesis using s A(2) by auto
qed

text \<open>The counter: what a node reads is the sum of the increments it has applied, in the order of one history.\<close>

theorem raft_counter_reads_one_history:
  assumes "raft_reachable counter_machine 0 k ns True True s" and "\<forall>i\<in>set ns. rl_len (rn_log (cl_nodes s i)) < k"
  shows "\<exists>cs. \<forall>i\<in>set ns. rn_last_applied (cl_nodes s i) \<le> length cs \<and>
    dc_get (cl_nodes s i) = Inr (JInt (counter.run 0 (take (rn_last_applied (cl_nodes s i)) cs)))"
proof -
  obtain h where h: "\<And>i. i \<in> set ns \<Longrightarrow> rn_last_applied (cl_nodes s i) \<le> length h"
    "\<And>i. i \<in> set ns \<Longrightarrow> rn_machine (cl_nodes s i) = counter_service.after h (rn_last_applied (cl_nodes s i))"
    using counter_service.one_history [OF assms(1) short_logs_uncompacted [OF assms]] by blast
  have "counter_service.after h m = counter.run 0 (take m (map le_command h))" for m
    unfolding counter_service.after_def by (simp add: counter_machine_def take_map)
  with h show ?thesis by (intro exI [of _ "map le_command h"]) (simp add: dc_get_eq)
qed

section \<open>Less than linearizable\<close>

text \<open>
  A has committed \<open>x = 1\<close> and is cut off. B, elected in term 2 by C, commits \<open>x = 2\<close>. A has not heard of it.
\<close>

definition stale_leader :: "command log_event list" where
  "stale_leader =
     (let x = entry 1 1 (rkv_set_command ''x'' (JInt 1)); y = entry 2 2 (rkv_set_command ''x'' (JInt 2));
          xs = put_request ''A'' 1 0 0 [x] 0; commit = put_request ''A'' 1 1 1 [] 1; late = put_request ''A'' 1 0 0 [x] 1;
          ys = put_request ''B'' 2 1 1 [y] 1
      in Le_Vote (Ev_Start ''A'') # elect ''A'' 1 0 0 [''B''] @ [Le_Submit ''A'' (le_command x)] @
         deliver xs ''B'' @ [answer xs ''B''] @ deliver commit ''B'' @ deliver late ''C'' @
         Le_Vote (Ev_Start ''B'') # elect ''B'' 2 1 1 [''C''] @ [Le_Submit ''B'' (le_command y)] @ deliver ys ''C'' @ [answer ys ''C''])"

text \<open>
  Reads are not linearizable: there is a run without any late vote or acknowledgement in which
  a write is committed and answered by the leader of term 2, and after it the store of A, which
  still takes itself for the leader, returns the value from before the write.
\<close>

theorem raft_leader_reads_stale:
  "\<exists>s. raft_reachable kv_machine kv_init 10 abc True True s \<and> raft_is_leader (cl_nodes s ''A'') \<and> raft_is_leader (cl_nodes s ''B'') \<and>
     rkv_set_done (cl_nodes s ''B'') (Inr 0) \<and> rkv_get (cl_nodes s ''B'') ''x'' = Inr (JInt 2) \<and>
     rkv_get (cl_nodes s ''A'') ''x'' = Inr (JInt 1)"
proof -
  define s where "s = raft_log_run kv_machine kv_init 10 True True abc stale_leader"
  have "raft_reachable kv_machine kv_init 10 abc True True s" unfolding s_def by (rule raft_log_run_reachable)
  moreover have "raft_is_leader (cl_nodes s ''A'')" "raft_is_leader (cl_nodes s ''B'')" "rkv_set_done (cl_nodes s ''B'') (Inr 0)"
    "rkv_get (cl_nodes s ''B'') ''x'' = Inr (JInt 2)" "rkv_get (cl_nodes s ''A'') ''x'' = Inr (JInt 1)"
    unfolding s_def by code_simp+
  ultimately show ?thesis by blast
qed

text \<open>
  \<open>set\<close> can return True for a write that is lost. A, leader of term 1, takes \<open>x = 1\<close> and sends it to nobody;
  B, elected in term 2, commits \<open>y = 5\<close> at the same index. When A applies B's entry it resolves the Future of
  its own command, so \<open>set\<close> returns True at A, while \<open>x\<close> is in no log and in no store.
\<close>

definition lost_set :: "command log_event list" where
  "lost_set =
     (let y = entry 2 1 (rkv_set_command ''y'' (JInt 5)); ys = put_request ''B'' 2 0 0 [y] 0; commit = put_request ''B'' 2 0 0 [y] 1
      in Le_Vote (Ev_Start ''A'') # elect ''A'' 1 0 0 [''B''] @ [Le_Submit ''A'' (rkv_set_command ''x'' (JInt 1))] @
         Le_Vote (Ev_Start ''B'') # elect ''B'' 2 0 0 [''C''] @ [Le_Submit ''B'' (le_command y)] @ deliver ys ''C'' @ [answer ys ''C''] @
         deliver commit ''A'')"

theorem raft_set_confirms_lost_write:
  "\<exists>s. raft_reachable kv_machine kv_init 10 abc True True s \<and> rkv_set_done (cl_nodes s ''A'') (Inr 0) \<and>
     list_all (\<lambda>i. rkv_get (cl_nodes s i) ''x'' = Inr JNull \<and>
       rkv_set_command ''x'' (JInt 1) \<notin> set (map le_command (rl_entries (rn_log (cl_nodes s i))))) abc"
proof -
  define s where "s = raft_log_run kv_machine kv_init 10 True True abc lost_set"
  have "raft_reachable kv_machine kv_init 10 abc True True s" unfolding s_def by (rule raft_log_run_reachable)
  moreover have "rkv_set_done (cl_nodes s ''A'') (Inr 0)" unfolding s_def by code_simp
  moreover have "list_all (\<lambda>i. rkv_get (cl_nodes s i) ''x'' = Inr JNull \<and>
       rkv_set_command ''x'' (JInt 1) \<notin> set (map le_command (rl_entries (rn_log (cl_nodes s i))))) abc"
    unfolding s_def by code_simp
  ultimately show ?thesis by blast
qed

end
