(* ===== verification/Pbft.thy ===== *)
theory Pbft
  imports Json
begin

text \<open>
  Practical Byzantine fault tolerance, \<open>byzantine-consensus/src/pbft\<close>: the messages, one function
  per handler of \<open>PBFTNode\<close>, and a system of nodes over an asynchronous network with faulty nodes
  that send what they like under their own names. A handler returns the node and what it hands
  to the network; the network may deliver any message it was ever given to any node at any time.
\<close>

section \<open>Messages\<close>

record request_msg =
  rq_sender :: nat
  rq_view :: nat
  rq_client_id :: string
  rq_operation :: json
  rq_request_id :: nat

record pre_prepare =
  pp_sender :: nat
  pp_view :: nat
  pp_sequence_number :: nat
  pp_digest :: string
  pp_request :: "request_msg option"

text \<open>\<open>PrepareMessage\<close> and \<open>CommitMessage\<close> have the same fields.\<close>

record phase_msg =
  ph_sender :: nat
  ph_view :: nat
  ph_sequence_number :: nat
  ph_digest :: string

record view_change =
  vc_sender :: nat
  vc_view :: nat
  vc_checkpoint_seq :: nat
  vc_prepared_proofs :: "pre_prepare list"

record new_view =
  nv_sender :: nat
  nv_view :: nat
  nv_view_change_messages :: "view_change list"
  nv_pre_prepares :: "pre_prepare list"

datatype pbft_msg = Request request_msg | Pre_Prepare pre_prepare | Prepare phase_msg
  | Commit phase_msg | Reply nat nat string nat json | View_Change view_change | New_View new_view

fun msg_sender :: "pbft_msg \<Rightarrow> nat" where
  "msg_sender (Request m) = rq_sender m"
| "msg_sender (Pre_Prepare m) = pp_sender m"
| "msg_sender (Prepare m) = ph_sender m"
| "msg_sender (Commit m) = ph_sender m"
| "msg_sender (Reply sender view client_id request_id res) = sender"
| "msg_sender (View_Change m) = vc_sender m"
| "msg_sender (New_View m) = nv_sender m"

datatype network_call = Broadcast pbft_msg | Send pbft_msg nat

section \<open>The node\<close>

type_synonym slot = "nat \<times> nat"

datatype pbft_status = Normal | Changing_View

record request_state =
  rs_request_id :: nat
  rs_committed :: bool
  rs_result :: "string option"

text \<open>\<open>pb_executed\<close> lists what \<open>execute_request\<close> has executed, in order (the code logs it).\<close>

record pbft_node =
  pb_node_id :: nat
  pb_total_nodes :: nat
  pb_f :: nat
  pb_network :: bool
  pb_view :: nat
  pb_seq_num :: nat
  pb_last_executed_seq :: nat
  pb_pre_prepares :: "slot \<rightharpoonup> pre_prepare"
  pb_prepares :: "slot \<Rightarrow> (nat \<times> string) set"
  pb_commits :: "slot \<Rightarrow> (nat \<times> string) set"
  pb_view_change_log :: "nat \<Rightarrow> view_change list"
  pb_status :: pbft_status
  pb_prepared_predicate :: "slot set"
  pb_committed_predicate :: "slot set"
  pb_client_requests :: "nat \<rightharpoonup> request_state"
  pb_executed :: "(slot \<times> pre_prepare) list"

definition pbft_init :: "nat \<Rightarrow> nat \<Rightarrow> bool \<Rightarrow> pbft_node" where
  "pbft_init node_id total_nodes network =
     \<lparr>pb_node_id = node_id, pb_total_nodes = total_nodes, pb_f = (total_nodes - 1) div 3,
      pb_network = network, pb_view = 0, pb_seq_num = 0, pb_last_executed_seq = 0,
      pb_pre_prepares = (\<lambda>_. None), pb_prepares = (\<lambda>_. {}), pb_commits = (\<lambda>_. {}),
      pb_view_change_log = (\<lambda>_. []), pb_status = Normal, pb_prepared_predicate = {},
      pb_committed_predicate = {}, pb_client_requests = (\<lambda>_. None), pb_executed = []\<rparr>"

definition pbft_get_primary_id :: "pbft_node \<Rightarrow> nat" where
  "pbft_get_primary_id n = pb_view n mod pb_total_nodes n"

definition pbft_is_primary :: "pbft_node \<Rightarrow> bool" where
  "pbft_is_primary n \<longleftrightarrow> pb_node_id n = pb_view n mod pb_total_nodes n"

definition pbft_broadcast :: "pbft_node \<Rightarrow> pbft_msg \<Rightarrow> network_call list" where
  "pbft_broadcast n m = (if pb_network n then [Broadcast m] else [])"

definition pbft_send :: "pbft_node \<Rightarrow> pbft_msg \<Rightarrow> nat \<Rightarrow> network_call list" where
  "pbft_send n m destination = (if pb_network n then [Send m destination] else [])"

text \<open>
  Executing a slot. The pre-prepare is there: every call comes from a handler that has just read
  or stored it.
\<close>

definition pbft_execute_request :: "pbft_node \<Rightarrow> slot \<Rightarrow> pbft_node" where
  "pbft_execute_request n key =
     (case pb_pre_prepares n key of None \<Rightarrow> n
      | Some pp \<Rightarrow>
          let req_id = (case pp_request pp of None \<Rightarrow> 0 | Some req \<Rightarrow> rq_request_id req);
              n1 = n\<lparr>pb_executed := pb_executed n @ [(key, pp)]\<rparr>
          in case pb_client_requests n1 req_id of None \<Rightarrow> n1
             | Some st \<Rightarrow> n1\<lparr>pb_client_requests := (pb_client_requests n1)(req_id \<mapsto>
                 st\<lparr>rs_committed := True, rs_result := Some ''Executed''\<rparr>)\<rparr>)"

definition matching :: "(nat \<times> string) set \<Rightarrow> string \<Rightarrow> (nat \<times> string) set" where
  "matching votes digest = Set.filter (\<lambda>p. snd p = digest) votes"

definition pbft_check_committed :: "pbft_node \<Rightarrow> slot \<Rightarrow> string \<Rightarrow> pbft_node" where
  "pbft_check_committed n key digest =
     (if key \<in> pb_committed_predicate n then n
      else if key \<notin> pb_prepared_predicate n then n
      else if card (matching (pb_commits n key) digest) \<ge> 2 * pb_f n + 1
      then pbft_execute_request
        (n\<lparr>pb_committed_predicate := insert key (pb_committed_predicate n)\<rparr>) key
      else n)"

definition pbft_check_prepared :: "pbft_node \<Rightarrow> slot \<Rightarrow> string \<Rightarrow> pbft_node \<times> network_call list" where
  "pbft_check_prepared n key digest =
     (if key \<in> pb_prepared_predicate n then (n, [])
      else if card (matching (pb_prepares n key) digest) \<ge> 2 * pb_f n
      then
        let commit = \<lparr>ph_sender = pb_node_id n, ph_view = pb_view n, ph_sequence_number = snd key,
                      ph_digest = digest\<rparr>;
            n1 = n\<lparr>pb_prepared_predicate := insert key (pb_prepared_predicate n),
                   pb_commits := (pb_commits n)(key := insert (pb_node_id n, digest) (pb_commits n key))\<rparr>
        in (pbft_check_committed n1 key digest, pbft_broadcast n1 (Commit commit))
      else (n, []))"

definition pbft_handle_request ::
  "(json \<Rightarrow> string) \<Rightarrow> pbft_node \<Rightarrow> request_msg \<Rightarrow> pbft_node \<times> network_call list" where
  "pbft_handle_request digest_of n0 msg =
     (if \<not> pbft_is_primary n0 then (n0, pbft_send n0 (Request msg) (pbft_get_primary_id n0))
      else
        let n = n0\<lparr>pb_seq_num := pb_seq_num n0 + 1\<rparr>;
            pre_prepare = \<lparr>pp_sender = pb_node_id n, pp_view = pb_view n,
              pp_sequence_number = pb_seq_num n, pp_digest = digest_of (rq_operation msg),
              pp_request = Some msg\<rparr>
        in (n\<lparr>pb_pre_prepares := (pb_pre_prepares n)((pb_view n, pb_seq_num n) \<mapsto> pre_prepare)\<rparr>,
            pbft_broadcast n (Pre_Prepare pre_prepare)))"

definition pbft_handle_pre_prepare :: "pbft_node \<Rightarrow> pre_prepare \<Rightarrow> pbft_node \<times> network_call list" where
  "pbft_handle_pre_prepare n msg =
     (if pp_view msg \<noteq> pb_view n then (n, [])
      else let key = (pp_view msg, pp_sequence_number msg)
        in if pb_pre_prepares n key \<noteq> None then (n, [])
           else
             let prepare = \<lparr>ph_sender = pb_node_id n, ph_view = pb_view n,
                   ph_sequence_number = pp_sequence_number msg, ph_digest = pp_digest msg\<rparr>;
                 n1 = n\<lparr>pb_pre_prepares := (pb_pre_prepares n)(key \<mapsto> msg),
                        pb_prepares := (pb_prepares n)(key := insert (pb_node_id n, pp_digest msg) (pb_prepares n key))\<rparr>;
                 (n2, out) = pbft_check_prepared n1 key (pp_digest msg)
             in (n2, pbft_broadcast n1 (Prepare prepare) @ out))"

definition pbft_handle_prepare :: "pbft_node \<Rightarrow> phase_msg \<Rightarrow> pbft_node \<times> network_call list" where
  "pbft_handle_prepare n msg =
     (if ph_view msg \<noteq> pb_view n then (n, [])
      else
        let key = (ph_view msg, ph_sequence_number msg);
            n1 = n\<lparr>pb_prepares := (pb_prepares n)(key := insert (ph_sender msg, ph_digest msg) (pb_prepares n key))\<rparr>
        in case pb_pre_prepares n1 key of None \<Rightarrow> (n1, [])
           | Some pp \<Rightarrow>
               if ph_digest msg \<noteq> pp_digest pp then (n1, [])
               else pbft_check_prepared n1 key (pp_digest pp))"

definition pbft_handle_commit :: "pbft_node \<Rightarrow> phase_msg \<Rightarrow> pbft_node \<times> network_call list" where
  "pbft_handle_commit n msg =
     (if ph_view msg \<noteq> pb_view n then (n, [])
      else
        let key = (ph_view msg, ph_sequence_number msg);
            n1 = n\<lparr>pb_commits := (pb_commits n)(key := insert (ph_sender msg, ph_digest msg) (pb_commits n key))\<rparr>
        in case pb_pre_prepares n1 key of None \<Rightarrow> (n1, [])
           | Some pp \<Rightarrow>
               if ph_digest msg \<noteq> pp_digest pp then (n1, [])
               else (pbft_check_committed n1 key (pp_digest pp), []))"

definition pbft_trigger_view_change :: "pbft_node \<Rightarrow> pbft_node \<times> network_call list" where
  "pbft_trigger_view_change n =
     (let new_view = pb_view n + 1;
          vc = \<lparr>vc_sender = pb_node_id n, vc_view = new_view, vc_checkpoint_seq = 0, vc_prepared_proofs = []\<rparr>;
          n1 = n\<lparr>pb_status := Changing_View,
                 pb_view_change_log := (pb_view_change_log n)(new_view := pb_view_change_log n new_view @ [vc])\<rparr>
      in (n1, pbft_broadcast n1 (View_Change vc)))"

definition pbft_send_new_view ::
  "pbft_node \<Rightarrow> nat \<Rightarrow> view_change list \<Rightarrow> pbft_node \<times> network_call list" where
  "pbft_send_new_view n new_view view_changes =
     (let nv = \<lparr>nv_sender = pb_node_id n, nv_view = new_view, nv_view_change_messages = view_changes,
                nv_pre_prepares = []\<rparr>;
          n1 = n\<lparr>pb_view := new_view, pb_status := Normal\<rparr>
      in (n1, pbft_broadcast n1 (New_View nv)))"

definition pbft_handle_view_change :: "pbft_node \<Rightarrow> view_change \<Rightarrow> pbft_node \<times> network_call list" where
  "pbft_handle_view_change n msg =
     (if vc_view msg \<le> pb_view n then (n, [])
      else
        let n1 = n\<lparr>pb_view_change_log := (pb_view_change_log n)
                   (vc_view msg := pb_view_change_log n (vc_view msg) @ [msg])\<rparr>;
            senders = set (map vc_sender (pb_view_change_log n1 (vc_view msg)))
        in if card senders \<ge> 2 * pb_f n1 + 1 \<and> vc_view msg mod pb_total_nodes n1 = pb_node_id n1
           then pbft_send_new_view n1 (vc_view msg) (pb_view_change_log n1 (vc_view msg))
           else (n1, []))"

definition pbft_handle_new_view :: "pbft_node \<Rightarrow> new_view \<Rightarrow> pbft_node \<times> network_call list" where
  "pbft_handle_new_view n msg = (n\<lparr>pb_view := nv_view msg, pb_status := Normal\<rparr>, [])"

fun pbft_receive :: "(json \<Rightarrow> string) \<Rightarrow> pbft_node \<Rightarrow> pbft_msg \<Rightarrow> pbft_node \<times> network_call list" where
  "pbft_receive digest_of n (Request m) = pbft_handle_request digest_of n m"
| "pbft_receive digest_of n (Pre_Prepare m) = pbft_handle_pre_prepare n m"
| "pbft_receive digest_of n (Prepare m) = pbft_handle_prepare n m"
| "pbft_receive digest_of n (Commit m) = pbft_handle_commit n m"
| "pbft_receive digest_of n (Reply sender view client_id request_id res) = (n, [])"
| "pbft_receive digest_of n (View_Change m) = pbft_handle_view_change n m"
| "pbft_receive digest_of n (New_View m) = pbft_handle_new_view n m"

text \<open>
  \<open>propose\<close>: the request identifier is the clock's microseconds plus the node's number;
  \<open>client_text\<close> stands for \<open>str(self.node_id)\<close>.
\<close>

definition pbft_propose ::
  "(json \<Rightarrow> string) \<Rightarrow> pbft_node \<Rightarrow> json \<Rightarrow> nat \<Rightarrow> string \<Rightarrow> pbft_node \<times> network_call list" where
  "pbft_propose digest_of n operation micros client_text =
     (let req_id = micros + pb_node_id n;
          n1 = n\<lparr>pb_client_requests := (pb_client_requests n)(req_id \<mapsto>
                 \<lparr>rs_request_id = req_id, rs_committed = False, rs_result = None\<rparr>)\<rparr>;
          req = \<lparr>rq_sender = pb_node_id n1, rq_view = pb_view n1, rq_client_id = client_text,
                 rq_operation = operation, rq_request_id = req_id\<rparr>
      in if pbft_is_primary n1 then pbft_handle_request digest_of n1 req
         else (n1, pbft_send n1 (Request req) (pbft_get_primary_id n1)))"

end
