(* ===== verification/Pbft_Agreement.thy ===== *)
theory Pbft_Agreement
  imports Pbft
begin

text \<open>
  Agreement of correct PBFT nodes: with at most \<open>f\<close> faulty nodes out of \<open>3f + 1\<close>, no two correct
  nodes execute different digests in one slot (view and sequence number). The argument: a correct
  node commits to one digest per slot, and two commit quorums share a correct node. Two ways the
  code loses more than it needs to: cluster sizes other than \<open>3f + 1\<close>, and digests nobody checks.
\<close>

section \<open>The system\<close>

text \<open>
  \<open>ps_pool\<close> holds every message ever handed to the network. Faulty nodes put any message there; with
  \<open>auth\<close> only under their own numbers. The code takes the word of a message for its sender (signatures
  are omitted, as \<open>handle_pre_prepare\<close> says), so \<open>auth\<close> is an assumption about the network.
  \<open>ps_arrived\<close> is a history variable: the messages that a correct node has received, with the view it
  was in.
\<close>

record pbft_system =
  ps_nodes :: "nat \<Rightarrow> pbft_node"
  ps_pool :: "pbft_msg set"
  ps_arrived :: "(nat \<times> nat \<times> pbft_msg) list"

definition called_messages :: "network_call list \<Rightarrow> pbft_msg set" where
  "called_messages calls = set (map (\<lambda>c. case c of Broadcast m \<Rightarrow> m | Send m d \<Rightarrow> m) calls)"

definition pbft_put :: "pbft_system \<Rightarrow> nat \<Rightarrow> pbft_node \<times> network_call list \<Rightarrow> pbft_system" where
  "pbft_put s i res = s\<lparr>ps_nodes := (ps_nodes s)(i := fst res), ps_pool := ps_pool s \<union> called_messages (snd res)\<rparr>"

definition pbft_deliver :: "(json \<Rightarrow> string) \<Rightarrow> pbft_system \<Rightarrow> nat \<Rightarrow> pbft_msg \<Rightarrow> pbft_system" where
  "pbft_deliver digest_of s i m =
     (pbft_put s i (pbft_receive digest_of (ps_nodes s i) m))\<lparr>ps_arrived := (i, pb_view (ps_nodes s i), m) # ps_arrived s\<rparr>"

definition pbft_boot :: "nat \<Rightarrow> pbft_system" where
  "pbft_boot n = \<lparr>ps_nodes = (\<lambda>i. pbft_init i n True), ps_pool = {}, ps_arrived = []\<rparr>"

inductive pbft_reachable :: "(json \<Rightarrow> string) \<Rightarrow> nat \<Rightarrow> nat set \<Rightarrow> bool \<Rightarrow> pbft_system \<Rightarrow> bool"
  for digest_of n F auth where
  ps_start: "pbft_reachable digest_of n F auth (pbft_boot n)"
| ps_faulty: "pbft_reachable digest_of n F auth s \<Longrightarrow> (auth \<Longrightarrow> msg_sender m \<in> F) \<Longrightarrow> F \<noteq> {} \<Longrightarrow>
    pbft_reachable digest_of n F auth (s\<lparr>ps_pool := insert m (ps_pool s)\<rparr>)"
| ps_receive: "pbft_reachable digest_of n F auth s \<Longrightarrow> i < n \<Longrightarrow> i \<notin> F \<Longrightarrow> m \<in> ps_pool s \<Longrightarrow>
    pbft_reachable digest_of n F auth (pbft_deliver digest_of s i m)"
| ps_propose: "pbft_reachable digest_of n F auth s \<Longrightarrow> i < n \<Longrightarrow> i \<notin> F \<Longrightarrow>
    pbft_reachable digest_of n F auth (pbft_put s i (pbft_propose digest_of (ps_nodes s i) operation micros client_text))"
| ps_trigger: "pbft_reachable digest_of n F auth s \<Longrightarrow> i < n \<Longrightarrow> i \<notin> F \<Longrightarrow>
    pbft_reachable digest_of n F auth (pbft_put s i (pbft_trigger_view_change (ps_nodes s i)))"

section \<open>What each handler does to the commits\<close>

definition commit_voters :: "pbft_node \<Rightarrow> slot \<Rightarrow> string \<Rightarrow> nat set" where
  "commit_voters n key d = {x. (x, d) \<in> pb_commits n key}"

text \<open>A correct node's own commit: one digest per slot, and only for prepared slots.\<close>

definition node_ok :: "pbft_node \<Rightarrow> bool" where
  "node_ok n \<longleftrightarrow>
     (\<forall>key d. (pb_node_id n, d) \<in> pb_commits n key \<longrightarrow> key \<in> pb_prepared_predicate n) \<and>
     (\<forall>key d d'. (pb_node_id n, d) \<in> pb_commits n key \<longrightarrow> (pb_node_id n, d') \<in> pb_commits n key \<longrightarrow> d = d') \<and>
     (\<forall>key. finite (pb_commits n key)) \<and>
     (\<forall>key pp. (key, pp) \<in> set (pb_executed n) \<longrightarrow>
        2 * pb_f n + 1 \<le> card (commit_voters n key (pp_digest pp)))"

text \<open>
  \<open>commit_step n res A\<close>: a handler's effect; \<open>A\<close> are the commits of others that the message
  brought in.
\<close>

definition own_commits :: "pbft_node \<Rightarrow> network_call list \<Rightarrow> bool" where
  "own_commits n calls \<longleftrightarrow> (\<forall>c. Commit c \<in> called_messages calls \<longrightarrow>
     ph_sender c = pb_node_id n \<and> (pb_node_id n, ph_digest c) \<in> pb_commits n (ph_view c, ph_sequence_number c))"

definition commit_step :: "pbft_node \<Rightarrow> pbft_node \<times> network_call list \<Rightarrow> (slot \<times> nat \<times> string) set \<Rightarrow> bool" where
  "commit_step n res A \<longleftrightarrow>
     pb_node_id (fst res) = pb_node_id n \<and> pb_f (fst res) = pb_f n \<and>
     (node_ok n \<longrightarrow> node_ok (fst res)) \<and>
     (\<forall>key. pb_commits n key \<subseteq> pb_commits (fst res) key) \<and>
     (\<forall>key x d. (x, d) \<in> pb_commits (fst res) key \<longrightarrow>
        (x, d) \<in> pb_commits n key \<or> x = pb_node_id n \<or> (key, x, d) \<in> A) \<and>
     own_commits (fst res) (snd res)"

text \<open>Handlers that leave commits and the predicates alone.\<close>

definition same_commits :: "pbft_node \<Rightarrow> pbft_node \<Rightarrow> bool" where
  "same_commits n n' \<longleftrightarrow> pb_node_id n' = pb_node_id n \<and> pb_f n' = pb_f n \<and> pb_commits n' = pb_commits n \<and>
     pb_prepared_predicate n' = pb_prepared_predicate n \<and> pb_executed n' = pb_executed n"

lemma same_commits_ok: "same_commits n n' \<Longrightarrow> node_ok n' = node_ok n"
  by (simp add: same_commits_def node_ok_def commit_voters_def)

lemma same_commits_step:
  "same_commits n n' \<Longrightarrow> \<forall>c. Commit c \<notin> called_messages out \<Longrightarrow> commit_step n (n', out) A"
  using same_commits_ok [of n n'] by (simp add: commit_step_def own_commits_def same_commits_def)

lemma step_after_same:
  "same_commits n n1 \<Longrightarrow> commit_step n1 res A \<Longrightarrow> commit_step n res A"
  using same_commits_ok [of n n1] by (simp add: commit_step_def same_commits_def)

lemma step_calls:
  "commit_step n (n', out) A \<Longrightarrow> \<forall>c. Commit c \<notin> called_messages calls \<Longrightarrow> commit_step n (n', calls @ out) A"
  by (auto simp: commit_step_def own_commits_def called_messages_def)

lemma called_broadcast [simp]:
  "called_messages [] = {}"
  "c \<in> called_messages (pbft_broadcast n m) \<longleftrightarrow> pb_network n \<and> c = m"
  "c \<in> called_messages (pbft_send n m d) \<longleftrightarrow> pb_network n \<and> c = m"
  "called_messages (xs @ ys) = called_messages xs \<union> called_messages ys"
  by (auto simp: called_messages_def pbft_broadcast_def pbft_send_def)

lemma matching_voters: "card (matching (pb_commits n key) d) = card (commit_voters n key d)"
proof -
  have "matching (pb_commits n key) d = (\<lambda>x. (x, d)) ` commit_voters n key d"
    by (auto simp: matching_def commit_voters_def)
  then show ?thesis by (simp add: card_image inj_on_def)
qed

lemma execute_fields:
  "pb_node_id (pbft_execute_request n key) = pb_node_id n" "pb_f (pbft_execute_request n key) = pb_f n"
  "pb_commits (pbft_execute_request n key) = pb_commits n"
  "pb_prepared_predicate (pbft_execute_request n key) = pb_prepared_predicate n"
  "set (pb_executed (pbft_execute_request n key)) = set (pb_executed n) \<union>
     (case pb_pre_prepares n key of None \<Rightarrow> {} | Some pp \<Rightarrow> {(key, pp)})"
  by (auto simp: pbft_execute_request_def Let_def split: option.splits)

lemma check_committed_step:
  assumes "\<forall>pp. pb_pre_prepares n key = Some pp \<longrightarrow> pp_digest pp = d"
  shows "commit_step n (pbft_check_committed n key d, []) A"
    "pb_commits (pbft_check_committed n key d) = pb_commits n"
proof -
  let ?n = "pbft_check_committed n key d"
  have same: "pb_node_id ?n = pb_node_id n" "pb_f ?n = pb_f n" "pb_commits ?n = pb_commits n"
    "pb_prepared_predicate ?n = pb_prepared_predicate n"
    by (simp_all add: pbft_check_committed_def execute_fields)
  have "(k, pp) \<in> set (pb_executed ?n) \<Longrightarrow> (k, pp) \<in> set (pb_executed n) \<or>
      k = key \<and> pp_digest pp = d \<and> 2 * pb_f n + 1 \<le> card (commit_voters n key d)" for k pp
    using assms
    by (auto simp: pbft_check_committed_def execute_fields matching_voters split: if_splits option.splits)
  then have "node_ok n \<longrightarrow> node_ok ?n"
    unfolding node_ok_def commit_voters_def same by metis
  then show "commit_step n (?n, []) A" using same by (simp add: commit_step_def own_commits_def)
  show "pb_commits ?n = pb_commits n" by (rule same)
qed

text \<open>More commits never undo a quorum.\<close>

lemma card_voters_mono:
  assumes "finite (pb_commits n' key)" and "pb_commits n key \<subseteq> pb_commits n' key"
  shows "card (commit_voters n key d) \<le> card (commit_voters n' key d)"
proof (rule card_mono)
  have "finite (fst ` pb_commits n' key)" using assms(1) by (rule finite_imageI)
  moreover have "commit_voters n' key d \<subseteq> fst ` pb_commits n' key" by (force simp: commit_voters_def)
  ultimately show "finite (commit_voters n' key d)" by (rule rev_finite_subset)
qed (use assms(2) in \<open>auto simp: commit_voters_def\<close>)

lemma node_ok_more:
  assumes ok: "node_ok n"
    and same: "pb_node_id n' = pb_node_id n" "pb_f n' = pb_f n" "pb_executed n' = pb_executed n"
    and more: "\<And>key. pb_commits n key \<subseteq> pb_commits n' key" "\<And>key. finite (pb_commits n' key)"
    and own: "\<And>key d. (pb_node_id n, d) \<in> pb_commits n' key \<Longrightarrow> key \<in> pb_prepared_predicate n'"
      "\<And>key d d'. (pb_node_id n, d) \<in> pb_commits n' key \<Longrightarrow> (pb_node_id n, d') \<in> pb_commits n' key \<Longrightarrow> d = d'"
  shows "node_ok n'"
  unfolding node_ok_def same
proof (intro conjI allI impI)
  fix key pp
  assume "(key, pp) \<in> set (pb_executed n)"
  then have "2 * pb_f n + 1 \<le> card (commit_voters n key (pp_digest pp))"
    using ok unfolding node_ok_def by blast
  also have "\<dots> \<le> card (commit_voters n' key (pp_digest pp))" by (rule card_voters_mono [OF more(2,1)])
  finally show "2 * pb_f n + 1 \<le> card (commit_voters n' key (pp_digest pp))" .
qed (use own more in blast)+

lemma node_okD:
  assumes "node_ok n"
  shows "(pb_node_id n, d) \<in> pb_commits n key \<Longrightarrow> key \<in> pb_prepared_predicate n"
    "(pb_node_id n, d) \<in> pb_commits n key \<Longrightarrow> (pb_node_id n, d') \<in> pb_commits n key \<Longrightarrow> d = d'"
    "finite (pb_commits n key)"
  using assms unfolding node_ok_def by blast+

text \<open>Voting for a slot that is not prepared yet: the node's only commit there.\<close>

lemma own_vote_ok:
  assumes "node_ok n" and "key \<notin> pb_prepared_predicate n"
  shows "node_ok (n\<lparr>pb_prepared_predicate := insert key (pb_prepared_predicate n),
     pb_commits := (pb_commits n)(key := insert (pb_node_id n, d) (pb_commits n key))\<rparr>)"
proof -
  have none: "(pb_node_id n, d') \<notin> pb_commits n key" for d' using node_okD(1) [OF assms(1)] assms(2) by blast
  show ?thesis
    by (rule node_ok_more [OF assms(1)])
      (auto simp: none node_okD(3) [OF assms(1)] dest: node_okD(1,2) [OF assms(1)] split: if_splits)
qed

lemma check_prepared_step:
  assumes "\<forall>pp. pb_pre_prepares n key = Some pp \<longrightarrow> pp_digest pp = d" and "fst key = pb_view n"
  shows "commit_step n (pbft_check_prepared n key d) A"
proof (cases "key \<in> pb_prepared_predicate n \<or> \<not> card (matching (pb_prepares n key) d) \<ge> 2 * pb_f n")
  case True
  then show ?thesis
    by (auto simp: pbft_check_prepared_def same_commits_def intro: same_commits_step)
next
  case False
  let ?n1 = "n\<lparr>pb_prepared_predicate := insert key (pb_prepared_predicate n),
     pb_commits := (pb_commits n)(key := insert (pb_node_id n, d) (pb_commits n key))\<rparr>"
  let ?n2 = "pbft_check_committed ?n1 key d"
  have pre: "\<forall>pp. pb_pre_prepares ?n1 key = Some pp \<longrightarrow> pp_digest pp = d" using assms by simp
  note step = check_committed_step(1) [OF pre, of A]
  note commits = check_committed_step(2) [OF pre]
  have res: "pbft_check_prepared n key d = (?n2, pbft_broadcast ?n1 (Commit \<lparr>ph_sender = pb_node_id n,
      ph_view = pb_view n, ph_sequence_number = snd key, ph_digest = d\<rparr>))"
    using False by (simp add: pbft_check_prepared_def Let_def)
  have "node_ok n \<longrightarrow> node_ok ?n2"
    using own_vote_ok [of n key d] False step by (simp add: commit_step_def)
  moreover have "(pb_view n, snd key) = key" using assms(2) by (simp add: prod_eq_iff)
  ultimately show ?thesis
    unfolding res using step commits
    by (auto simp: commit_step_def own_commits_def split: if_splits)
qed

definition brought_in :: "pbft_msg \<Rightarrow> (slot \<times> nat \<times> string) set" where
  "brought_in m = (case m of Commit c \<Rightarrow> {((ph_view c, ph_sequence_number c), ph_sender c, ph_digest c)} | _ \<Rightarrow> {})"

text \<open>A commit that arrives; if it is the node's own, the node has it already.\<close>

lemma add_commit_step:
  assumes "c \<noteq> pb_node_id n \<or> (c, d) \<in> pb_commits n key"
  shows "commit_step n (n\<lparr>pb_commits := (pb_commits n)(key := insert (c, d) (pb_commits n key))\<rparr>, []) {(key, c, d)}"
    (is "commit_step n (?n, []) _")
proof -
  have own: "(pb_node_id n, d') \<in> pb_commits ?n k \<longleftrightarrow> (pb_node_id n, d') \<in> pb_commits n k" for d' k
    using assms by auto
  have "node_ok ?n" if ok: "node_ok n"
    by (rule node_ok_more [OF ok])
      (use own node_okD [OF ok] in \<open>auto simp del: fun_upd_apply simp: fun_upd_def\<close>)
  then show ?thesis by (auto simp: commit_step_def own_commits_def split: if_splits)
qed

lemma step_trans:
  assumes "commit_step n (n1, []) A" and "commit_step n1 res A"
  shows "commit_step n res A"
proof -
  have "pb_commits n key \<subseteq> pb_commits (fst res) key" for key
    using assms unfolding commit_step_def by (metis fst_conv order_trans)
  moreover have "(x, d) \<in> pb_commits n key \<or> x = pb_node_id n \<or> (key, x, d) \<in> A"
    if "(x, d) \<in> pb_commits (fst res) key" for key x d
    using that assms unfolding commit_step_def by (metis fst_conv)
  ultimately show ?thesis using assms unfolding commit_step_def by simp
qed

lemma handle_commit_step:
  assumes "ph_sender m \<noteq> pb_node_id n \<or> (ph_sender m, ph_digest m) \<in> pb_commits n (ph_view m, ph_sequence_number m)"
  shows "commit_step n (pbft_handle_commit n m) (brought_in (Commit m))"
proof (cases "ph_view m = pb_view n")
  case False
  then show ?thesis by (simp add: pbft_handle_commit_def same_commits_def same_commits_step)
next
  case True
  let ?key = "(ph_view m, ph_sequence_number m)"
  let ?n = "n\<lparr>pb_commits := (pb_commits n)(?key := insert (ph_sender m, ph_digest m) (pb_commits n ?key))\<rparr>"
  have add: "commit_step n (?n, []) (brought_in (Commit m))"
    using add_commit_step [OF assms] by (simp add: brought_in_def)
  show ?thesis
  proof (cases "\<exists>pp. pb_pre_prepares n ?key = Some pp \<and> ph_digest m = pp_digest pp")
    case ok: True
    then have "\<forall>pp. pb_pre_prepares ?n ?key = Some pp \<longrightarrow> pp_digest pp = ph_digest m" by auto
    from step_trans [OF add check_committed_step(1) [OF this]] show ?thesis
      using True ok by (auto simp: pbft_handle_commit_def Let_def)
  next
    case False
    then show ?thesis
      using True add by (auto simp: pbft_handle_commit_def Let_def split: option.splits)
  qed
qed

lemma handle_prepare_step: "commit_step n (pbft_handle_prepare n m) A"
proof (cases "ph_view m = pb_view n \<and>
    (\<exists>pp. pb_pre_prepares n (ph_view m, ph_sequence_number m) = Some pp \<and> ph_digest m = pp_digest pp)")
  case True
  let ?key = "(ph_view m, ph_sequence_number m)"
  let ?n = "n\<lparr>pb_prepares := (pb_prepares n)(?key := insert (ph_sender m, ph_digest m) (pb_prepares n ?key))\<rparr>"
  have "\<forall>pp. pb_pre_prepares ?n ?key = Some pp \<longrightarrow> pp_digest pp = ph_digest m" "fst ?key = pb_view ?n"
    using True by auto
  from check_prepared_step [OF this] have "commit_step n (pbft_check_prepared ?n ?key (ph_digest m)) A"
    by (rule step_after_same [rotated]) (simp add: same_commits_def)
  then show ?thesis using True by (auto simp: pbft_handle_prepare_def Let_def)
next
  case False
  have "commit_step n (n, []) A" "commit_step n (n\<lparr>pb_prepares := f\<rparr>, []) A" for f
    by (simp_all add: same_commits_def same_commits_step)
  with False show ?thesis by (auto simp: pbft_handle_prepare_def Let_def split: option.splits)
qed

lemma handle_pre_prepare_step: "commit_step n (pbft_handle_pre_prepare n m) A"
proof (cases "pp_view m = pb_view n \<and> pb_pre_prepares n (pp_view m, pp_sequence_number m) = None")
  case True
  let ?key = "(pp_view m, pp_sequence_number m)"
  let ?n = "n\<lparr>pb_pre_prepares := (pb_pre_prepares n)(?key \<mapsto> m),
     pb_prepares := (pb_prepares n)(?key := insert (pb_node_id n, pp_digest m) (pb_prepares n ?key))\<rparr>"
  obtain n2 out where res: "pbft_check_prepared ?n ?key (pp_digest m) = (n2, out)" by fastforce
  have "\<forall>pp. pb_pre_prepares ?n ?key = Some pp \<longrightarrow> pp_digest pp = pp_digest m" "fst ?key = pb_view ?n"
    using True by auto
  from check_prepared_step [OF this] have "commit_step n (n2, out) A"
    unfolding res by (rule step_after_same [rotated]) (simp add: same_commits_def)
  then have "commit_step n (n2, pbft_broadcast ?n (Prepare p) @ out) A" for p by (rule step_calls) simp
  then show ?thesis using True res by (auto simp: pbft_handle_pre_prepare_def Let_def)
next
  case False
  then show ?thesis
    by (auto simp: pbft_handle_pre_prepare_def Let_def same_commits_def intro: same_commits_step)
qed

lemma handle_request_step: "commit_step n (pbft_handle_request dg n m) A"
  by (auto simp: pbft_handle_request_def Let_def same_commits_def intro!: same_commits_step)

lemma view_change_steps:
  "commit_step n (pbft_handle_view_change n v) A" "commit_step n (pbft_handle_new_view n w) A"
  "commit_step n (pbft_trigger_view_change n) A"
  by (auto simp: pbft_handle_view_change_def pbft_send_new_view_def pbft_handle_new_view_def
      pbft_trigger_view_change_def Let_def same_commits_def intro!: same_commits_step)

lemma receive_step:
  assumes "\<forall>c. m = Commit c \<longrightarrow> ph_sender c = pb_node_id n \<longrightarrow>
    (ph_sender c, ph_digest c) \<in> pb_commits n (ph_view c, ph_sequence_number c)"
  shows "commit_step n (pbft_receive dg n m) (brought_in m)"
  using assms
  by (cases m) (auto intro: handle_request_step handle_pre_prepare_step handle_prepare_step
      view_change_steps same_commits_step simp: same_commits_def intro!: handle_commit_step)

lemma propose_step: "commit_step n (pbft_propose dg n operation micros client_text) A"
proof -
  have "commit_step n (pbft_handle_request dg (n\<lparr>pb_client_requests := f\<rparr>) m) A" for f m
    by (rule step_after_same [OF _ handle_request_step]) (simp add: same_commits_def)
  moreover have "commit_step n (n\<lparr>pb_client_requests := f\<rparr>, pbft_send n' (Request m) d) A" for f n' m d
    by (rule same_commits_step) (simp_all add: same_commits_def)
  ultimately show ?thesis by (simp add: pbft_propose_def Let_def)
qed

section \<open>The invariant\<close>

text \<open>Every commit seen in the name of a correct node is one that node has made.\<close>

definition pbft_commits_true :: "nat \<Rightarrow> nat set \<Rightarrow> pbft_system \<Rightarrow> (slot \<times> nat \<times> string) set \<Rightarrow> bool" where
  "pbft_commits_true n F s A \<longleftrightarrow>
     (\<forall>key x d. (key, x, d) \<in> A \<longrightarrow> x \<notin> F \<longrightarrow> x < n \<and> (x, d) \<in> pb_commits (ps_nodes s x) key)"

definition pool_commits :: "pbft_system \<Rightarrow> (slot \<times> nat \<times> string) set" where
  "pool_commits s = (\<Union>m\<in>ps_pool s. brought_in m)"

definition seen_commits :: "nat \<Rightarrow> nat set \<Rightarrow> pbft_system \<Rightarrow> (slot \<times> nat \<times> string) set" where
  "seen_commits n F s = {(key, x, d). \<exists>i. i < n \<and> i \<notin> F \<and> (x, d) \<in> pb_commits (ps_nodes s i) key}"

definition pbft_inv :: "nat \<Rightarrow> nat set \<Rightarrow> pbft_system \<Rightarrow> bool" where
  "pbft_inv n F s \<longleftrightarrow>
     (\<forall>i. i < n \<longrightarrow> i \<notin> F \<longrightarrow> pb_node_id (ps_nodes s i) = i \<and> pb_f (ps_nodes s i) = (n - 1) div 3 \<and>
        node_ok (ps_nodes s i)) \<and>
     pbft_commits_true n F s (pool_commits s \<union> seen_commits n F s)"

lemma own_commits_brought:
  assumes "own_commits n calls" and "m \<in> called_messages calls" and "(key, x, d) \<in> brought_in m"
  shows "x = pb_node_id n \<and> (x, d) \<in> pb_commits n key"
  using assms by (cases m) (auto simp: own_commits_def brought_in_def)

lemma pbft_put_inv:
  assumes inv: "pbft_inv n F s" and i: "i < n" "i \<notin> F"
    and step: "commit_step (ps_nodes s i) res A" and A: "A \<subseteq> pool_commits s"
  shows "pbft_inv n F (pbft_put s i res)"
proof -
  let ?s = "pbft_put s i res"
  have id: "pb_node_id (ps_nodes s i) = i" "pb_node_id (fst res) = i" "pb_f (fst res) = (n - 1) div 3" "node_ok (fst res)"
    using inv i step by (simp_all add: pbft_inv_def commit_step_def)
  have grow: "pb_commits (ps_nodes s x) key \<subseteq> pb_commits (ps_nodes ?s x) key" for x key
  proof -
    have "pb_commits (ps_nodes s i) key \<subseteq> pb_commits (fst res) key" using step unfolding commit_step_def by blast
    then show ?thesis by (simp add: pbft_put_def)
  qed
  have old: "x < n \<and> (x, d) \<in> pb_commits (ps_nodes ?s x) key"
    if "(key, x, d) \<in> pool_commits s \<union> seen_commits n F s" "x \<notin> F" for key x d
    using inv that grow unfolding pbft_inv_def pbft_commits_true_def by blast
  have "x < n \<and> (x, d) \<in> pb_commits (ps_nodes ?s x) key"
    if seen: "(key, x, d) \<in> seen_commits n F ?s" and x: "x \<notin> F" for key x d
  proof -
    obtain j where j: "j < n" "j \<notin> F" "(x, d) \<in> pb_commits (ps_nodes ?s j) key"
      using seen by (auto simp: seen_commits_def)
    show ?thesis
    proof (cases "j = i")
      case True
      then have "(x, d) \<in> pb_commits (fst res) key" using j(3) by (simp add: pbft_put_def)
      then have "(x, d) \<in> pb_commits (ps_nodes s i) key \<or> x = i \<or> (key, x, d) \<in> A"
        using step id(1) unfolding commit_step_def by blast
      then show ?thesis
      proof (elim disjE)
        assume "(x, d) \<in> pb_commits (ps_nodes s i) key"
        then have "(key, x, d) \<in> seen_commits n F s" using i by (auto simp: seen_commits_def)
        then show ?thesis using old x by blast
      next
        assume "x = i"
        then show ?thesis using True j i by simp
      next
        assume "(key, x, d) \<in> A"
        then show ?thesis using old x A by blast
      qed
    next
      case False
      then have "(key, x, d) \<in> seen_commits n F s" using j by (auto simp: seen_commits_def pbft_put_def)
      then show ?thesis using old x by blast
    qed
  qed
  moreover have "x < n \<and> (x, d) \<in> pb_commits (ps_nodes ?s x) key"
    if pool: "(key, x, d) \<in> pool_commits ?s" and x: "x \<notin> F" for key x d
  proof -
    obtain m where m: "m \<in> ps_pool s \<or> m \<in> called_messages (snd res)" "(key, x, d) \<in> brought_in m"
      using pool by (auto simp: pool_commits_def pbft_put_def)
    from m(1) show ?thesis
    proof
      assume "m \<in> ps_pool s"
      then have "(key, x, d) \<in> pool_commits s" using m(2) by (auto simp: pool_commits_def)
      then show ?thesis using old x by blast
    next
      assume "m \<in> called_messages (snd res)"
      then have "x = i \<and> (x, d) \<in> pb_commits (fst res) key"
        using own_commits_brought [OF _ _ m(2)] step id(2) by (auto simp: commit_step_def)
      then show ?thesis using i by (auto simp: pbft_put_def)
    qed
  qed
  ultimately have "pbft_commits_true n F ?s (pool_commits ?s \<union> seen_commits n F ?s)"
    unfolding pbft_commits_true_def by blast
  moreover have "pb_node_id (ps_nodes ?s j) = j \<and> pb_f (ps_nodes ?s j) = (n - 1) div 3 \<and> node_ok (ps_nodes ?s j)"
    if "j < n" "j \<notin> F" for j
    using inv that id by (simp add: pbft_inv_def pbft_put_def)
  ultimately show ?thesis by (simp add: pbft_inv_def)
qed

lemma faulty_inv:
  assumes "pbft_inv n F s" and "msg_sender m \<in> F"
  shows "pbft_inv n F (s\<lparr>ps_pool := insert m (ps_pool s)\<rparr>)"
proof -
  have "x \<in> F" if "(key, x, d) \<in> brought_in m" for key x d
    using that assms(2) by (cases m) (auto simp: brought_in_def)
  moreover have eqs: "pool_commits (s\<lparr>ps_pool := insert m (ps_pool s)\<rparr>) = brought_in m \<union> pool_commits s"
    "seen_commits n F (s\<lparr>ps_pool := insert m (ps_pool s)\<rparr>) = seen_commits n F s"
    "ps_nodes (s\<lparr>ps_pool := insert m (ps_pool s)\<rparr>) = ps_nodes s"
    by (simp_all add: pool_commits_def seen_commits_def)
  ultimately show ?thesis
    using assms(1) unfolding pbft_inv_def pbft_commits_true_def eqs by blast
qed

lemma own_commit_known:
  assumes inv: "pbft_inv n F s" and i: "i < n" "i \<notin> F" and m: "m \<in> ps_pool s" and c: "m = Commit c" "ph_sender c = i"
  shows "(ph_sender c, ph_digest c) \<in> pb_commits (ps_nodes s i) (ph_view c, ph_sequence_number c)"
proof -
  have "((ph_view c, ph_sequence_number c), i, ph_digest c) \<in> pool_commits s"
    using c m by (force simp: pool_commits_def brought_in_def)
  then show ?thesis using inv i c(2) unfolding pbft_inv_def pbft_commits_true_def by blast
qed

lemma arrived_inv [simp]: "pbft_inv n F (s\<lparr>ps_arrived := a\<rparr>) = pbft_inv n F s"
  by (simp add: pbft_inv_def pool_commits_def seen_commits_def pbft_commits_true_def)

lemma receive_inv:
  assumes inv: "pbft_inv n F s" and i: "i < n" "i \<notin> F" and m: "m \<in> ps_pool s"
  shows "pbft_inv n F (pbft_put s i (pbft_receive dg (ps_nodes s i) m))"
proof (rule pbft_put_inv [OF inv i])
  have id: "pb_node_id (ps_nodes s i) = i" using inv i by (simp add: pbft_inv_def)
  show "commit_step (ps_nodes s i) (pbft_receive dg (ps_nodes s i) m) (brought_in m)"
    using id own_commit_known [OF inv i m] by (intro receive_step) auto
  show "brought_in m \<subseteq> pool_commits s" using m by (auto simp: pool_commits_def)
qed

lemma pbft_boot_inv: "pbft_inv n F (pbft_boot n)"
  by (simp add: pbft_boot_def pbft_inv_def pbft_commits_true_def pool_commits_def seen_commits_def pbft_init_def node_ok_def)

lemma pbft_reachable_inv: "pbft_reachable dg n F True s \<Longrightarrow> pbft_inv n F s"
proof (induction rule: pbft_reachable.induct)
  case ps_start
  show ?case by (rule pbft_boot_inv)
next
  case (ps_faulty s m)
  then show ?case by (intro faulty_inv) simp_all
next
  case (ps_receive s i m)
  then show ?case by (simp add: pbft_deliver_def receive_inv)
next
  case (ps_propose s i operation micros client_text)
  then show ?case by (intro pbft_put_inv [where A = "{}"] propose_step) auto
next
  case (ps_trigger s i)
  then show ?case by (intro pbft_put_inv [where A = "{}"] view_change_steps) auto
qed

lemma inv_agreement:
  assumes "pbft_inv (3 * f + 1) F s" and "F \<subseteq> {..<3 * f + 1}" and "card F \<le> f"
    and "i < 3 * f + 1" and "i \<notin> F" and "(key, pp) \<in> set (pb_executed (ps_nodes s i))"
    and "j < 3 * f + 1" and "j \<notin> F" and "(key, pp') \<in> set (pb_executed (ps_nodes s j))"
  shows "pp_digest pp = pp_digest pp'"
proof -
  let ?n = "3 * f + 1"
  note inv = assms(1)
  have quorum: "2 * f + 1 \<le> card (commit_voters (ps_nodes s m) key (pp_digest q)) \<and>
      commit_voters (ps_nodes s m) key (pp_digest q) \<subseteq> {..<?n}"
    if m: "m < ?n" "m \<notin> F" and q: "(key, q) \<in> set (pb_executed (ps_nodes s m))" for m q
  proof
    have ok: "node_ok (ps_nodes s m)" "pb_f (ps_nodes s m) = f" using inv m by (simp_all add: pbft_inv_def)
    then show "2 * f + 1 \<le> card (commit_voters (ps_nodes s m) key (pp_digest q))"
      using q unfolding node_ok_def by metis
    have "x < ?n" if "(x, pp_digest q) \<in> pb_commits (ps_nodes s m) key" for x
    proof (cases "x \<in> F")
      case False
      have "(key, x, pp_digest q) \<in> seen_commits ?n F s" using m that by (auto simp: seen_commits_def)
      then show ?thesis using inv False unfolding pbft_inv_def pbft_commits_true_def by blast
    qed (use assms(2) in auto)
    then show "commit_voters (ps_nodes s m) key (pp_digest q) \<subseteq> {..<?n}" by (auto simp: commit_voters_def)
  qed
  have qi: "2 * f + 1 \<le> card (commit_voters (ps_nodes s i) key (pp_digest pp))"
      "commit_voters (ps_nodes s i) key (pp_digest pp) \<subseteq> {..<?n}"
    and qj: "2 * f + 1 \<le> card (commit_voters (ps_nodes s j) key (pp_digest pp'))"
      "commit_voters (ps_nodes s j) key (pp_digest pp') \<subseteq> {..<?n}"
    using quorum [OF assms(4-6)] quorum [OF assms(7-9)] by blast+
  have "card {..<?n} + card F <
      card (commit_voters (ps_nodes s i) key (pp_digest pp)) + card (commit_voters (ps_nodes s j) key (pp_digest pp'))"
    using qi(1) qj(1) assms(3) by simp
  moreover have "finite F" using assms(2) finite_subset by blast
  ultimately obtain x where x: "x \<in> commit_voters (ps_nodes s i) key (pp_digest pp)"
      "x \<in> commit_voters (ps_nodes s j) key (pp_digest pp')" "x \<notin> F"
    using quorums_meet_correct [OF _ qi(2) qj(2)] by auto
  then have "(key, x, pp_digest pp) \<in> seen_commits ?n F s" "(key, x, pp_digest pp') \<in> seen_commits ?n F s"
    using assms(4,5,7,8) by (auto simp: seen_commits_def commit_voters_def)
  then have own: "x < ?n" "(x, pp_digest pp) \<in> pb_commits (ps_nodes s x) key" "(x, pp_digest pp') \<in> pb_commits (ps_nodes s x) key"
    using inv x(3) unfolding pbft_inv_def pbft_commits_true_def by blast+
  have "node_ok (ps_nodes s x)" "pb_node_id (ps_nodes s x) = x" using inv own(1) x(3) by (simp_all add: pbft_inv_def)
  then show ?thesis using node_okD(2) own(2,3) by metis
qed

text \<open>
  C11. Agreement: with at most f faulty nodes out of 3f + 1 that send only under their own numbers, two
  correct nodes never execute pre-prepares of different digests in one slot, whatever else the faulty
  nodes send and in whatever order, how late and how often messages are delivered, view changes
  included. (The code checks no sender: \<open>pbft_forgery_disagrees\<close>.)
\<close>

theorem pbft_agreement:
  assumes "pbft_reachable digest_of (3 * f + 1) F True s" and "F \<subseteq> {..<3 * f + 1}" and "card F \<le> f"
    and "i < 3 * f + 1" and "i \<notin> F" and "(key, pp) \<in> set (pb_executed (ps_nodes s i))"
    and "j < 3 * f + 1" and "j \<notin> F" and "(key, pp') \<in> set (pb_executed (ps_nodes s j))"
  shows "pp_digest pp = pp_digest pp'"
  by (rule inv_agreement [OF pbft_reachable_inv [OF assms(1)] assms(2-)])

section \<open>Running the system\<close>

datatype pbft_event = Inject pbft_msg | Deliver pbft_msg nat | Propose nat json nat

fun pbft_event_step ::
  "(json \<Rightarrow> string) \<Rightarrow> nat \<Rightarrow> nat list \<Rightarrow> bool \<Rightarrow> pbft_system \<Rightarrow> pbft_event \<Rightarrow> pbft_system" where
  "pbft_event_step dg n F auth s (Inject m) =
     (if F \<noteq> [] \<and> (auth \<longrightarrow> msg_sender m \<in> set F) then s\<lparr>ps_pool := insert m (ps_pool s)\<rparr> else s)"
| "pbft_event_step dg n F auth s (Deliver m i) =
     (if i < n \<and> i \<notin> set F \<and> m \<in> ps_pool s then pbft_deliver dg s i m else s)"
| "pbft_event_step dg n F auth s (Propose i operation micros) =
     (if i < n \<and> i \<notin> set F then pbft_put s i (pbft_propose dg (ps_nodes s i) operation micros ''c'') else s)"

definition pbft_run :: "(json \<Rightarrow> string) \<Rightarrow> nat \<Rightarrow> nat list \<Rightarrow> bool \<Rightarrow> pbft_event list \<Rightarrow> pbft_system" where
  "pbft_run dg n F auth es = foldl (pbft_event_step dg n F auth) (pbft_boot n) es"

lemma pbft_run_reachable: "pbft_reachable dg n (set F) auth (pbft_run dg n F auth es)"
proof (induction es rule: rev_induct)
  case Nil
  then show ?case by (simp add: pbft_run_def ps_start)
next
  case (snoc e es)
  then show ?case
    by (cases e) (auto simp: pbft_run_def intro: ps_faulty ps_receive ps_propose)
qed

definition example_request :: "string \<Rightarrow> request_msg" where
  "example_request op =
     \<lparr>rq_sender = 0, rq_view = 0, rq_client_id = ''c'', rq_operation = JStr op, rq_request_id = 7\<rparr>"

definition example_pp :: "string \<Rightarrow> string \<Rightarrow> pre_prepare" where
  "example_pp d op = \<lparr>pp_sender = 0, pp_view = 0, pp_sequence_number = 1, pp_digest = d,
     pp_request = Some (example_request op)\<rparr>"

definition example_vote :: "nat \<Rightarrow> string \<Rightarrow> phase_msg" where
  "example_vote i d = \<lparr>ph_sender = i, ph_view = 0, ph_sequence_number = 1, ph_digest = d\<rparr>"

text \<open>A faulty primary 0 brings two nodes to execute a pre-prepare, with its own commit as the third.\<close>

definition two_execute :: "nat \<Rightarrow> nat \<Rightarrow> pre_prepare \<Rightarrow> pre_prepare \<Rightarrow> pbft_event list" where
  "two_execute i j p q = (let d = pp_digest p in
     [Inject (Pre_Prepare p), Inject (Pre_Prepare q), Inject (Commit (example_vote 0 d)),
      Deliver (Pre_Prepare p) i, Deliver (Pre_Prepare q) j,
      Deliver (Prepare (example_vote j d)) i, Deliver (Prepare (example_vote i d)) j,
      Deliver (Commit (example_vote 0 d)) i, Deliver (Commit (example_vote 0 d)) j,
      Deliver (Commit (example_vote j d)) i, Deliver (Commit (example_vote i d)) j])"

theorem pbft_agreement_witness:
  "\<exists>s pp. pbft_reachable (\<lambda>_. ''d'') (3 * 1 + 1) {0} True s \<and>
     ((0, 1), pp) \<in> set (pb_executed (ps_nodes s 1)) \<and>
     (\<forall>pp'. ((0, 1), pp') \<in> set (pb_executed (ps_nodes s 2)) \<longrightarrow> pp_digest pp = pp_digest pp')"
proof -
  define s where "s = pbft_run (\<lambda>_. ''d'') 4 [0] True (two_execute 1 2 (example_pp ''d'' ''a'') (example_pp ''d'' ''a''))"
  have s: "pbft_reachable (\<lambda>_. ''d'') (3 * 1 + 1) {0} True s"
    using pbft_run_reachable [of _ 4 "[0]" True] unfolding s_def by simp
  have one: "((0, 1), example_pp ''d'' ''a'') \<in> set (pb_executed (ps_nodes s 1))"
    unfolding s_def by code_simp
  have "pp_digest (example_pp ''d'' ''a'') = pp_digest pp'" if "((0, 1), pp') \<in> set (pb_executed (ps_nodes s 2))" for pp'
    by (rule pbft_agreement [OF s _ _ _ _ one _ _ that]) auto
  with s one show ?thesis by blast
qed

text \<open>
  With a cluster size other than 3f + 1 the quorums of the code are too small for the f it
  computes: of five nodes (f = 1) one faulty primary brings two pairs of correct nodes to execute
  different requests in one slot.
\<close>

theorem pbft_five_nodes_disagree:
  "\<exists>s pp pp'. pbft_reachable (\<lambda>_. ''d'') 5 {0} True s \<and> pb_f (ps_nodes s 1) = 1 \<and>
     ((0, 1), pp) \<in> set (pb_executed (ps_nodes s 1)) \<and> ((0, 1), pp') \<in> set (pb_executed (ps_nodes s 3)) \<and>
     pp_digest pp \<noteq> pp_digest pp'"
proof -
  define s where "s = pbft_run (\<lambda>_. ''d'') 5 [0] True
    (two_execute 1 2 (example_pp ''d'' ''a'') (example_pp ''d'' ''a'') @
     two_execute 3 4 (example_pp ''e'' ''b'') (example_pp ''e'' ''b''))"
  have "pbft_reachable (\<lambda>_. ''d'') 5 {0} True s" using pbft_run_reachable [of _ 5 "[0]" True] unfolding s_def by simp
  moreover have "pb_f (ps_nodes s 1) = 1" "((0, 1), example_pp ''d'' ''a'') \<in> set (pb_executed (ps_nodes s 1))"
    "((0, 1), example_pp ''e'' ''b'') \<in> set (pb_executed (ps_nodes s 3))"
    unfolding s_def by code_simp+
  ultimately show ?thesis by (intro exI [of _ s] exI [of _ "example_pp ''d'' ''a''"] exI [of _ "example_pp ''e'' ''b''"])
    (simp add: example_pp_def)
qed

text \<open>
  Agreement on digests is not agreement on requests: no node compares the digest of a
  pre-prepare with the request in it, so a faulty primary of a cluster of four sends one digest
  with two requests, and two correct nodes execute different operations in one slot.
\<close>

theorem pbft_digest_unchecked:
  "\<exists>s pp pp'. pbft_reachable (\<lambda>_. ''d'') (3 * 1 + 1) {0} True s \<and>
     ((0, 1), pp) \<in> set (pb_executed (ps_nodes s 1)) \<and> ((0, 1), pp') \<in> set (pb_executed (ps_nodes s 2)) \<and>
     map_option rq_operation (pp_request pp) \<noteq> map_option rq_operation (pp_request pp')"
proof -
  define s where "s = pbft_run (\<lambda>_. ''d'') 4 [0] True (two_execute 1 2 (example_pp ''d'' ''a'') (example_pp ''d'' ''b''))"
  have "pbft_reachable (\<lambda>_. ''d'') (3 * 1 + 1) {0} True s"
    using pbft_run_reachable [of _ 4 "[0]" True] unfolding s_def by simp
  moreover have "((0, 1), example_pp ''d'' ''a'') \<in> set (pb_executed (ps_nodes s 1))"
    "((0, 1), example_pp ''d'' ''b'') \<in> set (pb_executed (ps_nodes s 2))"
    unfolding s_def by code_simp+
  ultimately show ?thesis by (intro exI [of _ s] exI [of _ "example_pp ''d'' ''a''"] exI [of _ "example_pp ''d'' ''b''"])
    (simp add: example_pp_def example_request_def)
qed

text \<open>
  Nor does agreement hold without \<open>auth\<close>: no node checks who a message comes from, so one faulty node,
  here a backup of a cluster of four, sends in the name of all the others, and two correct nodes execute
  different digests in one slot.
\<close>

definition forged :: "nat \<Rightarrow> string \<Rightarrow> pbft_event list" where
  "forged i d = concat (map (\<lambda>m. [Inject m, Deliver m i])
     (Pre_Prepare (example_pp d d) # map (\<lambda>x. Prepare (example_vote x d)) [0, 1, 2] @ map (\<lambda>x. Commit (example_vote x d)) [0, 1, 2]))"

theorem pbft_forgery_disagrees:
  "\<exists>s pp pp'. pbft_reachable (\<lambda>_. ''d'') (3 * 1 + 1) {3} False s \<and>
     ((0, 1), pp) \<in> set (pb_executed (ps_nodes s 1)) \<and> ((0, 1), pp') \<in> set (pb_executed (ps_nodes s 2)) \<and>
     pp_digest pp \<noteq> pp_digest pp'"
proof -
  define s where "s = pbft_run (\<lambda>_. ''d'') 4 [3] False (forged 1 ''d'' @ forged 2 ''e'')"
  have "pbft_reachable (\<lambda>_. ''d'') (3 * 1 + 1) {3} False s"
    using pbft_run_reachable [of _ 4 "[3]" False] unfolding s_def by simp
  moreover have "((0, 1), example_pp ''d'' ''d'') \<in> set (pb_executed (ps_nodes s 1))"
    "((0, 1), example_pp ''e'' ''e'') \<in> set (pb_executed (ps_nodes s 2))"
    unfolding s_def by code_simp+
  ultimately show ?thesis by (intro exI [of _ s] exI [of _ "example_pp ''d'' ''d''"] exI [of _ "example_pp ''e'' ''e''"])
    (simp add: example_pp_def)
qed

end
