(* ===== verification/Pbft_Progress.thy ===== *)
theory Pbft_Progress
  imports Pbft_Agreement
begin

text \<open>
  Progress of PBFT: when the faulty nodes are silent, a request whose messages have all been delivered is
  executed by every correct node, in whatever order they came. The argument: no vote is counted without a look
  at whether it completes a quorum, and the correct nodes alone are enough for the quorums.
\<close>

section \<open>What a node has done\<close>

definition sent_prepare :: "pbft_msg set \<Rightarrow> nat \<Rightarrow> slot \<Rightarrow> string \<Rightarrow> bool" where
  "sent_prepare pool x key d \<longleftrightarrow>
     Prepare \<lparr>ph_sender = x, ph_view = fst key, ph_sequence_number = snd key, ph_digest = d\<rparr> \<in> pool"

definition sent_commit :: "pbft_msg set \<Rightarrow> nat \<Rightarrow> slot \<Rightarrow> string \<Rightarrow> bool" where
  "sent_commit pool x key d \<longleftrightarrow>
     Commit \<lparr>ph_sender = x, ph_view = fst key, ph_sequence_number = snd key, ph_digest = d\<rparr> \<in> pool"

text \<open>
  A node's state against the messages sent. Votes are looked at as they come: \<open>A\<close> and \<open>B\<close> are the slots for which
  a handler has yet to look at the prepares and at the commits.
\<close>

definition votes_known :: "pbft_msg set \<Rightarrow> pbft_node \<Rightarrow> bool" where
  "votes_known pool n \<longleftrightarrow>
     (\<forall>key x d. (x, d) \<in> pb_prepares n key \<longrightarrow> sent_prepare pool x key d) \<and>
     (\<forall>key x d. (x, d) \<in> pb_commits n key \<longrightarrow> sent_commit pool x key d)"

definition own_done :: "pbft_msg set \<Rightarrow> pbft_node \<Rightarrow> bool" where
  "own_done pool n \<longleftrightarrow>
     (\<forall>key pp. pb_pre_prepares n key = Some pp \<longrightarrow> Pre_Prepare pp \<in> pool \<and> key = (pp_view pp, pp_sequence_number pp) \<and>
        (fst key mod pb_total_nodes n \<noteq> pb_node_id n \<longrightarrow> sent_prepare pool (pb_node_id n) key (pp_digest pp))) \<and>
     (\<forall>key. key \<in> pb_prepared_predicate n \<longrightarrow>
        (\<exists>pp. pb_pre_prepares n key = Some pp \<and> sent_commit pool (pb_node_id n) key (pp_digest pp))) \<and>
     (\<forall>key. key \<in> pb_committed_predicate n \<longrightarrow>
        (\<exists>pp. pb_pre_prepares n key = Some pp \<and> (key, pp) \<in> set (pb_executed n)))"

definition prepares_checked :: "slot set \<Rightarrow> pbft_node \<Rightarrow> bool" where
  "prepares_checked A n \<longleftrightarrow> (\<forall>key pp. key \<notin> A \<longrightarrow> pb_pre_prepares n key = Some pp \<longrightarrow>
     2 * pb_f n \<le> card (matching (pb_prepares n key) (pp_digest pp)) \<longrightarrow> key \<in> pb_prepared_predicate n)"

definition commits_checked :: "slot set \<Rightarrow> pbft_node \<Rightarrow> bool" where
  "commits_checked B n \<longleftrightarrow> (\<forall>key pp. key \<notin> B \<longrightarrow> pb_pre_prepares n key = Some pp \<longrightarrow> key \<in> pb_prepared_predicate n \<longrightarrow>
     2 * pb_f n + 1 \<le> card (matching (pb_commits n key) (pp_digest pp)) \<longrightarrow> key \<in> pb_committed_predicate n)"

definition node_live :: "pbft_msg set \<Rightarrow> slot set \<Rightarrow> slot set \<Rightarrow> pbft_node \<Rightarrow> bool" where
  "node_live pool A B n \<longleftrightarrow> pb_network n \<and> votes_known pool n \<and> own_done pool n \<and> prepares_checked A n \<and> commits_checked B n"

lemmas node_live_defs = node_live_def votes_known_def own_done_def prepares_checked_def commits_checked_def sent_prepare_def sent_commit_def

lemma node_live_mono:
  assumes "node_live pool A B n" and "pool \<subseteq> pool'"
  shows "node_live pool' A B n"
proof -
  have "votes_known pool' n" using assms unfolding node_live_def votes_known_def sent_prepare_def sent_commit_def by blast
  moreover have "own_done pool' n" using assms unfolding node_live_def own_done_def sent_prepare_def sent_commit_def by blast
  ultimately show ?thesis using assms by (simp add: node_live_def)
qed

lemma node_live_weaken: "node_live pool A B n \<Longrightarrow> A \<subseteq> A' \<Longrightarrow> B \<subseteq> B' \<Longrightarrow> node_live pool A' B' n"
  unfolding node_live_def prepares_checked_def commits_checked_def by blast

section \<open>The handlers\<close>

lemma check_committed_live:
  assumes live: "node_live pool A {key} n" and pp: "pb_pre_prepares n key = Some pp"
  shows "node_live pool A {} (pbft_check_committed n key (pp_digest pp))"
proof (cases "key \<notin> pb_committed_predicate n \<and> key \<in> pb_prepared_predicate n \<and>
    2 * pb_f n + 1 \<le> card (matching (pb_commits n key) (pp_digest pp))")
  case True
  let ?n = "pbft_check_committed n key (pp_digest pp)"
  have n: "pb_network ?n = pb_network n" "pb_pre_prepares ?n = pb_pre_prepares n" "pb_prepares ?n = pb_prepares n" "pb_commits ?n = pb_commits n"
    "pb_prepared_predicate ?n = pb_prepared_predicate n" "pb_committed_predicate ?n = insert key (pb_committed_predicate n)"
    "set (pb_executed ?n) = insert (key, pp) (set (pb_executed n))" "pb_node_id ?n = pb_node_id n" "pb_f ?n = pb_f n"
    "pb_total_nodes ?n = pb_total_nodes n"
    using True pp by (auto simp: pbft_check_committed_def pbft_execute_request_def Let_def split: option.splits)
  show ?thesis using live pp unfolding node_live_def votes_known_def own_done_def prepares_checked_def commits_checked_def n by blast
next
  case False
  then have "pbft_check_committed n key (pp_digest pp) = n" by (auto simp: pbft_check_committed_def)
  then show ?thesis using live pp False unfolding node_live_def commits_checked_def by (metis empty_iff insert_iff option.inject)
qed

lemma check_prepared_live:
  assumes live: "node_live pool {key} {} n" and pp: "pb_pre_prepares n key = Some pp" and view: "fst key = pb_view n"
  shows "node_live (pool \<union> called_messages (snd (pbft_check_prepared n key (pp_digest pp)))) {} {} (fst (pbft_check_prepared n key (pp_digest pp)))"
proof (cases "key \<notin> pb_prepared_predicate n \<and> 2 * pb_f n \<le> card (matching (pb_prepares n key) (pp_digest pp))")
  case True
  let ?c = "Commit \<lparr>ph_sender = pb_node_id n, ph_view = pb_view n, ph_sequence_number = snd key, ph_digest = pp_digest pp\<rparr>"
  define n1 where "n1 = n\<lparr>pb_prepared_predicate := insert key (pb_prepared_predicate n),
     pb_commits := (pb_commits n)(key := insert (pb_node_id n, pp_digest pp) (pb_commits n key))\<rparr>"
  have n1: "pb_network n1 = pb_network n" "pb_pre_prepares n1 = pb_pre_prepares n" "pb_prepares n1 = pb_prepares n"
    "pb_commits n1 = (pb_commits n)(key := insert (pb_node_id n, pp_digest pp) (pb_commits n key))"
    "pb_prepared_predicate n1 = insert key (pb_prepared_predicate n)" "pb_committed_predicate n1 = pb_committed_predicate n"
    "pb_executed n1 = pb_executed n" "pb_node_id n1 = pb_node_id n" "pb_f n1 = pb_f n" "pb_total_nodes n1 = pb_total_nodes n"
    by (simp_all add: n1_def)
  have res: "pbft_check_prepared n key (pp_digest pp) = (pbft_check_committed n1 key (pp_digest pp), pbft_broadcast n1 ?c)"
    using True by (simp add: pbft_check_prepared_def Let_def n1_def)
  let ?pool = "insert ?c pool"
  have sent: "sent_commit ?pool (pb_node_id n) key (pp_digest pp)" by (simp add: sent_commit_def view)
  have live': "node_live ?pool {key} {} n" by (rule node_live_mono [OF live]) blast
  have "votes_known ?pool n1"
    using live' sent unfolding node_live_def votes_known_def n1 by (auto split: if_splits)
  moreover have "own_done ?pool n1"
    using live' sent pp unfolding node_live_def own_done_def n1 by blast
  moreover have "prepares_checked {} n1" "commits_checked {key} n1"
    using live' unfolding node_live_def prepares_checked_def commits_checked_def n1 by auto
  ultimately have "node_live ?pool {} {key} n1" using live by (simp add: node_live_def n1)
  from check_committed_live [OF this] have "node_live ?pool {} {} (pbft_check_committed n1 key (pp_digest pp))" using pp n1(2) by simp
  moreover have "pool \<union> called_messages (pbft_broadcast n1 ?c) = ?pool"
    using live by (auto simp: node_live_def n1(1))
  ultimately show ?thesis unfolding res by simp
next
  case False
  then have "pbft_check_prepared n key (pp_digest pp) = (n, [])" by (auto simp: pbft_check_prepared_def)
  moreover have "node_live pool {} {} n"
    using live pp False unfolding node_live_def prepares_checked_def by (metis empty_iff insert_iff option.inject)
  ultimately show ?thesis by simp
qed

lemma handle_pre_prepare_live:
  assumes live: "node_live pool {} {} n" and m: "Pre_Prepare m \<in> pool"
  shows "node_live (pool \<union> called_messages (snd (pbft_handle_pre_prepare n m))) {} {} (fst (pbft_handle_pre_prepare n m))"
proof (cases "pp_view m = pb_view n \<and> pb_pre_prepares n (pp_view m, pp_sequence_number m) = None")
  case True
  define key where "key = (pp_view m, pp_sequence_number m)"
  let ?p = "\<lparr>ph_sender = pb_node_id n, ph_view = pb_view n, ph_sequence_number = pp_sequence_number m, ph_digest = pp_digest m\<rparr>"
  let ?pool = "insert (Prepare ?p) pool"
  define n1 where "n1 = n\<lparr>pb_pre_prepares := (pb_pre_prepares n)(key \<mapsto> m),
     pb_prepares := (pb_prepares n)(key := insert (pb_node_id n, pp_digest m) (pb_prepares n key))\<rparr>"
  have n1: "pb_network n1 = pb_network n" "pb_pre_prepares n1 = (pb_pre_prepares n)(key \<mapsto> m)"
    "pb_prepares n1 = (pb_prepares n)(key := insert (pb_node_id n, pp_digest m) (pb_prepares n key))" "pb_commits n1 = pb_commits n"
    "pb_prepared_predicate n1 = pb_prepared_predicate n" "pb_committed_predicate n1 = pb_committed_predicate n"
    "pb_executed n1 = pb_executed n" "pb_node_id n1 = pb_node_id n" "pb_f n1 = pb_f n" "pb_total_nodes n1 = pb_total_nodes n" "pb_view n1 = pb_view n"
    by (simp_all add: n1_def)
  have sent: "sent_prepare ?pool (pb_node_id n) key (pp_digest m)" using True by (simp add: sent_prepare_def key_def)
  have view: "pp_view m = pb_view n" and none: "pb_pre_prepares n key = None" using True unfolding key_def by blast+
  have live': "node_live ?pool {} {} n" by (rule node_live_mono [OF live]) blast
  have new: "key \<notin> pb_prepared_predicate n" "key \<notin> pb_committed_predicate n"
    using live none unfolding node_live_def own_done_def by (metis option.distinct(1))+
  have "votes_known ?pool n1" using live' sent unfolding node_live_def votes_known_def n1 by (auto split: if_splits)
  moreover have "own_done ?pool n1"
    using live' sent new m unfolding node_live_def own_done_def n1 by (auto simp: key_def split: if_splits)
  moreover have "prepares_checked {key} n1" using live' unfolding node_live_def prepares_checked_def n1 by auto
  moreover have "commits_checked {} n1" using live' new unfolding node_live_def commits_checked_def n1 by auto
  ultimately have "node_live ?pool {key} {} n1" using live by (simp add: node_live_def n1)
  from check_prepared_live [OF this]
  have checked: "node_live (?pool \<union> called_messages (snd (pbft_check_prepared n1 key (pp_digest m)))) {} {} (fst (pbft_check_prepared n1 key (pp_digest m)))"
    using True by (simp add: n1(2) n1(11) key_def)
  have "pbft_handle_pre_prepare n m = (fst (pbft_check_prepared n1 key (pp_digest m)),
      pbft_broadcast n1 (Prepare ?p) @ snd (pbft_check_prepared n1 key (pp_digest m)))"
    using view none by (simp add: pbft_handle_pre_prepare_def Let_def n1_def key_def case_prod_unfold)
  moreover have "pool \<union> called_messages (pbft_broadcast n1 (Prepare ?p) @ out) = ?pool \<union> called_messages out" for out
    using live by (auto simp: node_live_def n1(1))
  ultimately show ?thesis using checked by simp
next
  case False
  then have "pbft_handle_pre_prepare n m = (n, [])" by (auto simp: pbft_handle_pre_prepare_def Let_def)
  then show ?thesis using live by simp
qed

lemma handle_prepare_live:
  assumes live: "node_live pool {} {} n" and m: "Prepare m \<in> pool"
  shows "node_live (pool \<union> called_messages (snd (pbft_handle_prepare n m))) {} {} (fst (pbft_handle_prepare n m))"
proof (cases "ph_view m = pb_view n")
  case True
  define key where "key = (ph_view m, ph_sequence_number m)"
  define n1 where "n1 = n\<lparr>pb_prepares := (pb_prepares n)(key := insert (ph_sender m, ph_digest m) (pb_prepares n key))\<rparr>"
  have n1: "pb_network n1 = pb_network n" "pb_pre_prepares n1 = pb_pre_prepares n"
    "pb_prepares n1 = (pb_prepares n)(key := insert (ph_sender m, ph_digest m) (pb_prepares n key))" "pb_commits n1 = pb_commits n"
    "pb_prepared_predicate n1 = pb_prepared_predicate n" "pb_committed_predicate n1 = pb_committed_predicate n"
    "pb_executed n1 = pb_executed n" "pb_node_id n1 = pb_node_id n" "pb_f n1 = pb_f n" "pb_total_nodes n1 = pb_total_nodes n" "pb_view n1 = pb_view n"
    by (simp_all add: n1_def)
  have "sent_prepare pool (ph_sender m) key (ph_digest m)" using m by (cases m) (simp add: sent_prepare_def key_def)
  then have "votes_known pool n1" using live unfolding node_live_def votes_known_def n1 by (auto split: if_splits)
  moreover have "own_done pool n1" "commits_checked {} n1"
    using live unfolding node_live_def own_done_def commits_checked_def n1 by blast+
  moreover have "prepares_checked {key} n1" using live unfolding node_live_def prepares_checked_def n1 by auto
  ultimately have n1_live: "node_live pool {key} {} n1" using live by (simp add: node_live_def n1)
  show ?thesis
  proof (cases "\<exists>pp. pb_pre_prepares n key = Some pp \<and> ph_digest m = pp_digest pp")
    case match: True
    then obtain pp where pp: "pb_pre_prepares n key = Some pp" "ph_digest m = pp_digest pp" by blast
    have "pbft_handle_prepare n m = pbft_check_prepared n1 key (pp_digest pp)"
      using True pp by (simp add: pbft_handle_prepare_def Let_def n1_def key_def)
    then show ?thesis using check_prepared_live [OF n1_live, of pp] pp True by (simp add: n1(2) n1(11) key_def)
  next
    case False
    then have "matching (pb_prepares n1 key) (pp_digest pp) = matching (pb_prepares n key) (pp_digest pp)" if "pb_pre_prepares n key = Some pp" for pp
      using that by (auto simp: matching_def n1(3))
    then have "prepares_checked {} n1"
      using n1_live live unfolding node_live_def prepares_checked_def by (metis empty_iff insert_iff n1(2) n1(5) n1(9))
    moreover have "pbft_handle_prepare n m = (n1, [])"
      using True False by (auto simp: pbft_handle_prepare_def Let_def n1_def key_def split: option.split)
    ultimately show ?thesis using n1_live by (simp add: node_live_def)
  qed
next
  case False
  then show ?thesis using live by (simp add: pbft_handle_prepare_def)
qed

lemma handle_commit_live:
  assumes live: "node_live pool {} {} n" and m: "Commit m \<in> pool"
  shows "node_live pool {} {} (fst (pbft_handle_commit n m)) \<and> called_messages (snd (pbft_handle_commit n m)) = {}"
proof (cases "ph_view m = pb_view n")
  case True
  define key where "key = (ph_view m, ph_sequence_number m)"
  define n1 where "n1 = n\<lparr>pb_commits := (pb_commits n)(key := insert (ph_sender m, ph_digest m) (pb_commits n key))\<rparr>"
  have n1: "pb_network n1 = pb_network n" "pb_pre_prepares n1 = pb_pre_prepares n" "pb_prepares n1 = pb_prepares n"
    "pb_commits n1 = (pb_commits n)(key := insert (ph_sender m, ph_digest m) (pb_commits n key))"
    "pb_prepared_predicate n1 = pb_prepared_predicate n" "pb_committed_predicate n1 = pb_committed_predicate n"
    "pb_executed n1 = pb_executed n" "pb_node_id n1 = pb_node_id n" "pb_f n1 = pb_f n" "pb_total_nodes n1 = pb_total_nodes n"
    by (simp_all add: n1_def)
  have "sent_commit pool (ph_sender m) key (ph_digest m)" using m by (cases m) (simp add: sent_commit_def key_def)
  then have "votes_known pool n1" using live unfolding node_live_def votes_known_def n1 by (auto split: if_splits)
  moreover have "own_done pool n1" "prepares_checked {} n1"
    using live unfolding node_live_def own_done_def prepares_checked_def n1 by blast+
  moreover have "commits_checked {key} n1" using live unfolding node_live_def commits_checked_def n1 by auto
  ultimately have n1_live: "node_live pool {} {key} n1" using live by (simp add: node_live_def n1)
  show ?thesis
  proof (cases "\<exists>pp. pb_pre_prepares n key = Some pp \<and> ph_digest m = pp_digest pp")
    case match: True
    then obtain pp where pp: "pb_pre_prepares n key = Some pp" "ph_digest m = pp_digest pp" by blast
    have "pbft_handle_commit n m = (pbft_check_committed n1 key (pp_digest pp), [])"
      using True pp by (simp add: pbft_handle_commit_def Let_def n1_def key_def)
    then show ?thesis using check_committed_live [OF n1_live, of pp] pp by (simp add: n1(2))
  next
    case False
    then have "matching (pb_commits n1 key) (pp_digest pp) = matching (pb_commits n key) (pp_digest pp)" if "pb_pre_prepares n key = Some pp" for pp
      using that by (auto simp: matching_def n1(4))
    then have "commits_checked {} n1"
      using n1_live live unfolding node_live_def commits_checked_def by (metis empty_iff insert_iff n1(2) n1(5) n1(6) n1(9))
    moreover have "pbft_handle_commit n m = (n1, [])"
      using True False by (auto simp: pbft_handle_commit_def Let_def n1_def key_def split: option.split)
    ultimately show ?thesis using n1_live by (simp add: node_live_def)
  qed
next
  case False
  then show ?thesis using live by (simp add: pbft_handle_commit_def)
qed

text \<open>The primary stores its own pre-prepare without a look at the prepares: there must be none yet.\<close>

lemma handle_request_live:
  assumes live: "node_live pool {} {} n" and f: "0 < pb_f n"
    and fresh: "pb_prepares n (pb_view n, pb_seq_num n + 1) = {}" "pb_pre_prepares n (pb_view n, pb_seq_num n + 1) = None"
  shows "node_live (pool \<union> called_messages (snd (pbft_handle_request dg n m))) {} {} (fst (pbft_handle_request dg n m))"
proof (cases "pbft_is_primary n")
  case True
  define key where "key = (pb_view n, pb_seq_num n + 1)"
  define pp where "pp = \<lparr>pp_sender = pb_node_id n, pp_view = pb_view n, pp_sequence_number = pb_seq_num n + 1,
     pp_digest = dg (rq_operation m), pp_request = Some m\<rparr>"
  define n1 where "n1 = n\<lparr>pb_seq_num := pb_seq_num n + 1, pb_pre_prepares := (pb_pre_prepares n)(key \<mapsto> pp)\<rparr>"
  have n1: "pb_network n1 = pb_network n" "pb_pre_prepares n1 = (pb_pre_prepares n)(key \<mapsto> pp)"
    "pb_prepares n1 = pb_prepares n" "pb_commits n1 = pb_commits n"
    "pb_prepared_predicate n1 = pb_prepared_predicate n" "pb_committed_predicate n1 = pb_committed_predicate n"
    "pb_executed n1 = pb_executed n" "pb_node_id n1 = pb_node_id n" "pb_f n1 = pb_f n" "pb_total_nodes n1 = pb_total_nodes n"
    by (simp_all add: n1_def)
  let ?pool = "insert (Pre_Prepare pp) pool"
  have live': "node_live ?pool {} {} n" by (rule node_live_mono [OF live]) blast
  have none: "pb_prepares n key = {}" "pb_pre_prepares n key = None" using fresh by (simp_all add: key_def)
  have new: "key \<notin> pb_prepared_predicate n" "key \<notin> pb_committed_predicate n"
    using live none unfolding node_live_def own_done_def by (metis option.distinct(1))+
  have primary: "fst key mod pb_total_nodes n = pb_node_id n" using True by (simp add: key_def pbft_is_primary_def)
  have "key = (pp_view pp, pp_sequence_number pp)" by (simp add: key_def pp_def)
  then have "own_done ?pool n1"
    using live' new primary unfolding node_live_def own_done_def n1 by (auto split: if_splits)
  moreover have "votes_known ?pool n1" using live' unfolding node_live_def votes_known_def n1 by blast
  moreover have "prepares_checked {} n1"
    using live' none f unfolding node_live_def prepares_checked_def n1 by (auto simp: matching_def)
  moreover have "commits_checked {} n1" using live' new unfolding node_live_def commits_checked_def n1 by auto
  ultimately have "node_live ?pool {} {} n1" using live by (simp add: node_live_def n1)
  moreover have "pbft_handle_request dg n m = (n1, pbft_broadcast (n\<lparr>pb_seq_num := pb_seq_num n + 1\<rparr>) (Pre_Prepare pp))"
    using True by (simp add: pbft_handle_request_def Let_def n1_def key_def pp_def)
  moreover have "pool \<union> called_messages (pbft_broadcast (n\<lparr>pb_seq_num := pb_seq_num n + 1\<rparr>) (Pre_Prepare pp)) = ?pool"
    using live by (auto simp: node_live_def)
  ultimately show ?thesis by simp
next
  case False
  then show ?thesis using node_live_mono [OF live] by (simp add: pbft_handle_request_def)
qed

text \<open>Handlers that leave the votes alone.\<close>

definition same_votes_node :: "pbft_node \<Rightarrow> pbft_node \<Rightarrow> bool" where
  "same_votes_node n n' \<longleftrightarrow> pb_network n' = pb_network n \<and> pb_pre_prepares n' = pb_pre_prepares n \<and> pb_prepares n' = pb_prepares n \<and>
     pb_commits n' = pb_commits n \<and> pb_prepared_predicate n' = pb_prepared_predicate n \<and>
     pb_committed_predicate n' = pb_committed_predicate n \<and> pb_executed n' = pb_executed n \<and> pb_node_id n' = pb_node_id n \<and>
     pb_f n' = pb_f n \<and> pb_total_nodes n' = pb_total_nodes n"

lemma same_votes_live:
  assumes same: "same_votes_node n n'" and live: "node_live pool A B n" and pool: "pool \<subseteq> pool'"
  shows "node_live pool' A B n'"
proof -
  have base: "node_live pool' A B n" by (rule node_live_mono [OF live pool])
  have eqs: "pb_network n' = pb_network n" "pb_pre_prepares n' = pb_pre_prepares n" "pb_prepares n' = pb_prepares n"
    "pb_commits n' = pb_commits n" "pb_prepared_predicate n' = pb_prepared_predicate n"
    "pb_committed_predicate n' = pb_committed_predicate n" "pb_executed n' = pb_executed n" "pb_node_id n' = pb_node_id n"
    "pb_f n' = pb_f n" "pb_total_nodes n' = pb_total_nodes n"
    using same by (simp_all add: same_votes_node_def)
  show ?thesis using base
    unfolding node_live_def votes_known_def own_done_def prepares_checked_def commits_checked_def eqs .
qed

lemma other_handlers_votes:
  "same_votes_node n (fst (pbft_handle_view_change n v))" "same_votes_node n (fst (pbft_handle_new_view n w))"
  "same_votes_node n (fst (pbft_trigger_view_change n))"
  by (auto simp: pbft_handle_view_change_def pbft_send_new_view_def pbft_handle_new_view_def
      pbft_trigger_view_change_def Let_def same_votes_node_def)

section \<open>What is sent\<close>

text \<open>What a node with number \<open>x\<close> may send on receiving \<open>m\<close> in view \<open>v\<close>, when its next sequence number is \<open>q\<close>.\<close>

fun may_send :: "nat \<Rightarrow> nat \<Rightarrow> nat \<Rightarrow> pbft_msg option \<Rightarrow> bool \<Rightarrow> pbft_msg \<Rightarrow> bool" where
  "may_send x v q m primary (Pre_Prepare pp) \<longleftrightarrow> primary \<and> pp_sender pp = x \<and> pp_view pp = v \<and> pp_sequence_number pp = q"
| "may_send x v q m primary (Prepare p) \<longleftrightarrow> ph_sender p = x \<and>
     (\<exists>pp. m = Some (Pre_Prepare pp) \<and> pp_view pp = ph_view p \<and> pp_sequence_number pp = ph_sequence_number p)"
| "may_send x v q m primary (Commit p) \<longleftrightarrow> ph_sender p = x"
| "may_send x v q m primary _ \<longleftrightarrow> True"

definition sends_ok :: "pbft_node \<Rightarrow> pbft_node \<times> network_call list \<Rightarrow> pbft_msg option \<Rightarrow> bool" where
  "sends_ok n res m \<longleftrightarrow>
     pb_node_id (fst res) = pb_node_id n \<and> pb_f (fst res) = pb_f n \<and> pb_total_nodes (fst res) = pb_total_nodes n \<and>
     pb_seq_num n \<le> pb_seq_num (fst res) \<and>
     (\<forall>msg\<in>called_messages (snd res). may_send (pb_node_id n) (pb_view n) (pb_seq_num n + 1) m (pbft_is_primary n) msg) \<and>
     (\<forall>pp pp'. Pre_Prepare pp \<in> called_messages (snd res) \<longrightarrow> pp_sequence_number pp \<le> pb_seq_num (fst res) \<and>
        (Pre_Prepare pp' \<in> called_messages (snd res) \<longrightarrow> pp' = pp))"

lemma check_committed_fixed:
  "pb_node_id (pbft_check_committed n key d) = pb_node_id n" "pb_f (pbft_check_committed n key d) = pb_f n"
  "pb_total_nodes (pbft_check_committed n key d) = pb_total_nodes n" "pb_seq_num (pbft_check_committed n key d) = pb_seq_num n"
  by (simp_all add: pbft_check_committed_def pbft_execute_request_def Let_def split: option.split)

lemma check_prepared_fixed:
  "pb_node_id (fst (pbft_check_prepared n key d)) = pb_node_id n" "pb_f (fst (pbft_check_prepared n key d)) = pb_f n"
  "pb_total_nodes (fst (pbft_check_prepared n key d)) = pb_total_nodes n" "pb_seq_num (fst (pbft_check_prepared n key d)) = pb_seq_num n"
  by (simp_all add: pbft_check_prepared_def Let_def check_committed_fixed)

lemma check_prepared_sends:
  "msg \<in> called_messages (snd (pbft_check_prepared n key d)) \<Longrightarrow> \<exists>p. msg = Commit p \<and> ph_sender p = pb_node_id n"
  by (auto simp: pbft_check_prepared_def Let_def split: if_splits)

lemma receive_sends: "sends_ok n (pbft_receive dg n m) (Some m)"
proof (cases m)
  case (Request r)
  then show ?thesis by (auto simp: sends_ok_def pbft_handle_request_def Let_def pbft_is_primary_def)
next
  case (Pre_Prepare pp)
  show ?thesis unfolding Pre_Prepare
    by (auto simp: pbft_handle_pre_prepare_def Let_def sends_ok_def case_prod_unfold check_prepared_fixed dest!: check_prepared_sends)
next
  case (Prepare p)
  show ?thesis unfolding Prepare
    by (auto simp: pbft_handle_prepare_def Let_def sends_ok_def check_prepared_fixed dest!: check_prepared_sends split: option.split)
next
  case (Commit p)
  show ?thesis unfolding Commit
    by (auto simp: pbft_handle_commit_def Let_def sends_ok_def check_committed_fixed split: option.split)
qed (auto simp: sends_ok_def pbft_handle_view_change_def pbft_send_new_view_def pbft_handle_new_view_def Let_def)

lemma propose_sends: "sends_ok n (pbft_propose dg n operation micros client_text) None"
  by (auto simp: sends_ok_def pbft_propose_def pbft_handle_request_def Let_def pbft_is_primary_def)

lemma trigger_sends: "sends_ok n (pbft_trigger_view_change n) None"
  by (auto simp: sends_ok_def pbft_trigger_view_change_def Let_def)

section \<open>The invariant\<close>

definition pool_ok :: "nat \<Rightarrow> pbft_system \<Rightarrow> bool" where
  "pool_ok n s \<longleftrightarrow>
     (\<forall>pp. Pre_Prepare pp \<in> ps_pool s \<longrightarrow> pp_sender pp = pp_view pp mod n \<and>
        pp_sequence_number pp \<le> pb_seq_num (ps_nodes s (pp_sender pp))) \<and>
     (\<forall>pp pp'. Pre_Prepare pp \<in> ps_pool s \<longrightarrow> Pre_Prepare pp' \<in> ps_pool s \<longrightarrow> pp_view pp = pp_view pp' \<longrightarrow>
        pp_sequence_number pp = pp_sequence_number pp' \<longrightarrow> pp = pp') \<and>
     (\<forall>p. Prepare p \<in> ps_pool s \<longrightarrow> ph_sender p < n \<and>
        (\<exists>pp. Pre_Prepare pp \<in> ps_pool s \<and> pp_view pp = ph_view p \<and> pp_sequence_number pp = ph_sequence_number p)) \<and>
     (\<forall>p. Commit p \<in> ps_pool s \<longrightarrow> ph_sender p < n)"

lemma pool_okD:
  assumes "pool_ok n s"
  shows "Pre_Prepare pp \<in> ps_pool s \<Longrightarrow> pp_sender pp = pp_view pp mod n \<and> pp_sequence_number pp \<le> pb_seq_num (ps_nodes s (pp_sender pp))"
    and "Pre_Prepare pp \<in> ps_pool s \<Longrightarrow> Pre_Prepare pp' \<in> ps_pool s \<Longrightarrow> pp_view pp = pp_view pp' \<Longrightarrow>
      pp_sequence_number pp = pp_sequence_number pp' \<Longrightarrow> pp = pp'"
    and "Prepare p \<in> ps_pool s \<Longrightarrow> ph_sender p < n"
    and "Prepare p \<in> ps_pool s \<Longrightarrow>
      \<exists>pp. Pre_Prepare pp \<in> ps_pool s \<and> pp_view pp = ph_view p \<and> pp_sequence_number pp = ph_sequence_number p"
    and "Commit p \<in> ps_pool s \<Longrightarrow> ph_sender p < n"
  using assms unfolding pool_ok_def by blast+

definition progress_inv :: "nat \<Rightarrow> nat set \<Rightarrow> pbft_system \<Rightarrow> bool" where
  "progress_inv n F s \<longleftrightarrow> pool_ok n s \<and>
     (\<forall>i. i < n \<longrightarrow> i \<notin> F \<longrightarrow> pb_node_id (ps_nodes s i) = i \<and> pb_total_nodes (ps_nodes s i) = n \<and>
        pb_f (ps_nodes s i) = (n - 1) div 3 \<and> node_live (ps_pool s) {} {} (ps_nodes s i))"

lemma put_pool_ok:
  assumes ok: "pool_ok n s" and i: "i < n" "pb_node_id (ps_nodes s i) = i" "pb_total_nodes (ps_nodes s i) = n"
    and sends: "sends_ok (ps_nodes s i) res m" and m: "\<And>msg. m = Some msg \<Longrightarrow> msg \<in> ps_pool s"
  shows "pool_ok n (pbft_put s i res)"
proof -
  let ?s = "pbft_put s i res" and ?new = "called_messages (snd res)"
  have pool: "ps_pool ?s = ps_pool s \<union> ?new" by (simp add: pbft_put_def)
  have seq: "pb_seq_num (ps_nodes s x) \<le> pb_seq_num (ps_nodes ?s x)" for x
    using sends by (simp add: pbft_put_def sends_ok_def)
  have new: "may_send i (pb_view (ps_nodes s i)) (pb_seq_num (ps_nodes s i) + 1) m (pbft_is_primary (ps_nodes s i)) msg" if "msg \<in> ?new" for msg
    using sends that i(2) by (auto simp: sends_ok_def)
  have new_pp: "pp_sender pp = i \<and> pp_sender pp = pp_view pp mod n \<and> pp_sequence_number pp = pb_seq_num (ps_nodes s i) + 1 \<and>
      pp_sequence_number pp \<le> pb_seq_num (ps_nodes ?s i)"
    if "Pre_Prepare pp \<in> ?new" for pp
  proof -
    have "pp_sequence_number pp \<le> pb_seq_num (fst res)" using sends that unfolding sends_ok_def by blast
    then show ?thesis using new [OF that] i by (simp add: pbft_is_primary_def pbft_put_def)
  qed
  have old_pp: "pp_sender pp = pp_view pp mod n \<and> pp_sequence_number pp \<le> pb_seq_num (ps_nodes s (pp_sender pp))"
    if "Pre_Prepare pp \<in> ps_pool s" for pp
    using pool_okD(1) [OF ok that] .
  have "pp_sender pp = pp_view pp mod n \<and> pp_sequence_number pp \<le> pb_seq_num (ps_nodes ?s (pp_sender pp))"
    if "Pre_Prepare pp \<in> ps_pool ?s" for pp
  proof (cases "Pre_Prepare pp \<in> ps_pool s")
    case True
    then show ?thesis using old_pp [OF True] seq [of "pp_sender pp"] by linarith
  next
    case False
    then have "Pre_Prepare pp \<in> ?new" using that pool by blast
    from new_pp [OF this] show ?thesis by simp
  qed
  moreover have "pp = pp'"
    if "Pre_Prepare pp \<in> ps_pool ?s" "Pre_Prepare pp' \<in> ps_pool ?s" "pp_view pp = pp_view pp'" "pp_sequence_number pp = pp_sequence_number pp'" for pp pp'
  proof -
    have mixed: False if "Pre_Prepare p \<in> ps_pool s" "Pre_Prepare q \<in> ?new" "pp_view p = pp_view q" "pp_sequence_number p = pp_sequence_number q" for p q
    proof -
      have "pp_sender p = i" using old_pp [OF that(1)] new_pp [OF that(2)] that(3) by metis
      then have "pp_sequence_number p \<le> pb_seq_num (ps_nodes s i)" using old_pp [OF that(1)] by metis
      then show False using new_pp [OF that(2)] that(4) by linarith
    qed
    have both: "Pre_Prepare pp \<in> ps_pool s \<or> Pre_Prepare pp \<in> ?new" "Pre_Prepare pp' \<in> ps_pool s \<or> Pre_Prepare pp' \<in> ?new"
      using that(1,2) pool by blast+
    have old: "pp = pp'" if "Pre_Prepare pp \<in> ps_pool s" "Pre_Prepare pp' \<in> ps_pool s"
      using ok that \<open>pp_view pp = pp_view pp'\<close> \<open>pp_sequence_number pp = pp_sequence_number pp'\<close> unfolding pool_ok_def by blast
    have same: "pp = pp'" if "Pre_Prepare pp \<in> ?new" "Pre_Prepare pp' \<in> ?new"
      using sends that unfolding sends_ok_def by blast
    show ?thesis using both mixed [OF _ _ that(3,4)] mixed [OF _ _ that(3,4) [symmetric]] old same by blast
  qed
  moreover have "ph_sender p < n \<and> (\<exists>pp. Pre_Prepare pp \<in> ps_pool ?s \<and> pp_view pp = ph_view p \<and> pp_sequence_number pp = ph_sequence_number p)"
    if "Prepare p \<in> ps_pool ?s" for p
  proof (cases "Prepare p \<in> ps_pool s")
    case True
    then show ?thesis using ok unfolding pool_ok_def pool by blast
  next
    case False
    then have "Prepare p \<in> ?new" using that pool by blast
    from new [OF this] show ?thesis using m i(1) pool by auto
  qed
  moreover have "ph_sender p < n" if "Commit p \<in> ps_pool ?s" for p
  proof (cases "Commit p \<in> ps_pool s")
    case True
    then show ?thesis using ok by (simp add: pool_ok_def)
  next
    case False
    then have "Commit p \<in> ?new" using that pool by blast
    from new [OF this] show ?thesis using i(1) by simp
  qed
  ultimately show ?thesis unfolding pool_ok_def by blast
qed

lemma put_progress_inv:
  assumes inv: "progress_inv n F s" and i: "i < n" "i \<notin> F"
    and sends: "sends_ok (ps_nodes s i) res m" and m: "\<And>msg. m = Some msg \<Longrightarrow> msg \<in> ps_pool s"
    and live: "node_live (ps_pool s \<union> called_messages (snd res)) {} {} (fst res)"
  shows "progress_inv n F (pbft_put s i res)"
proof -
  have "pool_ok n (pbft_put s i res)"
    by (rule put_pool_ok [OF _ _ _ _ sends m]) (use inv i in \<open>auto simp: progress_inv_def\<close>)
  moreover have "pb_node_id (ps_nodes (pbft_put s i res) x) = x \<and> pb_total_nodes (ps_nodes (pbft_put s i res) x) = n \<and>
      pb_f (ps_nodes (pbft_put s i res) x) = (n - 1) div 3 \<and> node_live (ps_pool (pbft_put s i res)) {} {} (ps_nodes (pbft_put s i res) x)"
    if x: "x < n" "x \<notin> F" for x
  proof (cases "x = i")
    case True
    then show ?thesis using inv i sends live by (simp add: pbft_put_def progress_inv_def sends_ok_def)
  next
    case False
    then have "ps_nodes (pbft_put s i res) x = ps_nodes s x" by (simp add: pbft_put_def)
    moreover have "ps_pool s \<subseteq> ps_pool (pbft_put s i res)" by (auto simp: pbft_put_def)
    ultimately show ?thesis using inv x node_live_mono [of "ps_pool s" "{}" "{}" "ps_nodes s x"] by (simp add: progress_inv_def)
  qed
  ultimately show ?thesis by (simp add: progress_inv_def)
qed

text \<open>The slot of the next request of a primary: nobody has heard of it.\<close>

lemma next_slot_fresh:
  assumes inv: "progress_inv n F s" and i: "i < n" "i \<notin> F" and primary: "pbft_is_primary (ps_nodes s i)"
  shows "pb_prepares (ps_nodes s i) (pb_view (ps_nodes s i), pb_seq_num (ps_nodes s i) + 1) = {}"
    "pb_pre_prepares (ps_nodes s i) (pb_view (ps_nodes s i), pb_seq_num (ps_nodes s i) + 1) = None"
proof -
  let ?n = "ps_nodes s i"
  have i_facts: "pb_node_id ?n = i" "pb_total_nodes ?n = n" and live: "node_live (ps_pool s) {} {} ?n"
    using inv i by (simp_all add: progress_inv_def)
  have pool: "pool_ok n s" using inv by (simp add: progress_inv_def)
  have none: False if "Pre_Prepare pp \<in> ps_pool s" "pp_view pp = pb_view ?n" "pp_sequence_number pp = pb_seq_num ?n + 1" for pp
  proof -
    have "pp_sender pp = pp_view pp mod n" "pp_sequence_number pp \<le> pb_seq_num (ps_nodes s (pp_sender pp))"
      using pool_okD(1) [OF pool that(1)] by blast+
    moreover have "i = pb_view ?n mod n" using primary i_facts by (simp add: pbft_is_primary_def)
    ultimately show False using that(2,3) by simp
  qed
  have "(x, d) \<notin> pb_prepares ?n (pb_view ?n, pb_seq_num ?n + 1)" for x d
  proof
    assume "(x, d) \<in> pb_prepares ?n (pb_view ?n, pb_seq_num ?n + 1)"
    then have "sent_prepare (ps_pool s) x (pb_view ?n, pb_seq_num ?n + 1) d" using live unfolding node_live_def votes_known_def by blast
    from pool_okD(4) [OF pool this [unfolded sent_prepare_def]] show False using none by auto
  qed
  then show "pb_prepares ?n (pb_view ?n, pb_seq_num ?n + 1) = {}" by auto
  show "pb_pre_prepares ?n (pb_view ?n, pb_seq_num ?n + 1) = None"
  proof (cases "pb_pre_prepares ?n (pb_view ?n, pb_seq_num ?n + 1)")
    case (Some pp)
    then have "Pre_Prepare pp \<in> ps_pool s \<and> (pb_view ?n, pb_seq_num ?n + 1) = (pp_view pp, pp_sequence_number pp)"
      using live unfolding node_live_def own_done_def by blast
    then show ?thesis using none [of pp] by simp
  qed
qed

lemma request_progress:
  assumes inv: "progress_inv n F s" and i: "i < n" "i \<notin> F" and f: "0 < (n - 1) div 3"
    and same: "same_votes_node (ps_nodes s i) n1" "pb_view n1 = pb_view (ps_nodes s i)" "pb_seq_num n1 = pb_seq_num (ps_nodes s i)"
  shows "node_live (ps_pool s \<union> called_messages (snd (pbft_handle_request dg n1 r))) {} {} (fst (pbft_handle_request dg n1 r))"
proof -
  have "node_live (ps_pool s) {} {} (ps_nodes s i)" using inv i by (simp add: progress_inv_def)
  then have live: "node_live (ps_pool s) {} {} n1" by (rule same_votes_live [OF same(1)]) simp
  show ?thesis
  proof (cases "pbft_is_primary n1")
    case True
    then have "pbft_is_primary (ps_nodes s i)" using same unfolding pbft_is_primary_def same_votes_node_def by metis
    from next_slot_fresh [OF inv i this]
    have "pb_prepares n1 (pb_view n1, pb_seq_num n1 + 1) = {}" "pb_pre_prepares n1 (pb_view n1, pb_seq_num n1 + 1) = None"
      using same by (simp_all add: same_votes_node_def)
    moreover have "0 < pb_f n1" using inv i f same by (simp add: progress_inv_def same_votes_node_def)
    ultimately show ?thesis using handle_request_live [OF live] by blast
  next
    case False
    then show ?thesis using node_live_mono [OF live] by (simp add: pbft_handle_request_def)
  qed
qed

lemma same_votes_refl [simp]: "same_votes_node n n"
  by (simp add: same_votes_node_def)

lemma receive_live:
  assumes inv: "progress_inv n F s" and i: "i < n" "i \<notin> F" and f: "0 < (n - 1) div 3" and m: "m \<in> ps_pool s"
  shows "node_live (ps_pool s \<union> called_messages (snd (pbft_receive dg (ps_nodes s i) m))) {} {} (fst (pbft_receive dg (ps_nodes s i) m))"
proof -
  have live: "node_live (ps_pool s) {} {} (ps_nodes s i)" using inv i by (simp add: progress_inv_def)
  show ?thesis
  proof (cases m)
    case (Request r)
    then show ?thesis using request_progress [OF inv i f] by simp
  next
    case (Pre_Prepare pp)
    then show ?thesis using handle_pre_prepare_live [OF live] m by simp
  next
    case (Prepare p)
    then show ?thesis using handle_prepare_live [OF live] m by simp
  next
    case (Commit p)
    then show ?thesis using handle_commit_live [OF live] m by simp
  next
    case (View_Change v)
    then show ?thesis using same_votes_live [OF other_handlers_votes(1) live] by simp
  next
    case (New_View v)
    then show ?thesis using same_votes_live [OF other_handlers_votes(2) live] by simp
  qed (use live in simp)
qed

lemma propose_live:
  assumes inv: "progress_inv n F s" and i: "i < n" "i \<notin> F" and f: "0 < (n - 1) div 3"
    and res: "res = pbft_propose dg (ps_nodes s i) operation micros client_text"
  shows "node_live (ps_pool s \<union> called_messages (snd res)) {} {} (fst res)"
proof -
  have same: "same_votes_node (ps_nodes s i) (ps_nodes s i\<lparr>pb_client_requests := c\<rparr>)" for c by (simp add: same_votes_node_def)
  have live: "node_live (ps_pool s) {} {} (ps_nodes s i)" using inv i by (simp add: progress_inv_def)
  have "node_live (ps_pool s \<union> called_messages (snd (pbft_handle_request dg (ps_nodes s i\<lparr>pb_client_requests := c\<rparr>) r))) {} {}
      (fst (pbft_handle_request dg (ps_nodes s i\<lparr>pb_client_requests := c\<rparr>) r))" for c r
    by (rule request_progress [OF inv i f same]) simp_all
  moreover have "node_live (ps_pool s \<union> X) {} {} (ps_nodes s i\<lparr>pb_client_requests := c\<rparr>)" for c X
    by (rule same_votes_live [OF same live]) blast
  ultimately show ?thesis unfolding res pbft_propose_def Let_def by simp
qed

lemma progress_arrived [simp]: "progress_inv n F (s\<lparr>ps_arrived := a\<rparr>) = progress_inv n F s"
  by (simp add: progress_inv_def pool_ok_def)

lemma deliver_pool [simp]: "ps_pool (pbft_deliver dg s i m) = ps_pool (pbft_put s i (pbft_receive dg (ps_nodes s i) m))"
  by (simp add: pbft_deliver_def)

lemma reachable_progress:
  assumes "pbft_reachable dg n F True s" and "0 < (n - 1) div 3" and "\<forall>m\<in>ps_pool s. msg_sender m \<notin> F"
  shows "progress_inv n F s"
  using assms
proof (induction rule: pbft_reachable.induct)
  case ps_start
  show ?case
    by (simp add: pbft_boot_def progress_inv_def pool_ok_def pbft_init_def node_live_def votes_known_def own_done_def
        prepares_checked_def commits_checked_def)
next
  case (ps_faulty s m)
  then show ?case by simp
next
  case (ps_receive s i m)
  have inv: "progress_inv n F s" using ps_receive by (simp add: pbft_put_def)
  have "progress_inv n F (pbft_put s i (pbft_receive dg (ps_nodes s i) m))"
    by (rule put_progress_inv [OF inv ps_receive.hyps(2,3) receive_sends _ receive_live [OF inv ps_receive.hyps(2,3) ps_receive.prems(1) ps_receive.hyps(4)]])
      (use ps_receive.hyps(4) in simp)
  then show ?case by (simp add: pbft_deliver_def)
next
  case (ps_propose s i operation micros client_text)
  have inv: "progress_inv n F s" using ps_propose by (simp add: pbft_put_def)
  show ?case
    by (rule put_progress_inv [OF inv ps_propose.hyps(2,3) propose_sends _ propose_live [OF inv ps_propose.hyps(2,3) ps_propose.prems(1) refl]]) simp
next
  case (ps_trigger s i)
  have inv: "progress_inv n F s" using ps_trigger by (simp add: pbft_put_def)
  have "node_live (ps_pool s) {} {} (ps_nodes s i)" using inv ps_trigger.hyps(2,3) by (simp add: progress_inv_def)
  then show ?case
    by (intro put_progress_inv [OF inv ps_trigger.hyps(2,3) trigger_sends] same_votes_live [OF other_handlers_votes(3)]) auto
qed

section \<open>What arrives is kept\<close>

text \<open>The message has left its trace in the node's logs.\<close>

fun on_log :: "pbft_node \<Rightarrow> pbft_msg \<Rightarrow> bool" where
  "on_log n (Pre_Prepare pp) \<longleftrightarrow> pb_pre_prepares n (pp_view pp, pp_sequence_number pp) \<noteq> None"
| "on_log n (Prepare p) \<longleftrightarrow> (ph_sender p, ph_digest p) \<in> pb_prepares n (ph_view p, ph_sequence_number p)"
| "on_log n (Commit p) \<longleftrightarrow> (ph_sender p, ph_digest p) \<in> pb_commits n (ph_view p, ph_sequence_number p)"
| "on_log n _ \<longleftrightarrow> True"

fun slot_of :: "pbft_msg \<Rightarrow> slot option" where
  "slot_of (Pre_Prepare pp) = Some (pp_view pp, pp_sequence_number pp)"
| "slot_of (Prepare p) = Some (ph_view p, ph_sequence_number p)"
| "slot_of (Commit p) = Some (ph_view p, ph_sequence_number p)"
| "slot_of _ = None"

text \<open>A handler's effect on the logs: what was there stays, what it broadcasts is there.\<close>

definition logs_grow :: "pbft_node \<Rightarrow> pbft_node \<Rightarrow> bool" where
  "logs_grow n n' \<longleftrightarrow> (\<forall>m. on_log n m \<longrightarrow> on_log n' m)"

definition logs_step :: "pbft_node \<Rightarrow> pbft_node \<times> network_call list \<Rightarrow> bool" where
  "logs_step n res \<longleftrightarrow> logs_grow n (fst res) \<and> (\<forall>m\<in>called_messages (snd res). on_log (fst res) m)"

lemma logs_grow_refl [simp]: "logs_grow n n"
  by (simp add: logs_grow_def)

lemma logs_grow_trans: "logs_grow n n' \<Longrightarrow> logs_grow n' n'' \<Longrightarrow> logs_grow n n''"
  by (simp add: logs_grow_def)

lemma logs_growI:
  assumes "\<And>key. pb_pre_prepares n key \<noteq> None \<Longrightarrow> pb_pre_prepares n' key \<noteq> None"
    and "\<And>key. pb_prepares n key \<subseteq> pb_prepares n' key" and "\<And>key. pb_commits n key \<subseteq> pb_commits n' key"
  shows "logs_grow n n'"
  unfolding logs_grow_def
proof (intro allI impI)
  fix m
  assume "on_log n m"
  then show "on_log n' m"
    using assms(1) by (cases m) (auto dest: subsetD [OF assms(2)] subsetD [OF assms(3)])
qed

lemma check_committed_logs:
  "pb_pre_prepares (pbft_check_committed n key d) = pb_pre_prepares n" "pb_prepares (pbft_check_committed n key d) = pb_prepares n"
  "pb_commits (pbft_check_committed n key d) = pb_commits n"
  by (simp_all add: pbft_check_committed_def pbft_execute_request_def Let_def split: option.split)

lemma check_prepared_logs:
  "pb_pre_prepares (fst (pbft_check_prepared n key d)) = pb_pre_prepares n" "pb_prepares (fst (pbft_check_prepared n key d)) = pb_prepares n"
  "\<forall>k. pb_commits n k \<subseteq> pb_commits (fst (pbft_check_prepared n key d)) k"
  by (auto simp: pbft_check_prepared_def Let_def check_committed_logs)

lemma check_prepared_logged:
  assumes "fst key = pb_view n" and "m \<in> called_messages (snd (pbft_check_prepared n key d))"
  shows "on_log (fst (pbft_check_prepared n key d)) m"
  using assms by (cases key) (auto simp: pbft_check_prepared_def Let_def check_committed_logs split: if_splits)

lemma pre_prepare_logs:
  "logs_step n (pbft_handle_pre_prepare n m)"
  "pp_view m = pb_view n \<Longrightarrow> on_log (fst (pbft_handle_pre_prepare n m)) (Pre_Prepare m)"
proof -
  let ?key = "(pp_view m, pp_sequence_number m)"
  let ?n1 = "n\<lparr>pb_pre_prepares := (pb_pre_prepares n)(?key \<mapsto> m),
     pb_prepares := (pb_prepares n)(?key := insert (pb_node_id n, pp_digest m) (pb_prepares n ?key))\<rparr>"
  let ?c = "pbft_check_prepared ?n1 ?key (pp_digest m)"
  let ?p = "Prepare \<lparr>ph_sender = pb_node_id n, ph_view = pb_view n, ph_sequence_number = pp_sequence_number m, ph_digest = pp_digest m\<rparr>"
  have grow: "logs_grow n (fst ?c)"
    by (rule logs_growI) (use check_prepared_logs [of ?n1 ?key "pp_digest m"] in \<open>auto split: if_splits\<close>)
  have res: "pbft_handle_pre_prepare n m = (fst ?c, pbft_broadcast ?n1 ?p @ snd ?c)"
    if "pp_view m = pb_view n" "pb_pre_prepares n ?key = None"
    using that by (simp add: pbft_handle_pre_prepare_def Let_def case_prod_unfold)
  have same: "pbft_handle_pre_prepare n m = (n, [])" if "pp_view m \<noteq> pb_view n \<or> pb_pre_prepares n ?key \<noteq> None"
    using that by (auto simp: pbft_handle_pre_prepare_def Let_def)
  show "logs_step n (pbft_handle_pre_prepare n m)"
  proof (cases "pp_view m = pb_view n \<and> pb_pre_prepares n ?key = None")
    case True
    have "on_log (fst ?c) x" if "x \<in> called_messages (snd ?c)" for x
      by (rule check_prepared_logged [OF _ that]) (use True in simp)
    moreover have "on_log (fst ?c) ?p" using True check_prepared_logs(2) [of ?n1 ?key "pp_digest m"] by simp
    ultimately show ?thesis using grow res True by (auto simp: logs_step_def)
  next
    case False
    then show ?thesis using same by (simp add: logs_step_def)
  qed
  show "on_log (fst (pbft_handle_pre_prepare n m)) (Pre_Prepare m)" if "pp_view m = pb_view n"
    using that res same check_prepared_logs(1) [of ?n1 ?key "pp_digest m"] by (cases "pb_pre_prepares n ?key = None") auto
qed

lemma prepare_logs:
  "logs_step n (pbft_handle_prepare n m)"
  "ph_view m = pb_view n \<Longrightarrow> on_log (fst (pbft_handle_prepare n m)) (Prepare m)"
proof -
  let ?key = "(ph_view m, ph_sequence_number m)"
  let ?n1 = "n\<lparr>pb_prepares := (pb_prepares n)(?key := insert (ph_sender m, ph_digest m) (pb_prepares n ?key))\<rparr>"
  have cases: "pbft_handle_prepare n m = (?n1, []) \<or> pbft_handle_prepare n m = pbft_check_prepared ?n1 ?key (ph_digest m)"
    if "ph_view m = pb_view n"
    using that by (auto simp: pbft_handle_prepare_def Let_def split: option.split)
  have n1: "logs_grow n ?n1" by (rule logs_growI) auto
  have check: "logs_grow ?n1 (fst (pbft_check_prepared ?n1 ?key (ph_digest m)))"
    by (rule logs_growI) (use check_prepared_logs [of ?n1 ?key "ph_digest m"] in auto)
  have own: "on_log ?n1 (Prepare m)" by simp
  have called: "on_log (fst (pbft_check_prepared ?n1 ?key (ph_digest m))) x"
    if "ph_view m = pb_view n" "x \<in> called_messages (snd (pbft_check_prepared ?n1 ?key (ph_digest m)))" for x
    by (rule check_prepared_logged [OF _ that(2)]) (use that(1) in simp)
  show "logs_step n (pbft_handle_prepare n m)"
  proof (cases "ph_view m = pb_view n")
    case True
    from cases [OF True] show ?thesis
      using n1 logs_grow_trans [OF n1 check] called [OF True] unfolding logs_step_def by (elim disjE) simp_all
  next
    case False
    then show ?thesis by (simp add: pbft_handle_prepare_def logs_step_def)
  qed
  show "on_log (fst (pbft_handle_prepare n m)) (Prepare m)" if "ph_view m = pb_view n"
    using cases [OF that] own check unfolding logs_grow_def by (elim disjE) (simp_all del: on_log.simps)
qed

lemma commit_logs:
  "logs_step n (pbft_handle_commit n m)"
  "ph_view m = pb_view n \<Longrightarrow> on_log (fst (pbft_handle_commit n m)) (Commit m)"
proof -
  let ?key = "(ph_view m, ph_sequence_number m)"
  let ?n1 = "n\<lparr>pb_commits := (pb_commits n)(?key := insert (ph_sender m, ph_digest m) (pb_commits n ?key))\<rparr>"
  have cases: "pbft_handle_commit n m = (?n1, []) \<or> pbft_handle_commit n m = (pbft_check_committed ?n1 ?key (ph_digest m), [])"
    if "ph_view m = pb_view n"
    using that by (auto simp: pbft_handle_commit_def Let_def split: option.split)
  have "logs_grow n ?n1" "logs_grow n (pbft_check_committed ?n1 ?key (ph_digest m))"
    by (rule logs_growI; auto simp: check_committed_logs)+
  then show "logs_step n (pbft_handle_commit n m)"
    using cases by (cases "ph_view m = pb_view n") (auto simp: logs_step_def pbft_handle_commit_def)
  show "on_log (fst (pbft_handle_commit n m)) (Commit m)" if "ph_view m = pb_view n"
    using cases [OF that] by (elim disjE) (simp_all add: check_committed_logs)
qed

lemma request_logs: "logs_step n (pbft_handle_request dg n m)"
  by (auto simp: pbft_handle_request_def Let_def logs_step_def intro!: logs_growI)

lemma view_logs:
  "logs_step n (pbft_handle_view_change n v)" "logs_step n (pbft_handle_new_view n w)" "logs_step n (pbft_trigger_view_change n)"
  by (auto simp: pbft_handle_view_change_def pbft_send_new_view_def pbft_handle_new_view_def
      pbft_trigger_view_change_def Let_def logs_step_def intro!: logs_growI)

lemma receive_logs: "logs_step n (pbft_receive dg n m)"
proof (cases m)
  case (Reply a b c d e)
  then show ?thesis by (simp add: logs_step_def)
qed (simp_all add: pre_prepare_logs(1) prepare_logs(1) commit_logs(1) request_logs view_logs)

lemma receive_logged:
  assumes "slot_of m = Some key" and "fst key = pb_view n"
  shows "on_log (fst (pbft_receive dg n m)) m"
proof (cases m)
  case (Pre_Prepare p)
  then show ?thesis using assms pre_prepare_logs(2) [of p n] by (auto simp del: on_log.simps)
next
  case (Prepare p)
  then show ?thesis using assms prepare_logs(2) [of p n] by (auto simp del: on_log.simps)
next
  case (Commit p)
  then show ?thesis using assms commit_logs(2) [of p n] by (auto simp del: on_log.simps)
qed simp_all

lemma propose_logs: "logs_step n (pbft_propose dg n operation micros client_text)"
proof -
  have "logs_grow n (n\<lparr>pb_client_requests := c\<rparr>)" for c by (rule logs_growI) auto
  then have "logs_step n (pbft_handle_request dg (n\<lparr>pb_client_requests := c\<rparr>) r)" for c r
    using request_logs [of "n\<lparr>pb_client_requests := c\<rparr>" dg r] logs_grow_trans unfolding logs_step_def by blast
  moreover have "logs_step n (n\<lparr>pb_client_requests := c\<rparr>, pbft_send n' (Request r) p)" for c n' r p
    by (auto simp: logs_step_def intro!: logs_growI)
  ultimately show ?thesis by (simp add: pbft_propose_def Let_def)
qed

text \<open>Every node has on its logs what it sent itself and what reached it in the view of the slot.\<close>

definition arrivals_kept :: "nat \<Rightarrow> nat set \<Rightarrow> pbft_system \<Rightarrow> bool" where
  "arrivals_kept n F s \<longleftrightarrow> (\<forall>i. i < n \<longrightarrow> i \<notin> F \<longrightarrow> pb_node_id (ps_nodes s i) = i \<and>
     (\<forall>m\<in>ps_pool s. msg_sender m = i \<longrightarrow> on_log (ps_nodes s i) m) \<and>
     (\<forall>v m key. (i, v, m) \<in> set (ps_arrived s) \<longrightarrow> slot_of m = Some key \<longrightarrow> fst key = v \<longrightarrow> on_log (ps_nodes s i) m))"

lemma may_send_sender: "may_send x v q m primary msg \<Longrightarrow> msg_sender msg = x \<or> on_log n' msg"
  by (cases msg) auto

lemma put_arrivals:
  assumes kept: "arrivals_kept n F s" and i: "i < n" "i \<notin> F" and step: "logs_step (ps_nodes s i) res" and sends: "sends_ok (ps_nodes s i) res received"
  shows "arrivals_kept n F (pbft_put s i res)"
  unfolding arrivals_kept_def
proof (intro allI impI)
  fix x
  assume x: "x < n" "x \<notin> F"
  let ?s = "pbft_put s i res"
  have id: "pb_node_id (ps_nodes s i) = i" using kept i by (simp add: arrivals_kept_def)
  have old: "pb_node_id (ps_nodes s x) = x" "\<And>m. m \<in> ps_pool s \<Longrightarrow> msg_sender m = x \<Longrightarrow> on_log (ps_nodes s x) m"
    "\<And>v m key. (x, v, m) \<in> set (ps_arrived s) \<Longrightarrow> slot_of m = Some key \<Longrightarrow> fst key = v \<Longrightarrow> on_log (ps_nodes s x) m"
    using kept x unfolding arrivals_kept_def by blast+
  have grow: "on_log (ps_nodes s x) m \<Longrightarrow> on_log (ps_nodes ?s x) m" for m
    using step by (auto simp: pbft_put_def logs_step_def logs_grow_def)
  have new: "on_log (ps_nodes ?s x) m" if "m \<in> called_messages (snd res)" "msg_sender m = x" for m
  proof (cases "x = i")
    case True
    then show ?thesis using step that(1) by (simp add: logs_step_def pbft_put_def)
  next
    case False
    have "may_send i (pb_view (ps_nodes s i)) (pb_seq_num (ps_nodes s i) + 1) received (pbft_is_primary (ps_nodes s i)) m"
      using sends that(1) id by (simp add: sends_ok_def)
    then show ?thesis using may_send_sender that(2) False by blast
  qed
  have "pb_node_id (ps_nodes ?s x) = x" using old(1) sends id by (simp add: pbft_put_def sends_ok_def)
  moreover have "\<forall>m\<in>ps_pool ?s. msg_sender m = x \<longrightarrow> on_log (ps_nodes ?s x) m"
    using old(2) grow new by (auto simp: pbft_put_def)
  moreover have "ps_arrived ?s = ps_arrived s" by (simp add: pbft_put_def)
  ultimately show "pb_node_id (ps_nodes ?s x) = x \<and> (\<forall>m\<in>ps_pool ?s. msg_sender m = x \<longrightarrow> on_log (ps_nodes ?s x) m) \<and>
     (\<forall>v m key. (x, v, m) \<in> set (ps_arrived ?s) \<longrightarrow> slot_of m = Some key \<longrightarrow> fst key = v \<longrightarrow> on_log (ps_nodes ?s x) m)"
    using old(3) grow by simp
qed

lemma reachable_arrivals: "pbft_reachable dg n F True s \<Longrightarrow> arrivals_kept n F s"
proof (induction rule: pbft_reachable.induct)
  case ps_start
  show ?case by (simp add: arrivals_kept_def pbft_boot_def pbft_init_def)
next
  case (ps_faulty s m)
  then show ?case by (auto simp: arrivals_kept_def)
next
  case (ps_receive s i m)
  let ?res = "pbft_receive dg (ps_nodes s i) m"
  have put: "arrivals_kept n F (pbft_put s i ?res)"
    by (rule put_arrivals [OF ps_receive.IH ps_receive.hyps(2,3) receive_logs receive_sends])
  have "on_log (ps_nodes (pbft_put s i ?res) i) m" if "slot_of m = Some key" "fst key = pb_view (ps_nodes s i)" for key
    using receive_logged [OF that] by (simp add: pbft_put_def)
  then show ?case
    using put unfolding arrivals_kept_def pbft_deliver_def by (auto simp: pbft_put_def)
next
  case (ps_propose s i operation micros client_text)
  then show ?case by (intro put_arrivals [OF _ _ _ propose_logs propose_sends])
next
  case (ps_trigger s i)
  then show ?case by (intro put_arrivals [OF _ _ _ view_logs(3) trigger_sends])
qed

section \<open>Progress\<close>

text \<open>Every message of the slot that was sent has reached every correct node while that node was in the view of the slot.\<close>

definition slot_arrived :: "nat \<Rightarrow> nat set \<Rightarrow> slot \<Rightarrow> pbft_system \<Rightarrow> bool" where
  "slot_arrived n F key s \<longleftrightarrow>
     (\<forall>m\<in>ps_pool s. slot_of m = Some key \<longrightarrow>
        list_all (\<lambda>i. i \<in> F \<or> msg_sender m = i \<or> (i, fst key, m) \<in> set (ps_arrived s)) [0..<n])"

lemma slot_arrived_log:
  assumes "arrivals_kept n F s" and "slot_arrived n F key s" and "i < n" and "i \<notin> F" and "m \<in> ps_pool s" and "slot_of m = Some key"
  shows "on_log (ps_nodes s i) m"
proof -
  have "i \<in> set [0..<n]" using assms(3) by simp
  then have "msg_sender m = i \<or> (i, fst key, m) \<in> set (ps_arrived s)"
    using assms(2,4-6) unfolding slot_arrived_def list_all_iff by blast
  then show ?thesis using assms(1,3-6) unfolding arrivals_kept_def by blast
qed

lemma matching_votes:
  assumes "\<And>x. x \<in> V \<Longrightarrow> (x, d) \<in> votes" and "\<And>x d. (x, d) \<in> votes \<Longrightarrow> x < n"
  shows "card V \<le> card (matching votes d)"
proof -
  have "finite (matching votes d)"
  proof (rule finite_subset)
    show "matching votes d \<subseteq> {..<n} \<times> {d}" using assms(2) by (auto simp: matching_def)
  qed simp
  moreover have "(\<lambda>x. (x, d)) ` V \<subseteq> matching votes d" using assms(1) by (auto simp: matching_def)
  ultimately have "card ((\<lambda>x. (x, d)) ` V) \<le> card (matching votes d)" by (intro card_mono)
  then show ?thesis by (simp add: card_image inj_on_def)
qed

text \<open>
  C12. Progress: with at most f faulty nodes out of 3f + 1, f positive, which have been silent, a slot whose
  pre-prepare was sent is executed, with that pre-prepare, by every correct node as soon as all messages sent
  for the slot (pre-prepare, prepares, commits) have reached all correct nodes while these were in its view,
  whatever the order of the messages, of the other slots and of view changes before and after.
\<close>

theorem pbft_progress:
  assumes "pbft_reachable digest_of (3 * f + 1) F True s" and "F \<subseteq> {..<3 * f + 1}" and "card F \<le> f" and "0 < f"
    and "\<forall>m\<in>ps_pool s. msg_sender m \<notin> F"
    and "Pre_Prepare pp \<in> ps_pool s" and "key = (pp_view pp, pp_sequence_number pp)"
    and "slot_arrived (3 * f + 1) F key s"
  shows "\<forall>i<3 * f + 1. i \<notin> F \<longrightarrow> (key, pp) \<in> set (pb_executed (ps_nodes s i))"
proof -
  define N where "N = 3 * f + 1"
  define C where "C = {..<N} - F"
  note facts = assms [folded N_def]
  have C: "i \<in> C \<longleftrightarrow> i < N \<and> i \<notin> F" for i by (auto simp: C_def)
  have "0 < (N - 1) div 3" "(N - 1) div 3 = f" using assms(4) by (simp_all add: N_def)
  then have inv: "progress_inv N F s" using reachable_progress [OF facts(1) _ facts(5)] by simp
  have pool: "pool_ok N s" using inv by (simp add: progress_inv_def)
  have node: "pb_node_id (ps_nodes s i) = i" "pb_total_nodes (ps_nodes s i) = N" "pb_f (ps_nodes s i) = f"
      "votes_known (ps_pool s) (ps_nodes s i)" "own_done (ps_pool s) (ps_nodes s i)"
      "prepares_checked {} (ps_nodes s i)" "commits_checked {} (ps_nodes s i)"
    if "i \<in> C" for i
    using inv that \<open>(N - 1) div 3 = f\<close> unfolding C progress_inv_def node_live_def by metis+
  have "finite F" using facts(2) finite_subset by blast
  then have size_C: "2 * f + 1 \<le> card C" "finite C"
    using card_Diff_subset [OF _ facts(2)] facts(3) by (simp_all add: C_def N_def)
  have log: "on_log (ps_nodes s i) m" if "i \<in> C" "m \<in> ps_pool s" "slot_of m = Some key" for i m
    using slot_arrived_log [OF reachable_arrivals [OF facts(1)] facts(8)] that unfolding C by blast
  have pp: "pb_pre_prepares (ps_nodes s i) key = Some pp" if i: "i \<in> C" for i
  proof -
    have "slot_of (Pre_Prepare pp) = Some key" by (simp add: facts(7))
    from log [OF i facts(6) this] obtain q where q: "pb_pre_prepares (ps_nodes s i) key = Some q" by (auto simp: facts(7))
    then have "Pre_Prepare q \<in> ps_pool s" "key = (pp_view q, pp_sequence_number q)"
      using node(5) [OF i] unfolding own_done_def by blast+
    then have "q = pp" using pool_okD(2) [OF pool _ facts(6)] facts(7) by simp
    then show ?thesis using q by simp
  qed
  have known: "(x, d) \<in> pb_prepares (ps_nodes s i) key \<Longrightarrow> x < N" "(x, d) \<in> pb_commits (ps_nodes s i) key \<Longrightarrow> x < N"
    if i: "i \<in> C" for i x d
  proof -
    assume "(x, d) \<in> pb_prepares (ps_nodes s i) key"
    then have "sent_prepare (ps_pool s) x key d" using node(4) [OF i] unfolding votes_known_def by blast
    from pool_okD(3) [OF pool this [unfolded sent_prepare_def]] show "x < N" by simp
  next
    assume "(x, d) \<in> pb_commits (ps_nodes s i) key"
    then have "sent_commit (ps_pool s) x key d" using node(4) [OF i] unfolding votes_known_def by blast
    from pool_okD(5) [OF pool this [unfolded sent_commit_def]] show "x < N" by simp
  qed
  have counted: "sent_prepare (ps_pool s) j key d \<Longrightarrow> (j, d) \<in> pb_prepares (ps_nodes s i) key"
    "sent_commit (ps_pool s) j key d \<Longrightarrow> (j, d) \<in> pb_commits (ps_nodes s i) key" if "i \<in> C" "j \<in> C" for i j d
    using log [OF that(1), of "Prepare \<lparr>ph_sender = j, ph_view = fst key, ph_sequence_number = snd key, ph_digest = d\<rparr>"]
      log [OF that(1), of "Commit \<lparr>ph_sender = j, ph_view = fst key, ph_sequence_number = snd key, ph_digest = d\<rparr>"]
    by (simp_all add: sent_prepare_def sent_commit_def)
  have prepared: "key \<in> pb_prepared_predicate (ps_nodes s i)" if i: "i \<in> C" for i
  proof -
    have "(j, pp_digest pp) \<in> pb_prepares (ps_nodes s i) key" if j: "j \<in> C - {fst key mod N}" for j
    proof (rule counted(1) [OF i])
      show jC: "j \<in> C" using j by blast
      have "fst key mod pb_total_nodes (ps_nodes s j) \<noteq> pb_node_id (ps_nodes s j)" using j node(1,2) [OF jC] by simp
      then have "sent_prepare (ps_pool s) (pb_node_id (ps_nodes s j)) key (pp_digest pp)"
        using node(5) [OF jC] pp [OF jC] unfolding own_done_def by blast
      then show "sent_prepare (ps_pool s) j key (pp_digest pp)" by (simp only: node(1) [OF jC])
    qed
    then have "card (C - {fst key mod N}) \<le> card (matching (pb_prepares (ps_nodes s i) key) (pp_digest pp))"
      by (rule matching_votes [OF _ known(1) [OF i]])
    moreover have "card C - 1 \<le> card (C - {fst key mod N})" using size_C(2) by (simp add: card_Diff_singleton_if)
    then have "2 * f \<le> card (C - {fst key mod N})" using size_C(1) by linarith
    ultimately have "2 * pb_f (ps_nodes s i) \<le> card (matching (pb_prepares (ps_nodes s i) key) (pp_digest pp))" using node(3) [OF i] by simp
    then show ?thesis using node(6) [OF i] pp [OF i] unfolding prepares_checked_def by blast
  qed
  have "(key, pp) \<in> set (pb_executed (ps_nodes s i))" if i: "i \<in> C" for i
  proof -
    have "(j, pp_digest pp) \<in> pb_commits (ps_nodes s i) key" if j: "j \<in> C" for j
    proof (rule counted(2) [OF i j])
      obtain q where "pb_pre_prepares (ps_nodes s j) key = Some q" "sent_commit (ps_pool s) j key (pp_digest q)"
        using node(1,5) [OF j] prepared [OF j] unfolding own_done_def by metis
      then show "sent_commit (ps_pool s) j key (pp_digest pp)" using pp [OF j] by simp
    qed
    then have "card C \<le> card (matching (pb_commits (ps_nodes s i) key) (pp_digest pp))"
      by (rule matching_votes [OF _ known(2) [OF i]])
    then have "2 * pb_f (ps_nodes s i) + 1 \<le> card (matching (pb_commits (ps_nodes s i) key) (pp_digest pp))"
      using node(3) [OF i] size_C(1) by simp
    then have "key \<in> pb_committed_predicate (ps_nodes s i)"
      using node(7) [OF i] pp [OF i] prepared [OF i] unfolding commits_checked_def by blast
    then obtain q where "pb_pre_prepares (ps_nodes s i) key = Some q" "(key, q) \<in> set (pb_executed (ps_nodes s i))"
      using node(5) [OF i] unfolding own_done_def by blast
    then show ?thesis using pp [OF i] by simp
  qed
  then show ?thesis unfolding C N_def by blast
qed

text \<open>Node 3 is silent; the primary proposes, and all messages of the slot reach nodes 0, 1 and 2.\<close>

definition delivered_run :: pbft_system where
  "delivered_run = pbft_run (\<lambda>_. ''d'') 4 [3] True
     ([Propose 0 (JStr ''a'') 7, Deliver (Pre_Prepare (example_pp ''d'' ''a'')) 1, Deliver (Pre_Prepare (example_pp ''d'' ''a'')) 2] @
      map (\<lambda>(i, j). Deliver (Prepare (example_vote i ''d'')) j) [(1, 0), (2, 0), (1, 2), (2, 1)] @
      map (\<lambda>(i, j). Deliver (Commit (example_vote i ''d'')) j) [(0, 1), (0, 2), (1, 0), (1, 2), (2, 0), (2, 1)])"

theorem pbft_progress_witness:
  "list_all (\<lambda>i. ((0, 1), example_pp ''d'' ''a'') \<in> set (pb_executed (ps_nodes delivered_run i))) [0, 1, 2]"
proof -
  have run: "pbft_reachable (\<lambda>_. ''d'') (3 * 1 + 1) {3} True delivered_run"
    using pbft_run_reachable [of "\<lambda>_. ''d''" 4 "[3]" True] unfolding delivered_run_def by simp
  have silent: "\<forall>m\<in>ps_pool delivered_run. msg_sender m \<notin> {3}" by code_simp
  have proposed: "Pre_Prepare (example_pp ''d'' ''a'') \<in> ps_pool delivered_run" by code_simp
  have arrived: "slot_arrived (3 * 1 + 1) {3} (0, 1) delivered_run" by code_simp
  have "\<forall>i<3 * 1 + 1. i \<notin> {3} \<longrightarrow> ((0, 1), example_pp ''d'' ''a'') \<in> set (pb_executed (ps_nodes delivered_run i))"
    by (rule pbft_progress [OF run _ _ _ silent proposed _ arrived]) (simp_all add: example_pp_def)
  then show ?thesis by simp
qed

text \<open>
  The condition \<open>0 < f\<close> is needed: a node that is the whole cluster has all the prepares and commits that its
  quorums ask for, none and its own, but stores its pre-prepare without a look at them.
\<close>

theorem pbft_single_node_waits:
  "pb_executed (fst (pbft_propose dg (pbft_init 0 1 True) operation micros client_text)) = [] \<and>
   (\<forall>key digest. 2 * pb_f (pbft_init 0 1 True) \<le> card (matching (pb_prepares (pbft_init 0 1 True) key) digest))"
  by (simp add: pbft_propose_def pbft_handle_request_def pbft_init_def pbft_is_primary_def Let_def)

end
