(* ===== verification/Pbft_Memory.thy ===== *)
theory Pbft_Memory
  imports Pbft_Agreement
begin

text \<open>
  PBFT over \<open>InMemoryNetwork\<close> of \<open>byzantine-consensus/src/pbft/network.py\<close>, whose \<open>send\<close> and \<open>broadcast\<close> call
  \<open>receive\<close> of the other nodes before they return: a node is called again while a handler of its own
  stands at a broadcast. The handlers are cut at their broadcasts and run on a call stack. Agreement holds as
  long as a broadcast does not return to a node in another view or with another pre-prepare in the slot; a faulty
  node can see to it that it does, and then correct nodes disagree.
\<close>

section \<open>Handlers up to a broadcast\<close>

text \<open>What a handler still has to do when its broadcast returns.\<close>

datatype pbft_check = Check_Prepared slot string | Check_Committed slot string

definition prepared_segment :: "pbft_node \<Rightarrow> slot \<Rightarrow> string \<Rightarrow> pbft_node \<times> network_call list \<times> pbft_check list" where
  "prepared_segment n key digest =
     (if key \<in> pb_prepared_predicate n then (n, [], [])
      else if card (matching (pb_prepares n key) digest) \<ge> 2 * pb_f n
      then
        let commit = \<lparr>ph_sender = pb_node_id n, ph_view = pb_view n, ph_sequence_number = snd key, ph_digest = digest\<rparr>;
            n1 = n\<lparr>pb_prepared_predicate := insert key (pb_prepared_predicate n),
                   pb_commits := (pb_commits n)(key := insert (pb_node_id n, digest) (pb_commits n key))\<rparr>
        in (n1, pbft_broadcast n1 (Commit commit), [Check_Committed key digest])
      else (n, [], []))"

fun check_segment :: "pbft_node \<Rightarrow> pbft_check \<Rightarrow> pbft_node \<times> network_call list \<times> pbft_check list" where
  "check_segment n (Check_Prepared key digest) = prepared_segment n key digest"
| "check_segment n (Check_Committed key digest) = (pbft_check_committed n key digest, [], [])"

definition pre_prepare_segment :: "pbft_node \<Rightarrow> pre_prepare \<Rightarrow> pbft_node \<times> network_call list \<times> pbft_check list" where
  "pre_prepare_segment n msg =
     (if pp_view msg \<noteq> pb_view n then (n, [], [])
      else let key = (pp_view msg, pp_sequence_number msg)
        in if pb_pre_prepares n key \<noteq> None then (n, [], [])
           else
             let prepare = \<lparr>ph_sender = pb_node_id n, ph_view = pb_view n,
                   ph_sequence_number = pp_sequence_number msg, ph_digest = pp_digest msg\<rparr>;
                 n1 = n\<lparr>pb_pre_prepares := (pb_pre_prepares n)(key \<mapsto> msg),
                        pb_prepares := (pb_prepares n)(key := insert (pb_node_id n, pp_digest msg) (pb_prepares n key))\<rparr>
             in (n1, pbft_broadcast n1 (Prepare prepare), [Check_Prepared key (pp_digest msg)]))"

definition prepare_segment :: "pbft_node \<Rightarrow> phase_msg \<Rightarrow> pbft_node \<times> network_call list \<times> pbft_check list" where
  "prepare_segment n msg =
     (if ph_view msg \<noteq> pb_view n then (n, [], [])
      else
        let key = (ph_view msg, ph_sequence_number msg);
            n1 = n\<lparr>pb_prepares := (pb_prepares n)(key := insert (ph_sender msg, ph_digest msg) (pb_prepares n key))\<rparr>
        in case pb_pre_prepares n1 key of None \<Rightarrow> (n1, [], [])
           | Some pp \<Rightarrow>
               if ph_digest msg \<noteq> pp_digest pp then (n1, [], [])
               else prepared_segment n1 key (pp_digest pp))"

text \<open>The other handlers broadcast last, if at all.\<close>

fun receive_segment :: "(json \<Rightarrow> string) \<Rightarrow> pbft_node \<Rightarrow> pbft_msg \<Rightarrow> pbft_node \<times> network_call list \<times> pbft_check list" where
  "receive_segment digest_of n (Pre_Prepare m) = pre_prepare_segment n m"
| "receive_segment digest_of n (Prepare m) = prepare_segment n m"
| "receive_segment digest_of n m = (case pbft_receive digest_of n m of (n', calls) \<Rightarrow> (n', calls, []))"

text \<open>If nothing happens during the broadcasts, the segments make the handler.\<close>

function run_segments :: "pbft_node \<times> network_call list \<times> pbft_check list \<Rightarrow> pbft_node \<times> network_call list" where
  "run_segments (n, calls, []) = (n, calls)"
| "run_segments (n, calls, c # cs) =
     (let (n', calls', cs') = check_segment n c in run_segments (n', calls @ calls', cs' @ cs))"
  by pat_completeness auto

fun check_weight :: "pbft_check \<Rightarrow> nat" where
  "check_weight (Check_Prepared key d) = 2"
| "check_weight (Check_Committed key d) = 1"

lemma check_segment_weight:
  assumes "check_segment n c = (n', calls, cs)"
  shows "sum_list (map check_weight cs) < check_weight c"
  using assms by (cases c) (auto simp: prepared_segment_def Let_def split: if_splits)

termination run_segments
  by (relation "measure (\<lambda>(n, calls, cs). sum_list (map check_weight cs))") (auto dest: check_segment_weight [OF sym])

lemma run_prepared_segment:
  "run_segments (prepared_segment n key d) = pbft_check_prepared n key d"
  by (simp add: prepared_segment_def pbft_check_prepared_def Let_def)

theorem segments_make_handler: "run_segments (receive_segment digest_of n m) = pbft_receive digest_of n m"
proof (cases m)
  case (Pre_Prepare p)
  have "run_segments (n', calls, [Check_Prepared key d]) =
      (case pbft_check_prepared n' key d of (n2, out) \<Rightarrow> (n2, calls @ out))" for n' calls key d
    by (simp add: prepared_segment_def pbft_check_prepared_def Let_def)
  then show ?thesis using Pre_Prepare by (simp add: pre_prepare_segment_def pbft_handle_pre_prepare_def Let_def)
next
  case (Prepare p)
  then show ?thesis
    by (simp add: prepare_segment_def pbft_handle_prepare_def Let_def run_prepared_segment split: option.split)
qed (simp_all split: prod.split)

section \<open>The call stack\<close>

text \<open>\<open>Call i m\<close>: \<open>receive(m)\<close> of node \<open>i\<close> is to be called.\<close>

datatype frame = Call nat pbft_msg | Resume nat pbft_check

record memory_state =
  mm_nodes :: "nat \<Rightarrow> pbft_node"
  mm_stack :: "frame list"

definition memory_calls :: "nat \<Rightarrow> nat \<Rightarrow> network_call list \<Rightarrow> frame list" where
  "memory_calls n source calls =
     concat (map (\<lambda>c. case c of
         Broadcast m \<Rightarrow> map (\<lambda>i. Call i m) (filter (\<lambda>i. i \<noteq> source) [0..<n])
       | Send m destination \<Rightarrow> (if destination < n then [Call destination m] else [])) calls)"

definition memory_put ::
  "nat \<Rightarrow> memory_state \<Rightarrow> nat \<Rightarrow> pbft_node \<times> network_call list \<times> pbft_check list \<Rightarrow> frame list \<Rightarrow> memory_state" where
  "memory_put n s i seg rest =
     (let (node, calls, checks) = seg
      in \<lparr>mm_nodes = (mm_nodes s)(i := node), mm_stack = memory_calls n i calls @ map (Resume i) checks @ rest\<rparr>)"

definition memory_init :: "nat \<Rightarrow> memory_state" where
  "memory_init n = \<lparr>mm_nodes = (\<lambda>i. pbft_init i n True), mm_stack = []\<rparr>"

text \<open>The calls of a faulty node, of any nodes with any messages; with \<open>auth\<close>, under its own number.\<close>

definition faulty_put :: "memory_state \<Rightarrow> (nat \<times> pbft_msg) list \<Rightarrow> frame list \<Rightarrow> memory_state" where
  "faulty_put s ms rest = s\<lparr>mm_stack := map (\<lambda>(i, m). Call i m) ms @ rest\<rparr>"

text \<open>The broadcast has returned to a node of the same view, or the slot has the same pre-prepare.\<close>

fun still_valid :: "pbft_node \<Rightarrow> pbft_check \<Rightarrow> bool" where
  "still_valid n (Check_Prepared key digest) = (fst key = pb_view n)"
| "still_valid n (Check_Committed key digest) =
     (case pb_pre_prepares n key of None \<Rightarrow> False | Some pp \<Rightarrow> pp_digest pp = digest)"

inductive memory_reachable :: "(json \<Rightarrow> string) \<Rightarrow> nat \<Rightarrow> nat set \<Rightarrow> bool \<Rightarrow> bool \<Rightarrow> memory_state \<Rightarrow> bool"
  for digest_of n F auth calm where
  mr_start: "memory_reachable digest_of n F auth calm (memory_init n)"
| mr_propose: "memory_reachable digest_of n F auth calm s \<Longrightarrow> mm_stack s = [] \<Longrightarrow> i < n \<Longrightarrow> i \<notin> F \<Longrightarrow>
    pbft_propose digest_of (mm_nodes s i) operation micros client_text = (node, calls) \<Longrightarrow>
    memory_reachable digest_of n F auth calm (memory_put n s i (node, calls, []) [])"
| mr_trigger: "memory_reachable digest_of n F auth calm s \<Longrightarrow> mm_stack s = [] \<Longrightarrow> i < n \<Longrightarrow> i \<notin> F \<Longrightarrow>
    pbft_trigger_view_change (mm_nodes s i) = (node, calls) \<Longrightarrow>
    memory_reachable digest_of n F auth calm (memory_put n s i (node, calls, []) [])"
| mr_faulty: "memory_reachable digest_of n F auth calm s \<Longrightarrow> mm_stack s = [] \<Longrightarrow>
    list_all (\<lambda>(i, m). i < n \<and> (auth \<longrightarrow> msg_sender m \<in> F)) ms \<Longrightarrow> F \<noteq> {} \<Longrightarrow>
    memory_reachable digest_of n F auth calm (faulty_put s ms [])"
| mr_faulty_called: "memory_reachable digest_of n F auth calm s \<Longrightarrow> mm_stack s = Call i m # rest \<Longrightarrow> i \<in> F \<Longrightarrow>
    list_all (\<lambda>(i, m). i < n \<and> (auth \<longrightarrow> msg_sender m \<in> F)) ms \<Longrightarrow>
    memory_reachable digest_of n F auth calm (faulty_put s ms rest)"
| mr_call: "memory_reachable digest_of n F auth calm s \<Longrightarrow> mm_stack s = Call i m # rest \<Longrightarrow> i < n \<Longrightarrow> i \<notin> F \<Longrightarrow>
    memory_reachable digest_of n F auth calm (memory_put n s i (receive_segment digest_of (mm_nodes s i) m) rest)"
| mr_resume: "memory_reachable digest_of n F auth calm s \<Longrightarrow> mm_stack s = Resume i c # rest \<Longrightarrow> i < n \<Longrightarrow> i \<notin> F \<Longrightarrow>
    (calm \<longrightarrow> still_valid (mm_nodes s i) c) \<Longrightarrow>
    memory_reachable digest_of n F auth calm (memory_put n s i (check_segment (mm_nodes s i) c) rest)"

section \<open>Agreement\<close>

definition segment_result :: "pbft_node \<times> network_call list \<times> pbft_check list \<Rightarrow> pbft_node \<times> network_call list" where
  "segment_result seg = (fst seg, fst (snd seg))"

lemma prepared_segment_step:
  assumes "fst key = pb_view n"
  shows "commit_step n (segment_result (prepared_segment n key d)) A"
proof (cases "key \<in> pb_prepared_predicate n \<or> \<not> card (matching (pb_prepares n key) d) \<ge> 2 * pb_f n")
  case True
  then show ?thesis by (auto simp: segment_result_def prepared_segment_def same_commits_def intro: same_commits_step)
next
  case False
  let ?n1 = "n\<lparr>pb_prepared_predicate := insert key (pb_prepared_predicate n),
     pb_commits := (pb_commits n)(key := insert (pb_node_id n, d) (pb_commits n key))\<rparr>"
  have res: "segment_result (prepared_segment n key d) = (?n1, pbft_broadcast ?n1 (Commit \<lparr>ph_sender = pb_node_id n,
      ph_view = pb_view n, ph_sequence_number = snd key, ph_digest = d\<rparr>))"
    using False by (simp add: segment_result_def prepared_segment_def Let_def)
  have "(pb_view n, snd key) = key" using assms by (simp add: prod_eq_iff)
  moreover have "node_ok n \<longrightarrow> node_ok ?n1" using own_vote_ok [of n key d] False by blast
  ultimately show ?thesis unfolding res by (auto simp: commit_step_def own_commits_def split: if_splits)
qed

lemma check_segment_step:
  assumes "still_valid n c"
  shows "commit_step n (segment_result (check_segment n c)) A"
proof (cases c)
  case (Check_Prepared key d)
  then show ?thesis using assms prepared_segment_step by simp
next
  case (Check_Committed key d)
  then show ?thesis using assms check_committed_step(1) [of n key d A] by (simp add: segment_result_def split: option.splits)
qed

lemma receive_segment_step:
  assumes "\<forall>c. m = Commit c \<longrightarrow> ph_sender c = pb_node_id n \<longrightarrow>
    (ph_sender c, ph_digest c) \<in> pb_commits n (ph_view c, ph_sequence_number c)"
  shows "commit_step n (segment_result (receive_segment dg n m)) (brought_in m)"
proof (cases m)
  case (Pre_Prepare p)
  show ?thesis unfolding Pre_Prepare
    by (auto simp: pre_prepare_segment_def segment_result_def Let_def same_commits_def intro!: same_commits_step)
next
  case (Prepare p)
  let ?key = "(ph_view p, ph_sequence_number p)"
  let ?n = "n\<lparr>pb_prepares := (pb_prepares n)(?key := insert (ph_sender p, ph_digest p) (pb_prepares n ?key))\<rparr>"
  have same: "same_commits n n" "same_commits n ?n" by (simp_all add: same_commits_def)
  then have unchanged: "commit_step n (n, []) (brought_in m)" "commit_step n (?n, []) (brought_in m)" by (auto intro: same_commits_step)
  have "commit_step n (segment_result (prepared_segment ?n ?key d)) (brought_in m)" if "ph_view p = pb_view n" for d
    by (rule step_after_same [OF same(2) prepared_segment_step]) (use that in simp)
  moreover have "prepare_segment n p \<in> {(n, [], []), (?n, [], [])} \<or>
      ph_view p = pb_view n \<and> prepare_segment n p = prepared_segment ?n ?key (ph_digest p)"
    by (auto simp: prepare_segment_def Let_def split: option.split)
  ultimately show ?thesis using unchanged unfolding Prepare receive_segment.simps
    by (elim disjE insertE emptyE conjE) (simp_all add: segment_result_def)
qed (use receive_step [OF assms, of dg] in \<open>simp_all add: segment_result_def case_prod_unfold\<close>)

text \<open>The nodes, with some set of messages that holds those still to be delivered, are a system of \<open>Pbft_Agreement\<close>.\<close>

definition memory_abs :: "memory_state \<Rightarrow> pbft_msg set \<Rightarrow> pbft_system" where
  "memory_abs s sent = \<lparr>ps_nodes = mm_nodes s, ps_pool = sent, ps_arrived = []\<rparr>"

definition memory_inv :: "nat \<Rightarrow> nat set \<Rightarrow> memory_state \<Rightarrow> bool" where
  "memory_inv n F s \<longleftrightarrow> (\<exists>sent. pbft_inv n F (memory_abs s sent) \<and> (\<forall>i m. Call i m \<in> set (mm_stack s) \<longrightarrow> m \<in> sent))"

lemma memory_put_abs:
  "memory_abs (memory_put n s i seg rest) (sent \<union> called_messages (snd (segment_result seg))) = pbft_put (memory_abs s sent) i (segment_result seg)"
  by (simp add: memory_abs_def memory_put_def pbft_put_def segment_result_def case_prod_unfold Let_def)

lemma memory_calls_sent:
  assumes "Call j m \<in> set (memory_calls n i calls)"
  shows "m \<in> called_messages calls"
proof -
  obtain c where c: "c \<in> set calls" "Call j m \<in> set (memory_calls n i [c])"
    using assms by (auto simp: memory_calls_def)
  from c(2) have "(case c of Broadcast m \<Rightarrow> m | Send m d \<Rightarrow> m) = m" by (cases c) (auto simp: memory_calls_def split: if_splits)
  with c(1) show ?thesis by (force simp: called_messages_def)
qed

lemma memory_put_inv:
  assumes inv: "memory_inv n F s" and i: "i < n" "i \<notin> F" and rest: "set rest \<subseteq> set (mm_stack s)"
    and step: "\<And>sent. pbft_inv n F (memory_abs s sent) \<Longrightarrow> (\<forall>i m. Call i m \<in> set (mm_stack s) \<longrightarrow> m \<in> sent) \<Longrightarrow>
      \<exists>A\<subseteq>pool_commits (memory_abs s sent). commit_step (mm_nodes s i) (segment_result seg) A"
  shows "memory_inv n F (memory_put n s i seg rest)"
proof -
  obtain sent where sent: "pbft_inv n F (memory_abs s sent)" "\<forall>i m. Call i m \<in> set (mm_stack s) \<longrightarrow> m \<in> sent"
    using inv by (auto simp: memory_inv_def)
  obtain A where A: "A \<subseteq> pool_commits (memory_abs s sent)" "commit_step (ps_nodes (memory_abs s sent) i) (segment_result seg) A"
    using step [OF sent] by (auto simp: memory_abs_def)
  have "pbft_inv n F (memory_abs (memory_put n s i seg rest) (sent \<union> called_messages (snd (segment_result seg))))"
    unfolding memory_put_abs by (rule pbft_put_inv [OF sent(1) i A(2,1)])
  moreover have "m \<in> sent \<union> called_messages (snd (segment_result seg))"
    if "Call j m \<in> set (mm_stack (memory_put n s i seg rest))" for j m
    using that sent(2) rest memory_calls_sent [of j m n i "fst (snd seg)"]
    by (auto simp: memory_put_def case_prod_unfold Let_def segment_result_def)
  ultimately show ?thesis unfolding memory_inv_def by blast
qed

lemma faulty_put_inv:
  assumes inv: "memory_inv n F s" and ms: "list_all (\<lambda>(i, m). i < n \<and> msg_sender m \<in> F) ms" and rest: "set rest \<subseteq> set (mm_stack s)"
  shows "memory_inv n F (faulty_put s ms rest)"
proof -
  obtain sent where sent: "pbft_inv n F (memory_abs s sent)" "\<forall>i m. Call i m \<in> set (mm_stack s) \<longrightarrow> m \<in> sent"
    using inv by (auto simp: memory_inv_def)
  have "pbft_inv n F (a\<lparr>ps_pool := ps_pool a \<union> set (map snd ms)\<rparr>)" if "pbft_inv n F a" for a
    using ms that
  proof (induction ms arbitrary: a)
    case (Cons q ms)
    have "msg_sender (snd q) \<in> F" using Cons.prems(1) by auto
    from Cons.IH [OF _ faulty_inv [OF Cons.prems(2) this]] Cons.prems(1) show ?case by simp
  qed simp
  from this [OF sent(1)] have "pbft_inv n F (memory_abs (faulty_put s ms rest) (sent \<union> set (map snd ms)))"
    by (simp add: memory_abs_def faulty_put_def)
  moreover have "m \<in> sent \<union> set (map snd ms)" if "Call j m \<in> set (mm_stack (faulty_put s ms rest))" for j m
    using that sent(2) rest by (force simp: faulty_put_def)
  ultimately show ?thesis unfolding memory_inv_def by blast
qed

lemma memory_reachable_inv: "memory_reachable dg n F True True s \<Longrightarrow> memory_inv n F s"
proof (induction rule: memory_reachable.induct)
  case mr_start
  have "pbft_inv n F (memory_abs (memory_init n) {})"
    using pbft_boot_inv [of n F] by (simp add: memory_abs_def memory_init_def pbft_boot_def)
  then show ?case by (auto simp: memory_inv_def memory_init_def)
next
  case (mr_propose s i operation micros client_text node calls)
  then show ?case
    using propose_step [of "mm_nodes s i" dg operation micros client_text "{}"]
    by (intro memory_put_inv exI [of _ "{}"]) (simp_all add: segment_result_def)
next
  case (mr_trigger s i node calls)
  then show ?case
    using view_change_steps(3) [of "mm_nodes s i" "{}"]
    by (intro memory_put_inv exI [of _ "{}"]) (simp_all add: segment_result_def)
next
  case (mr_faulty s ms)
  then show ?case by (intro faulty_put_inv) simp_all
next
  case (mr_faulty_called s i m rest ms)
  then show ?case by (intro faulty_put_inv) auto
next
  case (mr_call s i m rest)
  show ?case
  proof (rule memory_put_inv [OF mr_call.IH mr_call.hyps(3,4)])
    fix sent assume abs: "pbft_inv n F (memory_abs s sent)" and calls: "\<forall>i m. Call i m \<in> set (mm_stack s) \<longrightarrow> m \<in> sent"
    have m: "m \<in> ps_pool (memory_abs s sent)" using calls mr_call.hyps(2) by (auto simp: memory_abs_def)
    have id: "pb_node_id (mm_nodes s i) = i" using abs mr_call.hyps(3,4) by (simp add: pbft_inv_def memory_abs_def)
    have "brought_in m \<subseteq> pool_commits (memory_abs s sent)" using m by (auto simp: pool_commits_def)
    moreover have "commit_step (mm_nodes s i) (segment_result (receive_segment dg (mm_nodes s i) m)) (brought_in m)"
      using own_commit_known [OF abs mr_call.hyps(3,4) m] id by (intro receive_segment_step) (auto simp: memory_abs_def)
    ultimately show "\<exists>A\<subseteq>pool_commits (memory_abs s sent).
        commit_step (mm_nodes s i) (segment_result (receive_segment dg (mm_nodes s i) m)) A" by blast
  qed (use mr_call.hyps(2) in auto)
next
  case (mr_resume s i c rest)
  then show ?case by (intro memory_put_inv exI [of _ "{}"]) (auto intro: check_segment_step)
qed

text \<open>
  C13. Agreement over the in-memory network: with at most f faulty nodes out of 3f + 1, two correct nodes never
  execute pre-prepares of different digests in one slot, although \<open>broadcast\<close> calls back into handlers that are
  still running, as long as faulty nodes send only under their own numbers (which this network, too, does not
  enforce) and a broadcast returns to a node that is still in the view of the slot and still has the pre-prepare
  it committed to.
\<close>

theorem pbft_memory_agreement:
  assumes "memory_reachable digest_of (3 * f + 1) F True True s" and "F \<subseteq> {..<3 * f + 1}" and "card F \<le> f"
    and "i < 3 * f + 1" and "i \<notin> F" and "(key, pp) \<in> set (pb_executed (mm_nodes s i))"
    and "j < 3 * f + 1" and "j \<notin> F" and "(key, pp') \<in> set (pb_executed (mm_nodes s j))"
  shows "pp_digest pp = pp_digest pp'"
proof -
  obtain sent where "pbft_inv (3 * f + 1) F (memory_abs s sent)"
    using memory_reachable_inv [OF assms(1)] by (auto simp: memory_inv_def)
  from inv_agreement [OF this assms(2-5)] show ?thesis using assms(6-9) by (simp add: memory_abs_def)
qed

section \<open>Running it\<close>

text \<open>
  One step of the machine. \<open>script\<close> says what the faulty nodes call when they are called, time after time; with
  \<open>calm\<close> the machine stops where a broadcast returns to a changed node.
\<close>

fun memory_step ::
  "(json \<Rightarrow> string) \<Rightarrow> nat \<Rightarrow> nat list \<Rightarrow> bool \<Rightarrow> bool \<Rightarrow> memory_state \<times> (nat \<times> pbft_msg) list list
    \<Rightarrow> memory_state \<times> (nat \<times> pbft_msg) list list" where
  "memory_step dg n F auth calm (s, script) =
     (case mm_stack s of
        [] \<Rightarrow> (s, script)
      | Call i m # rest \<Rightarrow>
          if i \<in> set F then
            (case script of [] \<Rightarrow> (faulty_put s [] rest, [])
             | ms # script' \<Rightarrow> (faulty_put s (filter (\<lambda>(i, m). i < n \<and> (auth \<longrightarrow> msg_sender m \<in> set F)) ms) rest, script'))
          else if i < n then (memory_put n s i (receive_segment dg (mm_nodes s i) m) rest, script)
          else (s, script)
      | Resume i c # rest \<Rightarrow>
          if i < n \<and> i \<notin> set F \<and> (calm \<longrightarrow> still_valid (mm_nodes s i) c)
          then (memory_put n s i (check_segment (mm_nodes s i) c) rest, script)
          else (s, script))"

datatype memory_call = M_Propose nat json nat | M_Faulty "(nat \<times> pbft_msg) list"

fun memory_event :: "(json \<Rightarrow> string) \<Rightarrow> nat \<Rightarrow> nat list \<Rightarrow> bool \<Rightarrow> memory_state \<Rightarrow> memory_call \<Rightarrow> memory_state" where
  "memory_event dg n F auth s (M_Propose i operation micros) =
     (if mm_stack s = [] \<and> i < n \<and> i \<notin> set F
      then case pbft_propose dg (mm_nodes s i) operation micros ''c'' of (node, calls) \<Rightarrow> memory_put n s i (node, calls, []) []
      else s)"
| "memory_event dg n F auth s (M_Faulty ms) =
     (if mm_stack s = [] \<and> F \<noteq> [] then faulty_put s (filter (\<lambda>(i, m). i < n \<and> (auth \<longrightarrow> msg_sender m \<in> set F)) ms) [] else s)"

definition memory_run ::
  "(json \<Rightarrow> string) \<Rightarrow> nat \<Rightarrow> nat list \<Rightarrow> bool \<Rightarrow> bool \<Rightarrow> nat \<Rightarrow> (memory_call \<times> (nat \<times> pbft_msg) list list) list \<Rightarrow> memory_state" where
  "memory_run dg n F auth calm fuel es =
     foldl (\<lambda>s (e, script). fst ((memory_step dg n F auth calm ^^ fuel) (memory_event dg n F auth s e, script))) (memory_init n) es"

lemma filter_faulty: "list_all P (filter P xs)"
  by (simp add: list_all_iff)

lemma memory_step_reachable:
  assumes "memory_reachable dg n (set F) auth calm s"
  shows "memory_reachable dg n (set F) auth calm (fst (memory_step dg n F auth calm (s, script)))"
proof (cases "mm_stack s")
  case (Cons fr rest)
  show ?thesis
  proof (cases fr)
    case (Call i m)
    then show ?thesis
      using Cons assms mr_call [OF assms, of i m rest] mr_faulty_called [OF assms, of i m rest, OF _ _ filter_faulty]
        mr_faulty_called [OF assms, of i m rest "[]"]
      by (cases script) auto
  next
    case (Resume i c)
    then show ?thesis using Cons assms mr_resume [OF assms, of i c rest] by auto
  qed
qed (use assms in simp)

lemma memory_event_reachable:
  "memory_reachable dg n (set F) auth calm s \<Longrightarrow> memory_reachable dg n (set F) auth calm (memory_event dg n F auth s e)"
  by (cases e) (auto intro: mr_propose mr_faulty [OF _ _ filter_faulty] split: prod.split)

lemma memory_run_reachable: "memory_reachable dg n (set F) auth calm (memory_run dg n F auth calm fuel es)"
proof -
  have steps: "memory_reachable dg n (set F) auth calm (fst ((memory_step dg n F auth calm ^^ k) (s, script)))"
    if "memory_reachable dg n (set F) auth calm s" for s script k
  proof (induction k)
    case (Suc k)
    obtain s' script' where "(memory_step dg n F auth calm ^^ k) (s, script) = (s', script')" by fastforce
    with Suc memory_step_reachable [of dg n F auth calm s' script'] show ?case by simp
  qed (use that in simp)
  have "memory_reachable dg n (set F) auth calm
      (foldl (\<lambda>s (e, script). fst ((memory_step dg n F auth calm ^^ fuel) (memory_event dg n F auth s e, script))) s es)"
    if "memory_reachable dg n (set F) auth calm s" for s
    using that
  proof (induction es arbitrary: s)
    case (Cons e es)
    show ?case using Cons.IH [OF steps [OF memory_event_reachable [OF Cons.prems]]] by (simp add: case_prod_unfold)
  qed simp
  then show ?thesis by (simp add: memory_run_def mr_start)
qed

text \<open>The program of \<open>quick_start.py\<close>: one proposal to four nodes.\<close>

definition quick_start :: memory_state where
  "quick_start = memory_run (\<lambda>_. ''d'') 4 [] True True 60 [(M_Propose 0 (JStr ''execute_transaction'') 7, [])]"

theorem quick_start_commits:
  "mm_stack quick_start = [] \<and> list_all (\<lambda>i. map fst (pb_executed (mm_nodes quick_start i)) = [(0, 1)]) [0, 1, 2, 3] \<and>
   map_option rs_committed (pb_client_requests (mm_nodes quick_start 0) 7) = Some True"
  by code_simp

theorem pbft_memory_agreement_witness:
  "\<exists>pp pp'. memory_reachable (\<lambda>_. ''d'') (3 * 1 + 1) {} True True quick_start \<and>
     ((0, 1), pp) \<in> set (pb_executed (mm_nodes quick_start 1)) \<and>
     ((0, 1), pp') \<in> set (pb_executed (mm_nodes quick_start 2)) \<and> pp_digest pp = pp_digest pp'"
proof -
  have run: "memory_reachable (\<lambda>_. ''d'') (3 * 1 + 1) {} True True quick_start"
    using memory_run_reachable [of "\<lambda>_. ''d''" 4 "[]" True True] unfolding quick_start_def by simp
  have "map fst (pb_executed (mm_nodes quick_start 1)) = [(0, 1)]" "map fst (pb_executed (mm_nodes quick_start 2)) = [(0, 1)]"
    by code_simp+
  then obtain pp pp' where both: "((0, 1), pp) \<in> set (pb_executed (mm_nodes quick_start 1))"
      "((0, 1), pp') \<in> set (pb_executed (mm_nodes quick_start 2))" by auto
  have "pp_digest pp = pp_digest pp'"
    by (rule pbft_memory_agreement [OF run _ _ _ _ both(1) _ _ both(2)]) simp_all
  with run both show ?thesis by blast
qed

text \<open>
  A broadcast that returns to another view. Node 0 is faulty. It moves nodes 1 and 2 to view 4, of which it is the
  primary, and has node 3 pre-prepare \<open>d\<close> in view 0. While node 3 broadcasts its prepare, node 0 calls it with
  a new view 4; the broadcast returns, node 3 finds itself prepared and broadcasts a commit to \<open>d\<close> in the slot
  of view 4, of which it knows nothing. Node 2 counts it. Then nodes 1 and 3 prepare and commit \<open>e\<close> in that slot.
\<close>

definition faulty_pp :: "nat \<Rightarrow> string \<Rightarrow> pbft_msg" where
  "faulty_pp view d = Pre_Prepare \<lparr>pp_sender = 0, pp_view = view, pp_sequence_number = 1, pp_digest = d, pp_request = None\<rparr>"

definition faulty_vote :: "nat \<Rightarrow> string \<Rightarrow> phase_msg" where
  "faulty_vote view d = \<lparr>ph_sender = 0, ph_view = view, ph_sequence_number = 1, ph_digest = d\<rparr>"

definition faulty_view :: pbft_msg where
  "faulty_view = New_View \<lparr>nv_sender = 0, nv_view = 4, nv_view_change_messages = [], nv_pre_prepares = []\<rparr>"

definition view_overtaken :: "bool \<Rightarrow> memory_state" where
  "view_overtaken calm = memory_run (\<lambda>_. ''d'') 4 [0] True calm 60
     [(M_Faulty [(1, faulty_view), (2, faulty_view), (3, Prepare (faulty_vote 0 ''d'')), (3, faulty_pp 0 ''d'')], [[(3, faulty_view)]]),
      (M_Faulty [(2, Prepare (faulty_vote 4 ''d'')), (2, Commit (faulty_vote 4 ''d'')), (2, faulty_pp 4 ''d'')], []),
      (M_Faulty [(1, faulty_pp 4 ''e''), (3, faulty_pp 4 ''e''), (1, Commit (faulty_vote 4 ''e''))], [])]"

text \<open>
  Without that condition agreement fails: over the in-memory network one faulty node of four, which answers a
  broadcast with a new view, brings two correct nodes to execute different digests in one slot.
\<close>

theorem pbft_reentrant_disagree:
  "\<exists>pp pp'. memory_reachable (\<lambda>_. ''d'') 4 {0} True False (view_overtaken False) \<and>
     ((4, 1), pp) \<in> set (pb_executed (mm_nodes (view_overtaken False) 1)) \<and>
     ((4, 1), pp') \<in> set (pb_executed (mm_nodes (view_overtaken False) 2)) \<and> pp_digest pp \<noteq> pp_digest pp'"
proof -
  have "memory_reachable (\<lambda>_. ''d'') 4 {0} True False (view_overtaken False)"
    using memory_run_reachable [of "\<lambda>_. ''d''" 4 "[0]" True False] unfolding view_overtaken_def by simp
  moreover have "map (\<lambda>(key, pp). (key, pp_digest pp)) (pb_executed (mm_nodes (view_overtaken False) 1)) = [((4, 1), ''e'')]"
    "map (\<lambda>(key, pp). (key, pp_digest pp)) (pb_executed (mm_nodes (view_overtaken False) 2)) = [((4, 1), ''d'')]"
    by code_simp+
  ultimately show ?thesis by (auto simp: map_eq_Cons_conv)
qed

end
