(* ===== verification/Pbft_Wire.thy ===== *)
theory Pbft_Wire
  imports Pbft "HOL-Library.Multiset"
begin

text \<open>
  PBFT messages as JSON, the rest of \<open>byzantine-consensus/src/pbft/messages.py\<close> and the first lines of
  \<open>PBFTNode.receive\<close>: the dataclasses as their constructors see them, \<open>to_json\<close> and \<open>from_dict\<close> with every
  exception, and a node that is handed the dict instead of the message.
\<close>

section \<open>Documents with sorted keys\<close>

text \<open>\<open>json.dumps(data, sort_keys=True)\<close> prints the keys of every object in order.\<close>

primrec sort_json :: "json \<Rightarrow> json" where
  "sort_json JNull = JNull"
| "sort_json (JBool b) = JBool b"
| "sort_json (JInt i) = JInt i"
| "sort_json (JNum x) = JNum x"
| "sort_json (JStr s) = JStr s"
| "sort_json (JList xs) = JList (map sort_json xs)"
| "sort_json (JObj obj) = JObj (sort_key fst (map (map_prod id sort_json) obj))"

lemma map_insort_values: "map (map_prod id f) (insort_key fst x xs) = insort_key fst (map_prod id f x) (map (map_prod id f) xs)"
  by (induction xs) auto

lemma map_sort_values: "map (map_prod id f) (sort_key fst xs) = sort_key fst (map (map_prod id f) xs)"
  by (induction xs) (simp_all only: list.map sort_key_simps map_insort_values)

lemma sort_key_again [simp]: "sort_key f (sort_key f xs) = sort_key f xs"
  by (simp add: sort_key_id_if_sorted)

lemma sort_json_again [simp]: "sort_json (sort_json j) = sort_json j"
proof (induction j)
  case (JObj obj)
  have "map (map_prod id sort_json \<circ> map_prod id sort_json) obj = map (map_prod id sort_json) obj"
    using JObj by (fastforce simp: map_prod_def)
  then show ?case by (simp only: sort_json.simps map_sort_values sort_key_again map_map)
qed simp_all

lemma map_of_sort_key [simp]:
  assumes "dict_wf d"
  shows "map_of (sort_key fst d) = map_of d"
proof -
  have "mset (map fst (sort_key fst d)) = mset (map fst d)" by simp
  then have "dict_wf (sort_key fst d)" using assms mset_eq_imp_distinct_iff by blast
  then show ?thesis using assms by (intro map_of_inject_set [THEN iffD2]) (simp_all add: map_of_inject_set)
qed

section \<open>The dataclasses\<close>

datatype message_type = REQUEST | PRE_PREPARE | PREPARE | COMMIT | REPLY | VIEW_CHANGE | NEW_VIEW | CHECKPOINT

fun message_type_value :: "message_type \<Rightarrow> string" where
  "message_type_value REQUEST = ''REQUEST''"
| "message_type_value PRE_PREPARE = ''PRE_PREPARE''"
| "message_type_value PREPARE = ''PREPARE''"
| "message_type_value COMMIT = ''COMMIT''"
| "message_type_value REPLY = ''REPLY''"
| "message_type_value VIEW_CHANGE = ''VIEW_CHANGE''"
| "message_type_value NEW_VIEW = ''NEW_VIEW''"
| "message_type_value CHECKPOINT = ''CHECKPOINT''"

definition message_types :: "message_type list" where
  "message_types = [REQUEST, PRE_PREPARE, PREPARE, COMMIT, REPLY, VIEW_CHANGE, NEW_VIEW, CHECKPOINT]"

text \<open>\<open>MessageType(value)\<close>.\<close>

definition message_type_of :: "json \<Rightarrow> message_type result" where
  "message_type_of j =
     (case find (\<lambda>t. j = JStr (message_type_value t)) message_types of None \<Rightarrow> Inl ValueError | Some t \<Rightarrow> Inr t)"

text \<open>
  The fields of each class beside \<open>msg_type\<close>, with their defaults; \<open>now\<close> is \<open>time.time()\<close>. An instance keeps
  whatever values it is given; \<open>__post_init__\<close>, or \<open>from_dict\<close> for the base class, sets the type.
\<close>

fun own_fields :: "message_type \<Rightarrow> (string \<times> json option) list" where
  "own_fields REQUEST = [(''client_id'', Some (JStr [])), (''operation'', Some JNull), (''request_id'', Some (JInt 0))]"
| "own_fields PRE_PREPARE = [(''sequence_number'', Some (JInt 0)), (''digest'', Some (JStr [])), (''request'', Some JNull)]"
| "own_fields PREPARE = [(''sequence_number'', Some (JInt 0)), (''digest'', Some (JStr []))]"
| "own_fields COMMIT = [(''sequence_number'', Some (JInt 0)), (''digest'', Some (JStr []))]"
| "own_fields REPLY = [(''client_id'', Some (JStr [])), (''request_id'', Some (JInt 0)), (''result'', Some JNull)]"
| "own_fields VIEW_CHANGE = [(''checkpoint_seq'', Some (JInt 0)), (''prepared_proofs'', Some (JList []))]"
| "own_fields NEW_VIEW = [(''view_change_messages'', Some (JList [])), (''pre_prepares'', Some (JList []))]"
| "own_fields CHECKPOINT = []"

definition message_fields :: "time \<Rightarrow> message_type \<Rightarrow> (string \<times> json option) list" where
  "message_fields now t = (''sender'', None) # (''view'', None) # (''timestamp'', Some (JNum now)) # own_fields t"

record message =
  pm_type :: message_type
  pm_fields :: "(string, json) dict"

text \<open>The call of a constructor with keyword arguments.\<close>

fun fill_fields :: "(string \<times> json option) list \<Rightarrow> (string, json) dict \<Rightarrow> (string, json) dict result" where
  "fill_fields [] data = Inr []"
| "fill_fields ((f, dflt) # fs) data =
     (case (map_of data f, dflt) of
        (None, None) \<Rightarrow> Inl TypeError
      | (None, Some v) \<Rightarrow> bind_result (fill_fields fs data) (\<lambda>vs. Inr ((f, v) # vs))
      | (Some v, _) \<Rightarrow> bind_result (fill_fields fs data) (\<lambda>vs. Inr ((f, v) # vs)))"

definition construct :: "(string \<times> json option) list \<Rightarrow> (string, json) dict \<Rightarrow> (string, json) dict result" where
  "construct fs data = (if list_ex (\<lambda>k. k \<notin> set (map fst fs)) (map fst data) then Inl TypeError else fill_fields fs data)"

definition message_from_dict :: "time \<Rightarrow> (string, json) dict \<Rightarrow> message result" where
  "message_from_dict now data =
     (case map_of data ''msg_type'' of
        None \<Rightarrow> Inl ValueError
      | Some v \<Rightarrow> bind_result (message_type_of v) (\<lambda>t.
          bind_result (construct (message_fields now t) (dict_del ''msg_type'' data)) (\<lambda>fs.
            Inr \<lparr>pm_type = t, pm_fields = fs\<rparr>)))"

text \<open>
  \<open>asdict\<close> lists the fields in the order of their declaration, \<open>msg_type\<close> the third; \<open>to_json\<close> prints them
  in the order of their names.
\<close>

definition message_asdict :: "message \<Rightarrow> (string, json) dict" where
  "message_asdict m =
     take 2 (pm_fields m) @ (''msg_type'', JStr (message_type_value (pm_type m))) # drop 2 (pm_fields m)"

definition message_data :: "message \<Rightarrow> (string, json) dict" where
  "message_data m = sort_key fst (map (map_prod id sort_json) (message_asdict m))"

definition message_to_json :: "message \<Rightarrow> json" where
  "message_to_json m = JObj (message_data m)"

lemma message_to_json_sorts: "message_to_json m = sort_json (JObj (message_asdict m))"
  by (simp add: message_to_json_def message_data_def)

section \<open>Which dicts are messages\<close>

lemma message_type_value_inject [simp]: "message_type_value t = message_type_value t' \<longleftrightarrow> t = t'"
  by (cases t; cases t'; simp)

lemma message_type_of_value [simp]: "message_type_of (JStr (message_type_value t)) = Inr t"
  by (cases t) (simp_all add: message_type_of_def message_types_def)

lemma message_type_of_cases:
  "message_type_of j = Inr t \<longleftrightarrow> j = JStr (message_type_value t)"
  "message_type_of j = Inl e \<longleftrightarrow> e = ValueError \<and> (\<forall>t. j \<noteq> JStr (message_type_value t))"
proof -
  have every: "t \<in> set message_types" for t by (cases t) (simp_all add: message_types_def)
  show "message_type_of j = Inr t \<longleftrightarrow> j = JStr (message_type_value t)"
    using message_type_of_value [of t]
    by (fastforce simp: message_type_of_def find_Some_iff simp del: message_type_of_value split: option.splits)
  show "message_type_of j = Inl e \<longleftrightarrow> e = ValueError \<and> (\<forall>t. j \<noteq> JStr (message_type_value t))"
    using every by (auto simp: message_type_of_def find_None_iff find_Some_iff split: option.splits)
qed

lemma message_fields_distinct: "distinct (map fst (message_fields now t))"
  by (cases t) (simp_all add: message_fields_def)

lemma msg_type_not_field: "''msg_type'' \<notin> set (map fst (message_fields now t))"
  by (cases t) (simp_all add: message_fields_def)

text \<open>The value that a field gets.\<close>

definition given_or_default :: "(string \<times> json option) list \<Rightarrow> (string, json) dict \<Rightarrow> string \<Rightarrow> json option" where
  "given_or_default fs data k = (case map_of fs k of None \<Rightarrow> None | Some dflt \<Rightarrow> (case map_of data k of None \<Rightarrow> dflt | Some v \<Rightarrow> Some v))"

lemma fill_fields_iff:
  assumes "distinct (map fst fs)"
  shows "fill_fields fs data = Inr vs \<longleftrightarrow> map fst vs = map fst fs \<and> map_of vs = given_or_default fs data"
  using assms
proof (induction fs arbitrary: vs)
  case Nil
  show ?case by (auto simp: given_or_default_def)
next
  case (Cons p fs)
  obtain f dflt where p: "p = (f, dflt)" by fastforce
  let ?v = "case map_of data f of None \<Rightarrow> dflt | Some v \<Rightarrow> Some v"
  have fresh: "f \<notin> set (map fst fs)" "distinct (map fst fs)" using Cons.prems p by simp_all
  have given: "given_or_default (p # fs) data = (given_or_default fs data)(f := ?v)"
    by (rule ext) (simp add: given_or_default_def p)
  have none: "given_or_default fs data f = None"
    using fresh(1) by (simp add: given_or_default_def map_of_eq_None_iff [THEN iffD2])
  have fill: "fill_fields (p # fs) data = Inr vs \<longleftrightarrow> (\<exists>v vs'. vs = (f, v) # vs' \<and> ?v = Some v \<and> fill_fields fs data = Inr vs')"
    by (cases "fill_fields fs data") (auto simp: p split: option.splits)
  have upd: "map_of ((f, v) # vs') = (given_or_default fs data)(f := ?v) \<longleftrightarrow> ?v = Some v \<and> map_of vs' = given_or_default fs data"
    if "map fst vs' = map fst fs" for v vs'
  proof -
    have "map_of vs' f = None" using fresh(1) that by (simp add: map_of_eq_None_iff flip: set_map)
    then have "map_of vs' = (map_of vs')(f := None)" "given_or_default fs data = (given_or_default fs data)(f := None)"
      using none by (simp_all add: fun_upd_idem)
    then show ?thesis by (metis fun_upd_same fun_upd_upd map_of.simps(2) fst_conv snd_conv)
  qed
  show ?case
  proof (cases vs)
    case (Cons q vs')
    obtain g v where q: "q = (g, v)" by fastforce
    have "fill_fields (p # fs) data = Inr vs \<longleftrightarrow> g = f \<and> ?v = Some v \<and> fill_fields fs data = Inr vs'"
      unfolding fill unfolding Cons q by blast
    also have "\<dots> \<longleftrightarrow> g = f \<and> map fst vs' = map fst fs \<and> ?v = Some v \<and> map_of vs' = given_or_default fs data"
      using Cons.IH [OF fresh(2), of vs'] by blast
    also have "\<dots> \<longleftrightarrow> g = f \<and> map fst vs' = map fst fs \<and> map_of ((f, v) # vs') = (given_or_default fs data)(f := ?v)"
      using upd [of vs' v] by blast
    also have "\<dots> \<longleftrightarrow> map fst vs = map fst (p # fs) \<and> map_of vs = given_or_default (p # fs) data"
      unfolding given unfolding Cons q p by (auto simp del: map_of.simps)
    finally show ?thesis .
  next
    case Nil
    then show ?thesis using fill by auto
  qed
qed

lemma fill_fields_error: "fill_fields fs data = Inl e \<Longrightarrow> e = TypeError"
proof (induction fs)
  case (Cons p fs)
  then show ?case by (cases p; cases "fill_fields fs data") (auto split: option.splits)
qed simp

lemma fill_fields_returns: "(\<exists>vs. fill_fields fs data = Inr vs) \<longleftrightarrow> (\<forall>f. (f, None) \<in> set fs \<longrightarrow> f \<in> set (map fst data))"
proof (induction fs)
  case (Cons p fs)
  obtain f dflt where p: "p = (f, dflt)" by fastforce
  have given: "f \<in> set (map fst data) \<longleftrightarrow> map_of data f \<noteq> None" by (simp add: map_of_eq_None_iff)
  have "(\<exists>vs. fill_fields (p # fs) data = Inr vs) \<longleftrightarrow>
      (dflt = None \<longrightarrow> f \<in> set (map fst data)) \<and> (\<exists>vs. fill_fields fs data = Inr vs)"
    using given by (cases "fill_fields fs data"; cases "map_of data f") (auto simp: p split: option.splits)
  then show ?case using Cons by (auto simp: p)
qed simp

text \<open>A dict has the right keys if it names no foreign field and leaves out none that has no default.\<close>

definition keys_ok :: "message_type \<Rightarrow> (string, json) dict \<Rightarrow> bool" where
  "keys_ok t data \<longleftrightarrow> list_all (\<lambda>k. k = ''msg_type'' \<or> k \<in> set (map fst (message_fields 0 t))) (map fst data) \<and>
     list_all (\<lambda>k. k \<in> set (map fst data)) [''sender'', ''view'']"

definition names_type :: "(string, json) dict \<Rightarrow> message_type \<Rightarrow> bool" where
  "names_type data t \<longleftrightarrow> map_of data ''msg_type'' = Some (JStr (message_type_value t))"

lemma field_names: "map fst (message_fields now t) = map fst (message_fields 0 t)"
  by (simp add: message_fields_def)

lemma construct_iff:
  "construct (message_fields now t) (dict_del ''msg_type'' data) = Inr vs \<longleftrightarrow>
     keys_ok t data \<and> map fst vs = map fst (message_fields now t) \<and> map_of vs = given_or_default (message_fields now t) data"
  "construct (message_fields now t) (dict_del ''msg_type'' data) = Inl e \<longleftrightarrow> e = TypeError \<and> \<not> keys_ok t data"
proof -
  let ?fs = "message_fields now t" and ?data = "dict_del ''msg_type'' data"
  have names: "set (map fst (message_fields 0 t)) = set (map fst ?fs)" by (simp only: field_names [of now])
  have keys: "fst ` set ?data = fst ` set data - {''msg_type''}" by (force simp: AList.delete_eq)
  have foreign: "list_ex (\<lambda>k. k \<notin> set (map fst ?fs)) (map fst ?data) \<longleftrightarrow>
      \<not> list_all (\<lambda>k. k = ''msg_type'' \<or> k \<in> set (map fst ?fs)) (map fst data)"
    unfolding list_ex_iff list_all_iff set_map keys by (simp add: Ball_def Bex_def)
  have "(f, None) \<in> set ?fs \<longleftrightarrow> f = ''sender'' \<or> f = ''view''" for f
    by (cases t) (auto simp: message_fields_def)
  then have required: "(\<exists>vs. fill_fields ?fs ?data = Inr vs) \<longleftrightarrow> list_all (\<lambda>k. k \<in> set (map fst data)) [''sender'', ''view'']"
    unfolding fill_fields_returns set_map keys by auto
  have given: "given_or_default ?fs ?data = given_or_default ?fs data"
    using msg_type_not_field [of now t]
    by (intro ext) (auto simp: given_or_default_def delete_conv' map_of_eq_None_iff [THEN iffD2] split: option.splits)
  have fill: "fill_fields ?fs ?data = Inr vs \<longleftrightarrow> map fst vs = map fst ?fs \<and> map_of vs = given_or_default ?fs data"
    using fill_fields_iff [OF message_fields_distinct] given by metis
  have ok: "keys_ok t data \<longleftrightarrow> \<not> list_ex (\<lambda>k. k \<notin> set (map fst ?fs)) (map fst ?data) \<and> (\<exists>vs. fill_fields ?fs ?data = Inr vs)"
    unfolding required foreign keys_ok_def names by (simp only: not_not)
  show "construct ?fs ?data = Inr vs \<longleftrightarrow> keys_ok t data \<and> map fst vs = map fst ?fs \<and> map_of vs = given_or_default ?fs data"
    unfolding ok construct_def fill [symmetric] by auto
  show "construct ?fs ?data = Inl e \<longleftrightarrow> e = TypeError \<and> \<not> keys_ok t data"
    unfolding ok construct_def using fill_fields_error [of ?fs ?data] by (cases "fill_fields ?fs ?data") auto
qed

lemma from_dict_iff:
  "(message_from_dict now data = Inl e \<longleftrightarrow>
      e = ValueError \<and> (\<nexists>t. names_type data t) \<or> e = TypeError \<and> (\<exists>t. names_type data t \<and> \<not> keys_ok t data)) \<and>
   (message_from_dict now data = Inr m \<longleftrightarrow>
      names_type data (pm_type m) \<and> keys_ok (pm_type m) data \<and> map fst (pm_fields m) = map fst (message_fields now (pm_type m)) \<and>
      map_of (pm_fields m) = given_or_default (message_fields now (pm_type m)) data)"
proof (cases "\<exists>t. names_type data t")
  case True
  then obtain t where t: "names_type data t" by blast
  then have same: "names_type data t' \<longleftrightarrow> t' = t" for t' by (auto simp: names_type_def)
  let ?fs = "message_fields now t" and ?c = "construct (message_fields now t) (dict_del ''msg_type'' data)"
  have dict: "message_from_dict now data = bind_result ?c (\<lambda>fs. Inr \<lparr>pm_type = t, pm_fields = fs\<rparr>)"
    using t by (simp add: message_from_dict_def names_type_def)
  have "message_from_dict now data = Inl e \<longleftrightarrow> ?c = Inl e"
    "message_from_dict now data = Inr m \<longleftrightarrow> pm_type m = t \<and> ?c = Inr (pm_fields m)"
    unfolding dict by (cases ?c; cases m; auto)+
  then show ?thesis unfolding construct_iff same using t by auto
next
  case False
  then have "message_from_dict now data = Inl ValueError"
    by (cases "map_of data ''msg_type''") (simp_all add: message_from_dict_def names_type_def message_type_of_cases(2) [THEN iffD2])
  then show ?thesis using False by auto
qed

text \<open>
  What \<open>from_dict\<close> makes of a dict: a \<open>ValueError\<close> exactly if it names no message type, a \<open>TypeError\<close>
  exactly if it names one but has a field that the class lacks, or lacks the sender or the view; otherwise the
  instance of that class whose fields have the given values, and their defaults where none is given.
\<close>

theorem pbft_from_dict_exact:
  "(message_from_dict now data = Inl e \<longleftrightarrow>
      e = ValueError \<and> (\<nexists>t. names_type data t) \<or> e = TypeError \<and> (\<exists>t. names_type data t \<and> \<not> keys_ok t data)) \<and>
   (message_from_dict now data = Inr m \<longleftrightarrow>
      names_type data (pm_type m) \<and> keys_ok (pm_type m) data \<and> map fst (pm_fields m) = map fst (message_fields now (pm_type m)) \<and>
      map_of (pm_fields m) = given_or_default (message_fields now (pm_type m)) data)"
  by (rule from_dict_iff)

section \<open>There and back\<close>

definition message_ok :: "message \<Rightarrow> bool" where
  "message_ok m \<longleftrightarrow> map fst (pm_fields m) = map fst (message_fields 0 (pm_type m))"

text \<open>The message with the keys of the objects in its fields in order; Python's \<open>==\<close> does not see the difference.\<close>

definition message_sorted :: "message \<Rightarrow> message" where
  "message_sorted m = m\<lparr>pm_fields := map (map_prod id sort_json) (pm_fields m)\<rparr>"

lemma map_of_sort_values: "map_of (map (map_prod id sort_json) d) k = map_option sort_json (map_of d k)"
  by (induction d) auto

lemma fst_map_prod_id [simp]: "fst \<circ> map_prod id f = fst"
  by (rule ext) simp

lemma map_of_asdict:
  assumes "message_ok m"
  shows "map_of (message_asdict m) = (map_of (pm_fields m))(''msg_type'' \<mapsto> JStr (message_type_value (pm_type m)))"
    and "dict_wf (message_asdict m)" and "set (map fst (message_asdict m)) = insert ''msg_type'' (set (map fst (pm_fields m)))"
proof -
  let ?f = "pm_fields m"
  have keys: "distinct (map fst ?f)" "''msg_type'' \<notin> set (map fst ?f)"
    using assms message_fields_distinct msg_type_not_field by (metis message_ok_def)+
  have parts: "map fst (take 2 ?f) @ map fst (drop 2 ?f) = map fst ?f" by (simp flip: map_append)
  have "distinct (map fst (take 2 ?f) @ map fst (drop 2 ?f))" "''msg_type'' \<notin> set (map fst (take 2 ?f) @ map fst (drop 2 ?f))"
    unfolding parts by (rule keys)+
  then show "dict_wf (message_asdict m)" by (auto simp: message_asdict_def)
  show "set (map fst (message_asdict m)) = insert ''msg_type'' (set (map fst ?f))"
    unfolding parts [symmetric] by (simp add: message_asdict_def)
  have "map_of (message_asdict m) = map_of (drop 2 ?f) ++ [''msg_type'' \<mapsto> JStr (message_type_value (pm_type m))] ++ map_of (take 2 ?f)"
    by (simp add: message_asdict_def map_add_def fun_eq_iff split: option.split)
  moreover have "map_of (take 2 ?f) ''msg_type'' = None"
    using keys(2) parts by (metis Un_iff map_of_eq_None_iff set_append set_map)
  moreover have "map_of ?f = map_of (drop 2 ?f) ++ map_of (take 2 ?f)"
    by (metis append_take_drop_id map_of_append)
  ultimately show "map_of (message_asdict m) = (map_of ?f)(''msg_type'' \<mapsto> JStr (message_type_value (pm_type m)))"
    by (auto simp: map_add_def fun_eq_iff split: option.split)
qed

lemma map_of_message_data:
  assumes "message_ok m"
  shows "map_of (message_data m) = map_option sort_json \<circ> map_of (message_asdict m)"
proof -
  have wf: "dict_wf (map (map_prod id sort_json) (message_asdict m))" using map_of_asdict(2) [OF assms] by simp
  show ?thesis unfolding message_data_def map_of_sort_key [OF wf] by (rule ext) (simp add: map_of_sort_values)
qed

lemma from_dict_data:
  assumes "message_ok m"
  shows "message_from_dict now (message_data m) = Inr (message_sorted m)"
proof -
  let ?fs = "message_fields now (pm_type m)"
  have ok: "message_ok (message_sorted m)" using assms by (simp add: message_ok_def message_sorted_def)
  have data: "map_of (message_data m) = map_option sort_json \<circ> map_of (message_asdict m)" by (rule map_of_message_data [OF assms])
  have fields: "map_of (message_asdict m) = (map_of (pm_fields m))(''msg_type'' \<mapsto> JStr (message_type_value (pm_type m)))"
    by (rule map_of_asdict [OF assms])
  have keys: "set (map fst (message_data m)) = insert ''msg_type'' (set (map fst ?fs))"
    using map_of_asdict(3) [OF assms] assms field_names [of now]
    by (metis (no_types, lifting) fst_map_prod_id list.map_comp message_data_def message_ok_def set_map set_sort)
  have "names_type (message_data m) (pm_type m)" by (simp add: names_type_def data fields)
  moreover have "keys_ok (pm_type m) (message_data m)"
    unfolding keys_ok_def list_all_iff keys field_names [of now] by (auto simp: message_fields_def)
  moreover have "map_of (pm_fields (message_sorted m)) = given_or_default ?fs (message_data m)"
  proof
    fix k
    have "map_of (message_data m) k = map_option sort_json (map_of (pm_fields m) k)" if "k \<in> set (map fst ?fs)"
    proof -
      have "k \<noteq> ''msg_type''" using that msg_type_not_field by metis
      then show ?thesis by (simp add: data fields)
    qed
    moreover have keys: "map_of (pm_fields m) k = None \<longleftrightarrow> k \<notin> set (map fst ?fs)" "map_of ?fs k = None \<longleftrightarrow> k \<notin> set (map fst ?fs)"
      using assms field_names [of now] by (metis map_of_eq_None_iff message_ok_def set_map)+
    ultimately show "map_of (pm_fields (message_sorted m)) k = given_or_default ?fs (message_data m) k"
      by (cases "map_of (pm_fields m) k"; cases "map_of ?fs k")
        (simp_all add: message_sorted_def map_of_sort_values given_or_default_def del: set_map map_of_eq_None_iff)
  qed
  ultimately show ?thesis
    using from_dict_iff [of now "message_data m" _ "message_sorted m"] ok field_names [of now]
    by (simp add: message_ok_def message_sorted_def)
qed

text \<open>
  A message survives its JSON form: the dict that \<open>to_json\<close> prints reads back as the same message, of the
  same class and with the same field values, and the text of what was read is the text that was sent.
\<close>

theorem pbft_message_roundtrip:
  assumes "message_ok m"
  shows "message_from_dict now (message_data m) = Inr (message_sorted m) \<and> message_ok (message_sorted m) \<and>
    message_to_json (message_sorted m) = message_to_json m"
proof -
  have "message_ok (message_sorted m)" using assms by (simp add: message_ok_def message_sorted_def)
  moreover have "message_to_json (message_sorted m) = message_to_json m"
    by (simp add: message_to_json_def message_data_def message_asdict_def message_sorted_def take_map drop_map comp_def map_prod_def case_prod_unfold)
  ultimately show ?thesis using from_dict_data [OF assms] by blast
qed

section \<open>A node that is handed dicts\<close>

text \<open>
  The messages of \<open>Pbft\<close> as instances of the dataclasses. Nothing reads a timestamp; \<open>ts\<close> stands for all.
  A pre-prepare carries its request as a dict, a new view the view changes.
\<close>

definition request_message :: "time \<Rightarrow> request_msg \<Rightarrow> message" where
  "request_message ts r = \<lparr>pm_type = REQUEST, pm_fields =
     [(''sender'', JInt (int (rq_sender r))), (''view'', JInt (int (rq_view r))), (''timestamp'', JNum ts),
      (''client_id'', JStr (rq_client_id r)), (''operation'', rq_operation r), (''request_id'', JInt (int (rq_request_id r)))]\<rparr>"

definition pre_prepare_message :: "time \<Rightarrow> pre_prepare \<Rightarrow> message" where
  "pre_prepare_message ts p = \<lparr>pm_type = PRE_PREPARE, pm_fields =
     [(''sender'', JInt (int (pp_sender p))), (''view'', JInt (int (pp_view p))), (''timestamp'', JNum ts),
      (''sequence_number'', JInt (int (pp_sequence_number p))), (''digest'', JStr (pp_digest p)),
      (''request'', case pp_request p of None \<Rightarrow> JNull | Some r \<Rightarrow> JObj (message_asdict (request_message ts r)))]\<rparr>"

definition phase_message :: "message_type \<Rightarrow> time \<Rightarrow> phase_msg \<Rightarrow> message" where
  "phase_message t ts p = \<lparr>pm_type = t, pm_fields =
     [(''sender'', JInt (int (ph_sender p))), (''view'', JInt (int (ph_view p))), (''timestamp'', JNum ts),
      (''sequence_number'', JInt (int (ph_sequence_number p))), (''digest'', JStr (ph_digest p))]\<rparr>"

definition view_change_message :: "time \<Rightarrow> view_change \<Rightarrow> message" where
  "view_change_message ts v = \<lparr>pm_type = VIEW_CHANGE, pm_fields =
     [(''sender'', JInt (int (vc_sender v))), (''view'', JInt (int (vc_view v))), (''timestamp'', JNum ts),
      (''checkpoint_seq'', JInt (int (vc_checkpoint_seq v))),
      (''prepared_proofs'', JList (map (\<lambda>p. JObj (message_asdict (pre_prepare_message ts p))) (vc_prepared_proofs v)))]\<rparr>"

definition new_view_message :: "time \<Rightarrow> new_view \<Rightarrow> message" where
  "new_view_message ts v = \<lparr>pm_type = NEW_VIEW, pm_fields =
     [(''sender'', JInt (int (nv_sender v))), (''view'', JInt (int (nv_view v))), (''timestamp'', JNum ts),
      (''view_change_messages'', JList (map (\<lambda>m. JObj (message_asdict (view_change_message ts m))) (nv_view_change_messages v))),
      (''pre_prepares'', JList (map (\<lambda>p. JObj (message_asdict (pre_prepare_message ts p))) (nv_pre_prepares v)))]\<rparr>"

fun message_of :: "time \<Rightarrow> pbft_msg \<Rightarrow> message" where
  "message_of ts (Request m) = request_message ts m"
| "message_of ts (Pre_Prepare m) = pre_prepare_message ts m"
| "message_of ts (Prepare m) = phase_message PREPARE ts m"
| "message_of ts (Commit m) = phase_message COMMIT ts m"
| "message_of ts (Reply sender view client_id request_id res) = \<lparr>pm_type = REPLY, pm_fields =
     [(''sender'', JInt (int sender)), (''view'', JInt (int view)), (''timestamp'', JNum ts),
      (''client_id'', JStr client_id), (''request_id'', JInt (int request_id)), (''result'', res)]\<rparr>"
| "message_of ts (View_Change m) = view_change_message ts m"
| "message_of ts (New_View m) = new_view_message ts m"

text \<open>
  What the handlers read of an instance. A field that does not hold a number where the handlers compare numbers is
  a \<open>TypeError\<close> here; a nested dict, which the code leaves a dict, is read through its fields.
\<close>

fun json_nat :: "json \<Rightarrow> nat result" where
  "json_nat (JInt i) = (if 0 \<le> i then Inr (nat i) else Inl TypeError)"
| "json_nat _ = Inl TypeError"

definition field_as :: "(json \<Rightarrow> 'a result) \<Rightarrow> (string, json) dict \<Rightarrow> string \<Rightarrow> 'a result" where
  "field_as f d k = (case map_of d k of None \<Rightarrow> Inl KeyError | Some v \<Rightarrow> f v)"

fun nested :: "((string, json) dict \<Rightarrow> 'a result) \<Rightarrow> json \<Rightarrow> 'a result" where
  "nested f (JObj d) = f d"
| "nested f _ = Inl TypeError"

definition read_request :: "(string, json) dict \<Rightarrow> request_msg result" where
  "read_request d =
     bind_result (field_as json_nat d ''sender'') (\<lambda>s. bind_result (field_as json_nat d ''view'') (\<lambda>v.
     bind_result (field_as json_str d ''client_id'') (\<lambda>c. bind_result (field_as Inr d ''operation'') (\<lambda>op.
     bind_result (field_as json_nat d ''request_id'') (\<lambda>r.
       Inr \<lparr>rq_sender = s, rq_view = v, rq_client_id = c, rq_operation = op, rq_request_id = r\<rparr>)))))"

definition read_pre_prepare :: "(string, json) dict \<Rightarrow> pre_prepare result" where
  "read_pre_prepare d =
     bind_result (field_as json_nat d ''sender'') (\<lambda>s. bind_result (field_as json_nat d ''view'') (\<lambda>v.
     bind_result (field_as json_nat d ''sequence_number'') (\<lambda>q. bind_result (field_as json_str d ''digest'') (\<lambda>g.
     bind_result (field_as (json_opt (nested read_request)) d ''request'') (\<lambda>r.
       Inr \<lparr>pp_sender = s, pp_view = v, pp_sequence_number = q, pp_digest = g, pp_request = r\<rparr>)))))"

definition read_phase :: "(string, json) dict \<Rightarrow> phase_msg result" where
  "read_phase d =
     bind_result (field_as json_nat d ''sender'') (\<lambda>s. bind_result (field_as json_nat d ''view'') (\<lambda>v.
     bind_result (field_as json_nat d ''sequence_number'') (\<lambda>q. bind_result (field_as json_str d ''digest'') (\<lambda>g.
       Inr \<lparr>ph_sender = s, ph_view = v, ph_sequence_number = q, ph_digest = g\<rparr>))))"

definition read_view_change :: "(string, json) dict \<Rightarrow> view_change result" where
  "read_view_change d =
     bind_result (field_as json_nat d ''sender'') (\<lambda>s. bind_result (field_as json_nat d ''view'') (\<lambda>v.
     bind_result (field_as json_nat d ''checkpoint_seq'') (\<lambda>q.
     bind_result (field_as (json_list (nested read_pre_prepare)) d ''prepared_proofs'') (\<lambda>ps.
       Inr \<lparr>vc_sender = s, vc_view = v, vc_checkpoint_seq = q, vc_prepared_proofs = ps\<rparr>))))"

definition read_new_view :: "(string, json) dict \<Rightarrow> new_view result" where
  "read_new_view d =
     bind_result (field_as json_nat d ''sender'') (\<lambda>s. bind_result (field_as json_nat d ''view'') (\<lambda>v.
     bind_result (field_as (json_list (nested read_view_change)) d ''view_change_messages'') (\<lambda>ms.
     bind_result (field_as (json_list (nested read_pre_prepare)) d ''pre_prepares'') (\<lambda>ps.
       Inr \<lparr>nv_sender = s, nv_view = v, nv_view_change_messages = ms, nv_pre_prepares = ps\<rparr>))))"

definition read_reply :: "(string, json) dict \<Rightarrow> pbft_msg result" where
  "read_reply d =
     bind_result (field_as json_nat d ''sender'') (\<lambda>s. bind_result (field_as json_nat d ''view'') (\<lambda>v.
     bind_result (field_as json_str d ''client_id'') (\<lambda>c. bind_result (field_as json_nat d ''request_id'') (\<lambda>r.
     bind_result (field_as Inr d ''result'') (\<lambda>res. Inr (Reply s v c r res))))))"

fun read_message :: "message_type \<Rightarrow> (string, json) dict \<Rightarrow> pbft_msg option result" where
  "read_message REQUEST d = bind_result (read_request d) (\<lambda>m. Inr (Some (Request m)))"
| "read_message PRE_PREPARE d = bind_result (read_pre_prepare d) (\<lambda>m. Inr (Some (Pre_Prepare m)))"
| "read_message PREPARE d = bind_result (read_phase d) (\<lambda>m. Inr (Some (Prepare m)))"
| "read_message COMMIT d = bind_result (read_phase d) (\<lambda>m. Inr (Some (Commit m)))"
| "read_message REPLY d = bind_result (read_reply d) (\<lambda>m. Inr (Some m))"
| "read_message VIEW_CHANGE d = bind_result (read_view_change d) (\<lambda>m. Inr (Some (View_Change m)))"
| "read_message NEW_VIEW d = bind_result (read_new_view d) (\<lambda>m. Inr (Some (New_View m)))"
| "read_message CHECKPOINT d = Inr None"

text \<open>\<open>receive\<close> with a dict: no branch takes a checkpoint.\<close>

definition pbft_receive_dict ::
  "(json \<Rightarrow> string) \<Rightarrow> time \<Rightarrow> pbft_node \<Rightarrow> (string, json) dict \<Rightarrow> (pbft_node \<times> network_call list) result" where
  "pbft_receive_dict digest_of now n data =
     bind_result (message_from_dict now data) (\<lambda>m.
       bind_result (read_message (pm_type m) (pm_fields m)) (\<lambda>msg.
         Inr (case msg of None \<Rightarrow> (n, []) | Some msg \<Rightarrow> pbft_receive digest_of n msg)))"

text \<open>A message with the keys of its operations in order.\<close>

definition sort_request :: "request_msg \<Rightarrow> request_msg" where
  "sort_request r = r\<lparr>rq_operation := sort_json (rq_operation r)\<rparr>"

definition sort_pre_prepare :: "pre_prepare \<Rightarrow> pre_prepare" where
  "sort_pre_prepare p = p\<lparr>pp_request := map_option sort_request (pp_request p)\<rparr>"

definition sort_view_change :: "view_change \<Rightarrow> view_change" where
  "sort_view_change v = v\<lparr>vc_prepared_proofs := map sort_pre_prepare (vc_prepared_proofs v)\<rparr>"

fun sort_msg :: "pbft_msg \<Rightarrow> pbft_msg" where
  "sort_msg (Request m) = Request (sort_request m)"
| "sort_msg (Pre_Prepare m) = Pre_Prepare (sort_pre_prepare m)"
| "sort_msg (Prepare m) = Prepare m"
| "sort_msg (Commit m) = Commit m"
| "sort_msg (Reply sender view client_id request_id res) = Reply sender view client_id request_id (sort_json res)"
| "sort_msg (View_Change m) = View_Change (sort_view_change m)"
| "sort_msg (New_View m) = New_View (m\<lparr>nv_view_change_messages := map sort_view_change (nv_view_change_messages m),
     nv_pre_prepares := map sort_pre_prepare (nv_pre_prepares m)\<rparr>)"

lemma message_oks:
  "message_ok (request_message ts r)" "message_ok (pre_prepare_message ts p)" "message_ok (view_change_message ts v)"
  by (simp_all add: message_ok_def message_fields_def request_message_def pre_prepare_message_def view_change_message_def)

lemma field_as_data:
  assumes "message_ok m" and "k \<noteq> ''msg_type''"
  shows "field_as f (message_data m) k = (case map_of (pm_fields m) k of None \<Rightarrow> Inl KeyError | Some v \<Rightarrow> f (sort_json v))"
  using assms by (simp add: field_as_def map_of_message_data map_of_asdict(1) split: option.split)

lemma field_as_sorted:
  "field_as f (pm_fields (message_sorted m)) k = (case map_of (pm_fields m) k of None \<Rightarrow> Inl KeyError | Some v \<Rightarrow> f (sort_json v))"
  by (simp add: field_as_def message_sorted_def map_of_sort_values split: option.split)

lemma nested_data: "nested f (sort_json (JObj (message_asdict m))) = f (message_data m)"
  by (simp add: message_data_def)

text \<open>A reader finds the same in the dict of a nested message as in the fields of one that was read.\<close>

lemmas read_fields = field_as_data [OF message_oks(1)] field_as_data [OF message_oks(2)] field_as_data [OF message_oks(3)] field_as_sorted

lemma read_request_data:
  "read_request (message_data (request_message ts r)) = Inr (sort_request r)"
  "read_request (pm_fields (message_sorted (request_message ts r))) = Inr (sort_request r)"
  by (simp_all add: read_request_def read_fields sort_request_def) (simp_all add: request_message_def)

lemma json_opt_obj: "json_opt f (sort_json (JObj d)) = bind_result (f (sort_json (JObj d))) (\<lambda>x. Inr (Some x))"
  by simp

lemma read_pre_prepare_data:
  "read_pre_prepare (message_data (pre_prepare_message ts p)) = Inr (sort_pre_prepare p)"
  "read_pre_prepare (pm_fields (message_sorted (pre_prepare_message ts p))) = Inr (sort_pre_prepare p)"
proof -
  have request: "json_opt (nested read_request) (sort_json (case pp_request p of None \<Rightarrow> JNull
      | Some r \<Rightarrow> JObj (message_asdict (request_message ts r)))) = Inr (map_option sort_request (pp_request p))"
  proof (cases "pp_request p")
    case (Some r)
    then show ?thesis by (simp only: option.case json_opt_obj nested_data read_request_data bind_result_simps option.map)
  qed simp
  show "read_pre_prepare (message_data (pre_prepare_message ts p)) = Inr (sort_pre_prepare p)"
    "read_pre_prepare (pm_fields (message_sorted (pre_prepare_message ts p))) = Inr (sort_pre_prepare p)"
    by (simp_all add: read_pre_prepare_def read_fields sort_pre_prepare_def)
      (simp_all add: pre_prepare_message_def request del: json_opt.simps sort_json.simps(7))
qed

lemma read_proofs:
  "json_list (nested read_pre_prepare) (sort_json (JList (map (\<lambda>p. JObj (message_asdict (pre_prepare_message ts p))) ps))) =
     Inr (map sort_pre_prepare ps)"
  by (simp only: sort_json.simps(6) map_map json_list.simps, rule all_results_map)
    (simp only: comp_apply nested_data read_pre_prepare_data)

lemma read_view_change_data:
  "read_view_change (message_data (view_change_message ts v)) = Inr (sort_view_change v)"
  "read_view_change (pm_fields (message_sorted (view_change_message ts v))) = Inr (sort_view_change v)"
  by (simp_all add: read_view_change_def read_fields sort_view_change_def)
    (simp_all add: view_change_message_def read_proofs del: sort_json.simps(6) json_list.simps)

lemma read_view_changes:
  "json_list (nested read_view_change) (sort_json (JList (map (\<lambda>v. JObj (message_asdict (view_change_message ts v))) vs))) =
     Inr (map sort_view_change vs)"
  by (simp only: sort_json.simps(6) map_map json_list.simps, rule all_results_map)
    (simp only: comp_apply nested_data read_view_change_data)

lemma read_message_of:
  "read_message (pm_type (message_of ts m)) (pm_fields (message_sorted (message_of ts m))) = Inr (Some (sort_msg m))"
proof (cases m)
  case (Request r)
  then show ?thesis using read_request_data(2) by (simp add: request_message_def)
next
  case (Pre_Prepare p)
  then show ?thesis using read_pre_prepare_data(2) by (simp add: pre_prepare_message_def)
next
  case (View_Change v)
  then show ?thesis using read_view_change_data(2) by (simp add: view_change_message_def)
next
  case (New_View v)
  then show ?thesis
    by (simp add: new_view_message_def read_new_view_def field_as_sorted read_proofs read_view_changes del: sort_json.simps(6) json_list.simps)
qed (simp_all add: phase_message_def read_phase_def read_reply_def field_as_sorted)

lemma message_of_ok: "message_ok (message_of ts m)"
  by (cases m) (simp_all add: message_oks message_ok_def message_fields_def phase_message_def new_view_message_def
    request_message_def pre_prepare_message_def view_change_message_def)

text \<open>
  C40. JSON is transparent: a node that is handed the dict of a message does what it does when handed the
  message itself, whatever the message and whatever the node, up to the order of the keys inside the
  operations, which the digests do not see.
\<close>

theorem pbft_json_transparent:
  "pbft_receive_dict digest_of now n (message_data (message_of ts m)) = Inr (pbft_receive digest_of n (sort_msg m))"
  using from_dict_data [OF message_of_ok, of now ts m] read_message_of [of ts m]
  by (simp add: pbft_receive_dict_def message_sorted_def)

end
