(* ===== verification/Deadlock.thy ===== *)
theory Deadlock
  imports Prelude
begin

text \<open>
  \<open>distributed-locks/src/deadlock_detector.py\<close>: the wait-for graph of processes and the two
  depth-first searches on it. The searches return exactly what they promise: a cycle when there
  is one, nothing when there is none.
\<close>

section \<open>The detector's state\<close>

text \<open>
  A Python set that a search iterates over is a list without duplicates in the order of
  insertion; what is proved does not depend on the order.
\<close>

record deadlock_detector =
  dd_waiting_for :: "(string, string list) dict"
  dd_held_by :: "string \<rightharpoonup> string"
  dd_holding :: "string \<rightharpoonup> string set"
  dd_lock_order :: "string list"

definition dd_init :: deadlock_detector where
  "dd_init = \<lparr>dd_waiting_for = [], dd_held_by = (\<lambda>_. None), dd_holding = (\<lambda>_. None), dd_lock_order = []\<rparr>"

definition set_add :: "'a \<Rightarrow> 'a list \<Rightarrow> 'a list" where
  "set_add x xs = (if x \<in> set xs then xs else xs @ [x])"

lemma set_set_add [simp]: "set (set_add x xs) = insert x (set xs)"
  by (auto simp: set_add_def)

definition dd_record_lock_order :: "deadlock_detector \<Rightarrow> string \<Rightarrow> string \<Rightarrow> deadlock_detector" where
  "dd_record_lock_order d process_id resource_id =
     (let d1 = d\<lparr>dd_held_by := (dd_held_by d)(resource_id \<mapsto> process_id),
                 dd_holding := (dd_holding d)(process_id \<mapsto>
                   insert resource_id (case dd_holding d process_id of None \<Rightarrow> {} | Some rs \<Rightarrow> rs))\<rparr>
      in case map_of (dd_waiting_for d1) process_id of None \<Rightarrow> d1
         | Some rs \<Rightarrow>
             if resource_id \<in> set rs then
               let rs' = remove1 resource_id rs
               in if rs' = [] then d1\<lparr>dd_waiting_for := dict_del process_id (dd_waiting_for d1)\<rparr>
                  else d1\<lparr>dd_waiting_for := dict_set process_id rs' (dd_waiting_for d1)\<rparr>
             else d1)"

definition dd_record_wait :: "deadlock_detector \<Rightarrow> string \<Rightarrow> string \<Rightarrow> deadlock_detector" where
  "dd_record_wait d process_id resource_id =
     d\<lparr>dd_waiting_for := dict_set process_id
        (set_add resource_id (dict_get (dd_waiting_for d) process_id [])) (dd_waiting_for d)\<rparr>"

definition dd_release_lock :: "deadlock_detector \<Rightarrow> string \<Rightarrow> string \<Rightarrow> deadlock_detector" where
  "dd_release_lock d process_id resource_id =
     (let d1 = (if dd_held_by d resource_id = Some process_id
                then d\<lparr>dd_held_by := (dd_held_by d)(resource_id := None)\<rparr> else d)
      in case dd_holding d1 process_id of None \<Rightarrow> d1
         | Some rs \<Rightarrow>
             if resource_id \<in> rs then
               d1\<lparr>dd_holding := (dd_holding d1)(process_id :=
                  (if rs - {resource_id} = {} then None else Some (rs - {resource_id})))\<rparr>
             else d1)"

definition dd_enforce_lock_order :: "deadlock_detector \<Rightarrow> string list \<Rightarrow> deadlock_detector" where
  "dd_enforce_lock_order d resources = d\<lparr>dd_lock_order := resources\<rparr>"

text \<open>One round of the polling loop of \<open>acquire_with_timeout\<close>: the lock is taken or the loop goes on.\<close>

definition dd_try_acquire :: "deadlock_detector \<Rightarrow> string \<Rightarrow> string \<Rightarrow> deadlock_detector \<times> bool" where
  "dd_try_acquire d process_id resource_id =
     (if dd_held_by d resource_id = None then (dd_record_lock_order d process_id resource_id, True)
      else (d, False))"

section \<open>The wait-for graph\<close>

type_synonym graph = "(string, string list) dict"

text \<open>The two nested loops that build \<open>adj\<close>.\<close>

definition dd_add_edge :: "deadlock_detector \<Rightarrow> string \<Rightarrow> graph \<Rightarrow> string \<Rightarrow> graph" where
  "dd_add_edge d p_waiting adj res =
     (case dd_held_by d res of None \<Rightarrow> adj
      | Some p_holding \<Rightarrow>
          if p_waiting \<noteq> p_holding
          then dict_set p_waiting (set_add p_holding (dict_get adj p_waiting [])) adj else adj)"

definition dd_adj :: "deadlock_detector \<Rightarrow> graph" where
  "dd_adj d =
     foldl (\<lambda>adj (p_waiting, resources). foldl (dd_add_edge d p_waiting) adj resources) [] (dd_waiting_for d)"

text \<open>What the graph is meant to be: \<open>p\<close> waits for a resource that another process \<open>q\<close> holds.\<close>

definition waits :: "deadlock_detector \<Rightarrow> (string \<times> string) set" where
  "waits d = {(p, q). p \<noteq> q \<and> (\<exists>r. r \<in> set (dict_get (dd_waiting_for d) p []) \<and> dd_held_by d r = Some q)}"

definition edges :: "graph \<Rightarrow> (string \<times> string) set" where
  "edges adj = {(p, q). q \<in> set (dict_get adj p [])}"

lemma edges_add: "edges (dd_add_edge d p adj r) =
    edges adj \<union> {(p, q) | q. dd_held_by d r = Some q \<and> p \<noteq> q}"
  by (auto simp: edges_def dd_add_edge_def split: option.splits if_splits)

lemma edges_add_all: "edges (foldl (dd_add_edge d p) adj rs) =
    edges adj \<union> {(p, q) | q r. r \<in> set rs \<and> dd_held_by d r = Some q \<and> p \<noteq> q}"
  by (induction rs arbitrary: adj) (auto simp: edges_add)

lemma edges_build: "edges (foldl (\<lambda>adj (p, rs). foldl (dd_add_edge d p) adj rs) adj ws) =
    edges adj \<union> {(p, q) | p q rs r. (p, rs) \<in> set ws \<and> r \<in> set rs \<and> dd_held_by d r = Some q \<and> p \<noteq> q}"
proof (induction ws arbitrary: adj)
  case (Cons w ws)
  then show ?case by (cases w) (auto simp: edges_add_all)
qed simp

lemma edges_adj:
  assumes "dict_wf (dd_waiting_for d)"
  shows "edges (dd_adj d) = waits d"
proof -
  have "(p, rs) \<in> set (dd_waiting_for d) \<longleftrightarrow> map_of (dd_waiting_for d) p = Some rs" for p rs
    using assms by simp
  moreover have "edges (dd_adj d) = {(p, q) | p q rs r. (p, rs) \<in> set (dd_waiting_for d) \<and> r \<in> set rs \<and>
      dd_held_by d r = Some q \<and> p \<noteq> q}"
    unfolding dd_adj_def edges_build by (simp add: edges_def)
  ultimately show ?thesis
    by (auto simp: waits_def dict_get_def split: option.splits) (metis option.inject)
qed

section \<open>The searches\<close>

text \<open>
  \<open>has_cycle\<close>: \<open>path\<close> is the recursion stack; leaving a node takes it off again, which the
  recursion's argument does by itself. The first argument bounds the depth of the recursion;
  \<open>None\<close> would be a recursion deeper than that.
\<close>

fun cyc_dfs :: "nat \<Rightarrow> graph \<Rightarrow> string list \<Rightarrow> string set \<Rightarrow> string \<Rightarrow> (bool \<times> string set) option"
  and cyc_neighbors :: "nat \<Rightarrow> graph \<Rightarrow> string list \<Rightarrow> string set \<Rightarrow> string list \<Rightarrow> (bool \<times> string set) option"
where
  "cyc_dfs 0 adj path visited node = None"
| "cyc_dfs (Suc k) adj path visited node =
     cyc_neighbors k adj (path @ [node]) (insert node visited) (dict_get adj node [])"
| "cyc_neighbors k adj path visited [] = Some (False, visited)"
| "cyc_neighbors k adj path visited (neighbor # rest) =
     (if neighbor \<notin> visited then
        (case cyc_dfs k adj path visited neighbor of None \<Rightarrow> None
         | Some (True, visited') \<Rightarrow> Some (True, visited')
         | Some (False, visited') \<Rightarrow> cyc_neighbors k adj path visited' rest)
      else if neighbor \<in> set path then Some (True, visited)
      else cyc_neighbors k adj path visited rest)"

fun cyc_roots :: "nat \<Rightarrow> graph \<Rightarrow> string set \<Rightarrow> string list \<Rightarrow> bool option" where
  "cyc_roots k adj visited [] = Some False"
| "cyc_roots k adj visited (node # rest) =
     (if node \<notin> visited then
        (case cyc_dfs k adj [] visited node of None \<Rightarrow> None
         | Some (True, visited') \<Rightarrow> Some True
         | Some (False, visited') \<Rightarrow> cyc_roots k adj visited' rest)
      else cyc_roots k adj visited rest)"

text \<open>All processes of the graph; a path never repeats one.\<close>

definition graph_nodes :: "graph \<Rightarrow> string set" where
  "graph_nodes adj = fst ` set adj \<union> \<Union> (set ` snd ` set adj)"

definition dd_has_cycle :: "deadlock_detector \<Rightarrow> bool option" where
  "dd_has_cycle d =
     (let adj = dd_adj d in cyc_roots (card (graph_nodes adj) + 1) adj {} (map fst adj))"

text \<open>\<open>get_deadlock_cycle\<close>: the part of the stack from the repeated node on.\<close>

fun wfg_dfs :: "nat \<Rightarrow> graph \<Rightarrow> string list \<Rightarrow> string set \<Rightarrow> string \<Rightarrow> (string list option \<times> string set) option"
  and wfg_neighbors :: "nat \<Rightarrow> graph \<Rightarrow> string list \<Rightarrow> string set \<Rightarrow> string list \<Rightarrow> (string list option \<times> string set) option"
where
  "wfg_dfs 0 adj path visited node = None"
| "wfg_dfs (Suc k) adj path visited node =
     wfg_neighbors k adj (path @ [node]) (insert node visited) (dict_get adj node [])"
| "wfg_neighbors k adj path visited [] = Some (None, visited)"
| "wfg_neighbors k adj path visited (neighbor # rest) =
     (if neighbor \<in> set path then Some (Some (dropWhile (\<lambda>x. x \<noteq> neighbor) path), visited)
      else if neighbor \<notin> visited then
        (case wfg_dfs k adj path visited neighbor of None \<Rightarrow> None
         | Some (Some cycle, visited') \<Rightarrow> Some (Some cycle, visited')
         | Some (None, visited') \<Rightarrow> wfg_neighbors k adj path visited' rest)
      else wfg_neighbors k adj path visited rest)"

fun wfg_roots :: "nat \<Rightarrow> graph \<Rightarrow> string set \<Rightarrow> string list \<Rightarrow> string list option" where
  "wfg_roots k adj visited [] = Some []"
| "wfg_roots k adj visited (node # rest) =
     (if node \<notin> visited then
        (case wfg_dfs k adj [] visited node of None \<Rightarrow> None
         | Some (Some cycle, visited') \<Rightarrow> Some cycle
         | Some (None, visited') \<Rightarrow> wfg_roots k adj visited' rest)
      else wfg_roots k adj visited rest)"

definition dd_get_deadlock_cycle :: "deadlock_detector \<Rightarrow> string list option" where
  "dd_get_deadlock_cycle d =
     (let adj = dd_adj d in wfg_roots (card (graph_nodes adj) + 1) adj {} (map fst adj))"

definition dd_choose_deadlock_victim :: "deadlock_detector \<Rightarrow> string option option" where
  "dd_choose_deadlock_victim d =
     (case dd_get_deadlock_cycle d of None \<Rightarrow> None
      | Some cycle \<Rightarrow> Some (if cycle \<noteq> [] then Some (hd cycle) else None))"

section \<open>The searches are right\<close>

text \<open>Finished nodes: visited and off the path. They are closed under edges and on no cycle.\<close>

definition finished_ok :: "graph \<Rightarrow> string set \<Rightarrow> bool" where
  "finished_ok adj fin \<longleftrightarrow> (\<forall>x y. x \<in> fin \<longrightarrow> (x, y) \<in> edges adj \<longrightarrow> y \<in> fin) \<and>
     (\<forall>x\<in>fin. (x, x) \<notin> (edges adj)\<^sup>+)"

definition circular :: "('a \<times> 'a) set \<Rightarrow> 'a list \<Rightarrow> bool" where
  "circular E c \<longleftrightarrow> c \<noteq> [] \<and> successively (\<lambda>p q. (p, q) \<in> E) c \<and> (last c, hd c) \<in> E"

definition found_ok :: "graph \<Rightarrow> string list \<Rightarrow> string set \<Rightarrow> string set \<Rightarrow> (string list option \<times> string set) \<Rightarrow> bool" where
  "found_ok adj path visited target res \<longleftrightarrow>
     (case fst res of Some c \<Rightarrow> circular (edges adj) c
      | None \<Rightarrow> visited \<subseteq> snd res \<and> target \<subseteq> snd res - set path \<and> finished_ok adj (snd res - set path))"

lemma finished_closed: "(m, x) \<in> (edges adj)\<^sup>* \<Longrightarrow> finished_ok adj fin \<Longrightarrow> m \<in> fin \<Longrightarrow> x \<in> fin"
  by (induction rule: rtrancl_induct) (auto simp: finished_ok_def)

lemma finish_node:
  assumes "finished_ok adj fin" and "node \<notin> fin" and "\<forall>m. (node, m) \<in> edges adj \<longrightarrow> m \<in> fin"
  shows "finished_ok adj (insert node fin)"
proof -
  have "(node, node) \<notin> (edges adj)\<^sup>+"
  proof
    assume "(node, node) \<in> (edges adj)\<^sup>+"
    then obtain m where "(node, m) \<in> edges adj" "(m, node) \<in> (edges adj)\<^sup>*" by (meson tranclD)
    with assms finished_closed show False by blast
  qed
  with assms show ?thesis by (auto simp: finished_ok_def)
qed

lemma found_circular:
  assumes "successively (\<lambda>p q. (p, q) \<in> E) path" and "x \<in> set path" and "(last path, x) \<in> E"
  shows "circular E (dropWhile (\<lambda>y. y \<noteq> x) path)" (is "circular E ?c")
proof -
  have "?c \<noteq> []" using assms(2) by (auto simp: dropWhile_eq_Nil_conv)
  moreover have "hd ?c = x" using hd_dropWhile [OF \<open>?c \<noteq> []\<close>] by simp
  moreover have "path = takeWhile (\<lambda>y. y \<noteq> x) path @ ?c" by simp
  then have "last ?c = last path" "successively (\<lambda>p q. (p, q) \<in> E) ?c"
    using \<open>?c \<noteq> []\<close> assms(1) by (metis last_appendR, metis successively_append_iff)
  ultimately show ?thesis using assms(3) by (simp add: circular_def)
qed

lemma wfg_spec:
  "node \<notin> visited \<Longrightarrow> set path \<subseteq> visited \<Longrightarrow> successively (\<lambda>p q. (p, q) \<in> edges adj) (path @ [node]) \<Longrightarrow>
    finished_ok adj (visited - set path) \<Longrightarrow> wfg_dfs k adj path visited node = Some res \<Longrightarrow>
    found_ok adj path visited {node} res"
  "path \<noteq> [] \<Longrightarrow> set path \<subseteq> visited \<Longrightarrow> successively (\<lambda>p q. (p, q) \<in> edges adj) path \<Longrightarrow>
    \<forall>m\<in>set ns. (last path, m) \<in> edges adj \<Longrightarrow> finished_ok adj (visited - set path) \<Longrightarrow>
    wfg_neighbors k adj path visited ns = Some res \<Longrightarrow> found_ok adj path visited (set ns) res"
proof (induction k adj path visited node and k adj path visited ns arbitrary: res and res
    rule: wfg_dfs_wfg_neighbors.induct)
  case (1 adj path visited node)
  then show ?case by simp
next
  case (2 k adj path visited node)
  let ?path = "path @ [node]" and ?v = "insert node visited" and ?ns = "dict_get adj node []"
  have "?v - set ?path = visited - set path" using 2(2,3) by auto
  moreover have "\<forall>m\<in>set ?ns. (last ?path, m) \<in> edges adj" by (simp add: edges_def)
  moreover have "wfg_neighbors k adj ?path ?v ?ns = Some res" using 2(6) by simp
  ultimately have nb: "found_ok adj ?path ?v (set ?ns) res"
    using 2(1) [of res] 2(3,4,5) by auto
  show ?case
  proof (cases "fst res")
    case None
    then have fin: "?v \<subseteq> snd res" "set ?ns \<subseteq> snd res - set ?path" "finished_ok adj (snd res - set ?path)"
      using nb by (simp_all add: found_ok_def)
    have "node \<notin> set path" using 2(2,3) by auto
    then have "snd res - set path = insert node (snd res - set ?path)" using fin(1) by auto
    moreover have "finished_ok adj (insert node (snd res - set ?path))"
      using fin(2) by (intro finish_node [OF fin(3)]) (auto simp: edges_def)
    ultimately show ?thesis using None fin(1) \<open>node \<notin> set path\<close> by (auto simp: found_ok_def)
  qed (use nb in \<open>simp add: found_ok_def\<close>)
next
  case (3 k adj path visited)
  then show ?case by (auto simp: found_ok_def)
next
  case (4 k adj path visited m ms)
  consider "m \<in> set path" | "m \<notin> set path" "m \<in> visited" | "m \<notin> set path" "m \<notin> visited" by blast
  then show ?case
  proof cases
    case 1
    then show ?thesis using 4 found_circular [of "edges adj" path m] by (auto simp: found_ok_def)
  next
    case 2
    then have "found_ok adj path visited (set ms) res" using 4 by auto
    then show ?thesis using 2 by (auto simp: found_ok_def split: option.splits)
  next
    case 3
    obtain c v where sub: "wfg_dfs k adj path visited m = Some (c, v)"
      using 4(9) 3 by (auto split: option.splits)
    have "successively (\<lambda>p q. (p, q) \<in> edges adj) (path @ [m])"
      using 4(4,6,7) by (simp add: successively_append_iff)
    then have dfs: "found_ok adj path visited {m} (c, v)"
      using 4(1) [OF 3(1,2) 3(2) _ _ _ sub] 4(5,8) by simp
    show ?thesis
    proof (cases c)
      case (Some cyc)
      then show ?thesis using 4(9) 3 sub dfs by (auto simp: found_ok_def)
    next
      case None
      then have v: "visited \<subseteq> v" "m \<in> v" "finished_ok adj (v - set path)" using dfs by (auto simp: found_ok_def)
      have rest: "wfg_neighbors k adj path v ms = Some res" using 4(9) 3 sub None by simp
      have "found_ok adj path v (set ms) res"
        by (rule 4(2) [OF 3 sub refl None _ _ _ _ _ rest]) (use 4 v in auto)
      then show ?thesis using v 3 by (auto simp: found_ok_def split: option.splits)
    qed
  qed
qed

text \<open>The bound on the depth is never reached.\<close>

lemma wfg_enough_fuel:
  assumes V: "finite V"
  shows "\<forall>p q. (p, q) \<in> edges adj \<longrightarrow> q \<in> V \<Longrightarrow> node \<in> V \<Longrightarrow> node \<notin> visited \<Longrightarrow> card (V - visited) < k \<Longrightarrow>
      \<exists>c v. wfg_dfs k adj path visited node = Some (c, v) \<and> visited \<subseteq> v"
    and "\<forall>p q. (p, q) \<in> edges adj \<longrightarrow> q \<in> V \<Longrightarrow> set ns \<subseteq> V \<Longrightarrow> card (V - visited) < k \<or> V \<subseteq> visited \<Longrightarrow>
      \<exists>c v. wfg_neighbors k adj path visited ns = Some (c, v) \<and> visited \<subseteq> v"
proof (induction k adj path visited node and k adj path visited ns rule: wfg_dfs_wfg_neighbors.induct)
  case (1 adj path visited node)
  then show ?case by simp
next
  case (2 k adj path visited node)
  have "card (V - insert node visited) < card (V - visited)"
    using V 2(3,4) by (intro psubset_card_mono) auto
  then have "card (V - insert node visited) < k" using 2(5) by linarith
  moreover have "set (dict_get adj node []) \<subseteq> V" using 2(2) by (auto simp: edges_def)
  ultimately show ?case using 2(1) [OF 2(2)] by auto
next
  case (3 k adj path visited)
  then show ?case by simp
next
  case (4 k adj path visited m ms)
  consider "m \<in> set path" | "m \<notin> set path" "m \<in> visited" | "m \<notin> set path" "m \<notin> visited" by blast
  then show ?case
  proof cases
    case 1
    then show ?thesis by auto
  next
    case 2
    then show ?thesis using 4 by auto
  next
    case 3
    then have less: "card (V - visited) < k" using 4(5,6) by auto
    then obtain c v where sub: "wfg_dfs k adj path visited m = Some (c, v)" "visited \<subseteq> v"
      using 4(1) [OF 3] 4(4,5) 3 by auto
    have "card (V - v) \<le> card (V - visited)" using V sub(2) by (intro card_mono) auto
    then have "card (V - v) < k" using less by linarith
    then have "c = None \<Longrightarrow> \<exists>c' v'. wfg_neighbors k adj path v ms = Some (c', v') \<and> v \<subseteq> v'"
      using 4(2) [OF 3 sub(1) refl] 4(4,5) by auto
    then show ?thesis using 3 sub by (cases c) auto
  qed
qed

text \<open>The two searches find a cycle in the same cases.\<close>

lemma wfg_visited_grows:
  "wfg_dfs k adj path visited node = Some (c, v) \<Longrightarrow> visited \<subseteq> v"
  "wfg_neighbors k adj path visited ns = Some (c, v) \<Longrightarrow> visited \<subseteq> v"
  by (induction k adj path visited node and k adj path visited ns arbitrary: c v and c v
      rule: wfg_dfs_wfg_neighbors.induct)
    (fastforce split: if_splits option.splits)+

lemma searches_agree:
  "set path \<subseteq> visited \<Longrightarrow>
    cyc_dfs k adj path visited node = map_option (apfst (\<lambda>c. c \<noteq> None)) (wfg_dfs k adj path visited node)"
  "set path \<subseteq> visited \<Longrightarrow>
    cyc_neighbors k adj path visited ns = map_option (apfst (\<lambda>c. c \<noteq> None)) (wfg_neighbors k adj path visited ns)"
proof (induction k adj path visited node and k adj path visited ns rule: wfg_dfs_wfg_neighbors.induct)
  case (2 k adj path visited node)
  have "set (path @ [node]) \<subseteq> insert node visited" using 2(2) by auto
  then show ?case using 2(1) by simp
next
  case (4 k adj path visited m ms)
  consider "m \<in> set path" | "m \<notin> set path" "m \<in> visited" | "m \<notin> set path" "m \<notin> visited" by blast
  then show ?case
  proof cases
    case 1
    then have "m \<in> visited" using 4 by auto
    with 1 show ?thesis by simp
  next
    case 2
    then show ?thesis using 4 by simp
  next
    case 3
    have dfs: "cyc_dfs k adj path visited m = map_option (apfst (\<lambda>c. c \<noteq> None)) (wfg_dfs k adj path visited m)"
      using 4(1) [OF 3 4(4)] .
    show ?thesis
    proof (cases "wfg_dfs k adj path visited m")
      case None
      then show ?thesis using dfs 3 by simp
    next
      case (Some r)
      obtain c v where r: "r = (c, v)" by (cases r)
      then have "set path \<subseteq> v" using wfg_visited_grows(1) [of k adj path visited m c v] Some 4(4) by auto
      then have "c = None \<Longrightarrow> cyc_neighbors k adj path v ms =
          map_option (apfst (\<lambda>c. c \<noteq> None)) (wfg_neighbors k adj path v ms)"
        using 4(2) [OF 3] Some r by auto
      then show ?thesis using dfs 3 Some r by (cases c) auto
    qed
  qed
qed simp_all

text \<open>The outer loop over the processes that wait.\<close>

lemma wfg_roots_spec:
  assumes V: "finite V" "\<forall>p q. (p, q) \<in> edges adj \<longrightarrow> q \<in> V"
  shows "set roots \<subseteq> V \<Longrightarrow> card V < k \<Longrightarrow> finished_ok adj visited \<Longrightarrow>
    \<exists>c. wfg_roots k adj visited roots = Some c \<and> cyc_roots k adj visited roots = Some (c \<noteq> []) \<and>
      (c \<noteq> [] \<longrightarrow> circular (edges adj) c) \<and>
      (c = [] \<longrightarrow> (\<exists>fin. finished_ok adj fin \<and> visited \<union> set roots \<subseteq> fin))"
proof (induction roots arbitrary: visited)
  case Nil
  then show ?case by auto
next
  case (Cons node rest)
  show ?case
  proof (cases "node \<in> visited")
    case True
    then show ?thesis using Cons by (simp add: insert_absorb)
  next
    case False
    have "card (V - visited) \<le> card V" using V(1) by (intro card_mono) auto
    then obtain c v where dfs: "wfg_dfs k adj [] visited node = Some (c, v)" "visited \<subseteq> v"
      using wfg_enough_fuel(1) [OF V, of node visited k "[]"] Cons.prems(1,2) False by auto
    have cyc: "cyc_dfs k adj [] visited node = Some (c \<noteq> None, v)"
      using searches_agree(1) [of "[]" visited k adj node] dfs(1) by simp
    have ok: "found_ok adj [] visited {node} (c, v)"
      using wfg_spec(1) [OF False _ _ _ dfs(1)] Cons.prems(3) by simp
    show ?thesis
    proof (cases c)
      case (Some cycle)
      then have "circular (edges adj) cycle" using ok by (simp add: found_ok_def)
      then show ?thesis using False dfs cyc Some by (auto simp: circular_def)
    next
      case None
      then have v: "node \<in> v" "finished_ok adj v" using ok by (auto simp: found_ok_def)
      obtain c' where c': "wfg_roots k adj v rest = Some c'" "cyc_roots k adj v rest = Some (c' \<noteq> [])"
          "c' \<noteq> [] \<longrightarrow> circular (edges adj) c'"
          "c' = [] \<longrightarrow> (\<exists>fin. finished_ok adj fin \<and> v \<union> set rest \<subseteq> fin)"
        using Cons.IH [OF _ Cons.prems(2) v(2)] Cons.prems(1) by auto
      have "c' = [] \<longrightarrow> (\<exists>fin. finished_ok adj fin \<and> visited \<union> set (node # rest) \<subseteq> fin)"
      proof
        assume "c' = []"
        with c'(4) obtain fin where "finished_ok adj fin" "v \<union> set rest \<subseteq> fin" by blast
        then show "\<exists>fin. finished_ok adj fin \<and> visited \<union> set (node # rest) \<subseteq> fin"
          using v(1) dfs(2) by (intro exI [of _ fin]) auto
      qed
      moreover have "wfg_roots k adj visited (node # rest) = Some c'" "cyc_roots k adj visited (node # rest) = Some (c' \<noteq> [])"
        using False dfs(1) cyc None c'(1,2) by simp_all
      ultimately show ?thesis using c'(3) by (intro exI [of _ c']) simp
    qed
  qed
qed

lemma cycle_edge: "(x, x) \<in> E\<^sup>+ \<Longrightarrow> x \<in> fst ` E"
  by (drule tranclD) force

lemma circular_cycle: "circular E c \<Longrightarrow> (hd c, hd c) \<in> E\<^sup>+"
proof -
  assume c: "circular E c"
  have "c \<noteq> [] \<Longrightarrow> successively (\<lambda>p q. (p, q) \<in> E) c \<Longrightarrow> (hd c, last c) \<in> E\<^sup>*" for c
  proof (induction c rule: induct_list012)
    case (3 x y zs)
    then show ?case by (auto intro: converse_rtrancl_into_rtrancl)
  qed auto
  with c show ?thesis unfolding circular_def by (meson rtrancl_into_trancl1)
qed

text \<open>
  C14. Deadlock detection is sound and complete: \<open>has_cycle\<close> is true exactly when some process
  waits, through a chain of others, for itself; \<open>get_deadlock_cycle\<close> then returns a list in which
  each process waits for a resource the next one holds and the last one for the first, and the
  empty list otherwise. Neither search runs away on any graph.
\<close>

theorem deadlock_detection_exact:
  assumes "dict_wf (dd_waiting_for d)"
  shows "\<exists>c. dd_get_deadlock_cycle d = Some c \<and>
    dd_has_cycle d = Some (\<exists>p. (p, p) \<in> (waits d)\<^sup>+) \<and>
    (if \<exists>p. (p, p) \<in> (waits d)\<^sup>+ then circular (waits d) c else c = [])"
proof -
  let ?adj = "dd_adj d"
  note waits = edges_adj [OF assms]
  have V: "finite (graph_nodes ?adj)" by (simp add: graph_nodes_def)
  have adj: "set (dict_get ?adj p []) \<subseteq> graph_nodes ?adj" for p
  proof (cases "map_of ?adj p")
    case (Some ns)
    then show ?thesis using map_of_SomeD [OF Some] by (force simp: dict_get_def graph_nodes_def)
  qed (simp add: dict_get_def)
  then have closed: "\<forall>p q. (p, q) \<in> edges ?adj \<longrightarrow> q \<in> graph_nodes ?adj" by (auto simp: edges_def)
  have roots: "set (map fst ?adj) \<subseteq> graph_nodes ?adj" by (auto simp: graph_nodes_def)
  obtain c where c: "dd_get_deadlock_cycle d = Some c" "dd_has_cycle d = Some (c \<noteq> [])"
      "c \<noteq> [] \<longrightarrow> circular (waits d) c" "c = [] \<longrightarrow> (\<exists>fin. finished_ok ?adj fin \<and> {} \<union> set (map fst ?adj) \<subseteq> fin)"
    using wfg_roots_spec [OF V closed roots, of "card (graph_nodes ?adj) + 1" "{}"] waits
    by (auto simp: dd_get_deadlock_cycle_def dd_has_cycle_def finished_ok_def Let_def)
  have "c = [] \<longleftrightarrow> \<not> (\<exists>p. (p, p) \<in> (waits d)\<^sup>+)"
  proof
    assume "c = []"
    then obtain fin where fin: "finished_ok ?adj fin" "fst ` set ?adj \<subseteq> fin" using c(4) by auto
    have "fst ` edges ?adj \<subseteq> fst ` set ?adj"
    proof
      fix p
      assume "p \<in> fst ` edges ?adj"
      then have "dict_get ?adj p [] \<noteq> []" by (auto simp: edges_def)
      then show "p \<in> fst ` set ?adj"
        by (cases "map_of ?adj p") (auto simp: dict_get_def dest: map_of_SomeD intro: rev_image_eqI)
    qed
    then show "\<not> (\<exists>p. (p, p) \<in> (waits d)\<^sup>+)"
      using fin cycle_edge unfolding finished_ok_def waits by (metis subsetD)
  next
    assume "\<not> (\<exists>p. (p, p) \<in> (waits d)\<^sup>+)"
    then show "c = []" using c(3) circular_cycle by blast
  qed
  with c show ?thesis by auto
qed

text \<open>Two processes that each hold what the other wants, and one that waits for them.\<close>

definition example_detector :: deadlock_detector where
  "example_detector = foldl (\<lambda>d (p, r). dd_record_wait d p r)
     (foldl (\<lambda>d (p, r). dd_record_lock_order d p r) dd_init [(''p1'', ''r1''), (''p2'', ''r2'')])
     [(''p3'', ''r1''), (''p1'', ''r2''), (''p2'', ''r1'')]"

theorem deadlock_detection_exact_witness:
  "\<exists>c. dd_get_deadlock_cycle example_detector = Some c \<and> circular (waits example_detector) c"
proof -
  have wf: "dict_wf (dd_waiting_for example_detector)" by code_simp
  have "dd_has_cycle example_detector = Some True" by code_simp
  with deadlock_detection_exact [OF wf] show ?thesis by (auto split: if_splits)
qed

end
