(* ===== verification/Locks.thy ===== *)
theory Locks
  imports Prelude
begin

text \<open>
  \<open>distributed-locks/src\<close>: the lock with ownership and expiry (\<open>distributed_lock.py\<close>), fencing
  tokens, the lease lock and Redlock. The clock and the identifiers that \<open>uuid4\<close> makes are
  arguments. A method body under the lock's mutex is one function.
\<close>

section \<open>DistributedLock\<close>

definition LockAcquisitionError :: py_error where
  "LockAcquisitionError = OtherException ''LockAcquisitionError''"

record dlock =
  dl_key :: string
  dl_ttl_sec :: time
  dl_timeout_sec :: time
  dl_retry_delay :: time
  dl_owner :: "string option"
  dl_token :: "string option"
  dl_expiry_time :: time

definition dl_init :: "string \<Rightarrow> time \<Rightarrow> time \<Rightarrow> time \<Rightarrow> dlock" where
  "dl_init key ttl_sec timeout_sec retry_delay =
     \<lparr>dl_key = key, dl_ttl_sec = ttl_sec, dl_timeout_sec = timeout_sec, dl_retry_delay = retry_delay,
      dl_owner = None, dl_token = None, dl_expiry_time = 0\<rparr>"

text \<open>One round of the loop of \<open>acquire\<close> under the mutex; \<open>token\<close> is the fresh \<open>uuid4\<close>.\<close>

definition dl_attempt :: "dlock \<Rightarrow> string \<Rightarrow> time \<Rightarrow> time \<Rightarrow> string \<Rightarrow> dlock \<times> bool" where
  "dl_attempt l owner now effective_ttl token =
     (if dl_owner l = Some owner \<and> now < dl_expiry_time l
      then (l\<lparr>dl_expiry_time := now + effective_ttl\<rparr>, True)
      else
        let l1 = (if dl_owner l \<noteq> None \<and> now \<ge> dl_expiry_time l
                  then l\<lparr>dl_owner := None, dl_token := None\<rparr> else l)
        in if dl_owner l1 = None
           then (l1\<lparr>dl_owner := Some owner, dl_token := Some token, dl_expiry_time := now + effective_ttl\<rparr>, True)
           else (l1, False))"

text \<open>
  The loop, as long as nobody else uses the lock: each round reads the clock for the attempt and
  again for the timeout. \<open>None\<close>: the readings given are used up and the call still waits.
\<close>

fun dl_rounds :: "dlock \<Rightarrow> string \<Rightarrow> time \<Rightarrow> time \<Rightarrow> time \<Rightarrow> (time \<times> time \<times> string) list \<Rightarrow> (dlock \<times> bool) option" where
  "dl_rounds l owner ttl start_time timeout [] = None"
| "dl_rounds l owner ttl start_time timeout ((now, later, token) # clock) =
     (case dl_attempt l owner now ttl token of
        (l', True) \<Rightarrow> Some (l', True)
      | (l', False) \<Rightarrow>
          if later - start_time \<ge> timeout then Some (l', False)
          else dl_rounds l' owner ttl start_time timeout clock)"

definition dl_acquire ::
  "dlock \<Rightarrow> string \<Rightarrow> time option \<Rightarrow> bool \<Rightarrow> time option \<Rightarrow> time \<Rightarrow> (time \<times> time \<times> string) list \<Rightarrow> (dlock \<times> bool) option" where
  "dl_acquire l owner timeout_sec blocking ttl_sec start_time clock =
     (let timeout = (case timeout_sec of None \<Rightarrow> dl_timeout_sec l | Some t \<Rightarrow> t);
          timeout = (if blocking then timeout else 0);
          effective_ttl = (case ttl_sec of None \<Rightarrow> dl_ttl_sec l | Some t \<Rightarrow> t)
      in dl_rounds l owner effective_ttl start_time timeout clock)"

definition dl_release :: "dlock \<Rightarrow> string option \<Rightarrow> string option \<Rightarrow> (dlock, unit) outcome" where
  "dl_release l owner token =
     (if dl_owner l = None then (l, Inr ())
      else if owner \<noteq> None \<and> dl_owner l \<noteq> owner then (l, Inl LockAcquisitionError)
      else if token \<noteq> None \<and> dl_token l \<noteq> token then (l, Inl LockAcquisitionError)
      else (l\<lparr>dl_owner := None, dl_token := None, dl_expiry_time := 0\<rparr>, Inr ()))"

definition dl_renew :: "dlock \<Rightarrow> string option \<Rightarrow> time option \<Rightarrow> time \<Rightarrow> dlock \<times> bool" where
  "dl_renew l owner ttl_sec now =
     (if dl_owner l = None then (l, False)
      else if owner \<noteq> None \<and> dl_owner l \<noteq> owner then (l, False)
      else let ttl = (case ttl_sec of None \<Rightarrow> dl_ttl_sec l | Some t \<Rightarrow> t)
        in (l\<lparr>dl_expiry_time := now + ttl\<rparr>, True))"

definition dl_get_owner :: "dlock \<Rightarrow> time \<Rightarrow> dlock \<times> string option" where
  "dl_get_owner l now =
     (if dl_owner l = None then (l, None)
      else if now \<ge> dl_expiry_time l then (l\<lparr>dl_owner := None, dl_token := None\<rparr>, None)
      else (l, dl_owner l))"

definition dl_get_token :: "dlock \<Rightarrow> time \<Rightarrow> dlock \<times> string option" where
  "dl_get_token l now = (let l1 = fst (dl_get_owner l now) in (l1, dl_token l1))"

definition dl_is_held :: "dlock \<Rightarrow> time \<Rightarrow> dlock \<times> bool" where
  "dl_is_held l now = (case dl_get_owner l now of (l1, owner) \<Rightarrow> (l1, owner \<noteq> None))"

definition dl_time_remaining :: "dlock \<Rightarrow> time \<Rightarrow> time" where
  "dl_time_remaining l now = (if dl_owner l = None then 0 else max 0 (dl_expiry_time l - now))"

text \<open>\<open>__enter__\<close> drops the result of \<open>acquire\<close>, \<open>__exit__\<close> releases without naming an owner.\<close>

definition dl_enter :: "dlock \<Rightarrow> string \<Rightarrow> time \<Rightarrow> (time \<times> time \<times> string) list \<Rightarrow> dlock option" where
  "dl_enter l fresh_owner start_time clock =
     (case dl_acquire l fresh_owner None True None start_time clock of None \<Rightarrow> None | Some (l', _) \<Rightarrow> Some l')"

definition dl_exit :: "dlock \<Rightarrow> (dlock, unit) outcome" where
  "dl_exit l = dl_release l None None"

section \<open>LockManager\<close>

type_synonym lock_manager = "(string, dlock) dict"

definition lm_default :: "string \<Rightarrow> dlock" where
  "lm_default resource = dl_init resource 10 5 (1 / 10)"

definition lm_get_lock :: "lock_manager \<Rightarrow> string \<Rightarrow> lock_manager \<times> dlock" where
  "lm_get_lock m resource =
     (case map_of m resource of Some l \<Rightarrow> (m, l)
      | None \<Rightarrow> (dict_set resource (lm_default resource) m, lm_default resource))"

text \<open>\<open>now\<close> is the clock when the token is read back after the acquisition.\<close>

definition lm_acquire_lock ::
  "lock_manager \<Rightarrow> string \<Rightarrow> string \<Rightarrow> time \<Rightarrow> time \<Rightarrow> (time \<times> time \<times> string) list \<Rightarrow> time
    \<Rightarrow> (lock_manager \<times> string option) option" where
  "lm_acquire_lock m resource owner timeout_sec start_time clock now =
     (case lm_get_lock m resource of (m1, l) \<Rightarrow>
        (case dl_acquire l owner (Some timeout_sec) True None start_time clock of
           None \<Rightarrow> None
         | Some (l1, False) \<Rightarrow> Some (dict_set resource l1 m1, None)
         | Some (l1, True) \<Rightarrow>
             (case dl_get_token l1 now of (l2, token) \<Rightarrow> Some (dict_set resource l2 m1, token))))"

definition lm_release_lock :: "lock_manager \<Rightarrow> string \<Rightarrow> string option \<Rightarrow> lock_manager" where
  "lm_release_lock m resource token =
     (case lm_get_lock m resource of (m1, l) \<Rightarrow> dict_set resource (fst (dl_release l None token)) m1)"

definition lm_get_locks_held :: "lock_manager \<Rightarrow> string \<Rightarrow> time \<Rightarrow> lock_manager \<times> string list" where
  "lm_get_locks_held m owner now =
     (map (\<lambda>(resource, l). (resource, fst (dl_get_owner l now))) m,
      map fst (filter (\<lambda>(resource, l). snd (dl_get_owner l now) = Some owner) m))"

section \<open>Fencing tokens\<close>

text \<open>A token is its value; the class's counter is the state.\<close>

definition ft_generate :: "nat \<Rightarrow> nat \<times> nat" where
  "ft_generate counter = (counter + 1, counter + 1)"

definition ft_validate :: "nat option \<Rightarrow> nat option \<Rightarrow> bool" where
  "ft_validate token_offered current_token =
     (case (token_offered, current_token) of (Some t, Some c) \<Rightarrow> t \<ge> c | _ \<Rightarrow> False)"

record fenced_lock =
  fl_lock :: dlock
  fl_token :: "nat option"

definition fl_acquire_with_token ::
  "fenced_lock \<Rightarrow> nat \<Rightarrow> string \<Rightarrow> time \<Rightarrow> (time \<times> time \<times> string) list \<Rightarrow> (fenced_lock \<times> nat \<times> nat option) option" where
  "fl_acquire_with_token f counter owner start_time clock =
     (case dl_acquire (fl_lock f) owner None True None start_time clock of
        None \<Rightarrow> None
      | Some (l, True) \<Rightarrow>
          (case ft_generate counter of (counter', t) \<Rightarrow>
             Some (f\<lparr>fl_lock := l, fl_token := Some t\<rparr>, counter', Some t))
      | Some (l, False) \<Rightarrow> Some (f\<lparr>fl_lock := l\<rparr>, counter, None))"

definition fl_release :: "fenced_lock \<Rightarrow> (fenced_lock, unit) outcome" where
  "fl_release f = (case dl_release (fl_lock f) None None of (l, r) \<Rightarrow> (f\<lparr>fl_lock := l\<rparr>, r))"

section \<open>LeaseLock\<close>

record lease_lock =
  ll_resource :: string
  ll_duration :: time
  ll_acquired :: bool
  ll_expiry_time :: time

definition ll_init :: "string \<Rightarrow> time \<Rightarrow> lease_lock" where
  "ll_init resource duration =
     \<lparr>ll_resource = resource, ll_duration = duration, ll_acquired = False, ll_expiry_time = 0\<rparr>"

definition ll_acquire :: "lease_lock \<Rightarrow> time \<Rightarrow> lease_lock \<times> bool" where
  "ll_acquire l now =
     (if ll_acquired l \<and> now < ll_expiry_time l then (l, True)
      else (l\<lparr>ll_acquired := True, ll_expiry_time := now + ll_duration l\<rparr>, True))"

definition ll_release :: "lease_lock \<Rightarrow> lease_lock" where
  "ll_release l = l\<lparr>ll_acquired := False, ll_expiry_time := 0\<rparr>"

definition ll_renew :: "lease_lock \<Rightarrow> time \<Rightarrow> time \<Rightarrow> lease_lock \<times> bool" where
  "ll_renew l now later =
     (if \<not> ll_acquired l then (l, False)
      else if now \<ge> ll_expiry_time l then (l\<lparr>ll_acquired := False\<rparr>, False)
      else (l\<lparr>ll_expiry_time := later + ll_duration l\<rparr>, True))"

definition ll_time_remaining :: "lease_lock \<Rightarrow> time \<Rightarrow> time" where
  "ll_time_remaining l now = (if \<not> ll_acquired l then 0 else max 0 (ll_expiry_time l - now))"

definition ll_is_valid :: "lease_lock \<Rightarrow> time \<Rightarrow> bool" where
  "ll_is_valid l now \<longleftrightarrow> ll_time_remaining l now > 0"

section \<open>Redlock\<close>

text \<open>
  The Redis client is not part of the repository: a server is a state \<open>'v\<close>; \<open>srv_set\<close> is
  \<open>set(resource, token, nx=True, px=ttl)\<close>, \<open>srv_unlock\<close> the script that deletes the key if it
  holds the token. \<open>None\<close> is an exception of the client.
\<close>

record 'v redlock =
  rk_resource :: string
  rk_servers :: "'v list"
  rk_quorum :: nat
  rk_ttl :: int
  rk_retry_count :: nat
  rk_token :: "string option"

definition rk_init :: "string \<Rightarrow> 'v list \<Rightarrow> int \<Rightarrow> nat \<Rightarrow> 'v redlock" where
  "rk_init resource clients ttl retry_count =
     \<lparr>rk_resource = resource, rk_servers = clients, rk_quorum = length clients div 2 + 1,
      rk_ttl = ttl, rk_retry_count = retry_count, rk_token = None\<rparr>"

type_synonym 'v srv_set = "'v \<Rightarrow> string \<Rightarrow> string option \<Rightarrow> int \<Rightarrow> ('v \<times> bool) option"
type_synonym 'v srv_unlock = "'v \<Rightarrow> string \<Rightarrow> string option \<Rightarrow> 'v option"

definition rk_release :: "'v srv_unlock \<Rightarrow> 'v redlock \<Rightarrow> 'v redlock" where
  "rk_release srv_unlock r =
     r\<lparr>rk_servers := map (\<lambda>v. case srv_unlock v (rk_resource r) (rk_token r) of None \<Rightarrow> v | Some v' \<Rightarrow> v')
         (rk_servers r),
       rk_token := None\<rparr>"

text \<open>The loop over the servers: their new states and how many granted the key.\<close>

fun rk_set_all :: "'v srv_set \<Rightarrow> string \<Rightarrow> string option \<Rightarrow> int \<Rightarrow> 'v list \<Rightarrow> 'v list \<times> nat" where
  "rk_set_all srv_set resource token ttl [] = ([], 0)"
| "rk_set_all srv_set resource token ttl (v # vs) =
     (let (vs', n) = rk_set_all srv_set resource token ttl vs
      in case srv_set v resource token ttl of
           None \<Rightarrow> (v # vs', n)
         | Some (v', granted) \<Rightarrow> (v' # vs', (if granted then n + 1 else n)))"

text \<open>The attempts; the list holds the milliseconds each of them takes.\<close>

fun rk_attempts :: "'v srv_set \<Rightarrow> 'v srv_unlock \<Rightarrow> 'v redlock \<Rightarrow> int list \<Rightarrow> 'v redlock \<times> bool" where
  "rk_attempts srv_set srv_unlock r [] = (r, False)"
| "rk_attempts srv_set srv_unlock r (elapsed # rest) =
     (let (servers', n_acquired) = rk_set_all srv_set (rk_resource r) (rk_token r) (rk_ttl r) (rk_servers r);
          r1 = r\<lparr>rk_servers := servers'\<rparr>;
          validity = rk_ttl r - elapsed - 200
      in if n_acquired \<ge> rk_quorum r1 \<and> validity > 0 then (r1, True)
         else rk_attempts srv_set srv_unlock (rk_release srv_unlock r1) rest)"

definition rk_acquire ::
  "'v srv_set \<Rightarrow> 'v srv_unlock \<Rightarrow> 'v redlock \<Rightarrow> string \<Rightarrow> (nat \<Rightarrow> int) \<Rightarrow> 'v redlock \<times> bool" where
  "rk_acquire srv_set srv_unlock r uuid elapsed =
     (if rk_servers r = [] then (r, False)
      else rk_attempts srv_set srv_unlock (r\<lparr>rk_token := Some uuid\<rparr>) (map elapsed [0 ..< rk_retry_count r]))"

section \<open>Mutual exclusion\<close>

text \<open>
  The users of one lock: time passes, users try to acquire, renew and release in their own name,
  anybody looks. \<open>lk_until u\<close> is a ghost: until when user \<open>u\<close> has been told the lock is its own.
\<close>

record lock_system =
  lk_lock :: dlock
  lk_now :: time
  lk_until :: "string \<rightharpoonup> time"

inductive lock_reachable :: "lock_system \<Rightarrow> bool" where
  lk_start: "lock_reachable \<lparr>lk_lock = dl_init key ttl timeout delay, lk_now = now, lk_until = (\<lambda>_. None)\<rparr>"
| lk_tick: "lock_reachable s \<Longrightarrow> lk_now s \<le> now \<Longrightarrow> lock_reachable (s\<lparr>lk_now := now\<rparr>)"
| lk_attempt: "lock_reachable s \<Longrightarrow> dl_attempt (lk_lock s) user (lk_now s) ttl token = (l, got) \<Longrightarrow>
    lock_reachable (s\<lparr>lk_lock := l,
      lk_until := (if got then (lk_until s)(user \<mapsto> lk_now s + ttl) else lk_until s)\<rparr>)"
| lk_renew: "lock_reachable s \<Longrightarrow> dl_renew (lk_lock s) (Some user) (Some ttl) (lk_now s) = (l, got) \<Longrightarrow>
    lock_reachable (s\<lparr>lk_lock := l,
      lk_until := (if got then (lk_until s)(user \<mapsto> lk_now s + ttl) else lk_until s)\<rparr>)"
| lk_release: "lock_reachable s \<Longrightarrow> dl_release (lk_lock s) (Some user) token = (l, r) \<Longrightarrow>
    lock_reachable (s\<lparr>lk_lock := l,
      lk_until := (if r = Inr () then (lk_until s)(user := None) else lk_until s)\<rparr>)"
| lk_look: "lock_reachable s \<Longrightarrow> lock_reachable (s\<lparr>lk_lock := fst (dl_get_owner (lk_lock s) (lk_now s))\<rparr>)"

text \<open>Whoever has been told that the lock is its own until later is the owner until then.\<close>

definition lock_inv :: "dlock \<Rightarrow> time \<Rightarrow> (string \<rightharpoonup> time) \<Rightarrow> bool" where
  "lock_inv l now until \<longleftrightarrow>
     (\<forall>u e. until u = Some e \<longrightarrow> now < e \<longrightarrow> dl_owner l = Some u \<and> dl_expiry_time l = e)"

lemma attempt_inv:
  assumes "lock_inv l now until" and "dl_attempt l user now ttl token = (l', got)"
  shows "lock_inv l' now (if got then until(user \<mapsto> now + ttl) else until)"
proof (cases "dl_owner l = Some user \<and> now < dl_expiry_time l")
  case True
  then show ?thesis using assms by (auto simp: lock_inv_def dl_attempt_def)
next
  case False
  then show ?thesis
    using assms by (cases "dl_owner l") (fastforce simp: lock_inv_def dl_attempt_def Let_def split: if_splits)+
qed

lemma renew_inv:
  assumes "lock_inv l now until" and "dl_renew l (Some user) (Some ttl) now = (l', got)"
  shows "lock_inv l' now (if got then until(user \<mapsto> now + ttl) else until)"
  using assms by (auto simp: lock_inv_def dl_renew_def split: if_splits)

lemma release_inv:
  assumes "lock_inv l now until" and "dl_release l (Some user) token = (l', r)"
  shows "lock_inv l' now (if r = Inr () then until(user := None) else until)"
  using assms by (fastforce simp: lock_inv_def dl_release_def split: if_splits)

lemma lock_reachable_inv: "lock_reachable s \<Longrightarrow> lock_inv (lk_lock s) (lk_now s) (lk_until s)"
proof (induction rule: lock_reachable.induct)
  case (lk_attempt s user ttl token l got)
  then show ?case using attempt_inv by simp
next
  case (lk_renew s user ttl l got)
  then show ?case using renew_inv by simp
next
  case (lk_release s user token l r)
  then show ?case using release_inv by simp
qed (auto simp: lock_inv_def dl_get_owner_def)

text \<open>
  C15. Mutual exclusion with expiry: as long as users acquire, renew and release under their own
  names (a release without owner, as the context manager and \<open>FencedLock\<close> make, breaks it:
  \<open>lock_context_manager_steals\<close>), at no time have two of them been told that the lock is theirs until
  later than now, through acquisitions, re-entrant extensions, renewals, releases and expiries in any
  order; and \<open>get_owner\<close> names the one who has.
\<close>

theorem lock_mutual_exclusion:
  assumes "lock_reachable s" and "lk_until s a = Some ea" and "lk_now s < ea"
  shows "snd (dl_get_owner (lk_lock s) (lk_now s)) = Some a \<and>
    (\<forall>b eb. lk_until s b = Some eb \<longrightarrow> lk_now s < eb \<longrightarrow> a = b)"
proof -
  have inv: "dl_owner (lk_lock s) = Some u \<and> dl_expiry_time (lk_lock s) = e"
    if "lk_until s u = Some e" "lk_now s < e" for u e
    using lock_reachable_inv [OF assms(1)] that by (simp add: lock_inv_def)
  have "a = b" if "lk_until s b = Some eb" "lk_now s < eb" for b eb
    using inv [OF that] inv [OF assms(2,3)] by simp
  then show ?thesis using inv [OF assms(2,3)] assms(3) by (auto simp: dl_get_owner_def)
qed

theorem lock_mutual_exclusion_witness:
  "\<exists>s. lock_reachable s \<and> lk_until s ''a'' = Some 15 \<and> snd (dl_get_owner (lk_lock s) (lk_now s)) = Some ''a''"
proof -
  let ?s0 = "\<lparr>lk_lock = dl_init ''k'' 10 5 1, lk_now = 5, lk_until = (\<lambda>_. None)\<rparr>"
  define l where "l = fst (dl_attempt (lk_lock ?s0) ''a'' (lk_now ?s0) 10 ''t'')"
  have "dl_attempt (lk_lock ?s0) ''a'' (lk_now ?s0) 10 ''t'' = (l, True)"
    by (simp add: l_def dl_attempt_def dl_init_def)
  from lk_attempt [OF lk_start this]
  have s: "lock_reachable (?s0\<lparr>lk_lock := l, lk_until := [''a'' \<mapsto> 15]\<rparr>)" (is "lock_reachable ?s") by simp
  with lock_mutual_exclusion [OF s, of "''a''" 15] show ?thesis by (intro exI [of _ ?s]) simp
qed

text \<open>
  A release that names neither owner nor token takes the lock from whoever holds it, and the
  context manager does just that: a user B whose \<open>acquire\<close> inside \<open>__enter__\<close> times out while A
  holds the lock leaves the \<open>with\<close> block by releasing A's lock, and C acquires it while A's time
  runs on.
\<close>

theorem lock_context_manager_steals:
  "\<exists>la lb lc. dl_attempt (dl_init ''k'' 10 5 1) ''A'' 0 10 ''t1'' = (la, True) \<and> dl_expiry_time la = 10 \<and>
     dl_enter la ''B'' 1 [(1, 7, ''t2'')] = Some la \<and> dl_exit la = (lb, Inr ()) \<and>
     dl_attempt lb ''C'' 8 10 ''t3'' = (lc, True) \<and> dl_owner lc = Some ''C''"
  by (simp add: dl_attempt_def dl_init_def dl_enter_def dl_acquire_def dl_exit_def dl_release_def)

section \<open>Fencing tokens and Redlock\<close>

lemma ft_generate_increases: "ft_generate c = (c', t) \<Longrightarrow> c < t \<and> c' = t"
  by (auto simp: ft_generate_def)

lemma ft_older_rejected: "ft_validate (Some t) (Some t') \<longleftrightarrow> t' \<le> t"
  by (simp add: ft_validate_def)

lemma set_all_no_token:
  assumes "\<forall>v. srv_set v res None ttl = None"
  shows "rk_set_all srv_set res None ttl vs = (vs, 0)"
  by (induction vs) (simp_all add: assms)

lemma attempts_no_token:
  assumes "\<forall>v. srv_set v (rk_resource r) None (rk_ttl r) = None" and "rk_token r = None" and "0 < rk_quorum r"
  shows "\<not> snd (rk_attempts srv_set srv_unlock r es)"
  using assms
proof (induction es arbitrary: r)
  case (Cons e es)
  have none: "rk_set_all srv_set (rk_resource r) (rk_token r) (rk_ttl r) (rk_servers r) = (rk_servers r, 0)"
    using set_all_no_token Cons.prems(1,2) by simp
  have "\<not> snd (rk_attempts srv_set srv_unlock (rk_release srv_unlock r) es)"
    by (rule Cons.IH) (use Cons.prems in \<open>simp_all add: rk_release_def\<close>)
  then show ?case using none Cons.prems(3) by simp
qed simp

text \<open>
  Redlock never profits from its retries: releasing after a failed attempt forgets the
  token, so that every further attempt offers \<open>None\<close>, which the client refuses; \<open>acquire\<close>
  succeeds exactly when its first attempt gets the quorum in time.
\<close>

theorem redlock_retries_useless:
  assumes "\<forall>v. srv_set v (rk_resource r) None (rk_ttl r) = None" and "0 < rk_quorum r" and "rk_retry_count r = Suc k"
  shows "snd (rk_acquire srv_set srv_unlock r uuid elapsed) \<longleftrightarrow> rk_servers r \<noteq> [] \<and>
    rk_quorum r \<le> snd (rk_set_all srv_set (rk_resource r) (Some uuid) (rk_ttl r) (rk_servers r)) \<and>
    0 < rk_ttl r - elapsed 0 - 200"
proof (cases "rk_servers r = []")
  case True
  then show ?thesis by (simp add: rk_acquire_def)
next
  case False
  obtain vs n where first: "rk_set_all srv_set (rk_resource r) (Some uuid) (rk_ttl r) (rk_servers r) = (vs, n)"
    by fastforce
  let ?r = "rk_release srv_unlock (r\<lparr>rk_token := Some uuid, rk_servers := vs\<rparr>)"
  have "\<not> snd (rk_attempts srv_set srv_unlock ?r es)" for es
    by (rule attempts_no_token) (use assms in \<open>simp_all add: rk_release_def\<close>)
  moreover have "map elapsed [0 ..< Suc k] = elapsed 0 # map elapsed [1 ..< Suc k]"
    by (simp add: upt_conv_Cons del: upt_Suc)
  ultimately show ?thesis
    using False first assms(3) by (simp add: rk_acquire_def Let_def del: upt_Suc)
qed

text \<open>A server that keeps one key: the documented effect of \<open>SET ... NX\<close> and of the script.\<close>

definition nx_set :: "string option srv_set" where
  "nx_set v res token ttl = (case token of None \<Rightarrow> None
     | Some t \<Rightarrow> Some (if v = None then (Some t, True) else (v, False)))"

definition nx_unlock :: "string option srv_unlock" where
  "nx_unlock v res token = Some (if v = token then None else v)"

theorem redlock_retries_useless_witness:
  "snd (rk_acquire nx_set nx_unlock (rk_init ''r'' [None, None, Some ''x''] 10000 3) ''u'' (\<lambda>_. 5)) \<and>
   \<not> snd (rk_acquire nx_set nx_unlock (rk_init ''r'' [None, Some ''y'', Some ''x''] 10000 3) ''u'' (\<lambda>_. 5))"
proof -
  have "\<forall>v. nx_set v (rk_resource (rk_init ''r'' vs 10000 3)) None (rk_ttl (rk_init ''r'' vs 10000 3)) = None"
    "0 < rk_quorum (rk_init ''r'' vs 10000 3)" "rk_retry_count (rk_init ''r'' vs 10000 3) = Suc 2" for vs
    by (simp_all add: nx_set_def rk_init_def)
  note exact = redlock_retries_useless [where srv_set = nx_set and r = "rk_init ''r'' vs 10000 3" for vs, OF this]
  show ?thesis by (simp add: exact) (simp add: rk_init_def nx_set_def)
qed

end
