(* ===== verification/Fenced_Db.thy ===== *)
theory Fenced_Db
  imports Locks
begin

text \<open>
  Fencing at work: the database of \<open>distributed-locks/examples/transaction_lock.py\<close>, whose clients take a
  \<open>FencedLock\<close> and write with its token. If taking the lock and drawing the token were one step, accepted writes
  would come in the order of the acquisitions, however late a client is; in the code they are two, and a client
  that stops between them gets past its successor.
\<close>

section \<open>MockDatabase\<close>

record 'v mock_database =
  md_data :: "(string, 'v) dict"
  md_last_token :: nat

definition md_init :: "'v mock_database" where
  "md_init = \<lparr>md_data = [], md_last_token = 0\<rparr>"

definition md_write :: "'v mock_database \<Rightarrow> string \<Rightarrow> 'v \<Rightarrow> nat \<Rightarrow> 'v mock_database \<times> bool" where
  "md_write db key value fencing_token =
     (if fencing_token \<le> md_last_token db then (db, False)
      else (db\<lparr>md_data := dict_set key value (md_data db), md_last_token := fencing_token\<rparr>, True))"

section \<open>Clients of one lock and one database\<close>

text \<open>
  \<open>fy_taken\<close>: the number of the acquisition of a client that has the lock and not yet its token.
  \<open>fy_tokens\<close>: a client's last token, with the number of its acquisition. \<open>fy_writes\<close>: the acquisitions by which
  the accepted writes were made. With \<open>atomic\<close> an acquisition draws its token at once.
\<close>

record 'v fenced_system =
  fy_lock :: dlock
  fy_counter :: nat
  fy_now :: time
  fy_db :: "'v mock_database"
  fy_acquired :: nat
  fy_taken :: "string \<rightharpoonup> nat"
  fy_tokens :: "string \<rightharpoonup> nat \<times> nat"
  fy_writes :: "nat list"

definition fy_init :: "dlock \<Rightarrow> time \<Rightarrow> 'v fenced_system" where
  "fy_init l now = \<lparr>fy_lock = l, fy_counter = 0, fy_now = now, fy_db = md_init, fy_acquired = 0, fy_taken = (\<lambda>_. None),
     fy_tokens = (\<lambda>_. None), fy_writes = []\<rparr>"

definition fy_acquire :: "string \<Rightarrow> time \<Rightarrow> string \<Rightarrow> 'v fenced_system \<Rightarrow> 'v fenced_system" where
  "fy_acquire c ttl lock_token s =
     (case dl_attempt (fy_lock s) c (fy_now s) ttl lock_token of
        (l, True) \<Rightarrow> s\<lparr>fy_lock := l, fy_acquired := fy_acquired s + 1, fy_taken := (fy_taken s)(c \<mapsto> fy_acquired s + 1)\<rparr>
      | (l, False) \<Rightarrow> s\<lparr>fy_lock := l\<rparr>)"

definition fy_generate :: "string \<Rightarrow> 'v fenced_system \<Rightarrow> 'v fenced_system" where
  "fy_generate c s =
     (case fy_taken s c of None \<Rightarrow> s
      | Some k \<Rightarrow> (case ft_generate (fy_counter s) of (counter, t) \<Rightarrow>
          s\<lparr>fy_counter := counter, fy_taken := (fy_taken s)(c := None), fy_tokens := (fy_tokens s)(c \<mapsto> (k, t))\<rparr>))"

definition fy_write :: "string \<Rightarrow> string \<Rightarrow> 'v \<Rightarrow> 'v fenced_system \<Rightarrow> 'v fenced_system" where
  "fy_write c key v s =
     (case fy_tokens s c of None \<Rightarrow> s
      | Some (k, t) \<Rightarrow> (case md_write (fy_db s) key v t of
            (db, True) \<Rightarrow> s\<lparr>fy_db := db, fy_writes := fy_writes s @ [k]\<rparr>
          | (db, False) \<Rightarrow> s\<lparr>fy_db := db\<rparr>))"

text \<open>Time may pass between any two steps; the lock may be renewed, released by anybody, and expire.\<close>

inductive fenced_reachable :: "bool \<Rightarrow> 'v fenced_system \<Rightarrow> bool" for atomic where
  fr_start: "fenced_reachable atomic (fy_init l now)"
| fr_tick: "fenced_reachable atomic s \<Longrightarrow> fy_now s \<le> now \<Longrightarrow> fenced_reachable atomic (s\<lparr>fy_now := now\<rparr>)"
| fr_acquire: "fenced_reachable atomic s \<Longrightarrow> \<not> atomic \<Longrightarrow> fenced_reachable atomic (fy_acquire c ttl lock_token s)"
| fr_generate: "fenced_reachable atomic s \<Longrightarrow> \<not> atomic \<Longrightarrow> fenced_reachable atomic (fy_generate c s)"
| fr_both: "fenced_reachable atomic s \<Longrightarrow> fenced_reachable atomic (fy_generate c (fy_acquire c ttl lock_token s))"
| fr_renew: "fenced_reachable atomic s \<Longrightarrow> fenced_reachable atomic (s\<lparr>fy_lock := fst (dl_renew (fy_lock s) owner ttl_sec (fy_now s))\<rparr>)"
| fr_release: "fenced_reachable atomic s \<Longrightarrow> fenced_reachable atomic (s\<lparr>fy_lock := fst (dl_release (fy_lock s) owner lock_token)\<rparr>)"
| fr_write: "fenced_reachable atomic s \<Longrightarrow> fenced_reachable atomic (fy_write c key v s)"

text \<open>Drawn at once, a token is the number of its acquisition.\<close>

definition fenced_inv :: "'v fenced_system \<Rightarrow> bool" where
  "fenced_inv s \<longleftrightarrow> fy_counter s = fy_acquired s \<and> (\<forall>c. fy_taken s c = None) \<and>
     (\<forall>c k t. fy_tokens s c = Some (k, t) \<longrightarrow> k = t \<and> t \<le> fy_counter s) \<and>
     sorted_wrt (<) (fy_writes s) \<and> (\<forall>k\<in>set (fy_writes s). k \<le> md_last_token (fy_db s))"

lemma fenced_inv_lock [simp]: "fenced_inv (s\<lparr>fy_lock := l\<rparr>) = fenced_inv s" "fenced_inv (s\<lparr>fy_now := now\<rparr>) = fenced_inv s"
  by (simp_all add: fenced_inv_def)

lemma fenced_inv_both:
  assumes "fenced_inv s"
  shows "fenced_inv (fy_generate c (fy_acquire c ttl lock_token s))"
proof -
  obtain l got where out: "dl_attempt (fy_lock s) c (fy_now s) ttl lock_token = (l, got)" by fastforce
  show ?thesis
  proof (cases got)
    case True
    then show ?thesis
      using assms out by (auto simp: fenced_inv_def fy_acquire_def fy_generate_def ft_generate_def le_SucI)
  next
    case False
    then have "fy_generate c (fy_acquire c ttl lock_token s) = s\<lparr>fy_lock := l\<rparr>"
      using assms out by (simp add: fy_acquire_def fy_generate_def fenced_inv_def)
    then show ?thesis using assms by simp
  qed
qed

lemma fenced_inv_write:
  assumes "fenced_inv s"
  shows "fenced_inv (fy_write c key v s)"
  using assms
  by (auto simp: fy_write_def md_write_def fenced_inv_def sorted_wrt_append split: option.splits) fastforce+

lemma fenced_reachable_inv: "fenced_reachable True s \<Longrightarrow> fenced_inv s"
proof (induction rule: fenced_reachable.induct)
  case (fr_start l now)
  show ?case by (simp add: fenced_inv_def fy_init_def md_init_def)
qed (simp_all add: fenced_inv_both fenced_inv_write)

text \<open>
  If the lock is taken and the token drawn in one step, the accepted writes are in the order in which
  their clients took the lock, at most one for each acquisition: once a write has been accepted, none is
  from a client that took the lock earlier, whatever expired, was released or stood still in between.
\<close>

theorem fencing_orders_writes:
  assumes "fenced_reachable True s"
  shows "sorted_wrt (<) (fy_writes s) \<and>
    (fy_tokens s c = Some (k, t) \<longrightarrow> k \<le> last (0 # fy_writes s) \<longrightarrow> fy_write c key v s = s)"
proof -
  have inv: "fenced_inv s" by (rule fenced_reachable_inv [OF assms])
  have "fy_write c key v s = s" if token: "fy_tokens s c = Some (k, t)" and "k \<le> last (0 # fy_writes s)"
  proof -
    have "last (0 # fy_writes s) \<le> md_last_token (fy_db s)" using inv by (auto simp: fenced_inv_def)
    moreover have "k = t" using inv token unfolding fenced_inv_def by blast
    ultimately have "t \<le> md_last_token (fy_db s)" using that(2) by linarith
    then show ?thesis using token by (simp add: fy_write_def md_write_def)
  qed
  then show ?thesis using inv by (simp add: fenced_inv_def)
qed

definition fenced_start :: "string fenced_system" where
  "fenced_start = fy_init (dl_init ''db:transaction'' 5 10 (1 / 10)) 0"

text \<open>The run of the program's \<open>main\<close>: client 2 takes the lock that client 1 has lost, and writes; then client 1.\<close>

definition fenced_main :: "string fenced_system" where
  "fenced_main =
     (let s1 = fy_generate ''c1'' (fy_acquire ''c1'' 5 ''t1'' fenced_start);
          s2 = fy_generate ''c2'' (fy_acquire ''c2'' 5 ''t2'' (s1\<lparr>fy_lock := fst (dl_release (fy_lock s1) None None)\<rparr>))
      in fy_write ''c2'' ''record'' ''updated_by_client_2'' s2)"

lemma fenced_main_reachable: "fenced_reachable True fenced_main"
  unfolding fenced_main_def Let_def fenced_start_def
  by (intro fr_write fr_both fr_release fr_start)

theorem fencing_orders_writes_witness:
  "fy_write ''c1'' ''record'' ''overwritten_by_client_1'' fenced_main = fenced_main \<and> fy_writes fenced_main = [2]"
proof -
  have token: "fy_tokens fenced_main ''c1'' = Some (1, 1)" and writes: "fy_writes fenced_main = [2]" by code_simp+
  have "fy_write ''c1'' ''record'' ''overwritten_by_client_1'' fenced_main = fenced_main"
    using fencing_orders_writes [OF fenced_main_reachable, of "''c1''" 1 1] token writes by simp
  then show ?thesis using writes by simp
qed

text \<open>
  The code draws the token after \<open>acquire\<close> has returned. Client 1 takes the lock and stops; its time runs out,
  client 2 takes the lock, draws token 1 and writes; client 1 goes on, draws token 2 and overwrites what the
  holder of the lock has written.
\<close>

definition fenced_pause :: "string fenced_system" where
  "fenced_pause =
     fy_write ''c1'' ''record'' ''overwritten_by_client_1'' (fy_generate ''c1''
       (fy_write ''c2'' ''record'' ''updated_by_client_2'' (fy_generate ''c2'' (fy_acquire ''c2'' 5 ''t2''
         ((fy_acquire ''c1'' 5 ''t1'' fenced_start)\<lparr>fy_now := 6\<rparr>)))))"

theorem fencing_token_drawn_late:
  "fenced_reachable False fenced_pause \<and> fy_writes fenced_pause = [2, 1] \<and>
   snd (dl_get_owner (fy_lock fenced_pause) (fy_now fenced_pause)) = Some ''c2'' \<and>
   md_data (fy_db fenced_pause) = [(''record'', ''overwritten_by_client_1'')]"
proof (intro conjI)
  have first: "fenced_reachable False (fy_acquire ''c1'' 5 ''t1'' fenced_start)"
    unfolding fenced_start_def by (intro fr_acquire fr_start) simp
  have "fy_now (fy_acquire ''c1'' 5 ''t1'' fenced_start) \<le> 6" by code_simp
  from fr_tick [OF first this] show "fenced_reachable False fenced_pause"
    unfolding fenced_pause_def by (intro fr_write fr_generate fr_acquire) simp_all
qed code_simp+

end
