(* ===== verification/Two_Phase_Commit.thy ===== *)
theory Two_Phase_Commit
  imports Json
begin

text \<open>
  \<open>distributed-transactions/src/two_phase_commit.py\<close>: participants, the coordinator's three phases
  and \<open>execute_transaction\<close>. The trace records, in order, what the participants do: which operation
  they prepare, that they commit, which operations they undo. The clock is a function from the
  number of a reading within a phase to its value.
\<close>

section \<open>Data\<close>

datatype txn_state = Init | Preparing | Prepared | Committing | Committed | Aborting | Aborted

datatype vote = Yes | No

text \<open>An operation is the tuple (participant, action, arguments).\<close>

type_synonym operation = "string \<times> string \<times> json"

record txn_context =
  tx_operations :: "operation list"
  tx_state :: txn_state
  tx_votes :: "(string, vote) dict"
  tx_timeout :: time
  tx_start_time :: time

definition tx_is_expired :: "txn_context \<Rightarrow> time \<Rightarrow> bool" where
  "tx_is_expired ctx now \<longleftrightarrow> now - tx_start_time ctx > tx_timeout ctx"

definition tx_can_commit :: "txn_context \<Rightarrow> nat \<Rightarrow> bool" where
  "tx_can_commit ctx expected_participant_count =
     (if tx_votes ctx = [] then False
      else if length (tx_votes ctx) \<noteq> expected_participant_count then False
      else list_all (\<lambda>(pid, v). v = Yes) (tx_votes ctx))"

text \<open>
  A participant: an undo closure is the operation it undoes; \<open>tp_validate\<close> is the hook
  \<open>_validate_operation\<close>, \<open>\<lambda>_. True\<close> in the class itself; \<open>delay_prepare\<close> only takes time.
\<close>

record participant =
  tp_undo_logs :: "string \<rightharpoonup> operation list"
  tp_should_fail_prepare :: bool
  tp_should_fail_commit :: bool
  tp_should_fail_abort :: bool
  tp_validate :: "operation \<Rightarrow> bool"

definition tp_init :: participant where
  "tp_init = \<lparr>tp_undo_logs = (\<lambda>_. None), tp_should_fail_prepare = False, tp_should_fail_commit = False,
     tp_should_fail_abort = False, tp_validate = (\<lambda>_. True)\<rparr>"

datatype tpc_event = is_prepares: Prepares string operation | Commits string | is_undoes: Undoes string operation

section \<open>The participant\<close>

definition tp_prepare :: "participant \<Rightarrow> string \<Rightarrow> operation \<Rightarrow> participant \<times> vote" where
  "tp_prepare p txn_id operation =
     (if tp_should_fail_prepare p then (p, No)
      else if \<not> tp_validate p operation then (p, No)
      else (p\<lparr>tp_undo_logs := (tp_undo_logs p)(txn_id \<mapsto>
              (case tp_undo_logs p txn_id of None \<Rightarrow> [] | Some undos \<Rightarrow> undos) @ [operation])\<rparr>, Yes))"

definition tp_commit :: "participant \<Rightarrow> string \<Rightarrow> participant \<times> bool" where
  "tp_commit p txn_id =
     (if tp_should_fail_commit p then (p, False)
      else (p\<lparr>tp_undo_logs := (tp_undo_logs p)(txn_id := None)\<rparr>, True))"

text \<open>The third component: the operations undone, in the order they are.\<close>

definition tp_abort :: "participant \<Rightarrow> string \<Rightarrow> participant \<times> bool \<times> operation list" where
  "tp_abort p txn_id =
     (if tp_should_fail_abort p then (p, False, [])
      else case tp_undo_logs p txn_id of None \<Rightarrow> (p, True, [])
        | Some undos \<Rightarrow> (p\<lparr>tp_undo_logs := (tp_undo_logs p)(txn_id := None)\<rparr>, True, rev undos))"

section \<open>The coordinator\<close>

record coordinator =
  tc_timeout :: time
  tc_transactions :: "string \<rightharpoonup> txn_context"
  tc_participants :: "string \<rightharpoonup> participant"
  tc_trace :: "tpc_event list"

definition tc_init :: "time \<Rightarrow> coordinator" where
  "tc_init timeout = \<lparr>tc_timeout = timeout, tc_transactions = (\<lambda>_. None), tc_participants = (\<lambda>_. None),
     tc_trace = []\<rparr>"

definition tc_register_participant :: "coordinator \<Rightarrow> string \<Rightarrow> participant \<Rightarrow> coordinator" where
  "tc_register_participant c pid p = c\<lparr>tc_participants := (tc_participants c)(pid \<mapsto> p)\<rparr>"

text \<open>The transaction's identifier is a fresh \<open>uuid4\<close>, the start time the clock's.\<close>

definition tc_begin_transaction :: "coordinator \<Rightarrow> operation list \<Rightarrow> string \<Rightarrow> time \<Rightarrow> coordinator" where
  "tc_begin_transaction c operations txn_id now =
     c\<lparr>tc_transactions := (tc_transactions c)(txn_id \<mapsto>
        \<lparr>tx_operations = operations, tx_state = Init, tx_votes = [], tx_timeout = tc_timeout c,
         tx_start_time = now\<rparr>)\<rparr>"

definition tc_send_prepare :: "coordinator \<Rightarrow> string \<Rightarrow> string \<Rightarrow> operation \<Rightarrow> coordinator \<times> vote" where
  "tc_send_prepare c txn_id pid operation =
     (case tc_participants c pid of None \<Rightarrow> (c, No)
      | Some p \<Rightarrow>
          (case tp_prepare p txn_id operation of (p', v) \<Rightarrow>
             (c\<lparr>tc_participants := (tc_participants c)(pid \<mapsto> p'),
                tc_trace := tc_trace c @ (if v = Yes then [Prepares pid operation] else [])\<rparr>, v)))"

definition tc_send_commit :: "coordinator \<Rightarrow> string \<Rightarrow> string \<Rightarrow> coordinator \<times> bool" where
  "tc_send_commit c txn_id pid =
     (case tc_participants c pid of None \<Rightarrow> (c, False)
      | Some p \<Rightarrow>
          (case tp_commit p txn_id of (p', done) \<Rightarrow>
             (c\<lparr>tc_participants := (tc_participants c)(pid \<mapsto> p'),
                tc_trace := tc_trace c @ (if done then [Commits pid] else [])\<rparr>, done)))"

definition tc_send_abort :: "coordinator \<Rightarrow> string \<Rightarrow> string \<Rightarrow> coordinator \<times> bool" where
  "tc_send_abort c txn_id pid =
     (case tc_participants c pid of None \<Rightarrow> (c, False)
      | Some p \<Rightarrow>
          (case tp_abort p txn_id of (p', done, undone) \<Rightarrow>
             (c\<lparr>tc_participants := (tc_participants c)(pid \<mapsto> p'),
                tc_trace := tc_trace c @ map (Undoes pid) undone\<rparr>, done)))"

definition tc_set_ctx :: "coordinator \<Rightarrow> string \<Rightarrow> txn_context \<Rightarrow> coordinator" where
  "tc_set_ctx c txn_id ctx = c\<lparr>tc_transactions := (tc_transactions c)(txn_id \<mapsto> ctx)\<rparr>"

text \<open>The operations grouped by participant, as the code groups them.\<close>

definition tc_participant_ops :: "operation list \<Rightarrow> (string, operation) dict" where
  "tc_participant_ops operations = foldl (\<lambda>ops op. dict_set (fst op) op ops) [] operations"

text \<open>The loop of the prepare phase; \<open>i\<close> numbers the readings of the clock.\<close>

fun tc_prepare_loop ::
  "coordinator \<Rightarrow> string \<Rightarrow> txn_context \<Rightarrow> (nat \<Rightarrow> time) \<Rightarrow> nat \<Rightarrow> (string, operation) dict
    \<Rightarrow> coordinator \<times> txn_context \<times> bool" where
  "tc_prepare_loop c txn_id ctx clock i [] = (c, ctx, True)"
| "tc_prepare_loop c txn_id ctx clock i ((pid, op) # rest) =
     (if tx_is_expired ctx (clock i) then (c, ctx, False)
      else case tc_send_prepare c txn_id pid op of (c1, v) \<Rightarrow>
        let ctx1 = ctx\<lparr>tx_votes := dict_set pid v (tx_votes ctx)\<rparr>
        in if v = No then (c1, ctx1, False)
           else tc_prepare_loop c1 txn_id ctx1 clock (i + 1) rest)"

definition tc_prepare :: "coordinator \<Rightarrow> string \<Rightarrow> (nat \<Rightarrow> time) \<Rightarrow> (coordinator, bool) outcome" where
  "tc_prepare c txn_id clock =
     (case tc_transactions c txn_id of None \<Rightarrow> (c, Inl ValueError)
      | Some ctx0 \<Rightarrow>
          let ctx = ctx0\<lparr>tx_state := Preparing\<rparr>;
              ops = tc_participant_ops (tx_operations ctx)
          in case tc_prepare_loop c txn_id ctx clock 0 ops of
               (c1, ctx1, False) \<Rightarrow> (tc_set_ctx c1 txn_id ctx1, Inr False)
             | (c1, ctx1, True) \<Rightarrow>
                 if tx_can_commit ctx1 (length ops) then
                   if tx_is_expired ctx1 (clock (length ops)) then (tc_set_ctx c1 txn_id ctx1, Inr False)
                   else (tc_set_ctx c1 txn_id (ctx1\<lparr>tx_state := Prepared\<rparr>), Inr True)
                 else (tc_set_ctx c1 txn_id ctx1, Inr False))"

text \<open>
  \<open>commit\<close> and \<open>abort\<close> go through a Python set, whose order is not specified: it is the argument
  \<open>order\<close>. Whatever the argument, each element comes once, and every order arises from one.
\<close>

definition set_order :: "'a list \<Rightarrow> 'a list \<Rightarrow> 'a list" where
  "set_order order xs = filter (\<lambda>x. x \<in> set xs) (remdups order) @ filter (\<lambda>x. x \<notin> set order) (remdups xs)"

lemma set_order_elements [simp]: "set (set_order order xs) = set xs" "distinct (set_order order xs)"
  by (auto simp: set_order_def)

lemma set_order_any: "distinct ys \<Longrightarrow> set ys = set xs \<Longrightarrow> set_order ys xs = ys"
  by (simp add: set_order_def distinct_remdups_id)

definition tc_involved :: "string list \<Rightarrow> txn_context \<Rightarrow> string list" where
  "tc_involved order ctx = set_order order (map fst (tx_operations ctx))"

fun tc_commit_loop :: "coordinator \<Rightarrow> string \<Rightarrow> string list \<Rightarrow> coordinator \<times> bool" where
  "tc_commit_loop c txn_id [] = (c, True)"
| "tc_commit_loop c txn_id (pid # pids) =
     (case tc_send_commit c txn_id pid of (c1, done) \<Rightarrow>
       (case tc_commit_loop c1 txn_id pids of (c2, rest) \<Rightarrow> (c2, done \<and> rest)))"

definition tc_commit :: "string list \<Rightarrow> coordinator \<Rightarrow> string \<Rightarrow> (coordinator, bool) outcome" where
  "tc_commit order c txn_id =
     (case tc_transactions c txn_id of None \<Rightarrow> (c, Inl ValueError)
      | Some ctx \<Rightarrow>
          if \<not> tx_can_commit ctx (length (tc_involved order ctx)) then (c, Inr False)
          else
            let ctx1 = ctx\<lparr>tx_state := Committing\<rparr>
            in case tc_commit_loop (tc_set_ctx c txn_id ctx1) txn_id (tc_involved order ctx1) of
                 (c1, True) \<Rightarrow> (tc_set_ctx c1 txn_id (ctx1\<lparr>tx_state := Committed\<rparr>), Inr True)
               | (c1, False) \<Rightarrow> (c1, Inr False))"

fun tc_abort_loop :: "coordinator \<Rightarrow> string \<Rightarrow> string list \<Rightarrow> coordinator" where
  "tc_abort_loop c txn_id [] = c"
| "tc_abort_loop c txn_id (pid # pids) = tc_abort_loop (fst (tc_send_abort c txn_id pid)) txn_id pids"

definition tc_abort :: "string list \<Rightarrow> coordinator \<Rightarrow> string \<Rightarrow> coordinator \<times> bool" where
  "tc_abort order c txn_id =
     (case tc_transactions c txn_id of None \<Rightarrow> (c, False)
      | Some ctx \<Rightarrow>
          if tx_state ctx = Committed then (c, False)
          else
            let ctx1 = ctx\<lparr>tx_state := Aborting\<rparr>;
                c1 = tc_abort_loop (tc_set_ctx c txn_id ctx1) txn_id (tc_involved order ctx1)
            in (tc_set_ctx c1 txn_id (ctx1\<lparr>tx_state := Aborted\<rparr>), True))"

definition tc_execute_transaction ::
  "string list \<Rightarrow> coordinator \<Rightarrow> operation list \<Rightarrow> string \<Rightarrow> time \<Rightarrow> (nat \<Rightarrow> time) \<Rightarrow> coordinator \<times> bool" where
  "tc_execute_transaction order c operations txn_id now clock =
     (if list_ex (\<lambda>op. tc_participants c (fst op) = None) operations then (c, False)
      else
        let c1 = tc_begin_transaction c operations txn_id now
        in case tc_prepare c1 txn_id clock of
             (c2, Inr True) \<Rightarrow>
               (case tc_commit order c2 txn_id of
                  (c3, Inr done) \<Rightarrow> (c3, done)
                | (c3, Inl e) \<Rightarrow> (fst (tc_abort order c3 txn_id), False))
           | (c2, _) \<Rightarrow> (fst (tc_abort order c2 txn_id), False))"

section \<open>What the phases do\<close>

text \<open>The switches of the participants, which nothing changes.\<close>

definition tc_flags :: "coordinator \<Rightarrow> string \<Rightarrow> (bool \<times> bool \<times> bool \<times> (operation \<Rightarrow> bool)) option" where
  "tc_flags c pid = map_option
     (\<lambda>p. (tp_should_fail_prepare p, tp_should_fail_commit p, tp_should_fail_abort p, tp_validate p))
     (tc_participants c pid)"

definition votes_yes :: "coordinator \<Rightarrow> string \<times> operation \<Rightarrow> bool" where
  "votes_yes c = (\<lambda>(pid, op). case tc_flags c pid of None \<Rightarrow> False
     | Some (fail_prepare, fail_commit, fail_abort, validate) \<Rightarrow> \<not> fail_prepare \<and> validate op)"

definition commits_ok :: "coordinator \<Rightarrow> string \<Rightarrow> bool" where
  "commits_ok c pid = (case tc_flags c pid of None \<Rightarrow> False
     | Some (fail_prepare, fail_commit, fail_abort, validate) \<Rightarrow> \<not> fail_commit)"

lemma send_prepare_spec:
  assumes "tc_send_prepare c txn pid op = (c1, v)"
  shows "tc_flags c1 = tc_flags c" "tc_transactions c1 = tc_transactions c" "v = Yes \<longleftrightarrow> votes_yes c (pid, op)"
    "tc_trace c1 = tc_trace c @ (if v = Yes then [Prepares pid op] else [])"
proof -
  show "tc_flags c1 = tc_flags c" "tc_transactions c1 = tc_transactions c"
      "tc_trace c1 = tc_trace c @ (if v = Yes then [Prepares pid op] else [])"
    using assms by (auto simp: tc_send_prepare_def tc_flags_def fun_eq_iff tp_prepare_def split: option.splits if_splits)
  show "v = Yes \<longleftrightarrow> votes_yes c (pid, op)"
    using assms by (auto simp: tc_send_prepare_def votes_yes_def tc_flags_def tp_prepare_def split: option.splits if_splits)
qed

lemma send_commit_spec:
  assumes "tc_send_commit c txn pid = (c1, ok)"
  shows "tc_flags c1 = tc_flags c" "tc_transactions c1 = tc_transactions c" "ok = commits_ok c pid"
    "tc_trace c1 = tc_trace c @ (if ok then [Commits pid] else [])"
proof -
  show "tc_flags c1 = tc_flags c" "tc_transactions c1 = tc_transactions c"
      "tc_trace c1 = tc_trace c @ (if ok then [Commits pid] else [])"
    using assms by (auto simp: tc_send_commit_def tc_flags_def fun_eq_iff tp_commit_def split: option.splits if_splits)
  show "ok = commits_ok c pid"
    using assms by (auto simp: tc_send_commit_def commits_ok_def tc_flags_def tp_commit_def split: option.splits if_splits)
qed

lemma flags_determine:
  "tc_flags c1 = tc_flags c \<Longrightarrow> votes_yes c1 = votes_yes c"
  "tc_flags c1 = tc_flags c \<Longrightarrow> commits_ok c1 = commits_ok c"
  by (simp_all add: votes_yes_def commits_ok_def fun_eq_iff)

lemma dict_set_new: "pid \<notin> fst ` set d \<Longrightarrow> dict_set pid v d = d @ [(pid, v)]"
  by (induction d) auto

lemma prepare_loop_spec:
  "tc_prepare_loop c txn ctx clock i ops = (c1, ctx1, r) \<Longrightarrow> distinct (map fst (tx_votes ctx) @ map fst ops) \<Longrightarrow>
    tc_flags c1 = tc_flags c \<and> tc_transactions c1 = tc_transactions c \<and>
    (\<exists>vs. ctx1 = ctx\<lparr>tx_votes := vs\<rparr>) \<and>
    (r \<longleftrightarrow> list_all (votes_yes c) ops \<and> (\<forall>j < length ops. \<not> tx_is_expired ctx (clock (i + j)))) \<and>
    (r \<longrightarrow> tx_votes ctx1 = tx_votes ctx @ map (\<lambda>(pid, op). (pid, Yes)) ops \<and>
       tc_trace c1 = tc_trace c @ map (\<lambda>(pid, op). Prepares pid op) ops) \<and>
    (\<exists>es. tc_trace c1 = tc_trace c @ es \<and> list_all is_prepares es)"
proof (induction c txn ctx clock i ops rule: tc_prepare_loop.induct)
  case (1 c txn ctx clock i)
  then show ?case by (auto intro: exI [of _ "tx_votes ctx"])
next
  case (2 c txn ctx clock i pid op rest)
  show ?case
  proof (cases "tx_is_expired ctx (clock i)")
    case True
    then show ?thesis using 2 by (auto intro: exI [of _ "tx_votes ctx"])
  next
    case False
    obtain c' v where send: "tc_send_prepare c txn pid op = (c', v)" by fastforce
    note sent = send_prepare_spec [OF send]
    let ?ctx = "ctx\<lparr>tx_votes := dict_set pid v (tx_votes ctx)\<rparr>"
    have new: "dict_set pid v (tx_votes ctx) = tx_votes ctx @ [(pid, v)]"
      using 2(3) by (intro dict_set_new) auto
    show ?thesis
    proof (cases v)
      case No
      then show ?thesis using 2(2) False send sent by auto
    next
      case Yes
      have "tc_prepare_loop c' txn ?ctx clock (i + 1) rest = (c1, ctx1, r)"
        using 2(2) False send Yes by simp
      moreover have "distinct (map fst (tx_votes ?ctx) @ map fst rest)" using 2(3) new by auto
      ultimately have IH: "tc_flags c1 = tc_flags c' \<and> tc_transactions c1 = tc_transactions c' \<and>
          (\<exists>vs. ctx1 = ?ctx\<lparr>tx_votes := vs\<rparr>) \<and>
          (r \<longleftrightarrow> list_all (votes_yes c') rest \<and> (\<forall>j < length rest. \<not> tx_is_expired ?ctx (clock (i + 1 + j)))) \<and>
          (r \<longrightarrow> tx_votes ctx1 = tx_votes ?ctx @ map (\<lambda>(pid, op). (pid, Yes)) rest \<and>
            tc_trace c1 = tc_trace c' @ map (\<lambda>(pid, op). Prepares pid op) rest) \<and>
          (\<exists>es. tc_trace c1 = tc_trace c' @ es \<and> list_all is_prepares es)"
        using 2(1) [OF False send [symmetric] refl] Yes by simp
      have all: "(\<forall>j < length ((pid, op) # rest). \<not> tx_is_expired ctx (clock (i + j))) \<longleftrightarrow>
          (\<forall>j < length rest. \<not> tx_is_expired ctx (clock (i + 1 + j)))"
        using False by (auto simp: less_Suc_eq_0_disj)
      show ?thesis
        unfolding all using IH sent Yes new flags_determine(1) [OF sent(1)]
        by (auto simp: tx_is_expired_def)
    qed
  qed
qed

lemma commit_loop_spec:
  "tc_commit_loop c txn pids = (c1, r) \<Longrightarrow> tc_flags c1 = tc_flags c \<and> tc_transactions c1 = tc_transactions c \<and>
    r = list_all (commits_ok c) pids \<and> tc_trace c1 = tc_trace c @ map Commits (filter (commits_ok c) pids)"
proof (induction pids arbitrary: c c1 r)
  case (Cons pid pids)
  obtain c' ok where send: "tc_send_commit c txn pid = (c', ok)" by fastforce
  obtain c2 r2 where rest: "tc_commit_loop c' txn pids = (c2, r2)" by fastforce
  note sent = send_commit_spec [OF send] and IH = Cons.IH [OF rest, unfolded flags_determine(2) [OF send_commit_spec(1) [OF send]]]
  have "c1 = c2" "r = (ok \<and> r2)" using Cons.prems send rest by simp_all
  then show ?case using sent IH by simp
qed simp

lemma abort_loop_spec:
  "tc_transactions (tc_abort_loop c txn pids) = tc_transactions c \<and>
   (\<exists>es. tc_trace (tc_abort_loop c txn pids) = tc_trace c @ es \<and> list_all is_undoes es)"
proof (induction pids arbitrary: c)
  case (Cons pid pids)
  have "tc_transactions (fst (tc_send_abort c txn pid)) = tc_transactions c"
    "\<exists>es. tc_trace (fst (tc_send_abort c txn pid)) = tc_trace c @ es \<and> list_all is_undoes es"
    by (auto simp: tc_send_abort_def list_all_iff split: option.splits prod.splits)
  then show ?case using Cons [of "fst (tc_send_abort c txn pid)"] by force
qed simp

lemma participant_ops_keys:
  "dict_wf (tc_participant_ops ops)" "fst ` set (tc_participant_ops ops) = fst ` set ops"
proof -
  have "dict_wf d \<Longrightarrow> dict_wf (foldl (\<lambda>ops op. dict_set (fst op) op ops) d ops)"
    "fst ` set (foldl (\<lambda>ops op. dict_set (fst op) op ops) d ops) = fst ` set d \<union> fst ` set ops"
    for d :: "(string, operation) dict"
    by (induction ops arbitrary: d) (auto simp: dict_keys_set)
  from this [of "[]"] show "dict_wf (tc_participant_ops ops)"
    "fst ` set (tc_participant_ops ops) = fst ` set ops"
    by (simp_all add: tc_participant_ops_def)
qed

lemma length_participant_ops:
  "tx_operations ctx = ops \<Longrightarrow> length (tc_involved order ctx) = length (tc_participant_ops ops)"
proof -
  assume ops: "tx_operations ctx = ops"
  have "length (tc_participant_ops ops) = card (fst ` set (tc_participant_ops ops))"
    using distinct_card [OF participant_ops_keys(1), of ops] by simp
  also have "\<dots> = length (tc_involved order ctx)"
    by (simp add: participant_ops_keys(2) tc_involved_def ops distinct_card [symmetric])
  finally show ?thesis by simp
qed

section \<open>Atomicity\<close>

text \<open>All involved participants vote yes and no reading of the clock is past the timeout.\<close>

definition tpc_agreed :: "coordinator \<Rightarrow> operation list \<Rightarrow> time \<Rightarrow> (nat \<Rightarrow> time) \<Rightarrow> bool" where
  "tpc_agreed c operations now clock \<longleftrightarrow> operations \<noteq> [] \<and>
     list_all (votes_yes c) (tc_participant_ops operations) \<and>
     (\<forall>j \<le> length (tc_participant_ops operations). \<not> clock j - now > tc_timeout c)"

lemma can_commit_all_yes:
  "tx_can_commit ctx n \<longleftrightarrow> tx_votes ctx \<noteq> [] \<and> length (tx_votes ctx) = n \<and> list_all (\<lambda>(pid, v). v = Yes) (tx_votes ctx)"
  by (simp add: tx_can_commit_def)

lemma prepare_spec:
  assumes "tc_transactions c txn = Some ctx" and "tx_votes ctx = []"
    and "tx_timeout ctx = tc_timeout c" and "tx_start_time ctx = now"
    and "tc_prepare c txn clock = (c1, res)"
  shows "tc_flags c1 = tc_flags c \<and> res = Inr (tpc_agreed c (tx_operations ctx) now clock) \<and>
    (\<exists>es. tc_trace c1 = tc_trace c @ es \<and> list_all is_prepares es) \<and>
    (\<exists>st vs. tc_transactions c1 txn = Some (ctx\<lparr>tx_state := st, tx_votes := vs\<rparr>) \<and> st \<noteq> Committed \<and>
      (tpc_agreed c (tx_operations ctx) now clock \<longrightarrow>
        vs = map (\<lambda>(pid, op). (pid, Yes)) (tc_participant_ops (tx_operations ctx)))) \<and>
    (tpc_agreed c (tx_operations ctx) now clock \<longrightarrow>
      tc_trace c1 = tc_trace c @ map (\<lambda>(pid, op). Prepares pid op) (tc_participant_ops (tx_operations ctx)))"
proof -
  let ?ops = "tc_participant_ops (tx_operations ctx)" and ?ctx = "ctx\<lparr>tx_state := Preparing\<rparr>"
  obtain c2 ctx2 r where loop: "tc_prepare_loop c txn ?ctx clock 0 ?ops = (c2, ctx2, r)"
    by (metis prod_cases3)
  have "distinct (map fst (tx_votes ?ctx) @ map fst ?ops)" using assms(2) participant_ops_keys(1) by simp
  note spec = prepare_loop_spec [OF loop this]
  obtain vs where vs: "ctx2 = ?ctx\<lparr>tx_votes := vs\<rparr>" using spec by blast
  have expired: "tx_is_expired ctx2 (clock j) = tx_is_expired ?ctx (clock j)"
    "tx_is_expired ?ctx (clock j) \<longleftrightarrow> clock j - now > tc_timeout c" for j
    using assms(3,4) by (simp_all add: vs tx_is_expired_def)
  have nonempty: "?ops = [] \<longleftrightarrow> tx_operations ctx = []"
    using participant_ops_keys(2) [of "tx_operations ctx"] by (metis image_is_empty set_empty)
  have can: "r \<Longrightarrow> tx_can_commit ctx2 (length ?ops) \<longleftrightarrow> tx_operations ctx \<noteq> []"
    using spec assms(2) vs nonempty by (auto simp: can_commit_all_yes list_all_iff)
  have upto: "(\<forall>j \<le> n. P j) \<longleftrightarrow> (\<forall>j < n. P j) \<and> P n" for n :: nat and P
    by (metis le_less)
  have agreed: "tpc_agreed c (tx_operations ctx) now clock \<longleftrightarrow>
      r \<and> tx_can_commit ctx2 (length ?ops) \<and> \<not> tx_is_expired ctx2 (clock (length ?ops))"
    using spec can expired by (auto simp: tpc_agreed_def upto)
  show ?thesis
  proof (cases "tpc_agreed c (tx_operations ctx) now clock")
    case True
    then have "c1 = tc_set_ctx c2 txn (ctx2\<lparr>tx_state := Prepared\<rparr>)" "res = Inr True"
      using assms(1,5) loop agreed by (auto simp: tc_prepare_def Let_def)
    then show ?thesis
      using True spec agreed assms(2) vs
      by (auto simp: tc_set_ctx_def tc_flags_def fun_eq_iff intro!: exI [of _ Prepared])
  next
    case False
    then have "c1 = tc_set_ctx c2 txn ctx2" "res = Inr False"
      using assms(1,5) loop agreed by (auto simp: tc_prepare_def Let_def split: bool.splits if_splits)
    then show ?thesis
      using False spec vs
      by (auto simp: tc_set_ctx_def tc_flags_def fun_eq_iff intro!: exI [of _ Preparing])
  qed
qed

lemma commit_spec:
  assumes "tc_transactions c txn = Some ctx" and "tx_can_commit ctx (length (tc_involved order ctx))"
    and "tc_commit order c txn = (c1, res)"
  shows "res = Inr (list_all (commits_ok c) (tc_involved order ctx)) \<and>
    tc_trace c1 = tc_trace c @ map Commits (filter (commits_ok c) (tc_involved order ctx)) \<and>
    map_option tx_state (tc_transactions c1 txn) =
      Some (if list_all (commits_ok c) (tc_involved order ctx) then Committed else Committing)"
proof -
  let ?ctx = "ctx\<lparr>tx_state := Committing\<rparr>" and ?c = "tc_set_ctx c txn (ctx\<lparr>tx_state := Committing\<rparr>)"
  obtain c2 r where loop: "tc_commit_loop ?c txn (tc_involved order ?ctx) = (c2, r)" by fastforce
  have same: "tc_flags ?c = tc_flags c" "tc_trace ?c = tc_trace c" "tc_transactions ?c txn = Some ?ctx"
    "tc_involved order ?ctx = tc_involved order ctx"
    by (simp_all add: tc_set_ctx_def tc_flags_def fun_eq_iff tc_involved_def)
  note spec = commit_loop_spec [OF loop, unfolded flags_determine(2) [OF same(1)] same(2,4)]
  have "c1 = (if r then tc_set_ctx c2 txn (?ctx\<lparr>tx_state := Committed\<rparr>) else c2)" "res = Inr r"
    using assms loop by (auto simp: tc_commit_def Let_def split: bool.splits)
  then show ?thesis using spec same(3) by (auto simp: tc_set_ctx_def)
qed

lemma abort_spec:
  assumes "tc_transactions c txn = Some ctx" and "tx_state ctx \<noteq> Committed"
  shows "map_option tx_state (tc_transactions (fst (tc_abort order c txn)) txn) = Some Aborted \<and>
    (\<exists>es. tc_trace (fst (tc_abort order c txn)) = tc_trace c @ es \<and> list_all is_undoes es)"
  using assms abort_loop_spec [of "tc_set_ctx c txn (ctx\<lparr>tx_state := Aborting\<rparr>)" txn "tc_involved order (ctx\<lparr>tx_state := Aborting\<rparr>)"]
  by (auto simp: tc_abort_def Let_def tc_set_ctx_def)

text \<open>The prepare phase inside \<open>execute_transaction\<close>.\<close>

lemma execute_prepare:
  fixes c txn operations now clock
  defines "c1 \<equiv> tc_begin_transaction c operations txn now"
  shows "\<exists>c2 ctx. tc_prepare c1 txn clock = (c2, Inr (tpc_agreed c operations now clock)) \<and>
    tc_flags c2 = tc_flags c \<and> tc_transactions c2 txn = Some ctx \<and> tx_operations ctx = operations \<and>
    tx_state ctx \<noteq> Committed \<and> (\<exists>es. tc_trace c2 = tc_trace c @ es \<and> list_all is_prepares es) \<and>
    (tpc_agreed c operations now clock \<longrightarrow>
      tx_votes ctx = map (\<lambda>(pid, op). (pid, Yes)) (tc_participant_ops operations) \<and>
      tc_trace c2 = tc_trace c @ map (\<lambda>(pid, op). Prepares pid op) (tc_participant_ops operations))"
proof -
  let ?ctx = "\<lparr>tx_operations = operations, tx_state = Init, tx_votes = [], tx_timeout = tc_timeout c, tx_start_time = now\<rparr>"
  have c1: "tc_transactions c1 txn = Some ?ctx" "tc_flags c1 = tc_flags c" "tc_trace c1 = tc_trace c" "tc_timeout c1 = tc_timeout c"
    by (simp_all add: c1_def tc_begin_transaction_def tc_flags_def fun_eq_iff)
  have same: "tpc_agreed c1 operations now clock = tpc_agreed c operations now clock"
    using flags_determine [OF c1(2)] c1(4) by (simp add: tpc_agreed_def)
  obtain c2 res where prep: "tc_prepare c1 txn clock = (c2, res)" by fastforce
  show ?thesis
    using prepare_spec [OF c1(1) _ _ _ prep, of now] c1 same prep by (auto intro!: exI [of _ c2])
qed

lemma execute_agreed:
  assumes known: "\<not> list_ex (\<lambda>op. tc_participants c (fst op) = None) operations"
    and agreed: "tpc_agreed c operations now clock"
    and run: "tc_execute_transaction order c operations txn now clock = (c', r)"
  shows "tc_trace c' = tc_trace c @ map (\<lambda>(pid, op). Prepares pid op) (tc_participant_ops operations) @
           map Commits (filter (commits_ok c) (set_order order (map fst operations)))"
    "r = list_all (commits_ok c) (set_order order (map fst operations))"
    "map_option tx_state (tc_transactions c' txn) = Some (if r then Committed else Committing)"
proof -
  obtain c2 ctx where prep: "tc_prepare (tc_begin_transaction c operations txn now) txn clock = (c2, Inr True)"
      "tc_flags c2 = tc_flags c" "tc_transactions c2 txn = Some ctx" "tx_operations ctx = operations"
      "tx_votes ctx = map (\<lambda>(pid, op). (pid, Yes)) (tc_participant_ops operations)"
      "tc_trace c2 = tc_trace c @ map (\<lambda>(pid, op). Prepares pid op) (tc_participant_ops operations)"
    using execute_prepare [of c operations txn now clock] agreed by auto
  have "tc_participant_ops operations \<noteq> []"
    using agreed participant_ops_keys(2) [of operations] by (auto simp: tpc_agreed_def)
  then have "tx_can_commit ctx (length (tc_involved order ctx))"
    using prep(4,5) length_participant_ops [of ctx operations] by (auto simp: can_commit_all_yes list_all_iff)
  moreover obtain c3 res3 where commit: "tc_commit order c2 txn = (c3, res3)" by fastforce
  moreover have "tc_involved order ctx = set_order order (map fst operations)" by (simp add: tc_involved_def prep(4))
  ultimately have "res3 = Inr (list_all (commits_ok c) (set_order order (map fst operations)))"
      "tc_trace c3 = tc_trace c2 @ map Commits (filter (commits_ok c) (set_order order (map fst operations)))"
      "map_option tx_state (tc_transactions c3 txn) =
        Some (if list_all (commits_ok c) (set_order order (map fst operations)) then Committed else Committing)"
    using commit_spec [OF prep(3), where order = order] flags_determine(2) [OF prep(2)] by simp_all
  with run known prep(1,6) commit show "tc_trace c' = tc_trace c @ map (\<lambda>(pid, op). Prepares pid op) (tc_participant_ops operations) @
           map Commits (filter (commits_ok c) (set_order order (map fst operations)))"
    "r = list_all (commits_ok c) (set_order order (map fst operations))"
    "map_option tx_state (tc_transactions c' txn) = Some (if r then Committed else Committing)"
    by (auto simp: tc_execute_transaction_def)
qed

lemma execute_refused:
  assumes known: "\<not> list_ex (\<lambda>op. tc_participants c (fst op) = None) operations"
    and no: "\<not> tpc_agreed c operations now clock"
    and run: "tc_execute_transaction order c operations txn now clock = (c', r)"
  shows "\<not> r \<and> (\<exists>ps us. tc_trace c' = tc_trace c @ ps @ us \<and> list_all is_prepares ps \<and> list_all is_undoes us) \<and>
    map_option tx_state (tc_transactions c' txn) = Some Aborted"
proof -
  obtain c2 ctx ps where prep: "tc_prepare (tc_begin_transaction c operations txn now) txn clock = (c2, Inr False)"
      "tc_transactions c2 txn = Some ctx" "tx_state ctx \<noteq> Committed" "tc_trace c2 = tc_trace c @ ps" "list_all is_prepares ps"
    using execute_prepare [of c operations txn now clock] no by auto
  from abort_spec [OF prep(2,3)] obtain us where us:
      "map_option tx_state (tc_transactions (fst (tc_abort order c2 txn)) txn) = Some Aborted"
      "tc_trace (fst (tc_abort order c2 txn)) = tc_trace c2 @ us" "list_all is_undoes us" by blast
  have "c' = fst (tc_abort order c2 txn)" "\<not> r"
    using run known prep(1) by (auto simp: tc_execute_transaction_def)
  with us prep(4,5) show ?thesis by auto
qed

lemma unknown_not_agreed:
  assumes "list_ex (\<lambda>op. tc_participants c (fst op) = None) operations"
  shows "\<not> tpc_agreed c operations now clock"
proof
  assume "tpc_agreed c operations now clock"
  moreover obtain op where "op \<in> set operations" "tc_participants c (fst op) = None"
    using assms by (auto simp: list_ex_iff)
  moreover from this obtain q where "(fst op, q) \<in> set (tc_participant_ops operations)"
    using participant_ops_keys(2) [of operations] by force
  ultimately show False by (force simp: tpc_agreed_def list_all_iff votes_yes_def tc_flags_def)
qed

text \<open>
  C16. A transaction run by \<open>execute_transaction\<close> is atomic: if every involved participant votes
  yes in time, each of them first prepares and then each whose commit does not fail commits, none
  undoes anything, and the result says whether all have committed; otherwise no participant
  commits, the result is false, and the transaction is aborted (or was never begun, for an
  unknown participant).
\<close>

theorem tpc_atomic:
  "case tc_execute_transaction order c operations txn now clock of (c', r) \<Rightarrow>
    if tpc_agreed c operations now clock
    then tc_trace c' = tc_trace c @ map (\<lambda>(pid, op). Prepares pid op) (tc_participant_ops operations) @
           map Commits (filter (commits_ok c) (set_order order (map fst operations))) \<and>
         r = list_all (commits_ok c) (set_order order (map fst operations)) \<and>
         map_option tx_state (tc_transactions c' txn) = Some (if r then Committed else Committing)
    else \<not> r \<and> (\<exists>ps us. tc_trace c' = tc_trace c @ ps @ us \<and> list_all is_prepares ps \<and> list_all is_undoes us) \<and>
         (c' = c \<or> map_option tx_state (tc_transactions c' txn) = Some Aborted)"
proof (cases "list_ex (\<lambda>op. tc_participants c (fst op) = None) operations")
  case True
  then show ?thesis using unknown_not_agreed by (simp add: tc_execute_transaction_def)
next
  case False
  obtain c' r where run: "tc_execute_transaction order c operations txn now clock = (c', r)" by fastforce
  show ?thesis
    using execute_agreed [OF False _ run] execute_refused [OF False _ run] by (simp add: run)
qed

section \<open>What goes wrong\<close>

text \<open>Two accounts; the commits at b fail in the second system.\<close>

definition two_accounts :: "bool \<Rightarrow> coordinator" where
  "two_accounts b_fails = tc_register_participant (tc_register_participant (tc_init 30) ''a'' tp_init) ''b''
     (tp_init\<lparr>tp_should_fail_commit := b_fails\<rparr>)"

definition debit :: "string \<Rightarrow> int \<Rightarrow> operation" where
  "debit pid n = (pid, ''debit'', JInt n)"

text \<open>
  Of several operations for one participant only the last one is prepared: the others vanish
  without a trace, and the transaction reports success.
\<close>

theorem tpc_drops_operations:
  "case tc_execute_transaction [''a'', ''b''] (two_accounts False) [debit ''a'' 1, debit ''a'' 2, debit ''b'' 3] ''t'' 0 (\<lambda>_. 1) of (c, r) \<Rightarrow>
     r \<and> tc_trace c = [Prepares ''a'' (debit ''a'' 2), Prepares ''b'' (debit ''b'' 3), Commits ''a'', Commits ''b'']"
  by (simp add: tc_execute_transaction_def two_accounts_def tc_register_participant_def tc_init_def debit_def
      tp_init_def tc_begin_transaction_def tc_prepare_def tc_participant_ops_def Let_def tx_is_expired_def
      tc_send_prepare_def tp_prepare_def tx_can_commit_def tc_set_ctx_def tc_commit_def tc_involved_def set_order_def
      tc_send_commit_def tp_commit_def)

text \<open>
  After a commit that failed at one participant the coordinator can still abort: the state is
  COMMITTING, which \<open>abort\<close> does not refuse, and the participant that failed to commit undoes its
  operation while the other has committed.
\<close>

theorem tpc_abort_after_partial_commit:
  "case tc_execute_transaction [''a'', ''b''] (two_accounts True) [debit ''a'' 1, debit ''b'' 3] ''t'' 0 (\<lambda>_. 1) of (c, r) \<Rightarrow>
     \<not> r \<and> snd (tc_abort [''a'', ''b''] c ''t'') \<and>
     tc_trace (fst (tc_abort [''a'', ''b''] c ''t'')) = [Prepares ''a'' (debit ''a'' 1), Prepares ''b'' (debit ''b'' 3),
       Commits ''a'', Undoes ''b'' (debit ''b'' 3)] \<and>
     map_option tx_state (tc_transactions (fst (tc_abort [''a'', ''b''] c ''t'')) ''t'') = Some Aborted"
  by (simp add: tc_execute_transaction_def two_accounts_def tc_register_participant_def tc_init_def debit_def
      tp_init_def tc_begin_transaction_def tc_prepare_def tc_participant_ops_def Let_def tx_is_expired_def
      tc_send_prepare_def tp_prepare_def tx_can_commit_def tc_set_ctx_def tc_commit_def tc_involved_def set_order_def
      tc_send_commit_def tp_commit_def tc_abort_def tc_send_abort_def tp_abort_def)

end
