(* ===== verification/Merkle_Tree.thy ===== *)
theory Merkle_Tree
  imports Prelude
begin

text \<open>
  \<open>merkle-trees/src/merkle_tree.py\<close>. The hash (hexadecimal SHA-256 of the encoded text) is a
  parameter \<open>H\<close>. Data blocks are strings, on which Python's \<open>str\<close> is the identity. Every node is a
  leaf or has two children (an odd node is promoted), and keeps the hash and the width that were
  computed when it was made.
\<close>

section \<open>Nodes and trees\<close>

datatype merkle_node =
    is_leaf: Leaf (mn_data: string) (mn_hash: string)
  | Inner (mn_left: merkle_node) (mn_right: merkle_node) (mn_hash: string) (inner_width: nat)

definition mn_width :: "merkle_node \<Rightarrow> nat" where
  "mn_width n = (case n of Leaf d h \<Rightarrow> 1 | Inner l r h w \<Rightarrow> w)"

definition compute_hash :: "(string \<Rightarrow> string) \<Rightarrow> merkle_node \<Rightarrow> string" where
  "compute_hash H n = (case n of Leaf d h \<Rightarrow> H d | Inner l r h w \<Rightarrow> H (mn_hash l @ mn_hash r))"

definition make_leaf :: "(string \<Rightarrow> string) \<Rightarrow> string \<Rightarrow> merkle_node" where
  "make_leaf H data = Leaf data (H data)"

definition make_inner :: "(string \<Rightarrow> string) \<Rightarrow> merkle_node \<Rightarrow> merkle_node \<Rightarrow> merkle_node" where
  "make_inner H left right = Inner left right (H (mn_hash left @ mn_hash right)) (mn_width left + mn_width right)"

fun parent_level :: "(string \<Rightarrow> string) \<Rightarrow> merkle_node list \<Rightarrow> merkle_node list" where
  "parent_level H [] = []"
| "parent_level H [left] = [left]"
| "parent_level H (left # right # nodes) = make_inner H left right # parent_level H nodes"

lemma length_parent_level: "length (parent_level H nodes) = (length nodes + 1) div 2"
  by (induction H nodes rule: parent_level.induct) auto

text \<open>\<open>_build_tree\<close>; it is never called on an empty list.\<close>

function build_tree :: "(string \<Rightarrow> string) \<Rightarrow> merkle_node list \<Rightarrow> merkle_node" where
  "build_tree H nodes =
     (if length nodes \<le> 1 then hd nodes else build_tree H (parent_level H nodes))"
  by pat_completeness auto
termination
  by (relation "measure (\<lambda>(H, nodes). length nodes)") (auto simp: length_parent_level)

declare build_tree.simps [simp del]

record merkle_tree =
  mt_leaves :: "merkle_node list"
  mt_root :: merkle_node

definition mt_init :: "(string \<Rightarrow> string) \<Rightarrow> string list \<Rightarrow> merkle_tree result" where
  "mt_init H data_blocks =
     (if data_blocks = [] then Inl ValueError
      else let leaves = map (make_leaf H) data_blocks
        in Inr \<lparr>mt_leaves = leaves, mt_root = build_tree H leaves\<rparr>)"

definition mt_root_hash :: "merkle_tree \<Rightarrow> string" where
  "mt_root_hash t = mn_hash (mt_root t)"

fun verify_node :: "(string \<Rightarrow> string) \<Rightarrow> merkle_node \<Rightarrow> bool" where
  "verify_node H (Leaf d h) = True"
| "verify_node H (Inner l r h w) =
     (if h \<noteq> compute_hash H (Inner l r h w) then False
      else if \<not> verify_node H l then False
      else if \<not> verify_node H r then False else True)"

definition mt_verify :: "(string \<Rightarrow> string) \<Rightarrow> merkle_tree \<Rightarrow> bool" where
  "mt_verify H t = verify_node H (mt_root t)"

section \<open>Proofs of inclusion\<close>

datatype side = On_Left | On_Right

text \<open>The list is filled from its front: the recursion's later steps come first.\<close>

fun get_proof :: "merkle_node \<Rightarrow> nat \<Rightarrow> (side \<times> string) list \<Rightarrow> (side \<times> string) list" where
  "get_proof (Leaf d h) target_idx proof_steps = proof_steps"
| "get_proof (Inner l r h w) target_idx proof_steps =
     (if target_idx < mn_width l
      then get_proof l target_idx ((On_Right, mn_hash r) # proof_steps)
      else get_proof r (target_idx - mn_width l) ((On_Left, mn_hash l) # proof_steps))"

fun find_index :: "merkle_node list \<Rightarrow> string \<Rightarrow> nat \<Rightarrow> nat option" where
  "find_index [] element i = None"
| "find_index (leaf # leaves) element i =
     (if mn_data leaf = element then Some i else find_index leaves element (i + 1))"

definition mt_generate_proof :: "merkle_tree \<Rightarrow> string \<Rightarrow> (side \<times> string) list result" where
  "mt_generate_proof t element =
     (case find_index (mt_leaves t) element 0 of None \<Rightarrow> Inl ValueError
      | Some index \<Rightarrow> Inr (get_proof (mt_root t) index []))"

definition apply_step :: "(string \<Rightarrow> string) \<Rightarrow> string \<Rightarrow> side \<times> string \<Rightarrow> string" where
  "apply_step H current_hash step =
     (case step of (side, sibling_hash) \<Rightarrow>
        H (if side = On_Left then sibling_hash @ current_hash else current_hash @ sibling_hash))"

definition mt_verify_proof :: "(string \<Rightarrow> string) \<Rightarrow> string \<Rightarrow> string \<Rightarrow> (side \<times> string) list \<Rightarrow> bool" where
  "mt_verify_proof H root_hash element proof_steps \<longleftrightarrow>
     foldl (apply_step H) (H element) proof_steps = root_hash"

section \<open>Differences\<close>

text \<open>
  \<open>_diff_recursive\<close>. Two nodes of different kinds, which trees of equal size do not have at one
  place, have no common children: nothing is reported.
\<close>

fun diff_nodes :: "merkle_node \<Rightarrow> merkle_node \<Rightarrow> nat \<Rightarrow> (nat \<times> string \<times> string) list" where
  "diff_nodes (Leaf d1 h1) n2 offset =
     (if h1 = mn_hash n2 then []
      else case n2 of Leaf d2 h2 \<Rightarrow> [(offset, d1, d2)] | Inner l r h w \<Rightarrow> [])"
| "diff_nodes (Inner l1 r1 h1 w1) n2 offset =
     (if h1 = mn_hash n2 then []
      else case n2 of Leaf d2 h2 \<Rightarrow> []
        | Inner l2 r2 h2 w2 \<Rightarrow> diff_nodes l1 l2 offset @ diff_nodes r1 r2 (offset + mn_width l1))"

definition mt_diff :: "merkle_tree \<Rightarrow> merkle_tree \<Rightarrow> (nat \<times> string \<times> string) list result" where
  "mt_diff t other =
     (if length (mt_leaves t) \<noteq> length (mt_leaves other) then Inl ValueError
      else Inr (diff_nodes (mt_root t) (mt_root other) 0))"

section \<open>Trees that are built\<close>

fun leaf_data :: "merkle_node \<Rightarrow> string list" where
  "leaf_data (Leaf d h) = [d]"
| "leaf_data (Inner l r h w) = leaf_data l @ leaf_data r"

text \<open>The stored hashes and widths are the right ones.\<close>

fun well_hashed :: "(string \<Rightarrow> string) \<Rightarrow> merkle_node \<Rightarrow> bool" where
  "well_hashed H (Leaf d h) \<longleftrightarrow> h = H d"
| "well_hashed H (Inner l r h w) \<longleftrightarrow> h = H (mn_hash l @ mn_hash r) \<and> w = mn_width l + mn_width r \<and>
     well_hashed H l \<and> well_hashed H r"

lemma width_leaves: "well_hashed H n \<Longrightarrow> mn_width n = length (leaf_data n)"
  by (induction n) (auto simp: mn_width_def)

lemma parent_level_spec:
  "list_all (well_hashed H) nodes \<Longrightarrow> list_all (well_hashed H) (parent_level H nodes) \<and>
    concat (map leaf_data (parent_level H nodes)) = concat (map leaf_data nodes)"
  by (induction H nodes rule: parent_level.induct) (auto simp: make_inner_def)

lemma build_tree_spec:
  "nodes \<noteq> [] \<Longrightarrow> list_all (well_hashed H) nodes \<Longrightarrow>
    well_hashed H (build_tree H nodes) \<and> leaf_data (build_tree H nodes) = concat (map leaf_data nodes)"
proof (induction H nodes rule: build_tree.induct)
  case (1 H nodes)
  show ?case
  proof (cases "length nodes \<le> 1")
    case True
    then obtain n where "nodes = [n]" using 1(2) by (cases nodes) auto
    then show ?thesis using 1(3) by (subst (1 2) build_tree.simps) simp
  next
    case False
    then have "parent_level H nodes \<noteq> []"
      using length_parent_level [of H nodes] by (cases "parent_level H nodes") auto
    then show ?thesis
      using 1(1) [OF False] 1(3) parent_level_spec False by (subst (1 2) build_tree.simps) simp
  qed
qed

lemma mt_init_spec:
  assumes "mt_init H blocks = Inr t"
  shows "blocks \<noteq> []" "mt_leaves t = map (make_leaf H) blocks" "well_hashed H (mt_root t)" "leaf_data (mt_root t) = blocks"
proof -
  show "blocks \<noteq> []" "mt_leaves t = map (make_leaf H) blocks"
    using assms by (auto simp: mt_init_def Let_def split: if_splits)
  moreover have "mt_root t = build_tree H (map (make_leaf H) blocks)"
    using assms by (auto simp: mt_init_def Let_def split: if_splits)
  moreover have "list_all (well_hashed H) (map (make_leaf H) bs)" "concat (map leaf_data (map (make_leaf H) bs)) = bs" for bs
    by (induction bs) (auto simp: make_leaf_def)
  ultimately show "well_hashed H (mt_root t)" "leaf_data (mt_root t) = blocks"
    using build_tree_spec [of "map (make_leaf H) blocks" H] by simp_all
qed

lemma well_hashed_verifies: "well_hashed H n \<Longrightarrow> verify_node H n"
  by (induction n) (auto simp: compute_hash_def)

lemma apply_step_simps [simp]:
  "apply_step H c (On_Left, s) = H (s @ c)" "apply_step H c (On_Right, s) = H (c @ s)"
  by (simp_all add: apply_step_def)

lemma get_proof_spec:
  "well_hashed H n \<Longrightarrow> i < length (leaf_data n) \<Longrightarrow>
    \<exists>steps. get_proof n i acc = steps @ acc \<and> foldl (apply_step H) (H (leaf_data n ! i)) steps = mn_hash n"
proof (induction n arbitrary: i acc)
  case (Leaf d h)
  then show ?case by simp
next
  case (Inner l r h w)
  note width = width_leaves [of H l]
  show ?case
  proof (cases "i < mn_width l")
    case True
    then obtain steps where
      "get_proof l i ((On_Right, mn_hash r) # acc) = steps @ (On_Right, mn_hash r) # acc"
      "foldl (apply_step H) (H (leaf_data l ! i)) steps = mn_hash l"
      using Inner.IH(1) [of i "(On_Right, mn_hash r) # acc"] Inner.prems width by auto
    then show ?thesis
      using True Inner.prems width by (intro exI [of _ "steps @ [(On_Right, mn_hash r)]"]) (simp add: nth_append)
  next
    case False
    then have "i - mn_width l < length (leaf_data r)" using Inner.prems width by auto
    then obtain steps where
      "get_proof r (i - mn_width l) ((On_Left, mn_hash l) # acc) = steps @ (On_Left, mn_hash l) # acc"
      "foldl (apply_step H) (H (leaf_data r ! (i - mn_width l))) steps = mn_hash r"
      using Inner.IH(2) [of "i - mn_width l" "(On_Left, mn_hash l) # acc"] Inner.prems width by auto
    then show ?thesis
      using False Inner.prems width by (intro exI [of _ "steps @ [(On_Left, mn_hash l)]"]) (simp add: nth_append)
  qed
qed

lemma find_index_spec:
  "find_index leaves e i = (if e \<in> mn_data ` set leaves
     then Some (i + length (takeWhile (\<lambda>l. mn_data l \<noteq> e) leaves)) else None)"
  by (induction leaves arbitrary: i) auto

lemma first_occurrence:
  "e \<in> set xs \<Longrightarrow> length (takeWhile (\<lambda>b. b \<noteq> e) xs) < length xs \<and> xs ! length (takeWhile (\<lambda>b. b \<noteq> e) xs) = e"
  by (induction xs) auto

text \<open>
  C17. A Merkle tree vouches for its content: whatever the hash function, a tree built from blocks
  verifies, has the blocks as its leaves in their order, and gives for each of them a proof of
  inclusion that checks against its root hash; for any other element it gives an error.
\<close>

theorem merkle_proofs_verify:
  assumes "mt_init H blocks = Inr t"
  shows "mt_verify H t \<and> leaf_data (mt_root t) = blocks \<and>
    (if element \<in> set blocks
     then \<exists>steps. mt_generate_proof t element = Inr steps \<and> mt_verify_proof H (mt_root_hash t) element steps
     else mt_generate_proof t element = Inl ValueError)"
proof -
  note t = mt_init_spec [OF assms]
  let ?i = "length (takeWhile (\<lambda>l. mn_data l \<noteq> element) (mt_leaves t))"
  have data: "mn_data ` set (mt_leaves t) = set blocks"
    using t(2) by (auto simp: make_leaf_def image_iff)
  have "\<exists>steps. mt_generate_proof t element = Inr steps \<and> mt_verify_proof H (mt_root_hash t) element steps"
    if element: "element \<in> set blocks"
  proof -
    have i: "?i = length (takeWhile (\<lambda>b. b \<noteq> element) blocks)"
      by (simp add: t(2) takeWhile_map make_leaf_def comp_def)
    have "?i < length blocks" "blocks ! ?i = element"
      unfolding i using first_occurrence [OF element] by simp_all
    then show ?thesis
      using get_proof_spec [OF t(3), of ?i "[]"] t(4) element data
      by (auto simp: mt_generate_proof_def find_index_spec mt_verify_proof_def mt_root_hash_def)
  qed
  then show ?thesis
    using t(3,4) data well_hashed_verifies by (auto simp: mt_verify_def mt_generate_proof_def find_index_spec)
qed

theorem merkle_proofs_verify_witness:
  "\<exists>t steps. mt_init (\<lambda>s. s) [''a'', ''b'', ''c''] = Inr t \<and> mt_generate_proof t ''c'' = Inr steps \<and>
     mt_verify_proof (\<lambda>s. s) (mt_root_hash t) ''c'' steps"
proof -
  obtain t where t: "mt_init (\<lambda>s. s) [''a'', ''b'', ''c''] = Inr t" by (auto simp: mt_init_def Let_def)
  from merkle_proofs_verify [OF t, of "''c''"] t show ?thesis by auto
qed

section \<open>Differences, exactly\<close>

fun same_shape :: "merkle_node \<Rightarrow> merkle_node \<Rightarrow> bool" where
  "same_shape (Leaf d h) (Leaf d' h') \<longleftrightarrow> True"
| "same_shape (Inner l r h w) (Inner l' r' h' w') \<longleftrightarrow> same_shape l l' \<and> same_shape r r'"
| "same_shape _ _ \<longleftrightarrow> False"

text \<open>The texts that are hashed for a tree.\<close>

fun hash_inputs :: "merkle_node \<Rightarrow> string set" where
  "hash_inputs (Leaf d h) = {d}"
| "hash_inputs (Inner l r h w) = insert (mn_hash l @ mn_hash r) (hash_inputs l \<union> hash_inputs r)"

definition collision_free :: "(string \<Rightarrow> string) \<Rightarrow> merkle_tree \<Rightarrow> merkle_tree \<Rightarrow> bool" where
  "collision_free H t t' \<longleftrightarrow> inj_on H (hash_inputs (mt_root t) \<union> hash_inputs (mt_root t')) \<and>
     (\<exists>k. \<forall>x. length (H x) = k)"

lemma parent_level_shape:
  "list_all2 same_shape ns ms \<Longrightarrow> list_all2 same_shape (parent_level H ns) (parent_level H ms)"
proof (induction H ns arbitrary: ms rule: parent_level.induct)
  case (3 H a b ns)
  then show ?case by (auto simp: list_all2_Cons1 make_inner_def)
qed (auto simp: list_all2_Cons1)

lemma build_tree_shape:
  "ns \<noteq> [] \<Longrightarrow> list_all2 same_shape ns ms \<Longrightarrow> same_shape (build_tree H ns) (build_tree H ms)"
proof (induction H ns arbitrary: ms rule: build_tree.induct)
  case (1 H ns)
  have len: "length ms = length ns" using 1(3) by (simp add: list_all2_lengthD)
  show ?case
  proof (cases "length ns \<le> 1")
    case True
    then obtain n where "ns = [n]" using 1(2) by (cases ns) auto
    then show ?thesis using 1(3) len by (subst (1 2) build_tree.simps) (auto simp: list_all2_Cons1)
  next
    case False
    then have "parent_level H ns \<noteq> []"
      using length_parent_level [of H ns] by (cases "parent_level H ns") auto
    then show ?thesis
      using 1(1) [OF False] parent_level_shape [OF 1(3)] False len by (subst (1 2) build_tree.simps) simp
  qed
qed

lemma equal_hash_equal_data:
  "same_shape n m \<Longrightarrow> well_hashed H n \<Longrightarrow> well_hashed H m \<Longrightarrow> inj_on H (hash_inputs n \<union> hash_inputs m) \<Longrightarrow>
    \<forall>x. length (H x) = k \<Longrightarrow> mn_hash n = mn_hash m \<Longrightarrow> leaf_data n = leaf_data m"
proof (induction n m rule: same_shape.induct)
  case (1 d h d' h')
  have "H d = H d'" using 1(2,3,6) by simp
  then have "d = d'" by (rule inj_onD [OF 1(4)]) simp_all
  then show ?case by simp
next
  case (2 l r h w l' r' h' w')
  have hashed: "\<exists>x. mn_hash n = H x" if "well_hashed H n" for n using that by (cases n) auto
  have "mn_hash l @ mn_hash r = mn_hash l' @ mn_hash r'"
    by (rule inj_onD [OF 2(6)]) (use 2(4,5,8) in auto)
  moreover have "length (mn_hash l) = length (mn_hash l')"
  proof -
    obtain x x' where "mn_hash l = H x" "mn_hash l' = H x'" using hashed [of l] hashed [of l'] 2(4,5) by auto
    then show ?thesis using 2(7) by simp
  qed
  ultimately have "mn_hash l = mn_hash l'" "mn_hash r = mn_hash r'" by simp_all
  moreover have "inj_on H (hash_inputs l \<union> hash_inputs l')" "inj_on H (hash_inputs r \<union> hash_inputs r')"
    by (rule inj_on_subset [OF 2(6)], force)+
  ultimately show ?case using 2(1,2) 2(3-5,7) by simp
qed simp_all

definition differences :: "nat \<Rightarrow> string list \<Rightarrow> string list \<Rightarrow> (nat \<times> string \<times> string) list" where
  "differences i xs ys = filter (\<lambda>(i, x, y). x \<noteq> y) (zip [i ..< i + length xs] (zip xs ys))"

lemma differences_same [simp]: "differences i xs xs = []"
  by (auto simp: differences_def filter_empty_conv in_set_zip)

lemma differences_append:
  assumes "length xs = length ys"
  shows "differences i (xs @ us) (ys @ vs) = differences i xs ys @ differences (i + length xs) us vs"
proof -
  have "[i ..< i + length (xs @ us)] = [i ..< i + length xs] @ [i + length xs ..< i + length xs + length us]"
    using upt_add_eq_append [of i "i + length xs" "length us"] by (simp add: add.assoc)
  then show ?thesis using assms by (simp add: differences_def)
qed

lemma same_shape_length: "same_shape n m \<Longrightarrow> length (leaf_data n) = length (leaf_data m)"
  by (induction n m rule: same_shape.induct) auto

lemma diff_nodes_exact:
  "same_shape n m \<Longrightarrow> well_hashed H n \<Longrightarrow> well_hashed H m \<Longrightarrow> inj_on H (hash_inputs n \<union> hash_inputs m) \<Longrightarrow>
    \<forall>x. length (H x) = k \<Longrightarrow> diff_nodes n m i = differences i (leaf_data n) (leaf_data m)"
proof (induction n m arbitrary: i rule: same_shape.induct)
  case (1 d h d' h')
  have "H d = H d' \<Longrightarrow> d = d'" by (rule inj_onD [OF 1(4)]) simp_all
  then show ?case using 1(2,3) by (cases "d = d'") (auto simp: differences_def)
next
  case (2 l r h w l' r' h' w')
  show ?case
  proof (cases "h = h'")
    case True
    then have "leaf_data (Inner l r h w) = leaf_data (Inner l' r' h' w')"
      using equal_hash_equal_data [OF 2(3-7)] by simp
    then show ?thesis using True by simp
  next
    case False
    have sub: "inj_on H (hash_inputs l \<union> hash_inputs l')" "inj_on H (hash_inputs r \<union> hash_inputs r')"
      by (rule inj_on_subset [OF 2(6)], force)+
    have "length (leaf_data l) = length (leaf_data l')" using 2(3) by (simp add: same_shape_length)
    then show ?thesis
      using 2(1) [of i] 2(2) [of "i + mn_width l"] 2(3-7) sub False width_leaves [of H l]
      by (simp add: differences_append)
  qed
qed simp_all

text \<open>
  \<open>diff\<close> is exact for a hash function that does not collide on the two trees: for trees of
  equally many blocks it lists, in order, exactly the positions at which the blocks differ, with
  both blocks; for trees of different sizes it is an error.
\<close>

theorem merkle_diff_exact:
  assumes "mt_init H xs = Inr t" and "mt_init H ys = Inr t'" and "collision_free H t t'"
  shows "mt_diff t t' = (if length xs = length ys then Inr (differences 0 xs ys) else Inl ValueError)"
proof (cases "length xs = length ys")
  case True
  note x = mt_init_spec [OF assms(1)] and y = mt_init_spec [OF assms(2)]
  have "list_all2 same_shape (map (make_leaf H) xs) (map (make_leaf H) ys)"
    using True by (simp add: list_all2_conv_all_nth make_leaf_def)
  then have "same_shape (build_tree H (map (make_leaf H) xs)) (build_tree H (map (make_leaf H) ys))"
    using x(1) by (intro build_tree_shape) simp_all
  moreover have "mt_root t = build_tree H (map (make_leaf H) xs)" "mt_root t' = build_tree H (map (make_leaf H) ys)"
    using assms(1,2) by (auto simp: mt_init_def Let_def split: if_splits)
  ultimately have "same_shape (mt_root t) (mt_root t')" by simp
  then show ?thesis
    using True diff_nodes_exact [of "mt_root t" "mt_root t'" H _ 0] x y assms(3)
    by (auto simp: mt_diff_def collision_free_def)
next
  case False
  then show ?thesis using mt_init_spec(2) [OF assms(1)] mt_init_spec(2) [OF assms(2)] by (simp add: mt_diff_def)
qed

text \<open>A hash of one character that does not collide on the texts of the example.\<close>

definition tiny_hash :: "string \<Rightarrow> string" where
  "tiny_hash s = (if s = ''ab'' then ''P'' else if s = ''ax'' then ''Q'' else if s = [] then ''Z'' else [hd s])"

theorem merkle_diff_exact_witness:
  "\<exists>t t'. mt_init tiny_hash [''a'', ''b''] = Inr t \<and> mt_init tiny_hash [''a'', ''x''] = Inr t' \<and>
     mt_diff t t' = Inr [(1, ''b'', ''x'')]"
proof -
  define t where "t = projr (mt_init tiny_hash [''a'', ''b''])"
  define t' where "t' = projr (mt_init tiny_hash [''a'', ''x''])"
  have t: "mt_init tiny_hash [''a'', ''b''] = Inr t" "mt_init tiny_hash [''a'', ''x''] = Inr t'"
    by (simp_all add: t_def t'_def mt_init_def Let_def)
  have roots: "mt_root t = Inner (Leaf ''a'' ''a'') (Leaf ''b'' ''b'') ''P'' 2"
    "mt_root t' = Inner (Leaf ''a'' ''a'') (Leaf ''x'' ''x'') ''Q'' 2"
    by (simp_all add: t_def t'_def mt_init_def Let_def build_tree.simps make_inner_def make_leaf_def tiny_hash_def mn_width_def)
  have "collision_free tiny_hash t t'"
    by (auto simp: collision_free_def roots inj_on_def tiny_hash_def)
  from merkle_diff_exact [OF t this] t show ?thesis by (auto simp: differences_def upt_rec)
qed

text \<open>
  Leaves and inner nodes are hashed alike, so a tree also vouches for what it does not
  contain: of every tree with at least two blocks, the concatenated hashes of the root's children
  pass as an element, with an empty proof, although no block has this content if none has the
  length of two hashes.
\<close>

theorem merkle_fake_element:
  assumes "mt_init H blocks = Inr t" and "2 \<le> length blocks"
    and "\<forall>s. length (H s) = k" and "\<forall>b \<in> set blocks. length b \<noteq> 2 * k"
  shows "\<exists>fake. mt_verify_proof H (mt_root_hash t) fake [] \<and> fake \<notin> set blocks"
proof -
  note t = mt_init_spec [OF assms(1)]
  obtain l r h w where root: "mt_root t = Inner l r h w"
    using t(4) assms(2) by (cases "mt_root t") auto
  have hashed: "\<exists>x. mn_hash n = H x" if "well_hashed H n" for n using that by (cases n) auto
  have "length (mn_hash l @ mn_hash r) = 2 * k"
    using hashed [of l] hashed [of r] t(3) root assms(3) by auto
  then have "mn_hash l @ mn_hash r \<notin> set blocks" using assms(4) by blast
  moreover have "mt_verify_proof H (mt_root_hash t) (mn_hash l @ mn_hash r) []"
    using t(3) root by (simp add: mt_verify_proof_def mt_root_hash_def)
  ultimately show ?thesis by blast
qed

theorem merkle_fake_element_witness:
  "\<exists>t fake. mt_init tiny_hash [''a'', ''b''] = Inr t \<and> mt_verify_proof tiny_hash (mt_root_hash t) fake [] \<and>
     fake \<notin> {''a'', ''b''}"
proof -
  obtain t where t: "mt_init tiny_hash [''a'', ''b''] = Inr t" by (auto simp: mt_init_def Let_def)
  have "\<forall>s. length (tiny_hash s) = 1" by (simp add: tiny_hash_def)
  from merkle_fake_element [OF t _ this] t show ?thesis by auto
qed

end
