(* ===== verification/Rate_Limiter.thy ===== *)
theory Rate_Limiter
  imports Prelude
begin

text \<open>
  \<open>rate-limiting/src\<close>: token bucket, leaky bucket, sliding window and adaptive limiters
  (\<open>rate_limiter.py\<close>) and the sliding window in Redis (\<open>distributed_limiter.py\<close>). Each method reads
  the clock once, unless said otherwise; the reading is an argument.
\<close>

definition ZeroDivisionError :: py_error where
  "ZeroDivisionError = OtherException ''ZeroDivisionError''"

record limiter_stats =
  st_requests :: nat
  st_allowed :: nat
  st_rejected :: nat

section \<open>Token bucket\<close>

record token_bucket =
  tb_rate :: rat
  tb_capacity :: rat
  tb_refill_interval :: rat
  tb_tokens :: rat
  tb_last_refill :: time
  tb_stats :: limiter_stats

definition tb_init :: "rat \<Rightarrow> rat \<Rightarrow> rat \<Rightarrow> time \<Rightarrow> token_bucket" where
  "tb_init rate capacity refill_interval now =
     \<lparr>tb_rate = rate, tb_capacity = capacity, tb_refill_interval = refill_interval, tb_tokens = capacity,
      tb_last_refill = now, tb_stats = \<lparr>st_requests = 0, st_allowed = 0, st_rejected = 0\<rparr>\<rparr>"

definition tb_refill :: "token_bucket \<Rightarrow> time \<Rightarrow> (token_bucket, unit) outcome" where
  "tb_refill b now =
     (let elapsed = now - tb_last_refill b
      in if tb_refill_interval b = 0 then (b, Inl ZeroDivisionError)
         else
           let intervals = elapsed / tb_refill_interval b;
               tokens_to_add = intervals * tb_rate b
           in (b\<lparr>tb_tokens := min (tb_capacity b) (tb_tokens b + tokens_to_add), tb_last_refill := now\<rparr>, Inr ()))"

definition tb_allow_request :: "token_bucket \<Rightarrow> rat \<Rightarrow> time \<Rightarrow> (token_bucket, bool) outcome" where
  "tb_allow_request b0 tokens now =
     (case tb_refill b0 now of (b, Inl e) \<Rightarrow> (b, Inl e)
      | (b, Inr _) \<Rightarrow>
          let st = (tb_stats b)\<lparr>st_requests := st_requests (tb_stats b) + 1\<rparr>
          in if tb_tokens b \<ge> tokens
             then (b\<lparr>tb_tokens := tb_tokens b - tokens,
                     tb_stats := st\<lparr>st_allowed := st_allowed st + 1\<rparr>\<rparr>, Inr True)
             else (b\<lparr>tb_stats := st\<lparr>st_rejected := st_rejected st + 1\<rparr>\<rparr>, Inr False))"

text \<open>\<open>get_stats\<close>: requests, allowed, rejected, current tokens and rejection rate.\<close>

definition tb_get_stats :: "token_bucket \<Rightarrow> nat \<times> nat \<times> nat \<times> rat \<times> rat" where
  "tb_get_stats b =
     (let st = tb_stats b
      in (st_requests st, st_allowed st, st_rejected st, tb_tokens b,
          if st_requests st > 0 then of_nat (st_rejected st) / of_nat (st_requests st) else 0))"

text \<open>A sequence of requests (tokens, time): the bucket afterwards and the tokens granted.\<close>

fun tb_run :: "token_bucket \<Rightarrow> (rat \<times> time) list \<Rightarrow> token_bucket \<times> rat" where
  "tb_run b [] = (b, 0)"
| "tb_run b ((n, now) # reqs) =
     (case tb_allow_request b n now of (b1, ans) \<Rightarrow>
       (case tb_run b1 reqs of (b2, granted) \<Rightarrow> (b2, granted + (if ans = Inr True then n else 0))))"

definition tb_ok :: "token_bucket \<Rightarrow> bool" where
  "tb_ok b \<longleftrightarrow> 0 \<le> tb_tokens b \<and> tb_tokens b \<le> tb_capacity b \<and> 0 \<le> tb_rate b \<and> 0 < tb_refill_interval b"

definition tb_speed :: "token_bucket \<Rightarrow> rat" where
  "tb_speed b = tb_rate b / tb_refill_interval b"

lemma tb_allow_spec:
  assumes "tb_ok b" and "0 \<le> n" and "tb_last_refill b \<le> now" and "tb_allow_request b n now = (b1, ans)"
  shows "tb_ok b1 \<and> tb_last_refill b1 = now \<and> tb_speed b1 = tb_speed b \<and> tb_capacity b1 = tb_capacity b \<and>
    tb_tokens b1 + (if ans = Inr True then n else 0) =
      min (tb_capacity b) (tb_tokens b + (now - tb_last_refill b) * tb_speed b)"
proof -
  have "0 \<le> (now - tb_last_refill b) * tb_speed b"
    using assms by (simp add: tb_ok_def tb_speed_def)
  moreover have "(now - tb_last_refill b) / tb_refill_interval b * tb_rate b = (now - tb_last_refill b) * tb_speed b"
    by (simp add: tb_speed_def)
  ultimately show ?thesis
    using assms by (auto simp: tb_allow_request_def tb_refill_def Let_def tb_ok_def tb_speed_def split: if_splits)
qed

lemma tb_run_spec:
  "tb_ok b \<Longrightarrow> list_all (\<lambda>(n, t). 0 \<le> n) reqs \<Longrightarrow> sorted (tb_last_refill b # map snd reqs) \<Longrightarrow>
    tb_run b reqs = (b', granted) \<Longrightarrow>
    tb_ok b' \<and> tb_speed b' = tb_speed b \<and> tb_capacity b' = tb_capacity b \<and>
    tb_last_refill b' = last (tb_last_refill b # map snd reqs) \<and>
    granted + tb_tokens b' \<le> tb_tokens b + (tb_last_refill b' - tb_last_refill b) * tb_speed b"
proof (induction reqs arbitrary: b b' granted)
  case (Cons r reqs)
  obtain n now where r: "r = (n, now)" by (cases r)
  obtain b1 ans where one: "tb_allow_request b n now = (b1, ans)" by fastforce
  obtain b2 g where rest: "tb_run b1 reqs = (b2, g)" by fastforce
  note spec = tb_allow_spec [OF Cons.prems(1) _ _ one]
  have b1: "tb_ok b1" "tb_last_refill b1 = now" "tb_speed b1 = tb_speed b" "tb_capacity b1 = tb_capacity b"
    "tb_tokens b1 + (if ans = Inr True then n else 0) \<le> tb_tokens b + (now - tb_last_refill b) * tb_speed b"
    using spec Cons.prems(2,3) r by auto
  have IH: "tb_ok b2 \<and> tb_speed b2 = tb_speed b1 \<and> tb_capacity b2 = tb_capacity b1 \<and>
      tb_last_refill b2 = last (tb_last_refill b1 # map snd reqs) \<and>
      g + tb_tokens b2 \<le> tb_tokens b1 + (tb_last_refill b2 - tb_last_refill b1) * tb_speed b1"
    by (rule Cons.IH [OF b1(1) _ _ rest]) (use Cons.prems(2,3) r b1(2) in auto)
  have res: "b' = b2" "granted = g + (if ans = Inr True then n else 0)"
    using Cons.prems(4) r one rest by simp_all
  have "granted + tb_tokens b' \<le> tb_tokens b + (now - tb_last_refill b) * tb_speed b + (tb_last_refill b2 - now) * tb_speed b"
  proof -
    have "g + tb_tokens b2 \<le> tb_tokens b1 + (tb_last_refill b2 - now) * tb_speed b"
      using IH unfolding b1(2,3) by blast
    then have "g + (if ans = Inr True then n else 0) + tb_tokens b2 \<le>
        (tb_tokens b1 + (if ans = Inr True then n else 0)) + (tb_last_refill b2 - now) * tb_speed b"
      by (simp add: add.commute add.left_commute)
    also have "\<dots> \<le> tb_tokens b + (now - tb_last_refill b) * tb_speed b + (tb_last_refill b2 - now) * tb_speed b"
      using b1(5) by (rule add_right_mono)
    finally show ?thesis using res by simp
  qed
  also have "\<dots> = tb_tokens b + (tb_last_refill b2 - tb_last_refill b) * tb_speed b"
    by (simp add: algebra_simps)
  finally show ?case using IH b1 res r by simp
qed simp

text \<open>
  C18. The token bucket keeps its promise on every interval: of any sequence of requests, the
  tokens granted to those of a contiguous part are at most the capacity plus what accrues at the
  given rate between the first and the last of them, whatever came before.
\<close>

theorem token_bucket_bound:
  assumes "0 \<le> rate" and "0 \<le> capacity" and "0 < interval"
    and "list_all (\<lambda>(n, t). 0 \<le> n) (before @ (n, t) # reqs)" and "sorted (start # map snd (before @ (n, t) # reqs))"
    and "tb_run (tb_init rate capacity interval start) before = (b, granted_before)"
    and "tb_run b ((n, t) # reqs) = (b', granted)"
  shows "granted \<le> capacity + (last (map snd ((n, t) # reqs)) - t) * (rate / interval)"
proof -
  let ?b0 = "tb_init rate capacity interval start"
  have ok0: "tb_ok ?b0" "tb_last_refill ?b0 = start" "tb_speed ?b0 = rate / interval" "tb_capacity ?b0 = capacity"
    using assms(1-3) by (simp_all add: tb_ok_def tb_init_def tb_speed_def)
  have parts: "list_all (\<lambda>(n, t). 0 \<le> n) before" "sorted (start # map snd before)"
    "0 \<le> n" "list_all (\<lambda>(n, t). 0 \<le> n) reqs" "sorted (t # map snd reqs)" "\<forall>u \<in> set (start # map snd before). u \<le> t"
    using assms(4,5) by (auto simp: sorted_append)
  have b: "tb_ok b" "tb_speed b = rate / interval" "tb_capacity b = capacity"
    "tb_last_refill b = last (start # map snd before)"
    using tb_run_spec [OF ok0(1) parts(1) _ assms(6)] parts(2) ok0 by simp_all
  have "tb_last_refill b \<in> set (start # map snd before)" unfolding b(4) by (rule last_in_set) simp
  then have le: "tb_last_refill b \<le> t" using parts(6) by blast
  obtain b1 ans g where one: "tb_allow_request b n t = (b1, ans)" and rest: "tb_run b1 reqs = (b', g)"
    and granted: "granted = g + (if ans = Inr True then n else 0)"
    using assms(7) by (auto split: prod.splits)
  have b1: "tb_ok b1" "tb_last_refill b1 = t" "tb_speed b1 = rate / interval"
    "tb_tokens b1 + (if ans = Inr True then n else 0) \<le> capacity"
    using tb_allow_spec [OF b(1) parts(3) le one] b(2,3) by simp_all
  have "tb_last_refill b' = last (t # map snd reqs)" "0 \<le> tb_tokens b'"
    "g + tb_tokens b' \<le> tb_tokens b1 + (tb_last_refill b' - t) * (rate / interval)"
    using tb_run_spec [OF b1(1) parts(4) _ rest, unfolded b1(2,3)] parts(5) unfolding tb_ok_def by blast+
  then show ?thesis using granted b1(4) by simp
qed

theorem token_bucket_bound_witness:
  "\<exists>b g b' g'. tb_run (tb_init 1 2 1 0) [(2, 0)] = (b, g) \<and> tb_run b [(1, 1), (1, 3)] = (b', g') \<and>
     g' = 2 \<and> g' \<le> 2 + (3 - 1) * (1 / 1)"
proof -
  obtain b g where b: "tb_run (tb_init 1 2 1 0) [(2, 0)] = (b, g)" by fastforce
  obtain b' g' where b': "tb_run b [(1, 1), (1, 3)] = (b', g')" by fastforce
  have "g' = 2" using b b'
    by (auto simp: tb_allow_request_def tb_refill_def tb_init_def Let_def)
  with token_bucket_bound [OF _ _ _ _ _ b b'] b b' show ?thesis by auto
qed

section \<open>Leaky bucket\<close>

record leaky_stats =
  lst_requests :: nat
  lst_processed :: nat
  lst_dropped :: nat

record leaky_bucket =
  lb_rate :: rat
  lb_capacity :: nat
  lb_interval :: rat
  lb_queue :: "time list"
  lb_last_process :: time
  lb_stats :: leaky_stats

definition lb_init :: "rat \<Rightarrow> nat \<Rightarrow> time \<Rightarrow> leaky_bucket result" where
  "lb_init rate capacity now =
     (if rate = 0 then Inl ZeroDivisionError
      else Inr \<lparr>lb_rate = rate, lb_capacity = capacity, lb_interval = 1 / rate, lb_queue = [],
        lb_last_process = now, lb_stats = \<lparr>lst_requests = 0, lst_processed = 0, lst_dropped = 0\<rparr>\<rparr>)"

text \<open>The loop of \<open>_leak\<close>: each round takes one request off the queue.\<close>

fun leak_loop :: "rat \<Rightarrow> time \<Rightarrow> time list \<Rightarrow> time \<Rightarrow> nat \<Rightarrow> time list \<times> time \<times> nat" where
  "leak_loop interval now [] last_process processed = ([], last_process, processed)"
| "leak_loop interval now (q # queue) last_process processed =
     (if now - last_process \<ge> interval
      then leak_loop interval now queue (last_process + interval) (processed + 1)
      else (q # queue, last_process, processed))"

definition lb_leak :: "leaky_bucket \<Rightarrow> time \<Rightarrow> leaky_bucket" where
  "lb_leak b now =
     (case leak_loop (lb_interval b) now (lb_queue b) (lb_last_process b) (lst_processed (lb_stats b)) of
        (queue, last_process, processed) \<Rightarrow>
          b\<lparr>lb_queue := queue, lb_last_process := last_process,
            lb_stats := (lb_stats b)\<lparr>lst_processed := processed\<rparr>\<rparr>)"

text \<open>\<open>later\<close> is the second reading of the clock, for the entry in the queue.\<close>

definition lb_allow_request :: "leaky_bucket \<Rightarrow> time \<Rightarrow> time \<Rightarrow> leaky_bucket \<times> bool" where
  "lb_allow_request b0 now later =
     (let b = lb_leak b0 now;
          st = (lb_stats b)\<lparr>lst_requests := lst_requests (lb_stats b) + 1\<rparr>
      in if length (lb_queue b) < lb_capacity b
         then (b\<lparr>lb_queue := lb_queue b @ [later], lb_stats := st\<rparr>, True)
         else (b\<lparr>lb_stats := st\<lparr>lst_dropped := lst_dropped st + 1\<rparr>\<rparr>, False))"

definition lb_get_stats :: "leaky_bucket \<Rightarrow> nat \<times> nat \<times> nat \<times> nat \<times> rat" where
  "lb_get_stats b =
     (let st = lb_stats b
      in (lst_requests st, lst_processed st, lst_dropped st, length (lb_queue b),
          if lst_requests st > 0 then of_nat (lst_dropped st) / of_nat (lst_requests st) else 0))"

text \<open>No request is lost: each is processed, dropped or still in the queue.\<close>

definition lb_ok :: "leaky_bucket \<Rightarrow> bool" where
  "lb_ok b \<longleftrightarrow> length (lb_queue b) \<le> lb_capacity b \<and>
     lst_requests (lb_stats b) = lst_processed (lb_stats b) + lst_dropped (lb_stats b) + length (lb_queue b)"

lemma leak_loop_count:
  "leak_loop i now q l p = (q', l', p') \<Longrightarrow> length q' \<le> length q \<and> p' + length q' = p + length q"
  by (induction i now q l p rule: leak_loop.induct) (auto split: if_splits)

lemma lb_allow_ok: "lb_ok b \<Longrightarrow> lb_ok (fst (lb_allow_request b now later))"
  using leak_loop_count [of "lb_interval b" now "lb_queue b" "lb_last_process b" "lst_processed (lb_stats b)"]
  by (auto simp: lb_ok_def lb_allow_request_def lb_leak_def Let_def split: prod.splits)

text \<open>Requests that arrive at one instant.\<close>

fun lb_burst :: "leaky_bucket \<Rightarrow> time \<Rightarrow> nat \<Rightarrow> leaky_bucket \<times> bool list" where
  "lb_burst b now 0 = (b, [])"
| "lb_burst b now (Suc k) =
     (case lb_allow_request b now now of (b1, ok) \<Rightarrow>
       (case lb_burst b1 now k of (b2, oks) \<Rightarrow> (b2, ok # oks)))"

lemma burst_accepted:
  assumes "length (lb_queue b) \<le> 1" and "0 < lb_interval b" and "1 \<le> lb_capacity b"
    and "lb_last_process b + of_nat k * lb_interval b \<le> now"
  shows "snd (lb_burst b now k) = replicate k True"
  using assms
proof (induction k arbitrary: b)
  case (Suc k)
  define b1 where "b1 = fst (lb_allow_request b now now)"
  have "0 \<le> of_nat k * lb_interval b" using Suc.prems(2) by simp
  then have due: "lb_interval b \<le> now - lb_last_process b" "lb_last_process b + lb_interval b + of_nat k * lb_interval b \<le> now"
    using Suc.prems(4) by (simp_all add: algebra_simps)
  have "lb_queue b = [] \<or> (\<exists>q. lb_queue b = [q])"
    using Suc.prems(1) by (cases "lb_queue b") auto
  then have one: "lb_allow_request b now now = (b1, True)" "length (lb_queue b1) \<le> 1" "lb_interval b1 = lb_interval b"
      "lb_capacity b1 = lb_capacity b" "lb_last_process b1 \<le> lb_last_process b + lb_interval b"
    using due Suc.prems(2,3) unfolding b1_def
    by (auto simp: lb_allow_request_def lb_leak_def Let_def)
  have "snd (lb_burst b1 now k) = replicate k True"
    by (rule Suc.IH) (use one due Suc.prems(2,3) in auto)
  then show ?case using one(1) by (simp add: split_beta)
qed simp

text \<open>
  The leaky bucket does not smooth what comes after a pause: while its queue is empty
  \<open>last_process\<close> stands still, and the time that has passed lets a burst through at once. A bucket
  of capacity one that was idle for k of its intervals accepts k requests at one instant.
\<close>

theorem leaky_bucket_burst:
  assumes "0 < rate" and "lb_init rate 1 start = Inr b" and "start + of_nat k / rate \<le> now"
  shows "snd (lb_burst b now k) = replicate k True"
  by (rule burst_accepted) (use assms in \<open>auto simp: lb_init_def split: if_splits\<close>)

theorem leaky_bucket_burst_witness:
  "\<exists>b. lb_init 1 1 0 = Inr b \<and> snd (lb_burst b 100 100) = replicate 100 True"
proof -
  obtain b where b: "lb_init 1 1 0 = Inr b" by (simp add: lb_init_def)
  from leaky_bucket_burst [OF _ b, of 100 100] b show ?thesis by simp
qed

section \<open>Sliding window\<close>

record sliding_window =
  sw_window_size :: rat
  sw_max_requests :: nat
  sw_requests :: "string \<rightharpoonup> time list"

definition sw_init :: "rat \<Rightarrow> nat \<Rightarrow> sliding_window" where
  "sw_init window_size max_requests =
     \<lparr>sw_window_size = window_size, sw_max_requests = max_requests, sw_requests = (\<lambda>_. None)\<rparr>"

definition sw_allow_request :: "sliding_window \<Rightarrow> string \<Rightarrow> time \<Rightarrow> sliding_window \<times> bool" where
  "sw_allow_request w unit_id now =
     (let window_start = now - sw_window_size w;
          old = (case sw_requests w unit_id of None \<Rightarrow> [] | Some l \<Rightarrow> l);
          recent = filter (\<lambda>ts. ts > window_start) old
      in if length recent < sw_max_requests w
         then (w\<lparr>sw_requests := (sw_requests w)(unit_id \<mapsto> recent @ [now])\<rparr>, True)
         else (w\<lparr>sw_requests := (sw_requests w)(unit_id \<mapsto> recent)\<rparr>, False))"

definition sw_get_remaining :: "sliding_window \<Rightarrow> string \<Rightarrow> time \<Rightarrow> nat" where
  "sw_get_remaining w unit_id now =
     (let window_start = now - sw_window_size w
      in case sw_requests w unit_id of None \<Rightarrow> sw_max_requests w
         | Some l \<Rightarrow> sw_max_requests w - length (filter (\<lambda>ts. ts > window_start) l))"

text \<open>Requests (unit, time): the limiter afterwards and the requests it accepted, in order.\<close>

fun sw_run :: "sliding_window \<Rightarrow> (string \<times> time) list \<Rightarrow> sliding_window \<times> (string \<times> time) list" where
  "sw_run w [] = (w, [])"
| "sw_run w ((u, now) # reqs) =
     (case sw_allow_request w u now of (w1, ok) \<Rightarrow>
       (case sw_run w1 reqs of (w2, accepted) \<Rightarrow> (w2, (if ok then [(u, now)] else []) @ accepted)))"

definition times_of :: "string \<Rightarrow> (string \<times> time) list \<Rightarrow> time list" where
  "times_of u accepted = map snd (filter (\<lambda>(v, t). v = u) accepted)"

definition in_window :: "rat \<Rightarrow> time \<Rightarrow> time list \<Rightarrow> nat" where
  "in_window width now ts = length (filter (\<lambda>t. now - width < t \<and> t \<le> now) ts)"

text \<open>
  What the limiter keeps of the requests \<open>acc\<close> accepted so far, the last of them not after \<open>now\<close>:
  at least those of any window that is still open; and no window holds more than the maximum.
\<close>

definition sw_inv :: "sliding_window \<Rightarrow> (string \<times> time) list \<Rightarrow> time \<Rightarrow> bool" where
  "sw_inv w acc now \<longleftrightarrow> (\<forall>u.
     (\<forall>t \<in> set (times_of u acc). t \<le> now) \<and>
     (\<forall>s. now \<le> s \<longrightarrow> filter (\<lambda>t. s - sw_window_size w < t) (case sw_requests w u of None \<Rightarrow> [] | Some l \<Rightarrow> l) =
        filter (\<lambda>t. s - sw_window_size w < t) (times_of u acc)) \<and>
     (\<forall>s. in_window (sw_window_size w) s (times_of u acc) \<le> sw_max_requests w))"

lemma times_of_snoc: "times_of u (acc @ [(v, t)]) = times_of u acc @ (if v = u then [t] else [])"
  by (simp add: times_of_def)

definition kept :: "sliding_window \<Rightarrow> string \<Rightarrow> time list" where
  "kept w u = (case sw_requests w u of None \<Rightarrow> [] | Some l \<Rightarrow> l)"

lemma filter_later: "now \<le> (s :: rat) \<Longrightarrow> filter (\<lambda>t. s - W < t) (filter (\<lambda>t. now - W < t) ts) = filter (\<lambda>t. s - W < t) ts"
  by (induction ts) auto

lemma in_window_le: "now \<le> s \<Longrightarrow> in_window W s ts \<le> length (filter (\<lambda>t. now - W < t) ts)"
  by (induction ts) (auto simp: in_window_def)

lemma in_window_now: "\<forall>t \<in> set ts. t \<le> now \<Longrightarrow> in_window W now ts = length (filter (\<lambda>t. now - W < t) ts)"
  by (induction ts) (auto simp: in_window_def)

lemma sw_allow_inv:
  assumes inv: "sw_inv w acc now" and later: "now \<le> now'" and run: "sw_allow_request w u now' = (w', ok)"
  shows "sw_inv w' (acc @ (if ok then [(u, now')] else [])) now'"
    "ok \<longleftrightarrow> in_window (sw_window_size w) now' (times_of u acc) < sw_max_requests w"
    "sw_window_size w' = sw_window_size w" "sw_max_requests w' = sw_max_requests w"
proof -
  let ?W = "sw_window_size w" and ?recent = "filter (\<lambda>t. now' - sw_window_size w < t) (times_of u acc)"
  have old: "\<forall>t \<in> set (times_of v acc). t \<le> now'" for v using inv later by (fastforce simp: sw_inv_def)
  have kept: "filter (\<lambda>t. s - ?W < t) (kept w v) = filter (\<lambda>t. s - ?W < t) (times_of v acc)" if "now' \<le> s" for s v
    using inv later that by (auto simp: sw_inv_def kept_def)
  have bound: "in_window ?W s (times_of v acc) \<le> sw_max_requests w" for s v
    using inv by (simp add: sw_inv_def)
  have res: "ok \<longleftrightarrow> length ?recent < sw_max_requests w"
      "w' = w\<lparr>sw_requests := (sw_requests w)(u \<mapsto> ?recent @ (if ok then [now'] else []))\<rparr>"
    using run kept [of now' u] by (auto simp: sw_allow_request_def Let_def kept_def split: if_splits)
  show "sw_window_size w' = ?W" "sw_max_requests w' = sw_max_requests w" by (simp_all add: res(2))
  show "ok \<longleftrightarrow> in_window ?W now' (times_of u acc) < sw_max_requests w"
    using res(1) in_window_now [OF old] by simp
  let ?acc = "acc @ (if ok then [(u, now')] else [])"
  have new: "times_of v ?acc = times_of v acc @ (if v = u \<and> ok then [now'] else [])" for v
    by (simp add: times_of_def)
  have "in_window ?W s (times_of v ?acc) \<le> sw_max_requests w" for s v
  proof (cases "v = u \<and> ok \<and> now' \<le> s")
    case True
    then have "in_window ?W s (times_of u acc @ [now']) \<le> length ?recent + 1"
      using in_window_le [of now' s ?W "times_of u acc"] by (simp add: in_window_def)
    then show ?thesis using True new res(1) by simp
  next
    case False
    then have "in_window ?W s (times_of v ?acc) = in_window ?W s (times_of v acc)"
      by (auto simp: new in_window_def)
    then show ?thesis using bound by simp
  qed
  moreover have "filter (\<lambda>t. s - ?W < t) (kept w' v) = filter (\<lambda>t. s - ?W < t) (times_of v ?acc)" if "now' \<le> s" for s v
    using kept [OF that, of v] filter_later [OF that] new [of v] by (auto simp: res(2) kept_def)
  ultimately show "sw_inv w' ?acc now'"
    using old new by (auto simp: sw_inv_def res(2) kept_def)
qed

lemma sw_run_inv:
  "sw_inv w acc now \<Longrightarrow> sorted (now # map snd reqs) \<Longrightarrow> sw_run w reqs = (w', accepted) \<Longrightarrow>
    sw_inv w' (acc @ accepted) (last (now # map snd reqs)) \<and> sw_window_size w' = sw_window_size w \<and>
    sw_max_requests w' = sw_max_requests w"
proof (induction reqs arbitrary: w acc now accepted)
  case (Cons r reqs)
  obtain u now1 where r: "r = (u, now1)" by (cases r)
  obtain w1 ok where one: "sw_allow_request w u now1 = (w1, ok)" by fastforce
  obtain accepted' where rest: "sw_run w1 reqs = (w', accepted')"
    and acc: "accepted = (if ok then [(u, now1)] else []) @ accepted'"
    using Cons.prems(3) r one by (auto split: prod.splits)
  have "now \<le> now1" "sorted (now1 # map snd reqs)" using Cons.prems(2) r by auto
  note step = sw_allow_inv [OF Cons.prems(1) this(1) one]
  from Cons.IH [OF step(1) \<open>sorted (now1 # map snd reqs)\<close> rest] show ?case using step(3,4) acc r by simp
qed simp

text \<open>
  C19. The sliding window is exact: of any sequence of requests in the order of time, no window
  of the given size holds more accepted requests of one unit than the maximum, and the next
  request of a unit is accepted exactly when the window that ends with it holds fewer; what other
  units request does not matter.
\<close>

theorem sliding_window_exact:
  assumes "sorted (map snd reqs)" and "sw_run (sw_init width limit) reqs = (w, accepted)"
    and "\<forall>r \<in> set reqs. snd r \<le> now"
  shows "(\<forall>u s. in_window width s (times_of u accepted) \<le> limit) \<and>
    (snd (sw_allow_request w unit_id now) \<longleftrightarrow> in_window width now (times_of unit_id accepted) < limit)"
proof -
  define start where "start = (if reqs = [] then now else snd (hd reqs))"
  have "sorted (start # map snd reqs)" using assms(1) by (cases reqs) (auto simp: start_def)
  moreover have "sw_inv (sw_init width limit) [] start"
    by (simp add: sw_inv_def sw_init_def times_of_def in_window_def)
  ultimately have inv: "sw_inv w accepted (last (start # map snd reqs))"
      "sw_window_size w = width" "sw_max_requests w = limit"
    using sw_run_inv [OF _ _ assms(2), of "[]" start] by (simp_all add: sw_init_def)
  have "last (start # map snd reqs) \<in> set (start # map snd reqs)" by (rule last_in_set) simp
  then have "last (start # map snd reqs) \<le> now" using assms(3) by (cases reqs) (auto simp: start_def)
  moreover obtain w' ok where "sw_allow_request w unit_id now = (w', ok)" by fastforce
  ultimately have "snd (sw_allow_request w unit_id now) \<longleftrightarrow> in_window width now (times_of unit_id accepted) < limit"
    using sw_allow_inv(2) [OF inv(1)] inv(2,3) by simp
  moreover have "in_window width s (times_of u accepted) \<le> limit" for u s
    using inv by (simp add: sw_inv_def)
  ultimately show ?thesis by blast
qed

theorem sliding_window_exact_witness:
  "\<exists>w accepted. sw_run (sw_init 10 2) [(''u'', 0), (''u'', 1), (''v'', 2), (''u'', 5)] = (w, accepted) \<and>
     times_of ''u'' accepted = [0, 1] \<and> in_window 10 5 (times_of ''u'' accepted) \<le> 2 \<and>
     snd (sw_allow_request w ''u'' 10)"
proof -
  obtain w accepted where run: "sw_run (sw_init 10 2) [(''u'', 0), (''u'', 1), (''v'', 2), (''u'', 5)] = (w, accepted)"
    by fastforce
  then have "times_of ''u'' accepted = [0, 1]"
    by (auto simp: sw_allow_request_def sw_init_def times_of_def Let_def)
  moreover from this have "in_window 10 10 (times_of ''u'' accepted) < 2" by (simp add: in_window_def)
  moreover have "sorted (map snd [(''u'', 0 :: rat), (''u'', 1), (''v'', 2), (''u'', 5)])" by simp
  from sliding_window_exact [OF this run, of 10 "''u''"]
  have "(\<forall>u s. in_window 10 s (times_of u accepted) \<le> 2) \<and>
      snd (sw_allow_request w ''u'' 10) = (in_window 10 10 (times_of ''u'' accepted) < 2)" by simp
  ultimately show ?thesis using run by blast
qed

section \<open>Adaptive limiter\<close>

record adaptive_limiter =
  al_base_rate :: rat
  al_current_rate :: rat
  al_min_rate :: rat
  al_max_rate :: rat
  al_limiter :: token_bucket

definition al_init :: "rat \<Rightarrow> rat \<Rightarrow> rat option \<Rightarrow> time \<Rightarrow> adaptive_limiter" where
  "al_init base_rate min_rate max_rate now =
     \<lparr>al_base_rate = base_rate, al_current_rate = base_rate, al_min_rate = min_rate,
      al_max_rate = (case max_rate of None \<Rightarrow> base_rate * 10 | Some r \<Rightarrow> if r = 0 then base_rate * 10 else r),
      al_limiter = tb_init base_rate (base_rate * 2) 1 now\<rparr>"

definition al_adjust_rate :: "adaptive_limiter \<Rightarrow> rat \<Rightarrow> adaptive_limiter" where
  "al_adjust_rate a load_factor =
     (let current_rate =
        (if load_factor > 9 / 10 then max (al_min_rate a) (al_current_rate a * (9 / 10))
         else if load_factor < 1 / 2 then min (al_max_rate a) (al_current_rate a * (11 / 10))
         else al_current_rate a)
      in a\<lparr>al_current_rate := current_rate, al_limiter := (al_limiter a)\<lparr>tb_rate := current_rate\<rparr>\<rparr>)"

definition al_allow_request :: "adaptive_limiter \<Rightarrow> time \<Rightarrow> (adaptive_limiter, bool) outcome" where
  "al_allow_request a now =
     (case tb_allow_request (al_limiter a) 1 now of (b, r) \<Rightarrow> (a\<lparr>al_limiter := b\<rparr>, r))"

lemma al_adjust_bounds:
  assumes "0 \<le> al_min_rate a" "al_min_rate a \<le> al_current_rate a" "al_current_rate a \<le> al_max_rate a"
  shows "al_min_rate a \<le> al_current_rate (al_adjust_rate a load)"
    "al_current_rate (al_adjust_rate a load) \<le> al_max_rate a"
    "tb_rate (al_limiter (al_adjust_rate a load)) = al_current_rate (al_adjust_rate a load)"
  using assms by (auto simp: al_adjust_rate_def Let_def min_def max_def)

section \<open>The sliding window in Redis\<close>

text \<open>
  The Lua script on one key's sorted set. Members and scores are both the time of the request,
  so the set is a list of distinct times; the key's own expiry, after the window is over, drops
  only what the next call would remove.
\<close>

type_synonym zset = "time list"

definition redis_script :: "zset \<Rightarrow> rat \<Rightarrow> nat \<Rightarrow> time \<Rightarrow> zset \<times> nat" where
  "redis_script z window limit now =
     (let clear_before = now - window;
          z1 = filter (\<lambda>score. \<not> (0 \<le> score \<and> score \<le> clear_before)) z;
          count = length z1
      in if count < limit then (List.insert now z1, 1) else (z1, 0))"

type_synonym redis_limiter = "string \<rightharpoonup> zset"

definition rl_zset :: "redis_limiter \<Rightarrow> string \<Rightarrow> zset" where
  "rl_zset r key = (case r key of None \<Rightarrow> [] | Some z \<Rightarrow> z)"

definition redis_allow_request :: "string \<Rightarrow> redis_limiter \<Rightarrow> string \<Rightarrow> nat \<Rightarrow> rat \<Rightarrow> time \<Rightarrow> redis_limiter \<times> bool" where
  "redis_allow_request key_prefix r key max_requests window now =
     (let full_key = key_prefix @ '':'' @ key;
          (z, res) = redis_script (rl_zset r full_key) window max_requests now
      in (r(full_key \<mapsto> z), res \<noteq> 0))"

definition redis_get_remaining :: "string \<Rightarrow> redis_limiter \<Rightarrow> string \<Rightarrow> nat \<Rightarrow> rat \<Rightarrow> time \<Rightarrow> redis_limiter \<times> nat" where
  "redis_get_remaining key_prefix r key max_requests window now =
     (let full_key = key_prefix @ '':'' @ key;
          z = filter (\<lambda>score. \<not> (0 \<le> score \<and> score \<le> now - window)) (rl_zset r full_key)
      in (r(full_key \<mapsto> z), max_requests - length z))"

fun redis_burst :: "string \<Rightarrow> redis_limiter \<Rightarrow> string \<Rightarrow> nat \<Rightarrow> rat \<Rightarrow> time \<Rightarrow> nat \<Rightarrow> bool list" where
  "redis_burst key_prefix r key limit window now 0 = []"
| "redis_burst key_prefix r key limit window now (Suc k) =
     (case redis_allow_request key_prefix r key limit window now of
        (r', ok) \<Rightarrow> ok # redis_burst key_prefix r' key limit window now k)"

text \<open>
  The Redis limiter does not limit requests of one instant: the time is the member of the
  sorted set, a second request of the same time adds nothing, and with a limit of at least two
  any number of requests with one clock reading is accepted.
\<close>

theorem redis_same_instant_unlimited:
  assumes "2 \<le> limit" and "0 < window"
  shows "redis_burst key_prefix (\<lambda>_. None) key limit window now k = replicate k True"
proof -
  have "redis_burst key_prefix r key limit window now k = replicate k True"
    if "rl_zset r (key_prefix @ '':'' @ key) \<in> {[], [now]}" for r
    using that
  proof (induction k arbitrary: r)
    case (Suc k)
    let ?key = "key_prefix @ '':'' @ key"
    have "redis_script (rl_zset r ?key) window limit now = ([now], 1)"
      using Suc.prems assms by (auto simp: redis_script_def Let_def)
    then have "redis_allow_request key_prefix r key limit window now = (r(?key \<mapsto> [now]), True)"
      by (simp add: redis_allow_request_def)
    then show ?case using Suc.IH [of "r(?key \<mapsto> [now])"] by (simp add: rl_zset_def fun_upd_def)
  qed simp
  then show ?thesis by (simp add: rl_zset_def)
qed

theorem redis_same_instant_unlimited_witness:
  "redis_burst ''ratelimit'' (\<lambda>_. None) ''u'' 2 60 1000 50 = replicate 50 True"
  by (rule redis_same_instant_unlimited) simp_all

end
