(* ===== verification/Quorum.thy ===== *)
theory Quorum
  imports Prelude
begin

text \<open>
  \<open>quorum-systems/src/quorum_system.py\<close>: the N/W/R configuration and its validation, worst-case
  quorum intersection, read repair, sloppy quorums, hinted handoff and the coordinator.

  A coordinator gives every replica's read or write to its thread pool and waits for each result
  with a timeout. Which waits end in time is decided outside the program, so it is an argument:
  \<open>answered i\<close> says it for the i-th replica. A write whose wait timed out is not cancelled; it
  stays with the pool (\<open>qc_pending\<close>) and takes effect whenever the pool gets to it
  (\<open>qc_late_write\<close>). A Python value is \<open>'v option\<close>, \<open>None\<close> being Python's.
\<close>

section \<open>Levels and configuration\<close>

datatype consistency_level = ONE | TWO | THREE | QUORUM | ALL_N | LOCAL_ONE

fun level_read_quorum :: "consistency_level \<Rightarrow> int" where
  "level_read_quorum ONE = 1"
| "level_read_quorum LOCAL_ONE = 1"
| "level_read_quorum TWO = 2"
| "level_read_quorum THREE = 3"
| "level_read_quorum ALL_N = 100"
| "level_read_quorum QUORUM = 2"

definition allows_stale_reads :: "consistency_level \<Rightarrow> bool" where
  "allows_stale_reads l \<longleftrightarrow> l \<in> {ONE, LOCAL_ONE}"

definition is_local_only :: "consistency_level \<Rightarrow> bool" where
  "is_local_only l \<longleftrightarrow> l = LOCAL_ONE"

fun expected_latency_ms :: "consistency_level \<Rightarrow> int" where
  "expected_latency_ms ONE = 10"
| "expected_latency_ms LOCAL_ONE = 10"
| "expected_latency_ms TWO = 20"
| "expected_latency_ms THREE = 30"
| "expected_latency_ms QUORUM = 50"
| "expected_latency_ms ALL_N = 100"

record quorum_config =
  cfg_N :: int
  cfg_W :: int
  cfg_R :: int

definition new_config :: "int \<Rightarrow> int \<Rightarrow> int \<Rightarrow> quorum_config result" where
  "new_config n w r =
     (if n < 1 then Inl ValueError
      else if w > n then Inl ValueError
      else if r > n then Inl ValueError
      else Inr \<lparr>cfg_N = n, cfg_W = w, cfg_R = r\<rparr>)"

definition is_strongly_consistent :: "quorum_config \<Rightarrow> bool" where
  "is_strongly_consistent c \<longleftrightarrow> cfg_W c + cfg_R c > cfg_N c"

definition is_eventually_consistent :: "quorum_config \<Rightarrow> bool" where
  "is_eventually_consistent c \<longleftrightarrow> \<not> is_strongly_consistent c"

definition can_detect_missing_writes :: "quorum_config \<Rightarrow> bool" where
  "can_detect_missing_writes c \<longleftrightarrow> is_strongly_consistent c"

definition get_quorum_intersection :: "quorum_config \<Rightarrow> int set" where
  "get_quorum_intersection c =
     (let write_set = {0 ..< cfg_W c};
          read_start = cfg_N c - cfg_R c;
          read_set = {read_start ..< cfg_N c}
      in write_set \<inter> read_set)"

definition detect_write_conflicts :: "nat set list \<Rightarrow> int \<Rightarrow> nat list" where
  "detect_write_conflicts write_sets read_quorum_size = []"

section \<open>Read repair, sloppy quorums\<close>

definition identify_repairs :: "int list \<Rightarrow> nat set" where
  "identify_repairs versions =
     (if versions = [] then {}
      else let max_version = Max (set versions)
           in set (filter (\<lambda>i. versions ! i < max_version) [0 ..< length versions]))"

definition identify_async_repairs :: "int list \<Rightarrow> int \<Rightarrow> nat set" where
  "identify_async_repairs versions timeout_ms = identify_repairs versions"

lemma identify_repairs_exact:
  "i \<in> identify_repairs vs \<longleftrightarrow> i < length vs \<and> (\<exists>j < length vs. vs ! i < vs ! j)"
  by (auto simp: identify_repairs_def Let_def Max_gr_iff) (auto simp: in_set_conv_nth intro: nth_mem)

text \<open>\<open>xs[:k]\<close> for any integer: a negative one counts from the end.\<close>

definition slice_to :: "int \<Rightarrow> 'a list \<Rightarrow> 'a list" where
  "slice_to k xs = (if 0 \<le> k then take (nat k) xs else take (length xs - nat (- k)) xs)"

definition choose_replicas :: "nat set \<Rightarrow> nat set \<Rightarrow> int \<Rightarrow> bool \<Rightarrow> nat set" where
  "choose_replicas available preferred quorum_size allow_partial =
     (let preferred_available = preferred \<inter> available;
          chosen =
            (if int (card preferred_available) > quorum_size
             then set (slice_to quorum_size (sorted_list_of_set preferred_available))
             else preferred_available)
      in if int (card chosen) < quorum_size
         then let others = available - chosen;
                  needed = quorum_size - int (card chosen)
              in chosen \<union> set (slice_to needed (sorted_list_of_set others))
         else chosen)"

lemma card_take_sorted:
  "finite (A :: nat set) \<Longrightarrow> card (set (take n (sorted_list_of_set A))) = min n (card A)"
  by (subst distinct_card) (auto intro: distinct_take)

text \<open>
  As many replicas as asked for, or all there are; preferred ones first; none that is not available.
\<close>

lemma choose_replicas_spec:
  assumes "finite available" and "0 \<le> q"
  shows "choose_replicas available preferred q p \<subseteq> available"
    "card (choose_replicas available preferred q p) = min (nat q) (card available)"
    "preferred \<inter> available \<subseteq> choose_replicas available preferred q p \<or>
       choose_replicas available preferred q p \<subseteq> preferred"
proof -
  let ?P = "preferred \<inter> available"
  let ?t = "take (nat (q - int (card ?P))) (sorted_list_of_set (available - ?P))"
  have fin: "finite ?P" "finite (available - ?P)" using assms(1) by auto
  have le: "card ?P \<le> card available" using assms(1) by (intro card_mono) auto
  have sub: "set ?t \<subseteq> available - ?P" using fin(2) by (metis set_sorted_list_of_set set_take_subset)
  then have disj: "?P \<inter> set ?t = {}" by blast
  have rest: "card (available - ?P) = card available - card ?P"
    by (rule card_Diff_subset) (use fin in auto)
  have top: "set (take (nat q) (sorted_list_of_set ?P)) \<subseteq> ?P"
    using fin(1) by (metis set_sorted_list_of_set set_take_subset)
  consider (many) "q < int (card ?P)" | (exact) "q = int (card ?P)" | (few) "int (card ?P) < q" by linarith
  then have res: "choose_replicas available preferred q p =
      (if q < int (card ?P) then set (take (nat q) (sorted_list_of_set ?P)) else ?P \<union> set ?t)"
  proof cases
    case many
    then have "card (set (take (nat q) (sorted_list_of_set ?P))) = nat q"
      using fin(1) assms(2) by (simp add: card_take_sorted)
    with many assms(2) show ?thesis by (simp add: choose_replicas_def slice_to_def)
  qed (auto simp: choose_replicas_def slice_to_def Let_def)
  have "card (?P \<union> set ?t) = card ?P + card (set ?t)"
    using fin(1) disj by (intro card_Un_disjoint) auto
  moreover have "card (set ?t) = min (nat (q - int (card ?P))) (card (available - ?P))"
    using fin(2) by (rule card_take_sorted)
  ultimately have few: "card (?P \<union> set ?t) = min (nat q) (card available)" if "int (card ?P) \<le> q"
    using that le rest by linarith
  have many: "card (set (take (nat q) (sorted_list_of_set ?P))) = min (nat q) (card ?P)"
    using fin(1) by (rule card_take_sorted)
  show "choose_replicas available preferred q p \<subseteq> available"
    unfolding res using top sub by (cases "q < int (card ?P)") auto
  show "card (choose_replicas available preferred q p) = min (nat q) (card available)"
    unfolding res using many few le assms(2) by (cases "q < int (card ?P)") simp_all
  show "preferred \<inter> available \<subseteq> choose_replicas available preferred q p \<or>
       choose_replicas available preferred q p \<subseteq> preferred"
    unfolding res using top by (cases "q < int (card ?P)") auto
qed

section \<open>Hinted handoff\<close>

record 'v hint =
  h_key :: string
  h_value :: "'v option"
  h_temp_node :: nat
  h_ttl :: int
  h_timestamp :: time

type_synonym 'v hinted_handoff = "nat \<rightharpoonup> 'v hint list"

definition write_hint :: "'v hinted_handoff \<Rightarrow> string \<Rightarrow> 'v option \<Rightarrow> nat \<Rightarrow> nat \<Rightarrow> int \<Rightarrow> time \<Rightarrow> 'v hinted_handoff" where
  "write_hint hints key val intended temporary ttl_sec now =
     hints(intended \<mapsto> (case hints intended of None \<Rightarrow> [] | Some l \<Rightarrow> l) @
       [\<lparr>h_key = key, h_value = val, h_temp_node = temporary, h_ttl = ttl_sec, h_timestamp = now\<rparr>])"

definition get_hints_for_replica :: "'v hinted_handoff \<Rightarrow> nat \<Rightarrow> 'v hint list" where
  "get_hints_for_replica hints replica_id = (case hints replica_id of None \<Rightarrow> [] | Some l \<Rightarrow> l)"

definition deliver_hints :: "'v hinted_handoff \<Rightarrow> nat \<Rightarrow> 'v hinted_handoff \<times> 'v hint list" where
  "deliver_hints hints replica_id =
     (case hints replica_id of Some delivered \<Rightarrow> (hints(replica_id := None), delivered) | None \<Rightarrow> (hints, []))"

text \<open>A hint is delivered once, in order, and to its replica only.\<close>

lemma deliver_hints_once:
  "snd (deliver_hints hints r) = get_hints_for_replica hints r"
  "get_hints_for_replica (fst (deliver_hints hints r)) r' = (if r' = r then [] else get_hints_for_replica hints r')"
  "get_hints_for_replica (write_hint hints k v r t ttl now) r' =
     get_hints_for_replica hints r' @
       (if r' = r then [\<lparr>h_key = k, h_value = v, h_temp_node = t, h_ttl = ttl, h_timestamp = now\<rparr>] else [])"
  by (auto simp: deliver_hints_def get_hints_for_replica_def write_hint_def split: option.splits)

section \<open>Coordinator\<close>

definition QuorumNotMetError :: py_error where
  "QuorumNotMetError = OtherException ''QuorumNotMetError''"

record qc_stats =
  qs_reads :: nat
  qs_writes :: nat
  qs_quorum_failures :: nat
  qs_timeouts :: nat

type_synonym 'v pool_task = "string \<times> string \<times> 'v option \<times> int"

record 'v quorum_coordinator =
  qc_replicas :: "string list"
  qc_config :: quorum_config
  qc_hints :: "'v hinted_handoff"
  qc_storage :: "string \<rightharpoonup> (string \<rightharpoonup> 'v option \<times> int)"
  qc_stats :: qc_stats
  qc_pending :: "'v pool_task list"

definition qc_init :: "string list \<Rightarrow> int option \<Rightarrow> int option \<Rightarrow> 'v quorum_coordinator result" where
  "qc_init replicas write_quorum read_quorum =
     (let num_replicas = int (length replicas);
          w = (case write_quorum of Some w \<Rightarrow> w | None \<Rightarrow> num_replicas div 2 + 1);
          r = (case read_quorum of Some r \<Rightarrow> r | None \<Rightarrow> num_replicas div 2 + 1)
      in case new_config num_replicas w r of Inl e \<Rightarrow> Inl e
         | Inr config \<Rightarrow>
             Inr \<lparr>qc_replicas = replicas, qc_config = config, qc_hints = (\<lambda>_. None),
                  qc_storage = (\<lambda>r. if r \<in> set replicas then Some (\<lambda>_. None) else None),
                  qc_stats = \<lparr>qs_reads = 0, qs_writes = 0, qs_quorum_failures = 0, qs_timeouts = 0\<rparr>,
                  qc_pending = []\<rparr>)"

definition get_consistency_counts :: "'v quorum_coordinator \<Rightarrow> consistency_level \<Rightarrow> bool \<Rightarrow> int" where
  "get_consistency_counts st level is_write =
     (let n = int (length (qc_replicas st))
      in case level of ONE \<Rightarrow> 1 | LOCAL_ONE \<Rightarrow> 1 | TWO \<Rightarrow> min 2 n | THREE \<Rightarrow> min 3 n | ALL_N \<Rightarrow> n
         | QUORUM \<Rightarrow> (if is_write then cfg_W (qc_config st) else cfg_R (qc_config st)))"

definition write_to_replica :: "'v quorum_coordinator \<Rightarrow> string \<Rightarrow> string \<Rightarrow> 'v option \<Rightarrow> int \<Rightarrow>
    'v quorum_coordinator \<times> bool" where
  "write_to_replica st replica key val version =
     (case qc_storage st replica of None \<Rightarrow> (st, False)
      | Some m \<Rightarrow> (st\<lparr>qc_storage := (qc_storage st)(replica \<mapsto> m(key \<mapsto> (val, version)))\<rparr>, True))"

definition read_from_replica :: "'v quorum_coordinator \<Rightarrow> string \<Rightarrow> string \<Rightarrow> 'v option \<times> int" where
  "read_from_replica st replica key =
     (case qc_storage st replica of None \<Rightarrow> (None, 0)
      | Some m \<Rightarrow> (case m key of Some entry \<Rightarrow> entry | None \<Rightarrow> (None, 0)))"

fun first_index :: "'a list \<Rightarrow> 'a \<Rightarrow> nat option" where
  "first_index [] x = None"
| "first_index (y # ys) x = (if y = x then Some 0 else map_option Suc (first_index ys x))"

definition map_replicas_to_ids :: "'v quorum_coordinator \<Rightarrow> string list \<Rightarrow> nat list" where
  "map_replicas_to_ids st names = List.map_filter (first_index (qc_replicas st)) names"

text \<open>Each replica of the coordinator with whether its future answers within the timeout.\<close>

definition futures :: "'v quorum_coordinator \<Rightarrow> (nat \<Rightarrow> bool) \<Rightarrow> (string \<times> bool) list" where
  "futures st answered = map (\<lambda>i. (qc_replicas st ! i, answered i)) [0 ..< length (qc_replicas st)]"

fun write_loop :: "'v quorum_coordinator \<Rightarrow> string \<Rightarrow> 'v option \<Rightarrow> int \<Rightarrow> (string \<times> bool) list \<Rightarrow>
    'v quorum_coordinator \<times> nat \<times> string list" where
  "write_loop st key val version [] = (st, 0, [])"
| "write_loop st key val version ((replica, True) # fs) =
     (case write_to_replica st replica key val version of (st1, ok) \<Rightarrow>
       (case write_loop st1 key val version fs of (st2, success_count, failed) \<Rightarrow>
         (st2, (if ok then success_count + 1 else success_count), failed)))"
| "write_loop st key val version ((replica, False) # fs) =
     (case write_loop (st\<lparr>qc_pending := qc_pending st @ [(replica, key, val, version)]\<rparr>) key val version fs of
        (st2, success_count, failed) \<Rightarrow> (st2, success_count, replica # failed))"

text \<open>The n-th write that the pool still holds takes effect.\<close>

definition qc_late_write :: "'v quorum_coordinator \<Rightarrow> nat \<Rightarrow> 'v quorum_coordinator" where
  "qc_late_write st n =
     (if n < length (qc_pending st)
      then case qc_pending st ! n of (replica, key, val, version) \<Rightarrow>
        fst (write_to_replica (st\<lparr>qc_pending := take n (qc_pending st) @ drop (Suc n) (qc_pending st)\<rparr>)
          replica key val version)
      else st)"

definition write_version :: "time \<Rightarrow> int" where
  "write_version now = py_int (now * 1000000)"

definition hint_all :: "'v hinted_handoff \<Rightarrow> string \<Rightarrow> 'v option \<Rightarrow> nat list \<Rightarrow> (nat \<Rightarrow> time) \<Rightarrow> 'v hinted_handoff" where
  "hint_all hints key val ids hint_time =
     foldl (\<lambda>hs failed_node_id. write_hint hs key val failed_node_id 0 3600 (hint_time failed_node_id)) hints ids"

definition qc_write :: "'v quorum_coordinator \<Rightarrow> string \<Rightarrow> 'v option \<Rightarrow> consistency_level \<Rightarrow> time \<Rightarrow>
    (nat \<Rightarrow> time) \<Rightarrow> (nat \<Rightarrow> bool) \<Rightarrow> ('v quorum_coordinator, bool) outcome" where
  "qc_write st0 key val level now hint_time answered =
     (let st1 = st0\<lparr>qc_stats := (qc_stats st0)\<lparr>qs_writes := qs_writes (qc_stats st0) + 1\<rparr>\<rparr>;
          required = get_consistency_counts st1 level True;
          version = write_version now
      in case write_loop st1 key val version (futures st1 answered) of
        (st2, success_count, failed_replicas) \<Rightarrow>
          if int success_count \<ge> required
          then (st2\<lparr>qc_hints := hint_all (qc_hints st2) key val (map_replicas_to_ids st2 failed_replicas) hint_time\<rparr>, Inr True)
          else (st2\<lparr>qc_stats := (qc_stats st2)\<lparr>qs_quorum_failures := qs_quorum_failures (qc_stats st2) + 1\<rparr>\<rparr>,
                Inl QuorumNotMetError))"

fun response_of :: "'v quorum_coordinator \<Rightarrow> string \<Rightarrow> string \<times> bool \<Rightarrow> ('v \<times> int \<times> string) list" where
  "response_of st key (replica, True) =
     (case read_from_replica st replica key of (Some val, ver) \<Rightarrow> [(val, ver, replica)] | (None, ver) \<Rightarrow> [])"
| "response_of st key (replica, False) = []"

definition read_responses :: "'v quorum_coordinator \<Rightarrow> string \<Rightarrow> (nat \<Rightarrow> bool) \<Rightarrow> ('v \<times> int \<times> string) list" where
  "read_responses st key answered = concat (map (response_of st key) (futures st answered))"

text \<open>\<open>max\<close> with a key returns the first of the largest elements.\<close>

fun latest_response :: "'v \<times> int \<times> string \<Rightarrow> ('v \<times> int \<times> string) list \<Rightarrow> 'v \<times> int \<times> string" where
  "latest_response best [] = best"
| "latest_response best (r # rs) =
     (if fst (snd r) > fst (snd best) then latest_response r rs else latest_response best rs)"

text \<open>
  Read repair only logs how many replicas are stale (\<open>identify_repairs\<close> of the versions), so it
  leaves no trace here. \<open>max\<close> of no responses raises.
\<close>

definition qc_read :: "'v quorum_coordinator \<Rightarrow> string \<Rightarrow> consistency_level \<Rightarrow> (nat \<Rightarrow> bool) \<Rightarrow>
    ('v quorum_coordinator, 'v) outcome" where
  "qc_read st0 key level answered =
     (let st = st0\<lparr>qc_stats := (qc_stats st0)\<lparr>qs_reads := qs_reads (qc_stats st0) + 1\<rparr>\<rparr>;
          required = get_consistency_counts st level False;
          responses = read_responses st key answered
      in if int (length responses) < required
         then (st\<lparr>qc_stats := (qc_stats st)\<lparr>qs_quorum_failures := qs_quorum_failures (qc_stats st) + 1\<rparr>\<rparr>,
               Inl QuorumNotMetError)
         else case responses of [] \<Rightarrow> (st, Inl ValueError)
           | r # rs \<Rightarrow> (st, Inr (fst (latest_response r rs))))"

definition qc_get_stats :: "'v quorum_coordinator \<Rightarrow> qc_stats" where
  "qc_get_stats st = qc_stats st"

section \<open>Runs\<close>

datatype 'v qc_op =
    QWrite string "'v option" consistency_level time "nat \<Rightarrow> time" "nat \<Rightarrow> bool"
  | QRead string consistency_level "nat \<Rightarrow> bool"
  | QLate nat

fun qc_step :: "'v quorum_coordinator \<Rightarrow> 'v qc_op \<Rightarrow> 'v quorum_coordinator" where
  "qc_step st (QWrite key val level now hint_time answered) = fst (qc_write st key val level now hint_time answered)"
| "qc_step st (QRead key level answered) = fst (qc_read st key level answered)"
| "qc_step st (QLate n) = qc_late_write st n"

definition qc_run :: "'v quorum_coordinator \<Rightarrow> 'v qc_op list \<Rightarrow> 'v quorum_coordinator" where
  "qc_run st ops = foldl qc_step st ops"

definition replica_entry :: "'v quorum_coordinator \<Rightarrow> string \<Rightarrow> string \<Rightarrow> ('v option \<times> int) option" where
  "replica_entry st replica key = (case qc_storage st replica of None \<Rightarrow> None | Some m \<Rightarrow> m key)"

lemma write_to_replica_spec:
  assumes "write_to_replica st replica key val ver = (st', ok)"
  shows "replica_entry st' r k = (if k = key \<and> r = replica \<and> ok then Some (val, ver) else replica_entry st r k)"
    "ok \<longleftrightarrow> replica \<in> dom (qc_storage st)" "dom (qc_storage st') = dom (qc_storage st)"
    "qc_replicas st' = qc_replicas st" "qc_config st' = qc_config st" "qc_pending st' = qc_pending st"
  using assms by (auto simp: write_to_replica_def replica_entry_def dom_def split: option.splits if_splits)

lemma write_loop_spec:
  "write_loop st key val ver fs = (st', n, failed) \<Longrightarrow>
    (\<forall>r k. replica_entry st' r k = (if k = key \<and> (r, True) \<in> set fs \<and> r \<in> dom (qc_storage st) then Some (val, ver) else replica_entry st r k)) \<and>
    dom (qc_storage st') = dom (qc_storage st) \<and> qc_replicas st' = qc_replicas st \<and> qc_config st' = qc_config st \<and>
    qc_pending st' = qc_pending st @ map (\<lambda>(r, _). (r, key, val, ver)) (filter (\<lambda>(_, ok). \<not> ok) fs) \<and>
    n = length (filter (\<lambda>(r, ok). ok \<and> r \<in> dom (qc_storage st)) fs)"
proof (induction st key val ver fs arbitrary: n failed rule: write_loop.induct)
  case (2 st key val ver replica fs)
  obtain st1 ok where one: "write_to_replica st replica key val ver = (st1, ok)" by fastforce
  obtain m failed' where rest: "write_loop st1 key val ver fs = (st', m, failed')"
      and n: "n = (if ok then m + 1 else m)"
    using "2.prems" one by (auto split: prod.splits)
  note w = write_to_replica_spec [OF one]
  from "2.IH" [OF one [symmetric] rest] show ?case using w n by auto
next
  case (3 st key val ver replica fs)
  let ?st1 = "st\<lparr>qc_pending := qc_pending st @ [(replica, key, val, ver)]\<rparr>"
  obtain failed' where rest: "write_loop ?st1 key val ver fs = (st', n, failed')"
    using "3.prems" by (auto split: prod.splits)
  have s: "replica_entry ?st1 r k = replica_entry st r k" for r k by (simp add: replica_entry_def)
  from "3.IH" [OF rest] show ?case using s by auto
qed (auto simp: replica_entry_def)

definition qc_ok :: "string list \<Rightarrow> quorum_config \<Rightarrow> 'v quorum_coordinator \<Rightarrow> bool" where
  "qc_ok replicas c st \<longleftrightarrow> qc_replicas st = replicas \<and> qc_config st = c \<and> dom (qc_storage st) = set replicas"

text \<open>What a write leaves: the answering replicas hold the value, the pool the writes to the others.\<close>

lemma qc_write_spec:
  assumes "qc_ok replicas c st" and "qc_write st key val level now ht ans = (st', res)"
  shows "qc_ok replicas c st'"
    "replica_entry st' r k = (if k = key \<and> (\<exists>i < length replicas. replicas ! i = r \<and> ans i) then Some (val, write_version now) else replica_entry st r k)"
    "t \<in> set (qc_pending st') \<longleftrightarrow> t \<in> set (qc_pending st) \<or>
       (\<exists>i < length replicas. \<not> ans i \<and> t = (replicas ! i, key, val, write_version now))"
    "res = Inr True \<Longrightarrow> get_consistency_counts st level True \<le> int (card {i. i < length replicas \<and> ans i})"
proof -
  let ?st1 = "st\<lparr>qc_stats := (qc_stats st)\<lparr>qs_writes := qs_writes (qc_stats st) + 1\<rparr>\<rparr>"
  obtain st2 n failed where loop: "write_loop ?st1 key val (write_version now) (futures ?st1 ans) = (st2, n, failed)"
    by (metis prod_cases3)
  have frame: "replica_entry (x\<lparr>qc_hints := h\<rparr>) = replica_entry x" "replica_entry (x\<lparr>qc_stats := g\<rparr>) = replica_entry x" for x :: "'a quorum_coordinator" and h g
    by (simp_all add: replica_entry_def fun_eq_iff)
  have st': "qc_replicas st' = qc_replicas st2" "qc_config st' = qc_config st2" "qc_storage st' = qc_storage st2"
      "qc_pending st' = qc_pending st2" "replica_entry st' = replica_entry st2"
      and ok: "res = Inr True \<longrightarrow> get_consistency_counts ?st1 level True \<le> int n"
    using assms(2) loop by (auto simp: qc_write_def Let_def frame split: if_splits)
  have fs: "futures ?st1 ans = map (\<lambda>i. (replicas ! i, ans i)) [0 ..< length replicas]"
    using assms(1) by (simp add: futures_def qc_ok_def)
  have dom: "dom (qc_storage st) = set replicas" "qc_replicas st = replicas" "qc_config st = c"
    using assms(1) by (simp_all add: qc_ok_def)
  have spec: "\<forall>r k. replica_entry st2 r k = (if k = key \<and> (\<exists>i < length replicas. replicas ! i = r \<and> ans i)
        then Some (val, write_version now) else replica_entry st r k)"
      "dom (qc_storage st2) = set replicas" "qc_replicas st2 = replicas" "qc_config st2 = c"
      "qc_pending st2 = qc_pending st @ map (\<lambda>(r, _). (r, key, val, write_version now))
         (filter (\<lambda>(_, ok). \<not> ok) (map (\<lambda>i. (replicas ! i, ans i)) [0 ..< length replicas]))"
      "n = length (filter ans [0 ..< length replicas])"
    using write_loop_spec [OF loop, unfolded fs frame] dom
    by (auto simp: image_iff filter_map comp_def simp del: dom_def intro!: arg_cong [of _ _ length] filter_cong)
  show "qc_ok replicas c st'" using spec st' dom by (simp add: qc_ok_def)
  show "replica_entry st' r k = (if k = key \<and> (\<exists>i < length replicas. replicas ! i = r \<and> ans i)
      then Some (val, write_version now) else replica_entry st r k)"
    using spec st' by simp
  show "t \<in> set (qc_pending st') \<longleftrightarrow> t \<in> set (qc_pending st) \<or>
       (\<exists>i < length replicas. \<not> ans i \<and> t = (replicas ! i, key, val, write_version now))"
    using spec(5) st'(4) by (auto simp: filter_map comp_def image_iff)
  have "n = card {i. i < length replicas \<and> ans i}"
    using spec(6) by (auto simp: length_filter_conv_card intro: arg_cong [of _ _ card])
  then show "get_consistency_counts st level True \<le> int (card {i. i < length replicas \<and> ans i})" if "res = Inr True"
    using ok that by (cases level) (simp_all add: get_consistency_counts_def)
qed

lemma qc_late_write_spec:
  assumes "qc_ok replicas c st"
  shows "qc_ok replicas c (qc_late_write st n)"
    "set (qc_pending (qc_late_write st n)) \<subseteq> set (qc_pending st)"
    "replica_entry (qc_late_write st n) r k = replica_entry st r k \<or>
       (\<exists>v ver. (r, k, v, ver) \<in> set (qc_pending st) \<and> replica_entry (qc_late_write st n) r k = Some (v, ver))"
proof -
  obtain replica key v ver where t: "qc_pending st ! n = (replica, key, v, ver)" by (metis prod_cases4)
  let ?st1 = "st\<lparr>qc_pending := take n (qc_pending st) @ drop (Suc n) (qc_pending st)\<rparr>"
  obtain st' ok where w: "write_to_replica ?st1 replica key v ver = (st', ok)" by fastforce
  have s: "replica_entry ?st1 r k = replica_entry st r k" by (simp add: replica_entry_def)
  have res: "qc_late_write st n = (if n < length (qc_pending st) then st' else st)"
    using t w by (simp add: qc_late_write_def)
  have mem: "n < length (qc_pending st) \<Longrightarrow> (replica, key, v, ver) \<in> set (qc_pending st)"
    using t nth_mem by metis
  note spec = write_to_replica_spec [OF w]
  show "qc_ok replicas c (qc_late_write st n)" using spec assms by (simp add: res qc_ok_def)
  show "set (qc_pending (qc_late_write st n)) \<subseteq> set (qc_pending st)"
    using spec set_take_subset [of n "qc_pending st"] set_drop_subset [of "Suc n" "qc_pending st"] by (auto simp: res)
  show "replica_entry (qc_late_write st n) r k = replica_entry st r k \<or>
       (\<exists>v ver. (r, k, v, ver) \<in> set (qc_pending st) \<and> replica_entry (qc_late_write st n) r k = Some (v, ver))"
    using spec(1) s mem by (auto simp: res)
qed

lemma qc_read_frame:
  "qc_read st key level ans = (st', res) \<Longrightarrow> qc_storage st' = qc_storage st \<and> qc_pending st' = qc_pending st \<and>
     qc_replicas st' = qc_replicas st \<and> qc_config st' = qc_config st"
  by (auto simp: qc_read_def Let_def split: if_splits list.splits)

text \<open>
  What a successful write with version \<open>ver\<close> establishes for its key, and what later operations keep:
  enough replicas hold it or a later write, whatever another holds is older, and the pool holds no older
  write of the key. \<open>Ws\<close> are that write and the later ones, whether they succeeded or not.
\<close>

definition settled :: "string list \<Rightarrow> int \<Rightarrow> string \<Rightarrow> ('v option \<times> int) set \<Rightarrow> int \<Rightarrow> 'v quorum_coordinator \<Rightarrow> bool" where
  "settled replicas w key Ws ver st \<longleftrightarrow>
     w \<le> int (card {r \<in> set replicas. \<exists>e\<in>Ws. replica_entry st r key = Some e}) \<and>
     (\<forall>r e. replica_entry st r key = Some e \<longrightarrow> snd e < ver \<or> e \<in> Ws) \<and>
     (\<forall>r e. (r, key, e) \<in> set (qc_pending st) \<longrightarrow> e \<in> Ws) \<and> (\<forall>e\<in>Ws. ver \<le> snd e)"

lemma settled_stored_cong:
  assumes "settled replicas w key Ws ver st" and "Ws \<subseteq> Ws'" and "\<forall>e\<in>Ws'. ver \<le> snd e"
    and "\<And>r e. (r, key, e) \<in> set (qc_pending st') \<Longrightarrow> (r, key, e) \<in> set (qc_pending st) \<or> e \<in> Ws'"
    and "\<And>r. replica_entry st' r key = replica_entry st r key \<or> (\<exists>e\<in>Ws'. replica_entry st' r key = Some e)"
  shows "settled replicas w key Ws' ver st'"
proof -
  let ?H = "{r \<in> set replicas. \<exists>e\<in>Ws. replica_entry st r key = Some e}"
  let ?H' = "{r \<in> set replicas. \<exists>e\<in>Ws'. replica_entry st' r key = Some e}"
  have "?H \<subseteq> ?H'"
  proof
    fix r assume "r \<in> ?H"
    then show "r \<in> ?H'" using assms(5) [of r] assms(2) by fastforce
  qed
  then have "card ?H \<le> card ?H'" by (intro card_mono) auto
  then have "w \<le> int (card ?H')" using assms(1) by (simp add: settled_def)
  moreover have "snd e < ver \<or> e \<in> Ws'" if "replica_entry st' r key = Some e" for r e
    using assms(5) [of r] assms(1,2) that unfolding settled_def by (metis option.inject subsetD)
  moreover have "e \<in> Ws'" if "(r, key, e) \<in> set (qc_pending st')" for r e
    using assms(4) [OF that] assms(1,2) unfolding settled_def by blast
  ultimately show ?thesis using assms(3) by (simp add: settled_def)
qed

lemma qc_step_ok:
  assumes "qc_ok replicas c st"
  shows "qc_ok replicas c (qc_step st a)"
proof (cases a)
  case (QWrite k val level now ht ans)
  then show ?thesis using qc_write_spec(1) [OF assms] by (metis prod.collapse qc_step.simps(1))
next
  case (QRead k level ans)
  obtain st' res where rd: "qc_read st k level ans = (st', res)" by fastforce
  from qc_read_frame [OF this] show ?thesis using QRead rd assms by (simp add: qc_ok_def)
next
  case (QLate n)
  then show ?thesis using qc_late_write_spec(1) [OF assms] by simp
qed

lemma qc_run_ok: "qc_ok replicas c st \<Longrightarrow> qc_ok replicas c (qc_run st ops)"
  by (induction ops arbitrary: st) (simp_all add: qc_run_def qc_step_ok)

text \<open>The values and versions that operations try to write to a key.\<close>

fun write_of :: "string \<Rightarrow> 'v qc_op \<Rightarrow> ('v option \<times> int) set" where
  "write_of key (QWrite k val level now ht ans) = (if k = key then {(val, write_version now)} else {})"
| "write_of key _ = {}"

lemma settled_step:
  assumes "settled replicas w key Ws ver st" and "qc_ok replicas c st" and later: "\<forall>e\<in>write_of key a. ver \<le> snd e"
  shows "settled replicas w key (Ws \<union> write_of key a) ver (qc_step st a)"
proof (rule settled_stored_cong [OF assms(1)])
  show "Ws \<subseteq> Ws \<union> write_of key a" by blast
  show "\<forall>e\<in>Ws \<union> write_of key a. ver \<le> snd e" using assms(1) later by (auto simp: settled_def)
  show "(r, key, e) \<in> set (qc_pending st) \<or> e \<in> Ws \<union> write_of key a"
    if "(r, key, e) \<in> set (qc_pending (qc_step st a))" for r e
  proof (cases a)
    case (QWrite k val level now ht ans)
    obtain st' res where wr: "qc_write st k val level now ht ans = (st', res)" by fastforce
    then show ?thesis using qc_write_spec(3) [OF assms(2) wr, of "(r, key, e)"] that QWrite by auto
  next
    case (QRead k level ans)
    obtain st' res where rd: "qc_read st k level ans = (st', res)" by fastforce
    then show ?thesis using qc_read_frame [OF rd] that QRead by simp
  next
    case (QLate n)
    then show ?thesis using qc_late_write_spec(2) [OF assms(2), of n] that by auto
  qed
  show "replica_entry (qc_step st a) r key = replica_entry st r key \<or>
      (\<exists>e\<in>Ws \<union> write_of key a. replica_entry (qc_step st a) r key = Some e)" for r
  proof (cases a)
    case (QWrite k val level now ht ans)
    obtain st' res where wr: "qc_write st k val level now ht ans = (st', res)" by fastforce
    then show ?thesis using qc_write_spec(2) [OF assms(2) wr, of r key] QWrite by auto
  next
    case (QRead k level ans)
    obtain st' res where rd: "qc_read st k level ans = (st', res)" by fastforce
    then show ?thesis using qc_read_frame [OF rd] QRead by (simp add: replica_entry_def)
  next
    case (QLate n)
    then show ?thesis using qc_late_write_spec(3) [OF assms(2), of n r key] assms(1) by (auto simp: settled_def)
  qed
qed

lemma settled_run:
  "settled replicas w key Ws ver st \<Longrightarrow> qc_ok replicas c st \<Longrightarrow> \<forall>a\<in>set ops. \<forall>e\<in>write_of key a. ver \<le> snd e \<Longrightarrow>
     settled replicas w key (Ws \<union> (\<Union>a\<in>set ops. write_of key a)) ver (qc_run st ops) \<and> qc_ok replicas c (qc_run st ops)"
proof (induction ops arbitrary: st Ws)
  case (Cons a ops)
  have "\<forall>e\<in>write_of key a. ver \<le> snd e" using Cons.prems(3) by simp
  note step = settled_step [OF Cons.prems(1,2) this]
  show ?case using Cons.IH [OF step qc_step_ok [OF Cons.prems(2)]] Cons.prems(3) by (simp add: qc_run_def Un_assoc)
qed (simp add: qc_run_def)

lemma latest_response_max:
  "latest_response b rs \<in> set (b # rs) \<and> (\<forall>r \<in> set (b # rs). fst (snd r) \<le> fst (snd (latest_response b rs)))"
proof (induction b rs rule: latest_response.induct)
  case (2 best r rs)
  show ?case using 2 by (cases "fst (snd r) > fst (snd best)") auto
qed simp

lemma response_of_cases:
  "response_of st key (r, ok) = [] \<or> (\<exists>v n. response_of st key (r, ok) = [(v, n, r)])"
  by (cases ok) (auto split: option.splits prod.splits)

lemma response_of_iff:
  "(val, ver, q) \<in> set (response_of st key (r, ok)) \<longleftrightarrow> ok \<and> q = r \<and> replica_entry st r key = Some (Some val, ver)"
  by (cases ok) (auto simp: read_from_replica_def replica_entry_def split: option.splits prod.splits)

lemma read_responses_iff:
  "(val, ver, r) \<in> set (read_responses st key ans) \<longleftrightarrow>
     (\<exists>i < length (qc_replicas st). qc_replicas st ! i = r \<and> ans i \<and> replica_entry st r key = Some (Some val, ver))"
  by (auto simp: read_responses_def futures_def response_of_iff simp del: response_of.simps)

lemma read_responses_distinct:
  assumes "distinct (qc_replicas st)"
  shows "distinct (map (\<lambda>r. snd (snd r)) (read_responses st key ans))"
proof -
  have names: "map (\<lambda>r. snd (snd r)) (concat (map (response_of st key) fs)) =
      map fst (filter (\<lambda>f. response_of st key f \<noteq> []) fs)" for fs :: "(string \<times> bool) list"
  proof (induction fs)
    case (Cons f fs)
    obtain r ok where f: "f = (r, ok)" by (cases f)
    show ?case using Cons response_of_cases [of st key r ok] f by (auto simp del: response_of.simps)
  qed simp
  have "map fst (futures st ans) = qc_replicas st" by (simp add: futures_def comp_def map_nth)
  then have "distinct (map fst (filter (\<lambda>f. response_of st key f \<noteq> []) (futures st ans)))"
    using assms by (metis distinct_map_filter)
  then show ?thesis by (simp add: read_responses_def names)
qed

lemma settled_read:
  assumes "settled replicas (cfg_W c) key Ws ver st" and "qc_ok replicas c st" and "distinct replicas"
    and "cfg_N c = int (length replicas)" and "is_strongly_consistent c"
    and "qc_read st key QUORUM ans = (st', Inr x)"
  shows "\<exists>n. (Some x, n) \<in> Ws"
proof -
  let ?st = "st\<lparr>qc_stats := (qc_stats st)\<lparr>qs_reads := qs_reads (qc_stats st) + 1\<rparr>\<rparr>"
  define rs where "rs = read_responses ?st key ans"
  have same: "replica_entry ?st = replica_entry st" "qc_replicas ?st = replicas" "cfg_R (qc_config ?st) = cfg_R c"
    using assms(2) by (simp_all add: replica_entry_def fun_eq_iff qc_ok_def)
  have enough: "cfg_R c \<le> int (length rs)" and "rs \<noteq> []" and x: "x = fst (latest_response (hd rs) (tl rs))"
    using assms(6) same(3) by (auto simp: qc_read_def get_consistency_counts_def Let_def rs_def split: if_splits list.splits)
  note iff = read_responses_iff [of _ _ _ ?st key ans, folded rs_def, unfolded same]
  have "distinct (map (\<lambda>r. snd (snd r)) rs)"
    unfolding rs_def by (rule read_responses_distinct) (use same(2) assms(3) in simp)
  then have card: "card (set (map (\<lambda>r. snd (snd r)) rs)) = length rs" using distinct_card by fastforce
  have sub: "set (map (\<lambda>r. snd (snd r)) rs) \<subseteq> set replicas" using iff by auto
  let ?H = "{r \<in> set replicas. \<exists>e\<in>Ws. replica_entry st r key = Some e}"
  have "card (set replicas) < card ?H + card (set (map (\<lambda>r. snd (snd r)) rs))"
    using assms(1,3,4,5) enough card distinct_card [OF assms(3)]
    by (auto simp: settled_def is_strongly_consistent_def)
  then obtain r where r: "r \<in> ?H" "r \<in> set (map (\<lambda>r. snd (snd r)) rs)"
    using quorums_meet [of "set replicas" ?H, OF _ _ sub] by auto
  then obtain a n where a: "(a, n, r) \<in> set rs" by auto
  then have "replica_entry st r key = Some (Some a, n)" using iff [of a n r] by blast
  then have "(Some a, n) \<in> Ws" using r(1) by auto
  then have "ver \<le> n" using assms(1) by (auto simp: settled_def)
  obtain b m q where latest: "latest_response (hd rs) (tl rs) = (b, m, q)" by (metis prod_cases3)
  have hd: "hd rs # tl rs = rs" using \<open>rs \<noteq> []\<close> by simp
  have "(b, m, q) \<in> set rs" "ver \<le> m"
    using latest_response_max [of "hd rs" "tl rs", unfolded hd latest] a \<open>ver \<le> n\<close> by auto
  then have "replica_entry st q key = Some (Some b, m)" using iff by auto
  then have "m < ver \<or> (Some b, m) \<in> Ws" using assms(1) unfolding settled_def by (metis snd_conv)
  then show ?thesis using \<open>ver \<le> m\<close> x latest by auto
qed

lemma quorum_example_run:
  "snd (qc_read (qc_run (fst (qc_write (projr (qc_init [''a'', ''b'', ''c''] None None)) ''k'' (Some ''v'') QUORUM 1 (\<lambda>_. 0) (\<lambda>i. i < 2)))
     [QLate 0, QRead ''j'' ONE (\<lambda>_. True)]) ''k'' QUORUM (\<lambda>i. 0 < i)) = Inr ''v''"
  by code_simp

text \<open>
  C20. No stale read after a successful write: let W + R > N over distinct replicas, let a coordinator
  have made any operations, none of which has left a write of the key in the pool, and let every stored
  version of the key be older than the clock. After a write at level QUORUM that succeeds, and any
  operations after it (reads, writes of any key at any level, failed ones included, writes that the
  pool makes late) in which the writes of the key carry no earlier time, a read at level QUORUM that
  returns gives the written value or one that a later write of the key tried to write. In particular it
  gives the written value if nobody tries to write the key again.
\<close>

theorem quorum_reads_latest_write:
  assumes "qc_init replicas wq rq = Inr st0" and "distinct replicas" and "is_strongly_consistent (qc_config st0)"
    and "st = qc_run st0 before"
    and "\<forall>r x n. replica_entry st r key = Some (x, n) \<longrightarrow> n < write_version now"
    and "\<forall>r x n. (r, key, x, n) \<notin> set (qc_pending st)"
    and "qc_write st key (Some v) QUORUM now ht ans = (st1, Inr True)"
    and "\<forall>a \<in> set after. \<forall>e\<in>write_of key a. write_version now \<le> snd e"
    and "qc_read (qc_run st1 after) key QUORUM ans' = (st2, Inr x)"
  shows "x = v \<or> (\<exists>level now' ht' ans''. QWrite key (Some x) level now' ht' ans'' \<in> set after)"
proof -
  define c where "c = qc_config st0"
  have ok0: "qc_ok replicas c st0" and n: "cfg_N c = int (length replicas)"
    using assms(1) by (auto simp: qc_init_def Let_def qc_ok_def c_def new_config_def dom_def split: if_splits sum.splits option.splits)
  then have ok: "qc_ok replicas c st" using assms(4) qc_run_ok by blast
  note wr = qc_write_spec [OF ok assms(7)]
  let ?I = "{i. i < length replicas \<and> ans i}" and ?W = "{(Some v, write_version now)}"
  have "(!) replicas ` ?I \<subseteq> {r \<in> set replicas. \<exists>e\<in>?W. replica_entry st1 r key = Some e}"
    using wr(2) by auto
  then have "card ((!) replicas ` ?I) \<le> card {r \<in> set replicas. \<exists>e\<in>?W. replica_entry st1 r key = Some e}"
    by (intro card_mono) auto
  moreover have "card ((!) replicas ` ?I) = card ?I"
    by (rule card_image) (use assms(2) in \<open>auto simp: inj_on_def nth_eq_iff_index_eq\<close>)
  moreover have "cfg_W c \<le> int (card ?I)"
    using wr(4) ok by (simp add: get_consistency_counts_def qc_ok_def)
  ultimately have "settled replicas (cfg_W c) key ?W (write_version now) st1"
    using wr(2,3) assms(5,6) by (auto simp: settled_def)
  from settled_run [OF this wr(1) assms(8)]
  have run: "settled replicas (cfg_W c) key (?W \<union> (\<Union>a\<in>set after. write_of key a)) (write_version now) (qc_run st1 after)"
    "qc_ok replicas c (qc_run st1 after)"
    by simp_all
  obtain m where "(Some x, m) \<in> ?W \<union> (\<Union>a\<in>set after. write_of key a)"
    using settled_read [OF run assms(2) n _ assms(9)] assms(3) by (auto simp: c_def)
  then consider "x = v" | a where "a \<in> set after" "(Some x, m) \<in> write_of key a" by auto
  then show ?thesis
  proof cases
    case (2 a)
    show ?thesis
    proof (cases a)
      case (QWrite k val level now' ht' ans'')
      then have "QWrite key (Some x) level now' ht' ans'' \<in> set after" using 2 by (auto split: if_splits)
      then show ?thesis by blast
    qed (use 2 in simp_all)
  qed simp
qed

theorem quorum_reads_latest_write_witness:
  "\<exists>st0 st1 st2 x. qc_init [''a'', ''b'', ''c''] None None = Inr st0 \<and>
     qc_write st0 ''k'' (Some ''v'') QUORUM 1 (\<lambda>_. 0) (\<lambda>i. i < 2) = (st1, Inr True) \<and>
     qc_read (qc_run st1 [QLate 0, QRead ''j'' ONE (\<lambda>_. True)]) ''k'' QUORUM (\<lambda>i. 0 < i) = (st2, Inr x) \<and> x = ''v''"
proof -
  define st0 :: "string quorum_coordinator" where "st0 = projr (qc_init [''a'', ''b'', ''c''] None None)"
  define wr where "wr = qc_write st0 ''k'' (Some ''v'') QUORUM 1 (\<lambda>_. 0) (\<lambda>i. i < 2)"
  define rd where "rd = qc_read (qc_run (fst wr) [QLate 0, QRead ''j'' ONE (\<lambda>_. True)]) ''k'' QUORUM (\<lambda>i. 0 < i)"
  have st0: "qc_init [''a'', ''b'', ''c''] None None = Inr st0" and strong: "is_strongly_consistent (qc_config st0)"
    by (simp_all add: st0_def qc_init_def new_config_def is_strongly_consistent_def)
  have "snd wr = Inr True"
    by (simp add: wr_def st0_def qc_init_def new_config_def qc_write_def get_consistency_counts_def futures_def
        upt_rec write_to_replica_def)
  then have w: "qc_write st0 ''k'' (Some ''v'') QUORUM 1 (\<lambda>_. 0) (\<lambda>i. i < 2) = (fst wr, Inr True)"
    by (simp add: wr_def prod_eq_iff)
  obtain x where "snd rd = Inr x" using quorum_example_run by (simp add: rd_def wr_def st0_def)
  then have r: "qc_read (qc_run (fst wr) [QLate 0, QRead ''j'' ONE (\<lambda>_. True)]) ''k'' QUORUM (\<lambda>i. 0 < i) = (fst rd, Inr x)"
    by (simp add: rd_def prod_eq_iff)
  have "\<forall>r x n. replica_entry st0 r ''k'' = Some (x, n) \<longrightarrow> n < write_version 1"
      "\<forall>r x n. (r, ''k'', x, n) \<notin> set (qc_pending st0)"
    by (auto simp: st0_def qc_init_def new_config_def replica_entry_def split: if_splits)
  from quorum_reads_latest_write [OF st0 _ strong _ this w _ r, of "[]"]
  have "x = ''v''" by (simp add: qc_run_def)
  then show ?thesis using st0 w r by blast
qed

text \<open>
  Late writes break the guarantee of W + R > N: a write that timed out at one replica is
  still carried out there, whatever was written meanwhile, for \<open>_write_to_replica\<close> does not
  compare versions. With three replicas and majorities, two successful writes of a key are
  followed by a read at level QUORUM that returns the first one's value.
\<close>

theorem quorum_late_write_wins:
  "\<exists>st0 st1 st2. qc_init [''a'', ''b'', ''c''] None None = Inr st0 \<and> is_strongly_consistent (qc_config st0) \<and>
     qc_write st0 ''k'' (Some ''old'') QUORUM 1 (\<lambda>_. 0) (\<lambda>i. i \<noteq> 0) = (st1, Inr True) \<and>
     qc_write st1 ''k'' (Some ''new'') QUORUM 2 (\<lambda>_. 0) (\<lambda>i. i \<noteq> 2) = (st2, Inr True) \<and>
     snd (qc_read (qc_run st2 [QLate 0]) ''k'' QUORUM (\<lambda>i. i \<noteq> 1)) = Inr ''old''"
  by (simp add: qc_init_def new_config_def qc_write_def get_consistency_counts_def futures_def upt_rec write_to_replica_def
    qc_read_def read_responses_def read_from_replica_def qc_run_def qc_late_write_def is_strongly_consistent_def
    write_version_def py_int_def)

text \<open>
  A quorum of answers is not enough for a read: the code counts only replicas that hold a
  value, so after a successful write with W of N replicas a read that R replicas answer in time
  can raise QuorumNotMetError, and so does every read of a key that was never written, where
  None is documented.
\<close>

theorem quorum_read_counts_holders:
  "\<exists>st0 st1. qc_init [''a'', ''b'', ''c''] None None = Inr st0 \<and> cfg_R (qc_config st0) = 2 \<and>
     qc_write st0 ''k'' (Some ''v'') QUORUM 1 (\<lambda>_. 0) (\<lambda>i. i < 2) = (st1, Inr True) \<and>
     snd (qc_read st1 ''k'' QUORUM (\<lambda>i. 0 < i)) = Inl QuorumNotMetError \<and>
     snd (qc_read st1 ''j'' QUORUM (\<lambda>i. True)) = Inl QuorumNotMetError"
  by (simp add: qc_init_def new_config_def qc_write_def get_consistency_counts_def futures_def upt_rec write_to_replica_def
    qc_read_def read_responses_def read_from_replica_def)

text \<open>A configuration may ask for no replica at all: then a write that reaches none succeeds.\<close>

lemma quorum_zero_write:
  "\<exists>st0. qc_init [''a''] (Some 0) (Some 0) = Inr st0 \<and>
     snd (qc_write st0 ''k'' (Some ''v'') QUORUM 1 (\<lambda>_. 0) (\<lambda>_. False)) = Inr True \<and>
     snd (qc_read st0 ''k'' QUORUM (\<lambda>_. True)) = Inl ValueError"
  by (simp add: qc_init_def new_config_def qc_write_def get_consistency_counts_def futures_def write_to_replica_def
    qc_read_def read_responses_def read_from_replica_def)

text \<open>
  \<open>get_quorum_intersection\<close> is the worst case: for a valid configuration no write set and read
  set of its sizes overlap in fewer nodes, and it is non-empty exactly when the configuration is
  strongly consistent.
\<close>

theorem quorum_intersection_exact:
  assumes "new_config n w r = Inr c"
  shows "(get_quorum_intersection c \<noteq> {} \<longleftrightarrow> is_strongly_consistent c) \<and>
    (\<forall>A B. A \<subseteq> {0 ..< n} \<and> B \<subseteq> {0 ..< n} \<and> int (card A) = w \<and> int (card B) = r \<longrightarrow>
       card (get_quorum_intersection c) \<le> card (A \<inter> B))"
proof -
  have c: "cfg_N c = n" "cfg_W c = w" "cfg_R c = r" "w \<le> n" "r \<le> n" "1 \<le> n"
    using assms by (auto simp: new_config_def split: if_splits)
  have eq: "get_quorum_intersection c = {max 0 (n - r) ..< min w n}"
    using c by (auto simp: get_quorum_intersection_def)
  have "card (get_quorum_intersection c) \<le> card (A \<inter> B)"
    if A: "A \<subseteq> {0 ..< n}" and B: "B \<subseteq> {0 ..< n}" and "int (card A) = w" "int (card B) = r" for A B
    using card_overlap [OF _ A B] that(3,4) c by (simp add: eq)
  moreover have "get_quorum_intersection c \<noteq> {} \<longleftrightarrow> is_strongly_consistent c"
    using c by (auto simp: eq is_strongly_consistent_def)
  ultimately show ?thesis by blast
qed

theorem quorum_intersection_exact_witness:
  "\<exists>c. new_config 5 3 3 = Inr c \<and> get_quorum_intersection c \<noteq> {}"
proof -
  obtain c where c: "new_config 5 3 3 = Inr c" by (simp add: new_config_def)
  moreover have "is_strongly_consistent c" using c by (auto simp: new_config_def is_strongly_consistent_def)
  ultimately show ?thesis using quorum_intersection_exact [OF c] by auto
qed

end
