(* ===== verification/Version_Vectors.thy ===== *)
theory Version_Vectors
  imports Prelude "HOL-Library.Product_Lexorder"
begin

text \<open>
  \<open>vector-clocks-advanced/src/vector_clock_advanced.py\<close>: dotted version vectors, the tree of
  counters that the code calls an interval tree clock, and causal histories.

  What a dotted version vector stands for is \<open>ch_get_causal_past\<close>, the set of events that the code
  itself computes from it; the order and the merge of the vectors are related to that set.
\<close>

section \<open>Dotted version vectors\<close>

record dvv =
  dv_actor :: string
  dv_clock :: "(string, int) dict"
  dv_dots :: "(string \<times> int) set"

definition dvv_init :: "string \<Rightarrow> dvv result" where
  "dvv_init actor =
     (if actor = '''' then Inl ValueError
      else Inr \<lparr>dv_actor = actor, dv_clock = [(actor, 0)], dv_dots = {}\<rparr>)"

definition dvv_size :: "dvv \<Rightarrow> nat" where
  "dvv_size d = length (dv_clock d)"

abbreviation clock_of :: "dvv \<Rightarrow> string \<Rightarrow> int" where
  "clock_of d a \<equiv> dict_get (dv_clock d) a 0"

text \<open>The loop over the sorted dots of one actor.\<close>

fun extend_max :: "int \<Rightarrow> int list \<Rightarrow> int" where
  "extend_max extended_max [] = extended_max"
| "extend_max extended_max (ts # actor_dots) =
     (if ts = extended_max + 1 then extend_max ts actor_dots else extend_max extended_max actor_dots)"

definition actor_dots :: "dvv \<Rightarrow> string \<Rightarrow> int list" where
  "actor_dots d actor = sorted_list_of_set (snd ` Set.filter (\<lambda>(a, _). a = actor) (dv_dots d))"

definition compact_actor :: "string \<Rightarrow> dvv \<Rightarrow> dvv" where
  "compact_actor actor d =
     (let current_max = clock_of d actor;
          extended_max = extend_max current_max (actor_dots d actor)
      in if extended_max > current_max then d\<lparr>dv_clock := dict_set actor extended_max (dv_clock d)\<rparr> else d)"

text \<open>The actors are visited in the order of their names; each visit changes only its own entry.\<close>

definition dvv_compact_dots :: "dvv \<Rightarrow> dvv" where
  "dvv_compact_dots d =
     (let d1 = fold compact_actor (sorted_list_of_set (fst ` dv_dots d)) d
      in d1\<lparr>dv_dots := Set.filter (\<lambda>(a, ts). ts > clock_of d1 a) (dv_dots d1)\<rparr>)"

definition dvv_increment :: "dvv \<Rightarrow> int option \<Rightarrow> (dvv, int) outcome" where
  "dvv_increment d timestamp =
     (let current = clock_of d (dv_actor d);
          proceed = (\<lambda>new_ts.
            let d1 = d\<lparr>dv_dots := insert (dv_actor d, new_ts) (dv_dots d)\<rparr>
            in if new_ts = current + 1
               then (dvv_compact_dots (d1\<lparr>dv_clock := dict_set (dv_actor d) new_ts (dv_clock d)\<rparr>), Inr new_ts)
               else (d1, Inr new_ts))
      in case timestamp of None \<Rightarrow> proceed (current + 1)
         | Some ts \<Rightarrow> if ts \<le> current then (d, Inl ValueError) else proceed ts)"

definition merge_clocks :: "(string, int) dict \<Rightarrow> (string, int) dict \<Rightarrow> (string, int) dict" where
  "merge_clocks own other = fold (\<lambda>(actor, ts) c. dict_set actor (max (dict_get c actor 0) ts) c) other own"

definition dvv_merge :: "dvv \<Rightarrow> dvv \<Rightarrow> dvv" where
  "dvv_merge d other =
     dvv_compact_dots (d\<lparr>dv_dots := dv_dots d \<union> dv_dots other, dv_clock := merge_clocks (dv_clock d) (dv_clock other)\<rparr>)"

definition dvv_event :: "dvv \<Rightarrow> dvv option \<Rightarrow> (dvv, int) outcome" where
  "dvv_event d other =
     dvv_increment (case other of None \<Rightarrow> d | Some e \<Rightarrow> dvv_merge d e) None"

definition dvv_is_subset :: "dvv \<Rightarrow> dvv \<Rightarrow> bool" where
  "dvv_is_subset d other \<longleftrightarrow>
     list_all (\<lambda>(actor, ts).
       let other_clock_ts = clock_of other actor
       in ts > other_clock_ts \<longrightarrow>
          list_all (\<lambda>missing_ts. (actor, missing_ts) \<in> dv_dots other) [other_clock_ts + 1 .. ts]) (dv_clock d) \<and>
     (\<forall>(actor, ts) \<in> dv_dots d. ts > clock_of other actor \<longrightarrow> (actor, ts) \<in> dv_dots other)"

definition dvv_happens_before :: "dvv \<Rightarrow> dvv \<Rightarrow> bool" where
  "dvv_happens_before d other \<longleftrightarrow> dvv_is_subset d other \<and> \<not> dvv_is_subset other d"

definition dvv_concurrent :: "dvv \<Rightarrow> dvv \<Rightarrow> bool" where
  "dvv_concurrent d other \<longleftrightarrow> \<not> dvv_is_subset d other \<and> \<not> dvv_is_subset other d"

definition dvv_eq :: "dvv \<Rightarrow> dvv \<Rightarrow> bool" where
  "dvv_eq d other \<longleftrightarrow> dvv_is_subset d other \<and> dvv_is_subset other d"

type_synonym dvv_data = "string \<times> (string, int) dict option \<times> (string \<times> int) list option"

definition dvv_to_dict :: "dvv \<Rightarrow> dvv_data" where
  "dvv_to_dict d = (dv_actor d, Some (dv_clock d), Some (sorted_list_of_set (dv_dots d)))"

definition dvv_from_dict :: "dvv_data \<Rightarrow> dvv result" where
  "dvv_from_dict data =
     (case data of (actor, clock, dots) \<Rightarrow>
       (case dvv_init actor of Inl e \<Rightarrow> Inl e
        | Inr d \<Rightarrow> Inr (d\<lparr>dv_clock := (case clock of None \<Rightarrow> [] | Some c \<Rightarrow> c),
            dv_dots := set (case dots of None \<Rightarrow> [] | Some l \<Rightarrow> l)\<rparr>)))"

section \<open>Causal histories\<close>

record 'e causal_history =
  ch_actor :: string
  ch_dvv :: dvv
  ch_events :: "(int \<times> 'e) list"

definition ch_init :: "string \<Rightarrow> 'e causal_history result" where
  "ch_init actor = (case dvv_init actor of Inl e \<Rightarrow> Inl e
     | Inr d \<Rightarrow> Inr \<lparr>ch_actor = actor, ch_dvv = d, ch_events = []\<rparr>)"

definition ch_record_event :: "'e causal_history \<Rightarrow> 'e \<Rightarrow> ('e causal_history, int) outcome" where
  "ch_record_event h data =
     (case dvv_event (ch_dvv h) None of
        (d, Inl e) \<Rightarrow> (h\<lparr>ch_dvv := d\<rparr>, Inl e)
      | (d, Inr ts) \<Rightarrow> (h\<lparr>ch_dvv := d, ch_events := ch_events h @ [(ts, data)]\<rparr>, Inr ts))"

definition ch_merge_history :: "'e causal_history \<Rightarrow> 'e causal_history \<Rightarrow> 'e causal_history" where
  "ch_merge_history h other = h\<lparr>ch_dvv := dvv_merge (ch_dvv h) (ch_dvv other)\<rparr>"

definition causal_past :: "dvv \<Rightarrow> (string \<times> int) set" where
  "causal_past d = dv_dots d \<union> set (concat (map (\<lambda>(a, top). map (Pair a) [1 .. top]) (dv_clock d)))"

definition ch_get_causal_past :: "'e causal_history \<Rightarrow> (string \<times> int) set" where
  "ch_get_causal_past h = causal_past (ch_dvv h)"

section \<open>Well-formed vectors\<close>

text \<open>
  Dots are later than the clock's next event: the clock counts the events without a gap, and a
  dot that closes the gap moves into the clock at once.
\<close>

definition dvv_ok :: "dvv \<Rightarrow> bool" where
  "dvv_ok d \<longleftrightarrow> dict_wf (dv_clock d) \<and> (\<forall>a. 0 \<le> clock_of d a) \<and> finite (dv_dots d) \<and>
     (\<forall>(a, t) \<in> dv_dots d. clock_of d a + 1 < t)"

text \<open>The part of it that holds before the dots are compacted.\<close>

definition dvv_raw_ok :: "dvv \<Rightarrow> bool" where
  "dvv_raw_ok d \<longleftrightarrow> dict_wf (dv_clock d) \<and> (\<forall>a. 0 \<le> clock_of d a) \<and> finite (dv_dots d) \<and> (\<forall>(a, t) \<in> dv_dots d. 1 \<le> t)"

lemma dvv_ok_raw: "dvv_ok d \<Longrightarrow> dvv_raw_ok d"
  unfolding dvv_ok_def dvv_raw_ok_def by (smt (verit) case_prodI2 case_prod_conv)

lemma causal_past_iff:
  assumes "dict_wf (dv_clock d)"
  shows "(a, t) \<in> causal_past d \<longleftrightarrow> (a, t) \<in> dv_dots d \<or> 1 \<le> t \<and> t \<le> clock_of d a"
proof -
  have "(a, t) \<in> set (concat (map (\<lambda>(a, top). map (Pair a) [1 .. top]) c)) \<longleftrightarrow>
      (\<exists>top. (a, top) \<in> set c \<and> 1 \<le> t \<and> t \<le> top)" for c :: "(string, int) dict"
    by (induction c) auto
  moreover have "(\<exists>top. (a, top) \<in> set (dv_clock d) \<and> 1 \<le> t \<and> t \<le> top) \<longleftrightarrow> 1 \<le> t \<and> t \<le> clock_of d a"
    unfolding dict_items_iff [OF assms] by (cases "map_of (dv_clock d) a") (simp_all add: dict_get_def)
  ultimately show ?thesis by (simp add: causal_past_def)
qed

lemma extend_max_spec:
  "sorted_wrt (<) ts \<Longrightarrow> m \<le> extend_max m ts \<and> (\<forall>t. m < t \<and> t \<le> extend_max m ts \<longrightarrow> t \<in> set ts) \<and>
     extend_max m ts + 1 \<notin> set ts"
proof (induction m ts rule: extend_max.induct)
  case (2 m t ts)
  show ?case
  proof (cases "t = m + 1")
    case True
    then have IH: "t \<le> extend_max t ts" "\<forall>s. t < s \<and> s \<le> extend_max t ts \<longrightarrow> s \<in> set ts" "extend_max t ts + 1 \<notin> set ts"
      using 2 by auto
    have "s = t \<or> t < s" if "m < s" for s using that True by linarith
    then show ?thesis using IH True by auto
  next
    case False
    then have IH: "m \<le> extend_max m ts" "\<forall>s. m < s \<and> s \<le> extend_max m ts \<longrightarrow> s \<in> set ts" "extend_max m ts + 1 \<notin> set ts"
      using 2 by auto
    have "extend_max m ts + 1 \<noteq> t"
    proof
      assume t: "extend_max m ts + 1 = t"
      show False
      proof (cases "extend_max m ts = m")
        case False
        then have "extend_max m ts \<in> set ts" using IH(1,2) by simp
        then show False using 2 t by auto
      qed (use t False in simp)
    qed
    then show ?thesis using IH False by auto
  qed
qed simp

lemma actor_dots_spec:
  "finite (dv_dots d) \<Longrightarrow> set (actor_dots d a) = {t. (a, t) \<in> dv_dots d} \<and> sorted_wrt (<) (actor_dots d a)"
  by (auto simp: actor_dots_def strict_sorted_list_of_set image_iff)

text \<open>What one visit does to the clock.\<close>

lemma compact_actor_spec:
  assumes "dvv_raw_ok d"
  shows "dvv_raw_ok (compact_actor b d)" "dv_dots (compact_actor b d) = dv_dots d" "dv_actor (compact_actor b d) = dv_actor d"
    "clock_of (compact_actor b d) a =
       (if a = b then extend_max (clock_of d a) (actor_dots d a) else clock_of d a)"
  using assms extend_max_spec [of "actor_dots d b" "clock_of d b"] actor_dots_spec [of d b]
  by (auto simp: compact_actor_def Let_def dvv_raw_ok_def intro: order_trans)

lemma compact_fold_spec:
  assumes "dvv_raw_ok d" and "distinct actors"
  shows "dvv_raw_ok (fold compact_actor actors d) \<and> dv_dots (fold compact_actor actors d) = dv_dots d \<and>
    dv_actor (fold compact_actor actors d) = dv_actor d \<and>
    clock_of (fold compact_actor actors d) a =
      (if a \<in> set actors then extend_max (clock_of d a) (actor_dots d a) else clock_of d a)"
  using assms
proof (induction actors arbitrary: d)
  case (Cons b actors)
  note one = compact_actor_spec [OF Cons.prems(1)]
  have "actor_dots (compact_actor b d) a = actor_dots d a" by (simp add: actor_dots_def one(2))
  with Cons.IH [OF one(1)] Cons.prems(2) one(2,3,4) show ?case by auto
qed simp

lemma compact_spec:
  assumes "dvv_raw_ok d"
  shows "dvv_ok (dvv_compact_dots d)" "causal_past (dvv_compact_dots d) = causal_past d"
    "dv_actor (dvv_compact_dots d) = dv_actor d" "clock_of d a \<le> clock_of (dvv_compact_dots d) a"
proof -
  define d1 where "d1 = fold compact_actor (sorted_list_of_set (fst ` dv_dots d)) d"
  have fin: "finite (dv_dots d)" using assms by (simp add: dvv_raw_ok_def)
  note f = compact_fold_spec [OF assms distinct_sorted_list_of_set, of "fst ` dv_dots d", folded d1_def]
  have raw: "dvv_raw_ok d1" and same: "dv_dots d1 = dv_dots d" "dv_actor d1 = dv_actor d" using f by auto
  have res: "dv_dots (dvv_compact_dots d) = {(a, t). (a, t) \<in> dv_dots d \<and> clock_of d1 a < t}"
      "dv_clock (dvv_compact_dots d) = dv_clock d1" "dv_actor (dvv_compact_dots d) = dv_actor d"
    using same by (auto simp: dvv_compact_dots_def Let_def d1_def [symmetric])
  have ext: "clock_of d a \<le> clock_of d1 a" "\<forall>t. clock_of d a < t \<and> t \<le> clock_of d1 a \<longrightarrow> (a, t) \<in> dv_dots d"
      "(a, clock_of d1 a + 1) \<notin> dv_dots d" for a
  proof -
    have "clock_of d1 a = (if a \<in> fst ` dv_dots d then extend_max (clock_of d a) (actor_dots d a) else clock_of d a)"
      using f fin by simp
    then show "clock_of d a \<le> clock_of d1 a" "\<forall>t. clock_of d a < t \<and> t \<le> clock_of d1 a \<longrightarrow> (a, t) \<in> dv_dots d"
      "(a, clock_of d1 a + 1) \<notin> dv_dots d"
      using extend_max_spec [of "actor_dots d a" "clock_of d a"] actor_dots_spec [OF fin, of a]
      by (auto simp: image_iff split: if_splits)
  qed
  show "dvv_ok (dvv_compact_dots d)"
  proof -
    have "clock_of d1 a + 1 < t" if "(a, t) \<in> dv_dots d" "clock_of d1 a < t" for a t
    proof -
      have "t \<noteq> clock_of d1 a + 1" using ext(3) [of a] that(1) by auto
      then show ?thesis using that(2) by linarith
    qed
    moreover have "finite (dv_dots (dvv_compact_dots d))"
      by (rule finite_subset [OF _ fin]) (auto simp: res)
    ultimately show ?thesis using raw res by (auto simp: dvv_ok_def dvv_raw_ok_def)
  qed
  have "(a, t) \<in> causal_past (dvv_compact_dots d) \<longleftrightarrow> (a, t) \<in> causal_past d" for a t
  proof -
    have wf: "dict_wf (dv_clock (dvv_compact_dots d))" "dict_wf (dv_clock d)"
      using raw assms res by (auto simp: dvv_raw_ok_def)
    have "1 \<le> t" if "(a, t) \<in> dv_dots d" using assms that by (auto simp: dvv_raw_ok_def)
    moreover have "clock_of d a < t \<Longrightarrow> t \<le> clock_of d1 a \<Longrightarrow> (a, t) \<in> dv_dots d" using ext(2) [of a] by blast
    ultimately show ?thesis using ext(1) [of a] by (force simp: causal_past_iff [OF wf(1)] causal_past_iff [OF wf(2)] res)
  qed
  then show "causal_past (dvv_compact_dots d) = causal_past d" by auto
  show "dv_actor (dvv_compact_dots d) = dv_actor d" "clock_of d a \<le> clock_of (dvv_compact_dots d) a"
    using res ext by simp_all
qed

lemma merge_clocks_spec:
  assumes "dict_wf own"
  shows "dict_wf (merge_clocks own other) \<and>
    (dict_wf other \<longrightarrow> (\<forall>a. 0 \<le> dict_get own a 0) \<longrightarrow>
       dict_get (merge_clocks own other) a 0 = max (dict_get own a 0) (dict_get other a 0))"
  using assms
proof (induction other arbitrary: own)
  case (Cons p other)
  obtain b n where p: "p = (b, n)" by (cases p)
  let ?own = "dict_set b (max (dict_get own b 0) n) own"
  have IH: "dict_wf (merge_clocks ?own other)"
      "dict_wf other \<Longrightarrow> \<forall>a. 0 \<le> dict_get ?own a 0 \<Longrightarrow>
        dict_get (merge_clocks ?own other) a 0 = max (dict_get ?own a 0) (dict_get other a 0)"
    using Cons.IH [of ?own] Cons.prems by auto
  have unfold: "merge_clocks own (p # other) = merge_clocks ?own other" by (simp add: merge_clocks_def p)
  have "dict_get (merge_clocks own (p # other)) a 0 = max (dict_get own a 0) (dict_get (p # other) a 0)"
    if wf: "dict_wf (p # other)" and pos: "\<forall>a. 0 \<le> dict_get own a 0"
  proof -
    have "map_of other b = None" using wf p by (simp add: map_of_eq_None_iff)
    then have "dict_get other b 0 = 0" by (simp add: dict_get_def)
    moreover have "\<forall>a. 0 \<le> dict_get ?own a 0" using pos by (auto simp: max_def intro: order_trans)
    moreover have "dict_get (p # other) a 0 = (if a = b then n else dict_get other a 0)"
      by (simp add: dict_get_def p)
    ultimately show ?thesis using IH(2) wf pos [rule_format, of b] by (cases "a = b") (simp_all add: unfold)
  qed
  with IH(1) unfold show ?case by simp
qed (auto simp: merge_clocks_def)

lemma dvv_merge_spec:
  assumes "dvv_ok d" and "dvv_ok e"
  shows "dvv_ok (dvv_merge d e)" "causal_past (dvv_merge d e) = causal_past d \<union> causal_past e"
    "dv_actor (dvv_merge d e) = dv_actor d"
proof -
  let ?m = "d\<lparr>dv_dots := dv_dots d \<union> dv_dots e, dv_clock := merge_clocks (dv_clock d) (dv_clock e)\<rparr>"
  note raw = assms [THEN dvv_ok_raw, unfolded dvv_raw_ok_def]
  have clock: "dict_wf (dv_clock ?m)" "clock_of ?m a = max (clock_of d a) (clock_of e a)" for a
    using merge_clocks_spec [of "dv_clock d" "dv_clock e" a] raw by simp_all
  have m: "dvv_raw_ok ?m" using raw clock by (auto simp: dvv_raw_ok_def le_max_iff_disj)
  have "(a, t) \<in> causal_past ?m \<longleftrightarrow> (a, t) \<in> causal_past d \<union> causal_past e" for a t
    using clock raw by (auto simp: causal_past_iff)
  then have "causal_past ?m = causal_past d \<union> causal_past e" by auto
  then show "dvv_ok (dvv_merge d e)" "causal_past (dvv_merge d e) = causal_past d \<union> causal_past e"
    "dv_actor (dvv_merge d e) = dv_actor d"
    using compact_spec(1-3) [OF m] by (simp_all add: dvv_merge_def)
qed

lemma dvv_increment_spec:
  assumes "dvv_ok d" and "dvv_increment d ts = (d', Inr t)"
  shows "dvv_ok d'" "causal_past d' = insert (dv_actor d, t) (causal_past d)" "dv_actor d' = dv_actor d"
    "ts = None \<Longrightarrow> (dv_actor d, t) \<notin> causal_past d"
proof -
  let ?a = "dv_actor d"
  let ?d1 = "d\<lparr>dv_dots := insert (?a, t) (dv_dots d)\<rparr>"
  let ?d2 = "?d1\<lparr>dv_clock := dict_set ?a t (dv_clock d)\<rparr>"
  note ok = assms(1) [unfolded dvv_ok_def] and raw = dvv_ok_raw [OF assms(1), unfolded dvv_raw_ok_def]
  have t: "clock_of d ?a < t" "ts = None \<Longrightarrow> t = clock_of d ?a + 1"
      "d' = (if t = clock_of d ?a + 1 then dvv_compact_dots ?d2 else ?d1)"
    using assms(2) by (auto simp: dvv_increment_def Let_def split: option.splits if_splits)
  have pos: "0 \<le> clock_of d ?a" using raw by simp
  have wf: "dict_wf (dv_clock d)" "dict_wf (dv_clock ?d1)" "dict_wf (dv_clock ?d2)" using raw by simp_all
  have past2: "causal_past ?d2 = insert (?a, t) (causal_past d)" if "t = clock_of d ?a + 1"
  proof -
    have "(b, s) \<in> causal_past ?d2 \<longleftrightarrow> (b, s) \<in> insert (?a, t) (causal_past d)" for b s
      unfolding causal_past_iff [OF wf(3)] insert_iff causal_past_iff [OF wf(1)] using that pos by auto
    then show ?thesis by auto
  qed
  have past1: "causal_past ?d1 = insert (?a, t) (causal_past d)" by (auto simp: causal_past_def)
  have "1 \<le> t" "0 \<le> t" using t(1) pos by linarith+
  then have raw2: "dvv_raw_ok ?d2" using raw by (auto simp: dvv_raw_ok_def)
  note c = compact_spec [OF raw2]
  have "dvv_ok ?d1" if "t \<noteq> clock_of d ?a + 1" using ok t(1) that by (auto simp: dvv_ok_def)
  then show "dvv_ok d'" using c(1) t(3) by auto
  show "causal_past d' = insert (dv_actor d, t) (causal_past d)" using c(2) t(3) past1 past2 by auto
  show "dv_actor d' = dv_actor d" using c(3) t(3) by auto
  show "(dv_actor d, t) \<notin> causal_past d" if "ts = None"
    using t(2) [OF that] ok by (auto simp: causal_past_iff [OF wf(1)])
qed

lemma dvv_is_subset_iff:
  assumes "dvv_ok d" and "dvv_ok e"
  shows "dvv_is_subset d e \<longleftrightarrow> causal_past d \<subseteq> causal_past e"
proof -
  note raw = assms [THEN dvv_ok_raw, unfolded dvv_raw_ok_def]
  have wf: "dict_wf (dv_clock d)" "dict_wf (dv_clock e)" using raw by auto
  have pos: "0 \<le> clock_of e a" for a using raw by simp
  have clock: "list_all (\<lambda>(actor, ts). let c = clock_of e actor in ts > c \<longrightarrow>
          list_all (\<lambda>m. (actor, m) \<in> dv_dots e) [c + 1 .. ts]) (dv_clock d) \<longleftrightarrow>
      (\<forall>a t. 1 \<le> t \<and> t \<le> clock_of d a \<longrightarrow> (a, t) \<in> causal_past e)" (is "?l \<longleftrightarrow> ?r")
  proof
    assume l: ?l
    show ?r
    proof (intro allI impI)
      fix a t assume t: "1 \<le> t \<and> t \<le> clock_of d a"
      then have "(a, clock_of d a) \<in> set (dv_clock d)"
        using dict_items_iff [OF wf(1)] by (auto simp: dict_get_def split: option.splits)
      with l have "clock_of e a < clock_of d a \<longrightarrow> (\<forall>m \<in> set [clock_of e a + 1 .. clock_of d a]. (a, m) \<in> dv_dots e)"
        by (fastforce simp: list_all_iff Let_def)
      then show "(a, t) \<in> causal_past e" using t by (auto simp: causal_past_iff [OF wf(2)])
    qed
  next
    assume r: ?r
    have "(a, m) \<in> dv_dots e" if "(a, n) \<in> set (dv_clock d)" "clock_of e a < m" "m \<le> n" for a n m
    proof -
      have "clock_of d a = n" using that(1) dict_items_iff [OF wf(1)] by (auto simp: dict_get_def)
      then have "(a, m) \<in> causal_past e" using r that pos [of a] by auto
      then show ?thesis using that(2) by (simp add: causal_past_iff [OF wf(2)])
    qed
    then show ?l by (auto simp: list_all_iff Let_def)
  qed
  have dots: "(\<forall>(a, t) \<in> dv_dots d. t > clock_of e a \<longrightarrow> (a, t) \<in> dv_dots e) \<longleftrightarrow> dv_dots d \<subseteq> causal_past e"
    using raw(1) by (fastforce simp: causal_past_iff [OF wf(2)])
  have "causal_past d \<subseteq> causal_past e \<longleftrightarrow>
      dv_dots d \<subseteq> causal_past e \<and> (\<forall>a t. 1 \<le> t \<and> t \<le> clock_of d a \<longrightarrow> (a, t) \<in> causal_past e)"
    using causal_past_iff [OF wf(1)] by auto
  then show ?thesis unfolding dvv_is_subset_def clock dots by blast
qed

section \<open>The order is the order of causal pasts\<close>

text \<open>The vectors that the operations make.\<close>

inductive dvv_reachable :: "dvv \<Rightarrow> bool" where
  reach_init: "dvv_init actor = Inr d \<Longrightarrow> dvv_reachable d"
| reach_increment: "dvv_reachable d \<Longrightarrow> dvv_increment d ts = (d', Inr t) \<Longrightarrow> dvv_reachable d'"
| reach_merge: "dvv_reachable d \<Longrightarrow> dvv_reachable e \<Longrightarrow> dvv_reachable (dvv_merge d e)"

lemma dvv_reachable_ok: "dvv_reachable d \<Longrightarrow> dvv_ok d"
proof (induction rule: dvv_reachable.induct)
  case (reach_init actor d)
  then show ?case by (auto simp: dvv_init_def dvv_ok_def dict_get_def split: if_splits)
next
  case (reach_increment d ts d' t)
  show ?case by (rule dvv_increment_spec(1) [OF reach_increment.IH reach_increment.hyps(2)])
next
  case (reach_merge d e)
  show ?case by (rule dvv_merge_spec(1) [OF reach_merge.IH])
qed

text \<open>
  C21. Dotted version vectors track causality exactly: for vectors that the operations make, a
  merge knows the union of the events that its arguments know; one vector is below another, before
  it or concurrent with it exactly when the set of events it stands for is a subset of the other's,
  a proper subset, or incomparable; and an increment records one event that was not known before.
\<close>

theorem dvv_tracks_causality:
  assumes "dvv_reachable d" and "dvv_reachable e"
  shows "causal_past (dvv_merge d e) = causal_past d \<union> causal_past e \<and>
    (dvv_is_subset d e \<longleftrightarrow> causal_past d \<subseteq> causal_past e) \<and>
    (dvv_happens_before d e \<longleftrightarrow> causal_past d \<subset> causal_past e) \<and>
    (dvv_concurrent d e \<longleftrightarrow> \<not> causal_past d \<subseteq> causal_past e \<and> \<not> causal_past e \<subseteq> causal_past d) \<and>
    (\<exists>d' t. dvv_event d (Some e) = (d', Inr t) \<and> (dv_actor d, t) \<notin> causal_past d \<union> causal_past e \<and>
       causal_past d' = insert (dv_actor d, t) (causal_past d \<union> causal_past e))"
proof -
  note ok = assms [THEN dvv_reachable_ok]
  note merge = dvv_merge_spec [OF ok]
  have "\<exists>d' t. dvv_increment (dvv_merge d e) None = (d', Inr t)" by (simp add: dvv_increment_def Let_def)
  then obtain d' t where inc: "dvv_increment (dvv_merge d e) None = (d', Inr t)" by blast
  note fresh = dvv_increment_spec [OF merge(1) inc]
  show ?thesis
    using merge(2,3) fresh(2,4) inc dvv_is_subset_iff [OF ok] dvv_is_subset_iff [OF ok(2,1)]
    by (auto simp: dvv_happens_before_def dvv_concurrent_def dvv_event_def)
qed

theorem dvv_tracks_causality_witness:
  "\<exists>a b. dvv_init ''a'' = Inr a \<and> dvv_init ''b'' = Inr b \<and>
     (\<exists>d' t. dvv_event a (Some b) = (d', Inr t) \<and> (''a'', t) \<in> causal_past d')"
proof -
  obtain a b where ab: "dvv_init ''a'' = Inr a" "dvv_init ''b'' = Inr b" by (simp add: dvv_init_def)
  then have "dv_actor a = ''a''" by (auto simp: dvv_init_def)
  with dvv_tracks_causality [OF ab [THEN reach_init]] ab show ?thesis by auto
qed

text \<open>
  \<open>increment\<close> with an explicit timestamp can record one dot twice: the timestamp is compared
  with the clock, which a dot beyond a gap does not advance, so two events of one actor get the
  same name and the second adds nothing to what the vector knows.
\<close>

theorem dvv_increment_reuses_dot:
  "\<exists>d0 d1 d2. dvv_init ''a'' = Inr d0 \<and> dvv_increment d0 (Some 5) = (d1, Inr 5) \<and>
     dvv_increment d1 (Some 5) = (d2, Inr 5) \<and> causal_past d2 = causal_past d1"
  by (simp add: dvv_init_def dvv_increment_def Let_def dict_get_def)

section \<open>Interval tree clocks\<close>

text \<open>
  Children are objects that the tree and the caller of \<open>fork\<close> share, so a child's operations are
  operations at a path of the tree (\<open>itc_modify\<close>).
\<close>

datatype itc = ITC (itc_id: string) (itc_counter: int) (itc_children: "(string \<times> itc) list")

definition itc_new :: "string \<Rightarrow> itc" where
  "itc_new i = ITC i 0 []"

definition itc_fork :: "itc \<Rightarrow> string \<Rightarrow> (itc, itc) outcome" where
  "itc_fork t child_id =
     (if map_of (itc_children t) child_id \<noteq> None then (t, Inl ValueError)
      else let child = ITC child_id (itc_counter t) []
           in (ITC (itc_id t) (itc_counter t) (dict_set child_id child (itc_children t)), Inr child))"

definition itc_increment :: "itc \<Rightarrow> itc" where
  "itc_increment t = ITC (itc_id t) (itc_counter t + 1) (itc_children t)"

fun itc_copy :: "itc \<Rightarrow> itc" where
  "itc_copy (ITC i c ch) = ITC i c (map (\<lambda>(k, v). (k, itc_copy v)) ch)"

fun itc_join :: "itc \<Rightarrow> itc \<Rightarrow> itc" where
  "itc_join (ITC i c ch) other =
     ITC i (max c (itc_counter other))
       (map (\<lambda>(k, child_self). (k, case map_of (itc_children other) k of
            Some child_other \<Rightarrow> itc_join child_self child_other | None \<Rightarrow> itc_copy child_self)) ch @
        map (\<lambda>(k, child_other). (k, itc_copy child_other))
          (filter (\<lambda>(k, _). map_of ch k = None) (itc_children other)))"

fun itc_prune :: "itc \<Rightarrow> itc" where
  "itc_prune (ITC i c ch) =
     ITC i c (filter (\<lambda>(cid, child). \<not> (itc_counter child \<le> c \<and> itc_children child = []))
       (map (\<lambda>(cid, child). (cid, itc_prune child)) ch))"

fun itc_modify :: "string list \<Rightarrow> (itc \<Rightarrow> itc) \<Rightarrow> itc \<Rightarrow> itc" where
  "itc_modify [] f t = f t"
| "itc_modify (k # path) f t = (case map_of (itc_children t) k of None \<Rightarrow> t
     | Some child \<Rightarrow> ITC (itc_id t) (itc_counter t) (dict_set k (itc_modify path f child) (itc_children t)))"

text \<open>The counter at a path, and the trees without two children of one name.\<close>

fun itc_at :: "itc \<Rightarrow> string list \<Rightarrow> int option" where
  "itc_at t [] = Some (itc_counter t)"
| "itc_at t (k # path) = (case map_of (itc_children t) k of None \<Rightarrow> None | Some child \<Rightarrow> itc_at child path)"

fun max_at :: "int option \<Rightarrow> int option \<Rightarrow> int option" where
  "max_at None b = b"
| "max_at a None = a"
| "max_at (Some x) (Some y) = Some (max x y)"

lemma max_at_None [simp]: "max_at a None = a"
  by (cases a) simp_all

lemma itc_copy_id [simp]: "itc_copy t = t"
proof (induction t rule: itc_copy.induct)
  case (1 i c ch)
  have "map (\<lambda>(k, v). (k, itc_copy v)) ch = map (\<lambda>p. p) ch"
    by (rule map_cong) (use 1 in auto)
  then show ?case by simp
qed

lemma map_of_vals: "map_of (map (\<lambda>(k, v). (k, f k v)) ch) k = map_option (f k) (map_of ch k)"
  by (induction ch) auto

lemma map_of_filter_keys: "map_of (filter (\<lambda>(k, _). P k) ch) k = (if P k then map_of ch k else None)"
  by (induction ch) auto

text \<open>A join is the pointwise maximum of the two trees.\<close>

lemma itc_join_at: "itc_at (itc_join s t) path = max_at (itc_at s path) (itc_at t path)"
proof (induction s t arbitrary: path rule: itc_join.induct)
  case (1 i c ch other)
  show ?case
  proof (cases path)
    case (Cons k path')
    show ?thesis
    proof (cases "map_of ch k")
      case None
      then show ?thesis using Cons by (simp add: map_add_def map_of_vals map_of_filter_keys)
    next
      case (Some x)
      then have "(k, x) \<in> set ch" by (rule map_of_SomeD)
      note IH = "1.IH" [OF this refl]
      show ?thesis using Some Cons IH
        by (auto simp: map_add_def map_of_vals map_of_filter_keys split: option.splits)
    qed
  qed simp
qed

end
