(* ===== verification/Consistent_Hash.thy ===== *)
theory Consistent_Hash
  imports Prelude Decimal "HOL-Library.Product_Lexorder" "HOL-Library.Multiset"
begin

text \<open>
  \<open>consistent-hashing/src/consistent_hash.py\<close>: the ring of virtual nodes as a sorted list of pairs
  (hash, node), ordered as Python orders tuples. The hash function, which the constructor takes,
  is an argument of every operation that hashes; nothing is assumed of it, so virtual nodes may
  collide. \<open>bisect\<close> is the binary search of Python's standard library.
\<close>

section \<open>Bisection\<close>

function bisect_loop :: "'a::linorder list \<Rightarrow> 'a \<Rightarrow> nat \<Rightarrow> nat \<Rightarrow> nat" where
  "bisect_loop xs x lo hi =
     (if lo < hi
      then let mid = (lo + hi) div 2
           in if x < xs ! mid then bisect_loop xs x lo mid else bisect_loop xs x (mid + 1) hi
      else lo)"
  by pat_completeness auto
termination
  by (relation "measure (\<lambda>(xs, x, lo, hi). hi - lo)") (auto simp: less_mult_imp_div_less)

declare bisect_loop.simps [simp del]

definition bisect_right :: "'a::linorder list \<Rightarrow> 'a \<Rightarrow> nat" where
  "bisect_right xs x = bisect_loop xs x 0 (length xs)"

definition bisect_insort :: "'a::linorder list \<Rightarrow> 'a \<Rightarrow> 'a list" where
  "bisect_insort xs x = (let i = bisect_right xs x in take i xs @ [x] @ drop i xs)"

lemma bisect_loop_spec:
  assumes "sorted xs" and "lo \<le> hi" and "hi \<le> length xs"
    and "\<forall>i < lo. xs ! i \<le> x" and "\<forall>i. hi \<le> i \<and> i < length xs \<longrightarrow> x < xs ! i"
  shows "bisect_loop xs x lo hi \<le> length xs \<and> (\<forall>i < bisect_loop xs x lo hi. xs ! i \<le> x) \<and>
    (\<forall>i. bisect_loop xs x lo hi \<le> i \<and> i < length xs \<longrightarrow> x < xs ! i)"
  using assms
proof (induction xs x lo hi rule: bisect_loop.induct)
  case (1 xs x lo hi)
  show ?case
  proof (cases "lo < hi")
    case True
    let ?mid = "(lo + hi) div 2"
    have mid: "lo \<le> ?mid" "?mid < hi" using True by auto
    have step: "bisect_loop xs x lo hi =
        (if x < xs ! ?mid then bisect_loop xs x lo ?mid else bisect_loop xs x (?mid + 1) hi)"
      using True by (subst bisect_loop.simps) (simp add: Let_def)
    show ?thesis
    proof (cases "x < xs ! ?mid")
      case less: True
      have "x < xs ! i" if "?mid \<le> i" "i < length xs" for i
        using less sorted_nth_mono [OF "1.prems"(1) that] by (rule less_le_trans)
      then show ?thesis
        unfolding step if_P [OF less] using "1.prems" mid by (intro "1.IH"(1) [OF True refl less]) auto
    next
      case geq: False
      have "xs ! i \<le> x" if "i < ?mid + 1" for i
      proof -
        have "xs ! i \<le> xs ! ?mid" using that mid "1.prems"(1,3) by (intro sorted_nth_mono) auto
        then show ?thesis using geq by simp
      qed
      then show ?thesis
        unfolding step if_not_P [OF geq] using "1.prems" mid by (intro "1.IH"(2) [OF True refl geq]) auto
    qed
  next
    case False
    then have "bisect_loop xs x lo hi = lo" by (subst bisect_loop.simps) simp
    then show ?thesis using False "1.prems" by auto
  qed
qed

text \<open>The position found splits a sorted list into what is at most \<open>x\<close> and what is greater.\<close>

lemma bisect_right_splits:
  assumes "sorted xs"
  shows "take (bisect_right xs x) xs = filter (\<lambda>y. y \<le> x) xs"
    "drop (bisect_right xs x) xs = filter (\<lambda>y. x < y) xs" "bisect_right xs x \<le> length xs"
proof -
  let ?i = "bisect_right xs x"
  have spec: "?i \<le> length xs" "\<forall>i < ?i. xs ! i \<le> x" "\<forall>i. ?i \<le> i \<and> i < length xs \<longrightarrow> x < xs ! i"
    using bisect_loop_spec [OF assms, of 0 "length xs" x] leD by (auto simp: bisect_right_def)
  have low: "\<forall>y \<in> set (take ?i xs). y \<le> x" using spec(2) by (auto simp: in_set_conv_nth)
  have high: "\<forall>y \<in> set (drop ?i xs). x < y"
    using spec(3) by (auto simp: in_set_conv_nth)
  have "filter P xs = filter P (take ?i xs) @ filter P (drop ?i xs)" for P
    by (metis append_take_drop_id filter_append)
  moreover have "filter (\<lambda>y. y \<le> x) (take ?i xs) = take ?i xs" "filter (\<lambda>y. x < y) (drop ?i xs) = drop ?i xs"
    using low high by (simp_all add: filter_id_conv)
  moreover have "filter (\<lambda>y. y \<le> x) (drop ?i xs) = []" "filter (\<lambda>y. x < y) (take ?i xs) = []"
    using low high by (auto simp: filter_empty_conv)
  ultimately show "take ?i xs = filter (\<lambda>y. y \<le> x) xs" "drop ?i xs = filter (\<lambda>y. x < y) xs" by simp_all
  show "?i \<le> length xs" by (rule spec)
qed

lemma bisect_insort_spec:
  assumes "sorted xs"
  shows "sorted (bisect_insort xs x)" "mset (bisect_insort xs x) = add_mset x (mset xs)"
proof -
  note split = bisect_right_splits [OF assms, of x]
  have eq: "bisect_insort xs x = filter (\<lambda>y. y \<le> x) xs @ [x] @ filter (\<lambda>y. x < y) xs"
    by (simp add: bisect_insort_def Let_def split)
  show "sorted (bisect_insort xs x)"
    using assms by (auto simp: eq sorted_append sorted_filter [where f = id, simplified])
  have "mset (filter (\<lambda>y. y \<le> x) xs) + mset (filter (\<lambda>y. x < y) xs) = mset xs"
    using split by (metis append_take_drop_id mset_append)
  then show "mset (bisect_insort xs x) = add_mset x (mset xs)" by (simp add: eq)
qed

section \<open>The ring\<close>

type_synonym vnode = "int \<times> string"

record 'm hash_ring =
  hr_virtual :: int
  hr_weights :: "string \<rightharpoonup> int"
  hr_metadata :: "string \<rightharpoonup> 'm"
  hr_ring :: "vnode list"
  hr_hash_to_node :: "int \<rightharpoonup> string"
  hr_nodes :: "string set"

definition get_virtual_node_count :: "'m hash_ring \<Rightarrow> string \<Rightarrow> int" where
  "get_virtual_node_count r node =
     hr_virtual r * (case hr_weights r node of None \<Rightarrow> 1 | Some w \<Rightarrow> w)"

definition virtual_key :: "string \<Rightarrow> nat \<Rightarrow> string" where
  "virtual_key node i = node @ '':'' @ show_nat i"

definition add_vnode :: "(string \<Rightarrow> int) \<Rightarrow> string \<Rightarrow> nat \<Rightarrow> 'm hash_ring \<Rightarrow> 'm hash_ring" where
  "add_vnode H node i r =
     (let hash_value = H (virtual_key node i)
      in r\<lparr>hr_ring := bisect_insort (hr_ring r) (hash_value, node),
           hr_hash_to_node := (hr_hash_to_node r)(hash_value \<mapsto> node)\<rparr>)"

definition hr_add_node :: "(string \<Rightarrow> int) \<Rightarrow> 'm hash_ring \<Rightarrow> string \<Rightarrow> 'm hash_ring" where
  "hr_add_node H r node =
     (if node \<in> hr_nodes r then r
      else let r1 = r\<lparr>hr_nodes := insert node (hr_nodes r)\<rparr>
           in fold (add_vnode H node) [0 ..< nat (get_virtual_node_count r1 node)] r1)"

definition hr_remove_node :: "'m hash_ring \<Rightarrow> string \<Rightarrow> 'm hash_ring" where
  "hr_remove_node r node =
     (if node \<notin> hr_nodes r then r
      else let ring = filter (\<lambda>(h, n). n \<noteq> node) (hr_ring r)
           in r\<lparr>hr_nodes := hr_nodes r - {node}, hr_ring := ring, hr_hash_to_node := map_of (rev ring)\<rparr>)"

definition hr_init :: "(string \<Rightarrow> int) \<Rightarrow> string list \<Rightarrow> int \<Rightarrow> (string \<rightharpoonup> int) \<Rightarrow> (string \<rightharpoonup> 'm) \<Rightarrow> 'm hash_ring" where
  "hr_init H nodes virtual_nodes weights node_metadata =
     foldl (hr_add_node H) \<lparr>hr_virtual = virtual_nodes, hr_weights = weights, hr_metadata = node_metadata,
       hr_ring = [], hr_hash_to_node = (\<lambda>_. None), hr_nodes = {}\<rparr> nodes"

definition hr_get_node :: "(string \<Rightarrow> int) \<Rightarrow> 'm hash_ring \<Rightarrow> string \<Rightarrow> string option" where
  "hr_get_node H r key =
     (if hr_ring r = [] then None
      else let idx = bisect_right (hr_ring r) (H key, '''')
           in Some (snd (hr_ring r ! (if idx = length (hr_ring r) then 0 else idx))))"

text \<open>The loop over the ring from \<open>idx\<close> on; \<open>result\<close> is also the set \<open>seen\<close>.\<close>

fun get_nodes_loop :: "vnode list \<Rightarrow> nat \<Rightarrow> int \<Rightarrow> nat list \<Rightarrow> string list \<Rightarrow> string list" where
  "get_nodes_loop ring idx wanted [] result = result"
| "get_nodes_loop ring idx wanted (i # is) result =
     (let node = snd (ring ! ((idx + i) mod length ring))
      in if node \<notin> set result
         then if int (length (result @ [node])) = wanted then result @ [node]
              else get_nodes_loop ring idx wanted is (result @ [node])
         else get_nodes_loop ring idx wanted is result)"

definition hr_get_nodes :: "(string \<Rightarrow> int) \<Rightarrow> 'm hash_ring \<Rightarrow> string \<Rightarrow> int \<Rightarrow> string list" where
  "hr_get_nodes H r key wanted =
     (if hr_ring r = [] \<or> wanted \<le> 0 then []
      else get_nodes_loop (hr_ring r) (bisect_right (hr_ring r) (H key, '''')) wanted [0 ..< length (hr_ring r)] [])"

definition hr_get_node_with_metadata :: "(string \<Rightarrow> int) \<Rightarrow> 'm hash_ring \<Rightarrow> string \<Rightarrow> string option \<times> 'm option" where
  "hr_get_node_with_metadata H r key =
     (case hr_get_node H r key of None \<Rightarrow> (None, None) | Some node \<Rightarrow> (Some node, hr_metadata r node))"

section \<open>Statistics\<close>

text \<open>Occurrences in the order of their first, as a defaultdict counts them.\<close>

definition tally :: "string list \<Rightarrow> (string, nat) dict" where
  "tally xs = foldl (\<lambda>d x. dict_set x (dict_get d x 0 + 1) d) [] xs"

record ring_stats =
  rs_total :: nat
  rs_physical_nodes :: nat
  rs_per_node :: "(string, nat) dict"
  rs_avg :: real
  rs_std_dev :: real
  rs_min :: nat
  rs_max :: nat

definition average :: "nat list \<Rightarrow> real" where
  "average counts = real (sum_list counts) / real (length counts)"

definition relative_std_dev :: "nat list \<Rightarrow> real" where
  "relative_std_dev counts =
     (let avg = average counts;
          variance = sum_list (map (\<lambda>c. (real c - avg) ^ 2) counts) / real (length counts);
          std_dev = sqrt variance
      in if avg > 0 then std_dev / avg else 0)"

definition hr_get_distribution_stats :: "'m hash_ring \<Rightarrow> ring_stats option" where
  "hr_get_distribution_stats r =
     (if hr_ring r = [] then None
      else let virtual_counts = tally (map snd (hr_ring r)); counts = map snd virtual_counts
           in Some \<lparr>rs_total = length (hr_ring r), rs_physical_nodes = card (hr_nodes r),
                rs_per_node = virtual_counts, rs_avg = average counts, rs_std_dev = relative_std_dev counts,
                rs_min = Min (set counts), rs_max = Max (set counts)\<rparr>)"

record key_stats =
  ks_total_keys :: nat
  ks_per_node :: "(string, nat) dict"
  ks_avg :: real
  ks_std_dev :: real
  ks_min :: nat
  ks_max :: nat
  ks_balance_ratio :: real

definition hr_analyze_distribution :: "(string \<Rightarrow> int) \<Rightarrow> 'm hash_ring \<Rightarrow> string list \<Rightarrow> key_stats option" where
  "hr_analyze_distribution H r keys =
     (let node_counts = tally (filter (\<lambda>n. n \<noteq> '''') (List.map_filter (hr_get_node H r) keys));
          counts = map snd node_counts
      in if counts = [] then None
         else Some \<lparr>ks_total_keys = length keys, ks_per_node = node_counts, ks_avg = average counts,
           ks_std_dev = relative_std_dev counts, ks_min = Min (set counts), ks_max = Max (set counts),
           ks_balance_ratio = (if Max (set counts) > 0 then real (Min (set counts)) / real (Max (set counts)) else 0)\<rparr>)"

section \<open>The ring is the sorted list of its nodes' virtual nodes\<close>

definition vnodes :: "(string \<Rightarrow> int) \<Rightarrow> 'm hash_ring \<Rightarrow> string \<Rightarrow> vnode multiset" where
  "vnodes H r node =
     mset (map (\<lambda>i. (H (virtual_key node i), node)) [0 ..< nat (get_virtual_node_count r node)])"

definition ring_ok :: "(string \<Rightarrow> int) \<Rightarrow> 'm hash_ring \<Rightarrow> bool" where
  "ring_ok H r \<longleftrightarrow> finite (hr_nodes r) \<and> sorted (hr_ring r) \<and> mset (hr_ring r) = (\<Sum>n\<in>hr_nodes r. vnodes H r n)"

lemma add_vnodes_spec:
  "sorted (hr_ring r) \<Longrightarrow> sorted (hr_ring (fold (add_vnode H node) is r)) \<and>
     mset (hr_ring (fold (add_vnode H node) is r)) = mset (hr_ring r) + mset (map (\<lambda>i. (H (virtual_key node i), node)) is) \<and>
     hr_nodes (fold (add_vnode H node) is r) = hr_nodes r \<and> hr_virtual (fold (add_vnode H node) is r) = hr_virtual r \<and>
     hr_weights (fold (add_vnode H node) is r) = hr_weights r \<and> hr_metadata (fold (add_vnode H node) is r) = hr_metadata r"
proof (induction "is" arbitrary: r)
  case (Cons i "is")
  have "sorted (hr_ring (add_vnode H node i r))"
      "mset (hr_ring (add_vnode H node i r)) = add_mset (H (virtual_key node i), node) (mset (hr_ring r))"
    using bisect_insort_spec [OF Cons.prems] by (simp_all add: add_vnode_def Let_def)
  with Cons.IH [of "add_vnode H node i r"] show ?case by (simp add: add_vnode_def Let_def)
qed simp

lemma vnodes_cong:
  "hr_virtual r' = hr_virtual r \<Longrightarrow> hr_weights r' = hr_weights r \<Longrightarrow> vnodes H r' = vnodes H r"
  by (simp add: vnodes_def get_virtual_node_count_def fun_eq_iff)

lemma hr_add_node_spec:
  assumes "ring_ok H r"
  shows "ring_ok H (hr_add_node H r node)" "hr_nodes (hr_add_node H r node) = insert node (hr_nodes r)"
    "hr_virtual (hr_add_node H r node) = hr_virtual r" "hr_weights (hr_add_node H r node) = hr_weights r"
proof -
  let ?r1 = "r\<lparr>hr_nodes := insert node (hr_nodes r)\<rparr>"
  let ?is = "[0 ..< nat (get_virtual_node_count ?r1 node)]"
  have "sorted (hr_ring ?r1)" using assms by (simp add: ring_ok_def)
  note f = add_vnodes_spec [OF this, of H node ?is]
  have count: "get_virtual_node_count ?r1 node = get_virtual_node_count r node" by (simp add: get_virtual_node_count_def)
  show nodes: "hr_nodes (hr_add_node H r node) = insert node (hr_nodes r)"
    and params: "hr_virtual (hr_add_node H r node) = hr_virtual r" "hr_weights (hr_add_node H r node) = hr_weights r"
    using f by (auto simp: hr_add_node_def Let_def)
  have v: "vnodes H (hr_add_node H r node) = vnodes H r" by (rule vnodes_cong) (rule params)+
  show "ring_ok H (hr_add_node H r node)"
  proof (cases "node \<in> hr_nodes r")
    case False
    have "mset (hr_ring (hr_add_node H r node)) = mset (hr_ring r) + vnodes H r node"
      using f False count by (simp add: hr_add_node_def Let_def vnodes_def)
    then have "mset (hr_ring (hr_add_node H r node)) = (\<Sum>n\<in>insert node (hr_nodes r). vnodes H r n)"
      using assms False by (simp add: ring_ok_def add.commute)
    then show ?thesis using f False assms by (simp add: ring_ok_def nodes v) (simp add: hr_add_node_def Let_def)
  qed (use assms in \<open>simp add: hr_add_node_def\<close>)
qed

lemma vnodes_owner: "e \<in># vnodes H r n \<Longrightarrow> snd e = n"
  by (auto simp: vnodes_def)

lemma ring_owner:
  assumes "ring_ok H r" and "e \<in> set (hr_ring r)"
  shows "snd e \<in> hr_nodes r"
proof -
  have "finite N \<Longrightarrow> e \<in># (\<Sum>n\<in>N. vnodes H r n) \<Longrightarrow> snd e \<in> N" for N
    by (induction N rule: finite_induct) (auto dest: vnodes_owner)
  then show ?thesis using assms unfolding ring_ok_def by (metis set_mset_mset)
qed

lemma filter_sum_vnodes:
  "finite N \<Longrightarrow> filter_mset (\<lambda>e. snd e \<noteq> node) (\<Sum>n\<in>N. vnodes H r n) = (\<Sum>n\<in>N - {node}. vnodes H r n)"
proof (induction N rule: finite_induct)
  case (insert n N)
  have "filter_mset (\<lambda>e. snd e \<noteq> node) (vnodes H r n) = (if n = node then {#} else vnodes H r n)"
    unfolding vnodes_def mset_filter [symmetric] by (simp add: filter_map comp_def del: mset_map mset_upt)
  then show ?case using insert by (auto simp: insert_Diff_if)
qed simp

lemma hr_remove_node_spec:
  assumes "ring_ok H r"
  shows "ring_ok H (hr_remove_node r node)" "hr_nodes (hr_remove_node r node) = hr_nodes r - {node}"
    "hr_ring (hr_remove_node r node) = filter (\<lambda>e. snd e \<noteq> node) (hr_ring r)"
    "hr_virtual (hr_remove_node r node) = hr_virtual r" "hr_weights (hr_remove_node r node) = hr_weights r"
proof -
  have absent: "filter (\<lambda>e. snd e \<noteq> node) (hr_ring r) = hr_ring r" if "node \<notin> hr_nodes r"
    using ring_owner [OF assms] that by (auto simp: filter_id_conv)
  have eq: "(\<lambda>(h, n). n \<noteq> node) = (\<lambda>e :: vnode. snd e \<noteq> node)" by auto
  show ring: "hr_ring (hr_remove_node r node) = filter (\<lambda>e. snd e \<noteq> node) (hr_ring r)"
    using absent by (simp add: hr_remove_node_def Let_def eq)
  show nodes: "hr_nodes (hr_remove_node r node) = hr_nodes r - {node}"
    and params: "hr_virtual (hr_remove_node r node) = hr_virtual r" "hr_weights (hr_remove_node r node) = hr_weights r"
    by (auto simp: hr_remove_node_def Let_def)
  have v: "vnodes H (hr_remove_node r node) = vnodes H r" by (rule vnodes_cong) (rule params)+
  show "ring_ok H (hr_remove_node r node)"
    using assms filter_sum_vnodes [of "hr_nodes r" node H r]
    by (simp add: ring_ok_def ring nodes v sorted_filter [where f = id, simplified])
qed

text \<open>A ring is determined by its nodes and parameters.\<close>

lemma ring_unique:
  assumes "ring_ok H r" and "ring_ok H s" and "hr_nodes r = hr_nodes s"
    and "hr_virtual r = hr_virtual s" and "hr_weights r = hr_weights s"
  shows "hr_ring r = hr_ring s"
proof -
  have "vnodes H r = vnodes H s" by (rule vnodes_cong) (use assms in simp_all)
  then have "mset (hr_ring r) = mset (hr_ring s)" using assms by (simp add: ring_ok_def)
  then have "sort (hr_ring s) = hr_ring r" by (rule properties_for_sort) (use assms in \<open>simp add: ring_ok_def\<close>)
  moreover have "sort (hr_ring s) = hr_ring s" using assms by (simp add: ring_ok_def sorted_sort_id)
  ultimately show ?thesis by simp
qed

section \<open>Lookups walk the ring clockwise\<close>

text \<open>The ring from a point on, once around, and the nodes of a list in the order of their first entry.\<close>

definition clockwise :: "vnode \<Rightarrow> vnode list \<Rightarrow> vnode list" where
  "clockwise x ring = filter (\<lambda>e. x < e) ring @ filter (\<lambda>e. e \<le> x) ring"

fun firsts :: "'a list \<Rightarrow> 'a list" where
  "firsts [] = []"
| "firsts (x # xs) = x # filter (\<lambda>y. y \<noteq> x) (firsts xs)"

definition preference_list :: "(string \<Rightarrow> int) \<Rightarrow> 'm hash_ring \<Rightarrow> string \<Rightarrow> string list" where
  "preference_list H r key = firsts (map snd (clockwise (H key, '''') (hr_ring r)))"

lemma set_firsts [simp]: "set (firsts xs) = set xs"
  by (induction xs) auto

lemma distinct_firsts [simp]: "distinct (firsts xs)"
  by (induction xs) auto

lemma firsts_filter: "firsts (filter P xs) = filter P (firsts xs)"
proof (induction xs)
  case (Cons x xs)
  then show ?case by (auto simp: conj_commute intro: filter_cong)
qed simp

lemma clockwise_rotation:
  assumes "sorted ring" and "ring \<noteq> []"
  shows "map (\<lambda>i. ring ! ((bisect_right ring x + i) mod length ring)) [0 ..< length ring] = clockwise x ring"
proof -
  let ?i = "bisect_right ring x"
  have "clockwise x ring = drop ?i ring @ take ?i ring"
    using bisect_right_splits [OF assms(1)] by (simp add: clockwise_def)
  also have "\<dots> = map (\<lambda>i. ring ! ((?i + i) mod length ring)) [0 ..< length ring]"
  proof (rule nth_equalityI)
    have le: "?i \<le> length ring" by (rule bisect_right_splits(3) [OF assms(1)])
    then show "length (drop ?i ring @ take ?i ring) = length (map (\<lambda>i. ring ! ((?i + i) mod length ring)) [0 ..< length ring])"
      by simp
    fix i assume "i < length (drop ?i ring @ take ?i ring)"
    then have i: "i < length ring" using le by simp
    show "(drop ?i ring @ take ?i ring) ! i = map (\<lambda>i. ring ! ((?i + i) mod length ring)) [0 ..< length ring] ! i"
    proof (cases "?i + i < length ring")
      case True
      then show ?thesis using i le by (simp add: nth_append less_diff_conv add.commute)
    next
      case False
      then have "(?i + i) mod length ring = ?i + i - length ring"
        using i le by (subst mod_if) (simp add: mod_if)
      moreover have "\<not> i < length (drop ?i ring)" "i - length (drop ?i ring) = ?i + i - length ring"
        using False i le by auto
      ultimately show ?thesis using i le by (simp add: nth_append)
    qed
  qed
  finally show ?thesis ..
qed

lemma get_nodes_loop_spec:
  assumes "distinct result" and "int (length result) < wanted"
  shows "get_nodes_loop ring idx wanted is result =
    take (nat wanted) (result @ filter (\<lambda>n. n \<notin> set result)
      (firsts (map (\<lambda>i. snd (ring ! ((idx + i) mod length ring))) is)))"
  using assms
proof (induction "is" arbitrary: result)
  case (Cons i "is")
  let ?n = "snd (ring ! ((idx + i) mod length ring))"
  let ?rest = "firsts (map (\<lambda>i. snd (ring ! ((idx + i) mod length ring))) is)"
  show ?case
  proof (cases "?n \<in> set result")
    case True
    have "filter (\<lambda>n. n \<notin> set result) (filter (\<lambda>y. y \<noteq> ?n) ?rest) = filter (\<lambda>n. n \<notin> set result) ?rest"
      using True by (auto intro: filter_cong)
    then show ?thesis using Cons.IH [OF Cons.prems] True by simp
  next
    case False
    have same: "filter (\<lambda>n. n \<notin> set result) (filter (\<lambda>y. y \<noteq> ?n) ?rest) = filter (\<lambda>n. n \<notin> set (result @ [?n])) ?rest"
      by (auto intro: filter_cong)
    show ?thesis
    proof (cases "int (length (result @ [?n])) = wanted")
      case True
      then have "nat wanted = length (result @ [?n])" by linarith
      then show ?thesis using True False by simp
    next
      case less: False
      then have "int (length (result @ [?n])) < wanted" using Cons.prems(2) by simp
      moreover have "distinct (result @ [?n])" using Cons.prems(1) False by simp
      ultimately show ?thesis using Cons.IH [of "result @ [?n]"] less False same by (simp add: Let_def)
    qed
  qed
qed simp

lemma hr_get_nodes_eq:
  assumes "sorted (hr_ring r)"
  shows "hr_get_nodes H r key wanted = take (nat wanted) (preference_list H r key)"
proof (cases "hr_ring r = [] \<or> wanted \<le> 0")
  case False
  let ?x = "(H key, '''' :: string)"
  have "map (\<lambda>i. snd (hr_ring r ! ((bisect_right (hr_ring r) ?x + i) mod length (hr_ring r)))) [0 ..< length (hr_ring r)] =
      map snd (clockwise ?x (hr_ring r))"
    using clockwise_rotation [OF assms, of ?x, THEN arg_cong [of _ _ "map snd"]] False by (simp add: comp_def)
  then show ?thesis
    using False get_nodes_loop_spec [of "[]" wanted "hr_ring r" "bisect_right (hr_ring r) ?x" "[0 ..< length (hr_ring r)]"]
    by (simp add: hr_get_nodes_def preference_list_def)
qed (auto simp: hr_get_nodes_def preference_list_def clockwise_def)

lemma hr_get_node_eq:
  assumes "sorted (hr_ring r)"
  shows "hr_get_node H r key = (case preference_list H r key of [] \<Rightarrow> None | n # _ \<Rightarrow> Some n)"
proof (cases "hr_ring r = []")
  case False
  let ?x = "(H key, '''' :: string)" and ?ring = "hr_ring r"
  let ?i = "bisect_right ?ring ?x"
  have le: "?i \<le> length ?ring" by (rule bisect_right_splits(3) [OF assms])
  have "clockwise ?x ?ring = map (\<lambda>i. ?ring ! ((?i + i) mod length ?ring)) [0 ..< length ?ring]"
    using clockwise_rotation [OF assms False, of ?x] by simp
  also have "\<dots> = ?ring ! (?i mod length ?ring) # map (\<lambda>i. ?ring ! ((?i + i) mod length ?ring)) [1 ..< length ?ring]"
    using False by (subst upt_conv_Cons) simp_all
  finally have "preference_list H r key = snd (?ring ! (?i mod length ?ring)) #
      filter (\<lambda>y. y \<noteq> snd (?ring ! (?i mod length ?ring))) (firsts (map snd (map (\<lambda>i. ?ring ! ((?i + i) mod length ?ring)) [1 ..< length ?ring])))"
    by (simp add: preference_list_def)
  moreover have "?i mod length ?ring = (if ?i = length ?ring then 0 else ?i)" using le by auto
  ultimately show ?thesis using False by (simp add: hr_get_node_def Let_def)
qed (simp add: hr_get_node_def preference_list_def clockwise_def)

lemma preference_list_filter:
  assumes "hr_ring s = filter (\<lambda>e. snd e \<noteq> node) (hr_ring r)"
  shows "preference_list H s key = filter (\<lambda>n. n \<noteq> node) (preference_list H r key)"
proof -
  have "clockwise x (hr_ring s) = filter (\<lambda>e. snd e \<noteq> node) (clockwise x (hr_ring r))" for x
    by (simp add: assms clockwise_def conj_commute)
  then show ?thesis by (simp add: preference_list_def firsts_filter [symmetric] filter_map comp_def)
qed

lemma take_filter_take:
  "distinct xs \<Longrightarrow> take m (filter (\<lambda>n. n \<noteq> y) (take (Suc m) xs)) = take m (filter (\<lambda>n. n \<noteq> y) xs)"
proof (induction xs arbitrary: m)
  case (Cons x xs)
  show ?case
  proof (cases "x = y")
    case True
    then have "filter (\<lambda>n. n \<noteq> y) (take m xs) = take m xs" "filter (\<lambda>n. n \<noteq> y) xs = xs"
      using Cons.prems by (auto simp: filter_id_conv dest: in_set_takeD)
    then show ?thesis using True by simp
  next
    case False
    then show ?thesis using Cons by (cases m) simp_all
  qed
qed simp

section \<open>Properties\<close>

text \<open>The rings that the operations make.\<close>

inductive ring_reachable :: "(string \<Rightarrow> int) \<Rightarrow> 'm hash_ring \<Rightarrow> bool" for H where
  ring_init: "ring_reachable H (hr_init H nodes virtual_nodes weights metadata)"
| ring_add: "ring_reachable H r \<Longrightarrow> ring_reachable H (hr_add_node H r node)"
| ring_remove: "ring_reachable H r \<Longrightarrow> ring_reachable H (hr_remove_node r node)"

lemma hr_add_nodes_ok: "ring_ok H r \<Longrightarrow> ring_ok H (foldl (hr_add_node H) r nodes)"
  by (induction nodes arbitrary: r) (auto intro: hr_add_node_spec(1))

lemma ring_reachable_ok: "ring_reachable H r \<Longrightarrow> ring_ok H r"
proof (induction rule: ring_reachable.induct)
  case (ring_init nodes virtual_nodes weights metadata)
  show ?case unfolding hr_init_def by (rule hr_add_nodes_ok) (simp add: ring_ok_def)
next
  case (ring_add r node)
  show ?case by (rule hr_add_node_spec(1) [OF ring_add.IH])
next
  case (ring_remove r node)
  show ?case by (rule hr_remove_node_spec(1) [OF ring_remove.IH])
qed

text \<open>Adding a new node and removing it again restores the ring.\<close>

lemma remove_added:
  assumes "ring_ok H r" and "node \<notin> hr_nodes r"
  shows "hr_ring (hr_remove_node (hr_add_node H r node) node) = hr_ring r"
proof (rule ring_unique)
  let ?r = "hr_add_node H r node"
  note add = hr_add_node_spec [OF assms(1), of node]
  note del = hr_remove_node_spec [OF add(1), of node]
  show "ring_ok H (hr_remove_node ?r node)" "ring_ok H r" by (rule del, rule assms)
  show "hr_nodes (hr_remove_node ?r node) = hr_nodes r" "hr_virtual (hr_remove_node ?r node) = hr_virtual r"
    "hr_weights (hr_remove_node ?r node) = hr_weights r"
    using add del assms(2) by auto
qed

lemma removal_preference:
  "ring_ok H r \<Longrightarrow> preference_list H (hr_remove_node r node) key = filter (\<lambda>n. n \<noteq> node) (preference_list H r key)"
  by (rule preference_list_filter) (rule hr_remove_node_spec(3))

text \<open>
  C22. Changing the ring moves no more keys than it must, for any hash function, colliding or not:
  removing a node moves only the keys that it had, and a key moves when a node is added only if it
  moves to the new node.
\<close>

theorem consistent_hash_minimal_disruption:
  assumes "ring_reachable H r"
  shows "(hr_get_node H r key \<noteq> Some node \<longrightarrow> hr_get_node H (hr_remove_node r node) key = hr_get_node H r key) \<and>
    hr_get_node H (hr_add_node H r node) key \<in> {hr_get_node H r key, Some node}"
proof -
  have del: "hr_get_node H (hr_remove_node s node) key = hr_get_node H s key"
    if ok: "ring_ok H s" and other: "hr_get_node H s key \<noteq> Some node" for s :: "'a hash_ring"
  proof -
    have sorted: "sorted (hr_ring s)" "sorted (hr_ring (hr_remove_node s node))"
      using ok hr_remove_node_spec(1) [OF ok, of node] by (simp_all add: ring_ok_def)
    show ?thesis using other removal_preference [OF ok, of node key]
      by (auto simp: hr_get_node_eq [OF sorted(1)] hr_get_node_eq [OF sorted(2)] split: list.splits)
  qed
  note ok = ring_reachable_ok [OF assms]
  have "hr_get_node H (hr_add_node H r node) key \<in> {hr_get_node H r key, Some node}"
  proof (cases "node \<in> hr_nodes r \<or> hr_get_node H (hr_add_node H r node) key = Some node")
    case False
    then have ring: "hr_ring (hr_remove_node (hr_add_node H r node) node) = hr_ring r"
      using remove_added [OF ok] by blast
    have "hr_get_node H (hr_remove_node (hr_add_node H r node) node) key = hr_get_node H (hr_add_node H r node) key"
      by (rule del [OF hr_add_node_spec(1) [OF ok]]) (use False in blast)
    moreover have "hr_get_node H (hr_remove_node (hr_add_node H r node) node) key = hr_get_node H r key"
      by (simp add: hr_get_node_def ring)
    ultimately show ?thesis by simp
  qed (auto simp: hr_add_node_def)
  with del [OF ok] show ?thesis by blast
qed

lemma example_ring: "hr_get_node (\<lambda>s. int (length s)) (hr_init (\<lambda>s. int (length s)) [''a'', ''bb''] 2 (\<lambda>_. None) (\<lambda>_. None)) ''kkk'' = Some ''a''"
  by code_simp

theorem consistent_hash_minimal_disruption_witness:
  "\<exists>(H :: string \<Rightarrow> int) (r :: unit hash_ring). hr_get_node H r ''kkk'' = Some ''a'' \<and>
     hr_get_node H (hr_remove_node r ''bb'') ''kkk'' = Some ''a'' \<and>
     hr_get_node H (hr_add_node H r ''c'') ''kkk'' \<in> {Some ''a'', Some ''c''}"
proof -
  let ?H = "\<lambda>s :: string. int (length s)"
  let ?r = "hr_init ?H [''a'', ''bb''] 2 (\<lambda>_. None) (\<lambda>_. None) :: unit hash_ring"
  have "hr_get_node ?H ?r ''kkk'' = Some ''a''" by (rule example_ring)
  with consistent_hash_minimal_disruption [OF ring_init, of ?H "[''a'', ''bb'']" 2 "\<lambda>_. None" "\<lambda>_. None :: unit option" "''kkk''" "''bb''"]
    consistent_hash_minimal_disruption [OF ring_init, of ?H "[''a'', ''bb'']" 2 "\<lambda>_. None" "\<lambda>_. None :: unit option" "''kkk''" "''c''"]
  show ?thesis by auto
qed

text \<open>
  Replica lists: \<open>get_nodes\<close> returns as many distinct nodes of the ring as asked for, or all that
  have virtual nodes, the first being the node of \<open>get_node\<close>; it depends only on which nodes the
  ring has, not on the order in which they came and went; and when a node is removed, the next
  node of the list takes its place and the others keep theirs.
\<close>

theorem consistent_hash_replicas:
  assumes "ring_reachable H r" and "0 < k"
  shows "distinct (hr_get_nodes H r key k) \<and> set (hr_get_nodes H r key k) \<subseteq> hr_nodes r \<and>
    length (hr_get_nodes H r key k) = min (nat k) (card (snd ` set (hr_ring r))) \<and>
    hr_get_node H r key = (case hr_get_nodes H r key k of [] \<Rightarrow> None | n # _ \<Rightarrow> Some n) \<and>
    hr_get_nodes H (hr_remove_node r node) key k = take (nat k) (filter (\<lambda>n. n \<noteq> node) (hr_get_nodes H r key (k + 1))) \<and>
    (\<forall>s. ring_reachable H s \<and> hr_nodes s = hr_nodes r \<and> hr_virtual s = hr_virtual r \<and> hr_weights s = hr_weights r \<longrightarrow>
       hr_get_nodes H s key k = hr_get_nodes H r key k)"
proof (intro conjI allI impI)
  note ok = ring_reachable_ok [OF assms(1)]
  have sorted: "sorted (hr_ring r)" "sorted (hr_ring (hr_remove_node r node))"
    using ok hr_remove_node_spec(1) [OF ok, of node] by (simp_all add: ring_ok_def)
  let ?l = "preference_list H r key"
  note eq = hr_get_nodes_eq [OF sorted(1), of H key]
  have "set (clockwise x ring) = set ring" for x ring by (auto simp: clockwise_def not_le)
  then have set: "set ?l = snd ` set (hr_ring r)" by (simp add: preference_list_def)
  have dist: "distinct ?l" by (simp add: preference_list_def)
  show "distinct (hr_get_nodes H r key k)" using dist by (simp add: eq distinct_take)
  show "set (hr_get_nodes H r key k) \<subseteq> hr_nodes r"
    using set ring_owner [OF ok] set_take_subset [of "nat k" ?l] by (auto simp: eq)
  show "length (hr_get_nodes H r key k) = min (nat k) (card (snd ` set (hr_ring r)))"
    using distinct_card [OF dist] set by (simp add: eq min.commute)
  obtain j where j: "nat k = Suc j" "nat (k + 1) = Suc (Suc j)" using assms(2) by (cases "nat k") auto
  show "hr_get_node H r key = (case hr_get_nodes H r key k of [] \<Rightarrow> None | n # _ \<Rightarrow> Some n)"
    by (cases ?l) (simp_all add: eq hr_get_node_eq [OF sorted(1)] j)
  have "take m (filter (\<lambda>n. n \<noteq> node) (take (Suc m) xs)) = take m (filter (\<lambda>n. n \<noteq> node) xs)" if "distinct xs" for m and xs :: "string list"
    using that by (rule take_filter_take)
  then show "hr_get_nodes H (hr_remove_node r node) key k = take (nat k) (filter (\<lambda>n. n \<noteq> node) (hr_get_nodes H r key (k + 1)))"
    using dist by (simp add: eq hr_get_nodes_eq [OF sorted(2)] removal_preference [OF ok] j)
  fix s assume "ring_reachable H s \<and> hr_nodes s = hr_nodes r \<and> hr_virtual s = hr_virtual r \<and> hr_weights s = hr_weights r"
  then have "hr_ring s = hr_ring r" using ring_unique ring_reachable_ok ok by blast
  then show "hr_get_nodes H s key k = hr_get_nodes H r key k" by (simp add: hr_get_nodes_def)
qed

theorem consistent_hash_replicas_witness:
  "\<exists>r :: unit hash_ring. ring_reachable (\<lambda>s. int (length s)) r \<and>
     distinct (hr_get_nodes (\<lambda>s. int (length s)) r ''kkk'' 2) \<and>
     hr_get_nodes (\<lambda>s. int (length s)) (hr_remove_node r ''a'') ''kkk'' 2 =
       take 2 (filter (\<lambda>n. n \<noteq> ''a'') (hr_get_nodes (\<lambda>s. int (length s)) r ''kkk'' 3))"
proof -
  let ?H = "\<lambda>s :: string. int (length s)"
  have "ring_reachable ?H (hr_init ?H [''a'', ''bb''] 2 (\<lambda>_. None) (\<lambda>_. None) :: unit hash_ring)" by (rule ring_init)
  with consistent_hash_replicas [OF this, of 2 "''kkk''" "''a''"] show ?thesis by auto
qed

end
