(* ===== verification/Ring_Election.thy ===== *)
theory Ring_Election
  imports Prelude
begin

text \<open>
  \<open>leader-election/src/ring_algorithm.py\<close> over \<open>local_transport.py\<close>: one node's handlers, and the
  nodes of a ring with the messages in flight between them. Messages are delivered by threads of
  their own, so in any order; a message to a node that has not started is dropped.

  A handler returns the node and the messages that it sends; calls of the leader-change callbacks
  are recorded in \<open>rg_notified\<close>.
\<close>

section \<open>A node\<close>

record ring_message =
  rm_type :: string
  rm_candidates :: "string list"
  rm_sender_id :: string

record ring_node =
  rg_node_id :: string
  rg_all_nodes :: "string list"
  rg_next_node :: string
  rg_is_leader :: bool
  rg_leader :: "string option"
  rg_in_election :: bool
  rg_running :: bool
  rg_notified :: "string option list"

type_synonym ring_sends = "(string \<times> ring_message) list"

fun index_in :: "'a list \<Rightarrow> 'a \<Rightarrow> nat" where
  "index_in [] x = 0"
| "index_in (y # ys) x = (if y = x then 0 else Suc (index_in ys x))"

definition ring_node_init :: "string \<Rightarrow> string list \<Rightarrow> ring_node" where
  "ring_node_init node_id peers =
     (let all_nodes = sorted_list_of_set (insert node_id (set peers));
          next_node = all_nodes ! ((index_in all_nodes node_id + 1) mod length all_nodes)
      in \<lparr>rg_node_id = node_id, rg_all_nodes = all_nodes, rg_next_node = next_node, rg_is_leader = False,
          rg_leader = None, rg_in_election = False, rg_running = False, rg_notified = []\<rparr>)"

definition ring_notify :: "ring_node \<Rightarrow> ring_node" where
  "ring_notify n = n\<lparr>rg_notified := rg_notified n @ [rg_leader n]\<rparr>"

definition ring_become_leader :: "ring_node \<Rightarrow> ring_node" where
  "ring_become_leader n = (if \<not> rg_is_leader n then ring_notify (n\<lparr>rg_is_leader := True\<rparr>) else n)"

definition ring_become_follower :: "ring_node \<Rightarrow> ring_node" where
  "ring_become_follower n = (if rg_is_leader n then ring_notify (n\<lparr>rg_is_leader := False\<rparr>) else n)"

definition ring_follow :: "ring_node \<Rightarrow> string \<Rightarrow> ring_node" where
  "ring_follow n winner = (if winner = rg_node_id n then ring_become_leader n else ring_become_follower n)"

definition ring_election_complete :: "ring_node \<Rightarrow> string \<Rightarrow> ring_node" where
  "ring_election_complete n winner = ring_follow (n\<lparr>rg_in_election := False, rg_leader := Some winner\<rparr>) winner"

definition ring_send_election :: "ring_node \<Rightarrow> string list \<Rightarrow> ring_node \<times> ring_sends" where
  "ring_send_election n candidates =
     (if rg_next_node n = rg_node_id n then (ring_election_complete n (rg_node_id n), [])
      else (n, [(rg_next_node n, \<lparr>rm_type = ''election'', rm_candidates = candidates, rm_sender_id = rg_node_id n\<rparr>)]))"

definition ring_send_elected :: "ring_node \<Rightarrow> string \<Rightarrow> ring_sends" where
  "ring_send_elected n winner =
     (if rg_next_node n \<noteq> rg_node_id n
      then [(rg_next_node n, \<lparr>rm_type = ''elected'', rm_candidates = [winner], rm_sender_id = rg_node_id n\<rparr>)] else [])"

definition ring_start_election :: "ring_node \<Rightarrow> ring_node \<times> ring_sends" where
  "ring_start_election n =
     (if rg_in_election n then (n, [])
      else ring_send_election (n\<lparr>rg_in_election := True\<rparr>) [rg_node_id n])"

text \<open>\<open>not self.current_leader\<close> holds of None and of the empty name.\<close>

definition no_leader :: "ring_node \<Rightarrow> bool" where
  "no_leader n \<longleftrightarrow> rg_leader n = None \<or> rg_leader n = Some ''''"

definition ring_start :: "ring_node \<Rightarrow> ring_node \<times> ring_sends" where
  "ring_start n =
     (if rg_running n then (n, [])
      else let n1 = n\<lparr>rg_running := True\<rparr>
           in if no_leader n1 then ring_start_election n1 else (n1, []))"

definition ring_stop :: "ring_node \<Rightarrow> ring_node" where
  "ring_stop n = n\<lparr>rg_running := False, rg_is_leader := False\<rparr>"

text \<open>One round of \<open>_monitor_leader\<close>, and \<open>trigger_election\<close>.\<close>

definition ring_monitor :: "ring_node \<Rightarrow> ring_node \<times> ring_sends" where
  "ring_monitor n =
     (if rg_running n \<and> no_leader n \<and> \<not> rg_in_election n then ring_start_election n else (n, []))"

definition ring_trigger_election :: "ring_node \<Rightarrow> ring_node \<times> ring_sends" where
  "ring_trigger_election n = ring_start_election n"

definition ring_handle_election :: "ring_node \<Rightarrow> ring_message \<Rightarrow> ring_node \<times> ring_sends" where
  "ring_handle_election n m =
     (if \<not> rg_running n then (n, [])
      else if rg_node_id n \<in> set (rm_candidates m)
      then let winner = Max (set (rm_candidates m)); n1 = ring_election_complete n winner
           in (n1, ring_send_elected n1 winner)
      else ring_send_election (n\<lparr>rg_in_election := True\<rparr>) (rm_candidates m @ [rg_node_id n]))"

text \<open>An \<open>elected\<close> message without candidates raises IndexError, which \<open>_handle_message\<close> swallows.\<close>

definition ring_handle_elected :: "ring_node \<Rightarrow> ring_message \<Rightarrow> ring_node \<times> ring_sends" where
  "ring_handle_elected n m =
     (case rm_candidates m of [] \<Rightarrow> (n, [])
      | winner # _ \<Rightarrow>
          if rm_sender_id m = rg_node_id n then (n, [])
          else (ring_follow (n\<lparr>rg_leader := Some winner, rg_in_election := False\<rparr>) winner, [(rg_next_node n, m)]))"

definition ring_handle_message :: "ring_node \<Rightarrow> ring_message \<Rightarrow> ring_node \<times> ring_sends" where
  "ring_handle_message n m =
     (if rm_type m = ''election'' then ring_handle_election n m
      else if rm_type m = ''elected'' then ring_handle_elected n m
      else (n, []))"

section \<open>A ring of nodes\<close>

record ring_net =
  rt_nodes :: "string \<Rightarrow> ring_node"
  rt_flight :: ring_sends

definition ring_net_init :: "string list \<Rightarrow> ring_net" where
  "ring_net_init ids = \<lparr>rt_nodes = (\<lambda>i. ring_node_init i ids), rt_flight = []\<rparr>"

text \<open>
  \<open>LocalTransport.send\<close> drops what a node sends that does not run, and \<open>LocalNetwork.send\<close> what
  is sent to one: a node is registered from its start to its stop.
\<close>

definition ring_post :: "string list \<Rightarrow> ring_net \<Rightarrow> string \<Rightarrow> ring_sends \<Rightarrow> ring_net" where
  "ring_post ids net i sends =
     net\<lparr>rt_flight := rt_flight net @
       (if rg_running (rt_nodes net i) then filter (\<lambda>(dest, _). dest \<in> set ids \<and> rg_running (rt_nodes net dest)) sends else [])\<rparr>"

definition ring_act :: "string list \<Rightarrow> ring_net \<Rightarrow> string \<Rightarrow> ring_node \<times> ring_sends \<Rightarrow> ring_net" where
  "ring_act ids net i res = ring_post ids (net\<lparr>rt_nodes := (rt_nodes net)(i := fst res)\<rparr>) i (snd res)"

text \<open>
  What can happen: a node starts or stops, its monitor wakes up, somebody triggers an election at a
  node (whether it runs or not), or the k-th message in flight arrives.
\<close>

datatype ring_event = RStart string | RStop string | RMonitor string | RTrigger string | RDeliver nat

fun ring_do :: "string list \<Rightarrow> ring_net \<Rightarrow> ring_event \<Rightarrow> ring_net" where
  "ring_do ids net (RStart i) =
     (if i \<in> set ids then ring_act ids net i (ring_start (rt_nodes net i)) else net)"
| "ring_do ids net (RStop i) =
     (if i \<in> set ids then ring_act ids net i (ring_stop (rt_nodes net i), []) else net)"
| "ring_do ids net (RMonitor i) =
     (if i \<in> set ids then ring_act ids net i (ring_monitor (rt_nodes net i)) else net)"
| "ring_do ids net (RTrigger i) =
     (if i \<in> set ids then ring_act ids net i (ring_trigger_election (rt_nodes net i)) else net)"
| "ring_do ids net (RDeliver k) =
     (if k < length (rt_flight net)
      then case rt_flight net ! k of (dest, m) \<Rightarrow>
        let net1 = net\<lparr>rt_flight := take k (rt_flight net) @ drop (Suc k) (rt_flight net)\<rparr>
        in if rg_running (rt_nodes net1 dest)
           then ring_act ids net1 dest (ring_handle_message (rt_nodes net1 dest) m) else net1
      else net)"

definition ring_run :: "string list \<Rightarrow> ring_event list \<Rightarrow> ring_net" where
  "ring_run ids events = foldl (ring_do ids) (ring_net_init ids) events"

section \<open>Positions on the ring\<close>

definition ring_at :: "string list \<Rightarrow> nat \<Rightarrow> string" where
  "ring_at ids i = sorted_list_of_set (set ids) ! (i mod card (set ids))"

definition top_id :: "string list \<Rightarrow> string" where
  "top_id ids = Max (set ids)"

lemma ring_at_in: "ids \<noteq> [] \<Longrightarrow> ring_at ids i \<in> set ids"
  unfolding ring_at_def
  by (metis List.finite_set card_gt_0_iff length_sorted_list_of_set mod_less_divisor nth_mem set_empty set_sorted_list_of_set)

lemma ring_at_surj: "x \<in> set ids \<Longrightarrow> \<exists>i < card (set ids). x = ring_at ids i"
  unfolding ring_at_def
  by (metis List.finite_set in_set_conv_nth length_sorted_list_of_set mod_less set_sorted_list_of_set)

lemma ring_at_eq_iff:
  assumes "ids \<noteq> []"
  shows "ring_at ids i = ring_at ids j \<longleftrightarrow> i mod card (set ids) = j mod card (set ids)"
proof -
  have "i mod card (set ids) < length (sorted_list_of_set (set ids))" for i
    using assms by (simp add: card_gt_0_iff)
  then show ?thesis unfolding ring_at_def by (intro nth_eq_iff_index_eq) simp_all
qed

lemma ring_at_add_card [simp]: "ring_at ids (i + card (set ids)) = ring_at ids i"
  by (simp add: ring_at_def)

lemma ring_at_differ:
  assumes "ids \<noteq> []" and "0 < d" and "d < card (set ids)"
  shows "ring_at ids (i + d) \<noteq> ring_at ids i"
proof
  let ?N = "card (set ids)"
  assume "ring_at ids (i + d) = ring_at ids i"
  then have "(i + d) mod ?N = (i + 0) mod ?N" using ring_at_eq_iff [OF assms(1)] by simp
  then have "d mod ?N = 0 mod ?N" unfolding mod_add_left_eq [symmetric, of i]
    by (metis add_diff_cancel_left' mod_add_left_eq mod_eq_dvd_iff_nat add.right_neutral le_add1 dvd_imp_mod_0 mod_0)
  then show False using assms(2,3) by simp
qed

lemma ring_around: "ids \<noteq> [] \<Longrightarrow> ring_at ids ` {s ..< s + card (set ids)} = set ids"
proof -
  assume ids: "ids \<noteq> []"
  have "inj_on (ring_at ids) {s ..< s + card (set ids)}"
  proof (rule inj_onI)
    fix i j assume i: "i \<in> {s ..< s + card (set ids)}" and j: "j \<in> {s ..< s + card (set ids)}" and eq: "ring_at ids i = ring_at ids j"
    show "i = j"
    proof (rule ccontr)
      assume "i \<noteq> j"
      then consider "i < j" "j - i < card (set ids)" | "j < i" "i - j < card (set ids)" using i j by fastforce
      then show False
        using ring_at_differ [OF ids, of "j - i" i] ring_at_differ [OF ids, of "i - j" j] eq by cases simp_all
    qed
  qed
  then have "card (ring_at ids ` {s ..< s + card (set ids)}) = card (set ids)" by (simp add: card_image)
  moreover have "ring_at ids ` {s ..< s + card (set ids)} \<subseteq> set ids" using ring_at_in [OF ids] by blast
  ultimately show ?thesis by (metis List.finite_set card_subset_eq)
qed

lemma index_in_nth: "distinct xs \<Longrightarrow> j < length xs \<Longrightarrow> index_in xs (xs ! j) = j"
  by (induction xs arbitrary: j) (auto simp: nth_Cons split: nat.splits)

lemma index_ring_at:
  assumes "ids \<noteq> []"
  shows "index_in (sorted_list_of_set (set ids)) (ring_at ids i) = i mod card (set ids)"
  unfolding ring_at_def by (rule index_in_nth) (use assms in \<open>auto simp: card_gt_0_iff\<close>)

lemma ring_node_init_next:
  assumes "ids \<noteq> []"
  shows "rg_next_node (ring_node_init (ring_at ids i) ids) = ring_at ids (Suc i)"
proof -
  have "insert (ring_at ids i) (set ids) = set ids" using ring_at_in [OF assms] by blast
  then show ?thesis
    by (simp add: ring_node_init_def Let_def index_ring_at [OF assms]) (simp add: ring_at_def mod_Suc_eq)
qed

section \<open>The invariant\<close>

text \<open>
  With \<open>strict\<close>, what holds in addition while no node stops and elections are triggered only at
  nodes that run.
\<close>

definition ring_flag_ok :: "bool \<Rightarrow> string list \<Rightarrow> string \<Rightarrow> ring_node \<Rightarrow> bool" where
  "ring_flag_ok strict ids i n \<longleftrightarrow>
     (if strict then rg_is_leader n \<longleftrightarrow> rg_leader n = Some (top_id ids) \<and> i = top_id ids
      else rg_is_leader n \<longrightarrow> rg_leader n = Some (top_id ids) \<and> i = top_id ids)"

definition ring_node_ok :: "bool \<Rightarrow> string list \<Rightarrow> string \<Rightarrow> ring_node \<Rightarrow> bool" where
  "ring_node_ok strict ids i n \<longleftrightarrow>
     rg_node_id n = i \<and> rg_next_node n = rg_next_node (ring_node_init i ids) \<and>
     (rg_leader n = None \<or> rg_leader n = Some (top_id ids)) \<and>
     ring_flag_ok strict ids i n \<and> (strict \<longrightarrow> \<not> rg_running n \<longrightarrow> rg_leader n = None \<and> \<not> rg_in_election n)"

lemma ring_flag_fields [simp]:
  "ring_flag_ok strict ids i (n\<lparr>rg_in_election := b\<rparr>) = ring_flag_ok strict ids i n"
  "ring_flag_ok strict ids i (n\<lparr>rg_running := b\<rparr>) = ring_flag_ok strict ids i n"
  by (simp_all add: ring_flag_ok_def)

lemma ring_flagD: "ring_flag_ok strict ids i n \<Longrightarrow> rg_is_leader n \<Longrightarrow> i = top_id ids"
  by (simp add: ring_flag_ok_def split: if_splits)

text \<open>
  An election message has passed the nodes from its initiator to the one before its destination,
  all of which run; an elected message has passed nodes that have accepted the highest node.
\<close>

definition token_ok :: "string list \<Rightarrow> (string \<Rightarrow> ring_node) \<Rightarrow> string \<times> ring_message \<Rightarrow> nat \<Rightarrow> nat \<Rightarrow> bool" where
  "token_ok ids nodes t s k \<longleftrightarrow> (case t of (dest, m) \<Rightarrow>
     rm_type m = ''election'' \<and> rm_candidates m = map (ring_at ids) [s ..< s + k] \<and> dest = ring_at ids (s + k))"

definition elected_ok :: "string list \<Rightarrow> (string \<Rightarrow> ring_node) \<Rightarrow> string \<times> ring_message \<Rightarrow> nat \<Rightarrow> nat \<Rightarrow> bool" where
  "elected_ok ids nodes t s k \<longleftrightarrow> (case t of (dest, m) \<Rightarrow>
     rm_type m = ''elected'' \<and> rm_candidates m = [top_id ids] \<and> rm_sender_id m = ring_at ids s \<and> dest = ring_at ids (s + k) \<and>
     (\<forall>j \<in> {s ..< s + k}. rg_leader (nodes (ring_at ids j)) = Some (top_id ids)))"

definition ring_msg_ok :: "string list \<Rightarrow> (string \<Rightarrow> ring_node) \<Rightarrow> string \<times> ring_message \<Rightarrow> bool" where
  "ring_msg_ok ids nodes t \<longleftrightarrow>
     (\<exists>s k. 1 \<le> k \<and> k \<le> card (set ids) \<and> (token_ok ids nodes t s k \<or> elected_ok ids nodes t s k))"

definition all_running :: "string list \<Rightarrow> ring_net \<Rightarrow> bool" where
  "all_running ids net \<longleftrightarrow> (\<forall>i \<in> set ids. rg_running (rt_nodes net i))"

definition all_agree :: "string list \<Rightarrow> ring_net \<Rightarrow> bool" where
  "all_agree ids net \<longleftrightarrow> (\<forall>i \<in> set ids. rg_leader (rt_nodes net i) = Some (top_id ids))"

definition ring_safe :: "bool \<Rightarrow> string list \<Rightarrow> ring_net \<Rightarrow> bool" where
  "ring_safe strict ids net \<longleftrightarrow> (\<forall>i \<in> set ids. ring_node_ok strict ids i (rt_nodes net i)) \<and>
     (\<forall>t \<in> set (rt_flight net). ring_msg_ok ids (rt_nodes net) t \<and> (strict \<longrightarrow> rg_running (rt_nodes net (fst t))))"

definition ring_inv :: "bool \<Rightarrow> string list \<Rightarrow> ring_net \<Rightarrow> bool" where
  "ring_inv strict ids net \<longleftrightarrow> ring_safe strict ids net \<and>
     (strict \<longrightarrow> all_running ids net \<longrightarrow> rt_flight net \<noteq> [] \<or> all_agree ids net)"

text \<open>Nodes only gain: once a leader is known, it stays; and once running, always running, if nobody stops.\<close>

definition gains :: "bool \<Rightarrow> string list \<Rightarrow> ring_node \<Rightarrow> ring_node \<Rightarrow> bool" where
  "gains strict ids n n' \<longleftrightarrow> (strict \<longrightarrow> rg_running n \<longrightarrow> rg_running n') \<and>
     (rg_leader n = Some (top_id ids) \<longrightarrow> rg_leader n' = Some (top_id ids))"

lemma ring_msg_ok_mono:
  assumes "ring_msg_ok ids nodes t" and "\<forall>i \<in> set ids. gains strict ids (nodes i) (nodes' i)" and "ids \<noteq> []"
  shows "ring_msg_ok ids nodes' t"
proof -
  have "elected_ok ids nodes t s k \<Longrightarrow> elected_ok ids nodes' t s k" for s k
    using assms(2) ring_at_in [OF assms(3)] by (auto simp: elected_ok_def gains_def)
  moreover have "token_ok ids nodes t s k \<Longrightarrow> token_ok ids nodes' t s k" for s k by (simp add: token_ok_def)
  ultimately show ?thesis using assms(1) unfolding ring_msg_ok_def by blast
qed

lemma ring_msg_dest: "ids \<noteq> [] \<Longrightarrow> ring_msg_ok ids nodes t \<Longrightarrow> fst t \<in> set ids"
  by (auto simp: ring_msg_ok_def token_ok_def elected_ok_def ring_at_in)

lemma ring_act_net:
  "rt_nodes (ring_act ids net i (n', sends)) = (rt_nodes net)(i := n')"
  "rt_flight (ring_act ids net i (n', sends)) = rt_flight net @
     (if rg_running n' then filter (\<lambda>(dest, _). dest \<in> set ids \<and> rg_running (((rt_nodes net)(i := n')) dest)) sends else [])"
  by (simp_all add: ring_act_def ring_post_def)

lemma ring_act_safe:
  assumes "ring_safe strict ids net" and "i \<in> set ids" and "ring_node_ok strict ids i n'" and "gains strict ids (rt_nodes net i) n'"
    and "\<forall>t \<in> set sends. ring_msg_ok ids ((rt_nodes net)(i := n')) t"
  shows "ring_safe strict ids (ring_act ids net i (n', sends))"
    and "all_agree ids net \<Longrightarrow> all_agree ids (ring_act ids net i (n', sends))"
proof -
  let ?nodes = "(rt_nodes net)(i := n')"
  have gains: "\<forall>j \<in> set ids. gains strict ids (rt_nodes net j) (?nodes j)" using assms(4) by (simp add: gains_def)
  have ids: "ids \<noteq> []" using assms(2) by auto
  have old: "ring_msg_ok ids ?nodes t \<and> (strict \<longrightarrow> rg_running (?nodes (fst t)))" if "t \<in> set (rt_flight net)" for t
  proof
    show "ring_msg_ok ids ?nodes t"
      by (rule ring_msg_ok_mono [OF _ gains ids]) (use assms(1) that in \<open>simp add: ring_safe_def\<close>)
    show "strict \<longrightarrow> rg_running (?nodes (fst t))" using assms(1,4) that by (auto simp: ring_safe_def gains_def)
  qed
  have both: "ring_msg_ok ids ?nodes t \<and> (strict \<longrightarrow> rg_running (?nodes (fst t)))"
    if "t \<in> set (rt_flight (ring_act ids net i (n', sends)))" for t
  proof (cases "t \<in> set (rt_flight net)")
    case False
    then have "t \<in> set sends" "rg_running (?nodes (fst t))"
      using that by (auto simp: ring_act_net split: if_splits)
    then show ?thesis using assms(5) by blast
  qed (use old in blast)
  have "\<forall>j \<in> set ids. ring_node_ok strict ids j (?nodes j)" using assms(1,3) by (simp add: ring_safe_def)
  with both show "ring_safe strict ids (ring_act ids net i (n', sends))" unfolding ring_safe_def ring_act_net(1) by blast
  show "all_agree ids (ring_act ids net i (n', sends))" if "all_agree ids net"
    using that gains by (auto simp: all_agree_def ring_act_net gains_def)
qed

section \<open>Each event keeps the invariant\<close>

lemma next_is_self:
  assumes "ids \<noteq> []" and "ring_node_ok strict ids (ring_at ids p) n"
  shows "rg_next_node n = ring_at ids (Suc p)" "rg_node_id n = ring_at ids p"
    "rg_next_node n = rg_node_id n \<longleftrightarrow> card (set ids) = 1"
proof -
  show eqs: "rg_next_node n = ring_at ids (Suc p)" "rg_node_id n = ring_at ids p"
    using assms by (simp_all add: ring_node_ok_def ring_node_init_next)
  have "card (set ids) \<noteq> 0" using assms(1) by simp
  then consider "card (set ids) = 1" | "1 < card (set ids)" by linarith
  then have "ring_at ids (p + 1) = ring_at ids p \<longleftrightarrow> card (set ids) = 1"
    using ring_at_differ [OF assms(1), of 1 p] ring_at_add_card [of ids p] by cases simp_all
  then show "rg_next_node n = rg_node_id n \<longleftrightarrow> card (set ids) = 1" by (simp add: eqs)
qed

lemma only_node_is_top: "card (set ids) = 1 \<Longrightarrow> ring_at ids p = top_id ids"
proof -
  assume one: "card (set ids) = 1"
  then obtain x where "set ids = {x}" using card_1_singletonE by blast
  moreover have "ids \<noteq> []" using one by auto
  ultimately show ?thesis using ring_at_in [of ids p] by (simp add: top_id_def)
qed

lemma ring_follow_fields [simp]:
  "rg_node_id (ring_follow n w) = rg_node_id n" "rg_next_node (ring_follow n w) = rg_next_node n"
  "rg_leader (ring_follow n w) = rg_leader n" "rg_running (ring_follow n w) = rg_running n"
  "rg_in_election (ring_follow n w) = rg_in_election n" "rg_is_leader (ring_follow n w) \<longleftrightarrow> w = rg_node_id n"
  by (simp_all add: ring_follow_def ring_become_leader_def ring_become_follower_def ring_notify_def)

lemma follow_top_ok:
  assumes "ring_node_ok strict ids i n" and "strict \<longrightarrow> rg_running n"
  shows "ring_node_ok strict ids i (ring_follow (n\<lparr>rg_leader := Some (top_id ids), rg_in_election := False\<rparr>) (top_id ids))"
    "gains strict ids n (ring_follow (n\<lparr>rg_leader := Some (top_id ids), rg_in_election := False\<rparr>) (top_id ids))"
    "rg_leader (ring_follow (n\<lparr>rg_leader := Some (top_id ids), rg_in_election := False\<rparr>) (top_id ids)) = Some (top_id ids)"
    "rg_next_node (ring_follow (n\<lparr>rg_leader := Some (top_id ids), rg_in_election := False\<rparr>) (top_id ids)) = rg_next_node n"
    "rg_node_id (ring_follow (n\<lparr>rg_leader := Some (top_id ids), rg_in_election := False\<rparr>) (top_id ids)) = rg_node_id n"
  using assms by (simp_all add: ring_node_ok_def gains_def) (auto simp: ring_flag_ok_def)

lemma complete_is_follow:
  "ring_election_complete n w = ring_follow (n\<lparr>rg_leader := Some w, rg_in_election := False\<rparr>) w"
  by (cases n) (simp add: ring_election_complete_def)

text \<open>Forwarding the list of the \<open>k\<close> nodes from \<open>s\<close> on, of which the sender is the last.\<close>

lemma send_election_spec:
  assumes "ids \<noteq> []" and "ring_node_ok strict ids (ring_at ids (s + k)) n" and "strict \<longrightarrow> rg_running n"
    and "k < card (set ids)" and "ring_send_election n (map (ring_at ids) [s ..< s + k] @ [rg_node_id n]) = (n', sends)"
  shows "ring_node_ok strict ids (ring_at ids (s + k)) n' \<and> gains strict ids n n' \<and>
    (\<forall>t \<in> set sends. ring_msg_ok ids nodes t) \<and>
    (if card (set ids) = 1 then rg_leader n' = Some (top_id ids) else sends \<noteq> [])"
proof (cases "card (set ids) = 1")
  case True
  then have "n' = ring_election_complete n (top_id ids)" "sends = []"
    using assms(5) next_is_self [OF assms(1,2)] only_node_is_top [OF True, of "s + k"]
    by (simp_all add: ring_send_election_def)
  then show ?thesis using follow_top_ok [OF assms(2,3)] True by (simp add: complete_is_follow)
next
  case False
  let ?t = "(ring_at ids (s + Suc k), \<lparr>rm_type = ''election'', rm_candidates = map (ring_at ids) [s ..< s + Suc k],
      rm_sender_id = rg_node_id n\<rparr>)"
  have "sends = [?t]" "n' = n"
    using assms(5) next_is_self [OF assms(1,2)] False by (auto simp: ring_send_election_def)
  moreover have "token_ok ids nodes ?t s (Suc k)" by (simp add: token_ok_def)
  moreover have "1 \<le> Suc k" "Suc k \<le> card (set ids)" using assms(4) by simp_all
  ultimately have "\<forall>t \<in> set sends. ring_msg_ok ids nodes t" unfolding ring_msg_ok_def by (metis set_ConsD empty_iff list.set(1))
  then show ?thesis using assms(2) False \<open>sends = [?t]\<close> \<open>n' = n\<close> by (simp add: gains_def)
qed

lemma start_election_spec:
  assumes "ids \<noteq> []" and "i \<in> set ids" and "ring_node_ok strict ids i n" and "strict \<longrightarrow> rg_running n"
    and "ring_start_election n = (n', sends)"
  shows "ring_node_ok strict ids i n' \<and> gains strict ids n n' \<and> (\<forall>t \<in> set sends. ring_msg_ok ids nodes t) \<and>
    (\<not> rg_in_election n \<longrightarrow> (if card (set ids) = 1 then rg_leader n' = Some (top_id ids) else sends \<noteq> []))"
proof (cases "rg_in_election n")
  case True
  then show ?thesis using assms by (simp add: ring_start_election_def gains_def)
next
  case False
  obtain p where p: "i = ring_at ids (p + 0)" using ring_at_surj [OF assms(2)] by auto
  let ?n = "n\<lparr>rg_in_election := True\<rparr>"
  have "ring_node_ok strict ids (ring_at ids (p + 0)) ?n" unfolding p [symmetric] using assms(3,4) by (simp add: ring_node_ok_def)
  moreover have "strict \<longrightarrow> rg_running ?n" "0 < card (set ids)" using assms(1,4) by (simp_all add: card_gt_0_iff)
  moreover have "ring_send_election ?n (map (ring_at ids) [p ..< p + 0] @ [rg_node_id ?n]) = (n', sends)"
    using assms(5) False by (simp add: ring_start_election_def)
  ultimately show ?thesis
    using send_election_spec [OF assms(1), of strict p 0 ?n n' sends nodes] False p by (simp add: gains_def)
qed

lemma handle_election_spec:
  assumes "ids \<noteq> []" and "token_ok ids nodes (dest, m) s k" and "1 \<le> k" and "k \<le> card (set ids)"
    and "ring_node_ok strict ids dest n" and "rg_running n" and "ring_handle_message n m = (n', sends)"
  shows "ring_node_ok strict ids dest n' \<and> gains strict ids n n' \<and> (\<forall>t \<in> set sends. ring_msg_ok ids (nodes(dest := n')) t) \<and>
    (if card (set ids) = 1 then rg_leader n' = Some (top_id ids) else sends \<noteq> [])"
proof -
  have m: "rm_type m = ''election''" "rm_candidates m = map (ring_at ids) [s ..< s + k]" and dest: "dest = ring_at ids (s + k)"
    using assms(2) by (simp_all add: token_ok_def)
  note n = assms(5) [unfolded dest]
  note at = next_is_self [OF assms(1) n]
  show ?thesis
  proof (cases "k = card (set ids)")
    case True
    then have cands: "set (rm_candidates m) = set ids" using ring_around [OF assms(1), of s] m by simp
    let ?n = "ring_election_complete n (top_id ids)"
    have "rg_node_id n \<in> set (rm_candidates m)" using at(2) ring_at_in [OF assms(1)] cands by simp
    then have "ring_handle_message n m = (?n, ring_send_elected ?n (top_id ids))"
      using assms(6) m cands by (simp add: ring_handle_message_def ring_handle_election_def Let_def top_id_def)
    then have res: "n' = ?n" "sends = ring_send_elected ?n (top_id ids)" using assms(7) by simp_all
    have "strict \<longrightarrow> rg_running n" using assms(6) by simp
    note follow = follow_top_ok [OF n this, folded complete_is_follow]
    have "ring_msg_ok ids (nodes(dest := ?n)) t" if "t \<in> set (ring_send_elected ?n (top_id ids))" for t
    proof -
      have "elected_ok ids (nodes(dest := ?n)) t (s + k) 1"
        using that at follow by (auto simp: ring_send_elected_def elected_ok_def dest split: if_splits)
      then show ?thesis using assms(3,4) unfolding ring_msg_ok_def by (metis dual_order.refl order_trans)
    qed
    moreover have "card (set ids) \<noteq> 1 \<Longrightarrow> ring_send_elected ?n (top_id ids) \<noteq> []"
      using at follow by (simp add: ring_send_elected_def)
    ultimately show ?thesis using follow res dest by auto
  next
    case False
    then have k: "k < card (set ids)" using assms(4) by simp
    have "ring_at ids (s + k) \<noteq> ring_at ids j" if "j \<in> {s ..< s + k}" for j
    proof -
      have "0 < s + k - j" "s + k - j < card (set ids)" "j + (s + k - j) = s + k" using that k by auto
      then show ?thesis using ring_at_differ [OF assms(1), of "s + k - j" j] by simp
    qed
    then have "ring_at ids (s + k) \<notin> ring_at ids ` {s ..< s + k}" by blast
    then have new: "rg_node_id n \<notin> set (rm_candidates m)" using at(2) m by simp
    let ?n = "n\<lparr>rg_in_election := True\<rparr>"
    have "ring_node_ok strict ids (ring_at ids (s + k)) ?n" "strict \<longrightarrow> rg_running ?n" using n assms(6) by (simp_all add: ring_node_ok_def)
    moreover have "ring_send_election ?n (map (ring_at ids) [s ..< s + k] @ [rg_node_id ?n]) = (n', sends)"
      using assms(6,7) m new by (simp add: ring_handle_message_def ring_handle_election_def)
    ultimately show ?thesis
      using send_election_spec [OF assms(1) _ _ k, of strict s ?n n' sends "nodes(dest := n')"] dest by (simp add: gains_def)
  qed
qed

lemma handle_elected_spec:
  assumes "ids \<noteq> []" and "elected_ok ids nodes (dest, m) s k" and "1 \<le> k" and "k \<le> card (set ids)"
    and "ring_node_ok strict ids dest n" and "rg_running n" and "ring_handle_message n m = (n', sends)"
  shows "ring_node_ok strict ids dest n' \<and> gains strict ids n n' \<and> (\<forall>t \<in> set sends. ring_msg_ok ids (nodes(dest := n')) t) \<and>
    (if k = card (set ids) then n' = n \<and> sends = [] else sends = [(ring_at ids (s + k + 1), m)])"
proof -
  have m: "rm_type m = ''elected''" "rm_candidates m = [top_id ids]" "rm_sender_id m = ring_at ids s"
    and dest: "dest = ring_at ids (s + k)" and passed: "\<forall>j \<in> {s ..< s + k}. rg_leader (nodes (ring_at ids j)) = Some (top_id ids)"
    using assms(2) by (simp_all add: elected_ok_def)
  note n = assms(5) [unfolded dest]
  note at = next_is_self [OF assms(1) n]
  show ?thesis
  proof (cases "k = card (set ids)")
    case True
    then have "rm_sender_id m = rg_node_id n" using at(2) m(3) by simp
    then show ?thesis using assms(5,7) m True
      by (auto simp: ring_handle_message_def ring_handle_elected_def gains_def)
  next
    case False
    then have "ring_at ids s \<noteq> ring_at ids (s + k)"
      using ring_at_differ [OF assms(1), of k s] assms(3,4) by simp
    then have res: "n' = ring_follow (n\<lparr>rg_leader := Some (top_id ids), rg_in_election := False\<rparr>) (top_id ids)"
        "sends = [(ring_at ids (s + k + 1), m)]"
      using assms(7) m at by (auto simp: ring_handle_message_def ring_handle_elected_def)
    have "strict \<longrightarrow> rg_running n" using assms(6) by simp
    note follow = follow_top_ok [OF assms(5) this, folded res(1)]
    have "elected_ok ids (nodes(dest := n')) (ring_at ids (s + k + 1), m) s (k + 1)"
      using m passed follow(3) by (auto simp: elected_ok_def dest less_Suc_eq)
    moreover have "k + 1 \<le> card (set ids)" using False assms(4) by simp
    ultimately have "ring_msg_ok ids (nodes(dest := n')) (ring_at ids (s + k + 1), m)"
      unfolding ring_msg_ok_def by (metis le_add2)
    then show ?thesis using follow False res(2) by simp
  qed
qed

text \<open>
  Progress: what a node does sends a message, or leaves an agreement, or happens while not all run.
\<close>

lemma ring_act_inv:
  assumes "ring_safe strict ids net" and "i \<in> set ids" and "ring_node_ok strict ids i n'" and "gains strict ids (rt_nodes net i) n'"
    and "\<forall>t \<in> set sends. ring_msg_ok ids ((rt_nodes net)(i := n')) t"
    and "strict \<Longrightarrow> sends \<noteq> [] \<or> (card (set ids) = 1 \<and> rg_leader n' = Some (top_id ids)) \<or> all_agree ids net \<or> \<not> rg_running n' \<or>
      (rg_running (rt_nodes net i) \<and> (all_running ids net \<longrightarrow> rt_flight net \<noteq> [] \<or> all_agree ids net))"
  shows "ring_inv strict ids (ring_act ids net i (n', sends))"
proof -
  let ?net = "ring_act ids net i (n', sends)"
  note safe = ring_act_safe [OF assms(1-5)]
  have "rt_flight ?net \<noteq> [] \<or> all_agree ids ?net" if st: strict and all: "all_running ids ?net"
  proof -
    have on: "rg_running n'" using all assms(2) by (auto simp: all_running_def ring_act_net)
    consider "sends \<noteq> []" | "card (set ids) = 1 \<and> rg_leader n' = Some (top_id ids)" | "all_agree ids net" | "\<not> rg_running n'"
      | "rg_running (rt_nodes net i)" "all_running ids net \<longrightarrow> rt_flight net \<noteq> [] \<or> all_agree ids net"
      using assms(6) [OF st] by blast
    then show ?thesis
    proof cases
      case 1
      then obtain t ts where sends: "sends = t # ts" by (cases sends) auto
      then have "fst t \<in> set ids" using assms(2,5) ring_msg_dest by (metis empty_iff list.set(1) list.set_intros(1))
      then have "rg_running (rt_nodes ?net (fst t))" using all by (simp add: all_running_def)
      with \<open>fst t \<in> set ids\<close> sends on show ?thesis unfolding ring_act_net by (cases t) simp
    next
      case 2
      then obtain x where "set ids = {x}" using card_1_singletonE by blast
      then have "set ids = {i}" using assms(2) by simp
      then show ?thesis using 2 ring_act_net(1) by (simp add: all_agree_def)
    next
      case 3
      then show ?thesis using safe(2) by blast
    next
      case 4
      then show ?thesis using on by blast
    next
      case 5
      have "all_running ids net" using all 5(1) unfolding all_running_def ring_act_net by (metis fun_upd_apply)
      then show ?thesis using 5(2) safe(2) unfolding ring_act_net by blast
    qed
  qed
  then show ?thesis using safe(1) by (simp add: ring_inv_def)
qed

lemma drop_message_inv:
  assumes "ring_inv False ids net"
  shows "ring_inv False ids (net\<lparr>rt_flight := take k (rt_flight net) @ drop (Suc k) (rt_flight net)\<rparr>)"
  using assms set_take_subset [of k "rt_flight net"] set_drop_subset [of "Suc k" "rt_flight net"]
  unfolding ring_inv_def ring_safe_def by auto

lemma ring_deliver_inv:
  assumes "ring_inv strict ids net" and "ids \<noteq> []" and "k < length (rt_flight net)"
  shows "ring_inv strict ids (ring_do ids net (RDeliver k))"
proof -
  obtain dest m where t: "rt_flight net ! k = (dest, m)" by fastforce
  let ?net = "net\<lparr>rt_flight := take k (rt_flight net) @ drop (Suc k) (rt_flight net)\<rparr>"
  let ?n = "rt_nodes net dest"
  have mem: "(dest, m) \<in> set (rt_flight net)" using assms(3) t nth_mem by metis
  have "set (rt_flight ?net) \<subseteq> set (rt_flight net)"
    using set_take_subset [of k "rt_flight net"] set_drop_subset [of "Suc k" "rt_flight net"] by auto
  then have safe: "ring_safe strict ids ?net" using assms(1) unfolding ring_inv_def ring_safe_def by auto
  have ok: "ring_msg_ok ids (rt_nodes net) (dest, m)" and on: "strict \<longrightarrow> rg_running ?n"
    using assms(1) mem by (fastforce simp: ring_inv_def ring_safe_def)+
  have dest: "dest \<in> set ids" using ring_msg_dest [OF assms(2) ok] by simp
  then have n: "ring_node_ok strict ids dest ?n" using assms(1) by (simp add: ring_inv_def ring_safe_def)
  show ?thesis
  proof (cases "rg_running ?n")
    case run: True
    obtain n' sends where h: "ring_handle_message ?n m = (n', sends)" by fastforce
    obtain s j where j: "1 \<le> j" "j \<le> card (set ids)"
      and kind: "token_ok ids (rt_nodes net) (dest, m) s j \<or> elected_ok ids (rt_nodes net) (dest, m) s j"
      using ok unfolding ring_msg_ok_def by blast
    have agree: "all_agree ids ?net" if "elected_ok ids (rt_nodes net) (dest, m) s j" "j = card (set ids)"
      using that ring_around [OF assms(2), of s] by (force simp: all_agree_def elected_ok_def)
    have "ring_node_ok strict ids dest n' \<and> gains strict ids ?n n' \<and> (\<forall>t \<in> set sends. ring_msg_ok ids ((rt_nodes net)(dest := n')) t) \<and>
        (sends \<noteq> [] \<or> (card (set ids) = 1 \<and> rg_leader n' = Some (top_id ids)) \<or> all_agree ids ?net)"
      using kind
    proof
      assume "token_ok ids (rt_nodes net) (dest, m) s j"
      from handle_election_spec [OF assms(2) this j n run h] show ?thesis by (auto split: if_splits)
    next
      assume e: "elected_ok ids (rt_nodes net) (dest, m) s j"
      from handle_elected_spec [OF assms(2) this j n run h] agree [OF e] show ?thesis by (auto split: if_splits)
    qed
    then have "ring_inv strict ids (ring_act ids ?net dest (n', sends))"
      by (intro ring_act_inv [OF safe dest]) (simp, simp, simp, blast)
    then show ?thesis using assms(3) t run h by (simp add: Let_def)
  next
    case False
    then have "\<not> strict" using on by blast
    then have "strict = False" by simp
    show ?thesis using assms(1,3) t False drop_message_inv [of ids net k] unfolding \<open>strict = False\<close> by (simp add: Let_def)
  qed
qed

text \<open>Who runs keeps running until it stops.\<close>

lemma ring_notify_running [simp]: "rg_running (ring_notify n) = rg_running n"
  by (simp add: ring_notify_def)

lemma ring_follow_running [simp]: "rg_running (ring_follow n w) = rg_running n"
  by (simp add: ring_follow_def ring_become_leader_def ring_become_follower_def)

lemma ring_complete_running [simp]: "rg_running (ring_election_complete n w) = rg_running n"
  by (simp add: ring_election_complete_def)

lemma ring_send_running [simp]: "rg_running (fst (ring_send_election n c)) = rg_running n"
  by (simp add: ring_send_election_def)

lemma ring_election_running [simp]: "rg_running (fst (ring_start_election n)) = rg_running n"
  by (simp add: ring_start_election_def)

lemma ring_handlers_running:
  "rg_running (fst (ring_start n))" "rg_running (fst (ring_monitor n)) = rg_running n"
  "rg_running (fst (ring_trigger_election n)) = rg_running n" "rg_running (fst (ring_handle_message n m)) = rg_running n"
  by (simp_all add: ring_start_def ring_monitor_def ring_trigger_election_def ring_handle_message_def
      ring_handle_election_def ring_handle_elected_def Let_def split: list.split)

text \<open>What may happen in a strict run, in a given state.\<close>

fun strict_event :: "ring_net \<Rightarrow> ring_event \<Rightarrow> bool" where
  "strict_event net (RStop i) = False"
| "strict_event net (RTrigger i) = rg_running (rt_nodes net i)"
| "strict_event net e = True"

lemma ring_do_inv:
  assumes "ring_inv strict ids net" and "ids \<noteq> []" and "strict \<longrightarrow> strict_event net e"
  shows "ring_inv strict ids (ring_do ids net e)"
proof -
  have safe: "ring_safe strict ids net" and live: "strict \<longrightarrow> all_running ids net \<longrightarrow> rt_flight net \<noteq> [] \<or> all_agree ids net"
    using assms(1) by (simp_all add: ring_inv_def)
  have node: "ring_node_ok strict ids i (rt_nodes net i)" if "i \<in> set ids" for i using safe that by (simp add: ring_safe_def)
  have idle: "ring_inv strict ids (ring_act ids net i (rt_nodes net i, []))" if "i \<in> set ids" for i
    using node [OF that] live by (intro ring_act_inv [OF safe that]) (auto simp: gains_def)
  have elect: "ring_inv strict ids (ring_act ids net i (ring_start_election (rt_nodes net i)))"
    if i: "i \<in> set ids" and "strict \<longrightarrow> rg_running (rt_nodes net i)" for i
  proof -
    obtain n' sends where r: "ring_start_election (rt_nodes net i) = (n', sends)" by fastforce
    from start_election_spec [OF assms(2) i node [OF i] that(2) r] live that(2)
    show ?thesis unfolding r by (intro ring_act_inv [OF safe i]) (blast+)
  qed
  show ?thesis
  proof (cases e)
    case (RStart i)
    show ?thesis
    proof (cases "i \<in> set ids \<and> \<not> rg_running (rt_nodes net i)")
      case True
      let ?n = "rt_nodes net i\<lparr>rg_running := True\<rparr>"
      have n: "ring_node_ok strict ids i ?n" "strict \<longrightarrow> rg_running ?n" using node [of i] True by (auto simp: ring_node_ok_def)
      show ?thesis
      proof (cases "no_leader ?n")
        case none: True
        obtain n' sends where r: "ring_start_election ?n = (n', sends)" by fastforce
        have gain: "gains strict ids (rt_nodes net i) n'"
          using start_election_spec [OF assms(2) _ n r, of undefined] True by (auto simp: gains_def)
        have fresh: "strict \<Longrightarrow> \<not> rg_in_election ?n" using node [of i] True by (simp add: ring_node_ok_def)
        have "ring_inv strict ids (ring_act ids net i (n', sends))"
          using start_election_spec [OF assms(2) _ n r] fresh True gain
          by (intro ring_act_inv [OF safe]) (auto split: if_splits)
        then show ?thesis using RStart True none r by (simp add: ring_start_def Let_def)
      next
        case known: False
        then have "\<not> strict" using node [of i] True by (auto simp: ring_node_ok_def no_leader_def)
        then have "ring_inv strict ids (ring_act ids net i (?n, []))"
          using n(1) True by (intro ring_act_inv [OF safe]) (simp_all add: gains_def)
        then show ?thesis using RStart True known by (simp add: ring_start_def Let_def)
      qed
    qed (use assms(1) idle RStart in \<open>auto simp: ring_start_def\<close>)
  next
    case (RStop i)
    show ?thesis
    proof (cases "i \<in> set ids")
      case True
      have "\<not> strict" using assms(3) RStop by simp
      then have "ring_inv strict ids (ring_act ids net i (ring_stop (rt_nodes net i), []))"
        using node [OF True] by (intro ring_act_inv [OF safe True]) (auto simp: ring_node_ok_def ring_flag_ok_def gains_def ring_stop_def)
      then show ?thesis using RStop True by simp
    qed (use assms(1) RStop in simp)
  next
    case (RMonitor i)
    then show ?thesis using assms(1) idle elect by (simp add: ring_monitor_def)
  next
    case (RTrigger i)
    then show ?thesis using assms(1,3) elect by (simp add: ring_trigger_election_def)
  next
    case (RDeliver k)
    then show ?thesis using assms(1) ring_deliver_inv [OF assms(1,2), of k] by (cases "k < length (rt_flight net)") simp_all
  qed
qed

lemma ring_init_inv: "ids \<noteq> [] \<Longrightarrow> ring_inv strict ids (ring_net_init ids)"
proof -
  assume ids: "ids \<noteq> []"
  have "ring_node_ok strict ids i (ring_node_init i ids)" "\<not> rg_running (ring_node_init i ids)" for i
    by (simp_all add: ring_node_ok_def ring_flag_ok_def ring_node_init_def Let_def)
  moreover have "\<exists>i. i \<in> set ids" using ids by (cases ids) auto
  ultimately show ?thesis by (auto simp: ring_inv_def ring_safe_def ring_net_init_def all_running_def)
qed

lemma ring_run_inv: "ids \<noteq> [] \<Longrightarrow> ring_inv False ids (ring_run ids events)"
  unfolding ring_run_def
  by (induction events rule: rev_induct) (auto intro: ring_do_inv ring_init_inv)

text \<open>
  A sequence of events without stops in which elections are triggered only at nodes that have
  been started before.
\<close>

fun ring_orderly :: "string set \<Rightarrow> ring_event list \<Rightarrow> bool" where
  "ring_orderly started [] = True"
| "ring_orderly started (RStart i # events) = ring_orderly (insert i started) events"
| "ring_orderly started (RStop i # events) = False"
| "ring_orderly started (RTrigger i # events) = (i \<in> started \<and> ring_orderly started events)"
| "ring_orderly started (RMonitor i # events) = ring_orderly started events"
| "ring_orderly started (RDeliver k # events) = ring_orderly started events"

lemma ring_do_running:
  assumes "\<forall>j. e \<noteq> RStop j" and "rg_running (rt_nodes net i)"
  shows "rg_running (rt_nodes (ring_do ids net e) i)"
proof -
  have act: "rg_running (rt_nodes (ring_act ids net' j res) i)"
    if "rg_running (rt_nodes net' i)" "rg_running (rt_nodes net' j) \<longrightarrow> rg_running (fst res)" for net' j res
    using that by (auto simp: ring_act_def ring_post_def)
  show ?thesis
  proof (cases e)
    case (RDeliver k)
    then show ?thesis using assms(2) by (auto simp: Let_def ring_handlers_running intro!: act split: prod.split)
  qed (use assms in \<open>auto intro!: act simp: ring_handlers_running\<close>)
qed

lemma ring_orderly_inv:
  "ids \<noteq> [] \<Longrightarrow> ring_inv True ids net \<Longrightarrow> \<forall>i\<in>started. i \<in> set ids \<longrightarrow> rg_running (rt_nodes net i) \<Longrightarrow>
     ring_orderly started events \<Longrightarrow> ring_inv True ids (foldl (ring_do ids) net events)"
proof (induction started events arbitrary: net rule: ring_orderly.induct)
  case (2 started i events)
  have "ring_inv True ids (ring_do ids net (RStart i))" using 2 by (intro ring_do_inv) simp_all
  moreover have "rg_running (rt_nodes (ring_do ids net (RStart i)) j)" if "j \<in> insert i started" "j \<in> set ids" for j
  proof (cases "j = i")
    case True
    then show ?thesis using that(2) by (simp add: ring_act_def ring_post_def ring_handlers_running)
  next
    case False
    then show ?thesis using 2 that by (intro ring_do_running) simp_all
  qed
  ultimately show ?case using "2.IH" [of "ring_do ids net (RStart i)"] "2.prems" by (simp del: ring_do.simps)
next
  case (4 started i events)
  have "ring_inv True ids (ring_do ids net (RTrigger i))"
  proof (cases "i \<in> set ids")
    case True
    then show ?thesis using 4 by (intro ring_do_inv) simp_all
  next
    case False
    then show ?thesis using 4 by simp
  qed
  moreover have "\<forall>j\<in>started. j \<in> set ids \<longrightarrow> rg_running (rt_nodes (ring_do ids net (RTrigger i)) j)"
    using "4.prems"(3) by (auto intro: ring_do_running simp del: ring_do.simps)
  ultimately show ?case using "4.IH" [of "ring_do ids net (RTrigger i)"] "4.prems" by (simp del: ring_do.simps)
next
  case (5 started i events)
  have "ring_inv True ids (ring_do ids net (RMonitor i))" using 5 by (intro ring_do_inv) simp_all
  moreover have "\<forall>j\<in>started. j \<in> set ids \<longrightarrow> rg_running (rt_nodes (ring_do ids net (RMonitor i)) j)"
    using "5.prems"(3) by (auto intro: ring_do_running simp del: ring_do.simps)
  ultimately show ?case using "5.IH" [of "ring_do ids net (RMonitor i)"] "5.prems" by (simp del: ring_do.simps)
next
  case (6 started k events)
  have "ring_inv True ids (ring_do ids net (RDeliver k))" using 6 by (intro ring_do_inv) simp_all
  moreover have "\<forall>j\<in>started. j \<in> set ids \<longrightarrow> rg_running (rt_nodes (ring_do ids net (RDeliver k)) j)"
    using "6.prems"(3) by (auto intro: ring_do_running simp del: ring_do.simps)
  ultimately show ?case using "6.IH" [of "ring_do ids net (RDeliver k)"] "6.prems" by (simp del: ring_do.simps)
qed simp_all

section \<open>Deliveries end\<close>

text \<open>
  How many messages a message can still cause, itself included: an election message goes around
  the ring once, and the elected message that answers it goes around once more.
\<close>

definition ring_hops :: "string list \<Rightarrow> string \<Rightarrow> string \<Rightarrow> nat" where
  "ring_hops ids dest sender =
     (let R = sorted_list_of_set (set ids); n = card (set ids)
      in (index_in R dest + (n - 1 - index_in R sender)) mod n + 1)"

fun ring_weight :: "string list \<Rightarrow> string \<times> ring_message \<Rightarrow> nat" where
  "ring_weight ids (dest, m) =
     (if rm_type m = ''election'' then 2 * card (set ids) + 1 - length (rm_candidates m)
      else card (set ids) + 1 - ring_hops ids dest (rm_sender_id m))"

lemma ring_hops_at:
  assumes "ids \<noteq> []" and "1 \<le> k" and "k \<le> card (set ids)"
  shows "ring_hops ids (ring_at ids (s + k)) (ring_at ids s) = k"
proof -
  let ?N = "card (set ids)" and ?a = "s mod card (set ids)"
  have a: "?a < ?N" using assms by simp
  have "((s + k) mod ?N + (?N - 1 - ?a)) mod ?N = ((?a + k) mod ?N + (?N - 1 - ?a)) mod ?N"
    by (metis mod_add_left_eq)
  also have "\<dots> = (?a + k + (?N - 1 - ?a)) mod ?N" by (metis mod_add_left_eq)
  also have "?a + k + (?N - 1 - ?a) = (k - 1) + ?N" using a assms(2) by simp
  also have "\<dots> mod ?N = k - 1"
  proof -
    have "k - 1 < ?N" using assms by linarith
    then show ?thesis by (metis mod_add_self2 mod_less)
  qed
  finally show ?thesis using assms(2) by (simp add: ring_hops_def Let_def index_ring_at [OF assms(1)])
qed

lemma ring_weight_token: "token_ok ids nodes t s k \<Longrightarrow> ring_weight ids t = 2 * card (set ids) + 1 - k"
  by (cases t) (simp add: token_ok_def)

lemma ring_weight_elected:
  "elected_ok ids nodes t s k \<Longrightarrow> ids \<noteq> [] \<Longrightarrow> 1 \<le> k \<Longrightarrow> k \<le> card (set ids) \<Longrightarrow> ring_weight ids t = card (set ids) + 1 - k"
  by (cases t) (simp add: elected_ok_def ring_hops_at)

lemma handle_message_weight:
  assumes "ids \<noteq> []" and "ring_msg_ok ids nodes (dest, m)"
    and "ring_node_ok strict ids dest n" and "rg_running n" and "ring_handle_message n m = (n', sends)"
  shows "sum_list (map (ring_weight ids) sends) < ring_weight ids (dest, m)"
proof -
  obtain s k where k: "1 \<le> k" "k \<le> card (set ids)"
    and kind: "token_ok ids nodes (dest, m) s k \<or> elected_ok ids nodes (dest, m) s k"
    using assms(2) unfolding ring_msg_ok_def by blast
  from kind show ?thesis
  proof
    assume t: "token_ok ids nodes (dest, m) s k"
    then have m: "rm_type m = ''election''" "rm_candidates m = map (ring_at ids) [s ..< s + k]" and dest: "dest = ring_at ids (s + k)"
      by (simp_all add: token_ok_def)
    note at = next_is_self [OF assms(1) assms(3) [unfolded dest]]
    let ?n = "ring_election_complete n (Max (set (rm_candidates m)))"
    have at': "rg_next_node ?n = ring_at ids (s + k + 1)" "rg_node_id ?n = ring_at ids (s + k)"
      using at by (auto simp: ring_election_complete_def ring_follow_def ring_become_leader_def ring_become_follower_def ring_notify_def)
    consider "sends = []" | "sends = ring_send_elected ?n (Max (set (rm_candidates m)))"
      | "sends = [(ring_at ids (s + k + 1), \<lparr>rm_type = ''election'', rm_candidates = rm_candidates m @ [rg_node_id n], rm_sender_id = rg_node_id n\<rparr>)]"
      using assms(4,5) m(1) at
      by (auto simp: ring_handle_message_def ring_handle_election_def ring_send_election_def Let_def split: if_splits)
    then show ?thesis
    proof cases
      case 2
      have "sum_list (map (ring_weight ids) sends) \<le> card (set ids)"
        using ring_hops_at [OF assms(1), of 1 "s + k"] k by (simp add: 2 ring_send_elected_def at')
      then show ?thesis unfolding ring_weight_token [OF t] using k by linarith
    qed (use k in \<open>simp_all add: ring_weight_token [OF t] m\<close>)
  next
    assume e: "elected_ok ids nodes (dest, m) s k"
    from handle_elected_spec [OF assms(1) e k assms(3,4,5)]
    have sends: "sends = [] \<or> k < card (set ids) \<and> sends = [(ring_at ids (s + (k + 1)), m)]" using k(2) by (auto split: if_splits)
    have m: "rm_type m = ''elected''" "rm_sender_id m = ring_at ids s" using e by (simp_all add: elected_ok_def)
    have "k < card (set ids) \<Longrightarrow> ring_hops ids (ring_at ids (s + (k + 1))) (ring_at ids s) = k + 1"
      using ring_hops_at [OF assms(1), of "k + 1" s] by simp
    then show ?thesis unfolding ring_weight_elected [OF e assms(1) k] using sends m k by auto
  qed
qed

text \<open>A sequence of deliveries, each of a message that is in flight.\<close>

fun ring_deliveries :: "string list \<Rightarrow> ring_net \<Rightarrow> nat list \<Rightarrow> bool" where
  "ring_deliveries ids net [] \<longleftrightarrow> True"
| "ring_deliveries ids net (k # ks) \<longleftrightarrow>
     k < length (rt_flight net) \<and> ring_deliveries ids (ring_do ids net (RDeliver k)) ks"

lemma deliver_weight:
  assumes "ring_inv False ids net" and "ids \<noteq> []" and "k < length (rt_flight net)"
  shows "sum_list (map (ring_weight ids) (rt_flight (ring_do ids net (RDeliver k)))) <
    sum_list (map (ring_weight ids) (rt_flight net))"
proof -
  obtain dest m where t: "rt_flight net ! k = (dest, m)" by fastforce
  let ?rest = "take k (rt_flight net) @ drop (Suc k) (rt_flight net)"
  have mem: "(dest, m) \<in> set (rt_flight net)" using assms(3) t nth_mem by metis
  have ok: "ring_msg_ok ids (rt_nodes net) (dest, m)" using assms(1) mem by (fastforce simp: ring_inv_def ring_safe_def)
  have n: "ring_node_ok False ids dest (rt_nodes net dest)"
    using assms(1) ring_msg_dest [OF assms(2) ok] by (simp add: ring_inv_def ring_safe_def)
  have whole: "sum_list (map (ring_weight ids) (rt_flight net)) = sum_list (map (ring_weight ids) ?rest) + ring_weight ids (dest, m)"
    using arg_cong [OF id_take_nth_drop [OF assms(3)], of "\<lambda>ts. sum_list (map (ring_weight ids) ts)"] by (simp add: t)
  show ?thesis
  proof (cases "rg_running (rt_nodes net dest)")
    case run: True
    obtain n' sends where h: "ring_handle_message (rt_nodes net dest) m = (n', sends)" by fastforce
    have "ring_do ids net (RDeliver k) = ring_act ids (net\<lparr>rt_flight := ?rest\<rparr>) dest (n', sends)"
      using assms(3) t run h by (simp add: Let_def)
    then obtain P where flight: "rt_flight (ring_do ids net (RDeliver k)) = ?rest @ filter P sends"
      by (cases "rg_running n'") (auto simp: ring_act_net simp del: ring_do.simps, metis append_Nil2 filter_False)
    have "sum_list (map (ring_weight ids) (filter P sends)) \<le> sum_list (map (ring_weight ids) sends)"
      by (induction sends) auto
    then show ?thesis
      using handle_message_weight [OF assms(2) ok n run h] whole unfolding flight map_append sum_list_append by linarith
  next
    case False
    have "0 < ring_weight ids (dest, m)"
    proof -
      obtain s j where j: "1 \<le> j" "j \<le> card (set ids)"
        "token_ok ids (rt_nodes net) (dest, m) s j \<or> elected_ok ids (rt_nodes net) (dest, m) s j"
        using ok unfolding ring_msg_ok_def by blast
      then have "ring_weight ids (dest, m) = 2 * card (set ids) + 1 - j \<or> ring_weight ids (dest, m) = card (set ids) + 1 - j"
        using ring_weight_token ring_weight_elected [OF _ assms(2) j(1,2)] by blast
      then show ?thesis using j by linarith
    qed
    moreover have "rt_flight (ring_do ids net (RDeliver k)) = ?rest" using assms(3) t False by (simp add: Let_def)
    ultimately show ?thesis using whole by simp
  qed
qed

lemma deliveries_bound:
  "ring_inv False ids net \<Longrightarrow> ids \<noteq> [] \<Longrightarrow> ring_deliveries ids net ks \<Longrightarrow>
     length ks \<le> sum_list (map (ring_weight ids) (rt_flight net))"
proof (induction ks arbitrary: net)
  case (Cons k ks)
  then have k: "k < length (rt_flight net)" and rest: "ring_deliveries ids (ring_do ids net (RDeliver k)) ks"
    unfolding ring_deliveries.simps by blast+
  from Cons.IH [OF ring_deliver_inv [OF Cons.prems(1,2) k] Cons.prems(2) rest] deliver_weight [OF Cons.prems(1,2) k]
  show ?case by (simp del: ring_do.simps)
qed simp

section \<open>Properties\<close>

text \<open>
  C24. The ring elects the highest node, however its nodes start: in every interleaving of starts,
  stops, monitor wake-ups, triggered elections and deliveries in any order, only the highest node ever
  holds the leader flag; and in a run in which no node stops and elections are triggered only at nodes
  that have started, once all nodes have started and no message is in flight, every node names it as the
  leader and it holds the flag. Election messages that are lost because the next node has not started
  do no harm: the last node to start finds the ring complete. (A stop, or a trigger at a node that does
  not run, can leave nodes waiting for a message that is lost: \<open>ring_early_trigger_stuck\<close>.)
\<close>

theorem ring_elects_highest:
  assumes "net = ring_run ids events"
  shows "(\<forall>i \<in> set ids. rg_is_leader (rt_nodes net i) \<longrightarrow> i = Max (set ids)) \<and>
    (ring_orderly {} events \<and> (\<forall>i \<in> set ids. rg_running (rt_nodes net i)) \<and> rt_flight net = [] \<longrightarrow>
      (\<forall>i \<in> set ids. rg_leader (rt_nodes net i) = Some (Max (set ids)) \<and>
        (rg_is_leader (rt_nodes net i) \<longleftrightarrow> i = Max (set ids))))"
proof (cases "ids = []")
  case False
  then have "ring_inv False ids net" using ring_run_inv assms by simp
  then have top: "\<forall>i \<in> set ids. rg_is_leader (rt_nodes net i) \<longrightarrow> i = Max (set ids)"
    by (auto simp: ring_inv_def ring_safe_def ring_node_ok_def top_id_def [symmetric] dest: ring_flagD)
  have "ring_inv True ids net" if "ring_orderly {} events"
    unfolding assms ring_run_def by (rule ring_orderly_inv [OF False ring_init_inv [OF False] _ that]) simp
  then have "ring_orderly {} events \<and> (\<forall>i \<in> set ids. rg_running (rt_nodes net i)) \<and> rt_flight net = [] \<longrightarrow>
      (\<forall>i \<in> set ids. rg_leader (rt_nodes net i) = Some (Max (set ids)) \<and> (rg_is_leader (rt_nodes net i) \<longleftrightarrow> i = Max (set ids)))"
    by (auto simp: ring_inv_def ring_safe_def ring_node_ok_def ring_flag_ok_def all_running_def all_agree_def top_id_def)
  with top show ?thesis by blast
qed simp

theorem ring_elects_highest_witness:
  "list_all (\<lambda>i. rg_leader (rt_nodes (ring_run [''b'', ''a'']
     (map RStart [''b'', ''a''] @ replicate 4 (RDeliver 0))) i) = Some ''b'') [''b'', ''a'']"
proof -
  let ?ids = "[''b'', ''a'']"
  let ?net = "ring_run ?ids (map RStart ?ids @ replicate 4 (RDeliver 0))"
  have top: "Max (set ?ids) = ''b''" and run: "list_all (\<lambda>i. rg_running (rt_nodes ?net i)) ?ids" and quiet: "rt_flight ?net = []"
    by code_simp+
  have orderly: "ring_orderly {} (map RStart ?ids @ replicate 4 (RDeliver 0))" by code_simp
  from run have "\<forall>i \<in> set ?ids. rg_running (rt_nodes ?net i)" unfolding list_all_iff .
  with ring_elects_highest [OF refl, of ?ids "map RStart ?ids @ replicate 4 (RDeliver 0)"] quiet top orderly
  have "\<forall>i \<in> set ?ids. rg_leader (rt_nodes ?net i) = Some ''b''" by metis
  then show ?thesis by (simp only: list_all_iff)
qed

text \<open>
  C25. Elections end: after any events, no more than 2 N messages are delivered for each message in
  flight, where N is the number of nodes, whatever the order of the deliveries.
\<close>

theorem ring_deliveries_terminate:
  assumes "ids \<noteq> []" and "ring_deliveries ids (ring_run ids events) ks"
  shows "length ks \<le> 2 * card (set ids) * length (rt_flight (ring_run ids events))"
proof -
  let ?net = "ring_run ids events"
  note inv = ring_run_inv [OF assms(1), of events]
  have le: "ring_weight ids t \<le> 2 * card (set ids)" if t: "t \<in> set (rt_flight ?net)" for t
  proof -
    have "ring_msg_ok ids (rt_nodes ?net) t" using inv t by (simp add: ring_inv_def ring_safe_def)
    then obtain s k where k: "1 \<le> k" "k \<le> card (set ids)"
      "token_ok ids (rt_nodes ?net) t s k \<or> elected_ok ids (rt_nodes ?net) t s k" unfolding ring_msg_ok_def by blast
    then have "ring_weight ids t = 2 * card (set ids) + 1 - k \<or> ring_weight ids t = card (set ids) + 1 - k"
      using ring_weight_token ring_weight_elected [OF _ assms(1) k(1,2)] by blast
    then show ?thesis using k(1,2) by linarith
  qed
  have "(\<forall>t \<in> set ts. ring_weight ids t \<le> c) \<Longrightarrow> sum_list (map (ring_weight ids) ts) \<le> c * length ts" for ts c
    by (induction ts) (simp_all del: ring_weight.simps)
  with le have "sum_list (map (ring_weight ids) (rt_flight ?net)) \<le> 2 * card (set ids) * length (rt_flight ?net)" by blast
  with deliveries_bound [OF inv assms] show ?thesis by (rule order_trans)
qed

theorem ring_deliveries_terminate_witness:
  "length [0 :: nat, 0] \<le> 2 * card (set [''a'', ''b'']) * length (rt_flight (ring_run [''a'', ''b''] [RStart ''a'', RStart ''b'']))"
proof -
  let ?net = "ring_run [''a'', ''b''] [RStart ''a'', RStart ''b'']"
  have "0 < length (rt_flight ?net)" "0 < length (rt_flight (ring_do [''a'', ''b''] ?net (RDeliver 0)))" by code_simp+
  then have "ring_deliveries [''a'', ''b''] ?net [0, 0]" unfolding ring_deliveries.simps by blast
  with ring_deliveries_terminate [of "[''a'', ''b'']"] show ?thesis by blast
qed

text \<open>
  A lost election message is never replaced: the node stays \<open>in_election\<close>, and neither its monitor
  nor \<open>trigger_election\<close> starts another election.
\<close>

lemma ring_lost_token_stuck:
  "\<forall>e \<in> set events. e \<in> {RMonitor ''a'', RTrigger ''a''} \<Longrightarrow>
     ring_run [''a'', ''b''] (RStart ''a'' # events) = ring_run [''a'', ''b''] [RStart ''a'']"
proof -
  let ?net = "ring_run [''a'', ''b''] [RStart ''a'']"
  have "rg_in_election (rt_nodes ?net ''a'')" by code_simp
  then have "ring_do [''a'', ''b''] ?net e = ?net" if "e \<in> {RMonitor ''a'', RTrigger ''a''}" for e
    using that by (auto simp: ring_monitor_def ring_trigger_election_def ring_start_election_def ring_act_def ring_post_def)
  then have "\<forall>e \<in> set events. e \<in> {RMonitor ''a'', RTrigger ''a''} \<Longrightarrow> foldl (ring_do [''a'', ''b'']) ?net events = ?net"
    by (induction events) auto
  then show "\<forall>e \<in> set events. e \<in> {RMonitor ''a'', RTrigger ''a''} \<Longrightarrow> ?thesis" by (simp add: ring_run_def)
qed

text \<open>
  Nothing keeps \<open>trigger_election\<close> from a node that has not started: its message is dropped, it is
  \<open>in_election\<close> from then on, and when both nodes have started no message is in flight and neither
  knows a leader.
\<close>

theorem ring_early_trigger_stuck:
  "let net = ring_run [''a'', ''b''] [RStart ''a'', RTrigger ''b'', RStart ''b'', RMonitor ''a'', RMonitor ''b'']
   in list_all (\<lambda>i. rg_running (rt_nodes net i) \<and> rg_in_election (rt_nodes net i) \<and> rg_leader (rt_nodes net i) = None) [''a'', ''b''] \<and>
      rt_flight net = []"
  by code_simp

end
