(* ===== verification/Local_Transport.thy ===== *)
theory Local_Transport
  imports Ring_Election
begin

text \<open>
  \<open>leader-election/src/local_transport.py\<close>: the bus that all nodes share and the transports on it.
  Transport objects have addresses \<open>'a\<close>, so that two objects may have the same node id; a callback
  is a value \<open>'h\<close>. A message that finds its target is delivered by a thread of its own: the threads
  that have not run yet are a list, and any of them may run next. Warnings are left out.

  The ring election runs over it: a functional refinement onto the net of \<open>Ring_Election\<close>.
\<close>

section \<open>The bus and its transports\<close>

record 'h local_transport =
  lt_node_id :: string
  lt_callback :: "'h option"
  lt_running :: bool

record ('a, 'h, 'm) local_bus =
  bus_nodes :: "(string, 'a) dict"
  bus_transports :: "'a \<Rightarrow> 'h local_transport"
  bus_threads :: "('a \<times> 'm) list"

definition bus_register :: "('a, 'h, 'm) local_bus \<Rightarrow> string \<Rightarrow> 'a \<Rightarrow> ('a, 'h, 'm) local_bus" where
  "bus_register b node_id a = b\<lparr>bus_nodes := dict_set node_id a (bus_nodes b)\<rparr>"

definition bus_unregister :: "('a, 'h, 'm) local_bus \<Rightarrow> string \<Rightarrow> ('a, 'h, 'm) local_bus" where
  "bus_unregister b node_id = b\<lparr>bus_nodes := dict_del node_id (bus_nodes b)\<rparr>"

definition bus_send :: "('a, 'h, 'm) local_bus \<Rightarrow> string \<Rightarrow> 'm \<Rightarrow> ('a, 'h, 'm) local_bus" where
  "bus_send b target_id message =
     (case map_of (bus_nodes b) target_id of
        None \<Rightarrow> b
      | Some target \<Rightarrow> b\<lparr>bus_threads := bus_threads b @ [(target, message)]\<rparr>)"

definition lt_init :: "string \<Rightarrow> 'h local_transport" where
  "lt_init node_id = \<lparr>lt_node_id = node_id, lt_callback = None, lt_running = False\<rparr>"

definition lt_send :: "'a \<Rightarrow> ('a, 'h, 'm) local_bus \<Rightarrow> string \<Rightarrow> 'm \<Rightarrow> ('a, 'h, 'm) local_bus" where
  "lt_send a b target_id message =
     (if \<not> lt_running (bus_transports b a) then b else bus_send b target_id message)"

definition lt_broadcast :: "'a \<Rightarrow> ('a, 'h, 'm) local_bus \<Rightarrow> 'm \<Rightarrow> ('a, 'h, 'm) local_bus" where
  "lt_broadcast a b message =
     foldl (\<lambda>b node. if node \<noteq> lt_node_id (bus_transports b a) then lt_send a b node message else b) b (map fst (bus_nodes b))"

definition put_transport :: "('a, 'h, 'm) local_bus \<Rightarrow> 'a \<Rightarrow> 'h local_transport \<Rightarrow> ('a, 'h, 'm) local_bus" where
  "put_transport b a t = b\<lparr>bus_transports := (bus_transports b)(a := t)\<rparr>"

definition lt_set_on_message :: "'a \<Rightarrow> ('a, 'h, 'm) local_bus \<Rightarrow> 'h \<Rightarrow> ('a, 'h, 'm) local_bus" where
  "lt_set_on_message a b callback = put_transport b a ((bus_transports b a)\<lparr>lt_callback := Some callback\<rparr>)"

definition lt_start :: "'a \<Rightarrow> ('a, 'h, 'm) local_bus \<Rightarrow> ('a, 'h, 'm) local_bus" where
  "lt_start a b = bus_register (put_transport b a ((bus_transports b a)\<lparr>lt_running := True\<rparr>)) (lt_node_id (bus_transports b a)) a"

definition lt_stop :: "'a \<Rightarrow> ('a, 'h, 'm) local_bus \<Rightarrow> ('a, 'h, 'm) local_bus" where
  "lt_stop a b = bus_unregister (put_transport b a ((bus_transports b a)\<lparr>lt_running := False\<rparr>)) (lt_node_id (bus_transports b a))"

text \<open>
  \<open>_receive\<close>: the call of the callback, if there is one. What the callback raises is logged and
  swallowed, so a thread always ends.
\<close>

definition lt_receive :: "('a, 'h, 'm) local_bus \<Rightarrow> 'a \<Rightarrow> 'm \<Rightarrow> ('h \<times> 'm) option" where
  "lt_receive b a message =
     (let t = bus_transports b a
      in if lt_running t then (case lt_callback t of None \<Rightarrow> None | Some callback \<Rightarrow> Some (callback, message)) else None)"

text \<open>The k-th thread runs.\<close>

definition bus_deliver :: "nat \<Rightarrow> ('a, 'h, 'm) local_bus \<Rightarrow> ('a, 'h, 'm) local_bus \<times> ('h \<times> 'm) option" where
  "bus_deliver k b =
     (if k < length (bus_threads b)
      then (b\<lparr>bus_threads := take k (bus_threads b) @ drop (Suc k) (bus_threads b)\<rparr>,
            lt_receive b (fst (bus_threads b ! k)) (snd (bus_threads b ! k)))
      else (b, None))"

section \<open>The ring over the bus\<close>

text \<open>
  The transport of a node has the node's id as its address and the node's \<open>_handle_message\<close> as its
  callback. A handler sends its messages one after the other.
\<close>

record ring_system =
  rs_nodes :: "string \<Rightarrow> ring_node"
  rs_bus :: "(string, string, ring_message) local_bus"

definition ring_system_init :: "string list \<Rightarrow> ring_system" where
  "ring_system_init ids =
     \<lparr>rs_nodes = (\<lambda>i. ring_node_init i ids),
      rs_bus = foldl (\<lambda>b i. lt_set_on_message i b i)
        \<lparr>bus_nodes = [], bus_transports = lt_init, bus_threads = []\<rparr> ids\<rparr>"

definition ring_sends_over :: "string \<Rightarrow> (string, string, ring_message) local_bus \<Rightarrow> ring_sends \<Rightarrow> (string, string, ring_message) local_bus" where
  "ring_sends_over i b sends = foldl (\<lambda>b (dest, m). lt_send i b dest m) b sends"

definition ring_system_act :: "ring_system \<Rightarrow> string \<Rightarrow> ring_node \<times> ring_sends \<Rightarrow> ring_system" where
  "ring_system_act s i res = s\<lparr>rs_nodes := (rs_nodes s)(i := fst res), rs_bus := ring_sends_over i (rs_bus s) (snd res)\<rparr>"

text \<open>\<open>start\<close> of the election starts the transport before it sends, \<open>stop\<close> stops it.\<close>

fun ring_system_do :: "string list \<Rightarrow> ring_system \<Rightarrow> ring_event \<Rightarrow> ring_system" where
  "ring_system_do ids s (RStart i) =
     (if i \<in> set ids
      then ring_system_act (if rg_running (rs_nodes s i) then s else s\<lparr>rs_bus := lt_start i (rs_bus s)\<rparr>) i (ring_start (rs_nodes s i))
      else s)"
| "ring_system_do ids s (RMonitor i) =
     (if i \<in> set ids then ring_system_act s i (ring_monitor (rs_nodes s i)) else s)"
| "ring_system_do ids s (RStop i) =
     (if i \<in> set ids then (s\<lparr>rs_nodes := (rs_nodes s)(i := ring_stop (rs_nodes s i)), rs_bus := lt_stop i (rs_bus s)\<rparr>) else s)"
| "ring_system_do ids s (RTrigger i) =
     (if i \<in> set ids then ring_system_act s i (ring_trigger_election (rs_nodes s i)) else s)"
| "ring_system_do ids s (RDeliver k) =
     (case bus_deliver k (rs_bus s) of
        (b, None) \<Rightarrow> s\<lparr>rs_bus := b\<rparr>
      | (b, Some (i, m)) \<Rightarrow> ring_system_act (s\<lparr>rs_bus := b\<rparr>) i (ring_handle_message (rs_nodes s i) m))"

definition ring_system_run :: "string list \<Rightarrow> ring_event list \<Rightarrow> ring_system" where
  "ring_system_run ids events = foldl (ring_system_do ids) (ring_system_init ids) events"

section \<open>The bus carries the messages of the ring\<close>

named_theorems bus_simps

lemmas [bus_simps] = bus_register_def bus_unregister_def bus_send_def lt_send_def lt_start_def lt_stop_def
  put_transport_def lt_set_on_message_def

text \<open>A transport on the bus: what its node is, and that the bus knows exactly the nodes that run.\<close>

definition carries :: "string list \<Rightarrow> (string \<Rightarrow> ring_node) \<Rightarrow> (string, string, ring_message) local_bus \<Rightarrow> bool" where
  "carries ids nodes b \<longleftrightarrow>
     (\<forall>i. lt_node_id (bus_transports b i) = i) \<and>
     (\<forall>i\<in>set ids. lt_callback (bus_transports b i) = Some i \<and> lt_running (bus_transports b i) = rg_running (nodes i)) \<and>
     (\<forall>d. map_of (bus_nodes b) d = (if d \<in> set ids \<and> rg_running (nodes d) then Some d else None)) \<and>
     (\<forall>t\<in>set (bus_threads b). fst t \<in> set ids)"

definition ring_system_net :: "ring_system \<Rightarrow> ring_net" where
  "ring_system_net s = \<lparr>rt_nodes = rs_nodes s, rt_flight = bus_threads (rs_bus s)\<rparr>"

lemma sends_over_threads:
  assumes "lt_running (bus_transports b i)" and "\<forall>d. map_of (bus_nodes b) d = (if P d then Some d else None)"
  shows "ring_sends_over i b sends = b\<lparr>bus_threads := bus_threads b @ filter (\<lambda>(dest, _). P dest) sends\<rparr>"
  using assms
proof (induction sends arbitrary: b)
  case (Cons p sends)
  obtain dest m where p: "p = (dest, m)" by fastforce
  have step: "lt_send i b dest m = (if P dest then b\<lparr>bus_threads := bus_threads b @ [(dest, m)]\<rparr> else b)"
    using Cons.prems by (simp add: bus_simps)
  have "ring_sends_over i b ((dest, m) # sends) = ring_sends_over i (lt_send i b dest m) sends"
    by (simp add: ring_sends_over_def)
  with Cons.IH [of "lt_send i b dest m"] Cons.prems show ?case unfolding p step by simp
qed (simp add: ring_sends_over_def)

lemma no_sends_over [simp]: "ring_sends_over i b [] = b"
  by (simp add: ring_sends_over_def)

text \<open>A handler that leaves its node running or not: what it sends is in flight exactly if the net puts it there.\<close>

lemma no_sends_stopped:
  assumes "\<not> lt_running (bus_transports b i)"
  shows "ring_sends_over i b sends = b"
proof (induction sends)
  case (Cons p sends)
  then show ?case using assms by (cases p) (simp add: ring_sends_over_def lt_send_def)
qed simp

lemma act_refines:
  assumes c: "carries ids (rs_nodes s) (rs_bus s)" and i: "i \<in> set ids" and kept: "rg_running (fst res) = rg_running (rs_nodes s i)"
  shows "carries ids (rs_nodes (ring_system_act s i res)) (rs_bus (ring_system_act s i res)) \<and>
    ring_system_net (ring_system_act s i res) = ring_act ids (ring_system_net s) i res"
proof -
  let ?nodes = "(rs_nodes s)(i := fst res)"
  have same: "rg_running (?nodes d) = rg_running (rs_nodes s d)" for d using kept by simp
  have on: "lt_running (bus_transports (rs_bus s) i) = rg_running (rs_nodes s i)" using c i by (simp add: carries_def)
  have map: "\<forall>d. map_of (bus_nodes (rs_bus s)) d = (if d \<in> set ids \<and> rg_running (?nodes d) then Some d else None)"
    using c unfolding same by (simp add: carries_def)
  have sends: "ring_sends_over i (rs_bus s) (snd res) =
      (rs_bus s)\<lparr>bus_threads := bus_threads (rs_bus s) @
        (if rg_running (fst res) then filter (\<lambda>(dest, _). dest \<in> set ids \<and> rg_running (?nodes dest)) (snd res) else [])\<rparr>"
  proof (cases "rg_running (fst res)")
    case True
    then show ?thesis using sends_over_threads [OF _ map, of i "snd res"] on kept by simp
  next
    case False
    then show ?thesis using no_sends_stopped [of "rs_bus s" i "snd res"] on kept by simp
  qed
  have net: "ring_system_net (ring_system_act s i res) = ring_act ids (ring_system_net s) i res"
    unfolding ring_system_act_def ring_system_net_def ring_act_def ring_post_def sends by simp
  have "carries ids ?nodes (ring_sends_over i (rs_bus s) (snd res))"
    using c unfolding carries_def sends same by (auto simp: same split: if_splits)
  then show ?thesis using net by (simp add: ring_system_act_def)
qed

lemma init_carries:
  "carries ids (rs_nodes (ring_system_init ids)) (rs_bus (ring_system_init ids)) \<and> ring_system_net (ring_system_init ids) = ring_net_init ids"
proof -
  have "let b' = foldl (\<lambda>b i. lt_set_on_message i b i) b ids
    in bus_nodes b' = bus_nodes b \<and> bus_threads b' = bus_threads b \<and>
       (\<forall>i. lt_node_id (bus_transports b' i) = lt_node_id (bus_transports b i) \<and> lt_running (bus_transports b' i) = lt_running (bus_transports b i) \<and>
         lt_callback (bus_transports b' i) = (if i \<in> set ids then Some i else lt_callback (bus_transports b i)))" for b
    by (induction ids arbitrary: b) (auto simp: bus_simps Let_def)
  from this [of "\<lparr>bus_nodes = [], bus_transports = lt_init, bus_threads = []\<rparr>"] show ?thesis
    by (auto simp: ring_system_init_def carries_def ring_system_net_def ring_net_init_def lt_init_def ring_node_init_def Let_def)
qed

lemma start_carries:
  assumes "carries ids (rs_nodes s) b" and "i \<in> set ids"
  shows "carries ids ((rs_nodes s)(i := (rs_nodes s i)\<lparr>rg_running := True\<rparr>)) (lt_start i b)"
  using assms by (auto simp: carries_def bus_simps update_conv')

lemma stop_carries:
  assumes "carries ids (rs_nodes s) b" and "i \<in> set ids"
  shows "carries ids ((rs_nodes s)(i := ring_stop (rs_nodes s i))) (lt_stop i b)"
  using assms by (auto simp: carries_def bus_simps delete_conv' ring_stop_def)

lemma do_refines:
  assumes c: "carries ids (rs_nodes s) (rs_bus s)"
  shows "carries ids (rs_nodes (ring_system_do ids s e)) (rs_bus (ring_system_do ids s e)) \<and>
    ring_system_net (ring_system_do ids s e) = ring_do ids (ring_system_net s) e"
proof (cases e)
  case (RStart i)
  show ?thesis
  proof (cases "i \<in> set ids")
    case i: True
    show ?thesis
    proof (cases "rg_running (rs_nodes s i)")
      case True
      from act_refines [OF c i, of "ring_start (rs_nodes s i)"] i True RStart ring_handlers_running(1) show ?thesis by (simp add: ring_system_net_def)
    next
      case False
      let ?s = "s\<lparr>rs_nodes := (rs_nodes s)(i := (rs_nodes s i)\<lparr>rg_running := True\<rparr>), rs_bus := lt_start i (rs_bus s)\<rparr>"
      have "carries ids (rs_nodes ?s) (rs_bus ?s)" using start_carries [OF c i] by simp
      from act_refines [OF this i, of "ring_start (rs_nodes s i)"]
      have "carries ids (rs_nodes (ring_system_act ?s i (ring_start (rs_nodes s i)))) (rs_bus (ring_system_act ?s i (ring_start (rs_nodes s i)))) \<and>
          ring_system_net (ring_system_act ?s i (ring_start (rs_nodes s i))) = ring_act ids (ring_system_net ?s) i (ring_start (rs_nodes s i))"
        by (simp add: ring_handlers_running)
      moreover have "ring_system_act ?s i res = ring_system_act (s\<lparr>rs_bus := lt_start i (rs_bus s)\<rparr>) i res" for res
        by (simp add: ring_system_act_def)
      moreover have "ring_act ids (ring_system_net ?s) i res = ring_act ids (ring_system_net s) i res" for res
        by (simp add: ring_act_def ring_post_def ring_system_net_def bus_simps)
      ultimately show ?thesis using RStart i False by (simp add: ring_system_net_def)
    qed
  qed (use c RStart in simp)
next
  case (RStop i)
  then show ?thesis
    using stop_carries [of ids s "rs_bus s" i] c
    by (simp add: ring_system_net_def ring_act_def ring_post_def ring_stop_def bus_simps)
next
  case (RMonitor i)
  then show ?thesis using act_refines [OF c, of i "ring_monitor (rs_nodes s i)"] c by (simp add: ring_handlers_running ring_system_net_def)
next
  case (RTrigger i)
  then show ?thesis
    using act_refines [OF c, of i "ring_trigger_election (rs_nodes s i)"] c by (simp add: ring_handlers_running ring_system_net_def)
next
  case (RDeliver k)
  show ?thesis
  proof (cases "k < length (bus_threads (rs_bus s))")
    case True
    obtain i m where t: "bus_threads (rs_bus s) ! k = (i, m)" by fastforce
    let ?b = "(rs_bus s)\<lparr>bus_threads := take k (bus_threads (rs_bus s)) @ drop (Suc k) (bus_threads (rs_bus s))\<rparr>"
    have "(i, m) \<in> set (bus_threads (rs_bus s))" using True t by (metis nth_mem)
    then have i: "i \<in> set ids" using c by (auto simp: carries_def)
    have c': "carries ids (rs_nodes (s\<lparr>rs_bus := ?b\<rparr>)) (rs_bus (s\<lparr>rs_bus := ?b\<rparr>))"
      using c by (auto simp: carries_def dest!: in_set_takeD in_set_dropD)
    have d: "bus_deliver k (rs_bus s) = (?b, if rg_running (rs_nodes s i) then Some (i, m) else None)"
      using True t c i by (simp add: bus_deliver_def lt_receive_def carries_def)
    show ?thesis
      using act_refines [OF c' i, of "ring_handle_message (rs_nodes s i) m"] c' RDeliver True t
      by (simp add: d ring_handlers_running ring_system_net_def)
  next
    case False
    then show ?thesis using c RDeliver by (simp add: bus_deliver_def ring_system_net_def)
  qed
qed

lemma run_refines:
  "carries ids (rs_nodes (ring_system_run ids events)) (rs_bus (ring_system_run ids events)) \<and>
   ring_system_net (ring_system_run ids events) = ring_run ids events"
proof (induction events rule: rev_induct)
  case (snoc e events)
  then show ?case using do_refines [of ids "ring_system_run ids events" e] by (simp add: ring_system_run_def ring_run_def)
qed (use init_carries in \<open>simp add: ring_system_run_def ring_run_def\<close>)

section \<open>Properties\<close>

text \<open>
  C23. The ring election over the local transport behaves as over its net of messages in flight, in
  every interleaving of starts, stops, monitors, triggers and delivery threads: the nodes are the same and
  the delivery threads are the messages in flight. So the bus knows exactly the nodes that run, and
  no node but the highest ever holds the leader flag.
\<close>

theorem ring_over_transport:
  assumes "s = ring_system_run ids events"
  shows "ring_system_net s = ring_run ids events \<and>
    (\<forall>d. map_of (bus_nodes (rs_bus s)) d = (if d \<in> set ids \<and> rg_running (rs_nodes s d) then Some d else None)) \<and>
    (\<forall>i\<in>set ids. rg_is_leader (rs_nodes s i) \<longrightarrow> i = Max (set ids))"
proof (intro conjI)
  note run = run_refines [of ids events]
  from run assms show net: "ring_system_net s = ring_run ids events" by simp
  from run assms show "\<forall>d. map_of (bus_nodes (rs_bus s)) d = (if d \<in> set ids \<and> rg_running (rs_nodes s d) then Some d else None)"
    by (simp add: carries_def)
  have nodes: "rs_nodes s = rt_nodes (ring_run ids events)" unfolding net [symmetric] by (simp add: ring_system_net_def)
  show "\<forall>i\<in>set ids. rg_is_leader (rs_nodes s i) \<longrightarrow> i = Max (set ids)"
  proof (cases "ids = []")
    case False
    with ring_run_inv [OF this, of events] show ?thesis
      unfolding nodes by (auto simp: ring_inv_def ring_safe_def ring_node_ok_def top_id_def [symmetric] dest: ring_flagD)
  qed simp
qed

text \<open>Two nodes start, and four deliveries later the second is the leader.\<close>

theorem ring_over_transport_witness:
  "let s = ring_system_run [''a'', ''b''] (map RStart [''a'', ''b''] @ replicate 4 (RDeliver 0))
   in rg_is_leader (rs_nodes s ''b'') \<and> bus_threads (rs_bus s) = [] \<and> \<not> rg_is_leader (rs_nodes s ''a'')"
proof -
  let ?events = "map RStart [''a'', ''b''] @ replicate 4 (RDeliver 0)"
  let ?s = "ring_system_run [''a'', ''b''] ?events"
  have "rg_is_leader (rs_nodes ?s ''b'')" and "bus_threads (rs_bus ?s) = []" by code_simp+
  moreover have "Max (set [''a'', ''b'']) = ''b''" by code_simp
  then have "\<not> rg_is_leader (rs_nodes ?s ''a'')"
    using ring_over_transport [OF refl, of "[''a'', ''b'']" ?events] by fastforce
  ultimately show ?thesis by simp
qed

text \<open>A broadcast of a running transport starts one thread for each other node that is registered.\<close>

theorem broadcast_reaches_all:
  fixes b :: "('a, 'h, 'm) local_bus"
  assumes "lt_running (bus_transports b a)" and "dict_wf (bus_nodes b)"
  shows "bus_threads (lt_broadcast a b m) =
    bus_threads b @ map (\<lambda>(_, target). (target, m)) (filter (\<lambda>(d, _). d \<noteq> lt_node_id (bus_transports b a)) (bus_nodes b))"
proof -
  have "(let b' = foldl (\<lambda>b node. if node \<noteq> lt_node_id (bus_transports b a) then lt_send a b node m else b) b (map fst ds)
      in bus_threads b' = bus_threads b @ map (\<lambda>(_, target). (target, m)) (filter (\<lambda>(d, _). d \<noteq> lt_node_id (bus_transports b a)) ds))"
    if "lt_running (bus_transports b a)" and "\<forall>(d, t)\<in>set ds. map_of (bus_nodes b) d = Some t" for ds and b :: "('a, 'h, 'm) local_bus"
    using that by (induction ds arbitrary: b) (auto simp: bus_simps Let_def)
  from this [of b "bus_nodes b"] assms show ?thesis by (auto simp: lt_broadcast_def Let_def)
qed

text \<open>
  \<open>stop\<close> removes whatever is registered under its node id: an old transport object that is stopped
  after a new one with the same id has started cuts the new one off, which still believes to run.
\<close>

theorem stale_stop_cuts_off:
  assumes "a \<noteq> a'" and "lt_node_id (bus_transports b a) = lt_node_id (bus_transports b a')"
  shows "map_of (bus_nodes (lt_stop a (lt_start a' (lt_start a b)))) (lt_node_id (bus_transports b a')) = None \<and>
    lt_running (bus_transports (lt_stop a (lt_start a' (lt_start a b))) a')"
  using assms by (simp add: bus_simps delete_conv')

end
