(* ===== verification/Bully_Election.thy ===== *)
theory Bully_Election
  imports Prelude
begin

text \<open>
  \<open>leader-election/src/bully_algorithm.py\<close>: the node with the highest identifier is to become the
  leader. A handler returns the node and the messages that it sends, in the order of their
  receivers' names; the clock is an argument where it is read; \<open>bn_timers\<close> counts the election timers
  that were started and have not fired, and calls of the callbacks are recorded in \<open>bn_notified\<close>.
\<close>

section \<open>A node\<close>

datatype bully_type = ELECTION | OK | COORDINATOR | HEARTBEAT

record bully_message =
  bm_type :: bully_type
  bm_sender_id :: string
  bm_term :: int

record bully_node =
  bn_node_id :: string
  bn_peers :: "string set"
  bn_election_timeout :: rat
  bn_is_leader :: bool
  bn_leader :: "string option"
  bn_in_election :: bool
  bn_term :: int
  bn_running :: bool
  bn_heartbeat_alive :: bool
  bn_last_heartbeat :: time
  bn_timers :: nat
  bn_notified :: "string option list"

type_synonym bully_sends = "(string \<times> bully_message) list"

definition bully_init :: "string \<Rightarrow> string list \<Rightarrow> rat \<Rightarrow> time \<Rightarrow> bully_node" where
  "bully_init node_id peers election_timeout now =
     \<lparr>bn_node_id = node_id, bn_peers = set peers, bn_election_timeout = election_timeout, bn_is_leader = False,
      bn_leader = None, bn_in_election = False, bn_term = 0, bn_running = False, bn_heartbeat_alive = False,
      bn_last_heartbeat = now, bn_timers = 0, bn_notified = []\<rparr>"

definition bully_to_all :: "string set \<Rightarrow> bully_message \<Rightarrow> bully_sends" where
  "bully_to_all receivers m = map (\<lambda>node. (node, m)) (sorted_list_of_set receivers)"

definition bully_notify :: "bully_node \<Rightarrow> bully_node" where
  "bully_notify n = n\<lparr>bn_notified := bn_notified n @ [bn_leader n]\<rparr>"

definition bully_become_leader :: "bully_node \<Rightarrow> bully_node \<times> bully_sends" where
  "bully_become_leader n =
     (let old_leader = bn_leader n;
          n1 = n\<lparr>bn_in_election := False, bn_is_leader := True, bn_leader := Some (bn_node_id n), bn_heartbeat_alive := True\<rparr>;
          sends = bully_to_all (bn_peers n) \<lparr>bm_type = COORDINATOR, bm_sender_id = bn_node_id n, bm_term = bn_term n\<rparr>
      in (if old_leader \<noteq> Some (bn_node_id n) then bully_notify n1 else n1, sends))"

definition bully_higher :: "bully_node \<Rightarrow> string set" where
  "bully_higher n = Set.filter (\<lambda>node. node > bn_node_id n) (insert (bn_node_id n) (bn_peers n))"

definition bully_start_election :: "bully_node \<Rightarrow> bully_node \<times> bully_sends" where
  "bully_start_election n0 =
     (if bn_in_election n0 then (n0, [])
      else let n = n0\<lparr>bn_in_election := True, bn_term := bn_term n0 + 1\<rparr>; higher_nodes = bully_higher n
           in if higher_nodes = {} then bully_become_leader n
              else (n\<lparr>bn_timers := bn_timers n + 1\<rparr>,
                    bully_to_all (higher_nodes \<inter> bn_peers n)
                      \<lparr>bm_type = ELECTION, bm_sender_id = bn_node_id n, bm_term = bn_term n\<rparr>))"

definition bully_start :: "bully_node \<Rightarrow> bully_node \<times> bully_sends" where
  "bully_start n = (if bn_running n then (n, []) else bully_start_election (n\<lparr>bn_running := True\<rparr>))"

definition bully_step_down :: "bully_node \<Rightarrow> bully_node" where
  "bully_step_down n = (if \<not> bn_is_leader n then n else n\<lparr>bn_is_leader := False\<rparr>)"

definition bully_stop :: "bully_node \<Rightarrow> bully_node" where
  "bully_stop n = (let n1 = n\<lparr>bn_running := False\<rparr> in if bn_is_leader n1 then bully_step_down n1 else n1)"

text \<open>A timer fires, also on a node that has stopped.\<close>

definition bully_timeout_check :: "bully_node \<Rightarrow> bully_node \<times> bully_sends" where
  "bully_timeout_check n0 =
     (let n = n0\<lparr>bn_timers := bn_timers n0 - 1\<rparr>
      in if bn_in_election n \<and> \<not> bn_is_leader n then bully_become_leader n else (n, []))"

text \<open>One round of the heartbeat loop, and one of \<open>_monitor_leader\<close>.\<close>

definition bully_heartbeat :: "bully_node \<Rightarrow> bully_node \<times> bully_sends" where
  "bully_heartbeat n =
     (if bn_running n \<and> bn_is_leader n
      then (n, bully_to_all (bn_peers n) \<lparr>bm_type = HEARTBEAT, bm_sender_id = bn_node_id n, bm_term = bn_term n\<rparr>)
      else (n\<lparr>bn_heartbeat_alive := False\<rparr>, []))"

definition bully_monitor :: "bully_node \<Rightarrow> time \<Rightarrow> bully_node \<times> bully_sends" where
  "bully_monitor n now =
     (if bn_running n \<and> \<not> bn_is_leader n \<and> now - bn_last_heartbeat n > bn_election_timeout n
      then bully_start_election n else (n, []))"

definition bully_handle_election :: "bully_node \<Rightarrow> bully_message \<Rightarrow> bully_node \<times> bully_sends" where
  "bully_handle_election n m =
     (if bn_node_id n > bm_sender_id m
      then let ok = (bm_sender_id m, \<lparr>bm_type = OK, bm_sender_id = bn_node_id n, bm_term = bn_term n\<rparr>)
           in if \<not> bn_in_election n \<and> \<not> bn_is_leader n
              then case bully_start_election n of (n1, sends) \<Rightarrow> (n1, ok # sends)
              else (n, [ok])
      else (n, []))"

definition bully_handle_ok :: "bully_node \<Rightarrow> bully_message \<Rightarrow> bully_node \<times> bully_sends" where
  "bully_handle_ok n m = (n, [])"

definition bully_handle_coordinator :: "bully_node \<Rightarrow> bully_message \<Rightarrow> time \<Rightarrow> bully_node \<times> bully_sends" where
  "bully_handle_coordinator n m now =
     (if bm_sender_id m < bn_node_id n then bully_start_election n
      else let old_leader = bn_leader n;
               n1 = n\<lparr>bn_leader := Some (bm_sender_id m), bn_in_election := False, bn_term := bm_term m, bn_last_heartbeat := now\<rparr>;
               n2 = (if bn_is_leader n1 then bully_step_down n1 else n1)
           in (if old_leader \<noteq> Some (bm_sender_id m) then bully_notify n2 else n2, []))"

definition bully_handle_heartbeat :: "bully_node \<Rightarrow> bully_message \<Rightarrow> time \<Rightarrow> bully_node \<times> bully_sends" where
  "bully_handle_heartbeat n m now =
     (if Some (bm_sender_id m) = bn_leader n
      then (let n1 = n\<lparr>bn_last_heartbeat := now\<rparr> in if bm_term m > bn_term n1 then n1\<lparr>bn_term := bm_term m\<rparr> else n1, [])
      else if bm_term m > bn_term n then bully_handle_coordinator n m now
      else (n, []))"

definition bully_handle_message :: "bully_node \<Rightarrow> bully_message \<Rightarrow> time \<Rightarrow> bully_node \<times> bully_sends" where
  "bully_handle_message n m now =
     (case bm_type m of ELECTION \<Rightarrow> bully_handle_election n m | OK \<Rightarrow> bully_handle_ok n m
      | COORDINATOR \<Rightarrow> bully_handle_coordinator n m now | HEARTBEAT \<Rightarrow> bully_handle_heartbeat n m now)"

definition bully_trigger_election :: "bully_node \<Rightarrow> bully_node \<times> bully_sends" where
  "bully_trigger_election n = bully_start_election n"

section \<open>What a node goes through\<close>

datatype bully_event = BStart | BStop | BTimer | BHeartbeat | BMonitor time | BTrigger | BMessage bully_message time

fun bully_do :: "bully_node \<Rightarrow> bully_event \<Rightarrow> bully_node \<times> bully_sends" where
  "bully_do n BStart = bully_start n"
| "bully_do n BStop = (bully_stop n, [])"
| "bully_do n BTimer = (if 0 < bn_timers n then bully_timeout_check n else (n, []))"
| "bully_do n BHeartbeat = (if bn_heartbeat_alive n then bully_heartbeat n else (n, []))"
| "bully_do n (BMonitor now) = bully_monitor n now"
| "bully_do n BTrigger = bully_trigger_election n"
| "bully_do n (BMessage m now) = (if bn_running n then bully_handle_message n m now else (n, []))"

fun bully_run :: "bully_node \<Rightarrow> bully_event list \<Rightarrow> bully_node \<times> bully_sends" where
  "bully_run n [] = (n, [])"
| "bully_run n (e # es) =
     (case bully_do n e of (n1, sends1) \<Rightarrow> (case bully_run n1 es of (n2, sends2) \<Rightarrow> (n2, sends1 @ sends2)))"

text \<open>A node never follows a lower one, and a leader follows itself.\<close>

definition bully_ok :: "bully_node \<Rightarrow> bool" where
  "bully_ok n \<longleftrightarrow> (\<forall>l. bn_leader n = Some l \<longrightarrow> bn_node_id n \<le> l) \<and>
     (bn_is_leader n \<longrightarrow> bn_leader n = Some (bn_node_id n))"

definition bully_same :: "bully_node \<Rightarrow> bully_node \<Rightarrow> bool" where
  "bully_same n n' \<longleftrightarrow> bn_node_id n' = bn_node_id n \<and> bn_peers n' = bn_peers n"

lemma become_leader_ok: "bully_ok (fst (bully_become_leader n)) \<and> bully_same n (fst (bully_become_leader n))"
  by (auto simp: bully_become_leader_def Let_def bully_ok_def bully_notify_def bully_same_def)

lemma start_election_ok:
  assumes "bully_ok n"
  shows "bully_ok (fst (bully_start_election n)) \<and> bully_same n (fst (bully_start_election n))"
  using assms become_leader_ok [of "n\<lparr>bn_in_election := True, bn_term := bn_term n + 1\<rparr>"]
  by (auto simp: bully_start_election_def Let_def bully_ok_def bully_same_def)

lemma coordinator_ok:
  assumes "bully_ok n"
  shows "bully_ok (fst (bully_handle_coordinator n m now)) \<and> bully_same n (fst (bully_handle_coordinator n m now))"
  using assms start_election_ok [OF assms]
  by (auto simp: bully_handle_coordinator_def Let_def bully_ok_def bully_same_def bully_notify_def bully_step_down_def)

lemma handle_message_ok:
  assumes "bully_ok n"
  shows "bully_ok (fst (bully_handle_message n m now)) \<and> bully_same n (fst (bully_handle_message n m now))"
proof (cases "bm_type m")
  case ELECTION
  then have "fst (bully_handle_message n m now) = n \<or> fst (bully_handle_message n m now) = fst (bully_start_election n)"
    by (simp add: bully_handle_message_def bully_handle_election_def Let_def split_beta)
  then show ?thesis using assms start_election_ok [OF assms] by (metis bully_same_def)
next
  case HEARTBEAT
  then have "fst (bully_handle_message n m now) \<in> {n, n\<lparr>bn_last_heartbeat := now\<rparr>,
      n\<lparr>bn_last_heartbeat := now, bn_term := bm_term m\<rparr>, fst (bully_handle_coordinator n m now)}"
    by (simp add: bully_handle_message_def bully_handle_heartbeat_def Let_def)
  moreover have "bully_ok n' \<and> bully_same n n'"
    if "n' \<in> {n, n\<lparr>bn_last_heartbeat := now\<rparr>, n\<lparr>bn_last_heartbeat := now, bn_term := bm_term m\<rparr>}" for n'
    using that assms unfolding insert_iff bully_ok_def bully_same_def by (elim disjE) simp_all
  ultimately show ?thesis using coordinator_ok [OF assms, of m now] by (metis insert_iff)
qed (use assms coordinator_ok [OF assms, of m now] in \<open>simp_all add: bully_handle_message_def bully_handle_ok_def bully_same_def\<close>)

lemma bully_do_ok:
  assumes "bully_ok n"
  shows "bully_ok (fst (bully_do n e)) \<and> bully_same n (fst (bully_do n e))"
proof (cases e)
  case BStart
  have "bully_ok (n\<lparr>bn_running := True\<rparr>)" using assms by (simp add: bully_ok_def)
  from start_election_ok [OF this] show ?thesis using assms BStart by (auto simp: bully_start_def bully_same_def)
next
  case BStop
  then show ?thesis using assms by (auto simp: bully_stop_def bully_step_down_def Let_def bully_ok_def bully_same_def)
next
  case BTimer
  then show ?thesis using assms become_leader_ok [of "n\<lparr>bn_timers := bn_timers n - 1\<rparr>"]
    by (auto simp: bully_timeout_check_def Let_def bully_ok_def bully_same_def)
next
  case BHeartbeat
  then show ?thesis using assms by (auto simp: bully_heartbeat_def bully_ok_def bully_same_def)
next
  case (BMonitor now)
  then show ?thesis using assms start_election_ok [OF assms] by (auto simp: bully_monitor_def bully_same_def)
next
  case BTrigger
  then show ?thesis using start_election_ok [OF assms] by (simp add: bully_trigger_election_def)
next
  case (BMessage m now)
  then show ?thesis using assms handle_message_ok [OF assms, of m now] by (auto simp: bully_same_def)
qed

lemma bully_run_ok: "bully_ok n \<Longrightarrow> bully_ok (fst (bully_run n es)) \<and> bully_same n (fst (bully_run n es))"
proof (induction es arbitrary: n)
  case (Cons e es)
  from Cons.IH [OF conjunct1 [OF bully_do_ok [OF Cons.prems, of e]]] bully_do_ok [OF Cons.prems, of e]
  show ?case by (auto simp: bully_same_def split: prod.splits)
qed (simp add: bully_same_def)

lemma bully_init_id [simp]:
  "bn_node_id (bully_init i peers timeout now) = i" "bn_peers (bully_init i peers timeout now) = set peers"
  by (simp_all add: bully_init_def)

lemma bully_init_ok: "bully_ok (bully_init i peers timeout now)"
  by (simp add: bully_ok_def bully_init_def)

section \<open>Properties\<close>

lemma coordinator_accepted:
  assumes "bn_node_id v \<le> bm_sender_id m"
  shows "bn_leader (fst (bully_handle_coordinator v m now)) = Some (bm_sender_id m)"
    "\<not> bn_is_leader (fst (bully_handle_coordinator v m now))"
    "\<not> bn_in_election (fst (bully_handle_coordinator v m now))"
    "bn_term (fst (bully_handle_coordinator v m now)) = bm_term m"
    "snd (bully_handle_coordinator v m now) = []"
  using leD [OF assms] by (simp_all add: bully_handle_coordinator_def Let_def bully_notify_def bully_step_down_def)

text \<open>
  The highest node takes over in one round: whatever has happened to it, when it starts an
  election it is the leader at once and announces that to every peer, and a peer that receives the
  announcement, in any state, gives up its own leadership or election and follows it in its term.
  And whatever messages and timeouts a node sees, it never follows a node lower than itself, and
  it holds the leader flag only while it names itself.
\<close>

theorem bully_highest_takes_over:
  assumes "n = fst (bully_run (bully_init t peers timeout start) es)" and "\<not> bn_in_election n"
    and "\<forall>p \<in> set peers. p < t" and "bully_start_election n = (n', sends)"
  shows "bn_is_leader n' \<and> bn_leader n' = Some t \<and> fst ` set sends = set peers \<and>
    (\<forall>(peer, m) \<in> set sends. \<forall>v now. bn_node_id v = peer \<longrightarrow>
       (case bully_handle_message v m now of (v', replies) \<Rightarrow>
         bn_leader v' = Some t \<and> \<not> bn_is_leader v' \<and> \<not> bn_in_election v' \<and> bn_term v' = bn_term n' \<and> replies = [])) \<and>
    (\<forall>i others es' v. v = fst (bully_run (bully_init i others timeout start) es') \<longrightarrow>
       (\<forall>l. bn_leader v = Some l \<longrightarrow> i \<le> l) \<and> (bn_is_leader v \<longrightarrow> bn_leader v = Some i))"
proof (intro conjI)
  have n: "bn_node_id n = t" "bn_peers n = set peers"
    using bully_run_ok [OF bully_init_ok, of t peers timeout start es] assms(1) by (simp_all add: bully_same_def bully_init_def)
  let ?m = "\<lparr>bm_type = COORDINATOR, bm_sender_id = t, bm_term = bn_term n + 1\<rparr>"
  have "bully_higher (n\<lparr>bn_in_election := True, bn_term := bn_term n + 1\<rparr>) = {}"
    using assms(3) n by (auto simp: bully_higher_def)
  then have "bully_become_leader (n\<lparr>bn_in_election := True, bn_term := bn_term n + 1\<rparr>) = (n', sends)"
    using assms(2,4) by (simp add: bully_start_election_def Let_def)
  then have lead: "bn_is_leader n'" "bn_leader n' = Some t" "bn_term n' = bn_term n + 1" "sends = bully_to_all (set peers) ?m"
    using n by (auto simp: bully_become_leader_def Let_def bully_notify_def split: if_splits)
  show "bn_is_leader n'" "bn_leader n' = Some t" by (fact lead)+
  show "fst ` set sends = set peers" by (simp add: lead(4) bully_to_all_def image_image)
  show "\<forall>(peer, m) \<in> set sends. \<forall>v now. bn_node_id v = peer \<longrightarrow>
       (case bully_handle_message v m now of (v', replies) \<Rightarrow>
         bn_leader v' = Some t \<and> \<not> bn_is_leader v' \<and> \<not> bn_in_election v' \<and> bn_term v' = bn_term n' \<and> replies = [])"
  proof
    fix x assume x: "x \<in> set sends"
    obtain peer m where pm: "x = (peer, m)" by (cases x)
    have m: "m = ?m" "peer < t" using x pm assms(3) by (auto simp: lead(4) bully_to_all_def)
    show "case x of (peer, m) \<Rightarrow> \<forall>v now. bn_node_id v = peer \<longrightarrow>
       (case bully_handle_message v m now of (v', replies) \<Rightarrow>
         bn_leader v' = Some t \<and> \<not> bn_is_leader v' \<and> \<not> bn_in_election v' \<and> bn_term v' = bn_term n' \<and> replies = [])"
    proof (unfold pm prod.case, intro allI impI)
      fix v :: bully_node and now assume "bn_node_id v = peer"
      then have "bn_node_id v \<le> bm_sender_id ?m" using m(2) by simp
      from coordinator_accepted [OF this, of now] show "case bully_handle_message v m now of (v', replies) \<Rightarrow>
         bn_leader v' = Some t \<and> \<not> bn_is_leader v' \<and> \<not> bn_in_election v' \<and> bn_term v' = bn_term n' \<and> replies = []"
        by (simp add: bully_handle_message_def lead(3) m(1) split_beta)
    qed
  qed
  show "\<forall>i others es' v. v = fst (bully_run (bully_init i others timeout start) es') \<longrightarrow>
       (\<forall>l. bn_leader v = Some l \<longrightarrow> i \<le> l) \<and> (bn_is_leader v \<longrightarrow> bn_leader v = Some i)"
  proof (intro allI impI)
    fix i others es' v assume "v = fst (bully_run (bully_init i others timeout start) es')"
    with bully_run_ok [OF bully_init_ok, of i others timeout start es']
    have "bully_ok v" "bn_node_id v = i" by (simp_all add: bully_same_def)
    then show "(\<forall>l. bn_leader v = Some l \<longrightarrow> i \<le> l) \<and> (bn_is_leader v \<longrightarrow> bn_leader v = Some i)"
      by (simp add: bully_ok_def)
  qed
qed

theorem bully_highest_takes_over_witness:
  "\<exists>n' sends. bully_start_election (bully_init ''b'' [''a''] 2 0) = (n', sends) \<and> bn_leader n' = Some ''b'' \<and> fst ` set sends = {''a''}"
proof -
  let ?n = "bully_init ''b'' [''a''] 2 0"
  obtain n' sends where r: "bully_start_election ?n = (n', sends)" by fastforce
  have "?n = fst (bully_run ?n [])" "\<not> bn_in_election ?n" by (simp_all add: bully_init_def)
  moreover have "\<forall>p \<in> set [''a'']. p < (''b'' :: string)" by code_simp
  ultimately show ?thesis using bully_highest_takes_over [of ?n "''b''" "[''a'']" 2 0 "[]", OF _ _ _ r] r by auto
qed

text \<open>
  A node ignores the answers to its election: with c down, a higher node b answers a in time,
  yet a declares victory when its timer fires, since \<open>handle_ok_msg\<close> does nothing; and so does b. Both
  hold the leader flag.
\<close>

theorem bully_ok_ignored:
  "case bully_run (bully_init ''a'' [''b'', ''c''] 2 0) [BStart] of (a1, (to, elect) # _) \<Rightarrow>
     case bully_run (bully_init ''b'' [''a'', ''c''] 2 0) [BStart, BMessage elect 1] of (b1, [_, (back, answer)]) \<Rightarrow>
       to = ''b'' \<and> back = ''a'' \<and> bm_type answer = OK \<and>
       bn_is_leader (fst (bully_run a1 [BMessage answer 1, BTimer])) \<and> bn_is_leader (fst (bully_run b1 [BTimer]))"
  by code_simp

end
