(* ===== verification/Lease_Election.thy ===== *)
theory Lease_Election
  imports Prelude
begin

text \<open>
  \<open>leader-election/src/lease_algorithm.py\<close>: leadership by a lease that a quorum of nodes grants.
  A handler returns the node and the messages that it sends, in the order of their receivers'
  names; \<open>ln_delayed\<close> counts the threads that wait to contend, \<open>ln_timers\<close> the contention timers that
  have not fired, \<open>ln_renewals\<close> the renewal loops; calls of the callbacks are recorded.
\<close>

section \<open>A node\<close>

record lease_message =
  lm_type :: string
  lm_sender_id :: string
  lm_term :: int

record lease =
  lz_holder :: string
  lz_issued_time :: time
  lz_duration :: rat
  lz_term :: int

definition lease_is_valid :: "lease \<Rightarrow> time \<Rightarrow> bool" where
  "lease_is_valid l now \<longleftrightarrow> now < lz_issued_time l + lz_duration l"

definition lease_time_remaining :: "lease \<Rightarrow> time \<Rightarrow> rat" where
  "lease_time_remaining l now = max 0 (lz_issued_time l + lz_duration l - now)"

record lease_node =
  ln_node_id :: string
  ln_peers :: "string set"
  ln_lease_duration :: rat
  ln_quorum_size :: nat
  ln_current_lease :: "lease option"
  ln_term :: int
  ln_votes_received :: "string set"
  ln_is_leader :: bool
  ln_in_contention :: bool
  ln_running :: bool
  ln_voted_for :: "string option"
  ln_vote_timestamp :: time
  ln_delayed :: nat
  ln_timers :: nat
  ln_renewals :: nat
  ln_notified :: "string option list"

type_synonym lease_sends = "(string \<times> lease_message) list"

text \<open>\<open>quorum_size or (len(all_nodes) // 2 + 1)\<close>: zero counts as absent.\<close>

definition lease_node_init :: "string \<Rightarrow> string list \<Rightarrow> rat \<Rightarrow> nat option \<Rightarrow> lease_node" where
  "lease_node_init node_id peers lease_duration quorum_size =
     \<lparr>ln_node_id = node_id, ln_peers = set peers, ln_lease_duration = lease_duration,
      ln_quorum_size = (case quorum_size of
          Some q \<Rightarrow> if q = 0 then card (insert node_id (set peers)) div 2 + 1 else q
        | None \<Rightarrow> card (insert node_id (set peers)) div 2 + 1),
      ln_current_lease = None, ln_term = 0, ln_votes_received = {}, ln_is_leader = False, ln_in_contention = False,
      ln_running = False, ln_voted_for = None, ln_vote_timestamp = 0, ln_delayed = 0, ln_timers = 0,
      ln_renewals = 0, ln_notified = []\<rparr>"

definition has_valid_lease :: "lease_node \<Rightarrow> time \<Rightarrow> bool" where
  "has_valid_lease n now \<longleftrightarrow> (case ln_current_lease n of None \<Rightarrow> False | Some l \<Rightarrow> lease_is_valid l now)"

definition lease_get_leader :: "lease_node \<Rightarrow> time \<Rightarrow> string option" where
  "lease_get_leader n now =
     (case ln_current_lease n of None \<Rightarrow> None | Some l \<Rightarrow> if lease_is_valid l now then Some (lz_holder l) else None)"

definition lease_start_contention :: "lease_node \<Rightarrow> lease_node" where
  "lease_start_contention n =
     (if ln_in_contention n \<or> ln_is_leader n then n
      else n\<lparr>ln_in_contention := True, ln_delayed := ln_delayed n + 1\<rparr>)"

definition lease_start :: "lease_node \<Rightarrow> lease_node" where
  "lease_start n = (if ln_running n then n else lease_start_contention (n\<lparr>ln_running := True\<rparr>))"

definition lease_step_down :: "lease_node \<Rightarrow> lease_node" where
  "lease_step_down n = n\<lparr>ln_is_leader := False\<rparr>"

definition lease_relinquish :: "lease_node \<Rightarrow> lease_node" where
  "lease_relinquish n = (lease_step_down n)\<lparr>ln_current_lease := None\<rparr>"

definition lease_stop :: "lease_node \<Rightarrow> lease_node" where
  "lease_stop n = (let n1 = n\<lparr>ln_running := False\<rparr> in if ln_is_leader n1 then lease_relinquish n1 else n1)"

text \<open>A waiting thread calls \<open>_attempt_acquire_lease\<close>; a contention timer fires.\<close>

definition lease_attempt :: "lease_node \<Rightarrow> time \<Rightarrow> lease_node \<times> lease_sends" where
  "lease_attempt n0 now =
     (let n = n0\<lparr>ln_delayed := ln_delayed n0 - 1\<rparr>
      in if \<not> ln_running n then (n, [])
         else if has_valid_lease n now then (n\<lparr>ln_in_contention := False\<rparr>, [])
         else let n1 = n\<lparr>ln_term := ln_term n + 1, ln_votes_received := {ln_node_id n},
                        ln_voted_for := Some (ln_node_id n), ln_timers := ln_timers n + 1\<rparr>
              in (n1, map (\<lambda>peer. (peer, \<lparr>lm_type = ''request_lease'', lm_sender_id = ln_node_id n1, lm_term = ln_term n1\<rparr>))
                   (sorted_list_of_set (ln_peers n1))))"

definition lease_contention_timeout :: "lease_node \<Rightarrow> lease_node" where
  "lease_contention_timeout n0 =
     (let n = n0\<lparr>ln_timers := ln_timers n0 - 1\<rparr>
      in if ln_in_contention n \<and> \<not> ln_is_leader n then n\<lparr>ln_in_contention := False\<rparr> else n)"

definition lease_handle_request :: "lease_node \<Rightarrow> lease_message \<Rightarrow> time \<Rightarrow> lease_node \<times> lease_sends" where
  "lease_handle_request n0 m now =
     (let is_lease_valid = has_valid_lease n0 now;
          is_current_owner = (case ln_current_lease n0 of None \<Rightarrow> False | Some l \<Rightarrow> lz_holder l = lm_sender_id m);
          n = (if lm_term m > ln_term n0 then n0\<lparr>ln_term := lm_term m, ln_voted_for := None\<rparr> else n0);
          should_grant = (is_current_owner \<or>
            \<not> is_lease_valid \<and> (ln_voted_for n = None \<or> ln_voted_for n = Some (lm_sender_id m)))
      in if should_grant
         then (n\<lparr>ln_voted_for := Some (lm_sender_id m), ln_vote_timestamp := now\<rparr>,
               [(lm_sender_id m, \<lparr>lm_type = ''grant_lease'', lm_sender_id = ln_node_id n, lm_term = lm_term m\<rparr>)])
         else (n, []))"

definition lease_become_leader :: "lease_node \<Rightarrow> time \<Rightarrow> lease_node" where
  "lease_become_leader n now =
     (let n1 = n\<lparr>ln_is_leader := True, ln_in_contention := False,
          ln_current_lease := Some \<lparr>lz_holder = ln_node_id n, lz_issued_time = now, lz_duration = ln_lease_duration n, lz_term = ln_term n\<rparr>\<rparr>
      in n1\<lparr>ln_notified := ln_notified n1 @ [lease_get_leader n1 now], ln_renewals := ln_renewals n1 + 1\<rparr>)"

definition lease_handle_grant :: "lease_node \<Rightarrow> lease_message \<Rightarrow> time \<Rightarrow> lease_node" where
  "lease_handle_grant n m now =
     (if \<not> ln_in_contention n \<and> \<not> ln_is_leader n then n
      else if lm_term m \<noteq> ln_term n then n
      else let n1 = n\<lparr>ln_votes_received := insert (lm_sender_id m) (ln_votes_received n)\<rparr>
           in if card (ln_votes_received n1) \<ge> ln_quorum_size n1 \<and> \<not> ln_is_leader n1
              then lease_become_leader n1 now else n1)"

definition lease_handle_heartbeat :: "lease_node \<Rightarrow> lease_message \<Rightarrow> time \<Rightarrow> lease_node" where
  "lease_handle_heartbeat n m now =
     (if lm_term m \<ge> ln_term n
      then let n1 = n\<lparr>ln_current_lease := Some \<lparr>lz_holder = lm_sender_id m, lz_issued_time = now,
                 lz_duration = ln_lease_duration n, lz_term = lm_term m\<rparr>,
               ln_term := lm_term m, ln_in_contention := False\<rparr>
           in if ln_is_leader n1 \<and> lm_sender_id m \<noteq> ln_node_id n1 then lease_step_down n1 else n1
      else n)"

definition lease_handle_message :: "lease_node \<Rightarrow> lease_message \<Rightarrow> time \<Rightarrow> lease_node \<times> lease_sends" where
  "lease_handle_message n m now =
     (if lm_type m = ''request_lease'' then lease_handle_request n m now
      else if lm_type m = ''grant_lease'' then (lease_handle_grant n m now, [])
      else if lm_type m = ''heartbeat'' then (lease_handle_heartbeat n m now, [])
      else (n, []))"

text \<open>One round of a renewal loop, and one of \<open>_monitor_lease\<close>.\<close>

definition lease_renewal :: "lease_node \<Rightarrow> lease_node \<times> lease_sends" where
  "lease_renewal n =
     (if ln_running n \<and> ln_is_leader n
      then (n, concat (map (\<lambda>peer.
         [(peer, \<lparr>lm_type = ''request_lease'', lm_sender_id = ln_node_id n, lm_term = ln_term n\<rparr>),
          (peer, \<lparr>lm_type = ''heartbeat'', lm_sender_id = ln_node_id n, lm_term = ln_term n\<rparr>)])
         (sorted_list_of_set (ln_peers n))))
      else (n\<lparr>ln_renewals := ln_renewals n - 1\<rparr>, []))"

definition lease_monitor :: "lease_node \<Rightarrow> time \<Rightarrow> lease_node" where
  "lease_monitor n now =
     (if ln_running n \<and> ln_current_lease n \<noteq> None \<and> \<not> has_valid_lease n now
      then let n1 = (if ln_is_leader n then lease_step_down n else n)
           in if \<not> ln_in_contention n1 then lease_start_contention n1 else n1
      else n)"

definition lease_trigger_election :: "lease_node \<Rightarrow> lease_node" where
  "lease_trigger_election n = lease_start_contention n"

section \<open>Runs of a node\<close>

datatype lease_event = LStart | LStop | LAttempt time | LTimeout | LRenewal | LMonitor time | LTrigger
  | LMessage lease_message time

fun lease_do :: "lease_node \<Rightarrow> lease_event \<Rightarrow> lease_node \<times> lease_sends" where
  "lease_do n LStart = (lease_start n, [])"
| "lease_do n LStop = (lease_stop n, [])"
| "lease_do n (LAttempt now) = (if 0 < ln_delayed n then lease_attempt n now else (n, []))"
| "lease_do n LTimeout = (if 0 < ln_timers n then lease_contention_timeout n else n, [])"
| "lease_do n LRenewal = (if 0 < ln_renewals n then lease_renewal n else (n, []))"
| "lease_do n (LMonitor now) = (lease_monitor n now, [])"
| "lease_do n LTrigger = (lease_trigger_election n, [])"
| "lease_do n (LMessage m now) = (if ln_running n then lease_handle_message n m now else (n, []))"

fun lease_run :: "lease_node \<Rightarrow> lease_event list \<Rightarrow> lease_node \<times> lease_sends" where
  "lease_run n [] = (n, [])"
| "lease_run n (e # es) =
     (case lease_do n e of (n1, sends1) \<Rightarrow> (case lease_run n1 es of (n2, sends2) \<Rightarrow> (n2, sends1 @ sends2)))"

definition lease_msg :: "string \<Rightarrow> string \<Rightarrow> int \<Rightarrow> lease_message" where
  "lease_msg kind sender term_no = \<lparr>lm_type = kind, lm_sender_id = sender, lm_term = term_no\<rparr>"

section \<open>Properties\<close>

text \<open>Renewals: requests, grants and rounds of the renewal loop, in any number.\<close>

fun is_renewal :: "lease_event \<Rightarrow> bool" where
  "is_renewal LRenewal \<longleftrightarrow> True"
| "is_renewal (LMessage m now) \<longleftrightarrow> lm_type m \<in> {''request_lease'', ''grant_lease''}"
| "is_renewal _ \<longleftrightarrow> False"

lemma renewal_keeps_lease:
  assumes "ln_is_leader n" and "is_renewal e"
  shows "ln_is_leader (fst (lease_do n e)) \<and> ln_current_lease (fst (lease_do n e)) = ln_current_lease n \<and>
    ln_running (fst (lease_do n e)) = ln_running n"
proof (cases e)
  case (LMessage m now)
  then consider "lm_type m = ''request_lease''" | "lm_type m = ''grant_lease''" using assms(2) by auto
  then show ?thesis
  proof cases
    case 1
    then show ?thesis using assms(1) LMessage
      by (simp add: lease_handle_message_def lease_handle_request_def Let_def)
  next
    case 2
    then show ?thesis using assms(1) LMessage
      by (simp add: lease_handle_message_def lease_handle_grant_def Let_def)
  qed
qed (use assms in \<open>simp_all add: lease_renewal_def\<close>)

lemma renewals_keep_lease:
  "ln_is_leader n \<Longrightarrow> list_all is_renewal es \<Longrightarrow>
    ln_is_leader (fst (lease_run n es)) \<and> ln_current_lease (fst (lease_run n es)) = ln_current_lease n \<and>
    ln_running (fst (lease_run n es)) = ln_running n"
proof (induction es arbitrary: n)
  case (Cons e es)
  then have "is_renewal e" by simp
  from renewal_keeps_lease [OF Cons.prems(1) this] Cons.IH [of "fst (lease_do n e)"] Cons.prems(2)
  show ?case by (simp add: split_beta)
qed simp

text \<open>
  A leader cannot renew its own lease: whatever renewals it sends and whatever grants it
  receives for them, the lease that it took when it became the leader keeps its issue time, and
  its monitor makes it step down when the duration is over.
\<close>

theorem lease_leader_steps_down:
  assumes "ln_is_leader n" and "ln_running n" and "ln_current_lease n = Some l"
    and "list_all is_renewal es" and "lz_issued_time l + lz_duration l \<le> now"
  shows "\<not> ln_is_leader (fst (lease_run n (es @ [LMonitor now])))"
proof -
  have run: "fst (lease_run n (es @ es')) = fst (lease_run (fst (lease_run n es)) es')" for es'
    by (induction es arbitrary: n) (simp_all add: split_beta)
  show ?thesis using renewals_keep_lease [OF assms(1,4)] assms(2,3,5)
    by (simp add: run lease_monitor_def has_valid_lease_def lease_is_valid_def lease_step_down_def lease_start_contention_def Let_def)
qed

definition example_leader :: lease_node where
  "example_leader = fst (lease_run (lease_node_init ''x'' [''y'', ''z''] 5 None)
     [LStart, LAttempt 0, LMessage (lease_msg ''grant_lease'' ''y'' 1) 0])"

theorem lease_leader_steps_down_witness:
  "ln_is_leader example_leader \<and>
   \<not> ln_is_leader (fst (lease_run example_leader
     ([LRenewal, LMessage (lease_msg ''grant_lease'' ''y'' 1) 4, LMessage (lease_msg ''grant_lease'' ''z'' 1) 4] @ [LMonitor 5])))"
proof -
  have l: "ln_is_leader example_leader" and r: "ln_running example_leader"
    and c: "ln_current_lease example_leader = Some \<lparr>lz_holder = ''x'', lz_issued_time = 0, lz_duration = 5, lz_term = 1\<rparr>"
    by code_simp+
  show ?thesis by (rule conjI [OF l], rule lease_leader_steps_down [OF l r c]) (simp_all add: lease_msg_def)
qed

text \<open>
  Two leaders in one term: a node grants a request of the holder of the last lease that it
  knows without asking whether the lease is over or whom it has voted for. After x's lease has
  expired, x and z contend in term 2; y votes for z and then also for x, and both become leaders
  with valid leases of the same term.
\<close>

theorem lease_two_leaders_in_a_term:
  "case lease_run (lease_node_init ''y'' [''x'', ''z''] 5 None)
     [LStart, LMessage (lease_msg ''request_lease'' ''x'' 1) 0, LMessage (lease_msg ''heartbeat'' ''x'' 1) 1,
      LMessage (lease_msg ''request_lease'' ''z'' 2) 10, LMessage (lease_msg ''request_lease'' ''x'' 2) 10] of (y, grants) \<Rightarrow>
   case lease_run example_leader [LRenewal, LMonitor 10, LAttempt 10, LMessage (lease_msg ''grant_lease'' ''y'' 2) 10] of (x, xsends) \<Rightarrow>
   case lease_run (lease_node_init ''z'' [''x'', ''y''] 5 None)
     [LStart, LMessage (lease_msg ''heartbeat'' ''x'' 1) 0, LMonitor 10, LAttempt 10, LMessage (lease_msg ''grant_lease'' ''y'' 2) 10] of (z, zsends) \<Rightarrow>
     (''y'', lease_msg ''request_lease'' ''x'' 2) \<in> set xsends \<and> (''y'', lease_msg ''request_lease'' ''z'' 2) \<in> set zsends \<and>
     grants = [(''x'', lease_msg ''grant_lease'' ''y'' 1), (''z'', lease_msg ''grant_lease'' ''y'' 2), (''x'', lease_msg ''grant_lease'' ''y'' 2)] \<and>
     ln_is_leader x \<and> ln_is_leader z \<and> ln_term x = 2 \<and> ln_term z = 2 \<and>
     lease_get_leader x 10 = Some ''x'' \<and> lease_get_leader z 10 = Some ''z''"
  by code_simp

text \<open>
  A node that never had a lease contends once: when the contention fails, its monitor, which looks
  at expired leases only, does not start another.
\<close>

lemma lease_no_retry:
  "ln_current_lease n = None \<Longrightarrow> lease_monitor n now = n"
  by (simp add: lease_monitor_def)

end
