(* ===== verification/Election_Manager.thy ===== *)
theory Election_Manager
  imports Ring_Election Bully_Election Lease_Election
begin

text \<open>
  \<open>leader-election/src/fencing.py\<close> and \<open>leader-election/src/election_manager.py\<close>: fencing tokens, and
  the manager that runs one of the three election algorithms and issues a token each time that
  the algorithm tells it that this node leads. The contract that the manager needs of an algorithm,
  that its callbacks are called in order and never revoked, is a locale with an interpretation for
  each algorithm.
\<close>

section \<open>Fencing tokens\<close>

record fencing_token =
  ft_node_id :: string
  ft_epoch :: int
  ft_expiration :: "time option"

definition token_is_valid :: "fencing_token \<Rightarrow> time \<Rightarrow> bool" where
  "token_is_valid t now = (case ft_expiration t of None \<Rightarrow> True | Some e \<Rightarrow> now < e)"

definition token_lt :: "fencing_token \<Rightarrow> fencing_token \<Rightarrow> bool" where
  "token_lt t other \<longleftrightarrow> ft_epoch t < ft_epoch other"

definition token_eq :: "fencing_token \<Rightarrow> fencing_token \<Rightarrow> bool" where
  "token_eq t other \<longleftrightarrow> ft_epoch t = ft_epoch other \<and> ft_node_id t = ft_node_id other"

record fencing_manager =
  fm_current_epoch :: int
  fm_current_token :: "fencing_token option"

definition fm_init :: fencing_manager where
  "fm_init = \<lparr>fm_current_epoch = 0, fm_current_token = None\<rparr>"

text \<open>A duration of zero counts as none.\<close>

definition fm_issue_token :: "fencing_manager \<Rightarrow> string \<Rightarrow> rat option \<Rightarrow> time \<Rightarrow> fencing_manager \<times> fencing_token" where
  "fm_issue_token f node_id duration now =
     (let f1 = f\<lparr>fm_current_epoch := fm_current_epoch f + 1\<rparr>;
          expiration = (case duration of None \<Rightarrow> None | Some d \<Rightarrow> if d = 0 then None else Some (now + d));
          token = \<lparr>ft_node_id = node_id, ft_epoch = fm_current_epoch f1, ft_expiration = expiration\<rparr>
      in (f1\<lparr>fm_current_token := Some token\<rparr>, token))"

definition fm_validate_token :: "fencing_manager \<Rightarrow> fencing_token \<Rightarrow> time \<Rightarrow> bool" where
  "fm_validate_token f token now =
     (if \<not> token_is_valid token now then False
      else case fm_current_token f of None \<Rightarrow> False | Some current \<Rightarrow> ft_epoch token = ft_epoch current)"

section \<open>The contract of an election algorithm\<close>

text \<open>
  A step keeps the node's name and only appends to the calls of its callbacks. Then the calls
  of a run of steps are those of its first part followed by those of its second part.
\<close>

locale election_algorithm =
  fixes step :: "'n \<Rightarrow> 'e \<Rightarrow> 'n \<times> 'm"
    and notified :: "'n \<Rightarrow> string option list"
    and name :: "'n \<Rightarrow> string"
  assumes step_appends: "take (length (notified n)) (notified (fst (step n e))) = notified n"
    and step_name: "name (fst (step n e)) = name n"
begin

definition "new_calls n e = drop (length (notified n)) (notified (fst (step n e)))"

definition "steps n es = foldl (\<lambda>n e. fst (step n e)) n es"

lemma notified_step: "notified (fst (step n e)) = notified n @ new_calls n e"
  using append_take_drop_id [of "length (notified n)" "notified (fst (step n e))"]
  by (simp add: step_appends new_calls_def)

lemma name_steps: "name (steps n es) = name n"
  by (induction es arbitrary: n) (simp_all add: steps_def step_name)

lemma steps_append: "\<exists>calls. notified (steps n (es @ es')) = notified (steps n es) @ calls"
proof (induction es' rule: rev_induct)
  case (snoc e es')
  then show ?case by (force simp: steps_def notified_step)
qed simp

end

text \<open>
  The callbacks agree with the state: a node that leads was last told that it does. The promise
  rests on an invariant of the algorithm.
\<close>

locale election_told = election_algorithm step notified name
  for step :: "'n \<Rightarrow> 'e \<Rightarrow> 'n \<times> 'm" and notified :: "'n \<Rightarrow> string option list" and name :: "'n \<Rightarrow> string" +
  fixes leads :: "'n \<Rightarrow> bool"
    and sound :: "'n \<Rightarrow> bool"
  assumes sound_step: "sound n \<Longrightarrow> sound (fst (step n e))"
    and leads_told: "sound n \<Longrightarrow> leads n \<Longrightarrow> notified n \<noteq> [] \<and> List.last (notified n) = Some (name n)"
begin

lemma sound_steps: "sound n \<Longrightarrow> sound (steps n es)"
  by (induction es arbitrary: n) (simp_all add: steps_def sound_step)

lemma leads_again:
  assumes "sound n" and "leads (steps n (es @ es'))" and "notified (steps n (es @ es')) = notified (steps n es) @ calls"
    and "l \<in> set calls"
  shows "Some (name n) \<in> set calls"
proof -
  have "List.last (notified (steps n (es @ es'))) = Some (name n)"
    using leads_told [OF sound_steps [OF assms(1)] assms(2)] by (simp add: name_steps)
  moreover have "calls \<noteq> []" using assms(4) by auto
  ultimately show ?thesis using assms(3) by (metis last_appendR last_in_set)
qed

end

section \<open>The three algorithms\<close>

text \<open>What can happen to a single node of a ring.\<close>

datatype ring_input = RgStart | RgStop | RgMonitor | RgTrigger | RgMessage ring_message

fun ring_take :: "ring_node \<Rightarrow> ring_input \<Rightarrow> ring_node \<times> ring_sends" where
  "ring_take n RgStart = ring_start n"
| "ring_take n RgStop = (ring_stop n, [])"
| "ring_take n RgMonitor = ring_monitor n"
| "ring_take n RgTrigger = ring_trigger_election n"
| "ring_take n (RgMessage m) = (if rg_running n then ring_handle_message n m else (n, []))"

named_theorems calls_simps \<open>the steps of the algorithms as updates of the callbacks' calls\<close>

lemma ring_follow_calls:
  "take (length (rg_notified n)) (rg_notified (ring_follow n w)) = rg_notified n \<and> rg_node_id (ring_follow n w) = rg_node_id n"
  by (simp add: ring_follow_def ring_become_leader_def ring_become_follower_def ring_notify_def)

lemma ring_follow_calls' [calls_simps]:
  "rg_notified n' = rg_notified n \<Longrightarrow> take (length (rg_notified n)) (rg_notified (ring_follow n' w)) = rg_notified n"
  "rg_node_id (ring_follow n' w) = rg_node_id n'"
  using ring_follow_calls [of n' w] by simp_all

lemma ring_send_calls [calls_simps]:
  "rg_notified n' = rg_notified n \<Longrightarrow> take (length (rg_notified n)) (rg_notified (fst (ring_send_election n' c))) = rg_notified n"
  "rg_node_id (fst (ring_send_election n' c)) = rg_node_id n'"
  by (simp_all add: ring_send_election_def ring_election_complete_def calls_simps)

interpretation ring_calls: election_algorithm ring_take rg_notified rg_node_id
proof unfold_locales
  fix n e
  have "take (length (rg_notified n)) (rg_notified (fst (ring_take n e))) = rg_notified n \<and>
    rg_node_id (fst (ring_take n e)) = rg_node_id n"
    by (cases e) (simp_all add: ring_start_def ring_stop_def ring_monitor_def ring_trigger_election_def Let_def
      ring_start_election_def ring_handle_message_def ring_handle_election_def ring_handle_elected_def
      ring_election_complete_def calls_simps split: list.split)
  then show "take (length (rg_notified n)) (rg_notified (fst (ring_take n e))) = rg_notified n"
    and "rg_node_id (fst (ring_take n e)) = rg_node_id n" by simp_all
qed

definition ring_told :: "ring_node \<Rightarrow> bool" where
  "ring_told n \<longleftrightarrow> (rg_is_leader n \<longrightarrow> rg_notified n \<noteq> [] \<and> List.last (rg_notified n) = Some (rg_node_id n))"

lemma ring_told_follow: "ring_told n \<Longrightarrow> rg_leader n = Some w \<Longrightarrow> ring_told (ring_follow n w)"
  by (simp add: ring_told_def ring_follow_def ring_become_leader_def ring_become_follower_def ring_notify_def)

lemma ring_told_update:
  "ring_told n \<Longrightarrow> ring_told (n\<lparr>rg_in_election := x, rg_leader := l\<rparr>)"
  "ring_told n \<Longrightarrow> ring_told (n\<lparr>rg_leader := l, rg_in_election := x\<rparr>)"
  "ring_told n \<Longrightarrow> ring_told (n\<lparr>rg_in_election := x\<rparr>)"
  "ring_told n \<Longrightarrow> ring_told (n\<lparr>rg_running := y\<rparr>)"
  "ring_told (n\<lparr>rg_running := y, rg_is_leader := False\<rparr>)"
  by (simp_all add: ring_told_def)

lemma ring_told_send: "ring_told n \<Longrightarrow> ring_told (fst (ring_send_election n c))"
  by (simp add: ring_send_election_def ring_election_complete_def ring_told_follow ring_told_update)

interpretation ring_callbacks: election_told ring_take rg_notified rg_node_id rg_is_leader ring_told
proof unfold_locales
  fix n e
  assume n: "ring_told n"
  have start: "ring_told n \<Longrightarrow> ring_told (fst (ring_start_election n))" for n
    by (simp add: ring_start_election_def ring_told_send ring_told_update)
  show "ring_told (fst (ring_take n e))"
    using n by (cases e) (auto simp: ring_start_def ring_stop_def ring_monitor_def ring_trigger_election_def Let_def start
      ring_handle_message_def ring_handle_election_def ring_handle_elected_def ring_election_complete_def
      ring_told_follow ring_told_update ring_told_send split: list.split)
  show "rg_is_leader n \<Longrightarrow> rg_notified n \<noteq> [] \<and> List.last (rg_notified n) = Some (rg_node_id n)"
    using n by (simp add: ring_told_def)
qed

lemma bully_leader_calls [calls_simps]:
  "bn_notified n' = bn_notified n \<Longrightarrow> take (length (bn_notified n)) (bn_notified (fst (bully_become_leader n'))) = bn_notified n"
  "bn_node_id (fst (bully_become_leader n')) = bn_node_id n'"
  by (simp_all add: bully_become_leader_def bully_notify_def Let_def)

lemma bully_election_calls [calls_simps]:
  "bn_notified n' = bn_notified n \<Longrightarrow> take (length (bn_notified n)) (bn_notified (fst (bully_start_election n'))) = bn_notified n"
  "bn_node_id (fst (bully_start_election n')) = bn_node_id n'"
  by (simp_all add: bully_start_election_def Let_def calls_simps)

lemma bully_coordinator_calls [calls_simps]:
  "take (length (bn_notified n)) (bn_notified (fst (bully_handle_coordinator n m now))) = bn_notified n"
  "bn_node_id (fst (bully_handle_coordinator n m now)) = bn_node_id n"
  by (simp_all add: bully_handle_coordinator_def bully_step_down_def bully_notify_def Let_def calls_simps)

interpretation bully_calls: election_algorithm bully_do bn_notified bn_node_id
proof unfold_locales
  fix n e
  have msg: "take (length (bn_notified n)) (bn_notified (fst (bully_handle_message n m now))) = bn_notified n \<and>
    bn_node_id (fst (bully_handle_message n m now)) = bn_node_id n" for m now
    by (simp add: bully_handle_message_def bully_handle_election_def bully_handle_ok_def bully_handle_heartbeat_def
      Let_def calls_simps split_beta split: bully_type.split)
  have "take (length (bn_notified n)) (bn_notified (fst (bully_do n e))) = bn_notified n \<and>
    bn_node_id (fst (bully_do n e)) = bn_node_id n"
    by (cases e) (simp_all add: bully_start_def bully_stop_def bully_step_down_def bully_timeout_check_def bully_heartbeat_def
      bully_monitor_def bully_trigger_election_def Let_def calls_simps msg)
  then show "take (length (bn_notified n)) (bn_notified (fst (bully_do n e))) = bn_notified n"
    and "bn_node_id (fst (bully_do n e)) = bn_node_id n" by simp_all
qed

text \<open>A Bully node tells each change of \<open>current_leader\<close>, and leads only while it is that leader.\<close>

definition bully_told :: "bully_node \<Rightarrow> bool" where
  "bully_told n \<longleftrightarrow> bn_leader n = (if bn_notified n = [] then None else List.last (bn_notified n)) \<and>
     (bn_is_leader n \<longrightarrow> bn_leader n = Some (bn_node_id n))"

lemma bully_told_leader: "bully_told n \<Longrightarrow> bully_told (fst (bully_become_leader n))"
  by (auto simp: bully_told_def bully_become_leader_def bully_notify_def Let_def split: if_splits)

lemma bully_told_election: "bully_told n \<Longrightarrow> bully_told (fst (bully_start_election n))"
proof -
  assume n: "bully_told n"
  then have "bully_told (n\<lparr>bn_in_election := True, bn_term := bn_term n + 1\<rparr>)"
    and "bully_told (n\<lparr>bn_in_election := True, bn_term := bn_term n + 1, bn_timers := t\<rparr>)" for t
    by (auto simp: bully_told_def split: if_splits)
  with n bully_told_leader show ?thesis by (simp add: bully_start_election_def Let_def)
qed

lemma bully_told_coordinator: "bully_told n \<Longrightarrow> bully_told (fst (bully_handle_coordinator n m now))"
  using bully_told_election [of n]
  by (auto simp: bully_handle_coordinator_def Let_def bully_told_def bully_step_down_def bully_notify_def split: if_splits)

interpretation bully_callbacks: election_told bully_do bn_notified bn_node_id bn_is_leader bully_told
proof unfold_locales
  fix n e
  assume n: "bully_told n"
  have upd: "bully_told (n\<lparr>bn_running := r\<rparr>)" "bully_told (n\<lparr>bn_timers := t\<rparr>)" "bully_told (n\<lparr>bn_heartbeat_alive := h\<rparr>)"
      "bully_told (n\<lparr>bn_running := r, bn_is_leader := False\<rparr>)" "bully_told (n\<lparr>bn_last_heartbeat := l\<rparr>)"
      "bully_told (n\<lparr>bn_last_heartbeat := l, bn_term := b\<rparr>)" for r t h l b
    using n by (auto simp: bully_told_def split: if_splits)
  have msg: "bully_told (fst (bully_handle_message n m now))" for m now
    using n bully_told_election [OF n] bully_told_coordinator [OF n] upd
    by (simp add: bully_handle_message_def bully_handle_election_def bully_handle_ok_def bully_handle_heartbeat_def Let_def
      split_beta split: bully_type.split)
  show "bully_told (fst (bully_do n e))"
    using n upd msg bully_told_election [OF n] bully_told_election [OF upd(1)] bully_told_leader [OF upd(2)]
    by (cases e) (simp_all add: bully_start_def bully_stop_def bully_step_down_def bully_timeout_check_def bully_heartbeat_def
      bully_monitor_def bully_trigger_election_def Let_def)
  show "bn_is_leader n \<Longrightarrow> bn_notified n \<noteq> [] \<and> List.last (bn_notified n) = Some (bn_node_id n)"
    using n by (auto simp: bully_told_def split: if_splits)
qed

lemma lease_contention_calls [calls_simps]:
  "ln_notified (lease_start_contention n) = ln_notified n" "ln_node_id (lease_start_contention n) = ln_node_id n"
  by (simp_all add: lease_start_contention_def)

interpretation lease_calls: election_algorithm lease_do ln_notified ln_node_id
proof unfold_locales
  fix n e
  have msg: "take (length (ln_notified n)) (ln_notified (fst (lease_handle_message n m now))) = ln_notified n \<and>
    ln_node_id (fst (lease_handle_message n m now)) = ln_node_id n" for m now
    by (simp add: lease_handle_message_def lease_handle_request_def lease_handle_grant_def lease_handle_heartbeat_def
      lease_become_leader_def lease_step_down_def Let_def)
  have "take (length (ln_notified n)) (ln_notified (fst (lease_do n e))) = ln_notified n \<and>
    ln_node_id (fst (lease_do n e)) = ln_node_id n"
    by (cases e) (simp_all add: lease_start_def lease_stop_def lease_relinquish_def lease_step_down_def lease_attempt_def
      lease_contention_timeout_def lease_renewal_def lease_monitor_def lease_trigger_election_def Let_def calls_simps msg)
  then show "take (length (ln_notified n)) (ln_notified (fst (lease_do n e))) = ln_notified n"
    and "ln_node_id (fst (lease_do n e)) = ln_node_id n" by simp_all
qed

text \<open>A new holder reads its own name from its lease, as long as leases last.\<close>

definition lease_told :: "lease_node \<Rightarrow> bool" where
  "lease_told n \<longleftrightarrow> 0 < ln_lease_duration n \<and>
     (ln_is_leader n \<longrightarrow> ln_notified n \<noteq> [] \<and> List.last (ln_notified n) = Some (ln_node_id n))"

interpretation lease_callbacks: election_told lease_do ln_notified ln_node_id ln_is_leader lease_told
proof unfold_locales
  fix n e
  assume n: "lease_told n"
  have contend: "lease_told n \<Longrightarrow> lease_told (lease_start_contention n)" for n
    by (simp add: lease_told_def lease_start_contention_def)
  have "lease_told (fst (lease_handle_request n m now))" "lease_told (lease_handle_grant n m now)"
      "lease_told (lease_handle_heartbeat n m now)" for m now
    using n by (auto simp: lease_told_def lease_handle_request_def lease_handle_grant_def lease_handle_heartbeat_def
      lease_become_leader_def lease_get_leader_def lease_is_valid_def lease_step_down_def Let_def)
  then have msg: "lease_told (fst (lease_handle_message n m now))" for m now
    using n by (simp add: lease_handle_message_def)
  show "lease_told (fst (lease_do n e))"
    using n msg contend [of n] contend [of "n\<lparr>ln_running := True\<rparr>"] contend [of "n\<lparr>ln_is_leader := False\<rparr>"]
    by (cases e) (auto simp: lease_start_def lease_stop_def lease_relinquish_def lease_step_down_def lease_attempt_def
      lease_contention_timeout_def lease_renewal_def lease_monitor_def lease_trigger_election_def Let_def lease_told_def)
  show "ln_is_leader n \<Longrightarrow> ln_notified n \<noteq> [] \<and> List.last (ln_notified n) = Some (ln_node_id n)"
    using n by (simp add: lease_told_def)
qed

section \<open>The manager\<close>

datatype algorithm = BULLY | RING | LEASE

datatype election_impl = Bully_Impl bully_node | Ring_Impl ring_node | Lease_Impl lease_node

datatype election_event = Bully_Event bully_event | Ring_Event ring_input | Lease_Event lease_event

datatype election_sends = Bully_Sends bully_sends | Ring_Sends ring_sends | Lease_Sends lease_sends | No_Sends

text \<open>The keyword arguments: the timeout of Bully, the duration and the quorum of the lease.\<close>

fun impl_init :: "algorithm \<Rightarrow> string \<Rightarrow> string list \<Rightarrow> rat \<Rightarrow> nat option \<Rightarrow> time \<Rightarrow> election_impl" where
  "impl_init BULLY node_id peers duration quorum now = Bully_Impl (bully_init node_id peers duration now)"
| "impl_init RING node_id peers duration quorum now = Ring_Impl (ring_node_init node_id peers)"
| "impl_init LEASE node_id peers duration quorum now = Lease_Impl (lease_node_init node_id peers duration quorum)"

text \<open>An event of another algorithm does not concern the implementation.\<close>

fun impl_step :: "election_impl \<Rightarrow> election_event \<Rightarrow> election_impl \<times> election_sends" where
  "impl_step (Bully_Impl n) (Bully_Event e) = (case bully_do n e of (n', s) \<Rightarrow> (Bully_Impl n', Bully_Sends s))"
| "impl_step (Ring_Impl n) (Ring_Event e) = (case ring_take n e of (n', s) \<Rightarrow> (Ring_Impl n', Ring_Sends s))"
| "impl_step (Lease_Impl n) (Lease_Event e) = (case lease_do n e of (n', s) \<Rightarrow> (Lease_Impl n', Lease_Sends s))"
| "impl_step i _ = (i, No_Sends)"

fun impl_notified :: "election_impl \<Rightarrow> string option list" where
  "impl_notified (Bully_Impl n) = bn_notified n"
| "impl_notified (Ring_Impl n) = rg_notified n"
| "impl_notified (Lease_Impl n) = ln_notified n"

fun impl_node_id :: "election_impl \<Rightarrow> string" where
  "impl_node_id (Bully_Impl n) = bn_node_id n"
| "impl_node_id (Ring_Impl n) = rg_node_id n"
| "impl_node_id (Lease_Impl n) = ln_node_id n"

fun impl_is_leader :: "election_impl \<Rightarrow> bool" where
  "impl_is_leader (Bully_Impl n) = bn_is_leader n"
| "impl_is_leader (Ring_Impl n) = rg_is_leader n"
| "impl_is_leader (Lease_Impl n) = ln_is_leader n"

fun impl_get_leader :: "election_impl \<Rightarrow> time \<Rightarrow> string option" where
  "impl_get_leader (Bully_Impl n) now = bn_leader n"
| "impl_get_leader (Ring_Impl n) now = rg_leader n"
| "impl_get_leader (Lease_Impl n) now = lease_get_leader n now"

fun start_event :: "election_impl \<Rightarrow> election_event" where
  "start_event (Bully_Impl n) = Bully_Event BStart"
| "start_event (Ring_Impl n) = Ring_Event RgStart"
| "start_event (Lease_Impl n) = Lease_Event LStart"

fun stop_event :: "election_impl \<Rightarrow> election_event" where
  "stop_event (Bully_Impl n) = Bully_Event BStop"
| "stop_event (Ring_Impl n) = Ring_Event RgStop"
| "stop_event (Lease_Impl n) = Lease_Event LStop"

fun trigger_event :: "election_impl \<Rightarrow> election_event" where
  "trigger_event (Bully_Impl n) = Bully_Event BTrigger"
| "trigger_event (Ring_Impl n) = Ring_Event RgTrigger"
| "trigger_event (Lease_Impl n) = Lease_Event LTrigger"

interpretation impl_calls: election_algorithm impl_step impl_notified impl_node_id
proof unfold_locales
  fix n e
  have "take (length (impl_notified n)) (impl_notified (fst (impl_step n e))) = impl_notified n \<and>
    impl_node_id (fst (impl_step n e)) = impl_node_id n"
    by (cases "(n, e)" rule: impl_step.cases)
      (simp_all add: split_beta bully_calls.step_appends bully_calls.step_name ring_calls.step_appends
        ring_calls.step_name lease_calls.step_appends lease_calls.step_name)
  then show "take (length (impl_notified n)) (impl_notified (fst (impl_step n e))) = impl_notified n"
    and "impl_node_id (fst (impl_step n e)) = impl_node_id n" by simp_all
qed

fun impl_told :: "election_impl \<Rightarrow> bool" where
  "impl_told (Bully_Impl n) = bully_told n"
| "impl_told (Ring_Impl n) = ring_told n"
| "impl_told (Lease_Impl n) = lease_told n"

interpretation impl_callbacks: election_told impl_step impl_notified impl_node_id impl_is_leader impl_told
proof unfold_locales
  fix n e
  assume n: "impl_told n"
  then show "impl_told (fst (impl_step n e))"
    by (cases "(n, e)" rule: impl_step.cases)
      (simp_all add: split_beta bully_callbacks.sound_step ring_callbacks.sound_step lease_callbacks.sound_step)
  show "impl_is_leader n \<Longrightarrow> impl_notified n \<noteq> [] \<and> List.last (impl_notified n) = Some (impl_node_id n)"
    using n bully_callbacks.leads_told ring_callbacks.leads_told lease_callbacks.leads_told by (cases n) auto
qed

lemma impl_init_told: "(algo = LEASE \<longrightarrow> 0 < duration) \<Longrightarrow> impl_told (impl_init algo node_id peers duration quorum now)"
  by (cases algo) (simp_all add: bully_told_def ring_told_def lease_told_def bully_init_def ring_node_init_def
    lease_node_init_def Let_def)

text \<open>The calls of the user's callbacks are recorded in \<open>em_told\<close>.\<close>

record election_manager =
  em_node_id :: string
  em_peers :: "string list"
  em_algorithm :: algorithm
  em_fencing :: fencing_manager
  em_impl :: election_impl
  em_told :: "string option list"

definition em_init :: "algorithm \<Rightarrow> string \<Rightarrow> string list \<Rightarrow> rat \<Rightarrow> nat option \<Rightarrow> time \<Rightarrow> election_manager" where
  "em_init algo node_id peers duration quorum now =
     \<lparr>em_node_id = node_id, em_peers = peers, em_algorithm = algo, em_fencing = fm_init,
      em_impl = impl_init algo node_id peers duration quorum now, em_told = []\<rparr>"

text \<open>The token has no duration, so \<open>issue_token\<close> does not read the clock.\<close>

definition em_on_leader_change :: "election_manager \<Rightarrow> string option \<Rightarrow> election_manager" where
  "em_on_leader_change m new_leader =
     (let m1 = (if new_leader = Some (em_node_id m)
                then m\<lparr>em_fencing := fst (fm_issue_token (em_fencing m) (em_node_id m) None 0)\<rparr> else m)
      in m1\<lparr>em_told := em_told m1 @ [new_leader]\<rparr>)"

definition em_step :: "election_manager \<Rightarrow> election_event \<Rightarrow> election_manager \<times> election_sends" where
  "em_step m e =
     (case impl_step (em_impl m) e of (impl, sends) \<Rightarrow>
        (foldl em_on_leader_change (m\<lparr>em_impl := impl\<rparr>)
           (drop (length (impl_notified (em_impl m))) (impl_notified impl)), sends))"

definition em_start :: "election_manager \<Rightarrow> election_manager \<times> election_sends" where
  "em_start m = em_step m (start_event (em_impl m))"

definition em_stop :: "election_manager \<Rightarrow> election_manager \<times> election_sends" where
  "em_stop m = em_step m (stop_event (em_impl m))"

definition em_trigger_election :: "election_manager \<Rightarrow> election_manager \<times> election_sends" where
  "em_trigger_election m = em_step m (trigger_event (em_impl m))"

definition em_is_leader :: "election_manager \<Rightarrow> bool" where
  "em_is_leader m = impl_is_leader (em_impl m)"

definition em_get_leader :: "election_manager \<Rightarrow> time \<Rightarrow> string option" where
  "em_get_leader m now = impl_get_leader (em_impl m) now"

definition em_get_fencing_token :: "election_manager \<Rightarrow> fencing_token option" where
  "em_get_fencing_token m = (if \<not> em_is_leader m then None else fm_current_token (em_fencing m))"

record election_metrics =
  me_node_id :: string
  me_is_leader :: bool
  me_current_leader :: "string option"
  me_algorithm :: algorithm
  me_peers :: nat
  me_epoch :: int

definition em_get_metrics :: "election_manager \<Rightarrow> time \<Rightarrow> election_metrics" where
  "em_get_metrics m now =
     \<lparr>me_node_id = em_node_id m, me_is_leader = em_is_leader m, me_current_leader = em_get_leader m now,
      me_algorithm = em_algorithm m, me_peers = length (em_peers m), me_epoch = fm_current_epoch (em_fencing m)\<rparr>"

definition em_run :: "election_manager \<Rightarrow> election_event list \<Rightarrow> election_manager" where
  "em_run m es = foldl (\<lambda>m e. fst (em_step m e)) m es"

section \<open>Properties\<close>

text \<open>A manager keeps pace with its algorithm: \<open>c\<close> counts the calls that name its node.\<close>

definition em_counts :: "election_manager \<Rightarrow> bool" where
  "em_counts m \<longleftrightarrow>
     (let c = length (filter (\<lambda>l. l = Some (em_node_id m)) (em_told m))
      in fm_current_epoch (em_fencing m) = int c \<and>
         fm_current_token (em_fencing m) =
           (if c = 0 then None else Some \<lparr>ft_node_id = em_node_id m, ft_epoch = int c, ft_expiration = None\<rparr>))"

lemma leader_change_counts:
  "em_counts m \<Longrightarrow> em_counts (em_on_leader_change m l) \<and> em_told (em_on_leader_change m l) = em_told m @ [l] \<and>
    em_impl (em_on_leader_change m l) = em_impl m \<and> em_node_id (em_on_leader_change m l) = em_node_id m"
  by (auto simp: em_counts_def em_on_leader_change_def fm_issue_token_def Let_def)

lemma leader_changes_count:
  "em_counts m \<Longrightarrow> em_counts (foldl em_on_leader_change m ls) \<and>
    em_told (foldl em_on_leader_change m ls) = em_told m @ ls \<and>
    em_impl (foldl em_on_leader_change m ls) = em_impl m \<and> em_node_id (foldl em_on_leader_change m ls) = em_node_id m"
  by (induction ls arbitrary: m) (simp_all add: leader_change_counts)

lemma em_step_counts:
  assumes "em_counts m" and "em_told m = impl_notified (em_impl m)"
  shows "em_counts (fst (em_step m e)) \<and> em_told (fst (em_step m e)) = impl_notified (em_impl (fst (em_step m e))) \<and>
    em_node_id (fst (em_step m e)) = em_node_id m \<and> em_impl (fst (em_step m e)) = fst (impl_step (em_impl m) e)"
proof -
  have "em_counts (m\<lparr>em_impl := i\<rparr>)" for i using assms(1) by (auto simp: em_counts_def Let_def)
  from leader_changes_count [OF this] show ?thesis
    using assms(2) impl_calls.notified_step [of "em_impl m" e]
    by (simp add: em_step_def split_beta impl_calls.new_calls_def)
qed

lemma em_run_counts:
  assumes "em_counts m" and "em_told m = impl_notified (em_impl m)"
  shows "em_counts (em_run m es) \<and> em_told (em_run m es) = impl_notified (em_impl (em_run m es)) \<and>
    em_node_id (em_run m es) = em_node_id m \<and> em_impl (em_run m es) = impl_calls.steps (em_impl m) es"
  using assms
proof (induction es arbitrary: m)
  case (Cons e es)
  from em_step_counts [OF Cons.prems, of e] Cons.IH [of "fst (em_step m e)"]
  show ?case by (simp add: em_run_def impl_calls.steps_def)
qed (simp add: em_run_def impl_calls.steps_def)

lemma em_init_counts:
  "em_counts (em_init algo node_id peers duration quorum now) \<and>
   em_told (em_init algo node_id peers duration quorum now) =
     impl_notified (em_impl (em_init algo node_id peers duration quorum now))"
  by (cases algo) (simp_all add: em_counts_def em_init_def fm_init_def bully_init_def ring_node_init_def lease_node_init_def Let_def)

text \<open>
  C26. A manager's epoch is the number of times that its algorithm has told it that its node
  leads, under each of the three algorithms and whatever happens to it, and it validates exactly
  the unexpired tokens of that epoch. A node that leads holds the token of the current epoch. Once
  the callbacks have named another leader, or none, and the node leads again, the epoch has grown
  and the token of before is refused, then and at any later time. The leases of the lease-based
  algorithm last a positive time.
\<close>

theorem fencing_latest_only:
  fixes algo :: algorithm and es es' :: "election_event list"
  assumes "m = em_run (em_init algo node_id peers duration quorum t0) es" and "m' = em_run m es'" and "algo = LEASE \<longrightarrow> 0 < duration"
  shows "fm_current_epoch (em_fencing m) = int (length (filter (\<lambda>l. l = Some node_id) (impl_notified (em_impl m)))) \<and>
    (\<forall>t now. fm_validate_token (em_fencing m) t now \<longleftrightarrow>
       token_is_valid t now \<and> ft_epoch t = fm_current_epoch (em_fencing m) \<and> 0 < fm_current_epoch (em_fencing m)) \<and>
    (em_is_leader m \<longrightarrow> 0 < fm_current_epoch (em_fencing m) \<and> em_get_fencing_token m =
       Some \<lparr>ft_node_id = node_id, ft_epoch = fm_current_epoch (em_fencing m), ft_expiration = None\<rparr>) \<and>
    (\<exists>calls. impl_notified (em_impl m') = impl_notified (em_impl m) @ calls \<and>
       (em_is_leader m' \<and> (\<exists>l\<in>set calls. l \<noteq> Some node_id) \<longrightarrow>
          fm_current_epoch (em_fencing m) < fm_current_epoch (em_fencing m') \<and>
          (\<forall>t now es''. fm_current_token (em_fencing m) = Some t \<longrightarrow>
             \<not> fm_validate_token (em_fencing (em_run m' es'')) t now)))"
proof -
  let ?m0 = "em_init algo node_id peers duration quorum t0"
  let ?own = "\<lambda>ls. int (length (filter (\<lambda>l. l = Some node_id) ls))"
  note counts = em_init_counts [of algo node_id peers duration quorum t0, THEN conjunct1]
    em_init_counts [of algo node_id peers duration quorum t0, THEN conjunct2]
  have id0: "em_node_id ?m0 = node_id" and impl0: "em_impl ?m0 = impl_init algo node_id peers duration quorum t0"
    by (simp_all add: em_init_def)
  have told0: "impl_told (em_impl ?m0)" using impl_init_told [OF assms(3)] by (simp add: impl0)
  have name0: "impl_node_id (em_impl ?m0) = node_id"
    unfolding impl0 by (cases algo) (simp_all add: bully_init_def ring_node_init_def lease_node_init_def Let_def)
  have run: "em_impl (em_run ?m0 es) = impl_calls.steps (em_impl ?m0) es" for es
    using em_run_counts [OF counts] by blast
  have epoch: "fm_current_epoch (em_fencing (em_run ?m0 es)) = ?own (impl_notified (em_impl (em_run ?m0 es))) \<and>
      fm_current_token (em_fencing (em_run ?m0 es)) =
        (if fm_current_epoch (em_fencing (em_run ?m0 es)) = 0 then None
         else Some \<lparr>ft_node_id = node_id, ft_epoch = fm_current_epoch (em_fencing (em_run ?m0 es)), ft_expiration = None\<rparr>)" for es
    using em_run_counts [OF counts, of es] id0 by (simp add: em_counts_def Let_def)
  have m': "m' = em_run ?m0 (es @ es')" and m'': "em_run m' es'' = em_run ?m0 ((es @ es') @ es'')" for es''
    using assms(1,2) by (simp_all add: em_run_def)
  note valid = fm_validate_token_def token_is_valid_def
  have 2: "\<forall>t now. fm_validate_token (em_fencing m) t now \<longleftrightarrow>
      token_is_valid t now \<and> ft_epoch t = fm_current_epoch (em_fencing m) \<and> 0 < fm_current_epoch (em_fencing m)"
    using epoch [of es] assms(1) by (auto simp: fm_validate_token_def)
  have 3: "0 < fm_current_epoch (em_fencing m)" if "em_is_leader m"
    using impl_callbacks.leads_told [OF impl_callbacks.sound_steps [OF told0], of es] that epoch [of es] assms(1) name0
    by (auto simp: em_is_leader_def run impl_calls.name_steps filter_empty_conv dest: last_in_set)
  have 4: "em_get_fencing_token m = Some \<lparr>ft_node_id = node_id, ft_epoch = fm_current_epoch (em_fencing m), ft_expiration = None\<rparr>"
    if "em_is_leader m" using 3 [OF that] epoch [of es] assms(1) that by (simp add: em_get_fencing_token_def)
  obtain calls where calls: "impl_notified (em_impl m') = impl_notified (em_impl m) @ calls"
    using impl_calls.steps_append [of "em_impl ?m0" es es'] run assms(1) m' by auto
  have 5: "fm_current_epoch (em_fencing m) < fm_current_epoch (em_fencing m')"
    if "em_is_leader m'" and "l \<in> set calls" for l
  proof -
    have "Some node_id \<in> set calls"
      using impl_callbacks.leads_again [OF told0 _ _ that(2), of es es'] that(1) calls assms(1) m'
      by (simp add: run em_is_leader_def name0)
    then show ?thesis using calls epoch [of es] epoch [of "es @ es'"] assms(1) m' by (auto simp: filter_empty_conv)
  qed
  have 6: "fm_current_epoch (em_fencing m') \<le> fm_current_epoch (em_fencing (em_run m' es''))" for es''
    using impl_calls.steps_append [of "em_impl ?m0" "es @ es'" es''] run epoch m' m'' by fastforce
  have 7: "\<not> fm_validate_token (em_fencing (em_run m' es'')) t now"
    if "fm_current_epoch (em_fencing m) < fm_current_epoch (em_fencing m')" and "fm_current_token (em_fencing m) = Some t"
    for t now es''
  proof -
    have "ft_epoch t = fm_current_epoch (em_fencing m)" using that(2) epoch [of es] assms(1) by (auto split: if_splits)
    then show ?thesis
      using that(1) 6 [of es''] epoch [of "(es @ es') @ es''"] m'' [of es''] by (auto simp: fm_validate_token_def)
  qed
  show ?thesis using epoch [of es] assms(1) 2 3 4 5 7 calls by blast
qed

definition deposed_manager :: election_manager where
  "deposed_manager = em_run (em_init BULLY ''a'' [''b''] 3 None 0)
     [Bully_Event BStart, Bully_Event BTimer, Bully_Event (BMessage \<lparr>bm_type = COORDINATOR, bm_sender_id = ''b'', bm_term = 1\<rparr> 4)]"

definition next_manager :: election_manager where
  "next_manager = em_run (em_init BULLY ''b'' [''a''] 3 None 0) [Bully_Event BStart]"

theorem fencing_latest_only_witness:
  "em_is_leader (em_run deposed_manager [Bully_Event (BMonitor 10), Bully_Event BTimer]) \<and>
   em_get_fencing_token (em_run deposed_manager [Bully_Event (BMonitor 10), Bully_Event BTimer]) =
     Some \<lparr>ft_node_id = ''a'', ft_epoch = 2, ft_expiration = None\<rparr> \<and>
   \<not> fm_validate_token (em_fencing (em_run deposed_manager [Bully_Event (BMonitor 10), Bully_Event BTimer]))
      \<lparr>ft_node_id = ''a'', ft_epoch = 1, ft_expiration = None\<rparr> 11"
proof -
  let ?start = "[Bully_Event BStart, Bully_Event BTimer]"
  let ?later = "[Bully_Event (BMessage \<lparr>bm_type = COORDINATOR, bm_sender_id = ''b'', bm_term = 1\<rparr> 4),
    Bully_Event (BMonitor 10), Bully_Event BTimer]"
  define m0 where "m0 = em_init BULLY ''a'' [''b''] 3 None 0"
  define m where "m = em_run m0 ?start"
  define m' where "m' = em_run m ?later"
  have m'_eq: "m' = em_run deposed_manager [Bully_Event (BMonitor 10), Bully_Event BTimer]"
    and start: "m' = em_run m0 (?start @ ?later)" and empty: "em_run m' [] = m'"
    by (simp_all add: m'_def m_def m0_def deposed_manager_def em_run_def)
  have c: "fm_current_token (em_fencing m) = Some \<lparr>ft_node_id = ''a'', ft_epoch = 1, ft_expiration = None\<rparr>"
    and n: "impl_notified (em_impl m) = [Some ''a'']" unfolding m_def m0_def by code_simp+
  have n': "impl_notified (em_impl m') = [Some ''a'', Some ''b'', Some ''a'']" and l': "em_is_leader m'"
    and e': "fm_current_epoch (em_fencing m') = 2" unfolding m'_def m_def m0_def by code_simp+
  from fencing_latest_only [OF start [unfolded m0_def] refl] l' e'
  have "em_get_fencing_token m' = Some \<lparr>ft_node_id = ''a'', ft_epoch = 2, ft_expiration = None\<rparr>" by simp
  moreover from fencing_latest_only [OF m_def [unfolded m0_def] m'_def] obtain calls
    where k: "impl_notified (em_impl m') = impl_notified (em_impl m) @ calls"
      and old: "em_is_leader m' \<and> (\<exists>l\<in>set calls. l \<noteq> Some ''a'') \<longrightarrow>
        (\<forall>t now es''. fm_current_token (em_fencing m) = Some t \<longrightarrow>
           \<not> fm_validate_token (em_fencing (em_run m' es'')) t now)" by blast
  have "calls = [Some ''b'', Some ''a'']" using k n n' by simp
  then have "\<exists>l\<in>set calls. l \<noteq> Some ''a''" by simp
  with old l' have "\<forall>t now es''. fm_current_token (em_fencing m) = Some t \<longrightarrow>
      \<not> fm_validate_token (em_fencing (em_run m' es'')) t now" by blast
  from this [rule_format, OF c, of "[]" 11]
  have "\<not> fm_validate_token (em_fencing m') \<lparr>ft_node_id = ''a'', ft_epoch = 1, ft_expiration = None\<rparr> 11"
    unfolding empty .
  ultimately show ?thesis using l' m'_eq by simp
qed

text \<open>
  An election that the callbacks do not report issues no token. A Bully node that leads starts a
  new term when its election is triggered by hand, and another when it is stopped and started: it
  tells nobody, its epoch stays, and the token of its first term is still validated.
\<close>

theorem fencing_token_outlives_term:
  "(let m = em_run (em_init BULLY ''a'' [] 3 None 0) [Bully_Event BStart];
        m' = em_run m [Bully_Event BTrigger, Bully_Event BStop, Bully_Event BStart]
    in case (em_impl m, em_impl m', em_get_fencing_token m) of
         (Bully_Impl n, Bully_Impl n', Some t) \<Rightarrow>
           em_is_leader m \<and> em_is_leader m' \<and> bn_term n = 1 \<and> bn_term n' = 3 \<and>
           fm_current_epoch (em_fencing m') = 1 \<and> fm_validate_token (em_fencing m') t 5
       | _ \<Rightarrow> False)"
  by code_simp

text \<open>
  Tokens do not fence across nodes: every manager counts its own epochs. Node a has led and
  was deposed by b, which runs its own manager; a's token is not less than b's, and b's manager
  validates it.
\<close>

theorem fencing_stale_leader_validated:
  "\<not> em_is_leader deposed_manager \<and> em_is_leader next_manager \<and> em_get_leader deposed_manager 4 = Some ''b'' \<and>
   (case (fm_current_token (em_fencing deposed_manager), em_get_fencing_token next_manager) of
      (Some a, Some b) \<Rightarrow> \<not> token_lt a b \<and> \<not> token_eq a b \<and> fm_validate_token (em_fencing next_manager) a 5
    | _ \<Rightarrow> False)"
  by code_simp

section \<open>Configuration\<close>

text \<open>\<open>leader-election/src/config.py\<close>: milliseconds become seconds, and two assertions.\<close>

record election_config =
  ec_election_timeout :: rat
  ec_heartbeat_interval :: rat
  ec_lease_duration :: rat
  ec_quorum_size :: int
  ec_max_election_rounds :: int

definition election_config_new :: "int \<Rightarrow> int \<Rightarrow> rat \<Rightarrow> int \<Rightarrow> int \<Rightarrow> election_config result" where
  "election_config_new election_timeout heartbeat_interval lease_duration quorum_size max_election_rounds =
     (let c = \<lparr>ec_election_timeout = of_int election_timeout / 1000, ec_heartbeat_interval = of_int heartbeat_interval / 1000,
               ec_lease_duration = lease_duration, ec_quorum_size = quorum_size, ec_max_election_rounds = max_election_rounds\<rparr>
      in if \<not> (ec_heartbeat_interval c < ec_election_timeout c) then Inl AssertionError
         else if \<not> (ec_quorum_size c > 0) then Inl AssertionError
         else Inr c)"

lemma election_config_accepts:
  "(\<exists>c. election_config_new t h d q r = Inr c) \<longleftrightarrow> h < t \<and> 0 < q"
  by (simp add: election_config_new_def Let_def divide_less_cancel)

end
