(* ===== verification/Clocks.thy ===== *)
theory Clocks
  imports Prelude
begin

text \<open>
  \<open>clock-skew-simulator/src\<close>: Lamport clocks, vector clocks, hybrid logical clocks, the simulated
  physical clocks with their NTP synchronisation, and the causality analyzer that compares
  timestamps. The histories of a system of such clocks and Lamport's happened-before relation are
  defined once; that a kind of clock respects the relation is proved in a locale, from what its
  operations promise, and the three kinds are its interpretations.
\<close>

section \<open>Lamport clocks\<close>

record lamport_clock =
  lc_node_id :: string
  lc_time :: int

definition lc_init :: "string \<Rightarrow> int \<Rightarrow> lamport_clock" where
  "lc_init node_id initial_time = \<lparr>lc_node_id = node_id, lc_time = initial_time\<rparr>"

definition lc_tick :: "lamport_clock \<Rightarrow> lamport_clock \<times> int" where
  "lc_tick c = (let c1 = c\<lparr>lc_time := lc_time c + 1\<rparr> in (c1, lc_time c1))"

definition lc_send :: "lamport_clock \<Rightarrow> lamport_clock \<times> int" where
  "lc_send c = (let c1 = c\<lparr>lc_time := lc_time c + 1\<rparr> in (c1, lc_time c1))"

definition lc_receive :: "lamport_clock \<Rightarrow> int \<Rightarrow> lamport_clock \<times> int" where
  "lc_receive c message_timestamp =
     (let c1 = c\<lparr>lc_time := max (lc_time c) message_timestamp + 1\<rparr> in (c1, lc_time c1))"

definition lc_lt :: "lamport_clock \<Rightarrow> lamport_clock \<Rightarrow> bool" where
  "lc_lt c other \<longleftrightarrow> lc_time c < lc_time other"

definition lc_eq :: "lamport_clock \<Rightarrow> lamport_clock \<Rightarrow> bool" where
  "lc_eq c other \<longleftrightarrow> lc_time c = lc_time other"

record lamport_timestamp =
  lt_time :: int
  lt_node_id :: string

definition lt_lt :: "lamport_timestamp \<Rightarrow> lamport_timestamp \<Rightarrow> bool" where
  "lt_lt s other \<longleftrightarrow>
     (if lt_time s \<noteq> lt_time other then lt_time s < lt_time other else lt_node_id s < lt_node_id other)"

definition lt_eq :: "lamport_timestamp \<Rightarrow> lamport_timestamp \<Rightarrow> bool" where
  "lt_eq s other \<longleftrightarrow> lt_time s = lt_time other \<and> lt_node_id s = lt_node_id other"

lemma lt_total_order:
  "\<not> lt_lt s s" "lt_lt s t \<Longrightarrow> lt_lt t u \<Longrightarrow> lt_lt s u" "lt_lt s t \<or> lt_eq s t \<or> lt_lt t s" "lt_eq s t \<longleftrightarrow> s = t"
  by (auto simp: lt_lt_def lt_eq_def split: if_splits)

section \<open>Vector clocks\<close>

record vector_clock =
  vc_node_id :: string
  vc_peers :: "string set"
  vc_vector :: "(string, int) dict"

definition vc_init :: "string \<Rightarrow> string list \<Rightarrow> vector_clock" where
  "vc_init node_id peers =
     \<lparr>vc_node_id = node_id, vc_peers = set peers,
      vc_vector = map (\<lambda>node. (node, 0)) (sorted_list_of_set (insert node_id (set peers)))\<rparr>"

text \<open>The vector has an entry for its own node from the constructor on.\<close>

definition vc_advance :: "vector_clock \<Rightarrow> vector_clock" where
  "vc_advance c = c\<lparr>vc_vector := dict_set (vc_node_id c) (dict_get (vc_vector c) (vc_node_id c) 0 + 1) (vc_vector c)\<rparr>"

definition vc_tick :: "vector_clock \<Rightarrow> vector_clock \<times> (string, int) dict" where
  "vc_tick c = (let c1 = vc_advance c in (c1, vc_vector c1))"

definition vc_send :: "vector_clock \<Rightarrow> vector_clock \<times> (string, int) dict" where
  "vc_send c = (let c1 = vc_advance c in (c1, vc_vector c1))"

definition vc_receive :: "vector_clock \<Rightarrow> string \<Rightarrow> (string, int) dict \<Rightarrow> vector_clock \<times> (string, int) dict" where
  "vc_receive c sender_id message_vector =
     (let c1 = c\<lparr>vc_vector := map (\<lambda>(k, v). (k, case map_of message_vector k of None \<Rightarrow> v | Some w \<Rightarrow> max v w)) (vc_vector c)\<rparr>;
          c2 = vc_advance c1
      in (c2, vc_vector c2))"

text \<open>The loops of the comparisons, over the entries of the clock's own vector.\<close>

fun hb_loop :: "(string, int) dict \<Rightarrow> (string, int) dict \<Rightarrow> bool \<Rightarrow> bool" where
  "hb_loop [] other at_least_one_less = at_least_one_less"
| "hb_loop ((k, v) # rest) other at_least_one_less =
     (case map_of other k of None \<Rightarrow> hb_loop rest other at_least_one_less
      | Some w \<Rightarrow> if v > w then False else hb_loop rest other (at_least_one_less \<or> v < w))"

definition vc_happened_before :: "vector_clock \<Rightarrow> (string, int) dict \<Rightarrow> bool" where
  "vc_happened_before c other_vector = hb_loop (vc_vector c) other_vector False"

fun ohb_loop :: "(string, int) dict \<Rightarrow> (string, int) dict \<Rightarrow> bool \<Rightarrow> bool" where
  "ohb_loop [] other at_least_one_less = at_least_one_less"
| "ohb_loop ((k, v) # rest) other at_least_one_less =
     (case map_of other k of None \<Rightarrow> ohb_loop rest other at_least_one_less
      | Some w \<Rightarrow> if w > v then ohb_loop rest other True else if w < v then False else ohb_loop rest other at_least_one_less)"

definition vc_other_happened_before :: "vector_clock \<Rightarrow> (string, int) dict \<Rightarrow> bool" where
  "vc_other_happened_before c other_vector = ohb_loop (vc_vector c) other_vector False"

definition vc_concurrent_with :: "vector_clock \<Rightarrow> (string, int) dict \<Rightarrow> bool" where
  "vc_concurrent_with c other_vector \<longleftrightarrow> \<not> vc_happened_before c other_vector \<and> \<not> vc_other_happened_before c other_vector"

section \<open>Hybrid logical clocks\<close>

record hlc_timestamp =
  hs_physical :: int
  hs_logical :: int

definition hs_lt :: "hlc_timestamp \<Rightarrow> hlc_timestamp \<Rightarrow> bool" where
  "hs_lt s other \<longleftrightarrow>
     (if hs_physical s \<noteq> hs_physical other then hs_physical s < hs_physical other else hs_logical s < hs_logical other)"

definition hs_eq :: "hlc_timestamp \<Rightarrow> hlc_timestamp \<Rightarrow> bool" where
  "hs_eq s other \<longleftrightarrow> hs_physical s = hs_physical other \<and> hs_logical s = hs_logical other"

record hlc =
  hl_node_id :: string
  hl_physical :: int
  hl_logical :: int

definition hlc_init :: "string \<Rightarrow> hlc" where
  "hlc_init node_id = \<lparr>hl_node_id = node_id, hl_physical = 0, hl_logical = 0\<rparr>"

definition physical_time :: "time \<Rightarrow> int" where
  "physical_time now = py_int (now * 1000)"

definition hlc_get_timestamp :: "hlc \<Rightarrow> hlc_timestamp" where
  "hlc_get_timestamp c = \<lparr>hs_physical = hl_physical c, hs_logical = hl_logical c\<rparr>"

definition hlc_now :: "hlc \<Rightarrow> time \<Rightarrow> hlc \<times> hlc_timestamp" where
  "hlc_now c now =
     (let pt = physical_time now;
          c1 = (if pt > hl_physical c then c\<lparr>hl_physical := pt, hl_logical := 0\<rparr> else c\<lparr>hl_logical := hl_logical c + 1\<rparr>)
      in (c1, hlc_get_timestamp c1))"

definition hlc_tick :: "hlc \<Rightarrow> time \<Rightarrow> hlc \<times> hlc_timestamp" where
  "hlc_tick c now = hlc_now c now"

definition hlc_send :: "hlc \<Rightarrow> time \<Rightarrow> hlc \<times> hlc_timestamp" where
  "hlc_send c now = hlc_now c now"

definition hlc_receive :: "hlc \<Rightarrow> hlc_timestamp \<Rightarrow> time \<Rightarrow> hlc \<times> hlc_timestamp" where
  "hlc_receive c message_timestamp now =
     (let pt = physical_time now;
          max_physical = max (max (hl_physical c) (hs_physical message_timestamp)) pt;
          c1 = (if max_physical = hl_physical c \<and> max_physical = hs_physical message_timestamp
                then c\<lparr>hl_logical := max (hl_logical c) (hs_logical message_timestamp) + 1\<rparr>
                else if max_physical = hl_physical c then c\<lparr>hl_logical := hl_logical c + 1\<rparr>
                else if max_physical = hs_physical message_timestamp
                then c\<lparr>hl_physical := hs_physical message_timestamp, hl_logical := hs_logical message_timestamp + 1\<rparr>
                else c\<lparr>hl_physical := pt, hl_logical := 0\<rparr>)
      in (c1, hlc_get_timestamp c1))"

section \<open>The causality analyzer\<close>

text \<open>
  A timestamp is any object: the analyzer knows integers, vectors and hybrid timestamps, any
  other object is \<open>Other_Stamp\<close>.
\<close>

datatype timestamp = Int_Stamp int | Vector_Stamp "(string, int) dict" | Hlc_Stamp hlc_timestamp | None_Stamp | Other_Stamp

record analyzer =
  ca_types :: "(string, string) dict"
  ca_timestamps :: "(string, timestamp) dict"

definition ca_init :: analyzer where
  "ca_init = \<lparr>ca_types = [], ca_timestamps = []\<rparr>"

definition ca_add_event :: "analyzer \<Rightarrow> string \<Rightarrow> string \<Rightarrow> timestamp \<Rightarrow> analyzer" where
  "ca_add_event a event_id event_type stamp =
     a\<lparr>ca_types := dict_set event_id event_type (ca_types a), ca_timestamps := dict_set event_id stamp (ca_timestamps a)\<rparr>"

definition vector_happens_before :: "(string, int) dict \<Rightarrow> (string, int) dict \<Rightarrow> bool" where
  "vector_happens_before vc1 vc2 =
     (let ks = map fst vc1 @ map fst vc2
      in list_all (\<lambda>k. dict_get vc1 k 0 \<le> dict_get vc2 k 0) ks \<and> list_ex (\<lambda>k. dict_get vc1 k 0 < dict_get vc2 k 0) ks)"

fun stamp_happens_before :: "timestamp \<Rightarrow> timestamp \<Rightarrow> bool" where
  "stamp_happens_before (Int_Stamp a) (Int_Stamp b) \<longleftrightarrow> a < b"
| "stamp_happens_before (Vector_Stamp a) (Vector_Stamp b) \<longleftrightarrow> vector_happens_before a b"
| "stamp_happens_before (Hlc_Stamp a) (Hlc_Stamp b) \<longleftrightarrow> hs_lt a b"
| "stamp_happens_before _ _ \<longleftrightarrow> False"

definition ca_get :: "analyzer \<Rightarrow> string \<Rightarrow> timestamp" where
  "ca_get a event_id = dict_get (ca_timestamps a) event_id None_Stamp"

definition ca_happens_before :: "analyzer \<Rightarrow> string \<Rightarrow> string \<Rightarrow> bool result" where
  "ca_happens_before a event_a event_b =
     (let ts_a = ca_get a event_a; ts_b = ca_get a event_b
      in if ts_a = None_Stamp \<or> ts_b = None_Stamp then Inl ValueError else Inr (stamp_happens_before ts_a ts_b))"

text \<open>\<open>not a and not b\<close>: the second comparison is made only when the first one is false.\<close>

definition ca_concurrent :: "analyzer \<Rightarrow> string \<Rightarrow> string \<Rightarrow> bool result" where
  "ca_concurrent a event_a event_b =
     (case ca_happens_before a event_a event_b of
        Inl e \<Rightarrow> Inl e
      | Inr True \<Rightarrow> Inr False
      | Inr False \<Rightarrow> (case ca_happens_before a event_b event_a of Inl e \<Rightarrow> Inl e | Inr b \<Rightarrow> Inr (\<not> b)))"

section \<open>Histories\<close>

text \<open>
  What happens at the nodes, in some order of time: a local event, the sending of a message, and
  the reception of the message that was sent at the given position of the history; every event
  comes with the reading of the node's wall clock, which only the hybrid clocks use.
\<close>

datatype clock_event = Local string time | Send string time | Receive string nat time

fun node_of :: "clock_event \<Rightarrow> string" where
  "node_of (Local i t) = i"
| "node_of (Send i t) = i"
| "node_of (Receive i k t) = i"

fun is_send :: "clock_event \<Rightarrow> bool" where
  "is_send (Send i t) = True"
| "is_send _ = False"

fun sent_at :: "clock_event \<Rightarrow> nat option" where
  "sent_at (Receive i k t) = Some k"
| "sent_at _ = None"

definition wf_event :: "string set \<Rightarrow> clock_event list \<Rightarrow> clock_event \<Rightarrow> bool" where
  "wf_event ids evs e \<longleftrightarrow> node_of e \<in> ids \<and>
     (case sent_at e of None \<Rightarrow> True | Some k \<Rightarrow> k < length evs \<and> is_send (evs ! k))"

fun wf_history :: "string set \<Rightarrow> clock_event list \<Rightarrow> bool" where
  "wf_history ids evs = list_all (\<lambda>b. wf_event ids (take b evs) (evs ! b)) [0..<length evs]"

text \<open>Lamport's relation between the positions of a history.\<close>

inductive happened_before :: "clock_event list \<Rightarrow> nat \<Rightarrow> nat \<Rightarrow> bool" for evs where
  same_node: "a < b \<Longrightarrow> b < length evs \<Longrightarrow> node_of (evs ! a) = node_of (evs ! b) \<Longrightarrow> happened_before evs a b"
| message: "b < length evs \<Longrightarrow> sent_at (evs ! b) = Some a \<Longrightarrow> happened_before evs a b"
| transitive: "happened_before evs a b \<Longrightarrow> happened_before evs b c \<Longrightarrow> happened_before evs a c"

text \<open>The clocks of the nodes and the timestamps of the events so far.\<close>

type_synonym ('c, 's) stamping = "(string \<Rightarrow> 'c) \<times> 's list"

fun stamp_event ::
    "('c \<Rightarrow> time \<Rightarrow> 'c \<times> 's) \<Rightarrow> ('c \<Rightarrow> time \<Rightarrow> 'c \<times> 's) \<Rightarrow> ('c \<Rightarrow> 's \<Rightarrow> time \<Rightarrow> 'c \<times> 's) \<Rightarrow>
     ('c, 's) stamping \<Rightarrow> clock_event \<Rightarrow> ('c, 's) stamping" where
  "stamp_event tick send receive (clocks, stamps) (Local i t) =
     (case tick (clocks i) t of (c, s) \<Rightarrow> (clocks(i := c), stamps @ [s]))"
| "stamp_event tick send receive (clocks, stamps) (Send i t) =
     (case send (clocks i) t of (c, s) \<Rightarrow> (clocks(i := c), stamps @ [s]))"
| "stamp_event tick send receive (clocks, stamps) (Receive i k t) =
     (case receive (clocks i) (stamps ! k) t of (c, s) \<Rightarrow> (clocks(i := c), stamps @ [s]))"

definition stamp_history ::
    "(string \<Rightarrow> 'c) \<Rightarrow> ('c \<Rightarrow> time \<Rightarrow> 'c \<times> 's) \<Rightarrow> ('c \<Rightarrow> time \<Rightarrow> 'c \<times> 's) \<Rightarrow> ('c \<Rightarrow> 's \<Rightarrow> time \<Rightarrow> 'c \<times> 's) \<Rightarrow>
     clock_event list \<Rightarrow> ('c, 's) stamping" where
  "stamp_history start tick send receive evs = foldl (stamp_event tick send receive) (start, []) evs"

definition lamport_stamps :: "clock_event list \<Rightarrow> int list" where
  "lamport_stamps evs = snd (stamp_history (\<lambda>i. lc_init i 0) (\<lambda>c _. lc_tick c) (\<lambda>c _. lc_send c) (\<lambda>c s _. lc_receive c s) evs)"

definition hlc_stamps :: "clock_event list \<Rightarrow> hlc_timestamp list" where
  "hlc_stamps evs = snd (stamp_history hlc_init hlc_tick hlc_send hlc_receive evs)"

text \<open>\<open>receive\<close> is given the sender's name, which it does not use.\<close>

definition vector_stamps :: "string list \<Rightarrow> clock_event list \<Rightarrow> (string, int) dict list" where
  "vector_stamps ids evs =
     snd (stamp_history (\<lambda>i. vc_init i (remove1 i ids)) (\<lambda>c _. vc_tick c) (\<lambda>c _. vc_send c) (\<lambda>c s _. vc_receive c '''' s) evs)"

lemma wf_history_snoc: "wf_history ids (evs @ [e]) \<longleftrightarrow> wf_history ids evs \<and> wf_event ids evs e"
  by (auto simp: list_all_iff nth_append)

lemma wf_history_event: "wf_history ids evs \<Longrightarrow> b < length evs \<Longrightarrow> wf_event ids (take b evs) (evs ! b)"
  by (simp add: list_all_iff)

lemma wf_history_sent: "wf_history ids evs \<Longrightarrow> b < length evs \<Longrightarrow> sent_at (evs ! b) = Some a \<Longrightarrow> a < b"
  using wf_history_event [of ids evs b] by (simp add: wf_event_def)

lemma happened_before_less:
  "happened_before evs a b \<Longrightarrow> wf_history ids evs \<Longrightarrow> a < b \<and> b < length evs"
  by (induction rule: happened_before.induct) (auto dest: wf_history_sent simp del: wf_history.simps)

lemma happened_before_append: "happened_before evs a b \<Longrightarrow> happened_before (evs @ evs') a b"
proof (induction rule: happened_before.induct)
  case (same_node a b)
  then show ?case by (intro happened_before.same_node) (auto simp: nth_append)
next
  case (message b a)
  then show ?case by (intro happened_before.message) (auto simp: nth_append)
qed (rule happened_before.transitive)

section \<open>The clock condition\<close>

text \<open>
  What a kind of clock promises: the stamp of an event is the clock's new reading; it is greater
  than the clock's reading before, and than the stamp of the message.
\<close>

locale causal_clock =
  fixes ids :: "string set"
    and start :: "string \<Rightarrow> 'c"
    and tick send :: "'c \<Rightarrow> time \<Rightarrow> 'c \<times> 's"
    and receive :: "'c \<Rightarrow> 's \<Rightarrow> time \<Rightarrow> 'c \<times> 's"
    and reading :: "'c \<Rightarrow> 's"
    and ok :: "'s \<Rightarrow> bool"
    and less :: "'s \<Rightarrow> 's \<Rightarrow> bool"
    and own :: "string \<Rightarrow> 'c \<Rightarrow> bool"
  assumes start_ok: "i \<in> ids \<Longrightarrow> ok (reading (start i)) \<and> own i (start i)"
    and tick_ok: "i \<in> ids \<Longrightarrow> own i c \<Longrightarrow> ok (reading c) \<Longrightarrow> tick c t = (c', s) \<Longrightarrow>
      s = reading c' \<and> ok s \<and> own i c' \<and> less (reading c) s"
    and send_ok: "i \<in> ids \<Longrightarrow> own i c \<Longrightarrow> ok (reading c) \<Longrightarrow> send c t = (c', s) \<Longrightarrow>
      s = reading c' \<and> ok s \<and> own i c' \<and> less (reading c) s"
    and receive_ok: "i \<in> ids \<Longrightarrow> own i c \<Longrightarrow> ok (reading c) \<Longrightarrow> ok m \<Longrightarrow> receive c m t = (c', s) \<Longrightarrow>
      s = reading c' \<and> ok s \<and> own i c' \<and> less (reading c) s \<and> less m s"
    and less_trans: "ok r \<Longrightarrow> ok s \<Longrightarrow> ok u \<Longrightarrow> less r s \<Longrightarrow> less s u \<Longrightarrow> less r u"
begin

abbreviation "stamping evs \<equiv> stamp_history start tick send receive evs"

text \<open>Every node's clock is at or after the stamps of the node's events.\<close>

definition stamped :: "clock_event list \<Rightarrow> (string \<Rightarrow> 'c) \<Rightarrow> 's list \<Rightarrow> bool" where
  "stamped evs clocks stamps \<longleftrightarrow> length stamps = length evs \<and>
     (\<forall>i\<in>ids. ok (reading (clocks i)) \<and> own i (clocks i)) \<and> (\<forall>s\<in>set stamps. ok s) \<and>
     (\<forall>a<length evs. stamps ! a = reading (clocks (node_of (evs ! a))) \<or> less (stamps ! a) (reading (clocks (node_of (evs ! a))))) \<and>
     (\<forall>b<length evs. \<forall>a<b. node_of (evs ! a) = node_of (evs ! b) \<or> sent_at (evs ! b) = Some a \<longrightarrow> less (stamps ! a) (stamps ! b))"

lemma event_ok:
  assumes "stamped evs clocks stamps" and "wf_event ids evs e"
    and "stamp_event tick send receive (clocks, stamps) e = (clocks', stamps')"
  obtains c' s where "clocks' = clocks(node_of e := c')" "stamps' = stamps @ [s]" "s = reading c'" "ok s" "own (node_of e) c'"
    "less (reading (clocks (node_of e))) s" "\<And>k. sent_at e = Some k \<Longrightarrow> less (stamps ! k) s"
proof (cases e)
  case (Local i t)
  obtain c' s where "tick (clocks i) t = (c', s)" by fastforce
  with assms tick_ok [of i "clocks i" t c' s] show ?thesis
    by (intro that [of c' s]) (auto simp: Local stamped_def wf_event_def)
next
  case (Send i t)
  obtain c' s where "send (clocks i) t = (c', s)" by fastforce
  with assms send_ok [of i "clocks i" t c' s] show ?thesis
    by (intro that [of c' s]) (auto simp: Send stamped_def wf_event_def)
next
  case (Receive i k t)
  obtain c' s where "receive (clocks i) (stamps ! k) t = (c', s)" by fastforce
  with assms receive_ok [of i "clocks i" "stamps ! k" t c' s] show ?thesis
    by (intro that [of c' s]) (auto simp: Receive stamped_def wf_event_def)
qed

lemma stamped_event:
  assumes st: "stamped evs clocks stamps" and wf: "wf_event ids evs e"
    and step: "stamp_event tick send receive (clocks, stamps) e = (clocks', stamps')"
  shows "stamped (evs @ [e]) clocks' stamps'"
proof -
  obtain c' s where s: "clocks' = clocks(node_of e := c')" "stamps' = stamps @ [s]" "s = reading c'" "ok s" "own (node_of e) c'"
    "less (reading (clocks (node_of e))) s" and msg: "\<And>k. sent_at e = Some k \<Longrightarrow> less (stamps ! k) s"
    using event_ok [OF st wf step] by blast
  have len: "length stamps = length evs" and oks: "\<forall>s\<in>set stamps. ok s"
    and clk: "ok (reading (clocks (node_of e)))" and i: "node_of e \<in> ids"
    using st wf by (auto simp: stamped_def wf_event_def)
  have now: "less (stamps ! a) s" if "a < length evs" "node_of (evs ! a) = node_of e" for a
  proof -
    have "ok (stamps ! a)" using that len oks by simp
    moreover have "stamps ! a = reading (clocks (node_of e)) \<or> less (stamps ! a) (reading (clocks (node_of e)))"
      using st that by (auto simp: stamped_def)
    ultimately show ?thesis using less_trans [of "stamps ! a" _ s] s clk by auto
  qed
  have "\<forall>a<length (evs @ [e]). stamps' ! a = reading (clocks' (node_of ((evs @ [e]) ! a))) \<or>
      less (stamps' ! a) (reading (clocks' (node_of ((evs @ [e]) ! a))))"
    using st s len now by (auto simp: stamped_def nth_append less_Suc_eq)
  moreover have "\<forall>b<length (evs @ [e]). \<forall>a<b. node_of ((evs @ [e]) ! a) = node_of ((evs @ [e]) ! b) \<or>
      sent_at ((evs @ [e]) ! b) = Some a \<longrightarrow> less (stamps' ! a) (stamps' ! b)"
    using st s len now msg by (auto simp: stamped_def nth_append less_Suc_eq)
  ultimately show ?thesis using st s len i by (auto simp: stamped_def)
qed

lemma stamped_history: "wf_history ids evs \<Longrightarrow> stamped evs (fst (stamping evs)) (snd (stamping evs))"
proof (induction evs rule: rev_induct)
  case Nil
  then show ?case using start_ok by (simp add: stamped_def stamp_history_def)
next
  case (snoc e evs)
  then show ?case
    using stamped_event [of evs "fst (stamping evs)" "snd (stamping evs)" e]
    by (simp add: wf_history_snoc stamp_history_def del: wf_history.simps)
qed

lemma clock_condition:
  assumes "happened_before evs a b" and wf: "wf_history ids evs"
  shows "less (snd (stamping evs) ! a) (snd (stamping evs) ! b)"
  using assms(1)
proof (induction rule: happened_before.induct)
  case (same_node a b)
  then show ?case using stamped_history [OF wf] by (auto simp: stamped_def)
next
  case (message b a)
  then show ?case using stamped_history [OF wf] wf_history_sent [OF wf] by (auto simp: stamped_def)
next
  case (transitive a b c)
  have "a < length evs" "b < length evs" "c < length evs"
    using happened_before_less [OF transitive.hyps(1) wf] happened_before_less [OF transitive.hyps(2) wf] by auto
  then have "ok (snd (stamping evs) ! a)" "ok (snd (stamping evs) ! b)" "ok (snd (stamping evs) ! c)"
    using stamped_history [OF wf] by (auto simp: stamped_def)
  then show ?case using less_trans transitive.IH by blast
qed

end

section \<open>The three kinds of clocks\<close>

lemma hs_lt_iff: "hs_lt s t \<longleftrightarrow> hs_physical s < hs_physical t \<or> hs_physical s = hs_physical t \<and> hs_logical s < hs_logical t"
  by (auto simp: hs_lt_def)

interpretation lamport: causal_clock UNIV "\<lambda>i. lc_init i 0" "\<lambda>c _. lc_tick c" "\<lambda>c _. lc_send c" "\<lambda>c s _. lc_receive c s"
    lc_time "\<lambda>_. True" "(<)" "\<lambda>_ _. True"
  by unfold_locales (auto simp: lc_tick_def lc_send_def lc_receive_def Let_def)

interpretation hybrid: causal_clock UNIV hlc_init hlc_tick hlc_send hlc_receive
    hlc_get_timestamp "\<lambda>_. True" hs_lt "\<lambda>_ _. True"
proof unfold_locales
  show "s = hlc_get_timestamp c' \<and> True \<and> True \<and> hs_lt (hlc_get_timestamp c) s \<and> hs_lt m s"
    if "hlc_receive c m t = (c', s)" for c c' m t s
  proof -
    have "s = hlc_get_timestamp c' \<and> hs_lt (hlc_get_timestamp c) s" using that
      by (auto simp: hlc_receive_def hs_lt_iff hlc_get_timestamp_def Let_def split: if_splits)
    moreover have "hs_lt m s" using that
      by (auto simp: hlc_receive_def hs_lt_iff hlc_get_timestamp_def Let_def split: if_splits)
    ultimately show ?thesis by blast
  qed
qed (auto simp: hlc_tick_def hlc_send_def hlc_now_def hs_lt_iff hlc_get_timestamp_def Let_def split: if_splits)

text \<open>The vectors of a system have an entry for each of its nodes.\<close>

definition full_vector :: "string list \<Rightarrow> (string, int) dict \<Rightarrow> bool" where
  "full_vector ids v \<longleftrightarrow> map fst v = sorted_list_of_set (set ids)"

lemma full_vector_keys: "full_vector ids v \<Longrightarrow> fst ` set v = set ids"
  by (metis full_vector_def list.set_map sorted_list_of_set(1) List.finite_set)

lemma full_vector_lookup: "full_vector ids v \<Longrightarrow> (map_of v k = None) \<longleftrightarrow> k \<notin> set ids"
  using full_vector_keys [of ids v] by (simp add: map_of_eq_None_iff)

lemma vector_happens_before_iff:
  assumes "full_vector ids v" and "full_vector ids w"
  shows "vector_happens_before v w \<longleftrightarrow>
    (\<forall>k\<in>set ids. dict_get v k 0 \<le> dict_get w k 0) \<and> (\<exists>k\<in>set ids. dict_get v k 0 < dict_get w k 0)"
proof -
  have "set (map fst v @ map fst w) = set ids" using full_vector_keys [OF assms(1)] full_vector_keys [OF assms(2)] by simp
  then show ?thesis by (simp only: vector_happens_before_def Let_def list_all_iff list_ex_iff)
qed

lemma map_of_map_key: "map_of (map (\<lambda>(k, v). (k, f k v)) d) k = map_option (f k) (map_of d k)"
  by (induction d) auto

lemma vc_advance_vector:
  assumes "full_vector ids (vc_vector c)" and "vc_node_id c \<in> set ids"
  shows "full_vector ids (vc_vector (vc_advance c)) \<and> vc_node_id (vc_advance c) = vc_node_id c \<and>
    dict_get (vc_vector (vc_advance c)) k 0 = dict_get (vc_vector c) k 0 + (if k = vc_node_id c then 1 else 0)"
  using assms full_vector_keys [OF assms(1)] by (auto simp: full_vector_def vc_advance_def update_keys)

lemma vc_receive_vector:
  assumes "full_vector ids (vc_vector c)" and "vc_node_id c \<in> set ids" and "full_vector ids m"
    and "vc_receive c s m = (c', v)"
  shows "v = vc_vector c' \<and> full_vector ids v \<and> vc_node_id c' = vc_node_id c \<and>
    dict_get v k 0 = max (dict_get (vc_vector c) k 0) (dict_get m k 0) + (if k = vc_node_id c then 1 else 0)"
proof -
  let ?c1 = "c\<lparr>vc_vector := map (\<lambda>(k, v). (k, case map_of m k of None \<Rightarrow> v | Some w \<Rightarrow> max v w)) (vc_vector c)\<rparr>"
  have full: "full_vector ids (vc_vector ?c1)" using assms(1) by (simp add: full_vector_def split_beta comp_def)
  have "dict_get (vc_vector ?c1) k 0 = max (dict_get (vc_vector c) k 0) (dict_get m k 0)"
    using full_vector_lookup [OF assms(1), of k] full_vector_lookup [OF assms(3), of k]
    by (auto simp: dict_get_def map_of_map_key split: option.split)
  with vc_advance_vector [OF full, of k] assms(2,4) show ?thesis by (auto simp: vc_receive_def Let_def)
qed

lemma vc_init_vector:
  "i \<in> set ids \<Longrightarrow> full_vector ids (vc_vector (vc_init i (remove1 i ids))) \<and> vc_node_id (vc_init i (remove1 i ids)) = i \<and>
    dict_get (vc_vector (vc_init i (remove1 i ids))) k 0 = 0"
proof -
  assume i: "i \<in> set ids"
  have "insert i (set (remove1 i ids)) = set ids" using i set_remove1_subset [of i ids] in_set_remove1 [of _ i ids] by blast
  moreover have "dict_get (map (\<lambda>node. (node, 0::int)) xs) k 0 = 0" for xs
    by (induction xs) (auto simp: dict_get_def)
  ultimately show ?thesis by (simp add: vc_init_def full_vector_def comp_def)
qed

interpretation vector: causal_clock "set ids" "\<lambda>i. vc_init i (remove1 i ids)" "\<lambda>c _. vc_tick c" "\<lambda>c _. vc_send c"
    "\<lambda>c s _. vc_receive c '''' s" vc_vector "full_vector ids" vector_happens_before "\<lambda>i c. vc_node_id c = i"
  for ids :: "string list"
proof unfold_locales
  fix i :: string and c c' :: vector_clock and t :: time and s m v
  show "full_vector ids (vc_vector (vc_init i (remove1 i ids))) \<and> vc_node_id (vc_init i (remove1 i ids)) = i" if "i \<in> set ids"
    using vc_init_vector [OF that] by blast
  have adv: "v = vc_vector c' \<and> full_vector ids v \<and> vc_node_id c' = i \<and> vector_happens_before (vc_vector c) v"
    if "i \<in> set ids" "vc_node_id c = i" "full_vector ids (vc_vector c)" "c' = vc_advance c" "v = vc_vector (vc_advance c)" for v
    using vc_advance_vector [of ids c] that by (auto simp: vector_happens_before_iff)
  show "v = vc_vector c' \<and> full_vector ids v \<and> vc_node_id c' = i \<and> vector_happens_before (vc_vector c) v"
    if "i \<in> set ids" "vc_node_id c = i" "full_vector ids (vc_vector c)" "vc_tick c = (c', v)"
    using adv [of v] that by (auto simp: vc_tick_def Let_def)
  show "v = vc_vector c' \<and> full_vector ids v \<and> vc_node_id c' = i \<and> vector_happens_before (vc_vector c) v"
    if "i \<in> set ids" "vc_node_id c = i" "full_vector ids (vc_vector c)" "vc_send c = (c', v)"
    using adv [of v] that by (auto simp: vc_send_def Let_def)
  show "v = vc_vector c' \<and> full_vector ids v \<and> vc_node_id c' = i \<and> vector_happens_before (vc_vector c) v \<and> vector_happens_before m v"
    if "i \<in> set ids" "vc_node_id c = i" "full_vector ids (vc_vector c)" "full_vector ids m" "vc_receive c '''' m = (c', v)"
  proof -
    have own: "vc_node_id c \<in> set ids" using that by simp
    note r = vc_receive_vector [OF that(3) own that(4) that(5)]
    have v: "full_vector ids v" and val: "dict_get v k 0 = max (dict_get (vc_vector c) k 0) (dict_get m k 0) + (if k = i then 1 else 0)" for k
      using r [of k] that(2) by auto
    have "vector_happens_before (vc_vector c) v" "vector_happens_before m v"
      using that(1) vector_happens_before_iff [OF that(3) v] vector_happens_before_iff [OF that(4) v] val by auto
    with r [of i] that(2) v show ?thesis by simp
  qed
  show "vector_happens_before s v" if "full_vector ids s" "full_vector ids m" "full_vector ids v"
    "vector_happens_before s m" "vector_happens_before m v"
    using that by (auto simp: vector_happens_before_iff intro: order_trans) (meson order.strict_trans1)
qed

section \<open>Vector stamps decide causality\<close>

abbreviation entry :: "(string, int) dict \<Rightarrow> string \<Rightarrow> int" where
  "entry v k \<equiv> dict_get v k 0"

abbreviation vector_stamping :: "string list \<Rightarrow> clock_event list \<Rightarrow> (vector_clock, (string, int) dict) stamping" where
  "vector_stamping ids \<equiv> stamp_history (\<lambda>i. vc_init i (remove1 i ids)) (\<lambda>c _. vc_tick c) (\<lambda>c _. vc_send c) (\<lambda>c s _. vc_receive c '''' s)"

definition events_at :: "clock_event list \<Rightarrow> string \<Rightarrow> int" where
  "events_at evs i = int (length (filter (\<lambda>e. node_of e = i) evs))"

text \<open>
  Every clock counts its own node's events, nobody knows of more; and whoever knows of an event,
  because his entry for the event's node has reached it, comes after the event.
\<close>

definition counting :: "string list \<Rightarrow> clock_event list \<Rightarrow> (string \<Rightarrow> vector_clock) \<Rightarrow> (string, int) dict list \<Rightarrow> bool" where
  "counting ids evs clocks stamps \<longleftrightarrow>
     (\<forall>i\<in>set ids. entry (vc_vector (clocks i)) i = events_at evs i) \<and>
     (\<forall>i\<in>set ids. \<forall>p. entry (vc_vector (clocks i)) p \<le> events_at evs p) \<and>
     (\<forall>b<length evs. \<forall>p. entry (stamps ! b) p \<le> events_at evs p) \<and>
     (\<forall>i\<in>set ids. \<forall>a<length evs. entry (stamps ! a) (node_of (evs ! a)) \<le> entry (vc_vector (clocks i)) (node_of (evs ! a)) \<longrightarrow>
        (\<exists>b<length evs. node_of (evs ! b) = i \<and> (a = b \<or> happened_before evs a b))) \<and>
     (\<forall>b<length evs. \<forall>a<length evs. entry (stamps ! a) (node_of (evs ! a)) \<le> entry (stamps ! b) (node_of (evs ! a)) \<longrightarrow>
        a = b \<or> happened_before evs a b)"

lemma vector_event:
  assumes st: "vector.stamped ids evs clocks stamps" and wf: "wf_event (set ids) evs e"
    and step: "stamp_event (\<lambda>c _. vc_tick c) (\<lambda>c _. vc_send c) (\<lambda>c s _. vc_receive c '''' s) (clocks, stamps) e = (clocks', stamps')"
  obtains c' where "clocks' = clocks(node_of e := c')" "stamps' = stamps @ [vc_vector c']"
    "\<And>p. entry (vc_vector c') p =
       (case sent_at e of None \<Rightarrow> entry (vc_vector (clocks (node_of e))) p
        | Some k \<Rightarrow> max (entry (vc_vector (clocks (node_of e))) p) (entry (stamps ! k) p)) + (if p = node_of e then 1 else 0)"
proof (cases e)
  case (Local i t)
  then have "full_vector ids (vc_vector (clocks i))" "vc_node_id (clocks i) = i" "i \<in> set ids"
    using st wf by (auto simp: vector.stamped_def wf_event_def)
  with vc_advance_vector [of ids "clocks i"] show ?thesis
    using step that [of "vc_advance (clocks i)"] Local by (simp add: vc_tick_def Let_def)
next
  case (Send i t)
  then have "full_vector ids (vc_vector (clocks i))" "vc_node_id (clocks i) = i" "i \<in> set ids"
    using st wf by (auto simp: vector.stamped_def wf_event_def)
  with vc_advance_vector [of ids "clocks i"] show ?thesis
    using step that [of "vc_advance (clocks i)"] Send by (simp add: vc_send_def Let_def)
next
  case (Receive i k t)
  then have full: "full_vector ids (vc_vector (clocks i))" "vc_node_id (clocks i) = i" "i \<in> set ids" "full_vector ids (stamps ! k)"
    using st wf by (auto simp: vector.stamped_def wf_event_def)
  obtain c' v where r: "vc_receive (clocks i) '''' (stamps ! k) = (c', v)" by fastforce
  have own: "vc_node_id (clocks i) \<in> set ids" using full by simp
  have v: "v = vc_vector c'" using vc_receive_vector [OF full(1) own full(4) r] by blast
  show ?thesis using step vc_receive_vector [OF full(1) own full(4) r [unfolded v]] full(2)
    by (intro that [of c']) (simp_all add: Receive r [unfolded v])
qed

text \<open>The new event comes after all that its vector knows of.\<close>

lemma knowing_new:
  assumes wf: "wf_event (set ids) evs e" and cnt: "counting ids evs clocks stamps"
    and val: "\<And>p. entry v p = (case sent_at e of None \<Rightarrow> entry (vc_vector (clocks (node_of e))) p
        | Some k \<Rightarrow> max (entry (vc_vector (clocks (node_of e))) p) (entry (stamps ! k) p)) + (if p = node_of e then 1 else 0)"
    and a: "a < length evs" and reach: "entry (stamps ! a) (node_of (evs ! a)) \<le> entry v (node_of (evs ! a))"
  shows "happened_before (evs @ [e]) a (length evs)"
proof -
  let ?i = "node_of e" and ?evs = "evs @ [e]" and ?na = "node_of (evs ! a)"
  consider "?na = ?i" | "?na \<noteq> ?i" "entry (stamps ! a) ?na \<le> entry (vc_vector (clocks ?i)) ?na"
    | k where "sent_at e = Some k" "entry (stamps ! a) ?na \<le> entry (stamps ! k) ?na"
    using reach val [of ?na] by (force simp: max_def split: option.splits if_splits)
  then show ?thesis
  proof cases
    case 1
    with a show ?thesis by (intro same_node) (auto simp: nth_append)
  next
    case 2
    have "?i \<in> set ids" using wf by (simp add: wf_event_def)
    with 2 a cnt obtain b where b: "b < length evs" "node_of (evs ! b) = ?i" "a = b \<or> happened_before evs a b"
      unfolding counting_def by blast
    then have "happened_before ?evs b (length evs)" by (intro same_node) (auto simp: nth_append)
    with b(3) show ?thesis using happened_before_append transitive by blast
  next
    case (3 k)
    then have "happened_before ?evs k (length evs)" by (intro message) auto
    moreover have "k < length evs" using wf 3(1) by (simp add: wf_event_def)
    with 3(2) a cnt have "a = k \<or> happened_before evs a k" unfolding counting_def by blast
    ultimately show ?thesis using happened_before_append transitive by blast
  qed
qed

lemma counting_event:
  assumes st: "vector.stamped ids evs clocks stamps" and wf: "wf_event (set ids) evs e" and cnt: "counting ids evs clocks stamps"
    and step: "stamp_event (\<lambda>c _. vc_tick c) (\<lambda>c _. vc_send c) (\<lambda>c s _. vc_receive c '''' s) (clocks, stamps) e = (clocks', stamps')"
  shows "counting ids (evs @ [e]) clocks' stamps'"
proof -
  let ?n = "length evs" and ?i = "node_of e" and ?evs = "evs @ [e]"
  let ?old = "\<lambda>p. entry (vc_vector (clocks ?i)) p"
  obtain c' where c': "clocks' = clocks(?i := c')" "stamps' = stamps @ [vc_vector c']"
    and val: "\<And>p. entry (vc_vector c') p = (case sent_at e of None \<Rightarrow> ?old p | Some k \<Rightarrow> max (?old p) (entry (stamps ! k) p)) +
        (if p = ?i then 1 else 0)"
    using vector_event [OF st wf step] by blast
  have len: "length stamps = ?n" and i: "?i \<in> set ids" and k: "\<And>k. sent_at e = Some k \<Longrightarrow> k < ?n"
    using st wf by (auto simp: vector.stamped_def wf_event_def)
  have own: "?old ?i = events_at evs ?i" and le: "\<And>j p. j \<in> set ids \<Longrightarrow> entry (vc_vector (clocks j)) p \<le> events_at evs p"
    and sle: "\<And>b p. b < ?n \<Longrightarrow> entry (stamps ! b) p \<le> events_at evs p"
    and clk: "\<And>j a. j \<in> set ids \<Longrightarrow> a < ?n \<Longrightarrow> entry (stamps ! a) (node_of (evs ! a)) \<le> entry (vc_vector (clocks j)) (node_of (evs ! a)) \<Longrightarrow>
        \<exists>b<?n. node_of (evs ! b) = j \<and> (a = b \<or> happened_before evs a b)"
    and stp: "\<And>a b. a < ?n \<Longrightarrow> b < ?n \<Longrightarrow> entry (stamps ! a) (node_of (evs ! a)) \<le> entry (stamps ! b) (node_of (evs ! a)) \<Longrightarrow>
        a = b \<or> happened_before evs a b"
    using cnt i by (auto simp: counting_def)
  have ev: "events_at ?evs p = events_at evs p + (if p = ?i then 1 else 0)" for p by (simp add: events_at_def)
  have new: "entry (vc_vector c') p \<le> events_at ?evs p" for p
    using val [of p] le [OF i, of p] sle [OF k, of _ p] by (auto simp: ev split: option.splits)
  have top: "entry (vc_vector c') ?i = events_at ?evs ?i"
    using val [of ?i] own sle [OF k, of _ ?i] by (auto simp: ev max_def split: option.splits)
  have to_new: "happened_before ?evs a ?n" if "a < ?n" "entry (stamps ! a) (node_of (evs ! a)) \<le> entry (vc_vector c') (node_of (evs ! a))" for a
    using knowing_new [OF wf cnt val that] .
  have ahead: "\<not> entry (vc_vector c') ?i \<le> events_at evs ?i" using top by (simp add: ev)
  have 4: "\<exists>b<length ?evs. node_of (?evs ! b) = j \<and> (a = b \<or> happened_before ?evs a b)"
    if "j \<in> set ids" "a < length ?evs" "entry (stamps' ! a) (node_of (?evs ! a)) \<le> entry (vc_vector (clocks' j)) (node_of (?evs ! a))" for j a
  proof (cases "j = ?i")
    case True
    then show ?thesis using that to_new [of a] len c' by (intro exI [of _ ?n]) (auto simp: nth_append less_Suc_eq)
  next
    case False
    then have j: "clocks' j = clocks j" using c' by simp
    have a: "a < ?n"
    proof (rule ccontr)
      assume "\<not> a < ?n"
      with that(2) have "a = ?n" by simp
      with that j len c' have "entry (vc_vector c') ?i \<le> entry (vc_vector (clocks j)) ?i" by (simp add: nth_append)
      with le [OF that(1), of ?i] ahead show False by linarith
    qed
    with clk [OF that(1) a] that(3) j len c' obtain b where "b < ?n" "node_of (evs ! b) = j" "a = b \<or> happened_before evs a b"
      by (auto simp: nth_append)
    then show ?thesis using happened_before_append by (intro exI [of _ b]) (auto simp: nth_append)
  qed
  have 5: "a = b \<or> happened_before ?evs a b"
    if "a < length ?evs" "b < length ?evs" "entry (stamps' ! a) (node_of (?evs ! a)) \<le> entry (stamps' ! b) (node_of (?evs ! a))" for a b
  proof -
    have "a < ?n" if "b < ?n"
      using that \<open>a < length ?evs\<close> \<open>entry (stamps' ! a) _ \<le> _\<close> sle [OF that, of ?i] ahead len c'
      by (auto simp: nth_append less_Suc_eq)
    with that stp [of a b] to_new [of a] len c' show ?thesis
      by (auto simp: nth_append less_Suc_eq happened_before_append)
  qed
  show ?thesis unfolding counting_def
  proof (intro conjI ballI allI impI)
    show "entry (vc_vector (clocks' j)) j = events_at ?evs j" if "j \<in> set ids" for j
      using that cnt top c' by (auto simp: counting_def ev)
    show "entry (vc_vector (clocks' j)) p \<le> events_at ?evs p" if "j \<in> set ids" for j p
      using new [of p] le [OF that, of p] c' by (auto simp: ev)
    show "entry (stamps' ! b) p \<le> events_at ?evs p" if "b < length ?evs" for b p
      using that new [of p] sle [of b p] len c' by (auto simp: ev nth_append less_Suc_eq)
  qed (use 4 5 in blast)+
qed

lemma counting_history:
  assumes "wf_history (set ids) evs"
  shows "counting ids evs (fst (vector_stamping ids evs)) (snd (vector_stamping ids evs))"
  using assms
proof (induction evs rule: rev_induct)
  case Nil
  then show ?case using vc_init_vector by (simp add: counting_def stamp_history_def events_at_def)
next
  case (snoc e evs)
  then have wf: "wf_history (set ids) evs" "wf_event (set ids) evs e" by (simp_all only: wf_history_snoc)
  with vector.stamped_history [OF wf(1)] snoc.IH show ?case
    using counting_event [of ids evs "fst (vector_stamping ids evs)" "snd (vector_stamping ids evs)" e]
    by (simp add: stamp_history_def)
qed

text \<open>On vectors with the same keys the method of the clock decides as the analyzer does.\<close>

lemma hb_loop_iff:
  "distinct (map fst v) \<Longrightarrow> (\<And>k. k \<in> fst ` set v \<Longrightarrow> map_of w k \<noteq> None) \<Longrightarrow>
   hb_loop v w b0 \<longleftrightarrow> (\<forall>k\<in>fst ` set v. entry v k \<le> entry w k) \<and> (b0 \<or> (\<exists>k\<in>fst ` set v. entry v k < entry w k))"
proof (induction v w b0 rule: hb_loop.induct)
  case (2 k x rest w b0)
  then obtain y where y: "map_of w k = Some y" by fastforce
  have rest: "entry ((k, x) # rest) j = entry rest j" if "j \<in> fst ` set rest" for j
    using that 2(3) by (auto simp: dict_get_def)
  have "entry ((k, x) # rest) k = x" "entry w k = y" using y by (simp_all add: dict_get_def)
  with 2 y rest show ?case by auto
qed simp

text \<open>\<open>_other_happened_before\<close> looks for an entry where the other vector is ahead, as \<open>happened_before\<close> does.\<close>

lemma ohb_loop_hb_loop: "ohb_loop v w b0 = hb_loop v w b0"
proof (induction v w b0 rule: hb_loop.induct)
  case (2 k x rest other b0)
  then show ?case by (cases "map_of other k"; cases "x < the (map_of other k)") auto
qed simp

lemma concurrent_with_not_before: "vc_concurrent_with c w \<longleftrightarrow> \<not> vc_happened_before c w"
  by (simp add: vc_concurrent_with_def vc_happened_before_def vc_other_happened_before_def ohb_loop_hb_loop)

lemma vc_happened_before_full:
  assumes v: "full_vector ids (vc_vector c)" and w: "full_vector ids w"
  shows "vc_happened_before c w \<longleftrightarrow> vector_happens_before (vc_vector c) w"
proof -
  have d: "distinct (map fst (vc_vector c))" using v by (simp add: full_vector_def)
  have k: "map_of w k \<noteq> None" if "k \<in> fst ` set (vc_vector c)" for k
    using that full_vector_keys [OF v] full_vector_lookup [OF w, of k] by auto
  show ?thesis using hb_loop_iff [OF d, of w False] k
    by (simp add: vc_happened_before_def vector_happens_before_iff [OF v w] full_vector_keys [OF v])
qed

section \<open>Properties\<close>

lemma vector_stamps_full:
  assumes "wf_history (set ids) evs" and "a < length evs"
  shows "full_vector ids (vector_stamps ids evs ! a)"
  using vector.stamped_history [OF assms(1)] assms(2) by (auto simp: vector.stamped_def vector_stamps_def)

lemma vector_happens_before_exact:
  assumes wf: "wf_history (set ids) evs" and a: "a < length evs" and b: "b < length evs"
  shows "vector_happens_before (vector_stamps ids evs ! a) (vector_stamps ids evs ! b) \<longleftrightarrow> happened_before evs a b"
proof
  assume hb: "vector_happens_before (vector_stamps ids evs ! a) (vector_stamps ids evs ! b)"
  have "node_of (evs ! a) \<in> set ids" using wf_history_event [OF wf a] by (simp add: wf_event_def)
  with hb vector_happens_before_iff [OF vector_stamps_full [OF wf a] vector_stamps_full [OF wf b]]
  have "entry (vector_stamps ids evs ! a) (node_of (evs ! a)) \<le> entry (vector_stamps ids evs ! b) (node_of (evs ! a))" "a \<noteq> b"
    by auto
  with counting_history [OF wf] a b show "happened_before evs a b"
    by (auto simp: counting_def vector_stamps_def)
qed (use vector.clock_condition [OF _ wf] in \<open>simp add: vector_stamps_def\<close>)

text \<open>
  C27. Vector clocks decide causality: in every history of a system of vector clocks, and
  whatever messages are delayed or reordered, the analyzer and the clock's own comparison say
  that an event happened before another exactly when it did, by a chain of steps at the nodes
  and of messages; and the analyzer calls two events concurrent exactly when neither did.
\<close>

theorem vector_clocks_exact:
  assumes "wf_history (set ids) evs" and "a < length evs" and "b < length evs"
    and "ca_timestamps ca = [(ea, Vector_Stamp (vector_stamps ids evs ! a)), (eb, Vector_Stamp (vector_stamps ids evs ! b))]"
    and "ea \<noteq> eb" and "vc_vector c = vector_stamps ids evs ! a"
  shows "ca_happens_before ca ea eb = Inr (happened_before evs a b) \<and>
    ca_concurrent ca ea eb = Inr (\<not> happened_before evs a b \<and> \<not> happened_before evs b a) \<and>
    vc_happened_before c (vector_stamps ids evs ! b) = happened_before evs a b"
proof -
  have ts: "ca_get ca ea = Vector_Stamp (vector_stamps ids evs ! a)" "ca_get ca eb = Vector_Stamp (vector_stamps ids evs ! b)"
    using assms(4,5) by (simp_all add: ca_get_def dict_get_def)
  show ?thesis
    using vector_happens_before_exact [OF assms(1,2,3)] vector_happens_before_exact [OF assms(1,3,2)] ts assms(6)
      vc_happened_before_full [of ids c] vector_stamps_full [OF assms(1,2)] vector_stamps_full [OF assms(1,3)]
    by (auto simp: ca_happens_before_def ca_concurrent_def Let_def split: bool.splits)
qed

definition example_history :: "clock_event list" where
  "example_history = [Send ''a'' 5, Local ''b'' 1, Receive ''b'' 0 2, Send ''b'' 3, Local ''c'' 9, Receive ''c'' 3 8]"

theorem vector_clocks_exact_witness:
  "vector_stamps [''a'', ''b'', ''c''] example_history ! 5 = [(''a'', 1), (''b'', 3), (''c'', 2)] \<and>
   happened_before example_history 0 5 \<and> \<not> happened_before example_history 0 1"
proof -
  let ?ids = "[''a'', ''b'', ''c'']"
  let ?ca = "\<lambda>a b. \<lparr>ca_types = [], ca_timestamps = [(''x'', Vector_Stamp (vector_stamps ?ids example_history ! a)), (''y'', Vector_Stamp (vector_stamps ?ids example_history ! b))]\<rparr>"
  let ?c = "\<lambda>a. \<lparr>vc_node_id = ''a'', vc_peers = {}, vc_vector = vector_stamps ?ids example_history ! a\<rparr>"
  have wf: "wf_history (set ?ids) example_history" by code_simp
  have len: "length example_history = 6" by (simp add: example_history_def)
  have "ca_happens_before (?ca 0 5) ''x'' ''y'' = Inr True" "ca_happens_before (?ca 0 1) ''x'' ''y'' = Inr False"
    "vector_stamps ?ids example_history ! 5 = [(''a'', 1), (''b'', 3), (''c'', 2)]"
    by code_simp+
  then show ?thesis
    using vector_clocks_exact [OF wf, of 0 5 "?ca 0 5" "''x''" "''y''" "?c 0"]
      vector_clocks_exact [OF wf, of 0 1 "?ca 0 1" "''x''" "''y''" "?c 0"] len by simp
qed

text \<open>
  C28. Lamport clocks and hybrid clocks respect causality: in every history, whatever the wall
  clocks read, also when they stand still or run backwards, an event that happened before another
  has the smaller timestamp.
\<close>

theorem clock_condition_holds:
  assumes "happened_before evs a b" and "wf_history UNIV evs"
  shows "stamp_happens_before (Int_Stamp (lamport_stamps evs ! a)) (Int_Stamp (lamport_stamps evs ! b)) \<and>
    stamp_happens_before (Hlc_Stamp (hlc_stamps evs ! a)) (Hlc_Stamp (hlc_stamps evs ! b))"
  using lamport.clock_condition [OF assms] hybrid.clock_condition [OF assms]
  by (simp add: lamport_stamps_def hlc_stamps_def)

theorem clock_condition_holds_witness:
  "lamport_stamps example_history ! 0 < lamport_stamps example_history ! 3 \<and>
   hs_lt (hlc_stamps example_history ! 0) (hlc_stamps example_history ! 3) \<and>
   hlc_stamps example_history ! 3 = \<lparr>hs_physical = 5000, hs_logical = 2\<rparr>"
proof -
  have wf: "wf_history UNIV example_history" by code_simp
  have len: "length example_history = 6" by (simp add: example_history_def)
  have "happened_before example_history 0 2" by (rule message) (simp_all add: example_history_def)
  moreover have "happened_before example_history 2 3" by (rule same_node) (simp_all add: example_history_def)
  ultimately have "happened_before example_history 0 3" by (rule transitive)
  from clock_condition_holds [OF this wf] show ?thesis
    by (simp add: hlc_stamps_def stamp_history_def example_history_def hlc_init_def hlc_tick_def hlc_send_def hlc_now_def
      hlc_receive_def hlc_get_timestamp_def physical_time_def py_int_def Let_def)
qed

text \<open>
  The vector clock's own test for concurrency is wrong: it asks twice whether this clock is
  before the other one, so an event is "concurrent" with every event that it comes after.
\<close>

theorem concurrent_with_past:
  assumes "wf_history (set ids) evs" and "happened_before evs a b" and "vc_vector c = vector_stamps ids evs ! b"
  shows "vc_concurrent_with c (vector_stamps ids evs ! a)"
proof -
  have ab: "a < b" "b < length evs" "a < length evs" using happened_before_less [OF assms(2,1)] by auto
  have "\<not> happened_before evs b a" using happened_before_less [OF _ assms(1)] ab(1) by fastforce
  then show ?thesis
    using vector_happens_before_exact [OF assms(1) ab(2,3)] vc_happened_before_full [of ids c] assms(3)
      vector_stamps_full [OF assms(1) ab(2)] vector_stamps_full [OF assms(1) ab(3)]
    by (simp add: concurrent_with_not_before)
qed

theorem concurrent_with_past_witness:
  "happened_before example_history 0 2 \<and>
   vc_concurrent_with \<lparr>vc_node_id = ''b'', vc_peers = {''a'', ''c''}, vc_vector = vector_stamps [''a'', ''b'', ''c''] example_history ! 2\<rparr>
     (vector_stamps [''a'', ''b'', ''c''] example_history ! 0)"
proof -
  have wf: "wf_history (set [''a'', ''b'', ''c'']) example_history" by code_simp
  have hb: "happened_before example_history 0 2" by (rule message) (simp_all add: example_history_def)
  from hb concurrent_with_past [OF wf hb] show ?thesis by simp
qed

text \<open>
  The limits of the other comparisons: a Lamport stamp that is smaller counts as earlier for the
  analyzer although the events may be unrelated; the clock's comparison skips the nodes that the
  other vector lacks, the analyzer reads them as zero; timestamps of other classes are concurrent.
\<close>

lemma analyzer_overclaims:
  "stamp_happens_before (Int_Stamp (lamport_stamps example_history ! 1)) (Int_Stamp (lamport_stamps example_history ! 3))"
  "stamp_happens_before (Int_Stamp (lamport_stamps example_history ! 4)) (Int_Stamp (lamport_stamps example_history ! 2))"
  by code_simp+

lemma missing_nodes_diverge:
  "vc_happened_before \<lparr>vc_node_id = ''a'', vc_peers = {''b''}, vc_vector = [(''a'', 1), (''b'', 5)]\<rparr> [(''a'', 2)] \<and>
   \<not> vector_happens_before [(''a'', 1), (''b'', 5)] [(''a'', 2)]"
  by code_simp

lemma other_stamps_concurrent:
  "ca_get a x = Other_Stamp \<Longrightarrow> ca_get a y \<noteq> None_Stamp \<Longrightarrow> ca_concurrent a x y = Inr True"
  by (cases "ca_get a y") (simp_all add: ca_concurrent_def ca_happens_before_def Let_def)

text \<open>
  A hybrid clock stays close to the wall clocks: its physical part is at least the node's own
  reading, and at most the largest reading so far of any node.
\<close>

fun reading_of :: "clock_event \<Rightarrow> time" where
  "reading_of (Local i t) = t"
| "reading_of (Send i t) = t"
| "reading_of (Receive i k t) = t"

lemma hlc_step_close:
  assumes "stamp_event hlc_tick hlc_send hlc_receive (clocks, stamps) e = (clocks', stamps')"
    and "\<And>i. hl_physical (clocks i) \<le> m" and "\<And>s. s \<in> set stamps \<Longrightarrow> hs_physical s \<le> m"
    and "physical_time (reading_of e) \<le> m" and "\<And>k. sent_at e = Some k \<Longrightarrow> k < length stamps"
  obtains s where "stamps' = stamps @ [s]" "physical_time (reading_of e) \<le> hs_physical s" "hs_physical s \<le> m"
    "\<And>i. hl_physical (clocks' i) \<le> m"
proof (cases e)
  case (Local i t)
  with assms show ?thesis
    by (intro that [of "snd (hlc_tick (clocks i) t)"])
      (auto simp: hlc_tick_def hlc_now_def hlc_get_timestamp_def Let_def split_beta)
next
  case (Send i t)
  with assms show ?thesis
    by (intro that [of "snd (hlc_send (clocks i) t)"])
      (auto simp: hlc_send_def hlc_now_def hlc_get_timestamp_def Let_def split_beta)
next
  case (Receive i k t)
  have "hs_physical (stamps ! k) \<le> m" using assms(3,5) Receive by simp
  with assms Receive show ?thesis
    by (intro that [of "snd (hlc_receive (clocks i) (stamps ! k) t)"])
      (auto simp: hlc_receive_def hlc_get_timestamp_def Let_def split_beta)
qed

lemma hlc_close:
  assumes "wf_history UNIV evs" and "list_all (\<lambda>e. physical_time (reading_of e) \<le> m) evs" and "0 \<le> m"
  shows "(\<forall>i. hl_physical (fst (stamp_history hlc_init hlc_tick hlc_send hlc_receive evs) i) \<le> m) \<and>
    length (hlc_stamps evs) = length evs \<and>
    (\<forall>b<length evs. physical_time (reading_of (evs ! b)) \<le> hs_physical (hlc_stamps evs ! b) \<and> hs_physical (hlc_stamps evs ! b) \<le> m)"
  using assms(1,2)
proof (induction evs rule: rev_induct)
  case Nil
  then show ?case using assms(3) by (simp add: stamp_history_def hlc_stamps_def hlc_init_def)
next
  case (snoc e evs)
  let ?st = "stamp_history hlc_init hlc_tick hlc_send hlc_receive"
  have wf: "wf_history UNIV evs" "wf_event UNIV evs e" using snoc.prems(1) by (simp_all only: wf_history_snoc)
  have IH: "\<forall>i. hl_physical (fst (?st evs) i) \<le> m" "length (hlc_stamps evs) = length evs"
    "\<forall>b<length evs. physical_time (reading_of (evs ! b)) \<le> hs_physical (hlc_stamps evs ! b) \<and> hs_physical (hlc_stamps evs ! b) \<le> m"
    using snoc.IH wf snoc.prems(2) by simp_all
  have "hs_physical s \<le> m" if "s \<in> set (hlc_stamps evs)" for s using that IH by (auto simp: in_set_conv_nth)
  moreover have "k < length (hlc_stamps evs)" if "sent_at e = Some k" for k using wf(2) that IH(2) by (simp add: wf_event_def)
  moreover have "stamp_event hlc_tick hlc_send hlc_receive (fst (?st evs), hlc_stamps evs) e = (fst (?st (evs @ [e])), hlc_stamps (evs @ [e]))"
    by (simp add: stamp_history_def hlc_stamps_def)
  ultimately obtain s where "hlc_stamps (evs @ [e]) = hlc_stamps evs @ [s]" "physical_time (reading_of e) \<le> hs_physical s" "hs_physical s \<le> m"
    "\<And>i. hl_physical (fst (?st (evs @ [e])) i) \<le> m"
    using hlc_step_close [of "fst (?st evs)" "hlc_stamps evs" e _ _ m] IH(1) snoc.prems(2) by force
  then show ?case using IH(2,3) by (auto simp: nth_append less_Suc_eq)
qed

section \<open>Physical clocks and their synchronisation\<close>

record physical_clock =
  pc_node_id :: string
  pc_drift_rate :: rat
  pc_skew :: rat
  pc_creation_time :: time

definition pc_init :: "string \<Rightarrow> rat \<Rightarrow> rat \<Rightarrow> time \<Rightarrow> physical_clock" where
  "pc_init node_id drift_rate skew now =
     \<lparr>pc_node_id = node_id, pc_drift_rate = drift_rate, pc_skew = skew, pc_creation_time = now\<rparr>"

definition pc_read :: "physical_clock \<Rightarrow> time \<Rightarrow> time" where
  "pc_read c now =
     (let true_elapsed = now - pc_creation_time c; drifted_elapsed = true_elapsed * (1 + pc_drift_rate c)
      in pc_creation_time c + drifted_elapsed + pc_skew c)"

text \<open>\<open>get_skew\<close> reads the true time twice.\<close>

definition pc_get_skew :: "physical_clock \<Rightarrow> time \<Rightarrow> time \<Rightarrow> rat" where
  "pc_get_skew c now now' = (let true_time = now; clock_time = pc_read c now' in clock_time - true_time)"

definition pc_synchronize :: "physical_clock \<Rightarrow> time \<Rightarrow> time \<Rightarrow> physical_clock" where
  "pc_synchronize c reference_time now =
     (let current_time = pc_read c now; adjustment = reference_time - current_time
      in c\<lparr>pc_skew := pc_skew c + adjustment\<rparr>)"

record ntp_simulator =
  ntp_nodes :: "string list"
  ntp_max_clock_skew :: rat
  ntp_network_latency :: rat
  ntp_clocks :: "(string, physical_clock) dict"

text \<open>The random numbers of the constructor, a skew and a drift for each node, and the times are arguments.\<close>

definition ntp_init :: "string list \<Rightarrow> rat \<Rightarrow> rat \<Rightarrow> (string \<Rightarrow> rat \<times> rat \<times> time) \<Rightarrow> ntp_simulator" where
  "ntp_init nodes max_clock_skew network_latency draw =
     \<lparr>ntp_nodes = nodes, ntp_max_clock_skew = max_clock_skew, ntp_network_latency = network_latency,
      ntp_clocks = foldl (\<lambda>d node. case draw node of (skew, drift, now) \<Rightarrow> dict_set node (pc_init node drift skew now) d) [] nodes\<rparr>"

fun ntp_loop :: "time \<Rightarrow> (string \<Rightarrow> rat \<times> time) \<Rightarrow> string list \<Rightarrow> (string, physical_clock) dict \<Rightarrow> (string, physical_clock) dict" where
  "ntp_loop server_time draw [] clocks = clocks"
| "ntp_loop server_time draw (client # rest) clocks =
     (case map_of clocks client of None \<Rightarrow> ntp_loop server_time draw rest clocks
      | Some c \<Rightarrow> (case draw client of (latency_error, now) \<Rightarrow>
          ntp_loop server_time draw rest (dict_set client (pc_synchronize c (server_time + latency_error) now) clocks)))"

definition ntp_synchronize :: "ntp_simulator \<Rightarrow> time \<Rightarrow> (string \<Rightarrow> rat \<times> time) \<Rightarrow> ntp_simulator" where
  "ntp_synchronize s now draw =
     (case ntp_nodes s of [] \<Rightarrow> s
      | server # clients \<Rightarrow>
          (case map_of (ntp_clocks s) server of None \<Rightarrow> s
           | Some c \<Rightarrow> s\<lparr>ntp_clocks := ntp_loop (pc_read c now) draw clients (ntp_clocks s)\<rparr>))"

definition ntp_get_max_skew :: "ntp_simulator \<Rightarrow> (string \<Rightarrow> time \<times> time) \<Rightarrow> rat" where
  "ntp_get_max_skew s at_times =
     foldl (\<lambda>max_skew (node, c). case at_times node of (now, now') \<Rightarrow>
        let skew = \<bar>pc_get_skew c now now'\<bar> in if skew > max_skew then skew else max_skew) 0 (ntp_clocks s)"

lemma pc_read_synchronized:
  "pc_read (pc_synchronize c reference now) later = reference + (later - now) * (1 + pc_drift_rate c)"
  by (simp add: pc_read_def pc_synchronize_def Let_def algebra_simps)

lemma ntp_loop_other: "node \<notin> set clients \<Longrightarrow> map_of (ntp_loop t draw clients clocks) node = map_of clocks node"
  by (induction t draw clients clocks rule: ntp_loop.induct) (auto simp: update_conv' split: option.split prod.split)

text \<open>
  After a synchronisation every client runs from the server's time, plus the error of its latency,
  at its own rate; the server itself is not corrected, so its skew is the cluster's.
\<close>

lemma ntp_loop_client:
  "distinct clients \<Longrightarrow> node \<in> set clients \<Longrightarrow> map_of clocks node = Some c \<Longrightarrow> draw node = (err, now) \<Longrightarrow>
   \<exists>c'. map_of (ntp_loop t draw clients clocks) node = Some c' \<and>
     pc_read c' later = t + err + (later - now) * (1 + pc_drift_rate c)"
proof (induction t draw clients clocks rule: ntp_loop.induct)
  case (2 t draw client rest clocks)
  show ?case
  proof (cases "client = node")
    case True
    with 2 show ?thesis by (simp add: ntp_loop_other update_conv' pc_read_synchronized)
  next
    case False
    with 2 show ?thesis by (auto simp: update_conv' split: option.split prod.split)
  qed
qed simp

end
