(* ===== verification/Event_Log.thy ===== *)
theory Event_Log
  imports Clocks "HOL-Library.Product_Lexorder" "HOL-Library.Multiset"
begin

text \<open>
  The distributed logger of \<open>clock-skew-simulator/examples/event_ordering.py\<close>: one Lamport clock for each node
  and one list of events. Its log, sorted by timestamps and names, is a total order of all events that extends
  Lamport's happened-before relation.
\<close>

section \<open>DistributedLogger\<close>

type_synonym log_record = "lamport_timestamp \<times> string \<times> string"

record event_log =
  el_clocks :: "(string, lamport_clock) dict"
  el_events :: "log_record list"

definition el_init :: "string list \<Rightarrow> event_log" where
  "el_init node_ids = \<lparr>el_clocks = foldl (\<lambda>d i. dict_set i (lc_init i 0) d) [] node_ids, el_events = []\<rparr>"

definition el_log :: "event_log \<Rightarrow> string \<Rightarrow> string \<Rightarrow> (event_log, unit) outcome" where
  "el_log l node_id message =
     (case map_of (el_clocks l) node_id of
        None \<Rightarrow> (l, Inl KeyError)
      | Some clock \<Rightarrow>
          let (clock', timestamp) = lc_tick clock
          in (l\<lparr>el_clocks := dict_set node_id clock' (el_clocks l),
                el_events := el_events l @ [(\<lparr>lt_time = timestamp, lt_node_id = node_id\<rparr>, node_id, message)]\<rparr>, Inr ()))"

text \<open>The receiver's clock is looked up after the sender's has been advanced.\<close>

definition el_send :: "event_log \<Rightarrow> string \<Rightarrow> string \<Rightarrow> string \<Rightarrow> (event_log, unit) outcome" where
  "el_send l from_node to_node message =
     (case map_of (el_clocks l) from_node of
        None \<Rightarrow> (l, Inl KeyError)
      | Some from_clock \<Rightarrow>
          let (from_clock', send_ts) = lc_send from_clock;
              l1 = l\<lparr>el_clocks := dict_set from_node from_clock' (el_clocks l)\<rparr>
          in case map_of (el_clocks l1) to_node of
               None \<Rightarrow> (l1, Inl KeyError)
             | Some to_clock \<Rightarrow>
                 let (to_clock', receive_ts) = lc_receive to_clock send_ts
                 in (l1\<lparr>el_clocks := dict_set to_node to_clock' (el_clocks l1),
                        el_events := el_events l1 @
                          [(\<lparr>lt_time = send_ts, lt_node_id = from_node\<rparr>, from_node, ''SEND -> '' @ to_node @ '': '' @ message),
                           (\<lparr>lt_time = receive_ts, lt_node_id = to_node\<rparr>, to_node, ''RECV <- '' @ from_node @ '': '' @ message)]\<rparr>, Inr ()))"

text \<open>\<open>sorted\<close> by \<open>LamportTimestamp.__lt__\<close>, which is the order of pairs of time and name.\<close>

definition el_ordered :: "event_log \<Rightarrow> log_record list" where
  "el_ordered l = sort_key (\<lambda>(ts, node_id, message). (lt_time ts, lt_node_id ts)) (el_events l)"

lemma lt_lt_pairs: "lt_lt s t \<longleftrightarrow> (lt_time s, lt_node_id s) < (lt_time t, lt_node_id t)"
  by (auto simp: lt_lt_def)

section \<open>Runs and their histories\<close>

datatype log_call = Log_Call string string | Send_Call string string string

fun el_call :: "event_log \<Rightarrow> log_call \<Rightarrow> event_log" where
  "el_call l (Log_Call i m) = fst (el_log l i m)"
| "el_call l (Send_Call i j m) = fst (el_send l i j m)"

definition el_run :: "string list \<Rightarrow> log_call list \<Rightarrow> event_log" where
  "el_run ids cs = foldl el_call (el_init ids) cs"

fun call_known :: "string list \<Rightarrow> log_call \<Rightarrow> bool" where
  "call_known ids (Log_Call i m) \<longleftrightarrow> i \<in> set ids"
| "call_known ids (Send_Call i j m) \<longleftrightarrow> i \<in> set ids \<and> j \<in> set ids"

text \<open>The history of a run: a local event for each \<open>log\<close>, a sending and its reception for each \<open>send_message\<close>.\<close>

fun call_events :: "nat \<Rightarrow> log_call \<Rightarrow> clock_event list" where
  "call_events k (Log_Call i m) = [Local i 0]"
| "call_events k (Send_Call i j m) = [Send i 0, Receive j k 0]"

definition log_history :: "log_call list \<Rightarrow> clock_event list" where
  "log_history cs = foldl (\<lambda>evs c. evs @ call_events (length evs) c) [] cs"

lemma log_history_snoc: "log_history (cs @ [c]) = log_history cs @ call_events (length (log_history cs)) c"
  by (simp add: log_history_def)

lemma log_history_wf: "wf_history UNIV (log_history cs)"
proof (induction cs rule: rev_induct)
  case Nil
  show ?case by (simp add: log_history_def)
next
  case (snoc c cs)
  let ?h = "log_history cs"
  have send: "wf_history UNIV (?h @ [Send i 0])" for i using snoc by (simp add: wf_history_snoc wf_event_def del: wf_history.simps)
  have "wf_history UNIV ((?h @ [Send i 0]) @ [Receive j (length ?h) 0])" for i j
    using send by (simp only: wf_history_snoc) (simp add: wf_event_def)
  moreover have "wf_history UNIV (?h @ [Local i 0])" for i using snoc by (simp add: wf_history_snoc wf_event_def del: wf_history.simps)
  ultimately show ?case by (cases c) (simp_all add: log_history_snoc del: wf_history.simps)
qed

text \<open>The timestamp under which an event is logged.\<close>

definition logged_stamps :: "clock_event list \<Rightarrow> lamport_timestamp list" where
  "logged_stamps evs = map (\<lambda>k. \<lparr>lt_time = lamport_stamps evs ! k, lt_node_id = node_of (evs ! k)\<rparr>) [0..<length evs]"

definition lamport_clocks :: "clock_event list \<Rightarrow> string \<Rightarrow> lamport_clock" where
  "lamport_clocks evs = fst (stamp_history (\<lambda>i. lc_init i 0) (\<lambda>c _. lc_tick c) (\<lambda>c _. lc_send c) (\<lambda>c s _. lc_receive c s) evs)"

lemma lamport_snoc:
  "lamport_clocks (evs @ [e]) = fst (stamp_event (\<lambda>c _. lc_tick c) (\<lambda>c _. lc_send c) (\<lambda>c s _. lc_receive c s) (lamport_clocks evs, lamport_stamps evs) e)"
  "lamport_stamps (evs @ [e]) = snd (stamp_event (\<lambda>c _. lc_tick c) (\<lambda>c _. lc_send c) (\<lambda>c s _. lc_receive c s) (lamport_clocks evs, lamport_stamps evs) e)"
  by (simp_all add: lamport_clocks_def lamport_stamps_def stamp_history_def)

lemma lamport_stamps_length [simp]: "length (lamport_stamps evs) = length evs"
proof (induction evs rule: rev_induct)
  case Nil
  show ?case by (simp add: lamport_stamps_def stamp_history_def)
next
  case (snoc e evs)
  then show ?case by (cases e) (simp_all add: lamport_snoc split: prod.split)
qed

lemma logged_stamps_snoc:
  "logged_stamps (evs @ [e]) = logged_stamps evs @ [\<lparr>lt_time = List.last (lamport_stamps (evs @ [e])), lt_node_id = node_of e\<rparr>]"
proof -
  have "lamport_stamps (evs @ [e]) = lamport_stamps evs @ [List.last (lamport_stamps (evs @ [e]))]"
    by (cases e) (simp_all add: lamport_snoc split: prod.split)
  then have "lamport_stamps (evs @ [e]) ! k = lamport_stamps evs ! k" if "k < length evs" for k
    using that by (metis lamport_stamps_length nth_append)
  moreover have "lamport_stamps (evs @ [e]) ! length evs = List.last (lamport_stamps (evs @ [e]))"
    by (metis lamport_stamps_length diff_add_inverse2 last_conv_nth length_append_singleton list.size(3) nat.distinct(1) diff_Suc_1)
  ultimately show ?thesis by (simp add: logged_stamps_def nth_append)
qed

section \<open>The log of a run\<close>

definition log_inv :: "string list \<Rightarrow> clock_event list \<Rightarrow> event_log \<Rightarrow> bool" where
  "log_inv ids evs l \<longleftrightarrow> (\<forall>i. map_of (el_clocks l) i = (if i \<in> set ids then Some (lamport_clocks evs i) else None)) \<and>
     map fst (el_events l) = logged_stamps evs"

lemma log_inv_init: "log_inv ids [] (el_init ids)"
proof -
  have "map_of (foldl (\<lambda>d i. dict_set i (lc_init i 0) d) d ids) i = (if i \<in> set ids then Some (lc_init i 0) else map_of d i)" for d i
    by (induction ids arbitrary: d) (auto simp: update_conv')
  then show ?thesis by (simp add: log_inv_def el_init_def lamport_clocks_def stamp_history_def logged_stamps_def)
qed

lemma log_inv_call:
  assumes inv: "log_inv ids evs l" and known: "call_known ids c"
  shows "log_inv ids (evs @ call_events (length evs) c) (el_call l c)"
proof (cases c)
  case (Log_Call i m)
  then show ?thesis
    using inv known by (auto simp: log_inv_def el_log_def lc_tick_def logged_stamps_snoc lamport_snoc update_conv')
next
  case (Send_Call i j m)
  define evs' where "evs' = evs @ [Send i 0]"
  have two: "evs @ [Send i 0, Receive j (length evs) 0] = evs' @ [Receive j (length evs) 0]" by (simp add: evs'_def)
  let ?t = "lc_time (lamport_clocks evs i) + 1"
  have evs': "lamport_clocks evs' = (lamport_clocks evs)(i := lamport_clocks evs i\<lparr>lc_time := ?t\<rparr>)"
    "lamport_stamps evs' ! length evs = ?t" "logged_stamps evs' = logged_stamps evs @ [\<lparr>lt_time = ?t, lt_node_id = i\<rparr>]"
    by (simp_all add: evs'_def lamport_snoc lc_send_def nth_append logged_stamps_snoc)
  show ?thesis unfolding Send_Call call_events.simps two
    using inv known unfolding Send_Call
    by (auto simp: log_inv_def el_send_def lc_send_def lc_receive_def logged_stamps_snoc lamport_snoc evs' update_conv')
qed

lemma log_inv_run: "list_all (call_known ids) cs \<Longrightarrow> log_inv ids (log_history cs) (el_run ids cs)"
proof (induction cs rule: rev_induct)
  case Nil
  show ?case using log_inv_init by (simp add: log_history_def el_run_def)
next
  case (snoc c cs)
  then show ?case using log_inv_call [of ids "log_history cs" "el_run ids cs" c] by (simp add: log_history_snoc el_run_def)
qed

section \<open>A total order that extends causality\<close>

lemma same_node_stamps_less:
  assumes "wf_history UNIV evs" and "a < b" and "b < length evs" and "node_of (evs ! a) = node_of (evs ! b)"
  shows "lamport_stamps evs ! a < lamport_stamps evs ! b"
  using lamport.clock_condition [OF happened_before.same_node [OF assms(2-4)] assms(1)] by (simp add: lamport_stamps_def)

lemma logged_stamps_distinct:
  assumes "wf_history UNIV evs"
  shows "distinct (map (\<lambda>ts. (lt_time ts, lt_node_id ts)) (logged_stamps evs))"
proof -
  have "a = b" if "a < length evs" "b < length evs" "node_of (evs ! a) = node_of (evs ! b)" "lamport_stamps evs ! a = lamport_stamps evs ! b" for a b
    using same_node_stamps_less [OF assms, of a b] same_node_stamps_less [OF assms, of b a] that by (metis less_irrefl linorder_neqE_nat)
  then show ?thesis by (auto simp: logged_stamps_def distinct_map inj_on_def comp_def)
qed

text \<open>
  The log is a total order of the events that extends causality: after any calls of \<open>log\<close> and
  \<open>send_message\<close> for known nodes \<open>get_ordered_logs\<close> is a rearrangement of the events, one for each event of the
  history, strictly increasing in \<open>LamportTimestamp.__lt__\<close>, so no two compare equal and the order in which
  they were recorded does not matter; and where an event happened before another it stands before it.
\<close>

theorem event_log_total_order:
  assumes "list_all (call_known ids) cs"
  defines "l \<equiv> el_run ids cs" and "evs \<equiv> log_history cs"
  shows "mset (el_ordered l) = mset (el_events l) \<and> length (el_events l) = length evs \<and>
    sorted_wrt (\<lambda>x y. lt_lt (fst x) (fst y)) (el_ordered l) \<and>
    (happened_before evs a b \<longrightarrow>
      (\<exists>i j. i < j \<and> j < length (el_ordered l) \<and> el_ordered l ! i = el_events l ! a \<and> el_ordered l ! j = el_events l ! b))"
proof -
  let ?key = "\<lambda>(ts, node_id :: string, message :: string). (lt_time ts, lt_node_id ts)"
  have wf: "wf_history UNIV evs" unfolding evs_def by (rule log_history_wf)
  have inv: "map fst (el_events l) = logged_stamps evs" using log_inv_run [OF assms(1)] by (simp add: log_inv_def l_def evs_def)
  have len: "length (el_events l) = length evs" using arg_cong [OF inv, of length] by (simp add: logged_stamps_def)
  have perm: "mset (el_ordered l) = mset (el_events l)" by (simp add: el_ordered_def)
  have "map ?key (el_events l) = map (\<lambda>ts. (lt_time ts, lt_node_id ts)) (map fst (el_events l))" by (simp add: case_prod_unfold)
  then have "distinct (map ?key (el_events l))" using logged_stamps_distinct [OF wf] inv by simp
  moreover have mset_key: "mset (map ?key (el_ordered l)) = mset (map ?key (el_events l))" using perm by simp
  ultimately have "distinct (map ?key (el_ordered l))" using mset_eq_imp_distinct_iff [OF mset_key] by blast
  moreover have "sorted (map ?key (el_ordered l))" by (simp add: el_ordered_def)
  ultimately have "sorted_wrt (<) (map ?key (el_ordered l))" by (simp add: strict_sorted_iff)
  then have strict: "sorted_wrt (\<lambda>x y. lt_lt (fst x) (fst y)) (el_ordered l)"
    by (simp add: sorted_wrt_map lt_lt_pairs case_prod_unfold)
  have "\<exists>i j. i < j \<and> j < length (el_ordered l) \<and> el_ordered l ! i = el_events l ! a \<and> el_ordered l ! j = el_events l ! b"
    if hb: "happened_before evs a b"
  proof -
    have ab: "a < b" "b < length evs" using happened_before_less [OF hb wf] by auto
    have stamp: "fst (el_events l ! k) = \<lparr>lt_time = lamport_stamps evs ! k, lt_node_id = node_of (evs ! k)\<rparr>" if "k < length evs" for k
      using arg_cong [OF inv, of "\<lambda>xs. xs ! k"] that len by (simp add: logged_stamps_def)
    have "lamport_stamps evs ! a < lamport_stamps evs ! b" using lamport.clock_condition [OF hb wf] by (simp add: lamport_stamps_def)
    then have less: "lt_lt (fst (el_events l ! a)) (fst (el_events l ! b))" using stamp ab by (simp add: lt_lt_def)
    have "el_events l ! a \<in> set (el_ordered l)" "el_events l ! b \<in> set (el_ordered l)"
      using ab len by (simp_all add: el_ordered_def)
    then obtain i j where ij: "i < length (el_ordered l)" "j < length (el_ordered l)" "el_ordered l ! i = el_events l ! a" "el_ordered l ! j = el_events l ! b"
      by (auto simp: in_set_conv_nth)
    have "\<not> j < i"
    proof
      assume "j < i"
      then have "lt_lt (fst (el_ordered l ! j)) (fst (el_ordered l ! i))" using sorted_wrt_nth_less [OF strict] ij(1) by blast
      then show False using less lt_total_order(1,2) unfolding ij by blast
    qed
    moreover have "i \<noteq> j" using ij less lt_total_order(1) by auto
    ultimately have "i < j" by simp
    then show ?thesis using ij by blast
  qed
  with perm len strict show ?thesis by blast
qed

end
