(* ===== verification/Replicated_Db.thy ===== *)
theory Replicated_Db
  imports Clocks
begin

text \<open>
  The replicated database of \<open>clock-skew-simulator/examples/distributed_database.py\<close>: writes are stamped with
  the replica's vector clock and a replica keeps, of the writes of a key that it hears of, one that no other
  is after. Replication is a set of messages that may be delivered to any replica, in any order, any number
  of times.
\<close>

section \<open>ReplicatedDB\<close>

record 'v replicated_db =
  db_node_id :: string
  db_peers :: "string list"
  db_store :: "(string, 'v) dict"
  db_clock :: vector_clock
  db_versions :: "(string, (string, int) dict) dict"

definition db_init :: "string \<Rightarrow> string list \<Rightarrow> 'v replicated_db" where
  "db_init node_id peers =
     \<lparr>db_node_id = node_id, db_peers = peers, db_store = [], db_clock = vc_init node_id peers, db_versions = []\<rparr>"

text \<open>\<open>put\<close>, with the update that \<open>replicate\<close> announces to the peers.\<close>

definition db_put :: "'v replicated_db \<Rightarrow> string \<Rightarrow> 'v \<Rightarrow> 'v replicated_db \<times> (string, int) dict" where
  "db_put d key value =
     (let (clock, stamp) = vc_tick (db_clock d)
      in (d\<lparr>db_clock := clock, db_store := dict_set key value (db_store d), db_versions := dict_set key stamp (db_versions d)\<rparr>, stamp))"

definition db_happens_before :: "(string, int) dict \<Rightarrow> (string, int) dict \<Rightarrow> bool" where
  "db_happens_before v1 v2 =
     (let ks = remdups (map fst v1 @ map fst v2);
          le = list_all (\<lambda>k. dict_get v1 k 0 \<le> dict_get v2 k 0) ks;
          lt = list_ex (\<lambda>k. dict_get v1 k 0 < dict_get v2 k 0) ks
      in le \<and> lt)"

definition db_receive :: "'v replicated_db \<Rightarrow> string \<Rightarrow> string \<Rightarrow> 'v \<Rightarrow> (string, int) dict \<Rightarrow> 'v replicated_db" where
  "db_receive d0 sender key value stamp =
     (let d = d0\<lparr>db_clock := fst (vc_receive (db_clock d0) sender stamp)\<rparr>;
          accepted = d\<lparr>db_store := dict_set key value (db_store d), db_versions := dict_set key stamp (db_versions d)\<rparr>
      in case map_of (db_versions d) key of
           None \<Rightarrow> accepted
         | Some current_version \<Rightarrow>
             if db_happens_before current_version stamp then accepted
             else if db_happens_before stamp current_version then d else d)"

section \<open>The system\<close>

text \<open>\<open>sy_sent\<close>: the updates announced so far. \<open>sy_seen\<close> is a ghost: the writes a replica has made or heard of.\<close>

record 'v db_system =
  sy_dbs :: "string \<Rightarrow> 'v replicated_db"
  sy_sent :: "(string \<times> string \<times> 'v \<times> (string, int) dict) set"
  sy_seen :: "string \<Rightarrow> (string \<times> 'v \<times> (string, int) dict) set"

inductive db_reachable :: "string list \<Rightarrow> 'v db_system \<Rightarrow> bool" for ids where
  db_start: "db_reachable ids \<lparr>sy_dbs = (\<lambda>i. db_init i (remove1 i ids)), sy_sent = {}, sy_seen = (\<lambda>_. {})\<rparr>"
| db_write: "db_reachable ids s \<Longrightarrow> i \<in> set ids \<Longrightarrow> db_put (sy_dbs s i) key v = (d, stamp) \<Longrightarrow>
    db_reachable ids \<lparr>sy_dbs = (sy_dbs s)(i := d), sy_sent = insert (i, key, v, stamp) (sy_sent s),
      sy_seen = (sy_seen s)(i := insert (key, v, stamp) (sy_seen s i))\<rparr>"
| db_deliver: "db_reachable ids s \<Longrightarrow> i \<in> set ids \<Longrightarrow> (j, key, v, stamp) \<in> sy_sent s \<Longrightarrow>
    db_reachable ids (s\<lparr>sy_dbs := (sy_dbs s)(i := db_receive (sy_dbs s i) j key v stamp),
      sy_seen := (sy_seen s)(i := insert (key, v, stamp) (sy_seen s i))\<rparr>)"

section \<open>The order of the versions\<close>

definition vle :: "string list \<Rightarrow> (string, int) dict \<Rightarrow> (string, int) dict \<Rightarrow> bool" where
  "vle ids v w \<longleftrightarrow> (\<forall>k\<in>set ids. dict_get v k 0 \<le> dict_get w k 0)"

lemma vle_trans: "vle ids u v \<Longrightarrow> vle ids v w \<Longrightarrow> vle ids u w"
  unfolding vle_def using order_trans by blast

lemma db_happens_before_iff:
  assumes "full_vector ids v" and "full_vector ids w"
  shows "db_happens_before v w \<longleftrightarrow> vle ids v w \<and> \<not> vle ids w v"
proof -
  have "set (remdups (map fst v @ map fst w)) = set ids" using full_vector_keys [OF assms(1)] full_vector_keys [OF assms(2)] by simp
  then have "db_happens_before v w \<longleftrightarrow> (\<forall>k\<in>set ids. dict_get v k 0 \<le> dict_get w k 0) \<and> (\<exists>k\<in>set ids. dict_get v k 0 < dict_get w k 0)"
    by (simp only: db_happens_before_def Let_def list_all_iff list_ex_iff)
  then show ?thesis by (auto simp: vle_def not_le)
qed

text \<open>A replica's stored version of a key, against the writes it has seen.\<close>

definition holds_latest :: "string list \<Rightarrow> 'v replicated_db \<Rightarrow> (string \<times> 'v \<times> (string, int) dict) set \<Rightarrow> string \<Rightarrow> bool" where
  "holds_latest ids d seen key \<longleftrightarrow>
     (case map_of (db_versions d) key of
        None \<Rightarrow> map_of (db_store d) key = None \<and> (\<forall>v t. (key, v, t) \<notin> seen)
      | Some t \<Rightarrow> (\<exists>v. map_of (db_store d) key = Some v \<and> (key, v, t) \<in> seen) \<and>
          (\<forall>v' t'. (key, v', t') \<in> seen \<longrightarrow> \<not> (vle ids t t' \<and> \<not> vle ids t' t)))"

definition db_ok :: "string list \<Rightarrow> string \<Rightarrow> 'v replicated_db \<Rightarrow> (string \<times> 'v \<times> (string, int) dict) set \<Rightarrow> bool" where
  "db_ok ids i d seen \<longleftrightarrow> full_vector ids (vc_vector (db_clock d)) \<and> vc_node_id (db_clock d) = i \<and>
     (\<forall>(k, v, t)\<in>seen. full_vector ids t \<and> vle ids t (vc_vector (db_clock d))) \<and> (\<forall>key. holds_latest ids d seen key)"

lemma holds_clock [simp]: "holds_latest ids (d\<lparr>db_clock := c\<rparr>) seen key = holds_latest ids d seen key"
  by (simp add: holds_latest_def split: option.split)

text \<open>A write that none of those seen is after may be stored.\<close>

lemma holds_store:
  assumes old: "\<And>key. holds_latest ids d seen key"
    and newer: "\<And>v' t'. (key, v', t') \<in> seen \<Longrightarrow> \<not> (vle ids t t' \<and> \<not> vle ids t' t)"
  shows "holds_latest ids (d\<lparr>db_store := dict_set key v (db_store d), db_versions := dict_set key t (db_versions d)\<rparr>) (insert (key, v, t) seen) key'"
proof (cases "key' = key")
  case True
  then show ?thesis using newer by (auto simp: holds_latest_def update_conv')
next
  case False
  then show ?thesis using old [of key'] by (simp add: holds_latest_def update_conv' split: option.splits)
qed

lemma holds_keep:
  assumes old: "\<And>key. holds_latest ids d seen key" and current: "map_of (db_versions d) key = Some t0"
    and not_after: "\<not> (vle ids t0 t \<and> \<not> vle ids t t0)"
  shows "holds_latest ids d (insert (key, v, t) seen) key'"
proof (cases "key' = key")
  case True
  then show ?thesis using old [of key] current not_after by (auto simp: holds_latest_def)
next
  case False
  then show ?thesis using old [of key'] by (auto simp: holds_latest_def split: option.splits)
qed

lemma db_put_ok:
  assumes ok: "db_ok ids i d seen" and i: "i \<in> set ids" and put: "db_put d key v = (d', t)"
  shows "db_ok ids i d' (insert (key, v, t) seen) \<and> full_vector ids t \<and> t = vc_vector (db_clock d') \<and>
    (\<forall>k. dict_get t k 0 = dict_get (vc_vector (db_clock d)) k 0 + (if k = i then 1 else 0))"
proof -
  let ?c = "vc_advance (db_clock d)"
  have clock: "full_vector ids (vc_vector (db_clock d))" "vc_node_id (db_clock d) = i" using ok by (simp_all add: db_ok_def)
  have d': "d' = d\<lparr>db_clock := ?c, db_store := dict_set key v (db_store d), db_versions := dict_set key t (db_versions d)\<rparr>"
    and t: "t = vc_vector ?c" using put by (auto simp: db_put_def vc_tick_def Let_def)
  have adv: "full_vector ids t" "vc_node_id ?c = i"
    "\<And>k. dict_get t k 0 = dict_get (vc_vector (db_clock d)) k 0 + (if k = i then 1 else 0)"
    using vc_advance_vector [OF clock(1)] clock(2) i by (auto simp: t)
  then have grows: "vle ids (vc_vector (db_clock d)) t" by (simp add: vle_def)
  have seen: "full_vector ids t' \<and> vle ids t' t \<and> \<not> vle ids t t'" if "(k, v', t') \<in> seen" for k v' t'
  proof -
    have t': "full_vector ids t'" "vle ids t' (vc_vector (db_clock d))" using ok that by (auto simp: db_ok_def)
    have "dict_get t' i 0 < dict_get t i 0" using t'(2) adv(3) [of i] i by (auto simp: vle_def less_le_trans dest: bspec)
    then have "\<not> vle ids t t'" using i by (auto simp: vle_def not_le)
    then show ?thesis using t' vle_trans grows by blast
  qed
  have "holds_latest ids d' (insert (key, v, t) seen) key'" for key'
    unfolding d' using holds_store [of ids "d\<lparr>db_clock := ?c\<rparr>" seen key t v key'] ok seen by (simp add: db_ok_def)
  moreover have "vle ids t' (vc_vector (db_clock d')) \<and> full_vector ids t'" if "(k, v', t') \<in> insert (key, v, t) seen" for k v' t'
    using that seen adv(1) by (auto simp: d' t vle_def)
  ultimately show ?thesis using adv t by (auto simp: db_ok_def d')
qed

lemma db_receive_ok:
  assumes ok: "db_ok ids i d seen" and i: "i \<in> set ids" and t: "full_vector ids t"
  shows "db_ok ids i (db_receive d j key v t) (insert (key, v, t) seen) \<and>
    (\<forall>k. dict_get (vc_vector (db_clock (db_receive d j key v t))) k 0 =
       max (dict_get (vc_vector (db_clock d)) k 0) (dict_get t k 0) + (if k = i then 1 else 0))"
proof -
  obtain c w where recv: "vc_receive (db_clock d) j t = (c, w)" by fastforce
  have clock: "full_vector ids (vc_vector (db_clock d))" "vc_node_id (db_clock d) = i" using ok by (simp_all add: db_ok_def)
  have c: "full_vector ids (vc_vector c)" "vc_node_id c = i"
    "\<And>k. dict_get (vc_vector c) k 0 = max (dict_get (vc_vector (db_clock d)) k 0) (dict_get t k 0) + (if k = i then 1 else 0)"
  proof -
    have received: "w = vc_vector c \<and> full_vector ids w \<and> vc_node_id c = vc_node_id (db_clock d) \<and>
        dict_get w k 0 = max (dict_get (vc_vector (db_clock d)) k 0) (dict_get t k 0) + (if k = vc_node_id (db_clock d) then 1 else 0)" for k
      by (rule vc_receive_vector [OF clock(1) _ t recv]) (use clock(2) i in simp)
    show "full_vector ids (vc_vector c)" "vc_node_id c = i" using received clock(2) by auto
    show "dict_get (vc_vector c) k 0 = max (dict_get (vc_vector (db_clock d)) k 0) (dict_get t k 0) + (if k = i then 1 else 0)" for k
      using received [of k] clock(2) by metis
  qed
  let ?d = "d\<lparr>db_clock := c\<rparr>"
  have old: "holds_latest ids ?d seen k" for k using ok by (simp add: db_ok_def)
  have full: "full_vector ids t'" "vle ids t' (vc_vector (db_clock d))" if "(k, v', t') \<in> seen" for k v' t'
    using ok that by (auto simp: db_ok_def)
  have d': "db_clock (db_receive d j key v t) = c"
    by (simp add: db_receive_def Let_def recv split: option.split)
  have "holds_latest ids (db_receive d j key v t) (insert (key, v, t) seen) key'" for key'
  proof (cases "map_of (db_versions d) key")
    case None
    then have "(key, v', t') \<notin> seen" for v' t' using old [of key] by (simp add: holds_latest_def)
    then show ?thesis using holds_store [OF old, of key t v key'] None by (simp add: db_receive_def Let_def recv)
  next
    case (Some t0)
    have t0: "full_vector ids t0" "\<And>v' t'. (key, v', t') \<in> seen \<Longrightarrow> \<not> (vle ids t0 t' \<and> \<not> vle ids t' t0)"
      using old [of key] Some full by (auto simp: holds_latest_def)
    have hb: "db_happens_before t0 t \<longleftrightarrow> vle ids t0 t \<and> \<not> vle ids t t0" by (rule db_happens_before_iff [OF t0(1) t])
    show ?thesis
    proof (cases "db_happens_before t0 t")
      case True
      then have "\<not> (vle ids t t' \<and> \<not> vle ids t' t)" if "(key, v', t') \<in> seen" for v' t'
        using t0(2) [OF that] hb vle_trans by blast
      then show ?thesis using holds_store [OF old, of key t v key'] Some True by (simp add: db_receive_def Let_def recv)
    next
      case False
      then show ?thesis using holds_keep [OF old, of key t0 t v key'] Some False hb by (auto simp: db_receive_def Let_def recv)
    qed
  qed
  moreover have "full_vector ids t' \<and> vle ids t' (vc_vector c)" if "(k, v', t') \<in> insert (key, v, t) seen" for k v' t'
  proof (cases "(k, v', t') = (key, v, t)")
    case True
    then show ?thesis using t c(3) by (auto simp: vle_def)
  next
    case False
    then have "full_vector ids t'" "vle ids t' (vc_vector (db_clock d))" using full that by blast+
    moreover have "vle ids (vc_vector (db_clock d)) (vc_vector c)" using c(3) by (auto simp: vle_def)
    ultimately show ?thesis using vle_trans by blast
  qed
  ultimately show ?thesis using c d' by (auto simp: db_ok_def)
qed

section \<open>Every run\<close>

abbreviation own_time :: "'v db_system \<Rightarrow> string \<Rightarrow> string \<Rightarrow> int" where
  "own_time s i k \<equiv> dict_get (vc_vector (db_clock (sy_dbs s i))) k 0"

text \<open>Nobody knows more of a replica's writes than the replica, so a stamp belongs to one write.\<close>

definition sys_ok :: "string list \<Rightarrow> 'v db_system \<Rightarrow> bool" where
  "sys_ok ids s \<longleftrightarrow> (\<forall>i\<in>set ids. db_ok ids i (sy_dbs s i) (sy_seen s i)) \<and>
     (\<forall>j k v t. (j, k, v, t) \<in> sy_sent s \<longrightarrow> full_vector ids t \<and> (\<forall>x\<in>set ids. dict_get t x 0 \<le> own_time s x x)) \<and>
     (\<forall>i\<in>set ids. \<forall>k v t. (k, v, t) \<in> sy_seen s i \<longrightarrow> (\<exists>j. (j, k, v, t) \<in> sy_sent s)) \<and>
     (\<forall>i\<in>set ids. \<forall>x\<in>set ids. own_time s i x \<le> own_time s x x) \<and>
     (\<forall>j k v j' k' v' t. (j, k, v, t) \<in> sy_sent s \<longrightarrow> (j', k', v', t) \<in> sy_sent s \<longrightarrow> k = k' \<and> v = v')"

lemma sys_okD:
  assumes "sys_ok ids s"
  shows "i \<in> set ids \<Longrightarrow> db_ok ids i (sy_dbs s i) (sy_seen s i)"
    and "(j, k, v, t) \<in> sy_sent s \<Longrightarrow> full_vector ids t"
    and "(j, k, v, t) \<in> sy_sent s \<Longrightarrow> x \<in> set ids \<Longrightarrow> dict_get t x 0 \<le> own_time s x x"
    and "i \<in> set ids \<Longrightarrow> (k, v, t) \<in> sy_seen s i \<Longrightarrow> \<exists>j. (j, k, v, t) \<in> sy_sent s"
    and "i \<in> set ids \<Longrightarrow> x \<in> set ids \<Longrightarrow> own_time s i x \<le> own_time s x x"
    and "(j, k, v, t) \<in> sy_sent s \<Longrightarrow> (j', k', v', t) \<in> sy_sent s \<Longrightarrow> k = k' \<and> v = v'"
  using assms by (auto simp: sys_ok_def)

lemma sys_ok_start:
  "sys_ok ids (\<lparr>sy_dbs = (\<lambda>i. db_init i (remove1 i ids)), sy_sent = {}, sy_seen = (\<lambda>_. {})\<rparr> :: 'v db_system)"
proof -
  have "db_ok ids i (db_init i (remove1 i ids) :: 'v replicated_db) {}" if "i \<in> set ids" for i
    using vc_init_vector [OF that] by (simp add: db_ok_def db_init_def holds_latest_def)
  moreover have "dict_get (vc_vector (vc_init i (remove1 i ids))) k 0 = 0" if "i \<in> set ids" for i k
    using vc_init_vector [OF that, of k] by simp
  ultimately show ?thesis by (simp add: sys_ok_def) (simp add: db_init_def)
qed

lemma sys_ok_write:
  assumes ok: "sys_ok ids s" and i: "i \<in> set ids" and put: "db_put (sy_dbs s i) key v = (d, t)"
  shows "sys_ok ids \<lparr>sy_dbs = (sy_dbs s)(i := d), sy_sent = insert (i, key, v, t) (sy_sent s),
    sy_seen = (sy_seen s)(i := insert (key, v, t) (sy_seen s i))\<rparr>" (is "sys_ok ids ?s")
proof -
  note inv = sys_okD [OF ok]
  from db_put_ok [OF inv(1) [OF i] i put] have new: "db_ok ids i d (insert (key, v, t) (sy_seen s i))" "full_vector ids t"
    "t = vc_vector (db_clock d)" "\<And>k. dict_get t k 0 = own_time s i k + (if k = i then 1 else 0)" by blast+
  have time: "own_time ?s x k = own_time s x k + (if x = i \<and> k = i then 1 else 0)" for x k
    using new(4) [of k] by (auto simp: new(3) [symmetric])
  have grows: "own_time s x k \<le> own_time ?s x k" for x k using time [of x k] by simp
  have fresh: "t' \<noteq> t" if "(j, k, v', t') \<in> sy_sent s" for j k v' t'
    using inv(3) [OF that i] new(4) [of i] by auto
  have "db_ok ids x (sy_dbs ?s x) (sy_seen ?s x)" if "x \<in> set ids" for x using inv(1) [OF that] new(1) by simp
  moreover have "full_vector ids t' \<and> (\<forall>x\<in>set ids. dict_get t' x 0 \<le> own_time ?s x x)" if sent: "(j, k, v', t') \<in> sy_sent ?s" for j k v' t'
  proof (cases "(j, k, v', t') \<in> sy_sent s")
    case True
    then show ?thesis using inv(2,3) [OF True] grows order_trans by blast
  next
    case False
    then have "t' = t" using sent by auto
    then show ?thesis using new(2,4) inv(5) [OF i] time by (auto simp: new(3) [symmetric])
  qed
  moreover have "\<exists>j. (j, k, v', t') \<in> sy_sent ?s" if "x \<in> set ids" "(k, v', t') \<in> sy_seen ?s x" for x k v' t'
    using that inv(4) [of x k v' t'] by (auto split: if_splits)
  moreover have "own_time ?s x y \<le> own_time ?s y y" if "x \<in> set ids" "y \<in> set ids" for x y
    unfolding time using inv(5) [OF that] by auto
  moreover have "k = k' \<and> v' = v''" if "(j, k, v', t') \<in> sy_sent ?s" "(j', k', v'', t') \<in> sy_sent ?s" for j k v' j' k' v'' t'
    using that inv(6) [of j k v' t' j' k' v''] fresh by auto
  ultimately show ?thesis unfolding sys_ok_def by blast
qed

lemma sys_ok_deliver:
  assumes ok: "sys_ok ids s" and i: "i \<in> set ids" and sent: "(j, key, v, t) \<in> sy_sent s"
  shows "sys_ok ids (s\<lparr>sy_dbs := (sy_dbs s)(i := db_receive (sy_dbs s i) j key v t),
    sy_seen := (sy_seen s)(i := insert (key, v, t) (sy_seen s i))\<rparr>)" (is "sys_ok ids ?s")
proof -
  note inv = sys_okD [OF ok]
  from db_receive_ok [OF inv(1) [OF i] i inv(2) [OF sent]] have new:
    "db_ok ids i (db_receive (sy_dbs s i) j key v t) (insert (key, v, t) (sy_seen s i))"
    "\<And>k. own_time ?s i k = max (own_time s i k) (dict_get t k 0) + (if k = i then 1 else 0)" by simp_all
  have other: "own_time ?s x k = own_time s x k" if "x \<noteq> i" for x k using that by simp
  have grows: "own_time s x x \<le> own_time ?s x x" for x using new(2) [of x] by (cases "x = i") simp_all
  have "db_ok ids x (sy_dbs ?s x) (sy_seen ?s x)" if "x \<in> set ids" for x using inv(1) [OF that] new(1) by simp
  moreover have "full_vector ids t' \<and> (\<forall>x\<in>set ids. dict_get t' x 0 \<le> own_time ?s x x)" if "(j', k, v', t') \<in> sy_sent ?s" for j' k v' t'
  proof -
    have "(j', k, v', t') \<in> sy_sent s" using that by simp
    then show ?thesis using inv(2,3) grows order_trans by blast
  qed
  moreover have "\<exists>j. (j, k, v', t') \<in> sy_sent ?s" if "x \<in> set ids" "(k, v', t') \<in> sy_seen ?s x" for x k v' t'
    using that inv(4) [of x k v' t'] sent by (auto split: if_splits)
  moreover have "own_time ?s x y \<le> own_time ?s y y" if "x \<in> set ids" "y \<in> set ids" for x y
  proof (cases "x = i")
    case True
    have "own_time s i y \<le> own_time s y y" "dict_get t y 0 \<le> own_time s y y" using inv(5) [OF i that(2)] inv(3) [OF sent that(2)] by blast+
    then show ?thesis using True new(2) [of y] grows [of y] by (cases "y = i") auto
  next
    case False
    then show ?thesis using inv(5) [OF that] grows [of y] other [OF False, of y] by linarith
  qed
  moreover have "k = k' \<and> v' = v''" if "(j, k, v', t') \<in> sy_sent ?s" "(j', k', v'', t') \<in> sy_sent ?s" for j k v' j' k' v'' t'
    using that inv(6) [of j k v' t' j' k' v''] by simp
  ultimately show ?thesis unfolding sys_ok_def by blast
qed

lemma db_reachable_ok: "db_reachable ids s \<Longrightarrow> sys_ok ids s"
  by (induction rule: db_reachable.induct) (auto intro: sys_ok_start sys_ok_write sys_ok_deliver)

text \<open>
  In every run, a replica has a value for a key exactly if it has made or heard of a write of it, the value
  and version are those of such a write, and no write of the key that it knows of is after that one; if one
  of the writes it knows of is after all the others, that is the one it holds. What is concurrent stays
  undecided: of two writes that neither is after, the one stored first stays.
\<close>

theorem replicated_db_holds_latest:
  assumes "db_reachable ids s" and "i \<in> set ids"
  shows "(map_of (db_store (sy_dbs s i)) key = None \<longleftrightarrow> (\<forall>v t. (key, v, t) \<notin> sy_seen s i)) \<and>
    (\<forall>v. map_of (db_store (sy_dbs s i)) key = Some v \<longrightarrow>
      (\<exists>t. map_of (db_versions (sy_dbs s i)) key = Some t \<and> (key, v, t) \<in> sy_seen s i \<and>
        (\<forall>v' t'. (key, v', t') \<in> sy_seen s i \<longrightarrow> \<not> db_happens_before t t'))) \<and>
    (\<forall>v t. (key, v, t) \<in> sy_seen s i \<longrightarrow>
      (\<forall>v' t'. (key, v', t') \<in> sy_seen s i \<longrightarrow> t' = t \<or> db_happens_before t' t) \<longrightarrow>
      map_of (db_store (sy_dbs s i)) key = Some v)"
proof -
  let ?d = "sy_dbs s i" and ?seen = "sy_seen s i"
  note ok = db_reachable_ok [OF assms(1)]
  have inv: "db_ok ids i ?d ?seen" by (rule sys_okD(1) [OF ok assms(2)])
  have full: "full_vector ids t" if "(k, v, t) \<in> ?seen" for k v t using inv that by (auto simp: db_ok_def)
  have holds: "holds_latest ids ?d ?seen key" using inv by (simp add: db_ok_def)
  show ?thesis
  proof (cases "map_of (db_versions ?d) key")
    case None
    then show ?thesis using holds by (simp add: holds_latest_def)
  next
    case (Some t)
    then obtain v where v: "map_of (db_store ?d) key = Some v" "(key, v, t) \<in> ?seen"
      and latest: "\<And>v' t'. (key, v', t') \<in> ?seen \<Longrightarrow> \<not> db_happens_before t t'"
      using holds db_happens_before_iff [OF full full] by (auto simp: holds_latest_def)
    have "map_of (db_store ?d) key = Some v'"
      if last: "(key, v', t') \<in> ?seen" "\<forall>v'' t''. (key, v'', t'') \<in> ?seen \<longrightarrow> t'' = t' \<or> db_happens_before t'' t'" for v' t'
    proof -
      have "t = t'" using last v(2) latest by blast
      moreover obtain j j' where "(j, key, v, t) \<in> sy_sent s" "(j', key, v', t') \<in> sy_sent s"
        using sys_okD(4) [OF ok assms(2)] v(2) last(1) by blast
      ultimately have "v = v'" using sys_okD(6) [OF ok] by blast
      then show ?thesis using v(1) by simp
    qed
    then show ?thesis using v Some latest by auto
  qed
qed

text \<open>The steps as functions, and the first part of the program's \<open>main\<close>: a replicated write, then two concurrent ones.\<close>

definition db_write_step :: "string \<Rightarrow> string \<Rightarrow> 'v \<Rightarrow> 'v db_system \<Rightarrow> 'v db_system" where
  "db_write_step i key v s =
     (let (d, stamp) = db_put (sy_dbs s i) key v
      in \<lparr>sy_dbs = (sy_dbs s)(i := d), sy_sent = insert (i, key, v, stamp) (sy_sent s),
          sy_seen = (sy_seen s)(i := insert (key, v, stamp) (sy_seen s i))\<rparr>)"

definition db_deliver_step :: "string \<Rightarrow> string \<Rightarrow> string \<Rightarrow> 'v \<Rightarrow> (string, int) dict \<Rightarrow> 'v db_system \<Rightarrow> 'v db_system" where
  "db_deliver_step i j key v stamp s =
     (if (j, key, v, stamp) \<in> sy_sent s
      then s\<lparr>sy_dbs := (sy_dbs s)(i := db_receive (sy_dbs s i) j key v stamp),
             sy_seen := (sy_seen s)(i := insert (key, v, stamp) (sy_seen s i))\<rparr>
      else s)"

lemma db_write_reachable: "db_reachable ids s \<Longrightarrow> i \<in> set ids \<Longrightarrow> db_reachable ids (db_write_step i key v s)"
  by (auto simp: db_write_step_def split: prod.split intro: db_write)

lemma db_deliver_reachable: "db_reachable ids s \<Longrightarrow> i \<in> set ids \<Longrightarrow> db_reachable ids (db_deliver_step i j key v stamp s)"
  by (simp add: db_deliver_step_def db_deliver)

abbreviation "replicas \<equiv> [''R1'', ''R2'', ''R3'']"

definition db_main_run :: "string db_system" where
  "db_main_run = db_write_step ''R2'' ''key1'' ''value3'' (db_write_step ''R1'' ''key1'' ''value2''
     (db_deliver_step ''R2'' ''R1'' ''key1'' ''value1'' [(''R1'', 1), (''R2'', 0), (''R3'', 0)]
       (db_write_step ''R1'' ''key1'' ''value1''
         \<lparr>sy_dbs = (\<lambda>i. db_init i (remove1 i replicas)), sy_sent = {}, sy_seen = (\<lambda>_. {})\<rparr>)))"

lemma db_main_run_reachable: "db_reachable replicas db_main_run"
  unfolding db_main_run_def by (intro db_write_reachable db_deliver_reachable db_start) simp_all

theorem replicated_db_holds_latest_witness:
  "map_of (db_store (sy_dbs db_main_run ''R1'')) ''key1'' = Some ''value2'' \<and>
   map_of (db_store (sy_dbs db_main_run ''R2'')) ''key1'' = Some ''value3''"
proof -
  let ?v1 = "(''key1'', ''value1'', [(''R1'', 1), (''R2'', 0), (''R3'', 0)])"
  let ?v2 = "(''key1'', ''value2'', [(''R1'', 2), (''R2'', 0), (''R3'', 0)])"
  let ?v3 = "(''key1'', ''value3'', [(''R1'', 1), (''R2'', 2), (''R3'', 0)])"
  have seen: "sy_seen db_main_run ''R1'' = {?v1, ?v2}" "sy_seen db_main_run ''R2'' = {?v1, ?v3}" by code_simp+
  have before: "db_happens_before (snd (snd ?v1)) (snd (snd ?v2))" "db_happens_before (snd (snd ?v1)) (snd (snd ?v3))" by code_simp+
  have R: "''R1'' \<in> set replicas" "''R2'' \<in> set replicas" by simp_all
  show ?thesis
    using replicated_db_holds_latest [OF db_main_run_reachable R(1), of "''key1''"]
      replicated_db_holds_latest [OF db_main_run_reachable R(2), of "''key1''"] seen before by auto
qed

text \<open>
  When R1 then hears of R2's write it finds the two concurrent and keeps its own: the program prints that a
  strategy is needed, and without one the replicas differ for good.
\<close>

theorem replicated_db_conflict_stays:
  "db_reachable replicas (db_deliver_step ''R1'' ''R2'' ''key1'' ''value3'' [(''R1'', 1), (''R2'', 2), (''R3'', 0)] db_main_run) \<and>
   db_store (sy_dbs (db_deliver_step ''R1'' ''R2'' ''key1'' ''value3'' [(''R1'', 1), (''R2'', 2), (''R3'', 0)] db_main_run) ''R1'') =
     [(''key1'', ''value2'')]"
proof
  show "db_reachable replicas (db_deliver_step ''R1'' ''R2'' ''key1'' ''value3'' [(''R1'', 1), (''R2'', 2), (''R3'', 0)] db_main_run)"
    by (rule db_deliver_reachable [OF db_main_run_reachable]) simp
  show "db_store (sy_dbs (db_deliver_step ''R1'' ''R2'' ''key1'' ''value3'' [(''R1'', 1), (''R2'', 2), (''R3'', 0)] db_main_run) ''R1'') =
     [(''key1'', ''value2'')]" by code_simp
qed

end
