(* ===== verification/Gossip_Store.thy ===== *)
theory Gossip_Store
  imports Crdt_Base Json "HOL-Library.Product_Lexorder"
begin

text \<open>
  \<open>gossip-protocol/src/state_store.py\<close>: the versioned entries of a gossip node and their merge. An
  entry is identified by its key and its tag, the pair of version and writer, that the merge
  compares; with respect to a set of entries in which tags are unique the merge of stores is a join.
\<close>

section \<open>The store\<close>

record state_entry =
  se_key :: string
  se_value :: json
  se_version :: int
  se_timestamp :: time
  se_node_id :: string
  se_tombstone :: bool

record state_store =
  ss_node_id :: string
  ss_store :: "(string, state_entry) dict"

definition ss_init :: "string \<Rightarrow> state_store" where
  "ss_init node_id = \<lparr>ss_node_id = node_id, ss_store = []\<rparr>"

definition ss_get_entry :: "state_store \<Rightarrow> string \<Rightarrow> state_entry option" where
  "ss_get_entry s key = map_of (ss_store s) key"

text \<open>The value None of Python is \<open>JNull\<close>.\<close>

definition ss_get :: "state_store \<Rightarrow> string \<Rightarrow> json" where
  "ss_get s key =
     (case map_of (ss_store s) key of None \<Rightarrow> JNull | Some e \<Rightarrow> if \<not> se_tombstone e then se_value e else JNull)"

definition ss_set :: "state_store \<Rightarrow> string \<Rightarrow> json \<Rightarrow> time \<Rightarrow> state_store \<times> state_entry" where
  "ss_set s key val now =
     (let version = (case map_of (ss_store s) key of None \<Rightarrow> 1 | Some existing \<Rightarrow> se_version existing + 1);
          entry = \<lparr>se_key = key, se_value = val, se_version = version, se_timestamp = now, se_node_id = ss_node_id s, se_tombstone = False\<rparr>
      in (s\<lparr>ss_store := dict_set key entry (ss_store s)\<rparr>, entry))"

definition ss_delete :: "state_store \<Rightarrow> string \<Rightarrow> time \<Rightarrow> state_store \<times> state_entry option" where
  "ss_delete s key now =
     (case map_of (ss_store s) key of
        None \<Rightarrow> (s, None)
      | Some existing \<Rightarrow>
          if se_tombstone existing then (s, None)
          else let entry = \<lparr>se_key = key, se_value = JNull, se_version = se_version existing + 1, se_timestamp = now,
                            se_node_id = ss_node_id s, se_tombstone = True\<rparr>
               in (s\<lparr>ss_store := dict_set key entry (ss_store s)\<rparr>, Some entry))"

definition ss_merge :: "state_store \<Rightarrow> state_entry \<Rightarrow> state_store \<times> bool" where
  "ss_merge s entry =
     (let applied = (s\<lparr>ss_store := dict_set (se_key entry) entry (ss_store s)\<rparr>, True)
      in case map_of (ss_store s) (se_key entry) of
           None \<Rightarrow> applied
         | Some existing \<Rightarrow>
             if se_version entry > se_version existing then applied
             else if se_version entry = se_version existing
             then (if se_node_id entry > se_node_id existing then applied else (s, False))
             else (s, False))"

definition ss_get_all_entries :: "state_store \<Rightarrow> state_entry list" where
  "ss_get_all_entries s = map snd (ss_store s)"

definition ss_get_digest :: "state_store \<Rightarrow> (string, int) dict" where
  "ss_get_digest s = map (\<lambda>(key, entry). (key, se_version entry)) (ss_store s)"

definition ss_get_delta :: "state_store \<Rightarrow> (string, int) dict \<Rightarrow> state_entry list" where
  "ss_get_delta s digest =
     map snd (filter (\<lambda>(key, entry). se_version entry > dict_get digest key 0) (ss_store s))"

section \<open>Tags and views\<close>

definition tag :: "state_entry \<Rightarrow> int \<times> string" where
  "tag e = (se_version e, se_node_id e)"

definition later :: "state_entry option \<Rightarrow> state_entry option \<Rightarrow> state_entry option" where
  "later x y = (case (x, y) of (None, _) \<Rightarrow> y | (_, None) \<Rightarrow> x | (Some e, Some f) \<Rightarrow> if tag f > tag e then Some f else Some e)"

definition ss_view :: "state_store \<Rightarrow> string \<Rightarrow> state_entry option" where
  "ss_view s = map_of (ss_store s)"

lemma later_simps [simp]: "later None y = y" "later x None = x" "later x x = x"
  by (simp_all add: later_def split: option.split)

lemma later_assoc: "later (later x y) z = later x (later y z)"
  by (cases x; cases y; cases z) (auto simp: later_def)

lemma later_commute: "(\<And>e f. x = Some e \<Longrightarrow> y = Some f \<Longrightarrow> tag e = tag f \<Longrightarrow> e = f) \<Longrightarrow> later x y = later y x"
  by (cases x; cases y) (auto simp: later_def)

lemma ss_merge_view: "ss_view (fst (ss_merge s e)) = (ss_view s)(se_key e := later (ss_view s (se_key e)) (Some e))"
  by (auto simp: ss_view_def ss_merge_def later_def tag_def Let_def update_conv' fun_eq_iff split: option.split)

lemma ss_merge_applied: "snd (ss_merge s e) \<longleftrightarrow> ss_view (fst (ss_merge s e)) \<noteq> ss_view s \<or> ss_view s (se_key e) = None"
  by (auto simp: ss_view_def ss_merge_def Let_def update_conv' fun_eq_iff split: option.split)

lemma ss_merge_node [simp]: "ss_node_id (fst (ss_merge s e)) = ss_node_id s"
  by (simp add: ss_merge_def Let_def split: option.split)

text \<open>Keys are distinct, and an entry is stored under its own key.\<close>

definition ss_wf :: "state_store \<Rightarrow> bool" where
  "ss_wf s \<longleftrightarrow> dict_wf (ss_store s) \<and> list_all (\<lambda>(key, e). se_key e = key) (ss_store s)"

lemma ss_wf_iff: "ss_wf s \<longleftrightarrow> dict_wf (ss_store s) \<and> (\<forall>key e. (key, e) \<in> set (ss_store s) \<longrightarrow> se_key e = key)"
  by (auto simp: ss_wf_def list_all_iff)

lemma ss_wf_view: "ss_wf s \<Longrightarrow> ss_view s key = Some e \<Longrightarrow> se_key e = key"
  by (auto simp: ss_wf_iff ss_view_def dest: map_of_SomeD)

lemma ss_wf_update:
  assumes "ss_wf s" and "se_key e = key"
  shows "ss_wf (s\<lparr>ss_store := dict_set key e (ss_store s)\<rparr>)"
proof -
  have wf: "dict_wf (dict_set key e (ss_store s))" using assms(1) by (simp add: ss_wf_def)
  have "se_key f = k" if f: "(k, f) \<in> set (dict_set key e (ss_store s))" for k f
  proof -
    have "map_of (dict_set key e (ss_store s)) k = Some f" using wf f by simp
    then have "k = key \<and> f = e \<or> map_of (ss_store s) k = Some f" by (auto simp: update_conv' split: if_splits)
    then show ?thesis using assms map_of_SomeD [of "ss_store s" k f] by (auto simp: ss_wf_iff)
  qed
  with wf show ?thesis by (simp add: ss_wf_iff)
qed

lemma ss_merge_wf: "ss_wf s \<Longrightarrow> ss_wf (fst (ss_merge s e))"
  by (simp add: ss_merge_def Let_def ss_wf_update split: option.split)

lemma ss_set_wf: "ss_wf s \<Longrightarrow> ss_wf (fst (ss_set s key v now))"
  by (simp add: ss_set_def Let_def ss_wf_update)

lemma ss_delete_wf: "ss_wf s \<Longrightarrow> ss_wf (fst (ss_delete s key now))"
  by (simp add: ss_delete_def Let_def ss_wf_update split: option.split)

section \<open>Merging whole stores\<close>

text \<open>What a push does: the entries of the sender's store are merged one by one.\<close>

definition merge_entries :: "state_store \<Rightarrow> state_entry list \<Rightarrow> state_store" where
  "merge_entries s es = foldl (\<lambda>s e. fst (ss_merge s e)) s es"

definition merge_store :: "state_store \<Rightarrow> state_store \<Rightarrow> state_store" where
  "merge_store s t = merge_entries s (ss_get_all_entries t)"

lemma merge_entries_wf: "ss_wf s \<Longrightarrow> ss_wf (merge_entries s es) \<and> ss_node_id (merge_entries s es) = ss_node_id s"
  by (induction es arbitrary: s) (simp_all add: merge_entries_def ss_merge_wf)

text \<open>A merged entry is the latest of the own one and those that came in under the key.\<close>

lemma merge_entries_view:
  "ss_view (merge_entries s es) key = foldl later (ss_view s key) (map Some (filter (\<lambda>e. se_key e = key) es))"
  by (induction es arbitrary: s) (auto simp: merge_entries_def ss_merge_view)

lemma merge_store_view:
  assumes "ss_wf t"
  shows "ss_view (merge_store s t) key = later (ss_view s key) (ss_view t key)"
proof -
  have "foldl later x (map Some (filter (\<lambda>e. se_key e = key) (map snd d))) = later x (map_of d key)"
    if "dict_wf d" "\<forall>k e. (k, e) \<in> set d \<longrightarrow> se_key e = k" for d x
    using that
  proof (induction d arbitrary: x)
    case (Cons p d)
    obtain k e where p: "p = (k, e)" by (cases p)
    with Cons.prems have pre: "dict_wf d" "\<forall>k e. (k, e) \<in> set d \<longrightarrow> se_key e = k" "se_key e = k" "k \<notin> fst ` set d" by auto
    show ?case
    proof (cases "k = key")
      case True
      with pre(4) have "map_of d key = None" by (simp add: map_of_eq_None_iff)
      then show ?thesis using Cons.IH [OF pre(1,2)] p pre(3) True by simp
    next
      case False
      then show ?thesis using Cons.IH [OF pre(1,2)] p pre(3) by simp
    qed
  qed simp
  then show ?thesis using assms
    unfolding merge_store_def merge_entries_view ss_get_all_entries_def ss_wf_iff by (simp add: ss_view_def)
qed

definition later_view :: "(string \<Rightarrow> state_entry option) \<Rightarrow> (string \<Rightarrow> state_entry option) \<Rightarrow> string \<Rightarrow> state_entry option" where
  "later_view v w key = later (v key) (w key)"

text \<open>A store whose entries belong to a set of entries in which the tag of a key determines the entry.\<close>

definition tags_unique :: "state_entry set \<Rightarrow> bool" where
  "tags_unique H \<longleftrightarrow> (\<forall>e\<in>H. \<forall>f\<in>H. se_key e = se_key f \<and> tag e = tag f \<longrightarrow> e = f)"

definition ss_ok :: "state_entry set \<Rightarrow> state_store \<Rightarrow> bool" where
  "ss_ok H s \<longleftrightarrow> ss_wf s \<and> tags_unique H \<and> (\<forall>key e. ss_view s key = Some e \<longrightarrow> e \<in> H)"

lemma later_member: "later x y = Some e \<Longrightarrow> x = Some e \<or> y = Some e"
  by (cases x; cases y) (auto simp: later_def split: if_splits)

lemma later_view_commute:
  assumes "ss_ok H s" and "ss_ok H t"
  shows "later_view (ss_view s) (ss_view t) = later_view (ss_view t) (ss_view s)"
proof
  fix key
  show "later_view (ss_view s) (ss_view t) key = later_view (ss_view t) (ss_view s) key"
    unfolding later_view_def
  proof (rule later_commute)
    fix e f assume e: "ss_view s key = Some e" and f: "ss_view t key = Some f" and "tag e = tag f"
    moreover have "se_key e = key" "se_key f = key" using assms e f ss_wf_view by (auto simp: ss_ok_def)
    ultimately show "e = f" using assms by (simp add: ss_ok_def tags_unique_def)
  qed
qed

interpretation store: join_crdt merge_store ss_view later_view "ss_ok H" for H :: "state_entry set"
proof unfold_locales
  show "ss_ok H (merge_store s t)" if "ss_ok H s" "ss_ok H t" for s t
    unfolding ss_ok_def
  proof (intro conjI allI impI)
    show "ss_wf (merge_store s t)" using that merge_entries_wf by (simp add: merge_store_def ss_ok_def)
    show "tags_unique H" using that by (simp add: ss_ok_def)
    show "e \<in> H" if "ss_view (merge_store s t) key = Some e" for key e
      using that \<open>ss_ok H s\<close> \<open>ss_ok H t\<close> later_member [of "ss_view s key" "ss_view t key" e]
      by (auto simp: ss_ok_def merge_store_view)
  qed
  show "later_view (ss_view s) (ss_view t) = later_view (ss_view t) (ss_view s)" if "ss_ok H s" "ss_ok H t" for s t
    using that by (rule later_view_commute)
qed (auto simp: ss_ok_def merge_store_view later_view_def fun_eq_iff later_assoc)

end
