(* ===== verification/Gossip_Node.thy ===== *)
theory Gossip_Node
  imports Gossip_Store Decimal
begin

text \<open>
  \<open>gossip-protocol/src\<close>: the membership list, the part of the failure detector that records
  heartbeats, and the gossip node. A handler returns the node and the messages that it sends with
  their addresses; a random sample is given by the positions drawn; callbacks are names, and their
  calls are recorded. Messages are values: that JSON carries them unchanged is not modelled.
\<close>

section \<open>Membership\<close>

datatype member_status = ALIVE | SUSPECT | DEAD | LEFT

type_synonym address = "string \<times> int"

record member =
  mb_node_id :: string
  mb_address :: address
  mb_status :: member_status
  mb_incarnation :: int
  mb_last_update :: time

record membership =
  ms_local_node_id :: string
  ms_local_address :: address
  ms_members :: "(string, member) dict"

definition ms_update_member ::
    "membership \<Rightarrow> string \<Rightarrow> address \<Rightarrow> member_status \<Rightarrow> int \<Rightarrow> time \<Rightarrow> membership \<times> bool" where
  "ms_update_member ms node_id addr status incarnation now =
     (if node_id = ms_local_node_id ms
      then (case map_of (ms_members ms) node_id of
              None \<Rightarrow> (ms, False)
            | Some current \<Rightarrow>
                if incarnation > mb_incarnation current
                then (ms\<lparr>ms_members := dict_set node_id (current\<lparr>mb_incarnation := incarnation\<rparr>) (ms_members ms)\<rparr>, True)
                else (ms, False))
      else (case map_of (ms_members ms) node_id of
              None \<Rightarrow> (ms\<lparr>ms_members := dict_set node_id \<lparr>mb_node_id = node_id, mb_address = addr, mb_status = status,
                          mb_incarnation = incarnation, mb_last_update = now\<rparr> (ms_members ms)\<rparr>, True)
            | Some current \<Rightarrow>
                if incarnation > mb_incarnation current
                then (ms\<lparr>ms_members := dict_set node_id (current\<lparr>mb_incarnation := incarnation, mb_status := status,
                        mb_address := addr, mb_last_update := now\<rparr>) (ms_members ms)\<rparr>, True)
                else if incarnation = mb_incarnation current
                then if status = DEAD \<and> mb_status current \<noteq> DEAD
                     then (ms\<lparr>ms_members := dict_set node_id (current\<lparr>mb_status := DEAD, mb_last_update := now\<rparr>) (ms_members ms)\<rparr>, True)
                     else if status = SUSPECT \<and> mb_status current = ALIVE
                     then (ms\<lparr>ms_members := dict_set node_id (current\<lparr>mb_status := SUSPECT, mb_last_update := now\<rparr>) (ms_members ms)\<rparr>, True)
                     else (ms, False)
                else (ms, False)))"

definition ms_init :: "string \<Rightarrow> address \<Rightarrow> time \<Rightarrow> membership" where
  "ms_init local_node_id local_address now =
     fst (ms_update_member \<lparr>ms_local_node_id = local_node_id, ms_local_address = local_address, ms_members = []\<rparr>
       local_node_id local_address ALIVE 0 now)"

definition ms_get_member :: "membership \<Rightarrow> string \<Rightarrow> member option" where
  "ms_get_member ms node_id = map_of (ms_members ms) node_id"

definition ms_get_alive_members :: "membership \<Rightarrow> member list" where
  "ms_get_alive_members ms =
     filter (\<lambda>m. mb_status m = ALIVE \<and> mb_node_id m \<noteq> ms_local_node_id ms) (map snd (ms_members ms))"

text \<open>\<open>random.sample\<close>, given the positions that are drawn.\<close>

definition draw :: "'a list \<Rightarrow> nat \<Rightarrow> nat list \<Rightarrow> 'a list" where
  "draw candidates k positions =
     map (\<lambda>i. candidates ! i) (take k (filter (\<lambda>i. i < length candidates) (remdups positions)))"

definition ms_get_gossip_peers :: "membership \<Rightarrow> nat \<Rightarrow> string set \<Rightarrow> nat list \<Rightarrow> member list" where
  "ms_get_gossip_peers ms k exclude positions =
     (let candidates = filter (\<lambda>m. mb_node_id m \<notin> exclude) (ms_get_alive_members ms)
      in if candidates = [] then [] else draw candidates (min (length candidates) k) positions)"

definition ms_get_address :: "membership \<Rightarrow> string \<Rightarrow> address option" where
  "ms_get_address ms node_id = map_option mb_address (map_of (ms_members ms) node_id)"

record member_data =
  md_node_id :: string
  md_host :: string
  md_port :: int
  md_status :: member_status
  md_incarnation :: int

definition ms_get_all_members_data :: "membership \<Rightarrow> member_data list" where
  "ms_get_all_members_data ms =
     map (\<lambda>(_, m). \<lparr>md_node_id = mb_node_id m, md_host = fst (mb_address m), md_port = snd (mb_address m),
       md_status = mb_status m, md_incarnation = mb_incarnation m\<rparr>) (ms_members ms)"

definition ms_merge_membership_list :: "membership \<Rightarrow> member_data list \<Rightarrow> time \<Rightarrow> membership" where
  "ms_merge_membership_list ms remote_members now =
     foldl (\<lambda>ms d. fst (ms_update_member ms (md_node_id d) (md_host d, md_port d) (md_status d) (md_incarnation d) now))
       ms remote_members"

section \<open>Arrival times\<close>

text \<open>\<open>deque(maxlen=window_size)\<close>: appending to a full window drops its oldest interval.\<close>

record arrivals =
  fd_window_size :: nat
  fd_arrival_intervals :: "(string, time list) dict"
  fd_last_arrival_times :: "(string, time) dict"

definition push_window :: "nat \<Rightarrow> 'a list \<Rightarrow> 'a \<Rightarrow> 'a list" where
  "push_window k xs x = (let ys = xs @ [x] in drop (length ys - k) ys)"

definition fd_init :: "nat \<Rightarrow> arrivals" where
  "fd_init window_size = \<lparr>fd_window_size = window_size, fd_arrival_intervals = [], fd_last_arrival_times = []\<rparr>"

definition fd_report_heartbeat :: "'a arrivals_scheme \<Rightarrow> string \<Rightarrow> time \<Rightarrow> 'a arrivals_scheme" where
  "fd_report_heartbeat f node_id now =
     (let f1 = (case map_of (fd_last_arrival_times f) node_id of
            None \<Rightarrow> f
          | Some last_time \<Rightarrow> f\<lparr>fd_arrival_intervals := dict_set node_id
              (push_window (fd_window_size f) (dict_get (fd_arrival_intervals f) node_id []) (now - last_time)) (fd_arrival_intervals f)\<rparr>)
      in f1\<lparr>fd_last_arrival_times := dict_set node_id now (fd_last_arrival_times f1)\<rparr>)"

definition fd_remove_node :: "'a arrivals_scheme \<Rightarrow> string \<Rightarrow> 'a arrivals_scheme" where
  "fd_remove_node f node_id =
     f\<lparr>fd_arrival_intervals := dict_del node_id (fd_arrival_intervals f), fd_last_arrival_times := dict_del node_id (fd_last_arrival_times f)\<rparr>"

section \<open>The gossip node\<close>

datatype gossip_type = PUSH | PULL_REQUEST | PULL_RESPONSE | PING | ACK | PING_REQ

datatype gossip_mode = Push_Mode | Pull_Mode | Push_Pull_Mode

text \<open>A payload: the keys that the handlers read, with the default where a key is missing.\<close>

record gossip_message =
  gm_type :: gossip_type
  gm_sender_id :: string
  gm_entries :: "state_entry list"
  gm_membership :: "member_data list"
  gm_digest :: "(string, int) dict"
  gm_target_id :: string

definition gm_plain :: "gossip_type \<Rightarrow> string \<Rightarrow> gossip_message" where
  "gm_plain t sender = \<lparr>gm_type = t, gm_sender_id = sender, gm_entries = [], gm_membership = [], gm_digest = [], gm_target_id = ''''\<rparr>"

record gossip_config =
  gc_gossip_interval :: int
  gc_gossip_fanout :: int
  gc_membership_gossip_interval :: int
  gc_failure_detection_interval :: int
  gc_suspicion_timeout :: int
  gc_max_transmission_count :: int
  gc_phi_threshold :: rat

definition gossip_config_check :: "gossip_config \<Rightarrow> gossip_config result" where
  "gossip_config_check c =
     (if \<not> (gc_gossip_fanout c > 0) then Inl AssertionError
      else if \<not> (gc_gossip_interval c > 0) then Inl AssertionError else Inr c)"

record gossip_node =
  gn_node_id :: string
  gn_bind_address :: string
  gn_address :: address
  gn_seed_nodes :: "string list"
  gn_fanout :: nat
  gn_mode :: gossip_mode
  gn_membership :: membership
  gn_detector :: arrivals
  gn_store :: state_store
  gn_subscribers :: "(string, string list) dict"
  gn_calls :: "(string \<times> string \<times> json) list"
  gn_running :: bool
  gn_rounds :: nat
  gn_messages_sent :: nat
  gn_messages_received :: nat

type_synonym gossip_sends = "(address \<times> gossip_message) list"

text \<open>\<open>addr.split(":")\<close> must give two parts; the port is a decimal numeral.\<close>

definition parse_address :: "string \<Rightarrow> address result" where
  "parse_address addr =
     (let host = takeWhile (\<lambda>c. c \<noteq> CHR '':'') addr; rest = dropWhile (\<lambda>c. c \<noteq> CHR '':'') addr
      in case rest of [] \<Rightarrow> Inl ValueError
         | _ # port \<Rightarrow> if CHR '':'' \<in> set port then Inl ValueError
                       else (case read_int port of Inl e \<Rightarrow> Inl e | Inr p \<Rightarrow> Inr (host, p)))"

definition gn_init :: "string \<Rightarrow> string \<Rightarrow> string list \<Rightarrow> nat \<Rightarrow> gossip_mode \<Rightarrow> time \<Rightarrow> gossip_node result" where
  "gn_init node_id bind_address seed_nodes fanout mode now =
     (case parse_address bind_address of
        Inl e \<Rightarrow> Inl e
      | Inr addr \<Rightarrow> Inr \<lparr>gn_node_id = node_id, gn_bind_address = bind_address, gn_address = addr, gn_seed_nodes = seed_nodes,
          gn_fanout = fanout, gn_mode = mode, gn_membership = ms_init node_id addr now, gn_detector = fd_init 1000,
          gn_store = ss_init node_id, gn_subscribers = [], gn_calls = [], gn_running = False, gn_rounds = 0,
          gn_messages_sent = 0, gn_messages_received = 0\<rparr>)"

definition gn_add_seed :: "time \<Rightarrow> gossip_node \<Rightarrow> string \<Rightarrow> gossip_node" where
  "gn_add_seed now n seed =
     (if seed = gn_bind_address n then n
      else case parse_address seed of
        Inl e \<Rightarrow> n
      | Inr (host, port) \<Rightarrow>
          n\<lparr>gn_membership := fst (ms_update_member (gn_membership n) (''seed_'' @ host @ ''_'' @ show_int port) (host, port) ALIVE 0 now)\<rparr>)"

definition gn_start :: "gossip_node \<Rightarrow> time \<Rightarrow> gossip_node" where
  "gn_start n now = (if gn_running n then n else foldl (gn_add_seed now) (n\<lparr>gn_running := True\<rparr>) (gn_seed_nodes n))"

definition gn_stop :: "gossip_node \<Rightarrow> gossip_node" where
  "gn_stop n = n\<lparr>gn_running := False\<rparr>"

definition matches_pattern :: "string \<Rightarrow> string \<Rightarrow> bool" where
  "matches_pattern key pattern =
     (if CHR ''*'' \<notin> set pattern then key = pattern
      else let prefix = rev (dropWhile (\<lambda>c. c = CHR ''*'') (rev pattern)) in take (length prefix) key = prefix)"

definition gn_notify :: "gossip_node \<Rightarrow> string \<Rightarrow> json \<Rightarrow> gossip_node" where
  "gn_notify n key val =
     n\<lparr>gn_calls := gn_calls n @
        concat (map (\<lambda>(pattern, callbacks). if matches_pattern key pattern then map (\<lambda>cb. (cb, key, val)) callbacks else [])
          (gn_subscribers n))\<rparr>"

definition gn_subscribe :: "gossip_node \<Rightarrow> string \<Rightarrow> string \<Rightarrow> gossip_node" where
  "gn_subscribe n pattern callback =
     n\<lparr>gn_subscribers := dict_set pattern (dict_get (gn_subscribers n) pattern [] @ [callback]) (gn_subscribers n)\<rparr>"

definition gn_set :: "gossip_node \<Rightarrow> string \<Rightarrow> json \<Rightarrow> time \<Rightarrow> gossip_node" where
  "gn_set n key val now = gn_notify (n\<lparr>gn_store := fst (ss_set (gn_store n) key val now)\<rparr>) key val"

definition gn_get :: "gossip_node \<Rightarrow> string \<Rightarrow> json" where
  "gn_get n key = ss_get (gn_store n) key"

definition gn_get_prefix :: "gossip_node \<Rightarrow> string \<Rightarrow> (string, json) dict" where
  "gn_get_prefix n prefix =
     foldl (\<lambda>d e. if take (length prefix) (se_key e) = prefix \<and> \<not> se_tombstone e then dict_set (se_key e) (se_value e) d else d)
       [] (ss_get_all_entries (gn_store n))"

definition gn_delete :: "gossip_node \<Rightarrow> string \<Rightarrow> time \<Rightarrow> gossip_node" where
  "gn_delete n key now = gn_notify (n\<lparr>gn_store := fst (ss_delete (gn_store n) key now)\<rparr>) key JNull"

text \<open>\<open>_send\<close>: the transport swallows its errors, so the message counts as sent.\<close>

definition gn_send :: "gossip_node \<Rightarrow> address \<Rightarrow> gossip_message \<Rightarrow> gossip_node \<times> gossip_sends" where
  "gn_send n addr m = (n\<lparr>gn_messages_sent := gn_messages_sent n + 1\<rparr>, [(addr, m)])"

definition gn_send_push :: "gossip_node \<Rightarrow> member \<Rightarrow> gossip_node \<times> gossip_sends" where
  "gn_send_push n peer = gn_send n (mb_address peer)
     ((gm_plain PUSH (gn_node_id n))\<lparr>gm_entries := ss_get_all_entries (gn_store n),
        gm_membership := ms_get_all_members_data (gn_membership n)\<rparr>)"

definition gn_send_pull_request :: "gossip_node \<Rightarrow> member \<Rightarrow> gossip_node \<times> gossip_sends" where
  "gn_send_pull_request n peer = gn_send n (mb_address peer)
     ((gm_plain PULL_REQUEST (gn_node_id n))\<lparr>gm_digest := ss_get_digest (gn_store n)\<rparr>)"

definition gn_gossip_to :: "gossip_node \<times> gossip_sends \<Rightarrow> member \<Rightarrow> gossip_node \<times> gossip_sends" where
  "gn_gossip_to acc peer =
     (case acc of (n, sends) \<Rightarrow>
        let (n1, s1) = (if gn_mode n \<in> {Push_Mode, Push_Pull_Mode} then gn_send_push n peer else (n, []));
            (n2, s2) = (if gn_mode n1 \<in> {Pull_Mode, Push_Pull_Mode} then gn_send_pull_request n1 peer else (n1, []))
        in (n2, sends @ s1 @ s2))"

definition gn_gossip_round :: "gossip_node \<Rightarrow> nat list \<Rightarrow> gossip_node \<times> gossip_sends" where
  "gn_gossip_round n positions =
     (let n1 = n\<lparr>gn_rounds := gn_rounds n + 1\<rparr>
      in foldl gn_gossip_to (n1, []) (ms_get_gossip_peers (gn_membership n1) (gn_fanout n1) {} positions))"

text \<open>One round of \<open>_swim_loop\<close>.\<close>

definition gn_swim_round :: "gossip_node \<Rightarrow> nat list \<Rightarrow> gossip_node \<times> gossip_sends" where
  "gn_swim_round n positions =
     (case ms_get_gossip_peers (gn_membership n) 1 {} positions of
        [] \<Rightarrow> (n, [])
      | target # _ \<Rightarrow> gn_send n (mb_address target) (gm_plain PING (gn_node_id n)))"

definition gn_merge_entries :: "gossip_node \<Rightarrow> state_entry list \<Rightarrow> gossip_node" where
  "gn_merge_entries n entries =
     foldl (\<lambda>n e. case ss_merge (gn_store n) e of (s, updated) \<Rightarrow>
        let n1 = n\<lparr>gn_store := s\<rparr> in if updated then gn_notify n1 (se_key e) (se_value e) else n1) n entries"

definition gn_handle_push :: "gossip_node \<Rightarrow> gossip_message \<Rightarrow> time \<Rightarrow> gossip_node" where
  "gn_handle_push n m now =
     (let n1 = gn_merge_entries n (gm_entries m)
      in n1\<lparr>gn_membership := ms_merge_membership_list (gn_membership n1) (gm_membership m) now\<rparr>)"

definition gn_handle_pull_response :: "gossip_node \<Rightarrow> gossip_message \<Rightarrow> time \<Rightarrow> gossip_node" where
  "gn_handle_pull_response n m now =
     (let n1 = gn_merge_entries n (gm_entries m)
      in n1\<lparr>gn_membership := ms_merge_membership_list (gn_membership n1) (gm_membership m) now\<rparr>)"

definition gn_handle_pull_request :: "gossip_node \<Rightarrow> gossip_message \<Rightarrow> address \<Rightarrow> gossip_node \<times> gossip_sends" where
  "gn_handle_pull_request n m addr = gn_send n addr
     ((gm_plain PULL_RESPONSE (gn_node_id n))\<lparr>gm_entries := ss_get_delta (gn_store n) (gm_digest m),
        gm_membership := ms_get_all_members_data (gn_membership n)\<rparr>)"

definition gn_handle_ping :: "gossip_node \<Rightarrow> address \<Rightarrow> gossip_node \<times> gossip_sends" where
  "gn_handle_ping n addr = gn_send n addr (gm_plain ACK (gn_node_id n))"

text \<open>The target of an indirect ping is looked up, and nothing is done with it.\<close>

definition gn_handle_ping_req :: "gossip_node \<Rightarrow> gossip_message \<Rightarrow> gossip_node \<times> gossip_sends" where
  "gn_handle_ping_req n m = (case ms_get_member (gn_membership n) (gm_target_id m) of None \<Rightarrow> (n, []) | Some target \<Rightarrow> (n, []))"

definition gn_handle_message :: "gossip_node \<Rightarrow> gossip_message \<Rightarrow> address \<Rightarrow> time \<Rightarrow> gossip_node \<times> gossip_sends" where
  "gn_handle_message n0 m addr now =
     (let n = n0\<lparr>gn_messages_received := gn_messages_received n0 + 1,
                 gn_detector := fd_report_heartbeat (gn_detector n0) (gm_sender_id m) now,
                 gn_membership := fst (ms_update_member (gn_membership n0) (gm_sender_id m) addr ALIVE 0 now)\<rparr>
      in case gm_type m of
           PUSH \<Rightarrow> (gn_handle_push n m now, [])
         | PULL_REQUEST \<Rightarrow> gn_handle_pull_request n m addr
         | PULL_RESPONSE \<Rightarrow> (gn_handle_pull_response n m now, [])
         | PING \<Rightarrow> gn_handle_ping n addr
         | ACK \<Rightarrow> (n, [])
         | PING_REQ \<Rightarrow> gn_handle_ping_req n m)"

definition gn_get_members :: "gossip_node \<Rightarrow> string list" where
  "gn_get_members n = map mb_node_id (ms_get_alive_members (gn_membership n))"

record gossip_metrics =
  gx_rounds :: nat
  gx_messages_sent :: nat
  gx_messages_received :: nat
  gx_state_size :: nat
  gx_cluster_size :: nat

definition gn_get_metrics :: "gossip_node \<Rightarrow> gossip_metrics" where
  "gn_get_metrics n =
     \<lparr>gx_rounds = gn_rounds n, gx_messages_sent = gn_messages_sent n, gx_messages_received = gn_messages_received n,
      gx_state_size = length (ss_get_all_entries (gn_store n)), gx_cluster_size = length (ms_get_alive_members (gn_membership n))\<rparr>"

end
