(* ===== verification/Gossip_Network.thy ===== *)
theory Gossip_Network
  imports Gossip_Node
begin

text \<open>
  A network of gossip nodes: any message that was sent may arrive at the node of its address any
  number of times, in any order, or never. The fields \<open>gt_written\<close> and \<open>gt_heard\<close> record, for the
  statements, which entries were ever written and which pushes have arrived.
\<close>

section \<open>The network\<close>

record gossip_packet =
  pk_step :: nat
  pk_from :: string
  pk_from_address :: address
  pk_to_address :: address
  pk_message :: gossip_message

record gossip_net =
  gt_nodes :: "string \<Rightarrow> gossip_node"
  gt_sent :: "gossip_packet list"
  gt_step :: nat
  gt_written :: "state_entry list"
  gt_heard :: "(nat \<times> string \<times> string) list"

datatype gossip_event = G_Start string time | G_Stop string | G_Set string string json time | G_Delete string string time
  | G_Subscribe string string string | G_Round string "nat list" | G_Swim string "nat list" | G_Receive nat string time

definition gt_act :: "gossip_net \<Rightarrow> string \<Rightarrow> gossip_node \<times> gossip_sends \<Rightarrow> gossip_net" where
  "gt_act net i res =
     net\<lparr>gt_nodes := (gt_nodes net)(i := fst res),
         gt_sent := gt_sent net @ map (\<lambda>(addr, m). \<lparr>pk_step = gt_step net, pk_from = i, pk_from_address = gn_address (gt_nodes net i),
           pk_to_address = addr, pk_message = m\<rparr>) (snd res)\<rparr>"

text \<open>The entries that a change of the store under a key has written.\<close>

definition fresh_entry :: "state_store \<Rightarrow> state_store \<Rightarrow> string \<Rightarrow> state_entry list" where
  "fresh_entry s s' key = (if map_of (ss_store s') key = map_of (ss_store s) key then [] else [the (map_of (ss_store s') key)])"

fun gossip_do :: "gossip_net \<Rightarrow> gossip_event \<Rightarrow> gossip_net" where
  "gossip_do net (G_Start i now) = gt_act net i (gn_start (gt_nodes net i) now, [])"
| "gossip_do net (G_Stop i) = gt_act net i (gn_stop (gt_nodes net i), [])"
| "gossip_do net (G_Set i key v now) =
     (let n = gn_set (gt_nodes net i) key v now
      in (gt_act net i (n, []))\<lparr>gt_written := gt_written net @ fresh_entry (gn_store (gt_nodes net i)) (gn_store n) key\<rparr>)"
| "gossip_do net (G_Delete i key now) =
     (let n = gn_delete (gt_nodes net i) key now
      in (gt_act net i (n, []))\<lparr>gt_written := gt_written net @ fresh_entry (gn_store (gt_nodes net i)) (gn_store n) key\<rparr>)"
| "gossip_do net (G_Subscribe i pattern cb) = gt_act net i (gn_subscribe (gt_nodes net i) pattern cb, [])"
| "gossip_do net (G_Round i positions) =
     (if gn_running (gt_nodes net i) then gt_act net i (gn_gossip_round (gt_nodes net i) positions) else net)"
| "gossip_do net (G_Swim i positions) =
     (if gn_running (gt_nodes net i) then gt_act net i (gn_swim_round (gt_nodes net i) positions) else net)"
| "gossip_do net (G_Receive k j now) =
     (if k < length (gt_sent net) \<and> gn_running (gt_nodes net j) \<and> gn_address (gt_nodes net j) = pk_to_address (gt_sent net ! k)
      then let p = gt_sent net ! k; res = gn_handle_message (gt_nodes net j) (pk_message p) (pk_from_address p) now
           in (gt_act net j res)\<lparr>gt_heard := gt_heard net @ (if gm_type (pk_message p) = PUSH then [(pk_step p, pk_from p, j)] else [])\<rparr>
      else net)"

definition gossip_step :: "gossip_net \<Rightarrow> gossip_event \<Rightarrow> gossip_net" where
  "gossip_step net e = (gossip_do net e)\<lparr>gt_step := gt_step net + 1\<rparr>"

definition gossip_run :: "gossip_net \<Rightarrow> gossip_event list \<Rightarrow> gossip_net" where
  "gossip_run net es = foldl gossip_step net es"

fun is_write :: "gossip_event \<Rightarrow> bool" where
  "is_write (G_Set i key v now) = True"
| "is_write (G_Delete i key now) = True"
| "is_write _ = False"

text \<open>The nodes as constructed, each under its own name.\<close>

definition gossip_net_init :: "(string \<Rightarrow> gossip_node) \<Rightarrow> gossip_net" where
  "gossip_net_init nodes = \<lparr>gt_nodes = nodes, gt_sent = [], gt_step = 0, gt_written = [], gt_heard = []\<rparr>"

definition fresh_node :: "string \<Rightarrow> gossip_node \<Rightarrow> bool" where
  "fresh_node i n \<longleftrightarrow> gn_node_id n = i \<and> gn_store n = ss_init i"

lemma gn_init_fresh: "gn_init i bind seeds fanout mode now = Inr n \<Longrightarrow> fresh_node i n"
  by (auto simp: gn_init_def fresh_node_def split: sum.splits)

section \<open>What the handlers do to the store\<close>

named_theorems gossip_simps \<open>what the operations of a node do to its store and its name\<close>

lemma gn_notify_store [gossip_simps]: "gn_store (gn_notify n k v) = gn_store n" "gn_node_id (gn_notify n k v) = gn_node_id n"
  by (simp_all add: gn_notify_def)

lemma gn_merge_entries_store [gossip_simps]:
  "gn_store (gn_merge_entries n es) = merge_entries (gn_store n) es \<and> gn_node_id (gn_merge_entries n es) = gn_node_id n"
proof (induction es arbitrary: n)
  case (Cons e es)
  have s: "gn_merge_entries n (e # es) = gn_merge_entries (case ss_merge (gn_store n) e of (s, updated) \<Rightarrow>
      let n1 = n\<lparr>gn_store := s\<rparr> in if updated then gn_notify n1 (se_key e) (se_value e) else n1) es"
    by (simp add: gn_merge_entries_def)
  show ?case unfolding s by (simp add: Cons.IH split_beta Let_def gossip_simps merge_entries_def)
qed (simp add: gn_merge_entries_def merge_entries_def)

lemma gn_start_store [gossip_simps]: "gn_store (gn_start n now) = gn_store n \<and> gn_node_id (gn_start n now) = gn_node_id n"
proof -
  have "gn_store (foldl (gn_add_seed now) n seeds) = gn_store n \<and> gn_node_id (foldl (gn_add_seed now) n seeds) = gn_node_id n" for n seeds
    by (induction seeds arbitrary: n) (simp_all add: gn_add_seed_def split: sum.split prod.split)
  then show ?thesis by (simp add: gn_start_def)
qed

text \<open>What a round sends: pushes that carry the whole store, and messages without entries.\<close>

definition round_sends_ok :: "gossip_node \<Rightarrow> gossip_sends \<Rightarrow> bool" where
  "round_sends_ok n sends \<longleftrightarrow> (\<forall>(addr, m)\<in>set sends. gm_sender_id m = gn_node_id n \<and>
     (if gm_type m = PUSH then gm_entries m = ss_get_all_entries (gn_store n) else gm_entries m = []))"

lemma gn_gossip_to_ok:
  assumes "round_sends_ok n sends"
  shows "gn_store (fst (gn_gossip_to (n, sends) peer)) = gn_store n \<and> gn_node_id (fst (gn_gossip_to (n, sends) peer)) = gn_node_id n \<and>
    round_sends_ok n (snd (gn_gossip_to (n, sends) peer))"
  using assms by (auto simp: gn_gossip_to_def Let_def gn_send_push_def gn_send_pull_request_def gn_send_def gm_plain_def round_sends_ok_def)

lemma gn_gossip_round_ok:
  "gn_store (fst (gn_gossip_round n positions)) = gn_store n \<and> gn_node_id (fst (gn_gossip_round n positions)) = gn_node_id n \<and>
   round_sends_ok n (snd (gn_gossip_round n positions))"
proof -
  have loop: "gn_store (fst (foldl gn_gossip_to (n', sends) peers)) = gn_store n' \<and> gn_node_id (fst (foldl gn_gossip_to (n', sends) peers)) = gn_node_id n' \<and>
      round_sends_ok n' (snd (foldl gn_gossip_to (n', sends) peers))" if "round_sends_ok n' sends" for n' sends peers
    using that
  proof (induction peers arbitrary: n' sends)
    case (Cons p peers)
    from gn_gossip_to_ok [OF Cons.prems, of p]
    have st: "gn_store (fst (gn_gossip_to (n', sends) p)) = gn_store n'" "gn_node_id (fst (gn_gossip_to (n', sends) p)) = gn_node_id n'"
      "round_sends_ok n' (snd (gn_gossip_to (n', sends) p))" by auto
    have eq: "round_sends_ok (fst (gn_gossip_to (n', sends) p)) x = round_sends_ok n' x" for x
      using st by (simp add: round_sends_ok_def)
    with st(3) have "round_sends_ok (fst (gn_gossip_to (n', sends) p)) (snd (gn_gossip_to (n', sends) p))" by simp
    with eq show ?case using Cons.IH [of "fst (gn_gossip_to (n', sends) p)" "snd (gn_gossip_to (n', sends) p)"] st by simp
  qed simp
  have eq: "round_sends_ok (n\<lparr>gn_rounds := gn_rounds n + 1\<rparr>) x = round_sends_ok n x" "round_sends_ok n []" for x
    by (simp_all add: round_sends_ok_def)
  with loop [of "n\<lparr>gn_rounds := gn_rounds n + 1\<rparr>" "[]" "ms_get_gossip_peers (gn_membership n) (gn_fanout n) {} positions"]
  show ?thesis by (simp add: gn_gossip_round_def Let_def)
qed

text \<open>What a handler does: it merges the entries of a push or a response, and what it sends it has.\<close>

definition merges :: "gossip_message \<Rightarrow> bool" where
  "merges m \<longleftrightarrow> gm_type m \<in> {PUSH, PULL_RESPONSE}"

lemma gn_handle_message_ok:
  "gn_store (fst (gn_handle_message n m addr now)) = (if merges m then merge_entries (gn_store n) (gm_entries m) else gn_store n) \<and>
   gn_node_id (fst (gn_handle_message n m addr now)) = gn_node_id n \<and>
   (\<forall>(a, r)\<in>set (snd (gn_handle_message n m addr now)). gm_type r \<noteq> PUSH \<and> set (gm_entries r) \<subseteq> set (ss_get_all_entries (gn_store n)))"
  by (cases "gm_type m")
    (auto simp: gn_handle_message_def gn_handle_push_def gn_handle_pull_response_def gn_handle_pull_request_def gn_handle_ping_def
      gn_handle_ping_req_def gn_send_def gm_plain_def merges_def Let_def gossip_simps ss_get_delta_def ss_get_all_entries_def
      split: option.split)

section \<open>The order on stores\<close>

definition covers :: "state_store \<Rightarrow> state_entry \<Rightarrow> bool" where
  "covers s e \<longleftrightarrow> (\<exists>f. ss_view s (se_key e) = Some f \<and> tag e \<le> tag f)"

definition store_le :: "state_store \<Rightarrow> state_store \<Rightarrow> bool" where
  "store_le s t \<longleftrightarrow> (\<forall>key e. ss_view s key = Some e \<longrightarrow> covers t e)"

lemma covers_self: "ss_wf s \<Longrightarrow> ss_view s key = Some e \<Longrightarrow> covers s e"
  using ss_wf_view [of s key e] by (auto simp: covers_def)

lemma covers_mono: "covers s e \<Longrightarrow> store_le s t \<Longrightarrow> ss_wf s \<Longrightarrow> covers t e"
  unfolding covers_def store_le_def by (metis order_trans ss_wf_view)

lemma store_le_refl: "ss_wf s \<Longrightarrow> store_le s s"
  by (auto simp: store_le_def intro: covers_self)

lemma store_le_trans: "store_le s t \<Longrightarrow> store_le t u \<Longrightarrow> ss_wf t \<Longrightarrow> store_le s u"
  unfolding store_le_def using covers_mono [of t _ u] by (auto simp: store_le_def)

lemma store_le_antisym:
  assumes "store_le s t" and "store_le t s" and "ss_ok H s" and "ss_ok H t"
  shows "ss_view s = ss_view t"
proof
  fix key
  have wf: "ss_wf s" "ss_wf t" using assms by (simp_all add: ss_ok_def)
  show "ss_view s key = ss_view t key"
  proof (cases "ss_view s key")
    case None
    have "ss_view t key \<noteq> Some f" for f
    proof
      assume f: "ss_view t key = Some f"
      with assms(2) have "covers s f" by (auto simp: store_le_def)
      with None ss_wf_view [OF wf(2) f] show False by (simp add: covers_def)
    qed
    with None show ?thesis by (cases "ss_view t key") auto
  next
    case (Some e)
    then obtain f where f: "ss_view t key = Some f" "tag e \<le> tag f" "se_key e = key"
      using assms(1) ss_wf_view [OF wf(1)] by (force simp: store_le_def covers_def)
    moreover have "se_key f = key" using ss_wf_view [OF wf(2)] f by simp
    ultimately have "tag f \<le> tag e" using assms(2) Some by (force simp: store_le_def covers_def)
    with f have "tag e = tag f" by simp
    with assms(3,4) Some f \<open>se_key f = key\<close> have "e = f" by (auto simp: ss_ok_def tags_unique_def)
    with Some f show ?thesis by simp
  qed
qed

lemma later_le: "(\<exists>g. later x (Some e) = Some g \<and> tag e \<le> tag g) \<and> (x = Some f \<longrightarrow> (\<exists>g. later x (Some e) = Some g \<and> tag f \<le> tag g))"
  by (cases x) (auto simp: later_def not_less)

lemma ss_merge_le: "ss_wf s \<Longrightarrow> store_le s (fst (ss_merge s e)) \<and> covers (fst (ss_merge s e)) e"
  using later_le [of "ss_view s (se_key e)" e] ss_wf_view [of s]
  by (fastforce simp: store_le_def covers_def ss_merge_view)

lemma merge_entries_le:
  "ss_wf s \<Longrightarrow> store_le s (merge_entries s es) \<and> (\<forall>e\<in>set es. covers (merge_entries s es) e)"
proof (induction es arbitrary: s)
  case Nil
  then show ?case by (simp add: merge_entries_def store_le_refl)
next
  case (Cons e es)
  have wf: "ss_wf (fst (ss_merge s e))" using Cons.prems by (rule ss_merge_wf)
  have m: "merge_entries s (e # es) = merge_entries (fst (ss_merge s e)) es" by (simp add: merge_entries_def)
  let ?u = "merge_entries (fst (ss_merge s e)) es"
  have IH: "store_le (fst (ss_merge s e)) ?u" "\<forall>e\<in>set es. covers ?u e" using Cons.IH [OF wf] by auto
  have "store_le s (fst (ss_merge s e))" "covers (fst (ss_merge s e)) e" using ss_merge_le [OF Cons.prems] by auto
  then have "store_le s ?u" "covers ?u e" using IH(1) wf by (blast intro: store_le_trans covers_mono)+
  with IH(2) show ?case by (simp add: m)
qed

lemma merge_entries_from: "ss_view (merge_entries s es) key = Some e \<Longrightarrow> ss_view s key = Some e \<or> e \<in> set es"
proof (induction es arbitrary: s)
  case (Cons f es)
  then have "ss_view (fst (ss_merge s f)) key = Some e \<or> e \<in> set es" by (simp add: merge_entries_def)
  then show ?case using later_member [of "ss_view s (se_key f)" "Some f" e] by (auto simp: ss_merge_view split: if_splits)
qed (simp add: merge_entries_def)

section \<open>The invariant of the network\<close>

abbreviation store_at :: "gossip_net \<Rightarrow> string \<Rightarrow> state_store" where
  "store_at net i \<equiv> gn_store (gt_nodes net i)"

definition net_ok :: "gossip_net \<Rightarrow> bool" where
  "net_ok net \<longleftrightarrow>
     (\<forall>i. gn_node_id (gt_nodes net i) = i \<and> ss_node_id (store_at net i) = i \<and> ss_ok (set (gt_written net)) (store_at net i)) \<and>
     (\<forall>e\<in>set (gt_written net). covers (store_at net (se_node_id e)) e) \<and>
     (\<forall>p\<in>set (gt_sent net). pk_step p < gt_step net \<and>
        (\<forall>e\<in>set (gm_entries (pk_message p)). e \<in> set (gt_written net))) \<and>
     (\<forall>(t, k, j)\<in>set (gt_heard net). t < gt_step net)"

text \<open>
  An event that writes nothing changes one node's store by merging entries of a packet, and sends
  entries of that store.
\<close>

definition act_ok :: "gossip_net \<Rightarrow> string \<Rightarrow> gossip_node \<times> gossip_sends \<Rightarrow> state_entry list \<Rightarrow> bool" where
  "act_ok net i res es \<longleftrightarrow> gn_node_id (fst res) = gn_node_id (gt_nodes net i) \<and>
     gn_store (fst res) = merge_entries (store_at net i) es \<and>
     (\<forall>e\<in>set es. \<exists>p\<in>set (gt_sent net). e \<in> set (gm_entries (pk_message p))) \<and>
     (\<forall>(a, m)\<in>set (snd res). set (gm_entries m) \<subseteq> set (ss_get_all_entries (store_at net i)) \<and>
        (gm_type m = PUSH \<longrightarrow> gm_entries m = ss_get_all_entries (store_at net i)))"

definition heard_ok :: "gossip_net \<Rightarrow> string \<Rightarrow> state_entry list \<Rightarrow> (nat \<times> string \<times> string) list \<Rightarrow> bool" where
  "heard_ok net i es heard \<longleftrightarrow> (\<forall>(t, k, j)\<in>set heard. j = i \<and>
     (\<exists>p\<in>set (gt_sent net). pk_step p = t \<and> pk_from p = k \<and> gm_type (pk_message p) = PUSH \<and> gm_entries (pk_message p) = es))"

lemma gossip_do_cases:
  assumes "\<not> is_write ev"
  obtains "gossip_do net ev = net"
  | i res es heard where "gossip_do net ev = (gt_act net i res)\<lparr>gt_heard := gt_heard net @ heard\<rparr>"
      "act_ok net i res es" "heard_ok net i es heard"
proof -
  note case1 = that(1) and case2 = that(2)
  have quiet: thesis if "gossip_do net ev = gt_act net i (n, [])" "gn_store n = store_at net i" "gn_node_id n = gn_node_id (gt_nodes net i)" for i n
    using that by (intro case2 [of "[]" i "(n, [])" "[]"]) (auto simp: gt_act_def act_ok_def heard_ok_def merge_entries_def)
  show thesis
  proof (cases ev)
    case (G_Round i positions)
    have "round_sends_ok (gt_nodes net i) (snd (gn_gossip_round (gt_nodes net i) positions))" using gn_gossip_round_ok by blast
    then have "act_ok net i (gn_gossip_round (gt_nodes net i) positions) []"
      using gn_gossip_round_ok [of "gt_nodes net i" positions]
      by (auto simp: act_ok_def merge_entries_def round_sends_ok_def split: if_splits)
    then show thesis using G_Round case1 case2 [of "[]" i "gn_gossip_round (gt_nodes net i) positions" "[]"]
      by (cases "gn_running (gt_nodes net i)") (auto simp: gt_act_def heard_ok_def)
  next
    case (G_Swim i positions)
    have "act_ok net i (gn_swim_round (gt_nodes net i) positions) []"
      by (auto simp: act_ok_def merge_entries_def gn_swim_round_def gn_send_def gm_plain_def split: list.splits)
    then show thesis using G_Swim case1 case2 [of "[]" i "gn_swim_round (gt_nodes net i) positions" "[]"]
      by (cases "gn_running (gt_nodes net i)") (auto simp: gt_act_def heard_ok_def)
  next
    case (G_Receive k j now)
    let ?p = "gt_sent net ! k"
    let ?res = "gn_handle_message (gt_nodes net j) (pk_message ?p) (pk_from_address ?p) now"
    let ?es = "if merges (pk_message ?p) then gm_entries (pk_message ?p) else []"
    let ?heard = "if gm_type (pk_message ?p) = PUSH then [(pk_step ?p, pk_from ?p, j)] else []"
    show thesis
    proof (cases "k < length (gt_sent net) \<and> gn_running (gt_nodes net j) \<and> gn_address (gt_nodes net j) = pk_to_address ?p")
      case True
      then have p: "?p \<in> set (gt_sent net)" by simp
      with gn_handle_message_ok [of "gt_nodes net j" "pk_message ?p" "pk_from_address ?p" now] have act: "act_ok net j ?res ?es"
        by (fastforce simp: act_ok_def merge_entries_def)
      have heard: "heard_ok net j ?es ?heard"
        using p by (auto simp: heard_ok_def merges_def)
      have "gossip_do net ev = (gt_act net j ?res)\<lparr>gt_heard := gt_heard net @ ?heard\<rparr>"
        using True G_Receive by (simp only: gossip_do.simps Let_def simp_thms if_True)
      from case2 [OF this act heard] show thesis .
    next
      case False
      then have "gossip_do net ev = net" using G_Receive by (simp only: gossip_do.simps if_False)
      with case1 show thesis .
    qed
  qed (use assms quiet in \<open>auto simp: gn_start_store gn_stop_def gn_subscribe_def\<close>)
qed

text \<open>A write adds one entry of its node with a new version, or changes nothing.\<close>

lemma write_cases:
  assumes "is_write ev" and wf: "\<And>i. ss_wf (store_at net i)" and id: "\<And>i. ss_node_id (store_at net i) = i"
  obtains "\<And>i. store_at (gossip_do net ev) i = store_at net i" "gt_written (gossip_do net ev) = gt_written net"
      "\<And>i. gn_node_id (gt_nodes (gossip_do net ev) i) = gn_node_id (gt_nodes net i)"
  | i e where "\<And>k. store_at (gossip_do net ev) k = (if k = i then (store_at net i)\<lparr>ss_store := dict_set (se_key e) e (ss_store (store_at net i))\<rparr> else store_at net k)"
      "gt_written (gossip_do net ev) = gt_written net @ [e]" "se_node_id e = i"
      "\<And>f. ss_view (store_at net i) (se_key e) = Some f \<Longrightarrow> se_version f < se_version e"
      "\<And>i. gn_node_id (gt_nodes (gossip_do net ev) i) = gn_node_id (gt_nodes net i)"
proof (cases ev)
  case (G_Set i key v now)
  show thesis
    by (rule that(2) [of i "snd (ss_set (store_at net i) key v now)"])
      (auto simp: G_Set gt_act_def gn_set_def gossip_simps ss_set_def Let_def fresh_entry_def update_conv' id ss_view_def
        split: option.split dest!: arg_cong [where f = se_version])
next
  case (G_Delete i key now)
  show thesis
  proof (cases "snd (ss_delete (store_at net i) key now)")
    case None
    then have "ss_delete (store_at net i) key now = (store_at net i, None)"
      by (auto simp: ss_delete_def Let_def split: option.splits if_splits)
    then show thesis by (intro that(1)) (auto simp: G_Delete gt_act_def gn_delete_def gossip_simps Let_def fresh_entry_def)
  next
    case (Some e)
    then show thesis
      by (intro that(2) [of i e])
        (auto simp: G_Delete gt_act_def gn_delete_def gossip_simps ss_delete_def Let_def fresh_entry_def update_conv' id ss_view_def
          split: option.splits if_splits dest!: arg_cong [where f = se_version])
  qed
qed (use assms(1) in auto)

lemma gossip_do_frame:
  "gt_step (gossip_do net ev) = gt_step net"
  "is_write ev \<Longrightarrow> gt_sent (gossip_do net ev) = gt_sent net \<and> gt_heard (gossip_do net ev) = gt_heard net"
  by (cases ev; simp add: gt_act_def Let_def)+

lemma net_ok_D:
  assumes "net_ok net"
  shows "gn_node_id (gt_nodes net i) = i" "ss_node_id (store_at net i) = i" "ss_ok (set (gt_written net)) (store_at net i)" "ss_wf (store_at net i)"
  using assms by (auto simp: net_ok_def ss_ok_def)

text \<open>Stores only grow.\<close>

lemma act_store:
  assumes "net_ok net" and "act_ok net i res es"
  shows "store_le (store_at net k) (store_at (gt_act net i res) k)"
  using assms merge_entries_le [OF net_ok_D(4) [OF assms(1)]] store_le_refl [OF net_ok_D(4) [OF assms(1)]]
  by (simp add: gt_act_def act_ok_def)

lemma packet_entries_written:
  assumes "net_ok net" and "p \<in> set (gt_sent (gt_act net i res))" and "act_ok net i res es" and "e \<in> set (gm_entries (pk_message p))"
  shows "e \<in> set (gt_written net)"
proof (cases "p \<in> set (gt_sent net)")
  case False
  with assms(2,3,4) have "e \<in> set (ss_get_all_entries (store_at net i))"
    by (fastforce simp: gt_act_def act_ok_def)
  then obtain key where "(key, e) \<in> set (ss_store (store_at net i))" by (auto simp: ss_get_all_entries_def)
  moreover have "dict_wf (ss_store (store_at net i))" using net_ok_D(4) [OF assms(1)] by (simp add: ss_wf_def)
  ultimately have "ss_view (store_at net i) key = Some e" by (simp add: ss_view_def)
  then show ?thesis using net_ok_D(3) [OF assms(1)] by (auto simp: ss_ok_def)
qed (use assms in \<open>auto simp: net_ok_def\<close>)

lemma net_ok_act:
  assumes ok: "net_ok net" and act: "act_ok net i res es" and heard: "heard_ok net i es heard"
  shows "net_ok ((gt_act net i res)\<lparr>gt_heard := gt_heard net @ heard, gt_step := gt_step net + 1\<rparr>)"
proof -
  let ?act = "gt_act net i res"
  have es: "e \<in> set (gt_written net)" if "e \<in> set es" for e using act that ok by (fastforce simp: act_ok_def net_ok_def)
  have merged: "ss_ok (set (gt_written net)) (merge_entries (store_at net i) es)"
    using net_ok_D(3) [OF ok, of i] merge_entries_wf [of "store_at net i" es] es merge_entries_from
    by (fastforce simp: ss_ok_def)
  have nodes: "gn_node_id (gt_nodes ?act k) = k \<and> ss_node_id (store_at ?act k) = k \<and> ss_ok (set (gt_written net)) (store_at ?act k)" for k
    using act merged merge_entries_wf [OF net_ok_D(4) [OF ok, of i], of es] net_ok_D [OF ok]
    by (simp add: gt_act_def act_ok_def)
  have "covers (store_at ?act (se_node_id e)) e" if "e \<in> set (gt_written net)" for e
    using that ok covers_mono [OF _ act_store [OF ok act] net_ok_D(4) [OF ok]] by (auto simp: net_ok_def)
  moreover have "pk_step p < gt_step net + 1" if "p \<in> set (gt_sent ?act)" for p
    using that ok by (fastforce simp: gt_act_def net_ok_def)
  moreover have "\<forall>(t, k, j)\<in>set (gt_heard net @ heard). t < Suc (gt_step net)"
    using ok heard by (fastforce simp: net_ok_def heard_ok_def)
  moreover have "gt_written ?act = gt_written net" by (simp add: gt_act_def)
  ultimately show ?thesis
    using nodes packet_entries_written [OF ok _ act] by (auto simp: net_ok_def)
qed

lemma write_grows:
  assumes "ss_wf s" and "\<And>f. ss_view s (se_key e) = Some f \<Longrightarrow> se_version f < se_version e"
  shows "store_le s (s\<lparr>ss_store := dict_set (se_key e) e (ss_store s)\<rparr>)"
  using assms ss_wf_view [OF assms(1)]
  by (force simp: store_le_def covers_def ss_view_def update_conv' tag_def)

lemma net_ok_write:
  assumes ok: "net_ok net" and w: "is_write ev"
  shows "net_ok (gossip_step net ev)"
proof -
  have frame: "gt_sent (gossip_step net ev) = gt_sent net" "gt_heard (gossip_step net ev) = gt_heard net" "gt_step (gossip_step net ev) = gt_step net + 1"
    using gossip_do_frame(1) [of net ev] gossip_do_frame(2) [of ev net] w by (simp_all add: gossip_step_def)
  from w net_ok_D(4) [OF ok] net_ok_D(2) [OF ok] show ?thesis
  proof (cases rule: write_cases [of ev net])
    case same: 1
    then show ?thesis using ok frame by (auto simp: net_ok_def gossip_step_def)
  next
    case new: (2 i e)
    let ?H = "set (gt_written net)" and ?net = "gossip_do net ev"
    let ?s = "(store_at net i)\<lparr>ss_store := dict_set (se_key e) e (ss_store (store_at net i))\<rparr>"
    have fresh: "f = e" if "f \<in> insert e ?H" "se_key f = se_key e" "tag f = tag e" for f
    proof (rule ccontr)
      assume "f \<noteq> e"
      with that have "f \<in> ?H" "se_node_id f = i" using new(3) by (auto simp: tag_def)
      with ok have "covers (store_at net i) f" by (auto simp: net_ok_def)
      with new(4) that(2) have "tag f < tag e" by (auto simp: covers_def tag_def less_prod_def)
      with that(3) show False by simp
    qed
    have uniq: "tags_unique (insert e ?H)"
      using net_ok_D(3) [OF ok, of i] fresh by (auto simp: ss_ok_def tags_unique_def) metis
    have grow: "store_le (store_at net k) (store_at ?net k)" for k
      using write_grows [OF net_ok_D(4) [OF ok] new(4)] store_le_refl [OF net_ok_D(4) [OF ok]] by (simp add: new(1))
    have stores: "ss_ok (insert e ?H) (store_at ?net k)" for k
      using net_ok_D(3) [OF ok, of k] uniq ss_wf_update [OF net_ok_D(4) [OF ok, of i] refl]
      by (auto simp: new(1) ss_ok_def ss_view_def update_conv' split: if_splits)
    have "covers (store_at ?net (se_node_id f)) f" if "f \<in> insert e ?H" for f
    proof (cases "f = e")
      case True
      then show ?thesis by (simp add: new(1,3) covers_def ss_view_def update_conv')
    next
      case False
      with that ok have "covers (store_at net (se_node_id f)) f" by (auto simp: net_ok_def)
      then show ?thesis using covers_mono grow net_ok_D(4) [OF ok] by blast
    qed
    moreover have "gn_node_id (gt_nodes ?net k) = k \<and> ss_node_id (store_at ?net k) = k" for k
      using net_ok_D(1,2) [OF ok] by (simp add: new(1,5))
    ultimately show ?thesis using stores frame ok
      by (auto simp: net_ok_def gossip_step_def new(2))
  qed
qed

lemma net_ok_step: "net_ok net \<Longrightarrow> net_ok (gossip_step net ev)"
proof (cases "is_write ev")
  case False
  assume ok: "net_ok net"
  from False show ?thesis
  proof (cases rule: gossip_do_cases [of ev net])
    case 1
    with ok show ?thesis by (auto simp: gossip_step_def net_ok_def less_SucI)
  next
    case (2 i res es heard)
    with net_ok_act [OF ok 2(2,3)] show ?thesis by (simp add: gossip_step_def)
  qed
qed (rule net_ok_write)

lemma net_ok_run: "net_ok net \<Longrightarrow> net_ok (gossip_run net es)"
  by (induction es arbitrary: net) (simp_all add: gossip_run_def net_ok_step)

lemma net_ok_init: "(\<And>i. fresh_node i (nodes i)) \<Longrightarrow> net_ok (gossip_net_init nodes)"
  by (simp add: net_ok_def gossip_net_init_def fresh_node_def ss_ok_def ss_init_def ss_wf_def ss_view_def tags_unique_def)

section \<open>Convergence\<close>

text \<open>What holds after a run without writes that starts in \<open>net0\<close>.\<close>

definition since :: "gossip_net \<Rightarrow> gossip_net \<Rightarrow> bool" where
  "since net0 net \<longleftrightarrow> net_ok net \<and> gt_step net0 \<le> gt_step net \<and>
     (\<forall>i. store_le (store_at net0 i) (store_at net i)) \<and>
     (\<forall>p\<in>set (gt_sent net). gt_step net0 \<le> pk_step p \<and> gm_type (pk_message p) = PUSH \<longrightarrow>
        store_le (store_at net0 (pk_from p)) (merge_entries (ss_init '''') (gm_entries (pk_message p)))) \<and>
     (\<forall>(t, k, j)\<in>set (gt_heard net). gt_step net0 \<le> t \<longrightarrow> store_le (store_at net0 k) (store_at net j)) \<and>
     (\<forall>i key e. ss_view (store_at net i) key = Some e \<longrightarrow> (\<exists>k. covers (store_at net0 k) e)) \<and>
     (\<forall>p\<in>set (gt_sent net). \<forall>e\<in>set (gm_entries (pk_message p)). \<exists>k. covers (store_at net0 k) e)"

lemma since_start:
  assumes ok: "net_ok net"
  shows "since net net"
  unfolding since_def
proof (intro conjI allI ballI impI)
  show "store_le (store_at net i) (store_at net i)" for i using net_ok_D(4) [OF ok] by (rule store_le_refl)
  show "\<exists>k. covers (store_at net k) e" if "ss_view (store_at net i) key = Some e" for i key e
    using covers_self [OF net_ok_D(4) [OF ok] that] by blast
  fix p assume p: "p \<in> set (gt_sent net)"
  then have "pk_step p < gt_step net" using ok by (auto simp: net_ok_def)
  then show "store_le (store_at net (pk_from p)) (merge_entries (ss_init '''') (gm_entries (pk_message p)))"
    if "gt_step net \<le> pk_step p \<and> gm_type (pk_message p) = PUSH" using that by simp
  show "\<exists>k. covers (store_at net k) e" if "e \<in> set (gm_entries (pk_message p))" for e
    using p that ok by (auto simp: net_ok_def)
next
  fix h assume "h \<in> set (gt_heard net)"
  then show "case h of (t, k, j) \<Rightarrow> gt_step net \<le> t \<longrightarrow> store_le (store_at net k) (store_at net j)"
    using ok by (fastforce simp: net_ok_def)
qed (use ok in simp_all)

lemma all_entries_iff:
  assumes "ss_wf s"
  shows "e \<in> set (ss_get_all_entries s) \<longleftrightarrow> ss_view s (se_key e) = Some e"
proof
  assume "e \<in> set (ss_get_all_entries s)"
  then obtain key where "(key, e) \<in> set (ss_store s)" by (auto simp: ss_get_all_entries_def)
  then have "se_key e = key" "map_of (ss_store s) key = Some e" using assms by (simp_all add: ss_wf_iff)
  then show "ss_view s (se_key e) = Some e" by (simp add: ss_view_def)
next
  assume "ss_view s (se_key e) = Some e"
  then have "(se_key e, e) \<in> set (ss_store s)" by (simp add: ss_view_def map_of_SomeD)
  then show "e \<in> set (ss_get_all_entries s)" by (force simp: ss_get_all_entries_def)
qed

text \<open>Merging all entries of a store gives at least the store.\<close>

lemma store_le_push: "ss_wf s \<Longrightarrow> store_le s (merge_entries t (ss_get_all_entries s))" if "ss_wf t" for t
proof -
  assume s: "ss_wf s"
  show ?thesis unfolding store_le_def
  proof (intro allI impI)
    fix key e assume "ss_view s key = Some e"
    then have "e \<in> set (ss_get_all_entries s)" using s ss_wf_view [OF s] by (force simp: all_entries_iff)
    then show "covers (merge_entries t (ss_get_all_entries s)) e" using merge_entries_le [OF that] by blast
  qed
qed

lemma merge_entries_empty_le:
  assumes "ss_wf t"
  shows "store_le (merge_entries (ss_init '''') es) (merge_entries t es)"
  unfolding store_le_def
proof (intro allI impI)
  fix key e assume "ss_view (merge_entries (ss_init '''') es) key = Some e"
  then have "e \<in> set es" using merge_entries_from by (fastforce simp: ss_init_def ss_view_def)
  then show "covers (merge_entries t es) e" using merge_entries_le [OF assms] by blast
qed

lemma ss_init_wf: "ss_wf (ss_init i)"
  by (simp add: ss_wf_def ss_init_def)

lemma since_act:
  assumes since: "since net0 net" and act: "act_ok net i res es" and heard: "heard_ok net i es heard"
  shows "since net0 ((gt_act net i res)\<lparr>gt_heard := gt_heard net @ heard, gt_step := gt_step net + 1\<rparr>)"
proof -
  let ?act = "gt_act net i res"
  have ok: "net_ok net" and le: "\<And>i. store_le (store_at net0 i) (store_at net i)"
    and sent: "\<And>p. p \<in> set (gt_sent net) \<Longrightarrow> gt_step net0 \<le> pk_step p \<Longrightarrow> gm_type (pk_message p) = PUSH \<Longrightarrow>
        store_le (store_at net0 (pk_from p)) (merge_entries (ss_init '''') (gm_entries (pk_message p)))"
    and heard0: "\<And>t k j. (t, k, j) \<in> set (gt_heard net) \<Longrightarrow> gt_step net0 \<le> t \<Longrightarrow> store_le (store_at net0 k) (store_at net j)"
    and stores: "\<And>i key e. ss_view (store_at net i) key = Some e \<Longrightarrow> \<exists>k. covers (store_at net0 k) e"
    and packets: "\<And>p e. p \<in> set (gt_sent net) \<Longrightarrow> e \<in> set (gm_entries (pk_message p)) \<Longrightarrow> \<exists>k. covers (store_at net0 k) e"
    using since by (auto simp: since_def)
  note wf = net_ok_D(4) [OF ok]
  have grow: "store_le (store_at net0 k) (store_at ?act k)" for k
    using store_le_trans [OF le act_store [OF ok act] wf] .
  have merged: "store_at ?act i = merge_entries (store_at net i) es" using act by (simp add: gt_act_def act_ok_def)
  have 1: "store_le (store_at net0 (pk_from p)) (merge_entries (ss_init '''') (gm_entries (pk_message p)))"
    if p: "p \<in> set (gt_sent ?act)" "gt_step net0 \<le> pk_step p" "gm_type (pk_message p) = PUSH" for p
  proof (cases "p \<in> set (gt_sent net)")
    case False
    with p(1,3) act have "pk_from p = i" "gm_entries (pk_message p) = ss_get_all_entries (store_at net i)"
      by (fastforce simp: gt_act_def act_ok_def)+
    then show ?thesis using store_le_trans [OF le store_le_push [OF ss_init_wf wf] wf] by simp
  qed (use sent p in blast)
  have 2: "store_le (store_at net0 k) (store_at ?act j)" if "(t, k, j) \<in> set (gt_heard net @ heard)" "gt_step net0 \<le> t" for t k j
  proof (cases "(t, k, j) \<in> set heard")
    case True
    then obtain p where p: "p \<in> set (gt_sent net)" "pk_step p = t" "pk_from p = k" "gm_type (pk_message p) = PUSH" "gm_entries (pk_message p) = es" "j = i"
      using heard by (auto simp: heard_ok_def)
    have "ss_wf (merge_entries (ss_init '''') es)" using merge_entries_wf [OF ss_init_wf] by blast
    then show ?thesis
      using store_le_trans [OF sent [OF p(1) _ p(4), unfolded p(5,3)] merge_entries_empty_le [OF wf]] p merged that(2) by simp
  next
    case False
    then show ?thesis using that heard0 store_le_trans [OF _ act_store [OF ok act] wf] by auto
  qed
  have es: "\<exists>k. covers (store_at net0 k) e" if "e \<in> set es" for e using that act packets by (force simp: act_ok_def)
  have 3: "\<exists>k. covers (store_at net0 k) e" if "ss_view (store_at ?act j) key = Some e" for j key e
  proof (cases "j = i")
    case True
    then show ?thesis using that stores es merge_entries_from [of "store_at net i" es key e] merged by auto
  qed (use that stores in \<open>simp add: gt_act_def\<close>)
  have 4: "\<exists>k. covers (store_at net0 k) e" if "p \<in> set (gt_sent ?act)" "e \<in> set (gm_entries (pk_message p))" for p e
  proof (cases "p \<in> set (gt_sent net)")
    case False
    with that act have "e \<in> set (ss_get_all_entries (store_at net i))" by (fastforce simp: gt_act_def act_ok_def)
    then show ?thesis using stores wf by (auto simp: all_entries_iff)
  qed (use packets that in blast)
  have "gt_step net0 \<le> gt_step net + 1" using since by (simp add: since_def)
  then show ?thesis unfolding since_def using net_ok_act [OF ok act heard] grow 1 2 3 4 by (auto; blast)
qed

lemma since_run:
  "since net0 net \<Longrightarrow> list_all (\<lambda>ev. \<not> is_write ev) es \<Longrightarrow> since net0 (gossip_run net es)"
proof (induction es arbitrary: net)
  case (Cons ev es)
  from Cons.prems(2) have "\<not> is_write ev" by simp
  then have "since net0 (gossip_step net ev)"
  proof (cases rule: gossip_do_cases [of ev net])
    case 1
    with Cons.prems(1) show ?thesis using net_ok_step [of net ev] by (simp add: gossip_step_def since_def)
  next
    case (2 i res es heard)
    with since_act [OF Cons.prems(1) 2(2,3)] show ?thesis by (simp add: gossip_step_def)
  qed
  with Cons show ?case by (simp add: gossip_run_def)
qed (simp add: gossip_run_def)

text \<open>
  C30. Gossip converges: whatever messages were lost, duplicated or reordered and whatever was
  written before, once the writes have ended and every node of a group has received one later
  push from every other node that holds data, the nodes of the group hold the same entries; for
  each key it is the latest by version and writer that any node held when the writes ended.
\<close>

theorem gossip_converges:
  assumes "\<And>i. fresh_node i (nodes i)"
    and "net0 = gossip_run (gossip_net_init nodes) es0" and "net = gossip_run net0 es"
    and "list_all (\<lambda>ev. \<not> is_write ev) es"
    and heard: "\<And>j k. j \<in> ids \<Longrightarrow> k \<noteq> j \<Longrightarrow> ss_store (store_at net0 k) \<noteq> [] \<Longrightarrow>
      \<exists>t\<ge>gt_step net0. (t, k, j) \<in> set (gt_heard net)"
    and "i \<in> ids" and "j \<in> ids"
  shows "ss_get_entry (store_at net i) key = ss_get_entry (store_at net j) key \<and>
    (\<forall>k e. ss_get_entry (store_at net0 k) key = Some e \<longrightarrow>
       (\<exists>f. ss_get_entry (store_at net i) key = Some f \<and> tag e \<le> tag f))"
proof -
  have ok0: "net_ok net0" using net_ok_run net_ok_init assms(1,2) by blast
  have since: "since net0 net" using since_run [OF since_start [OF ok0] assms(4)] assms(3) by simp
  then have ok: "net_ok net" by (simp add: since_def)
  have all: "store_le (store_at net0 k) (store_at net j)" if "j \<in> ids" for j k
  proof (cases "k = j \<or> ss_store (store_at net0 k) = []")
    case True
    then show ?thesis using since by (auto simp: since_def store_le_def ss_view_def)
  next
    case False
    with heard [OF that] since show ?thesis by (fastforce simp: since_def)
  qed
  have le: "store_le (store_at net i) (store_at net j)" if "j \<in> ids" for i j
  proof (unfold store_le_def, intro allI impI)
    fix key e assume "ss_view (store_at net i) key = Some e"
    with since obtain k where "covers (store_at net0 k) e" by (force simp: since_def)
    then show "covers (store_at net j) e" using covers_mono [OF _ all [OF that] net_ok_D(4) [OF ok0]] by blast
  qed
  have "ss_view (store_at net i) = ss_view (store_at net j)"
    using store_le_antisym [OF le [OF assms(7)] le [OF assms(6)] net_ok_D(3) [OF ok] net_ok_D(3) [OF ok]] .
  moreover have "\<exists>f. ss_view (store_at net i) key = Some f \<and> tag e \<le> tag f" if "ss_view (store_at net0 k) key = Some e" for k e
    using all [OF assms(6), of k] that ss_wf_view [OF net_ok_D(4) [OF ok0] that] by (auto simp: store_le_def covers_def)
  ultimately show ?thesis by (simp add: ss_get_entry_def ss_view_def)
qed

text \<open>An event changes the store of its own node only.\<close>

fun event_node :: "gossip_event \<Rightarrow> string" where
  "event_node (G_Start i now) = i"
| "event_node (G_Stop i) = i"
| "event_node (G_Set i key v now) = i"
| "event_node (G_Delete i key now) = i"
| "event_node (G_Subscribe i pattern cb) = i"
| "event_node (G_Round i positions) = i"
| "event_node (G_Swim i positions) = i"
| "event_node (G_Receive k j now) = j"

lemma gossip_run_elsewhere: "list_all (\<lambda>ev. event_node ev \<noteq> k) es \<Longrightarrow> gt_nodes (gossip_run net es) k = gt_nodes net k"
proof (induction es arbitrary: net)
  case (Cons ev es)
  have "gt_nodes (gossip_step net ev) k = gt_nodes net k"
    using Cons.prems by (cases ev) (auto simp: gossip_step_def gt_act_def Let_def)
  with Cons show ?case by (simp add: gossip_run_def)
qed (simp add: gossip_run_def)

definition example_nodes :: "gossip_mode \<Rightarrow> string \<Rightarrow> gossip_node" where
  "example_nodes mode i =
     (case gn_init i (if i = ''a'' then ''h:1'' else if i = ''b'' then ''h:2'' else ''h:3'')
             (if i = ''a'' then [''h:2''] else [''h:1'']) 3 mode 0 of
        Inl e \<Rightarrow> undefined | Inr n \<Rightarrow> n)"

lemma example_nodes_fresh: "fresh_node i (example_nodes mode i)"
proof -
  have "\<exists>p. parse_address (if i = ''a'' then ''h:1'' else if i = ''b'' then ''h:2'' else ''h:3'') = Inr p"
    by (simp add: parse_address_def read_int_def read_digits_def)
  then show ?thesis by (auto simp: example_nodes_def gn_init_def fresh_node_def)
qed

definition example_writes :: "gossip_event list" where
  "example_writes = [G_Start ''a'' 0, G_Start ''b'' 0, G_Set ''a'' ''k'' (JInt 1) 1, G_Set ''b'' ''k'' (JInt 2) 2, G_Set ''b'' ''l'' (JInt 3) 2]"

definition example_pushes :: "gossip_event list" where
  "example_pushes = [G_Round ''a'' [0], G_Round ''b'' [0], G_Receive 0 ''b'' 5, G_Receive 1 ''a'' 6]"

theorem gossip_converges_witness:
  "ss_get_entry (store_at (gossip_run (gossip_run (gossip_net_init (example_nodes Push_Mode)) example_writes) example_pushes) ''a'') ''k'' =
   ss_get_entry (store_at (gossip_run (gossip_run (gossip_net_init (example_nodes Push_Mode)) example_writes) example_pushes) ''b'') ''k''"
proof -
  let ?start = "gossip_run (gossip_net_init (example_nodes Push_Mode)) example_writes"
  let ?net = "gossip_run ?start example_pushes"
  have other: "ss_store (store_at ?start k) = []" if "k \<noteq> ''a''" "k \<noteq> ''b''" for k
  proof -
    have "gt_nodes ?start k = example_nodes Push_Mode k"
      using that gossip_run_elsewhere [of k example_writes "gossip_net_init (example_nodes Push_Mode)"]
      by (simp add: example_writes_def gossip_net_init_def)
    then show ?thesis using example_nodes_fresh [of k Push_Mode] by (simp add: fresh_node_def ss_init_def)
  qed
  have heard: "gt_heard ?net = [(5, ''a'', ''b''), (6, ''b'', ''a'')]" and step: "gt_step ?start = 5"
    and nw: "list_all (\<lambda>ev. \<not> is_write ev) example_pushes" by code_simp+
  have "\<exists>t\<ge>gt_step ?start. (t, k, j) \<in> set (gt_heard ?net)"
    if "j \<in> {''a'', ''b''}" "k \<noteq> j" "ss_store (store_at ?start k) \<noteq> []" for j k
    using that other [of k] by (cases "k = ''a''"; cases "k = ''b''") (auto simp: heard step)
  from gossip_converges [OF example_nodes_fresh refl refl nw this, of "{''a'', ''b''}" "''a''" "''b''" "''k''"] show ?thesis by blast
qed

text \<open>
  Pulling alone does not converge: a response holds the entries whose version is greater
  than the digest's, so two entries of one version by different writers, which a push would
  reconcile, are never exchanged; both nodes have written the key once, each has pulled from the
  other, and they still disagree.
\<close>

theorem gossip_pull_ties_stuck:
  "case gossip_run (gossip_run (gossip_net_init (example_nodes Pull_Mode)) example_writes)
     [G_Round ''a'' [0], G_Round ''b'' [0], G_Receive 0 ''b'' 5, G_Receive 1 ''a'' 6, G_Receive 2 ''a'' 7, G_Receive 3 ''b'' 8] of net \<Rightarrow>
     map (\<lambda>p. gm_type (pk_message p)) (gt_sent net) = [PULL_REQUEST, PULL_REQUEST, PULL_RESPONSE, PULL_RESPONSE] \<and>
     gn_messages_received (gt_nodes net ''a'') = 2 \<and> gn_messages_received (gt_nodes net ''b'') = 2 \<and>
     gn_get (gt_nodes net ''a'') ''l'' = JInt 3 \<and>
     gn_get (gt_nodes net ''a'') ''k'' = JInt 1 \<and> gn_get (gt_nodes net ''b'') ''k'' = JInt 2"
  by code_simp

section \<open>Membership\<close>

text \<open>The constructor means to add the local node, but \<open>update_member\<close> ignores it, then and later.\<close>

lemma ms_update_self: "ms_local_node_id (fst (ms_update_member ms i a st inc now)) = ms_local_node_id ms \<and>
    (map_of (ms_members ms) (ms_local_node_id ms) = None \<longrightarrow>
     map_of (ms_members (fst (ms_update_member ms i a st inc now))) (ms_local_node_id ms) = None)"
  by (auto simp: ms_update_member_def update_conv' split: option.split)

lemma self_never_listed:
  "map_of (ms_members (ms_merge_membership_list (ms_init i a now) remote now')) i = None"
proof -
  have "map_of (ms_members (ms_merge_membership_list ms remote now')) (ms_local_node_id ms) = None"
    if "map_of (ms_members ms) (ms_local_node_id ms) = None" for ms
    using that
  proof (induction remote arbitrary: ms)
    case (Cons d remote)
    let ?ms = "fst (ms_update_member ms (md_node_id d) (md_host d, md_port d) (md_status d) (md_incarnation d) now')"
    have self: "ms_local_node_id ?ms = ms_local_node_id ms" "map_of (ms_members ?ms) (ms_local_node_id ms) = None"
      using ms_update_self Cons.prems by blast+
    have step: "ms_merge_membership_list ms (d # remote) now' = ms_merge_membership_list ?ms remote now'"
      by (simp add: ms_merge_membership_list_def)
    from Cons.IH [of ?ms] self show ?case by (simp add: step)
  qed (simp add: ms_merge_membership_list_def)
  from this [of "ms_init i a now"] show ?thesis by (simp add: ms_init_def ms_update_member_def)
qed

text \<open>What is known of another node only gets newer: its incarnation, and its rank within one.\<close>

fun status_rank :: "member_status \<Rightarrow> nat" where
  "status_rank ALIVE = 0"
| "status_rank SUSPECT = 1"
| "status_rank LEFT = 1"
| "status_rank DEAD = 2"

lemma ms_update_monotone:
  assumes "map_of (ms_members ms) k = Some m" and "k \<noteq> ms_local_node_id ms"
  shows "\<exists>m'. map_of (ms_members (fst (ms_update_member ms i a st inc now))) k = Some m' \<and>
    (mb_incarnation m, status_rank (mb_status m)) \<le> (mb_incarnation m', status_rank (mb_status m'))"
  using assms by (cases "mb_status m") (auto simp: ms_update_member_def update_conv' less_eq_prod_def split: option.split)

end
