(* ===== verification/Gossip_Wire.thy ===== *)
theory Gossip_Wire
  imports Gossip_Network
begin

text \<open>
  \<open>gossip-protocol/src/message.py\<close> and the receiving side of \<open>transport.py\<close> and \<open>gossip_node.py\<close>: the
  JSON form of messages, and what a node makes of a datagram. The text that \<open>json.dumps\<close> prints and
  \<open>json.loads\<close> reads is a parameter; documents are trees. The classes do not check the types that
  they declare: Python goes on with a field of another type and stores it. The states of the model
  have no place for such a value, so the reading functions answer \<open>None\<close> there, and the model says
  nothing of what the node does; exceptions that the code raises are \<open>Inl\<close>.
\<close>

section \<open>Printing\<close>

fun gossip_type_value :: "gossip_type \<Rightarrow> string" where
  "gossip_type_value PUSH = ''push''"
| "gossip_type_value PULL_REQUEST = ''pull_request''"
| "gossip_type_value PULL_RESPONSE = ''pull_response''"
| "gossip_type_value PING = ''ping''"
| "gossip_type_value ACK = ''ack''"
| "gossip_type_value PING_REQ = ''ping_req''"

fun status_value :: "member_status \<Rightarrow> string" where
  "status_value ALIVE = ''alive''"
| "status_value SUSPECT = ''suspect''"
| "status_value DEAD = ''dead''"
| "status_value LEFT = ''left''"

text \<open>\<open>asdict(entry)\<close>, and an element of \<open>get_all_members_data\<close>.\<close>

definition entry_to_json :: "state_entry \<Rightarrow> json" where
  "entry_to_json e = JObj [(''key'', JStr (se_key e)), (''value'', se_value e), (''version'', JInt (se_version e)),
     (''timestamp'', JNum (se_timestamp e)), (''node_id'', JStr (se_node_id e)), (''tombstone'', JBool (se_tombstone e))]"

definition member_to_json :: "member_data \<Rightarrow> json" where
  "member_to_json d = JObj [(''node_id'', JStr (md_node_id d)), (''host'', JStr (md_host d)), (''port'', JInt (md_port d)),
     (''status'', JStr (status_value (md_status d))), (''incarnation'', JInt (md_incarnation d))]"

definition entries_payload :: "gossip_message \<Rightarrow> json" where
  "entries_payload m = JObj [(''entries'', JList (map entry_to_json (gm_entries m))),
     (''membership'', JList (map member_to_json (gm_membership m)))]"

definition payload_to_json :: "gossip_message \<Rightarrow> json" where
  "payload_to_json m = (case gm_type m of
     PUSH \<Rightarrow> entries_payload m
   | PULL_REQUEST \<Rightarrow> JObj [(''digest'', JObj (map (\<lambda>(k, v). (k, JInt v)) (gm_digest m)))]
   | PULL_RESPONSE \<Rightarrow> entries_payload m
   | PING \<Rightarrow> JObj []
   | ACK \<Rightarrow> JObj []
   | PING_REQ \<Rightarrow> JObj [(''target_id'', JStr (gm_target_id m))])"

definition gossip_to_json :: "time \<Rightarrow> gossip_message \<Rightarrow> json" where
  "gossip_to_json timestamp m =
     JObj [(''type'', JStr (gossip_type_value (gm_type m))), (''sender_id'', JStr (gm_sender_id m)),
           (''payload'', payload_to_json m), (''timestamp'', JNum timestamp)]"

section \<open>Reading\<close>

text \<open>The constructors of the enumerations: \<open>ValueError\<close> on everything but their values.\<close>

definition gossip_type_of :: "json \<Rightarrow> gossip_type result" where
  "gossip_type_of j =
     (case find (\<lambda>t. j = JStr (gossip_type_value t)) [PUSH, PULL_REQUEST, PULL_RESPONSE, PING, ACK, PING_REQ] of
        None \<Rightarrow> Inl ValueError | Some t \<Rightarrow> Inr t)"

definition status_of :: "json \<Rightarrow> member_status result" where
  "status_of j =
     (case find (\<lambda>s. j = JStr (status_value s)) [ALIVE, SUSPECT, DEAD, LEFT] of None \<Rightarrow> Inl ValueError | Some s \<Rightarrow> Inr s)"

record wire_message =
  wm_type :: gossip_type
  wm_sender_id :: string
  wm_payload :: json
  wm_timestamp :: json

text \<open>An exception, a value, or \<open>None\<close> where the code keeps a value that has not the declared type.\<close>

type_synonym 'a reading = "'a result option"

definition typed :: "'a result \<Rightarrow> ('a \<Rightarrow> 'b reading) \<Rightarrow> 'b reading" where
  "typed r f = (case r of Inl e \<Rightarrow> None | Inr x \<Rightarrow> f x)"

definition raising :: "'a result \<Rightarrow> ('a \<Rightarrow> 'b reading) \<Rightarrow> 'b reading" where
  "raising r f = (case r of Inl e \<Rightarrow> Some (Inl e) | Inr x \<Rightarrow> f x)"

lemma reading_simps [simp]:
  "typed (Inr x) f = f x" "typed (Inl e) f = None" "raising (Inr x) f = f x" "raising (Inl e) f = Some (Inl e)"
  by (simp_all add: typed_def raising_def)

definition gossip_from_json :: "json \<Rightarrow> wire_message reading" where
  "gossip_from_json data =
     raising (bind_result (json_field data ''type'') gossip_type_of) (\<lambda>t.
     raising (json_field data ''sender_id'') (\<lambda>sender_id.
     raising (json_field data ''payload'') (\<lambda>payload.
     raising (json_field data ''timestamp'') (\<lambda>timestamp.
     typed (json_str sender_id) (\<lambda>sender.
     Some (Inr \<lparr>wm_type = t, wm_sender_id = sender, wm_payload = payload, wm_timestamp = timestamp\<rparr>))))))"

text \<open>\<open>payload.get(name, default)\<close>, and what a \<open>for\<close> loop takes from a value.\<close>

fun payload_get :: "json \<Rightarrow> string \<Rightarrow> json \<Rightarrow> json result" where
  "payload_get (JObj members) name missing = Inr (case map_of members name of None \<Rightarrow> missing | Some v \<Rightarrow> v)"
| "payload_get _ name missing = Inl (OtherException ''AttributeError'')"

fun json_iter :: "json \<Rightarrow> json list result" where
  "json_iter (JList xs) = Inr xs"
| "json_iter (JObj members) = Inr (map (\<lambda>(k, _). JStr k) members)"
| "json_iter (JStr s) = Inr (map (\<lambda>c. JStr [c]) s)"
| "json_iter _ = Inl TypeError"

text \<open>\<open>StateEntry(**data)\<close>: keyword arguments must be the fields of the class, and all but the last must be there.\<close>

definition entry_fields :: "string list" where
  "entry_fields = [''key'', ''value'', ''version'', ''timestamp'', ''node_id'', ''tombstone'']"

definition keyword_arg :: "(string \<times> json) list \<Rightarrow> string \<Rightarrow> json result" where
  "keyword_arg members name = (case map_of members name of None \<Rightarrow> Inl TypeError | Some v \<Rightarrow> Inr v)"

definition tombstone_arg :: "(string \<times> json) list \<Rightarrow> json" where
  "tombstone_arg members = (case map_of members ''tombstone'' of None \<Rightarrow> JBool False | Some v \<Rightarrow> v)"

fun entry_from_json :: "json \<Rightarrow> state_entry reading" where
  "entry_from_json (JObj members) =
     raising (if set (map fst members) \<subseteq> set entry_fields then Inr () else Inl TypeError) (\<lambda>_.
     raising (keyword_arg members ''key'') (\<lambda>key.
     raising (keyword_arg members ''value'') (\<lambda>val.
     raising (keyword_arg members ''version'') (\<lambda>version.
     raising (keyword_arg members ''timestamp'') (\<lambda>timestamp.
     raising (keyword_arg members ''node_id'') (\<lambda>node_id.
     typed (json_str key) (\<lambda>k.
     typed (json_int version) (\<lambda>v.
     typed (json_num timestamp) (\<lambda>ts.
     typed (json_str node_id) (\<lambda>node.
     typed (json_bool (tombstone_arg members)) (\<lambda>tombstone.
     Some (Inr \<lparr>se_key = k, se_value = val, se_version = v, se_timestamp = ts, se_node_id = node,
                se_tombstone = tombstone\<rparr>))))))))))))"
| "entry_from_json _ = Some (Inl TypeError)"

definition member_from_json :: "json \<Rightarrow> member_data reading" where
  "member_from_json d =
     raising (json_field d ''node_id'') (\<lambda>node_id.
     raising (json_field d ''host'') (\<lambda>host.
     raising (json_field d ''port'') (\<lambda>port.
     raising (bind_result (json_field d ''status'') status_of) (\<lambda>status.
     raising (json_field d ''incarnation'') (\<lambda>incarnation.
     typed (json_str node_id) (\<lambda>node.
     typed (json_str host) (\<lambda>h.
     typed (json_int port) (\<lambda>p.
     typed (json_int incarnation) (\<lambda>i.
     Some (Inr \<lparr>md_node_id = node, md_host = h, md_port = p, md_status = status, md_incarnation = i\<rparr>))))))))))"

section \<open>What a node does with a document\<close>

text \<open>\<open>_merge_entries\<close>: an entry that cannot be read is skipped.\<close>

fun wire_merge_entries :: "gossip_node \<Rightarrow> json list \<Rightarrow> gossip_node option" where
  "wire_merge_entries n [] = Some n"
| "wire_merge_entries n (data # entries_data) =
     (case entry_from_json data of
        None \<Rightarrow> None
      | Some (Inl e) \<Rightarrow> wire_merge_entries n entries_data
      | Some (Inr entry) \<Rightarrow> (case ss_merge (gn_store n) entry of (s, updated) \<Rightarrow>
          let n1 = n\<lparr>gn_store := s\<rparr>
          in wire_merge_entries (if updated then gn_notify n1 (se_key entry) (se_value entry) else n1) entries_data))"

text \<open>\<open>merge_membership_list\<close>: a member that cannot be read ends the loop; the ones before it are kept.\<close>

fun wire_merge_members :: "membership \<Rightarrow> json list \<Rightarrow> time \<Rightarrow> membership option" where
  "wire_merge_members ms [] now = Some ms"
| "wire_merge_members ms (d # ds) now =
     (case member_from_json d of
        None \<Rightarrow> None
      | Some (Inl e) \<Rightarrow> Some ms
      | Some (Inr m) \<Rightarrow> wire_merge_members
          (fst (ms_update_member ms (md_node_id m) (md_host m, md_port m) (md_status m) (md_incarnation m) now)) ds now)"

text \<open>\<open>_handle_push\<close> and \<open>_handle_pull_response\<close>, which do the same.\<close>

definition wire_handle_entries :: "gossip_node \<Rightarrow> json \<Rightarrow> time \<Rightarrow> gossip_node option" where
  "wire_handle_entries n payload now =
     (case bind_result (payload_get payload ''entries'' (JList [])) json_iter of
        Inl e \<Rightarrow> Some n
      | Inr entries_data \<Rightarrow>
          (case wire_merge_entries n entries_data of
             None \<Rightarrow> None
           | Some n1 \<Rightarrow>
               (case bind_result (payload_get payload ''membership'' (JList [])) json_iter of
                  Inl e \<Rightarrow> Some n1
                | Inr members \<Rightarrow> map_option (\<lambda>ms. n1\<lparr>gn_membership := ms\<rparr>) (wire_merge_members (gn_membership n1) members now))))"

text \<open>\<open>get_delta\<close> on what came as the digest: it is looked at once for each entry of the store.\<close>

fun json_compare :: "int \<Rightarrow> json \<Rightarrow> bool result" where
  "json_compare version (JInt v) = Inr (version > v)"
| "json_compare version (JNum v) = Inr (of_int version > v)"
| "json_compare version (JBool b) = Inr (version > (if b then 1 else 0))"
| "json_compare version _ = Inl TypeError"

fun wire_get_delta :: "(string, state_entry) dict \<Rightarrow> json \<Rightarrow> state_entry list result" where
  "wire_get_delta [] digest = Inr []"
| "wire_get_delta ((key, entry) # store) digest =
     bind_result (bind_result (payload_get digest key (JInt 0)) (json_compare (se_version entry))) (\<lambda>newer.
     bind_result (wire_get_delta store digest) (\<lambda>delta. Inr (if newer then entry # delta else delta)))"

definition wire_handle_pull_request :: "gossip_node \<Rightarrow> json \<Rightarrow> address \<Rightarrow> gossip_node \<times> gossip_sends" where
  "wire_handle_pull_request n payload addr =
     (case bind_result (payload_get payload ''digest'' (JObj [])) (wire_get_delta (ss_store (gn_store n))) of
        Inl e \<Rightarrow> (n, [])
      | Inr delta \<Rightarrow> gn_send n addr
          ((gm_plain PULL_RESPONSE (gn_node_id n))\<lparr>gm_entries := delta, gm_membership := ms_get_all_members_data (gn_membership n)\<rparr>))"

text \<open>
  \<open>_handle_message\<close>: the datagram is counted, and every exception is logged and swallowed where it
  arises. A PING_REQ looks its target up and does nothing, whatever its payload.
\<close>

definition gn_receive :: "gossip_node \<Rightarrow> json option \<Rightarrow> address \<Rightarrow> time \<Rightarrow> (gossip_node \<times> gossip_sends) option" where
  "gn_receive n0 document addr now =
     (let n1 = n0\<lparr>gn_messages_received := gn_messages_received n0 + 1\<rparr>
      in case document of
           None \<Rightarrow> Some (n1, [])
         | Some data \<Rightarrow>
             (case gossip_from_json data of
                None \<Rightarrow> None
              | Some (Inl e) \<Rightarrow> Some (n1, [])
              | Some (Inr msg) \<Rightarrow>
                  let n = n1\<lparr>gn_detector := fd_report_heartbeat (gn_detector n1) (wm_sender_id msg) now,
                             gn_membership := fst (ms_update_member (gn_membership n1) (wm_sender_id msg) addr ALIVE 0 now)\<rparr>
                  in case wm_type msg of
                       PUSH \<Rightarrow> map_option (\<lambda>n2. (n2, [])) (wire_handle_entries n (wm_payload msg) now)
                     | PULL_REQUEST \<Rightarrow> Some (wire_handle_pull_request n (wm_payload msg) addr)
                     | PULL_RESPONSE \<Rightarrow> map_option (\<lambda>n2. (n2, [])) (wire_handle_entries n (wm_payload msg) now)
                     | PING \<Rightarrow> Some (gn_handle_ping n addr)
                     | ACK \<Rightarrow> Some (n, [])
                     | PING_REQ \<Rightarrow> Some (n, [])))"

text \<open>
  The transport: a datagram is read into a buffer of \<open>buffer_size\<close> bytes, and what does not fit is
  cut off. \<open>to_bytes\<close> prints the document, \<open>from_bytes\<close> reads it.
\<close>

definition udp_received :: "nat \<Rightarrow> string \<Rightarrow> string" where
  "udp_received buffer_size datagram = take buffer_size datagram"

definition gn_on_datagram ::
  "(string \<Rightarrow> json option) \<Rightarrow> nat \<Rightarrow> gossip_node \<Rightarrow> string \<Rightarrow> address \<Rightarrow> time \<Rightarrow> (gossip_node \<times> gossip_sends) option" where
  "gn_on_datagram loads buffer_size n datagram addr now = gn_receive n (loads (udp_received buffer_size datagram)) addr now"

section \<open>Messages of the program arrive as they were\<close>

lemma gossip_type_roundtrip [simp]: "gossip_type_of (JStr (gossip_type_value t)) = Inr t"
  by (cases t) (simp_all add: gossip_type_of_def)

lemma status_roundtrip [simp]: "status_of (JStr (status_value s)) = Inr s"
  by (cases s) (simp_all add: status_of_def)

lemma entry_roundtrip [simp]: "entry_from_json (entry_to_json e) = Some (Inr e)"
  by (cases e) (simp add: entry_to_json_def keyword_arg_def tombstone_arg_def entry_fields_def)

lemma member_roundtrip [simp]: "member_from_json (member_to_json d) = Some (Inr d)"
  by (cases d) (simp add: member_to_json_def member_from_json_def)

lemma gossip_roundtrip:
  "gossip_from_json (gossip_to_json ts m) = Some (Inr
     \<lparr>wm_type = gm_type m, wm_sender_id = gm_sender_id m, wm_payload = payload_to_json m, wm_timestamp = JNum ts\<rparr>)"
  by (simp add: gossip_from_json_def gossip_to_json_def)

text \<open>What can be read of a list of entries, and the members before the first that cannot be read.\<close>

definition readable_entries :: "json list \<Rightarrow> state_entry list" where
  "readable_entries ds = concat (map (\<lambda>d. case entry_from_json d of Some (Inr entry) \<Rightarrow> [entry] | _ \<Rightarrow> []) ds)"

fun readable_members :: "json list \<Rightarrow> member_data list" where
  "readable_members [] = []"
| "readable_members (d # ds) = (case member_from_json d of Some (Inr m) \<Rightarrow> m # readable_members ds | _ \<Rightarrow> [])"

lemma readable_printed [simp]:
  "readable_entries (map entry_to_json es) = es" "readable_members (map member_to_json ms) = ms"
  by (induction es) (simp_all add: readable_entries_def, induction ms, simp_all)

text \<open>The fields have the declared types, in the entries and members whose constructors do not raise.\<close>

definition entries_typed :: "json list \<Rightarrow> bool" where
  "entries_typed ds = list_all (\<lambda>d. entry_from_json d \<noteq> None) ds"

definition members_typed :: "json list \<Rightarrow> bool" where
  "members_typed ds = list_all (\<lambda>d. member_from_json d \<noteq> None) ds"

lemma typed_printed [simp]: "entries_typed (map entry_to_json es)" "members_typed (map member_to_json ms)"
  by (simp_all add: entries_typed_def members_typed_def list_all_iff)

lemma wire_merge_entries_eq: "entries_typed ds \<Longrightarrow> wire_merge_entries n ds = Some (gn_merge_entries n (readable_entries ds))"
proof (induction ds arbitrary: n)
  case (Cons d ds)
  then show ?case
    by (cases "entry_from_json d")
      (auto simp: gn_merge_entries_def readable_entries_def entries_typed_def Let_def split: sum.split prod.split)
qed (simp add: gn_merge_entries_def readable_entries_def)

lemma wire_merge_members_eq:
  "members_typed ds \<Longrightarrow> wire_merge_members ms ds now = Some (ms_merge_membership_list ms (readable_members ds) now)"
  by (induction ms ds now rule: wire_merge_members.induct)
    (auto simp: ms_merge_membership_list_def members_typed_def split: sum.split)

lemma digest_lookup: "map_of (map (\<lambda>(k, v). (k, JInt v)) digest) key = map_option JInt (map_of digest key)"
  by (induction digest) auto

lemma wire_get_delta_eq:
  "wire_get_delta store (JObj (map (\<lambda>(k, v). (k, JInt v)) digest)) =
     Inr (map snd (filter (\<lambda>(key, entry). se_version entry > dict_get digest key 0) store))"
proof (induction store)
  case (Cons p store)
  then show ?case by (cases p) (auto simp: digest_lookup dict_get_def split: option.split)
qed simp

lemma wire_entries_eq: "wire_handle_entries n (entries_payload m) now = Some (gn_handle_push n m now)"
  by (simp add: wire_handle_entries_def entries_payload_def wire_merge_entries_eq wire_merge_members_eq gn_handle_push_def Let_def)

lemma wire_pull_eq:
  "wire_handle_pull_request n (JObj [(''digest'', JObj (map (\<lambda>(k, v). (k, JInt v)) (gm_digest m)))]) addr = gn_handle_pull_request n m addr"
  by (simp add: wire_handle_pull_request_def wire_get_delta_eq gn_handle_pull_request_def ss_get_delta_def)

lemma receive_printed: "gn_receive n (Some (gossip_to_json ts m)) addr now = Some (gn_handle_message n m addr now)"
  by (cases "gm_type m")
    (simp_all add: gn_receive_def gossip_roundtrip gn_handle_message_def payload_to_json_def wire_entries_eq
      gn_handle_push_def gn_handle_pull_response_def gn_handle_ping_req_def wire_pull_eq Let_def
      split: option.split)

section \<open>What any datagram can do\<close>

text \<open>The two lists of a message that carries entries; nothing where reading them raises.\<close>

definition payload_list :: "json \<Rightarrow> string \<Rightarrow> json list" where
  "payload_list payload name =
     (case bind_result (payload_get payload name (JList [])) json_iter of Inl e \<Rightarrow> [] | Inr ds \<Rightarrow> ds)"

definition delivered_entries :: "json option \<Rightarrow> state_entry list" where
  "delivered_entries document =
     (case document of None \<Rightarrow> []
      | Some data \<Rightarrow>
          (case gossip_from_json data of
             Some (Inr msg) \<Rightarrow> if wm_type msg \<in> {PUSH, PULL_RESPONSE} then readable_entries (payload_list (wm_payload msg) ''entries'') else []
           | _ \<Rightarrow> []))"

definition document_typed :: "json option \<Rightarrow> bool" where
  "document_typed document \<longleftrightarrow>
     (case document of None \<Rightarrow> True
      | Some data \<Rightarrow>
          (case gossip_from_json data of None \<Rightarrow> False | Some (Inl e) \<Rightarrow> True
           | Some (Inr msg) \<Rightarrow> wm_type msg \<notin> {PUSH, PULL_RESPONSE} \<or>
               entries_typed (payload_list (wm_payload msg) ''entries'') \<and> members_typed (payload_list (wm_payload msg) ''membership'')))"

lemma merge_no_entries [simp]: "merge_entries s [] = s"
  by (simp add: merge_entries_def)

lemma wire_handle_entries_store:
  assumes "entries_typed (payload_list payload ''entries'')" and "members_typed (payload_list payload ''membership'')"
  shows "\<exists>n'. wire_handle_entries n payload now = Some n' \<and>
    gn_store n' = merge_entries (gn_store n) (readable_entries (payload_list payload ''entries''))"
  using assms
  by (auto simp: wire_handle_entries_def payload_list_def wire_merge_entries_eq wire_merge_members_eq gn_merge_entries_store
    readable_entries_def split: sum.split)

lemma receive_store:
  assumes "document_typed document"
  shows "\<exists>n' sends. gn_receive n document addr now = Some (n', sends) \<and>
    gn_store n' = merge_entries (gn_store n) (delivered_entries document)"
proof (cases document)
  case (Some data)
  show ?thesis
  proof (cases "gossip_from_json data")
    case (Some r)
    then show ?thesis
    proof (cases r)
      case (Inr msg)
      let ?n = "n\<lparr>gn_messages_received := gn_messages_received n + 1,
        gn_detector := fd_report_heartbeat (gn_detector n) (wm_sender_id msg) now,
        gn_membership := fst (ms_update_member (gn_membership n) (wm_sender_id msg) addr ALIVE 0 now)\<rparr>"
      note [simp] = gn_receive_def delivered_entries_def document_typed_def wire_handle_pull_request_def gn_handle_ping_def gn_send_def
      from assms wire_handle_entries_store [of "wm_payload msg" ?n now] show ?thesis
        using \<open>document = Some data\<close> Some Inr by (cases "wm_type msg") (auto simp: Let_def split: sum.split)
    qed (simp add: gn_receive_def delivered_entries_def \<open>document = Some data\<close>)
  qed (use assms \<open>document = Some data\<close> in \<open>simp add: document_typed_def\<close>)
qed (simp add: gn_receive_def delivered_entries_def)

definition unreadable :: "json option \<Rightarrow> bool" where
  "unreadable document \<longleftrightarrow>
     (case document of None \<Rightarrow> True
      | Some data \<Rightarrow> (case gossip_from_json data of Some (Inl e) \<Rightarrow> True | _ \<Rightarrow> False))"

lemma receive_unreadable:
  "unreadable document \<Longrightarrow> gn_receive n document addr now = Some (n\<lparr>gn_messages_received := gn_messages_received n + 1\<rparr>, [])"
  by (auto simp: gn_receive_def unreadable_def split: option.splits sum.splits)

text \<open>
  C29. A message that its sender prints and that fits into the buffer is handled as the message. A
  datagram that does not decode, or of which \<open>from_bytes\<close> cannot build a message, is counted and
  changes nothing else. Of any other datagram whose fields have the types that the classes
  declare, the store is merged with exactly the entries whose constructor does not raise, and
  stays well-formed: an unreadable entry neither fails the node nor hides the others. What the node does with fields of other types, which the code stores, is not modelled.
\<close>

theorem gossip_datagrams:
  assumes "loads (dumps (gossip_to_json ts m)) = Some (gossip_to_json ts m)" and "ss_wf (gn_store n)"
  shows "(length (dumps (gossip_to_json ts m)) \<le> buffer_size \<longrightarrow>
      gn_on_datagram loads buffer_size n (dumps (gossip_to_json ts m)) addr now = Some (gn_handle_message n m addr now)) \<and>
    (unreadable (loads (udp_received buffer_size d)) \<longrightarrow>
      gn_on_datagram loads buffer_size n d addr now = Some (n\<lparr>gn_messages_received := gn_messages_received n + 1\<rparr>, [])) \<and>
    (document_typed (loads (udp_received buffer_size d)) \<longrightarrow>
      (\<exists>n' sends. gn_on_datagram loads buffer_size n d addr now = Some (n', sends) \<and>
         gn_store n' = merge_entries (gn_store n) (delivered_entries (loads (udp_received buffer_size d))) \<and>
         ss_wf (gn_store n')))"
  using assms receive_store [of "loads (udp_received buffer_size d)" n addr now] merge_entries_wf [OF assms(2)]
  by (auto simp: gn_on_datagram_def udp_received_def receive_printed receive_unreadable)

definition wire_example :: gossip_node where
  "wire_example = projr (gn_init ''B'' ''b:2'' [] 3 Push_Mode 0)"

definition wire_message_example :: gossip_message where
  "wire_message_example = (gm_plain PUSH ''A'')\<lparr>gm_entries := [\<lparr>se_key = ''k'', se_value = JInt 1, se_version = 1, se_timestamp = 0,
     se_node_id = ''A'', se_tombstone = False\<rparr>]\<rparr>"

text \<open>
  A push of one entry arrives; a datagram that is no JSON is counted.
\<close>

theorem gossip_datagrams_witness:
  "map_option (\<lambda>(n, _). gn_get n ''k'') (gn_on_datagram (\<lambda>s. if s = ''d'' then Some (gossip_to_json 0 wire_message_example) else None) 4096
      wire_example ''d'' (''a'', 1) 5) = Some (JInt 1) \<and>
   gn_on_datagram (\<lambda>s. if s = ''d'' then Some (gossip_to_json 0 wire_message_example) else None) 4096
      wire_example ''x'' (''a'', 1) 5 = Some (wire_example\<lparr>gn_messages_received := 1\<rparr>, [])"
proof -
  let ?loads = "\<lambda>s. if s = ''d'' then Some (gossip_to_json 0 wire_message_example) else None"
  have wf: "ss_wf (gn_store wire_example)" by code_simp
  have "gn_on_datagram ?loads 4096 wire_example ''d'' (''a'', 1) 5 = Some (gn_handle_message wire_example wire_message_example (''a'', 1) 5)"
    using gossip_datagrams [of ?loads "\<lambda>_. ''d''" 0 wire_message_example wire_example 4096 "(''a'', 1)" 5 "''d''", OF _ wf] by simp
  moreover have "gn_get (fst (gn_handle_message wire_example wire_message_example (''a'', 1) 5)) ''k'' = JInt 1" by code_simp
  moreover have "gn_messages_received wire_example = 0" by code_simp
  ultimately show ?thesis
    using gossip_datagrams [of ?loads "\<lambda>_. ''d''" 0 wire_message_example wire_example 4096 "(''a'', 1)" 5 "''x''", OF _ wf]
    by (simp add: udp_received_def unreadable_def split_beta)
qed

text \<open>
  An entry without its version and one with a field too many are skipped, the entry after them is
  merged; an entry whose version is a string is one that the code would store.
\<close>

theorem gossip_entries_examples:
  "(let entry = entry_to_json (hd (gm_entries wire_message_example));
        push = (\<lambda>es. JObj [(''type'', JStr ''push''), (''sender_id'', JStr ''A''), (''payload'', JObj [(''entries'', JList es)]), (''timestamp'', JNull)])
    in document_typed (Some (push [JObj [(''key'', JStr ''k'')], JObj [(''no_field'', JNull)], JNull, entry])) \<and>
       delivered_entries (Some (push [JObj [(''key'', JStr ''k'')], JObj [(''no_field'', JNull)], JNull, entry])) =
         gm_entries wire_message_example \<and>
       \<not> document_typed (Some (push [JObj [(''key'', JStr ''k''), (''value'', JNull), (''version'', JStr ''9''), (''timestamp'', JNum 0),
         (''node_id'', JStr ''A'')]])))"
  by code_simp

end
