(* ===== verification/Failure_Detector.thy ===== *)
theory Failure_Detector
  imports Gossip_Node
begin

text \<open>
  \<open>gossip-protocol/src/failure_detector.py\<close>: the suspicion level of a node from the intervals of
  its heartbeats (their recording is in \<open>Gossip_Node\<close>). The functions of \<open>math\<close> and \<open>statistics\<close>
  are their mathematical counterparts; \<open>erf\<close> is given by its power series.
\<close>

section \<open>The error function\<close>

definition erf_coeff :: "nat \<Rightarrow> real" where
  "erf_coeff n = (if even n then 0 else (- 1) ^ (n div 2) / (fact (n div 2) * real n))"

definition erf :: "real \<Rightarrow> real" where
  "erf x = 2 / sqrt pi * (\<Sum>n. erf_coeff n * x ^ n)"

lemma summable_erf: "summable (\<lambda>n. erf_coeff n * y ^ n)"
proof -
  let ?f = "\<lambda>n. erf_coeff n * y ^ n" and ?g = "\<lambda>n::nat. 2 * n + 1"
  have "summable (\<lambda>n. \<bar>y\<bar> * ((y\<^sup>2) ^ n / fact n))"
    using summable_exp [of "y\<^sup>2"] by (intro summable_mult) (simp add: divide_inverse mult.commute)
  moreover have "norm (?f (?g n)) \<le> \<bar>y\<bar> * ((y\<^sup>2) ^ n / fact n)" for n
  proof -
    have "norm (?f (?g n)) = \<bar>y\<bar> * ((y\<^sup>2) ^ n / fact n) / real (2 * n + 1)"
      by (simp add: erf_coeff_def abs_mult power_abs power_mult [symmetric] power_even_abs field_simps power_add)
    also have "\<dots> \<le> \<bar>y\<bar> * ((y\<^sup>2) ^ n / fact n) / 1" by (intro divide_left_mono) auto
    finally show ?thesis by simp
  qed
  ultimately have "summable (\<lambda>n. ?f (?g n))" by (rule summable_comparison_test' [of _ 0])
  then have "(\<lambda>n. ?f (?g n)) sums (\<Sum>n. ?f (?g n))" by (rule summable_sums)
  moreover have "?f n = 0" if "n \<notin> range ?g" for n
    using that by (auto simp: erf_coeff_def elim!: oddE)
  ultimately have "?f sums (\<Sum>n. ?f (?g n))"
    using sums_mono_reindex [of ?g ?f] by (simp add: strict_mono_def)
  then show ?thesis by (rule sums_summable)
qed

lemma diffs_erf_coeff: "diffs erf_coeff (2 * n) = (- 1) ^ n / fact n"
proof -
  have "diffs erf_coeff (2 * n) = real (2 * n + 1) * ((- 1) ^ n / (fact n * real (2 * n + 1)))"
    by (simp add: diffs_def erf_coeff_def del: of_nat_Suc)
  also have "\<dots> = (- 1) ^ n / fact n" by (simp del: of_nat_add of_nat_Suc)
  finally show ?thesis .
qed

lemma erf_derivative_series: "(\<lambda>n. diffs erf_coeff n * x ^ n) sums exp (- x\<^sup>2)"
proof -
  let ?f = "\<lambda>n. diffs erf_coeff n * x ^ n" and ?g = "\<lambda>n::nat. 2 * n"
  have "?f (?g n) = (- x\<^sup>2) ^ n /\<^sub>R fact n" for n
  proof -
    have "(- x\<^sup>2) ^ n = (- 1) ^ n * x ^ (2 * n)"
      using power_minus [of "x\<^sup>2" n] by (simp add: power_mult)
    then show ?thesis by (simp add: diffs_erf_coeff divide_inverse)
  qed
  then have "(\<lambda>n. ?f (?g n)) sums exp (- x\<^sup>2)" using exp_converges [of "- x\<^sup>2"] by simp
  moreover have "?f n = 0" if "n \<notin> range ?g" for n
    using that by (auto simp: diffs_def erf_coeff_def elim!: evenE)
  ultimately show ?thesis using sums_mono_reindex [of ?g ?f] by (simp add: strict_mono_def)
qed

lemma erf_derivative: "(erf has_real_derivative 2 / sqrt pi * exp (- z\<^sup>2)) (at z)"
proof -
  have "((\<lambda>x. \<Sum>n. erf_coeff n * x ^ n) has_field_derivative (\<Sum>n. diffs erf_coeff n * z ^ n)) (at z)"
    by (rule termdiffs_strong_converges_everywhere) (rule summable_erf)
  then have "((\<lambda>x. 2 / sqrt pi * (\<Sum>n. erf_coeff n * x ^ n)) has_field_derivative 2 / sqrt pi * exp (- z\<^sup>2)) (at z)"
    using sums_unique [OF erf_derivative_series [of z]] by (intro DERIV_cmult) simp
  then show ?thesis by (simp add: erf_def [abs_def])
qed

lemma erf_mono: "x \<le> y \<Longrightarrow> erf x \<le> erf y"
  by (rule DERIV_nonneg_imp_nondecreasing [of x y erf]) (use erf_derivative in \<open>force+\<close>)

section \<open>The detector\<close>

record phi_detector = arrivals +
  fd_threshold :: real
  fd_min_std_dev :: real

definition phi_init :: "real \<Rightarrow> nat \<Rightarrow> real \<Rightarrow> phi_detector" where
  "phi_init threshold window_size min_std_dev =
     \<lparr>fd_window_size = window_size, fd_arrival_intervals = [], fd_last_arrival_times = [],
      fd_threshold = threshold, fd_min_std_dev = min_std_dev\<rparr>"

definition mean :: "real list \<Rightarrow> real" where
  "mean xs = sum_list xs / real (length xs)"

definition stdev :: "real list \<Rightarrow> real" where
  "stdev xs = sqrt (sum_list (map (\<lambda>x. (x - mean xs)\<^sup>2) xs) / (real (length xs) - 1))"

definition normal_cdf :: "real \<Rightarrow> real" where
  "normal_cdf x = 1 / 2 * (1 + erf (x / sqrt 2))"

text \<open>A standard deviation of zero, which the minimum excludes unless it is zero, raises.\<close>

definition calculate_phi :: "real \<Rightarrow> real \<Rightarrow> real \<Rightarrow> real result" where
  "calculate_phi time_since_last m std_dev =
     (if std_dev = 0 then Inl (OtherException ''ZeroDivisionError'')
      else let y = (time_since_last - m) / std_dev; p = normal_cdf y; p_later = 1 - p;
               p_later = (if p_later < 1 / 10 ^ 12 then 1 / 10 ^ 12 else p_later)
           in Inr (- log 10 p_later))"

definition fd_get_phi :: "phi_detector \<Rightarrow> string \<Rightarrow> time \<Rightarrow> real result" where
  "fd_get_phi f node_id now =
     (case map_of (fd_last_arrival_times f) node_id of
        None \<Rightarrow> Inr 0
      | Some last_time \<Rightarrow>
          (let intervals = map of_rat (dict_get (fd_arrival_intervals f) node_id [])
           in if length intervals < 2 then Inr 0
              else calculate_phi (of_rat (now - last_time)) (mean intervals) (max (stdev intervals) (fd_min_std_dev f))))"

definition fd_is_available :: "phi_detector \<Rightarrow> string \<Rightarrow> time \<Rightarrow> bool result" where
  "fd_is_available f node_id now =
     (case fd_get_phi f node_id now of Inl e \<Rightarrow> Inl e | Inr phi \<Rightarrow> Inr (phi < fd_threshold f))"

lemma normal_cdf_mono: "x \<le> y \<Longrightarrow> normal_cdf x \<le> normal_cdf y"
  by (simp add: normal_cdf_def erf_mono divide_right_mono)

lemma calculate_phi_mono:
  assumes "0 < s" and "t \<le> t'"
  shows "\<exists>p p'. calculate_phi t m s = Inr p \<and> calculate_phi t' m s = Inr p' \<and> p \<le> p' \<and> p' \<le> 12"
proof -
  define q q' :: real where "q = 1 - normal_cdf ((t - m) / s)" and "q' = 1 - normal_cdf ((t' - m) / s)"
  define e :: real where "e = 1 / 10 ^ 12"
  have "q' \<le> q" unfolding q_def q'_def using assms by (simp add: normal_cdf_mono divide_right_mono)
  then have le: "max q' e \<le> max q e" by simp
  have pos: "0 < e" by (simp add: e_def)
  have e: "log 10 e = - 12"
  proof -
    have "log 10 e = - log 10 (10 ^ 12)" by (simp add: e_def log_divide)
    also have "log 10 ((10::real) ^ 12) = 12" by (subst log_pow_cancel) auto
    finally show ?thesis .
  qed
  have cut: "(if x < e then e else x) = max x e" for x by (simp add: max_def)
  have "calculate_phi t m s = Inr (- log 10 (if q < e then e else q))" "calculate_phi t' m s = Inr (- log 10 (if q' < e then e else q'))"
    using assms(1) by (simp_all add: calculate_phi_def Let_def q_def q'_def e_def)
  then have "calculate_phi t m s = Inr (- log 10 (max q e))" "calculate_phi t' m s = Inr (- log 10 (max q' e))"
    unfolding cut .
  moreover have "log 10 (max q' e) \<le> log 10 (max q e)" using le pos by (simp add: less_max_iff_disj)
  moreover have "log 10 e \<le> log 10 (max q' e)" using pos by (simp add: less_max_iff_disj)
  ultimately show ?thesis using e by auto
qed

text \<open>
  Suspicion only grows while a node is silent: between two heartbeats phi does not decrease,
  a node that has become unavailable stays so, and phi never exceeds 12 because the probability is
  cut off at 1e-12; a threshold above 12 would never be reached.
\<close>

theorem phi_grows_in_silence:
  assumes "0 < fd_min_std_dev f" and "now \<le> now'"
  shows "\<exists>p p'. fd_get_phi f i now = Inr p \<and> fd_get_phi f i now' = Inr p' \<and> p \<le> p' \<and> p' \<le> 12 \<and>
    (fd_is_available f i now' = Inr True \<longrightarrow> fd_is_available f i now = Inr True) \<and>
    (12 < fd_threshold f \<longrightarrow> fd_is_available f i now' = Inr True)"
proof -
  have "\<exists>p p'. fd_get_phi f i now = Inr p \<and> fd_get_phi f i now' = Inr p' \<and> p \<le> p' \<and> p' \<le> 12"
  proof (cases "map_of (fd_last_arrival_times f) i")
    case None
    then show ?thesis by (simp add: fd_get_phi_def)
  next
    case (Some last_time)
    let ?xs = "map of_rat (dict_get (fd_arrival_intervals f) i []) :: real list"
    have "0 < max (stdev ?xs) (fd_min_std_dev f)" using assms(1) by (simp add: less_max_iff_disj)
    from calculate_phi_mono [OF this, of "of_rat (now - last_time)" "of_rat (now' - last_time)" "mean ?xs"]
    show ?thesis using Some assms(2) by (auto simp: fd_get_phi_def Let_def of_rat_less_eq)
  qed
  then show ?thesis by (auto simp: fd_is_available_def)
qed

definition example_detector :: phi_detector where
  "example_detector = \<lparr>fd_window_size = 3, fd_arrival_intervals = [(''x'', [1, 2])], fd_last_arrival_times = [(''x'', 5)],
     fd_threshold = 8, fd_min_std_dev = 1 / 10\<rparr>"

theorem phi_grows_in_silence_witness:
  "\<exists>p p'. fd_get_phi example_detector ''x'' 6 = Inr p \<and> fd_get_phi example_detector ''x'' 9 = Inr p' \<and> p \<le> p' \<and> p' \<le> 12"
  using phi_grows_in_silence [of example_detector 6 9 "''x''"] by (auto simp: example_detector_def)

end
