(* ===== verification/Bloom_Filter.thy ===== *)
theory Bloom_Filter
  imports Prelude "HOL-Library.Word" "HOL-Library.Multiset"
begin

unbundle bit_operations_syntax

text \<open>
  \<open>bloom-filters/src/bloom_filter.py\<close>: the Bloom filter on an integer used as a bit field, the
  counting filter on an array of 32-bit counters, and the scalable filter, a list of growing
  filters. The two 64-bit halves of the MD5 digest of an element are an argument, \<open>seeds\<close>: nothing
  is assumed of them. Logarithms are those of the reals.
\<close>

section \<open>The Bloom filter\<close>

record bloom =
  bf_expected_elements :: int
  bf_false_positive_rate :: real
  bf_size :: nat
  bf_num_hashes :: nat
  bf_bit_array :: nat
  bf_count :: nat

definition optimal_size :: "int \<Rightarrow> real \<Rightarrow> nat" where
  "optimal_size n p = (let p = (if p = 0 then 1 / 10 ^ 10 else p) in nat \<lfloor>- of_int n * ln p / (ln 2)\<^sup>2\<rfloor>)"

definition optimal_hashes :: "nat \<Rightarrow> int \<Rightarrow> nat" where
  "optimal_hashes m n = max 1 (nat \<lfloor>real m * ln 2 / of_int n\<rfloor>)"

definition bf_new :: "int \<Rightarrow> real \<Rightarrow> bloom result" where
  "bf_new expected_elements false_positive_rate =
     (if expected_elements \<le> 0 then Inl ValueError
      else if \<not> (0 < false_positive_rate \<and> false_positive_rate < 1) then Inl ValueError
      else let m = optimal_size expected_elements false_positive_rate
           in Inr \<lparr>bf_expected_elements = expected_elements, bf_false_positive_rate = false_positive_rate, bf_size = m,
                   bf_num_hashes = optimal_hashes m expected_elements, bf_bit_array = 0, bf_count = 0\<rparr>)"

text \<open>
  The indices of an element. A filter of size zero, which the constructor does not exclude, raises
  ZeroDivisionError at the first one.
\<close>

definition indices :: "('e \<Rightarrow> nat \<times> nat) \<Rightarrow> nat \<Rightarrow> nat \<Rightarrow> 'e \<Rightarrow> nat list" where
  "indices seeds m k x = (case seeds x of (h1, h2) \<Rightarrow> map (\<lambda>i. (h1 + i * h2) mod m) [0..<k])"

definition bf_add :: "('e \<Rightarrow> nat \<times> nat) \<Rightarrow> bloom \<Rightarrow> 'e \<Rightarrow> bloom result" where
  "bf_add seeds f x =
     (if bf_size f = 0 \<and> 0 < bf_num_hashes f then Inl (OtherException ''ZeroDivisionError'')
      else Inr (f\<lparr>bf_bit_array := foldl (\<lambda>a idx. a OR push_bit idx 1) (bf_bit_array f) (indices seeds (bf_size f) (bf_num_hashes f) x),
                  bf_count := bf_count f + 1\<rparr>))"

definition bf_contains :: "('e \<Rightarrow> nat \<times> nat) \<Rightarrow> bloom \<Rightarrow> 'e \<Rightarrow> bool result" where
  "bf_contains seeds f x =
     (if bf_size f = 0 \<and> 0 < bf_num_hashes f then Inl (OtherException ''ZeroDivisionError'')
      else Inr (list_all (\<lambda>idx. bf_bit_array f AND push_bit idx 1 \<noteq> 0) (indices seeds (bf_size f) (bf_num_hashes f) x)))"

text \<open>\<open>bin(x).count('1')\<close>.\<close>

fun ones :: "nat \<Rightarrow> nat" where
  "ones n = (if n = 0 then 0 else n mod 2 + ones (n div 2))"

declare ones.simps [simp del]

definition bf_fill_ratio :: "bloom \<Rightarrow> rat" where
  "bf_fill_ratio f = (if bf_size f > 0 then of_nat (ones (bf_bit_array f)) / of_nat (bf_size f) else 0)"

section \<open>The counting filter\<close>

record counting_bloom =
  cb_size :: nat
  cb_num_hashes :: nat
  cb_buckets :: "nat list"
  cb_count :: int

definition cb_new :: "int \<Rightarrow> real \<Rightarrow> counting_bloom result" where
  "cb_new expected_elements false_positive_rate =
     (case bf_new expected_elements false_positive_rate of Inl e \<Rightarrow> Inl e
      | Inr f \<Rightarrow> Inr \<lparr>cb_size = bf_size f, cb_num_hashes = bf_num_hashes f, cb_buckets = replicate (bf_size f) 0, cb_count = 0\<rparr>)"

definition increment :: "nat list \<Rightarrow> nat \<Rightarrow> nat list" where
  "increment bs idx = (if bs ! idx < 4294967295 then bs[idx := bs ! idx + 1] else bs)"

definition decrement :: "nat list \<Rightarrow> nat \<Rightarrow> nat list" where
  "decrement bs idx = (if bs ! idx > 0 then bs[idx := bs ! idx - 1] else bs)"

definition cb_add :: "('e \<Rightarrow> nat \<times> nat) \<Rightarrow> counting_bloom \<Rightarrow> 'e \<Rightarrow> counting_bloom result" where
  "cb_add seeds f x =
     (if cb_size f = 0 \<and> 0 < cb_num_hashes f then Inl (OtherException ''ZeroDivisionError'')
      else Inr (f\<lparr>cb_buckets := foldl increment (cb_buckets f) (indices seeds (cb_size f) (cb_num_hashes f) x), cb_count := cb_count f + 1\<rparr>))"

definition cb_contains :: "('e \<Rightarrow> nat \<times> nat) \<Rightarrow> counting_bloom \<Rightarrow> 'e \<Rightarrow> bool result" where
  "cb_contains seeds f x =
     (if cb_size f = 0 \<and> 0 < cb_num_hashes f then Inl (OtherException ''ZeroDivisionError'')
      else Inr (list_all (\<lambda>idx. cb_buckets f ! idx \<noteq> 0) (indices seeds (cb_size f) (cb_num_hashes f) x)))"

definition cb_remove :: "('e \<Rightarrow> nat \<times> nat) \<Rightarrow> counting_bloom \<Rightarrow> 'e \<Rightarrow> (counting_bloom \<times> bool) result" where
  "cb_remove seeds f x =
     (case cb_contains seeds f x of
        Inl e \<Rightarrow> Inl e
      | Inr False \<Rightarrow> Inr (f, False)
      | Inr True \<Rightarrow> Inr (f\<lparr>cb_buckets := foldl decrement (cb_buckets f) (indices seeds (cb_size f) (cb_num_hashes f) x),
                        cb_count := cb_count f - 1\<rparr>, True))"

definition cb_fill_ratio :: "counting_bloom \<Rightarrow> rat" where
  "cb_fill_ratio f =
     (if cb_size f > 0 then of_nat (length (filter (\<lambda>b. b > 0) (cb_buckets f))) / of_nat (cb_size f) else 0)"

section \<open>The scalable filter\<close>

record scalable_bloom =
  sb_initial_size :: int
  sb_target_fp_rate :: real
  sb_ratio :: real
  sb_scale :: int
  sb_filters :: "bloom list"
  sb_count :: nat

definition layer_rate :: "scalable_bloom \<Rightarrow> nat \<Rightarrow> real" where
  "layer_rate s k = sb_target_fp_rate s * sb_ratio s ^ k * (1 - sb_ratio s)"

definition sb_add_filter :: "scalable_bloom \<Rightarrow> scalable_bloom result" where
  "sb_add_filter s =
     (let k = length (sb_filters s); capacity = sb_initial_size s * sb_scale s ^ k
      in case bf_new capacity (layer_rate s k) of
           Inl e \<Rightarrow> Inl e
         | Inr new_filter \<Rightarrow> Inr (s\<lparr>sb_filters := sb_filters s @ [new_filter]\<rparr>))"

definition sb_new :: "int \<Rightarrow> real \<Rightarrow> real \<Rightarrow> int \<Rightarrow> scalable_bloom result" where
  "sb_new initial_size false_positive_rate error_tightening_ratio growth_factor =
     sb_add_filter \<lparr>sb_initial_size = initial_size, sb_target_fp_rate = false_positive_rate, sb_ratio = error_tightening_ratio,
       sb_scale = growth_factor, sb_filters = [], sb_count = 0\<rparr>"

text \<open>When adding to the new layer raises, the layer has been appended already.\<close>

definition sb_add :: "('e \<Rightarrow> nat \<times> nat) \<Rightarrow> scalable_bloom \<Rightarrow> 'e \<Rightarrow> (scalable_bloom, unit) outcome" where
  "sb_add seeds s x =
     (let grown = (if int (bf_count (last (sb_filters s))) \<ge> bf_expected_elements (last (sb_filters s)) then sb_add_filter s else Inr s)
      in case grown of
           Inl e \<Rightarrow> (s, Inl e)
         | Inr s1 \<Rightarrow>
             (case bf_add seeds (last (sb_filters s1)) x of
                Inl e \<Rightarrow> (s1, Inl e)
              | Inr f \<Rightarrow> (s1\<lparr>sb_filters := butlast (sb_filters s1) @ [f], sb_count := sb_count s1 + 1\<rparr>, Inr ())))"

fun any_contains :: "('e \<Rightarrow> nat \<times> nat) \<Rightarrow> bloom list \<Rightarrow> 'e \<Rightarrow> bool result" where
  "any_contains seeds [] x = Inr False"
| "any_contains seeds (f # fs) x =
     (case bf_contains seeds f x of Inl e \<Rightarrow> Inl e | Inr True \<Rightarrow> Inr True | Inr False \<Rightarrow> any_contains seeds fs x)"

definition sb_contains :: "('e \<Rightarrow> nat \<times> nat) \<Rightarrow> scalable_bloom \<Rightarrow> 'e \<Rightarrow> bool result" where
  "sb_contains seeds s x = any_contains seeds (sb_filters s) x"

section \<open>Bits and sets of indices\<close>

lemma bit_or_shift: "bit ((a :: nat) OR 2 ^ idx) i \<longleftrightarrow> bit a i \<or> i = idx"
  by (auto simp: bit_or_iff bit_exp_iff)

lemma and_shift_nonzero: "(0 < (a :: nat) AND 2 ^ idx) \<longleftrightarrow> bit a idx"
  using and_exp_eq_0_iff_not_bit [of a idx] by auto

lemma bit_set_all: "bit (foldl (\<lambda>a idx. a OR 2 ^ idx) (a :: nat) xs) i \<longleftrightarrow> bit a i \<or> i \<in> set xs"
  by (induction xs arbitrary: a) (auto simp: bit_or_shift)

lemma bit_bound: "bit (n :: nat) i \<Longrightarrow> i < n"
proof -
  assume "bit n i"
  then have "n div 2 ^ i \<noteq> 0" unfolding bit_iff_odd by (metis even_zero)
  then have "2 ^ i \<le> n" by (simp add: div_eq_0_iff not_less)
  then show "i < n" using less_exp [of i] by (rule less_le_trans [rotated])
qed

text \<open>The filter as the set of its indices.\<close>

definition bits :: "bloom \<Rightarrow> nat set" where
  "bits f = {i. bit (bf_bit_array f) i}"

abbreviation index_set :: "('e \<Rightarrow> nat \<times> nat) \<Rightarrow> bloom \<Rightarrow> 'e \<Rightarrow> nat set" where
  "index_set seeds f x \<equiv> set (indices seeds (bf_size f) (bf_num_hashes f) x)"

fun bf_add_all :: "('e \<Rightarrow> nat \<times> nat) \<Rightarrow> bloom \<Rightarrow> 'e list \<Rightarrow> bloom result" where
  "bf_add_all seeds f [] = Inr f"
| "bf_add_all seeds f (x # xs) = (case bf_add seeds f x of Inl e \<Rightarrow> Inl e | Inr f' \<Rightarrow> bf_add_all seeds f' xs)"

lemma bf_add_spec:
  assumes "0 < bf_size f"
  obtains f' where "bf_add seeds f x = Inr f'" "bits f' = bits f \<union> index_set seeds f x" "bf_size f' = bf_size f"
    "bf_num_hashes f' = bf_num_hashes f" "bf_count f' = bf_count f + 1" "bf_expected_elements f' = bf_expected_elements f"
proof -
  let ?f = "f\<lparr>bf_bit_array := foldl (\<lambda>a idx. a OR 2 ^ idx) (bf_bit_array f) (indices seeds (bf_size f) (bf_num_hashes f) x), bf_count := bf_count f + 1\<rparr>"
  have "bf_add seeds f x = Inr ?f" using assms by (simp add: bf_add_def)
  moreover have "bits ?f = bits f \<union> index_set seeds f x" by (auto simp: bits_def bit_set_all)
  ultimately show ?thesis using that by simp
qed

lemma bf_contains_spec: "0 < bf_size f \<Longrightarrow> bf_contains seeds f x = Inr (index_set seeds f x \<subseteq> bits f)"
  by (auto simp: bf_contains_def bits_def and_shift_nonzero list_all_iff)

lemma bf_add_all_spec:
  "0 < bf_size f \<Longrightarrow> \<exists>f'. bf_add_all seeds f xs = Inr f' \<and> bits f' = bits f \<union> (\<Union>x\<in>set xs. index_set seeds f x) \<and>
    bf_size f' = bf_size f \<and> bf_num_hashes f' = bf_num_hashes f \<and> bf_count f' = bf_count f + length xs"
proof (induction xs arbitrary: f)
  case (Cons x xs)
  obtain f1 where f1: "bf_add seeds f x = Inr f1" "bits f1 = bits f \<union> index_set seeds f x" "bf_size f1 = bf_size f"
    "bf_num_hashes f1 = bf_num_hashes f" "bf_count f1 = bf_count f + 1"
    using bf_add_spec [OF Cons.prems] by metis
  with Cons.IH [of f1] Cons.prems show ?case by auto
qed simp

lemma ones_bits: "ones n = card {i. bit n i}"
proof (induction n rule: ones.induct)
  case (1 n)
  show ?case
  proof (cases "n = 0")
    case True
    then show ?thesis by (simp add: ones.simps)
  next
    case False
    have split: "{i. bit n i} = (if odd n then {0} else {}) \<union> Suc ` {i. bit (n div 2) i}"
    proof (intro set_eqI)
      fix i show "i \<in> {i. bit n i} \<longleftrightarrow> i \<in> (if odd n then {0} else {}) \<union> Suc ` {i. bit (n div 2) i}"
        by (cases i) (auto simp: bit_0 bit_Suc)
    qed
    have "finite {i. bit (n div 2) i}" by (rule finite_subset [of _ "{..<n div 2}"]) (auto dest: bit_bound)
    then show ?thesis using 1 False by (subst split) (auto simp: ones.simps [of n] card_image odd_iff_mod_2_eq_one)
  qed
qed

section \<open>The counters as a multiset of indices\<close>

text \<open>What the elements of a filter contribute to a counter.\<close>

definition index_multiset :: "('e \<Rightarrow> nat \<times> nat) \<Rightarrow> nat \<Rightarrow> nat \<Rightarrow> 'e multiset \<Rightarrow> nat multiset" where
  "index_multiset seeds m k M = (\<Sum>x\<in>#M. mset (indices seeds m k x))"

definition counters_of :: "nat list \<Rightarrow> nat multiset \<Rightarrow> bool" where
  "counters_of bs I \<longleftrightarrow> (\<forall>i<length bs. bs ! i = count I i)"

lemma index_multiset_add: "index_multiset seeds m k (add_mset x M) = mset (indices seeds m k x) + index_multiset seeds m k M"
  by (simp add: index_multiset_def)

lemma indices_less: "0 < m \<Longrightarrow> i \<in> set (indices seeds m k x) \<Longrightarrow> i < m"
  by (auto simp: indices_def split_beta)

lemma indices_length: "length (indices seeds m k x) = k"
  by (simp add: indices_def split_beta)

lemma index_multiset_size: "size (index_multiset seeds m k M) = k * size M"
  by (induction M) (simp_all add: index_multiset_def indices_length)

lemma increments_count:
  "counters_of bs I \<Longrightarrow> size I + length xs \<le> 4294967295 \<Longrightarrow> (\<And>i. i \<in> set xs \<Longrightarrow> i < length bs) \<Longrightarrow>
   counters_of (foldl increment bs xs) (mset xs + I) \<and> length (foldl increment bs xs) = length bs"
proof (induction xs arbitrary: bs I)
  case (Cons i xs)
  have "count I i \<le> size I" by (rule count_le_size)
  then have "bs ! i < 4294967295" using Cons.prems by (simp add: counters_of_def)
  then have "counters_of (increment bs i) (add_mset i I)"
    using Cons.prems(1,3) by (auto simp: counters_of_def increment_def nth_list_update)
  then show ?case using Cons.IH [of "increment bs i" "add_mset i I"] Cons.prems by (simp add: increment_def)
qed simp

lemma decrements_count:
  "counters_of bs (mset xs + I) \<Longrightarrow> (\<And>i. i \<in> set xs \<Longrightarrow> i < length bs) \<Longrightarrow>
   counters_of (foldl decrement bs xs) I \<and> length (foldl decrement bs xs) = length bs"
proof (induction xs arbitrary: bs)
  case (Cons i xs)
  have "counters_of (decrement bs i) (mset xs + I)" "length (decrement bs i) = length bs"
    using Cons.prems by (auto simp: counters_of_def decrement_def nth_list_update)
  then show ?case using Cons.IH [of "decrement bs i"] Cons.prems(2) by simp
qed simp

text \<open>A run of additions and removals, and the elements it leaves.\<close>

datatype 'e bloom_op = Add 'e | Remove 'e

fun cb_apply :: "('e \<Rightarrow> nat \<times> nat) \<Rightarrow> counting_bloom \<Rightarrow> 'e bloom_op \<Rightarrow> counting_bloom result" where
  "cb_apply seeds f (Add x) = cb_add seeds f x"
| "cb_apply seeds f (Remove x) = (case cb_remove seeds f x of Inl e \<Rightarrow> Inl e | Inr (f', _) \<Rightarrow> Inr f')"

fun cb_run :: "('e \<Rightarrow> nat \<times> nat) \<Rightarrow> counting_bloom \<Rightarrow> 'e bloom_op list \<Rightarrow> counting_bloom result" where
  "cb_run seeds f [] = Inr f"
| "cb_run seeds f (op # ops) = (case cb_apply seeds f op of Inl e \<Rightarrow> Inl e | Inr f' \<Rightarrow> cb_run seeds f' ops)"

text \<open>The elements, if each removed element is one of them.\<close>

fun members_after :: "'e multiset \<Rightarrow> 'e bloom_op list \<Rightarrow> 'e multiset option" where
  "members_after M [] = Some M"
| "members_after M (Add x # ops) = members_after (add_mset x M) ops"
| "members_after M (Remove x # ops) = (if x \<in># M then members_after (M - {#x#}) ops else None)"

definition cb_holds :: "('e \<Rightarrow> nat \<times> nat) \<Rightarrow> counting_bloom \<Rightarrow> 'e multiset \<Rightarrow> bool" where
  "cb_holds seeds f M \<longleftrightarrow> 0 < cb_size f \<and> length (cb_buckets f) = cb_size f \<and>
     counters_of (cb_buckets f) (index_multiset seeds (cb_size f) (cb_num_hashes f) M) \<and> cb_count f = int (size M)"

lemma cb_add_holds:
  assumes "cb_holds seeds f M" and "cb_num_hashes f * (size M + 1) \<le> 4294967295"
  obtains f' where "cb_add seeds f x = Inr f'" "cb_holds seeds f' (add_mset x M)" "cb_num_hashes f' = cb_num_hashes f"
proof -
  let ?xs = "indices seeds (cb_size f) (cb_num_hashes f) x"
  have "size (index_multiset seeds (cb_size f) (cb_num_hashes f) M) + length ?xs \<le> 4294967295"
    using assms(2) by (simp add: index_multiset_size indices_length algebra_simps)
  with assms(1) indices_less [of "cb_size f" _ seeds "cb_num_hashes f" x]
  have "counters_of (foldl increment (cb_buckets f) ?xs) (mset ?xs + index_multiset seeds (cb_size f) (cb_num_hashes f) M) \<and>
      length (foldl increment (cb_buckets f) ?xs) = length (cb_buckets f)"
    by (intro increments_count) (auto simp: cb_holds_def)
  with assms(1) that show ?thesis by (simp add: cb_add_def cb_holds_def index_multiset_add)
qed

lemma cb_contains_iff:
  assumes "cb_holds seeds f M"
  shows "cb_contains seeds f x = Inr (set (indices seeds (cb_size f) (cb_num_hashes f) x) \<subseteq>
    (\<Union>y\<in>set_mset M. set (indices seeds (cb_size f) (cb_num_hashes f) y)))"
proof -
  let ?I = "index_multiset seeds (cb_size f) (cb_num_hashes f) M"
  have set_I: "set_mset ?I = (\<Union>y\<in>set_mset M. set (indices seeds (cb_size f) (cb_num_hashes f) y))"
    by (induction M) (auto simp: index_multiset_def)
  have "cb_buckets f ! i \<noteq> 0 \<longleftrightarrow> i \<in># ?I" if "i \<in> set (indices seeds (cb_size f) (cb_num_hashes f) x)" for i
    using that assms indices_less [of "cb_size f" i seeds "cb_num_hashes f" x]
    by (auto simp: cb_holds_def counters_of_def)
  then show ?thesis using assms by (auto simp: cb_contains_def cb_holds_def list_all_iff set_I)
qed

lemma cb_remove_holds:
  assumes "cb_holds seeds f M" and "x \<in># M"
  obtains f' where "cb_remove seeds f x = Inr (f', True)" "cb_holds seeds f' (M - {#x#})" "cb_num_hashes f' = cb_num_hashes f"
proof -
  let ?xs = "indices seeds (cb_size f) (cb_num_hashes f) x"
  let ?I = "index_multiset seeds (cb_size f) (cb_num_hashes f)"
  obtain M' where M: "M = add_mset x M'" using assms(2) by (metis multi_member_split)
  have "counters_of (cb_buckets f) (mset ?xs + ?I M')"
    using assms(1) by (simp add: cb_holds_def M index_multiset_add)
  then have "counters_of (foldl decrement (cb_buckets f) ?xs) (?I M') \<and> length (foldl decrement (cb_buckets f) ?xs) = length (cb_buckets f)"
    using assms(1) indices_less [of "cb_size f" _ seeds "cb_num_hashes f" x] by (intro decrements_count) (auto simp: cb_holds_def)
  moreover have "cb_contains seeds f x = Inr True" using cb_contains_iff [OF assms(1), of x] M by auto
  ultimately show ?thesis using assms(1) that by (simp add: cb_remove_def cb_holds_def M)
qed

lemma cb_run_holds:
  "cb_holds seeds f M \<Longrightarrow> members_after M ops = Some M' \<Longrightarrow> cb_num_hashes f * (size M + length ops) \<le> 4294967295 \<Longrightarrow>
   \<exists>f'. cb_run seeds f ops = Inr f' \<and> cb_holds seeds f' M'"
proof (induction ops arbitrary: f M)
  case (Cons op ops)
  let ?k = "cb_num_hashes f"
  show ?case
  proof (cases op)
    case (Add x)
    have "?k * (size M + 1) \<le> ?k * (size M + length (op # ops))" by (intro mult_le_mono) auto
    with Cons.prems(3) have "?k * (size M + 1) \<le> 4294967295" by linarith
    from cb_add_holds [OF Cons.prems(1) this, of x] obtain f1 where
      "cb_add seeds f x = Inr f1" "cb_holds seeds f1 (add_mset x M)" "cb_num_hashes f1 = ?k" by blast
    with Cons.IH [of f1 "add_mset x M"] Cons.prems Add show ?thesis by simp
  next
    case (Remove x)
    with Cons.prems(2) have x: "x \<in># M" "members_after (M - {#x#}) ops = Some M'" by (auto split: if_splits)
    from cb_remove_holds [OF Cons.prems(1) x(1)] obtain f1 where
      f1: "cb_remove seeds f x = Inr (f1, True)" "cb_holds seeds f1 (M - {#x#})" "cb_num_hashes f1 = ?k" by blast
    have "?k * (size (M - {#x#}) + length ops) \<le> ?k * (size M + length (op # ops))"
      by (intro mult_le_mono) (auto simp: size_Diff_singleton x)
    with Cons.prems(3) have "?k * (size (M - {#x#}) + length ops) \<le> 4294967295" by linarith
    with Cons.IH [OF f1(2) x(2)] f1 Remove show ?thesis by simp
  qed
qed simp

section \<open>Properties\<close>

text \<open>
  C31. A Bloom filter has no false negatives, and its false positives are exactly the elements
  whose indices are all indices of added elements; additions to a filter with room for at least
  one bit never fail.
\<close>

theorem bloom_membership:
  assumes "bf_bit_array f = 0" and "0 < bf_size f"
  shows "\<exists>f'. bf_add_all seeds f xs = Inr f' \<and> bf_count f' = bf_count f + length xs \<and>
    (\<forall>x. bf_contains seeds f' x = Inr (index_set seeds f x \<subseteq> (\<Union>y\<in>set xs. index_set seeds f y))) \<and>
    (\<forall>x\<in>set xs. bf_contains seeds f' x = Inr True)"
proof -
  obtain f' where f': "bf_add_all seeds f xs = Inr f'" "bits f' = bits f \<union> (\<Union>x\<in>set xs. index_set seeds f x)"
    "bf_size f' = bf_size f" "bf_num_hashes f' = bf_num_hashes f" "bf_count f' = bf_count f + length xs"
    using bf_add_all_spec [OF assms(2)] by blast
  have "bits f = {}" using assms(1) by (simp add: bits_def)
  then have "bf_contains seeds f' x = Inr (index_set seeds f x \<subseteq> (\<Union>y\<in>set xs. index_set seeds f y))" for x
    using f' assms(2) bf_contains_spec [of f' seeds x] by simp
  with f' show ?thesis by auto
qed

definition small_bloom :: bloom where
  "small_bloom = \<lparr>bf_expected_elements = 4, bf_false_positive_rate = 1 / 10, bf_size = 19, bf_num_hashes = 3, bf_bit_array = 0, bf_count = 0\<rparr>"

theorem bloom_membership_witness:
  "(case bf_add_all (\<lambda>x. (x, x + 1)) small_bloom [3, 20 :: nat] of Inl e \<Rightarrow> False
    | Inr f \<Rightarrow> bf_count f = 2 \<and> bf_contains (\<lambda>x. (x, x + 1)) f 20 = Inr True \<and> bf_contains (\<lambda>x. (x, x + 1)) f 5 = Inr False)"
proof -
  have "bf_bit_array small_bloom = 0" "0 < bf_size small_bloom" by (simp_all add: small_bloom_def)
  from bloom_membership [OF this, of "\<lambda>x. (x, x + 1)" "[3, 20]"]
  obtain f where f: "bf_add_all (\<lambda>x. (x, x + 1)) small_bloom [3, 20 :: nat] = Inr f" "bf_count f = 2"
    "bf_contains (\<lambda>x. (x, x + 1)) f 20 = Inr True"
    "bf_contains (\<lambda>x. (x, x + 1)) f 5 = Inr (index_set (\<lambda>x. (x, x + 1)) small_bloom 5 \<subseteq>
        (\<Union>y\<in>set [3, 20]. index_set (\<lambda>x. (x, x + 1)) small_bloom y))"
    by (auto simp: small_bloom_def)
  have "\<not> index_set (\<lambda>x. (x, x + 1)) small_bloom 5 \<subseteq> (\<Union>y\<in>set [3, 20]. index_set (\<lambda>x. (x, x + 1)) small_bloom y)" by code_simp
  with f show ?thesis by simp
qed

text \<open>
  A counting filter behaves as a Bloom filter of the elements that are left: after any run of
  additions and removals that removes only what is there, and is short enough for the 32-bit
  counters, no operation fails and its answers are those of a Bloom filter of the same size to
  which the remaining elements were added in some order.
\<close>

theorem counting_bloom_equivalent:
  assumes "cb_buckets c = replicate (cb_size c) 0" and "cb_count c = 0" and "0 < cb_size c"
    and "members_after {#} ops = Some (mset xs)" and "cb_num_hashes c * length ops \<le> 4294967295"
    and "bf_bit_array f = 0" and "bf_size f = cb_size c" and "bf_num_hashes f = cb_num_hashes c"
  shows "\<exists>c' f'. cb_run seeds c ops = Inr c' \<and> bf_add_all seeds f xs = Inr f' \<and>
    (\<forall>x. cb_contains seeds c' x = bf_contains seeds f' x) \<and> cb_count c' = int (length xs)"
proof -
  have "cb_holds seeds c {#}" using assms(1-3) by (simp add: cb_holds_def counters_of_def index_multiset_def)
  from cb_run_holds [OF this assms(4)] assms(5) obtain c' where
    c': "cb_run seeds c ops = Inr c'" "cb_holds seeds c' (mset xs)" by auto
  have same: "cb_size c' = cb_size c \<and> cb_num_hashes c' = cb_num_hashes c" if "cb_run seeds c ops = Inr c'" for c ops c'
    using that
  proof (induction ops arbitrary: c)
    case (Cons op ops)
    then obtain c1 where c1: "cb_apply seeds c op = Inr c1" "cb_run seeds c1 ops = Inr c'" by (auto split: sum.splits)
    then have "cb_size c1 = cb_size c \<and> cb_num_hashes c1 = cb_num_hashes c"
      by (cases op) (auto simp: cb_add_def cb_remove_def split: if_splits sum.splits bool.splits)
    with Cons.IH [OF c1(2)] show ?case by simp
  qed simp
  from bloom_membership [of f seeds xs] assms(3,6,7) obtain f' where
    "bf_add_all seeds f xs = Inr f'" "\<forall>x. bf_contains seeds f' x = Inr (index_set seeds f x \<subseteq> (\<Union>y\<in>set xs. index_set seeds f y))" by auto
  with c' same [OF c'(1)] cb_contains_iff [OF c'(2)] assms(7,8) show ?thesis by (auto simp: cb_holds_def)
qed

definition small_counting :: counting_bloom where
  "small_counting = \<lparr>cb_size = 7, cb_num_hashes = 2, cb_buckets = replicate 7 0, cb_count = 0\<rparr>"

theorem counting_bloom_equivalent_witness:
  "\<exists>c'. cb_run (\<lambda>x. (x, x + 1)) small_counting [Add 3, Add 4, Remove 3, Add (5 :: nat)] = Inr c' \<and> cb_count c' = 2 \<and>
     cb_contains (\<lambda>x. (x, x + 1)) c' 4 = Inr True"
proof -
  let ?f = "small_bloom\<lparr>bf_size := 7, bf_num_hashes := 2\<rparr>"
  have "members_after {#} [Add 3, Add 4, Remove 3, Add (5 :: nat)] = Some (mset [4, 5])" by simp
  from counting_bloom_equivalent [of small_counting _ "[4, 5]" ?f "\<lambda>x. (x, x + 1)", OF _ _ _ this]
  obtain c' f' where c': "cb_run (\<lambda>x. (x, x + 1)) small_counting [Add 3, Add 4, Remove 3, Add (5 :: nat)] = Inr c'"
    "bf_add_all (\<lambda>x. (x, x + 1)) ?f [4, 5] = Inr f'" "\<forall>x. cb_contains (\<lambda>x. (x, x + 1)) c' x = bf_contains (\<lambda>x. (x, x + 1)) f' x"
    "cb_count c' = 2"
    by (auto simp: small_counting_def small_bloom_def)
  moreover have "bf_contains (\<lambda>x. (x, x + 1)) f' 4 = Inr True"
    using bf_add_all_spec [of ?f "\<lambda>x. (x, x + 1)" "[4, 5]"] bf_contains_spec [of f' "\<lambda>x. (x, x + 1)" 4] c'(2) by (auto simp: small_bloom_def)
  ultimately show ?thesis by auto
qed

text \<open>
  The constructor accepts parameters for which the filter has no bits: for one element and a
  rate of 9/10 the size is rounded to zero, and every operation raises ZeroDivisionError.
\<close>

theorem bloom_size_zero:
  "\<exists>f. bf_new 1 (9 / 10) = Inr f \<and> bf_size f = 0 \<and>
     (\<forall>seeds :: 'e \<Rightarrow> nat \<times> nat. \<forall>x. bf_add seeds f x = Inl (OtherException ''ZeroDivisionError'') \<and>
        bf_contains seeds f x = Inl (OtherException ''ZeroDivisionError''))"
proof -
  have "ln (10 / 9 :: real) \<le> 10 / 9 - 1" by (rule ln_le_minus_one) simp
  moreover have "ln (9 / 10 :: real) = - ln (10 / 9)" using ln_inverse [of "10 / 9 :: real"] by simp
  ultimately have p: "- ln (9 / 10 :: real) \<le> 1 / 9" by simp
  have "ln (1 / 2 :: real) \<le> 1 / 2 - 1" by (rule ln_le_minus_one) simp
  then have "1 / 2 \<le> ln (2 :: real)" by (simp add: ln_div)
  then have "(1 / 2)\<^sup>2 \<le> (ln (2 :: real))\<^sup>2" by (rule power_mono) simp
  then have q: "1 / 4 \<le> (ln (2 :: real))\<^sup>2" by (simp add: power2_eq_square)
  have "- ln (9 / 10) < (ln (2 :: real))\<^sup>2" using p q by linarith
  then have "- ln (9 / 10) / (ln (2 :: real))\<^sup>2 < 1" by (subst divide_less_eq_1_pos) simp_all
  moreover have "0 \<le> - ln (9 / 10) / (ln (2 :: real))\<^sup>2" by (intro divide_nonneg_nonneg) simp_all
  ultimately have "\<lfloor>- ln (9 / 10) / (ln (2 :: real))\<^sup>2\<rfloor> = 0" by (simp add: floor_eq_iff)
  then have "optimal_size 1 (9 / 10) = 0" by (simp add: optimal_size_def)
  then show ?thesis by (simp add: bf_new_def bf_add_def bf_contains_def optimal_hashes_def Let_def)
qed

text \<open>Adding elements one after another, up to the first exception.\<close>

fun sb_add_all :: "('e \<Rightarrow> nat \<times> nat) \<Rightarrow> scalable_bloom \<Rightarrow> 'e list \<Rightarrow> (scalable_bloom, unit) outcome" where
  "sb_add_all seeds s [] = (s, Inr ())"
| "sb_add_all seeds s (x # xs) =
     (case sb_add seeds s x of (s1, Inl e) \<Rightarrow> (s1, Inl e) | (s1, Inr _) \<Rightarrow> sb_add_all seeds s1 xs)"

text \<open>Layer k has the rate and the capacity of its number, and no more elements than that.\<close>

definition layer_ok :: "scalable_bloom \<Rightarrow> nat \<Rightarrow> bloom \<Rightarrow> bool" where
  "layer_ok s k f \<longleftrightarrow> bf_false_positive_rate f = layer_rate s k \<and> bf_expected_elements f = sb_initial_size s * sb_scale s ^ k \<and>
     0 < bf_expected_elements f \<and> int (bf_count f) \<le> bf_expected_elements f \<and> 0 < bf_num_hashes f \<and> (0 < bf_count f \<longrightarrow> 0 < bf_size f)"

definition layers_ok :: "scalable_bloom \<Rightarrow> bloom list \<Rightarrow> bool" where
  "layers_ok s fs \<longleftrightarrow> fs \<noteq> [] \<and> (\<forall>k<length fs. layer_ok s k (fs ! k)) \<and> (\<forall>f\<in>set (butlast fs). 0 < bf_count f)"

definition sb_holds :: "('e \<Rightarrow> nat \<times> nat) \<Rightarrow> bloom list \<Rightarrow> 'e \<Rightarrow> bool" where
  "sb_holds seeds fs x \<longleftrightarrow> (\<exists>f\<in>set fs. index_set seeds f x \<subseteq> bits f)"

definition same_limits :: "scalable_bloom \<Rightarrow> scalable_bloom \<Rightarrow> bool" where
  "same_limits s s' \<longleftrightarrow> s' = s\<lparr>sb_filters := sb_filters s', sb_count := sb_count s'\<rparr>"

lemma same_limits_layers: "same_limits s s' \<Longrightarrow> layers_ok s' fs = layers_ok s fs"
  by (cases s; cases s') (simp add: same_limits_def layers_ok_def layer_ok_def layer_rate_def)

lemma same_limits_trans: "same_limits s s' \<Longrightarrow> same_limits s' s'' \<Longrightarrow> same_limits s s''"
  by (cases s; cases s'; cases s'') (simp add: same_limits_def)

lemma bf_new_layer:
  "bf_new n p = Inr f \<Longrightarrow> bf_false_positive_rate f = p \<and> bf_expected_elements f = n \<and> 0 < n \<and> bf_count f = 0 \<and> 0 < bf_num_hashes f"
  by (auto simp: bf_new_def optimal_hashes_def Let_def split: if_splits)

lemma sb_add_filter_ok:
  assumes "sb_add_filter s = Inr s'" and "\<forall>k<length (sb_filters s). layer_ok s k (sb_filters s ! k)" and "\<forall>f\<in>set (sb_filters s). 0 < bf_count f"
  obtains f where "layers_ok s (sb_filters s @ [f])" "s' = s\<lparr>sb_filters := sb_filters s @ [f]\<rparr>" "bf_count f = 0"
proof -
  obtain f where f: "bf_new (sb_initial_size s * sb_scale s ^ length (sb_filters s)) (layer_rate s (length (sb_filters s))) = Inr f"
    "s' = s\<lparr>sb_filters := sb_filters s @ [f]\<rparr>"
    using assms(1) by (auto simp: sb_add_filter_def Let_def split: sum.splits)
  have "layer_ok s (length (sb_filters s)) f" using bf_new_layer [OF f(1)] by (auto simp: layer_ok_def)
  then have "layers_ok s (sb_filters s @ [f])" using assms(2,3) by (auto simp: layers_ok_def nth_append less_Suc_eq)
  with that f(2) bf_new_layer [OF f(1)] show thesis by blast
qed

text \<open>An addition that succeeds goes to the last layer, which has room.\<close>

lemma sb_add_cases:
  assumes "sb_add seeds s x = (s', Inr ())" and ok: "layers_ok s (sb_filters s)"
  obtains fs f f' where "layers_ok s (fs @ [f])" "fs @ [f] = sb_filters s \<or> fs = sb_filters s"
    "int (bf_count f) < bf_expected_elements f" "bf_add seeds f x = Inr f'"
    "s' = s\<lparr>sb_filters := fs @ [f'], sb_count := sb_count s + 1\<rparr>"
proof (cases "int (bf_count (last (sb_filters s))) \<ge> bf_expected_elements (last (sb_filters s))")
  case True
  with assms(1) obtain s1 where s1: "sb_add_filter s = Inr s1" by (auto simp: sb_add_def split: sum.splits)
  have ne: "sb_filters s \<noteq> []" using ok by (simp add: layers_ok_def)
  have "layer_ok s (length (sb_filters s) - 1) (last (sb_filters s))" using ok ne by (simp add: layers_ok_def last_conv_nth)
  with True have "0 < bf_count (last (sb_filters s))" by (simp add: layer_ok_def)
  moreover have "set (sb_filters s) = insert (last (sb_filters s)) (set (butlast (sb_filters s)))"
    using ne append_butlast_last_id [of "sb_filters s"] by (metis list.set(2) rotate1.simps(2) set_rotate1)
  ultimately have "\<forall>f\<in>set (sb_filters s). 0 < bf_count f" using ok by (auto simp: layers_ok_def)
  with s1 ok obtain f where f: "layers_ok s (sb_filters s @ [f])" "s1 = s\<lparr>sb_filters := sb_filters s @ [f]\<rparr>" "bf_count f = 0"
    using sb_add_filter_ok [of s s1] unfolding layers_ok_def by metis
  then have "layer_ok s (length (sb_filters s)) f" by (auto simp: layers_ok_def nth_append)
  then have "int (bf_count f) < bf_expected_elements f" using f(3) by (simp add: layer_ok_def)
  with True assms(1) s1 f that [of "sb_filters s" f] show thesis by (auto simp: sb_add_def split: sum.splits)
next
  case False
  have "sb_filters s = butlast (sb_filters s) @ [last (sb_filters s)]" using ok by (simp add: layers_ok_def)
  with False assms that [of "butlast (sb_filters s)" "last (sb_filters s)"] show thesis by (auto simp: sb_add_def split: sum.splits)
qed

lemma sb_add_ok:
  assumes "sb_add seeds s x = (s', Inr ())" and ok: "layers_ok s (sb_filters s)"
  shows "layers_ok s (sb_filters s') \<and> same_limits s s' \<and> sb_holds seeds (sb_filters s') x \<and>
    (\<forall>y. sb_holds seeds (sb_filters s) y \<longrightarrow> sb_holds seeds (sb_filters s') y) \<and> 0 < bf_count (last (sb_filters s'))"
proof -
  obtain fs f f' where c: "layers_ok s (fs @ [f])" "fs @ [f] = sb_filters s \<or> fs = sb_filters s"
    "int (bf_count f) < bf_expected_elements f" "bf_add seeds f x = Inr f'"
    "s' = s\<lparr>sb_filters := fs @ [f'], sb_count := sb_count s + 1\<rparr>"
    using sb_add_cases [OF assms] by blast
  have f: "layer_ok s (length fs) f" using c(1) by (auto simp: layers_ok_def nth_append)
  then have pos: "0 < bf_size f" using c(4) by (auto simp: bf_add_def layer_ok_def split: if_splits)
  with c(4) have eq: "f' = f\<lparr>bf_bit_array := foldl (\<lambda>a idx. a OR 2 ^ idx) (bf_bit_array f) (indices seeds (bf_size f) (bf_num_hashes f) x), bf_count := bf_count f + 1\<rparr>"
    by (simp add: bf_add_def)
  have f': "bits f' = bits f \<union> index_set seeds f x" "bf_size f' = bf_size f" "bf_num_hashes f' = bf_num_hashes f"
    "bf_count f' = bf_count f + 1" "bf_expected_elements f' = bf_expected_elements f" "bf_false_positive_rate f' = bf_false_positive_rate f"
    unfolding eq by (auto simp: bits_def bit_set_all)
  have "layer_ok s (length fs) f'" using f f' c(3) pos by (simp add: layer_ok_def)
  then have "layers_ok s (fs @ [f'])" using c(1) by (auto simp: layers_ok_def nth_append less_Suc_eq)
  moreover have "sb_holds seeds (fs @ [f']) x" using f' by (simp add: sb_holds_def)
  moreover have "sb_holds seeds (fs @ [f']) y" if "sb_holds seeds (sb_filters s) y" for y
  proof -
    have "set (sb_filters s) \<subseteq> set (fs @ [f])"
      using c(2)
    proof
      assume "fs @ [f] = sb_filters s"
      then show ?thesis by simp
    qed auto
    with that have "sb_holds seeds (fs @ [f]) y" by (auto simp only: sb_holds_def)
    then show ?thesis using f' by (auto simp: sb_holds_def)
  qed
  ultimately show ?thesis using c(5) f'(4) by (simp add: same_limits_def)
qed

lemma sb_add_all_ok:
  "sb_add_all seeds s xs = (s', Inr ()) \<Longrightarrow> layers_ok s (sb_filters s) \<Longrightarrow>
   layers_ok s (sb_filters s') \<and> same_limits s s' \<and> (\<forall>x\<in>set xs. sb_holds seeds (sb_filters s') x) \<and>
   (\<forall>y. sb_holds seeds (sb_filters s) y \<longrightarrow> sb_holds seeds (sb_filters s') y) \<and> (xs \<noteq> [] \<longrightarrow> 0 < bf_count (last (sb_filters s')))"
proof (induction xs arbitrary: s)
  case (Cons x xs)
  then obtain s1 where s1: "sb_add seeds s x = (s1, Inr ())" "sb_add_all seeds s1 xs = (s', Inr ())"
    by (auto split: prod.splits sum.splits)
  from sb_add_ok [OF s1(1) Cons.prems(2)] have a: "layers_ok s (sb_filters s1)" "same_limits s s1" "sb_holds seeds (sb_filters s1) x"
    "\<And>y. sb_holds seeds (sb_filters s) y \<Longrightarrow> sb_holds seeds (sb_filters s1) y" "0 < bf_count (last (sb_filters s1))" by auto
  have "layers_ok s1 (sb_filters s1)" using a(1) same_limits_layers [OF a(2)] by simp
  note IH = Cons.IH [OF s1(2) this]
  have "0 < bf_count (last (sb_filters s'))" using IH a(5) s1(2) by (cases xs) auto
  with IH a same_limits_layers [OF a(2)] same_limits_trans [OF a(2)] show ?case by auto
qed (simp add: same_limits_def)

lemma any_contains_holds:
  "\<forall>f\<in>set fs. 0 < bf_size f \<Longrightarrow> any_contains seeds fs x = Inr (sb_holds seeds fs x)"
  by (induction fs) (auto simp: bf_contains_spec sb_holds_def split: bool.split)

lemma geometric_budget: "0 \<le> p \<Longrightarrow> 0 \<le> (r :: real) \<Longrightarrow> r < 1 \<Longrightarrow> (\<Sum>k<n. p * r ^ k * (1 - r)) \<le> p"
proof -
  assume p: "0 \<le> p" and r: "0 \<le> r" "r < 1"
  have "(\<Sum>k<n. p * r ^ k * (1 - r)) = p * ((1 - r) * (\<Sum>k<n. r ^ k))" by (simp add: sum_distrib_left algebra_simps)
  also have "(1 - r) * (\<Sum>k<n. r ^ k) = 1 - r ^ n" using one_diff_power_eq' [of r n] sum_gp_strict [of r n] r by simp
  also have "p * (1 - r ^ n) \<le> p" using p r by (simp add: mult_left_le)
  finally show ?thesis .
qed

text \<open>
  C32. A scalable filter has no false negatives, whatever layers its growth has added; no layer
  is filled beyond its capacity; and the false positive rates of the layers, however many there
  are, add up to at most the target rate.
\<close>

theorem scalable_bloom_sound:
  assumes "sb_new initial_size rate ratio growth = Inr s0" and "0 \<le> ratio" and "0 \<le> rate"
    and "sb_add_all seeds s0 xs = (s, Inr ())" and "xs \<noteq> []"
  shows "list_all (\<lambda>x. sb_contains seeds s x = Inr True) xs \<and>
    list_all (\<lambda>f. int (bf_count f) \<le> bf_expected_elements f) (sb_filters s) \<and>
    sum_list (map bf_false_positive_rate (sb_filters s)) \<le> rate"
proof -
  let ?empty = "\<lparr>sb_initial_size = initial_size, sb_target_fp_rate = rate, sb_ratio = ratio, sb_scale = growth, sb_filters = [], sb_count = 0\<rparr>"
  obtain f where f: "layers_ok ?empty [f]" "s0 = ?empty\<lparr>sb_filters := [f]\<rparr>" "bf_new initial_size (rate * (1 - ratio)) = Inr f"
    using assms(1) sb_add_filter_ok [of ?empty s0] unfolding sb_new_def
    by (force simp: sb_add_filter_def Let_def layer_rate_def split: sum.splits)
  have lim: "same_limits ?empty s0" using f(2) by (simp add: same_limits_def)
  have "layers_ok s0 (sb_filters s0)" using f same_limits_layers [OF lim] by simp
  note all = sb_add_all_ok [OF assms(4) this]
  have layers: "layers_ok ?empty (sb_filters s)" using all same_limits_layers [OF lim] by simp
  have "0 < bf_size f" if "f \<in> set (sb_filters s)" for f
  proof -
    have "sb_filters s = butlast (sb_filters s) @ [last (sb_filters s)]" using layers by (simp add: layers_ok_def)
    then have "f \<in> set (butlast (sb_filters s)) \<or> f = last (sb_filters s)" using that by (metis Un_iff empty_iff insert_iff list.set(1,2) set_append)
    then have "0 < bf_count f" using layers all assms(5) by (auto simp: layers_ok_def)
    then show ?thesis using that layers by (auto simp: layers_ok_def layer_ok_def in_set_conv_nth)
  qed
  then have 1: "list_all (\<lambda>x. sb_contains seeds s x = Inr True) xs"
    using all any_contains_holds [of "sb_filters s" seeds] by (simp add: sb_contains_def list_all_iff)
  have 2: "list_all (\<lambda>f. int (bf_count f) \<le> bf_expected_elements f) (sb_filters s)"
    using layers by (auto simp: list_all_iff in_set_conv_nth layers_ok_def layer_ok_def)
  have "ratio < 1"
  proof (rule ccontr)
    assume "\<not> ratio < 1"
    then have "rate * (1 - ratio) \<le> 0" using assms(3) by (simp add: mult_nonneg_nonpos)
    with f(3) show False by (auto simp: bf_new_def split: if_splits)
  qed
  have "map bf_false_positive_rate (sb_filters s) = map (\<lambda>k. rate * ratio ^ k * (1 - ratio)) [0..<length (sb_filters s)]"
    using layers by (intro nth_equalityI) (auto simp: layers_ok_def layer_ok_def layer_rate_def)
  then have "sum_list (map bf_false_positive_rate (sb_filters s)) = (\<Sum>k<length (sb_filters s). rate * ratio ^ k * (1 - ratio))"
    by (simp add: interv_sum_list_conv_sum_set_nat lessThan_atLeast0)
  with 1 2 geometric_budget [OF assms(3,2) \<open>ratio < 1\<close>, of "length (sb_filters s)"] show ?thesis by simp
qed

theorem scalable_bloom_sound_witness:
  "\<exists>s0 s. sb_new 100 (1 / 100) (1 / 2) 2 = Inr s0 \<and> sb_add_all (\<lambda>x. (x, x)) s0 [7 :: nat] = (s, Inr ()) \<and>
     list_all (\<lambda>x. sb_contains (\<lambda>x. (x, x)) s x = Inr True) [7] \<and> sum_list (map bf_false_positive_rate (sb_filters s)) \<le> 1 / 100"
proof -
  have "ln (1 / 200 :: real) \<le> 1 / 200 - 1" by (rule ln_le_minus_one) simp
  moreover have "0 < (ln (2 :: real))\<^sup>2" "(ln (2 :: real))\<^sup>2 \<le> 1" using ln_2_less_1 by (simp_all add: power_le_one)
  ultimately have "(ln (2 :: real))\<^sup>2 \<le> - 100 * ln (1 / 200)" by linarith
  then have "1 \<le> - 100 * ln (1 / 200) / (ln (2 :: real))\<^sup>2" using \<open>0 < (ln (2 :: real))\<^sup>2\<close> by (simp only: le_divide_eq_1_pos)
  then have m: "0 < optimal_size 100 (1 / 200)" by (simp add: optimal_size_def le_floor_iff)
  let ?f = "\<lparr>bf_expected_elements = 100, bf_false_positive_rate = 1 / 200, bf_size = optimal_size 100 (1 / 200),
    bf_num_hashes = optimal_hashes (optimal_size 100 (1 / 200)) 100, bf_bit_array = 0, bf_count = 0\<rparr>"
  let ?s0 = "\<lparr>sb_initial_size = 100, sb_target_fp_rate = 1 / 100, sb_ratio = 1 / 2, sb_scale = 2, sb_filters = [?f], sb_count = 0\<rparr>"
  have new: "sb_new 100 (1 / 100) (1 / 2) 2 = Inr ?s0"
    by (simp add: sb_new_def sb_add_filter_def layer_rate_def bf_new_def Let_def)
  obtain s where add: "sb_add_all (\<lambda>x. (x, x)) ?s0 [7 :: nat] = (s, Inr ())"
    using m by (auto simp: sb_add_def bf_add_def)
  from new add scalable_bloom_sound [OF new _ _ add] show ?thesis by auto
qed

end
