(* ===== verification/Service_Registry.thy ===== *)
theory Service_Registry
  imports Json Decimal "HOL-Library.Multiset"
begin

text \<open>
  \<open>service-discovery/src/service_registry.py\<close>: the registry of service instances with heartbeats and
  health checks, and the round-robin load balancer. Instances are shared objects: a health check
  holds on to the instance while it waits for the probe, so the registry maps names to identifiers
  and keeps the objects in a store. A check is two steps, what it reads and what it writes.
  \<open>uuid4\<close>, the clock and the answer of the HTTP probe are arguments.
\<close>

section \<open>Instances\<close>

datatype service_status = UP | DOWN | UNKNOWN

record service_instance =
  si_service_name :: string
  si_instance_id :: string
  si_host :: string
  si_port :: int
  si_metadata :: "(string, json) dict"
  si_status :: service_status
  si_health_check_url :: "string option"
  si_health_interval :: rat
  si_last_heartbeat :: time

definition is_heartbeat_valid :: "service_instance \<Rightarrow> rat \<Rightarrow> time \<Rightarrow> bool" where
  "is_heartbeat_valid inst timeout now \<longleftrightarrow> now - si_last_heartbeat inst < timeout"

definition get_instance_address :: "service_instance \<Rightarrow> string" where
  "get_instance_address inst = si_host inst @ '':'' @ show_int (si_port inst)"

text \<open>The truth of \<open>health_check_url\<close>: neither None nor empty.\<close>

definition has_url :: "service_instance \<Rightarrow> bool" where
  "has_url inst \<longleftrightarrow> (case si_health_check_url inst of None \<Rightarrow> False | Some url \<Rightarrow> url \<noteq> [])"

section \<open>The registry\<close>

record service_registry =
  sr_health_check_interval :: rat
  sr_services :: "(string, string list) dict"
  sr_objects :: "(string, service_instance) dict"
  sr_observers :: "string list"
  sr_notified :: "(string \<times> string \<times> service_status) list"
  sr_checking :: "(string \<times> service_status \<times> service_status) list"
  sr_registrations :: nat
  sr_deregistrations :: nat
  sr_health_checks :: nat
  sr_failed_checks :: nat

definition sr_init :: "rat \<Rightarrow> service_registry" where
  "sr_init interval =
     \<lparr>sr_health_check_interval = interval, sr_services = [], sr_objects = [], sr_observers = [], sr_notified = [], sr_checking = [],
      sr_registrations = 0, sr_deregistrations = 0, sr_health_checks = 0, sr_failed_checks = 0\<rparr>"

definition sr_add_observer :: "service_registry \<Rightarrow> string \<Rightarrow> service_registry" where
  "sr_add_observer r callback = r\<lparr>sr_observers := sr_observers r @ [callback]\<rparr>"

definition sr_notify :: "service_registry \<Rightarrow> string \<Rightarrow> service_status \<Rightarrow> service_registry" where
  "sr_notify r instance_id new_status =
     r\<lparr>sr_notified := sr_notified r @ map (\<lambda>callback. (callback, instance_id, new_status)) (sr_observers r)\<rparr>"

text \<open>\<open>not s.strip()\<close>: the string is empty or all white space.\<close>

definition is_space :: "char \<Rightarrow> bool" where
  "is_space c \<longleftrightarrow> (let n = of_char c :: nat in 9 \<le> n \<and> n \<le> 13 \<or> 28 \<le> n \<and> n \<le> 32 \<or> n = 133 \<or> n = 160)"

definition blank :: "string \<Rightarrow> bool" where
  "blank s \<longleftrightarrow> list_all is_space s"

definition sr_register ::
    "service_registry \<Rightarrow> string \<Rightarrow> string \<Rightarrow> int \<Rightarrow> (string, json) dict option \<Rightarrow> string option \<Rightarrow> string \<Rightarrow> time \<Rightarrow>
     (service_registry, string) outcome" where
  "sr_register r service_name host port metadata health_check_url uuid now =
     (if blank service_name then (r, Inl ValueError)
      else if blank host then (r, Inl ValueError)
      else if \<not> (0 < port \<and> port < 65536) then (r, Inl ValueError)
      else let inst = \<lparr>si_service_name = service_name, si_instance_id = uuid, si_host = host, si_port = port,
                 si_metadata = (case metadata of None \<Rightarrow> [] | Some d \<Rightarrow> d), si_status = UP, si_health_check_url = health_check_url,
                 si_health_interval = sr_health_check_interval r, si_last_heartbeat = now\<rparr>
           in (r\<lparr>sr_services := dict_set service_name (dict_get (sr_services r) service_name [] @ [uuid]) (sr_services r),
                 sr_objects := dict_set uuid inst (sr_objects r), sr_registrations := sr_registrations r + 1\<rparr>, Inr uuid))"

definition sr_deregister :: "service_registry \<Rightarrow> string \<Rightarrow> string \<Rightarrow> service_registry \<times> bool" where
  "sr_deregister r service_name instance_id =
     (case map_of (sr_services r) service_name of
        None \<Rightarrow> (r, False)
      | Some instances \<Rightarrow>
          if instance_id \<in> set instances
          then let rest = remove1 instance_id instances
               in (r\<lparr>sr_services := (if rest = [] then dict_del service_name (sr_services r) else dict_set service_name rest (sr_services r)),
                     sr_deregistrations := sr_deregistrations r + 1\<rparr>, True)
          else (r, False))"

text \<open>The object of an identifier; every registered identifier has one.\<close>

definition sr_object :: "service_registry \<Rightarrow> string \<Rightarrow> service_instance" where
  "sr_object r instance_id = the (map_of (sr_objects r) instance_id)"

definition sr_discover :: "service_registry \<Rightarrow> string \<Rightarrow> time \<Rightarrow> service_instance list" where
  "sr_discover r service_name now =
     (case map_of (sr_services r) service_name of
        None \<Rightarrow> []
      | Some instances \<Rightarrow> filter (\<lambda>inst. si_status inst = UP \<and> is_heartbeat_valid inst 60 now) (map (sr_object r) instances))"

definition sr_discover_all :: "service_registry \<Rightarrow> string \<Rightarrow> service_instance list" where
  "sr_discover_all r service_name = map (sr_object r) (dict_get (sr_services r) service_name [])"

definition sr_heartbeat :: "service_registry \<Rightarrow> string \<Rightarrow> string \<Rightarrow> time \<Rightarrow> service_registry \<times> bool" where
  "sr_heartbeat r service_name instance_id now =
     (case map_of (sr_services r) service_name of
        None \<Rightarrow> (r, False)
      | Some instances \<Rightarrow>
          if instance_id \<in> set instances
          then let inst = (sr_object r instance_id)\<lparr>si_last_heartbeat := now\<rparr>;
                   inst1 = (if si_status inst = UNKNOWN then inst\<lparr>si_status := UP\<rparr>
                            else if si_status inst = DOWN \<and> \<not> has_url inst then inst\<lparr>si_status := UP\<rparr> else inst)
               in (r\<lparr>sr_objects := dict_set instance_id inst1 (sr_objects r)\<rparr>, True)
          else (r, False))"

text \<open>
  \<open>_probe_health\<close>: \<open>fetch\<close> gives the HTTP status of a URL, or None where \<open>urlopen\<close> raises.
\<close>

definition sr_probe_health :: "service_instance \<Rightarrow> (string \<Rightarrow> nat option) \<Rightarrow> bool" where
  "sr_probe_health inst fetch =
     (case si_health_check_url inst of
        None \<Rightarrow> True
      | Some url \<Rightarrow>
          if url = [] then True
          else let full = (if take 4 url \<noteq> ''http'' then ''http://'' @ si_host inst @ '':'' @ show_int (si_port inst) @ url else url)
               in case fetch full of None \<Rightarrow> False | Some status \<Rightarrow> 200 \<le> status \<and> status < 300)"

definition sr_check_reads :: "service_registry \<Rightarrow> string \<Rightarrow> (string \<Rightarrow> nat option) \<Rightarrow> time \<Rightarrow> service_registry" where
  "sr_check_reads r instance_id fetch now =
     (let inst = sr_object r instance_id; original_status = si_status inst;
          new_status = (if \<not> is_heartbeat_valid inst 60 now then DOWN
                        else if has_url inst then (if sr_probe_health inst fetch then UP else DOWN) else UP)
      in r\<lparr>sr_checking := sr_checking r @ [(instance_id, original_status, new_status)]\<rparr>)"

definition sr_check_writes :: "service_registry \<Rightarrow> string \<times> service_status \<times> service_status \<Rightarrow> service_registry" where
  "sr_check_writes r c =
     (case c of (instance_id, original_status, new_status) \<Rightarrow>
        let r1 = (if new_status \<noteq> original_status
                  then sr_notify (r\<lparr>sr_objects := dict_set instance_id ((sr_object r instance_id)\<lparr>si_status := new_status\<rparr>) (sr_objects r)\<rparr>)
                         instance_id new_status
                  else r)
        in r1\<lparr>sr_checking := remove1 c (sr_checking r1), sr_health_checks := sr_health_checks r1 + 1,
              sr_failed_checks := sr_failed_checks r1 + (if new_status = DOWN then 1 else 0)\<rparr>)"

text \<open>\<open>_run_health_checks\<close> submits a check for every registered instance.\<close>

definition sr_all_instances :: "service_registry \<Rightarrow> string list" where
  "sr_all_instances r = concat (map snd (sr_services r))"

definition sr_get_services :: "service_registry \<Rightarrow> string list" where
  "sr_get_services r = map fst (sr_services r)"

record registry_stats =
  rs_registrations :: nat
  rs_deregistrations :: nat
  rs_health_checks :: nat
  rs_failed_checks :: nat
  rs_total_instances :: nat
  rs_healthy_instances :: nat
  rs_services :: nat

definition sr_get_stats :: "service_registry \<Rightarrow> time \<Rightarrow> registry_stats" where
  "sr_get_stats r now =
     \<lparr>rs_registrations = sr_registrations r, rs_deregistrations = sr_deregistrations r, rs_health_checks = sr_health_checks r,
      rs_failed_checks = sr_failed_checks r, rs_total_instances = sum_list (map (\<lambda>(_, ids). length ids) (sr_services r)),
      rs_healthy_instances = sum_list (map (\<lambda>(_, ids).
        length (filter (\<lambda>i. si_status (sr_object r i) = UP \<and> is_heartbeat_valid (sr_object r i) 60 now) ids)) (sr_services r)),
      rs_services = length (sr_services r)\<rparr>"

section \<open>The load balancer\<close>

type_synonym load_balancer = "(string, nat) dict"

definition lb_get_instance :: "load_balancer \<Rightarrow> service_registry \<Rightarrow> string \<Rightarrow> time \<Rightarrow> load_balancer \<times> service_instance option" where
  "lb_get_instance lb r service_name now =
     (let instances = sr_discover r service_name now
      in if instances = [] then (lb, None)
         else let idx = dict_get lb service_name 0
              in (dict_set service_name ((idx + 1) mod length instances) lb, Some (instances ! (idx mod length instances))))"

section \<open>Histories of a registry\<close>

datatype registry_event = Register string string int "(string, json) dict option" "string option" string time
  | Deregister string string | Heartbeat string string time | Observe string
  | Check_Reads string "string \<Rightarrow> nat option" time | Check_Writes nat

fun registry_do :: "service_registry \<Rightarrow> registry_event \<Rightarrow> service_registry" where
  "registry_do r (Register name host port meta url uuid now) = fst (sr_register r name host port meta url uuid now)"
| "registry_do r (Deregister name i) = fst (sr_deregister r name i)"
| "registry_do r (Heartbeat name i now) = fst (sr_heartbeat r name i now)"
| "registry_do r (Observe cb) = sr_add_observer r cb"
| "registry_do r (Check_Reads i fetch now) = (if i \<in> set (sr_all_instances r) then sr_check_reads r i fetch now else r)"
| "registry_do r (Check_Writes n) = (if n < length (sr_checking r) then sr_check_writes r (sr_checking r ! n) else r)"

definition registry_run :: "rat \<Rightarrow> registry_event list \<Rightarrow> service_registry" where
  "registry_run interval es = foldl registry_do (sr_init interval) es"

text \<open>
  The specification: which instances of a service are registered, in their order, and when each
  was last heard of, both read off the history.
\<close>

fun accepts :: "registry_event \<Rightarrow> bool" where
  "accepts (Register name host port meta url uuid now) \<longleftrightarrow> \<not> blank name \<and> \<not> blank host \<and> 0 < port \<and> port < 65536"
| "accepts _ \<longleftrightarrow> True"

fun live_step :: "(string \<Rightarrow> string list) \<Rightarrow> registry_event \<Rightarrow> string \<Rightarrow> string list" where
  "live_step live (Register name host port meta url uuid now) =
     (if accepts (Register name host port meta url uuid now) then live(name := live name @ [uuid]) else live)"
| "live_step live (Deregister name i) = live(name := remove1 i (live name))"
| "live_step live _ = live"

definition live_after :: "registry_event list \<Rightarrow> string \<Rightarrow> string list" where
  "live_after es = foldl live_step (\<lambda>_. []) es"

fun beat_step :: "(string \<Rightarrow> string list) \<times> (string \<Rightarrow> time) \<Rightarrow> registry_event \<Rightarrow> (string \<Rightarrow> string list) \<times> (string \<Rightarrow> time)" where
  "beat_step (live, beat) e = (live_step live e,
     (case e of
        Register name host port meta url uuid now \<Rightarrow> if accepts e then beat(uuid := now) else beat
      | Heartbeat name i now \<Rightarrow> if i \<in> set (live name) then beat(i := now) else beat
      | _ \<Rightarrow> beat))"

definition beat_after :: "registry_event list \<Rightarrow> string \<Rightarrow> time" where
  "beat_after es = snd (foldl beat_step (\<lambda>_. [], \<lambda>_. 0) es)"

text \<open>The identifiers of \<open>uuid4\<close> are all different.\<close>

fun new_ids :: "registry_event list \<Rightarrow> string list" where
  "new_ids [] = []"
| "new_ids (Register name host port meta url uuid now # es) = uuid # new_ids es"
| "new_ids (_ # es) = new_ids es"

section \<open>The registry implements its specification\<close>

lemma live_after_snoc: "live_after (es @ [e]) = live_step (live_after es) e"
  by (simp add: live_after_def)

lemma beat_step_fst: "fst (beat_step p e) = live_step (fst p) e"
  by (cases p) simp

lemma beat_after_fst: "fst (foldl beat_step (\<lambda>_. [], \<lambda>_. 0) es) = live_after es"
  by (induction es rule: rev_induct) (simp_all add: live_after_def beat_step_fst)

lemma beat_after_snoc: "beat_after (es @ [e]) = snd (beat_step (live_after es, beat_after es) e)"
proof -
  have "foldl beat_step (\<lambda>_. [], \<lambda>_. 0) es = (live_after es, beat_after es)"
    by (simp add: prod_eq_iff beat_after_fst beat_after_def)
  then show ?thesis by (simp add: beat_after_def)
qed

lemma new_ids_append: "new_ids (es @ es') = new_ids es @ new_ids es'"
  by (induction es rule: new_ids.induct) simp_all

text \<open>An identifier of a service has its object, with the service's name and the last heartbeat.\<close>

definition object_ok :: "service_registry \<Rightarrow> (string \<Rightarrow> time) \<Rightarrow> string \<Rightarrow> string \<Rightarrow> bool" where
  "object_ok r beat name i \<longleftrightarrow> (\<exists>inst. map_of (sr_objects r) i = Some inst \<and> si_instance_id inst = i \<and>
     si_service_name inst = name \<and> si_last_heartbeat inst = beat i)"

definition registry_ok :: "(string \<Rightarrow> string list) \<Rightarrow> (string \<Rightarrow> time) \<Rightarrow> string set \<Rightarrow> service_registry \<Rightarrow> bool" where
  "registry_ok live beat ids r \<longleftrightarrow> dict_wf (sr_services r) \<and>
     (\<forall>name. map_of (sr_services r) name = (if live name = [] then None else Some (live name))) \<and>
     (\<forall>name. distinct (live name)) \<and>
     (\<forall>name. \<forall>i\<in>set (live name). object_ok r beat name i) \<and>
     (\<forall>i. map_of (sr_objects r) i \<noteq> None \<longrightarrow> i \<in> ids) \<and>
     (\<forall>c\<in>set (sr_checking r). map_of (sr_objects r) (fst c) \<noteq> None)"

lemma registry_ok_D:
  assumes "registry_ok live beat ids r"
  shows "map_of (sr_services r) name = (if live name = [] then None else Some (live name))" "distinct (live name)"
    "i \<in> set (live name) \<Longrightarrow> object_ok r beat name i" "map_of (sr_objects r) j = Some inst \<Longrightarrow> j \<in> ids"
    "c \<in> set (sr_checking r) \<Longrightarrow> map_of (sr_objects r) (fst c) \<noteq> None"
  using assms unfolding registry_ok_def by blast+

lemma registry_ok_ids: "registry_ok live beat ids r \<Longrightarrow> i \<in> set (live name) \<Longrightarrow> i \<in> ids"
  using registry_ok_D(3) [of live beat ids r i name] registry_ok_D(4) by (auto simp: object_ok_def)

lemma registry_ok_one_name: "registry_ok live beat ids r \<Longrightarrow> i \<in> set (live name) \<Longrightarrow> i \<in> set (live name') \<Longrightarrow> name = name'"
  using registry_ok_D(3) [of live beat ids r i name] registry_ok_D(3) [of live beat ids r i name'] by (auto simp: object_ok_def)

lemma registry_ok_services: "registry_ok live beat ids r \<Longrightarrow> dict_get (sr_services r) name [] = live name"
  using registry_ok_D(1) [of live beat ids r name] by (simp add: dict_get_def)

text \<open>An object may change in its status and, together with the specification, in its last heartbeat.\<close>

lemma registry_ok_object:
  assumes ok: "registry_ok live beat ids r" and inst: "map_of (sr_objects r) i = Some inst"
    and new: "si_instance_id inst' = si_instance_id inst" "si_service_name inst' = si_service_name inst"
    and beat': "\<And>name. i \<in> set (live name) \<Longrightarrow> si_last_heartbeat inst' = beat' i" "\<And>j. j \<noteq> i \<Longrightarrow> beat' j = beat j"
  shows "registry_ok live beat' ids (r\<lparr>sr_objects := dict_set i inst' (sr_objects r)\<rparr>)"
proof -
  let ?r = "r\<lparr>sr_objects := dict_set i inst' (sr_objects r)\<rparr>"
  have "object_ok ?r beat' name j" if "j \<in> set (live name)" for name j
    using registry_ok_D(3) [OF ok that] that inst new beat' by (auto simp: object_ok_def update_conv')
  moreover have "j \<in> ids" if "map_of (sr_objects ?r) j \<noteq> None" for j
    using that ok inst by (auto simp: registry_ok_def update_conv' split: if_splits)
  ultimately show ?thesis using ok by (auto simp: registry_ok_def update_conv')
qed

lemma registry_ok_frame:
  assumes ok: "registry_ok live beat ids r" and "sr_services r' = sr_services r" and "sr_objects r' = sr_objects r"
    and "\<And>c. c \<in> set (sr_checking r') \<Longrightarrow> c \<in> set (sr_checking r) \<or> map_of (sr_objects r) (fst c) \<noteq> None"
  shows "registry_ok live beat ids r'"
proof -
  have "map_of (sr_objects r') (fst c) \<noteq> None" if "c \<in> set (sr_checking r')" for c
    using assms(3,4) that registry_ok_D(5) [OF ok, of c] by metis
  moreover have "object_ok r' = object_ok r" by (simp add: object_ok_def assms(3) fun_eq_iff)
  ultimately show ?thesis using ok assms(2,3) unfolding registry_ok_def by simp
qed

lemma register_ok:
  assumes ok: "registry_ok live beat ids r" and fresh: "uuid \<notin> ids" and acc: "accepts (Register name host port meta url uuid now)"
  shows "registry_ok (live(name := live name @ [uuid])) (beat(uuid := now)) (insert uuid ids)
    (fst (sr_register r name host port meta url uuid now))"
proof -
  let ?live = "live(name := live name @ [uuid])" and ?beat = "beat(uuid := now)"
  obtain inst where r: "fst (sr_register r name host port meta url uuid now) =
      r\<lparr>sr_services := dict_set name (live name @ [uuid]) (sr_services r), sr_objects := dict_set uuid inst (sr_objects r), sr_registrations := sr_registrations r + 1\<rparr>"
    "si_instance_id inst = uuid" "si_service_name inst = name" "si_last_heartbeat inst = now"
    using acc registry_ok_services [OF ok, of name] by (simp add: sr_register_def Let_def)
  let ?r = "r\<lparr>sr_services := dict_set name (live name @ [uuid]) (sr_services r), sr_objects := dict_set uuid inst (sr_objects r), sr_registrations := sr_registrations r + 1\<rparr>"
  have old: "i \<noteq> uuid" if "i \<in> set (live n)" for i n using registry_ok_ids [OF ok that] fresh by blast
  have new_obj: "object_ok ?r ?beat name uuid" using r(2-4) by (simp add: object_ok_def update_conv')
  have old_obj: "object_ok ?r ?beat n i" if "i \<in> set (live n)" for n i
    using registry_ok_D(3) [OF ok that] old [OF that] by (simp add: object_ok_def update_conv')
  have 1: "object_ok ?r ?beat n i" if "i \<in> set (?live n)" for n i
    using that new_obj old_obj by (cases "n = name") auto
  have 2: "distinct (?live n)" for n using registry_ok_D(2) [OF ok] old by (cases "n = name") auto
  have 3: "i \<in> insert uuid ids" if "map_of (sr_objects ?r) i \<noteq> None" for i
    using that registry_ok_D(4) [OF ok, of i] by (cases "i = uuid") (auto simp: update_conv')
  have 4: "map_of (sr_objects ?r) (fst c) \<noteq> None" if "c \<in> set (sr_checking ?r)" for c
    using that registry_ok_D(5) [OF ok, of c] by (auto simp: update_conv')
  have 5: "map_of (sr_services ?r) n = (if ?live n = [] then None else Some (?live n))" for n
    using registry_ok_D(1) [OF ok, of n] by (simp add: update_conv')
  have 6: "dict_wf (sr_services ?r)" using ok by (simp add: registry_ok_def)
  show ?thesis unfolding r(1) registry_ok_def using 1 2 3 4 5 6 by blast
qed

lemma deregister_ok:
  assumes ok: "registry_ok live beat ids r"
  shows "registry_ok (live(name := remove1 i (live name))) beat ids (fst (sr_deregister r name i))"
proof -
  let ?live = "live(name := remove1 i (live name))" and ?r = "fst (sr_deregister r name i)"
  have frame: "sr_objects ?r = sr_objects r" "sr_checking ?r = sr_checking r"
    by (auto simp: sr_deregister_def Let_def split: option.split)
  have "map_of (sr_services ?r) n = (if ?live n = [] then None else Some (?live n))" for n
    using registry_ok_D(1) [OF ok, of n] registry_ok_D(1) [OF ok, of name]
    by (auto simp: sr_deregister_def Let_def update_conv' delete_conv' remove1_idem split: option.split)
  moreover have "dict_wf (sr_services ?r)" using ok by (auto simp: sr_deregister_def Let_def registry_ok_def split: option.split)
  moreover have "object_ok ?r beat n j" if "j \<in> set (?live n)" for n j
    using that registry_ok_D(3) [OF ok, of j n] set_remove1_subset [of i "live name"] frame by (auto simp: object_ok_def split: if_splits)
  ultimately show ?thesis using ok frame by (auto simp: registry_ok_def distinct_remove1)
qed

lemma sr_object_eq: "map_of (sr_objects r) i = Some inst \<Longrightarrow> sr_object r i = inst"
  by (simp add: sr_object_def)

lemma heartbeat_ok:
  assumes ok: "registry_ok live beat ids r"
  shows "registry_ok live (if i \<in> set (live name) then beat(i := now) else beat) ids (fst (sr_heartbeat r name i now))"
proof (cases "i \<in> set (live name)")
  case True
  then obtain inst where inst: "map_of (sr_objects r) i = Some inst" using registry_ok_D(3) [OF ok] by (auto simp: object_ok_def)
  have srv: "map_of (sr_services r) name = Some (live name)" using registry_ok_D(1) [OF ok, of name] True by (auto split: if_splits)
  obtain inst' where inst': "fst (sr_heartbeat r name i now) = r\<lparr>sr_objects := dict_set i inst' (sr_objects r)\<rparr>"
    "si_instance_id inst' = si_instance_id inst" "si_service_name inst' = si_service_name inst" "si_last_heartbeat inst' = now"
    using True srv by (auto simp: sr_heartbeat_def Let_def sr_object_eq [OF inst])
  show ?thesis unfolding inst'(1) using True inst'(2-4)
    by (intro registry_ok_object [OF ok inst]) auto
next
  case False
  then have "fst (sr_heartbeat r name i now) = r"
    using registry_ok_D(1) [OF ok, of name] by (auto simp: sr_heartbeat_def split: option.split if_splits)
  with False ok show ?thesis by simp
qed

lemma check_writes_ok:
  assumes ok: "registry_ok live beat ids r" and c: "(i, old, new) \<in> set (sr_checking r)"
  shows "registry_ok live beat ids (sr_check_writes r (i, old, new))"
proof -
  obtain inst where inst: "map_of (sr_objects r) i = Some inst" using registry_ok_D(5) [OF ok c] by auto
  let ?r1 = "r\<lparr>sr_objects := dict_set i (inst\<lparr>si_status := new\<rparr>) (sr_objects r)\<rparr>"
  have ok1: "registry_ok live beat ids ?r1"
  proof (rule registry_ok_object [OF ok inst])
    show "si_last_heartbeat (inst\<lparr>si_status := new\<rparr>) = beat i" if "i \<in> set (live name)" for name
      using registry_ok_D(3) [OF ok that] inst by (auto simp: object_ok_def)
  qed simp_all
  have sub: "x \<in> set (remove1 c xs) \<Longrightarrow> x \<in> set xs" for x c and xs :: "(string \<times> service_status \<times> service_status) list"
    using set_remove1_subset by fastforce
  show ?thesis
  proof (cases "new = old")
    case True
    then show ?thesis by (intro registry_ok_frame [OF ok]) (auto simp: sr_check_writes_def Let_def dest: sub)
  next
    case False
    then show ?thesis
      by (intro registry_ok_frame [OF ok1]) (auto simp: sr_check_writes_def Let_def sr_notify_def sr_object_eq [OF inst] dest: sub)
  qed
qed

lemma registry_step_ok:
  assumes ok: "registry_ok live beat ids r" and new: "ids \<inter> set (new_ids [e]) = {}"
  shows "registry_ok (live_step live e) (snd (beat_step (live, beat) e)) (ids \<union> set (new_ids [e])) (registry_do r e)"
proof (cases e)
  case (Register name host port meta url uuid now)
  show ?thesis
  proof (cases "accepts e")
    case True
    then show ?thesis using register_ok [OF ok, of uuid name host port meta url now] new by (simp add: Register)
  next
    case False
    have "registry_ok live beat (insert uuid ids) r" using ok by (auto simp: registry_ok_def)
    with False show ?thesis by (auto simp: Register sr_register_def)
  qed
next
  case (Deregister name i)
  then show ?thesis using deregister_ok [OF ok] by simp
next
  case (Heartbeat name i now)
  then show ?thesis using heartbeat_ok [OF ok] by simp
next
  case (Observe cb)
  then show ?thesis using registry_ok_frame [OF ok, of "sr_add_observer r cb"] by (simp add: sr_add_observer_def)
next
  case (Check_Reads i fetch now)
  show ?thesis
  proof (cases "i \<in> set (sr_all_instances r)")
    case True
    then obtain n l where "(n, l) \<in> set (sr_services r)" "i \<in> set l" by (auto simp: sr_all_instances_def)
    moreover have "dict_wf (sr_services r)" using ok by (simp add: registry_ok_def)
    ultimately have "map_of (sr_services r) n = Some l" "i \<in> set l" by simp_all
    with registry_ok_D(1) [OF ok, of n] have "i \<in> set (live n)" by (auto split: if_splits)
    then have obj: "map_of (sr_objects r) i \<noteq> None" using registry_ok_D(3) [OF ok] by (auto simp: object_ok_def)
    have "registry_ok live beat ids (sr_check_reads r i fetch now)"
      by (rule registry_ok_frame [OF ok]) (use obj in \<open>auto simp: sr_check_reads_def Let_def\<close>)
    with True show ?thesis by (simp add: Check_Reads)
  next
    case False
    with ok show ?thesis by (simp add: Check_Reads)
  qed
next
  case (Check_Writes n)
  show ?thesis
  proof (cases "n < length (sr_checking r)")
    case True
    obtain i old new where c: "sr_checking r ! n = (i, old, new)" by (rule prod_cases3)
    then have "(i, old, new) \<in> set (sr_checking r)" using True by (metis nth_mem)
    from check_writes_ok [OF ok this] True c show ?thesis by (simp add: Check_Writes)
  next
    case False
    with ok show ?thesis by (simp add: Check_Writes)
  qed
qed

lemma registry_run_ok:
  "distinct (new_ids es) \<Longrightarrow> registry_ok (live_after es) (beat_after es) (set (new_ids es)) (registry_run interval es)"
proof (induction es rule: rev_induct)
  case Nil
  then show ?case by (simp add: registry_ok_def live_after_def beat_after_def registry_run_def sr_init_def)
next
  case (snoc e es)
  then have "distinct (new_ids es)" "set (new_ids es) \<inter> set (new_ids [e]) = {}" by (simp_all add: new_ids_append)
  from registry_step_ok [OF snoc.IH [OF this(1)] this(2)] show ?case
    by (simp add: live_after_snoc beat_after_snoc new_ids_append registry_run_def)
qed

section \<open>Properties\<close>

text \<open>
  C33. The registry implements its specification: after any history of registrations,
  deregistrations, heartbeats and health checks, in any interleaving of the steps of the checks,
  \<open>discover_all\<close> gives exactly the instances of the service that are registered, in their order,
  and \<open>discover\<close> those of them that are up and were heard of less than 60 seconds ago.
\<close>

theorem registry_discover_exact:
  assumes "distinct (new_ids es)" and "r = registry_run interval es"
  shows "map si_instance_id (sr_discover_all r name) = live_after es name \<and>
    list_all (\<lambda>inst. si_service_name inst = name) (sr_discover_all r name) \<and>
    sr_discover r name now = filter (\<lambda>inst. si_status inst = UP \<and> now - beat_after es (si_instance_id inst) < 60) (sr_discover_all r name)"
proof -
  have ok: "registry_ok (live_after es) (beat_after es) (set (new_ids es)) r" using registry_run_ok [OF assms(1)] assms(2) by simp
  have obj: "si_instance_id (sr_object r i) = i" "si_service_name (sr_object r i) = name" "si_last_heartbeat (sr_object r i) = beat_after es i"
    if "i \<in> set (live_after es name)" for i
    using registry_ok_D(3) [OF ok that] by (auto simp: object_ok_def sr_object_def)
  have all: "sr_discover_all r name = map (sr_object r) (live_after es name)"
    by (simp add: sr_discover_all_def registry_ok_services [OF ok])
  have "filter (\<lambda>inst. si_status inst = UP \<and> is_heartbeat_valid inst 60 now) (map (sr_object r) (live_after es name)) =
      filter (\<lambda>inst. si_status inst = UP \<and> now - beat_after es (si_instance_id inst) < 60) (map (sr_object r) (live_after es name))"
    by (rule filter_cong) (auto simp: obj is_heartbeat_valid_def)
  then have "sr_discover r name now = filter (\<lambda>inst. si_status inst = UP \<and> now - beat_after es (si_instance_id inst) < 60) (sr_discover_all r name)"
    using registry_ok_D(1) [OF ok, of name] by (simp add: sr_discover_def all split: if_splits)
  then show ?thesis using obj by (simp add: all list_all_iff map_idI)
qed

definition example_services :: "registry_event list" where
  "example_services = [Register ''web'' ''h1'' 80 None None ''u1'' 0, Register ''web'' ''h2'' 80 None None ''u2'' 10,
     Register ''web'' '' '' 80 None None ''u3'' 10, Heartbeat ''web'' ''u1'' 50, Deregister ''web'' ''u4'', Register ''db'' ''h3'' 70000 None None ''u5'' 11]"

theorem registry_discover_exact_witness:
  "map si_instance_id (sr_discover_all (registry_run 30 example_services) ''web'') = [''u1'', ''u2''] \<and>
   map si_instance_id (sr_discover (registry_run 30 example_services) ''web'' 75) = [''u1'']"
proof -
  have d: "distinct (new_ids example_services)" by code_simp
  have l: "live_after example_services ''web'' = [''u1'', ''u2'']" by code_simp
  have "map si_instance_id (filter (\<lambda>inst. si_status inst = UP \<and> 75 - beat_after example_services (si_instance_id inst) < 60)
      (sr_discover_all (registry_run 30 example_services) ''web'')) = [''u1'']" by code_simp
  with l registry_discover_exact [OF d refl, of 30 "''web''" 75] show ?thesis by simp
qed

text \<open>
  Observers miss a recovery: a heartbeat brings an instance that is down back up without a
  notification, and the next check finds nothing changed; the last that the observers heard is
  that the instance is down, while it is discovered again.
\<close>

theorem registry_silent_recovery:
  "case registry_run 30 [Observe ''cb'', Register ''web'' ''h1'' 80 None None ''u1'' 0, Check_Reads ''u1'' (\<lambda>_. None) 100, Check_Writes 0,
      Heartbeat ''web'' ''u1'' 101, Check_Reads ''u1'' (\<lambda>_. None) 130, Check_Writes 0] of r \<Rightarrow>
     sr_notified r = [(''cb'', ''u1'', DOWN)] \<and> map si_instance_id (sr_discover r ''web'' 131) = [''u1''] \<and> sr_health_checks r = 2"
  by code_simp

text \<open>A check that read an old heartbeat takes an instance down although it has been heard of since.\<close>

lemma registry_stale_check:
  "case registry_run 30 [Register ''web'' ''h1'' 80 None (Some ''/health'') ''u1'' 0, Check_Reads ''u1'' (\<lambda>_. Some 200) 60,
      Heartbeat ''web'' ''u1'' 61, Check_Writes 0, Heartbeat ''web'' ''u1'' 80] of r \<Rightarrow> sr_discover r ''web'' 81 = []"
  by code_simp

text \<open>Successive requests while the set of discovered instances stays the same.\<close>

fun lb_requests :: "load_balancer \<Rightarrow> service_registry \<Rightarrow> string \<Rightarrow> time list \<Rightarrow> service_instance option list" where
  "lb_requests lb r name [] = []"
| "lb_requests lb r name (now # nows) =
     (case lb_get_instance lb r name now of (lb', inst) \<Rightarrow> inst # lb_requests lb' r name nows)"

lemma lb_requests_cycle:
  "insts \<noteq> [] \<Longrightarrow> list_all (\<lambda>now. sr_discover r name now = insts) nows \<Longrightarrow>
   lb_requests lb r name nows =
     map (\<lambda>k. Some (insts ! ((dict_get lb name 0 + k) mod length insts))) [0..<length nows]"
proof (induction nows arbitrary: lb)
  case (Cons now nows)
  let ?n = "length insts" and ?lb = "dict_set name ((dict_get lb name 0 + 1) mod length insts) lb"
  have "lb_requests lb r name (now # nows) = Some (insts ! (dict_get lb name 0 mod ?n)) # lb_requests ?lb r name nows"
    using Cons.prems by (simp add: lb_get_instance_def Let_def)
  also have "lb_requests ?lb r name nows = map (\<lambda>k. Some (insts ! ((dict_get lb name 0 + Suc k) mod ?n))) [0..<length nows]"
    using Cons.IH [of ?lb] Cons.prems by (simp add: mod_add_left_eq)
  finally show ?case by (simp add: map_upt_Suc del: upt_Suc)
qed simp

text \<open>
  The load balancer is fair: while the discovered instances do not change, any n successive
  requests, n the number of instances, give each instance exactly once.
\<close>

theorem round_robin_fair:
  assumes "insts \<noteq> []" and "list_all (\<lambda>now. sr_discover r name now = insts) nows" and "length nows = length insts"
  shows "mset (lb_requests lb r name nows) = mset (map Some insts)"
proof -
  let ?n = "length insts" and ?i = "dict_get lb name 0"
  have "mset (map (\<lambda>k. (?i + k) mod ?n) [0..<?n]) = mset [0..<?n]"
  proof (rule set_eq_iff_mset_eq_distinct [THEN iffD1])
    have inj: "inj_on (\<lambda>k. (?i + k) mod ?n) {0..<?n}"
    proof (rule inj_onI)
      fix j k assume jk: "j \<in> {0..<?n}" "k \<in> {0..<?n}" "(?i + j) mod ?n = (?i + k) mod ?n"
      then obtain q q' where "?i + j + ?n * q = ?i + k + ?n * q'" unfolding nat_mod_eq_iff by blast
      then have "j + ?n * q = k + ?n * q'" by linarith
      then have "j mod ?n = k mod ?n" unfolding nat_mod_eq_iff by blast
      with jk show "j = k" by simp
    qed
    then show "distinct (map (\<lambda>k. (?i + k) mod ?n) [0..<?n])" by (simp add: distinct_map)
    show "set (map (\<lambda>k. (?i + k) mod ?n) [0..<?n]) = set [0..<?n]"
    proof -
      have "(\<lambda>k. (?i + k) mod ?n) ` {0..<?n} \<subseteq> {0..<?n}" using assms(1) by auto
      from endo_inj_surj [OF _ this inj] show ?thesis by simp
    qed
  qed simp
  then have "image_mset (\<lambda>i. Some (insts ! i)) (mset (map (\<lambda>k. (?i + k) mod ?n) [0..<?n])) = image_mset (\<lambda>i. Some (insts ! i)) (mset [0..<?n])"
    by (rule arg_cong)
  then have "mset (map (\<lambda>k. Some (insts ! ((?i + k) mod ?n))) [0..<?n]) = mset (map (\<lambda>i. Some (insts ! i)) [0..<?n])"
    unfolding mset_map [symmetric] map_map comp_def .
  moreover have "map (\<lambda>i. Some (insts ! i)) [0..<?n] = map Some insts"
    by (rule nth_equalityI) simp_all
  ultimately show ?thesis unfolding lb_requests_cycle [OF assms(1,2)] assms(3) by (simp only:)
qed

theorem round_robin_fair_witness:
  "mset (map (map_option si_instance_id) (lb_requests [(''web'', 1)] (registry_run 30 example_services) ''web'' [51, 52])) =
   mset [Some ''u2'', Some ''u1'']"
proof -
  let ?r = "registry_run 30 example_services"
  have ids: "map si_instance_id (sr_discover ?r ''web'' 51) = [''u1'', ''u2'']" by code_simp
  have same: "sr_discover ?r ''web'' 52 = sr_discover ?r ''web'' 51" by code_simp
  have "mset (lb_requests [(''web'', 1)] ?r ''web'' [51, 52]) = mset (map Some (sr_discover ?r ''web'' 51))"
    by (rule round_robin_fair) (use ids same in \<open>auto dest: arg_cong [where f = length]\<close>)
  then have "image_mset (map_option si_instance_id) (mset (lb_requests [(''web'', 1)] ?r ''web'' [51, 52])) =
      mset (map Some (map si_instance_id (sr_discover ?r ''web'' 51)))" by (simp add: multiset.map_comp comp_def)
  then show ?thesis unfolding ids by (simp del: lb_requests.simps)
qed

end
