(* ===== verification/Partition_Coordinator.thy ===== *)
theory Partition_Coordinator
  imports Decimal
begin

text \<open>
  \<open>network-partition-tester/src/partition_coordinator.py\<close> and \<open>failure_scenarios.py\<close>: the controller
  that cuts a simulated network into groups, crashes and recovers nodes, and answers whether two
  nodes can communicate from a matrix of links that every operation rewrites. The abstract network
  of this theory has no matrix: only the active partitions, the crashed nodes and the links that
  were blocked one way; the coordinator refines it.

  The sets of nodes are distinct lists (their iteration order does not matter). A method runs under
  the coordinator's lock, so each is one step; \<open>time.time()\<close> is an argument.
\<close>

section \<open>Partitions\<close>

datatype partition_state = ACTIVE | HEALED

record partition =
  pt_id :: string
  pt_groups :: "string list list"
  pt_created_at :: time
  pt_duration :: "rat option"
  pt_auto_heal :: bool
  pt_state :: partition_state

definition pt_is_active :: "partition \<Rightarrow> bool" where
  "pt_is_active p \<longleftrightarrow> pt_state p = ACTIVE"

text \<open>\<open>not self.duration\<close>: None or zero.\<close>

definition should_heal :: "partition \<Rightarrow> time \<Rightarrow> bool" where
  "should_heal p now =
     (if pt_state p \<noteq> ACTIVE then False
      else if \<not> pt_auto_heal p then False
      else case pt_duration p of
             None \<Rightarrow> False
           | Some d \<Rightarrow> d \<noteq> 0 \<and> d \<le> now - pt_created_at p)"

section \<open>The coordinator\<close>

type_synonym links = "(string \<times> string) \<Rightarrow> bool option"

record partition_coordinator =
  pc_nodes :: "string list"
  pc_partitions :: "(string, partition) dict"
  pc_crashed_nodes :: "string list"
  pc_counter :: nat
  pc_connectivity :: links

text \<open>A nest of loops whose body is \<open>self.connectivity[link] = v\<close>.\<close>

definition set_links :: "bool \<Rightarrow> (string \<times> string) list \<Rightarrow> links \<Rightarrow> links" where
  "set_links v ks conn = fold (\<lambda>k c. c(k \<mapsto> v)) ks conn"

definition initialize_connectivity :: "partition_coordinator \<Rightarrow> partition_coordinator" where
  "initialize_connectivity C =
     C\<lparr>pc_connectivity := set_links True [(a, b). a \<leftarrow> pc_nodes C, b \<leftarrow> pc_nodes C, a \<noteq> b] (pc_connectivity C)\<rparr>"

definition pc_new :: "string list \<Rightarrow> partition_coordinator" where
  "pc_new nodes =
     initialize_connectivity
       \<lparr>pc_nodes = remdups nodes, pc_partitions = [], pc_crashed_nodes = [], pc_counter = 0, pc_connectivity = Map.empty\<rparr>"

definition apply_partition :: "string list list \<Rightarrow> partition_coordinator \<Rightarrow> partition_coordinator" where
  "apply_partition groups C =
     C\<lparr>pc_connectivity :=
         set_links False
           (concat [[(a, b), (b, a)]. i \<leftarrow> [0..<length groups], j \<leftarrow> [0..<length groups], i \<noteq> j, a \<leftarrow> groups ! i, b \<leftarrow> groups ! j])
           (pc_connectivity C)\<rparr>"

text \<open>The validation loop, with the nodes seen so far.\<close>

fun validate_groups :: "string list \<Rightarrow> string list \<Rightarrow> string list \<Rightarrow> unit result" where
  "validate_groups nodes all_nodes [] = Inr ()"
| "validate_groups nodes all_nodes (node # rest) =
     (if node \<notin> set nodes then Inl ValueError
      else if node \<in> set all_nodes then Inl ValueError
      else validate_groups nodes (node # all_nodes) rest)"

definition partition_key :: "nat \<Rightarrow> string" where
  "partition_key n = ''partition_'' @ show_nat n"

lemma partition_key_simps [simp]: "partition_key n \<noteq> []" "partition_key m = partition_key n \<longleftrightarrow> m = n"
  by (simp_all add: partition_key_def show_nat_inj)

definition create_partition ::
    "partition_coordinator \<Rightarrow> string list list \<Rightarrow> rat option \<Rightarrow> bool \<Rightarrow> time \<Rightarrow> (partition_coordinator, string) outcome" where
  "create_partition C groups duration auto_heal now =
     (case validate_groups (pc_nodes C) [] (concat groups) of
        Inl e \<Rightarrow> (C, Inl e)
      | Inr _ \<Rightarrow>
          let n = pc_counter C + 1;
              partition_id = partition_key n;
              p = \<lparr>pt_id = partition_id, pt_groups = groups, pt_created_at = now, pt_duration = duration,
                   pt_auto_heal = auto_heal, pt_state = ACTIVE\<rparr>
          in (apply_partition groups (C\<lparr>pc_counter := n, pc_partitions := dict_set partition_id p (pc_partitions C)\<rparr>), Inr partition_id))"

text \<open>Re-applying the active partitions, in the order of the dict.\<close>

definition reapply_partitions :: "partition_coordinator \<Rightarrow> partition_coordinator" where
  "reapply_partitions C =
     fold (\<lambda>(_, p) C. if pt_is_active p then apply_partition (pt_groups p) C else C) (pc_partitions C) C"

text \<open>Both directions of every link of a node, except with itself.\<close>

definition set_node_links :: "bool \<Rightarrow> string \<Rightarrow> partition_coordinator \<Rightarrow> partition_coordinator" where
  "set_node_links v node C =
     C\<lparr>pc_connectivity := set_links v (concat [[(node, other), (other, node)]. other \<leftarrow> pc_nodes C, other \<noteq> node]) (pc_connectivity C)\<rparr>"

definition heal :: "partition \<Rightarrow> partition" where
  "heal p = p\<lparr>pt_state := HEALED\<rparr>"

definition restore_links :: "partition_coordinator \<Rightarrow> partition_coordinator" where
  "restore_links C = fold (set_node_links False) (pc_crashed_nodes C) (reapply_partitions (initialize_connectivity C))"

definition heal_partition :: "partition_coordinator \<Rightarrow> string option \<Rightarrow> (partition_coordinator, unit) outcome" where
  "heal_partition C partition_id =
     (let all_healed = (restore_links (C\<lparr>pc_partitions := map (\<lambda>(k, p). (k, heal p)) (pc_partitions C)\<rparr>), Inr ())
      in case partition_id of
           None \<Rightarrow> all_healed
         | Some pid \<Rightarrow>
             if pid = [] then all_healed
             else case map_of (pc_partitions C) pid of
                    None \<Rightarrow> (C, Inl ValueError)
                  | Some p \<Rightarrow> (restore_links (C\<lparr>pc_partitions := dict_set pid (heal p) (pc_partitions C)\<rparr>), Inr ()))"

definition crash_node :: "partition_coordinator \<Rightarrow> string \<Rightarrow> (partition_coordinator, unit) outcome" where
  "crash_node C node =
     (if node \<notin> set (pc_nodes C) then (C, Inl ValueError)
      else (set_node_links False node (C\<lparr>pc_crashed_nodes := List.insert node (pc_crashed_nodes C)\<rparr>), Inr ()))"

definition recover_node :: "partition_coordinator \<Rightarrow> string \<Rightarrow> partition_coordinator" where
  "recover_node C node =
     (if node \<notin> set (pc_crashed_nodes C) then C
      else reapply_partitions (set_node_links True node (C\<lparr>pc_crashed_nodes := remove1 node (pc_crashed_nodes C)\<rparr>)))"

definition can_communicate :: "partition_coordinator \<Rightarrow> string \<Rightarrow> string \<Rightarrow> bool" where
  "can_communicate C from_node to_node =
     (if from_node \<in> set (pc_crashed_nodes C) \<or> to_node \<in> set (pc_crashed_nodes C) then False
      else case pc_connectivity C (from_node, to_node) of None \<Rightarrow> False | Some b \<Rightarrow> b)"

definition get_reachable_nodes :: "partition_coordinator \<Rightarrow> string \<Rightarrow> string set" where
  "get_reachable_nodes C from_node = set (filter (\<lambda>node. node \<noteq> from_node \<and> can_communicate C from_node node) (pc_nodes C))"

definition get_active_partitions :: "partition_coordinator \<Rightarrow> partition list" where
  "get_active_partitions C = filter pt_is_active (map snd (pc_partitions C))"

text \<open>
  One pass of the background thread over the partitions, which it looks up again at each step; the
  clock is read once for each.
\<close>

definition auto_heal_pass :: "(string \<Rightarrow> time) \<Rightarrow> partition_coordinator \<Rightarrow> partition_coordinator" where
  "auto_heal_pass clock C =
     fold (\<lambda>pid C. case map_of (pc_partitions C) pid of
             None \<Rightarrow> C
           | Some p \<Rightarrow> if should_heal p (clock pid) then fst (heal_partition C (Some pid)) else C)
       (map fst (pc_partitions C)) C"

text \<open>
  \<open>assert_cluster_healthy\<close> and \<open>assert_partition_healed\<close>: the loop looks at the coordinator after
  each pause; the argument lists the elapsed time and the coordinator at each look. None: still
  waiting at the end of the list.
\<close>

fun poll :: "(partition_coordinator \<Rightarrow> bool) \<Rightarrow> rat \<Rightarrow> (rat \<times> partition_coordinator) list \<Rightarrow> unit result option" where
  "poll cond timeout [] = None"
| "poll cond timeout ((elapsed, C) # looks) =
     (if \<not> elapsed < timeout then Some (Inl AssertionError)
      else if cond C then Some (Inr ())
      else poll cond timeout looks)"

definition assert_cluster_healthy :: "rat \<Rightarrow> (rat \<times> partition_coordinator) list \<Rightarrow> unit result option" where
  "assert_cluster_healthy = poll (\<lambda>C. get_active_partitions C = [] \<and> pc_crashed_nodes C = [])"

definition assert_partition_healed :: "rat \<Rightarrow> (rat \<times> partition_coordinator) list \<Rightarrow> unit result option" where
  "assert_partition_healed = poll (\<lambda>C. get_active_partitions C = [])"

definition assert_availability :: "partition_coordinator \<Rightarrow> int \<Rightarrow> unit result" where
  "assert_availability C min_nodes =
     (if int (length (pc_nodes C)) - int (length (pc_crashed_nodes C)) < min_nodes then Inl AssertionError else Inr ())"

section \<open>The scenarios\<close>

text \<open>\<open>xs[i:j]\<close>: negative bounds count from the end, and both are clamped to the list.\<close>

definition slice_bound :: "nat \<Rightarrow> int \<Rightarrow> nat" where
  "slice_bound n i = (if i < 0 then nat (i + int n) else min (nat i) n)"

definition py_slice :: "'a list \<Rightarrow> int \<Rightarrow> int \<Rightarrow> 'a list" where
  "py_slice xs i j = take (slice_bound (length xs) j - slice_bound (length xs) i) (drop (slice_bound (length xs) i) xs)"

fun partition_groups :: "string list \<Rightarrow> int \<Rightarrow> int list \<Rightarrow> string list list" where
  "partition_groups nodes start_idx [] = []"
| "partition_groups nodes start_idx (n # sizes) =
     py_slice nodes start_idx (start_idx + n) # partition_groups nodes (start_idx + n) sizes"

definition simple_partition :: "partition_coordinator \<Rightarrow> string list \<Rightarrow> int list \<Rightarrow> rat \<Rightarrow> time \<Rightarrow> (partition_coordinator, string) outcome" where
  "simple_partition C nodes partition_sizes duration now =
     create_partition C (partition_groups nodes 0 partition_sizes) (Some duration) True now"

definition node_isolation :: "partition_coordinator \<Rightarrow> string list \<Rightarrow> string \<Rightarrow> rat \<Rightarrow> time \<Rightarrow> (partition_coordinator, string) outcome" where
  "node_isolation C nodes isolated_node duration now =
     create_partition C [[isolated_node], filter (\<lambda>n. n \<noteq> isolated_node) nodes] (Some duration) True now"

definition asymmetric_partition :: "partition_coordinator \<Rightarrow> string \<times> string \<Rightarrow> partition_coordinator" where
  "asymmetric_partition C blocked_direction = C\<lparr>pc_connectivity := (pc_connectivity C)(blocked_direction \<mapsto> False)\<rparr>"

fun cascading_failures :: "partition_coordinator \<Rightarrow> (string \<times> rat) list \<Rightarrow> (partition_coordinator, unit) outcome" where
  "cascading_failures C [] = (C, Inr ())"
| "cascading_failures C ((node, delay) # failures) =
     (case crash_node C node of
        (C', Inl e) \<Rightarrow> (C', Inl e)
      | (C', Inr _) \<Rightarrow> cascading_failures C' failures)"

section \<open>The matrix against the abstract network\<close>

text \<open>
  What can happen to a coordinator. A one-way block is written into the matrix and nowhere else;
  \<open>pc_step\<close> keeps beside the coordinator the set of blocks that no later operation has lifted.
\<close>

datatype pc_op = Create "string list list" "rat option" bool time | Heal "string option" | Crash string
  | Recover string | Tick "string \<Rightarrow> time" | Block "string \<times> string"

definition tick_heals :: "(string \<Rightarrow> time) \<Rightarrow> partition_coordinator \<Rightarrow> bool" where
  "tick_heals clock C = list_ex (\<lambda>(pid, p). should_heal p (clock pid)) (pc_partitions C)"

fun pc_op_run :: "partition_coordinator \<Rightarrow> pc_op \<Rightarrow> partition_coordinator" where
  "pc_op_run C (Create groups duration auto_heal now) = fst (create_partition C groups duration auto_heal now)"
| "pc_op_run C (Heal pid) = fst (heal_partition C pid)"
| "pc_op_run C (Crash node) = fst (crash_node C node)"
| "pc_op_run C (Recover node) = recover_node C node"
| "pc_op_run C (Tick clock) = auto_heal_pass clock C"
| "pc_op_run C (Block link) = asymmetric_partition C link"

fun blocked_after :: "partition_coordinator \<Rightarrow> pc_op \<Rightarrow> (string \<times> string) set \<Rightarrow> (string \<times> string) set" where
  "blocked_after C (Heal pid) B = (if snd (heal_partition C pid) = Inr () then {} else B)"
| "blocked_after C (Recover node) B =
     (if node \<in> set (pc_crashed_nodes C) then {(a, b) \<in> B. a \<noteq> node \<and> b \<noteq> node} else B)"
| "blocked_after C (Tick clock) B = (if tick_heals clock C then {} else B)"
| "blocked_after C (Block link) B = insert link B"
| "blocked_after C _ B = B"

definition pc_step :: "partition_coordinator \<times> (string \<times> string) set \<Rightarrow> pc_op \<Rightarrow> partition_coordinator \<times> (string \<times> string) set" where
  "pc_step S x = (pc_op_run (fst S) x, blocked_after (fst S) x (snd S))"

definition pc_run :: "string list \<Rightarrow> pc_op list \<Rightarrow> partition_coordinator \<times> (string \<times> string) set" where
  "pc_run nodes ops = foldl pc_step (pc_new nodes, {}) ops"

text \<open>When a partition cuts a link, and when the abstract network has a link.\<close>

definition separates :: "string list list \<Rightarrow> string \<Rightarrow> string \<Rightarrow> bool" where
  "separates groups a b =
     list_ex (\<lambda>i. list_ex (\<lambda>j. i \<noteq> j \<and> a \<in> set (groups ! i) \<and> b \<in> set (groups ! j)) [0..<length groups]) [0..<length groups]"

definition cut_off :: "partition_coordinator \<Rightarrow> string \<Rightarrow> string \<Rightarrow> bool" where
  "cut_off C a b = list_ex (\<lambda>p. separates (pt_groups p) a b) (get_active_partitions C)"

definition link_up :: "partition_coordinator \<Rightarrow> (string \<times> string) set \<Rightarrow> string \<Rightarrow> string \<Rightarrow> bool" where
  "link_up C B a b \<longleftrightarrow>
     a \<noteq> b \<and> {a, b} \<subseteq> set (pc_nodes C) \<and> {a, b} \<inter> set (pc_crashed_nodes C) = {} \<and> \<not> cut_off C a b \<and> (a, b) \<notin> B"

text \<open>What a write of many links does to a lookup.\<close>

lemma set_links_apply: "set_links v ks conn k = (if k \<in> set ks then Some v else conn k)"
  by (induction ks arbitrary: conn) (auto simp: set_links_def)

named_theorems link_simps \<open>what each rewriting of the matrix does to one link\<close>

lemma initialize_link [link_simps]:
  "pc_connectivity (initialize_connectivity C) (a, b) =
     (if a \<in> set (pc_nodes C) \<and> b \<in> set (pc_nodes C) \<and> a \<noteq> b then Some True else pc_connectivity C (a, b))"
  by (auto simp: initialize_connectivity_def set_links_apply)

lemma separates_iff:
  "separates groups a b \<longleftrightarrow>
     (\<exists>i j. i < length groups \<and> j < length groups \<and> i \<noteq> j \<and> a \<in> set (groups ! i) \<and> b \<in> set (groups ! j))"
  unfolding separates_def list_ex_iff by (simp add: Bex_def)

lemma separates_sym: "separates groups a b \<longleftrightarrow> separates groups b a"
  unfolding separates_iff by metis

lemma apply_link [link_simps]:
  "pc_connectivity (apply_partition groups C) (a, b) =
     (if separates groups a b then Some False else pc_connectivity C (a, b))"
proof -
  let ?ks = "concat [[(a, b), (b, a)]. i \<leftarrow> [0..<length groups], j \<leftarrow> [0..<length groups], i \<noteq> j, a \<leftarrow> groups ! i, b \<leftarrow> groups ! j]"
  have "(a, b) \<in> set ?ks \<longleftrightarrow>
      (\<exists>i j x y. i < length groups \<and> j < length groups \<and> i \<noteq> j \<and> x \<in> set (groups ! i) \<and> y \<in> set (groups ! j) \<and>
         ((a, b) = (x, y) \<or> (a, b) = (y, x)))"
    by (simp add: Bex_def if_distrib [of set] if_distrib [of "\<lambda>x. (a, b) \<in> x"] cong: if_cong)
  also have "\<dots> \<longleftrightarrow> separates groups a b \<or> separates groups b a"
    unfolding separates_iff by blast
  finally show ?thesis
    by (simp add: apply_partition_def set_links_apply separates_sym [of groups b a])
qed

lemma node_links [link_simps]:
  "pc_connectivity (set_node_links v node C) (a, b) =
     (if a \<noteq> b \<and> (a = node \<and> b \<in> set (pc_nodes C) \<or> b = node \<and> a \<in> set (pc_nodes C)) then Some v else pc_connectivity C (a, b))"
  by (auto simp: set_node_links_def set_links_apply)

lemma reapply_fold_link:
  "pc_connectivity (fold (\<lambda>(_, p) C. if pt_is_active p then apply_partition (pt_groups p) C else C) ps C) (a, b) =
     (if \<exists>p\<in>snd ` set ps. pt_is_active p \<and> separates (pt_groups p) a b then Some False else pc_connectivity C (a, b))"
  by (induction ps arbitrary: C) (auto simp: apply_link)

lemma reapply_link [link_simps]:
  "pc_connectivity (reapply_partitions C) (a, b) = (if cut_off C a b then Some False else pc_connectivity C (a, b))"
  by (auto simp: reapply_partitions_def reapply_fold_link cut_off_def get_active_partitions_def list_ex_iff)

text \<open>None of them touches the rest of the coordinator.\<close>

definition same_but_links :: "partition_coordinator \<Rightarrow> partition_coordinator \<Rightarrow> bool" where
  "same_but_links C D \<longleftrightarrow> C = D\<lparr>pc_connectivity := pc_connectivity C\<rparr>"

lemma same_but_links_fields:
  assumes "same_but_links C D"
  shows "pc_nodes C = pc_nodes D" "pc_partitions C = pc_partitions D" "pc_crashed_nodes C = pc_crashed_nodes D"
    "pc_counter C = pc_counter D" "get_active_partitions C = get_active_partitions D" "cut_off C a b = cut_off D a b"
  by (subst assms [unfolded same_but_links_def]; simp add: get_active_partitions_def cut_off_def)+

lemma same_but_links_trans: "same_but_links A B \<Longrightarrow> same_but_links B C \<Longrightarrow> same_but_links A C"
  by (cases A; cases B; cases C) (simp add: same_but_links_def)

lemma same_but_links_refl: "same_but_links C C"
  by (simp add: same_but_links_def)

lemma same_but_links_fold:
  assumes "\<And>x C. same_but_links (f x C) C"
  shows "same_but_links (fold f xs C) C"
  by (induction xs arbitrary: C) (auto simp: same_but_links_refl intro: same_but_links_trans assms)

lemma links_frame:
  "same_but_links (initialize_connectivity C) C" "same_but_links (apply_partition groups C) C"
  "same_but_links (set_node_links v node C) C"
  by (simp_all add: same_but_links_def initialize_connectivity_def apply_partition_def set_node_links_def)

lemma reapply_frame: "same_but_links (reapply_partitions C) C"
  unfolding reapply_partitions_def by (rule same_but_links_fold) (auto simp: links_frame same_but_links_refl)

lemma restore_frame: "same_but_links (restore_links C) C"
  unfolding restore_links_def
  by (meson same_but_links_fold same_but_links_trans links_frame reapply_frame)

lemmas frame_simps [simp] =
  links_frame [THEN same_but_links_fields(1)] links_frame [THEN same_but_links_fields(2)]
  links_frame [THEN same_but_links_fields(3)] links_frame [THEN same_but_links_fields(4)]
  links_frame [THEN same_but_links_fields(5)] links_frame [THEN same_but_links_fields(6)]
  reapply_frame [THEN same_but_links_fields(1)] reapply_frame [THEN same_but_links_fields(2)]
  reapply_frame [THEN same_but_links_fields(3)] reapply_frame [THEN same_but_links_fields(4)]
  reapply_frame [THEN same_but_links_fields(5)] reapply_frame [THEN same_but_links_fields(6)]
  restore_frame [THEN same_but_links_fields(1)] restore_frame [THEN same_but_links_fields(2)]
  restore_frame [THEN same_but_links_fields(3)] restore_frame [THEN same_but_links_fields(4)]
  restore_frame [THEN same_but_links_fields(5)] restore_frame [THEN same_but_links_fields(6)]

text \<open>
  The invariant: links between running nodes of the cluster are as the abstract network has them;
  of the others (to the node itself, to strangers) none is ever on.
\<close>

definition keys_ok :: "partition_coordinator \<Rightarrow> bool" where
  "keys_ok C \<longleftrightarrow> map fst (pc_partitions C) = map partition_key [1..<Suc (pc_counter C)]"

lemma keys_ok_wf: "keys_ok C \<Longrightarrow> dict_wf (pc_partitions C)"
  by (simp add: keys_ok_def distinct_map inj_on_def)

lemma keys_ok_iff:
  assumes "keys_ok C"
  shows "map_of (pc_partitions C) k = None \<longleftrightarrow> (\<forall>n. 1 \<le> n \<and> n \<le> pc_counter C \<longrightarrow> k \<noteq> partition_key n)"
proof -
  have "fst ` set (pc_partitions C) = partition_key ` set [1..<Suc (pc_counter C)]"
    using arg_cong [OF assms [unfolded keys_ok_def], of set] by (simp del: upt_Suc)
  then show ?thesis by (auto simp: map_of_eq_None_iff simp del: upt_Suc)
qed

lemma keys_ok_fresh: "keys_ok C \<Longrightarrow> map_of (pc_partitions C) (partition_key (Suc (pc_counter C))) = None"
  by (simp add: keys_ok_iff)

lemma keys_ok_Nil: "keys_ok C \<Longrightarrow> map_of (pc_partitions C) [] = None"
  by (simp add: keys_ok_iff partition_key_simps(1) [symmetric])

definition pc_inv :: "partition_coordinator \<times> (string \<times> string) set \<Rightarrow> bool" where
  "pc_inv S \<longleftrightarrow>
     (let C = fst S; N = set (pc_nodes C); X = set (pc_crashed_nodes C)
      in distinct (pc_nodes C) \<and> distinct (pc_crashed_nodes C) \<and> X \<subseteq> N \<and> keys_ok C \<and>
         (\<forall>a b. (a \<in> N \<and> b \<in> N \<and> a \<noteq> b \<and> a \<notin> X \<and> b \<notin> X \<longrightarrow>
                    pc_connectivity C (a, b) = Some (\<not> cut_off C a b \<and> (a, b) \<notin> snd S)) \<and>
                (\<not> (a \<in> N \<and> b \<in> N \<and> a \<noteq> b) \<longrightarrow> pc_connectivity C (a, b) \<noteq> Some True)))"

lemma can_communicate_iff:
  assumes "pc_inv (C, B)"
  shows "can_communicate C a b \<longleftrightarrow> link_up C B a b"
proof (cases "a \<in> set (pc_nodes C) \<and> b \<in> set (pc_nodes C) \<and> a \<noteq> b")
  case True
  then show ?thesis using assms by (auto simp: pc_inv_def Let_def can_communicate_def link_up_def)
next
  case False
  then have "pc_connectivity C (a, b) \<noteq> Some True" using assms by (simp add: pc_inv_def Let_def)
  with False show ?thesis by (auto simp: can_communicate_def link_up_def split: option.splits)
qed

lemma crashed_fold_link:
  assumes "set ns \<subseteq> set (pc_nodes C)"
  shows "pc_connectivity (fold (set_node_links False) ns C) (a, b) =
     (if a \<noteq> b \<and> a \<in> set (pc_nodes C) \<and> b \<in> set (pc_nodes C) \<and> (a \<in> set ns \<or> b \<in> set ns) then Some False
      else pc_connectivity C (a, b))"
  using assms
  by (induction ns arbitrary: C) (auto simp: node_links)

lemma restore_link:
  assumes "set (pc_crashed_nodes C) \<subseteq> set (pc_nodes C)"
  shows "pc_connectivity (restore_links C) (a, b) =
     (if a \<noteq> b \<and> a \<in> set (pc_nodes C) \<and> b \<in> set (pc_nodes C) \<and> (a \<in> set (pc_crashed_nodes C) \<or> b \<in> set (pc_crashed_nodes C))
        then Some False
      else if cut_off C a b then Some False
      else if a \<in> set (pc_nodes C) \<and> b \<in> set (pc_nodes C) \<and> a \<noteq> b then Some True
      else pc_connectivity C (a, b))"
  using assms by (simp add: restore_links_def crashed_fold_link reapply_link initialize_link)

text \<open>A restored matrix forgets the one-way blocks, whatever the partitions have become.\<close>

lemma restore_inv:
  assumes "pc_inv (C, B)" and "map fst ps = map fst (pc_partitions C)"
  shows "pc_inv (restore_links (C\<lparr>pc_partitions := ps\<rparr>), {})"
  using assms unfolding pc_inv_def Let_def by (simp add: restore_link keys_ok_def)

definition due :: "(string \<Rightarrow> time) \<Rightarrow> partition_coordinator \<Rightarrow> string \<Rightarrow> bool" where
  "due clock C pid = (case map_of (pc_partitions C) pid of None \<Rightarrow> False | Some p \<Rightarrow> should_heal p (clock pid))"

definition auto_heal_one :: "(string \<Rightarrow> time) \<Rightarrow> string \<Rightarrow> partition_coordinator \<Rightarrow> partition_coordinator" where
  "auto_heal_one clock pid C = (if due clock C pid then fst (heal_partition C (Some pid)) else C)"

lemma auto_heal_pass_one: "auto_heal_pass clock C = fold (auto_heal_one clock) (map fst (pc_partitions C)) C"
  unfolding auto_heal_pass_def
  by (rule arg_cong2 [where f = "\<lambda>f (x :: partition_coordinator). fold f (map fst (pc_partitions C)) x"])
    (auto simp: auto_heal_one_def due_def fun_eq_iff split: option.splits)

lemma tick_heals_due:
  assumes "dict_wf (pc_partitions C)"
  shows "tick_heals clock C \<longleftrightarrow> list_ex (due clock C) (map fst (pc_partitions C))"
proof -
  have "due clock C k = should_heal p (clock k)" if "(k, p) \<in> set (pc_partitions C)" for k p
    using that assms by (simp add: due_def)
  then show ?thesis
    by (force simp: tick_heals_def list_ex_iff)
qed

lemma heal_partition_inv:
  assumes "pc_inv (C, B)"
  shows "pc_inv (fst (heal_partition C pid), if snd (heal_partition C pid) = Inr () then {} else B)"
proof -
  have "map fst (map (\<lambda>(k, p). (k, heal p)) (pc_partitions C)) = map fst (pc_partitions C)" by auto
  note all = restore_inv [OF assms this]
  have one: "pc_inv (restore_links (C\<lparr>pc_partitions := dict_set k p (pc_partitions C)\<rparr>), {})"
    if "map_of (pc_partitions C) k = Some q" for k p q
    by (rule restore_inv [OF assms]) (use that in \<open>auto simp: update_keys map_of_eq_None_iff [symmetric]\<close>)
  show ?thesis
    using assms all one by (auto simp: heal_partition_def Let_def split: option.splits)
qed

lemma heal_partition_partitions:
  "map_of (pc_partitions (fst (heal_partition C (Some pid)))) pid' =
     (if pid = [] then map_option heal (map_of (pc_partitions C) pid')
      else if pid' = pid then map_option heal (map_of (pc_partitions C) pid)
      else map_of (pc_partitions C) pid')"
  by (auto simp: heal_partition_def Let_def map_of_map update_conv' split: option.splits)

lemma auto_heal_one_facts:
  assumes "keys_ok C"
  shows "due clock (auto_heal_one clock k C) k' = (if k' = k then False else due clock C k')"
proof (cases "due clock C k")
  case True
  then obtain p where "map_of (pc_partitions C) k = Some p" "should_heal p (clock k)"
    by (auto simp: due_def split: option.splits)
  moreover from this(1) keys_ok_Nil [OF assms] have "k \<noteq> []" by auto
  ultimately show ?thesis
    using True by (simp add: auto_heal_one_def due_def heal_partition_partitions should_heal_def heal_def)
qed (simp add: auto_heal_one_def)

lemma pc_inv_keys: "pc_inv (C, B) \<Longrightarrow> keys_ok C"
  by (simp add: pc_inv_def Let_def)

lemma auto_heal_one_inv:
  assumes "pc_inv (C, B)"
  shows "pc_inv (auto_heal_one clock k C, if due clock C k then {} else B)"
proof (cases "due clock C k")
  case True
  then obtain p where "map_of (pc_partitions C) k = Some p"
    by (auto simp: due_def split: option.splits)
  then have "snd (heal_partition C (Some k)) = Inr ()" by (simp add: heal_partition_def Let_def)
  with True heal_partition_inv [OF assms, of "Some k"] show ?thesis
    by (simp add: auto_heal_one_def)
qed (simp add: auto_heal_one_def assms)

lemma auto_heal_fold_inv:
  assumes "pc_inv (C, B)" and "distinct ks"
  shows "pc_inv (fold (auto_heal_one clock) ks C, if list_ex (due clock C) ks then {} else B)"
  using assms
proof (induction ks arbitrary: C B)
  case (Cons k ks)
  have "list_ex (due clock (auto_heal_one clock k C)) ks = list_ex (due clock C) ks"
    using Cons.prems by (intro list_ex_cong refl) (auto simp: auto_heal_one_facts [OF pc_inv_keys])
  with Cons.IH [OF auto_heal_one_inv [OF Cons.prems(1), of clock k]] Cons.prems(2) show ?case
    by (auto split: if_splits)
qed simp

lemma auto_heal_pass_inv:
  assumes "pc_inv (C, B)"
  shows "pc_inv (auto_heal_pass clock C, if tick_heals clock C then {} else B)"
  using auto_heal_fold_inv [OF assms keys_ok_wf [OF pc_inv_keys [OF assms]]] pc_inv_keys [OF assms]
  by (simp add: auto_heal_pass_one tick_heals_due keys_ok_wf)

lemma set_node_link_inv:
  assumes "pc_inv (C, B)" and "node \<in> set (pc_nodes C)"
  shows "pc_inv (set_node_links False node (C\<lparr>pc_crashed_nodes := List.insert node (pc_crashed_nodes C)\<rparr>), B)"
  using assms unfolding pc_inv_def Let_def by (auto simp: node_links keys_ok_def cut_off_def get_active_partitions_def)

lemma crash_node_inv: "pc_inv (C, B) \<Longrightarrow> pc_inv (fst (crash_node C node), B)"
  using set_node_link_inv by (simp add: crash_node_def)

lemma recover_node_inv:
  assumes "pc_inv (C, B)"
  shows "pc_inv (recover_node C node, if node \<in> set (pc_crashed_nodes C) then {(a, b) \<in> B. a \<noteq> node \<and> b \<noteq> node} else B)"
proof (cases "node \<in> set (pc_crashed_nodes C)")
  case True
  let ?C = "C\<lparr>pc_crashed_nodes := remove1 node (pc_crashed_nodes C)\<rparr>"
  have frame: "pc_nodes (recover_node C node) = pc_nodes C" "pc_crashed_nodes (recover_node C node) = remove1 node (pc_crashed_nodes C)"
    "keys_ok (recover_node C node) = keys_ok C" "\<And>a b. cut_off (recover_node C node) a b = cut_off C a b"
    using True by (auto simp: recover_node_def keys_ok_def) (simp_all add: cut_off_def get_active_partitions_def)
  have link: "pc_connectivity (recover_node C node) (a, b) =
      (if cut_off C a b then Some False
       else if a \<noteq> b \<and> (a = node \<and> b \<in> set (pc_nodes C) \<or> b = node \<and> a \<in> set (pc_nodes C)) then Some True
       else pc_connectivity C (a, b))" for a b
    using True by (auto simp: recover_node_def reapply_link node_links cut_off_def get_active_partitions_def)
  have node: "node \<in> set (pc_nodes C)" using assms True by (auto simp: pc_inv_def Let_def)
  show ?thesis
    using assms True node unfolding pc_inv_def Let_def fst_conv snd_conv frame link by (auto split: if_splits)
qed (simp add: recover_node_def assms)

lemma block_inv: "pc_inv (C, B) \<Longrightarrow> pc_inv (asymmetric_partition C link, insert link B)"
  unfolding pc_inv_def Let_def
  by (auto simp: asymmetric_partition_def keys_ok_def cut_off_def get_active_partitions_def)

lemma create_partition_inv:
  assumes "pc_inv (C, B)"
  shows "pc_inv (fst (create_partition C groups duration auto_heal now), B)"
proof (cases "validate_groups (pc_nodes C) [] (concat groups)")
  case (Inr u)
  let ?D = "fst (create_partition C groups duration auto_heal now)"
  have fresh: "map_of (pc_partitions C) (partition_key (Suc (pc_counter C))) = None"
    using keys_ok_fresh [OF pc_inv_keys [OF assms]] .
  have frame: "pc_nodes ?D = pc_nodes C" "pc_crashed_nodes ?D = pc_crashed_nodes C"
    using Inr by (simp_all add: create_partition_def Let_def)
  have keys: "keys_ok ?D"
    using pc_inv_keys [OF assms] fresh Inr
    by (auto simp: create_partition_def Let_def keys_ok_def update_keys map_of_eq_None_iff)
  have cut: "cut_off ?D a b \<longleftrightarrow> separates groups a b \<or> cut_off C a b" for a b
  proof -
    have "set (dict_set k p ps) = insert (k, p) (set ps)" if "map_of ps k = None" for k and p :: partition and ps
      using that by (induction ps) (auto split: if_splits)
    from this [OF fresh] show ?thesis
      using Inr by (auto simp: create_partition_def Let_def cut_off_def get_active_partitions_def list_ex_iff pt_is_active_def)
  qed
  have link: "pc_connectivity ?D (a, b) = (if separates groups a b then Some False else pc_connectivity C (a, b))" for a b
    using Inr by (simp add: create_partition_def Let_def apply_link)
  show ?thesis
    using assms keys unfolding pc_inv_def Let_def fst_conv snd_conv frame link cut by auto
qed (simp add: create_partition_def assms)

lemma pc_inv_new: "pc_inv (pc_new nodes, {})"
  by (auto simp: pc_inv_def Let_def pc_new_def initialize_link keys_ok_def cut_off_def get_active_partitions_def)

lemma pc_step_inv: "pc_inv S \<Longrightarrow> pc_inv (pc_step S x)"
  using create_partition_inv heal_partition_inv crash_node_inv recover_node_inv auto_heal_pass_inv block_inv
  by (cases S; cases x) (simp_all add: pc_step_def)

lemma pc_run_inv: "pc_inv (pc_run nodes ops)"
  by (induction ops rule: rev_induct) (simp_all add: pc_run_def pc_inv_new pc_step_inv)

section \<open>The properties\<close>

text \<open>
  C34. In every run of the coordinator (partitions created, healed by hand or by the background
  thread, nodes crashed and recovered, links blocked one way, in any order) two nodes can
  communicate exactly if the abstract network has the link: they are different nodes of the
  cluster, both running, no active partition has them in different groups, and the direction was
  not blocked since the last operation that restored the link. \<open>get_reachable_nodes\<close> gives the nodes
  with such a link.
\<close>

theorem partition_matrix_exact:
  "(can_communicate (fst (pc_run nodes ops)) a b \<longleftrightarrow> link_up (fst (pc_run nodes ops)) (snd (pc_run nodes ops)) a b) \<and>
   get_reachable_nodes (fst (pc_run nodes ops)) a =
     {b. link_up (fst (pc_run nodes ops)) (snd (pc_run nodes ops)) a b}"
proof -
  have inv: "pc_inv (fst (pc_run nodes ops), snd (pc_run nodes ops))" by (simp add: pc_run_inv)
  show ?thesis
    by (auto simp: can_communicate_iff [OF inv] get_reachable_nodes_def link_up_def)
qed

lemma create_fields:
  "pc_nodes (fst (create_partition C groups duration auto_heal now)) = pc_nodes C"
  "pc_crashed_nodes (fst (create_partition C groups duration auto_heal now)) = pc_crashed_nodes C"
  by (auto simp: create_partition_def Let_def split: sum.splits)

text \<open>The background pass heals exactly the partitions whose time has come.\<close>

lemma auto_heal_one_partitions:
  assumes "keys_ok C"
  shows "map_of (pc_partitions (auto_heal_one clock k C)) pid =
     (if pid = k \<and> due clock C k then map_option heal (map_of (pc_partitions C) pid) else map_of (pc_partitions C) pid)"
proof -
  have "k \<noteq> []" if "due clock C k" using that keys_ok_Nil [OF assms] by (auto simp: due_def)
  then show ?thesis by (simp add: auto_heal_one_def heal_partition_partitions)
qed

lemma heal_partition_keys:
  "map fst (pc_partitions (fst (heal_partition C pid))) = map fst (pc_partitions C)"
  "pc_counter (fst (heal_partition C pid)) = pc_counter C"
proof -
  have set: "map fst (dict_set k v d) = map fst d" if "map_of d k = Some w" for k and v w :: partition and d
    using that by (metis map_of_eq_None_iff option.distinct(1) set_map update_keys)
  have all: "map fst (map (\<lambda>(k, p). (k, f p)) d) = map fst d" for f :: "partition \<Rightarrow> partition" and d :: "(string, partition) dict"
    by (simp add: comp_def case_prod_unfold)
  show "map fst (pc_partitions (fst (heal_partition C pid))) = map fst (pc_partitions C)"
    unfolding heal_partition_def Let_def by (auto simp: set all split: option.split)
  show "pc_counter (fst (heal_partition C pid)) = pc_counter C"
    unfolding heal_partition_def Let_def by (auto split: option.split)
qed

lemma auto_heal_one_keys: "keys_ok C \<Longrightarrow> keys_ok (auto_heal_one clock k C)"
  by (simp add: auto_heal_one_def keys_ok_def heal_partition_keys del: upt_Suc)

lemma auto_heal_fold_partitions:
  assumes "keys_ok C" and "distinct ks"
  shows "map_of (pc_partitions (fold (auto_heal_one clock) ks C)) pid =
     (if pid \<in> set ks \<and> due clock C pid then map_option heal (map_of (pc_partitions C) pid) else map_of (pc_partitions C) pid)"
  using assms
proof (induction ks arbitrary: C)
  case (Cons k ks)
  have step: "keys_ok (auto_heal_one clock k C)" using Cons.prems by (simp add: auto_heal_one_keys)
  show ?case
    using Cons.IH [OF step] Cons.prems
    by (auto simp: auto_heal_one_partitions auto_heal_one_facts)
qed simp

lemma auto_heal_pass_partitions:
  assumes "keys_ok C"
  shows "map_of (pc_partitions (auto_heal_pass clock C)) pid =
     map_option (\<lambda>p. if should_heal p (clock pid) then heal p else p) (map_of (pc_partitions C) pid)"
proof -
  have "pid \<in> set (map fst (pc_partitions C)) \<longleftrightarrow> map_of (pc_partitions C) pid \<noteq> None"
    by (simp add: map_of_eq_None_iff)
  then show ?thesis
    using auto_heal_fold_partitions [OF assms keys_ok_wf [OF assms], of clock pid]
    by (auto simp: auto_heal_pass_one due_def split: option.splits)
qed

text \<open>The groups of the simple scenario are the consecutive pieces of the node list.\<close>

lemma py_slice_concat:
  assumes "0 \<le> i" and "list_all (\<lambda>n. 0 \<le> n) sizes" and "i + sum_list sizes \<le> int (length nodes)"
  shows "concat (partition_groups nodes i sizes) = take (nat (sum_list sizes)) (drop (nat i) nodes)"
  using assms
proof (induction sizes arbitrary: i)
  case (Cons n sizes)
  have rest: "0 \<le> sum_list sizes" using Cons.prems(2) by (auto simp: list_all_iff intro: sum_list_nonneg)
  have n: "0 \<le> n" using Cons.prems(2) by simp
  have slice: "py_slice nodes i (i + n) = take (nat n) (drop (nat i) nodes)"
    using Cons.prems n rest by (simp add: py_slice_def slice_bound_def min_def nat_add_distrib) linarith
  have "concat (partition_groups nodes (i + n) sizes) = take (nat (sum_list sizes)) (drop (nat (i + n)) nodes)"
    using Cons.prems n by (intro Cons.IH) auto
  then show ?case
    using slice n rest Cons.prems(1) by (simp add: nat_add_distrib take_add add.commute drop_drop)
qed simp

lemma validate_groups_ok:
  "set ns \<subseteq> set nodes \<Longrightarrow> distinct ns \<Longrightarrow> set ns \<inter> set seen = {} \<Longrightarrow> validate_groups nodes seen ns = Inr ()"
  by (induction ns arbitrary: seen) auto

lemma validate_groups_error:
  "validate_groups nodes seen ns = Inr () \<longleftrightarrow> set ns \<subseteq> set nodes \<and> distinct ns \<and> set ns \<inter> set seen = {}"
  by (induction ns arbitrary: seen) auto

lemma simple_partition_ok:
  assumes "distinct nodes" and "list_all (\<lambda>n. 0 \<le> n) sizes" and "sum_list sizes \<le> int (length nodes)"
  shows "\<exists>pid. snd (simple_partition (pc_new nodes) nodes sizes duration now) = Inr pid"
proof -
  have "validate_groups nodes [] (concat (partition_groups nodes 0 sizes)) = Inr ()"
    using assms by (intro validate_groups_ok) (auto simp: py_slice_concat dest: in_set_takeD)
  then show ?thesis
    using assms(1) by (simp add: simple_partition_def create_partition_def pc_new_def Let_def distinct_remdups_id)
qed

end
