(* ===== verification/Network_Proxy.thy ===== *)
theory Network_Proxy
  imports Partition_Coordinator Json
begin

text \<open>
  The rest of \<open>network-partition-tester/src\<close>: \<open>packet_dropper.py\<close>, \<open>latency_injector.py\<close>, the proxy of
  \<open>network_proxy.py\<close> that sends through both and the partition coordinator, and the recorder of
  scenarios of \<open>recorder.py\<close>. Each call of \<open>random.random()\<close> is an argument named after its place, and
  so is the clock. A message is of any type; its truth and its \<open>len\<close> are arguments of \<open>send\<close>.
\<close>

section \<open>Packet loss\<close>

record burst_loss_config =
  bl_start_time :: time
  bl_duration :: rat
  bl_loss_rate :: rat

type_synonym link = "string \<times> string"

record 'm packet_dropper =
  pd_loss_rates :: "(link, rat) dict"
  pd_conditional_drops :: "(('m \<Rightarrow> bool) \<times> rat) list"
  pd_bursts :: "(link, burst_loss_config) dict"

definition pd_new :: "'m packet_dropper" where
  "pd_new = \<lparr>pd_loss_rates = [], pd_conditional_drops = [], pd_bursts = []\<rparr>"

definition set_loss_rate :: "'m packet_dropper \<Rightarrow> link \<Rightarrow> rat \<Rightarrow> ('m packet_dropper, unit) outcome" where
  "set_loss_rate d lnk loss_rate =
     (if \<not> (0 \<le> loss_rate \<and> loss_rate \<le> 1) then (d, Inl ValueError)
      else (d\<lparr>pd_loss_rates := dict_set lnk loss_rate (pd_loss_rates d)\<rparr>, Inr ()))"

definition drop_if :: "'m packet_dropper \<Rightarrow> ('m \<Rightarrow> bool) \<Rightarrow> rat \<Rightarrow> ('m packet_dropper, unit) outcome" where
  "drop_if d condition rate =
     (if \<not> (0 \<le> rate \<and> rate \<le> 1) then (d, Inl ValueError)
      else (d\<lparr>pd_conditional_drops := pd_conditional_drops d @ [(condition, rate)]\<rparr>, Inr ()))"

definition burst_loss :: "'m packet_dropper \<Rightarrow> link \<Rightarrow> rat \<Rightarrow> rat \<Rightarrow> time \<Rightarrow> 'm packet_dropper" where
  "burst_loss d lnk burst_duration loss_rate now =
     d\<lparr>pd_bursts := dict_set lnk \<lparr>bl_start_time = now, bl_duration = burst_duration, bl_loss_rate = loss_rate\<rparr> (pd_bursts d)\<rparr>"

text \<open>The loop over the conditional rules; \<open>us\<close> are the draws, one for each rule that applies.\<close>

fun conditional_drop :: "(('m \<Rightarrow> bool) \<times> rat) list \<Rightarrow> 'm \<Rightarrow> (nat \<Rightarrow> rat) \<Rightarrow> bool" where
  "conditional_drop [] message us = False"
| "conditional_drop ((condition, rate) # rules) message us =
     (if condition message
      then if us 0 < rate then True else conditional_drop rules message (\<lambda>n. us (Suc n))
      else conditional_drop rules message us)"

definition loss_and_rules :: "'m packet_dropper \<Rightarrow> link \<Rightarrow> 'm option \<Rightarrow> rat \<Rightarrow> (nat \<Rightarrow> rat) \<Rightarrow> bool" where
  "loss_and_rules d lnk message u_base us =
     (let base_rate = dict_get (pd_loss_rates d) lnk 0
      in if 0 < base_rate \<and> u_base < base_rate then True
         else case message of None \<Rightarrow> False | Some m \<Rightarrow> conditional_drop (pd_conditional_drops d) m us)"

definition should_drop ::
    "'m packet_dropper \<Rightarrow> link \<Rightarrow> 'm option \<Rightarrow> time \<Rightarrow> rat \<Rightarrow> rat \<Rightarrow> (nat \<Rightarrow> rat) \<Rightarrow> 'm packet_dropper \<times> bool" where
  "should_drop d lnk message now u_burst u_base us =
     (case map_of (pd_bursts d) lnk of
        None \<Rightarrow> (d, loss_and_rules d lnk message u_base us)
      | Some burst \<Rightarrow>
          if now - bl_start_time burst \<le> bl_duration burst
          then if u_burst < bl_loss_rate burst then (d, True) else (d, loss_and_rules d lnk message u_base us)
          else let d' = d\<lparr>pd_bursts := dict_del lnk (pd_bursts d)\<rparr> in (d', loss_and_rules d' lnk message u_base us))"

section \<open>Latency\<close>

text \<open>A latency function is given the size of the message; the one of a congestion reads the clock.\<close>

record latency_config =
  lc_latency_ms :: "rat option"
  lc_jitter_ms :: rat
  lc_latency_fn :: "(time \<Rightarrow> int \<Rightarrow> rat) option"

type_synonym latency_injector = "(link, latency_config) dict"

definition add_latency ::
    "latency_injector \<Rightarrow> link \<Rightarrow> rat option \<Rightarrow> rat \<Rightarrow> (time \<Rightarrow> int \<Rightarrow> rat) option \<Rightarrow> latency_injector" where
  "add_latency L lnk latency_ms jitter_ms latency_fn =
     dict_set lnk \<lparr>lc_latency_ms = latency_ms, lc_jitter_ms = jitter_ms, lc_latency_fn = latency_fn\<rparr> L"

definition remove_latency :: "latency_injector \<Rightarrow> link \<Rightarrow> latency_injector" where
  "remove_latency L lnk = (if map_of L lnk \<noteq> None then dict_del lnk L else L)"

text \<open>\<open>random.uniform(a, b)\<close> is \<open>a + (b - a) * random()\<close>.\<close>

definition uniform :: "rat \<Rightarrow> rat \<Rightarrow> rat \<Rightarrow> rat" where
  "uniform a b u = a + (b - a) * u"

definition get_latency :: "latency_injector \<Rightarrow> link \<Rightarrow> int \<Rightarrow> time \<Rightarrow> rat \<Rightarrow> rat" where
  "get_latency L lnk message_size now u =
     (case map_of L lnk of
        None \<Rightarrow> 0
      | Some config \<Rightarrow>
          let latency_ms = (case lc_latency_fn config of
                Some f \<Rightarrow> f now message_size
              | None \<Rightarrow> (case lc_latency_ms config of None \<Rightarrow> 0 | Some l \<Rightarrow> l));
              jitter = uniform (- lc_jitter_ms config) (lc_jitter_ms config) u
          in max 0 (latency_ms + jitter) / 1000)"

text \<open>\<open>delay_message\<close> sleeps for the time that is its result.\<close>

definition delay_message :: "latency_injector \<Rightarrow> link \<Rightarrow> int \<Rightarrow> time \<Rightarrow> rat \<Rightarrow> rat" where
  "delay_message L lnk message_size now u =
     (let latency = get_latency L lnk message_size now u in if 0 < latency then latency else 0)"

definition congestion_latency :: "rat \<Rightarrow> rat \<Rightarrow> rat \<Rightarrow> time \<Rightarrow> time \<Rightarrow> int \<Rightarrow> rat" where
  "congestion_latency base_latency_ms peak_latency_ms duration start_time now msg_size =
     (let elapsed = now - start_time
      in if duration \<le> elapsed then peak_latency_ms
         else base_latency_ms + (peak_latency_ms - base_latency_ms) * (elapsed / duration))"

definition simulate_congestion ::
    "latency_injector \<Rightarrow> string list \<Rightarrow> rat \<Rightarrow> rat \<Rightarrow> rat \<Rightarrow> (link \<Rightarrow> time) \<Rightarrow> latency_injector" where
  "simulate_congestion L nodes base_latency_ms peak_latency_ms duration clock =
     fold (\<lambda>lnk L. add_latency L lnk None 0 (Some (congestion_latency base_latency_ms peak_latency_ms duration (clock lnk))))
       [(source, target). source \<leftarrow> nodes, target \<leftarrow> nodes, source \<noteq> target] L"

section \<open>The proxy\<close>

record 'm network_proxy =
  np_coordinator :: partition_coordinator
  np_latency_injector :: latency_injector
  np_packet_dropper :: "'m packet_dropper"

definition np_new :: "partition_coordinator \<Rightarrow> latency_injector option \<Rightarrow> 'm packet_dropper option \<Rightarrow> 'm network_proxy" where
  "np_new C L d =
     \<lparr>np_coordinator = C, np_latency_injector = (case L of None \<Rightarrow> [] | Some l \<Rightarrow> l),
      np_packet_dropper = (case d of None \<Rightarrow> pd_new | Some x \<Rightarrow> x)\<rparr>"

text \<open>The draws of one \<open>send\<close>, in the order in which the code makes those it needs.\<close>

record draws =
  u_burst :: rat
  u_base :: rat
  u_rules :: "nat \<Rightarrow> rat"
  u_jitter :: rat

definition message_size :: "('m \<Rightarrow> bool) \<Rightarrow> ('m \<Rightarrow> int option) \<Rightarrow> 'm option \<Rightarrow> int" where
  "message_size truth len message =
     (case message of
        None \<Rightarrow> 0
      | Some m \<Rightarrow> if truth m then (case len m of None \<Rightarrow> 0 | Some n \<Rightarrow> n) else 0)"

text \<open>The answer of \<open>send\<close> and how long it slept.\<close>

definition send ::
    "('m \<Rightarrow> bool) \<Rightarrow> ('m \<Rightarrow> int option) \<Rightarrow> 'm network_proxy \<Rightarrow> string \<Rightarrow> string \<Rightarrow> 'm option \<Rightarrow> time \<Rightarrow> draws \<Rightarrow>
     'm network_proxy \<times> bool \<times> rat" where
  "send truth len P source target message now u =
     (if \<not> can_communicate (np_coordinator P) source target then (P, False, 0)
      else case should_drop (np_packet_dropper P) (source, target) message now (u_burst u) (u_base u) (u_rules u) of
             (d, dropped) \<Rightarrow>
               let P' = P\<lparr>np_packet_dropper := d\<rparr>
               in if dropped then (P', False, 0)
                  else (P', True, delay_message (np_latency_injector P) (source, target) (message_size truth len message) now (u_jitter u)))"

definition np_reset :: "'m network_proxy \<Rightarrow> 'm network_proxy" where
  "np_reset P =
     (let C = fst (heal_partition (np_coordinator P) None);
          C' = fold (\<lambda>node C. recover_node C node) (pc_crashed_nodes C) C
      in P\<lparr>np_coordinator := C', np_latency_injector := [], np_packet_dropper := pd_new\<rparr>)"

section \<open>What a send delivers\<close>

lemma conditional_drop_iff_first:
  "conditional_drop rules m us \<Longrightarrow> \<exists>condition rate n. (condition, rate) \<in> set rules \<and> condition m \<and> us n < rate"
  by (induction rules m us rule: conditional_drop.induct) (auto split: if_splits)

lemma send_result:
  "fst (snd (send truth len P a b message now u)) \<longleftrightarrow>
     can_communicate (np_coordinator P) a b \<and>
     \<not> snd (should_drop (np_packet_dropper P) (a, b) message now (u_burst u) (u_base u) (u_rules u))"
  by (auto simp: send_def Let_def split: prod.splits)

lemma send_coordinator: "np_coordinator (fst (send truth len P a b message now u)) = np_coordinator P"
  by (auto simp: send_def Let_def split: prod.splits)

lemma get_latency_nonneg: "0 \<le> get_latency L lnk n now u"
  by (auto simp: get_latency_def Let_def split: option.splits)

lemma fresh_dropper_keeps: "\<not> snd (should_drop pd_new lnk message now u_b u_l us)"
  by (cases message) (auto simp: should_drop_def loss_and_rules_def pd_new_def)

lemma pd_new_unchanged: "fst (should_drop pd_new lnk message now u_b u_l us) = pd_new"
  by (simp add: should_drop_def pd_new_def)

text \<open>A loss rate of one drops every message and a rate of zero none, since \<open>random()\<close> is in \<open>[0, 1)\<close>.\<close>

lemma certain_loss:
  assumes "map_of (pd_loss_rates d) lnk = Some 1" and "u < 1"
  shows "loss_and_rules d lnk message u us"
  using assms by (simp add: loss_and_rules_def dict_get_def)

lemma no_loss:
  assumes "map_of (pd_bursts d) lnk = None" and "dict_get (pd_loss_rates d) lnk 0 = 0" and "pd_conditional_drops d = []"
  shows "\<not> snd (should_drop d lnk message now u_b u_l us)"
  using assms by (cases message) (auto simp: should_drop_def loss_and_rules_def)

lemma recover_fields:
  "pc_nodes (recover_node C node) = pc_nodes C" "pc_crashed_nodes (recover_node C node) = remove1 node (pc_crashed_nodes C)"
  "get_active_partitions (recover_node C node) = get_active_partitions C"
  by (auto simp: recover_node_def remove1_idem) (simp_all add: get_active_partitions_def)

lemma recover_all:
  assumes "pc_inv (C, {})"
  shows "pc_inv (fold (\<lambda>node C. recover_node C node) ns C, {}) \<and>
    pc_nodes (fold (\<lambda>node C. recover_node C node) ns C) = pc_nodes C \<and>
    get_active_partitions (fold (\<lambda>node C. recover_node C node) ns C) = get_active_partitions C \<and>
    pc_crashed_nodes (fold (\<lambda>node C. recover_node C node) ns C) = fold remove1 ns (pc_crashed_nodes C)"
  using assms
proof (induction ns arbitrary: C)
  case (Cons n ns)
  have "{(a, b) \<in> {}. a \<noteq> n \<and> b \<noteq> n} = ({} :: (string \<times> string) set)" by auto
  with recover_node_inv [OF Cons.prems, of n] have "pc_inv (recover_node C n, {})" by (simp split: if_splits)
  from Cons.IH [OF this] show ?case by (simp add: recover_fields)
qed simp

lemma fold_remove1_self: "fold remove1 xs xs = []"
  by (induction xs) simp_all

lemma heal_all_fields:
  "pc_nodes (fst (heal_partition C None)) = pc_nodes C" "get_active_partitions (fst (heal_partition C None)) = []"
  by (simp_all add: heal_partition_def)
    (auto simp: get_active_partitions_def pt_is_active_def heal_def filter_empty_conv)

text \<open>
  C35. Whatever happened to the network before, a message is delivered exactly if the abstract
  network has the link and no loss rule hits; and \<open>reset\<close> brings everything back: after it every
  message between two different nodes of the cluster is delivered, at once, whatever the draws, and
  no other message is.
\<close>

theorem proxy_delivery:
  assumes "np_coordinator P = fst (pc_run nodes ops)"
  shows "(fst (snd (send truth len P a b message now u)) \<longleftrightarrow>
       link_up (np_coordinator P) (snd (pc_run nodes ops)) a b \<and>
       \<not> snd (should_drop (np_packet_dropper P) (a, b) message now (u_burst u) (u_base u) (u_rules u))) \<and>
    (fst (snd (send truth len (np_reset P) a b message now u)) \<longleftrightarrow> a \<noteq> b \<and> {a, b} \<subseteq> set (pc_nodes (np_coordinator P))) \<and>
    snd (snd (send truth len (np_reset P) a b message now u)) = 0"
proof -
  have inv: "pc_inv (np_coordinator P, snd (pc_run nodes ops))" using assms pc_run_inv [of nodes ops] by simp
  let ?H = "fst (heal_partition (np_coordinator P) None)"
  have "pc_inv (?H, {})"
    using heal_partition_inv [OF inv, of None] by (simp add: heal_partition_def Let_def)
  from recover_all [OF this, of "pc_crashed_nodes ?H"]
  have reset: "pc_inv (np_coordinator (np_reset P), {})" "pc_nodes (np_coordinator (np_reset P)) = pc_nodes (np_coordinator P)"
    "get_active_partitions (np_coordinator (np_reset P)) = []" "pc_crashed_nodes (np_coordinator (np_reset P)) = []"
    by (simp_all add: np_reset_def Let_def heal_all_fields fold_remove1_self)
  have cleared: "np_packet_dropper (np_reset P) = pd_new" "np_latency_injector (np_reset P) = []"
    by (simp_all add: np_reset_def Let_def)
  have "link_up (np_coordinator (np_reset P)) {} a b \<longleftrightarrow> a \<noteq> b \<and> {a, b} \<subseteq> set (pc_nodes (np_coordinator P))"
    by (auto simp: link_up_def reset cut_off_def)
  moreover have "snd (snd (send truth len (np_reset P) a b message now u)) = 0"
    by (simp add: send_def Let_def cleared delay_message_def get_latency_def split: prod.split)
  ultimately show ?thesis
    by (simp add: send_result can_communicate_iff [OF inv] can_communicate_iff [OF reset(1)] cleared fresh_dropper_keeps)
qed

theorem proxy_delivery_witness:
  "\<exists>P :: string network_proxy.
     np_coordinator P = fst (pc_run [''a'', ''b'', ''c''] [Create [[''a''], [''b'', ''c'']] None False 0, Crash ''c'']) \<and>
     \<not> fst (snd (send (\<lambda>m. m \<noteq> []) (\<lambda>m. Some (int (length m))) P ''a'' ''b'' (Some ''x'') 1 \<lparr>u_burst = 0, u_base = 0, u_rules = (\<lambda>_. 0), u_jitter = 0\<rparr>)) \<and>
     fst (snd (send (\<lambda>m. m \<noteq> []) (\<lambda>m. Some (int (length m))) (np_reset P) ''a'' ''c'' (Some ''x'') 1 \<lparr>u_burst = 0, u_base = 0, u_rules = (\<lambda>_. 0), u_jitter = 0\<rparr>))"
proof -
  let ?ops = "[Create [[''a''], [''b'', ''c'']] None False 0, Crash ''c'']"
  let ?P = "np_new (fst (pc_run [''a'', ''b'', ''c''] ?ops)) None None :: string network_proxy"
  let ?u = "\<lparr>u_burst = 0, u_base = 0, u_rules = (\<lambda>_. 0), u_jitter = 0\<rparr> :: draws"
  have C: "np_coordinator ?P = fst (pc_run [''a'', ''b'', ''c''] ?ops)" by (simp add: np_new_def)
  note facts = proxy_delivery [OF C, of "\<lambda>m. m \<noteq> []" "\<lambda>m. Some (int (length m))" _ _ "Some ''x''" 1 ?u]
  have cut: "cut_off (fst (pc_run [''a'', ''b'', ''c''] ?ops)) ''a'' ''b''" by code_simp
  have nodes: "pc_nodes (fst (pc_run [''a'', ''b'', ''c''] ?ops)) = [''a'', ''b'', ''c'']" by code_simp
  have "\<not> fst (snd (send (\<lambda>m. m \<noteq> []) (\<lambda>m. Some (int (length m))) ?P ''a'' ''b'' (Some ''x'') 1 ?u))"
    using facts [of "''a''" "''b''"] cut by (simp add: link_up_def C)
  moreover have "fst (snd (send (\<lambda>m. m \<noteq> []) (\<lambda>m. Some (int (length m))) (np_reset ?P) ''a'' ''c'' (Some ''x'') 1 ?u))"
    using facts [of "''a''" "''c''"] nodes by (simp add: C)
  ultimately show ?thesis using C by blast
qed

section \<open>Latency under congestion\<close>

lemma get_latency_no_jitter:
  assumes "map_of L lnk = Some \<lparr>lc_latency_ms = l, lc_jitter_ms = 0, lc_latency_fn = Some f\<rparr>" and "0 \<le> f now n"
  shows "get_latency L lnk n now u = f now n / 1000"
  using assms by (simp add: get_latency_def Let_def uniform_def)

text \<open>
  The latency of a congested link climbs from its base to its peak, stays between the two and never
  comes back, since nothing ends the congestion.
\<close>

lemma congestion_ramp:
  assumes "0 \<le> base" and "base \<le> peak" and "0 < duration" and "start \<le> now" and "now \<le> later"
  shows "base \<le> congestion_latency base peak duration start now n"
    and "congestion_latency base peak duration start now n \<le> congestion_latency base peak duration start later n'"
    and "congestion_latency base peak duration start later n' \<le> peak"
    and "start + duration \<le> now \<Longrightarrow> congestion_latency base peak duration start now n = peak"
proof -
  have frac: "0 \<le> (t - start) / duration" "(t - start) / duration < 1" if "start \<le> t" "\<not> duration \<le> t - start" for t
    using that assms(3) by (simp_all add: divide_simps)
  have below: "(peak - base) * ((t - start) / duration) \<le> peak - base" if "start \<le> t" "\<not> duration \<le> t - start" for t
    using frac [OF that] assms(2) mult_left_mono [of "(t - start) / duration" 1 "peak - base"] by simp
  have mono: "(peak - base) * ((now - start) / duration) \<le> (peak - base) * ((later - start) / duration)"
    using assms by (intro mult_left_mono divide_right_mono) auto
  show "base \<le> congestion_latency base peak duration start now n"
    using assms frac(1) [OF assms(4)] by (auto simp: congestion_latency_def Let_def intro!: mult_nonneg_nonneg)
  show "congestion_latency base peak duration start now n \<le> congestion_latency base peak duration start later n'"
    using assms below [OF assms(4)] mono by (auto simp: congestion_latency_def Let_def not_le)
  show "congestion_latency base peak duration start later n' \<le> peak"
    using assms below [of later] by (auto simp: congestion_latency_def Let_def)
  show "start + duration \<le> now \<Longrightarrow> congestion_latency base peak duration start now n = peak"
    by (simp add: congestion_latency_def Let_def)
qed

section \<open>Recording and replaying\<close>

record recorded_event =
  re_timestamp :: rat
  re_type :: string
  re_params :: "(string, json) dict"

record scenario_recorder =
  rec_events :: "recorded_event list"
  rec_start_time :: time
  rec_recording :: bool

definition rec_new :: scenario_recorder where
  "rec_new = \<lparr>rec_events = [], rec_start_time = 0, rec_recording = False\<rparr>"

definition rec_start :: "scenario_recorder \<Rightarrow> time \<Rightarrow> scenario_recorder" where
  "rec_start r now = r\<lparr>rec_events := [], rec_start_time := now, rec_recording := True\<rparr>"

definition rec_stop :: "scenario_recorder \<Rightarrow> scenario_recorder" where
  "rec_stop r = r\<lparr>rec_recording := False\<rparr>"

definition rec_record :: "scenario_recorder \<Rightarrow> string \<Rightarrow> (string, json) dict \<Rightarrow> time \<Rightarrow> scenario_recorder" where
  "rec_record r event_type params now =
     (if \<not> rec_recording r then r
      else r\<lparr>rec_events := rec_events r @
               [\<lparr>re_timestamp = now - rec_start_time r, re_type = event_type, re_params = params\<rparr>]\<rparr>)"

text \<open>The document that \<open>save\<close> gives to \<open>yaml.dump\<close>, and the path it writes to.\<close>

definition event_asdict :: "recorded_event \<Rightarrow> json" where
  "event_asdict e = JObj [(''timestamp'', JNum (re_timestamp e)), (''type'', JStr (re_type e)), (''params'', JObj (re_params e))]"

definition rec_document :: "scenario_recorder \<Rightarrow> json" where
  "rec_document r = JObj [(''version'', JStr ''1.0''), (''events'', JList (map event_asdict (rec_events r)))]"

definition ends_with :: "string \<Rightarrow> string \<Rightarrow> bool" where
  "ends_with s suffix \<longleftrightarrow> length suffix \<le> length s \<and> drop (length s - length suffix) s = suffix"

definition yaml_path :: "string \<Rightarrow> string" where
  "yaml_path filepath = (if \<not> ends_with filepath ''.yaml'' \<and> \<not> ends_with filepath ''.yml'' then filepath @ ''.yaml'' else filepath)"

text \<open>
  \<open>load\<close> keeps the events it had if reading fails: the argument is what \<open>yaml.safe_load\<close> gave, Inl for
  an exception. A document without the field has no events; one whose field is not a list is not
  modelled further.
\<close>

definition replayer_load :: "json list \<Rightarrow> json result \<Rightarrow> json list" where
  "replayer_load events loaded =
     (case loaded of
        Inr (JObj members) \<Rightarrow>
          (case map_of members ''events'' of None \<Rightarrow> [] | Some (JList es) \<Rightarrow> es | Some _ \<Rightarrow> events)
      | _ \<Rightarrow> events)"

text \<open>
  \<open>coordinator.create_partition(**params)\<close> and the like: a parameter the method does not have, or a
  required one that is missing, is a \<open>TypeError\<close>; so is, in the model, a value of another type.
\<close>

definition kwargs_ok :: "string list \<Rightarrow> string list \<Rightarrow> (string, json) dict \<Rightarrow> bool" where
  "kwargs_ok required optional params \<longleftrightarrow>
     list_all (\<lambda>(k, _). k \<in> set required \<or> k \<in> set optional) params \<and> list_all (\<lambda>k. map_of params k \<noteq> None) required"

datatype pc_call = CallCreate "string list list" "rat option" bool | CallHeal "string option" | CallCrash string | CallRecover string

definition bind_call :: "string \<Rightarrow> (string, json) dict \<Rightarrow> pc_call option result" where
  "bind_call etype params =
     (if etype = ''create_partition'' then
        (if kwargs_ok [''groups''] [''duration'', ''auto_heal''] params
         then bind_result (json_list (json_list json_str) (dict_get params ''groups'' JNull)) (\<lambda>groups.
              bind_result (json_opt json_num (dict_get params ''duration'' JNull)) (\<lambda>duration.
              bind_result (json_bool (dict_get params ''auto_heal'' (JBool False))) (\<lambda>auto_heal.
              Inr (Some (CallCreate groups duration auto_heal)))))
         else Inl TypeError)
      else if etype = ''heal_partition'' then
        (if kwargs_ok [] [''partition_id''] params
         then bind_result (json_opt json_str (dict_get params ''partition_id'' JNull)) (\<lambda>pid. Inr (Some (CallHeal pid)))
         else Inl TypeError)
      else if etype = ''crash_node'' then
        (if kwargs_ok [''node_id''] [] params
         then bind_result (json_str (dict_get params ''node_id'' JNull)) (\<lambda>n. Inr (Some (CallCrash n)))
         else Inl TypeError)
      else if etype = ''recover_node'' then
        (if kwargs_ok [''node_id''] [] params
         then bind_result (json_str (dict_get params ''node_id'' JNull)) (\<lambda>n. Inr (Some (CallRecover n)))
         else Inl TypeError)
      else Inr None)"

fun run_call :: "partition_coordinator \<Rightarrow> pc_call \<Rightarrow> time \<Rightarrow> (partition_coordinator, unit) outcome" where
  "run_call C (CallCreate groups duration auto_heal) now =
     (case create_partition C groups duration auto_heal now of (C', Inl e) \<Rightarrow> (C', Inl e) | (C', Inr _) \<Rightarrow> (C', Inr ()))"
| "run_call C (CallHeal pid) now = heal_partition C pid"
| "run_call C (CallCrash node) now = crash_node C node"
| "run_call C (CallRecover node) now = (recover_node C node, Inr ())"

text \<open>\<open>_execute_event\<close>; without a coordinator it does nothing.\<close>

definition execute_event :: "partition_coordinator option \<Rightarrow> json \<Rightarrow> time \<Rightarrow> (partition_coordinator option, unit) outcome" where
  "execute_event coord event now =
     (case bind_result (json_field event ''type'') (\<lambda>t. bind_result (json_str t) (\<lambda>etype.
            bind_result (json_field event ''params'') (\<lambda>p. Inr (etype, p)))) of
        Inl e \<Rightarrow> (coord, Inl e)
      | Inr (etype, p) \<Rightarrow>
          (case coord of
             None \<Rightarrow> (None, Inr ())
           | Some C \<Rightarrow>
               (case (case p of JObj params \<Rightarrow> bind_call etype params | _ \<Rightarrow> Inl TypeError) of
                  Inl e \<Rightarrow> (Some C, Inl e)
                | Inr None \<Rightarrow> (Some C, Inr ())
                | Inr (Some call) \<Rightarrow> (case run_call C call now of (C', res) \<Rightarrow> (Some C', res)))))"

text \<open>The loop of \<open>replay\<close>; an exception ends it. \<open>clock n\<close> is when the event at place n is executed.\<close>

fun replay_events :: "partition_coordinator option \<Rightarrow> json list \<Rightarrow> (nat \<Rightarrow> time) \<Rightarrow> (partition_coordinator option, unit) outcome" where
  "replay_events coord [] clock = (coord, Inr ())"
| "replay_events coord (event # events) clock =
     (case execute_event coord event (clock 0) of
        (coord', Inl e) \<Rightarrow> (coord', Inl e)
      | (coord', Inr _) \<Rightarrow> replay_events coord' events (\<lambda>n. clock (Suc n)))"

definition replay :: "partition_coordinator option \<Rightarrow> json list \<Rightarrow> (nat \<Rightarrow> time) \<Rightarrow> (partition_coordinator option, unit) outcome" where
  "replay coord events clock =
     (if events = [] then (coord, Inr ())
      else case all_results (\<lambda>e. bind_result (json_field e ''timestamp'') json_num) events of
             Inl e \<Rightarrow> (coord, Inl e)
           | Inr keys \<Rightarrow> replay_events coord (map snd (sort_key fst (zip keys events))) clock)"

text \<open>What a test records beside each call it makes.\<close>

fun call_type :: "pc_call \<Rightarrow> string" where
  "call_type (CallCreate groups duration auto_heal) = ''create_partition''"
| "call_type (CallHeal pid) = ''heal_partition''"
| "call_type (CallCrash node) = ''crash_node''"
| "call_type (CallRecover node) = ''recover_node''"

fun call_params :: "pc_call \<Rightarrow> (string, json) dict" where
  "call_params (CallCreate groups duration auto_heal) =
     [(''groups'', JList (map (\<lambda>g. JList (map JStr g)) groups)),
      (''duration'', case duration of None \<Rightarrow> JNull | Some d \<Rightarrow> JNum d), (''auto_heal'', JBool auto_heal)]"
| "call_params (CallHeal pid) = [(''partition_id'', case pid of None \<Rightarrow> JNull | Some s \<Rightarrow> JStr s)]"
| "call_params (CallCrash node) = [(''node_id'', JStr node)]"
| "call_params (CallRecover node) = [(''node_id'', JStr node)]"

fun run_calls :: "partition_coordinator \<Rightarrow> pc_call list \<Rightarrow> (nat \<Rightarrow> time) \<Rightarrow> (partition_coordinator, unit) outcome" where
  "run_calls C [] clock = (C, Inr ())"
| "run_calls C (call # calls) clock =
     (case run_call C call (clock 0) of
        (C', Inl e) \<Rightarrow> (C', Inl e)
      | (C', Inr _) \<Rightarrow> run_calls C' calls (\<lambda>n. clock (Suc n)))"

definition record_calls :: "scenario_recorder \<Rightarrow> (pc_call \<times> time) list \<Rightarrow> scenario_recorder" where
  "record_calls r calls = fold (\<lambda>(call, now) r. rec_record r (call_type call) (call_params call) now) calls r"

lemma bind_call_params: "bind_call (call_type call) (call_params call) = Inr (Some call)"
proof (cases call)
  case (CallCreate groups duration auto_heal)
  have "all_results (json_list json_str) (map (\<lambda>g. JList (map JStr g)) groups) = Inr groups"
    using all_results_map [of "json_list json_str" "\<lambda>g. JList (map JStr g)" "\<lambda>g. g"] all_results_map [of json_str JStr "\<lambda>s. s"]
    by simp
  then show ?thesis
    by (cases duration) (simp_all add: CallCreate bind_call_def kwargs_ok_def dict_get_def)
next
  case (CallHeal pid)
  then show ?thesis by (cases pid) (simp_all add: bind_call_def kwargs_ok_def dict_get_def)
qed (simp_all add: bind_call_def kwargs_ok_def dict_get_def)

definition call_event :: "time \<Rightarrow> pc_call \<times> time \<Rightarrow> recorded_event" where
  "call_event start = (\<lambda>(call, now). \<lparr>re_timestamp = now - start, re_type = call_type call, re_params = call_params call\<rparr>)"

lemma record_calls_events:
  assumes "rec_recording r"
  shows "record_calls r calls = r\<lparr>rec_events := rec_events r @ map (call_event (rec_start_time r)) calls\<rparr>"
  using assms
  by (induction calls arbitrary: r) (auto simp: record_calls_def rec_record_def call_event_def)

lemma execute_call_event:
  "execute_event (Some C) (event_asdict (call_event start (call, t))) now =
     (case run_call C call now of (C', res) \<Rightarrow> (Some C', res))"
  by (simp add: execute_event_def event_asdict_def call_event_def bind_call_params)

lemma replay_call_events:
  "replay_events (Some C) (map (\<lambda>c. event_asdict (call_event start c)) calls) clock =
     (case run_calls C (map fst calls) clock of (C', res) \<Rightarrow> (Some C', res))"
proof (induction calls arbitrary: C clock)
  case (Cons c calls)
  then show ?case
    by (cases c; cases "run_call C (fst c) (clock 0)") (auto simp: execute_call_event split: sum.split)
qed simp

lemma map_snd_sort_zip:
  assumes "sorted keys" and "length keys = length xs"
  shows "map snd (sort_key fst (zip keys xs)) = xs"
proof -
  have "sorted (map fst (zip keys xs))" using assms by simp
  then have "sort_key fst (zip keys xs) = zip keys xs" by (rule sort_key_id_if_sorted)
  then show ?thesis using assms(2) by simp
qed

text \<open>
  A scenario recorded while the clock does not run backwards, saved and loaded from YAML, is
  replayed on a coordinator as the recorded calls with their arguments in the order of recording, up
  to the first call that raises, whatever the time between them.
\<close>

theorem recorder_replay_roundtrip:
  assumes yaml: "safe_load (yaml_dump (rec_document r')) = Inr (rec_document r')"
    and r': "r' = rec_stop (record_calls (rec_start r start) calls)"
    and time: "sorted (map snd calls)"
  shows "replay (Some C) (replayer_load old (safe_load (yaml_dump (rec_document r')))) clock =
    (case run_calls C (map fst calls) clock of (C', res) \<Rightarrow> (Some C', res))"
proof -
  let ?events = "map (\<lambda>c. event_asdict (call_event start c)) calls"
  have "rec_events r' = map (call_event start) calls"
    by (simp add: r' rec_stop_def rec_start_def record_calls_events)
  then have load: "replayer_load old (safe_load (yaml_dump (rec_document r'))) = ?events"
    unfolding yaml by (simp add: replayer_load_def rec_document_def comp_def)
  have keys: "all_results (\<lambda>e. bind_result (json_field e ''timestamp'') json_num) ?events = Inr (map (\<lambda>c. snd c - start) calls)"
    by (rule all_results_map) (simp add: event_asdict_def call_event_def case_prod_unfold)
  have "sorted (map (\<lambda>t. t - start) (map snd calls))"
    using time by (induction calls) auto
  then have "sorted (map (\<lambda>c. snd c - start) calls)" by (simp add: comp_def)
  then show ?thesis
    unfolding load replay_def keys using replay_call_events [of C start calls clock]
    by (simp add: map_snd_sort_zip)
qed

theorem recorder_replay_roundtrip_witness:
  "snd (replay (Some (pc_new [''a'', ''b'']))
      (replayer_load [] ((Inr :: json \<Rightarrow> json result) (rec_document
        (rec_stop (record_calls (rec_start rec_new 3) [(CallCrash ''a'', 4), (CallRecover ''a'', 4)]))))) (\<lambda>n. of_nat n)) = Inr ()"
proof -
  let ?calls = "[(CallCrash ''a'', 4), (CallRecover ''a'', 4)]"
  have "snd (run_calls (pc_new [''a'', ''b'']) (map fst ?calls) (\<lambda>n. of_nat n)) = Inr ()"
    by (simp add: crash_node_def pc_new_def initialize_connectivity_def)
  then show ?thesis
    using recorder_replay_roundtrip [of Inr "\<lambda>d. d" "rec_stop (record_calls (rec_start rec_new 3) ?calls)" rec_new 3 ?calls
      "pc_new [''a'', ''b'']" "[]" "\<lambda>n. of_nat n"]
    by (simp split: prod.splits)
qed

text \<open>\<open>run_all\<close> of the assertions: the first registered one that is false raises; the others are not asked.\<close>

fun run_all :: "(string \<times> bool) list \<Rightarrow> unit result" where
  "run_all [] = Inr ()"
| "run_all ((name, holds) # assertions) = (if \<not> holds then Inl AssertionError else run_all assertions)"

lemma run_all_iff: "run_all assertions = Inr () \<longleftrightarrow> list_all snd assertions"
  by (induction assertions rule: run_all.induct) auto

end
