(* ===== verification/Eventual_Consistency.thy ===== *)
theory Eventual_Consistency
  imports Prelude "HOL-Library.Multiset"
begin

text \<open>
  \<open>eventual-consistency-patterns/eventual_consistency\<close>: versioned values with vector clocks
  (\<open>models.py\<close>), conflict resolution, the causal session of a client, and read repair. Anti-entropy is
  in \<open>Anti_Entropy\<close>. A replica is the interface \<open>get\<close>/\<open>put\<close> of the Protocol \<open>Replica\<close>: here a
  key-value store together with, per call, whether the call raises.
\<close>

section \<open>Clocks and versioned values\<close>

datatype ordering = LT | EQ | GT | CONCURRENT

type_synonym vclock = "(string, int) dict"

definition clock_increment :: "vclock \<Rightarrow> string \<Rightarrow> vclock" where
  "clock_increment c node_id = dict_set node_id (dict_get c node_id 0 + 1) c"

text \<open>The union of the two key sets; its order does not matter.\<close>

definition all_nodes :: "vclock \<Rightarrow> vclock \<Rightarrow> string list" where
  "all_nodes c d = remdups (map fst c @ map fst d)"

definition clock_merge :: "vclock \<Rightarrow> vclock \<Rightarrow> vclock" where
  "clock_merge c other =
     fold (\<lambda>node c. dict_set node (max (dict_get c node 0) (dict_get other node 0)) c) (all_nodes c other) c"

definition clock_compare :: "vclock \<Rightarrow> vclock \<Rightarrow> ordering" where
  "clock_compare c other =
     (let keys = all_nodes c other;
          has_lt = list_ex (\<lambda>k. dict_get c k 0 < dict_get other k 0) keys;
          has_gt = list_ex (\<lambda>k. dict_get other k 0 < dict_get c k 0) keys
      in if has_lt \<and> has_gt then CONCURRENT
         else if has_lt then LT
         else if has_gt then GT
         else EQ)"

record 'v versioned_value =
  vv_value :: 'v
  vv_timestamp :: time
  vv_clock :: vclock

section \<open>Conflict resolution\<close>

definition resolve_lww :: "'v versioned_value \<Rightarrow> 'v versioned_value \<Rightarrow> 'v versioned_value" where
  "resolve_lww v1 v2 =
     (if vv_timestamp v1 > vv_timestamp v2 then v1
      else if vv_timestamp v2 > vv_timestamp v1 then v2
      else v1)"

text \<open>The merged value is stamped with the time of the resolution.\<close>

definition resolve_vector_clock ::
    "'v versioned_value \<Rightarrow> 'v versioned_value \<Rightarrow> ('v \<Rightarrow> 'v \<Rightarrow> 'v) option \<Rightarrow> time \<Rightarrow> 'v versioned_value" where
  "resolve_vector_clock v1 v2 merge_func now =
     (case clock_compare (vv_clock v1) (vv_clock v2) of
        GT \<Rightarrow> v1
      | LT \<Rightarrow> v2
      | EQ \<Rightarrow> v1
      | CONCURRENT \<Rightarrow>
          (case merge_func of
             Some f \<Rightarrow> \<lparr>vv_value = f (vv_value v1) (vv_value v2), vv_timestamp = now,
                        vv_clock = clock_merge (vv_clock v1) (vv_clock v2)\<rparr>
           | None \<Rightarrow> resolve_lww v1 v2))"

section \<open>Causal sessions\<close>

record causal_session =
  cs_client_id :: string
  cs_clock :: vclock

definition cs_new :: "string \<Rightarrow> causal_session" where
  "cs_new client_id = \<lparr>cs_client_id = client_id, cs_clock = []\<rparr>"

definition cs_update_clock :: "causal_session \<Rightarrow> vclock \<Rightarrow> causal_session" where
  "cs_update_clock s other_clock = s\<lparr>cs_clock := clock_merge (cs_clock s) other_clock\<rparr>"

definition cs_prepare_write :: "causal_session \<Rightarrow> causal_session \<times> vclock" where
  "cs_prepare_write s =
     (let s' = s\<lparr>cs_clock := clock_increment (cs_clock s) (cs_client_id s)\<rparr> in (s', cs_clock s'))"

definition cs_check_consistency :: "causal_session \<Rightarrow> 'v versioned_value \<Rightarrow> bool" where
  "cs_check_consistency s value =
     list_all (\<lambda>(node, t). \<not> dict_get (vv_clock value) node 0 < t) (cs_clock s)"

section \<open>Clocks as functions\<close>

text \<open>What a clock counts at each node; missing nodes count as zero.\<close>

abbreviation ticks :: "vclock \<Rightarrow> string \<Rightarrow> int" where
  "ticks c n \<equiv> dict_get c n 0"

definition clock_le :: "vclock \<Rightarrow> vclock \<Rightarrow> bool" where
  "clock_le c d \<longleftrightarrow> (\<forall>n. ticks c n \<le> ticks d n)"

definition clock_ok :: "vclock \<Rightarrow> bool" where
  "clock_ok c \<longleftrightarrow> dict_wf c \<and> list_all (\<lambda>(_, t). 0 \<le> t) c"

lemma at_outside: "n \<notin> set (all_nodes c d) \<Longrightarrow> ticks c n = 0 \<and> ticks d n = 0"
  by (auto simp: all_nodes_def dict_get_def split: option.splits dest: map_of_SomeD) (force dest: map_of_SomeD)+

lemma merge_fold_at:
  assumes "distinct ns"
  shows "ticks (fold (\<lambda>node c. dict_set node (max (ticks c node) (ticks d node)) c) ns c) n =
    (if n \<in> set ns then max (ticks c n) (ticks d n) else ticks c n)"
  using assms by (induction ns arbitrary: c) auto

lemma clock_merge_at: "ticks (clock_merge c d) n = max (ticks c n) (ticks d n)"
proof (cases "n \<in> set (all_nodes c d)")
  case True
  then show ?thesis by (simp add: clock_merge_def merge_fold_at all_nodes_def)
next
  case False
  with at_outside [OF False] show ?thesis by (simp add: clock_merge_def merge_fold_at all_nodes_def)
qed

lemma clock_increment_at: "ticks (clock_increment c m) n = (if n = m then ticks c n + 1 else ticks c n)"
  by (auto simp: clock_increment_def)

lemma clock_le_merge: "clock_le c (clock_merge c d)" "clock_le d (clock_merge c d)"
  "clock_le (clock_merge c d) e \<longleftrightarrow> clock_le c e \<and> clock_le d e"
  by (auto simp: clock_le_def clock_merge_at)

lemma clock_le_trans: "clock_le c d \<Longrightarrow> clock_le d e \<Longrightarrow> clock_le c e"
  by (meson clock_le_def order_trans)

lemma some_less_iff: "list_ex (\<lambda>k. ticks c k < ticks d k) (all_nodes c d) \<longleftrightarrow> \<not> clock_le d c"
proof
  assume "\<not> clock_le d c"
  then obtain n where n: "ticks c n < ticks d n" by (auto simp: clock_le_def not_le)
  then have "n \<in> set (all_nodes c d)" using at_outside [of n c d] by force
  with n show "list_ex (\<lambda>k. ticks c k < ticks d k) (all_nodes c d)" by (auto simp: list_ex_iff)
qed (auto simp: list_ex_iff clock_le_def not_le)

lemma some_greater_iff: "list_ex (\<lambda>k. ticks d k < ticks c k) (all_nodes c d) \<longleftrightarrow> \<not> clock_le c d"
proof -
  have "set (all_nodes c d) = set (all_nodes d c)" by (auto simp: all_nodes_def)
  then show ?thesis using some_less_iff [of d c] by (simp add: list_ex_iff)
qed

lemma clock_compare_iff:
  "clock_compare c d = LT \<longleftrightarrow> clock_le c d \<and> \<not> clock_le d c"
  "clock_compare c d = GT \<longleftrightarrow> clock_le d c \<and> \<not> clock_le c d"
  "clock_compare c d = EQ \<longleftrightarrow> clock_le c d \<and> clock_le d c"
  "clock_compare c d = CONCURRENT \<longleftrightarrow> \<not> clock_le c d \<and> \<not> clock_le d c"
  by (auto simp: clock_compare_def Let_def some_less_iff some_greater_iff)

lemma clock_ok_ticks: "clock_ok c \<Longrightarrow> 0 \<le> ticks c n"
  by (cases "map_of c n") (auto simp: clock_ok_def dict_get_def list_all_iff dest!: map_of_SomeD)

lemma check_consistency_iff:
  assumes "clock_ok (cs_clock s)" and "clock_ok (vv_clock v)"
  shows "cs_check_consistency s v \<longleftrightarrow> clock_le (cs_clock s) (vv_clock v)"
proof -
  let ?c = "cs_clock s"
  have wf: "dict_wf ?c" using assms(1) by (simp add: clock_ok_def)
  have "cs_check_consistency s v \<longleftrightarrow> (\<forall>n t. map_of ?c n = Some t \<longrightarrow> t \<le> ticks (vv_clock v) n)"
    unfolding cs_check_consistency_def list_all_iff dict_items_iff [OF wf, symmetric] by (simp add: Ball_def not_less)
  also have "\<dots> \<longleftrightarrow> (\<forall>n. ticks ?c n \<le> ticks (vv_clock v) n)"
  proof (rule all_cong1)
    fix n
    show "(\<forall>t. map_of ?c n = Some t \<longrightarrow> t \<le> ticks (vv_clock v) n) \<longleftrightarrow> ticks ?c n \<le> ticks (vv_clock v) n"
      using clock_ok_ticks [OF assms(2), of n] by (cases "map_of ?c n") (simp_all add: dict_get_Some dict_get_None)
  qed
  finally show ?thesis by (simp add: clock_le_def)
qed

lemma clock_okI: "dict_wf c \<Longrightarrow> (\<And>n. 0 \<le> ticks c n) \<Longrightarrow> clock_ok c"
  by (auto simp: clock_ok_def list_all_iff) (metis dict_get_Some dict_items_iff)

lemma fold_set_wf: "dict_wf c \<Longrightarrow> dict_wf (fold (\<lambda>node c. dict_set node (f node c) c) ns c)"
  by (induction ns arbitrary: c) simp_all

lemma clock_ok_merge: "clock_ok c \<Longrightarrow> clock_ok d \<Longrightarrow> clock_ok (clock_merge c d)"
  by (rule clock_okI) (auto simp: clock_merge_def fold_set_wf clock_ok_def clock_merge_at [unfolded clock_merge_def]
      clock_ok_ticks [unfolded clock_ok_def] intro: max.coboundedI1)

lemma clock_ok_increment: "clock_ok c \<Longrightarrow> clock_ok (clock_increment c n)"
proof (rule clock_okI)
  fix m
  assume "clock_ok c"
  then show "0 \<le> ticks (clock_increment c n) m" using clock_ok_ticks [of c m] by (auto simp: clock_increment_at)
qed (simp add: clock_increment_def clock_ok_def)

lemma clock_ok_Nil [simp]: "clock_ok []"
  by (simp add: clock_ok_def)

text \<open>A client that observes clocks and writes, and the clocks it has seen.\<close>

datatype session_op = Observe vclock | Write

fun session_step :: "causal_session \<times> vclock list \<Rightarrow> session_op \<Rightarrow> causal_session \<times> vclock list" where
  "session_step (s, seen) (Observe c) = (cs_update_clock s c, c # seen)"
| "session_step (s, seen) Write = (case cs_prepare_write s of (s', c) \<Rightarrow> (s', c # seen))"

definition session_run :: "string \<Rightarrow> session_op list \<Rightarrow> causal_session \<times> vclock list" where
  "session_run client ops = foldl session_step (cs_new client, []) ops"

fun op_ok :: "session_op \<Rightarrow> bool" where
  "op_ok (Observe c) = clock_ok c"
| "op_ok Write = True"

lemma session_run_invariant:
  assumes "list_all op_ok ops"
  shows "clock_ok (cs_clock (fst (session_run client ops))) \<and>
    (\<forall>d. clock_ok d \<longrightarrow> clock_le (cs_clock (fst (session_run client ops))) d \<longleftrightarrow> (\<forall>c\<in>set (snd (session_run client ops)). clock_le c d))"
  using assms
proof (induction ops rule: rev_induct)
  case Nil
  then show ?case
    by (auto simp: session_run_def cs_new_def clock_le_def clock_ok_ticks)
next
  case (snoc x ops)
  obtain s seen where S: "session_run client ops = (s, seen)" by fastforce
  then have IH: "clock_ok (cs_clock s)" "\<And>d. clock_ok d \<Longrightarrow> clock_le (cs_clock s) d \<longleftrightarrow> (\<forall>c\<in>set seen. clock_le c d)"
    using snoc by auto
  have run: "session_run client (ops @ [x]) = session_step (s, seen) x"
    using S by (simp add: session_run_def)
  show ?case
  proof (cases x)
    case (Observe c)
    then have c: "clock_ok c" using snoc.prems by simp
    show ?thesis
      unfolding run unfolding Observe using IH c by (auto simp: cs_update_clock_def clock_ok_merge clock_le_merge(3))
  next
    case Write
    have "clock_le (cs_clock s) (clock_increment (cs_clock s) (cs_client_id s))"
      by (simp add: clock_le_def clock_increment_at)
    then have "clock_le (cs_clock s) d" if "clock_le (clock_increment (cs_clock s) (cs_client_id s)) d" for d
      using that by (rule clock_le_trans)
    then show ?thesis
      unfolding run unfolding Write using IH by (auto simp: cs_prepare_write_def clock_ok_increment Let_def)
  qed
qed

lemma clock_le_refl: "clock_le c c"
  by (simp add: clock_le_def)

lemma resolve_covers_both:
  "clock_le (vv_clock v1) (vv_clock (resolve_vector_clock v1 v2 merge_func now)) \<and>
     clock_le (vv_clock v2) (vv_clock (resolve_vector_clock v1 v2 merge_func now)) \<longleftrightarrow>
   merge_func \<noteq> None \<or> clock_compare (vv_clock v1) (vv_clock v2) \<noteq> CONCURRENT"
proof (cases "clock_compare (vv_clock v1) (vv_clock v2)")
  case CONCURRENT
  then show ?thesis
    using clock_compare_iff(4) [of "vv_clock v1" "vv_clock v2"]
    by (cases merge_func) (auto simp: resolve_vector_clock_def resolve_lww_def clock_le_merge)
qed (use clock_compare_iff [of "vv_clock v1" "vv_clock v2"] in \<open>auto simp: resolve_vector_clock_def clock_le_refl\<close>)

text \<open>
  C36. A session accepts a value exactly if the value's clock covers every clock that the session has
  observed (monotonic reads) and every clock it gave to a write (read your writes). So a session
  that has observed two versions accepts what \<open>resolve_vector_clock\<close> makes of them exactly if the
  two were not concurrent or a merge function was given: the fall-back to the later timestamp
  loses one of them.
\<close>

theorem session_guarantees:
  fixes v v1 v2 :: "'v versioned_value"
  assumes "list_all op_ok ops" and "clock_ok (vv_clock v)" and "clock_ok (vv_clock v1)" and "clock_ok (vv_clock v2)"
  shows "(cs_check_consistency (fst (session_run client ops)) v \<longleftrightarrow>
      (\<forall>c\<in>set (snd (session_run client ops)). clock_le c (vv_clock v))) \<and>
    (cs_check_consistency (fst (session_run client [Observe (vv_clock v1), Observe (vv_clock v2)]))
       (resolve_vector_clock v1 v2 merge_func now) \<longleftrightarrow>
     merge_func \<noteq> None \<or> clock_compare (vv_clock v1) (vv_clock v2) \<noteq> CONCURRENT)"
proof -
  have accepts: "cs_check_consistency (fst (session_run client ops)) w \<longleftrightarrow>
      (\<forall>c\<in>set (snd (session_run client ops)). clock_le c (vv_clock w))"
    if "list_all op_ok ops" and "clock_ok (vv_clock w)" for ops and w :: "'v versioned_value"
    using session_run_invariant [OF that(1), of client] that(2) by (simp add: check_consistency_iff)
  let ?r = "resolve_vector_clock v1 v2 merge_func now"
  have "clock_ok (vv_clock ?r)"
    using assms(3,4) by (auto simp: resolve_vector_clock_def resolve_lww_def clock_ok_merge split: ordering.split option.split)
  moreover have "snd (session_run client [Observe (vv_clock v1), Observe (vv_clock v2)]) = [vv_clock v2, vv_clock v1]"
    by (simp add: session_run_def)
  ultimately have "cs_check_consistency (fst (session_run client [Observe (vv_clock v1), Observe (vv_clock v2)])) ?r \<longleftrightarrow>
      clock_le (vv_clock v1) (vv_clock ?r) \<and> clock_le (vv_clock v2) (vv_clock ?r)"
    using accepts [of "[Observe (vv_clock v1), Observe (vv_clock v2)]" ?r] assms(3,4) by auto
  moreover note resolve_covers_both [of v1 v2 merge_func now]
  ultimately show ?thesis using accepts [OF assms(1,2)] by blast
qed

theorem session_guarantees_witness:
  "\<not> cs_check_consistency (fst (session_run ''c'' [Observe [(''n1'', 2)], Write]))
      (\<lparr>vv_value = 7, vv_timestamp = 1, vv_clock = [(''n1'', 2)]\<rparr> :: nat versioned_value) \<and>
   \<not> cs_check_consistency (fst (session_run ''c'' [Observe [(''n1'', 1)], Observe [(''n2'', 1)]]))
      (resolve_vector_clock \<lparr>vv_value = 7, vv_timestamp = 1, vv_clock = [(''n1'', 1)]\<rparr>
        (\<lparr>vv_value = 8, vv_timestamp = 2, vv_clock = [(''n2'', 1)]\<rparr> :: nat versioned_value) None 3)"
proof -
  let ?v = "\<lparr>vv_value = 7, vv_timestamp = 1, vv_clock = [(''n1'', 2)]\<rparr> :: nat versioned_value"
  let ?v1 = "\<lparr>vv_value = 7, vv_timestamp = 1, vv_clock = [(''n1'', 1)]\<rparr> :: nat versioned_value"
  let ?v2 = "\<lparr>vv_value = 8, vv_timestamp = 2, vv_clock = [(''n2'', 1)]\<rparr> :: nat versioned_value"
  have own: "[(''n1'', 2), (''c'', 1)] \<in> set (snd (session_run ''c'' [Observe [(''n1'', 2)], Write]))" by code_simp
  have missing: "\<not> clock_le [(''n1'', 2), (''c'', 1)] (vv_clock ?v)"
    by (auto simp: clock_le_def dict_get_def intro!: exI [of _ "''c''"])
  have concurrent: "clock_compare (vv_clock ?v1) (vv_clock ?v2) = CONCURRENT" by code_simp
  show ?thesis
    using session_guarantees [of "[Observe [(''n1'', 2)], Write]" ?v ?v1 ?v2 "''c''" None 3] own missing concurrent
    by (auto simp: clock_ok_def)
qed

section \<open>Read repair\<close>

text \<open>
  The stores of the replicas, by their place in the list. A read collects the answers in the order
  in which the futures complete; \<open>gets i\<close> says whether replica \<open>i\<close> answers rather than raises.
\<close>

type_synonym 'v stores = "(string \<Rightarrow> 'v versioned_value option) list"

definition safe_get :: "'v stores \<Rightarrow> (nat \<Rightarrow> bool) \<Rightarrow> string \<Rightarrow> nat \<Rightarrow> 'v versioned_value option" where
  "safe_get replicas gets key i = (if gets i then (replicas ! i) key else None)"

definition rr_read ::
    "'v stores \<Rightarrow> string \<Rightarrow> nat list \<Rightarrow> (nat \<Rightarrow> bool) \<Rightarrow>
     ('v versioned_value \<times> (nat \<times> 'v versioned_value option) list) option" where
  "rr_read replicas key order gets =
     (let replica_results = map (\<lambda>i. (i, safe_get replicas gets key i)) order;
          valid_results = List.map_filter snd replica_results
      in case valid_results of
           [] \<Rightarrow> None
         | v # vs \<Rightarrow> Some (foldl resolve_lww v vs, replica_results))"

text \<open>
  The repair that the read leaves to the pool, with the stores as they are when it runs;
  \<open>puts i\<close> says whether the \<open>put\<close> succeeds.
\<close>

definition should_repair :: "'v versioned_value \<Rightarrow> 'v versioned_value option \<Rightarrow> bool" where
  "should_repair latest val = (case val of None \<Rightarrow> True | Some v \<Rightarrow> vv_timestamp v < vv_timestamp latest)"

fun repair_stale ::
    "string \<Rightarrow> 'v versioned_value \<Rightarrow> (nat \<times> 'v versioned_value option) list \<Rightarrow> (nat \<Rightarrow> bool) \<Rightarrow> 'v stores \<Rightarrow> 'v stores" where
  "repair_stale key latest [] puts replicas = replicas"
| "repair_stale key latest ((i, val) # results) puts replicas =
     repair_stale key latest results puts
       (if should_repair latest val \<and> puts i then replicas[i := (replicas ! i)(key \<mapsto> latest)] else replicas)"

lemma resolve_lww_cases: "resolve_lww v w = v \<or> resolve_lww v w = w"
  "vv_timestamp (resolve_lww v w) = max (vv_timestamp v) (vv_timestamp w)"
  by (auto simp: resolve_lww_def)

lemma foldl_lww:
  "foldl resolve_lww v vs \<in> set (v # vs) \<and> (\<forall>w\<in>set (v # vs). vv_timestamp w \<le> vv_timestamp (foldl resolve_lww v vs))"
proof (induction vs arbitrary: v)
  case (Cons w vs)
  show ?case
    using Cons.IH [of "resolve_lww v w"] resolve_lww_cases [of v w] by auto
qed simp

lemma repair_stale_length [simp]: "length (repair_stale key latest results puts replicas) = length replicas"
  by (induction key latest results puts replicas rule: repair_stale.induct) simp_all

lemma repair_stale_nth:
  assumes "distinct order" and "set order \<subseteq> {..<length replicas}" and "i < length replicas"
  shows "repair_stale key latest (map (\<lambda>i. (i, f i)) order) puts replicas ! i =
    (if i \<in> set order \<and> should_repair latest (f i) \<and> puts i then (replicas ! i)(key \<mapsto> latest) else replicas ! i)"
  using assms
proof (induction order arbitrary: replicas)
  case (Cons j order)
  let ?r = "if should_repair latest (f j) \<and> puts j then replicas[j := (replicas ! j)(key \<mapsto> latest)] else replicas"
  have "repair_stale key latest (map (\<lambda>i. (i, f i)) order) puts ?r ! i =
      (if i \<in> set order \<and> should_repair latest (f i) \<and> puts i then (?r ! i)(key \<mapsto> latest) else ?r ! i)"
    using Cons.prems by (intro Cons.IH) auto
  then show ?case using Cons.prems by (auto simp: nth_list_update)
qed simp

lemma set_valid_results:
  "set (List.map_filter snd (map (\<lambda>i. (i, f i)) order)) = {v. \<exists>i\<in>set order. f i = Some v}"
  by (force simp: map_filter_def)

lemma rr_read_results:
  assumes "rr_read replicas key order gets = Some (latest, results)"
  shows "results = map (\<lambda>i. (i, safe_get replicas gets key i)) order"
    and "\<exists>i\<in>set order. safe_get replicas gets key i = Some latest"
    and "\<forall>i\<in>set order. \<forall>v. safe_get replicas gets key i = Some v \<longrightarrow> vv_timestamp v \<le> vv_timestamp latest"
proof -
  let ?results = "map (\<lambda>i. (i, safe_get replicas gets key i)) order"
  obtain v vs where vs: "List.map_filter snd ?results = v # vs" "latest = foldl resolve_lww v vs" "results = ?results"
    using assms by (auto simp: rr_read_def Let_def split: list.splits)
  have valid: "set (List.map_filter snd ?results) = {v. \<exists>i\<in>set order. safe_get replicas gets key i = Some v}"
    by (rule set_valid_results)
  show "results = ?results" by (rule vs)
  show "\<exists>i\<in>set order. safe_get replicas gets key i = Some latest"
    and "\<forall>i\<in>set order. \<forall>v. safe_get replicas gets key i = Some v \<longrightarrow> vv_timestamp v \<le> vv_timestamp latest"
    using foldl_lww [of v vs] valid unfolding vs by blast+
qed

lemma rr_read_None: "rr_read replicas key order gets = None \<longleftrightarrow> (\<forall>i\<in>set order. safe_get replicas gets key i = None)"
proof -
  let ?valid = "List.map_filter snd (map (\<lambda>i. (i, safe_get replicas gets key i)) order)"
  have "rr_read replicas key order gets = None \<longleftrightarrow> set ?valid = {}"
    by (simp add: rr_read_def Let_def split: list.split)
  then show ?thesis unfolding set_valid_results by (auto simp: not_Some_eq [symmetric] simp del: not_Some_eq)
qed

text \<open>
  C37. A read answers None when no replica that answered has the key, and otherwise a value that some
  answering replica has and than which no answering replica has a later one, whichever replicas
  fail. Its repair, when it runs, writes that value to exactly the replicas that had given an older
  one or none, also those that only failed to answer, whatever they hold by then; it touches no
  other key. When every replica answers, takes the put and nothing is written in between, all
  replicas hold a value of the read timestamp afterwards.
\<close>

theorem read_repair_exact:
  assumes order: "distinct order" "set order = {..<length replicas}" and later: "length later = length replicas"
  shows "case rr_read replicas key order gets of
      None \<Rightarrow> \<forall>i<length replicas. gets i \<longrightarrow> (replicas ! i) key = None
    | Some (latest, results) \<Rightarrow>
        (\<exists>i<length replicas. gets i \<and> (replicas ! i) key = Some latest) \<and>
        (\<forall>i<length replicas. \<forall>v. gets i \<and> (replicas ! i) key = Some v \<longrightarrow> vv_timestamp v \<le> vv_timestamp latest) \<and>
        (\<forall>i<length replicas. \<forall>k. (repair_stale key latest results puts later ! i) k =
           (if k = key \<and> puts i \<and> (gets i \<longrightarrow> should_repair latest ((replicas ! i) key)) then Some latest else (later ! i) k)) \<and>
        ((\<forall>i<length replicas. gets i \<and> puts i) \<longrightarrow>
           (\<forall>i<length replicas. \<exists>v. (repair_stale key latest results puts replicas ! i) key = Some v \<and> vv_timestamp v = vv_timestamp latest))"
proof (cases "rr_read replicas key order gets")
  case None
  then show ?thesis using rr_read_None [of replicas key order gets] order(2) by (auto simp: safe_get_def split: if_splits)
next
  case (Some read)
  obtain latest results where read: "rr_read replicas key order gets = Some (latest, results)" using Some by (cases read) simp
  note facts = rr_read_results [OF read]
  have nth: "repair_stale key latest results puts st ! i =
      (if should_repair latest (safe_get replicas gets key i) \<and> puts i then (st ! i)(key \<mapsto> latest) else st ! i)"
    if "length st = length replicas" "i < length replicas" for st i
    using repair_stale_nth [of order st i key latest "safe_get replicas gets key" puts] that order facts(1) by simp
  have 1: "\<exists>i<length replicas. gets i \<and> (replicas ! i) key = Some latest"
    using facts(2) order(2) by (auto simp: safe_get_def split: if_splits)
  have 2: "\<forall>i<length replicas. \<forall>v. gets i \<and> (replicas ! i) key = Some v \<longrightarrow> vv_timestamp v \<le> vv_timestamp latest"
    using facts(3) order(2) by (simp add: safe_get_def)
  have 3: "\<forall>i<length replicas. \<forall>k. (repair_stale key latest results puts later ! i) k =
       (if k = key \<and> puts i \<and> (gets i \<longrightarrow> should_repair latest ((replicas ! i) key)) then Some latest else (later ! i) k)"
    using nth [OF later] by (auto simp: safe_get_def should_repair_def)
  have 4: "\<exists>v. (repair_stale key latest results puts replicas ! i) key = Some v \<and> vv_timestamp v = vv_timestamp latest"
    if "\<forall>i<length replicas. gets i \<and> puts i" and "i < length replicas" for i
  proof (cases "(replicas ! i) key")
    case (Some v)
    then have "vv_timestamp v \<le> vv_timestamp latest" using 2 that by blast
    then show ?thesis using nth [OF refl that(2)] that Some by (cases "vv_timestamp v < vv_timestamp latest") (simp_all add: safe_get_def should_repair_def)
  qed (use nth [OF refl that(2)] that in \<open>simp add: safe_get_def should_repair_def\<close>)
  from 1 2 3 4 show ?thesis unfolding read option.case prod.case by blast
qed

text \<open>The first replica to answer has an older value, one has none and one fails.\<close>

theorem read_repair_exact_witness:
  "\<exists>v w :: nat versioned_value. vv_timestamp v = 5 \<and> vv_timestamp w = 3 \<and>
     rr_read [Map.empty, [''k'' \<mapsto> v], [''k'' \<mapsto> w], Map.empty] ''k'' [2, 0, 1, 3] (\<lambda>i. i \<noteq> 3) =
       Some (v, [(2, Some w), (0, None), (1, Some v), (3, None)]) \<and>
     (repair_stale ''k'' v [(2, Some w), (0, None), (1, Some v), (3, None)] (\<lambda>_. True)
        [Map.empty, [''k'' \<mapsto> v], [''k'' \<mapsto> w], Map.empty] ! 2) ''k'' = Some v"
proof -
  let ?v = "\<lparr>vv_value = 7, vv_timestamp = 5, vv_clock = []\<rparr> :: nat versioned_value"
  let ?w = "\<lparr>vv_value = 6, vv_timestamp = 3, vv_clock = []\<rparr> :: nat versioned_value"
  let ?st = "[Map.empty, [''k'' \<mapsto> ?v], [''k'' \<mapsto> ?w], Map.empty]" and ?results = "[(2, Some ?w), (0, None), (1, Some ?v), (3, None)]"
  have read: "rr_read ?st ''k'' [2, 0, 1, 3] (\<lambda>i. i \<noteq> 3) = Some (?v, ?results)"
    by (simp add: rr_read_def safe_get_def map_filter_def resolve_lww_def)
  have order: "distinct [2, 0, 1, 3 :: nat]" "set [2, 0, 1, 3 :: nat] = {..<length ?st}" by auto
  from read_repair_exact [OF order refl, where key = "''k''" and gets = "\<lambda>i. i \<noteq> 3" and puts = "\<lambda>_. True", unfolded read]
  have "\<forall>i<length ?st. \<forall>k. (repair_stale ''k'' ?v ?results (\<lambda>_. True) ?st ! i) k =
      (if k = ''k'' \<and> (i \<noteq> 3 \<longrightarrow> should_repair ?v ((?st ! i) ''k'')) then Some ?v else (?st ! i) k)" by simp
  from this [rule_format, of 2 "''k''"] have "(repair_stale ''k'' ?v ?results (\<lambda>_. True) ?st ! 2) ''k'' = Some ?v"
    by (simp add: should_repair_def)
  with read show ?thesis by (intro exI [of _ ?v] exI [of _ ?w]) simp
qed

text \<open>
  The repair of a replica that only failed to answer destroys the newest write: the replica holds a
  value of time 5, the others one of time 3, which the read returns and the repair puts everywhere.
\<close>

theorem read_repair_destroys_newest:
  fixes old new :: "nat versioned_value"
  defines "old \<equiv> \<lparr>vv_value = 1, vv_timestamp = 3, vv_clock = []\<rparr>" and "new \<equiv> \<lparr>vv_value = 2, vv_timestamp = 5, vv_clock = []\<rparr>"
  shows "rr_read [[''k'' \<mapsto> new], [''k'' \<mapsto> old]] ''k'' [0, 1] (\<lambda>i. i \<noteq> 0) = Some (old, [(0, None), (1, Some old)]) \<and>
    repair_stale ''k'' old [(0, None), (1, Some old)] (\<lambda>_. True) [[''k'' \<mapsto> new], [''k'' \<mapsto> old]] = [[''k'' \<mapsto> old], [''k'' \<mapsto> old]]"
  by (simp add: rr_read_def safe_get_def map_filter_def should_repair_def)

end
