(* ===== verification/Anti_Entropy.thy ===== *)
theory Anti_Entropy
  imports Eventual_Consistency Decimal
begin

text \<open>
  \<open>eventual-consistency-patterns/eventual_consistency/anti_entropy.py\<close>: a Merkle tree over a fixed
  number of buckets, in the layout of a binary heap, and the comparison of two trees that lists the
  keys to synchronise. SHA-256 (\<open>sha\<close>, its hexadecimal digest), the MD5 number of a key (\<open>md5\<close>) and
  the printing of a value as \<open>timestamp:value\<close> (\<open>shown\<close>) are parameters.
\<close>

section \<open>The tree\<close>

type_synonym bucket = "(string \<times> string) list"

record bucket_tree =
  bt_num_buckets :: nat
  bt_buckets :: "bucket list"
  bt_bucket_hashes :: "string list"
  bt_tree :: "nat \<Rightarrow> string option"

definition bt_new :: "nat \<Rightarrow> bucket_tree" where
  "bt_new num_buckets =
     \<lparr>bt_num_buckets = num_buckets, bt_buckets = replicate num_buckets [], bt_bucket_hashes = [], bt_tree = Map.empty\<rparr>"

definition hash_key :: "(string \<Rightarrow> nat) \<Rightarrow> nat \<Rightarrow> string \<Rightarrow> nat" where
  "hash_key md5 num_buckets key = md5 key mod num_buckets"

definition hash_val :: "(string \<Rightarrow> string) \<Rightarrow> ('v versioned_value \<Rightarrow> string) \<Rightarrow> 'v versioned_value \<Rightarrow> string" where
  "hash_val sha shown val = sha (shown val)"

text \<open>\<open>self.tree.get(i, "")\<close>\<close>

definition tree_get :: "(nat \<Rightarrow> string option) \<Rightarrow> nat \<Rightarrow> string" where
  "tree_get t i = (case t i of None \<Rightarrow> [] | Some h \<Rightarrow> h)"

text \<open>The bytes that a bucket feeds to its hasher.\<close>

definition bucket_text :: "bucket \<Rightarrow> string" where
  "bucket_text b = concat (map (\<lambda>(key, val_hash). key @ '':'' @ val_hash) b)"

definition assign_buckets ::
    "(string \<Rightarrow> nat) \<Rightarrow> (string \<Rightarrow> string) \<Rightarrow> ('v versioned_value \<Rightarrow> string) \<Rightarrow> (string, 'v versioned_value) dict \<Rightarrow> bucket list \<Rightarrow> bucket list" where
  "assign_buckets md5 sha shown data buckets =
     fold (\<lambda>(key, val) bs. let i = hash_key md5 (length bs) key in bs[i := bs ! i @ [(key, hash_val sha shown val)]]) data buckets"

definition heap_node :: "(string \<Rightarrow> string) \<Rightarrow> nat \<Rightarrow> (nat \<Rightarrow> string option) \<Rightarrow> (nat \<Rightarrow> string option)" where
  "heap_node sha i t = t(i \<mapsto> sha (tree_get t (2 * i) @ tree_get t (2 * i + 1)))"

definition heap_tree :: "(string \<Rightarrow> string) \<Rightarrow> string list \<Rightarrow> (nat \<Rightarrow> string option) \<Rightarrow> (nat \<Rightarrow> string option)" where
  "heap_tree sha hashes t =
     (let n = length hashes;
          t1 = fold (\<lambda>i t. t(n + i \<mapsto> hashes ! i)) [0..<n] t
      in fold (heap_node sha) (rev [1..<n]) t1)"

text \<open>A key cannot be put into one of no buckets: the remainder raises \<open>ZeroDivisionError\<close>.\<close>

definition bt_build ::
    "(string \<Rightarrow> nat) \<Rightarrow> (string \<Rightarrow> string) \<Rightarrow> ('v versioned_value \<Rightarrow> string) \<Rightarrow> bucket_tree \<Rightarrow> (string, 'v versioned_value) dict \<Rightarrow>
     (bucket_tree, unit) outcome" where
  "bt_build md5 sha shown T data =
     (if data \<noteq> [] \<and> bt_num_buckets T = 0 then (T, Inl (OtherException ''ZeroDivisionError''))
      else let buckets = map (sort_key fst) (assign_buckets md5 sha shown data (bt_buckets T));
               hashes = map (\<lambda>b. sha (bucket_text b)) buckets
           in (T\<lparr>bt_buckets := buckets, bt_bucket_hashes := hashes, bt_tree := heap_tree sha hashes (bt_tree T)\<rparr>, Inr ()))"

text \<open>The constructor builds only when there is data.\<close>

definition bt_init ::
    "(string \<Rightarrow> nat) \<Rightarrow> (string \<Rightarrow> string) \<Rightarrow> ('v versioned_value \<Rightarrow> string) \<Rightarrow> (string, 'v versioned_value) dict \<Rightarrow> nat \<Rightarrow>
     bucket_tree result" where
  "bt_init md5 sha shown data num_buckets =
     (if data = [] then Inr (bt_new num_buckets)
      else case bt_build md5 sha shown (bt_new num_buckets) data of (T, Inl e) \<Rightarrow> Inl e | (T, Inr _) \<Rightarrow> Inr T)"

definition bt_get_root_hash :: "bucket_tree \<Rightarrow> string" where
  "bt_get_root_hash T = tree_get (bt_tree T) 1"

section \<open>Comparing two trees\<close>

text \<open>The union of the two key sets, whose order does not matter.\<close>

definition bucket_keys :: "bucket_tree \<Rightarrow> bucket_tree \<Rightarrow> nat \<Rightarrow> string list" where
  "bucket_keys lt rt i = remdups (map fst (bt_buckets lt ! i) @ map fst (bt_buckets rt ! i))"

text \<open>The recursion over the heap, None if it does not end (it starts at the root, where it does).\<close>

partial_function (option) compare_recursive :: "bucket_tree \<Rightarrow> bucket_tree \<Rightarrow> nat \<Rightarrow> string list option" where
  "compare_recursive lt rt node_idx =
     (if tree_get (bt_tree lt) node_idx = tree_get (bt_tree rt) node_idx then Some []
      else if bt_num_buckets lt \<le> node_idx then Some (bucket_keys lt rt (node_idx - bt_num_buckets lt))
      else Option.bind (compare_recursive lt rt (2 * node_idx)) (\<lambda>xs.
           Option.bind (compare_recursive lt rt (2 * node_idx + 1)) (\<lambda>ys. Some (xs @ ys))))"

definition compare_trees :: "bucket_tree \<Rightarrow> bucket_tree \<Rightarrow> string list option result" where
  "compare_trees lt rt =
     (if bt_num_buckets lt \<noteq> bt_num_buckets rt then Inl ValueError
      else Inr (compare_recursive lt rt 1))"

section \<open>The nodes of a built tree\<close>

lemma heap_leaves:
  "fold (\<lambda>i t. t(n + i \<mapsto> hashes ! i)) [0..<m] t j = (if n \<le> j \<and> j < n + m then Some (hashes ! (j - n)) else t j)"
  by (induction m) auto

lemma heap_inner:
  assumes "k \<le> n" and "0 < k"
  shows "fold (heap_node sha) (rev [k..<n]) t i =
    (if k \<le> i \<and> i < n
     then Some (sha (tree_get (fold (heap_node sha) (rev [k..<n]) t) (2 * i) @ tree_get (fold (heap_node sha) (rev [k..<n]) t) (2 * i + 1)))
     else t i)"
  using assms
proof (induction "n - k" arbitrary: k i)
  case (Suc d)
  let ?t = "fold (heap_node sha) (rev [Suc k..<n]) t"
  have "[k..<n] = k # [Suc k..<n]" using Suc.hyps(2) by (simp add: upt_conv_Cons)
  then have step: "fold (heap_node sha) (rev [k..<n]) t = heap_node sha k ?t" by simp
  have d: "d = n - Suc k" "Suc k \<le> n" "0 < Suc k" using Suc.hyps(2) by auto
  note IH = Suc.hyps(1) [OF d, of i]
  show ?case
  proof (cases "i = k")
    case True
    moreover have "k < n" using Suc.hyps(2) by simp
    ultimately show ?thesis unfolding step using Suc.prems by (simp add: heap_node_def tree_get_def)
  next
    case False
    then have "heap_node sha k ?t i = ?t i" by (simp add: heap_node_def)
    moreover have "tree_get (heap_node sha k ?t) (2 * i) = tree_get ?t (2 * i)" "tree_get (heap_node sha k ?t) (2 * i + 1) = tree_get ?t (2 * i + 1)"
      if "Suc k \<le> i" using that by (simp_all add: heap_node_def tree_get_def)
    ultimately show ?thesis unfolding step using IH False by auto
  qed
qed auto

lemma heap_tree_nodes:
  fixes sha :: "string \<Rightarrow> string" and hashes :: "string list" and t :: "nat \<Rightarrow> string option"
  defines "T \<equiv> heap_tree sha hashes t"
  assumes "0 < length hashes"
  shows "j < length hashes \<Longrightarrow> tree_get T (length hashes + j) = hashes ! j"
    and "0 < i \<Longrightarrow> i < length hashes \<Longrightarrow> tree_get T i = sha (tree_get T (2 * i) @ tree_get T (2 * i + 1))"
proof -
  let ?n = "length hashes"
  let ?t1 = "fold (\<lambda>i t. t(?n + i \<mapsto> hashes ! i)) [0..<?n] t"
  have T: "T = fold (heap_node sha) (rev [1..<?n]) ?t1" by (simp add: T_def heap_tree_def Let_def)
  note inner = heap_inner [of 1 ?n sha ?t1, folded T]
  show "j < ?n \<Longrightarrow> tree_get T (?n + j) = hashes ! j"
    using inner [of "?n + j"] assms by (simp add: tree_get_def heap_leaves)
  show "0 < i \<Longrightarrow> i < ?n \<Longrightarrow> tree_get T i = sha (tree_get T (2 * i) @ tree_get T (2 * i + 1))"
    using inner [of i] by (simp add: tree_get_def [of T i])
qed

section \<open>What the recursion finds\<close>

definition below :: "nat \<Rightarrow> nat \<Rightarrow> bool" where
  "below i j \<longleftrightarrow> (\<exists>d. j div 2 ^ d = i)"

lemma node_below_refl: "below i i"
  unfolding below_def by (rule exI [of _ 0]) simp

lemma below_le: "below i j \<Longrightarrow> i \<le> j"
  by (auto simp: below_def)

lemma below_child: "below i j \<Longrightarrow> j \<noteq> i \<Longrightarrow> below (2 * i) j \<or> below (2 * i + 1) j"
proof -
  assume "below i j" "j \<noteq> i"
  then obtain d where d: "j div 2 ^ d = i" by (auto simp: below_def)
  with \<open>j \<noteq> i\<close> obtain e where "d = Suc e" by (cases d) auto
  then have "j div 2 ^ e div 2 = i" using d by (simp add: div_mult2_eq [symmetric] mult.commute)
  then have "j div 2 ^ e = 2 * i \<or> j div 2 ^ e = 2 * i + 1" by linarith
  then show ?thesis by (auto simp: below_def)
qed

lemma below_root: "0 < j \<Longrightarrow> below 1 j"
proof (induction j rule: less_induct)
  case (less j)
  show ?case
  proof (cases "j = 1")
    case False
    then obtain d where "(j div 2) div 2 ^ d = 1"
      using less.IH [of "j div 2"] less.prems by (auto simp: below_def)
    then have "j div 2 ^ Suc d = 1" by (simp add: div_mult2_eq mult.commute)
    then show ?thesis unfolding below_def by blast
  qed (simp add: node_below_refl)
qed

text \<open>Equal inner nodes have equal children: what the absence of collisions gives.\<close>

definition faithful_nodes :: "bucket_tree \<Rightarrow> bucket_tree \<Rightarrow> nat \<Rightarrow> bool" where
  "faithful_nodes lt rt n \<longleftrightarrow>
     (\<forall>i. 0 < i \<and> i < n \<and> tree_get (bt_tree lt) i = tree_get (bt_tree rt) i \<longrightarrow>
        tree_get (bt_tree lt) (2 * i) = tree_get (bt_tree rt) (2 * i) \<and>
        tree_get (bt_tree lt) (2 * i + 1) = tree_get (bt_tree rt) (2 * i + 1))"

lemma equal_below:
  assumes "faithful_nodes lt rt n" and "0 < i" and "below i j" and "j < 2 * n" and "n \<le> j"
    and "tree_get (bt_tree lt) i = tree_get (bt_tree rt) i"
  shows "tree_get (bt_tree lt) j = tree_get (bt_tree rt) j"
  using assms
proof (induction "2 * n - i" arbitrary: i rule: less_induct)
  case less
  show ?case
  proof (cases "j = i")
    case False
    then have child: "below (2 * i) j \<or> below (2 * i + 1) j" using less.prems(3) by (rule below_child [rotated])
    have "i \<le> j" using less.prems(3) by (auto simp: below_def)
    then have "i < 2 * n" using less.prems by simp
    show ?thesis
    proof (cases "i < n")
      case True
      then have "tree_get (bt_tree lt) (2 * i) = tree_get (bt_tree rt) (2 * i)"
        "tree_get (bt_tree lt) (2 * i + 1) = tree_get (bt_tree rt) (2 * i + 1)"
        using less.prems by (auto simp: faithful_nodes_def)
      then show ?thesis
        using child less.hyps [of "2 * i"] less.hyps [of "2 * i + 1"] less.prems \<open>i < 2 * n\<close> by auto
    next
      case False
      have "2 * i \<le> j" using child by (auto dest: below_le)
      with False less.prems show ?thesis by simp
    qed
  qed (use less.prems in simp)
qed

lemma compare_spec:
  assumes faithful: "faithful_nodes lt rt n" and n: "bt_num_buckets lt = n" and "0 < i" and "i < 2 * n"
  shows "\<exists>ks. compare_recursive lt rt i = Some ks \<and>
    (\<forall>k\<in>set ks. \<exists>b<n. k \<in> set (bucket_keys lt rt b) \<and> tree_get (bt_tree lt) (n + b) \<noteq> tree_get (bt_tree rt) (n + b)) \<and>
    (\<forall>b<n. below i (n + b) \<and> tree_get (bt_tree lt) (n + b) \<noteq> tree_get (bt_tree rt) (n + b) \<longrightarrow> set (bucket_keys lt rt b) \<subseteq> set ks)"
  using assms(3,4)
proof (induction "2 * n - i" arbitrary: i rule: less_induct)
  case less
  let ?eq = "\<lambda>i. tree_get (bt_tree lt) i = tree_get (bt_tree rt) i"
  show ?case
  proof (cases "?eq i")
    case True
    have "?eq (n + b)" if "b < n" "below i (n + b)" for b
      using equal_below [OF faithful less.prems(1) that(2)] that(1) True by simp
    with True show ?thesis by (subst compare_recursive.simps) auto
  next
    case neq: False
    show ?thesis
    proof (cases "n \<le> i")
      case True
      have only: "b = i - n" if "below i (n + b)" "b < n" for b
        using below_child [OF that(1)] that(2) True below_le [of "2 * i" "n + b"] below_le [of "2 * i + 1" "n + b"]
        by (cases "n + b = i") auto
      have i: "i - n < n" "n + (i - n) = i" using True less.prems by auto
      have "compare_recursive lt rt i = Some (bucket_keys lt rt (i - n))"
        using neq True n by (subst compare_recursive.simps) simp
      then show ?thesis using only i neq by (intro exI [of _ "bucket_keys lt rt (i - n)"]) auto
    next
      case False
      have smaller: "2 * n - 2 * i < 2 * n - i" "2 * n - (2 * i + 1) < 2 * n - i" "2 * i < 2 * n" "2 * i + 1 < 2 * n"
        using False less.prems by auto
      obtain xs where xs: "compare_recursive lt rt (2 * i) = Some xs"
        "\<forall>k\<in>set xs. \<exists>b<n. k \<in> set (bucket_keys lt rt b) \<and> \<not> ?eq (n + b)"
        "\<forall>b<n. below (2 * i) (n + b) \<and> \<not> ?eq (n + b) \<longrightarrow> set (bucket_keys lt rt b) \<subseteq> set xs"
        using less.hyps [OF smaller(1) _ smaller(3)] less.prems by auto
      obtain ys where ys: "compare_recursive lt rt (2 * i + 1) = Some ys"
        "\<forall>k\<in>set ys. \<exists>b<n. k \<in> set (bucket_keys lt rt b) \<and> \<not> ?eq (n + b)"
        "\<forall>b<n. below (2 * i + 1) (n + b) \<and> \<not> ?eq (n + b) \<longrightarrow> set (bucket_keys lt rt b) \<subseteq> set ys"
        using less.hyps [OF smaller(2) _ smaller(4)] less.prems by auto
      have "compare_recursive lt rt i = Some (xs @ ys)"
        using neq False n xs(1) ys(1) by (subst compare_recursive.simps) simp
      moreover have "set (bucket_keys lt rt b) \<subseteq> set (xs @ ys)" if "b < n" "below i (n + b)" "\<not> ?eq (n + b)" for b
      proof -
        have "n + b \<noteq> i" using False by simp
        then show ?thesis using below_child [OF that(2)] xs(3) ys(3) that by auto
      qed
      ultimately show ?thesis using xs(2) ys(2) by (intro exI [of _ "xs @ ys"]) auto
    qed
  qed
qed

section \<open>The buckets of a built tree\<close>

lemma assign_buckets_length [simp]: "length (assign_buckets md5 sha shown data bs) = length bs"
  unfolding assign_buckets_def by (induction data arbitrary: bs) (auto simp: Let_def)

lemma assign_buckets_nth:
  assumes "0 < length bs" and "b < length bs"
  shows "assign_buckets md5 sha shown data bs ! b =
    bs ! b @ map (\<lambda>(k, v). (k, hash_val sha shown v)) (filter (\<lambda>(k, v). hash_key md5 (length bs) k = b) data)"
  using assms unfolding assign_buckets_def
proof (induction data arbitrary: bs)
  case (Cons kv data)
  obtain k v where kv: "kv = (k, v)" by fastforce
  let ?i = "hash_key md5 (length bs) k"
  have "?i < length bs" using Cons.prems by (simp add: hash_key_def)
  with Cons.prems show ?case
    using Cons.IH [of "bs[?i := bs ! ?i @ [(k, hash_val sha shown v)]]"]
    by (auto simp: kv Let_def nth_list_update)
qed simp

definition bucket_of :: "(string \<Rightarrow> nat) \<Rightarrow> (string \<Rightarrow> string) \<Rightarrow> ('v versioned_value \<Rightarrow> string) \<Rightarrow> nat \<Rightarrow> (string, 'v versioned_value) dict \<Rightarrow> nat \<Rightarrow> bucket" where
  "bucket_of md5 sha shown n data b =
     sort_key fst (map (\<lambda>(k, v). (k, hash_val sha shown v)) (filter (\<lambda>(k, v). hash_key md5 n k = b) data))"

lemma set_bucket_of:
  assumes "dict_wf data"
  shows "(k, h) \<in> set (bucket_of md5 sha shown n data b) \<longleftrightarrow>
    hash_key md5 n k = b \<and> map_option (hash_val sha shown) (map_of data k) = Some h"
  using assms by (force simp: bucket_of_def dict_items_iff [symmetric])

lemma bucket_of_keys: "fst ` set (bucket_of md5 sha shown n data b) = {k \<in> fst ` set data. hash_key md5 n k = b}"
  by (force simp: bucket_of_def)

lemma bt_init_built:
  assumes "0 < n" and "data \<noteq> []"
  shows "bt_init md5 sha shown data n = Inr
    \<lparr>bt_num_buckets = n, bt_buckets = map (bucket_of md5 sha shown n data) [0..<n],
     bt_bucket_hashes = map (\<lambda>b. sha (bucket_text (bucket_of md5 sha shown n data b))) [0..<n],
     bt_tree = heap_tree sha (map (\<lambda>b. sha (bucket_text (bucket_of md5 sha shown n data b))) [0..<n]) Map.empty\<rparr>"
proof -
  have "map (sort_key fst) (assign_buckets md5 sha shown data (replicate n [])) = map (bucket_of md5 sha shown n data) [0..<n]"
    using assms(1) by (intro nth_equalityI) (simp_all add: assign_buckets_nth bucket_of_def)
  then show ?thesis using assms by (simp add: bt_init_def bt_build_def bt_new_def Let_def comp_def)
qed

text \<open>
  The text that a bucket feeds to the hash determines the bucket when no key contains a colon and
  all value hashes have one length.
\<close>

lemma text_parse:
  fixes c :: 'a
  shows "k @ c # r = k' @ c # r' \<Longrightarrow> c \<notin> set k \<Longrightarrow> c \<notin> set k' \<Longrightarrow> k = k' \<and> r = r'"
proof (induction k arbitrary: k')
  case Nil
  then show ?case by (cases k') auto
next
  case (Cons a k)
  then show ?case by (cases k') auto
qed

lemma bucket_text_inj:
  assumes "list_all (\<lambda>(k, h). CHR '':'' \<notin> set k \<and> length h = n) b" and "list_all (\<lambda>(k, h). CHR '':'' \<notin> set k \<and> length h = n) b'"
    and "bucket_text b = bucket_text b'"
  shows "b = b'"
  using assms
proof (induction b arbitrary: b')
  case Nil
  then show ?case by (cases b') (auto simp: bucket_text_def)
next
  case (Cons x b)
  obtain k h where x: "x = (k, h)" by fastforce
  obtain k' h' b1 where b': "b' = (k', h') # b1"
    using Cons.prems x by (cases b') (auto simp: bucket_text_def)
  have parse: "k @ CHR '':'' # h @ bucket_text b = k' @ CHR '':'' # h' @ bucket_text b1"
    using Cons.prems(3) by (simp add: x b' bucket_text_def)
  then have "k = k'" "h @ bucket_text b = h' @ bucket_text b1"
    using text_parse [OF parse] Cons.prems(1,2) by (simp_all add: x b')
  moreover from this(2) have "h = h'" "bucket_text b = bucket_text b1"
    using Cons.prems(1,2) by (auto simp: x b')
  ultimately show ?case using Cons.IH [of b1] Cons.prems(1,2) by (simp add: x b')
qed

section \<open>Comparison finds the differences\<close>

definition hashed_strings :: "(string \<Rightarrow> nat) \<Rightarrow> (string \<Rightarrow> string) \<Rightarrow> ('v versioned_value \<Rightarrow> string) \<Rightarrow> nat \<Rightarrow> (string, 'v versioned_value) dict \<Rightarrow> bucket_tree \<Rightarrow> string list" where
  "hashed_strings md5 sha shown n data T =
     (if data = [] then []
      else map (\<lambda>(_, v). shown v) data @ map (\<lambda>b. bucket_text (bucket_of md5 sha shown n data b)) [0..<n] @
           map (\<lambda>i. tree_get (bt_tree T) (2 * i) @ tree_get (bt_tree T) (2 * i + 1)) [1..<n])"

definition differs :: "('v versioned_value \<Rightarrow> string) \<Rightarrow> (string, 'v versioned_value) dict \<Rightarrow> (string, 'v versioned_value) dict \<Rightarrow> string \<Rightarrow> bool" where
  "differs shown dl dr k \<longleftrightarrow> map_option shown (map_of dl k) \<noteq> map_option shown (map_of dr k)"

lemma bt_init_facts:
  assumes "0 < n" and "bt_init md5 sha shown data n = Inr T"
  shows "bt_num_buckets T = n"
    and "b < n \<Longrightarrow> bt_buckets T ! b = bucket_of md5 sha shown n data b"
    and "data = [] \<Longrightarrow> tree_get (bt_tree T) i = []"
    and "data \<noteq> [] \<Longrightarrow> b < n \<Longrightarrow> tree_get (bt_tree T) (n + b) = sha (bucket_text (bucket_of md5 sha shown n data b))"
    and "data \<noteq> [] \<Longrightarrow> 0 < i \<Longrightarrow> i < n \<Longrightarrow>
      tree_get (bt_tree T) i = sha (tree_get (bt_tree T) (2 * i) @ tree_get (bt_tree T) (2 * i + 1))"
proof -
  let ?hs = "map (\<lambda>b. sha (bucket_text (bucket_of md5 sha shown n data b))) [0..<n]"
  have empty: "T = bt_new n" if "data = []" using that assms(2) by (simp add: bt_init_def)
  have built: "T = \<lparr>bt_num_buckets = n, bt_buckets = map (bucket_of md5 sha shown n data) [0..<n], bt_bucket_hashes = ?hs,
      bt_tree = heap_tree sha ?hs Map.empty\<rparr>" if "data \<noteq> []"
    using bt_init_built [OF assms(1) that] assms(2) by simp
  note nodes = heap_tree_nodes [where hashes = ?hs and sha = sha and t = Map.empty]
  show "bt_num_buckets T = n" by (cases "data = []") (simp_all add: empty built bt_new_def)
  show "b < n \<Longrightarrow> bt_buckets T ! b = bucket_of md5 sha shown n data b"
    by (cases "data = []") (simp_all add: empty built bt_new_def bucket_of_def)
  show "data = [] \<Longrightarrow> tree_get (bt_tree T) i = []" by (simp add: empty bt_new_def tree_get_def)
  show "data \<noteq> [] \<Longrightarrow> b < n \<Longrightarrow> tree_get (bt_tree T) (n + b) = sha (bucket_text (bucket_of md5 sha shown n data b))"
    using nodes(1) [of b] by (simp add: built)
  show "data \<noteq> [] \<Longrightarrow> 0 < i \<Longrightarrow> i < n \<Longrightarrow>
      tree_get (bt_tree T) i = sha (tree_get (bt_tree T) (2 * i) @ tree_get (bt_tree T) (2 * i + 1))"
    using nodes(2) [of i] assms(1) by (simp add: built)
qed

lemma built_node_length:
  assumes "0 < n" and "bt_init md5 sha shown data n = Inr T" and "data \<noteq> []" and "\<And>x. length (sha x) = w"
    and "0 < i" and "i < 2 * n"
  shows "length (tree_get (bt_tree T) i) = w"
proof (cases "i < n")
  case True
  then show ?thesis using bt_init_facts(5) [OF assms(1-3,5)] assms(4) by simp
next
  case False
  then show ?thesis using bt_init_facts(4) [OF assms(1-3), of "i - n"] assms(4,6) by simp
qed

lemma distinct_map_sort_key: "distinct (map f (sort_key f xs)) = distinct (map f xs)"
proof -
  have "mset (map f (sort_key f xs)) = mset (map f xs)" by simp
  then show ?thesis by (rule mset_eq_imp_distinct_iff)
qed

text \<open>Buckets with the same entries are the same list: they are sorted by distinct keys.\<close>

lemma bucket_of_eq:
  assumes "dict_wf dl" and "dict_wf dr" and "\<And>k. hash_key md5 n k = b \<Longrightarrow> \<not> differs shown dl dr k"
  shows "bucket_of md5 sha shown n dl b = bucket_of md5 sha shown n dr b"
proof (rule map_sorted_distinct_set_unique)
  have distinct: "distinct (map fst (bucket_of md5 sha shown n d b))" if "dict_wf d" for d
  proof -
    let ?xs = "map (\<lambda>(k, v). (k, hash_val sha shown v)) (filter (\<lambda>(k, v). hash_key md5 n k = b) d)"
    have "fst \<circ> (\<lambda>(k :: string, v). (k, hash_val sha shown v)) = fst" by auto
    then have "distinct (map fst ?xs)" using that by (simp add: distinct_map_filter)
    then show ?thesis
      unfolding bucket_of_def distinct_map_sort_key .
  qed
  have same: "(k, h) \<in> set (bucket_of md5 sha shown n dl b) \<longleftrightarrow> (k, h) \<in> set (bucket_of md5 sha shown n dr b)" for k h
  proof (cases "hash_key md5 n k = b")
    case True
    have "map_option (hash_val sha shown) x = map_option sha (map_option shown x)" for x
      by (cases x) (simp_all add: hash_val_def)
    with assms(3) [OF True] show ?thesis
      by (simp add: set_bucket_of [OF assms(1)] set_bucket_of [OF assms(2)] differs_def)
  qed (simp add: set_bucket_of assms)
  then show set: "set (bucket_of md5 sha shown n dl b) = set (bucket_of md5 sha shown n dr b)" by auto
  show "distinct (map fst (bucket_of md5 sha shown n dl b))" "distinct (map fst (bucket_of md5 sha shown n dr b))"
    using distinct assms(1,2) by blast+
  then show "inj_on fst (set (bucket_of md5 sha shown n dl b) \<union> set (bucket_of md5 sha shown n dr b))"
    unfolding set by (simp add: distinct_map)
  show "sorted (map fst (bucket_of md5 sha shown n dl b))" "sorted (map fst (bucket_of md5 sha shown n dr b))"
    by (simp_all add: bucket_of_def)
qed

lemma option_eq_by_members: "(\<And>x. a = Some x \<longleftrightarrow> b = Some x) \<Longrightarrow> a = b"
  by (metis option.exhaust)

lemma bucket_of_wf:
  assumes "list_all (\<lambda>(k, _). CHR '':'' \<notin> set k) data" and "\<And>x. length (sha x) = w"
  shows "list_all (\<lambda>(k, h). CHR '':'' \<notin> set k \<and> length h = w) (bucket_of md5 sha shown n data b)"
  using assms by (auto simp: bucket_of_def list_all_iff hash_val_def)

text \<open>Two trees under the assumptions on the hash.\<close>

definition no_collisions ::
    "(string \<Rightarrow> nat) \<Rightarrow> (string \<Rightarrow> string) \<Rightarrow> ('v versioned_value \<Rightarrow> string) \<Rightarrow> nat \<Rightarrow>
     (string, 'v versioned_value) dict \<Rightarrow> bucket_tree \<Rightarrow> (string, 'v versioned_value) dict \<Rightarrow> bucket_tree \<Rightarrow> bool" where
  "no_collisions md5 sha shown n dl lt dr rt \<longleftrightarrow>
     inj_on sha (set (hashed_strings md5 sha shown n dl lt) \<union> set (hashed_strings md5 sha shown n dr rt))"

lemma no_collisionsD:
  "no_collisions md5 sha shown n dl lt dr rt \<Longrightarrow> x \<in> set (hashed_strings md5 sha shown n dl lt) \<Longrightarrow>
   y \<in> set (hashed_strings md5 sha shown n dr rt) \<Longrightarrow> sha x = sha y \<Longrightarrow> x = y"
  unfolding no_collisions_def by (meson UnI1 UnI2 inj_onD)

lemma one_empty_differs:
  assumes n: "0 < n" and lt: "bt_init md5 sha shown dl n = Inr lt" and rt: "bt_init md5 sha shown dr n = Inr rt"
    and len: "\<And>x. length (sha x) = w" and "0 < w" and "(dl = []) \<noteq> (dr = [])" and "0 < i" and "i < 2 * n"
  shows "tree_get (bt_tree lt) i \<noteq> tree_get (bt_tree rt) i"
proof (cases "dl = []")
  case True
  with assms(6) have "length (tree_get (bt_tree rt) i) = w" by (intro built_node_length [OF n rt _ len assms(7,8)]) simp
  then show ?thesis using bt_init_facts(3) [OF n lt True, of i] assms(5) by auto
next
  case False
  with assms(6) have "dr = []" by simp
  moreover have "length (tree_get (bt_tree lt) i) = w" by (rule built_node_length [OF n lt False len assms(7,8)])
  ultimately show ?thesis using bt_init_facts(3) [OF n rt, of i] assms(5) by auto
qed

lemma built_faithful:
  assumes n: "0 < n" and lt: "bt_init md5 sha shown dl n = Inr lt" and rt: "bt_init md5 sha shown dr n = Inr rt"
    and len: "\<And>x. length (sha x) = w" and w: "0 < w" and inj: "no_collisions md5 sha shown n dl lt dr rt"
  shows "faithful_nodes lt rt n"
  unfolding faithful_nodes_def
proof (intro allI impI)
  let ?eq = "\<lambda>i. tree_get (bt_tree lt) i = tree_get (bt_tree rt) i"
  fix i
  assume i: "0 < i \<and> i < n \<and> ?eq i"
  then have same: "(dl = []) = (dr = [])" using one_empty_differs [OF n lt rt len w, of i] by auto
  show "?eq (2 * i) \<and> ?eq (2 * i + 1)"
  proof (cases "dl = []")
    case True
    then show ?thesis using same bt_init_facts(3) [OF n lt] bt_init_facts(3) [OF n rt] by simp
  next
    case False
    with same have ne: "dl \<noteq> []" "dr \<noteq> []" by auto
    let ?x = "\<lambda>T. tree_get (bt_tree T) (2 * i) @ tree_get (bt_tree T) (2 * i + 1)"
    have "sha (?x lt) = sha (?x rt)"
      using bt_init_facts(5) [OF n lt ne(1), of i] bt_init_facts(5) [OF n rt ne(2), of i] i by metis
    moreover have "?x lt \<in> set (hashed_strings md5 sha shown n dl lt)" "?x rt \<in> set (hashed_strings md5 sha shown n dr rt)"
      using i ne by (auto simp: hashed_strings_def)
    ultimately have "?x lt = ?x rt" using no_collisionsD [OF inj] by blast
    moreover have "length (tree_get (bt_tree lt) (2 * i)) = length (tree_get (bt_tree rt) (2 * i))"
      using built_node_length [OF n lt ne(1) len, of "2 * i"] built_node_length [OF n rt ne(2) len, of "2 * i"] i by simp
    ultimately show ?thesis by simp
  qed
qed

lemma equal_entries_no_difference:
  assumes inj: "no_collisions md5 sha shown n dl lt dr rt"
    and same: "map_option (hash_val sha shown) (map_of dl k) = map_option (hash_val sha shown) (map_of dr k)"
  shows "\<not> differs shown dl dr k"
proof -
  have inputs: "shown v \<in> set (hashed_strings md5 sha shown n d T)" if "map_of d k = Some v" for v and d T
    using map_of_SomeD [OF that] by (cases "d = []") (auto simp: hashed_strings_def intro!: image_eqI [of _ _ "(k, v)"])
  then show ?thesis
    using same no_collisionsD [OF inj] unfolding differs_def hash_val_def
    by (cases "map_of dl k"; cases "map_of dr k") auto
qed

lemma equal_leaf_no_difference:
  assumes n: "0 < n" and lt: "bt_init md5 sha shown dl n = Inr lt" and rt: "bt_init md5 sha shown dr n = Inr rt"
    and len: "\<And>x. length (sha x) = w" and w: "0 < w" and inj: "no_collisions md5 sha shown n dl lt dr rt"
    and wf: "dict_wf dl" "dict_wf dr"
    and keys: "list_all (\<lambda>(k, _). CHR '':'' \<notin> set k) dl" "list_all (\<lambda>(k, _). CHR '':'' \<notin> set k) dr"
    and k: "hash_key md5 n k = b" and b: "b < n" and eq: "tree_get (bt_tree lt) (n + b) = tree_get (bt_tree rt) (n + b)"
  shows "\<not> differs shown dl dr k"
proof (cases "dl = [] \<or> dr = []")
  case True
  then have "dl = []" "dr = []" using one_empty_differs [OF n lt rt len w, of "n + b"] b eq n by auto
  then show ?thesis by (simp add: differs_def)
next
  case False
  then have ne: "dl \<noteq> []" "dr \<noteq> []" by auto
  let ?b = "\<lambda>d. bucket_of md5 sha shown n d b"
  have "sha (bucket_text (?b dl)) = sha (bucket_text (?b dr))"
    using bt_init_facts(4) [OF n lt ne(1) b] bt_init_facts(4) [OF n rt ne(2) b] eq by simp
  moreover have "bucket_text (?b dl) \<in> set (hashed_strings md5 sha shown n dl lt)" "bucket_text (?b dr) \<in> set (hashed_strings md5 sha shown n dr rt)"
    using b ne by (auto simp: hashed_strings_def)
  ultimately have "bucket_text (?b dl) = bucket_text (?b dr)" using no_collisionsD [OF inj] by blast
  then have same: "?b dl = ?b dr"
    using bucket_text_inj [OF bucket_of_wf [OF keys(1), where sha = sha and w = w] bucket_of_wf [OF keys(2), where sha = sha and w = w]] len
    by blast
  have "map_option (hash_val sha shown) (map_of dl k) = map_option (hash_val sha shown) (map_of dr k)"
    using set_bucket_of [OF wf(1), of k _ md5 sha shown n b] set_bucket_of [OF wf(2), of k _ md5 sha shown n b] same k
    by (intro option_eq_by_members) simp
  then show ?thesis by (rule equal_entries_no_difference [OF inj])
qed

lemma different_leaf_difference:
  assumes n: "0 < n" and lt: "bt_init md5 sha shown dl n = Inr lt" and rt: "bt_init md5 sha shown dr n = Inr rt"
    and wf: "dict_wf dl" "dict_wf dr" and b: "b < n" "tree_get (bt_tree lt) (n + b) \<noteq> tree_get (bt_tree rt) (n + b)"
    and k: "k \<in> fst ` set dl \<union> fst ` set dr" "hash_key md5 n k = b"
  shows "\<exists>k'. hash_key md5 n k' = hash_key md5 n k \<and> differs shown dl dr k'"
proof (rule ccontr)
  assume "\<nexists>k'. hash_key md5 n k' = hash_key md5 n k \<and> differs shown dl dr k'"
  then have none: "\<not> differs shown dl dr k'" if "hash_key md5 n k' = b" for k' using that k(2) by simp
  have same: "bucket_of md5 sha shown n dl b = bucket_of md5 sha shown n dr b" by (rule bucket_of_eq [OF wf none])
  have "map_of dl k \<noteq> None \<or> map_of dr k \<noteq> None" using k(1) by (auto simp: map_of_eq_None_iff)
  with none [OF k(2)] have "dl \<noteq> []" "dr \<noteq> []" by (auto simp: differs_def)
  then show False using b bt_init_facts(4) [OF n lt] bt_init_facts(4) [OF n rt] same by simp
qed

text \<open>
  C38. Anti-entropy, with a hash of fixed length that does not collide on the strings that the two
  trees hash, and keys without a colon: for any two data sets and any positive number of buckets,
  the comparison of their trees ends, lists every key whose value or timestamp differs or that only
  one side has, and lists no key whose bucket holds no difference.
\<close>

theorem merkle_sync_finds_differences:
  assumes n: "0 < n" and wf: "dict_wf dl" "dict_wf dr"
    and keys: "list_all (\<lambda>(k, _). CHR '':'' \<notin> set k) dl" "list_all (\<lambda>(k, _). CHR '':'' \<notin> set k) dr"
    and len: "\<And>x. length (sha x) = w" and w: "0 < w"
    and lt: "bt_init md5 sha shown dl n = Inr lt" and rt: "bt_init md5 sha shown dr n = Inr rt"
    and inj: "no_collisions md5 sha shown n dl lt dr rt"
  shows "\<exists>ks. compare_trees lt rt = Inr (Some ks) \<and>
    (\<forall>k. differs shown dl dr k \<longrightarrow> k \<in> set ks) \<and>
    (\<forall>k\<in>set ks. k \<in> fst ` set dl \<union> fst ` set dr \<and> (\<exists>k'. hash_key md5 n k' = hash_key md5 n k \<and> differs shown dl dr k'))"
proof -
  let ?eq = "\<lambda>i. tree_get (bt_tree lt) i = tree_get (bt_tree rt) i"
  note fl = bt_init_facts [OF n lt] and fr = bt_init_facts [OF n rt]
  have root: "1 < 2 * n" using n by simp
  note spec = compare_spec [OF built_faithful [OF n lt rt len w inj] fl(1) zero_less_one root]
  obtain ks where ks: "compare_recursive lt rt 1 = Some ks"
    "\<forall>k\<in>set ks. \<exists>b<n. k \<in> set (bucket_keys lt rt b) \<and> \<not> ?eq (n + b)"
    "\<forall>b<n. below 1 (n + b) \<and> \<not> ?eq (n + b) \<longrightarrow> set (bucket_keys lt rt b) \<subseteq> set ks"
    using spec by (elim exE conjE) (rule that)
  have bucket: "set (bucket_keys lt rt b) = {k \<in> fst ` set dl \<union> fst ` set dr. hash_key md5 n k = b}" if "b < n" for b
    unfolding bucket_keys_def fl(2) [OF that] fr(2) [OF that] set_remdups set_append set_map bucket_of_keys by blast
  have "k \<in> set ks" if "differs shown dl dr k" for k
  proof -
    have b: "hash_key md5 n k < n" using n by (simp add: hash_key_def)
    have "\<not> ?eq (n + hash_key md5 n k)"
      using equal_leaf_no_difference [OF n lt rt len w inj wf keys refl b] that by blast
    moreover have "k \<in> dom (map_of dl) \<union> dom (map_of dr)" using that by (auto simp: differs_def)
    then have "k \<in> set (bucket_keys lt rt (hash_key md5 n k))"
      unfolding bucket [OF b] dom_map_of_conv_image_fst by simp
    moreover have "below 1 (n + hash_key md5 n k)" using n by (intro below_root) simp
    ultimately show ?thesis using ks(3) b by blast
  qed
  moreover have "\<exists>k'. hash_key md5 n k' = hash_key md5 n k \<and> differs shown dl dr k'" "k \<in> fst ` set dl \<union> fst ` set dr"
    if "k \<in> set ks" for k
  proof -
    from ks(2) that obtain b where b: "b < n" "k \<in> set (bucket_keys lt rt b)" "\<not> ?eq (n + b)" by blast
    then have k: "k \<in> fst ` set dl \<union> fst ` set dr" "hash_key md5 n k = b" unfolding bucket [OF b(1)] by simp_all
    then show "k \<in> fst ` set dl \<union> fst ` set dr" by simp
    show "\<exists>k'. hash_key md5 n k' = hash_key md5 n k \<and> differs shown dl dr k'"
      by (rule different_leaf_difference [OF n lt rt wf b(1,3) k])
  qed
  moreover have "compare_trees lt rt = Inr (Some ks)" using ks(1) fl(1) fr(1) by (simp add: compare_trees_def)
  ultimately show ?thesis by blast
qed

text \<open>A toy hash: the length and the text without its padding, cut to 16 characters.\<close>

definition toy_hash :: "string \<Rightarrow> string" where
  "toy_hash s = take 16 (show_nat (length s) @ filter (\<lambda>c. c \<noteq> CHR ''x'') s @ replicate 16 (CHR ''x''))"

lemma toy_hash_length: "length (toy_hash s) = 16"
  by (simp add: toy_hash_def)

lemma inj_on_list: "list_all (\<lambda>x. list_all (\<lambda>y. f x = f y \<longrightarrow> x = y) zs) zs \<Longrightarrow> inj_on f (set zs)"
  by (auto simp: inj_on_def list_all_iff)

lemma no_collisions_list:
  "list_all (\<lambda>x. list_all (\<lambda>y. sha x = sha y \<longrightarrow> x = y) (hashed_strings md5 sha shown n dl lt @ hashed_strings md5 sha shown n dr rt))
     (hashed_strings md5 sha shown n dl lt @ hashed_strings md5 sha shown n dr rt) \<Longrightarrow>
   no_collisions md5 sha shown n dl lt dr rt"
  using inj_on_list [of sha "hashed_strings md5 sha shown n dl lt @ hashed_strings md5 sha shown n dr rt"]
  by (simp add: no_collisions_def)

theorem merkle_sync_finds_differences_witness:
  "\<exists>lt rt ks. compare_trees lt rt = Inr (Some ks) \<and> ''a'' \<in> set ks \<and> ''bc'' \<notin> set ks \<and>
     bt_init length toy_hash vv_value [(''a'', \<lparr>vv_value = ''p'', vv_timestamp = 1, vv_clock = []\<rparr>), (''bc'', \<lparr>vv_value = ''r'', vv_timestamp = 1, vv_clock = []\<rparr>)] 2 = Inr lt \<and>
     bt_init length toy_hash vv_value [(''bc'', \<lparr>vv_value = ''r'', vv_timestamp = 1, vv_clock = []\<rparr>), (''a'', \<lparr>vv_value = ''q'', vv_timestamp = 2, vv_clock = []\<rparr>)] 2 = Inr rt"
proof -
  let ?dl = "[(''a'', \<lparr>vv_value = ''p'', vv_timestamp = 1, vv_clock = []\<rparr>), (''bc'', \<lparr>vv_value = ''r'', vv_timestamp = 1, vv_clock = []\<rparr>)]"
  let ?dr = "[(''bc'', \<lparr>vv_value = ''r'', vv_timestamp = 1, vv_clock = []\<rparr>), (''a'', \<lparr>vv_value = ''q'', vv_timestamp = 2, vv_clock = []\<rparr>)]"
  let ?lt = "projr (bt_init length toy_hash vv_value ?dl 2)" and ?rt = "projr (bt_init length toy_hash vv_value ?dr 2)"
  have lt: "bt_init length toy_hash vv_value ?dl 2 = Inr ?lt" and rt: "bt_init length toy_hash vv_value ?dr 2 = Inr ?rt"
    by (simp_all add: bt_init_built)
  have "no_collisions length toy_hash vv_value 2 ?dl ?lt ?dr ?rt"
    by (rule no_collisions_list) code_simp
  from merkle_sync_finds_differences [OF _ _ _ _ _ toy_hash_length _ lt rt this]
  obtain ks where ks: "compare_trees ?lt ?rt = Inr (Some ks)" "\<And>k. differs vv_value ?dl ?dr k \<Longrightarrow> k \<in> set ks"
    "\<And>k. k \<in> set ks \<Longrightarrow> \<exists>k'. hash_key length 2 k' = hash_key length 2 k \<and> differs vv_value ?dl ?dr k'"
    by auto
  have "''a'' \<in> set ks" by (rule ks(2)) (simp add: differs_def)
  moreover have "''bc'' \<notin> set ks"
  proof
    assume "''bc'' \<in> set ks"
    from ks(3) [OF this] obtain k' where k': "hash_key length 2 k' = hash_key length 2 ''bc''" "differs vv_value ?dl ?dr k'" by blast
    from k'(2) have "k' = ''a''" by (auto simp: differs_def split: if_splits)
    with k'(1) show False by (simp add: hash_key_def)
  qed
  ultimately show ?thesis using ks(1) lt rt by blast
qed

text \<open>
  With a colon in a key the hashes need not collide for the comparison to miss a difference: two
  entries of a bucket and one entry whose key holds the text of the first feed the same bytes.
\<close>

theorem bucket_text_ambiguous:
  "bucket_text [(''a'', h1), (''b'', h2)] = bucket_text [(''a:'' @ h1 @ ''b'', h2)]"
  by (simp add: bucket_text_def)

end
