(* ===== verification/Tracing.thy ===== *)
theory Tracing
  imports Json
begin

text \<open>
  \<open>distributed-tracing/src/tracing\<close>: spans and their contexts (\<open>span.py\<close>), the tracer that starts and
  records them and carries contexts between services (\<open>tracer.py\<close>), and the chart of a trace
  (\<open>visualization.py\<close>). Spans are shared objects, so the tracer's world is a store of spans and the
  recorded list of their addresses. \<open>uuid4\<close>, the clock and the sampling draw are arguments.
\<close>

section \<open>Spans\<close>

record span_context =
  sc_trace_id :: string
  sc_span_id :: string
  sc_parent_id :: "string option"
  sc_sampled :: bool

record span =
  sp_operation_name :: string
  sp_context :: span_context
  sp_start_time :: time
  sp_end_time :: "time option"
  sp_tags :: "(string, json) dict"
  sp_logs :: "(time \<times> (string, json) dict) list"

definition span_new :: "string \<Rightarrow> span_context \<Rightarrow> time \<Rightarrow> span" where
  "span_new operation_name ctx now =
     \<lparr>sp_operation_name = operation_name, sp_context = ctx, sp_start_time = now, sp_end_time = None, sp_tags = [], sp_logs = []\<rparr>"

definition set_tag :: "span \<Rightarrow> string \<Rightarrow> json \<Rightarrow> span" where
  "set_tag s key value = s\<lparr>sp_tags := dict_set key value (sp_tags s)\<rparr>"

definition span_log :: "span \<Rightarrow> (string, json) dict \<Rightarrow> time \<Rightarrow> span" where
  "span_log s kwargs now = s\<lparr>sp_logs := sp_logs s @ [(now, kwargs)]\<rparr>"

text \<open>\<open>if self.end_time\<close>: an end at time zero counts as none.\<close>

definition truthy_time :: "time option \<Rightarrow> time option" where
  "truthy_time t = (case t of None \<Rightarrow> None | Some x \<Rightarrow> if x = 0 then None else Some x)"

definition span_duration :: "span \<Rightarrow> rat" where
  "span_duration s = (case truthy_time (sp_end_time s) of None \<Rightarrow> 0 | Some e \<Rightarrow> e - sp_start_time s)"

definition json_of_string_option :: "string option \<Rightarrow> json" where
  "json_of_string_option x = (case x of None \<Rightarrow> JNull | Some s \<Rightarrow> JStr s)"

definition span_to_dict :: "span \<Rightarrow> json" where
  "span_to_dict s =
     JObj [(''operation_name'', JStr (sp_operation_name s)), (''trace_id'', JStr (sc_trace_id (sp_context s))),
           (''span_id'', JStr (sc_span_id (sp_context s))), (''parent_id'', json_of_string_option (sc_parent_id (sp_context s))),
           (''sampled'', JBool (sc_sampled (sp_context s))), (''start_time'', JNum (sp_start_time s)),
           (''end_time'', case sp_end_time s of None \<Rightarrow> JNull | Some e \<Rightarrow> JNum e), (''duration'', JNum (span_duration s)),
           (''tags'', JObj (sp_tags s)),
           (''logs'', JList (map (\<lambda>(t, kwargs). JObj [(''timestamp'', JNum t), (''fields'', JObj kwargs)]) (sp_logs s)))]"

section \<open>The tracer\<close>

record tracer =
  tr_service_name :: string
  tr_sampling_rate :: rat
  tr_objects :: "span list"
  tr_spans :: "nat list"

definition tr_init :: "string \<Rightarrow> rat \<Rightarrow> tracer" where
  "tr_init service_name sampling_rate =
     \<lparr>tr_service_name = service_name, tr_sampling_rate = sampling_rate, tr_objects = [], tr_spans = []\<rparr>"

text \<open>
  The context of a new span. A parent with an empty trace id starts a new trace, but the span keeps
  the parent's id.
\<close>

definition span_context_for ::
    "rat \<Rightarrow> span option \<Rightarrow> span_context option \<Rightarrow> string \<Rightarrow> string \<Rightarrow> rat \<Rightarrow> span_context" where
  "span_context_for sampling_rate parent parent_context new_trace new_span draw =
     (let from = (case parent of Some p \<Rightarrow> Some (sp_context p) | None \<Rightarrow> parent_context)
      in case from of
           None \<Rightarrow>
             \<lparr>sc_trace_id = new_trace, sc_span_id = new_span, sc_parent_id = None,
              sc_sampled = (if sampling_rate < 1 \<and> sampling_rate < draw then False else True)\<rparr>
         | Some c \<Rightarrow>
             if sc_trace_id c = []
             then \<lparr>sc_trace_id = new_trace, sc_span_id = new_span, sc_parent_id = Some (sc_span_id c),
                   sc_sampled = (if sampling_rate < 1 \<and> sampling_rate < draw then False else True)\<rparr>
             else \<lparr>sc_trace_id = sc_trace_id c, sc_span_id = new_span, sc_parent_id = Some (sc_span_id c),
                   sc_sampled = sc_sampled c\<rparr>)"

text \<open>The new span is at the next address.\<close>

definition start_span ::
    "tracer \<Rightarrow> string \<Rightarrow> nat option \<Rightarrow> span_context option \<Rightarrow> string \<Rightarrow> string \<Rightarrow> rat \<Rightarrow> time \<Rightarrow> tracer \<times> nat" where
  "start_span T operation_name parent parent_context new_trace new_span draw now =
     (let p = (case parent of None \<Rightarrow> None | Some a \<Rightarrow> Some (tr_objects T ! a));
          c = span_context_for (tr_sampling_rate T) p parent_context new_trace new_span draw
      in (T\<lparr>tr_objects := tr_objects T @ [span_new operation_name c now]\<rparr>, length (tr_objects T)))"

definition tr_record :: "tracer \<Rightarrow> nat \<Rightarrow> tracer" where
  "tr_record T a = (if sc_sampled (sp_context (tr_objects T ! a)) then T\<lparr>tr_spans := tr_spans T @ [a]\<rparr> else T)"

definition update_span :: "tracer \<Rightarrow> nat \<Rightarrow> (span \<Rightarrow> span) \<Rightarrow> tracer" where
  "update_span T a f = T\<lparr>tr_objects := (tr_objects T)[a := f (tr_objects T ! a)]\<rparr>"

definition span_finish :: "tracer \<Rightarrow> nat \<Rightarrow> time \<Rightarrow> tracer" where
  "span_finish T a now =
     (if sp_end_time (tr_objects T ! a) \<noteq> None then T
      else tr_record (update_span T a (\<lambda>s. s\<lparr>sp_end_time := Some now\<rparr>)) a)"

text \<open>Leaving a \<open>with\<close> block; the message of the exception, if one is passing.\<close>

definition span_exit :: "tracer \<Rightarrow> nat \<Rightarrow> string option \<Rightarrow> time \<Rightarrow> tracer" where
  "span_exit T a exc now =
     (case exc of
        None \<Rightarrow> span_finish T a now
      | Some msg \<Rightarrow>
          span_finish (update_span T a (\<lambda>s. set_tag (set_tag s ''error'' (JBool True)) ''error.message'' (JStr msg))) a now)"

type_synonym carrier = "(string, string) dict"

definition tr_extract :: "carrier \<Rightarrow> span_context option" where
  "tr_extract carrier =
     (let trace_id = map_of carrier ''x-trace-id'';
          span_id = map_of carrier ''x-span-id'';
          sampled_str = map_of carrier ''x-trace-sampled'';
          sampled = (if sampled_str = Some ''0'' \<or> sampled_str = Some ''false'' then False else True)
      in case (trace_id, span_id) of
           (Some t, Some s) \<Rightarrow>
             if t \<noteq> [] \<and> s \<noteq> [] then Some \<lparr>sc_trace_id = t, sc_span_id = s, sc_parent_id = None, sc_sampled = sampled\<rparr> else None
         | _ \<Rightarrow> None)"

definition tr_inject :: "span_context \<Rightarrow> carrier \<Rightarrow> carrier" where
  "tr_inject c carrier =
     dict_set ''x-trace-sampled'' (if sc_sampled c then ''1'' else ''0'')
       (dict_set ''x-span-id'' (sc_span_id c) (dict_set ''x-trace-id'' (sc_trace_id c) carrier))"

definition get_finished_spans :: "tracer \<Rightarrow> span list" where
  "get_finished_spans T = map (\<lambda>a. tr_objects T ! a) (tr_spans T)"

definition tr_clear :: "tracer \<Rightarrow> tracer" where
  "tr_clear T = T\<lparr>tr_spans := []\<rparr>"

section \<open>The chart\<close>

text \<open>The spans by trace, in the order in which the traces first appear.\<close>

definition group_traces :: "span list \<Rightarrow> (string, span list) dict" where
  "group_traces spans =
     fold (\<lambda>s d. let tid = sc_trace_id (sp_context s) in dict_set tid (dict_get d tid [] @ [s]) d) spans []"

record chart_row =
  cr_name :: string
  cr_indent :: int
  cr_width :: int
  cr_duration :: rat

definition ljust :: "nat \<Rightarrow> string \<Rightarrow> string" where
  "ljust n s = s @ replicate (n - length s) (CHR '' '')"

definition chart_end :: "span \<Rightarrow> time" where
  "chart_end s = (case truthy_time (sp_end_time s) of None \<Rightarrow> sp_start_time s | Some e \<Rightarrow> e)"

text \<open>
  \<open>sort\<close> is stable. A row has the padded name, the number of blanks and of blocks of its bar, and
  the duration.
\<close>

definition total_duration :: "span list \<Rightarrow> rat" where
  "total_duration trace_spans =
     (let d = Max (set (map chart_end trace_spans)) - sp_start_time (hd trace_spans) in if d \<le> 0 then 1 / 1000000 else d)"

definition chart_rows :: "span list \<Rightarrow> chart_row list" where
  "chart_rows spans =
     (let trace_spans = sort_key sp_start_time spans
      in if trace_spans = [] then []
         else let start_time = sp_start_time (hd trace_spans); total = total_duration trace_spans
              in map (\<lambda>s. let d = span_duration s
                          in \<lparr>cr_name = ljust 27 (take 25 (sp_operation_name s)),
                              cr_indent = py_int ((sp_start_time s - start_time) / total * 50),
                              cr_width = max 1 (py_int (d / total * 50)), cr_duration = d\<rparr>) trace_spans)"

definition print_trace :: "span list \<Rightarrow> (string \<times> chart_row list) list" where
  "print_trace spans = map (\<lambda>(tid, trace_spans). (tid, chart_rows trace_spans)) (group_traces spans)"

section \<open>What is recorded\<close>

text \<open>
  \<open>Start name parent context new_trace new_span draw now\<close>: the identifiers that \<open>uuid4\<close> would give
  and the number that \<open>random.random()\<close> would give come with the call.
\<close>

datatype trace_op = Start string "nat option" "span_context option" string string rat time
  | Tag nat string json | Log nat "(string, json) dict" time | Finish nat time | Exit nat "string option" time | Clear

text \<open>Spans exist before they are used, and \<open>uuid4\<close> is not empty.\<close>

fun op_allowed :: "tracer \<Rightarrow> trace_op \<Rightarrow> bool" where
  "op_allowed T (Start name parent ctx new_trace new_span draw now) \<longleftrightarrow>
     new_trace \<noteq> [] \<and> (case parent of None \<Rightarrow> True | Some p \<Rightarrow> p < length (tr_objects T))"
| "op_allowed T (Tag a key value) \<longleftrightarrow> a < length (tr_objects T)"
| "op_allowed T (Log a kwargs now) \<longleftrightarrow> a < length (tr_objects T)"
| "op_allowed T (Finish a now) \<longleftrightarrow> a < length (tr_objects T)"
| "op_allowed T (Exit a exc now) \<longleftrightarrow> a < length (tr_objects T)"
| "op_allowed T Clear \<longleftrightarrow> True"

fun trace_step :: "tracer \<Rightarrow> trace_op \<Rightarrow> tracer" where
  "trace_step T (Start name parent ctx new_trace new_span draw now) = fst (start_span T name parent ctx new_trace new_span draw now)"
| "trace_step T (Tag a key value) = update_span T a (\<lambda>s. set_tag s key value)"
| "trace_step T (Log a kwargs now) = update_span T a (\<lambda>s. span_log s kwargs now)"
| "trace_step T (Finish a now) = span_finish T a now"
| "trace_step T (Exit a exc now) = span_exit T a exc now"
| "trace_step T Clear = tr_clear T"

fun trace_run :: "tracer \<Rightarrow> trace_op list \<Rightarrow> tracer option" where
  "trace_run T [] = Some T"
| "trace_run T (x # ops) = (if op_allowed T x then trace_run (trace_step T x) ops else None)"

text \<open>
  The decisions on traces: where a span without parent takes its trace from a context of another
  service, the decision is that of the context; where it opens a trace, that of the draw. \<open>decided\<close>
  says that the calls of a run agree on them, that is, that no two contexts with one trace id
  differ in \<open>sampled\<close> and that new trace ids are new.
\<close>

fun decided :: "(string \<Rightarrow> bool) \<Rightarrow> rat \<Rightarrow> trace_op \<Rightarrow> bool" where
  "decided decision rate (Start name None ctx new_trace new_span draw now) \<longleftrightarrow>
     (case ctx of
        Some c \<Rightarrow> if sc_trace_id c \<noteq> [] then decision (sc_trace_id c) = sc_sampled c
                  else decision new_trace = (rate \<ge> 1 \<or> draw \<le> rate)
      | None \<Rightarrow> decision new_trace = (rate \<ge> 1 \<or> draw \<le> rate))"
| "decided decision rate _ \<longleftrightarrow> True"

text \<open>The spans that have ended, and those that ended after the last \<open>clear()\<close>, in order.\<close>

fun note_end :: "nat set \<times> nat list \<Rightarrow> trace_op \<Rightarrow> nat set \<times> nat list" where
  "note_end (seen, since) (Finish a now) = (if a \<in> seen then (seen, since) else (insert a seen, since @ [a]))"
| "note_end (seen, since) (Exit a exc now) = (if a \<in> seen then (seen, since) else (insert a seen, since @ [a]))"
| "note_end (seen, since) Clear = (seen, [])"
| "note_end (seen, since) _ = (seen, since)"

definition ended_since_clear :: "trace_op list \<Rightarrow> nat list" where
  "ended_since_clear ops = snd (foldl note_end ({}, []) ops)"

definition trace_of :: "tracer \<Rightarrow> nat \<Rightarrow> string" where
  "trace_of T a = sc_trace_id (sp_context (tr_objects T ! a))"

definition sampled_at :: "tracer \<Rightarrow> nat \<Rightarrow> bool" where
  "sampled_at T a = sc_sampled (sp_context (tr_objects T ! a))"

definition finished_at :: "tracer \<Rightarrow> nat \<Rightarrow> bool" where
  "finished_at T a \<longleftrightarrow> sp_end_time (tr_objects T ! a) \<noteq> None"

lemmas span_views = trace_of_def sampled_at_def finished_at_def

definition tr_inv :: "(string \<Rightarrow> bool) \<Rightarrow> rat \<Rightarrow> tracer \<Rightarrow> nat set \<Rightarrow> nat list \<Rightarrow> bool" where
  "tr_inv decision rate T seen since \<longleftrightarrow>
     tr_sampling_rate T = rate \<and> tr_spans T = filter (\<lambda>a. decision (trace_of T a)) since \<and>
     distinct since \<and> set since \<subseteq> seen \<and> seen = {a. a < length (tr_objects T) \<and> finished_at T a} \<and>
     (\<forall>a<length (tr_objects T). trace_of T a \<noteq> [] \<and> sampled_at T a = decision (trace_of T a))"

text \<open>An update that leaves the context and the end of the span alone preserves the invariant.\<close>

lemma update_span_inv:
  assumes "tr_inv decision rate T seen since" and "a < length (tr_objects T)"
    and "\<And>s. sp_context (f s) = sp_context s" and "\<And>s. sp_end_time (f s) = sp_end_time s"
  shows "tr_inv decision rate (update_span T a f) seen since"
proof -
  let ?U = "update_span T a f"
  have same: "length (tr_objects ?U) = length (tr_objects T)" "tr_spans ?U = tr_spans T" "tr_sampling_rate ?U = tr_sampling_rate T"
    by (simp_all add: update_span_def)
  have views: "trace_of ?U b = trace_of T b" "sampled_at ?U b = sampled_at T b" "finished_at ?U b = finished_at T b" for b
    using assms(2-4) by (simp_all add: span_views update_span_def nth_list_update)
  show ?thesis using assms(1) unfolding tr_inv_def same views .
qed

lemma span_finish_inv:
  assumes inv: "tr_inv decision rate T seen since" and a: "a < length (tr_objects T)"
  shows "tr_inv decision rate (span_finish T a now) (insert a seen) (if a \<in> seen then since else since @ [a])"
proof (cases "a \<in> seen")
  case True
  then have "finished_at T a" using inv by (simp add: tr_inv_def)
  then show ?thesis using True inv by (simp add: span_finish_def finished_at_def insert_absorb)
next
  case False
  let ?U = "span_finish T a now"
  have open_a: "\<not> finished_at T a" using False inv a by (simp add: tr_inv_def)
  have same: "length (tr_objects ?U) = length (tr_objects T)" "tr_sampling_rate ?U = tr_sampling_rate T"
    by (simp_all add: span_finish_def tr_record_def update_span_def)
  have views: "trace_of ?U b = trace_of T b" "sampled_at ?U b = sampled_at T b" "finished_at ?U b \<longleftrightarrow> b = a \<or> finished_at T b" for b
    using open_a a by (auto simp: span_views span_finish_def tr_record_def update_span_def nth_list_update)
  have spans: "tr_spans ?U = (if sampled_at T a then tr_spans T @ [a] else tr_spans T)"
    using open_a a by (simp add: span_views span_finish_def tr_record_def update_span_def)
  show ?thesis
    using inv False a unfolding tr_inv_def same views spans by auto
qed

lemma span_exit_inv:
  assumes "tr_inv decision rate T seen since" and "a < length (tr_objects T)"
  shows "tr_inv decision rate (span_exit T a exc now) (insert a seen) (if a \<in> seen then since else since @ [a])"
proof (cases exc)
  case None
  then show ?thesis using span_finish_inv [OF assms] by (simp add: span_exit_def)
next
  case (Some msg)
  let ?U = "update_span T a (\<lambda>s. set_tag (set_tag s ''error'' (JBool True)) ''error.message'' (JStr msg))"
  have "tr_inv decision rate ?U seen since" by (rule update_span_inv [OF assms]) (simp_all add: set_tag_def)
  moreover have "a < length (tr_objects ?U)" using assms(2) by (simp add: update_span_def)
  ultimately show ?thesis using Some span_finish_inv by (simp add: span_exit_def)
qed

text \<open>A new span gets the decision of its trace.\<close>

lemma span_context_decided:
  assumes "decided decision rate (Start name parent ctx new_trace new_span draw now)" and "new_trace \<noteq> []"
    and "\<And>p. parent = Some p \<Longrightarrow> sc_trace_id (sp_context (obj p)) \<noteq> [] \<and>
      sc_sampled (sp_context (obj p)) = decision (sc_trace_id (sp_context (obj p)))"
  shows "sc_trace_id (span_context_for rate (map_option obj parent) ctx new_trace new_span draw) \<noteq> [] \<and>
    sc_sampled (span_context_for rate (map_option obj parent) ctx new_trace new_span draw) =
      decision (sc_trace_id (span_context_for rate (map_option obj parent) ctx new_trace new_span draw))"
  using assms by (cases parent; cases ctx) (auto simp: span_context_for_def split: if_splits)

lemma start_span_inv:
  assumes inv: "tr_inv decision rate T seen since"
    and ok: "op_allowed T (Start name parent ctx new_trace new_span draw now)"
    and dec: "decided decision rate (Start name parent ctx new_trace new_span draw now)"
  shows "tr_inv decision rate (fst (start_span T name parent ctx new_trace new_span draw now)) seen since"
proof -
  let ?U = "fst (start_span T name parent ctx new_trace new_span draw now)" and ?n = "length (tr_objects T)"
  let ?c = "span_context_for rate (map_option (\<lambda>p. tr_objects T ! p) parent) ctx new_trace new_span draw"
  have c: "sc_trace_id ?c \<noteq> [] \<and> sc_sampled ?c = decision (sc_trace_id ?c)"
  proof (rule span_context_decided [OF dec])
    show "new_trace \<noteq> []" using ok by simp
    show "sc_trace_id (sp_context (tr_objects T ! p)) \<noteq> [] \<and>
      sc_sampled (sp_context (tr_objects T ! p)) = decision (sc_trace_id (sp_context (tr_objects T ! p)))" if "parent = Some p" for p
      using that ok inv by (simp add: tr_inv_def span_views)
  qed
  have parent: "(case parent of None \<Rightarrow> None | Some a \<Rightarrow> Some (tr_objects T ! a)) = map_option (\<lambda>p. tr_objects T ! p) parent"
    by (cases parent) simp_all
  have U: "?U = T\<lparr>tr_objects := tr_objects T @ [span_new name ?c now]\<rparr>"
    using inv by (simp add: start_span_def Let_def parent tr_inv_def)
  have len: "length (tr_objects ?U) = Suc ?n" and rest: "tr_spans ?U = tr_spans T" "tr_sampling_rate ?U = tr_sampling_rate T"
    by (simp_all add: U)
  have old: "trace_of ?U a = trace_of T a" "sampled_at ?U a = sampled_at T a" "finished_at ?U a = finished_at T a" if "a < ?n" for a
    using that by (simp_all add: span_views U nth_append)
  have new: "trace_of ?U ?n = sc_trace_id ?c" "sampled_at ?U ?n = sc_sampled ?c" "\<not> finished_at ?U ?n"
    by (simp_all add: span_views U nth_append span_new_def)
  have seen: "seen = {a. a < Suc ?n \<and> finished_at ?U a}"
    using inv old(3) new(3) less_Suc_eq by (auto simp: tr_inv_def)
  have "filter (\<lambda>a. decision (trace_of ?U a)) since = filter (\<lambda>a. decision (trace_of T a)) since"
    using inv old(1) by (intro filter_cong) (auto simp: tr_inv_def)
  moreover have "\<forall>a<Suc ?n. trace_of ?U a \<noteq> [] \<and> sampled_at ?U a = decision (trace_of ?U a)"
    using inv old new c by (auto simp: tr_inv_def less_Suc_eq)
  ultimately show ?thesis using inv seen unfolding tr_inv_def len rest by metis
qed

lemma trace_step_inv:
  assumes inv: "tr_inv decision rate T seen since" and ok: "op_allowed T x" and dec: "decided decision rate x"
  shows "tr_inv decision rate (trace_step T x) (fst (note_end (seen, since) x)) (snd (note_end (seen, since) x))"
proof (cases x)
  case (Start name parent ctx new_trace new_span draw now)
  then show ?thesis using start_span_inv [OF inv, of name parent ctx] ok dec by simp
next
  case (Finish a now)
  then show ?thesis using span_finish_inv [OF inv, of a now] ok by (simp add: insert_absorb split: if_splits)
next
  case (Exit a exc now)
  then show ?thesis using span_exit_inv [OF inv, of a exc now] ok by (simp add: insert_absorb split: if_splits)
next
  case Clear
  then show ?thesis using inv by (simp add: tr_inv_def tr_clear_def span_views)
qed (use inv ok in \<open>simp_all add: update_span_inv set_tag_def span_log_def\<close>)

lemma trace_run_inv:
  assumes "trace_run T ops = Some U" and "tr_inv decision rate T seen since" and "list_all (decided decision rate) ops"
  shows "\<exists>seen'. tr_inv decision rate U seen' (snd (foldl note_end (seen, since) ops))"
  using assms
proof (induction ops arbitrary: T seen since)
  case (Cons x ops)
  then have x: "op_allowed T x" "decided decision rate x" "trace_run (trace_step T x) ops = Some U" by (auto split: if_splits)
  from Cons.IH [OF x(3) trace_step_inv [OF Cons.prems(2) x(1,2)]] Cons.prems(3) show ?case by simp
qed auto

text \<open>
  C39. Whole traces. In every run of a tracer, with spans started as roots, under a parent or from a
  context of another service, and the recorded spans cleared at any point, let the calls agree on a
  decision for each trace. Then the recorded spans are exactly the spans that ended since the last
  clear and whose trace was decided to be sampled, each once and in the order in which they ended;
  so of the spans of one trace that ended since then, all are reported or none.
\<close>

theorem tracer_reports_whole_traces:
  assumes "trace_run (tr_init service_name rate) ops = Some T" and "list_all (decided decision rate) ops"
  shows "tr_spans T = filter (\<lambda>a. decision (trace_of T a)) (ended_since_clear ops) \<and> distinct (ended_since_clear ops) \<and>
    (\<forall>a b. a \<in> set (ended_since_clear ops) \<and> b \<in> set (ended_since_clear ops) \<and> trace_of T a = trace_of T b \<longrightarrow>
       (a \<in> set (tr_spans T) \<longleftrightarrow> b \<in> set (tr_spans T)))"
proof -
  have "tr_inv decision rate (tr_init service_name rate) {} []" by (simp add: tr_inv_def tr_init_def)
  from trace_run_inv [OF assms(1) this assms(2)] obtain seen where "tr_inv decision rate T seen (ended_since_clear ops)"
    by (auto simp: ended_since_clear_def)
  then have "tr_spans T = filter (\<lambda>a. decision (trace_of T a)) (ended_since_clear ops)" and "distinct (ended_since_clear ops)"
    by (simp_all add: tr_inv_def)
  then show ?thesis by auto
qed

text \<open>
  A root and its child, two requests of a trace that another service decided not to sample, a clear,
  and a span that ends by an exception.
\<close>

definition traced_calls :: "trace_op list" where
  "traced_calls =
     [Start ''root'' None None ''t1'' ''s1'' (1 / 4) 0, Start ''child'' (Some 0) None ''x'' ''s2'' 1 1,
      Start ''remote'' None (Some \<lparr>sc_trace_id = ''t9'', sc_span_id = ''s9'', sc_parent_id = None, sc_sampled = False\<rparr>) ''x'' ''s3'' 0 1,
      Finish 0 2, Clear, Finish 1 2, Finish 1 3, Finish 0 4, Finish 2 4,
      Start ''other'' None None ''t2'' ''s4'' (2 / 4) 5, Exit 3 (Some ''boom'') 6]"

theorem tracer_reports_whole_traces_witness:
  "map_option tr_spans (trace_run (tr_init ''svc'' (1 / 2)) traced_calls) = Some [1, 3]"
proof -
  let ?decision = "\<lambda>t. t \<noteq> ''t9''"
  have "trace_run (tr_init ''svc'' (1 / 2)) traced_calls \<noteq> None" by code_simp
  then obtain T where T: "trace_run (tr_init ''svc'' (1 / 2)) traced_calls = Some T" by blast
  have ended: "ended_since_clear traced_calls = [1, 2, 3]" by (simp add: traced_calls_def ended_since_clear_def)
  have "map_option (\<lambda>T. map (trace_of T) [1, 2, 3]) (trace_run (tr_init ''svc'' (1 / 2)) traced_calls) = Some [''t1'', ''t9'', ''t2'']"
    by code_simp
  then have "trace_of T 1 = ''t1''" "trace_of T 2 = ''t9''" "trace_of T 3 = ''t2''" using T by simp_all
  moreover have "list_all (decided ?decision (1 / 2)) traced_calls" by (simp add: traced_calls_def)
  ultimately show ?thesis using tracer_reports_whole_traces [OF T, of ?decision] T by (simp add: ended)
qed

text \<open>
  The decision belongs to the context and not to the trace: two requests that carry one trace id and
  different sampling headers are decided one by one, and the trace is reported in part.
\<close>

theorem trace_split_by_headers:
  "map_option (\<lambda>T. (tr_spans T, map (trace_of T) [0, 1])) (trace_run (tr_init ''svc'' 1)
      [Start ''a'' None (tr_extract [(''x-trace-id'', ''t''), (''x-span-id'', ''s''), (''x-trace-sampled'', ''0'')]) ''x'' ''s1'' 0 0,
       Start ''b'' None (tr_extract [(''x-trace-id'', ''t''), (''x-span-id'', ''s''), (''x-trace-sampled'', ''1'')]) ''x'' ''s2'' 0 0,
       Finish 0 1, Finish 1 1]) = Some ([1], [''t'', ''t''])"
  by code_simp

text \<open>
  A context that one service injects into a carrier, whatever the carrier held before, is what
  another extracts from it, without the parent; so a span started from the extracted context is in
  the same trace, is a child of the injected span and has its sampling decision. Two empty strings
  or missing fields give no context.
\<close>

theorem trace_context_roundtrip:
  assumes "sc_trace_id c \<noteq> []" and "sc_span_id c \<noteq> []"
  shows "tr_extract (tr_inject c carrier) = Some (c\<lparr>sc_parent_id := None\<rparr>) \<and>
    (let (T', a) = start_span T name None (tr_extract (tr_inject c carrier)) new_trace new_span draw now
     in sp_context (tr_objects T' ! a) =
          \<lparr>sc_trace_id = sc_trace_id c, sc_span_id = new_span, sc_parent_id = Some (sc_span_id c), sc_sampled = sc_sampled c\<rparr>)"
proof -
  have "tr_extract (tr_inject c carrier) = Some (c\<lparr>sc_parent_id := None\<rparr>)"
    using assms by (cases "sc_sampled c") (simp_all add: tr_extract_def tr_inject_def Let_def update_conv')
  then show ?thesis
    using assms by (simp add: start_span_def Let_def span_context_for_def span_new_def)
qed

theorem trace_context_roundtrip_witness:
  "tr_extract (tr_inject \<lparr>sc_trace_id = ''t'', sc_span_id = ''s'', sc_parent_id = Some ''p'', sc_sampled = False\<rparr> [(''x-trace-id'', ''old'')]) =
     Some \<lparr>sc_trace_id = ''t'', sc_span_id = ''s'', sc_parent_id = None, sc_sampled = False\<rparr>"
  using trace_context_roundtrip [of "\<lparr>sc_trace_id = ''t'', sc_span_id = ''s'', sc_parent_id = Some ''p'', sc_sampled = False\<rparr>" "[(''x-trace-id'', ''old'')]"]
  by simp

section \<open>The chart fits its line\<close>

lemma py_int_nonneg: "0 \<le> x \<Longrightarrow> py_int x = \<lfloor>x\<rfloor>"
  by (simp add: py_int_def)

text \<open>A span that has ended did not end before it began.\<close>

definition span_ok :: "span \<Rightarrow> bool" where
  "span_ok s \<longleftrightarrow> (case sp_end_time s of None \<Rightarrow> True | Some e \<Rightarrow> sp_start_time s \<le> e \<and> 0 < e)"

lemma span_ok_end: "span_ok s \<Longrightarrow> chart_end s = sp_start_time s + span_duration s \<and> 0 \<le> span_duration s"
  by (auto simp: span_ok_def chart_end_def span_duration_def truthy_time_def split: option.splits)

lemma bar_fits:
  assumes "0 \<le> off" and "0 \<le> d" and "off + d \<le> tot" and "(0 :: rat) < tot"
  shows "0 \<le> py_int (off / tot * 50) \<and> py_int (off / tot * 50) + max 1 (py_int (d / tot * 50)) \<le> 51"
proof -
  let ?x = "off / tot * 50" and ?y = "d / tot * 50"
  have pos: "0 \<le> ?x" "0 \<le> ?y" using assms by simp_all
  have "?x + ?y = (off + d) / tot * 50" by (simp add: add_divide_distrib algebra_simps)
  also have "\<dots> \<le> 50" using assms by (simp add: field_simps)
  finally have sum: "?x + ?y \<le> 50" .
  have "\<lfloor>?x\<rfloor> + \<lfloor>?y\<rfloor> \<le> 50" using le_floor_add [of ?x ?y] floor_mono [OF sum] by (simp only: floor_numeral)
  moreover have "\<lfloor>?x\<rfloor> \<le> 50" using pos sum floor_mono [of ?x 50] by simp
  moreover have "0 \<le> \<lfloor>?x\<rfloor>" using pos by simp
  ultimately show ?thesis unfolding py_int_nonneg [OF pos(1)] py_int_nonneg [OF pos(2)] by (intro conjI; linarith)
qed

lemma chart_rows_fit:
  assumes "list_all span_ok spans"
  shows "list_all (\<lambda>r. 0 \<le> cr_indent r \<and> 1 \<le> cr_width r \<and> cr_indent r + cr_width r \<le> 51 \<and> length (cr_name r) = 27) (chart_rows spans)"
proof (cases "sort_key sp_start_time spans")
  case Nil
  then show ?thesis by (simp add: chart_rows_def)
next
  case (Cons s0 rest)
  let ?ss = "sort_key sp_start_time spans"
  have sorted: "sorted (map sp_start_time ?ss)" by simp
  have ok: "span_ok s" if "s \<in> set ?ss" for s using assms that by (simp add: list_all_iff)
  have first: "sp_start_time s0 \<le> sp_start_time s" if "s \<in> set ?ss" for s
    using sorted that unfolding Cons by auto
  have total: "0 < total_duration ?ss" by (simp add: total_duration_def Let_def)
  have fits: "(sp_start_time s - sp_start_time s0) + span_duration s \<le> total_duration ?ss" if "s \<in> set ?ss" for s
  proof -
    have "chart_end s \<le> Max (set (map chart_end ?ss))" using that by (intro Max_ge) auto
    moreover have "Max (set (map chart_end ?ss)) - sp_start_time s0 \<le> total_duration ?ss"
      unfolding total_duration_def Let_def using Cons by (simp only: list.sel) (auto simp: field_simps)
    ultimately have "chart_end s - sp_start_time s0 \<le> total_duration ?ss" by linarith
    with span_ok_end [OF ok [OF that]] show ?thesis by simp
  qed
  let ?row = "\<lambda>s. \<lparr>cr_name = ljust 27 (take 25 (sp_operation_name s)),
        cr_indent = py_int ((sp_start_time s - sp_start_time s0) / total_duration ?ss * 50),
        cr_width = max 1 (py_int (span_duration s / total_duration ?ss * 50)), cr_duration = span_duration s\<rparr>"
  have rows: "chart_rows spans = map ?row ?ss" unfolding chart_rows_def Let_def using Cons by simp
  have "0 \<le> cr_indent r \<and> 1 \<le> cr_width r \<and> cr_indent r + cr_width r \<le> 51 \<and> length (cr_name r) = 27"
    if "r \<in> set (chart_rows spans)" for r
  proof -
    from that obtain s where s: "s \<in> set ?ss" and r: "r = ?row s" unfolding rows by auto
    from bar_fits [OF _ _ fits [OF s] total] first [OF s] span_ok_end [OF ok [OF s]] show ?thesis
      by (simp add: r ljust_def)
  qed
  then show ?thesis by (simp add: list_all_iff)
qed

lemma group_fold:
  "map_of (fold (\<lambda>s d. let tid = sc_trace_id (sp_context s) in dict_set tid (dict_get d tid [] @ [s]) d) spans d) tid =
    (case filter (\<lambda>s. sc_trace_id (sp_context s) = tid) spans of
       [] \<Rightarrow> map_of d tid
     | ss \<Rightarrow> Some (dict_get d tid [] @ ss))"
  by (induction spans arbitrary: d) (auto simp: Let_def update_conv' dict_get_def split: list.splits)

lemma group_wf:
  "dict_wf d \<Longrightarrow> dict_wf (fold (\<lambda>s d. let tid = sc_trace_id (sp_context s) in dict_set tid (dict_get d tid [] @ [s]) d) spans d)"
  by (induction spans arbitrary: d) (simp_all add: Let_def)

lemma group_traces_exact:
  assumes "(tid, ss) \<in> set (group_traces spans)"
  shows "ss = filter (\<lambda>s. sc_trace_id (sp_context s) = tid) spans"
proof -
  have "map_of (group_traces spans) tid = Some ss"
    using assms group_wf [of "[]" spans] unfolding group_traces_def by simp
  then show ?thesis
    unfolding group_traces_def group_fold by (simp split: list.splits)
qed

text \<open>
  The chart of spans that did not end before they began has one row for each span of each trace,
  and every row fits: the name is 27 characters, the bar has at least one block and ends at most
  at column 51.
\<close>

theorem trace_chart_fits:
  assumes "list_all span_ok spans"
  shows "list_all (\<lambda>(tid, rows).
      length rows = length (filter (\<lambda>s. sc_trace_id (sp_context s) = tid) spans) \<and>
      list_all (\<lambda>r. 0 \<le> cr_indent r \<and> 1 \<le> cr_width r \<and> cr_indent r + cr_width r \<le> 51 \<and> length (cr_name r) = 27) rows)
    (print_trace spans)"
proof -
  have "length (chart_rows ss) = length ss" for ss
    by (simp add: chart_rows_def Let_def) (metis length_0_conv length_sort)
  moreover have "list_all (\<lambda>r. 0 \<le> cr_indent r \<and> 1 \<le> cr_width r \<and> cr_indent r + cr_width r \<le> 51 \<and> length (cr_name r) = 27)
      (chart_rows (filter (\<lambda>s. sc_trace_id (sp_context s) = tid) spans))" for tid
    using assms by (intro chart_rows_fit) (auto simp: list_all_iff)
  ultimately show ?thesis
    unfolding list_all_iff [of _ "print_trace spans"] by (auto simp: print_trace_def dest!: group_traces_exact)
qed

theorem trace_chart_fits_witness:
  "map (\<lambda>(tid, rows). (tid, map (\<lambda>r. (cr_indent r, cr_width r)) rows))
     (print_trace [span_new ''a'' \<lparr>sc_trace_id = ''t'', sc_span_id = ''1'', sc_parent_id = None, sc_sampled = True\<rparr> 1 \<lparr>sp_end_time := Some 3\<rparr>,
                   span_new ''b'' \<lparr>sc_trace_id = ''t'', sc_span_id = ''2'', sc_parent_id = None, sc_sampled = True\<rparr> 2]) = [(''t'', [(0, 50), (25, 1)])] \<and>
   list_all (\<lambda>(tid, rows). list_all (\<lambda>r. cr_indent r + cr_width r \<le> 51) rows)
     (print_trace [span_new ''a'' \<lparr>sc_trace_id = ''t'', sc_span_id = ''1'', sc_parent_id = None, sc_sampled = True\<rparr> 1 \<lparr>sp_end_time := Some 3\<rparr>,
                   span_new ''b'' \<lparr>sc_trace_id = ''t'', sc_span_id = ''2'', sc_parent_id = None, sc_sampled = True\<rparr> 2])"
proof -
  let ?ss = "[span_new ''a'' \<lparr>sc_trace_id = ''t'', sc_span_id = ''1'', sc_parent_id = None, sc_sampled = True\<rparr> 1 \<lparr>sp_end_time := Some 3\<rparr>,
                   span_new ''b'' \<lparr>sc_trace_id = ''t'', sc_span_id = ''2'', sc_parent_id = None, sc_sampled = True\<rparr> 2]"
  have rows: "map (\<lambda>(tid, rows). (tid, map (\<lambda>r. (cr_indent r, cr_width r)) rows)) (print_trace ?ss) = [(''t'', [(0, 50), (25, 1)])]"
    by code_simp
  have "list_all span_ok ?ss" by (simp add: span_ok_def span_new_def)
  from trace_chart_fits [OF this] have "list_all (\<lambda>(tid, rows). list_all (\<lambda>r. cr_indent r + cr_width r \<le> 51) rows) (print_trace ?ss)"
    by (rule list.pred_mono_strong) (auto simp: list_all_iff)
  with rows show ?thesis by blast
qed

end
