(* ===== verification/Spec2Isabelle.thy ===== *)
theory Spec2Isabelle
  imports Prelude Decimal Json Crdt_Base Crdt_Counters Crdt_Sets Crdt_Lww Crdt_Json Raft_Log Raft_Machine Raft_Node
    Raft_Election Raft_Replication Raft_Rpc Raft_Abstract Raft_Refinement Raft_Safety Raft_Client
    Pbft Pbft_Agreement Pbft_Progress Pbft_Memory Pbft_Wire Deadlock Locks Fenced_Db Two_Phase_Commit Merkle_Tree
    Rate_Limiter Quorum Version_Vectors Consistent_Hash Ring_Election Local_Transport Bully_Election Lease_Election
    Election_Manager Clocks Event_Log Replicated_Db Gossip_Store Gossip_Node Gossip_Network Gossip_Wire Failure_Detector
    Bloom_Filter Service_Registry Partition_Coordinator Network_Proxy
    Eventual_Consistency Anti_Entropy Tracing
begin

text \<open>
  A verification development for the repository \<open>_DistributedSystems\<close>.

  \<^bold>\<open>The program.\<close> The repository is a collection of independent Python packages, one
  directory under \<open>src/\<close> each, and each the implementation of a building block of distributed
  systems: replicated data types, Raft, PBFT, leader election, locks, two-phase commit, Merkle trees, rate
  limiters, quorums, clocks and version vectors, consistent hashing, gossip, Bloom filters, service
  discovery, a tester of network partitions, patterns of eventual consistency, tracing. Packages do not
  import one another; inside a package the classes call one another directly, share state under locks, or
  exchange messages through a transport. The development follows this: the theories of one package import
  one another, and all import \<open>Prelude\<close>.

  \<^bold>\<open>How code is modelled.\<close> A class is a record of its fields and a method a function
  from the record and the arguments to the new record and what the method returns. A Python exception is a
  value \<open>Inl\<close> of the type \<open>result\<close> of \<open>Prelude\<close>. A dictionary that
  the code iterates over is an association list in insertion order (\<open>dict\<close> with
  \<open>dict_get\<close>, \<open>dict_set\<close>, \<open>dict_del\<close>), another a function. Python
  integers are \<open>int\<close>, or \<open>nat\<close> where the code keeps them non-negative; a bit field
  is an integer with the bit operations of the library. Floats are rational or real numbers, so rounding is
  not modelled. Clock readings, random draws, uuids and the order in which a set is listed are arguments, so
  a theorem that quantifies over them covers every value. Threads, timers and callbacks are events: a run is
  a list of steps or an inductive reachability relation in which any handler may run next, which covers
  every schedule in which handlers are atomic under the lock that they hold. JSON documents are the trees
  that \<open>json.dumps\<close> prints (\<open>Json\<close>), and values of type \<open>Any\<close> that the
  code prints are Python values, of which some are refused and tuples come back as lists; decimal numerals
  are printed and read digit by digit (\<open>Decimal\<close>). Third-party code and cryptography (hash functions, the Redis client,
  YAML) are parameters; what is assumed of them (a hash of fixed length, no collision on the given trees) is
  a named hypothesis.

  \<^bold>\<open>Interfaces.\<close> The locale \<open>join_crdt\<close> (\<open>Crdt_Base\<close>) is the
  contract of \<open>CRDT.merge\<close>, a join over a state space with an invariant; it is interpreted on
  all the CRDTs and on the gossip store, and gives convergence of replicas that merged the same states.
  \<open>json_codec\<close> (\<open>Crdt_Json\<close>) is the contract of \<open>to_json\<close>/\<open>from_json\<close>: which
  states can be sent and what comes back. \<open>state_machine\<close>
  (\<open>Raft_Machine\<close>) is the abstract class of the replicated state machines, extended by
  \<open>raft_service\<close> (\<open>Raft_Replication\<close>), where the apply loop is proved against it
  and, in \<open>Raft_Safety\<close> and \<open>Raft_Client\<close>, that the stores of a cluster are
  replays of one history; both are interpreted on the key-value store and the counter.
  \<open>election_algorithm\<close> (\<open>Election_Manager\<close>) is what the manager relies on from the
  three election algorithms, and \<open>election_told\<close> extends it by the promise that a leader was last
  told that it leads; both are interpreted on each algorithm. \<open>causal_clock\<close> (\<open>Clocks\<close>) is the
  clock condition, interpreted on Lamport, hybrid and vector clocks.\<close>

subsection \<open>The theories\<close>

text \<open>
  \<^bold>\<open>CRDTs\<close> (\<open>crdt/src\<close>). \<open>Crdt_Base\<close>: the contract.
  \<open>Crdt_Counters\<close>: \<open>g_counter.py\<close>, \<open>pn_counter.py\<close>,
  \<open>causal_context.py\<close>; a replica that merged everybody's latest state reads exactly the sum of
  all increments. \<open>Crdt_Sets\<close>: \<open>g_set.py\<close>, \<open>two_phase_set.py\<close>,
  \<open>or_set.py\<close>; add wins, and a removed element of a 2P-set never comes back.
  \<open>Crdt_Lww\<close>: \<open>lww_register.py\<close>, \<open>lww_map.py\<close>; the latest write wins
  on every replica. \<open>Crdt_Json\<close>: the JSON forms, and when a state survives them.

  \<^bold>\<open>Raft\<close> (\<open>raft-from-scratch/src\<close>). \<open>Raft_Log\<close>:
  \<open>log.py\<close> and \<open>storage.py\<close>, with the three files of a node and the indices that a
  snapshot shifts. \<open>Raft_Machine\<close>: \<open>state_machine.py\<close>. \<open>Raft_Node\<close>:
  the handlers of \<open>raft_node.py\<close>. \<open>Raft_Election\<close>: a cluster over an asynchronous
  network with restarts; at most one leader in a term as long as granted votes arrive during their own
  election, and the run with two leaders otherwise. \<open>Raft_Replication\<close>: the apply loop replays
  the history of entries, compaction and restart are invisible to it, \<open>handle_append_entries\<close>
  reconciles logs, the leader commits what a majority holds. \<open>Raft_Rpc\<close>: the in-memory RPC of
  \<open>rpc.py\<close> refines the network. \<open>Raft_Abstract\<close>: the protocol without files,
  futures and machines, on logs, terms and commit indices, with its inductive invariant.
  \<open>Raft_Refinement\<close>: every step of the cluster of real nodes is a step of it.
  \<open>Raft_Safety\<close>: log matching and state machine safety of the code, which rest on the
  simulation. They hold while granted votes and acknowledgements arrive in the term they were given in and
  no log has been compacted (logs shorter than the snapshot interval never are); without the first, two
  nodes commit different entries at one index, without the second a repeated request corrupts a log, and
  both runs are theorems. A node that restarts between two steps has the term, the vote and the log that it
  had before; a crash in the middle of writing the files is not modelled. \<open>Raft_Client\<close>: \<open>config.py\<close>, the clients of
  \<open>examples/kv_store.py\<close> and \<open>examples/distributed_counter.py\<close>, which read from
  one history, and the stale read and the lost write that they allow.

  \<^bold>\<open>PBFT\<close> (\<open>byzantine-consensus/src/pbft\<close>). \<open>Pbft\<close>:
  \<open>node.py\<close>, \<open>messages.py\<close>, \<open>network.py\<close>.
  \<open>Pbft_Agreement\<close>: correct nodes never execute different digests in one slot, by an invariant
  of the sent messages and the intersection of quorums. Faulty nodes send anything, but under their own name:
  the code checks no signature, and the run in which one forged sender splits the correct nodes is a theorem.
  \<open>Pbft_Progress\<close>: with silent faulty nodes a slot whose messages have arrived, in whatever order,
  has been executed everywhere. \<open>Pbft_Memory\<close>:
  agreement over \<open>InMemoryNetwork\<close>, whose broadcasts call back into handlers that are still
  running: the handlers are cut at their broadcasts and run on a call stack; agreement then needs that a
  broadcast returns to a node in the same view. \<open>Pbft_Wire\<close>: the JSON form of the messages and
  every exception of \<open>from_dict\<close>; a node that is handed dicts behaves as one that is handed
  messages.

  \<^bold>\<open>Locks\<close> (\<open>distributed-locks/src\<close>). \<open>Locks\<close>:
  \<open>distributed_lock.py\<close>, \<open>fencing_tokens.py\<close>, \<open>lease_lock.py\<close>,
  \<open>redlock.py\<close>; mutual exclusion in time among clients that release and renew in their own name,
  and the calls of the code that do not. \<open>Fenced_Db\<close>: the database of
  \<open>examples/transaction_lock.py\<close>, and when a fencing token orders its writes.
  \<open>Deadlock\<close>: \<open>deadlock_detector.py\<close>; the search finds a cycle exactly when the
  wait-for relation has one.

  \<^bold>\<open>Transactions and data structures.\<close> \<open>Two_Phase_Commit\<close>
  (\<open>distributed-transactions/src\<close>): atomicity, timeouts included. \<open>Merkle_Tree\<close>
  (\<open>merkle-trees/src\<close>): trees verify, proofs of inclusion check, \<open>diff\<close> is exact.
  \<open>Rate_Limiter\<close> (\<open>rate-limiting/src\<close>): the bounds of the token bucket and of the
  sliding window, the leaky bucket, the adaptive limiter and the Redis script. \<open>Quorum\<close>
  (\<open>quorum-systems/src\<close>): a read sees the last write that succeeded, or one attempted after it. \<open>Bloom_Filter\<close>
  (\<open>bloom-filters/src\<close>): exact membership, counting and scalable filters.
  \<open>Consistent_Hash\<close> (\<open>consistent-hashing/src\<close>): a change of the ring moves only
  the keys it must.

  \<^bold>\<open>Time.\<close> \<open>Version_Vectors\<close> (\<open>vector-clocks-advanced/src\<close>):
  dotted version vectors stand for sets of events, interval tree clocks, causal histories.
  \<open>Clocks\<close> (\<open>clock-skew-simulator/src\<close>): the five clocks and the causality
  analyzer against Lamport's happened-before relation. \<open>Replicated_Db\<close>: the replicated database
  of \<open>examples/distributed_database.py\<close>, whose replicas keep a latest write of those they have
  seen. \<open>Event_Log\<close>: the logger of \<open>examples/event_ordering.py\<close>, whose sorted log
  is a total order that extends causality.

  \<^bold>\<open>Leader election\<close> (\<open>leader-election/src\<close>). \<open>Ring_Election\<close>,
  \<open>Bully_Election\<close>, \<open>Lease_Election\<close>: the three algorithms, each over the messages
  in flight, with nodes that stop and start; a ring elects its highest node when no node stops and elections
  are triggered only at nodes that have started, and may be left without a leader otherwise.
  \<open>Election_Manager\<close>: \<open>election_manager.py\<close> and \<open>fencing.py\<close> over all
  three; an epoch counts the calls that report the leadership, not the terms. \<open>Local_Transport\<close>:
  \<open>local_transport.py\<close>.

  \<^bold>\<open>Gossip\<close> (\<open>gossip-protocol/src\<close>). \<open>Gossip_Store\<close>:
  \<open>state_store.py\<close>. \<open>Gossip_Node\<close>: \<open>membership.py\<close>,
  \<open>gossip_node.py\<close>. \<open>Gossip_Wire\<close>: the JSON messages of \<open>message.py\<close>
  and what a node makes of a datagram whose fields have the declared types; the code stores fields of any
  type, and what it does with them later is not modelled.
  \<open>Gossip_Network\<close>: eventual delivery gives equal stores, whatever was lost, duplicated or
  reordered before. \<open>Failure_Detector\<close>: the phi detector of \<open>failure_detector.py\<close>;
  suspicion grows in silence.

  \<^bold>\<open>Services and testing.\<close> \<open>Service_Registry\<close>
  (\<open>service-discovery/src\<close>): discovery against the history of registrations and heartbeats.
  \<open>Partition_Coordinator\<close>, \<open>Network_Proxy\<close>
  (\<open>network-partition-tester/src\<close>): the link matrix against the partitions and crashes; loss,
  latency and recorded scenarios. \<open>Eventual_Consistency\<close>, \<open>Anti_Entropy\<close>
  (\<open>eventual-consistency-patterns\<close>): sessions, conflict resolution, read repair, Merkle
  comparison. \<open>Tracing\<close> (\<open>distributed-tracing/src\<close>): spans, sampling, the chart.\<close>

subsection \<open>Bounds and recursion\<close>

text \<open>
  Loops over data are structural recursion or folds; bisection (\<open>Consistent_Hash\<close>), the building of a
  Merkle tree and the apply loop of a Raft node are functions with a proof of termination, so every
  call returns. The depth-first searches of \<open>Deadlock\<close> take a bound on their depth, one more than
  the number of nodes of the graph, and give \<open>None\<close> beyond it; \<open>wfg_enough_fuel\<close> and its companion show
  that it is never reached, and \<open>deadlock_detection_exact\<close> states the result as \<open>Some\<close>. The comparison of
  two trees in \<open>Anti_Entropy\<close> gives \<open>None\<close> if it does not end, and
  \<open>merkle_sync_finds_differences\<close> shows that it ends. Polling loops (a lock that is waited for, the
  monitors of the elections, the health checks) are not run to their end: one round of the loop is an
  operation, and a run may take it any number of times at any times. \<open>ring_deliveries_terminate\<close> bounds
  the messages of an election by a measure on the messages in flight. The 64-bit halves of a digest
  and the 32-bit counters of \<open>Bloom_Filter\<close> are kept in their ranges.
\<close>

subsection \<open>Not modelled\<close>

text \<open>
  Log lines, \<open>__repr__\<close>, the demonstrations under \<open>__main__\<close>, the programs under \<open>examples/\<close> and
  \<open>simulations/\<close> that call the modelled classes and print (those named above define classes of
  their own), the drawings of
  \<open>clock-skew-simulator/src/visualizer.py\<close>, and sockets: the UDP transport of the gossip node is a
  network that may lose, duplicate and reorder. Rounding of floats, and the preemption of a thread
  inside a method where the code takes no lock, except where a theory says that it splits the method
  in steps (the health checks of \<open>Service_Registry\<close>, the late writes of \<open>Quorum\<close>, the RPC workers of
  \<open>Raft_Rpc\<close>). Each theory says at its beginning what of its files it leaves out.
\<close>

end
